(* ===== verification/Prelude.thy ===== *)
theory Prelude
  imports Complex_Main "HOL-Library.List_Lexorder"
begin

text \<open>
  What every component shares: the C++ integer types the decoder uses
  (\<open>size_t\<close> as a natural number below \<open>2 ^ 64\<close> with the wrap-around of
  its arithmetic written out, \<open>int\<close> as the 32-bit two's complement value it is
  converted to), the extended score type (\<open>float\<close> log scores together with
  \<open>-infinity\<close>; rounding and NaN are not modelled), decimal output, and the list
  lemmas behind the \<open>for\<close> loops of the code.

  A loop \<open>for (pos = lo; pos < hi; pos++) if (P(pos)) return pos\<close> is
  \<open>find P [lo..<hi]\<close>, its downward variant \<open>find P (rev [lo..<hi])\<close>, and
  a loop that updates a state is \<open>fold\<close> over \<open>[lo..<hi]\<close>.
\<close>

section \<open>Fact collections\<close>

named_theorems range_defs \<open>operations on word ranges\<close>
named_theorems bitmap_defs \<open>operations on coverage bitmaps\<close>
named_theorems sz_simps \<open>size_t arithmetic under its range conditions\<close>

section \<open>Machine integers\<close>

definition size_bound :: nat where
  "size_bound = 2 ^ 64"

definition NOT_FOUND :: nat where
  "NOT_FOUND = 2 ^ 64 - 1"

definition is_size :: "nat \<Rightarrow> bool" where
  "is_size n \<longleftrightarrow> n < size_bound"

definition sz_add :: "nat \<Rightarrow> nat \<Rightarrow> nat" where
  "sz_add a b = (a + b) mod size_bound"

definition sz_sub :: "nat \<Rightarrow> nat \<Rightarrow> nat" where
  "sz_sub a b = nat ((int a - int b) mod int size_bound)"

text \<open>The conversion of a \<open>size_t\<close> to \<open>int\<close> keeps the low 32 bits.\<close>

definition to_int32 :: "int \<Rightarrow> int" where
  "to_int32 i = (i + 2 ^ 31) mod 2 ^ 32 - 2 ^ 31"

lemma NOT_FOUND_less [simp]: "NOT_FOUND < size_bound"
  by (simp add: NOT_FOUND_def size_bound_def)

lemma Suc_NOT_FOUND [simp]: "Suc NOT_FOUND = size_bound"
  by (simp add: NOT_FOUND_def size_bound_def)

lemma size_bound_pos [simp]: "0 < size_bound"
  by (simp add: size_bound_def)

lemma sz_add_small [sz_simps]: "a + b < size_bound \<Longrightarrow> sz_add a b = a + b"
  by (simp add: sz_add_def)

lemma sz_sub_small [sz_simps]:
  assumes "b \<le> a" and "a < size_bound"
  shows "sz_sub a b = a - b"
proof -
  have "int a - int b = int (a - b)" using assms by simp
  then show ?thesis using assms by (simp add: sz_sub_def flip: zmod_int)
qed

lemma sz_sub_wrap [sz_simps]:
  assumes "a < b" and "b < size_bound"
  shows "sz_sub a b = size_bound + a - b"
proof -
  have "(int a - int b) mod int size_bound = (int a - int b + int size_bound) mod int size_bound"
    by simp
  also have "\<dots> = int (size_bound + a - b) mod int size_bound"
    using assms by (simp add: of_nat_diff algebra_simps)
  also have "\<dots> = int (size_bound + a - b)" using assms by (simp flip: zmod_int)
  finally show ?thesis by (simp add: sz_sub_def)
qed

lemma sz_sub_1 [sz_simps]: "n < size_bound \<Longrightarrow> sz_sub n 1 = (if n = 0 then NOT_FOUND else n - 1)"
  using sz_sub_small [of 1 n] sz_sub_wrap [of n 1] by (auto simp: NOT_FOUND_def size_bound_def)

lemma sz_add_less [simp]: "sz_add a b < size_bound"
  by (simp add: sz_add_def)

lemma sz_sub_less [simp]: "sz_sub a b < size_bound"
  by (simp add: sz_sub_def nat_less_iff)

lemma to_int32_small [sz_simps]: "- (2 ^ 31) \<le> i \<Longrightarrow> i < 2 ^ 31 \<Longrightarrow> to_int32 i = i"
  by (simp add: to_int32_def)

lemma to_int32_bounds: "- (2 ^ 31) \<le> to_int32 i \<and> to_int32 i < 2 ^ 31"
proof -
  have "0 \<le> (i + 2 ^ 31) mod 2 ^ 32 \<and> (i + 2 ^ 31) mod 2 ^ 32 < 2 ^ 32" by simp
  then show ?thesis by (simp add: to_int32_def)
qed

section \<open>Scores\<close>

text \<open>
  A log score is a rational number or \<open>-infinity\<close>, the value the decoder starts a
  maximum or a threshold with.
\<close>

datatype score = MinusInf | Fin rat

instantiation score :: "{linorder, zero, plus, bot}"
begin

fun less_eq_score :: "score \<Rightarrow> score \<Rightarrow> bool" where
  "less_eq_score MinusInf y \<longleftrightarrow> True"
| "less_eq_score (Fin x) MinusInf \<longleftrightarrow> False"
| "less_eq_score (Fin x) (Fin y) \<longleftrightarrow> x \<le> y"

definition less_score :: "score \<Rightarrow> score \<Rightarrow> bool" where
  "less_score x y \<longleftrightarrow> x \<le> y \<and> \<not> y \<le> x"

definition zero_score :: score where
  "0 = Fin 0"

definition bot_score :: score where
  "bot = MinusInf"

fun plus_score :: "score \<Rightarrow> score \<Rightarrow> score" where
  "plus_score (Fin x) (Fin y) = Fin (x + y)"
| "plus_score (Fin x) MinusInf = MinusInf"
| "plus_score MinusInf y = MinusInf"

instance
proof
  fix x y z :: score
  show "x < y \<longleftrightarrow> x \<le> y \<and> \<not> y \<le> x" by (rule less_score_def)
  show "x \<le> x" by (cases x) auto
  show "x \<le> y \<Longrightarrow> y \<le> z \<Longrightarrow> x \<le> z" by (cases x; cases y; cases z) auto
  show "x \<le> y \<Longrightarrow> y \<le> x \<Longrightarrow> x = y" by (cases x; cases y) auto
  show "x \<le> y \<or> y \<le> x" by (cases x; cases y) auto
qed

end

lemma score_less_simps [simp]:
  "MinusInf < Fin x" "\<not> x' < MinusInf" "Fin a < Fin b \<longleftrightarrow> a < b"
  by (cases x'; simp add: less_score_def; linarith)+

lemma score_plus_MinusInf [simp]: "x + MinusInf = MinusInf"
  by (cases x) auto

lemma score_add_mono: "(a::score) \<le> b \<Longrightarrow> c \<le> d \<Longrightarrow> a + c \<le> b + d"
  by (cases a; cases b; cases c; cases d) auto

lemma score_zero_plus [simp]: "(0::score) + x = x" "x + (0::score) = x"
  by (cases x; simp add: zero_score_def)+

section \<open>Decimal output\<close>

definition digit_char :: "nat \<Rightarrow> char" where
  "digit_char d = char_of (48 + d)"

function show_nat :: "nat \<Rightarrow> string" where
  "show_nat n = (if n < 10 then [digit_char n] else show_nat (n div 10) @ [digit_char (n mod 10)])"
  by pat_completeness auto
termination
  by (relation "measure id") auto

declare show_nat.simps [simp del]

section \<open>Loops over index intervals\<close>

lemma find_upt_Some:
  "find P [lo..<hi] = Some i \<longleftrightarrow> lo \<le> i \<and> i < hi \<and> P i \<and> (\<forall>j. lo \<le> j \<and> j < i \<longrightarrow> \<not> P j)"
proof (induction "hi - lo" arbitrary: lo)
  case 0
  then show ?case by auto
next
  case (Suc n)
  then have less: "lo < hi" by simp
  have IH: "find P [Suc lo..<hi] = Some i \<longleftrightarrow>
      Suc lo \<le> i \<and> i < hi \<and> P i \<and> (\<forall>j. Suc lo \<le> j \<and> j < i \<longrightarrow> \<not> P j)"
    using Suc by simp
  have unf: "find P [lo..<hi] = (if P lo then Some lo else find P [Suc lo..<hi])"
    using less by (simp add: upt_conv_Cons)
  show ?case
  proof (cases "P lo")
    case True
    then show ?thesis using unf less by (auto simp: le_less)
  next
    case False
    then show ?thesis using unf IH by (metis Suc_le_eq le_less)
  qed
qed

lemma find_upt_None:
  "find P [lo..<hi] = None \<longleftrightarrow> (\<forall>j. lo \<le> j \<and> j < hi \<longrightarrow> \<not> P j)"
  by (auto simp: find_None_iff)

lemma find_rev_upt_Some:
  "find P (rev [lo..<hi]) = Some i \<longleftrightarrow>
     lo \<le> i \<and> i < hi \<and> P i \<and> (\<forall>j. i < j \<and> j < hi \<longrightarrow> \<not> P j)"
proof (induction hi)
  case 0
  then show ?case by auto
next
  case (Suc hi)
  then show ?case by (auto simp: less_Suc_eq)
qed

lemma find_rev_upt_None:
  "find P (rev [lo..<hi]) = None \<longleftrightarrow> (\<forall>j. lo \<le> j \<and> j < hi \<longrightarrow> \<not> P j)"
  by (auto simp: find_None_iff)

section \<open>Collecting optional results\<close>

lemma those_Some_iff: "those xs = Some ys \<longleftrightarrow> xs = map Some ys"
proof (induction xs arbitrary: ys)
  case Nil
  then show ?case by auto
next
  case (Cons x xs)
  then show ?case by (cases ys; cases x) auto
qed

lemma those_length: "those xs = Some ys \<Longrightarrow> length ys = length xs"
  by (simp add: those_Some_iff)

end
