(* ===== verification/Words_Range.thy ===== *)
theory Words_Range
  imports Prelude
begin

text \<open>
  The contiguous source spans of the decoder (\<open>WordsRange.h\<close>, \<open>WordsRange.cpp\<close>):
  both ends are inclusive \<open>size_t\<close> positions, and the pair
  \<open>(NOT_FOUND, NOT_FOUND)\<close> is the empty range of a hypothesis that has translated
  nothing. The comparison is the strict lexicographic order, so ranges form a linear
  order in the sense of the library.
\<close>

section \<open>The class and its operations\<close>

datatype words_range = WordsRange (m_startPos: nat) (m_endPos: nat)

definition RangeNumWordsCovered :: "words_range \<Rightarrow> nat" where
  "RangeNumWordsCovered r =
     (if m_startPos r = NOT_FOUND then 0
      else sz_add (sz_sub (m_endPos r) (m_startPos r)) 1)"

definition range_less :: "words_range \<Rightarrow> words_range \<Rightarrow> bool" where
  "range_less r x \<longleftrightarrow>
     m_startPos r < m_startPos x \<or> (m_startPos r = m_startPos x \<and> m_endPos r < m_endPos x)"

definition range_eq :: "words_range \<Rightarrow> words_range \<Rightarrow> bool" where
  "range_eq r x \<longleftrightarrow> m_startPos r = m_startPos x \<and> m_endPos r = m_endPos x"

definition RangeOverlap :: "words_range \<Rightarrow> words_range \<Rightarrow> bool" where
  "RangeOverlap r x \<longleftrightarrow>
     (if m_endPos x < m_startPos r \<or> m_startPos x > m_endPos r then False else True)"

text \<open>\<open>None\<close> is the failed assertion that the two ranges do not overlap.\<close>

definition GetNumWordsBetween :: "words_range \<Rightarrow> words_range \<Rightarrow> nat option" where
  "GetNumWordsBetween r x =
     (if RangeOverlap r x then None
      else if m_endPos x < m_startPos r then Some (sz_sub (m_startPos r) (m_endPos x))
      else Some (sz_sub (m_startPos x) (m_endPos r)))"

definition show_range :: "words_range \<Rightarrow> string" where
  "show_range r = ''['' @ show_nat (m_startPos r) @ ''..'' @ show_nat (m_endPos r) @ '']''"

lemmas range_op_defs [range_defs] =
  RangeNumWordsCovered_def RangeOverlap_def GetNumWordsBetween_def range_less_def range_eq_def

section \<open>Positions of a range\<close>

definition valid_range :: "words_range \<Rightarrow> bool" where
  "valid_range r \<longleftrightarrow> m_startPos r \<le> m_endPos r \<and> m_endPos r < NOT_FOUND"

definition positions :: "words_range \<Rightarrow> nat set" where
  "positions r = {m_startPos r .. m_endPos r}"

lemma valid_rangeD [dest]:
  "valid_range r \<Longrightarrow> m_startPos r \<le> m_endPos r"
  "valid_range r \<Longrightarrow> m_endPos r < NOT_FOUND"
  by (simp_all add: valid_range_def)

lemma valid_range_simp [simp]:
  "valid_range (WordsRange s e) \<longleftrightarrow> s \<le> e \<and> e < NOT_FOUND"
  by (simp add: valid_range_def)

lemma positions_simp [simp]: "positions (WordsRange s e) = {s..e}"
  by (simp add: positions_def)

lemma range_eq_iff: "range_eq r x \<longleftrightarrow> r = x"
  by (cases r; cases x) (simp add: range_eq_def)

lemma NumWordsCovered_card:
  assumes "valid_range r"
  shows "RangeNumWordsCovered r = card (positions r)"
proof -
  have "m_startPos r \<le> m_endPos r" "m_endPos r < NOT_FOUND" using assms by auto
  then have "m_endPos r - m_startPos r + 1 < size_bound" "m_endPos r < size_bound"
    "m_startPos r \<noteq> NOT_FOUND" by (auto simp: NOT_FOUND_def size_bound_def)
  then show ?thesis using \<open>m_startPos r \<le> m_endPos r\<close>
    by (simp add: RangeNumWordsCovered_def positions_def sz_simps)
qed

lemma RangeOverlap_iff:
  assumes "valid_range r" and "valid_range x"
  shows "RangeOverlap r x \<longleftrightarrow> positions r \<inter> positions x \<noteq> {}"
proof -
  have "positions r \<inter> positions x = {max (m_startPos r) (m_startPos x) .. min (m_endPos r) (m_endPos x)}"
    by (auto simp: positions_def)
  then show ?thesis using assms by (auto simp: RangeOverlap_def valid_range_def)
qed

lemma NumWordsBetween_gap:
  assumes "valid_range r" and "valid_range x" and "m_endPos r < m_startPos x"
  shows "GetNumWordsBetween r x = Some (card {m_endPos r <..< m_startPos x} + 1)"
    and "GetNumWordsBetween x r = Some (card {m_endPos r <..< m_startPos x} + 1)"
proof -
  have "m_startPos x < size_bound" "m_startPos r < m_startPos x" "m_endPos r < m_endPos x"
    using assms by (auto simp: valid_range_def NOT_FOUND_def size_bound_def)
  then show "GetNumWordsBetween r x = Some (card {m_endPos r <..< m_startPos x} + 1)"
    and "GetNumWordsBetween x r = Some (card {m_endPos r <..< m_startPos x} + 1)"
    using assms by (auto simp: GetNumWordsBetween_def RangeOverlap_def sz_simps)
qed

section \<open>The order of ranges\<close>

instantiation words_range :: linorder
begin

definition less_words_range :: "words_range \<Rightarrow> words_range \<Rightarrow> bool" where
  "less_words_range = range_less"

definition less_eq_words_range :: "words_range \<Rightarrow> words_range \<Rightarrow> bool" where
  "less_eq_words_range r x \<longleftrightarrow> range_less r x \<or> range_eq r x"

instance
proof
  fix r x z :: words_range
  show "r < x \<longleftrightarrow> r \<le> x \<and> \<not> x \<le> r"
    by (auto simp: less_words_range_def less_eq_words_range_def range_less_def range_eq_def)
  show "r \<le> r" by (simp add: less_eq_words_range_def range_eq_def)
  show "r \<le> x \<Longrightarrow> x \<le> z \<Longrightarrow> r \<le> z"
    by (auto simp: less_eq_words_range_def range_less_def range_eq_def)
  show "r \<le> x \<Longrightarrow> x \<le> r \<Longrightarrow> r = x"
    by (auto simp: less_eq_words_range_def range_less_def range_eq_iff)
  show "r \<le> x \<or> x \<le> r"
    by (auto simp: less_eq_words_range_def range_less_def range_eq_def)
qed

end

end
