(* ===== verification/Std_Set.thy ===== *)
theory Std_Set
  imports Prelude
begin

text \<open>
  \<open>std::set\<close> over a three-way comparison. The decoder keeps its hypotheses in sets
  ordered by \<open>cmp(a, b) < 0\<close>, two elements being the same to the set when neither
  is smaller. A set is modelled by the sequence an iterator walks. The interface the
  containers rely on is the locale \<open>three_way\<close>; the components that provide a
  comparison (coverage bitmaps, hypotheses, span stacks) interpret it.
\<close>

section \<open>The container\<close>

fun set_find :: "('a \<Rightarrow> 'a \<Rightarrow> int) \<Rightarrow> 'a \<Rightarrow> 'a list \<Rightarrow> 'a option" where
  "set_find cmp x [] = None"
| "set_find cmp x (y # ys) =
     (if cmp x y < 0 then None else if cmp y x < 0 then set_find cmp x ys else Some y)"

fun set_insert :: "('a \<Rightarrow> 'a \<Rightarrow> int) \<Rightarrow> 'a \<Rightarrow> 'a list \<Rightarrow> 'a list" where
  "set_insert cmp x [] = [x]"
| "set_insert cmp x (y # ys) =
     (if cmp x y < 0 then x # y # ys else if cmp y x < 0 then y # set_insert cmp x ys else y # ys)"

fun set_erase :: "('a \<Rightarrow> 'a \<Rightarrow> int) \<Rightarrow> 'a \<Rightarrow> 'a list \<Rightarrow> 'a list" where
  "set_erase cmp x [] = []"
| "set_erase cmp x (y # ys) =
     (if cmp x y < 0 then y # ys else if cmp y x < 0 then y # set_erase cmp x ys else ys)"

definition set_ok :: "('a \<Rightarrow> 'a \<Rightarrow> int) \<Rightarrow> 'a list \<Rightarrow> bool" where
  "set_ok cmp xs \<longleftrightarrow> sorted_wrt (\<lambda>a b. cmp a b < 0) xs"

lemma three_way_set_insert_subset: "set (set_insert cmp x xs) \<subseteq> insert x (set xs)"
  by (induction xs) auto

section \<open>The comparison contract\<close>

locale three_way =
  fixes valid :: "'a \<Rightarrow> bool"
    and cmp :: "'a \<Rightarrow> 'a \<Rightarrow> int"
  assumes cmp_swap: "valid x \<Longrightarrow> valid y \<Longrightarrow> sgn (cmp y x) = - sgn (cmp x y)"
    and cmp_trans: "valid x \<Longrightarrow> valid y \<Longrightarrow> valid z \<Longrightarrow>
      cmp x y \<le> 0 \<Longrightarrow> cmp y z \<le> 0 \<Longrightarrow> cmp x z \<le> 0"
begin

lemma cmp_swap_less: "valid x \<Longrightarrow> valid y \<Longrightarrow> cmp y x < 0 \<longleftrightarrow> 0 < cmp x y"
  using cmp_swap [of x y] by (simp add: sgn_if split: if_splits)

lemma cmp_swap_le: "valid x \<Longrightarrow> valid y \<Longrightarrow> cmp y x \<le> 0 \<longleftrightarrow> 0 \<le> cmp x y"
  using cmp_swap [of x y] by (simp add: sgn_if split: if_splits)

lemma cmp_swap_eq: "valid x \<Longrightarrow> valid y \<Longrightarrow> cmp y x = 0 \<longleftrightarrow> cmp x y = 0"
  using cmp_swap [of x y] by (simp add: sgn_if split: if_splits)

lemma cmp_refl: "valid x \<Longrightarrow> cmp x x = 0"
  using cmp_swap [of x x] by (simp add: sgn_if split: if_splits)

lemma cmp_le_less_trans:
  assumes "valid x" "valid y" "valid z" "cmp x y \<le> 0" "cmp y z < 0"
  shows "cmp x z < 0"
proof (rule ccontr)
  assume "\<not> cmp x z < 0"
  then have "cmp z x \<le> 0" using cmp_swap_le [of x z] assms by simp
  then have "cmp z y \<le> 0" using cmp_trans [of z x y] assms by simp
  then show False using cmp_swap_le [of y z] assms by simp
qed

lemma cmp_less_le_trans:
  assumes "valid x" "valid y" "valid z" "cmp x y < 0" "cmp y z \<le> 0"
  shows "cmp x z < 0"
proof (rule ccontr)
  assume "\<not> cmp x z < 0"
  then have "cmp z x \<le> 0" using cmp_swap_le [of x z] assms by simp
  then have "cmp y x \<le> 0" using cmp_trans [of y z x] assms by simp
  then show False using cmp_swap_le [of x y] assms by simp
qed

lemma cmp_eq_trans:
  assumes "valid x" "valid y" "valid z" "cmp x y = 0" "cmp y z = 0"
  shows "cmp x z = 0"
proof -
  have "cmp x z \<le> 0" using cmp_trans [of x y z] assms by simp
  moreover have "cmp z x \<le> 0"
    using cmp_trans [of z y x] assms cmp_swap_eq [of x y] cmp_swap_eq [of y z] by simp
  ultimately show ?thesis using cmp_swap_le [of x z] assms by simp
qed

lemma set_find_None:
  assumes "set_ok cmp xs" "\<forall>y \<in> set xs. valid y" "valid x"
  shows "set_find cmp x xs = None \<longleftrightarrow> (\<forall>y \<in> set xs. cmp x y \<noteq> 0)"
  using assms
proof (induction xs)
  case Nil
  then show ?case by simp
next
  case (Cons y ys)
  then have later: "\<forall>z \<in> set ys. cmp y z < 0" and y: "valid y" by (auto simp: set_ok_def)
  consider "cmp x y < 0" | "cmp y x < 0" "\<not> cmp x y < 0" | "cmp x y = 0"
    using cmp_swap_less [of x y] y \<open>valid x\<close> by fastforce
  then show ?case
  proof cases
    case 1
    then have "\<forall>z \<in> set ys. cmp x z < 0"
      using later Cons.prems y cmp_less_le_trans [of x y] by fastforce
    with 1 show ?thesis by auto
  next
    case 2
    then have "cmp x y \<noteq> 0" using cmp_swap_less [of x y] y \<open>valid x\<close> by auto
    with 2 Cons show ?thesis by (auto simp: set_ok_def)
  next
    case 3
    then have "\<not> cmp y x < 0" using cmp_swap_eq [of x y] y \<open>valid x\<close> by simp
    with 3 show ?thesis by auto
  qed
qed

lemma set_find_Some:
  assumes "set_ok cmp xs" "\<forall>y \<in> set xs. valid y" "valid x" "set_find cmp x xs = Some y"
  shows "y \<in> set xs \<and> cmp x y = 0"
  using assms
proof (induction xs)
  case Nil
  then show ?case by simp
next
  case (Cons z zs)
  then show ?case
    using cmp_swap_less [of x z] by (auto simp: set_ok_def split: if_splits)
qed

lemma set_insert_found:
  assumes "set_ok cmp xs" "\<forall>y \<in> set xs. valid y" "valid x" "set_find cmp x xs = Some y"
  shows "set_insert cmp x xs = xs"
  using assms by (induction xs) (auto simp: set_ok_def split: if_splits)

lemma set_insert_set:
  assumes "set_find cmp x xs = None"
  shows "set (set_insert cmp x xs) = insert x (set xs)"
    and "length (set_insert cmp x xs) = Suc (length xs)"
  using assms by (induction xs) (auto split: if_splits)

lemmas set_insert_subset = three_way_set_insert_subset [of cmp]

lemma set_insert_ok:
  assumes "set_ok cmp xs" "\<forall>y \<in> set xs. valid y" "valid x"
  shows "set_ok cmp (set_insert cmp x xs)"
  using assms
proof (induction xs)
  case Nil
  then show ?case by (simp add: set_ok_def)
next
  case (Cons y ys)
  then have later: "\<forall>z \<in> set ys. cmp y z < 0" and y: "valid y"
    and IH: "set_ok cmp (set_insert cmp x ys)" by (auto simp: set_ok_def)
  show ?case
  proof (cases "cmp x y < 0")
    case True
    then have "\<forall>z \<in> set ys. cmp x z < 0"
      using later Cons.prems y cmp_less_le_trans [of x y] by fastforce
    with True Cons.prems show ?thesis by (simp add: set_ok_def)
  next
    case False
    then show ?thesis using Cons.prems IH later set_insert_subset [of x ys]
      by (auto simp: set_ok_def)
  qed
qed

lemma set_erase_props:
  assumes "set_ok cmp xs" "\<forall>y \<in> set xs. valid y" "valid x"
  shows "set_ok cmp (set_erase cmp x xs) \<and> set (set_erase cmp x xs) = {y \<in> set xs. cmp x y \<noteq> 0}"
  using assms
proof (induction xs)
  case Nil
  then show ?case by (simp add: set_ok_def)
next
  case (Cons y ys)
  then have later: "\<forall>z \<in> set ys. cmp y z < 0" and y: "valid y" and ys: "\<forall>z \<in> set ys. valid z"
    by (auto simp: set_ok_def)
  have lt: "\<forall>z \<in> set ys. cmp x z < 0" if "cmp x y \<le> 0"
    using later ys y that \<open>valid x\<close> cmp_le_less_trans [of x y] by blast
  consider "cmp x y < 0" | "cmp x y > 0" "cmp y x < 0" | "cmp x y = 0" "\<not> cmp y x < 0"
    using cmp_swap_less [of x y] y \<open>valid x\<close> by fastforce
  then show ?case
  proof cases
    case 1
    with lt Cons.prems show ?thesis by auto
  next
    case 2
    with Cons later show ?thesis by (auto simp: set_ok_def)
  next
    case 3
    with lt Cons.prems show ?thesis by (auto simp: set_ok_def)
  qed
qed

text \<open>The elements of a set are pairwise different to the comparison.\<close>

lemma set_ok_unique:
  assumes "set_ok cmp xs" "\<forall>y \<in> set xs. valid y" "a \<in> set xs" "b \<in> set xs" "cmp a b = 0"
  shows "a = b"
  using assms
proof (induction xs)
  case Nil
  then show ?case by simp
next
  case (Cons y ys)
  then show ?case using cmp_swap_eq [of a b] by (auto simp: set_ok_def)
qed

end

section \<open>Comparing by a list of keys\<close>

definition lex_cmp :: "('a \<Rightarrow> 'a \<Rightarrow> int) \<Rightarrow> ('a \<Rightarrow> 'a \<Rightarrow> int) \<Rightarrow> 'a \<Rightarrow> 'a \<Rightarrow> int" where
  "lex_cmp c d x y = (if c x y \<noteq> 0 then c x y else d x y)"

lemma three_way_lex:
  assumes "three_way valid c" and "three_way valid d"
  shows "three_way valid (lex_cmp c d)"
proof
  fix x y assume v: "valid x" "valid y"
  have "c y x = 0 \<longleftrightarrow> c x y = 0" using three_way.cmp_swap_eq [OF assms(1) v] .
  then show "sgn (lex_cmp c d y x) = - sgn (lex_cmp c d x y)"
    using three_way.cmp_swap [OF assms(1) v] three_way.cmp_swap [OF assms(2) v]
    by (simp add: lex_cmp_def)
next
  fix x y z
  assume v: "valid x" "valid y" "valid z"
    and xy: "lex_cmp c d x y \<le> 0" and yz: "lex_cmp c d y z \<le> 0"
  have le: "c x y \<le> 0" "c y z \<le> 0" using xy yz by (auto simp: lex_cmp_def split: if_splits)
  show "lex_cmp c d x z \<le> 0"
  proof (cases "c x y = 0 \<and> c y z = 0")
    case True
    then have "c x z = 0" using three_way.cmp_eq_trans [OF assms(1) v] by simp
    then show ?thesis
      using True xy yz three_way.cmp_trans [OF assms(2) v] by (simp add: lex_cmp_def)
  next
    case False
    then have "c x z < 0"
      using le three_way.cmp_le_less_trans [OF assms(1) v] three_way.cmp_less_le_trans [OF assms(1) v]
      by linarith
    then show ?thesis by (simp add: lex_cmp_def)
  qed
qed

lemma three_way_sgn_cong:
  assumes "three_way valid c" and "\<And>x y. valid x \<Longrightarrow> valid y \<Longrightarrow> sgn (d x y) = sgn (c x y)"
  shows "three_way valid d"
proof
  fix x y assume v: "valid x" "valid y"
  show "sgn (d y x) = - sgn (d x y)"
    using three_way.cmp_swap [OF assms(1) v] assms(2) v by simp
next
  fix x y z assume v: "valid x" "valid y" "valid z" and le: "d x y \<le> 0" "d y z \<le> 0"
  have sgn_le: "d a b \<le> 0 \<longleftrightarrow> c a b \<le> 0" if "valid a" "valid b" for a b
    using assms(2) [OF that] by (auto simp: sgn_if split: if_splits)
  show "d x z \<le> 0" using three_way.cmp_trans [OF assms(1) v] le v sgn_le by simp
qed

lemma three_way_map:
  assumes "three_way valid c" and "\<And>x. good x \<Longrightarrow> valid (f x)"
  shows "three_way good (\<lambda>x y. c (f x) (f y))"
  using three_way.cmp_swap [OF assms(1)] three_way.cmp_trans [OF assms(1)] assms(2)
  by unfold_locales blast+

lemma three_way_subset: "three_way valid c \<Longrightarrow> (\<And>x. good x \<Longrightarrow> valid x) \<Longrightarrow> three_way good c"
  using three_way_map [of valid c good id] by simp

lemma three_way_zero: "three_way valid (\<lambda>x y. 0)"
  by unfold_locales simp_all

text \<open>Comparing values of a linear order, and pointers where null comes last.\<close>

definition lin_cmp :: "'a::linorder \<Rightarrow> 'a \<Rightarrow> int" where
  "lin_cmp x y = (if x < y then -1 else if x > y then 1 else 0)"

lemma three_way_lin: "three_way valid lin_cmp"
  by unfold_locales (auto simp: lin_cmp_def split: if_splits)

definition null_last_cmp :: "('a \<Rightarrow> 'a \<Rightarrow> int) \<Rightarrow> 'a option \<Rightarrow> 'a option \<Rightarrow> int" where
  "null_last_cmp c x y =
     (case (x, y) of (None, None) \<Rightarrow> 0 | (_, None) \<Rightarrow> -1 | (None, _) \<Rightarrow> 1 | (Some a, Some b) \<Rightarrow> c a b)"

lemma three_way_null_last:
  assumes "three_way (\<lambda>x. True) c"
  shows "three_way (\<lambda>x. True) (null_last_cmp c)"
proof
  fix x y z :: "'a option"
  show "sgn (null_last_cmp c y x) = - sgn (null_last_cmp c x y)"
    by (cases x; cases y) (auto simp: null_last_cmp_def intro: three_way.cmp_swap [OF assms])
  show "null_last_cmp c x y \<le> 0 \<Longrightarrow> null_last_cmp c y z \<le> 0 \<Longrightarrow> null_last_cmp c x z \<le> 0"
    by (cases x; cases y; cases z)
      (auto simp: null_last_cmp_def intro: three_way.cmp_trans [OF assms])
qed

end
