(* ===== verification/Words_Bitmap.thy ===== *)
theory Words_Bitmap
  imports Words_Range Std_Set
begin

text \<open>
  The coverage vector of a hypothesis (\<open>WordsBitmap.h\<close>): which source words have
  been translated. The heap block \<open>m_bitmap\<close> of \<open>m_size\<close> booleans is a list of
  that length; reading or writing outside it is undefined in C++ and unspecified here,
  so the lemmas carry the index bound. An \<open>assert\<close> that fails is \<open>None\<close>.
\<close>

section \<open>The class\<close>

record words_bitmap =
  m_size :: nat
  m_bitmap :: "bool list"

definition BitmapInit :: "nat \<Rightarrow> words_bitmap" where
  "BitmapInit sz = \<lparr>m_size = sz, m_bitmap = map (\<lambda>pos. False) [0..<sz]\<rparr>"

definition BitmapInitVector :: "nat \<Rightarrow> bool list \<Rightarrow> words_bitmap" where
  "BitmapInitVector sz vec =
     \<lparr>m_size = sz,
      m_bitmap = map (\<lambda>pos. if pos < length vec \<and> vec ! pos = True then True else False) [0..<sz]\<rparr>"

definition GetValue :: "words_bitmap \<Rightarrow> nat \<Rightarrow> bool" where
  "GetValue b pos = m_bitmap b ! pos"

definition BitmapCopy :: "words_bitmap \<Rightarrow> words_bitmap" where
  "BitmapCopy copy = \<lparr>m_size = m_size copy, m_bitmap = map (GetValue copy) [0..<m_size copy]\<rparr>"

definition SetValue :: "words_bitmap \<Rightarrow> nat \<Rightarrow> bool \<Rightarrow> words_bitmap" where
  "SetValue b pos v = b\<lparr>m_bitmap := (m_bitmap b)[pos := v]\<rparr>"

definition SetValueRange :: "words_bitmap \<Rightarrow> nat \<Rightarrow> nat \<Rightarrow> bool \<Rightarrow> words_bitmap" where
  "SetValueRange b startPos endPos v = fold (\<lambda>pos b'. SetValue b' pos v) [startPos..<Suc endPos] b"

definition BitmapNumWordsCovered :: "words_bitmap \<Rightarrow> nat" where
  "BitmapNumWordsCovered b =
     fold (\<lambda>pos count. if m_bitmap b ! pos then count + 1 else count) [0..<m_size b] 0"

definition or_not_found :: "nat option \<Rightarrow> nat" where
  "or_not_found r = (case r of Some pos \<Rightarrow> pos | None \<Rightarrow> NOT_FOUND)"

definition GetFirstGapPos :: "words_bitmap \<Rightarrow> nat" where
  "GetFirstGapPos b = or_not_found (find (\<lambda>pos. \<not> m_bitmap b ! pos) [0..<m_size b])"

text \<open>The downward loops run over an \<open>int\<close>, so their bound is \<open>(int) m_size\<close>.\<close>

definition down_from_size :: "words_bitmap \<Rightarrow> nat list" where
  "down_from_size b = rev [0..<nat (to_int32 (int (m_size b)))]"

definition GetLastGapPos :: "words_bitmap \<Rightarrow> nat" where
  "GetLastGapPos b = or_not_found (find (\<lambda>pos. \<not> m_bitmap b ! pos) (down_from_size b))"

definition GetLastPos :: "words_bitmap \<Rightarrow> nat" where
  "GetLastPos b = or_not_found (find (\<lambda>pos. m_bitmap b ! pos) (down_from_size b))"

definition IsComplete :: "words_bitmap \<Rightarrow> bool" where
  "IsComplete b \<longleftrightarrow> m_size b = BitmapNumWordsCovered b"

definition BitmapOverlap :: "words_bitmap \<Rightarrow> words_range \<Rightarrow> bool" where
  "BitmapOverlap b r \<longleftrightarrow> find (\<lambda>pos. m_bitmap b ! pos) [m_startPos r..<Suc (m_endPos r)] \<noteq> None"

text \<open>The sign of \<open>memcmp\<close> on arrays of booleans.\<close>

fun memcmp_bools :: "bool list \<Rightarrow> bool list \<Rightarrow> int" where
  "memcmp_bools (x # xs) (y # ys) =
     (if x = y then memcmp_bools xs ys else if \<not> x \<and> y then -1 else 1)"
| "memcmp_bools _ _ = 0"

definition BitmapCompare :: "words_bitmap \<Rightarrow> words_bitmap \<Rightarrow> int" where
  "BitmapCompare b c =
     (let thisSize = m_size b; compareSize = m_size c
      in if thisSize \<noteq> compareSize then (if thisSize < compareSize then -1 else 1)
         else memcmp_bools (take thisSize (m_bitmap b)) (take thisSize (m_bitmap c)))"

definition bitmap_less :: "words_bitmap \<Rightarrow> words_bitmap \<Rightarrow> bool" where
  "bitmap_less b c \<longleftrightarrow> BitmapCompare b c < 0"

fun GetEdgeToTheLeftOf :: "words_bitmap \<Rightarrow> nat \<Rightarrow> nat" where
  "GetEdgeToTheLeftOf b 0 = 0"
| "GetEdgeToTheLeftOf b (Suc l) = (if \<not> m_bitmap b ! l then GetEdgeToTheLeftOf b l else Suc l)"

function GetEdgeToTheRightOf :: "words_bitmap \<Rightarrow> nat \<Rightarrow> nat" where
  "GetEdgeToTheRightOf b r =
     (if r + 1 = m_size b then r
      else if r + 1 < m_size b \<and> \<not> m_bitmap b ! (r + 1) then GetEdgeToTheRightOf b (r + 1)
      else r)"
  by pat_completeness auto
termination
  by (relation "measure (\<lambda>(b, r). m_size b - r)") auto

declare GetEdgeToTheRightOf.simps [simp del]

text \<open>
  The jump-cost estimate \<open>GetFutureCosts\<close>: one pass with the window
  \<open>(aim1, ai, aip1)\<close> of the previous, current and next flag.
\<close>

definition future_costs_step ::
    "words_bitmap \<Rightarrow> nat \<Rightarrow> int \<times> bool \<times> bool \<times> bool \<times> int \<Rightarrow> int \<times> bool \<times> bool \<times> bool \<times> int" where
  "future_costs_step b i st =
     (case st of (costs, aim1, ai, aip1, lastPos) \<Rightarrow>
        let aim1 = ai; ai = aip1; aip1 = (i + 1 = m_size b \<or> m_bitmap b ! (i + 1));
            costs = (if (i = 0 \<or> aim1) \<and> \<not> ai then costs + \<bar>lastPos - int i + 1\<bar> else costs);
            lastPos = (if i > 0 \<and> \<not> ai \<and> (i + 1 = m_size b \<or> aip1) then int (i + 1) else lastPos)
        in (costs, aim1, ai, aip1, lastPos))"

definition GetFutureCosts :: "words_bitmap \<Rightarrow> int \<Rightarrow> int" where
  "GetFutureCosts b lastPos =
     (case fold (future_costs_step b) [0..<m_size b] (0, False, False, m_bitmap b ! 0, lastPos)
      of (costs, _, _, _, lastPos) \<Rightarrow> costs + \<bar>lastPos - int (m_size b) + 1\<bar>)"

text \<open>
  The integer key of a bitmap. The loop from the last translated word down to the word
  after the first gap shifts one flag at a time into \<open>id\<close>; the first gap goes to the
  upper bits.
\<close>

definition id_pattern :: "(nat \<Rightarrow> bool) \<Rightarrow> nat \<Rightarrow> nat \<Rightarrow> nat" where
  "id_pattern val start end =
     fold (\<lambda>pos id. id * 2 + (if val pos then 1 else 0)) (rev [Suc start..<Suc end]) 0"

definition GetID :: "words_bitmap \<Rightarrow> nat option" where
  "GetID b =
     (if \<not> m_size b < 2 ^ 16 then None
      else let start = (if GetFirstGapPos b = NOT_FOUND then m_size b else GetFirstGapPos b);
               end = (if GetLastPos b = NOT_FOUND then 0 else GetLastPos b)
           in if \<not> (end < start \<or> end - start \<le> 16) then None
              else Some (id_pattern (GetValue b) start end + 2 ^ 16 * start))"

definition GetIDPlus :: "words_bitmap \<Rightarrow> nat \<Rightarrow> nat \<Rightarrow> nat option" where
  "GetIDPlus b startPos endPos =
     (if \<not> m_size b < 2 ^ 16 then None
      else let start = (if GetFirstGapPos b = NOT_FOUND then m_size b else GetFirstGapPos b);
               end = (if GetLastPos b = NOT_FOUND then 0 else GetLastPos b);
               start = (if start = startPos then endPos + 1 else start);
               end = (if end < endPos then endPos else end)
           in if \<not> (end < start \<or> end - start \<le> 16) then None
              else Some (id_pattern (\<lambda>pos. GetValue b pos \<or> (startPos \<le> pos \<and> pos \<le> endPos)) start end
                         + 2 ^ 16 * start))"

definition show_bitmap :: "words_bitmap \<Rightarrow> string" where
  "show_bitmap b = concat (map (\<lambda>i. show_nat (if GetValue b i then 1 else 0)) [0..<m_size b])"

section \<open>Well-formed bitmaps and their coverage\<close>

definition wf_bitmap :: "words_bitmap \<Rightarrow> bool" where
  "wf_bitmap b \<longleftrightarrow> length (m_bitmap b) = m_size b \<and> m_size b < 2 ^ 31"

definition covered :: "words_bitmap \<Rightarrow> nat set" where
  "covered b = {pos. pos < m_size b \<and> m_bitmap b ! pos}"

lemma wf_bitmapD [dest]:
  "wf_bitmap b \<Longrightarrow> length (m_bitmap b) = m_size b"
  "wf_bitmap b \<Longrightarrow> m_size b < 2 ^ 31"
  by (simp_all add: wf_bitmap_def)

lemma wf_size_less: "wf_bitmap b \<Longrightarrow> m_size b < NOT_FOUND"
  by (simp add: wf_bitmap_def NOT_FOUND_def)

lemma finite_covered [simp]: "finite (covered b)"
  by (simp add: covered_def)

lemma covered_less: "pos \<in> covered b \<Longrightarrow> pos < m_size b"
  by (simp add: covered_def)

lemma GetValue_covered: "pos < m_size b \<Longrightarrow> GetValue b pos \<longleftrightarrow> pos \<in> covered b"
  by (simp add: GetValue_def covered_def)

lemma nth_covered: "pos < m_size b \<Longrightarrow> m_bitmap b ! pos \<longleftrightarrow> pos \<in> covered b"
  by (simp add: covered_def)

lemma bitmap_eqI:
  fixes b c :: words_bitmap
  assumes "wf_bitmap b" "wf_bitmap c" "m_size b = m_size c" "covered b = covered c"
  shows "b = c"
proof -
  have "m_bitmap b = m_bitmap c"
  proof (rule nth_equalityI)
    show "length (m_bitmap b) = length (m_bitmap c)" using assms by (simp add: wf_bitmap_def)
    fix i assume "i < length (m_bitmap b)"
    then have "i < m_size b" "i < m_size c" using assms by (simp_all add: wf_bitmap_def)
    then show "m_bitmap b ! i = m_bitmap c ! i" using assms(4) nth_covered by blast
  qed
  then show ?thesis using assms(3) by (cases b; cases c) simp
qed

lemma wf_BitmapInit [simp]: "wf_bitmap (BitmapInit sz) \<longleftrightarrow> sz < 2 ^ 31"
  by (simp add: wf_bitmap_def BitmapInit_def)

lemma size_BitmapInit [simp]: "m_size (BitmapInit sz) = sz"
  by (simp add: BitmapInit_def)

lemma covered_BitmapInit [simp]: "covered (BitmapInit sz) = {}"
  by (auto simp: covered_def BitmapInit_def)

lemma wf_BitmapInitVector [simp]: "wf_bitmap (BitmapInitVector sz vec) \<longleftrightarrow> sz < 2 ^ 31"
  by (simp add: wf_bitmap_def BitmapInitVector_def)

lemma size_BitmapInitVector [simp]: "m_size (BitmapInitVector sz vec) = sz"
  by (simp add: BitmapInitVector_def)

lemma covered_BitmapInitVector:
  "covered (BitmapInitVector sz vec) = {pos. pos < sz \<and> pos < length vec \<and> vec ! pos}"
  by (auto simp: covered_def BitmapInitVector_def split: if_splits)

lemma BitmapCopy_id: "wf_bitmap b \<Longrightarrow> BitmapCopy b = b"
  by (cases b) (auto simp: BitmapCopy_def wf_bitmap_def GetValue_def intro: nth_equalityI)

section \<open>Updates\<close>

lemma size_SetValue [simp]: "m_size (SetValue b pos v) = m_size b"
  by (simp add: SetValue_def)

lemma wf_SetValue [simp]: "wf_bitmap (SetValue b pos v) \<longleftrightarrow> wf_bitmap b"
  by (simp add: SetValue_def wf_bitmap_def)

lemma covered_SetValue:
  assumes "wf_bitmap b" and "pos < m_size b"
  shows "covered (SetValue b pos v) = (if v then insert pos (covered b) else covered b - {pos})"
  using assms by (auto simp: SetValue_def covered_def wf_bitmap_def nth_list_update split: if_splits)

lemma fold_SetValue:
  fixes ps :: "nat list" and v :: bool
  defines "setall \<equiv> fold (\<lambda>pos b'. SetValue b' pos v) ps"
  assumes "wf_bitmap b" and "\<forall>pos \<in> set ps. pos < m_size b"
  shows "m_size (setall b) = m_size b \<and> wf_bitmap (setall b) \<and>
         covered (setall b) = (if v then covered b \<union> set ps else covered b - set ps)"
  using assms(2,3) unfolding setall_def
proof (induction ps arbitrary: b)
  case Nil
  then show ?case by simp
next
  case (Cons p ps)
  then show ?case using Cons.IH [of "SetValue b p v"] by (auto simp: covered_SetValue)
qed

lemma SetValueRange_props:
  assumes "wf_bitmap b" and "endPos < m_size b"
  shows size_SetValueRange: "m_size (SetValueRange b startPos endPos v) = m_size b"
    and wf_SetValueRange: "wf_bitmap (SetValueRange b startPos endPos v)"
    and covered_SetValueRange: "covered (SetValueRange b startPos endPos v) =
          (if v then covered b \<union> {startPos..endPos} else covered b - {startPos..endPos})"
proof -
  have "\<forall>pos \<in> set [startPos..<Suc endPos]. pos < m_size b" using assms(2) by auto
  from fold_SetValue [OF assms(1) this, of v]
  show "m_size (SetValueRange b startPos endPos v) = m_size b"
    and "wf_bitmap (SetValueRange b startPos endPos v)"
    and "covered (SetValueRange b startPos endPos v) =
          (if v then covered b \<union> {startPos..endPos} else covered b - {startPos..endPos})"
    by (simp_all only: SetValueRange_def set_upt atLeastLessThanSuc_atLeastAtMost)
qed

section \<open>Queries\<close>

lemma fold_count: "fold (\<lambda>x n. if P x then n + 1 else n) xs (n::nat) = n + length (filter P xs)"
  by (induction xs arbitrary: n) auto

lemma NumWordsCovered_eq: "BitmapNumWordsCovered b = card (covered b)"
proof -
  have "BitmapNumWordsCovered b = length (filter (\<lambda>pos. m_bitmap b ! pos) [0..<m_size b])"
    by (simp only: BitmapNumWordsCovered_def fold_count add_0)
  also have "\<dots> = card (set (filter (\<lambda>pos. m_bitmap b ! pos) [0..<m_size b]))"
    by (rule distinct_card [symmetric]) simp
  also have "set (filter (\<lambda>pos. m_bitmap b ! pos) [0..<m_size b]) = covered b"
    by (auto simp: covered_def)
  finally show ?thesis .
qed

lemma covered_subset: "covered b \<subseteq> {..<m_size b}"
  by (auto simp: covered_def)

lemma IsComplete_iff: "IsComplete b \<longleftrightarrow> covered b = {..<m_size b}"
proof
  assume "IsComplete b"
  then have "card (covered b) = card {..<m_size b}" by (simp add: IsComplete_def NumWordsCovered_eq)
  then show "covered b = {..<m_size b}" using covered_subset card_subset_eq by blast
qed (simp add: IsComplete_def NumWordsCovered_eq)

lemma BitmapOverlap_iff:
  assumes "m_endPos r < m_size b"
  shows "BitmapOverlap b r \<longleftrightarrow> positions r \<inter> covered b \<noteq> {}"
proof -
  have "BitmapOverlap b r \<longleftrightarrow> (\<exists>pos. m_startPos r \<le> pos \<and> pos \<le> m_endPos r \<and> m_bitmap b ! pos)"
    unfolding BitmapOverlap_def find_upt_None by auto
  then show ?thesis using assms by (auto simp: positions_def covered_def)
qed

lemma down_from_size: "wf_bitmap b \<Longrightarrow> down_from_size b = rev [0..<m_size b]"
  by (simp add: down_from_size_def wf_bitmap_def to_int32_small)

text \<open>The first gap and the last translated word, as the code's callers use them.\<close>

lemma FirstGap_cases:
  assumes "wf_bitmap b"
  obtains (complete) "GetFirstGapPos b = NOT_FOUND" "covered b = {..<m_size b}"
    | (gap) "GetFirstGapPos b < m_size b" "GetFirstGapPos b \<notin> covered b"
        "{..<GetFirstGapPos b} \<subseteq> covered b"
proof (cases "find (\<lambda>pos. \<not> m_bitmap b ! pos) [0..<m_size b]")
  case None
  then have "covered b = {..<m_size b}" by (auto simp: find_upt_None covered_def)
  with None complete show ?thesis by (simp add: GetFirstGapPos_def or_not_found_def)
next
  case (Some pos)
  then have "pos < m_size b" "\<not> m_bitmap b ! pos" "\<forall>j < pos. m_bitmap b ! j"
    by (auto simp: find_upt_Some)
  with Some show ?thesis
    by (intro gap) (auto simp: GetFirstGapPos_def or_not_found_def covered_def)
qed

lemma FirstGap_eq:
  assumes "wf_bitmap b" "pos < m_size b" "pos \<notin> covered b" "{..<pos} \<subseteq> covered b"
  shows "GetFirstGapPos b = pos"
proof (rule FirstGap_cases [OF assms(1)])
  assume "covered b = {..<m_size b}"
  with assms show ?thesis by auto
next
  assume "GetFirstGapPos b \<notin> covered b" "{..<GetFirstGapPos b} \<subseteq> covered b"
  with assms show ?thesis by (meson lessThan_iff linorder_neqE_nat subsetD)
qed

lemma FirstGap_NOT_FOUND:
  assumes "wf_bitmap b"
  shows "GetFirstGapPos b = NOT_FOUND \<longleftrightarrow> covered b = {..<m_size b}"
  by (rule FirstGap_cases [OF assms]) (use wf_size_less [OF assms] in auto)

definition first_gap :: "words_bitmap \<Rightarrow> nat" where
  "first_gap b = (if GetFirstGapPos b = NOT_FOUND then m_size b else GetFirstGapPos b)"

lemma first_gap_props:
  assumes "wf_bitmap b"
  shows "first_gap b \<le> m_size b" "first_gap b \<notin> covered b" "{..<first_gap b} \<subseteq> covered b"
proof -
  have "first_gap b \<le> m_size b \<and> first_gap b \<notin> covered b \<and> {..<first_gap b} \<subseteq> covered b"
    by (rule FirstGap_cases [OF assms])
      (use wf_size_less [OF assms] in \<open>auto simp: first_gap_def dest: covered_less\<close>)
  then show "first_gap b \<le> m_size b" "first_gap b \<notin> covered b" "{..<first_gap b} \<subseteq> covered b"
    by auto
qed

lemma first_gap_unique:
  assumes "wf_bitmap b" "pos \<notin> covered b" "{..<pos} \<subseteq> covered b"
  shows "first_gap b = pos"
  using first_gap_props [OF assms(1)] assms(2,3) by (meson lessThan_iff linorder_neqE_nat subsetD)

lemma LastPos_cases:
  assumes "wf_bitmap b"
  obtains (none) "GetLastPos b = NOT_FOUND" "covered b = {}"
    | (last) "GetLastPos b \<in> covered b" "\<forall>pos \<in> covered b. pos \<le> GetLastPos b"
proof (cases "find (\<lambda>pos. m_bitmap b ! pos) (rev [0..<m_size b])")
  case None
  then have "covered b = {}" by (auto simp: find_rev_upt_None covered_def)
  with None none assms show ?thesis by (simp add: GetLastPos_def or_not_found_def down_from_size)
next
  case (Some pos)
  then have "pos < m_size b" "m_bitmap b ! pos" "\<forall>j. pos < j \<and> j < m_size b \<longrightarrow> \<not> m_bitmap b ! j"
    by (auto simp: find_rev_upt_Some)
  with Some last assms show ?thesis
    by (auto simp: GetLastPos_def or_not_found_def covered_def down_from_size not_less)
      (meson linorder_not_le)
qed

lemma LastPos_eq:
  assumes "wf_bitmap b" "pos \<in> covered b" "\<forall>p \<in> covered b. p \<le> pos"
  shows "GetLastPos b = pos"
  by (rule LastPos_cases [OF assms(1)]) (use assms in \<open>auto intro: antisym\<close>)

lemma LastPos_NOT_FOUND:
  assumes "wf_bitmap b"
  shows "GetLastPos b = NOT_FOUND \<longleftrightarrow> covered b = {}"
  by (rule LastPos_cases [OF assms]) (use wf_size_less [OF assms] covered_less in fastforce)+

lemma LastGap_eq:
  assumes "wf_bitmap b"
  shows "GetLastGapPos b =
    (if covered b = {..<m_size b} then NOT_FOUND else Max ({..<m_size b} - covered b))"
proof (cases "find (\<lambda>pos. \<not> m_bitmap b ! pos) (rev [0..<m_size b])")
  case None
  then have "covered b = {..<m_size b}" by (auto simp: find_rev_upt_None covered_def)
  with None assms show ?thesis by (simp add: GetLastGapPos_def or_not_found_def down_from_size)
next
  case (Some pos)
  then have pos: "pos < m_size b" "pos \<notin> covered b"
      "\<forall>j. pos < j \<and> j < m_size b \<longrightarrow> j \<in> covered b"
    by (auto simp: find_rev_upt_Some covered_def)
  then have "Max ({..<m_size b} - covered b) = pos"
    by (intro Max_eqI) (auto simp: not_less [symmetric])
  with pos Some assms show ?thesis
    by (auto simp: GetLastGapPos_def or_not_found_def down_from_size)
qed

section \<open>The comparison of bitmaps\<close>

lemma memcmp_refl [simp]: "memcmp_bools xs xs = 0"
  by (induction xs) auto

lemma memcmp_range: "memcmp_bools xs ys \<in> {-1, 0, 1}"
  by (induction xs ys rule: memcmp_bools.induct) auto

lemma memcmp_swap: "memcmp_bools ys xs = - memcmp_bools xs ys"
  by (induction xs ys rule: memcmp_bools.induct) auto

lemma memcmp_eq_0: "length xs = length ys \<Longrightarrow> memcmp_bools xs ys = 0 \<longleftrightarrow> xs = ys"
  by (induction xs ys rule: memcmp_bools.induct) auto

lemma memcmp_trans:
  assumes "length xs = length ys" "length ys = length zs"
    and "memcmp_bools xs ys \<le> 0" "memcmp_bools ys zs \<le> 0"
  shows "memcmp_bools xs zs \<le> 0"
  using assms
proof (induction xs ys zs rule: list_induct3)
  case Nil
  then show ?case by simp
next
  case (Cons x xs y ys z zs)
  then show ?case by (auto split: if_splits)
qed

lemma BitmapCompare_wf:
  assumes "wf_bitmap b" "wf_bitmap c"
  shows "BitmapCompare b c =
    (if m_size b < m_size c then -1 else if m_size c < m_size b then 1
     else memcmp_bools (m_bitmap b) (m_bitmap c))"
  using assms by (auto simp: BitmapCompare_def wf_bitmap_def)

interpretation bitmap_order: three_way wf_bitmap BitmapCompare
proof
  fix x y assume "wf_bitmap x" "wf_bitmap y"
  then show "sgn (BitmapCompare y x) = - sgn (BitmapCompare x y)"
    using memcmp_swap [of "m_bitmap x" "m_bitmap y"] by (simp add: BitmapCompare_wf)
next
  fix x y z assume wf: "wf_bitmap x" "wf_bitmap y" "wf_bitmap z"
    and le: "BitmapCompare x y \<le> 0" "BitmapCompare y z \<le> 0"
  show "BitmapCompare x z \<le> 0"
  proof (cases "m_size x = m_size y \<and> m_size y = m_size z")
    case True
    then show ?thesis using wf le memcmp_trans [of "m_bitmap x" "m_bitmap y" "m_bitmap z"]
      by (simp add: BitmapCompare_wf wf_bitmap_def)
  next
    case False
    then show ?thesis using wf le by (auto simp: BitmapCompare_wf split: if_splits)
  qed
qed

lemma BitmapCompare_0:
  assumes "wf_bitmap b" "wf_bitmap c"
  shows "BitmapCompare b c = 0 \<longleftrightarrow> b = c"
proof
  assume "BitmapCompare b c = 0"
  then show "b = c" using assms
    by (cases b; cases c) (auto simp: BitmapCompare_wf memcmp_eq_0 wf_bitmap_def split: if_splits)
qed (use assms in \<open>simp add: BitmapCompare_wf\<close>)

section \<open>Edges of the covered region\<close>

lemma EdgeToTheLeft_props:
  fixes b l
  defines "e \<equiv> GetEdgeToTheLeftOf b l"
  assumes "l \<le> m_size b"
  shows "e \<le> l" "{e..<l} \<inter> covered b = {}" "e = 0 \<or> e - 1 \<in> covered b"
proof -
  have "e \<le> l \<and> {e..<l} \<inter> covered b = {} \<and> (e = 0 \<or> e - 1 \<in> covered b)"
    using assms(2) unfolding e_def
  proof (induction b l rule: GetEdgeToTheLeftOf.induct)
    case (1 b)
    then show ?case by simp
  next
    case (2 b l)
    have split: "{k..<Suc l} \<subseteq> insert l {k..<l}" for k by auto
    show ?case
    proof (cases "m_bitmap b ! l")
      case True
      with 2 show ?thesis by (simp add: covered_def)
    next
      case False
      then have "l \<notin> covered b" by (simp add: covered_def)
      with 2 False show ?thesis using split [of "GetEdgeToTheLeftOf b l"] by auto
    qed
  qed
  then show "e \<le> l" "{e..<l} \<inter> covered b = {}" "e = 0 \<or> e - 1 \<in> covered b" by auto
qed

lemma EdgeToTheRight_props:
  assumes "r < m_size b"
  shows "let e = GetEdgeToTheRightOf b r
         in r \<le> e \<and> e < m_size b \<and> {r<..e} \<inter> covered b = {} \<and> (e + 1 = m_size b \<or> e + 1 \<in> covered b)"
  using assms
proof (induction b r rule: GetEdgeToTheRightOf.induct)
  case (1 b r)
  show ?case
  proof (cases "r + 1 \<noteq> m_size b \<and> r + 1 < m_size b \<and> \<not> m_bitmap b ! (r + 1)")
    case True
    then have unf: "GetEdgeToTheRightOf b r = GetEdgeToTheRightOf b (r + 1)"
      by (simp add: GetEdgeToTheRightOf.simps [of b r])
    have step: "{r<..e} \<subseteq> insert (Suc r) {Suc r<..e}" for e by auto
    have "Suc r \<notin> covered b" using True by (simp add: covered_def)
    then show ?thesis using True "1.IH" step unfolding unf Let_def by fastforce
  next
    case False
    then have "GetEdgeToTheRightOf b r = r"
      by (auto simp: GetEdgeToTheRightOf.simps [of b r])
    then show ?thesis using False "1.prems" by (auto simp: covered_def)
  qed
qed

section \<open>The integer key\<close>

lemma id_pattern_horner:
  "id_pattern val start end = horner_sum of_bool 2 (map val [Suc start..<Suc end])"
proof -
  have "fold (\<lambda>pos id. id * 2 + (if val pos then 1 else 0)) (rev ps) (0::nat) = horner_sum of_bool 2 (map val ps)"
    for ps :: "nat list"
    by (induction ps) (simp_all add: mult.commute)
  then show ?thesis by (simp only: id_pattern_def)
qed

lemma horner_bound: "horner_sum of_bool (2::nat) bs < 2 ^ length bs"
  by (induction bs) auto

lemma horner_inj:
  "length bs = length cs \<Longrightarrow>
   horner_sum of_bool (2::nat) bs = horner_sum of_bool 2 cs \<Longrightarrow> bs = cs"
proof (induction bs cs rule: list_induct2)
  case Nil
  then show ?case by simp
next
  case (Cons b bs c cs)
  have par: "of_bool b + 2 * m = of_bool c + 2 * n \<Longrightarrow> b = c \<and> m = n" for m n :: nat
    by (cases b; cases c; simp; presburger)
  from Cons.prems have "b = c \<and> horner_sum of_bool (2::nat) bs = horner_sum of_bool 2 cs"
    by (intro par) simp
  with Cons.IH show ?case by simp
qed

text \<open>Appending flags that are all false does not change the pattern.\<close>

lemma horner_append_false: "\<not> (\<exists>x \<in> set cs. x) \<Longrightarrow> horner_sum of_bool (2::nat) (bs @ cs) = horner_sum of_bool 2 bs"
proof (induction bs)
  case Nil
  then show ?case by (induction cs) auto
qed simp

lemma id_pattern_extend:
  assumes "\<And>pos. end < pos \<Longrightarrow> pos \<le> n \<Longrightarrow> \<not> val pos" "end \<le> n" "start \<le> n"
  shows "id_pattern val start end = id_pattern val start n"
proof (cases "start \<le> end")
  case True
  have "[Suc start..<Suc n] = [Suc start..<Suc end] @ [Suc end..<Suc n]"
    using assms(2) True upt_add_eq_append [of "Suc start" "Suc end" "n - end"] by simp
  then have "map val [Suc start..<Suc n] = map val [Suc start..<Suc end] @ map val [Suc end..<Suc n]"
    by (simp only: map_append)
  moreover have "\<not> (\<exists>x \<in> set (map val [Suc end..<Suc n]). x)" using assms(1) by auto
  ultimately show ?thesis unfolding id_pattern_horner using horner_append_false by metis
next
  case False
  then have e: "[Suc start..<Suc end] = []" by simp
  have "\<not> (\<exists>x \<in> set (map val [Suc start..<Suc n]). x)" using assms(1) False by auto
  from horner_append_false [OF this, of "[]"] show ?thesis
    unfolding id_pattern_horner e by simp
qed

lemma id_pattern_cong:
  assumes "\<And>pos. start < pos \<Longrightarrow> pos \<le> end \<Longrightarrow> val pos = val' pos"
  shows "id_pattern val start end = id_pattern val' start end"
proof -
  have "map val [Suc start..<Suc end] = map val' [Suc start..<Suc end]"
    by (rule map_cong) (use assms in auto)
  then show ?thesis by (simp only: id_pattern_horner)
qed

definition last_covered :: "words_bitmap \<Rightarrow> nat" where
  "last_covered b = (if GetLastPos b = NOT_FOUND then 0 else GetLastPos b)"

lemma GetID_alt:
  "GetID b = (if m_size b < 2 ^ 16 \<and> (last_covered b < first_gap b \<or> last_covered b - first_gap b \<le> 16)
     then Some (id_pattern (GetValue b) (first_gap b) (last_covered b) + 2 ^ 16 * first_gap b) else None)"
  by (simp add: GetID_def first_gap_def last_covered_def Let_def)

lemma GetIDPlus_alt:
  fixes b startPos endPos
  defines "start \<equiv> (if first_gap b = startPos then endPos + 1 else first_gap b)"
    and "end \<equiv> (if last_covered b < endPos then endPos else last_covered b)"
  shows "GetIDPlus b startPos endPos =
    (if m_size b < 2 ^ 16 \<and> (end < start \<or> end - start \<le> 16)
     then Some (id_pattern (\<lambda>pos. GetValue b pos \<or> (startPos \<le> pos \<and> pos \<le> endPos)) start end
                + 2 ^ 16 * start) else None)"
  unfolding GetIDPlus_def Let_def first_gap_def [symmetric] last_covered_def [symmetric]
    start_def end_def by simp

text \<open>Evaluation of closed instances.\<close>

lemmas bitmap_eval [bitmap_defs] =
  GetID_def GetIDPlus_def GetFirstGapPos_def GetLastPos_def GetLastGapPos_def or_not_found_def
  down_from_size_def to_int32_def BitmapInit_def BitmapInitVector_def SetValue_def SetValueRange_def
  GetValue_def id_pattern_def NOT_FOUND_def IsComplete_def BitmapNumWordsCovered_def
  BitmapCompare_def bitmap_less_def BitmapOverlap_def upt_rec

lemma last_covered_props:
  assumes "wf_bitmap b"
  shows "\<forall>pos \<in> covered b. pos \<le> last_covered b" "covered b = {} \<Longrightarrow> last_covered b = 0"
    "covered b \<noteq> {} \<Longrightarrow> last_covered b \<in> covered b"
proof -
  have "(\<forall>pos \<in> covered b. pos \<le> last_covered b) \<and> (covered b = {} \<longrightarrow> last_covered b = 0)
      \<and> (covered b \<noteq> {} \<longrightarrow> last_covered b \<in> covered b)"
    by (rule LastPos_cases [OF assms])
      (use wf_size_less [OF assms] covered_less in \<open>fastforce simp: last_covered_def\<close>)+
  then show "\<forall>pos \<in> covered b. pos \<le> last_covered b" "covered b = {} \<Longrightarrow> last_covered b = 0"
    "covered b \<noteq> {} \<Longrightarrow> last_covered b \<in> covered b" by auto
qed

lemma GetID_parts:
  assumes "wf_bitmap b" "GetID b = Some k"
  shows "k div 2 ^ 16 = first_gap b"
    and "k mod 2 ^ 16 = id_pattern (GetValue b) (first_gap b) (last_covered b)"
proof -
  let ?low = "id_pattern (GetValue b) (first_gap b) (last_covered b)"
  have cond: "last_covered b < first_gap b \<or> last_covered b - first_gap b \<le> 16"
    and k: "k = ?low + 2 ^ 16 * first_gap b"
    using assms(2) by (auto simp: GetID_alt split: if_splits)
  have "length (map (GetValue b) [Suc (first_gap b)..<Suc (last_covered b)]) \<le> 16"
    using cond unfolding length_map length_upt by linarith
  then have "(2::nat) ^ length (map (GetValue b) [Suc (first_gap b)..<Suc (last_covered b)]) \<le> 2 ^ 16"
    by (intro power_increasing) simp_all
  then have "?low < 2 ^ 16"
    using horner_bound less_le_trans unfolding id_pattern_horner by blast
  then show "k div 2 ^ 16 = first_gap b" "k mod 2 ^ 16 = ?low"
    unfolding k by simp_all
qed

lemma covered_beyond_gap:
  assumes "wf_bitmap b" "last_covered b < first_gap b"
  shows "covered b = {..<first_gap b}"
  using first_gap_props(3) [OF assms(1)] last_covered_props(1) [OF assms(1)] assms(2) by fastforce

lemma same_key_same_coverage:
  assumes wf: "wf_bitmap b" "wf_bitmap c" and sz: "m_size b = m_size c"
    and k: "GetID b = Some k" "GetID c = Some k"
  shows "covered b = covered c"
proof -
  let ?s = "first_gap b" and ?n = "max (last_covered b) (last_covered c)"
  have s: "first_gap c = ?s" using GetID_parts(1) wf k by metis
  have low: "id_pattern (GetValue b) ?s (last_covered b) = id_pattern (GetValue c) ?s (last_covered c)"
    using GetID_parts(2) wf k s by metis
  show ?thesis
  proof (cases "?n < ?s")
    case True
    then show ?thesis using covered_beyond_gap wf s by simp
  next
    case False
    have in_size: "pos < m_size x" if "pos \<le> last_covered x" "0 < pos" "wf_bitmap x" for pos x
      using that last_covered_props(2,3) [OF that(3)] covered_less by (metis le_less_trans not_less0 le_0_eq)
    have off: "\<not> GetValue b pos" if "last_covered b < pos" "pos \<le> ?n" for pos
    proof -
      have "pos < m_size b" using that in_size [of pos c] wf sz by auto
      then show ?thesis using that last_covered_props(1) [OF wf(1)] GetValue_covered by fastforce
    qed
    have off': "\<not> GetValue c pos" if "last_covered c < pos" "pos \<le> ?n" for pos
    proof -
      have "pos < m_size c" using that in_size [of pos b] wf sz by auto
      then show ?thesis using that last_covered_props(1) [OF wf(2)] GetValue_covered by fastforce
    qed
    have "id_pattern (GetValue b) ?s ?n = id_pattern (GetValue c) ?s ?n"
      using low id_pattern_extend [of "last_covered b" ?n "GetValue b" ?s]
        id_pattern_extend [of "last_covered c" ?n "GetValue c" ?s] off off' False by auto
    then have "map (GetValue b) [Suc ?s..<Suc ?n] = map (GetValue c) [Suc ?s..<Suc ?n]"
      unfolding id_pattern_horner by (intro horner_inj) simp_all
    then have same: "GetValue b pos = GetValue c pos" if "?s < pos" "pos \<le> ?n" for pos
      using that unfolding map_eq_conv by (metis Suc_le_eq atLeastLessThan_iff le_imp_less_Suc set_upt)
    have mem: "pos \<in> covered b \<longleftrightarrow> pos \<in> covered c" for pos
    proof -
      consider "pos < ?s" | "pos = ?s" | "?s < pos" "pos \<le> ?n" | "?n < pos" by linarith
      then show ?thesis
      proof cases
        case 1
        then show ?thesis using first_gap_props(3) wf s by (metis lessThan_iff subsetD)
      next
        case 2
        then show ?thesis using first_gap_props(2) wf s by metis
      next
        case 3
        then show ?thesis using same [OF 3] GetValue_covered [of pos b] GetValue_covered [of pos c] sz
            covered_less [of pos b] covered_less [of pos c] by auto
      next
        case 4
        then show ?thesis using last_covered_props(1) wf by (metis leD max_less_iff_conj)
      qed
    qed
    then show ?thesis by blast
  qed
qed

text \<open>
  What \<open>GetIDPlus\<close> computes: the first gap it uses is the position after the phrase
  when the phrase starts at the first gap, whatever is already covered behind it.
\<close>

lemma first_gap_extend:
  assumes wf: "wf_bitmap b" and bnd: "startPos \<le> endPos" "endPos < m_size b"
    and free: "{startPos..endPos} \<inter> covered b = {}" and next_free: "endPos + 1 \<notin> covered b"
  shows "first_gap (SetValueRange b startPos endPos True) =
    (if first_gap b = startPos then endPos + 1 else first_gap b)"
proof -
  let ?c = "SetValueRange b startPos endPos True"
  note gap = first_gap_props [OF wf]
  have wfc: "wf_bitmap ?c" and cov: "covered ?c = covered b \<union> {startPos..endPos}"
    using wf bnd by (simp_all add: wf_SetValueRange covered_SetValueRange)
  have below: "first_gap b \<le> startPos" using gap(3) free bnd(1)
    by (meson atLeastAtMost_iff disjoint_iff lessThan_iff linorder_not_le order_refl subsetD)
  show ?thesis
  proof (cases "first_gap b = startPos")
    case True
    have "{..<endPos + 1} \<subseteq> covered ?c" using gap(3) True unfolding cov by fastforce
    then show ?thesis using True next_free
      by (intro first_gap_unique [OF wfc, THEN trans]) (auto simp: cov)
  next
    case False
    have "{..<first_gap b} \<subseteq> covered ?c" using gap(3) unfolding cov by fastforce
    then show ?thesis using False below gap(2)
      by (intro first_gap_unique [OF wfc, THEN trans]) (auto simp: cov)
  qed
qed

lemma last_covered_extend:
  assumes wf: "wf_bitmap b" and bnd: "startPos \<le> endPos" "endPos < m_size b"
  shows "last_covered (SetValueRange b startPos endPos True) = max (last_covered b) endPos"
proof -
  let ?c = "SetValueRange b startPos endPos True"
  have wfc: "wf_bitmap ?c" and cov: "covered ?c = covered b \<union> {startPos..endPos}"
    using wf bnd by (simp_all add: wf_SetValueRange covered_SetValueRange)
  note lb = last_covered_props [OF wf]
  have "max (last_covered b) endPos \<in> covered ?c"
    using lb(2,3) bnd unfolding cov by (cases "covered b = {}") (auto simp: max_def)
  moreover have "\<forall>p \<in> covered ?c. p \<le> max (last_covered b) endPos"
    using lb(1) unfolding cov by fastforce
  ultimately have "GetLastPos ?c = max (last_covered b) endPos" by (intro LastPos_eq [OF wfc])
  moreover have "max (last_covered b) endPos < NOT_FOUND"
    using \<open>max (last_covered b) endPos \<in> covered ?c\<close> covered_less wf_size_less [OF wfc] by fastforce
  ultimately have "GetLastPos ?c \<noteq> NOT_FOUND" "GetLastPos ?c = max (last_covered b) endPos" by auto
  then show ?thesis unfolding last_covered_def [of ?c] by simp
qed

section \<open>Properties\<close>

text \<open>The bitmap key used by stack diversity is injective: two coverage vectors of the same
  sentence length for which \<open>GetID\<close> passes its assertions and returns the same integer
  are the same vector, although the key drops everything before the first gap and keeps at most
  16 flags behind it.\<close>

theorem GetID_injective:
  assumes "wf_bitmap b" "wf_bitmap c" "m_size b = m_size c"
    and "GetID b = Some k" "GetID c = Some k"
  shows "b = c"
  using assms same_key_same_coverage bitmap_eqI by blast

theorem GetID_injective_witness:
  "GetID (BitmapInitVector 5 [True, False, True]) = Some (2 ^ 16 + 1) \<and>
   BitmapInitVector 5 [True, False, True] = SetValue (SetValue (BitmapInit 5) 0 True) 2 True"
proof -
  let ?b = "BitmapInitVector 5 [True, False, True]"
  let ?c = "SetValue (SetValue (BitmapInit 5) 0 True) 2 True"
  have ids: "GetID ?b = Some (2 ^ 16 + 1)" "GetID ?c = Some (2 ^ 16 + 1)" by (simp_all add: bitmap_defs)
  have "?b = ?c"
    by (rule GetID_injective [OF _ _ _ ids]) simp_all
  then show ?thesis using ids by simp
qed

text \<open>\<open>GetIDPlus\<close> is the key of the extended coverage: for a free span inside the sentence
  that does not run into an already translated word, it returns, with the same assertion outcome,
  what \<open>GetID\<close> returns after the span has been marked as covered.\<close>

theorem GetIDPlus_is_extended_GetID:
  assumes "wf_bitmap b" "startPos \<le> endPos" "endPos < m_size b"
    and "\<not> BitmapOverlap b (WordsRange startPos endPos)"
    and "endPos + 1 \<notin> covered b"
  shows "GetIDPlus b startPos endPos = GetID (SetValueRange b startPos endPos True)"
proof -
  let ?c = "SetValueRange b startPos endPos True"
  have free: "{startPos..endPos} \<inter> covered b = {}"
    using assms(3,4) by (simp add: BitmapOverlap_iff)
  have sz: "m_size ?c = m_size b" and wfc: "wf_bitmap ?c" and cov: "covered ?c = covered b \<union> {startPos..endPos}"
    using assms(1,3) by (simp_all add: size_SetValueRange wf_SetValueRange covered_SetValueRange)
  have "first_gap ?c = (if first_gap b = startPos then endPos + 1 else first_gap b)"
    by (rule first_gap_extend) (use assms free in auto)
  moreover have last: "last_covered ?c = (if last_covered b < endPos then endPos else last_covered b)"
    using last_covered_extend [OF assms(1-3)] by (simp add: max_def)
  moreover have "id_pattern (\<lambda>pos. GetValue b pos \<or> (startPos \<le> pos \<and> pos \<le> endPos)) s (last_covered ?c)
      = id_pattern (GetValue ?c) s (last_covered ?c)" for s
  proof (rule id_pattern_cong)
    fix pos assume "pos \<le> last_covered ?c"
    moreover have "last_covered ?c < m_size b"
      using last_covered_props(3) [OF wfc] covered_less [of _ ?c] sz assms(2) cov by fastforce
    ultimately have "pos < m_size b" by simp
    then show "(GetValue b pos \<or> startPos \<le> pos \<and> pos \<le> endPos) = GetValue ?c pos"
      using GetValue_covered [of pos b] GetValue_covered [of pos ?c] sz cov by auto
  qed
  ultimately show ?thesis
    unfolding GetID_alt GetIDPlus_alt sz by (simp only:)
qed

theorem GetIDPlus_is_extended_GetID_witness:
  "GetIDPlus (BitmapInitVector 6 [True, False, False, False, True]) 1 2 =
   GetID (SetValueRange (BitmapInitVector 6 [True, False, False, False, True]) 1 2 True)"
proof (rule GetIDPlus_is_extended_GetID)
  let ?b = "BitmapInitVector 6 [True, False, False, False, True]"
  show "\<not> BitmapOverlap ?b (WordsRange 1 2)" by (simp add: bitmap_defs)
  show "2 + 1 \<notin> covered ?b" by (simp add: covered_BitmapInitVector)
qed simp_all

text \<open>When the span closes the gap in front of a translated word the two keys differ, so the
  diversity threshold that early discarding looks up for the new hypothesis is not the one the
  hypothesis is filed under: for coverage 0 1 0 and the phrase at position 0, \<open>GetIDPlus\<close>
  answers with first gap 1 although the first gap of the extended coverage is 2.\<close>

theorem GetIDPlus_stale_gap:
  "GetIDPlus (BitmapInitVector 3 [False, True]) 0 0 = Some (2 ^ 16 * 1) \<and>
   GetID (SetValueRange (BitmapInitVector 3 [False, True]) 0 0 True) = Some (2 ^ 16 * 2)"
  by (simp add: bitmap_defs)

text \<open>The comparison that orders bitmaps inside \<open>std::set\<close> and \<open>std::map\<close> is a strict linear
  order on well-formed bitmaps: exactly one of less, equal and greater holds, and less is
  transitive.\<close>

theorem bitmap_less_linear:
  assumes "wf_bitmap b" "wf_bitmap c" "wf_bitmap d"
  shows "of_bool (bitmap_less b c) + of_bool (b = c) + of_bool (bitmap_less c b) = (1::nat) \<and>
         (bitmap_less b c \<and> bitmap_less c d \<longrightarrow> bitmap_less b d)"
  using bitmap_order.cmp_swap_less [OF assms(1,2)] BitmapCompare_0 [OF assms(1,2)]
    bitmap_order.cmp_less_le_trans [OF assms]
  by (auto simp: bitmap_less_def)

theorem bitmap_less_linear_witness:
  "bitmap_less (BitmapInitVector 3 [False, True]) (BitmapInitVector 3 [True, True])"
proof -
  have "bitmap_less (BitmapInitVector 3 [False, True]) (BitmapInitVector 3 [True])"
    "bitmap_less (BitmapInitVector 3 [True]) (BitmapInitVector 3 [True, True])"
    by (simp_all add: bitmap_defs)
  then show ?thesis
    using bitmap_less_linear [of "BitmapInitVector 3 [False, True]" "BitmapInitVector 3 [True]"
        "BitmapInitVector 3 [True, True]"] by simp
qed

text \<open>The queries that steer the search are exact on every well-formed bitmap: the number of
  covered words is the size of the covered set, a bitmap is complete iff every position is covered,
  and the first gap (the sentence length when there is none) is the least uncovered position.\<close>

theorem bitmap_queries_exact:
  assumes "wf_bitmap b"
  shows "BitmapNumWordsCovered b = card (covered b) \<and>
         (IsComplete b \<longleftrightarrow> covered b = {..<m_size b}) \<and>
         (IsComplete b \<longleftrightarrow> GetFirstGapPos b = NOT_FOUND) \<and>
         (\<not> IsComplete b \<longrightarrow> GetFirstGapPos b = (LEAST pos. pos \<notin> covered b)) \<and>
         (covered b \<noteq> {} \<longrightarrow> GetLastPos b = Max (covered b))"
proof (intro conjI impI)
  show "BitmapNumWordsCovered b = card (covered b)" by (rule NumWordsCovered_eq)
  show "IsComplete b \<longleftrightarrow> covered b = {..<m_size b}" by (rule IsComplete_iff)
  show "IsComplete b \<longleftrightarrow> GetFirstGapPos b = NOT_FOUND"
    using FirstGap_NOT_FOUND [OF assms] by (simp add: IsComplete_iff)
  assume "\<not> IsComplete b"
  then have "GetFirstGapPos b = first_gap b"
    using FirstGap_NOT_FOUND [OF assms] by (simp add: IsComplete_iff first_gap_def)
  also have "\<dots> = (LEAST pos. pos \<notin> covered b)"
    using first_gap_props [OF assms]
    by (intro Least_equality [symmetric]) (auto simp: not_less [symmetric])
  finally show "GetFirstGapPos b = (LEAST pos. pos \<notin> covered b)" .
next
  assume "covered b \<noteq> {}"
  then show "GetLastPos b = Max (covered b)"
    using last_covered_props [OF assms] LastPos_eq [OF assms, of "Max (covered b)"] by simp
qed

theorem bitmap_queries_exact_witness:
  "GetFirstGapPos (BitmapInitVector 4 [True, False, True]) = (LEAST pos. pos \<notin> {0, 2 :: nat})"
proof -
  let ?b = "BitmapInitVector 4 [True, False, True]"
  have "covered ?b = {0, 2}"
    by (auto simp: covered_BitmapInitVector eval_nat_numeral less_Suc_eq)
  moreover have "\<not> IsComplete ?b" by (simp add: bitmap_defs)
  ultimately show ?thesis using bitmap_queries_exact [of ?b] by simp
qed

end
