(* ===== verification/Square_Matrix.thy ===== *)
theory Square_Matrix
  imports Words_Bitmap
begin

text \<open>
  The table of future score estimates (\<open>SquareMatrix.h\<close>, \<open>SquareMatrix.cpp\<close>): one
  entry per source span, and the two functions that add up the entries of the gaps of a
  coverage vector. The scores are any type with \<open>0\<close> and \<open>+\<close>: no law of addition is
  used, so the results hold for the rounded \<open>float\<close> addition of the code as well.
\<close>

section \<open>The class\<close>

record 's square_matrix =
  sm_size :: nat
  sm_array :: "'s list"

text \<open>\<open>malloc\<close> leaves the contents open: the initial block is an argument.\<close>

definition SquareMatrixInit :: "nat \<Rightarrow> 's list \<Rightarrow> 's square_matrix" where
  "SquareMatrixInit sz junk = \<lparr>sm_size = sz, sm_array = take (sz * sz) junk\<rparr>"

definition GetScore :: "'s square_matrix \<Rightarrow> nat \<Rightarrow> nat \<Rightarrow> 's" where
  "GetScore m startPos endPos = sm_array m ! (startPos * sm_size m + endPos)"

definition SetScore :: "'s square_matrix \<Rightarrow> nat \<Rightarrow> nat \<Rightarrow> 's \<Rightarrow> 's square_matrix" where
  "SetScore m startPos endPos v = m\<lparr>sm_array := (sm_array m)[startPos * sm_size m + endPos := v]\<rparr>"

text \<open>The loop state is the start of the open gap (\<open>NOT_FOUND\<close> outside a gap) and the score.\<close>

definition future_step ::
    "'s::{zero,plus} square_matrix \<Rightarrow> (nat \<Rightarrow> bool) \<Rightarrow> nat \<Rightarrow> nat \<times> 's \<Rightarrow> nat \<times> 's" where
  "future_step m val currPos st =
     (case st of (startGap, futureScore) \<Rightarrow>
        if \<not> val currPos \<and> startGap = NOT_FOUND then (currPos, futureScore)
        else if val currPos \<and> startGap \<noteq> NOT_FOUND
             then (NOT_FOUND, futureScore + GetScore m startGap (sz_sub currPos 1))
        else (startGap, futureScore))"

definition CalcFutureScore :: "'s::{zero,plus} square_matrix \<Rightarrow> words_bitmap \<Rightarrow> 's" where
  "CalcFutureScore m b =
     (case fold (future_step m (GetValue b)) [0..<m_size b] (NOT_FOUND, 0) of
        (startGap, futureScore) \<Rightarrow>
          if startGap \<noteq> NOT_FOUND then futureScore + GetScore m startGap (sz_sub (m_size b) 1)
          else futureScore)"

definition future_step_span ::
    "'s::{zero,plus} square_matrix \<Rightarrow> words_bitmap \<Rightarrow> nat \<Rightarrow> nat \<Rightarrow> nat \<Rightarrow> nat \<times> 's \<Rightarrow> nat \<times> 's" where
  "future_step_span m b startPos endPos currPos st =
     (case st of (startGap, futureScore) \<Rightarrow>
        if startGap = NOT_FOUND \<and> \<not> GetValue b currPos \<and> (currPos < startPos \<or> currPos > endPos)
        then (currPos, futureScore)
        else if startGap \<noteq> NOT_FOUND \<and> (GetValue b currPos \<or> (startPos \<le> currPos \<and> currPos \<le> endPos))
             then (NOT_FOUND, futureScore + GetScore m startGap (sz_sub currPos 1))
        else (startGap, futureScore))"

definition CalcFutureScoreSpan ::
    "'s::{zero,plus} square_matrix \<Rightarrow> words_bitmap \<Rightarrow> nat \<Rightarrow> nat \<Rightarrow> 's" where
  "CalcFutureScoreSpan m b startPos endPos =
     (let firstGap = GetFirstGapPos b
      in if firstGap = NOT_FOUND then 0
         else
           let startGap = (if startPos = firstGap then NOT_FOUND else firstGap);
               startLoop = (if startPos = firstGap then endPos + 1 else firstGap + 1);
               lastPos = GetLastPos b;
               lastCovered = (if endPos > lastPos \<or> lastPos = NOT_FOUND then endPos else lastPos);
               (_, futureScore) =
                 fold (future_step_span m b startPos endPos) [startLoop..<Suc lastCovered] (startGap, 0)
           in if lastCovered \<noteq> sz_sub (m_size b) 1
              then futureScore + GetScore m (lastCovered + 1) (sz_sub (m_size b) 1)
              else futureScore)"

definition show_matrix :: "('s \<Rightarrow> string) \<Rightarrow> 's square_matrix \<Rightarrow> string" where
  "show_matrix show_score m =
     concat (map (\<lambda>endPos.
       concat (map (\<lambda>startPos. show_score (GetScore m startPos endPos) @ '' '') [0..<sm_size m])
       @ [char_of (10::nat)]) [0..<sm_size m])"

section \<open>Reading what was written\<close>

definition wf_matrix :: "'s square_matrix \<Rightarrow> bool" where
  "wf_matrix m \<longleftrightarrow> length (sm_array m) = sm_size m * sm_size m"

lemma index_less:
  fixes s :: nat assumes "s < n" "e < n" shows "s * n + e < n * n"
proof -
  have "s * n + e < s * n + n" using assms by simp
  also have "\<dots> \<le> n * n" using assms by (metis Suc_leI mult_Suc add.commute mult_le_mono1)
  finally show ?thesis .
qed

lemma index_inj:
  fixes s :: nat assumes "e < n" "e' < n" "s * n + e = s' * n + e'" shows "s = s' \<and> e = e'"
proof -
  have "(s * n + e) div n = s" using assms(1) by simp
  moreover have "(s' * n + e') div n = s'" using assms(2) by simp
  ultimately have "s = s'" using assms(3) by metis
  then show ?thesis using assms(3) by simp
qed

lemma size_SetScore [simp]: "sm_size (SetScore m s e v) = sm_size m"
  by (simp add: SetScore_def)

lemma wf_SetScore [simp]: "wf_matrix (SetScore m s e v) \<longleftrightarrow> wf_matrix m"
  by (simp add: SetScore_def wf_matrix_def)

lemma wf_SquareMatrixInit: "sz * sz \<le> length junk \<Longrightarrow> wf_matrix (SquareMatrixInit sz junk)"
  by (simp add: wf_matrix_def SquareMatrixInit_def)

lemma GetScore_SetScore:
  assumes "wf_matrix m" "s < sm_size m" "e < sm_size m" "s' < sm_size m" "e' < sm_size m"
  shows "GetScore (SetScore m s e v) s' e' = (if s' = s \<and> e' = e then v else GetScore m s' e')"
proof (cases "s' = s \<and> e' = e")
  case True
  then show ?thesis using assms index_less [of s "sm_size m" e]
    by (simp add: GetScore_def SetScore_def wf_matrix_def)
next
  case False
  then have "s * sm_size m + e \<noteq> s' * sm_size m + e'"
    using index_inj assms by metis
  then show ?thesis using False by (auto simp: GetScore_def SetScore_def)
qed

section \<open>The gaps of a coverage vector\<close>

text \<open>
  The specification: a gap starts at every uncovered position whose left neighbour is covered or
  absent, and reaches to the edge on its right.
\<close>

definition is_gap_start :: "(nat \<Rightarrow> bool) \<Rightarrow> nat \<Rightarrow> bool" where
  "is_gap_start val s \<longleftrightarrow> \<not> val s \<and> (s = 0 \<or> val (s - 1))"

definition gap_starts :: "words_bitmap \<Rightarrow> nat list" where
  "gap_starts b = filter (is_gap_start (GetValue b)) [0..<m_size b]"

definition sum_of_gaps :: "'s::{zero,plus} square_matrix \<Rightarrow> words_bitmap \<Rightarrow> 's" where
  "sum_of_gaps m b = foldl (\<lambda>acc s. acc + GetScore m s (GetEdgeToTheRightOf b s)) 0 (gap_starts b)"

lemma EdgeToTheRight_unique:
  assumes "s \<le> e" "e < m_size b" "{s<..e} \<inter> covered b = {}" "e + 1 = m_size b \<or> e + 1 \<in> covered b"
  shows "GetEdgeToTheRightOf b s = e"
proof -
  let ?r = "GetEdgeToTheRightOf b s"
  have r: "s \<le> ?r" "?r < m_size b" "{s<..?r} \<inter> covered b = {}" "?r + 1 = m_size b \<or> ?r + 1 \<in> covered b"
    using EdgeToTheRight_props [of s b] assms(1,2) by (auto simp: Let_def)
  show ?thesis
  proof (rule linorder_cases [of ?r e])
    assume "?r < e"
    then have "?r + 1 \<in> {s<..e}" using r by auto
    with \<open>?r < e\<close> r(4) assms(2,3) show ?thesis by fastforce
  next
    assume "e < ?r"
    then have "e + 1 \<in> {s<..?r}" using assms(1) by auto
    with \<open>e < ?r\<close> r(2,3) assms(4) show ?thesis by fastforce
  qed
qed

text \<open>The state of the loop after the first \<open>k\<close> positions.\<close>

definition gaps_state :: "'s::{zero,plus} square_matrix \<Rightarrow> words_bitmap \<Rightarrow> nat \<Rightarrow> nat \<times> 's" where
  "gaps_state m b k = fold (future_step m (GetValue b)) [0..<k] (NOT_FOUND, 0)"

lemma gaps_state_Suc: "gaps_state m b (Suc k) = future_step m (GetValue b) k (gaps_state m b k)"
  by (simp add: gaps_state_def)

lemma gaps_state_inv:
  assumes "wf_bitmap b" "k \<le> m_size b"
  shows "(if k = 0 \<or> GetValue b (k - 1)
          then gaps_state m b k = (NOT_FOUND,
                 foldl (\<lambda>acc s. acc + GetScore m s (GetEdgeToTheRightOf b s)) 0
                   (filter (is_gap_start (GetValue b)) [0..<k]))
          else \<exists>s. s < k \<and> (\<forall>p. s \<le> p \<and> p < k \<longrightarrow> \<not> GetValue b p)
            \<and> filter (is_gap_start (GetValue b)) [0..<k] = filter (is_gap_start (GetValue b)) [0..<s] @ [s]
            \<and> gaps_state m b k = (s,
                 foldl (\<lambda>acc s. acc + GetScore m s (GetEdgeToTheRightOf b s)) 0
                   (filter (is_gap_start (GetValue b)) [0..<s])))"
  using assms(2)
proof (induction k)
  case 0
  then show ?case by (simp add: gaps_state_def)
next
  case (Suc k)
  have k: "k < m_size b" "k < NOT_FOUND" using Suc.prems wf_size_less [OF assms(1)] by auto
  show ?case
  proof (cases "k = 0 \<or> GetValue b (k - 1)")
    case True
    then have st: "gaps_state m b k = (NOT_FOUND,
        foldl (\<lambda>acc s. acc + GetScore m s (GetEdgeToTheRightOf b s)) 0
          (filter (is_gap_start (GetValue b)) [0..<k]))"
      using Suc k by simp
    show ?thesis
    proof (cases "GetValue b k")
      case True
      then show ?thesis using st by (simp add: gaps_state_Suc future_step_def is_gap_start_def)
    next
      case False
      then have "is_gap_start (GetValue b) k" using True by (simp add: is_gap_start_def)
      then show ?thesis using st k False
        by (auto simp: gaps_state_Suc future_step_def less_Suc_eq)
    qed
  next
    case open_gap: False
    then obtain s where s: "s < k" "\<forall>p. s \<le> p \<and> p < k \<longrightarrow> \<not> GetValue b p"
      "filter (is_gap_start (GetValue b)) [0..<k] = filter (is_gap_start (GetValue b)) [0..<s] @ [s]"
      "gaps_state m b k = (s, foldl (\<lambda>acc s. acc + GetScore m s (GetEdgeToTheRightOf b s)) 0
                   (filter (is_gap_start (GetValue b)) [0..<s]))"
      using Suc k by auto
    have not_start: "\<not> is_gap_start (GetValue b) k" using open_gap by (simp add: is_gap_start_def)
    show ?thesis
    proof (cases "GetValue b k")
      case True
      have "{s<..k - 1} \<inter> covered b = {}"
        using s(1,2) k GetValue_covered by fastforce
      moreover have "k - 1 + 1 \<in> covered b" using True k s(1) GetValue_covered by simp
      ultimately have "GetEdgeToTheRightOf b s = k - 1"
        using s(1) k by (intro EdgeToTheRight_unique) auto
      moreover have "sz_sub k 1 = k - 1" using s(1) less_trans [OF k(2) NOT_FOUND_less] by (intro sz_sub_small) auto
      ultimately show ?thesis
        using True s k not_start by (simp add: gaps_state_Suc future_step_def)
    next
      case False
      then have "gaps_state m b (Suc k) = gaps_state m b k"
        using s k by (simp add: gaps_state_Suc future_step_def)
      then show ?thesis using False s not_start by (auto simp: less_Suc_eq intro!: exI [of _ s])
    qed
  qed
qed

lemma CalcFutureScore_gaps:
  assumes "wf_bitmap b"
  shows "CalcFutureScore m b = sum_of_gaps m b"
proof (cases "m_size b = 0 \<or> GetValue b (m_size b - 1)")
  case True
  then show ?thesis using gaps_state_inv [OF assms order_refl, of m]
    by (simp add: CalcFutureScore_def sum_of_gaps_def gap_starts_def gaps_state_def)
next
  case False
  let ?n = "m_size b" and ?add = "\<lambda>acc s. acc + GetScore m s (GetEdgeToTheRightOf b s)"
  from False obtain s where s: "s < ?n" "\<forall>p. s \<le> p \<and> p < ?n \<longrightarrow> \<not> GetValue b p"
    "gap_starts b = filter (is_gap_start (GetValue b)) [0..<s] @ [s]"
    "gaps_state m b ?n = (s, foldl ?add 0 (filter (is_gap_start (GetValue b)) [0..<s]))"
    using gaps_state_inv [OF assms order_refl, of m] by (auto simp: gap_starts_def)
  have "{s<..?n - 1} \<inter> covered b = {}" using s(1,2) GetValue_covered by fastforce
  then have "GetEdgeToTheRightOf b s = ?n - 1"
    using s(1) by (intro EdgeToTheRight_unique) auto
  moreover have n: "?n < NOT_FOUND" using wf_size_less [OF assms] .
  moreover have "sz_sub ?n 1 = ?n - 1" using s(1) less_trans [OF n NOT_FOUND_less] by (intro sz_sub_small) auto
  ultimately show ?thesis using s by (simp add: CalcFutureScore_def sum_of_gaps_def gaps_state_def)
qed

section \<open>The estimate before a phrase is applied\<close>

lemma gaps_state_covered:
  assumes "\<forall>p < k. GetValue b p"
  shows "gaps_state m b k = (NOT_FOUND, 0)"
  using assms by (induction k) (auto simp: gaps_state_Suc future_step_def, simp add: gaps_state_def)

lemma gaps_state_tail:
  assumes "gaps_state m b k = (NOT_FOUND, f)" "k \<le> n" "n < NOT_FOUND"
    and "\<forall>p. k \<le> p \<and> p < n \<longrightarrow> \<not> GetValue b p"
  shows "gaps_state m b n = (if k < n then k else NOT_FOUND, f)"
  using assms(2-)
proof (induction n)
  case 0
  then show ?case using assms(1) by simp
next
  case (Suc n)
  consider "k = Suc n" | "k = n" | "k < n" using Suc.prems(1) by linarith
  then show ?case
    using Suc assms(1) by cases (simp_all add: gaps_state_Suc future_step_def)
qed

lemma gaps_state_closed:
  assumes "wf_bitmap b" "k < m_size b" "GetValue b k"
  shows "fst (gaps_state m b (Suc k)) = NOT_FOUND"
  using gaps_state_inv [OF assms(1), of "Suc k" m] assms by simp

lemma future_step_span_eq:
  assumes "GetValue c p \<longleftrightarrow> GetValue b p \<or> (s \<le> p \<and> p \<le> e)"
  shows "future_step_span m b s e p st = future_step m (GetValue c) p st"
  using assms by (auto simp: future_step_span_def future_step_def not_le split: prod.splits)

lemma fold_span_steps:
  assumes "lo \<le> hi" "\<forall>p. lo \<le> p \<and> p < hi \<longrightarrow> GetValue c p = (GetValue b p \<or> (s \<le> p \<and> p \<le> e))"
    and "st = gaps_state m c lo"
  shows "fold (future_step_span m b s e) [lo..<hi] st = gaps_state m c hi"
  using assms
proof (induction hi)
  case 0
  then show ?case by simp
next
  case (Suc hi)
  then show ?case
  proof (cases "lo = Suc hi")
    case False
    then have "fold (future_step_span m b s e) [lo..<hi] st = gaps_state m c hi"
      using Suc by simp
    then show ?thesis using False Suc.prems
      by (simp add: gaps_state_Suc future_step_span_eq [of c hi b s e])
  qed simp
qed

lemma CalcFutureScoreSpan_extend:
  assumes wf: "wf_bitmap b" and bnd: "startPos \<le> endPos" "endPos < m_size b"
    and free: "{startPos..endPos} \<inter> covered b = {}"
  shows "CalcFutureScoreSpan m b startPos endPos = CalcFutureScore m (SetValueRange b startPos endPos True)"
proof -
  let ?c = "SetValueRange b startPos endPos True"
  let ?g = "first_gap b" and ?l = "max (last_covered b) endPos"
  let ?lo = "if startPos = ?g then endPos + 1 else ?g + 1"
  have sz: "m_size ?c = m_size b" and wfc: "wf_bitmap ?c" and cov: "covered ?c = covered b \<union> {startPos..endPos}"
    using wf bnd by (simp_all add: size_SetValueRange wf_SetValueRange covered_SetValueRange)
  note gap = first_gap_props [OF wf]
  have "startPos \<notin> covered b" using free bnd by auto
  then have below: "?g \<le> startPos" using gap(3) by (meson lessThan_iff linorder_not_le subsetD)
  then have g: "?g < m_size b" "GetFirstGapPos b = ?g" "?g \<noteq> NOT_FOUND"
    using bnd wf_size_less [OF wf] FirstGap_NOT_FOUND [OF wf] gap by (auto simp: first_gap_def split: if_splits)
  have last: "?l = last_covered ?c" using last_covered_extend [OF wf bnd] by simp
  have l: "?l < m_size b" "GetValue ?c ?l"
    using last last_covered_props(3) [OF wfc] covered_less [of ?l ?c] cov bnd sz
      GetValue_covered [of ?l ?c] by auto
  have val: "GetValue ?c p = (GetValue b p \<or> (startPos \<le> p \<and> p \<le> endPos))" if "p < m_size b" for p
    using that GetValue_covered [of p b] GetValue_covered [of p ?c] cov sz by auto
  have init: "(if startPos = ?g then NOT_FOUND else ?g, 0) = gaps_state m ?c ?lo"
  proof (cases "startPos = ?g")
    case True
    have "\<forall>p < endPos + 1. GetValue ?c p"
      using val gap(3) True bnd GetValue_covered [of _ b] by fastforce
    from gaps_state_covered [OF this, of m] show ?thesis using True by simp
  next
    case False
    have "\<forall>p < ?g. GetValue ?c p" using val gap(3) g(1) GetValue_covered [of _ b] by fastforce
    then have "gaps_state m ?c ?g = (NOT_FOUND, 0)" by (rule gaps_state_covered)
    moreover have "\<not> GetValue ?c ?g" using val [OF g(1)] gap(2) g(1) False below GetValue_covered by auto
    ultimately show ?thesis using False by (simp add: gaps_state_Suc future_step_def)
  qed
  have lastCovered: "(if endPos > GetLastPos b \<or> GetLastPos b = NOT_FOUND then endPos else GetLastPos b) = ?l"
    by (auto simp: last_covered_def max_def)
  have lo: "?lo \<le> Suc ?l" using below bnd by auto
  have run: "fold (future_step_span m b startPos endPos) [?lo..<Suc ?l] (if startPos = ?g then NOT_FOUND else ?g, 0)
      = gaps_state m ?c (Suc ?l)"
    by (rule fold_span_steps [OF lo _ init]) (use val l in auto)
  have n: "m_size b < NOT_FOUND" "sz_sub (m_size b) 1 = m_size b - 1"
    using wf_size_less [OF wf] less_trans [OF wf_size_less [OF wf] NOT_FOUND_less] g(1)
    by (auto intro!: sz_sub_small)
  have "\<forall>p. Suc ?l \<le> p \<and> p < m_size b \<longrightarrow> \<not> GetValue ?c p"
    using last_covered_props(1) [OF wfc] sz GetValue_covered [of _ ?c] unfolding last by fastforce
  then have fin: "gaps_state m ?c (m_size b) =
      (if Suc ?l < m_size b then Suc ?l else NOT_FOUND, snd (gaps_state m ?c (Suc ?l)))"
    using gaps_state_closed [OF wfc, of ?l m] l sz n by (intro gaps_state_tail) (auto simp: prod_eq_iff)
  have "CalcFutureScore m ?c = (if Suc ?l < m_size b
      then snd (gaps_state m ?c (Suc ?l)) + GetScore m (Suc ?l) (m_size b - 1)
      else snd (gaps_state m ?c (Suc ?l)))"
    using fin n by (auto simp: CalcFutureScore_def sz gaps_state_def)
  moreover have "?l \<noteq> m_size b - 1 \<longleftrightarrow> Suc ?l < m_size b" using l(1) by auto
  ultimately show ?thesis
    using run g n(2) unfolding CalcFutureScoreSpan_def g(2) lastCovered Let_def
    by (simp add: case_prod_beta del: upt_Suc)
qed

section \<open>Properties\<close>

text \<open>C28: The future score of a coverage vector is the table entries of its maximal gaps, added from
  left to right in exactly that order, whatever rounding the addition has.\<close>

theorem future_score_is_sum_of_gaps:
  assumes "wf_bitmap b"
  shows "CalcFutureScore m b =
    foldl (\<lambda>acc s. acc + GetScore m s (GetEdgeToTheRightOf b s)) 0
      (filter (\<lambda>s. \<not> GetValue b s \<and> (s = 0 \<or> GetValue b (s - 1))) [0..<m_size b])"
  using CalcFutureScore_gaps [OF assms, of m]
  unfolding sum_of_gaps_def gap_starts_def is_gap_start_def .

theorem future_score_is_sum_of_gaps_witness:
  "CalcFutureScore (SquareMatrixInit 3 [1, 2, 3, 4, 5, 6, 7, 8, 9 :: int]) (BitmapInitVector 3 [False, True]) = 1 + 9"
proof -
  let ?b = "BitmapInitVector 3 [False, True]" and ?m = "SquareMatrixInit 3 [1, 2, 3, 4, 5, 6, 7, 8, 9 :: int]"
  have "GetEdgeToTheRightOf ?b 0 = 0" "GetEdgeToTheRightOf ?b 2 = 2"
    by (simp_all add: GetEdgeToTheRightOf.simps [of "\<lparr>m_size = 3, m_bitmap = _\<rparr>"] BitmapInitVector_def upt_rec)
  moreover have "wf_bitmap ?b" by simp
  ultimately show ?thesis
    using future_score_is_sum_of_gaps [of ?b ?m]
    by (simp add: GetValue_def BitmapInitVector_def upt_rec GetScore_def SquareMatrixInit_def numeral_2_eq_2 [symmetric])
qed

text \<open>C14: The optimised estimate for a coverage vector and one more span, which starts at the first
  gap and stops at the last covered word, equals the estimate of the extended vector, for every free
  span inside the sentence and with the same order of additions.\<close>

theorem future_score_of_extension:
  assumes "wf_bitmap b" "startPos \<le> endPos" "endPos < m_size b"
    and "\<not> BitmapOverlap b (WordsRange startPos endPos)"
  shows "CalcFutureScoreSpan m b startPos endPos = CalcFutureScore m (SetValueRange b startPos endPos True)"
  using assms CalcFutureScoreSpan_extend [OF assms(1-3)] by (simp add: BitmapOverlap_iff)

theorem future_score_of_extension_witness:
  "CalcFutureScoreSpan (SquareMatrixInit 3 [1, 2, 3, 4, 5, 6, 7, 8, 9 :: int]) (BitmapInitVector 3 [False, True]) 2 2 =
   CalcFutureScore (SquareMatrixInit 3 [1, 2, 3, 4, 5, 6, 7, 8, 9 :: int])
     (SetValueRange (BitmapInitVector 3 [False, True]) 2 2 True)"
  by (rule future_score_of_extension) (simp_all, simp add: bitmap_defs)

text \<open>A table entry keeps the score stored for its span: writing one span changes the entry of
  that span and of no other.\<close>

theorem matrix_store_load:
  assumes "wf_matrix m" "s < sm_size m" "e < sm_size m" "s' < sm_size m" "e' < sm_size m"
  shows "GetScore (SetScore m s e v) s' e' = (if (s', e') = (s, e) then v else GetScore m s' e')"
  using GetScore_SetScore [OF assms] by simp

theorem matrix_store_load_witness:
  "GetScore (SetScore (SquareMatrixInit 2 [1, 2, 3, 4 :: int]) 0 1 7) 1 0 = 3"
  using matrix_store_load [of "SquareMatrixInit 2 [1, 2, 3, 4 :: int]" 0 1 1 0 7]
  by (simp add: wf_matrix_def SquareMatrixInit_def GetScore_def)

end
