(* ===== verification/All_Pairs.thy ===== *)
theory All_Pairs
  imports Prelude
begin

text \<open>
  The all-pairs shortest path routine behind word lattices (\<open>FloydWarshall.cpp\<close>). The
  distance table is updated in place, entry by entry, in the order of the three loops;
  \<open>MAX_DIST\<close> is half of \<open>INT_MAX\<close>, so the sum of two entries never overflows an
  \<open>int\<close>.
\<close>

section \<open>The routine\<close>

definition MAX_DIST :: int where
  "MAX_DIST = (2 ^ 31 - 1) div 2"

definition fw_init :: "bool list list \<Rightarrow> int list list" where
  "fw_init edges =
     map (\<lambda>i. map (\<lambda>j. let d = (if edges ! i ! j then 1 else MAX_DIST)
                       in if i = j then MAX_DIST else d) [0..<length edges]) [0..<length edges]"

definition fw_relax :: "nat \<Rightarrow> nat \<Rightarrow> nat \<Rightarrow> int list list \<Rightarrow> int list list" where
  "fw_relax k i j dst =
     (if dst ! i ! j > dst ! i ! k + dst ! k ! j
      then dst[i := (dst ! i)[j := dst ! i ! k + dst ! k ! j]] else dst)"

definition fw_phase :: "nat \<Rightarrow> nat \<Rightarrow> int list list \<Rightarrow> int list list" where
  "fw_phase n k dst = fold (\<lambda>i. fold (fw_relax k i) [0..<n]) [0..<n] dst"

text \<open>\<open>None\<close>: the assertion that the matrix is square fails.\<close>

definition floyd_warshall :: "bool list list \<Rightarrow> int list list option" where
  "floyd_warshall edges =
     (if length edges \<noteq> length (hd edges) then None
      else Some (fold (fw_phase (length edges)) [0..<length edges] (fw_init edges)))"

section \<open>The table as a function\<close>

definition table :: "nat \<Rightarrow> int list list \<Rightarrow> (nat \<Rightarrow> nat \<Rightarrow> int) \<Rightarrow> bool" where
  "table n dst d \<longleftrightarrow> length dst = n \<and> (\<forall>i < n. length (dst ! i) = n \<and> (\<forall>j < n. dst ! i ! j = d i j))"

lemma table_init:
  "table (length edges) (fw_init edges) (\<lambda>i j. if i \<noteq> j \<and> edges ! i ! j then 1 else MAX_DIST)"
  by (auto simp: table_def fw_init_def Let_def)

lemma table_relax:
  assumes "table n dst d" "i < n" "j < n" "k < n"
  shows "table n (fw_relax k i j dst) (d(i := (d i)(j := min (d i j) (d i k + d k j))))"
  using assms by (auto simp: table_def fw_relax_def nth_list_update min_def)

text \<open>Row and column \<open>k\<close> do not change in phase \<open>k\<close>, so updating in place is harmless.\<close>

lemma table_row:
  assumes "table n dst d" "i < n" "k < n" "m \<le> n" "0 \<le> d k k"
  shows "table n (fold (fw_relax k i) [0..<m] dst)
           (d(i := (\<lambda>j. if j < m then min (d i j) (d i k + d k j) else d i j)))"
  using assms(4)
proof (induction m)
  case 0
  then show ?case using assms(1) by (simp add: table_def)
next
  case (Suc m)
  let ?d = "d(i := (\<lambda>j. if j < m then min (d i j) (d i k + d k j) else d i j))"
  have "table n (fw_relax k i m (fold (fw_relax k i) [0..<m] dst))
      (?d(i := (?d i)(m := min (?d i m) (?d i k + ?d k m))))"
    by (rule table_relax [OF Suc.IH]) (use Suc.prems assms in auto)
  moreover have "?d(i := (?d i)(m := min (?d i m) (?d i k + ?d k m))) =
      d(i := (\<lambda>j. if j < Suc m then min (d i j) (d i k + d k j) else d i j))"
    using assms(5) by (auto simp: fun_eq_iff less_Suc_eq min_def)
  ultimately show ?case by (simp add: fun_upd_def)
qed

lemma table_rows:
  assumes "table n dst d" "k < n" "m \<le> n" "0 \<le> d k k"
  shows "table n (fold (\<lambda>i. fold (fw_relax k i) [0..<n]) [0..<m] dst)
           (\<lambda>i j. if i < m \<and> j < n then min (d i j) (d i k + d k j) else d i j)"
  using assms(3)
proof (induction m)
  case 0
  then show ?case using assms(1) by simp
next
  case (Suc m)
  let ?d = "\<lambda>i j. if i < m \<and> j < n then min (d i j) (d i k + d k j) else d i j"
  have diag: "?d k k = d k k" using assms(4) by (auto simp: min_def)
  have row: "?d k j = d k j" for j using assms(4) by (auto simp: min_def)
  have "table n (fold (fw_relax k m) [0..<n] (fold (\<lambda>i. fold (fw_relax k i) [0..<n]) [0..<m] dst))
      (?d(m := (\<lambda>j. if j < n then min (?d m j) (?d m k + ?d k j) else ?d m j)))"
    using Suc assms diag by (intro table_row) auto
  moreover have "?d(m := (\<lambda>j. if j < n then min (?d m j) (?d m k + ?d k j) else ?d m j)) =
      (\<lambda>i j. if i < Suc m \<and> j < n then min (d i j) (d i k + d k j) else d i j)"
    unfolding row by (auto simp: fun_eq_iff less_Suc_eq)
  ultimately show ?case by simp
qed

lemma table_phase:
  assumes "table n dst d" "k < n" "0 \<le> d k k"
  shows "table n (fw_phase n k dst) (\<lambda>i j. min (d i j) (d i k + d k j))"
  using table_rows [OF assms(1,2) order_refl assms(3)] by (simp add: fw_phase_def table_def)

section \<open>Paths through a bounded set of intermediate nodes\<close>

inductive path_via :: "(nat \<Rightarrow> nat \<Rightarrow> bool) \<Rightarrow> nat \<Rightarrow> nat \<Rightarrow> nat \<Rightarrow> nat \<Rightarrow> bool"
  for E :: "nat \<Rightarrow> nat \<Rightarrow> bool" and K :: nat where
  edge: "E i j \<Longrightarrow> path_via E K i (Suc 0) j"
| join: "path_via E K i l m \<Longrightarrow> m < K \<Longrightarrow> path_via E K m l' j \<Longrightarrow> path_via E K i (l + l') j"

lemma path_via_pos: "path_via E K i l j \<Longrightarrow> 1 \<le> l"
  by (induction rule: path_via.induct) auto

lemma path_via_mono: "path_via E K i l j \<Longrightarrow> K \<le> K' \<Longrightarrow> path_via E K' i l j"
  by (induction rule: path_via.induct) (auto intro: path_via.intros)

lemma path_via_0: "path_via E 0 i l j \<longleftrightarrow> E i j \<and> l = Suc 0"
  by (auto elim: path_via.cases intro: path_via.edge)

text \<open>A path through nodes up to \<open>k\<close> avoids \<open>k\<close> or goes through it once.\<close>

lemma path_via_Suc:
  assumes "path_via E (Suc k) i l j"
  shows "path_via E k i l j \<or>
    (\<exists>a b. path_via E k i a k \<and> path_via E k k b j \<and> a + b \<le> l)"
  using assms
proof (induction rule: path_via.induct)
  case (edge i j)
  then show ?case by (auto intro: path_via.edge)
next
  case (join i l m l' j)
  show ?case
  proof (cases "m = k")
    case True
    have "\<exists>a. path_via E k i a k \<and> a \<le> l"
      using join.IH(1) True by (meson add_leE order_refl)
    moreover have "\<exists>b. path_via E k k b j \<and> b \<le> l'"
      using join.IH(2) True by (meson add_leE order_refl)
    ultimately show ?thesis by (meson add_mono)
  next
    case False
    then have m: "m < k" using join.hyps by simp
    from join.IH show ?thesis
    proof (elim disjE exE conjE)
      assume "path_via E k i l m" "path_via E k m l' j"
      then show ?thesis using m by (blast intro: path_via.join)
    next
      fix a b assume "path_via E k i l m" "path_via E k m a k" "path_via E k k b j" "a + b \<le> l'"
      then have "path_via E k i (l + a) k \<and> path_via E k k b j \<and> (l + a) + b \<le> l + l'"
        using m by (auto intro: path_via.join)
      then show ?thesis by blast
    next
      fix a b assume "path_via E k m l' j" "path_via E k i a k" "path_via E k k b m" "a + b \<le> l"
      then have "path_via E k i a k \<and> path_via E k k (b + l') j \<and> a + (b + l') \<le> l + l'"
        using m by (auto intro: path_via.join)
      then show ?thesis by blast
    next
      fix a b a' b'
      assume "path_via E k i a k" "a + b \<le> l" "path_via E k k b' j" "a' + b' \<le> l'"
      then have "path_via E k i a k \<and> path_via E k k b' j \<and> a + b' \<le> l + l'" by auto
      then show ?thesis by blast
    qed
  qed
qed

text \<open>The table after \<open>k\<close> phases holds the shortest paths through the nodes below \<open>k\<close>.\<close>

definition shortest_via :: "(nat \<Rightarrow> nat \<Rightarrow> bool) \<Rightarrow> nat \<Rightarrow> (nat \<Rightarrow> nat \<Rightarrow> int) \<Rightarrow> bool" where
  "shortest_via E K d \<longleftrightarrow>
     (\<forall>i j. 1 \<le> d i j \<and> d i j \<le> MAX_DIST
        \<and> (d i j < MAX_DIST \<longrightarrow> path_via E K i (nat (d i j)) j)
        \<and> (\<forall>l. path_via E K i l j \<longrightarrow> d i j \<le> int l))"

lemma MAX_DIST_pos: "1 < MAX_DIST"
  by (simp add: MAX_DIST_def)

lemma shortest_via_init: "shortest_via E 0 (\<lambda>i j. if E i j then 1 else MAX_DIST)"
  using MAX_DIST_pos by (auto simp: shortest_via_def path_via_0)

lemma shortest_via_step:
  assumes "shortest_via E k d"
  shows "shortest_via E (Suc k) (\<lambda>i j. min (d i j) (d i k + d k j))"
proof -
  have b: "1 \<le> d i j" "d i j \<le> MAX_DIST" and s: "d i j < MAX_DIST \<Longrightarrow> path_via E k i (nat (d i j)) j"
    and c: "path_via E k i l j \<Longrightarrow> d i j \<le> int l" for i j l
    using assms by (auto simp: shortest_via_def)
  have sound: "path_via E (Suc k) i (nat (min (d i j) (d i k + d k j))) j"
    if less: "min (d i j) (d i k + d k j) < MAX_DIST" for i j
  proof (cases "d i j \<le> d i k + d k j")
    case True
    then show ?thesis using less s [of i j] by (auto intro: path_via_mono)
  next
    case False
    then have "d i k < MAX_DIST" "d k j < MAX_DIST" using less b [of i k] b [of k j] by linarith+
    then have "path_via E k i (nat (d i k)) k" "path_via E k k (nat (d k j)) j"
      using s by blast+
    then have "path_via E (Suc k) i (nat (d i k)) k" "path_via E (Suc k) k (nat (d k j)) j"
      using path_via_mono [of E k _ _ _ "Suc k"] by auto
    then have "path_via E (Suc k) i (nat (d i k) + nat (d k j)) j" by (blast intro: path_via.join)
    then show ?thesis using False b [of i k] b [of k j] by (simp add: nat_add_distrib min_def)
  qed
  have complete: "min (d i j) (d i k + d k j) \<le> int l" if p: "path_via E (Suc k) i l j" for i j l
    using path_via_Suc [OF p]
  proof (elim disjE exE conjE)
    assume "path_via E k i l j"
    then show ?thesis using c [of i l j] by simp
  next
    fix a b assume "path_via E k i a k" "path_via E k k b j" "a + b \<le> l"
    then show ?thesis using c [of i a k] c [of k b j] by linarith
  qed
  have "1 \<le> min (d i j) (d i k + d k j)" "min (d i j) (d i k + d k j) \<le> MAX_DIST" for i j
    using b [of i j] b [of i k] b [of k j] by linarith+
  then show ?thesis using sound complete by (simp add: shortest_via_def del: min_less_iff_conj)
qed

lemma shortest_via_table:
  assumes "table n dst d" "shortest_via E k d" "k \<le> n"
  shows "\<exists>d'. table n (fold (fw_phase n) [k..<n] dst) d' \<and> shortest_via E n d'"
  using assms
proof (induction "n - k" arbitrary: k dst d)
  case 0
  then show ?case by auto
next
  case (Suc m)
  then have k: "k < n" by simp
  have "0 \<le> d k k" using Suc.prems(2) by (auto simp: shortest_via_def intro: order_trans [of 0 1])
  then have "table n (fw_phase n k dst) (\<lambda>i j. min (d i j) (d i k + d k j))"
    by (rule table_phase [OF Suc.prems(1) k])
  from Suc.hyps(1) [OF _ this shortest_via_step [OF Suc.prems(2)]] show ?case
    using Suc.hyps(2) k by (simp add: upt_conv_Cons)
qed

section \<open>Shortest paths\<close>

text \<open>The edges the routine sees: in range, and no self loops.\<close>

definition edge_rel :: "bool list list \<Rightarrow> (nat \<times> nat) set" where
  "edge_rel edges = {(i, j). i < length edges \<and> j < length edges \<and> i \<noteq> j \<and> edges ! i ! j}"

lemma path_via_relpow:
  assumes "path_via (\<lambda>i j. (i, j) \<in> E) K i l j"
  shows "(i, j) \<in> E ^^ l"
  using assms by (induction rule: path_via.induct) (auto simp: relpow_add)

lemma relpow_path_via:
  assumes "E \<subseteq> {..<n} \<times> {..<n}" "(i, j) \<in> E ^^ Suc l"
  shows "path_via (\<lambda>i j. (i, j) \<in> E) n i (Suc l) j"
  using assms(2)
proof (induction l arbitrary: j)
  case 0
  then show ?case by (simp add: path_via.edge)
next
  case (Suc l)
  then obtain m where m: "(i, m) \<in> E ^^ Suc l" "(m, j) \<in> E" by auto
  then have "path_via (\<lambda>i j. (i, j) \<in> E) n i (Suc l + Suc 0) j"
    using assms(1) Suc.IH by (intro path_via.join [of _ _ _ _ m]) (auto intro: path_via.edge)
  then show ?case by simp
qed

lemma path_via_iff:
  assumes "E \<subseteq> {..<n} \<times> {..<n}"
  shows "path_via (\<lambda>i j. (i, j) \<in> E) n i l j \<longleftrightarrow> 0 < l \<and> (i, j) \<in> E ^^ l"
proof
  assume p: "path_via (\<lambda>i j. (i, j) \<in> E) n i l j"
  show "0 < l \<and> (i, j) \<in> E ^^ l" using path_via_relpow [OF p] path_via_pos [OF p] by simp
next
  assume "0 < l \<and> (i, j) \<in> E ^^ l"
  then show "path_via (\<lambda>i j. (i, j) \<in> E) n i l j"
    using relpow_path_via [OF assms, of i j "l - 1"] by simp
qed

text \<open>A shortest path visits no node twice after its start.\<close>

lemma shortest_bound:
  assumes E: "E \<subseteq> {..<n} \<times> {..<n}" and l: "0 < l" "(i, j) \<in> E ^^ l"
    and least: "\<And>k. 0 < k \<Longrightarrow> k < l \<Longrightarrow> (i, j) \<notin> E ^^ k"
  shows "l \<le> n"
proof (rule ccontr)
  assume "\<not> l \<le> n"
  then have "n < l" by simp
  obtain f where f: "f 0 = i" "f l = j" "\<forall>p < l. (f p, f (Suc p)) \<in> E"
    using l(2) unfolding relpow_fun_conv by blast
  have nodes: "f p \<in> {..<n}" if p: "p \<in> {1..l}" for p
  proof -
    obtain q where "p = Suc q" "q < l" using p by (cases p) auto
    then show ?thesis using f(3) E by auto
  qed
  have "card (f ` {1..l}) \<le> card {..<n}" using nodes by (intro card_mono) auto
  then have "card (f ` {1..l}) < card {1..l}" using \<open>n < l\<close> by simp
  then have "\<not> inj_on f {1..l}" using pigeonhole by blast
  then obtain p q where pq: "p \<in> {1..l}" "q \<in> {1..l}" "p < q" "f p = f q"
    unfolding inj_on_def by (metis linorder_neqE_nat)
  have "(f 0, f p) \<in> E ^^ p" unfolding relpow_fun_conv using f(3) pq(2,3) by (intro exI [of _ f]) auto
  then have front: "(i, f p) \<in> E ^^ p" using f(1) by (simp only:)
  have "(f q, f l) \<in> E ^^ (l - q)"
    unfolding relpow_fun_conv using f(3) pq(2) by (intro exI [of _ "\<lambda>t. f (q + t)"]) simp
  then have "(f p, j) \<in> E ^^ (l - q)" using f(2) pq(4) by (simp only:)
  with front have "(i, j) \<in> E ^^ (p + (l - q))" unfolding relpow_add by (rule relcompI)
  moreover have "1 \<le> p" "q \<le> l" using pq(1,2) by simp_all
  then have "0 < p + (l - q)" "p + (l - q) < l" using pq(3) by linarith+
  then have "(i, j) \<notin> E ^^ (p + (l - q))" by (rule least)
  with \<open>(i, j) \<in> E ^^ (p + (l - q))\<close> show False by (rule notE [rotated])
qed

lemma edge_rel_nodes: "edge_rel edges \<subseteq> {..<length edges} \<times> {..<length edges}"
  by (auto simp: edge_rel_def)

lemma floyd_warshall_shortest:
  assumes "floyd_warshall edges = Some dst"
  obtains d where "table (length edges) dst d"
    and "\<And>i j. 1 \<le> d i j \<and> d i j \<le> MAX_DIST"
    and "\<And>i j. i < length edges \<Longrightarrow> j < length edges \<Longrightarrow> d i j < MAX_DIST \<Longrightarrow>
           (i, j) \<in> edge_rel edges ^^ nat (d i j)"
    and "\<And>i j l. 0 < l \<Longrightarrow> (i, j) \<in> edge_rel edges ^^ l \<Longrightarrow> d i j \<le> int l"
proof -
  let ?n = "length edges" and ?E = "\<lambda>i j. (i, j) \<in> edge_rel edges"
  have dst: "dst = fold (fw_phase ?n) [0..<?n] (fw_init edges)"
    using assms by (auto simp: floyd_warshall_def split: if_splits)
  have "table ?n (fw_init edges) (\<lambda>i j. if ?E i j then 1 else MAX_DIST)"
    using table_init [of edges] by (simp add: table_def edge_rel_def)
  from shortest_via_table [OF this shortest_via_init [of ?E] le0] obtain d
    where d: "table ?n dst d" "shortest_via ?E ?n d" unfolding dst by blast
  show ?thesis
  proof (rule that [OF d(1)])
    show "1 \<le> d i j \<and> d i j \<le> MAX_DIST" for i j using d(2) by (simp add: shortest_via_def)
    show "d i j < MAX_DIST \<Longrightarrow> (i, j) \<in> edge_rel edges ^^ nat (d i j)" for i j
      using d(2) path_via_relpow [of "edge_rel edges" ?n i "nat (d i j)" j] unfolding shortest_via_def by blast
    show "0 < l \<Longrightarrow> (i, j) \<in> edge_rel edges ^^ l \<Longrightarrow> d i j \<le> int l" for i j l
      using d(2) path_via_iff [OF edge_rel_nodes] by (simp add: shortest_via_def)
  qed
qed

lemma floyd_warshall_entry:
  assumes "floyd_warshall edges = Some dst" "int (length edges) < MAX_DIST"
    and "i < length edges" "j < length edges"
  shows "dst ! i ! j =
    (if (i, j) \<in> (edge_rel edges)\<^sup>+
     then int (LEAST l. 0 < l \<and> (i, j) \<in> edge_rel edges ^^ l) else MAX_DIST)"
proof -
  let ?E = "edge_rel edges"
  obtain d where d: "table (length edges) dst d" "\<And>i j. 1 \<le> d i j \<and> d i j \<le> MAX_DIST"
    "\<And>i j. i < length edges \<Longrightarrow> j < length edges \<Longrightarrow> d i j < MAX_DIST \<Longrightarrow> (i, j) \<in> ?E ^^ nat (d i j)"
    "\<And>i j l. 0 < l \<Longrightarrow> (i, j) \<in> ?E ^^ l \<Longrightarrow> d i j \<le> int l"
    using floyd_warshall_shortest [OF assms(1)] by blast
  have entry: "dst ! i ! j = d i j" using d(1) assms(3,4) by (simp add: table_def)
  show ?thesis
  proof (cases "(i, j) \<in> ?E\<^sup>+")
    case True
    let ?l = "LEAST l. 0 < l \<and> (i, j) \<in> ?E ^^ l"
    have l: "0 < ?l" "(i, j) \<in> ?E ^^ ?l"
      using True LeastI_ex [of "\<lambda>l. 0 < l \<and> (i, j) \<in> ?E ^^ l"] by (auto simp: trancl_power)
    have "?l \<le> length edges"
      by (rule shortest_bound [OF edge_rel_nodes l]) (use not_less_Least in blast)
    then have "d i j < MAX_DIST" using d(4) [OF l] assms(2) by simp
    then have "?l \<le> nat (d i j)"
      using d(2) [of i j] d(3) [OF assms(3,4)] by (intro Least_le) simp
    then have "int ?l \<le> d i j" using d(2) [of i j] by (simp add: le_nat_iff)
    then show ?thesis using d(2) [of i j] d(4) [OF l] entry True by simp
  next
    case False
    then have "\<not> d i j < MAX_DIST"
      using d(2) [of i j] d(3) [OF assms(3,4)] by (auto simp: trancl_power dest!: spec [of _ "nat (d i j)"])
    then show ?thesis using d(2) [of i j] entry False by simp
  qed
qed

lemma bounded_steps:
  assumes "set steps \<subseteq> {..<length edges} \<times> {..<length edges} \<times> {..<length edges}"
  shows "\<exists>d. table (length edges) (fold (\<lambda>(k, i, j). fw_relax k i j) steps (fw_init edges)) d
           \<and> (\<forall>i j. 1 \<le> d i j \<and> d i j \<le> MAX_DIST)"
  using assms
proof (induction steps rule: rev_induct)
  case Nil
  then show ?case using table_init [of edges] MAX_DIST_pos by fastforce
next
  case (snoc s steps)
  obtain k i j where s: "s = (k, i, j)" by (cases s) auto
  then obtain d where d: "table (length edges) (fold (\<lambda>(k, i, j). fw_relax k i j) steps (fw_init edges)) d"
    "\<And>i j. 1 \<le> d i j \<and> d i j \<le> MAX_DIST" using snoc by auto
  let ?d = "d(i := (d i)(j := min (d i j) (d i k + d k j)))"
  have "1 \<le> ?d a b \<and> ?d a b \<le> MAX_DIST" for a b
    using d(2) [of a b] d(2) [of i k] d(2) [of k j] d(2) [of i j] by (auto simp: min_def)
  then show ?case using table_relax [OF d(1), of i j k] snoc.prems s by auto
qed

section \<open>Properties\<close>

text \<open>C23: The distance table is exact: for every pair of nodes of a graph with fewer than
  \<open>MAX_DIST\<close> nodes the entry is the number of edges of a shortest non-empty path that avoids
  self loops, and \<open>MAX_DIST\<close> exactly when there is no such path.\<close>

theorem floyd_warshall_correct:
  assumes "floyd_warshall edges = Some dst" "int (length edges) < MAX_DIST"
    and "i < length edges" "j < length edges"
  shows "dst ! i ! j =
    (if (i, j) \<in> (edge_rel edges)\<^sup>+
     then int (LEAST l. 0 < l \<and> (i, j) \<in> edge_rel edges ^^ l) else MAX_DIST)"
  using floyd_warshall_entry [OF assms] .

theorem floyd_warshall_correct_witness:
  "floyd_warshall [[True, True], [False, False]] = Some [[MAX_DIST, 1], [MAX_DIST, MAX_DIST]] \<and>
   (0, 1) \<in> (edge_rel [[True, True], [False, False]])\<^sup>+"
proof -
  let ?g = "[[True, True], [False, False]]" and ?d = "[[MAX_DIST, 1], [MAX_DIST, MAX_DIST]]"
  have run: "floyd_warshall ?g = Some ?d"
    by (simp add: floyd_warshall_def fw_init_def fw_phase_def fw_relax_def MAX_DIST_def upt_rec)
  have "?d ! 0 ! 1 = (if (0, 1) \<in> (edge_rel ?g)\<^sup>+
      then int (LEAST l. 0 < l \<and> (0, 1) \<in> edge_rel ?g ^^ l) else MAX_DIST)"
    by (rule floyd_warshall_correct [OF run]) (simp_all add: MAX_DIST_def)
  then show ?thesis using run by (simp add: MAX_DIST_def split: if_splits)
qed

text \<open>No addition of the routine overflows an \<open>int\<close>: after any sequence of relaxation steps
  on the initial table, so at every moment of the three loops, the entries lie between 1 and
  \<open>MAX_DIST\<close> and the sum the next step forms is its own 32-bit value.\<close>

theorem floyd_warshall_no_overflow:
  assumes "dst = fold (\<lambda>(k, i, j). fw_relax k i j) steps (fw_init edges)"
    and "set steps \<subseteq> {..<length edges} \<times> {..<length edges} \<times> {..<length edges}"
    and "i < length edges" "k < length edges" "j < length edges"
  shows "1 \<le> dst ! i ! j \<and> dst ! i ! j \<le> MAX_DIST \<and>
         to_int32 (dst ! i ! k + dst ! k ! j) = dst ! i ! k + dst ! k ! j"
proof -
  obtain d where d: "table (length edges) dst d" "\<And>i j. 1 \<le> d i j \<and> d i j \<le> MAX_DIST"
    using bounded_steps assms(1,2) by blast
  have e: "dst ! i ! j = d i j" "dst ! i ! k = d i k" "dst ! k ! j = d k j"
    using d(1) assms(3-) by (simp_all add: table_def)
  have "d i k + d k j < 2 ^ 31" "- (2 ^ 31) \<le> d i k + d k j"
    using d(2) [of i k] d(2) [of k j] by (simp_all add: MAX_DIST_def)
  then show ?thesis using d(2) [of i j] e by (simp add: to_int32_small)
qed

theorem floyd_warshall_no_overflow_witness:
  "to_int32 (fw_init [[False, True], [True, False]] ! 0 ! 0 + fw_init [[False, True], [True, False]] ! 0 ! 1)
     = MAX_DIST + 1"
proof -
  let ?g = "[[False, True], [True, False]]"
  have "fw_init ?g = fold (\<lambda>(k, i, j). fw_relax k i j) [] (fw_init ?g)" by simp
  from floyd_warshall_no_overflow [OF this, of 0 0 1] show ?thesis
    by (simp add: fw_init_def upt_rec)
qed

end
