(* ===== verification/Word_Lattice.thy ===== *)
theory Word_Lattice
  imports All_Pairs Words_Range
begin

text \<open>
  The two kinds of decoder input as the search sees them (\<open>InputType\<close> with its defaults
  for plain sentences, \<open>WordLattice\<close>): how far apart two source spans are, and whether a
  lattice node can be reached from another. The lattice is built from a parsed confusion network;
  the word constructor and the logarithm of the C library are parameters.
\<close>

section \<open>Plain input\<close>

text \<open>The conversions to \<open>int\<close> are those of the code.\<close>

definition ComputeDistortionDistance :: "words_range \<Rightarrow> words_range \<Rightarrow> int" where
  "ComputeDistortionDistance prev current =
     (let d = (if RangeNumWordsCovered prev = 0 then to_int32 (int (m_startPos current))
               else to_int32 (int (m_endPos prev)) - to_int32 (int (m_startPos current)) + 1)
      in \<bar>d\<bar>)"

definition DefaultCanIGetFromAToB :: "nat \<Rightarrow> nat \<Rightarrow> bool" where
  "DefaultCanIGetFromAToB start end = True"

definition IsCoveragePossible :: "(nat \<Rightarrow> nat \<Rightarrow> bool) \<Rightarrow> words_range \<Rightarrow> bool" where
  "IsCoveragePossible can_get r = can_get (m_startPos r) (sz_add (m_endPos r) 1)"

definition IsExtensionPossible :: "(nat \<Rightarrow> nat \<Rightarrow> bool) \<Rightarrow> words_range \<Rightarrow> words_range \<Rightarrow> bool" where
  "IsExtensionPossible can_get prev current =
     (let t = sz_add (m_endPos prev) 1;
          l = sz_add (m_endPos current) 1;
          (l, r) = (if l < t then (l, t) else (t, l))
      in if \<not> can_get l r then False
         else
           let r = m_startPos current; l = sz_add (m_endPos prev) 1
           in if l = r then True
              else if m_endPos prev > m_startPos current
              then (let r = m_startPos prev; l = sz_add (m_endPos current) 1
                    in if r = l then True else can_get l r)
              else can_get l r)"

section \<open>Lattices\<close>

record 'w word_lattice =
  wl_data :: "('w \<times> score list) list list"
  next_nodes :: "nat list list"
  distances :: "int list list"

type_synonym cn_alt = "(string \<times> rat list) \<times> nat"

record lattice_config =
  numLinkParams :: nat
  numLinkWeights :: nat
  maxSizePhrase :: nat

definition GetColumnIncrement :: "'w word_lattice \<Rightarrow> nat \<Rightarrow> nat \<Rightarrow> nat" where
  "GetColumnIncrement wl i j = next_nodes wl ! i ! j"

definition GetAsEdgeMatrix :: "'w word_lattice \<Rightarrow> bool list list" where
  "GetAsEdgeMatrix wl =
     fold (\<lambda>i. fold (\<lambda>j edges. edges[i := (edges ! i)[i + next_nodes wl ! i ! j := True]])
                 [0..<length (wl_data wl ! i)])
       [0..<length (wl_data wl)]
       (replicate (length (wl_data wl) + 1) (replicate (length (wl_data wl) + 1) False))"

text \<open>One alternative of a column; \<open>None\<close> is the \<open>return false\<close> of the loader.\<close>

definition init_alt ::
    "lattice_config \<Rightarrow> (rat \<Rightarrow> score) \<Rightarrow> (string \<Rightarrow> 'w) \<Rightarrow> cn_alt \<Rightarrow> (('w \<times> score list) \<times> nat) option" where
  "init_alt cfg logf String2Word alt =
     (if length (snd (fst alt)) \<noteq> numLinkParams cfg then None
      else let scores = map (\<lambda>p. max (logf p) (Fin (-100))) (snd (fst alt));
               addRealWordCount = (numLinkParams cfg + 1 = numLinkWeights cfg);
               value = (if fst (fst alt) = [] \<or> fst (fst alt) = ''*EPS*'' then 0 else Fin (-1));
               scores = (if addRealWordCount then scores @ [value] else scores)
           in if snd alt > maxSizePhrase cfg then None
              else Some ((String2Word (fst (fst alt)), scores), snd alt))"

definition init_col ::
    "lattice_config \<Rightarrow> (rat \<Rightarrow> score) \<Rightarrow> (string \<Rightarrow> 'w) \<Rightarrow> cn_alt list \<Rightarrow> (('w \<times> score list) \<times> nat) list option" where
  "init_col cfg logf String2Word col =
     (if col = [] then None else those (map (init_alt cfg logf String2Word) col))"

definition InitializeFromPCNDataType ::
    "lattice_config \<Rightarrow> (rat \<Rightarrow> score) \<Rightarrow> (string \<Rightarrow> 'w) \<Rightarrow> cn_alt list list \<Rightarrow> 'w word_lattice option" where
  "InitializeFromPCNDataType cfg logf String2Word cn =
     (case those (map (init_col cfg logf String2Word) cn) of
        None \<Rightarrow> None
      | Some cols \<Rightarrow>
          if cn = [] then None
          else let wl = \<lparr>wl_data = map (map fst) cols, next_nodes = map (map snd) cols, distances = []\<rparr>
               in map_option (\<lambda>d. wl\<lparr>distances := d\<rparr>) (floyd_warshall (GetAsEdgeMatrix wl)))"

definition LatticeDistortionDistance :: "'w word_lattice \<Rightarrow> words_range \<Rightarrow> words_range \<Rightarrow> int" where
  "LatticeDistortionDistance wl prev current =
     (if m_startPos prev = NOT_FOUND \<and> m_startPos current = 0 then 0
      else if sz_add (m_endPos prev) 1 = m_startPos current then 0
      else if m_startPos prev = NOT_FOUND then distances wl ! 0 ! m_startPos current
      else if m_endPos prev > m_startPos current
      then distances wl ! m_startPos current ! sz_add (m_endPos prev) 1
      else distances wl ! sz_add (m_endPos prev) 1 ! m_startPos current)"

definition LatticeCanIGetFromAToB :: "'w word_lattice \<Rightarrow> nat \<Rightarrow> nat \<Rightarrow> bool" where
  "LatticeCanIGetFromAToB wl start end \<longleftrightarrow> distances wl ! start ! end < 100000"

section \<open>Distances between spans\<close>

lemma empty_range_covers_nothing: "RangeNumWordsCovered (WordsRange NOT_FOUND e) = 0"
  by (simp add: RangeNumWordsCovered_def)

lemma covers_something:
  assumes "valid_range r" shows "RangeNumWordsCovered r \<noteq> 0"
proof -
  have "m_startPos r \<le> m_endPos r" using assms by auto
  then show ?thesis using NumWordsCovered_card [OF assms] by (simp add: positions_def)
qed

lemma DistortionDistance_valid:
  assumes "valid_range prev" "m_endPos prev < 2 ^ 31" "m_startPos cur < 2 ^ 31"
  shows "ComputeDistortionDistance prev cur = \<bar>int (m_endPos prev) + 1 - int (m_startPos cur)\<bar>"
  using assms covers_something [OF assms(1)]
  by (simp add: ComputeDistortionDistance_def to_int32_small Let_def algebra_simps)

section \<open>The edge matrix of a lattice\<close>

text \<open>A lattice is well formed when its arcs go forward and end inside the node range.\<close>

definition wf_lattice :: "'w word_lattice \<Rightarrow> bool" where
  "wf_lattice wl \<longleftrightarrow> length (next_nodes wl) = length (wl_data wl) \<and>
     (\<forall>i < length (wl_data wl). length (next_nodes wl ! i) = length (wl_data wl ! i) \<and>
        (\<forall>j < length (wl_data wl ! i). 0 < next_nodes wl ! i ! j \<and>
           i + next_nodes wl ! i ! j \<le> length (wl_data wl)))"

definition lattice_arcs :: "'w word_lattice \<Rightarrow> (nat \<times> nat) set" where
  "lattice_arcs wl = {(i, i + next_nodes wl ! i ! j) | i j.
     i < length (wl_data wl) \<and> j < length (wl_data wl ! i)}"

definition square :: "nat \<Rightarrow> bool list list \<Rightarrow> bool" where
  "square n m \<longleftrightarrow> length m = n \<and> (\<forall>i < n. length (m ! i) = n)"

definition true_at :: "bool list list \<Rightarrow> nat \<Rightarrow> (nat \<times> nat) set" where
  "true_at m n = {(i, j). i < n \<and> j < n \<and> m ! i ! j}"

lemma set_arc:
  assumes "square n m" "i < n" "k < n"
  shows "square n (m[i := (m ! i)[k := True]])"
    and "true_at (m[i := (m ! i)[k := True]]) n = insert (i, k) (true_at m n)"
  using assms by (auto simp: square_def true_at_def nth_list_update split: if_splits)

lemma set_arcs_row:
  assumes "square n m" "i < n" "\<forall>j \<in> set js. i + f j < n"
  shows "square n (fold (\<lambda>j m. m[i := (m ! i)[i + f j := True]]) js m) \<and>
         true_at (fold (\<lambda>j m. m[i := (m ! i)[i + f j := True]]) js m) n
           = true_at m n \<union> {(i, i + f j) | j. j \<in> set js}"
  using assms
proof (induction js arbitrary: m)
  case Nil
  then show ?case by simp
next
  case (Cons j js)
  then show ?case using set_arc [of n m i "i + f j"] by auto
qed

lemma set_arcs_rows:
  assumes "square n m" "\<forall>i \<in> set is. i < n \<and> (\<forall>j \<in> set (js i). i + f i j < n)"
  shows "square n (fold (\<lambda>i. fold (\<lambda>j m. m[i := (m ! i)[i + f i j := True]]) (js i)) is m) \<and>
         true_at (fold (\<lambda>i. fold (\<lambda>j m. m[i := (m ! i)[i + f i j := True]]) (js i)) is m) n
           = true_at m n \<union> {(i, i + f i j) | i j. i \<in> set is \<and> j \<in> set (js i)}"
  using assms
proof (induction "is" arbitrary: m)
  case Nil
  then show ?case by simp
next
  case (Cons i "is")
  then show ?case using set_arcs_row [of n m i "js i" "f i"] by auto
qed

lemma edge_matrix_arcs:
  assumes "wf_lattice wl"
  shows "square (length (wl_data wl) + 1) (GetAsEdgeMatrix wl)"
    and "edge_rel (GetAsEdgeMatrix wl) = lattice_arcs wl"
proof -
  let ?n = "length (wl_data wl) + 1"
  let ?z = "replicate ?n (replicate ?n False)"
  have z: "square ?n ?z" "true_at ?z ?n = {}" by (auto simp: square_def true_at_def simp del: replicate_Suc)
  have "\<forall>i \<in> set [0..<length (wl_data wl)]. i < ?n \<and>
      (\<forall>j \<in> set [0..<length (wl_data wl ! i)]. i + next_nodes wl ! i ! j < ?n)"
    using assms by (auto simp: wf_lattice_def less_Suc_eq_le)
  from set_arcs_rows [OF z(1) this]
  have m: "square ?n (GetAsEdgeMatrix wl)" "true_at (GetAsEdgeMatrix wl) ?n = lattice_arcs wl"
    unfolding GetAsEdgeMatrix_def z(2) by (auto simp: lattice_arcs_def)
  show "square ?n (GetAsEdgeMatrix wl)" by (rule m(1))
  have "length (GetAsEdgeMatrix wl) = ?n" using m(1) by (simp add: square_def)
  then have "edge_rel (GetAsEdgeMatrix wl) = {(i, j) \<in> true_at (GetAsEdgeMatrix wl) ?n. i \<noteq> j}"
    by (auto simp: edge_rel_def true_at_def)
  also have "\<dots> = lattice_arcs wl"
    unfolding m(2) using assms by (fastforce simp: lattice_arcs_def wf_lattice_def)
  finally show "edge_rel (GetAsEdgeMatrix wl) = lattice_arcs wl" .
qed

lemma lattice_arcs_forward:
  assumes "wf_lattice wl" "(a, b) \<in> (lattice_arcs wl)\<^sup>+"
  shows "a < b \<and> b \<le> length (wl_data wl)"
  using assms(2)
proof (induction rule: trancl_induct)
  case (base b)
  then show ?case using assms(1) by (auto simp: lattice_arcs_def wf_lattice_def)
next
  case (step b c)
  then show ?case using assms(1) by (fastforce simp: lattice_arcs_def wf_lattice_def)
qed

lemma init_lattice:
  assumes "InitializeFromPCNDataType cfg logf w cn = Some wl"
  shows "length (wl_data wl) = length cn" "cn \<noteq> []"
    "floyd_warshall (GetAsEdgeMatrix wl) = Some (distances wl)"
proof -
  obtain cols d where c: "those (map (init_col cfg logf w) cn) = Some cols" and ne: "cn \<noteq> []"
    and d: "floyd_warshall (GetAsEdgeMatrix \<lparr>wl_data = map (map fst) cols,
              next_nodes = map (map snd) cols, distances = []\<rparr>) = Some d"
    and wl: "wl = \<lparr>wl_data = map (map fst) cols, next_nodes = map (map snd) cols, distances = d\<rparr>"
    using assms by (auto simp: InitializeFromPCNDataType_def Let_def split: option.splits if_splits)
  show "length (wl_data wl) = length cn" using those_length [OF c] by (simp add: wl)
  show "cn \<noteq> []" by (rule ne)
  show "floyd_warshall (GetAsEdgeMatrix wl) = Some (distances wl)"
    using d by (simp add: wl GetAsEdgeMatrix_def)
qed

lemma lattice_distance_entry:
  assumes "InitializeFromPCNDataType cfg logf w cn = Some wl" "wf_lattice wl" "int (length cn) + 1 < MAX_DIST"
    and "a \<le> length cn" "b \<le> length cn"
  shows "distances wl ! a ! b = (if (a, b) \<in> (lattice_arcs wl)\<^sup>+
     then int (LEAST l. 0 < l \<and> (a, b) \<in> lattice_arcs wl ^^ l) else MAX_DIST)"
proof -
  note init = init_lattice [OF assms(1)]
  have len: "length (GetAsEdgeMatrix wl) = length cn + 1"
    using edge_matrix_arcs(1) [OF assms(2)] init(1) by (simp add: square_def)
  show ?thesis
    using floyd_warshall_entry [OF init(3), of a b] assms(3-5) len
    unfolding edge_matrix_arcs(2) [OF assms(2)] by simp
qed

lemma lattice_path_length:
  assumes "wf_lattice wl" "(a, b) \<in> lattice_arcs wl ^^ l"
  shows "l \<le> b - a \<and> a \<le> b"
  using assms(2)
proof (induction l arbitrary: b)
  case 0
  then show ?case by simp
next
  case (Suc l)
  then obtain c where "(a, c) \<in> lattice_arcs wl ^^ l" "(c, b) \<in> lattice_arcs wl" by auto
  moreover have "c < b"
    using lattice_arcs_forward [OF assms(1), of c b] \<open>(c, b) \<in> lattice_arcs wl\<close> by auto
  ultimately show ?case using Suc.IH [of c] by linarith
qed

section \<open>Properties\<close>

text \<open>The reachability test of the search is exact on every well-formed lattice of fewer than
  100000 columns: \<open>CanIGetFromAToB\<close> answers true for two nodes iff a non-empty chain of arcs
  leads from the first to the second, so in particular only for a node further right.\<close>

theorem lattice_reachability:
  assumes "InitializeFromPCNDataType cfg logf w cn = Some wl" "wf_lattice wl" "length cn < 100000"
    and "a \<le> length cn" "b \<le> length cn"
  shows "(LatticeCanIGetFromAToB wl a b \<longleftrightarrow> (a, b) \<in> (lattice_arcs wl)\<^sup>+) \<and>
         (LatticeCanIGetFromAToB wl a b \<longrightarrow> a < b)"
proof -
  note entry = lattice_distance_entry [OF assms(1,2) _ assms(4,5)]
  let ?l = "LEAST l. 0 < l \<and> (a, b) \<in> lattice_arcs wl ^^ l"
  have bound: "int (length cn) + 1 < MAX_DIST" using assms(3) by (simp add: MAX_DIST_def)
  have "LatticeCanIGetFromAToB wl a b" if r: "(a, b) \<in> (lattice_arcs wl)\<^sup>+"
  proof -
    have "(a, b) \<in> lattice_arcs wl ^^ ?l"
      using r LeastI_ex [of "\<lambda>l. 0 < l \<and> (a, b) \<in> lattice_arcs wl ^^ l"] by (auto simp: trancl_power)
    then have "?l < 100000" using lattice_path_length [OF assms(2)] assms(3,5) by fastforce
    then show ?thesis using entry [OF bound] r by (simp add: LatticeCanIGetFromAToB_def)
  qed
  moreover have "\<not> LatticeCanIGetFromAToB wl a b" if "(a, b) \<notin> (lattice_arcs wl)\<^sup>+"
    using entry [OF bound] that by (simp add: LatticeCanIGetFromAToB_def MAX_DIST_def)
  ultimately show ?thesis using lattice_arcs_forward [OF assms(2)] by blast
qed

theorem lattice_reachability_witness:
  "(let wl = the (InitializeFromPCNDataType \<lparr>numLinkParams = 0, numLinkWeights = 0, maxSizePhrase = 5\<rparr>
                 (\<lambda>_. 0) (\<lambda>w. w) [[((''a'', []), 1)]])
    in LatticeCanIGetFromAToB wl 0 1 \<and> \<not> LatticeCanIGetFromAToB wl 1 0)"
proof -
  let ?cfg = "\<lparr>numLinkParams = 0, numLinkWeights = 0, maxSizePhrase = 5\<rparr>"
  let ?wl = "\<lparr>wl_data = [[(''a'', [])]], next_nodes = [[1]], distances = [[MAX_DIST, 1], [MAX_DIST, MAX_DIST]]\<rparr>"
  have run: "InitializeFromPCNDataType ?cfg (\<lambda>_. 0) (\<lambda>w. w) [[((''a'', []), 1)]] = Some ?wl"
    by (simp add: InitializeFromPCNDataType_def init_col_def init_alt_def GetAsEdgeMatrix_def
        floyd_warshall_def fw_init_def fw_phase_def fw_relax_def MAX_DIST_def upt_rec)
  have wf: "wf_lattice ?wl" by (simp add: wf_lattice_def)
  have "(0::nat, 1) \<in> (lattice_arcs ?wl)\<^sup>+" by (rule r_into_trancl) (force simp: lattice_arcs_def)
  then have "LatticeCanIGetFromAToB ?wl 0 1" using lattice_reachability [OF run wf, of 0 1] by simp
  moreover have "(LatticeCanIGetFromAToB ?wl 1 0 \<longleftrightarrow> (1, 0) \<in> (lattice_arcs ?wl)\<^sup>+) \<and>
      (LatticeCanIGetFromAToB ?wl 1 0 \<longrightarrow> (1::nat) < 0)"
    by (rule lattice_reachability [OF run wf]) simp_all
  then have "\<not> LatticeCanIGetFromAToB ?wl 1 0" by (meson not_less0)
  ultimately show ?thesis unfolding run Let_def option.sel by blast
qed

text \<open>The distortion of two valid spans of a plain sentence is zero exactly for the monotone
  continuation, and otherwise the number of positions the decoder jumps over in either direction.\<close>

theorem distortion_is_jump_length:
  assumes "valid_range prev" "valid_range cur" "m_endPos prev < 2 ^ 31" "m_startPos cur < 2 ^ 31"
    and "\<not> RangeOverlap prev cur"
  shows "ComputeDistortionDistance prev cur =
    (if m_startPos cur > m_endPos prev then int (card {m_endPos prev <..< m_startPos cur})
     else int (card (positions cur)) + int (card {m_endPos cur <..< m_startPos prev}) + int (card (positions prev)))"
proof -
  have "m_startPos prev \<le> m_endPos prev" "m_startPos cur \<le> m_endPos cur" using assms by auto
  moreover have "m_startPos cur > m_endPos prev \<or> m_endPos cur < m_startPos prev"
    using assms(5) by (auto simp: RangeOverlap_def split: if_splits)
  ultimately show ?thesis
    using DistortionDistance_valid [OF assms(1,3,4)] by (auto simp: positions_def)
qed

theorem distortion_is_jump_length_witness:
  "ComputeDistortionDistance (WordsRange 4 5) (WordsRange 1 2) = 5"
  using distortion_is_jump_length [of "WordsRange 4 5" "WordsRange 1 2"]
  by (simp add: RangeOverlap_def NOT_FOUND_def)

end
