(* ===== verification/Reordering_Constraint.thy ===== *)
theory Reordering_Constraint
  imports Words_Bitmap
begin

text \<open>
  Reordering walls and zones of a source sentence (\<open>ReorderingConstraint.h\<close>,
  \<open>ReorderingConstraint.cpp\<close>), set from the \<open>-monotone-at-punctuation\<close> switch or from XML
  markup, and the check the search makes before it extends a hypothesis by a phrase.
  The distortion limit, a global of the decoder, is an argument of the check.
\<close>

section \<open>The class\<close>

definition NOT_A_ZONE :: nat where
  "NOT_A_ZONE = 999999999"

record reordering_constraint =
  rc_size :: nat
  m_wall :: "bool list"
  m_localWall :: "nat list"
  m_zone :: "(nat \<times> nat) list"
  m_active :: bool

definition ReorderingConstraintInit :: reordering_constraint where
  "ReorderingConstraintInit =
     \<lparr>rc_size = 0, m_wall = [], m_localWall = [], m_zone = [], m_active = False\<rparr>"

definition InitializeWalls :: "nat \<Rightarrow> reordering_constraint \<Rightarrow> reordering_constraint" where
  "InitializeWalls sz rc =
     rc\<lparr>rc_size := sz, m_wall := map (\<lambda>pos. False) [0..<sz], m_localWall := map (\<lambda>pos. NOT_A_ZONE) [0..<sz]\<rparr>"

definition SetWall :: "nat \<Rightarrow> bool \<Rightarrow> reordering_constraint \<Rightarrow> reordering_constraint" where
  "SetWall pos v rc = rc\<lparr>m_wall := (m_wall rc)[pos := v], m_active := True\<rparr>"

definition GetWall :: "reordering_constraint \<Rightarrow> nat \<Rightarrow> bool" where
  "GetWall rc pos = m_wall rc ! pos"

definition GetLocalWall :: "reordering_constraint \<Rightarrow> nat \<Rightarrow> nat \<Rightarrow> bool" where
  "GetLocalWall rc pos z \<longleftrightarrow> m_localWall rc ! pos = z"

definition SetZone :: "nat \<Rightarrow> nat \<Rightarrow> reordering_constraint \<Rightarrow> reordering_constraint" where
  "SetZone startPos endPos rc = rc\<lparr>m_zone := m_zone rc @ [(startPos, endPos)], m_active := True\<rparr>"

text \<open>One position of one zone, then all positions of a zone, then all zones.\<close>

definition localize_wall :: "nat \<Rightarrow> nat \<Rightarrow> reordering_constraint \<Rightarrow> reordering_constraint" where
  "localize_wall z pos rc =
     (let (startZone, endZone) = m_zone rc ! z
      in if m_wall rc ! pos
         then rc\<lparr>m_localWall := (m_localWall rc)[pos := z], m_wall := (m_wall rc)[pos := False]\<rparr>
         else if m_localWall rc ! pos \<noteq> NOT_A_ZONE
         then let assigned_z = m_localWall rc ! pos
              in if fst (m_zone rc ! assigned_z) < startZone \<or> snd (m_zone rc ! assigned_z) > endZone
                 then rc\<lparr>m_localWall := (m_localWall rc)[pos := z]\<rparr> else rc
         else rc)"

definition FinalizeWalls :: "reordering_constraint \<Rightarrow> reordering_constraint" where
  "FinalizeWalls rc =
     fold (\<lambda>z rc. fold (localize_wall z) [fst (m_zone rc ! z)..<snd (m_zone rc ! z)] rc)
       [0..<length (m_zone rc)] rc"

definition punctuation :: "string list" where
  "punctuation = ['','', ''.'', ''!'', ''?'', '':'', '';'', [CHR 0x22]]"

definition SetMonotoneAtPunctuation :: "string list \<Rightarrow> reordering_constraint \<Rightarrow> reordering_constraint" where
  "SetMonotoneAtPunctuation sentence rc =
     fold (\<lambda>i rc.
       if sentence ! i \<in> set punctuation
       then let rc = (if i > 0 \<and> i < sz_sub (rc_size rc) 1 then SetWall i True rc else rc)
            in if i > 1 then SetWall (i - 1) True rc else rc
       else rc) [0..<length sentence] rc"

text \<open>The check of the local walls of a zone walks over its positions with a flag.\<close>

fun local_walls_ok :: "reordering_constraint \<Rightarrow> words_bitmap \<Rightarrow> nat \<Rightarrow> nat \<Rightarrow> bool \<Rightarrow> nat list \<Rightarrow> bool" where
  "local_walls_ok rc b startPos z seen [] = True"
| "local_walls_ok rc b startPos z seen (pos # ps) =
     (let seen = (if \<not> GetValue b pos \<and> pos < startPos then True else seen)
      in if seen \<and> GetLocalWall rc pos z then False else local_walls_ok rc b startPos z seen ps)"

definition words_in_zone :: "words_bitmap \<Rightarrow> nat \<Rightarrow> nat \<Rightarrow> nat \<Rightarrow> nat" where
  "words_in_zone b lastPos startZone endZone =
     (if lastPos \<ge> startZone
      then fold (\<lambda>pos n. if GetValue b pos then n + 1 else n) [startZone..<Suc endZone] 0 else 0)"

text \<open>True: the loop over the zones continues; False: the check returns false.\<close>

definition zone_ok :: "int \<Rightarrow> reordering_constraint \<Rightarrow> words_bitmap \<Rightarrow> nat \<Rightarrow> nat \<Rightarrow> nat \<Rightarrow> bool" where
  "zone_ok distortionLimit rc b startPos endPos z =
     (let firstGapPos = GetFirstGapPos b; lastPos = GetLastPos b;
          (startZone, endZone) = m_zone rc ! z;
          outside = (endPos < startZone \<or> startPos > endZone)
      in if lastPos < startZone \<and> outside then True
         else if firstGapPos > endZone then True
         else
           let numWords = words_in_zone b lastPos startZone endZone;
               activeZone = (numWords > 0)
           in if numWords = sz_add (sz_sub endZone startZone) 1 then True
              else if \<not> activeZone \<and> outside then True
              else if activeZone \<and> outside then False
              else if startPos \<noteq> firstGapPos \<and>
                      int (sz_sub endZone firstGapPos) \<ge> distortionLimit mod int size_bound then False
              else if startPos \<le> startZone then True
              else if endPos > endZone
              then (if sz_add (sz_sub endZone startPos) 1 < sz_sub (sz_add (sz_sub endZone startZone) 1) numWords
                    then False else True)
              else local_walls_ok rc b startPos z False [startZone..<min endZone endPos])"

definition Check :: "int \<Rightarrow> reordering_constraint \<Rightarrow> words_bitmap \<Rightarrow> nat \<Rightarrow> nat \<Rightarrow> bool" where
  "Check distortionLimit rc b startPos endPos =
     (if \<not> m_active rc then True
      else
        let firstGapPos = GetFirstGapPos b
        in if firstGapPos \<noteq> startPos \<and> find (\<lambda>pos. GetWall rc pos) [firstGapPos..<endPos] \<noteq> None then False
           else
             let lastPos = GetLastPos b
             in if (lastPos = NOT_FOUND \<and> startPos = 0) \<or> (firstGapPos > lastPos \<and> firstGapPos = startPos)
                then True
                else list_all (zone_ok distortionLimit rc b startPos endPos) [0..<length (m_zone rc)])"

section \<open>Extending a hypothesis\<close>

text \<open>
  The coverage vectors the search can reach: an extension covers a free span inside the sentence
  that passes the check.
\<close>

inductive extend :: "int \<Rightarrow> reordering_constraint \<Rightarrow> words_bitmap \<Rightarrow> words_range \<Rightarrow> words_bitmap \<Rightarrow> bool"
  for limit :: int and rc :: reordering_constraint where
  extend: "startPos \<le> endPos \<Longrightarrow> endPos < m_size b \<Longrightarrow> \<not> BitmapOverlap b (WordsRange startPos endPos) \<Longrightarrow>
    Check limit rc b startPos endPos \<Longrightarrow>
    extend limit rc b (WordsRange startPos endPos) (SetValueRange b startPos endPos True)"

inductive derivable :: "int \<Rightarrow> reordering_constraint \<Rightarrow> nat \<Rightarrow> words_bitmap \<Rightarrow> bool"
  for limit :: int and rc :: reordering_constraint and n :: nat where
  empty: "derivable limit rc n (BitmapInit n)"
| step: "derivable limit rc n b \<Longrightarrow> extend limit rc b r b' \<Longrightarrow> derivable limit rc n b'"

inductive_cases extendE: "extend limit rc b r b'"

inductive_simps extend_iff: "extend limit rc b (WordsRange startPos endPos) b'"

lemma extend_props:
  assumes "extend limit rc b (WordsRange s e) b'" "wf_bitmap b"
  shows "s \<le> e" "e < m_size b" "{s..e} \<inter> covered b = {}" "Check limit rc b s e"
    "wf_bitmap b'" "m_size b' = m_size b" "covered b' = covered b \<union> {s..e}"
proof -
  have span: "s \<le> e" "e < m_size b" "\<not> BitmapOverlap b (WordsRange s e)" "Check limit rc b s e"
    and b': "b' = SetValueRange b s e True"
    using assms(1) by (auto simp: extend_iff)
  show "s \<le> e" "e < m_size b" "Check limit rc b s e" using span by simp_all
  show "{s..e} \<inter> covered b = {}"
    using span(3) BitmapOverlap_iff [of "WordsRange s e" b] span(2) by simp
  show "wf_bitmap b'" "m_size b' = m_size b" "covered b' = covered b \<union> {s..e}"
    unfolding b' using wf_SetValueRange [OF assms(2) span(2)] size_SetValueRange [OF assms(2) span(2)]
      covered_SetValueRange [OF assms(2) span(2)] by simp_all
qed

lemma extend_wf: "extend limit rc b r b' \<Longrightarrow> wf_bitmap b \<Longrightarrow> wf_bitmap b' \<and> m_size b' = m_size b"
  by (auto elim!: extendE simp: wf_SetValueRange size_SetValueRange)

lemma derivable_wf:
  "derivable limit rc n b \<Longrightarrow> n < 2 ^ 31 \<Longrightarrow> wf_bitmap b \<and> m_size b = n"
  by (induction rule: derivable.induct) (auto dest: extend_wf)

section \<open>Walls\<close>

lemma Check_wall:
  assumes "Check limit rc b s e" "m_active rc" "GetFirstGapPos b \<noteq> s" "GetFirstGapPos b \<le> w" "w < e"
  shows "\<not> GetWall rc w"
proof -
  have "find (\<lambda>pos. GetWall rc pos) [GetFirstGapPos b..<e] = None"
    using assms(1-3) by (auto simp: Check_def Let_def split: if_splits)
  then show ?thesis using assms(4,5) unfolding find_upt_None by blast
qed

definition wall_respected :: "reordering_constraint \<Rightarrow> words_bitmap \<Rightarrow> bool" where
  "wall_respected rc b \<longleftrightarrow>
     (\<forall>w p. w < m_size b \<and> GetWall rc w \<and> w < p \<and> p \<in> covered b \<longrightarrow> {..w} \<subseteq> covered b)"

lemma free_span_gap:
  assumes "wf_bitmap b" "s \<le> e" "e < m_size b" "{s..e} \<inter> covered b = {}"
  shows "GetFirstGapPos b = first_gap b" "first_gap b \<le> s"
proof -
  have "s \<notin> covered b" using assms(2,4) by auto
  then show "first_gap b \<le> s"
    using first_gap_props(3) [OF assms(1)] by (meson lessThan_iff linorder_not_le subsetD)
  have "s < m_size b" using assms(2,3) by simp
  then have "covered b \<noteq> {..<m_size b}" using \<open>s \<notin> covered b\<close> by blast
  then show "GetFirstGapPos b = first_gap b"
    using FirstGap_NOT_FOUND [OF assms(1)] by (simp add: first_gap_def)
qed

lemma extend_wall_respected:
  assumes "extend limit rc b r b'" "wf_bitmap b" "m_active rc" "wall_respected rc b"
  shows "wall_respected rc b'"
proof -
  obtain s e where r: "r = WordsRange s e" by (cases r)
  note ext = extend_props [OF assms(1) [unfolded r] assms(2)]
  note gap = free_span_gap [OF assms(2) ext(1-3)]
  note before = first_gap_props(3) [OF assms(2)]
  show ?thesis unfolding wall_respected_def
  proof (intro allI impI)
    fix w p assume w: "w < m_size b' \<and> GetWall rc w \<and> w < p \<and> p \<in> covered b'"
    show "{..w} \<subseteq> covered b'"
    proof (cases "p \<in> covered b")
      case True
      then show ?thesis using w assms(4) ext(6,7) by (force simp: wall_respected_def)
    next
      case False
      then have we: "w < e" using w ext(7) by auto
      show ?thesis
      proof (cases "first_gap b = s")
        case True
        have "{..w} \<subseteq> {..<first_gap b} \<union> {s..e}" using True we by auto
        then show ?thesis using before ext(7) by blast
      next
        case False
        have "w < first_gap b"
        proof (rule ccontr)
          assume "\<not> w < first_gap b"
          then have "\<not> GetWall rc w"
            using Check_wall [OF ext(4) assms(3), of w] we False by (simp add: gap(1))
          then show False using w by simp
        qed
        then have "{..w} \<subseteq> {..<first_gap b}" by auto
        then show ?thesis using before ext(7) by blast
      qed
    qed
  qed
qed

lemma derivable_wall_respected:
  assumes "derivable limit rc n b" "n < 2 ^ 31" "m_active rc"
  shows "wall_respected rc b"
  using assms
proof (induction rule: derivable.induct)
  case empty
  then show ?case by (simp add: wall_respected_def)
next
  case (step b r b')
  then show ?case using extend_wall_respected derivable_wf by blast
qed

section \<open>Zones\<close>

definition zone_positions :: "nat \<times> nat \<Rightarrow> nat set" where
  "zone_positions zn = {fst zn..snd zn}"

lemma words_in_zone_card:
  assumes "wf_bitmap b" "endZone < m_size b"
  shows "words_in_zone b (GetLastPos b) startZone endZone = card ({startZone..endZone} \<inter> covered b)"
proof (cases "GetLastPos b \<ge> startZone")
  case True
  have "words_in_zone b (GetLastPos b) startZone endZone =
      length (filter (GetValue b) [startZone..<Suc endZone])"
    using True by (simp only: words_in_zone_def if_True fold_count add_0)
  also have "\<dots> = card (set (filter (GetValue b) [startZone..<Suc endZone]))"
    by (rule distinct_card [symmetric]) simp
  also have "set (filter (GetValue b) [startZone..<Suc endZone]) = {startZone..endZone} \<inter> covered b"
    using assms(2) GetValue_covered [of _ b] by (auto simp del: upt_Suc)
  finally show ?thesis .
next
  case False
  then have "GetLastPos b \<noteq> NOT_FOUND \<or> m_size b \<le> startZone"
    using wf_size_less [OF assms(1)] by auto
  then have "{startZone..endZone} \<inter> covered b = {}"
  proof
    assume "GetLastPos b \<noteq> NOT_FOUND"
    then have "\<forall>p \<in> covered b. p \<le> GetLastPos b"
      using last_covered_props(1) [OF assms(1)] by (simp add: last_covered_def)
    then show ?thesis using False by fastforce
  qed (use assms(2) in auto)
  then show ?thesis using False by (simp add: words_in_zone_def)
qed

text \<open>A zone is under way when some but not all of its words are translated.\<close>

definition zone_active :: "words_bitmap \<Rightarrow> nat \<times> nat \<Rightarrow> bool" where
  "zone_active b zn \<longleftrightarrow> zone_positions zn \<inter> covered b \<noteq> {} \<and> \<not> zone_positions zn \<subseteq> covered b"

lemma zone_ok_under_way:
  assumes ok: "zone_ok limit rc b s e z" and zone: "m_zone rc ! z = (zs, ze)"
    and num: "0 < words_in_zone b (GetLastPos b) zs ze"
      "words_in_zone b (GetLastPos b) zs ze \<noteq> sz_add (sz_sub ze zs) 1"
    and pos: "zs \<le> GetLastPos b" "GetFirstGapPos b \<le> ze"
  shows "zs \<le> e \<and> s \<le> ze \<and>
    (zs < s \<and> ze < e \<longrightarrow> sz_sub (sz_add (sz_sub ze zs) 1) (words_in_zone b (GetLastPos b) zs ze)
        \<le> sz_add (sz_sub ze s) 1)"
proof -
  have "\<not> GetLastPos b < zs" "\<not> ze < GetFirstGapPos b" using pos by simp_all
  note unfolded = ok [unfolded zone_ok_def Let_def zone prod.case, simplified this num, simplified]
  have "\<not> (e < zs \<or> ze < s)" using unfolded num(1) by meson
  moreover from this have "\<not> sz_add (sz_sub ze s) 1 < sz_sub (sz_add (sz_sub ze zs) 1)
      (words_in_zone b (GetLastPos b) zs ze)" if "zs < s" "ze < e"
    using unfolded num(1) that by (meson not_less)
  ultimately show ?thesis by auto
qed

lemma Check_active_zone:
  assumes wf: "wf_bitmap b" and span: "s \<le> e" "e < m_size b" "{s..e} \<inter> covered b = {}"
    and chk: "Check limit rc b s e" "m_active rc"
    and zone: "z < length (m_zone rc)" "m_zone rc ! z = (zs, ze)" "zs \<le> ze" "ze < m_size b"
    and active: "zone_active b (zs, ze)"
  shows "{s..e} \<inter> {zs..ze} \<noteq> {}"
    and "e > ze \<Longrightarrow> s > zs \<Longrightarrow> {zs..ze} \<subseteq> covered b \<union> {s..e}"
proof -
  note gap = free_span_gap [OF wf span] and fg = first_gap_props [OF wf]
  have "{zs..ze} \<inter> covered b \<noteq> {}" "\<not> {zs..ze} \<subseteq> covered b"
    using active by (simp_all add: zone_active_def zone_positions_def)
  then obtain p q where p: "p \<in> {zs..ze}" "p \<in> covered b" and q: "q \<in> {zs..ze}" "q \<notin> covered b"
    by blast
  have gq: "first_gap b \<le> q" using fg(3) q(2) by (meson lessThan_iff linorder_not_le subsetD)
  have last: "GetLastPos b \<noteq> NOT_FOUND" using LastPos_NOT_FOUND [OF wf] p(2) by blast
  then have lp: "p \<le> GetLastPos b"
    using last_covered_props(1) [OF wf] p(2) by (simp add: last_covered_def)
  let ?num = "words_in_zone b (GetLastPos b) zs ze"
  have num: "?num = card ({zs..ze} \<inter> covered b)" by (rule words_in_zone_card [OF wf zone(4)])
  have "card ({zs..ze} \<inter> covered b) < card {zs..ze}"
  proof (rule psubset_card_mono)
    show "{zs..ze} \<inter> covered b \<subset> {zs..ze}" using q by blast
  qed simp
  moreover have "0 < card ({zs..ze} \<inter> covered b)" 
    unfolding card_gt_0_iff using p by blast
  ultimately have n: "0 < ?num" "?num < ze - zs + 1" using num zone(3) by simp_all
  have small: "ze < size_bound" "ze - zs + 1 < size_bound"
    using zone(4) wf_size_less [OF wf] by (auto simp: NOT_FOUND_def size_bound_def)
  have szn: "sz_add (sz_sub ze zs) 1 = ze - zs + 1"
    using small zone(3) by (simp add: sz_sub_small sz_add_small)
  have mono_case: "\<not> (first_gap b > GetLastPos b \<and> first_gap b = s) \<or> s \<in> {zs..ze}"
    using gq q(1) p(1) lp by auto
  consider (mono) "first_gap b > GetLastPos b" "first_gap b = s"
    | (zones) "zone_ok limit rc b s e z"
    using chk last gap(1) zone(1) by (auto simp: Check_def Let_def list_all_iff split: if_splits)
  note cases = this
  have "zs \<le> GetLastPos b" "GetFirstGapPos b \<le> ze" using lp p(1) gq q(1) gap(1) by auto
  note under_way = zone_ok_under_way [OF _ zone(2) _ _ this, unfolded szn,
      OF _ n(1) less_imp_neq [OF n(2)]]
  show "{s..e} \<inter> {zs..ze} \<noteq> {}"
  proof (cases rule: cases)
    case mono
    then have "s \<in> {s..e} \<inter> {zs..ze}" using mono_case span(1) by auto
    then show ?thesis by blast
  next
    case zones
    then have "zs \<le> e" "s \<le> ze" using under_way by simp_all
    then have "max s zs \<in> {s..e} \<inter> {zs..ze}" using span(1) zone(3) by auto
    then show ?thesis by blast
  qed
  show "{zs..ze} \<subseteq> covered b \<union> {s..e}" if beyond: "e > ze" and inside: "s > zs"
  proof (cases rule: cases)
    case mono
    then have "{..<s} \<subseteq> covered b" using fg(3) by simp
    moreover have "{zs..ze} \<subseteq> {..<s} \<union> {s..e}" using beyond by auto
    ultimately show ?thesis by blast
  next
    case zones
    then have in_zone: "zs \<le> e" "s \<le> ze" and fill:
        "sz_sub (ze - zs + 1) ?num \<le> sz_add (sz_sub ze s) 1"
      using under_way beyond inside by simp_all
    have "sz_add (sz_sub ze s) 1 = ze - s + 1"
      using in_zone small(1) inside zone(3) small(2) by (subst sz_sub_small; simp add: sz_add_small)
    moreover have "sz_sub (ze - zs + 1) ?num = ze - zs + 1 - ?num"
      using n(2) small(2) by (intro sz_sub_small) auto
    ultimately have enough: "ze - zs + 1 - ?num \<le> ze - s + 1" using fill by simp
    have "card ({zs..ze} - covered b) = ze - zs + 1 - ?num"
      using zone(3) num by (simp add: card_Diff_subset_Int)
    moreover have sub: "{s..ze} \<subseteq> {zs..ze} - covered b"
      using span(3) inside beyond by fastforce
    moreover have "card {s..ze} = ze - s + 1" using in_zone by simp
    ultimately have "{s..ze} = {zs..ze} - covered b"
      using enough by (intro card_seteq) simp_all
    then have "{zs..ze} \<subseteq> covered b \<union> {s..ze}" by blast
    moreover have "{s..ze} \<subseteq> {s..e}" using beyond by auto
    ultimately show ?thesis by blast
  qed
qed

section \<open>Walls inside zones\<close>

text \<open>What one pass over a zone does to the wall and the local wall of one position.\<close>

definition localize_at :: "(nat \<times> nat) list \<Rightarrow> nat \<Rightarrow> bool \<times> nat \<Rightarrow> bool \<times> nat" where
  "localize_at zones z wl =
     (case wl of (wall, local) \<Rightarrow>
        if wall then (False, z)
        else if local \<noteq> NOT_A_ZONE \<and>
          (fst (zones ! local) < fst (zones ! z) \<or> snd (zones ! local) > snd (zones ! z))
        then (False, z) else (False, local))"

definition wall_at :: "reordering_constraint \<Rightarrow> nat \<Rightarrow> bool \<times> nat" where
  "wall_at rc p = (m_wall rc ! p, m_localWall rc ! p)"

definition in_zone :: "(nat \<times> nat) list \<Rightarrow> nat \<Rightarrow> nat \<Rightarrow> bool" where
  "in_zone zones z p \<longleftrightarrow> fst (zones ! z) \<le> p \<and> p < snd (zones ! z)"

definition wf_constraint :: "reordering_constraint \<Rightarrow> bool" where
  "wf_constraint rc \<longleftrightarrow> length (m_wall rc) = rc_size rc \<and> length (m_localWall rc) = rc_size rc"

lemma localize_wall_frame:
  "m_zone (localize_wall z pos rc) = m_zone rc" "rc_size (localize_wall z pos rc) = rc_size rc"
  "wf_constraint rc \<Longrightarrow> wf_constraint (localize_wall z pos rc)"
  by (auto simp: localize_wall_def wf_constraint_def Let_def split: prod.splits)

lemma wall_at_localize_wall:
  assumes "wf_constraint rc" "p < rc_size rc"
  shows "wall_at (localize_wall z pos rc) p =
    (if pos = p then localize_at (m_zone rc) z (wall_at rc p) else wall_at rc p)"
  using assms
  by (auto simp: localize_wall_def wf_constraint_def wall_at_def localize_at_def Let_def
      split: prod.splits)

lemma fold_localize_frame:
  "m_zone (fold (localize_wall z) ps rc) = m_zone rc"
  "rc_size (fold (localize_wall z) ps rc) = rc_size rc"
  "wf_constraint rc \<Longrightarrow> wf_constraint (fold (localize_wall z) ps rc)"
  by (induction ps arbitrary: rc) (simp_all add: localize_wall_frame)

lemma wall_at_fold_localize:
  assumes "wf_constraint rc" "p < rc_size rc" "distinct ps"
  shows "wall_at (fold (localize_wall z) ps rc) p =
    (if p \<in> set ps then localize_at (m_zone rc) z (wall_at rc p) else wall_at rc p)"
  using assms
  by (induction ps arbitrary: rc) (auto simp: localize_wall_frame wall_at_localize_wall)

lemma FinalizeWalls_wall_at:
  assumes "wf_constraint rc" "p < rc_size rc"
  shows "wall_at (FinalizeWalls rc) p =
    fold (\<lambda>z wl. if in_zone (m_zone rc) z p then localize_at (m_zone rc) z wl else wl)
      [0..<length (m_zone rc)] (wall_at rc p)"
proof -
  let ?step = "\<lambda>z rc. fold (localize_wall z) [fst (m_zone rc ! z)..<snd (m_zone rc ! z)] rc"
  have "wall_at (fold ?step zs rc) p =
    fold (\<lambda>z wl. if in_zone (m_zone rc) z p then localize_at (m_zone rc) z wl else wl)
      zs (wall_at rc p)" for zs
    using assms
  proof (induction zs arbitrary: rc)
    case Nil
    then show ?case by simp
  next
    case (Cons z zs)
    then show ?case
      using Cons.IH [of "?step z rc"]
      by (simp add: fold_localize_frame wall_at_fold_localize in_zone_def cong: if_cong)
  qed
  then show ?thesis unfolding FinalizeWalls_def .
qed

text \<open>Zones from markup are nested or disjoint.\<close>

definition nested_zones :: "(nat \<times> nat) list \<Rightarrow> bool" where
  "nested_zones zones \<longleftrightarrow>
     (\<forall>y < length zones. \<forall>z < length zones. \<forall>p. in_zone zones y p \<and> in_zone zones z p \<longrightarrow>
        zone_positions (zones ! y) \<subseteq> zone_positions (zones ! z) \<or>
        zone_positions (zones ! z) \<subseteq> zone_positions (zones ! y))"

lemma localize_fold_innermost:
  fixes zones :: "(nat \<times> nat) list" and k p :: nat
  assumes "nested_zones zones" "k \<le> length zones" "length zones \<le> NOT_A_ZONE"
  defines "res \<equiv> fold (\<lambda>z wl. if in_zone zones z p then localize_at zones z wl else wl)
      [0..<k] (True, NOT_A_ZONE)"
  shows "(fst res \<longleftrightarrow> (\<forall>z < k. \<not> in_zone zones z p)) \<and>
    (fst res \<longrightarrow> snd res = NOT_A_ZONE) \<and>
    (\<not> fst res \<longrightarrow> snd res < k \<and> in_zone zones (snd res) p \<and>
       (\<forall>z < k. in_zone zones z p \<longrightarrow>
          zone_positions (zones ! (snd res)) \<subseteq> zone_positions (zones ! z)))"
  using assms(2) unfolding res_def
proof (induction k)
  case 0
  then show ?case by simp
next
  case (Suc k)
  let ?f = "\<lambda>k. fold (\<lambda>z wl. if in_zone zones z p then localize_at zones z wl else wl)
      [0..<k] (True, NOT_A_ZONE)"
  obtain w l where wl: "?f k = (w, l)" by fastforce
  have IH: "w \<longleftrightarrow> (\<forall>z < k. \<not> in_zone zones z p)" "w \<longrightarrow> l = NOT_A_ZONE"
    "\<not> w \<Longrightarrow> l < k \<and> in_zone zones l p \<and> (\<forall>z < k. in_zone zones z p \<longrightarrow>
       zone_positions (zones ! l) \<subseteq> zone_positions (zones ! z))"
    using Suc wl by auto
  have step: "?f (Suc k) = (if in_zone zones k p then localize_at zones k (w, l) else (w, l))"
    using wl by simp
  consider "\<not> in_zone zones k p" | "in_zone zones k p" "w" | "in_zone zones k p" "\<not> w" by blast
  then show ?case
  proof cases
    case 1
    then show ?thesis unfolding step using IH by (auto simp: less_Suc_eq)
  next
    case 2
    then show ?thesis unfolding step using IH(1) by (auto simp: localize_at_def less_Suc_eq)
  next
    case 3
    note l = IH(3) [OF 3(2)]
    then have naz: "l \<noteq> NOT_A_ZONE" using Suc.prems assms(3) by simp
    have "zone_positions (zones ! l) \<subseteq> zone_positions (zones ! k) \<or>
        zone_positions (zones ! k) \<subseteq> zone_positions (zones ! l)"
    proof -
      have "l < length zones" "k < length zones" using l Suc.prems by simp_all
      then show ?thesis using assms(1) l 3(1) unfolding nested_zones_def by blast
    qed
    moreover have "fst (zones ! l) \<le> snd (zones ! l)" "fst (zones ! k) \<le> snd (zones ! k)"
      using l 3(1) by (auto simp: in_zone_def)
    ultimately have nest: "\<not> (fst (zones ! l) < fst (zones ! k) \<or> snd (zones ! l) > snd (zones ! k)) \<Longrightarrow>
        zone_positions (zones ! l) \<subseteq> zone_positions (zones ! k)"
      "fst (zones ! l) < fst (zones ! k) \<or> snd (zones ! l) > snd (zones ! k) \<Longrightarrow>
        zone_positions (zones ! k) \<subseteq> zone_positions (zones ! l)"
      by (auto simp: zone_positions_def)
    show ?thesis
    proof (cases "fst (zones ! l) < fst (zones ! k) \<or> snd (zones ! l) > snd (zones ! k)")
      case True
      then have "?f (Suc k) = (False, k)" unfolding step using 3 naz by (simp add: localize_at_def)
      then show ?thesis using 3(1) nest(2) [OF True] l by (auto simp: less_Suc_eq)
    next
      case False
      then have "?f (Suc k) = (False, l)" unfolding step using 3 by (simp add: localize_at_def)
      then show ?thesis using 3(1) nest(1) [OF False] l by (auto simp: less_Suc_eq)
    qed
  qed
qed

section \<open>Properties\<close>

text \<open>C21: No derivation crosses a wall: in every coverage vector the search can reach, once a
  word behind a wall is covered, every word up to the wall is covered.\<close>

theorem walls_never_crossed:
  assumes "derivable limit rc n b" "n < 2 ^ 31" "m_active rc"
  shows "\<forall>w p. w < n \<and> GetWall rc w \<and> w < p \<and> p \<in> covered b \<longrightarrow> {..w} \<subseteq> covered b"
  using derivable_wall_respected [OF assms] derivable_wf [OF assms(1,2)] by (simp add: wall_respected_def)

theorem walls_never_crossed_witness:
  "{..1} \<subseteq> covered (SetValueRange (BitmapInit 4) 0 2 True)"
proof -
  let ?rc = "SetWall 1 True (InitializeWalls 4 ReorderingConstraintInit)"
  have "extend 6 ?rc (BitmapInit 4) (WordsRange 0 2) (SetValueRange (BitmapInit 4) 0 2 True)"
    by (rule extend.intros)
      (simp_all add: bitmap_defs Check_def SetWall_def InitializeWalls_def ReorderingConstraintInit_def)
  then have "derivable 6 ?rc 4 (SetValueRange (BitmapInit 4) 0 2 True)"
    using derivable.intros by blast
  moreover have "m_active ?rc" by (simp add: SetWall_def)
  ultimately have "\<forall>w p. w < 4 \<and> GetWall ?rc w \<and> w < p \<and>
      p \<in> covered (SetValueRange (BitmapInit 4) 0 2 True) \<longrightarrow>
      {..w} \<subseteq> covered (SetValueRange (BitmapInit 4) 0 2 True)"
    using walls_never_crossed [of 6 ?rc 4] by simp
  from this [rule_format, of 1 2]
  have "GetWall ?rc 1 \<and> 2 \<in> covered (SetValueRange (BitmapInit 4) 0 2 True) \<longrightarrow> ?thesis" by simp
  moreover have "GetWall ?rc 1"
    by (simp add: SetWall_def InitializeWalls_def ReorderingConstraintInit_def GetWall_def)
  ultimately show ?thesis by (simp add: covered_SetValueRange)
qed

text \<open>C25: A zone under way is not left: while some but not all of its words are covered, an accepted
  extension overlaps the zone, and an extension that runs over the right end of the zone from
  inside completes it.\<close>

theorem active_zone_is_not_left:
  assumes "wf_bitmap b" "s \<le> e" "e < m_size b" "{s..e} \<inter> covered b = {}"
    and "Check limit rc b s e" "m_active rc"
    and "z < length (m_zone rc)" "m_zone rc ! z = (zs, ze)" "zs \<le> ze" "ze < m_size b"
    and "zone_active b (zs, ze)"
  shows "{s..e} \<inter> {zs..ze} \<noteq> {} \<and> (e > ze \<and> s > zs \<longrightarrow> {zs..ze} \<subseteq> covered b \<union> {s..e})"
  using Check_active_zone [OF assms] by simp

theorem active_zone_is_not_left_witness:
  "{1..3} \<subseteq> covered (BitmapInitVector 5 [True, True, True]) \<union> {3..4}"
proof -
  let ?b = "BitmapInitVector 5 [True, True, True]"
  let ?rc = "SetZone 1 3 (InitializeWalls 5 ReorderingConstraintInit)"
  have cov: "covered ?b = {0, 1, 2}"
    by (auto simp: covered_BitmapInitVector eval_nat_numeral less_Suc_eq)
  have "1 \<in> {1..3} \<inter> covered ?b" "3 \<in> {1..3} - covered ?b" by (simp_all add: cov)
  then have active: "zone_active ?b (1, 3)"
    unfolding zone_active_def zone_positions_def fst_conv snd_conv by blast
  have chk: "Check 6 ?rc ?b 3 4"
    by (simp add: bitmap_defs Check_def SetZone_def InitializeWalls_def ReorderingConstraintInit_def)
  have zone: "0 < length (m_zone ?rc)" "m_zone ?rc ! 0 = (1, 3)" "m_active ?rc"
    by (simp_all add: SetZone_def InitializeWalls_def ReorderingConstraintInit_def)
  have "(4::nat) > 3 \<and> (3::nat) > 1 \<longrightarrow> {1..3} \<subseteq> covered ?b \<union> {3..4}"
    by (rule active_zone_is_not_left [OF _ _ _ _ chk zone(3) zone(1,2) _ _ active, THEN conjunct2])
      (simp_all add: cov)
  then show ?thesis by simp
qed

text \<open>Finalising the walls of nested zones moves every wall inside a zone to the innermost zone
  around it, and leaves the walls outside all zones as they are.\<close>

theorem FinalizeWalls_innermost:
  assumes "wf_constraint rc" "p < rc_size rc" "nested_zones (m_zone rc)"
    and "length (m_zone rc) \<le> NOT_A_ZONE"
    and "GetWall rc p" "GetLocalWall rc p NOT_A_ZONE"
  shows "let rc' = FinalizeWalls rc; zones = m_zone rc
    in (GetWall rc' p \<longleftrightarrow> (\<forall>z < length zones. \<not> in_zone zones z p)) \<and>
       (\<not> GetWall rc' p \<longrightarrow> (\<exists>z < length zones. GetLocalWall rc' p z \<and> in_zone zones z p \<and>
          (\<forall>y < length zones. in_zone zones y p \<longrightarrow>
             zone_positions (zones ! z) \<subseteq> zone_positions (zones ! y))))"
proof -
  have "wall_at rc p = (True, NOT_A_ZONE)"
    using assms(5,6) by (simp add: wall_at_def GetWall_def GetLocalWall_def)
  note res = FinalizeWalls_wall_at [OF assms(1,2), unfolded this]
  show ?thesis
    using localize_fold_innermost [OF assms(3) order_refl assms(4), of p]
    unfolding res [symmetric]
    by (auto simp: wall_at_def GetWall_def GetLocalWall_def Let_def)
qed

theorem FinalizeWalls_innermost_witness:
  "\<not> GetWall (FinalizeWalls (SetZone 1 3 (SetZone 0 4 (SetWall 2 True
       (InitializeWalls 5 ReorderingConstraintInit))))) 2"
proof -
  let ?rc = "SetZone 1 3 (SetZone 0 4 (SetWall 2 True (InitializeWalls 5 ReorderingConstraintInit)))"
  have zones: "m_zone ?rc = [(0, 4), (1, 3)]"
    by (simp add: SetZone_def SetWall_def InitializeWalls_def ReorderingConstraintInit_def)
  have "nested_zones (m_zone ?rc)"
    unfolding zones nested_zones_def by (auto simp: less_Suc_eq zone_positions_def)
  moreover have "wf_constraint ?rc" "2 < rc_size ?rc" "GetWall ?rc 2" "GetLocalWall ?rc 2 NOT_A_ZONE"
    by (simp_all add: SetZone_def SetWall_def InitializeWalls_def ReorderingConstraintInit_def
        wf_constraint_def GetWall_def GetLocalWall_def)
  moreover have "length (m_zone ?rc) \<le> NOT_A_ZONE" unfolding zones by (simp add: NOT_A_ZONE_def)
  ultimately have "GetWall (FinalizeWalls ?rc) 2 \<longleftrightarrow>
      (\<forall>z < length (m_zone ?rc). \<not> in_zone (m_zone ?rc) z 2)"
    using FinalizeWalls_innermost [of ?rc 2, unfolded Let_def, THEN conjunct1] by blast
  then show ?thesis unfolding zones by (auto simp: in_zone_def)
qed

end
