(* ===== verification/Reordering_Stack.thy ===== *)
theory Reordering_Stack
  imports Words_Range Std_Set
begin

text \<open>
  The shift-reduce stack of source blocks behind the hierarchical reordering model
  (\<open>ReorderingStack.cpp\<close>). The \<open>vector\<close> is a list with its back at the
  end. The distance a shift returns is a difference of \<open>size_t\<close> positions
  converted to \<open>int\<close>.
\<close>

section \<open>The class\<close>

definition StackCompare :: "words_range list \<Rightarrow> words_range list \<Rightarrow> int" where
  "StackCompare st other = (if other > st then 1 else if other < st then -1 else 0)"

function Reduce :: "words_range list \<Rightarrow> words_range \<Rightarrow> words_range list" where
  "Reduce st current =
     (if st = [] then [current]
      else let previous = last st
           in if sz_sub (m_startPos current) (m_endPos previous) = 1
              then Reduce (butlast st) (WordsRange (m_startPos previous) (m_endPos current))
              else if sz_sub (m_startPos previous) (m_endPos current) = 1
              then Reduce (butlast st) (WordsRange (m_startPos current) (m_endPos previous))
              else st @ [current])"
  by pat_completeness auto
termination
  by (relation "measure (\<lambda>(st, current). length st)") auto

declare Reduce.simps [simp del]

definition span_distance :: "words_range \<Rightarrow> words_range \<Rightarrow> int" where
  "span_distance prev_span input_span =
     (if m_startPos input_span > m_startPos prev_span
      then to_int32 (int (sz_sub (m_startPos input_span) (m_endPos prev_span)))
      else to_int32 (int (sz_sub (m_endPos input_span) (m_startPos prev_span))))"

definition ShiftReduce :: "words_range list \<Rightarrow> words_range \<Rightarrow> int \<times> words_range list" where
  "ShiftReduce st input_span =
     (if st = [] then (to_int32 (int (sz_add (m_startPos input_span) 1)), [input_span])
      else let prev_span = last st; dst = span_distance prev_span input_span
           in if dst = 1
              then (dst, Reduce (butlast st) (WordsRange (m_startPos prev_span) (m_endPos input_span)))
              else if dst = -1
              then (dst, Reduce (butlast st) (WordsRange (m_startPos input_span) (m_endPos prev_span)))
              else (dst, st @ [input_span]))"

interpretation stack_order: three_way "\<lambda>st. True" StackCompare
  by unfold_locales (auto simp: StackCompare_def split: if_splits)

section \<open>Blocks\<close>

definition span_ok :: "words_range \<Rightarrow> bool" where
  "span_ok r \<longleftrightarrow> m_startPos r \<le> m_endPos r \<and> m_endPos r < 2 ^ 31 - 1"

definition adjacent :: "words_range \<Rightarrow> words_range \<Rightarrow> bool" where
  "adjacent r x \<longleftrightarrow> m_endPos r + 1 = m_startPos x \<or> m_endPos x + 1 = m_startPos r"

definition disjoint_spans :: "words_range \<Rightarrow> words_range \<Rightarrow> bool" where
  "disjoint_spans r x \<longleftrightarrow> m_endPos r < m_startPos x \<or> m_endPos x < m_startPos r"

definition stack_ok :: "words_range list \<Rightarrow> bool" where
  "stack_ok st \<longleftrightarrow> (\<forall>r \<in> set st. span_ok r) \<and> sorted_wrt disjoint_spans st \<and>
     successively (\<lambda>r x. \<not> adjacent r x) st"

definition stack_positions :: "words_range list \<Rightarrow> nat set" where
  "stack_positions st = (\<Union>r \<in> set st. positions r)"

lemma stack_ok_Nil [simp]: "stack_ok []"
  by (simp add: stack_ok_def)

lemma stack_ok_snoc:
  "stack_ok (st @ [r]) \<longleftrightarrow> stack_ok st \<and> span_ok r \<and> (\<forall>x \<in> set st. disjoint_spans x r) \<and>
     (st \<noteq> [] \<longrightarrow> \<not> adjacent (last st) r)"
  by (auto simp: stack_ok_def sorted_wrt_append successively_append_iff)

lemma span_sub_1:
  assumes "span_ok r" "span_ok x" "disjoint_spans r x"
  shows "sz_sub (m_startPos r) (m_endPos x) = 1 \<longleftrightarrow> m_endPos x + 1 = m_startPos r"
proof -
  have "m_startPos r < 2 ^ 31" "m_endPos x < 2 ^ 31" using assms by (auto simp: span_ok_def)
  moreover have "sz_sub (m_startPos r) (m_endPos x) = size_bound + m_startPos r - m_endPos x"
    if "m_startPos r < m_endPos x"
    using sz_sub_wrap [OF that] calculation(2) by (simp add: size_bound_def)
  moreover have "sz_sub (m_startPos r) (m_endPos x) = m_startPos r - m_endPos x"
    if "m_endPos x \<le> m_startPos r"
    using sz_sub_small [OF that] calculation(1) by (simp add: size_bound_def)
  ultimately show ?thesis by (cases "m_startPos r < m_endPos x") (auto simp: size_bound_def)
qed

lemma merge_spans:
  assumes "span_ok p" "span_ok r" "m_endPos p + 1 = m_startPos r"
  shows "span_ok (WordsRange (m_startPos p) (m_endPos r))"
    "positions (WordsRange (m_startPos p) (m_endPos r)) = positions p \<union> positions r"
    "span_ok x \<Longrightarrow> disjoint_spans x p \<Longrightarrow> disjoint_spans x r \<Longrightarrow>
      disjoint_spans x (WordsRange (m_startPos p) (m_endPos r))"
  using assms by (auto simp: span_ok_def positions_def disjoint_spans_def)

lemma Reduce_Nil [simp]: "Reduce [] current = [current]"
  by (subst Reduce.simps) simp

lemma Reduce_snoc:
  assumes "span_ok p" "span_ok current" "disjoint_spans p current"
  shows "Reduce (st @ [p]) current =
    (if m_endPos p + 1 = m_startPos current then Reduce st (WordsRange (m_startPos p) (m_endPos current))
     else if m_endPos current + 1 = m_startPos p
     then Reduce st (WordsRange (m_startPos current) (m_endPos p)) else st @ [p, current])"
proof -
  have "disjoint_spans current p" using assms(3) by (auto simp: disjoint_spans_def)
  then have "sz_sub (m_startPos current) (m_endPos p) = 1 \<longleftrightarrow> m_endPos p + 1 = m_startPos current"
      "sz_sub (m_startPos p) (m_endPos current) = 1 \<longleftrightarrow> m_endPos current + 1 = m_startPos p"
    using span_sub_1 assms by auto
  then show ?thesis by (subst Reduce.simps) simp
qed

lemma Reduce_props:
  assumes "stack_ok st" "span_ok current" "\<forall>x \<in> set st. disjoint_spans x current"
  shows "stack_ok (Reduce st current) \<and>
    stack_positions (Reduce st current) = stack_positions st \<union> positions current \<and>
    Reduce st current \<noteq> [] \<and> positions current \<subseteq> positions (last (Reduce st current))"
  using assms
proof (induction st arbitrary: current rule: rev_induct)
  case Nil
  then show ?case by (simp add: stack_ok_def stack_positions_def)
next
  case (snoc p st)
  have st: "stack_ok st" "span_ok p" "\<forall>x \<in> set st. disjoint_spans x p"
    using snoc.prems(1) by (simp_all add: stack_ok_snoc)
  have dis: "disjoint_spans p current" "\<forall>x \<in> set st. disjoint_spans x current"
    using snoc.prems(3) by simp_all
  note unf = Reduce_snoc [OF st(2) snoc.prems(2) dis(1), of st]
  have merged: ?case if "Reduce (st @ [p]) current = Reduce st w" "span_ok w"
    "\<forall>x \<in> set st. disjoint_spans x w" "positions w = positions p \<union> positions current" for w
    using snoc.IH [OF st(1) that(2,3)] unfolding that(1,4) by (auto simp: stack_positions_def)
  consider (mono) "m_endPos p + 1 = m_startPos current"
    | (swap) "m_endPos p + 1 \<noteq> m_startPos current" "m_endPos current + 1 = m_startPos p"
    | (none) "m_endPos p + 1 \<noteq> m_startPos current" "m_endPos current + 1 \<noteq> m_startPos p" by blast
  then show ?case
  proof cases
    case mono
    note w = merge_spans [OF st(2) snoc.prems(2) mono]
    have "\<forall>x \<in> set st. disjoint_spans x (WordsRange (m_startPos p) (m_endPos current))"
      using st dis(2) w(3) by (auto simp: stack_ok_def)
    then show ?thesis using merged [OF unf [unfolded if_P [OF mono]] w(1) _ w(2)] by blast
  next
    case swap
    note w = merge_spans [OF snoc.prems(2) st(2) swap(2)]
    have "positions (WordsRange (m_startPos current) (m_endPos p)) = positions p \<union> positions current"
      unfolding w(2) by (rule Un_commute)
    moreover have "\<forall>x \<in> set st. disjoint_spans x (WordsRange (m_startPos current) (m_endPos p))"
      using st dis(2) w(3) by (auto simp: stack_ok_def)
    ultimately show ?thesis
      using merged [OF unf [unfolded if_not_P [OF swap(1)] if_P [OF swap(2)]] w(1)] by blast
  next
    case none
    then have "Reduce (st @ [p]) current = (st @ [p]) @ [current]" using unf by simp
    moreover have "stack_ok ((st @ [p]) @ [current])"
      unfolding stack_ok_snoc [of "st @ [p]"] using none snoc.prems by (simp add: adjacent_def)
    ultimately show ?thesis by (auto simp: stack_positions_def)
  qed
qed

lemma sz_sub_int32:
  assumes "a < 2 ^ 31" "b < 2 ^ 31"
  shows "to_int32 (int (sz_sub a b)) = int a - int b"
proof -
  have "int (sz_sub a b) = (int a - int b) mod int size_bound"
    unfolding sz_sub_def by (simp add: size_bound_def)
  moreover have dvd: "(2::int) ^ 32 dvd int size_bound" by (simp add: size_bound_def)
  ultimately have "(int (sz_sub a b) + 2 ^ 31) mod 2 ^ 32 = (int a - int b + 2 ^ 31) mod 2 ^ 32"
    by (subst mod_add_left_eq [symmetric], simp only: mod_mod_cancel [OF dvd] mod_add_left_eq)
  then have "to_int32 (int (sz_sub a b)) = to_int32 (int a - int b)"
    unfolding to_int32_def by (rule arg_cong)
  also have "\<dots> = int a - int b" using assms by (intro to_int32_small) auto
  finally show ?thesis .
qed

text \<open>The distance is the signed number of positions from the block to the new span.\<close>

lemma span_distance_int:
  assumes "span_ok p" "span_ok r" "disjoint_spans p r"
  shows "span_distance p r = (if m_startPos r > m_startPos p then int (m_startPos r) - int (m_endPos p)
     else int (m_endPos r) - int (m_startPos p))"
  using assms by (auto simp: span_distance_def span_ok_def sz_sub_int32)

lemma span_distance_1:
  assumes "span_ok p" "span_ok r" "disjoint_spans p r"
  shows "span_distance p r = 1 \<longleftrightarrow> m_endPos p + 1 = m_startPos r"
    "span_distance p r = -1 \<longleftrightarrow> m_endPos r + 1 = m_startPos p"
    "span_distance p r > 0 \<longleftrightarrow> m_endPos p < m_startPos r"
    "span_distance p r \<noteq> 0"
  using assms by (auto simp: span_distance_int span_ok_def disjoint_spans_def)

lemma ShiftReduce_props:
  assumes "stack_ok st" "span_ok r" "\<forall>x \<in> set st. disjoint_spans x r"
  shows "stack_ok (snd (ShiftReduce st r)) \<and>
    stack_positions (snd (ShiftReduce st r)) = stack_positions st \<union> positions r \<and>
    snd (ShiftReduce st r) \<noteq> [] \<and> positions r \<subseteq> positions (last (snd (ShiftReduce st r)))"
proof (cases st rule: rev_cases)
  case Nil
  then show ?thesis using assms by (simp add: ShiftReduce_def stack_ok_def stack_positions_def)
next
  case (snoc st' p)
  have st': "stack_ok st'" "span_ok p" "\<forall>x \<in> set st'. disjoint_spans x p"
    using assms(1) snoc by (simp_all add: stack_ok_snoc)
  have dis: "disjoint_spans p r" "\<forall>x \<in> set st'. disjoint_spans x r" using assms(3) snoc by simp_all
  note dst = span_distance_1 [OF st'(2) assms(2) dis(1)]
  consider (mono) "m_endPos p + 1 = m_startPos r" | (swap) "m_endPos p + 1 \<noteq> m_startPos r" "m_endPos r + 1 = m_startPos p"
    | (none) "m_endPos p + 1 \<noteq> m_startPos r" "m_endPos r + 1 \<noteq> m_startPos p" by blast
  then show ?thesis
  proof cases
    case mono
    let ?w = "WordsRange (m_startPos p) (m_endPos r)"
    have "span_ok ?w" "\<forall>x \<in> set st'. disjoint_spans x ?w"
      using merge_spans [OF st'(2) assms(2) mono] st'(1,3) dis(2) by (auto simp: stack_ok_def)
    note red = Reduce_props [OF st'(1) this]
    have "snd (ShiftReduce st r) = Reduce st' ?w" using mono dst snoc by (simp add: ShiftReduce_def)
    moreover have "positions ?w = positions p \<union> positions r"
      using mono st'(2) assms(2) by (auto simp: positions_def span_ok_def)
    ultimately show ?thesis using red snoc by (auto simp: stack_positions_def)
  next
    case swap
    let ?w = "WordsRange (m_startPos r) (m_endPos p)"
    have "span_ok ?w" "\<forall>x \<in> set st'. disjoint_spans x ?w"
      using merge_spans [OF assms(2) st'(2) swap(2)] st'(1,3) dis(2) by (auto simp: stack_ok_def)
    note red = Reduce_props [OF st'(1) this]
    have "span_distance p r \<noteq> 1" "span_distance p r = -1" using swap dst by simp_all
    then have "snd (ShiftReduce st r) = Reduce st' ?w" using snoc by (simp add: ShiftReduce_def)
    moreover have "positions ?w = positions p \<union> positions r"
      using swap st'(2) assms(2) by (auto simp: positions_def span_ok_def)
    ultimately show ?thesis using red snoc by (auto simp: stack_positions_def)
  next
    case none
    then have "snd (ShiftReduce st r) = st @ [r]" using dst snoc by (simp add: ShiftReduce_def)
    moreover have "stack_ok (st @ [r])"
      unfolding stack_ok_snoc using none assms snoc by (simp add: adjacent_def)
    ultimately show ?thesis by (auto simp: stack_positions_def)
  qed
qed

definition shift_all :: "words_range list \<Rightarrow> words_range list" where
  "shift_all spans = fold (\<lambda>r st. snd (ShiftReduce st r)) spans []"

lemma disjoint_spans_positions:
  assumes "span_ok r" "span_ok x"
  shows "disjoint_spans r x \<longleftrightarrow> positions r \<inter> positions x = {}"
proof -
  have "positions r \<inter> positions x = {max (m_startPos r) (m_startPos x) .. min (m_endPos r) (m_endPos x)}"
    by (auto simp: positions_def)
  then show ?thesis using assms by (auto simp: disjoint_spans_def span_ok_def)
qed

lemma fresh_blocks:
  assumes "stack_ok st" "stack_positions st = stack_positions spans" "\<forall>r \<in> set spans. span_ok r" "span_ok r"
    and "\<forall>x \<in> set spans. disjoint_spans x r"
  shows "\<forall>x \<in> set st. disjoint_spans x r"
proof
  fix x assume x: "x \<in> set st"
  have "\<forall>y \<in> set spans. positions y \<inter> positions r = {}" using assms(3-5) disjoint_spans_positions by blast
  then have "stack_positions st \<inter> positions r = {}" unfolding assms(2) by (auto simp: stack_positions_def)
  then have "positions x \<inter> positions r = {}" using x by (auto simp: stack_positions_def)
  then show "disjoint_spans x r" using x assms(1,4) disjoint_spans_positions by (auto simp: stack_ok_def)
qed

lemma shift_all_ok:
  assumes "\<forall>r \<in> set spans. span_ok r" "sorted_wrt disjoint_spans spans"
  shows "stack_ok (shift_all spans) \<and> stack_positions (shift_all spans) = stack_positions spans \<and>
    (spans \<noteq> [] \<longrightarrow> shift_all spans \<noteq> [] \<and> positions (last spans) \<subseteq> positions (last (shift_all spans)))"
  using assms
proof (induction spans rule: rev_induct)
  case Nil
  then show ?case by (simp add: shift_all_def stack_positions_def)
next
  case (snoc r spans)
  have IH: "stack_ok (shift_all spans)" "stack_positions (shift_all spans) = stack_positions spans"
    using snoc by (simp_all add: sorted_wrt_append)
  have "\<forall>x \<in> set (shift_all spans). disjoint_spans x r"
    using fresh_blocks [OF IH] snoc.prems by (simp add: sorted_wrt_append)
  moreover have "span_ok r" using snoc.prems by simp
  ultimately have "stack_ok (snd (ShiftReduce (shift_all spans) r)) \<and>
    stack_positions (snd (ShiftReduce (shift_all spans) r)) = stack_positions (shift_all spans) \<union> positions r \<and>
    snd (ShiftReduce (shift_all spans) r) \<noteq> [] \<and>
    positions r \<subseteq> positions (last (snd (ShiftReduce (shift_all spans) r)))"
    using ShiftReduce_props IH(1) by blast
  moreover have "shift_all (spans @ [r]) = snd (ShiftReduce (shift_all spans) r)"
    by (simp add: shift_all_def)
  ultimately show ?case unfolding IH(2) by (auto simp: stack_positions_def)
qed

lemma shift_all_fresh:
  assumes "\<forall>r \<in> set spans. span_ok r" "sorted_wrt disjoint_spans spans" "span_ok r" "\<forall>x \<in> set spans. disjoint_spans x r"
  shows "\<forall>x \<in> set (shift_all spans). disjoint_spans x r"
  using fresh_blocks [OF _ _ assms(1,3,4)] shift_all_ok [OF assms(1,2)] by blast

text \<open>Every block comes from spans shifted one after the other, and the blocks from the spans in their order.\<close>

definition block_of_spans :: "words_range list \<Rightarrow> words_range \<Rightarrow> bool" where
  "block_of_spans seg r \<longleftrightarrow> seg \<noteq> [] \<and> positions r = stack_positions seg"

definition built_from :: "words_range list \<Rightarrow> words_range list \<Rightarrow> bool" where
  "built_from spans st \<longleftrightarrow> (\<exists>segs. concat segs = spans \<and> list_all2 block_of_spans segs st)"

lemma built_from_snoc:
  "built_from spans (st @ [r]) \<longleftrightarrow> (\<exists>xs seg. spans = xs @ seg \<and> built_from xs st \<and> block_of_spans seg r)"
proof
  assume "built_from spans (st @ [r])"
  then obtain segs where segs: "concat segs = spans" "list_all2 block_of_spans segs (st @ [r])" by (auto simp: built_from_def)
  then obtain us seg where "segs = us @ [seg]" "list_all2 block_of_spans us st" "block_of_spans seg r"
    by (auto simp: list_all2_append2 list_all2_Cons2)
  then show "\<exists>xs seg. spans = xs @ seg \<and> built_from xs st \<and> block_of_spans seg r"
    using segs(1) by (intro exI [of _ "concat us"] exI [of _ seg]) (auto simp: built_from_def)
next
  assume "\<exists>xs seg. spans = xs @ seg \<and> built_from xs st \<and> block_of_spans seg r"
  then obtain us seg where "spans = concat us @ seg" "list_all2 block_of_spans us st" "block_of_spans seg r"
    by (auto simp: built_from_def)
  then show "built_from spans (st @ [r])"
    unfolding built_from_def by (intro exI [of _ "us @ [seg]"]) (auto intro: list_all2_appendI)
qed

lemma block_of_spans_merge:
  "block_of_spans seg p \<Longrightarrow> block_of_spans seg' r \<Longrightarrow> positions w = positions p \<union> positions r \<Longrightarrow> block_of_spans (seg @ seg') w"
  by (auto simp: block_of_spans_def stack_positions_def)

lemma Reduce_built:
  assumes "stack_ok st" "span_ok current" "\<forall>x \<in> set st. disjoint_spans x current"
    and "built_from xs st" "block_of_spans seg current"
  shows "built_from (xs @ seg) (Reduce st current)"
  using assms
proof (induction st arbitrary: current xs seg rule: rev_induct)
  case Nil
  then show ?case using built_from_snoc [of "xs @ seg" "[]" current] by auto
next
  case (snoc p st)
  have st: "stack_ok st" "span_ok p" "\<forall>x \<in> set st. disjoint_spans x p"
    using snoc.prems(1) by (simp_all add: stack_ok_snoc)
  have dis: "disjoint_spans p current" "\<forall>x \<in> set st. disjoint_spans x current"
    using snoc.prems(3) by simp_all
  obtain ys seg' where ys: "xs = ys @ seg'" "built_from ys st" "block_of_spans seg' p"
    using snoc.prems(4) by (auto simp: built_from_snoc)
  have merged: "built_from (xs @ seg) (Reduce st w)"
    if "span_ok w" "\<forall>x \<in> set st. disjoint_spans x w" "positions w = positions p \<union> positions current" for w
    using snoc.IH [OF st(1) that(1,2) ys(2) block_of_spans_merge [OF ys(3) snoc.prems(5) that(3)]] ys(1) by simp
  note unf = Reduce_snoc [OF st(2) snoc.prems(2) dis(1), of st]
  consider (mono) "m_endPos p + 1 = m_startPos current"
    | (swap) "m_endPos p + 1 \<noteq> m_startPos current" "m_endPos current + 1 = m_startPos p"
    | (none) "m_endPos p + 1 \<noteq> m_startPos current" "m_endPos current + 1 \<noteq> m_startPos p" by blast
  then show ?case
  proof cases
    case mono
    note w = merge_spans [OF st(2) snoc.prems(2) mono]
    have "\<forall>x \<in> set st. disjoint_spans x (WordsRange (m_startPos p) (m_endPos current))"
      using st dis(2) w(3) by (auto simp: stack_ok_def)
    then show ?thesis unfolding unf if_P [OF mono] by (intro merged [OF w(1) _ w(2)])
  next
    case swap
    note w = merge_spans [OF snoc.prems(2) st(2) swap(2)]
    have "\<forall>x \<in> set st. disjoint_spans x (WordsRange (m_startPos current) (m_endPos p))"
      using st dis(2) w(3) by (auto simp: stack_ok_def)
    then show ?thesis using merged [OF w(1)] w(2) unfolding unf if_not_P [OF swap(1)] if_P [OF swap(2)] by blast
  next
    case none
    then have "Reduce (st @ [p]) current = (st @ [p]) @ [current]" using unf by simp
    then show ?thesis using snoc.prems(4,5) built_from_snoc [of "xs @ seg" "st @ [p]" current] by auto
  qed
qed

lemma ShiftReduce_built:
  assumes "stack_ok st" "span_ok r" "\<forall>x \<in> set st. disjoint_spans x r" "built_from xs st"
  shows "built_from (xs @ [r]) (snd (ShiftReduce st r))"
proof (cases st rule: rev_cases)
  case Nil
  then show ?thesis using assms(4) by (auto simp: ShiftReduce_def built_from_def block_of_spans_def stack_positions_def
      intro!: exI [of _ "[[r]]"])
next
  case (snoc st' p)
  have st': "stack_ok st'" "span_ok p" "\<forall>x \<in> set st'. disjoint_spans x p"
    using assms(1) snoc by (simp_all add: stack_ok_snoc)
  have dis: "disjoint_spans p r" "\<forall>x \<in> set st'. disjoint_spans x r" using assms(3) snoc by simp_all
  have one: "block_of_spans [r] r" by (simp add: block_of_spans_def stack_positions_def)
  have red: "Reduce st r = snd (ShiftReduce st r)"
    using Reduce_snoc [OF st'(2) assms(2) dis(1), of st'] span_distance_1 [OF st'(2) assms(2) dis(1)] snoc
    by (auto simp: ShiftReduce_def Let_def)
  show ?thesis using Reduce_built [OF assms(1-4) one] by (simp only: red)
qed

lemma shift_all_built:
  assumes "\<forall>r \<in> set spans. span_ok r" "sorted_wrt disjoint_spans spans"
  shows "built_from spans (shift_all spans)"
  using assms
proof (induction spans rule: rev_induct)
  case Nil
  then show ?case by (simp add: shift_all_def built_from_def)
next
  case (snoc r spans)
  have pre: "\<forall>r \<in> set spans. span_ok r" "sorted_wrt disjoint_spans spans" "span_ok r"
      "\<forall>x \<in> set spans. disjoint_spans x r"
    using snoc.prems by (simp_all add: sorted_wrt_append)
  have "shift_all (spans @ [r]) = snd (ShiftReduce (shift_all spans) r)" by (simp add: shift_all_def)
  then show ?case
    using ShiftReduce_built [OF _ pre(3) shift_all_fresh [OF pre] snoc.IH [OF pre(1,2)]] shift_all_ok [OF pre(1,2)] by simp
qed

section \<open>Properties\<close>

text \<open>C30: Shifting disjoint source spans one after the other leaves a stack of disjoint blocks: the spans fall into
  segments of consecutive spans, in order, and each block covers exactly the positions of its segment; no two
  neighbours on the stack could be merged, and the top block contains the last span. (Blocks further apart on the
  stack may well be adjacent in the sentence, as for 0..0, 5..5, 1..1: only the top block is ever merged.)\<close>

theorem shift_reduce_blocks:
  assumes "\<forall>r \<in> set spans. span_ok r" "sorted_wrt disjoint_spans spans" "spans \<noteq> []"
  shows "(\<exists>segs. concat segs = spans \<and>
      list_all2 (\<lambda>seg r. seg \<noteq> [] \<and> positions r = stack_positions seg) segs (shift_all spans)) \<and>
    stack_positions (shift_all spans) = stack_positions spans \<and>
    sorted_wrt disjoint_spans (shift_all spans) \<and>
    successively (\<lambda>r x. \<not> adjacent r x) (shift_all spans) \<and>
    positions (last spans) \<subseteq> positions (last (shift_all spans))"
  using shift_all_ok [OF assms(1,2)] assms(3) shift_all_built [OF assms(1,2)]
  by (simp add: stack_ok_def built_from_def block_of_spans_def [abs_def])

theorem shift_reduce_blocks_witness:
  "stack_positions (shift_all [WordsRange 3 4, WordsRange 0 0, WordsRange 1 2]) = {0..4}"
proof -
  have "stack_positions [WordsRange 3 4, WordsRange 0 0, WordsRange 1 2] = {0..4}"
    by (auto simp: stack_positions_def)
  then show ?thesis
    using shift_reduce_blocks [of "[WordsRange 3 4, WordsRange 0 0, WordsRange 1 2]"]
    by (simp add: span_ok_def disjoint_spans_def)
qed

end
