(* ===== verification/Util_Strings.thy ===== *)
theory Util_Strings
  imports Prelude
begin

text \<open>
  The string helpers of the decoder (\<open>Util.h\<close>, \<open>Util.cpp\<close>) over lists of
  characters: tokenising, joining, trimming, replacing, \<open>yes/no\<close> switches, and the
  stripping of \<open>seg\<close> markup. The searches of \<open>std::string\<close> they call return
  \<open>npos\<close>, which is \<open>NOT_FOUND\<close>.
\<close>

section \<open>The searches of std::string\<close>

named_theorems str_defs \<open>string searches and the helpers over them\<close>

definition npos_or :: "nat option \<Rightarrow> nat" where
  "npos_or r = (case r of Some i \<Rightarrow> i | None \<Rightarrow> NOT_FOUND)"

definition find_first_of :: "string \<Rightarrow> string \<Rightarrow> nat \<Rightarrow> nat" where
  "find_first_of str chars pos =
     (if pos \<ge> NOT_FOUND then NOT_FOUND
      else npos_or (find (\<lambda>i. str ! i \<in> set chars) [pos..<length str]))"

definition find_first_not_of :: "string \<Rightarrow> string \<Rightarrow> nat \<Rightarrow> nat" where
  "find_first_not_of str chars pos =
     (if pos \<ge> NOT_FOUND then NOT_FOUND
      else npos_or (find (\<lambda>i. str ! i \<notin> set chars) [pos..<length str]))"

definition find_last_not_of :: "string \<Rightarrow> string \<Rightarrow> nat" where
  "find_last_not_of str chars = npos_or (find (\<lambda>i. str ! i \<notin> set chars) (rev [0..<length str]))"

definition str_find :: "string \<Rightarrow> string \<Rightarrow> nat \<Rightarrow> nat" where
  "str_find str pat pos =
     (if pos \<ge> NOT_FOUND then NOT_FOUND
      else npos_or (find (\<lambda>i. take (length pat) (drop i str) = pat)
             [pos..<Suc (length str) - length pat]))"

definition substr :: "string \<Rightarrow> nat \<Rightarrow> nat \<Rightarrow> string" where
  "substr str pos n = take n (drop pos str)"

text \<open>\<open>operator[]\<close> at \<open>size()\<close> is the terminating zero.\<close>

definition str_at :: "string \<Rightarrow> nat \<Rightarrow> char" where
  "str_at str i = (if i < length str then str ! i else CHR 0x00)"

lemmas string_search_defs [str_defs] =
  find_first_of_def find_first_not_of_def find_last_not_of_def str_find_def substr_def str_at_def
  npos_or_def NOT_FOUND_def

lemma find_first_of_props:
  assumes "find_first_of str chars pos \<noteq> NOT_FOUND"
  shows "pos \<le> find_first_of str chars pos" "find_first_of str chars pos < length str"
    "str ! find_first_of str chars pos \<in> set chars" "pos < NOT_FOUND"
    "pos \<le> j \<Longrightarrow> j < find_first_of str chars pos \<Longrightarrow> str ! j \<notin> set chars"
proof -
  obtain i where "find (\<lambda>i. str ! i \<in> set chars) [pos..<length str] = Some i" "find_first_of str chars pos = i"
    "pos < NOT_FOUND"
    using assms by (auto simp: find_first_of_def npos_or_def split: if_splits option.splits)
  then show "pos \<le> find_first_of str chars pos" "find_first_of str chars pos < length str"
    "str ! find_first_of str chars pos \<in> set chars" "pos < NOT_FOUND"
    "pos \<le> j \<Longrightarrow> j < find_first_of str chars pos \<Longrightarrow> str ! j \<notin> set chars"
    by (auto simp: find_upt_Some)
qed

lemma find_first_not_of_props:
  assumes "find_first_not_of str chars pos \<noteq> NOT_FOUND"
  shows "pos \<le> find_first_not_of str chars pos" "find_first_not_of str chars pos < length str"
    "str ! find_first_not_of str chars pos \<notin> set chars" "pos < NOT_FOUND"
    "pos \<le> j \<Longrightarrow> j < find_first_not_of str chars pos \<Longrightarrow> str ! j \<in> set chars"
proof -
  obtain i where "find (\<lambda>i. str ! i \<notin> set chars) [pos..<length str] = Some i"
    "find_first_not_of str chars pos = i" "pos < NOT_FOUND"
    using assms by (auto simp: find_first_not_of_def npos_or_def split: if_splits option.splits)
  then show "pos \<le> find_first_not_of str chars pos" "find_first_not_of str chars pos < length str"
    "str ! find_first_not_of str chars pos \<notin> set chars" "pos < NOT_FOUND"
    "pos \<le> j \<Longrightarrow> j < find_first_not_of str chars pos \<Longrightarrow> str ! j \<in> set chars"
    by (auto simp: find_upt_Some)
qed

section \<open>Tokenising and joining\<close>

function tokenize_loop :: "string \<Rightarrow> string \<Rightarrow> nat \<Rightarrow> nat \<Rightarrow> string list \<Rightarrow> string list" where
  "tokenize_loop str delimiters lastPos pos tokens =
     (if NOT_FOUND \<noteq> pos \<or> NOT_FOUND \<noteq> lastPos
      then let tokens = tokens @ [substr str lastPos (sz_sub pos lastPos)];
               lastPos = find_first_not_of str delimiters pos;
               pos = find_first_of str delimiters lastPos
           in tokenize_loop str delimiters lastPos pos tokens
      else tokens)"
  by pat_completeness auto
termination
proof (relation "measure (\<lambda>(str, delimiters, lastPos, pos, tokens).
    if pos = NOT_FOUND then (if lastPos = NOT_FOUND then 0 else 1) else 2 + (length str - pos))",
    goal_cases)
  case 1
  show ?case by simp
next
  case (2 str delimiters lastPos pos tokens tokens' l p)
  let ?l = "find_first_not_of str delimiters pos" and ?p = "\<lambda>l. find_first_of str delimiters l"
  have "pos < ?p ?l \<and> ?p ?l < length str" if "pos \<noteq> NOT_FOUND" "?p ?l \<noteq> NOT_FOUND"
  proof -
    note p = find_first_of_props [OF that(2)]
    then have "?l \<noteq> NOT_FOUND" by auto
    note l = find_first_not_of_props [OF this]
    have "?l \<noteq> ?p ?l" using l(3) p(3) by metis
    then show ?thesis using p(1,2) l(1) by linarith
  qed
  moreover have "?l = NOT_FOUND" "?p NOT_FOUND = NOT_FOUND" if "pos = NOT_FOUND"
    using that by (simp_all add: find_first_not_of_def find_first_of_def)
  moreover have "l = ?l" "p = ?p ?l" using 2 by simp_all
  ultimately show ?case
    using 2(1) by (cases "pos = NOT_FOUND"; cases "p = NOT_FOUND") (auto intro: diff_less_mono2)
qed

declare tokenize_loop.simps [simp del]

definition Tokenize :: "string \<Rightarrow> string \<Rightarrow> string list" where
  "Tokenize str delimiters =
     (let lastPos = find_first_not_of str delimiters 0;
          pos = find_first_of str delimiters lastPos
      in tokenize_loop str delimiters lastPos pos [])"

text \<open>An empty separator makes the loop run forever, which is \<open>None\<close>.\<close>

partial_function (option) multi_sep_loop ::
    "(string \<Rightarrow> string) \<Rightarrow> string \<Rightarrow> string \<Rightarrow> nat \<Rightarrow> nat \<Rightarrow> string list \<Rightarrow> string list option" where
  "multi_sep_loop f str separator pos nextPos tokens =
     (if nextPos \<noteq> NOT_FOUND
      then let tokens = tokens @ [f (substr str pos (nextPos - pos))];
               pos = nextPos + length separator
           in multi_sep_loop f str separator pos (str_find str separator pos) tokens
      else Some (tokens @ [f (substr str pos (sz_sub nextPos pos))]))"

definition TokenizeMultiCharSeparator :: "string \<Rightarrow> string \<Rightarrow> string list option" where
  "TokenizeMultiCharSeparator str separator =
     multi_sep_loop id str separator 0 (str_find str separator 0) []"

definition Trim :: "string \<Rightarrow> string \<Rightarrow> string" where
  "Trim str dropChars =
     (let res = take (sz_add (find_last_not_of str dropChars) 1) str
      in drop (find_first_not_of res dropChars 0) res)"

definition blanks :: string where
  "blanks = [CHR 0x20, CHR 0x09, CHR 0x0A, CHR 0x0D]"

definition TokenizeMultiCharSeparatorTrim :: "string \<Rightarrow> string \<Rightarrow> string list option" where
  "TokenizeMultiCharSeparatorTrim str separator =
     multi_sep_loop (\<lambda>s. Trim s blanks) str separator 0 (str_find str separator 0) []"

definition Join :: "string \<Rightarrow> string list \<Rightarrow> string" where
  "Join delimiter items =
     (if length items = 0 then ''''
      else fold (\<lambda>i outstr. outstr @ delimiter @ items ! i) [1..<length items] (items ! 0))"

section \<open>Case, switches and replacement\<close>

definition to_lower :: "char \<Rightarrow> char" where
  "to_lower c = (let n = of_char c :: nat in if 65 \<le> n \<and> n \<le> 90 then char_of (n + 32) else c)"

definition ToLower :: "string \<Rightarrow> string" where
  "ToLower str = map to_lower str"

definition ScanBool :: "string \<Rightarrow> bool" where
  "ScanBool input =
     (let lc = ToLower input
      in if lc = ''yes'' \<or> lc = ''y'' \<or> lc = ''true'' \<or> lc = ''1'' then True
         else if lc = ''no'' \<or> lc = ''n'' \<or> lc = ''false'' \<or> lc = ''0'' then False
         else False)"

partial_function (option) replace_loop :: "string \<Rightarrow> string \<Rightarrow> nat \<Rightarrow> string \<Rightarrow> string option" where
  "replace_loop todelStr toaddStr pos newStr =
     (let pos = str_find newStr todelStr pos
      in if pos = NOT_FOUND then Some newStr
         else replace_loop todelStr toaddStr (pos + 1)
                (take pos newStr @ toaddStr @ drop (pos + length todelStr) newStr))"

definition Replace :: "string \<Rightarrow> string \<Rightarrow> string \<Rightarrow> string option" where
  "Replace str todelStr toaddStr = replace_loop todelStr toaddStr 0 str"

lemmas util_defs [str_defs] = Tokenize_def Trim_def Join_def ToLower_def to_lower_def ScanBool_def
  TokenizeMultiCharSeparator_def Replace_def blanks_def

section \<open>Stripping seg markup\<close>

text \<open>The two passes over the attributes restart from the front after a rewrite.\<close>

function strip_spaces :: "nat \<Rightarrow> string \<Rightarrow> string" where
  "strip_spaces i seg =
     (if i < length seg
      then if seg ! i = CHR ''='' \<and> str_at seg (i - 1) = CHR '' ''
           then strip_spaces 1 (substr seg 0 (i - 1) @ drop i seg)
           else if seg ! i = CHR ''='' \<and> str_at seg (i + 1) = CHR '' ''
           then strip_spaces 1 (substr seg 0 (i + 1) @ (if i + 2 < length seg then drop (i + 2) seg else ''''))
           else strip_spaces (i + 1) seg
      else seg)"
  by pat_completeness auto
termination
  by (relation "measures [\<lambda>(i, seg). length seg, \<lambda>(i, seg). length seg - i]")
    (auto simp: substr_def str_at_def split: if_splits)

declare strip_spaces.simps [simp del]

definition sgml_value :: "string \<Rightarrow> string \<times> string \<times> bool" where
  "sgml_value val =
     (if str_at val 0 = CHR 0x22
      then let val = drop 1 val; close = str_find val [CHR 0x22] 0
           in if close = NOT_FOUND then (val, '''', True)
              else (take close val, drop (close + 1) val, True)
      else let close = str_find val '' '' 0
           in if close = NOT_FOUND then (val, '''', True)
              else (take close val, drop (close + 1) val, False))"

lemma Trim_length: "length (Trim str dropChars) \<le> length str"
  by (simp add: Trim_def Let_def)

lemma sgml_value_length: "length (fst (snd (sgml_value val))) \<le> length val"
  by (simp add: sgml_value_def Let_def)

function sgml_attrs :: "nat \<Rightarrow> string \<Rightarrow> (string \<rightharpoonup> string) \<Rightarrow> (string \<rightharpoonup> string)" where
  "sgml_attrs i seg meta =
     (if i < length seg
      then if seg ! i = CHR ''=''
           then let label = substr seg 0 i;
                    (val, rest, restart) = sgml_value (drop (i + 1) seg);
                    label = Trim label blanks; seg = Trim rest blanks;
                    i = (if restart then 0 else i)
                in sgml_attrs (i + 1) seg (meta(label \<mapsto> val))
           else sgml_attrs (i + 1) seg meta
      else meta)"
  by pat_completeness auto
termination
proof (relation "measures [\<lambda>(i, seg, meta). length seg, \<lambda>(i, seg, meta). length seg - i]", goal_cases)
  case (2 i seg meta label v val y rest restart label' seg' i')
  have "length seg' \<le> length rest" using 2 Trim_length by simp
  also have "\<dots> \<le> length (drop (i + 1) seg)"
    using sgml_value_length [of "drop (i + 1) seg"] 2 by (metis fst_conv snd_conv)
  finally show ?case using 2 by auto
qed auto

declare sgml_attrs.simps [simp del]

text \<open>Returns the stripped line and the attributes.\<close>

definition ProcessAndStripSGML :: "string \<Rightarrow> string \<times> (string \<rightharpoonup> string)" where
  "ProcessAndStripSGML line =
     (let lline = ToLower line
      in if str_find lline ''<seg'' 0 \<noteq> 0 then (line, Map.empty)
         else let close = str_find lline ''>'' 0
              in if close = NOT_FOUND then (line, Map.empty)
                 else let end = str_find lline ''</seg>'' 0;
                          seg = Trim (substr lline 4 (sz_sub close 4)) blanks;
                          txt = substr line (close + 1) (sz_sub (sz_sub end close) 1);
                          seg = strip_spaces 1 seg;
                          line = Trim txt blanks
                      in if seg = '''' then (line, Map.empty) else (line, sgml_attrs 1 seg Map.empty))"

section \<open>Tokens are the maximal runs of non-delimiters\<close>

lemma find_nth:
  "p \<le> length xs \<Longrightarrow> find (\<lambda>i. Q (xs ! i)) [p..<length xs] =
     (if dropWhile (\<lambda>x. \<not> Q x) (drop p xs) = [] then None
      else Some (p + length (takeWhile (\<lambda>x. \<not> Q x) (drop p xs))))"
proof (induction "length xs - p" arbitrary: p)
  case 0
  then show ?case by simp
next
  case (Suc n)
  then have p: "p < length xs" "n = length xs - Suc p" by simp_all
  note IH = Suc(1) [OF p(2)]
  have "[p..<length xs] = p # [Suc p..<length xs]" using p by (simp add: upt_conv_Cons)
  moreover have "drop p xs = xs ! p # drop (Suc p) xs" using p by (simp add: Cons_nth_drop_Suc)
  ultimately show ?case using IH p by simp
qed

lemma drop_takeWhile: "drop (p + length (takeWhile Q (drop p xs))) xs = dropWhile Q (drop p xs)"
  by (simp add: dropWhile_eq_drop add.commute)

fun runs :: "string \<Rightarrow> string \<Rightarrow> string list" where
  "runs ds [] = []"
| "runs ds (c # cs) =
     (if c \<in> set ds then runs ds cs
      else case runs ds cs of
        [] \<Rightarrow> [[c]]
      | t # ts \<Rightarrow> if cs \<noteq> [] \<and> hd cs \<notin> set ds then (c # t) # ts else [c] # t # ts)"

lemma runs_skip: "runs ds (dropWhile (\<lambda>c. c \<in> set ds) str) = runs ds str"
  by (induction str) auto

lemma runs_hd: "str \<noteq> [] \<Longrightarrow> hd str \<notin> set ds \<Longrightarrow>
    runs ds str = takeWhile (\<lambda>c. c \<notin> set ds) str # runs ds (dropWhile (\<lambda>c. c \<notin> set ds) str)"
proof (induction str)
  case Nil
  then show ?case by simp
next
  case (Cons c cs)
  then show ?case by (cases cs) (auto split: list.splits)
qed

lemma tokenize_loop_runs:
  assumes "length str < NOT_FOUND" "q \<le> length str"
    "l = find_first_not_of str ds q" "p = find_first_of str ds l"
  shows "tokenize_loop str ds l p tokens = tokens @ runs ds (drop q str)"
  using assms(2-)
proof (induction "length str - q" arbitrary: q l p tokens rule: less_induct)
  case less
  let ?D = "\<lambda>c. c \<in> set ds" and ?N = "\<lambda>c. c \<notin> set ds"
  have l: "l = (if dropWhile ?D (drop q str) = [] then NOT_FOUND
      else q + length (takeWhile ?D (drop q str)))"
    unfolding less.prems(2) find_first_not_of_def
    using find_nth [OF less.prems(1), of ?N] assms(1) less.prems(1) by (simp add: npos_or_def)
  show ?case
  proof (cases "dropWhile ?D (drop q str) = []")
    case True
    then have "l = NOT_FOUND" "p = NOT_FOUND" using l less.prems(3) by (simp_all add: find_first_of_def)
    moreover have "runs ds (drop q str) = []" using runs_skip [of ds "drop q str"] unfolding True by simp
    ultimately show ?thesis by (simp add: tokenize_loop.simps)
  next
    case False
    let ?u = "drop l str"
    have lq: "l = q + length (takeWhile ?D (drop q str))" using l by (simp only: False if_False)
    have u: "?u = dropWhile ?D (drop q str)" unfolding lq by (rule drop_takeWhile)
    then have u': "?u \<noteq> []" "hd ?u \<notin> set ds" using False hd_dropWhile [OF False] by simp_all
    then have ll: "l < length str" by auto
    have ql: "q \<le> l" using lq by simp
    have p: "p = (if dropWhile ?N ?u = [] then NOT_FOUND else l + length (takeWhile ?N ?u))"
      unfolding less.prems(3) find_first_of_def
      using find_nth [of l str ?D] assms(1) ll by (simp add: npos_or_def)
    have runs: "runs ds (drop q str) = takeWhile ?N ?u # runs ds (dropWhile ?N ?u)"
      using runs_hd [OF u'] runs_skip [of ds "drop q str"] u by simp
    have lN: "l \<noteq> NOT_FOUND" using ll assms(1) by simp
    show ?thesis
    proof (cases "dropWhile ?N ?u = []")
      case True
      then have pN: "p = NOT_FOUND" using p by simp
      have all: "takeWhile ?N ?u = ?u" using True by (simp add: takeWhile_eq_all_conv)
      have tok: "substr str l (sz_sub p l) = ?u"
        using ll assms(1) pN by (simp add: substr_def sz_sub_small)
      have "runs ds (drop q str) = [?u]" using runs unfolding True all by simp
      then show ?thesis
        using tok lN pN
        by (subst tokenize_loop.simps)
          (simp add: tokenize_loop.simps [of _ _ NOT_FOUND] find_first_not_of_def find_first_of_def)
    next
      case False
      then have pl: "p = l + length (takeWhile ?N ?u)" using p by (simp only: if_False)
      have "length (takeWhile ?N ?u) \<le> length ?u" by (rule length_takeWhile_le)
      then have pn: "p \<le> length str" using pl ll by simp
      have "takeWhile ?N ?u \<noteq> []" using u' by (cases ?u) auto
      then have lp: "l < p" using pl by simp
      have du: "drop p str = dropWhile ?N ?u" using pl drop_takeWhile [of l ?N str] by simp
      have "sz_sub p l = p - l"
        using pl pn assms(1) by (intro sz_sub_small) (simp_all add: NOT_FOUND_def size_bound_def)
      then have tok: "substr str l (sz_sub p l) = takeWhile ?N ?u"
        using pl by (simp add: substr_def takeWhile_eq_take [symmetric])
      have "length str - p < length str - q" using lp ql pn by simp
      note IH = less.hyps [OF this pn refl refl]
      have "p \<noteq> NOT_FOUND" using pn assms(1) by simp
      then show ?thesis
        by (subst tokenize_loop.simps) (simp add: IH tok runs du)
    qed
  qed
qed

lemma Tokenize_runs: "length str < NOT_FOUND \<Longrightarrow> Tokenize str ds = runs ds str"
  using tokenize_loop_runs [of str 0 _ ds] by (simp add: Tokenize_def Let_def)

lemma runs_props:
  "\<forall>t \<in> set (runs ds str). t \<noteq> [] \<and> (\<forall>c \<in> set t. c \<notin> set ds)"
  by (induction str) (auto split: list.splits)

lemma concat_runs: "concat (runs ds str) = filter (\<lambda>c. c \<notin> set ds) str"
  by (induction str) (auto split: list.splits if_splits)

definition join_with :: "string \<Rightarrow> string list \<Rightarrow> string" where
  "join_with d ts = (case ts of [] \<Rightarrow> [] | t # ts \<Rightarrow> t @ concat (map (\<lambda>t. d @ t) ts))"

lemma Join_join_with: "Join d ts = join_with d ts"
proof (cases ts)
  case (Cons t us)
  have "fold (\<lambda>i out. out @ d @ (t # us) ! i) [1..<Suc k] t = t @ concat (map (\<lambda>t. d @ t) (take k us))"
    if "k \<le> length us" for k
    using that by (induction k) (simp_all add: take_Suc_conv_app_nth)
  from this [of "length us"] show ?thesis using Cons by (simp add: Join_def join_with_def)
qed (simp add: Join_def join_with_def)

lemma join_with_Cons: "ts \<noteq> [] \<Longrightarrow> join_with d (t # ts) = t @ d @ join_with d ts"
  by (cases ts) (simp_all add: join_with_def)

lemma runs_append_delim:
  "set t \<inter> set ds = {} \<Longrightarrow> t \<noteq> [] \<Longrightarrow> c \<in> set ds \<Longrightarrow> runs ds (t @ c # str) = t # runs ds str"
  using runs_hd [of "t @ c # str" ds] by (cases t) (auto simp: takeWhile_append)

lemma runs_join:
  assumes "\<forall>t \<in> set ts. t \<noteq> [] \<and> set t \<inter> set ds = {}" "set d \<subseteq> set ds" "d \<noteq> []"
  shows "runs ds (join_with d ts) = ts"
  using assms(1)
proof (induction ts)
  case Nil
  then show ?case by (simp add: join_with_def)
next
  case (Cons t ts)
  have t: "t \<noteq> []" "set t \<inter> set ds = {}" using Cons by simp_all
  show ?case
  proof (cases "ts = []")
    case True
    have all: "dropWhile (\<lambda>c. c \<notin> set ds) t = []" "takeWhile (\<lambda>c. c \<notin> set ds) t = t"
      using t by (auto simp: takeWhile_eq_all_conv)
    have hd: "hd t \<notin> set ds" using t hd_in_set [OF t(1)] by blast
    have "runs ds t = [t]" using runs_hd [OF t(1) hd] unfolding all by simp
    then show ?thesis using True by (simp add: join_with_def)
  next
    case False
    obtain c d' where d: "d = c # d'" "c \<in> set ds" "set d' \<subseteq> set ds" using assms(2,3) by (cases d) auto
    have "runs ds (d' @ u) = runs ds u" for u using d(3) by (induction d') auto
    then show ?thesis
      using Cons False runs_append_delim [OF t(2,1) d(2)] by (simp add: join_with_Cons d(1))
  qed
qed

section \<open>Trimming\<close>

lemma find_last_nth:
  "find (\<lambda>i. Q (xs ! i)) (rev [0..<length xs]) =
     (if dropWhile (\<lambda>x. \<not> Q x) (rev xs) = [] then None
      else Some (length (dropWhile (\<lambda>x. \<not> Q x) (rev xs)) - 1))"
proof (induction xs rule: rev_induct)
  case Nil
  then show ?case by simp
next
  case (snoc x xs)
  have "find (\<lambda>i. Q ((xs @ [x]) ! i)) (rev [0..<length xs]) = find (\<lambda>i. Q (xs ! i)) (rev [0..<length xs])"
    by (rule find_cong) (simp_all add: nth_append)
  then show ?case using snoc by simp
qed

lemma take_dropWhile_rev: "take (length (dropWhile P (rev xs))) xs = rev (dropWhile P (rev xs))"
proof -
  have "xs = rev (dropWhile P (rev xs)) @ rev (takeWhile P (rev xs))"
    by (metis rev_append rev_rev_ident takeWhile_dropWhile_id)
  then show ?thesis by (metis append_eq_conv_conj length_rev)
qed

lemma Trim_eq:
  assumes "length str < NOT_FOUND"
  shows "Trim str ds = dropWhile (\<lambda>c. c \<in> set ds) (rev (dropWhile (\<lambda>c. c \<in> set ds) (rev str)))"
proof -
  let ?D = "\<lambda>c. c \<in> set ds" and ?t = "rev (dropWhile (\<lambda>c. c \<in> set ds) (rev str))"
  have len: "length (dropWhile ?D (rev str)) \<le> length str"
    by (metis length_dropWhile_le length_rev)
  have res: "take (sz_add (find_last_not_of str ds) 1) str = ?t"
  proof (cases "dropWhile ?D (rev str) = []")
    case True
    then have "find_last_not_of str ds = NOT_FOUND"
      using find_last_nth [of "\<lambda>c. \<not> ?D c" str] by (simp add: find_last_not_of_def npos_or_def)
    then show ?thesis unfolding True by (simp add: sz_add_def)
  next
    case False
    then have "find_last_not_of str ds = length (dropWhile ?D (rev str)) - 1"
      using find_last_nth [of "\<lambda>c. \<not> ?D c" str] unfolding find_last_not_of_def npos_or_def
      by (simp only: not_not if_False option.case)
    moreover have "0 < length (dropWhile ?D (rev str))" using False by blast
    ultimately have "sz_add (find_last_not_of str ds) 1 = length (dropWhile ?D (rev str))"
      using assms len by (simp add: sz_add_small NOT_FOUND_def size_bound_def)
    then show ?thesis by (simp add: take_dropWhile_rev)
  qed
  have "drop (find_first_not_of ?t ds 0) ?t = dropWhile ?D ?t"
  proof (cases "dropWhile ?D ?t = []")
    case True
    then have "find_first_not_of ?t ds 0 = NOT_FOUND"
      using find_nth [of 0 ?t "\<lambda>c. \<not> ?D c"] unfolding find_first_not_of_def npos_or_def
      by (simp only: not_not if_True option.case drop_0 le0 if_cancel simp_thms)
    then show ?thesis unfolding True using len assms by simp
  next
    case False
    have "0 < NOT_FOUND" by (simp add: NOT_FOUND_def)
    then have "find_first_not_of ?t ds 0 = length (takeWhile ?D ?t)"
      using find_nth [of 0 ?t "\<lambda>c. \<not> ?D c"] False unfolding find_first_not_of_def npos_or_def
      by (simp only: not_not if_False option.case drop_0 le0 add_0 not_le [symmetric] simp_thms)
    then show ?thesis by (simp add: dropWhile_eq_drop)
  qed
  then show ?thesis unfolding Trim_def Let_def res .
qed

section \<open>Splitting at a separator string\<close>

lemma str_find_props:
  assumes "str_find str pat pos \<noteq> NOT_FOUND" "pat \<noteq> []"
  shows "pos \<le> str_find str pat pos" "str_find str pat pos + length pat \<le> length str"
    "take (length pat) (drop (str_find str pat pos) str) = pat"
proof -
  obtain i where "find (\<lambda>i. take (length pat) (drop i str) = pat)
      [pos..<Suc (length str) - length pat] = Some i" "str_find str pat pos = i"
    using assms(1) by (auto simp: str_find_def npos_or_def split: if_splits option.splits)
  then show "pos \<le> str_find str pat pos" "str_find str pat pos + length pat \<le> length str"
    "take (length pat) (drop (str_find str pat pos) str) = pat"
    by (auto simp: find_upt_Some)
qed

lemma multi_sep_loop_join:
  assumes "separator \<noteq> []" "length str < NOT_FOUND" "pos \<le> length str"
  shows "\<exists>ts. multi_sep_loop id str separator pos (str_find str separator pos) tokens = Some (tokens @ ts) \<and>
    ts \<noteq> [] \<and> join_with separator ts = drop pos str"
  using assms(3)
proof (induction "length str - pos" arbitrary: pos tokens rule: less_induct)
  case less
  let ?n = "str_find str separator pos"
  show ?case
  proof (cases "?n = NOT_FOUND")
    case True
    have "sz_sub NOT_FOUND pos = NOT_FOUND - pos"
      using less.prems assms(2) by (intro sz_sub_small) simp_all
    then have "substr str pos (sz_sub NOT_FOUND pos) = drop pos str"
      using less.prems assms(2) by (simp add: substr_def)
    then show ?thesis using True by (subst multi_sep_loop.simps) (simp add: join_with_def)
  next
    case False
    note n = str_find_props [OF False assms(1)]
    let ?pos = "?n + length separator"
    have "length str - ?pos < length str - pos" "?pos \<le> length str"
      using n(1,2) assms(1) less.prems by (cases separator; simp; linarith)+
    from less.hyps [OF this, of "tokens @ [substr str pos (?n - pos)]"] obtain ts where
      ts: "multi_sep_loop id str separator ?pos (str_find str separator ?pos)
        (tokens @ [substr str pos (?n - pos)]) = Some (tokens @ substr str pos (?n - pos) # ts)"
      "ts \<noteq> []" "join_with separator ts = drop ?pos str" by auto
    have "drop ?n str = separator @ drop ?pos str"
      using append_take_drop_id [of "length separator" "drop ?n str"] n(3) by (simp add: add.commute)
    moreover have "drop pos str = substr str pos (?n - pos) @ drop ?n str"
      using append_take_drop_id [of "?n - pos" "drop pos str"] n(1) by (simp add: substr_def)
    ultimately have "join_with separator (substr str pos (?n - pos) # ts) = drop pos str"
      using ts(2,3) by (simp add: join_with_Cons)
    then show ?thesis using ts(1) False
      by (subst multi_sep_loop.simps) (auto simp: Let_def)
  qed
qed

section \<open>Replacement\<close>

lemma str_find_char:
  assumes "c \<notin> set pre" "pos \<le> length pre" "length pre < NOT_FOUND"
  shows "str_find (pre @ c # post) [c] pos = length pre"
proof -
  have "find (\<lambda>i. take 1 (drop i (pre @ c # post)) = [c]) [pos..<length (pre @ c # post)] = Some (length pre)"
  proof (subst find_upt_Some, intro conjI allI impI)
    fix j assume j: "pos \<le> j \<and> j < length pre"
    then have "take 1 (drop j (pre @ c # post)) = [pre ! j]"
      by (cases "drop j pre") (auto simp: Cons_nth_drop_Suc [symmetric])
    then show "take 1 (drop j (pre @ c # post)) \<noteq> [c]" using j assms(1) nth_mem by auto
  qed (use assms(2) in simp_all)
  then show ?thesis using assms(2,3) by (simp add: str_find_def npos_or_def)
qed

lemma str_find_char_None:
  assumes "c \<notin> set str"
  shows "str_find str [c] pos = NOT_FOUND"
proof -
  have "take 1 (drop j str) \<noteq> [c]" for j
    using assms set_drop_subset [of j str] by (cases "drop j str") auto
  then have "find (\<lambda>i. take 1 (drop i str) = [c]) [pos..<length str] = None"
    by (simp add: find_None_iff)
  then show ?thesis by (simp add: str_find_def npos_or_def)
qed

definition expand :: "char \<Rightarrow> string \<Rightarrow> string \<Rightarrow> string" where
  "expand c add str = concat (map (\<lambda>x. if x = c then add else [x]) str)"

lemma replace_loop_expand:
  assumes "c \<notin> set add" "add \<noteq> []"
    and "c \<notin> set pre" "pos \<le> length pre" "length pre + length str < NOT_FOUND"
      "length (pre @ expand c add str) < NOT_FOUND"
  shows "replace_loop [c] add pos (pre @ str) = Some (pre @ expand c add str)"
  using assms(3-)
proof (induction "length str" arbitrary: pre pos str rule: less_induct)
  case less
  show ?case
  proof (cases "c \<in> set str")
    case False
    then have "c \<notin> set (pre @ str)" using less.prems by simp
    moreover have "expand c add str = str" using False by (induction str) (auto simp: expand_def)
    ultimately show ?thesis by (subst replace_loop.simps) (simp add: str_find_char_None)
  next
    case True
    then obtain p q where str: "str = p @ c # q" "c \<notin> set p" by (meson split_list_first)
    have ex: "expand c add str = p @ add @ expand c add q"
    proof -
      have "expand c add p = p" using str(2) by (induction p) (auto simp: expand_def)
      then show ?thesis by (simp add: str(1) expand_def)
    qed
    have found: "str_find (pre @ str) [c] pos = length (pre @ p)"
      using str_find_char [of c "pre @ p" pos q] less.prems str by simp
    have IH: "replace_loop [c] add (length (pre @ p) + 1) ((pre @ p @ add) @ q) =
        Some ((pre @ p @ add) @ expand c add q)"
    proof (rule less.hyps)
      show "length (pre @ p) + 1 \<le> length (pre @ p @ add)" using assms(2) by (cases add) auto
      have "length q \<le> length (expand c add q)"
        unfolding expand_def using assms(2) by (induction q) (auto simp: neq_Nil_conv)
      then show "length (pre @ p @ add) + length q < NOT_FOUND" using less.prems(4) ex by simp
    qed (use str less.prems assms(1) ex in simp_all)
    have "length (pre @ p) \<noteq> NOT_FOUND" using less.prems(3) str by simp
    then show ?thesis
      using IH found by (subst replace_loop.simps) (simp add: str ex [unfolded str])
  qed
qed

lemma replace_grows_step:
  "k < NOT_FOUND \<Longrightarrow>
   replace_loop ''a'' ''ba'' k (replicate k (CHR ''b'') @ ''a'') =
   replace_loop ''a'' ''ba'' (k + 1) (replicate (k + 1) (CHR ''b'') @ ''a'')"
  using str_find_char [of "CHR ''a''" "replicate k (CHR ''b'')" k "[]"]
  by (subst replace_loop.simps) (simp add: Let_def replicate_app_Cons_same)

section \<open>Properties\<close>

text \<open>Tokenising a joined list of tokens gives the tokens back, for any delimiter string made of
  delimiter characters.\<close>

theorem tokenize_join_roundtrip:
  assumes "\<forall>t \<in> set ts. t \<noteq> [] \<and> set t \<inter> set ds = {}" "set d \<subseteq> set ds" "d \<noteq> []"
    and "length (Join d ts) < NOT_FOUND"
  shows "Tokenize (Join d ts) ds = ts"
  using assms by (simp add: Tokenize_runs Join_join_with runs_join)

theorem tokenize_join_roundtrip_witness:
  "Tokenize (Join ''- '' [''hier'', ''msd'']) ''- '' = [''hier'', ''msd'']"
  by (rule tokenize_join_roundtrip) (simp_all add: Join_def NOT_FOUND_def)

text \<open>On every string the tokens are non-empty, contain no delimiter, and together are exactly
  the characters that are no delimiters, in their order.\<close>

theorem tokenize_keeps_text:
  assumes "length str < NOT_FOUND"
  shows "(\<forall>t \<in> set (Tokenize str ds). t \<noteq> [] \<and> (\<forall>c \<in> set t. c \<notin> set ds)) \<and>
    concat (Tokenize str ds) = filter (\<lambda>c. c \<notin> set ds) str"
  using Tokenize_runs [OF assms] runs_props concat_runs by simp

theorem tokenize_keeps_text_witness:
  "concat (Tokenize ''  a bc '' '' '') = ''abc''"
  using tokenize_keeps_text [of "''  a bc ''" "'' ''"] by (simp add: NOT_FOUND_def)

text \<open>Splitting at a non-empty separator string returns, and joining the pieces with the separator
  gives the input back.\<close>

theorem multi_separator_split_join:
  assumes "separator \<noteq> ''''" "length str < NOT_FOUND"
  shows "\<exists>ts. TokenizeMultiCharSeparator str separator = Some ts \<and> Join separator ts = str"
  using multi_sep_loop_join [OF assms, of 0 "[]"]
  by (auto simp: TokenizeMultiCharSeparator_def Join_join_with)

theorem multi_separator_split_join_witness:
  "\<exists>ts. TokenizeMultiCharSeparator ''a ||| b'' '' ||| '' = Some ts \<and> Join '' ||| '' ts = ''a ||| b''"
  by (rule multi_separator_split_join) (simp_all add: NOT_FOUND_def)

text \<open>Trimming removes exactly the longest prefix and the longest suffix of blanks: the result
  neither starts nor ends with a dropped character, and only dropped characters are gone.\<close>

theorem trim_exact:
  assumes "length str < NOT_FOUND"
  shows "(\<exists>pre post. str = pre @ Trim str ds @ post \<and> set pre \<subseteq> set ds \<and> set post \<subseteq> set ds) \<and>
    (Trim str ds \<noteq> '''' \<longrightarrow> hd (Trim str ds) \<notin> set ds \<and> last (Trim str ds) \<notin> set ds)"
proof (intro conjI impI)
  let ?D = "\<lambda>c. c \<in> set ds"
  let ?t = "rev (dropWhile ?D (rev str))"
  note eq = Trim_eq [OF assms, of ds]
  have "str = ?t @ rev (takeWhile ?D (rev str))"
    by (metis rev_append rev_rev_ident takeWhile_dropWhile_id)
  also have "?t = takeWhile ?D ?t @ Trim str ds" unfolding eq by simp
  finally have "str = takeWhile ?D ?t @ Trim str ds @ rev (takeWhile ?D (rev str))" by simp
  moreover have "set (takeWhile ?D ?t) \<subseteq> set ds" "set (rev (takeWhile ?D (rev str))) \<subseteq> set ds"
    by (auto dest: set_takeWhileD)
  ultimately show "\<exists>pre post. str = pre @ Trim str ds @ post \<and> set pre \<subseteq> set ds \<and> set post \<subseteq> set ds" by blast
  assume ne: "Trim str ds \<noteq> ''''"
  then show "hd (Trim str ds) \<notin> set ds" using hd_dropWhile [of ?D ?t] eq by metis
  have "?t \<noteq> []" using ne unfolding eq by (metis dropWhile.simps(1))
  then have "last ?t \<notin> set ds" using hd_dropWhile [of ?D "rev str"] by (metis last_rev rev_is_Nil_conv)
  moreover have "last (Trim str ds) = last ?t"
    using ne unfolding eq by (metis last_appendR takeWhile_dropWhile_id)
  ultimately show "last (Trim str ds) \<notin> set ds" by simp
qed

theorem trim_exact_witness: "\<exists>pre post. ''  a b '' = pre @ Trim ''  a b '' '' '' @ post"
  using trim_exact [of "''  a b ''" "'' ''"] by (auto simp: NOT_FOUND_def)

text \<open>Replacing one character by a non-empty string without that character replaces every
  occurrence.\<close>

theorem replace_character:
  assumes "c \<notin> set toaddStr" "toaddStr \<noteq> ''''" "length (expand c toaddStr str) < NOT_FOUND"
    "length str < NOT_FOUND"
  shows "Replace str [c] toaddStr = Some (expand c toaddStr str)"
  using replace_loop_expand [OF assms(1,2), of "[]" 0 str] assms(3,4) by (simp add: Replace_def)

theorem replace_character_witness:
  "Replace ''a|b|'' ''|'' ''&#124;'' = Some ''a&#124;b&#124;''"
  using replace_character [of "CHR ''|''" "''&#124;''" "''a|b|''"]
  by (simp add: expand_def NOT_FOUND_def)

text \<open>When the inserted string contains the replaced one behind its first character, the loop
  finds its own insertion again and only grows the string; when the inserted string is empty, the
  second of two adjacent occurrences is skipped.\<close>

theorem replace_does_not_replace_all:
  "(\<forall>k < NOT_FOUND. Replace ''a'' ''a'' ''ba'' =
      replace_loop ''a'' ''ba'' k (replicate k (CHR ''b'') @ ''a'')) \<and>
   Replace ''aab'' ''a'' '''' = Some ''ab''"
proof (intro conjI allI impI)
  fix k assume "k < NOT_FOUND"
  then show "Replace ''a'' ''a'' ''ba'' = replace_loop ''a'' ''ba'' k (replicate k (CHR ''b'') @ ''a'')"
  proof (induction k)
    case 0
    then show ?case by (simp add: Replace_def)
  next
    case (Suc k)
    then show ?case using replace_grows_step [of k] by (simp add: Suc_lessD)
  qed
next
  show "Replace ''aab'' ''a'' '''' = Some ''ab''"
    by (simp add: Replace_def replace_loop.simps Let_def str_find_def npos_or_def upt_rec NOT_FOUND_def)
qed

theorem replace_does_not_replace_all_witness:
  "Replace ''a'' ''a'' ''ba'' = replace_loop ''a'' ''ba'' 3 ''bbba''"
  using replace_does_not_replace_all [THEN conjunct1, rule_format, of 3]
  by (simp add: NOT_FOUND_def numeral_3_eq_3)

lemma sgml_attrs_rules:
  "i \<ge> length seg \<Longrightarrow> sgml_attrs i seg meta = meta"
  "i < length seg \<Longrightarrow> seg ! i \<noteq> CHR ''='' \<Longrightarrow> sgml_attrs i seg meta = sgml_attrs (i + 1) seg meta"
  "i < length seg \<Longrightarrow> seg ! i = CHR ''='' \<Longrightarrow> sgml_value (drop (i + 1) seg) = (val, rest, True) \<Longrightarrow>
    sgml_attrs i seg meta = sgml_attrs 1 (Trim rest blanks) (meta(Trim (substr seg 0 i) blanks \<mapsto> val))"
  "i < length seg \<Longrightarrow> seg ! i = CHR ''='' \<Longrightarrow> sgml_value (drop (i + 1) seg) = (val, rest, False) \<Longrightarrow>
    sgml_attrs i seg meta = sgml_attrs (i + 1) (Trim rest blanks) (meta(Trim (substr seg 0 i) blanks \<mapsto> val))"
  by (simp_all add: sgml_attrs.simps [of i seg])

text \<open>Quoted attributes of a \<open>seg\<close> tag are all read, but of two unquoted ones the one
  behind a single-character label is lost: the scan goes on at the old position of the equals
  sign.\<close>

theorem sgml_unquoted_attribute_lost:
  "sgml_attrs 1 ''a=1 b=2'' Map.empty = [''a'' \<mapsto> ''1''] \<and>
   sgml_attrs 1 [CHR ''a'', CHR ''='', CHR 0x22, CHR ''1'', CHR 0x22, CHR '' '',
                 CHR ''b'', CHR ''='', CHR 0x22, CHR ''2'', CHR 0x22] Map.empty =
     [''a'' \<mapsto> ''1'', ''b'' \<mapsto> ''2'']"
proof -
  have vals: "sgml_value ''1 b=2'' = (''1'', ''b=2'', False)"
    "sgml_value [CHR 0x22, CHR ''1'', CHR 0x22, CHR '' '', CHR ''b'', CHR ''='', CHR 0x22, CHR ''2'', CHR 0x22] =
      (''1'', [CHR '' '', CHR ''b'', CHR ''='', CHR 0x22, CHR ''2'', CHR 0x22], True)"
    "sgml_value [CHR 0x22, CHR ''2'', CHR 0x22] = (''2'', '''', True)"
    by (simp_all add: sgml_value_def str_at_def str_find_def npos_or_def NOT_FOUND_def Let_def upt_rec)
  have trims: "Trim ''a'' blanks = ''a''" "Trim ''b'' blanks = ''b''" "Trim ''b=2'' blanks = ''b=2''"
    "Trim [CHR '' '', CHR ''b'', CHR ''='', CHR 0x22, CHR ''2'', CHR 0x22] blanks =
      [CHR ''b'', CHR ''='', CHR 0x22, CHR ''2'', CHR 0x22]" "Trim '''' blanks = ''''"
    by (simp_all add: Trim_eq NOT_FOUND_def blanks_def)
  show ?thesis by (simp add: sgml_attrs_rules vals trims substr_def)
qed

end
