(* ===== verification/Lexical_Reordering.thy ===== *)
theory Lexical_Reordering
  imports Reordering_Stack Words_Bitmap Util_Strings
begin

text \<open>
  The lexicalised reordering models (\<open>LexicalReorderingState.h\<close>,
  \<open>LexicalReorderingState.cpp\<close>, \<open>LexicalReordering.cpp\<close>): the configuration
  string, the phrase-based, hierarchical and bidirectional feature states, the orientation each
  assigns to the next phrase, and where its score goes in the feature vector. A state class is a
  constructor of \<open>lr_state\<close>; \<open>exit(1)\<close> is \<open>Inl\<close> with the message, a failed cast
  or assertion is \<open>None\<close>.
\<close>

section \<open>Configuration\<close>

datatype model_type = Monotonic | MSD | MSLR | LeftRight | NoModel

datatype direction = Forward | Backward | Bidirectional

datatype condition = CondF | CondE | CondFE

record lr_config =
  m_modelType :: model_type
  m_phraseBased :: bool
  m_collapseScores :: bool
  cfg_direction :: direction
  m_condition :: condition

definition GetNumberOfTypes :: "lr_config \<Rightarrow> nat" where
  "GetNumberOfTypes cfg = (case m_modelType cfg of MSD \<Rightarrow> 3 | MSLR \<Rightarrow> 4 | _ \<Rightarrow> 2)"

definition GetNumScoreComponents :: "lr_config \<Rightarrow> nat" where
  "GetNumScoreComponents cfg =
     (let score_per_dir = (if m_collapseScores cfg then 1 else GetNumberOfTypes cfg)
      in if cfg_direction cfg = Bidirectional then 2 * score_per_dir else score_per_dir)"

definition config_part :: "string \<Rightarrow> lr_config \<Rightarrow> string + lr_config" where
  "config_part part cfg =
     (if part = ''hier'' then Inr (cfg\<lparr>m_phraseBased := False\<rparr>)
      else if part = ''phrase'' then Inr (cfg\<lparr>m_phraseBased := True\<rparr>)
      else if part = ''wbe'' then Inr (cfg\<lparr>m_phraseBased := True\<rparr>)
      else if part = ''msd'' then Inr (cfg\<lparr>m_modelType := MSD\<rparr>)
      else if part = ''mslr'' then Inr (cfg\<lparr>m_modelType := MSLR\<rparr>)
      else if part = ''monotonicity'' then Inr (cfg\<lparr>m_modelType := Monotonic\<rparr>)
      else if part = ''leftright'' then Inr (cfg\<lparr>m_modelType := LeftRight\<rparr>)
      else if part = ''backward'' \<or> part = ''unidirectional'' then Inr (cfg\<lparr>cfg_direction := Backward\<rparr>)
      else if part = ''forward'' then Inr (cfg\<lparr>cfg_direction := Forward\<rparr>)
      else if part = ''bidirectional'' then Inr (cfg\<lparr>cfg_direction := Bidirectional\<rparr>)
      else if part = ''f'' then Inr (cfg\<lparr>m_condition := CondF\<rparr>)
      else if part = ''fe'' then Inr (cfg\<lparr>m_condition := CondFE\<rparr>)
      else if part = ''collapseff'' then Inr (cfg\<lparr>m_collapseScores := True\<rparr>)
      else if part = ''allff'' then Inr (cfg\<lparr>m_collapseScores := False\<rparr>)
      else Inl (''Illegal part in the lexical reordering configuration string: '' @ part))"

fun config_parts :: "string list \<Rightarrow> lr_config \<Rightarrow> string + lr_config" where
  "config_parts [] cfg = Inr cfg"
| "config_parts (part # parts) cfg =
     (case config_part part cfg of Inl e \<Rightarrow> Inl e | Inr cfg \<Rightarrow> config_parts parts cfg)"

text \<open>The constructor leaves \<open>m_condition\<close> as it finds the memory: \<open>cond\<close>.\<close>

definition LexicalReorderingConfiguration :: "condition \<Rightarrow> string \<Rightarrow> string + lr_config" where
  "LexicalReorderingConfiguration cond modelType =
     (case config_parts (Tokenize modelType ''-'')
        \<lparr>m_modelType = NoModel, m_phraseBased = True, m_collapseScores = False,
         cfg_direction = Backward, m_condition = cond\<rparr> of
        Inl e \<Rightarrow> Inl e
      | Inr cfg \<Rightarrow>
          if m_modelType cfg = NoModel
          then Inl ''You need to specify the type of the reordering model (msd, monotonicity,...)''
          else Inr cfg)"

section \<open>States\<close>

type_synonym scores = "rat list"

record translation_option =
  GetSourceWordsRange :: words_range
  GetCachedScores :: "scores option"

record lr_base =
  m_configuration :: lr_config
  m_direction :: direction
  m_offset :: nat
  m_prevScore :: "scores option"

datatype lr_state =
    PhraseBasedReorderingState lr_base words_range bool
  | BidirectionalReorderingState lr_base lr_state lr_state
  | HierarchicalReorderingBackwardState lr_base "words_range list"
  | HierarchicalReorderingForwardState lr_base bool words_range words_bitmap

definition base_init :: "lr_config \<Rightarrow> direction \<Rightarrow> nat \<Rightarrow> lr_base" where
  "base_init cfg dir off =
     \<lparr>m_configuration = cfg, m_direction = dir, m_offset = off, m_prevScore = None\<rparr>"

definition base_next :: "lr_base \<Rightarrow> translation_option \<Rightarrow> lr_base" where
  "base_next prev topt = prev\<lparr>m_prevScore := GetCachedScores topt\<rparr>"

definition CreateLexicalReorderingState :: "lr_config \<Rightarrow> nat \<Rightarrow> lr_state" where
  "CreateLexicalReorderingState cfg inputSize =
     (let types = (if m_collapseScores cfg then 1 else GetNumberOfTypes cfg);
          bwd = (\<lambda>off. if m_phraseBased cfg
                        then PhraseBasedReorderingState (base_init cfg Backward off)
                               (WordsRange NOT_FOUND NOT_FOUND) True
                        else HierarchicalReorderingBackwardState (base_init cfg Backward off) []);
          fwd = (\<lambda>off. if m_phraseBased cfg
                        then PhraseBasedReorderingState (base_init cfg Forward off)
                               (WordsRange NOT_FOUND NOT_FOUND) True
                        else HierarchicalReorderingForwardState (base_init cfg Forward off) True
                               (WordsRange NOT_FOUND NOT_FOUND) (BitmapInit inputSize))
      in case cfg_direction cfg of
           Backward \<Rightarrow> bwd 0
         | Forward \<Rightarrow> fwd 0
         | Bidirectional \<Rightarrow>
             BidirectionalReorderingState (base_init cfg Bidirectional 0) (bwd 0) (fwd types))"

section \<open>Scores\<close>

definition fill_zero :: "nat \<Rightarrow> nat \<Rightarrow> scores \<Rightarrow> scores" where
  "fill_zero lo hi xs = fold (\<lambda>i xs. xs[i := 0]) [lo..<hi] xs"

text \<open>\<open>None\<close>: the assertion on the direction fails, or an element outside of one of the two vectors is
  accessed.\<close>

definition CopyScores :: "lr_base \<Rightarrow> scores \<Rightarrow> translation_option \<Rightarrow> nat \<Rightarrow> scores option" where
  "CopyScores st scores topt reoType =
     (if \<not> (m_direction st = Backward \<or> m_direction st = Forward) then None
      else case (if m_direction st = Backward then GetCachedScores topt else m_prevScore st) of
        None \<Rightarrow> Some scores
      | Some scoreSet \<Rightarrow>
          if m_collapseScores (m_configuration st)
          then (if m_offset st < length scores \<and> m_offset st + reoType < length scoreSet
                then Some (scores[m_offset st := scoreSet ! (m_offset st + reoType)]) else None)
          else if m_offset st + GetNumberOfTypes (m_configuration st) \<le> length scores \<and>
                  m_offset st + reoType < length scores \<and> m_offset st + reoType < length scoreSet
          then Some ((fill_zero (m_offset st) (m_offset st + GetNumberOfTypes (m_configuration st)) scores)
                       [m_offset st + reoType := scoreSet ! (m_offset st + reoType)])
          else None)"

definition ClearScores :: "lr_base \<Rightarrow> scores \<Rightarrow> scores option" where
  "ClearScores st scores =
     (if m_collapseScores (m_configuration st)
      then (if m_offset st < length scores then Some (scores[m_offset st := 0]) else None)
      else if m_offset st + GetNumberOfTypes (m_configuration st) \<le> length scores
      then Some (fill_zero (m_offset st) (m_offset st + GetNumberOfTypes (m_configuration st)) scores)
      else None)"

fun compare_scores :: "nat list \<Rightarrow> scores \<Rightarrow> scores \<Rightarrow> int" where
  "compare_scores [] my their = 0"
| "compare_scores (i # is) my their =
     (if my ! i < their ! i then -1 else if my ! i > their ! i then 1 else compare_scores is my their)"

definition ComparePrevScores :: "lr_base \<Rightarrow> scores option \<Rightarrow> int" where
  "ComparePrevScores st other =
     (case (m_prevScore st, other) of
        (None, None) \<Rightarrow> 0
      | (_, None) \<Rightarrow> -1
      | (None, _) \<Rightarrow> 1
      | (Some my, Some their) \<Rightarrow>
          compare_scores [m_offset st..<m_offset st + GetNumberOfTypes (m_configuration st)] my their)"

section \<open>Orientations\<close>

definition RT_M :: nat where "RT_M = 0"
definition RT_NM :: nat where "RT_NM = 1"
definition RT_S :: nat where "RT_S = 1"
definition RT_D :: nat where "RT_D = 2"
definition RT_DL :: nat where "RT_DL = 2"
definition RT_DR :: nat where "RT_DR = 3"
definition RT_R :: nat where "RT_R = 0"
definition RT_L :: nat where "RT_L = 1"

lemmas orientation_defs = RT_M_def RT_NM_def RT_S_def RT_D_def RT_DL_def RT_DR_def RT_R_def RT_L_def

definition PB_MSD :: "words_range \<Rightarrow> bool \<Rightarrow> words_range \<Rightarrow> nat" where
  "PB_MSD prevRange first currRange =
     (if first then (if m_startPos currRange = 0 then RT_M else RT_D)
      else if m_endPos prevRange = sz_sub (m_startPos currRange) 1 then RT_M
      else if m_startPos prevRange = sz_add (m_endPos currRange) 1 then RT_S
      else RT_D)"

definition PB_MSLR :: "words_range \<Rightarrow> bool \<Rightarrow> words_range \<Rightarrow> nat" where
  "PB_MSLR prevRange first currRange =
     (if first then (if m_startPos currRange = 0 then RT_M else RT_DR)
      else if m_endPos prevRange = sz_sub (m_startPos currRange) 1 then RT_M
      else if m_startPos prevRange = sz_add (m_endPos currRange) 1 then RT_S
      else if m_endPos prevRange < m_startPos currRange then RT_DR
      else RT_DL)"

definition PB_Monotonic :: "words_range \<Rightarrow> bool \<Rightarrow> words_range \<Rightarrow> nat" where
  "PB_Monotonic prevRange first currRange =
     (if (first \<and> m_startPos currRange = 0) \<or> m_endPos prevRange = sz_sub (m_startPos currRange) 1
      then RT_M else RT_NM)"

definition PB_LeftRight :: "words_range \<Rightarrow> bool \<Rightarrow> words_range \<Rightarrow> nat" where
  "PB_LeftRight prevRange first currRange =
     (if first \<or> m_endPos prevRange \<le> m_startPos currRange then RT_R else RT_L)"

definition HB_MSD :: "int \<Rightarrow> nat" where
  "HB_MSD reoDistance = (if reoDistance = 1 then RT_M else if reoDistance = -1 then RT_S else RT_D)"

definition HB_MSLR :: "int \<Rightarrow> nat" where
  "HB_MSLR reoDistance =
     (if reoDistance = 1 then RT_M else if reoDistance = -1 then RT_S
      else if reoDistance > 1 then RT_DR else RT_DL)"

definition HB_Monotonic :: "int \<Rightarrow> nat" where
  "HB_Monotonic reoDistance = (if reoDistance = 1 then RT_M else RT_NM)"

definition HB_LeftRight :: "int \<Rightarrow> nat" where
  "HB_LeftRight reoDistance = (if reoDistance \<ge> 1 then RT_R else RT_L)"

definition HF_mono :: "words_range \<Rightarrow> words_range \<Rightarrow> words_bitmap \<Rightarrow> bool" where
  "HF_mono prevRange currRange coverage \<longleftrightarrow>
     m_startPos currRange > m_endPos prevRange \<and>
     (\<not> GetValue coverage (sz_add (m_endPos prevRange) 1) \<or>
      m_startPos currRange = sz_add (m_endPos prevRange) 1)"

definition HF_swap :: "words_range \<Rightarrow> words_range \<Rightarrow> words_bitmap \<Rightarrow> bool" where
  "HF_swap prevRange currRange coverage \<longleftrightarrow>
     m_endPos currRange < m_startPos prevRange \<and>
     (\<not> GetValue coverage (sz_sub (m_startPos prevRange) 1) \<or>
      m_endPos currRange = sz_sub (m_startPos prevRange) 1)"

definition HF_MSD :: "words_range \<Rightarrow> words_range \<Rightarrow> words_bitmap \<Rightarrow> nat" where
  "HF_MSD prevRange currRange coverage =
     (if HF_mono prevRange currRange coverage then RT_M
      else if HF_swap prevRange currRange coverage then RT_S else RT_D)"

definition HF_MSLR :: "words_range \<Rightarrow> words_range \<Rightarrow> words_bitmap \<Rightarrow> nat" where
  "HF_MSLR prevRange currRange coverage =
     (if HF_mono prevRange currRange coverage then RT_M
      else if HF_swap prevRange currRange coverage then RT_S
      else if m_startPos currRange > m_endPos prevRange then RT_DR else RT_DL)"

definition HF_Monotonic :: "words_range \<Rightarrow> words_range \<Rightarrow> words_bitmap \<Rightarrow> nat" where
  "HF_Monotonic prevRange currRange coverage =
     (if HF_mono prevRange currRange coverage then RT_M else RT_NM)"

definition HF_LeftRight :: "words_range \<Rightarrow> words_range \<Rightarrow> words_bitmap \<Rightarrow> nat" where
  "HF_LeftRight prevRange currRange coverage =
     (if m_startPos currRange > m_endPos prevRange then RT_R else RT_L)"

section \<open>Expanding and comparing states\<close>

definition PB_orientation :: "model_type \<Rightarrow> words_range \<Rightarrow> bool \<Rightarrow> words_range \<Rightarrow> nat" where
  "PB_orientation modelType =
     (if modelType = MSD then PB_MSD else if modelType = MSLR then PB_MSLR
      else if modelType = Monotonic then PB_Monotonic else PB_LeftRight)"

definition HB_orientation :: "model_type \<Rightarrow> int \<Rightarrow> nat" where
  "HB_orientation modelType =
     (if modelType = MSD then HB_MSD else if modelType = MSLR then HB_MSLR
      else if modelType = LeftRight then HB_LeftRight else HB_Monotonic)"

definition HF_orientation :: "model_type \<Rightarrow> words_range \<Rightarrow> words_range \<Rightarrow> words_bitmap \<Rightarrow> nat" where
  "HF_orientation modelType =
     (if modelType = MSD then HF_MSD else if modelType = MSLR then HF_MSLR
      else if modelType = Monotonic then HF_Monotonic else HF_LeftRight)"

fun Expand :: "lr_state \<Rightarrow> translation_option \<Rightarrow> scores \<Rightarrow> (lr_state \<times> scores) option" where
  "Expand (PhraseBasedReorderingState st prevRange first) topt scores =
     (let curr = GetSourceWordsRange topt;
          next_state = PhraseBasedReorderingState (base_next st topt) curr False
      in if m_direction st = Forward \<and> first then map_option (\<lambda>scores. (next_state, scores)) (ClearScores st scores)
         else map_option (\<lambda>scores. (next_state, scores))
                (CopyScores st scores topt
                  (PB_orientation (m_modelType (m_configuration st)) prevRange first curr)))"
| "Expand (BidirectionalReorderingState st backward forward) topt scores =
     (case Expand backward topt scores of
        None \<Rightarrow> None
      | Some (newbwd, scores) \<Rightarrow>
          (case Expand forward topt scores of
             None \<Rightarrow> None
           | Some (newfwd, scores) \<Rightarrow>
               Some (BidirectionalReorderingState
                       (base_init (m_configuration st) Bidirectional (m_offset st)) newbwd newfwd, scores)))"
| "Expand (HierarchicalReorderingBackwardState st reoStack) topt scores =
     (let (reoDistance, reoStack) = ShiftReduce reoStack (GetSourceWordsRange topt);
          next_state = HierarchicalReorderingBackwardState (base_next st topt) reoStack
      in map_option (\<lambda>scores. (next_state, scores))
           (CopyScores st scores topt (HB_orientation (m_modelType (m_configuration st)) reoDistance)))"
| "Expand (HierarchicalReorderingForwardState st first prevRange prevCoverage) topt scores =
     (let curr = GetSourceWordsRange topt;
          coverage = SetValueRange prevCoverage (m_startPos curr) (m_endPos curr) True;
          next_state = HierarchicalReorderingForwardState (base_next st topt) False curr coverage
      in if first then map_option (\<lambda>scores. (next_state, scores)) (ClearScores st scores)
         else map_option (\<lambda>scores. (next_state, scores))
                (CopyScores st scores topt
                  (HF_orientation (m_modelType (m_configuration st)) prevRange curr coverage)))"

fun StateCompare :: "lr_state \<Rightarrow> lr_state \<Rightarrow> int option" where
  "StateCompare (PhraseBasedReorderingState st r f) (PhraseBasedReorderingState st' r' f') =
     Some (if range_eq r r'
           then (if m_direction st = Forward then ComparePrevScores st (m_prevScore st') else 0)
           else if range_less r r' then -1 else 1)"
| "StateCompare (BidirectionalReorderingState st b f) (BidirectionalReorderingState st' b' f') =
     (case StateCompare b b' of
        None \<Rightarrow> None
      | Some c \<Rightarrow> if c < 0 then Some (-1) else if c > 0 then Some 1 else StateCompare f f')"
| "StateCompare (HierarchicalReorderingBackwardState st s) (HierarchicalReorderingBackwardState st' s') =
     Some (StackCompare s s')"
| "StateCompare (HierarchicalReorderingForwardState st f r c) (HierarchicalReorderingForwardState st' f' r' c') =
     Some (if range_eq r r' then ComparePrevScores st (m_prevScore st')
           else if range_less r r' then -1 else 1)"
| "StateCompare _ _ = None"

text \<open>\<open>LexicalReordering::Evaluate\<close>: a zero vector is filled by the state.\<close>

definition Evaluate :: "lr_config \<Rightarrow> lr_state \<Rightarrow> translation_option \<Rightarrow> (lr_state \<times> scores) option" where
  "Evaluate cfg prev topt = Expand prev topt (replicate (GetNumScoreComponents cfg) 0)"

datatype factor_mask = FactorMask (m_factorsF: "nat list") (m_factorsE: "nat list")

text \<open>The constructor of the feature: the factor masks it keeps, or the error it exits with.\<close>

definition LexicalReorderingInit ::
    "condition \<Rightarrow> nat list \<Rightarrow> nat list \<Rightarrow> string \<Rightarrow> nat \<Rightarrow> string + (lr_config \<times> factor_mask)" where
  "LexicalReorderingInit cond f_factors e_factors modelType numWeights =
     (case LexicalReorderingConfiguration cond modelType of
        Inl e \<Rightarrow> Inl e
      | Inr cfg \<Rightarrow>
          let useE = (m_condition cfg = CondFE \<or> m_condition cfg = CondE);
              useF = (m_condition cfg \<noteq> CondE)
          in if useE \<and> e_factors = [] then Inl ''TL factor mask for lexical reordering is unexpectedly empty''
             else if useF \<and> f_factors = [] then Inl ''SL factor mask for lexical reordering is unexpectedly empty''
             else if numWeights \<noteq> GetNumScoreComponents cfg then Inl ''Lexical reordering model: wrong number of weights''
             else Inr (cfg, FactorMask (if useF then f_factors else []) (if useE then e_factors else [])))"

section \<open>Blocks of scores\<close>

lemma GetNumberOfTypes_pos: "2 \<le> GetNumberOfTypes cfg"
  by (simp add: GetNumberOfTypes_def split: model_type.split)

lemma orientation_bound:
  assumes "m_modelType cfg \<noteq> NoModel"
  shows "PB_orientation (m_modelType cfg) p f c < GetNumberOfTypes cfg"
    "HB_orientation (m_modelType cfg) d < GetNumberOfTypes cfg"
    "HF_orientation (m_modelType cfg) p c b < GetNumberOfTypes cfg"
  using assms
  by (cases "m_modelType cfg"; simp add: GetNumberOfTypes_def PB_orientation_def HB_orientation_def
      HF_orientation_def PB_MSD_def PB_MSLR_def PB_Monotonic_def PB_LeftRight_def HB_MSD_def HB_MSLR_def
      HB_Monotonic_def HB_LeftRight_def HF_MSD_def HF_MSLR_def HF_Monotonic_def HF_LeftRight_def
      orientation_defs)+

lemma fill_zero_props:
  "length (fill_zero lo hi xs) = length xs"
  "i < length xs \<Longrightarrow> fill_zero lo hi xs ! i = (if lo \<le> i \<and> i < hi then 0 else xs ! i)"
proof -
  have "length (fold (\<lambda>i xs. xs[i := 0]) is xs) = length xs \<and>
      (\<forall>i < length xs. fold (\<lambda>i xs. xs[i := 0]) is xs ! i = (if i \<in> set is then 0 else xs ! i))" for "is"
    by (induction "is" arbitrary: xs) (auto simp: nth_list_update)
  from this [of "[lo..<hi]"] show "length (fill_zero lo hi xs) = length xs"
    "i < length xs \<Longrightarrow> fill_zero lo hi xs ! i = (if lo \<le> i \<and> i < hi then 0 else xs ! i)"
    by (auto simp: fill_zero_def)
qed

text \<open>A feature vector with a block of it replaced, and the block a direction writes: one value of the cached scores
  of a phrase at the place of the orientation, or what was there when the phrase has no cached scores.\<close>

definition put_block :: "nat \<Rightarrow> scores \<Rightarrow> scores \<Rightarrow> scores" where
  "put_block off block xs = take off xs @ block @ drop (off + length block) xs"

definition cfg_width :: "lr_config \<Rightarrow> nat" where
  "cfg_width cfg = (if m_collapseScores cfg then 1 else GetNumberOfTypes cfg)"

definition direction_scores :: "lr_config \<Rightarrow> nat \<Rightarrow> scores option \<Rightarrow> nat \<Rightarrow> scores \<Rightarrow> scores" where
  "direction_scores cfg off cached reoType old =
     (case cached of
        None \<Rightarrow> old
      | Some scoreSet \<Rightarrow>
          if m_collapseScores cfg then [scoreSet ! (off + reoType)]
          else (replicate (GetNumberOfTypes cfg) 0)[reoType := scoreSet ! (off + reoType)])"

lemma cfg_width_pos: "0 < cfg_width cfg"
  using GetNumberOfTypes_pos [of cfg] by (simp add: cfg_width_def)

lemma length_put_block [simp]: "off + length block \<le> length xs \<Longrightarrow> length (put_block off block xs) = length xs"
  by (simp add: put_block_def)

lemma put_block_same: "off + w \<le> length xs \<Longrightarrow> put_block off (take w (drop off xs)) xs = xs"
  by (simp add: put_block_def) (metis add.commute append_take_drop_id drop_drop)

lemma put_block_single: "off < length xs \<Longrightarrow> xs[off := v] = put_block off [v] xs"
  by (simp add: put_block_def upd_conv_take_nth_drop)

lemma fill_zero_block:
  assumes "off + w \<le> length xs"
  shows "fill_zero off (off + w) xs = put_block off (replicate w 0) xs"
proof (rule nth_equalityI)
  fix i assume i: "i < length (fill_zero off (off + w) xs)"
  then have l: "i < length xs" by (simp add: fill_zero_props)
  consider "i < off" | "off \<le> i" "i < off + w" | "off + w \<le> i" by linarith
  then show "fill_zero off (off + w) xs ! i = put_block off (replicate w 0) xs ! i"
    using assms l by cases (auto simp: fill_zero_props put_block_def nth_append)
qed (use assms in \<open>simp add: fill_zero_props\<close>)

lemma put_block_update:
  "k < length block \<Longrightarrow> off \<le> length xs \<Longrightarrow> (put_block off block xs)[off + k := v] = put_block off (block[k := v]) xs"
  by (simp add: put_block_def list_update_append)

lemma length_direction_scores [simp]:
  "length old = cfg_width cfg \<Longrightarrow> length (direction_scores cfg off cached o' old) = cfg_width cfg"
  by (simp add: direction_scores_def cfg_width_def split: option.split)

lemma CopyScores_block:
  assumes "m_configuration st = cfg" "m_offset st = off" "m_direction st = Backward \<or> m_direction st = Forward"
    "o' < GetNumberOfTypes cfg" "off + cfg_width cfg \<le> length xs"
    "cached = (if m_direction st = Backward then GetCachedScores topt else m_prevScore st)"
    "\<And>cs. cached = Some cs \<Longrightarrow> off + o' < length cs"
  shows "CopyScores st xs topt o' =
    Some (put_block off (direction_scores cfg off cached o' (take (cfg_width cfg) (drop off xs))) xs)"
proof (cases cached)
  case None
  then show ?thesis using assms put_block_same [of off "cfg_width cfg" xs]
    by (simp add: CopyScores_def direction_scores_def split: if_splits)
next
  case (Some cs)
  have r: "off + o' < length cs" using assms(7) Some by simp
  show ?thesis
  proof (cases "m_collapseScores cfg")
    case True
    have "off < length xs" using assms(5) True by (simp add: cfg_width_def)
    then show ?thesis using True assms(1-3) r Some [unfolded assms(6)] Some
      by (simp add: CopyScores_def direction_scores_def put_block_single)
  next
    case False
    have w: "off + GetNumberOfTypes cfg \<le> length xs" using assms(5) False by (simp add: cfg_width_def)
    have "CopyScores st xs topt o' = Some ((fill_zero off (off + GetNumberOfTypes cfg) xs)[off + o' := cs ! (off + o')])"
      using False assms(1-4) r w Some [unfolded assms(6)] by (simp add: CopyScores_def)
    then show ?thesis using False Some assms(4) w
      by (simp add: fill_zero_block put_block_update direction_scores_def)
  qed
qed

lemma ClearScores_block:
  assumes "m_configuration st = cfg" "m_offset st = off" "off + cfg_width cfg \<le> length xs"
  shows "ClearScores st xs = Some (put_block off (replicate (cfg_width cfg) 0) xs)"
  using assms by (cases "m_collapseScores cfg") (simp_all add: ClearScores_def cfg_width_def fill_zero_block put_block_single)

section \<open>The order of states\<close>

text \<open>The states one feature builds from the same configuration have one shape.\<close>

fun same_shape :: "lr_state \<Rightarrow> lr_state \<Rightarrow> bool" where
  "same_shape (PhraseBasedReorderingState st r f) (PhraseBasedReorderingState st' r' f') \<longleftrightarrow>
     m_configuration st = m_configuration st' \<and> m_direction st = m_direction st' \<and> m_offset st = m_offset st'"
| "same_shape (BidirectionalReorderingState st b f) (BidirectionalReorderingState st' b' f') \<longleftrightarrow>
     same_shape b b' \<and> same_shape f f'"
| "same_shape (HierarchicalReorderingBackwardState st s) (HierarchicalReorderingBackwardState st' s') \<longleftrightarrow> True"
| "same_shape (HierarchicalReorderingForwardState st f r c) (HierarchicalReorderingForwardState st' f' r' c') \<longleftrightarrow>
     m_configuration st = m_configuration st' \<and> m_offset st = m_offset st'"
| "same_shape _ _ \<longleftrightarrow> False"

definition state_cmp :: "lr_state \<Rightarrow> lr_state \<Rightarrow> int" where
  "state_cmp s t = (case StateCompare s t of None \<Rightarrow> 0 | Some c \<Rightarrow> c)"

lemma same_shape_compare: "same_shape s t \<Longrightarrow> same_shape s u \<Longrightarrow> \<exists>c. StateCompare t u = Some c"
proof (induction s arbitrary: t u)
  case (BidirectionalReorderingState st b f)
  obtain st' b' f' where t: "t = BidirectionalReorderingState st' b' f'" "same_shape b b'" "same_shape f f'"
    using BidirectionalReorderingState.prems(1) by (cases t) auto
  obtain st'' b'' f'' where u: "u = BidirectionalReorderingState st'' b'' f''" "same_shape b b''" "same_shape f f''"
    using BidirectionalReorderingState.prems(2) by (cases u) auto
  show ?case using BidirectionalReorderingState.IH(1) [OF t(2) u(2)] BidirectionalReorderingState.IH(2) [OF t(3) u(3)]
    by (auto simp: t u)
qed (case_tac t; case_tac u; simp)+

lemma three_way_scores: "three_way (\<lambda>xs. True) (compare_scores is)"
proof (induction "is")
  case Nil
  then show ?case using three_way_zero by (simp add: compare_scores.simps [abs_def])
next
  case (Cons i "is")
  have "compare_scores (i # is) = lex_cmp (\<lambda>xs ys. lin_cmp (xs ! i) (ys ! i)) (compare_scores is)"
    by (intro ext) (simp add: lex_cmp_def lin_cmp_def)
  moreover have "three_way (\<lambda>xs :: scores. True) (\<lambda>xs ys. lin_cmp (xs ! i) (ys ! i))"
    by (rule three_way_map [OF three_way_lin]) simp
  ultimately show ?case using three_way_lex Cons by metis
qed

fun state_range :: "lr_state \<Rightarrow> words_range" where
  "state_range (PhraseBasedReorderingState st r f) = r"
| "state_range (HierarchicalReorderingForwardState st f r c) = r"
| "state_range s = WordsRange 0 0"

fun state_prev_scores :: "lr_state \<Rightarrow> scores option" where
  "state_prev_scores (PhraseBasedReorderingState st r f) = m_prevScore st"
| "state_prev_scores (HierarchicalReorderingForwardState st f r c) = m_prevScore st"
| "state_prev_scores s = None"

fun state_stack :: "lr_state \<Rightarrow> words_range list" where
  "state_stack (HierarchicalReorderingBackwardState st s) = s"
| "state_stack s = []"

fun backward_part :: "lr_state \<Rightarrow> lr_state" where
  "backward_part (BidirectionalReorderingState st b f) = b"
| "backward_part s = s"

fun forward_part :: "lr_state \<Rightarrow> lr_state" where
  "forward_part (BidirectionalReorderingState st b f) = f"
| "forward_part s = s"

definition range_scores_cmp :: "nat list \<Rightarrow> lr_state \<Rightarrow> lr_state \<Rightarrow> int" where
  "range_scores_cmp is = lex_cmp (\<lambda>s t. lin_cmp (state_range s) (state_range t))
     (\<lambda>s t. null_last_cmp (compare_scores is) (state_prev_scores s) (state_prev_scores t))"

lemma three_way_range_scores: "three_way valid (range_scores_cmp is)"
  unfolding range_scores_cmp_def
proof (rule three_way_lex)
  show "three_way valid (\<lambda>s t. lin_cmp (state_range s) (state_range t))"
    by (rule three_way_map [OF three_way_lin]) simp
  show "three_way valid (\<lambda>s t. null_last_cmp (compare_scores is) (state_prev_scores s) (state_prev_scores t))"
    by (rule three_way_map [OF three_way_null_last [OF three_way_scores]]) simp
qed

lemma ComparePrevScores_null_last:
  "ComparePrevScores st other = null_last_cmp
     (compare_scores [m_offset st..<m_offset st + GetNumberOfTypes (m_configuration st)]) (m_prevScore st) other"
  by (simp add: ComparePrevScores_def null_last_cmp_def)

lemma range_cases_lin_cmp:
  "(if range_eq r x then c else if range_less r x then - 1 else 1) =
     lex_cmp (\<lambda>r x. lin_cmp r x) (\<lambda>r x. c) r x"
  using neq_iff [of r x]
  by (auto simp: lex_cmp_def lin_cmp_def range_eq_iff less_words_range_def)

lemma three_way_state: "three_way (same_shape s0) state_cmp"
proof (induction s0)
  case (PhraseBasedReorderingState st0 r0 f0)
  let ?w = "[m_offset st0..<m_offset st0 + GetNumberOfTypes (m_configuration st0)]"
  have "three_way (same_shape (PhraseBasedReorderingState st0 r0 f0))
      (if m_direction st0 = Forward then range_scores_cmp ?w
       else (\<lambda>s t. lin_cmp (state_range s) (state_range t)))"
    using three_way_range_scores three_way_map [where f = state_range, OF three_way_lin] by simp
  then show ?case
  proof (rule three_way_sgn_cong)
    fix s t assume st: "same_shape (PhraseBasedReorderingState st0 r0 f0) s"
      "same_shape (PhraseBasedReorderingState st0 r0 f0) t"
    then show "sgn (state_cmp s t) = sgn ((if m_direction st0 = Forward then range_scores_cmp ?w
       else (\<lambda>s t. lin_cmp (state_range s) (state_range t))) s t)"
      by (cases s; cases t) (auto simp: state_cmp_def range_scores_cmp_def ComparePrevScores_null_last
          range_cases_lin_cmp lex_cmp_def)
  qed
next
  case (BidirectionalReorderingState st0 b0 f0)
  let ?B = "same_shape (BidirectionalReorderingState st0 b0 f0)"
  have parts: "same_shape b0 (backward_part s)" "same_shape f0 (forward_part s)"
    "\<exists>st. s = BidirectionalReorderingState st (backward_part s) (forward_part s)" if "?B s" for s
    using that by (cases s; simp)+
  have "three_way ?B (lex_cmp (\<lambda>s t. state_cmp (backward_part s) (backward_part t))
      (\<lambda>s t. state_cmp (forward_part s) (forward_part t)))"
    using three_way_lex three_way_map [OF BidirectionalReorderingState(1)]
      three_way_map [OF BidirectionalReorderingState(2)] parts by blast
  then show ?case
  proof (rule three_way_sgn_cong)
    fix s t assume B: "?B s" "?B t"
    obtain c where c: "StateCompare (backward_part s) (backward_part t) = Some c"
      using same_shape_compare parts(1) B by blast
    obtain d where d: "StateCompare (forward_part s) (forward_part t) = Some d"
      using same_shape_compare parts(2) B by blast
    obtain st b f where s: "s = BidirectionalReorderingState st b f" using parts(3) [OF B(1)] by blast
    obtain st' b' f' where t: "t = BidirectionalReorderingState st' b' f'" using parts(3) [OF B(2)] by blast
    have "StateCompare s t = (if c < 0 then Some (-1) else if c > 0 then Some 1 else Some d)"
      using c d by (simp add: s t)
    then show "sgn (state_cmp s t) = sgn (lex_cmp (\<lambda>s t. state_cmp (backward_part s) (backward_part t))
      (\<lambda>s t. state_cmp (forward_part s) (forward_part t)) s t)"
      using c d by (auto simp: state_cmp_def lex_cmp_def sgn_if)
  qed
next
  case (HierarchicalReorderingBackwardState st0 stack0)
  have "three_way (same_shape (HierarchicalReorderingBackwardState st0 stack0))
      (\<lambda>s t. StackCompare (state_stack s) (state_stack t))"
    by (rule three_way_map [OF stack_order.three_way_axioms]) simp
  then show ?case
  proof (rule three_way_sgn_cong)
    fix s t assume "same_shape (HierarchicalReorderingBackwardState st0 stack0) s"
      "same_shape (HierarchicalReorderingBackwardState st0 stack0) t"
    then show "sgn (state_cmp s t) = sgn (StackCompare (state_stack s) (state_stack t))"
      by (cases s; cases t) (simp_all add: state_cmp_def)
  qed
next
  case (HierarchicalReorderingForwardState st0 f0 r0 c0)
  show ?case
  proof (rule three_way_sgn_cong [OF three_way_range_scores
        [of _ "[m_offset st0..<m_offset st0 + GetNumberOfTypes (m_configuration st0)]"]])
    fix s t assume "same_shape (HierarchicalReorderingForwardState st0 f0 r0 c0) s"
      "same_shape (HierarchicalReorderingForwardState st0 f0 r0 c0) t"
    then show "sgn (state_cmp s t) = sgn (range_scores_cmp
        [m_offset st0..<m_offset st0 + GetNumberOfTypes (m_configuration st0)] s t)"
      by (cases s; cases t) (auto simp: state_cmp_def range_scores_cmp_def ComparePrevScores_null_last
          range_cases_lin_cmp lex_cmp_def)
  qed
qed

interpretation reordering_order: three_way "same_shape s0" state_cmp for s0
  by (rule three_way_state)

section \<open>Reachable states\<close>

text \<open>The number of scores a reordering table keeps for a phrase pair: one for each orientation and direction.\<close>

definition table_scores :: "lr_config \<Rightarrow> nat" where
  "table_scores cfg = (if cfg_direction cfg = Bidirectional then 2 else 1) * GetNumberOfTypes cfg"

definition cached_ok :: "lr_config \<Rightarrow> scores option \<Rightarrow> bool" where
  "cached_ok cfg cached \<longleftrightarrow> (\<forall>cs. cached = Some cs \<longrightarrow> table_scores cfg \<le> length cs)"

text \<open>A state of one direction that writes its block at \<open>off\<close>.\<close>

fun one_way :: "lr_config \<Rightarrow> nat \<Rightarrow> lr_state \<Rightarrow> bool" where
  "one_way cfg off (PhraseBasedReorderingState st r f) \<longleftrightarrow> m_configuration st = cfg \<and> m_offset st = off \<and>
     (m_direction st = Backward \<or> m_direction st = Forward) \<and> cached_ok cfg (m_prevScore st)"
| "one_way cfg off (HierarchicalReorderingBackwardState st s) \<longleftrightarrow>
     m_configuration st = cfg \<and> m_offset st = off \<and> m_direction st = Backward \<and> cached_ok cfg (m_prevScore st)"
| "one_way cfg off (HierarchicalReorderingForwardState st f r c) \<longleftrightarrow>
     m_configuration st = cfg \<and> m_offset st = off \<and> m_direction st = Forward \<and> cached_ok cfg (m_prevScore st)"
| "one_way cfg off (BidirectionalReorderingState st b f) \<longleftrightarrow> False"

fun wf_state :: "lr_config \<Rightarrow> lr_state \<Rightarrow> bool" where
  "wf_state cfg (BidirectionalReorderingState st b f) \<longleftrightarrow>
     m_configuration st = cfg \<and> cfg_direction cfg = Bidirectional \<and> one_way cfg 0 b \<and> one_way cfg (cfg_width cfg) f"
| "wf_state cfg s \<longleftrightarrow> cfg_direction cfg \<noteq> Bidirectional \<and> one_way cfg 0 s"

lemma Create_wf: "wf_state cfg (CreateLexicalReorderingState cfg n)"
  by (simp add: CreateLexicalReorderingState_def Let_def base_init_def cfg_width_def cached_ok_def split: direction.split)

lemma cached_range:
  assumes "cached_ok cfg cached" "cached = Some cs" "o' < GetNumberOfTypes cfg"
    and "off = 0 \<or> off = cfg_width cfg \<and> cfg_direction cfg = Bidirectional"
  shows "off + o' < length cs"
  using assms GetNumberOfTypes_pos [of cfg]
  by (auto simp: cached_ok_def table_scores_def cfg_width_def split: if_splits)

lemma NumScoreComponents_width:
  "GetNumScoreComponents cfg = (if cfg_direction cfg = Bidirectional then cfg_width cfg + cfg_width cfg else cfg_width cfg)"
  by (simp add: GetNumScoreComponents_def cfg_width_def)

lemma Copy_some:
  assumes "m_configuration st = cfg" "m_offset st = off" "m_direction st = Backward \<or> m_direction st = Forward"
    and "o' < GetNumberOfTypes cfg" "off + cfg_width cfg \<le> length xs"
    and "cached_ok cfg (GetCachedScores topt)" "cached_ok cfg (m_prevScore st)"
    and "off = 0 \<or> off = cfg_width cfg \<and> cfg_direction cfg = Bidirectional"
  shows "\<exists>ys. CopyScores st xs topt o' = Some ys \<and> length ys = length xs"
proof -
  let ?c = "if m_direction st = Backward then GetCachedScores topt else m_prevScore st"
  have "cached_ok cfg ?c" using assms(6,7) by simp
  then have "off + o' < length cs" if "?c = Some cs" for cs using cached_range [OF _ that assms(4,8)] by simp
  from CopyScores_block [OF assms(1-5) refl this] show ?thesis using assms(5) by simp
qed

lemma one_way_Expand:
  assumes "one_way cfg off s" "m_modelType cfg \<noteq> NoModel" "cached_ok cfg (GetCachedScores topt)"
    and "off = 0 \<or> off = cfg_width cfg \<and> cfg_direction cfg = Bidirectional" "off + cfg_width cfg \<le> length xs"
  shows "\<exists>s' ys. Expand s topt xs = Some (s', ys) \<and> one_way cfg off s' \<and> length ys = length xs"
proof (cases s)
  case (PhraseBasedReorderingState st r f)
  then show ?thesis
    using assms ClearScores_block [of st cfg off xs]
      Copy_some [of st cfg off "PB_orientation (m_modelType cfg) r f (GetSourceWordsRange topt)" xs topt]
      orientation_bound(1) [OF assms(2)]
    by (cases "m_direction st = Forward \<and> f") (auto simp: Let_def base_next_def)
next
  case (HierarchicalReorderingBackwardState st stack)
  obtain d stack' where "ShiftReduce stack (GetSourceWordsRange topt) = (d, stack')" by fastforce
  then show ?thesis
    using assms HierarchicalReorderingBackwardState orientation_bound(2) [OF assms(2)]
      Copy_some [of st cfg off "HB_orientation (m_modelType cfg) d" xs topt]
    by (auto simp: Let_def base_next_def)
next
  case (HierarchicalReorderingForwardState st f r c)
  let ?curr = "GetSourceWordsRange topt"
  let ?cov = "SetValueRange c (m_startPos ?curr) (m_endPos ?curr) True"
  show ?thesis
    using assms HierarchicalReorderingForwardState ClearScores_block [of st cfg off xs]
      Copy_some [of st cfg off "HF_orientation (m_modelType cfg) r ?curr ?cov" xs topt]
      orientation_bound(3) [OF assms(2)]
    by (cases f) (auto simp: Let_def base_next_def)
qed (use assms in simp)

lemma one_way_Evaluate:
  assumes "one_way cfg 0 s" "cfg_direction cfg \<noteq> Bidirectional" "m_modelType cfg \<noteq> NoModel"
    and "cached_ok cfg (GetCachedScores topt)"
  shows "\<exists>s' xs. Evaluate cfg s topt = Some (s', xs) \<and> wf_state cfg s' \<and> length xs = GetNumScoreComponents cfg"
proof -
  obtain s' ys where s': "Expand s topt (replicate (GetNumScoreComponents cfg) 0) = Some (s', ys)" "one_way cfg 0 s'"
      "length ys = GetNumScoreComponents cfg"
    using one_way_Expand [OF assms(1,3,4), of "replicate (GetNumScoreComponents cfg) 0"] assms(2)
      NumScoreComponents_width [of cfg] by auto
  moreover have "wf_state cfg s'" using s'(2) assms(2) by (cases s') auto
  ultimately show ?thesis by (simp add: Evaluate_def)
qed

lemma Evaluate_wf:
  assumes "wf_state cfg s" "m_modelType cfg \<noteq> NoModel" "cached_ok cfg (GetCachedScores topt)"
  shows "\<exists>s' xs. Evaluate cfg s topt = Some (s', xs) \<and> wf_state cfg s' \<and> length xs = GetNumScoreComponents cfg"
proof (cases s)
  case (BidirectionalReorderingState st b f)
  let ?w = "cfg_width cfg" and ?zs = "replicate (GetNumScoreComponents cfg) (0 :: rat)"
  have s: "one_way cfg 0 b" "one_way cfg ?w f" "cfg_direction cfg = Bidirectional"
    using assms(1) BidirectionalReorderingState by simp_all
  obtain b' ys where b': "Expand b topt ?zs = Some (b', ys)" "one_way cfg 0 b'" "length ys = length ?zs"
    using one_way_Expand [OF s(1) assms(2,3), of ?zs] s(3) NumScoreComponents_width [of cfg] by auto
  obtain f' xs where f': "Expand f topt ys = Some (f', xs)" "one_way cfg ?w f'" "length xs = length ys"
    using one_way_Expand [OF s(2) assms(2,3), of ys] s(3) b'(3) NumScoreComponents_width [of cfg] by auto
  then show ?thesis
    using BidirectionalReorderingState assms(1) b' by (simp add: Evaluate_def base_init_def)
qed (use assms one_way_Evaluate [of cfg s topt] in auto)

section \<open>Orientations of different models\<close>

lemma top_block_ends:
  assumes "span_ok p" "span_ok t" "span_ok r" "positions p \<subseteq> positions t" "disjoint_spans t r"
  shows "m_endPos p + 1 = m_startPos r \<Longrightarrow> m_endPos t + 1 = m_startPos r"
    "m_endPos r + 1 = m_startPos p \<Longrightarrow> m_endPos r + 1 = m_startPos t"
proof -
  have sub: "m_startPos t \<le> m_startPos p" "m_endPos p \<le> m_endPos t"
    using assms(1,4) by (auto simp: positions_def span_ok_def)
  show "m_endPos p + 1 = m_startPos r \<Longrightarrow> m_endPos t + 1 = m_startPos r"
    "m_endPos r + 1 = m_startPos p \<Longrightarrow> m_endPos r + 1 = m_startPos t"
    using sub assms(1-3,5) by (auto simp: disjoint_spans_def span_ok_def)
qed

lemma top_block_ok:
  assumes "\<forall>x \<in> set (spans @ [r]). span_ok x" "sorted_wrt disjoint_spans (spans @ [r])" "spans \<noteq> []"
  shows "shift_all spans \<noteq> []" "span_ok (last (shift_all spans))"
    "positions (last spans) \<subseteq> positions (last (shift_all spans))"
    "disjoint_spans (last (shift_all spans)) r"
proof -
  have sa: "stack_ok (shift_all spans)" "stack_positions (shift_all spans) = stack_positions spans"
    "shift_all spans \<noteq> []" "positions (last spans) \<subseteq> positions (last (shift_all spans))"
    using shift_all_ok [of spans] assms by (simp_all add: sorted_wrt_append)
  show "shift_all spans \<noteq> []" "positions (last spans) \<subseteq> positions (last (shift_all spans))"
    using sa by simp_all
  have top: "last (shift_all spans) \<in> set (shift_all spans)" using sa(3) by simp
  then show ok: "span_ok (last (shift_all spans))" using sa(1) by (auto simp: stack_ok_def)
  have "positions (last (shift_all spans)) \<subseteq> stack_positions (shift_all spans)"
    using top unfolding stack_positions_def by blast
  then have "positions (last (shift_all spans)) \<subseteq> stack_positions spans" by (simp only: sa(2))
  moreover have "stack_positions spans \<inter> positions r = {}"
  proof -
    have "positions y \<inter> positions r = {}" if "y \<in> set spans" for y
    proof -
      have "span_ok y" "span_ok r" "disjoint_spans y r"
        using that assms(1,2) by (simp_all add: sorted_wrt_append)
      then show ?thesis by (simp only: disjoint_spans_positions)
    qed
    then show ?thesis unfolding stack_positions_def by blast
  qed
  ultimately have "positions (last (shift_all spans)) \<inter> positions r = {}" by blast
  then show "disjoint_spans (last (shift_all spans)) r"
    using disjoint_spans_positions [OF ok] assms(1) by simp
qed

lemma PB_MSD_span:
  assumes "span_ok p" "span_ok r"
  shows "PB_MSD p False r = RT_M \<longleftrightarrow> m_endPos p + 1 = m_startPos r"
    "PB_MSD p False r = RT_S \<Longrightarrow> m_endPos r + 1 = m_startPos p"
proof -
  have sub: "sz_sub (m_startPos r) 1 = (if m_startPos r = 0 then NOT_FOUND else m_startPos r - 1)"
    using assms(2) by (intro sz_sub_1) (auto simp: span_ok_def size_bound_def)
  have nf: "m_endPos p \<noteq> NOT_FOUND" using assms(1) by (auto simp: span_ok_def NOT_FOUND_def)
  have add: "sz_add (m_endPos r) 1 = m_endPos r + 1"
    using assms(2) by (intro sz_add_small) (auto simp: span_ok_def size_bound_def)
  have mono: "m_endPos p = sz_sub (m_startPos r) 1 \<longleftrightarrow> m_endPos p + 1 = m_startPos r"
    using sub nf by (cases "m_startPos r") simp_all
  show "PB_MSD p False r = RT_M \<longleftrightarrow> m_endPos p + 1 = m_startPos r"
    "PB_MSD p False r = RT_S \<Longrightarrow> m_endPos r + 1 = m_startPos p"
    unfolding PB_MSD_def if_False mono add by (auto simp only: orientation_defs split: if_splits)
qed

section \<open>The scores of a derivation\<close>

text \<open>An orientation is what the model distinguishes of a position next to, before or behind what was translated.\<close>

definition orientation :: "model_type \<Rightarrow> bool \<Rightarrow> bool \<Rightarrow> bool \<Rightarrow> nat" where
  "orientation model follows precedes later =
     (case model of
        MSD \<Rightarrow> if follows then RT_M else if precedes then RT_S else RT_D
      | MSLR \<Rightarrow> if follows then RT_M else if precedes then RT_S else if later then RT_DR else RT_DL
      | LeftRight \<Rightarrow> if later then RT_R else RT_L
      | _ \<Rightarrow> if follows then RT_M else RT_NM)"

text \<open>A phrase with respect to the block in front of it (the last of the blocks); the beginning of the sentence is a
  block to the left of the first phrase.\<close>

definition block_orientation :: "model_type \<Rightarrow> words_range list \<Rightarrow> words_range \<Rightarrow> nat" where
  "block_orientation model blocks r =
     (if blocks = [] then orientation model (m_startPos r = 0) False True
      else let p = last blocks
           in orientation model (m_endPos p + 1 = m_startPos r) (m_endPos r + 1 = m_startPos p) (m_endPos p < m_startPos r))"

text \<open>The hierarchical forward orientation of the last phrase: the next phrase is monotone when it is to the right and
  the word behind the last phrase has not been translated before, so that the two can end up in one block.\<close>

definition gap_orientation :: "model_type \<Rightarrow> words_range list \<Rightarrow> words_range \<Rightarrow> nat" where
  "gap_orientation model spans r =
     (let p = last spans
      in orientation model
           (m_endPos p < m_startPos r \<and> m_endPos p + 1 \<notin> stack_positions spans)
           (m_endPos r < m_startPos p \<and> m_startPos p - 1 \<notin> stack_positions spans)
           (m_endPos p < m_startPos r))"

lemma sz_sub_pred: "span_ok r \<Longrightarrow> sz_sub (m_startPos r) 1 = (if m_startPos r = 0 then NOT_FOUND else m_startPos r - 1)"
  by (intro sz_sub_1) (auto simp: span_ok_def size_bound_def)

lemma sz_add_succ: "span_ok r \<Longrightarrow> sz_add (m_endPos r) 1 = m_endPos r + 1"
  by (intro sz_add_small) (auto simp: span_ok_def size_bound_def)

lemma PB_first:
  assumes "m \<noteq> NoModel" "span_ok r"
  shows "PB_orientation m (WordsRange NOT_FOUND NOT_FOUND) True r = block_orientation m [] r"
proof -
  have "NOT_FOUND = sz_sub (m_startPos r) 1 \<longleftrightarrow> m_startPos r = 0"
    using assms(2) sz_sub_pred [OF assms(2)] by (auto simp: span_ok_def NOT_FOUND_def)
  then show ?thesis using assms(1)
    by (cases m) (auto simp: PB_orientation_def block_orientation_def orientation_def PB_MSD_def PB_MSLR_def
        PB_Monotonic_def PB_LeftRight_def)
qed

lemma PB_next:
  assumes "m \<noteq> NoModel" "span_ok (last ps)" "span_ok r" "disjoint_spans (last ps) r" "ps \<noteq> []"
  shows "PB_orientation m (last ps) False r = block_orientation m ps r"
proof -
  have mono: "m_endPos (last ps) = sz_sub (m_startPos r) 1 \<longleftrightarrow> m_endPos (last ps) + 1 = m_startPos r"
    using assms(2) sz_sub_pred [OF assms(3)] by (auto simp: span_ok_def NOT_FOUND_def)
  have swap: "m_startPos (last ps) = sz_add (m_endPos r) 1 \<longleftrightarrow> m_endPos r + 1 = m_startPos (last ps)"
    using sz_add_succ [OF assms(3)] by auto
  have "m_endPos (last ps) \<le> m_startPos r \<longleftrightarrow> m_endPos (last ps) < m_startPos r"
    using assms(2,3,4) by (auto simp: span_ok_def disjoint_spans_def)
  then show ?thesis using assms(1,5) mono swap
    by (cases m) (auto simp: PB_orientation_def block_orientation_def orientation_def PB_MSD_def PB_MSLR_def
        PB_Monotonic_def PB_LeftRight_def Let_def)
qed

lemma HB_blocks:
  assumes "m \<noteq> NoModel" "stack_ok blocks" "span_ok r" "\<forall>x \<in> set blocks. disjoint_spans x r"
  shows "HB_orientation m (fst (ShiftReduce blocks r)) = block_orientation m blocks r"
proof (cases "blocks = []")
  case True
  have "to_int32 (int (sz_add (m_startPos r) 1)) = int (m_startPos r) + 1"
    using assms(3) by (simp add: sz_add_small size_bound_def span_ok_def to_int32_small)
  then show ?thesis using True assms(1)
    by (cases m) (auto simp: ShiftReduce_def HB_orientation_def block_orientation_def orientation_def HB_MSD_def
        HB_MSLR_def HB_Monotonic_def HB_LeftRight_def)
next
  case False
  have top: "span_ok (last blocks)" "disjoint_spans (last blocks) r"
    using False assms(2,4) by (auto simp: stack_ok_def)
  note d = span_distance_1 [OF top(1) assms(3) top(2)]
  have r: "fst (ShiftReduce blocks r) = span_distance (last blocks) r" using False by (simp add: ShiftReduce_def Let_def)
  have gt: "span_distance (last blocks) r > 1 \<longleftrightarrow> span_distance (last blocks) r > 0 \<and> span_distance (last blocks) r \<noteq> 1"
    by linarith
  have ge: "span_distance (last blocks) r \<ge> 1 \<longleftrightarrow> span_distance (last blocks) r > 0" by linarith
  show ?thesis unfolding r using False assms(1)
    by (cases m) (simp_all add: HB_orientation_def block_orientation_def orientation_def HB_MSD_def
        HB_MSLR_def HB_Monotonic_def HB_LeftRight_def Let_def gt ge d)
qed

lemma HF_spans:
  assumes "m \<noteq> NoModel" "spans \<noteq> []" "span_ok (last spans)" "span_ok r" "disjoint_spans (last spans) r"
    and "wf_bitmap c" "m_endPos (last spans) < m_size c" "m_endPos r < m_size c"
    and "covered c = stack_positions spans \<union> positions r" "stack_positions spans \<inter> positions r = {}"
  shows "HF_orientation m (last spans) r c = gap_orientation m spans r"
proof -
  let ?p = "last spans"
  have fresh: "m_startPos r \<notin> stack_positions spans" "m_endPos r \<notin> stack_positions spans"
    using assms(4,10) by (auto simp: positions_def span_ok_def)
  have add: "sz_add (m_endPos ?p) 1 = m_endPos ?p + 1" by (rule sz_add_succ [OF assms(3)])
  have mono: "HF_mono ?p r c \<longleftrightarrow> m_endPos ?p < m_startPos r \<and> m_endPos ?p + 1 \<notin> stack_positions spans"
  proof (cases "m_endPos ?p < m_startPos r")
    case True
    then have "m_endPos ?p + 1 < m_size c" using assms(4,8) by (auto simp: span_ok_def)
    then have "GetValue c (m_endPos ?p + 1) \<longleftrightarrow> m_endPos ?p + 1 \<in> stack_positions spans \<union> positions r"
      using GetValue_covered assms(9) by blast
    then show ?thesis using True fresh add by (auto simp: HF_mono_def positions_def)
  qed (simp add: HF_mono_def)
  have swap: "HF_swap ?p r c \<longleftrightarrow> m_endPos r < m_startPos ?p \<and> m_startPos ?p - 1 \<notin> stack_positions spans"
  proof (cases "m_endPos r < m_startPos ?p")
    case True
    have s: "sz_sub (m_startPos ?p) 1 = m_startPos ?p - 1" using True sz_sub_pred [OF assms(3)] by simp
    have "m_startPos ?p - 1 < m_size c" using assms(3,7) by (auto simp: span_ok_def)
    then have "GetValue c (m_startPos ?p - 1) \<longleftrightarrow> m_startPos ?p - 1 \<in> stack_positions spans \<union> positions r"
      using GetValue_covered assms(9) by blast
    then show ?thesis using True fresh s by (auto simp: HF_swap_def positions_def)
  qed (simp add: HF_swap_def)
  show ?thesis using assms(1) unfolding gap_orientation_def Let_def mono [symmetric] swap [symmetric]
    by (cases m) (simp_all add: HF_orientation_def orientation_def HF_MSD_def HF_MSLR_def HF_Monotonic_def HF_LeftRight_def)
qed

text \<open>What the two directions write for a phrase translated after others, and the whole feature vector. The forward
  direction scores the phrase before with the orientation of the new one, and the first phrase of a derivation has none.\<close>

definition spans_of :: "translation_option list \<Rightarrow> words_range list" where
  "spans_of = map GetSourceWordsRange"

definition backward_scores :: "lr_config \<Rightarrow> translation_option list \<Rightarrow> translation_option \<Rightarrow> scores \<Rightarrow> scores" where
  "backward_scores cfg ts topt old =
     direction_scores cfg 0 (GetCachedScores topt)
       (block_orientation (m_modelType cfg) (if m_phraseBased cfg then spans_of ts else shift_all (spans_of ts))
         (GetSourceWordsRange topt)) old"

definition forward_scores ::
    "lr_config \<Rightarrow> nat \<Rightarrow> translation_option list \<Rightarrow> translation_option \<Rightarrow> scores \<Rightarrow> scores" where
  "forward_scores cfg off ts topt old =
     (if ts = [] then replicate (cfg_width cfg) 0
      else direction_scores cfg off (GetCachedScores (last ts))
             ((if m_phraseBased cfg then block_orientation else gap_orientation) (m_modelType cfg) (spans_of ts)
               (GetSourceWordsRange topt)) old)"

definition derivation_scores :: "lr_config \<Rightarrow> translation_option list \<Rightarrow> translation_option \<Rightarrow> scores \<Rightarrow> scores" where
  "derivation_scores cfg ts topt xs =
     (let w = cfg_width cfg
      in case cfg_direction cfg of
           Backward \<Rightarrow> backward_scores cfg ts topt xs
         | Forward \<Rightarrow> forward_scores cfg 0 ts topt xs
         | Bidirectional \<Rightarrow> backward_scores cfg ts topt (take w xs) @ forward_scores cfg w ts topt (drop w xs))"

text \<open>The options of a derivation: disjoint spans of the sentence, and cached scores as long as the table has them.\<close>

definition derivation_ok :: "lr_config \<Rightarrow> nat \<Rightarrow> translation_option list \<Rightarrow> bool" where
  "derivation_ok cfg n ts \<longleftrightarrow> n < 2 ^ 31 \<and>
     (\<forall>t \<in> set ts. m_startPos (GetSourceWordsRange t) \<le> m_endPos (GetSourceWordsRange t) \<and>
        m_endPos (GetSourceWordsRange t) < n \<and> cached_ok cfg (GetCachedScores t)) \<and>
     sorted_wrt disjoint_spans (spans_of ts)"

definition EvaluateAll :: "lr_config \<Rightarrow> nat \<Rightarrow> translation_option list \<Rightarrow> lr_state option" where
  "EvaluateAll cfg n ts =
     fold (\<lambda>t s. Option.bind s (\<lambda>s. map_option fst (Evaluate cfg s t))) ts (Some (CreateLexicalReorderingState cfg n))"

text \<open>The states after a derivation.\<close>

definition prev_cached :: "translation_option list \<Rightarrow> scores option" where
  "prev_cached ts = (if ts = [] then None else GetCachedScores (last ts))"

definition prev_span :: "translation_option list \<Rightarrow> words_range" where
  "prev_span ts = (if ts = [] then WordsRange NOT_FOUND NOT_FOUND else GetSourceWordsRange (last ts))"

definition base_of :: "lr_config \<Rightarrow> direction \<Rightarrow> nat \<Rightarrow> translation_option list \<Rightarrow> lr_base" where
  "base_of cfg dir off ts = (base_init cfg dir off)\<lparr>m_prevScore := prev_cached ts\<rparr>"

definition coverage_of :: "nat \<Rightarrow> translation_option list \<Rightarrow> words_bitmap" where
  "coverage_of n ts = fold (\<lambda>r b. SetValueRange b (m_startPos r) (m_endPos r) True) (spans_of ts) (BitmapInit n)"

definition backward_after :: "lr_config \<Rightarrow> translation_option list \<Rightarrow> lr_state" where
  "backward_after cfg ts =
     (if m_phraseBased cfg then PhraseBasedReorderingState (base_of cfg Backward 0 ts) (prev_span ts) (ts = [])
      else HierarchicalReorderingBackwardState (base_of cfg Backward 0 ts) (shift_all (spans_of ts)))"

definition forward_after :: "lr_config \<Rightarrow> nat \<Rightarrow> nat \<Rightarrow> translation_option list \<Rightarrow> lr_state" where
  "forward_after cfg n off ts =
     (if m_phraseBased cfg then PhraseBasedReorderingState (base_of cfg Forward off ts) (prev_span ts) (ts = [])
      else HierarchicalReorderingForwardState (base_of cfg Forward off ts) (ts = []) (prev_span ts) (coverage_of n ts))"

definition state_after :: "lr_config \<Rightarrow> nat \<Rightarrow> translation_option list \<Rightarrow> lr_state" where
  "state_after cfg n ts =
     (case cfg_direction cfg of
        Backward \<Rightarrow> backward_after cfg ts
      | Forward \<Rightarrow> forward_after cfg n 0 ts
      | Bidirectional \<Rightarrow> BidirectionalReorderingState (base_init cfg Bidirectional 0) (backward_after cfg ts)
          (forward_after cfg n (cfg_width cfg) ts))"

lemmas after_defs = base_of_def base_init_def base_next_def prev_cached_def prev_span_def coverage_of_def spans_of_def

lemma Create_after: "CreateLexicalReorderingState cfg n = state_after cfg n []"
  by (simp add: CreateLexicalReorderingState_def state_after_def backward_after_def forward_after_def after_defs
      shift_all_def cfg_width_def Let_def split: direction.split)

lemma derivation_spans:
  assumes "derivation_ok cfg n (ts @ [topt])"
  shows "span_ok (GetSourceWordsRange topt)" "\<forall>x \<in> set (spans_of ts). span_ok x"
    "\<forall>x \<in> set (spans_of ts). disjoint_spans x (GetSourceWordsRange topt)"
    "sorted_wrt disjoint_spans (spans_of ts)" "stack_positions (spans_of ts) \<inter> positions (GetSourceWordsRange topt) = {}"
proof -
  show ok: "span_ok (GetSourceWordsRange topt)" "\<forall>x \<in> set (spans_of ts). span_ok x"
    using assms by (auto simp: derivation_ok_def span_ok_def spans_of_def)
  show dis: "\<forall>x \<in> set (spans_of ts). disjoint_spans x (GetSourceWordsRange topt)"
      "sorted_wrt disjoint_spans (spans_of ts)"
    using assms by (simp_all add: derivation_ok_def spans_of_def sorted_wrt_append)
  show "stack_positions (spans_of ts) \<inter> positions (GetSourceWordsRange topt) = {}"
    using ok dis(1) disjoint_spans_positions by (auto simp: stack_positions_def)
qed

lemma coverage_of_props:
  assumes "derivation_ok cfg n ts"
  shows "wf_bitmap (coverage_of n ts) \<and> m_size (coverage_of n ts) = n \<and> covered (coverage_of n ts) = stack_positions (spans_of ts)"
  using assms
proof (induction ts rule: rev_induct)
  case (snoc t ts)
  have "derivation_ok cfg n ts" "m_endPos (GetSourceWordsRange t) < n"
    using snoc.prems by (auto simp: derivation_ok_def spans_of_def sorted_wrt_append)
  moreover have "coverage_of n (ts @ [t]) = SetValueRange (coverage_of n ts) (m_startPos (GetSourceWordsRange t)) (m_endPos (GetSourceWordsRange t)) True"
    by (simp add: coverage_of_def spans_of_def)
  ultimately show ?case using snoc.IH
    by (auto simp: SetValueRange_props stack_positions_def spans_of_def positions_def)
qed (simp add: coverage_of_def spans_of_def stack_positions_def derivation_ok_def)

lemma blocks_fresh:
  assumes "derivation_ok cfg n (ts @ [topt])"
  shows "stack_ok (shift_all (spans_of ts))"
    "\<forall>x \<in> set (shift_all (spans_of ts)). disjoint_spans x (GetSourceWordsRange topt)"
proof -
  note sp = derivation_spans [OF assms]
  have st: "stack_ok (shift_all (spans_of ts))" "stack_positions (shift_all (spans_of ts)) = stack_positions (spans_of ts)"
    using shift_all_ok [OF sp(2,4)] by simp_all
  show "stack_ok (shift_all (spans_of ts))" by (rule st(1))
  show "\<forall>x \<in> set (shift_all (spans_of ts)). disjoint_spans x (GetSourceWordsRange topt)"
  proof
    fix x assume x: "x \<in> set (shift_all (spans_of ts))"
    then have "positions x \<subseteq> stack_positions (spans_of ts)" unfolding st(2) [symmetric] by (auto simp: stack_positions_def)
    then show "disjoint_spans x (GetSourceWordsRange topt)"
      using x st(1) sp(1,5) disjoint_spans_positions by (auto simp: stack_ok_def)
  qed
qed

lemma last_spans_of: "ts \<noteq> [] \<Longrightarrow> last (spans_of ts) = GetSourceWordsRange (last ts)" "spans_of ts = [] \<longleftrightarrow> ts = []"
  by (simp_all add: spans_of_def last_map)

lemma base_of_simps [simp]:
  "m_configuration (base_of cfg dir off ts) = cfg" "m_direction (base_of cfg dir off ts) = dir"
  "m_offset (base_of cfg dir off ts) = off" "m_prevScore (base_of cfg dir off ts) = prev_cached ts"
  "base_next (base_of cfg dir off ts) topt = base_of cfg dir off (ts @ [topt])"
  by (simp_all add: after_defs)

lemma prev_span_snoc [simp]: "prev_span (ts @ [topt]) = GetSourceWordsRange topt" "prev_span [topt] = GetSourceWordsRange topt"
  by (simp_all add: prev_span_def)

lemma PB_after:
  assumes "derivation_ok cfg n (ts @ [topt])" "m \<noteq> NoModel"
  shows "PB_orientation m (prev_span ts) (ts = []) (GetSourceWordsRange topt) =
    block_orientation m (spans_of ts) (GetSourceWordsRange topt)"
proof (cases "ts = []")
  case True
  then show ?thesis using PB_first [OF assms(2) derivation_spans(1) [OF assms(1)]] by (simp add: prev_span_def spans_of_def)
next
  case False
  then have "last (spans_of ts) \<in> set (spans_of ts)" using last_spans_of(2) last_in_set by blast
  then show ?thesis using False derivation_spans [OF assms(1)] PB_next [OF assms(2), of "spans_of ts"] last_spans_of [of ts]
    by (simp add: prev_span_def)
qed

lemma prev_cached_ok: "derivation_ok cfg n (ts @ us) \<Longrightarrow> cached_ok cfg (prev_cached ts)"
  by (cases ts rule: rev_cases) (auto simp: prev_cached_def derivation_ok_def cached_ok_def)

lemma backward_Expand:
  assumes ok: "derivation_ok cfg n (ts @ [topt])" and "m_modelType cfg \<noteq> NoModel" "cfg_width cfg \<le> length xs"
  shows "Expand (backward_after cfg ts) topt xs = Some (backward_after cfg (ts @ [topt]),
    put_block 0 (backward_scores cfg ts topt (take (cfg_width cfg) xs)) xs)"
proof -
  let ?r = "GetSourceWordsRange topt" and ?b = "base_of cfg Backward 0 ts"
  have c: "cached_ok cfg (GetCachedScores topt)" using ok by (simp add: derivation_ok_def)
  have copy: "CopyScores ?b xs topt o' =
      Some (put_block 0 (direction_scores cfg 0 (GetCachedScores topt) o' (take (cfg_width cfg) xs)) xs)"
    if "o' < GetNumberOfTypes cfg" for o'
    using CopyScores_block [of ?b cfg 0 o' xs _ topt, OF _ _ _ that _ refl] cached_range [OF c _ that, of _ 0] assms(3)
    by simp
  show ?thesis
  proof (cases "m_phraseBased cfg")
    case True
    then show ?thesis using copy [OF orientation_bound(1) [OF assms(2)], of "prev_span ts" "ts = []" ?r] PB_after [OF ok assms(2)]
      by (simp add: backward_after_def backward_scores_def Let_def)
  next
    case False
    have d: "HB_orientation (m_modelType cfg) (fst (ShiftReduce (shift_all (spans_of ts)) ?r)) =
        block_orientation (m_modelType cfg) (shift_all (spans_of ts)) ?r"
      by (rule HB_blocks [OF assms(2) blocks_fresh(1) [OF ok] derivation_spans(1) [OF ok] blocks_fresh(2) [OF ok]])
    have st: "shift_all (spans_of (ts @ [topt])) = snd (ShiftReduce (shift_all (spans_of ts)) ?r)"
      by (simp add: shift_all_def spans_of_def)
    show ?thesis using False copy [OF orientation_bound(2) [OF assms(2)], of "fst (ShiftReduce (shift_all (spans_of ts)) ?r)"] d
      by (auto simp: backward_after_def backward_scores_def st Let_def split: prod.split)
  qed
qed

lemma forward_Expand:
  assumes ok: "derivation_ok cfg n (ts @ [topt])" and "m_modelType cfg \<noteq> NoModel" "off + cfg_width cfg \<le> length xs"
    and off: "off = 0 \<or> off = cfg_width cfg \<and> cfg_direction cfg = Bidirectional"
  shows "Expand (forward_after cfg n off ts) topt xs = Some (forward_after cfg n off (ts @ [topt]),
    put_block off (forward_scores cfg off ts topt (take (cfg_width cfg) (drop off xs))) xs)"
proof -
  let ?r = "GetSourceWordsRange topt" and ?b = "base_of cfg Forward off ts"
  have clear: "ClearScores ?b xs = Some (put_block off (replicate (cfg_width cfg) 0) xs)"
    by (rule ClearScores_block) (use assms(3) in simp_all)
  have copy: "CopyScores ?b xs topt o' = Some (put_block off
      (direction_scores cfg off (GetCachedScores (last ts)) o' (take (cfg_width cfg) (drop off xs))) xs)"
    if "o' < GetNumberOfTypes cfg" "ts \<noteq> []" for o'
    using CopyScores_block [of ?b cfg off o' xs _ topt, OF _ _ _ that(1) _ refl]
      cached_range [OF prev_cached_ok [OF ok] _ that(1) off] assms(3) that(2)
    by (simp add: prev_cached_def)
  have cov: "SetValueRange (coverage_of n ts) (m_startPos ?r) (m_endPos ?r) True = coverage_of n (ts @ [topt])"
    by (simp add: coverage_of_def spans_of_def)
  show ?thesis
  proof (cases "ts = []")
    case True
    then show ?thesis using clear cov by (simp add: forward_after_def forward_scores_def Let_def)
  next
    case False
    show ?thesis
    proof (cases "m_phraseBased cfg")
      case True
      then show ?thesis using False copy [OF orientation_bound(1) [OF assms(2)], of "prev_span ts" "ts = []" ?r] PB_after [OF ok assms(2)]
        by (simp add: forward_after_def forward_scores_def Let_def)
    next
      case phrase: False
      note sp = derivation_spans [OF ok]
      have last: "last (spans_of ts) \<in> set (spans_of ts)" using False last_spans_of(2) last_in_set by blast
      note cp = coverage_of_props [OF ok]
      have "HF_orientation (m_modelType cfg) (last (spans_of ts)) ?r (coverage_of n (ts @ [topt])) =
          gap_orientation (m_modelType cfg) (spans_of ts) ?r"
      proof (rule HF_spans [OF assms(2)])
        show "spans_of ts \<noteq> []" "span_ok (last (spans_of ts))" "span_ok ?r" "disjoint_spans (last (spans_of ts)) ?r"
          using False last sp last_spans_of(2) by auto
        show "wf_bitmap (coverage_of n (ts @ [topt]))" using cp by simp
        show "m_endPos (last (spans_of ts)) < m_size (coverage_of n (ts @ [topt]))"
          "m_endPos ?r < m_size (coverage_of n (ts @ [topt]))"
          using cp ok False last_spans_of(1) [of ts] by (auto simp: derivation_ok_def)
        show "covered (coverage_of n (ts @ [topt])) = stack_positions (spans_of ts) \<union> positions ?r"
          using cp by (auto simp: stack_positions_def spans_of_def)
        show "stack_positions (spans_of ts) \<inter> positions ?r = {}" by (rule sp(5))
      qed
      then show ?thesis using False phrase last_spans_of(1) [OF False] cov
          copy [OF orientation_bound(3) [OF assms(2)], of "prev_span ts" ?r "coverage_of n (ts @ [topt])"]
        by (simp add: forward_after_def forward_scores_def Let_def prev_span_def [of ts])
    qed
  qed
qed

lemma derivation_Expand:
  assumes ok: "derivation_ok cfg n (ts @ [topt])" and m: "m_modelType cfg \<noteq> NoModel"
    and xs: "length xs = GetNumScoreComponents cfg"
  shows "Expand (state_after cfg n ts) topt xs =
    Some (state_after cfg n (ts @ [topt]), derivation_scores cfg ts topt xs)"
proof (cases "cfg_direction cfg")
  case Bidirectional
  let ?w = "cfg_width cfg"
  let ?bs = "backward_scores cfg ts topt (take ?w xs)"
  have len: "length xs = ?w + ?w" using xs Bidirectional by (simp add: NumScoreComponents_width)
  have bs: "length ?bs = ?w" using len by (simp add: backward_scores_def)
  have ys: "put_block 0 ?bs xs = ?bs @ drop ?w xs" using bs by (simp add: put_block_def)
  have "take ?w (drop ?w (?bs @ drop ?w xs)) = drop ?w xs" using len bs by simp
  moreover have "length (forward_scores cfg ?w ts topt (drop ?w xs)) = ?w"
    using len by (simp add: forward_scores_def)
  ultimately show ?thesis
    using backward_Expand [OF ok m, of xs] forward_Expand [OF ok m, of ?w "?bs @ drop ?w xs"] Bidirectional len bs ys
    by (simp add: state_after_def derivation_scores_def put_block_def base_init_def Let_def)
next
  case Backward
  then show ?thesis using backward_Expand [OF ok m, of xs] xs
    by (simp add: state_after_def derivation_scores_def NumScoreComponents_width put_block_def backward_scores_def)
next
  case Forward
  then show ?thesis using forward_Expand [OF ok m, of 0 xs] xs
    by (simp add: state_after_def derivation_scores_def NumScoreComponents_width put_block_def forward_scores_def)
qed

lemma EvaluateAll_after: "derivation_ok cfg n ts \<Longrightarrow> m_modelType cfg \<noteq> NoModel \<Longrightarrow> EvaluateAll cfg n ts = Some (state_after cfg n ts)"
proof (induction ts rule: rev_induct)
  case (snoc t ts)
  have "derivation_ok cfg n ts" using snoc.prems(1) by (auto simp: derivation_ok_def spans_of_def sorted_wrt_append)
  then show ?case using snoc derivation_Expand [OF snoc.prems, of "replicate (GetNumScoreComponents cfg) 0"]
    by (simp add: EvaluateAll_def Evaluate_def)
qed (simp add: EvaluateAll_def Create_after)

section \<open>Properties\<close>

text \<open>C33: The hierarchical model generalises the phrase-based one: for every sequence of disjoint
  spans, a phrase the phrase-based backward model calls monotone (swapped) with respect to the
  previous phrase is monotone (swapped) with respect to the block on top of the shift-reduce
  stack.\<close>

theorem hierarchical_generalises_phrase_based:
  assumes "\<forall>x \<in> set (spans @ [r]). span_ok x" "sorted_wrt disjoint_spans (spans @ [r])" "spans \<noteq> []"
  shows "(PB_MSD (last spans) False r = RT_M \<longrightarrow> HB_MSD (fst (ShiftReduce (shift_all spans) r)) = RT_M) \<and>
    (PB_MSD (last spans) False r = RT_S \<longrightarrow> HB_MSD (fst (ShiftReduce (shift_all spans) r)) = RT_S)"
proof -
  note top = top_block_ok [OF assms]
  let ?t = "last (shift_all spans)" and ?p = "last spans"
  have ok: "span_ok ?p" "span_ok r" using assms by simp_all
  have dst: "fst (ShiftReduce (shift_all spans) r) = span_distance ?t r"
    using top(1) by (simp add: ShiftReduce_def Let_def)
  note sd = span_distance_1 [OF top(2) ok(2) top(4)]
  note ends = top_block_ends [OF ok(1) top(2) ok(2) top(3,4)]
  show ?thesis
    unfolding dst using PB_MSD_span [OF ok] ends sd by (auto simp: HB_MSD_def)
qed

theorem hierarchical_generalises_phrase_based_witness:
  "HB_MSD (fst (ShiftReduce (shift_all [WordsRange 3 4, WordsRange 0 1]) (WordsRange 2 2))) = RT_M"
proof -
  have "span_ok (WordsRange 0 1)" "span_ok (WordsRange 2 2)" by (simp_all add: span_ok_def)
  then have "PB_MSD (last [WordsRange 3 4, WordsRange 0 1]) False (WordsRange 2 2) = RT_M"
    by (simp add: PB_MSD_span)
  then show ?thesis
    using hierarchical_generalises_phrase_based [of "[WordsRange 3 4, WordsRange 0 1]" "WordsRange 2 2"]
    by (simp add: span_ok_def disjoint_spans_def)
qed

text \<open>The orientation models agree: the four-way model refines the three-way model (both
  discontinuous orientations become one) and the monotonicity model is the three-way model with
  swap and discontinuous merged, for the phrase-based, the hierarchical backward and the
  hierarchical forward state.\<close>

theorem orientation_models_refine:
  assumes "first \<longrightarrow> prev = WordsRange NOT_FOUND NOT_FOUND" "m_startPos r < NOT_FOUND"
  shows "PB_MSD prev first r = min 2 (PB_MSLR prev first r) \<and>
    HB_MSD d = min 2 (HB_MSLR d) \<and> HF_MSD prev r c = min 2 (HF_MSLR prev r c) \<and>
    PB_Monotonic prev first r = min 1 (PB_MSD prev first r) \<and>
    HB_Monotonic d = min 1 (HB_MSD d) \<and> HF_Monotonic prev r c = min 1 (HF_MSD prev r c)"
proof -
  have "sz_sub (m_startPos r) 1 = NOT_FOUND \<longleftrightarrow> m_startPos r = 0"
    using assms(2) sz_sub_1 [of "m_startPos r"] by (auto simp: size_bound_def NOT_FOUND_def split: if_splits)
  then show ?thesis using assms(1)
    by (auto simp: PB_MSD_def PB_MSLR_def PB_Monotonic_def HB_MSD_def HB_MSLR_def HB_Monotonic_def
        HF_MSD_def HF_MSLR_def HF_Monotonic_def orientation_defs)
qed

theorem orientation_models_refine_witness:
  "PB_MSD (WordsRange NOT_FOUND NOT_FOUND) True (WordsRange 2 3) =
     min 2 (PB_MSLR (WordsRange NOT_FOUND NOT_FOUND) True (WordsRange 2 3))"
  using orientation_models_refine [of True "WordsRange NOT_FOUND NOT_FOUND" "WordsRange 2 3"]
  by (simp add: NOT_FOUND_def)

text \<open>C36: The scores of a phrase are exactly these: after the phrases of any derivation (disjoint spans of the sentence,
  cached scores of the length of the table), the feature fills a vector with the backward block, the cached score of the
  phrase for its orientation towards the phrase before it (phrase-based) or the block before it (hierarchical), and the
  forward block, the cached score of the phrase before it, zero for the first phrase; all other scores of a block with
  cached scores are zero, a block without cached scores is left as it was, and no access is out of range. The value of a
  block at \<open>off\<close> for orientation \<open>o\<close> is the cached score at \<open>off + o\<close>, which with collapsed scores is not the forward
  one for the forward block (\<open>collapsed_forward_reads_backward_score\<close>).\<close>

theorem reordering_scores_one_per_direction:
  assumes "derivation_ok cfg n (ts @ [topt])" "m_modelType cfg \<noteq> NoModel"
  shows "\<exists>s s'. EvaluateAll cfg n ts = Some s \<and>
    Evaluate cfg s topt = Some (s', derivation_scores cfg ts topt (replicate (GetNumScoreComponents cfg) 0)) \<and>
    (\<forall>xs. length xs = GetNumScoreComponents cfg \<longrightarrow> Expand s topt xs = Some (s', derivation_scores cfg ts topt xs))"
proof -
  have "derivation_ok cfg n ts" using assms(1) by (auto simp: derivation_ok_def spans_of_def sorted_wrt_append)
  then have "EvaluateAll cfg n ts = Some (state_after cfg n ts)" by (rule EvaluateAll_after [OF _ assms(2)])
  then show ?thesis using derivation_Expand [OF assms] by (simp add: Evaluate_def)
qed

definition example_config :: "bool \<Rightarrow> lr_config" where
  "example_config collapse =
     \<lparr>m_modelType = MSD, m_phraseBased = True, m_collapseScores = collapse,
      cfg_direction = Bidirectional, m_condition = CondFE\<rparr>"

theorem reordering_scores_one_per_direction_witness:
  "\<exists>s s'. EvaluateAll (example_config False) 3
      [\<lparr>GetSourceWordsRange = WordsRange 1 2, GetCachedScores = Some [-1, -2, -3, -4, -5, -6]\<rparr>] = Some s \<and>
    Evaluate (example_config False) s
      \<lparr>GetSourceWordsRange = WordsRange 0 0, GetCachedScores = Some [-7, -8, -9, -10, -11, -12]\<rparr> =
      Some (s', [0, -8, 0, 0, -5, 0])"
proof -
  let ?t = "\<lparr>GetSourceWordsRange = WordsRange 1 2, GetCachedScores = Some [-1, -2, -3, -4, -5, -6]\<rparr> :: translation_option"
  let ?u = "\<lparr>GetSourceWordsRange = WordsRange 0 0, GetCachedScores = Some [-7, -8, -9, -10, -11, -12]\<rparr> :: translation_option"
  have "derivation_ok (example_config False) 3 ([?t] @ [?u])"
    by (auto simp: derivation_ok_def spans_of_def disjoint_spans_def cached_ok_def table_scores_def example_config_def
        GetNumberOfTypes_def)
  then have "\<exists>s s'. EvaluateAll (example_config False) 3 [?t] = Some s \<and> Evaluate (example_config False) s ?u =
      Some (s', derivation_scores (example_config False) [?t] ?u (replicate (GetNumScoreComponents (example_config False)) 0))"
    using reordering_scores_one_per_direction [of "example_config False" 3 "[?t]" ?u]
    by (auto simp: example_config_def)
  moreover have "derivation_scores (example_config False) [?t] ?u (replicate (GetNumScoreComponents (example_config False)) 0) =
      [0, -8, 0, 0, -5, 0]"
    by (simp add: derivation_scores_def backward_scores_def forward_scores_def direction_scores_def block_orientation_def
        orientation_def orientation_defs spans_of_def cfg_width_def example_config_def GetNumScoreComponents_def
        GetNumberOfTypes_def numeral_eq_Suc)
  ultimately show ?thesis by (simp only:)
qed

text \<open>The comparison of feature states, which decides recombination, is a total preorder on the
  states of one feature: of two states exactly one is less, both are equivalent, or the other is
  less; less is transitive, and so is equivalence.\<close>

theorem state_comparison_total_preorder:
  assumes "same_shape s0 s" "same_shape s0 t" "same_shape s0 u"
  shows "(state_cmp s t < 0 \<longleftrightarrow> state_cmp t s > 0) \<and> (state_cmp s t = 0 \<longleftrightarrow> state_cmp t s = 0) \<and>
    (state_cmp s t < 0 \<and> state_cmp t u \<le> 0 \<longrightarrow> state_cmp s u < 0) \<and>
    (state_cmp s t = 0 \<and> state_cmp t u = 0 \<longrightarrow> state_cmp s u = 0)"
  using reordering_order.cmp_swap_less [OF assms(2,1)] reordering_order.cmp_swap_eq [OF assms(1,2)]
    reordering_order.cmp_less_le_trans [OF assms] reordering_order.cmp_eq_trans [OF assms]
  by blast

theorem state_comparison_total_preorder_witness:
  "state_cmp (HierarchicalReorderingBackwardState (base_init (example_config False) Backward 0) [WordsRange 0 1])
     (HierarchicalReorderingBackwardState (base_init (example_config False) Backward 0) [WordsRange 0 0]) < 0 \<longleftrightarrow>
   state_cmp (HierarchicalReorderingBackwardState (base_init (example_config False) Backward 0) [WordsRange 0 0])
     (HierarchicalReorderingBackwardState (base_init (example_config False) Backward 0) [WordsRange 0 1]) > 0"
proof -
  let ?s = "\<lambda>e. HierarchicalReorderingBackwardState (base_init (example_config False) Backward 0) [WordsRange 0 e]"
  have "same_shape (?s 0) (?s 1)" "same_shape (?s 0) (?s 0)" by simp_all
  from state_comparison_total_preorder [OF this this(2)] show ?thesis by blast
qed

text \<open>With collapsed scores a bidirectional model reads its forward score at the wrong place:
  cached scores hold the three backward scores before the three forward ones, but the forward
  state, whose offset in the collapsed feature vector is 1, reads position 1 of the cached scores
  for a monotone phrase, which is the backward swap score, and not position 3.\<close>

theorem collapsed_forward_reads_backward_score:
  "\<exists>s1 xs1 s2. Evaluate (example_config True) (CreateLexicalReorderingState (example_config True) 2)
       \<lparr>GetSourceWordsRange = WordsRange 0 0, GetCachedScores = Some [bM, bS, bD, fM, fS, fD]\<rparr> = Some (s1, xs1) \<and>
     Evaluate (example_config True) s1
       \<lparr>GetSourceWordsRange = WordsRange 1 1, GetCachedScores = Some [bM', bS', bD', fM', fS', fD']\<rparr> =
       Some (s2, [bM', bS])"
proof -
  have "sz_sub (Suc 0) (Suc 0) = 0" "sz_sub 1 1 = 0" using sz_sub_1 [of 1] by (simp_all add: size_bound_def)
  then show ?thesis
    by (simp add: Evaluate_def example_config_def CreateLexicalReorderingState_def base_init_def base_next_def
      GetNumScoreComponents_def GetNumberOfTypes_def ClearScores_def CopyScores_def PB_orientation_def
      PB_MSD_def orientation_defs Let_def numeral_2_eq_2)
qed

text \<open>A configuration string without \<open>f\<close> or \<open>fe\<close> leaves the condition uninitialised: whether
  the same call loads the model or exits depends on the memory the object was created in.\<close>

theorem condition_left_uninitialised:
  "(\<exists>x. LexicalReorderingInit CondF [0] [] ''msd'' 3 = Inr x) \<and>
   LexicalReorderingInit CondFE [0] [] ''msd'' 3 =
     Inl ''TL factor mask for lexical reordering is unexpectedly empty''"
proof -
  have "Tokenize ''msd'' ''-'' = [''msd'']"
    by (subst Tokenize_runs) (simp_all add: NOT_FOUND_def)
  then show ?thesis
    by (simp add: LexicalReorderingInit_def LexicalReorderingConfiguration_def config_part_def
        GetNumScoreComponents_def GetNumberOfTypes_def Let_def)
qed

end
