(* ===== verification/Output_Collector.thy ===== *)
theory Output_Collector
  imports Prelude "HOL-Library.Finite_Map"
begin

text \<open>
  The collector that puts the translations of several threads into sentence order
  (\<open>OutputCollector.h\<close>). \<open>Write\<close> runs under the mutex, so calls are a
  sequence; the two streams are what has been written to them. The \<open>int\<close> counter is
  kept unbounded: it counts the sentences of one run. The read of the erased iterator's key after
  the erase is modelled by the value it had.
\<close>

section \<open>The class\<close>

record collector =
  m_outputs :: "(int, string) fmap"
  m_debugs :: "(int, string) fmap"
  m_nextOutput :: int
  m_outStream :: string
  m_debugStream :: string

definition CollectorInit :: collector where
  "CollectorInit = \<lparr>m_outputs = fmempty, m_debugs = fmempty, m_nextOutput = 0,
     m_outStream = '''', m_debugStream = ''''\<rparr>"

definition write_debug :: "int \<Rightarrow> collector \<Rightarrow> collector" where
  "write_debug key c =
     (case fmlookup (m_debugs c) key of
        None \<Rightarrow> c
      | Some debug \<Rightarrow> c\<lparr>m_debugStream := m_debugStream c @ debug, m_debugs := fmdrop key (m_debugs c)\<rparr>)"

lemma write_debug_outputs [simp]:
  "m_outputs (write_debug key c) = m_outputs c" "m_nextOutput (write_debug key c) = m_nextOutput c"
  "m_outStream (write_debug key c) = m_outStream c"
  by (simp_all add: write_debug_def split: option.split)

function drain :: "collector \<Rightarrow> collector" where
  "drain c =
     (case fmlookup (m_outputs c) (m_nextOutput c) of
        None \<Rightarrow> c
      | Some outp \<Rightarrow>
          drain (write_debug (m_nextOutput c)
            (c\<lparr>m_outStream := m_outStream c @ outp, m_outputs := fmdrop (m_nextOutput c) (m_outputs c),
               m_nextOutput := m_nextOutput c + 1\<rparr>)))"
  by pat_completeness auto

termination
proof (relation "measure (\<lambda>c. fcard (fmdom (m_outputs c)))", goal_cases)
  case (2 c outp)
  then have "m_nextOutput c |\<in>| fmdom (m_outputs c)" by (simp add: fmdomI)
  then have "0 < fcard (fmdom (m_outputs c))" by (metis fcard_fempty fempty_iff gr0I fcard_0_eq)
  then show ?case using \<open>m_nextOutput c |\<in>| fmdom (m_outputs c)\<close> by simp
qed simp

declare drain.simps [simp del]

definition Write :: "int \<Rightarrow> string \<Rightarrow> string \<Rightarrow> collector \<Rightarrow> collector" where
  "Write sourceId outp debug c =
     (if sourceId = m_nextOutput c
      then drain (c\<lparr>m_outStream := m_outStream c @ outp, m_debugStream := m_debugStream c @ debug,
                    m_nextOutput := m_nextOutput c + 1\<rparr>)
      else c\<lparr>m_outputs := fmupd sourceId outp (m_outputs c), m_debugs := fmupd sourceId debug (m_debugs c)\<rparr>)"

section \<open>Any order of arrival\<close>

text \<open>
  What the collector has to do: after the results of a set of sentences have arrived, the streams
  hold the results of the longest gap-free prefix of sentences and the rest is cached.
\<close>

definition outputs_upto :: "(int \<Rightarrow> string) \<Rightarrow> int \<Rightarrow> string" where
  "outputs_upto f k = concat (map f [0..k - 1])"

definition collector_inv :: "(int \<Rightarrow> string) \<Rightarrow> (int \<Rightarrow> string) \<Rightarrow> int set \<Rightarrow> collector \<Rightarrow> bool" where
  "collector_inv out dbg arrived c \<longleftrightarrow>
     0 \<le> m_nextOutput c \<and> {0..<m_nextOutput c} \<subseteq> arrived \<and>
     m_outStream c = outputs_upto out (m_nextOutput c) \<and>
     m_debugStream c = outputs_upto dbg (m_nextOutput c) \<and>
     (\<forall>i. fmlookup (m_outputs c) i = (if i \<in> arrived \<and> m_nextOutput c \<le> i then Some (out i) else None)) \<and>
     (\<forall>i. fmlookup (m_debugs c) i = (if i \<in> arrived \<and> m_nextOutput c \<le> i then Some (dbg i) else None))"

lemma outputs_upto_step: "0 \<le> k \<Longrightarrow> outputs_upto f (k + 1) = outputs_upto f k @ f k"
  by (simp add: outputs_upto_def upto_rec2)

lemma next_bounds:
  fixes n :: int
  shows "{0..<n + 1} \<subseteq> A \<longleftrightarrow> (0 \<le> n \<longrightarrow> n \<in> A) \<and> {0..<n} \<subseteq> A"
    "n \<notin> A \<Longrightarrow> i \<in> A \<and> n \<le> i \<longleftrightarrow> i \<in> A \<and> n + 1 \<le> i"
    "i \<noteq> n \<Longrightarrow> i \<in> A \<and> n \<le> i \<longleftrightarrow> i \<in> A \<and> n + 1 \<le> i"
proof -
  have "{0..<n + 1} = (if 0 \<le> n then insert n {0..<n} else {0..<n})" by auto
  then show "{0..<n + 1} \<subseteq> A \<longleftrightarrow> (0 \<le> n \<longrightarrow> n \<in> A) \<and> {0..<n} \<subseteq> A" by simp
  show "n \<notin> A \<Longrightarrow> i \<in> A \<and> n \<le> i \<longleftrightarrow> i \<in> A \<and> n + 1 \<le> i" by (cases "i = n") auto
  show "i \<noteq> n \<Longrightarrow> i \<in> A \<and> n \<le> i \<longleftrightarrow> i \<in> A \<and> n + 1 \<le> i" by auto
qed

lemma drain_inv:
  "collector_inv out dbg arrived c \<Longrightarrow>
   collector_inv out dbg arrived (drain c) \<and> m_nextOutput (drain c) \<notin> arrived"
proof (induction c rule: drain.induct)
  case (1 c)
  let ?n = "m_nextOutput c"
  show ?case
  proof (cases "fmlookup (m_outputs c) ?n")
    case None
    then have "drain c = c" by (simp add: drain.simps)
    moreover have "?n \<notin> arrived" using 1(2) None by (auto simp: collector_inv_def split: if_splits)
    ultimately show ?thesis using 1(2) by simp
  next
    case (Some outp)
    let ?c = "write_debug ?n (c\<lparr>m_outStream := m_outStream c @ outp,
      m_outputs := fmdrop ?n (m_outputs c), m_nextOutput := ?n + 1\<rparr>)"
    have n: "?n \<in> arrived" "outp = out ?n" "0 \<le> ?n" "fmlookup (m_debugs c) ?n = Some (dbg ?n)"
      using Some 1(2) by (auto simp: collector_inv_def split: if_splits)
    have "collector_inv out dbg arrived ?c"
      using 1(2) n unfolding collector_inv_def
      by (auto simp: write_debug_def outputs_upto_step next_bounds(1))
    then show ?thesis using 1(1) [OF Some] Some by (simp add: drain.simps [of c])
  qed
qed

lemma Write_inv:
  assumes "collector_inv out dbg arrived c" "m_nextOutput c \<notin> arrived" "0 \<le> i" "i \<notin> arrived"
  shows "collector_inv out dbg (insert i arrived) (Write i (out i) (dbg i) c) \<and>
    m_nextOutput (Write i (out i) (dbg i) c) \<notin> insert i arrived"
proof (cases "i = m_nextOutput c")
  case True
  let ?c = "c\<lparr>m_outStream := m_outStream c @ out i, m_debugStream := m_debugStream c @ dbg i,
    m_nextOutput := m_nextOutput c + 1\<rparr>"
  have "collector_inv out dbg (insert i arrived) ?c"
    using assms True next_bounds(2) [OF assms(2)] unfolding collector_inv_def
    by (auto simp: outputs_upto_step next_bounds(1))
  from drain_inv [OF this] show ?thesis using True by (simp add: Write_def)
next
  case False
  then have "m_nextOutput c < i \<or> i < m_nextOutput c" by linarith
  moreover have "\<not> i < m_nextOutput c" using assms by (auto simp: collector_inv_def)
  ultimately show ?thesis
    using assms False unfolding collector_inv_def by (auto simp: Write_def)
qed

definition write_all :: "(int \<Rightarrow> string) \<Rightarrow> (int \<Rightarrow> string) \<Rightarrow> int list \<Rightarrow> collector" where
  "write_all out dbg ids = fold (\<lambda>i c. Write i (out i) (dbg i) c) ids CollectorInit"

lemma write_all_inv:
  assumes "distinct ids" "\<forall>i \<in> set ids. 0 \<le> i"
  shows "collector_inv out dbg (set ids) (write_all out dbg ids) \<and>
    m_nextOutput (write_all out dbg ids) \<notin> set ids"
  using assms
proof (induction ids rule: rev_induct)
  case Nil
  then show ?case by (simp add: write_all_def CollectorInit_def collector_inv_def outputs_upto_def)
next
  case (snoc i ids)
  then show ?case
    using Write_inv [of out dbg "set ids" "write_all out dbg ids" i] by (simp add: write_all_def)
qed

section \<open>Properties\<close>

text \<open>Whatever the order in which the sentences \<open>0\<close> to \<open>n - 1\<close> finish, both streams end up
  with all results in sentence order, and nothing is left in the caches.\<close>

theorem output_in_sentence_order:
  assumes "distinct ids" "set ids = {0..<n}"
  shows "m_outStream (write_all out dbg ids) = concat (map out [0..n - 1]) \<and>
    m_debugStream (write_all out dbg ids) = concat (map dbg [0..n - 1]) \<and>
    m_outputs (write_all out dbg ids) = fmempty \<and> m_debugs (write_all out dbg ids) = fmempty"
proof (cases "0 \<le> n")
  case True
  have inv: "collector_inv out dbg {0..<n} (write_all out dbg ids)"
    "m_nextOutput (write_all out dbg ids) \<notin> {0..<n}"
    using write_all_inv [of ids out dbg] assms by auto
  then have ge: "n \<le> m_nextOutput (write_all out dbg ids)" by (auto simp: collector_inv_def)
  have "{0..<m_nextOutput (write_all out dbg ids)} \<subseteq> {0..<n}"
    using inv(1) unfolding collector_inv_def by blast
  then have "\<not> n < m_nextOutput (write_all out dbg ids)" using True by (auto dest: subsetD [of _ _ n])
  then have "m_nextOutput (write_all out dbg ids) = n" using ge by simp
  then show ?thesis using inv(1) unfolding collector_inv_def outputs_upto_def
    by (auto intro!: fmap_ext)
next
  case False
  then have "ids = []" using assms(2) by simp
  then show ?thesis using False by (simp add: write_all_def CollectorInit_def)
qed

theorem output_in_sentence_order_witness:
  "m_outStream (write_all (\<lambda>i. if i = 0 then ''a'' else ''b'') (\<lambda>i. '''') [1, 2, 0]) = ''abb''"
proof -
  have "set [1, 2, 0 :: int] = {0..<3}" by auto
  moreover have "[0..2 :: int] = [0, 1, 2]" by (simp add: upto_rec1)
  ultimately show ?thesis
    using output_in_sentence_order [of "[1, 2, 0]" 3 "\<lambda>i. if i = 0 then ''a'' else ''b''" "\<lambda>i. ''''"]
    by simp
qed

text \<open>At every moment the output stream holds exactly the results of the sentences before the
  first one that is still missing: no finished sentence waits longer than it has to.\<close>

theorem output_is_longest_prefix:
  assumes "distinct ids" "\<forall>i \<in> set ids. 0 \<le> i"
  shows "\<exists>k \<ge> 0. k \<notin> set ids \<and> {0..<k} \<subseteq> set ids \<and>
    m_outStream (write_all out dbg ids) = concat (map out [0..k - 1])"
  using write_all_inv [OF assms, of out dbg] unfolding collector_inv_def outputs_upto_def by blast

theorem output_is_longest_prefix_witness:
  "\<exists>k. 0 \<le> k \<and> k \<notin> set [2, 0 :: int] \<and>
     m_outStream (write_all (\<lambda>i. ''a'') (\<lambda>i. '''') [2, 0]) = concat (map (\<lambda>i. ''a'') [0..k - 1])"
  using output_is_longest_prefix [of "[2, 0]" "\<lambda>i. ''a''" "\<lambda>i. ''''"] by auto

end
