(* ===== verification/Thread_Pool.thy ===== *)
theory Thread_Pool
  imports Prelude "HOL-Library.Multiset"
begin

text \<open>
  The thread pool (\<open>ThreadPool.h\<close>, \<open>ThreadPool.cpp\<close>) as a state machine. A step is
  what one thread does between two releases of the mutex, so every interleaving of the workers,
  of the threads that submit and of the one that stops the pool is a sequence of steps. Waiting on
  a condition variable is a state; \<open>notify_all\<close> moves the waiting threads on, and a wait may
  also end spuriously. Running a task is one step.
\<close>

section \<open>The pool\<close>

text \<open>Where a worker stands in \<open>Execute\<close>, and the stopping thread in \<open>Stop\<close>.\<close>

datatype 't worker = AtLock | Waiting | Woken | Running 't | Notifying | Testing | Finished

datatype stopper = NotCalled | Draining | DrainWait | DrainWoken | SetStopped | NotifyNeeded | Joining | Returned

record 't pool =
  m_tasks :: "'t list"
  m_stopped :: bool
  m_stopping :: bool
  m_threads :: "'t worker list"
  stop_pc :: stopper
  accepted :: "'t list"
  executed :: "'t list"

definition ThreadPoolInit :: "nat \<Rightarrow> 't pool" where
  "ThreadPoolInit numThreads =
     \<lparr>m_tasks = [], m_stopped = False, m_stopping = False, m_threads = replicate numThreads AtLock,
      stop_pc = NotCalled, accepted = [], executed = []\<rparr>"

definition set_worker :: "nat \<Rightarrow> 't worker \<Rightarrow> 't pool \<Rightarrow> 't pool" where
  "set_worker i w p = p\<lparr>m_threads := (m_threads p)[i := w]\<rparr>"

definition notify_needed :: "'t pool \<Rightarrow> 't pool" where
  "notify_needed p = p\<lparr>m_threads := map (\<lambda>w. case w of Waiting \<Rightarrow> Woken | _ \<Rightarrow> w) (m_threads p)\<rparr>"

definition notify_available :: "'t pool \<Rightarrow> 't pool" where
  "notify_available p = p\<lparr>stop_pc := (case stop_pc p of DrainWait \<Rightarrow> DrainWoken | pc \<Rightarrow> pc)\<rparr>"

text \<open>The critical section of \<open>Execute\<close>: wait first, or take a task.\<close>

definition take_task :: "nat \<Rightarrow> 't pool \<Rightarrow> 't pool" where
  "take_task i p =
     (if \<not> m_stopped p \<and> m_tasks p \<noteq> []
      then set_worker i (Running (hd (m_tasks p))) (p\<lparr>m_tasks := tl (m_tasks p)\<rparr>)
      else set_worker i Notifying p)"

definition execute_step :: "nat \<Rightarrow> 't pool \<Rightarrow> 't pool" where
  "execute_step i p =
     (case m_threads p ! i of
        AtLock \<Rightarrow> if m_tasks p = [] \<and> \<not> m_stopped p then set_worker i Waiting p else take_task i p
      | Waiting \<Rightarrow> p
      | Woken \<Rightarrow> take_task i p
      | Running task \<Rightarrow> set_worker i Notifying (p\<lparr>executed := executed p @ [task]\<rparr>)
      | Notifying \<Rightarrow> set_worker i Testing (notify_available p)
      | Testing \<Rightarrow> set_worker i (if m_stopped p then Finished else AtLock) p
      | Finished \<Rightarrow> p)"

text \<open>\<open>None\<close> is the exception that the pool is stopping.\<close>

definition Submit :: "'t \<Rightarrow> 't pool \<Rightarrow> 't pool option" where
  "Submit task p =
     (if m_stopping p then None
      else Some (notify_needed (p\<lparr>m_tasks := m_tasks p @ [task], accepted := accepted p @ [task]\<rparr>)))"

definition stop_call :: "bool \<Rightarrow> 't pool \<Rightarrow> 't pool" where
  "stop_call processRemainingJobs p =
     (if m_stopped p then p\<lparr>stop_pc := Returned\<rparr>
      else p\<lparr>m_stopping := True, stop_pc := (if processRemainingJobs then Draining else SetStopped)\<rparr>)"

definition stop_step :: "'t pool \<Rightarrow> 't pool" where
  "stop_step p =
     (case stop_pc p of
        Draining \<Rightarrow> p\<lparr>stop_pc := (if m_tasks p \<noteq> [] \<and> \<not> m_stopped p then DrainWait else SetStopped)\<rparr>
      | DrainWoken \<Rightarrow> p\<lparr>stop_pc := (if m_tasks p \<noteq> [] \<and> \<not> m_stopped p then DrainWait else SetStopped)\<rparr>
      | SetStopped \<Rightarrow> p\<lparr>m_stopped := True, stop_pc := NotifyNeeded\<rparr>
      | NotifyNeeded \<Rightarrow> (notify_needed p)\<lparr>stop_pc := Joining\<rparr>
      | Joining \<Rightarrow> if list_all (\<lambda>w. w = Finished) (m_threads p) then p\<lparr>stop_pc := Returned\<rparr> else p
      | _ \<Rightarrow> p)"

section \<open>The steps\<close>

definition worker_enabled :: "nat \<Rightarrow> 't pool \<Rightarrow> bool" where
  "worker_enabled i p \<longleftrightarrow> i < length (m_threads p) \<and> m_threads p ! i \<noteq> Waiting \<and> m_threads p ! i \<noteq> Finished"

definition stop_enabled :: "'t pool \<Rightarrow> bool" where
  "stop_enabled p \<longleftrightarrow> stop_pc p \<in> {Draining, DrainWoken, SetStopped, NotifyNeeded} \<or>
     stop_pc p = Joining \<and> list_all (\<lambda>w. w = Finished) (m_threads p)"

text \<open>The steps a thread takes on its own; \<open>Stop\<close> is called once, with argument \<open>rem\<close>.\<close>

inductive pool_step :: "bool \<Rightarrow> 't pool \<Rightarrow> 't pool \<Rightarrow> bool" for rem :: bool where
  worker: "worker_enabled i p \<Longrightarrow> pool_step rem p (execute_step i p)"
| stopping: "stop_enabled p \<Longrightarrow> pool_step rem p (stop_step p)"
| stop_begins: "stop_pc p = NotCalled \<Longrightarrow> pool_step rem p (stop_call rem p)"
| submit: "Submit task p = Some p' \<Longrightarrow> pool_step rem p p'"
| spurious_worker: "i < length (m_threads p) \<Longrightarrow> m_threads p ! i = Waiting \<Longrightarrow>
    pool_step rem p (set_worker i Woken p)"
| spurious_stop: "stop_pc p = DrainWait \<Longrightarrow> pool_step rem p (p\<lparr>stop_pc := DrainWoken\<rparr>)"

inductive pool_reachable :: "bool \<Rightarrow> nat \<Rightarrow> 't pool \<Rightarrow> bool" for rem :: bool and n :: nat where
  init: "pool_reachable rem n (ThreadPoolInit n)"
| step: "pool_reachable rem n p \<Longrightarrow> pool_step rem p p' \<Longrightarrow> pool_reachable rem n p'"

lemmas pool_defs = execute_step_def take_task_def set_worker_def notify_needed_def notify_available_def
  Submit_def stop_call_def stop_step_def worker_enabled_def stop_enabled_def

section \<open>No task is lost, none runs twice\<close>

definition running :: "'t worker \<Rightarrow> 't multiset" where
  "running w = (case w of Running t \<Rightarrow> {#t#} | _ \<Rightarrow> {#})"

definition running_all :: "'t worker list \<Rightarrow> 't multiset" where
  "running_all ws = sum_list (map running ws)"

lemma running_all_update:
  assumes "i < length ws"
  shows "running_all (ws[i := w]) + running (ws ! i) = running_all ws + running w"
  using assms
proof (induction ws arbitrary: i)
  case Nil
  then show ?case by simp
next
  case (Cons v vs)
  then show ?case by (cases i) (auto simp: running_all_def ac_simps)
qed

lemma running_all_notify:
  "running_all (map (\<lambda>w. case w of Waiting \<Rightarrow> Woken | _ \<Rightarrow> w) ws) = running_all ws"
  by (induction ws) (auto simp: running_all_def running_def split: worker.splits)

definition conserved :: "'t pool \<Rightarrow> bool" where
  "conserved p \<longleftrightarrow> mset (accepted p) = mset (m_tasks p) + running_all (m_threads p) + mset (executed p)"

lemma conserved_worker:
  assumes "conserved p" "i < length (m_threads p)"
  shows "conserved (execute_step i p)"
proof -
  note upd = running_all_update [OF assms(2)]
  show ?thesis
  proof (cases "m_threads p ! i")
    case (Running t)
    then show ?thesis using assms(1) upd [of Notifying]
      by (simp add: conserved_def pool_defs running_def add_ac)
  next
    case AtLock
    then show ?thesis using assms(1) upd [of Waiting] upd [of Notifying] upd [of "Running (hd (m_tasks p))"]
      by (cases "m_tasks p") (auto simp: conserved_def pool_defs running_def add_ac)
  next
    case Woken
    then show ?thesis using assms(1) upd [of Notifying] upd [of "Running (hd (m_tasks p))"]
      by (cases "m_tasks p") (auto simp: conserved_def pool_defs running_def add_ac)
  next
    case Notifying
    then show ?thesis using assms(1) upd [of Testing] by (simp add: conserved_def pool_defs running_def)
  next
    case Testing
    then show ?thesis using assms(1) upd [of Finished] upd [of AtLock]
      by (simp add: conserved_def pool_defs running_def)
  qed (use assms(1) in \<open>simp_all add: conserved_def pool_defs\<close>)
qed

lemma conserved_step:
  assumes "pool_step rem p p'" "conserved p"
  shows "conserved p'"
  using assms
proof (induction rule: pool_step.induct)
  case (worker i p)
  then show ?case using conserved_worker by (auto simp: worker_enabled_def)
next
  case (stopping p)
  then show ?case by (auto simp: conserved_def pool_defs running_all_notify split: stopper.splits)
next
  case (stop_begins p)
  then show ?case by (simp add: conserved_def pool_defs)
next
  case (submit task p p')
  then show ?case by (auto simp: conserved_def pool_defs running_all_notify split: if_splits)
next
  case (spurious_worker i p)
  then show ?case using running_all_update [of i "m_threads p" Woken]
    by (simp add: conserved_def pool_defs running_def)
next
  case (spurious_stop p)
  then show ?case by (simp add: conserved_def)
qed

lemma reachable_conserved: "pool_reachable rem n p \<Longrightarrow> conserved p"
proof (induction rule: pool_reachable.induct)
  case init
  have "running_all (replicate n (AtLock :: 'a worker)) = {#}"
    by (induction n) (simp_all add: running_all_def running_def)
  then show ?case by (simp add: conserved_def ThreadPoolInit_def)
next
  case (step p p')
  then show ?case by (blast intro: conserved_step)
qed

section \<open>The phases of stopping\<close>

definition phase_inv :: "bool \<Rightarrow> 't pool \<Rightarrow> bool" where
  "phase_inv rem p \<longleftrightarrow>
     (m_stopping p \<longleftrightarrow> stop_pc p \<noteq> NotCalled) \<and>
     (m_stopped p \<longleftrightarrow> stop_pc p \<in> {NotifyNeeded, Joining, Returned}) \<and>
     (rem \<and> stop_pc p \<in> {SetStopped, NotifyNeeded, Joining, Returned} \<longrightarrow> m_tasks p = []) \<and>
     (stop_pc p = Returned \<longrightarrow> (\<forall>w \<in> set (m_threads p). w = Finished))"

fun busy :: "'t worker \<Rightarrow> bool" where
  "busy Notifying \<longleftrightarrow> True"
| "busy (Running t) \<longleftrightarrow> True"
| "busy w \<longleftrightarrow> False"

definition worker_inv :: "'t pool \<Rightarrow> bool" where
  "worker_inv p \<longleftrightarrow>
     (Finished \<in> set (m_threads p) \<longrightarrow> m_stopped p) \<and>
     (Waiting \<in> set (m_threads p) \<longrightarrow> m_tasks p = [] \<and> (m_stopped p \<longrightarrow> stop_pc p = NotifyNeeded)) \<and>
     (stop_pc p = DrainWait \<longrightarrow> m_tasks p \<noteq> [] \<or> (\<exists>w \<in> set (m_threads p). busy w))"

lemma set_update_other:
  assumes "w \<in> set ws" "i < length ws" "ws ! i \<noteq> w"
  shows "w \<in> set (ws[i := v])"
proof -
  obtain j where "j < length ws" "ws ! j = w" using assms(1) by (auto simp: in_set_conv_nth)
  then show ?thesis using assms(2,3) by (metis length_list_update nth_list_update_neq nth_mem)
qed

lemma set_update_dest:
  "i < length ws \<Longrightarrow> w \<in> set (ws[i := v]) \<Longrightarrow> w = v \<or> w \<in> set ws"
  using set_update_subset_insert by fastforce

lemma set_notify: "w \<in> set (map (\<lambda>w. case w of Waiting \<Rightarrow> Woken | _ \<Rightarrow> w) ws) \<longleftrightarrow>
    w \<noteq> Waiting \<and> (w \<in> set ws \<or> (w = Woken \<and> Waiting \<in> set ws))"
  by (induction ws) (auto split: worker.splits)

lemma phase_step:
  assumes "pool_step rem p p'" "phase_inv rem p"
  shows "phase_inv rem p'"
  using assms
proof (induction rule: pool_step.induct)
  case (worker i p)
  then have i: "i < length (m_threads p)" "m_threads p ! i \<noteq> Finished" by (auto simp: worker_enabled_def)
  have "stop_pc p \<noteq> Returned" using worker i by (auto simp: phase_inv_def)
  then show ?case using worker.prems
    by (auto simp: phase_inv_def pool_defs split: worker.splits stopper.splits)
next
  case (stopping p)
  then show ?case
    by (auto simp: phase_inv_def pool_defs list_all_iff split: stopper.splits if_splits)
next
  case (stop_begins p)
  then show ?case by (auto simp: phase_inv_def pool_defs)
next
  case (submit task p p')
  then show ?case by (auto simp: phase_inv_def pool_defs split: if_splits)
next
  case (spurious_worker i p)
  then have "Waiting \<in> set (m_threads p)" by (metis nth_mem)
  then have "stop_pc p \<noteq> Returned" using spurious_worker(3) by (auto simp: phase_inv_def)
  then show ?case using spurious_worker by (auto simp: phase_inv_def pool_defs)
next
  case (spurious_stop p)
  then show ?case by (auto simp: phase_inv_def)
qed

lemma worker_inv_update:
  assumes inv: "worker_inv p" and i: "i < length (m_threads p)"
    and "v = Finished \<Longrightarrow> m_stopped p" and wait: "v = Waiting \<Longrightarrow> m_tasks p = [] \<and> \<not> m_stopped p"
    and ts: "ts = m_tasks p \<or> (m_tasks p \<noteq> [] \<and> busy v)"
    and pc: "pc = stop_pc p \<or> (stop_pc p = DrainWait \<and> pc = DrainWoken)"
    and b: "busy (m_threads p ! i) \<Longrightarrow> busy v \<or> pc \<noteq> DrainWait"
    and q: "m_threads q = (m_threads p)[i := v]" "m_tasks q = ts" "stop_pc q = pc" "m_stopped q = m_stopped p"
  shows "worker_inv q"
  unfolding worker_inv_def q
proof (intro conjI impI)
  assume "Finished \<in> set ((m_threads p)[i := v])"
  then show "m_stopped p" using set_update_dest [OF i] assms(3) inv by (auto simp: worker_inv_def)
next
  assume W: "Waiting \<in> set ((m_threads p)[i := v])"
  then have "v = Waiting \<or> Waiting \<in> set (m_threads p)" using set_update_dest [OF i] by fastforce
  then have "m_tasks p = []" using wait inv by (auto simp: worker_inv_def)
  then show "ts = []" using ts by simp
  show "pc = NotifyNeeded" if "m_stopped p"
    using \<open>v = Waiting \<or> _\<close> wait inv pc that by (auto simp: worker_inv_def)
next
  assume D: "pc = DrainWait"
  then have sD: "stop_pc p = DrainWait" using pc by auto
  show "ts \<noteq> [] \<or> (\<exists>w \<in> set ((m_threads p)[i := v]). busy w)"
  proof (cases "busy v")
    case True
    then show ?thesis using set_update_memI [OF i] by blast
  next
    case False
    then have nb: "\<not> busy (m_threads p ! i)" "ts = m_tasks p" using b D ts by auto
    have "m_tasks p \<noteq> [] \<or> (\<exists>w \<in> set (m_threads p). busy w)" using inv sD by (simp add: worker_inv_def)
    then show ?thesis using nb set_update_other [OF _ i] by metis
  qed
qed

lemma worker_inv_take:
  assumes "worker_inv p" "i < length (m_threads p)" "\<not> busy (m_threads p ! i)"
  shows "worker_inv (take_task i p)"
proof (cases "\<not> m_stopped p \<and> m_tasks p \<noteq> []")
  case True
  show ?thesis
    by (rule worker_inv_update [OF assms(1,2), of "Running (hd (m_tasks p))" "tl (m_tasks p)" "stop_pc p"])
      (use True assms(3) in \<open>simp_all add: take_task_def set_worker_def\<close>)
next
  case False
  show ?thesis
    by (rule worker_inv_update [OF assms(1,2), of Notifying "m_tasks p" "stop_pc p"])
      (use False assms(3) in \<open>auto simp: take_task_def set_worker_def\<close>)
qed

lemma worker_inv_set:
  assumes "worker_inv p" "i < length (m_threads p)" "v = Finished \<Longrightarrow> m_stopped p"
    "v = Waiting \<Longrightarrow> m_tasks p = [] \<and> \<not> m_stopped p" "busy (m_threads p ! i) \<Longrightarrow> busy v"
  shows "worker_inv (set_worker i v p)"
  by (rule worker_inv_update [OF assms(1,2), of v "m_tasks p" "stop_pc p"])
    (use assms(3-) in \<open>simp_all add: set_worker_def\<close>)

lemma worker_inv_execute:
  assumes "worker_inv p" "worker_enabled i p"
  shows "worker_inv (execute_step i p)"
proof -
  have i: "i < length (m_threads p)" using assms(2) by (simp add: worker_enabled_def)
  show ?thesis
  proof (cases "m_threads p ! i")
    case AtLock
    then show ?thesis using worker_inv_take [OF assms(1) i] worker_inv_set [OF assms(1) i, of Waiting]
      by (simp add: execute_step_def)
  next
    case Woken
    then show ?thesis using worker_inv_take [OF assms(1) i] by (simp add: execute_step_def)
  next
    case (Running t)
    show ?thesis
      by (rule worker_inv_update [OF assms(1) i, of Notifying "m_tasks p" "stop_pc p"])
        (simp_all add: execute_step_def set_worker_def Running)
  next
    case Notifying
    show ?thesis
      by (rule worker_inv_update [OF assms(1) i, of Testing "m_tasks p" "stop_pc (notify_available p)"])
        (auto simp: execute_step_def set_worker_def notify_available_def Notifying split: stopper.splits)
  next
    case Testing
    then show ?thesis
      using worker_inv_set [OF assms(1) i, of Finished] worker_inv_set [OF assms(1) i, of AtLock]
      by (cases "m_stopped p") (simp_all add: execute_step_def)
  qed (use assms(2) in \<open>auto simp: worker_enabled_def\<close>)
qed

lemma worker_inv_notified:
  assumes "m_threads q = m_threads (notify_needed p)"
    and "Finished \<in> set (m_threads p) \<Longrightarrow> m_stopped q"
    and "stop_pc q = DrainWait \<Longrightarrow> m_tasks q \<noteq> [] \<or> (\<exists>w \<in> set (m_threads p). busy w)"
  shows "worker_inv q"
proof -
  have mem: "w \<in> set (m_threads q) \<longleftrightarrow> w \<noteq> Waiting \<and> (w \<in> set (m_threads p) \<or> (w = Woken \<and> Waiting \<in> set (m_threads p)))"
    for w unfolding assms(1) notify_needed_def set_notify [symmetric] by simp
  have "\<exists>w \<in> set (m_threads q). busy w" if ex: "\<exists>w \<in> set (m_threads p). busy w"
  proof -
    obtain w where "w \<in> set (m_threads p)" "busy w" using ex by blast
    moreover from this have "w \<noteq> Waiting" by auto
    ultimately show ?thesis using mem by blast
  qed
  then show ?thesis unfolding worker_inv_def using assms(2,3) mem by blast
qed

lemma worker_inv_pc:
  assumes "worker_inv p" "m_threads q = m_threads p" "m_tasks q = m_tasks p" "m_stopped p \<longrightarrow> m_stopped q"
    and "m_stopped q \<Longrightarrow> Waiting \<in> set (m_threads p) \<Longrightarrow> stop_pc q = NotifyNeeded"
    and "stop_pc q = DrainWait \<Longrightarrow> m_tasks p \<noteq> []"
  shows "worker_inv q"
  using assms by (auto simp: worker_inv_def)

lemma worker_inv_stop:
  assumes "worker_inv p" "phase_inv rem p" "stop_enabled p"
  shows "worker_inv (stop_step p)"
proof (cases "stop_pc p")
  case NotifyNeeded
  show ?thesis
    by (rule worker_inv_notified [of _ p]) (use NotifyNeeded assms in \<open>auto simp: stop_step_def notify_needed_def worker_inv_def\<close>)
next
  case Joining
  then show ?thesis using assms
    by (auto simp: stop_step_def worker_inv_def stop_enabled_def list_all_iff)
qed (rule worker_inv_pc [OF assms(1)],
     use assms in \<open>auto simp: stop_step_def stop_enabled_def phase_inv_def worker_inv_def\<close>)+

lemma worker_inv_step:
  assumes "pool_step rem p p'" "worker_inv p" "phase_inv rem p"
  shows "worker_inv p'"
  using assms
proof (induction rule: pool_step.induct)
  case (worker i p)
  then show ?case by (blast intro: worker_inv_execute)
next
  case (stopping p)
  then show ?case by (blast intro: worker_inv_stop)
next
  case (stop_begins p)
  then show ?case by (auto simp: worker_inv_def phase_inv_def pool_defs)
next
  case (submit task p p')
  then have p': "p' = notify_needed (p\<lparr>m_tasks := m_tasks p @ [task], accepted := accepted p @ [task]\<rparr>)"
    by (auto simp: Submit_def split: if_splits)
  show ?case unfolding p'
    by (rule worker_inv_notified [of _ p]) (use submit.prems in \<open>auto simp: notify_needed_def worker_inv_def\<close>)
next
  case (spurious_worker i p)
  then show ?case by (intro worker_inv_set) simp_all
next
  case (spurious_stop p)
  then show ?case by (auto simp: worker_inv_def)
qed

lemma reachable_inv:
  "pool_reachable rem n p \<Longrightarrow> phase_inv rem p \<and> worker_inv p \<and> length (m_threads p) = n"
proof (induction rule: pool_reachable.induct)
  case init
  then show ?case by (auto simp: ThreadPoolInit_def phase_inv_def worker_inv_def)
next
  case (step p p')
  from step(2) have "length (m_threads p') = length (m_threads p)"
    by (induction rule: pool_step.induct)
      (auto simp: pool_defs split: worker.splits stopper.splits if_splits)
  then show ?case using step phase_step worker_inv_step by blast
qed

section \<open>Stopping ends\<close>

inductive own_step :: "'t pool \<Rightarrow> 't pool \<Rightarrow> bool" where
  own_worker: "worker_enabled i p \<Longrightarrow> own_step p (execute_step i p)"
| own_stop: "stop_enabled p \<Longrightarrow> own_step p (stop_step p)"

lemma own_step_pool_step: "own_step p p' \<Longrightarrow> pool_step rem p p'"
  by (induction rule: own_step.induct) (auto intro: pool_step.intros)

lemma progress:
  assumes "phase_inv rem p" "worker_inv p" "m_threads p \<noteq> []"
    and "stop_pc p \<noteq> NotCalled" "stop_pc p \<noteq> Returned"
  shows "\<exists>p'. own_step p p'"
proof -
  have w: "\<exists>p'. own_step p p'" if "w \<in> set (m_threads p)" "w \<noteq> Waiting" "w \<noteq> Finished" for w
  proof -
    obtain i where "i < length (m_threads p)" "m_threads p ! i = w"
      using \<open>w \<in> set (m_threads p)\<close> by (auto simp: in_set_conv_nth)
    then show ?thesis using that own_worker [of i p] by (auto simp: worker_enabled_def)
  qed
  show ?thesis
  proof (cases "stop_pc p")
    case DrainWait
    then have "\<not> m_stopped p" using assms(1) by (simp add: phase_inv_def)
    then have fin: "Finished \<notin> set (m_threads p)" using assms(2) by (simp add: worker_inv_def)
    show ?thesis
    proof (cases "m_tasks p = []")
      case True
      then obtain v where "v \<in> set (m_threads p)" "busy v" using assms(2) DrainWait by (auto simp: worker_inv_def)
      moreover from this have "v \<noteq> Waiting" "v \<noteq> Finished" by auto
      ultimately show ?thesis using w by blast
    next
      case False
      then have "Waiting \<notin> set (m_threads p)" using assms(2) by (auto simp: worker_inv_def)
      then show ?thesis using w [of "hd (m_threads p)"] fin assms(3) by (metis hd_in_set)
    qed
  next
    case Joining
    then have wait: "Waiting \<notin> set (m_threads p)"
      using assms(1,2) by (auto simp: worker_inv_def phase_inv_def)
    show ?thesis
    proof (cases "list_all (\<lambda>w. w = Finished) (m_threads p)")
      case True
      then show ?thesis using Joining own_stop [of p] by (auto simp: stop_enabled_def)
    next
      case False
      then show ?thesis using w wait by (auto simp: list_all_iff)
    qed
  qed (use assms own_stop [of p] in \<open>auto simp: stop_enabled_def\<close>)
qed

text \<open>What is left to do, when nothing more can be submitted.\<close>

definition worker_rank :: "bool \<Rightarrow> 't worker \<Rightarrow> nat" where
  "worker_rank stopped w =
     (case w of Running t \<Rightarrow> 6 | Woken \<Rightarrow> 5 | Notifying \<Rightarrow> 4 | Testing \<Rightarrow> 3
      | AtLock \<Rightarrow> if stopped then 5 else 2 | Waiting \<Rightarrow> 1 | Finished \<Rightarrow> 0)"

definition stop_rank :: "nat \<Rightarrow> stopper \<Rightarrow> nat" where
  "stop_rank n pc =
     (case pc of Returned \<Rightarrow> 0 | Joining \<Rightarrow> 1 | NotifyNeeded \<Rightarrow> 2 + 8 * n | SetStopped \<Rightarrow> 3 + 14 * n
      | DrainWait \<Rightarrow> 4 + 14 * n | DrainWoken \<Rightarrow> 5 + 14 * n | Draining \<Rightarrow> 5 + 14 * n | NotCalled \<Rightarrow> 6 + 14 * n)"

definition pool_measure :: "'t pool \<Rightarrow> nat" where
  "pool_measure p = 9 * length (m_tasks p) +
     2 * sum_list (map (worker_rank (m_stopped p)) (m_threads p)) + stop_rank (length (m_threads p)) (stop_pc p)"

lemma sum_list_update_rank:
  fixes f :: "'w \<Rightarrow> nat"
  shows "i < length ws \<Longrightarrow> sum_list (map f (ws[i := w])) + f (ws ! i) = sum_list (map f ws) + f w"
proof (induction ws arbitrary: i)
  case Nil
  then show ?case by simp
next
  case (Cons v vs)
  then show ?case by (cases i) fastforce+
qed

lemma rank_notify:
  "sum_list (map (worker_rank b) (map (\<lambda>w. case w of Waiting \<Rightarrow> Woken | _ \<Rightarrow> w) ws)) \<le>
     sum_list (map (worker_rank b) ws) + 4 * length ws"
  by (induction ws) (auto simp: worker_rank_def split: worker.splits)

lemma rank_stopped:
  "sum_list (map (worker_rank True) ws) \<le> sum_list (map (worker_rank False) ws) + 3 * length ws"
  by (induction ws) (auto simp: worker_rank_def split: worker.splits)

lemma worker_measure:
  assumes "worker_enabled i p" "stop_pc p \<noteq> NotCalled"
  shows "pool_measure (execute_step i p) < pool_measure p"
proof -
  have i: "i < length (m_threads p)" using assms(1) by (simp add: worker_enabled_def)
  note upd = sum_list_update_rank [OF i, of "worker_rank (m_stopped p)"]
  have avail: "stop_rank n (case pc of DrainWait \<Rightarrow> DrainWoken | pc \<Rightarrow> pc) \<le> stop_rank n pc + 1" for n pc
    by (cases pc) (simp_all add: stop_rank_def)
  note defs = pool_measure_def execute_step_def take_task_def set_worker_def worker_rank_def
  show ?thesis
  proof (cases "m_threads p ! i")
    case AtLock
    then show ?thesis
      using upd [of Waiting] upd [of Notifying] upd [of "Running (hd (m_tasks p))"]
      by (cases "m_tasks p") (auto simp: defs)
  next
    case Woken
    then show ?thesis using upd [of Notifying] upd [of "Running (hd (m_tasks p))"]
      by (cases "m_tasks p") (auto simp: defs)
  next
    case (Running t)
    then show ?thesis using upd [of Notifying] by (auto simp: defs)
  next
    case Notifying
    then show ?thesis using upd [of Testing] avail [of "length (m_threads p)" "stop_pc p"]
      by (auto simp: defs notify_available_def)
  next
    case Testing
    then show ?thesis using upd [of AtLock] upd [of Finished] by (auto simp: defs)
  qed (use assms(1) in \<open>auto simp: worker_enabled_def\<close>)
qed

lemma stop_measure:
  assumes "stop_enabled p" "phase_inv rem p"
  shows "pool_measure (stop_step p) < pool_measure p"
proof (cases "stop_pc p")
  case SetStopped
  then have "\<not> m_stopped p" using assms(2) by (simp add: phase_inv_def)
  then show ?thesis using SetStopped rank_stopped [of "m_threads p"]
    by (simp add: pool_measure_def stop_step_def stop_rank_def)
next
  case NotifyNeeded
  then show ?thesis using rank_notify [of "m_stopped p" "m_threads p"]
    by (simp add: pool_measure_def stop_step_def stop_rank_def notify_needed_def)
qed (use assms in \<open>auto simp: pool_measure_def stop_step_def stop_rank_def stop_enabled_def\<close>)

lemma own_step_measure:
  assumes "own_step p p'" "phase_inv rem p" "stop_pc p \<noteq> NotCalled"
  shows "pool_measure p' < pool_measure p"
  using assms by (induction rule: own_step.induct) (auto intro: worker_measure stop_measure)

lemma stop_called_stays:
  assumes "own_step p p'" "stop_pc p \<noteq> NotCalled"
  shows "stop_pc p' \<noteq> NotCalled"
  using assms by (induction rule: own_step.induct)
    (auto simp: pool_defs split: worker.splits stopper.splits if_splits)

lemma own_run:
  assumes "(own_step ^^ k) p p'" "pool_reachable rem n p" "stop_pc p \<noteq> NotCalled"
  shows "pool_reachable rem n p' \<and> stop_pc p' \<noteq> NotCalled \<and> k + pool_measure p' \<le> pool_measure p"
  using assms(1)
proof (induction k arbitrary: p')
  case 0
  then show ?case using assms(2,3) by simp
next
  case (Suc k)
  then obtain q where q: "(own_step ^^ k) p q" "own_step q p'" by auto
  then have IH: "pool_reachable rem n q" "stop_pc q \<noteq> NotCalled" "k + pool_measure q \<le> pool_measure p"
    using Suc.IH by auto
  have "pool_reachable rem n p'" using IH(1) q(2) own_step_pool_step pool_reachable.step by blast
  moreover have "pool_measure p' < pool_measure q"
    using own_step_measure q(2) IH reachable_inv by blast
  ultimately show ?case using IH stop_called_stays [OF q(2)] by simp
qed

section \<open>Properties\<close>

text \<open>No task is lost and none runs twice, in any interleaving: the accepted tasks are, counted with
  multiplicity, those waiting in the queue, those running and those executed.\<close>

theorem tasks_conserved:
  assumes "pool_reachable rem n p"
  shows "mset (accepted p) = mset (m_tasks p) + running_all (m_threads p) + mset (executed p)"
  using reachable_conserved [OF assms] by (simp add: conserved_def)

definition one_task_pool :: "nat pool" where
  "one_task_pool = execute_step 0 (the (Submit 7 (ThreadPoolInit 1)))"

lemma one_task_pool_reachable: "pool_reachable rem 1 one_task_pool"
proof -
  let ?p = "the (Submit 7 (ThreadPoolInit 1)) :: nat pool"
  have "Submit 7 (ThreadPoolInit 1) = Some ?p" by (simp add: Submit_def ThreadPoolInit_def)
  then have "pool_step rem (ThreadPoolInit 1) ?p" by (rule pool_step.submit)
  then have "pool_reachable rem 1 ?p" by (rule pool_reachable.step [OF pool_reachable.init])
  moreover have "worker_enabled 0 ?p" by (simp add: pool_defs ThreadPoolInit_def)
  ultimately show ?thesis
    unfolding one_task_pool_def by (auto intro: pool_reachable.step pool_step.worker)
qed

theorem tasks_conserved_witness: "mset (accepted one_task_pool) = {#7#}"
  using tasks_conserved [OF one_task_pool_reachable [of True]]
  by (simp add: one_task_pool_def pool_defs ThreadPoolInit_def running_all_def running_def)

text \<open>C38: When \<open>Stop(true)\<close> has returned, every accepted task has been executed exactly once and no
  thread is left.\<close>

theorem stop_drains:
  assumes "pool_reachable True n p" "stop_pc p = Returned"
  shows "mset (executed p) = mset (accepted p) \<and> (\<forall>w \<in> set (m_threads p). w = Finished)"
proof -
  have inv: "phase_inv True p" using reachable_inv [OF assms(1)] by simp
  then have "m_tasks p = []" and fin: "\<forall>w \<in> set (m_threads p). w = Finished"
    using assms(2) by (simp_all add: phase_inv_def)
  moreover have "running_all ws = {#}" if "\<forall>w \<in> set ws. w = Finished" for ws :: "'a worker list"
    using that by (induction ws) (simp_all add: running_all_def running_def)
  ultimately show ?thesis using reachable_conserved [OF assms(1)] by (simp add: conserved_def)
qed

text \<open>A run of the first worker and of the stopping thread: the moves say which of the two goes on.\<close>

fun run_moves :: "bool list \<Rightarrow> 't pool \<Rightarrow> 't pool option" where
  "run_moves [] p = Some p"
| "run_moves (True # ms) p = (if stop_enabled p then run_moves ms (stop_step p) else None)"
| "run_moves (False # ms) p = (if worker_enabled 0 p then run_moves ms (execute_step 0 p) else None)"

lemma run_moves_reachable:
  "pool_reachable rem n p \<Longrightarrow> run_moves ms p = Some p' \<Longrightarrow> pool_reachable rem n p'"
proof (induction ms arbitrary: p)
  case Nil
  then show ?case by simp
next
  case (Cons m ms)
  then show ?case
    by (cases m) (auto split: if_splits intro: pool_reachable.step pool_step.worker pool_step.stopping)
qed

text \<open>One worker and one task: \<open>Stop\<close> waits until the worker has taken the task.\<close>

definition one_task_stopping :: "nat pool" where
  "one_task_stopping = stop_call True (the (Submit 7 (ThreadPoolInit 1)))"

lemma one_task_stopping_reachable: "pool_reachable True 1 one_task_stopping"
proof -
  let ?p = "the (Submit 7 (ThreadPoolInit 1)) :: nat pool"
  have "Submit 7 (ThreadPoolInit 1) = Some ?p" by (simp add: Submit_def ThreadPoolInit_def)
  then have "pool_reachable True 1 ?p" by (blast intro: pool_reachable.intros pool_step.submit)
  moreover have "stop_pc ?p = NotCalled" by (simp add: pool_defs ThreadPoolInit_def)
  ultimately show ?thesis unfolding one_task_stopping_def by (blast intro: pool_reachable.step pool_step.stop_begins)
qed

definition stopped_pool :: "nat pool" where
  "stopped_pool = \<lparr>m_tasks = [], m_stopped = True, m_stopping = True, m_threads = [Finished], stop_pc = Returned,
     accepted = [7], executed = [7]\<rparr>"

lemma stopped_pool_run:
  "run_moves [True, False, False, False, True, False, True, False, False, False, True, True] one_task_stopping =
   Some stopped_pool"
  by (simp add: stopped_pool_def one_task_stopping_def pool_defs ThreadPoolInit_def)

theorem stop_drains_witness: "mset (executed stopped_pool) = {#7#} \<and> m_threads stopped_pool = [Finished]"
  using stop_drains [OF run_moves_reachable [OF one_task_stopping_reachable stopped_pool_run]]
  by (simp add: stopped_pool_def)

text \<open>\<open>Stop\<close> always comes back: once it has been called, the threads can take only a bounded number
  of steps by themselves (spurious wake-ups aside), and as long as it has not returned some thread
  can take one; there is no deadlock and no lost wake-up.\<close>

theorem stop_returns:
  assumes "pool_reachable rem n p" "0 < n" "stop_pc p \<noteq> NotCalled" "(own_step ^^ k) p p'"
  shows "k \<le> pool_measure p \<and> (stop_pc p' = Returned \<or> (\<exists>p''. own_step p' p''))"
proof -
  note run = own_run [OF assms(4,1,3)]
  then have "phase_inv rem p'" "worker_inv p'" "m_threads p' \<noteq> []"
    using reachable_inv [of rem n p'] assms(2) by auto
  then show ?thesis using run progress [of rem p'] by auto
qed

theorem stop_returns_witness:
  "\<exists>p''. own_step (stop_call True one_task_pool) p''"
proof -
  have "pool_reachable True 1 (stop_call True one_task_pool)"
    by (rule pool_reachable.step [OF one_task_pool_reachable], rule pool_step.stop_begins)
      (simp add: one_task_pool_def pool_defs ThreadPoolInit_def)
  moreover have "stop_pc (stop_call True one_task_pool) = Draining"
    by (simp add: one_task_pool_def pool_defs ThreadPoolInit_def)
  ultimately show ?thesis
    using stop_returns [of True 1 "stop_call True one_task_pool" 0] by simp
qed

end
