(* ===== verification/Phrase_Words.thy ===== *)
theory Phrase_Words
  imports Util_Strings Words_Range Std_Set
begin

text \<open>
  Factors, words and phrases (\<open>FactorCollection.cpp\<close>, \<open>Word.h\<close>, \<open>Word.cpp\<close>,
  \<open>Phrase.h\<close>, \<open>Phrase.cpp\<close>). A factor is interned: the pointer to it is its number in
  the collection, a null pointer is \<open>None\<close>, and pointers are ordered by that number. A word has
  \<open>MAX_NUM_FACTORS\<close> factor pointers, a phrase is its list of words. The number of factors in
  use, a global of the decoder, is an argument.
\<close>

section \<open>Factors\<close>

definition MAX_NUM_FACTORS :: nat where
  "MAX_NUM_FACTORS = 4"

type_synonym factor = nat

text \<open>The strings of the collection in the order of their ids.\<close>

type_synonym factor_collection = "string list"

definition AddFactor :: "string \<Rightarrow> factor_collection \<Rightarrow> factor \<times> factor_collection" where
  "AddFactor s coll =
     (case find (\<lambda>i. coll ! i = s) [0..<length coll] of
        Some i \<Rightarrow> (i, coll)
      | None \<Rightarrow> (length coll, coll @ [s]))"

section \<open>Words\<close>

record word =
  m_factorArray :: "factor option list"
  m_isNonTerminal :: bool

type_synonym phrase = "word list"

definition EmptyWord :: "bool \<Rightarrow> word" where
  "EmptyWord isNonTerminal =
     \<lparr>m_factorArray = replicate MAX_NUM_FACTORS None, m_isNonTerminal = isNonTerminal\<rparr>"

definition WordGetFactor :: "word \<Rightarrow> nat \<Rightarrow> factor option" where
  "WordGetFactor w factorType = m_factorArray w ! factorType"

definition WordSetFactor :: "nat \<Rightarrow> factor option \<Rightarrow> word \<Rightarrow> word" where
  "WordSetFactor factorType factor w = w\<lparr>m_factorArray := (m_factorArray w)[factorType := factor]\<rparr>"

fun compare_factors :: "(factor option \<times> factor option) list \<Rightarrow> int" where
  "compare_factors [] = 0"
| "compare_factors ((None, s) # fs) = compare_factors fs"
| "compare_factors ((Some t, None) # fs) = compare_factors fs"
| "compare_factors ((Some t, Some s) # fs) =
     (if t = s then compare_factors fs else if t < s then -1 else 1)"

definition WordCompare :: "word \<Rightarrow> word \<Rightarrow> int" where
  "WordCompare targetWord sourceWord =
     (if m_isNonTerminal targetWord \<noteq> m_isNonTerminal sourceWord
      then (if m_isNonTerminal targetWord then -1 else 1)
      else compare_factors
             (map (\<lambda>f. (WordGetFactor targetWord f, WordGetFactor sourceWord f)) [0..<MAX_NUM_FACTORS]))"

definition WordMerge :: "word \<Rightarrow> word \<Rightarrow> word" where
  "WordMerge w sourceWord =
     fold (\<lambda>f w. if WordGetFactor w f = None \<and> WordGetFactor sourceWord f \<noteq> None
                  then WordSetFactor f (WordGetFactor sourceWord f) w else w) [0..<MAX_NUM_FACTORS] w"

definition WordGetString :: "factor_collection \<Rightarrow> string \<Rightarrow> nat list \<Rightarrow> bool \<Rightarrow> word \<Rightarrow> string" where
  "WordGetString coll factorDelimiter factorType endWithBlank w =
     (let (strme, firstPass) =
        fold (\<lambda>f (strme, firstPass).
            case WordGetFactor w f of
              None \<Rightarrow> (strme, firstPass)
            | Some factor \<Rightarrow> (strme @ (if firstPass then '''' else factorDelimiter) @ coll ! factor, False))
          factorType ('''', True)
      in strme @ (if endWithBlank then '' '' else ''''))"

text \<open>\<open>None\<close> is the failed assertion on the number of factors.\<close>

fun set_factors :: "(nat \<times> string) list \<Rightarrow> word \<times> factor_collection \<Rightarrow> word \<times> factor_collection" where
  "set_factors [] wc = wc"
| "set_factors ((factorType, s) # fs) (w, coll) =
     (let (factor, coll) = AddFactor s coll in set_factors fs (WordSetFactor factorType (Some factor) w, coll))"

definition WordCreateFromString ::
    "nat list \<Rightarrow> string \<Rightarrow> bool \<Rightarrow> factor_collection \<Rightarrow> (word \<times> factor_collection) option" where
  "WordCreateFromString factorOrder str isNonTerminal coll =
     (let wordVec = Tokenize str ''|''
      in if length wordVec \<noteq> length factorOrder then None
         else let (w, coll) = set_factors (zip factorOrder wordVec) (EmptyWord False, coll)
              in Some (w\<lparr>m_isNonTerminal := isNonTerminal\<rparr>, coll))"

definition CreateUnknownWord :: "string \<Rightarrow> word \<Rightarrow> factor_collection \<Rightarrow> word \<times> factor_collection" where
  "CreateUnknownWord unknown_factor sourceWord coll =
     (let (w, coll) =
        fold (\<lambda>f (w, coll).
            let (factor, coll) = AddFactor
                  (case WordGetFactor sourceWord f of None \<Rightarrow> unknown_factor | Some s \<Rightarrow> coll ! s) coll
            in (WordSetFactor f (Some factor) w, coll))
          [0..<MAX_NUM_FACTORS] (EmptyWord False, coll)
      in (w\<lparr>m_isNonTerminal := m_isNonTerminal sourceWord\<rparr>, coll))"

section \<open>Phrases\<close>

definition PhraseGetFactor :: "phrase \<Rightarrow> nat \<Rightarrow> nat \<Rightarrow> factor option" where
  "PhraseGetFactor p pos factorType = WordGetFactor (p ! pos) factorType"

definition PhraseSetFactor :: "nat \<Rightarrow> nat \<Rightarrow> factor option \<Rightarrow> phrase \<Rightarrow> phrase" where
  "PhraseSetFactor pos factorType factor p = p[pos := WordSetFactor factorType factor (p ! pos)]"

definition MergeFactors :: "nat \<Rightarrow> phrase \<Rightarrow> phrase \<Rightarrow> phrase option" where
  "MergeFactors maxNumFactors p copy =
     (if length p \<noteq> length copy then None
      else Some (fold (\<lambda>pos. fold (\<lambda>f p.
             case PhraseGetFactor copy pos f of
               None \<Rightarrow> p
             | Some factor \<Rightarrow> PhraseSetFactor pos f (Some factor) p) [0..<maxNumFactors]) [0..<length p] p))"

definition MergeFactorsVec :: "nat list \<Rightarrow> phrase \<Rightarrow> phrase \<Rightarrow> phrase option" where
  "MergeFactorsVec factorVec p copy =
     (if length p \<noteq> length copy then None
      else Some (fold (\<lambda>pos. fold (\<lambda>f p. PhraseSetFactor pos f (PhraseGetFactor copy pos f) p) factorVec)
             [0..<length p] p))"

definition GetSubString :: "phrase \<Rightarrow> words_range \<Rightarrow> phrase" where
  "GetSubString p r = map (\<lambda>currPos. p ! currPos) [m_startPos r..<Suc (m_endPos r)]"

definition PhraseGetStringRep :: "factor_collection \<Rightarrow> string \<Rightarrow> nat list \<Rightarrow> phrase \<Rightarrow> string" where
  "PhraseGetStringRep coll factorDelimiter factorsToPrint p =
     concat (map (\<lambda>pos. WordGetString coll factorDelimiter factorsToPrint (pos \<noteq> length p - 1) (p ! pos))
       [0..<length p])"

definition Append :: "phrase \<Rightarrow> phrase \<Rightarrow> phrase" where
  "Append p endPhrase = fold (\<lambda>i p. p @ [endPhrase ! i]) [0..<length endPhrase] p"

definition PrependWord :: "word \<Rightarrow> phrase \<Rightarrow> phrase" where
  "PrependWord newWord p =
     (fold (\<lambda>pos q. q[pos := q ! (pos - 1)]) (rev [1..<length p + 1]) (p @ [EmptyWord False]))[0 := newWord]"

fun compare_words :: "(word \<times> word) list \<Rightarrow> int" where
  "compare_words [] = 0"
| "compare_words ((t, o') # ws) =
     (let ret = WordCompare t o' in if ret \<noteq> 0 then ret else compare_words ws)"

definition PhraseCompare :: "phrase \<Rightarrow> phrase \<Rightarrow> int" where
  "PhraseCompare p other =
     (if length p \<noteq> length other then (if length p < length other then -1 else 1)
      else compare_words (zip p other))"

definition PhraseContains :: "factor_collection \<Rightarrow> string list list \<Rightarrow> nat list \<Rightarrow> phrase \<Rightarrow> bool" where
  "PhraseContains coll subPhraseVector inputFactor p =
     (let subSize = length subPhraseVector; thisSize = length p
      in if subSize > thisSize then False
         else list_ex (\<lambda>currStartPos.
                list_all (\<lambda>k.
                  list_all (\<lambda>currSubPos.
                    subPhraseVector ! currSubPos ! k =
                      coll ! the (PhraseGetFactor p (currSubPos + currStartPos) (inputFactor ! k)))
                    [0..<subSize]) [0..<length inputFactor]) [0..<thisSize - subSize + 1])"

definition IsCompatible :: "nat \<Rightarrow> phrase \<Rightarrow> phrase \<Rightarrow> bool" where
  "IsCompatible maxNumFactors p inputPhrase =
     (if length inputPhrase \<noteq> length p then False
      else list_all (\<lambda>currPos. list_all (\<lambda>f.
             \<not> (PhraseGetFactor p currPos f \<noteq> None \<and> PhraseGetFactor inputPhrase currPos f \<noteq> None \<and>
                PhraseGetFactor p currPos f \<noteq> PhraseGetFactor inputPhrase currPos f))
           [0..<maxNumFactors]) [0..<length p])"

definition IsCompatibleVec :: "nat list \<Rightarrow> phrase \<Rightarrow> phrase \<Rightarrow> bool" where
  "IsCompatibleVec factorVec p inputPhrase =
     (if length inputPhrase \<noteq> length p then False
      else list_all (\<lambda>currPos. list_all (\<lambda>f.
             PhraseGetFactor p currPos f = PhraseGetFactor inputPhrase currPos f) factorVec) [0..<length p])"

definition GetNumTerminals :: "phrase \<Rightarrow> nat" where
  "GetNumTerminals p = fold (\<lambda>pos ret. if \<not> m_isNonTerminal (p ! pos) then ret + 1 else ret) [0..<length p] 0"

text \<open>
  Reading a phrase: words between blanks, factors between the delimiter; \<open>None\<close> is the abort on a
  word with too few factors. Further factors are ignored.
\<close>

definition phrase_word :: "nat list \<Rightarrow> string \<Rightarrow> string \<Rightarrow> factor_collection \<Rightarrow> (word \<times> factor_collection) option" where
  "phrase_word factorOrder factorDelimiter str coll =
     (case TokenizeMultiCharSeparator str factorDelimiter of
        None \<Rightarrow> None
      | Some factors \<Rightarrow>
          if length factors < length factorOrder then None
          else Some (set_factors (zip factorOrder factors) (EmptyWord False, coll)))"

fun phrase_words :: "nat list \<Rightarrow> string \<Rightarrow> string list \<Rightarrow> phrase \<Rightarrow> factor_collection \<Rightarrow>
    (phrase \<times> factor_collection) option" where
  "phrase_words factorOrder factorDelimiter [] p coll = Some (p, coll)"
| "phrase_words factorOrder factorDelimiter (str # strs) p coll =
     (case phrase_word factorOrder factorDelimiter str coll of
        None \<Rightarrow> None
      | Some (w, coll) \<Rightarrow> phrase_words factorOrder factorDelimiter strs (p @ [w]) coll)"

definition CreateFromString :: "nat list \<Rightarrow> string \<Rightarrow> string \<Rightarrow> phrase \<Rightarrow> factor_collection \<Rightarrow>
    (phrase \<times> factor_collection) option" where
  "CreateFromString factorOrder phraseString factorDelimiter p coll =
     phrase_words factorOrder factorDelimiter (Tokenize phraseString [CHR 0x20, CHR 0x09]) p coll"

text \<open>The format of the hierarchical models, with non-terminals in brackets and the left-hand side last.\<close>

definition annotated_word :: "bool \<Rightarrow> string \<Rightarrow> (string \<times> bool) option" where
  "annotated_word isInput annotatedWord =
     (if substr annotatedWord 0 1 = ''['' \<and> substr annotatedWord (length annotatedWord - 1) 1 = '']''
      then let nextPos = str_find annotatedWord ''['' 1
           in if nextPos = NOT_FOUND then None
              else if isInput then Some (substr annotatedWord 1 (sz_sub nextPos 2), True)
              else Some (substr annotatedWord (nextPos + 1) (sz_sub (sz_sub (length annotatedWord) nextPos) 2), True)
      else Some (annotatedWord, False))"

fun new_format_words :: "bool \<Rightarrow> nat list \<Rightarrow> string list \<Rightarrow> phrase \<Rightarrow> factor_collection \<Rightarrow>
    (phrase \<times> factor_collection) option" where
  "new_format_words isInput factorOrder [] p coll = Some (p, coll)"
| "new_format_words isInput factorOrder (s # ss) p coll =
     (case annotated_word isInput s of
        None \<Rightarrow> None
      | Some (s, isNonTerminal) \<Rightarrow>
          (case WordCreateFromString factorOrder s isNonTerminal coll of
             None \<Rightarrow> None
           | Some (w, coll) \<Rightarrow> new_format_words isInput factorOrder ss (p @ [w]) coll))"

definition CreateFromStringNewFormat :: "bool \<Rightarrow> nat list \<Rightarrow> string \<Rightarrow> phrase \<Rightarrow> factor_collection \<Rightarrow>
    (phrase \<times> word \<times> factor_collection) option" where
  "CreateFromStringNewFormat isInput factorOrder phraseString p coll =
     (let annotatedWordVector = Tokenize phraseString [CHR 0x20, CHR 0x09]
      in if annotatedWordVector = [] then None
         else case new_format_words isInput factorOrder (butlast annotatedWordVector) p coll of
           None \<Rightarrow> None
         | Some (p, coll) \<Rightarrow>
             let annotatedWord = last annotatedWordVector
             in if \<not> (substr annotatedWord 0 1 = ''['' \<and> substr annotatedWord (length annotatedWord - 1) 1 = '']'')
                then None
                else case WordCreateFromString factorOrder (substr annotatedWord 1 (sz_sub (length annotatedWord) 2)) True coll of
                  None \<Rightarrow> None
                | Some (lhs, coll) \<Rightarrow> Some (p, lhs, coll))"

section \<open>The order of words with the same factors\<close>

definition mask :: "word \<Rightarrow> bool list" where
  "mask w = map (\<lambda>f. f \<noteq> None) (m_factorArray w)"

definition masked :: "bool list \<Rightarrow> word \<Rightarrow> bool" where
  "masked m w \<longleftrightarrow> mask w = m \<and> length m = MAX_NUM_FACTORS"

definition nonterminal_cmp :: "word \<Rightarrow> word \<Rightarrow> int" where
  "nonterminal_cmp w v = lin_cmp (\<not> m_isNonTerminal w) (\<not> m_isNonTerminal v)"

fun factors_cmp :: "nat list \<Rightarrow> word \<Rightarrow> word \<Rightarrow> int" where
  "factors_cmp [] w v = 0"
| "factors_cmp (f # fs) w v =
     lex_cmp (\<lambda>w v. lin_cmp (case WordGetFactor w f of None \<Rightarrow> 0 | Some x \<Rightarrow> Suc x)
        (case WordGetFactor v f of None \<Rightarrow> 0 | Some x \<Rightarrow> Suc x)) (factors_cmp fs) w v"

lemma three_way_factors: "three_way valid (factors_cmp fs)"
proof (induction fs)
  case Nil
  then show ?case using three_way_zero [of valid] by (simp add: factors_cmp.simps [abs_def])
next
  case (Cons f fs)
  have "factors_cmp (f # fs) = lex_cmp (\<lambda>w v. lin_cmp (case WordGetFactor w f of None \<Rightarrow> 0 | Some x \<Rightarrow> Suc x)
        (case WordGetFactor v f of None \<Rightarrow> 0 | Some x \<Rightarrow> Suc x)) (factors_cmp fs)"
    by (intro ext) simp
  moreover have "three_way valid (\<lambda>w v. lin_cmp (case WordGetFactor w f of None \<Rightarrow> 0 | Some x \<Rightarrow> Suc x)
        (case WordGetFactor v f of None \<Rightarrow> 0 | Some x \<Rightarrow> Suc x))"
    by (rule three_way_map [OF three_way_lin]) simp
  ultimately show ?case using three_way_lex Cons by metis
qed

lemma compare_factors_eq:
  assumes "\<forall>f \<in> set fs. (WordGetFactor w f = None) = (WordGetFactor v f = None)"
  shows "compare_factors (map (\<lambda>f. (WordGetFactor w f, WordGetFactor v f)) fs) = factors_cmp fs w v"
  using assms
proof (induction fs)
  case Nil
  then show ?case by simp
next
  case (Cons f fs)
  then show ?case
    by (cases "WordGetFactor w f"; cases "WordGetFactor v f") (auto simp: lex_cmp_def lin_cmp_def)
qed

lemma masked_factor_None:
  assumes "masked m w" "masked m v" "f < MAX_NUM_FACTORS"
  shows "(WordGetFactor w f = None) = (WordGetFactor v f = None)"
proof -
  have "length (m_factorArray w) = MAX_NUM_FACTORS" "length (m_factorArray v) = MAX_NUM_FACTORS"
    using assms(1,2) by (metis masked_def mask_def length_map)+
  moreover have "mask w ! f = mask v ! f" using assms(1,2) by (simp add: masked_def)
  ultimately show ?thesis using assms(3) by (auto simp: mask_def WordGetFactor_def)
qed

lemma three_way_word: "three_way (masked m) WordCompare"
proof (rule three_way_sgn_cong)
  have "three_way (masked m) nonterminal_cmp"
    unfolding nonterminal_cmp_def by (rule three_way_map [OF three_way_lin]) simp
  then show "three_way (masked m) (lex_cmp nonterminal_cmp (factors_cmp [0..<MAX_NUM_FACTORS]))"
    by (rule three_way_lex [OF _ three_way_factors])
  fix w v assume "masked m w" "masked m v"
  then have eq: "compare_factors (map (\<lambda>f. (WordGetFactor w f, WordGetFactor v f)) [0..<MAX_NUM_FACTORS]) =
      factors_cmp [0..<MAX_NUM_FACTORS] w v"
  proof (intro compare_factors_eq ballI)
    fix f assume "f \<in> set [0..<MAX_NUM_FACTORS]"
    then show "(WordGetFactor w f = None) = (WordGetFactor v f = None)"
      using masked_factor_None [OF \<open>masked m w\<close> \<open>masked m v\<close>] by simp
  qed
  show "sgn (WordCompare w v) = sgn (lex_cmp nonterminal_cmp (factors_cmp [0..<MAX_NUM_FACTORS]) w v)"
    unfolding WordCompare_def eq lex_cmp_def nonterminal_cmp_def lin_cmp_def
    by (cases "m_isNonTerminal w"; cases "m_isNonTerminal v") simp_all
qed

interpretation word_order: three_way "masked m" WordCompare for m
  by (rule three_way_word)

fun words_cmp :: "nat \<Rightarrow> phrase \<Rightarrow> phrase \<Rightarrow> int" where
  "words_cmp 0 p q = 0"
| "words_cmp (Suc n) p q = lex_cmp (\<lambda>p q. words_cmp n p q) (\<lambda>p q. WordCompare (p ! n) (q ! n)) p q"

lemma compare_words_append:
  "compare_words (ps @ qs) = (if compare_words ps \<noteq> 0 then compare_words ps else compare_words qs)"
  by (induction ps rule: compare_words.induct) (auto simp: Let_def)

lemma compare_words_words_cmp:
  "length p = length q \<Longrightarrow> n \<le> length p \<Longrightarrow> compare_words (zip (take n p) (take n q)) = words_cmp n p q"
proof (induction n)
  case 0
  then show ?case by simp
next
  case (Suc n)
  then have "zip (take (Suc n) p) (take (Suc n) q) = zip (take n p) (take n q) @ [(p ! n, q ! n)]"
    by (simp add: take_Suc_conv_app_nth)
  then show ?case using Suc by (simp add: compare_words_append lex_cmp_def Let_def)
qed

definition phrase_masked :: "bool list \<Rightarrow> nat \<Rightarrow> phrase \<Rightarrow> bool" where
  "phrase_masked m n p \<longleftrightarrow> length p = n \<and> (\<forall>w \<in> set p. masked m w)"

lemma three_way_words: "n \<le> k \<Longrightarrow> three_way (phrase_masked m k) (words_cmp n)"
proof (induction n)
  case 0
  then show ?case using three_way_zero by (simp add: words_cmp.simps [abs_def])
next
  case (Suc n)
  have "three_way (phrase_masked m k) (\<lambda>p q. WordCompare (p ! n) (q ! n))"
    by (rule three_way_map [OF three_way_word [of m]]) (use Suc in \<open>auto simp: phrase_masked_def\<close>)
  then have "three_way (phrase_masked m k) (lex_cmp (words_cmp n) (\<lambda>p q. WordCompare (p ! n) (q ! n)))"
    using Suc three_way_lex by simp
  moreover have "words_cmp (Suc n) = lex_cmp (words_cmp n) (\<lambda>p q. WordCompare (p ! n) (q ! n))"
    by (intro ext) simp
  ultimately show ?case by simp
qed

lemma three_way_phrase: "three_way (\<lambda>p. \<forall>w \<in> set p. masked m w) PhraseCompare"
proof
  have eq: "PhraseCompare p q = words_cmp (length p) p q" if "length p = length q" for p q
    using compare_words_words_cmp [OF that, of "length p"] that by (simp add: PhraseCompare_def)
  fix p q assume "\<forall>w \<in> set p. masked m w" "\<forall>w \<in> set q. masked m w"
  then show "sgn (PhraseCompare q p) = - sgn (PhraseCompare p q)"
    using three_way.cmp_swap [OF three_way_words [OF order_refl], of m "length p" p q] eq [of p q] eq [of q p]
    by (cases "length p = length q") (auto simp: phrase_masked_def PhraseCompare_def)
next
  have eq: "PhraseCompare p q = words_cmp (length p) p q" if "length p = length q" for p q
    using compare_words_words_cmp [OF that, of "length p"] that by (simp add: PhraseCompare_def)
  fix p q r assume v: "\<forall>w \<in> set p. masked m w" "\<forall>w \<in> set q. masked m w" "\<forall>w \<in> set r. masked m w"
    and le: "PhraseCompare p q \<le> 0" "PhraseCompare q r \<le> 0"
  have len: "length p \<le> length q" "length q \<le> length r"
    using le by (auto simp: PhraseCompare_def split: if_splits)
  show "PhraseCompare p r \<le> 0"
  proof (cases "length p = length r")
    case True
    then have "length p = length q" "length q = length r" using len by simp_all
    then show ?thesis
      using three_way.cmp_trans [OF three_way_words [OF order_refl], of m "length p" p q r] v le eq
      by (auto simp: phrase_masked_def)
  next
    case False
    then show ?thesis using len by (simp add: PhraseCompare_def)
  qed
qed

interpretation phrase_order: three_way "\<lambda>p. \<forall>w \<in> set p. masked m w" PhraseCompare for m
  by (rule three_way_phrase)

section \<open>Interned factors\<close>

lemma AddFactor_props:
  assumes "distinct coll"
  shows "distinct (snd (AddFactor s coll))" "fst (AddFactor s coll) < length (snd (AddFactor s coll))"
    "snd (AddFactor s coll) ! fst (AddFactor s coll) = s" "\<exists>ys. snd (AddFactor s coll) = coll @ ys"
proof -
  consider (found) i where "find (\<lambda>i. coll ! i = s) [0..<length coll] = Some i"
    | (absent) "find (\<lambda>i. coll ! i = s) [0..<length coll] = None" by (meson option.exhaust)
  then have "distinct (snd (AddFactor s coll)) \<and> fst (AddFactor s coll) < length (snd (AddFactor s coll)) \<and>
    snd (AddFactor s coll) ! fst (AddFactor s coll) = s \<and> (\<exists>ys. snd (AddFactor s coll) = coll @ ys)"
  proof cases
    case found
    then have "AddFactor s coll = (i, coll)" by (simp add: AddFactor_def)
    moreover have "i < length coll" "coll ! i = s" using found by (simp_all add: find_upt_Some)
    ultimately show ?thesis using assms by simp
  next
    case absent
    then have "s \<notin> set coll" by (auto simp: find_upt_None in_set_conv_nth)
    then show ?thesis using assms absent by (auto simp: AddFactor_def)
  qed
  then show "distinct (snd (AddFactor s coll))" "fst (AddFactor s coll) < length (snd (AddFactor s coll))"
    "snd (AddFactor s coll) ! fst (AddFactor s coll) = s" "\<exists>ys. snd (AddFactor s coll) = coll @ ys"
    by simp_all
qed

section \<open>Merging compatible phrases\<close>

definition wf_phrase :: "phrase \<Rightarrow> bool" where
  "wf_phrase p \<longleftrightarrow> (\<forall>w \<in> set p. length (m_factorArray w) = MAX_NUM_FACTORS)"

lemma PhraseSetFactor_length [simp]: "length (PhraseSetFactor pos f x p) = length p"
  by (simp add: PhraseSetFactor_def)

lemma wf_phrase_set [simp]: "wf_phrase p \<Longrightarrow> pos < length p \<Longrightarrow> wf_phrase (PhraseSetFactor pos f x p)"
  by (auto simp: wf_phrase_def PhraseSetFactor_def WordSetFactor_def dest!: set_update_subset_insert [THEN subsetD])

lemma PhraseGet_Set:
  "wf_phrase p \<Longrightarrow> pos < length p \<Longrightarrow> f < MAX_NUM_FACTORS \<Longrightarrow> pos' < length p \<Longrightarrow>
   PhraseGetFactor (PhraseSetFactor pos f x p) pos' f' =
     (if pos' = pos \<and> f' = f then x else PhraseGetFactor p pos' f')"
  by (auto simp: wf_phrase_def PhraseGetFactor_def PhraseSetFactor_def WordGetFactor_def WordSetFactor_def
      nth_list_update)

definition merge_word :: "phrase \<Rightarrow> nat \<Rightarrow> nat list \<Rightarrow> phrase \<Rightarrow> phrase" where
  "merge_word copy pos fs p = fold (\<lambda>f p. case PhraseGetFactor copy pos f of
       None \<Rightarrow> p | Some factor \<Rightarrow> PhraseSetFactor pos f (Some factor) p) fs p"

lemma merge_word_props:
  assumes "wf_phrase p" "pos < length p" "\<forall>f \<in> set fs. f < MAX_NUM_FACTORS"
  shows "wf_phrase (merge_word copy pos fs p) \<and> length (merge_word copy pos fs p) = length p \<and>
    (\<forall>pos' < length p. \<forall>f'. PhraseGetFactor (merge_word copy pos fs p) pos' f' =
       (if pos' = pos \<and> f' \<in> set fs \<and> PhraseGetFactor copy pos f' \<noteq> None
        then PhraseGetFactor copy pos f' else PhraseGetFactor p pos' f'))"
  using assms
proof (induction fs arbitrary: p)
  case Nil
  then show ?case by (simp add: merge_word_def)
next
  case (Cons f fs)
  show ?case
  proof (cases "PhraseGetFactor copy pos f")
    case None
    then show ?thesis using Cons by (auto simp: merge_word_def)
  next
    case (Some x)
    let ?p = "PhraseSetFactor pos f (Some x) p"
    have "merge_word copy pos (f # fs) p = merge_word copy pos fs ?p"
      using Some by (simp add: merge_word_def)
    then show ?thesis using Cons.IH [of ?p] Cons.prems Some by (auto simp: PhraseGet_Set)
  qed
qed

lemma MergeFactors_get:
  assumes "wf_phrase p" "length p = length copy" "nf \<le> MAX_NUM_FACTORS"
  shows "\<exists>r. MergeFactors nf p copy = Some r \<and> length r = length p \<and>
    (\<forall>pos < length p. \<forall>f. PhraseGetFactor r pos f =
       (if f < nf \<and> PhraseGetFactor copy pos f \<noteq> None then PhraseGetFactor copy pos f else PhraseGetFactor p pos f))"
proof -
  have "wf_phrase (fold (\<lambda>pos. merge_word copy pos [0..<nf]) [0..<k] p) \<and>
    length (fold (\<lambda>pos. merge_word copy pos [0..<nf]) [0..<k] p) = length p \<and>
    (\<forall>pos < length p. \<forall>f. PhraseGetFactor (fold (\<lambda>pos. merge_word copy pos [0..<nf]) [0..<k] p) pos f =
       (if pos < k \<and> f < nf \<and> PhraseGetFactor copy pos f \<noteq> None
        then PhraseGetFactor copy pos f else PhraseGetFactor p pos f))" if "k \<le> length p" for k
    using that
  proof (induction k)
    case 0
    then show ?case using assms(1) by simp
  next
    case (Suc k)
    let ?p = "fold (\<lambda>pos. merge_word copy pos [0..<nf]) [0..<k] p"
    have "wf_phrase ?p" "k < length ?p" "\<forall>f \<in> set [0..<nf]. f < MAX_NUM_FACTORS"
      using Suc assms(3) by auto
    note step = merge_word_props [OF this, of copy]
    then show ?case using Suc by (auto simp: less_Suc_eq)
  qed
  from this [of "length p"]
  have "length (fold (\<lambda>pos. merge_word copy pos [0..<nf]) [0..<length p] p) = length p \<and>
    (\<forall>pos < length p. \<forall>f. PhraseGetFactor (fold (\<lambda>pos. merge_word copy pos [0..<nf]) [0..<length p] p) pos f =
       (if f < nf \<and> PhraseGetFactor copy pos f \<noteq> None then PhraseGetFactor copy pos f else PhraseGetFactor p pos f))"
    by auto
  moreover have "MergeFactors nf p copy = Some (fold (\<lambda>pos. merge_word copy pos [0..<nf]) [0..<length p] p)"
    using assms(2) by (simp add: MergeFactors_def merge_word_def [abs_def])
  ultimately show ?thesis by blast
qed

section \<open>Properties\<close>

text \<open>Merging a phrase into a compatible one loses nothing: every factor either phrase defines is
  in the result, unchanged.\<close>

theorem merge_compatible_loses_nothing:
  assumes "wf_phrase p" "IsCompatible nf p copy" "nf \<le> MAX_NUM_FACTORS"
  shows "\<exists>r. MergeFactors nf p copy = Some r \<and> length r = length p \<and>
    (\<forall>pos < length p. \<forall>f < nf. \<forall>x.
       PhraseGetFactor p pos f = Some x \<or> PhraseGetFactor copy pos f = Some x \<longrightarrow> PhraseGetFactor r pos f = Some x)"
proof -
  have len: "length p = length copy" and
    compat: "\<forall>pos < length p. \<forall>f < nf. PhraseGetFactor p pos f = None \<or> PhraseGetFactor copy pos f = None \<or>
      PhraseGetFactor p pos f = PhraseGetFactor copy pos f"
    using assms(2) by (auto simp: IsCompatible_def list_all_iff split: if_splits)
  obtain r where r: "MergeFactors nf p copy = Some r" "length r = length p"
    "\<forall>pos < length p. \<forall>f. PhraseGetFactor r pos f =
       (if f < nf \<and> PhraseGetFactor copy pos f \<noteq> None then PhraseGetFactor copy pos f else PhraseGetFactor p pos f)"
    using MergeFactors_get [OF assms(1) len assms(3)] by blast
  have "PhraseGetFactor r pos f = Some x"
    if "pos < length p" "f < nf" "PhraseGetFactor p pos f = Some x \<or> PhraseGetFactor copy pos f = Some x" for pos f x
    using r(3) compat that by fastforce
  then show ?thesis using r(1,2) by blast
qed

definition two_factor_word :: "factor option \<Rightarrow> factor option \<Rightarrow> word" where
  "two_factor_word a b = \<lparr>m_factorArray = [a, b, None, None], m_isNonTerminal = False\<rparr>"

theorem merge_compatible_loses_nothing_witness:
  "\<exists>r. MergeFactors 2 [two_factor_word (Some 5) None] [two_factor_word None (Some 6)] = Some r \<and>
     PhraseGetFactor r 0 0 = Some 5 \<and> PhraseGetFactor r 0 1 = Some 6"
proof -
  let ?p = "[two_factor_word (Some 5) None]" and ?q = "[two_factor_word None (Some 6)]"
  have "wf_phrase ?p" "IsCompatible 2 ?p ?q" "(2::nat) \<le> MAX_NUM_FACTORS"
    by (simp_all add: wf_phrase_def two_factor_word_def MAX_NUM_FACTORS_def IsCompatible_def
        PhraseGetFactor_def WordGetFactor_def numeral_2_eq_2)
  from merge_compatible_loses_nothing [OF this] obtain r where r: "MergeFactors 2 ?p ?q = Some r"
    "\<forall>f < 2. \<forall>x. PhraseGetFactor ?p 0 f = Some x \<or> PhraseGetFactor ?q 0 f = Some x \<longrightarrow>
       PhraseGetFactor r 0 f = Some x" by auto
  then have "PhraseGetFactor r 0 0 = Some 5" "PhraseGetFactor r 0 1 = Some 6"
    by (simp_all add: PhraseGetFactor_def WordGetFactor_def two_factor_word_def)
  then show ?thesis using r(1) by blast
qed

text \<open>The comparison of words is not transitive when words define different factors, so it orders no
  set or map of such words: there are three words of which each is less than the next, in a
  circle.\<close>

theorem word_comparison_cycle:
  "\<exists>a b c. WordCompare a b < 0 \<and> WordCompare b c < 0 \<and> WordCompare c a < 0"
proof -
  let ?w = "\<lambda>x y z. \<lparr>m_factorArray = [x, y, z, None], m_isNonTerminal = False\<rparr>"
  have "WordCompare (?w (Some 1) None (Some 2)) (?w (Some 2) (Some 1) None) < 0"
    "WordCompare (?w (Some 2) (Some 1) None) (?w None (Some 2) (Some 1)) < 0"
    "WordCompare (?w None (Some 2) (Some 1)) (?w (Some 1) None (Some 2)) < 0"
    by (simp_all add: WordCompare_def MAX_NUM_FACTORS_def WordGetFactor_def upt_rec numeral_2_eq_2 numeral_3_eq_3)
  then show ?thesis by blast
qed

end
