(* ===== verification/Score_Components.thy ===== *)
theory Score_Components
  imports Prelude
begin

text \<open>
  The index manager that gives every feature a block of the score vector
  (\<open>ScoreIndexManager.cpp\<close>) and the score vector itself (\<open>ScoreComponentCollection.h\<close>).
  Scores are rational numbers; a failed assertion is \<open>None\<close>. A score producer is what the
  manager asks of it: its numbers of scores and of input scores, and its names. Adding or assigning the scores of a
  producer outside of the score vector, which the code does not check, is \<open>None\<close> as well.
\<close>

section \<open>Index manager\<close>

record score_producer =
  sp_components :: nat
  sp_input_scores :: nat
  sp_description :: "nat \<Rightarrow> string"
  sp_short_name :: "nat \<Rightarrow> string"

record score_index_manager =
  m_producers :: "score_producer list"
  m_begins :: "nat list"
  m_ends :: "nat list"
  m_last :: nat

definition ScoreIndexManagerInit :: score_index_manager where
  "ScoreIndexManagerInit = \<lparr>m_producers = [], m_begins = [], m_ends = [], m_last = 0\<rparr>"

text \<open>The bookkeeping id of the new producer is the number of producers before it.\<close>

definition AddScoreProducer :: "score_producer \<Rightarrow> score_index_manager \<Rightarrow> score_index_manager option" where
  "AddScoreProducer sp sim =
     (if \<not> sp_components sp > 0 then None
      else Some (sim\<lparr>m_producers := m_producers sim @ [sp], m_begins := m_begins sim @ [m_last sim],
                     m_last := m_last sim + sp_components sp,
                     m_ends := m_ends sim @ [m_last sim + sp_components sp]\<rparr>))"

definition GetBeginIndex :: "score_index_manager \<Rightarrow> nat \<Rightarrow> nat" where
  "GetBeginIndex sim i = m_begins sim ! i"

definition GetEndIndex :: "score_index_manager \<Rightarrow> nat \<Rightarrow> nat" where
  "GetEndIndex sim i = m_ends sim ! i"

definition index_suffix :: "bool \<Rightarrow> nat \<Rightarrow> string" where
  "index_suffix add_idx i = (if add_idx then ''_'' @ show_nat i else '''')"

text \<open>The names one producer adds: first those of its input scores, then the others.\<close>

definition input_names :: "score_producer \<Rightarrow> string list" where
  "input_names sp = map (\<lambda>nis. sp_description sp nis @ index_suffix (sp_input_scores sp > 1) (nis + 1))
     [0..<sp_input_scores sp]"

definition other_names :: "score_producer \<Rightarrow> nat \<Rightarrow> string list" where
  "other_names sp n = map (\<lambda>k. sp_description sp (sp_input_scores sp + k) @ index_suffix (n > 1) (k + 1)) [0..<n]"

definition other_short_names :: "score_producer \<Rightarrow> nat \<Rightarrow> string list" where
  "other_short_names sp n = map (\<lambda>k. sp_short_name sp (sp_input_scores sp + k)) [0..<n]"

fun feature_names :: "(score_producer \<times> nat) list \<Rightarrow> nat \<Rightarrow> nat \<Rightarrow> string list \<times> string list" where
  "feature_names [] m_lst cur_i = ([], [])"
| "feature_names ((sp, end_i) # ps) m_lst cur_i =
     (if \<not> cur_i < m_lst then ([], [])
      else let cur_i = cur_i + sp_input_scores sp;
               n = end_i - cur_i;
               (names, short_names) = feature_names ps m_lst (cur_i + n)
           in (input_names sp @ other_names sp n @ names, other_short_names sp n @ short_names))"

definition InitFeatureNames :: "score_index_manager \<Rightarrow> string list \<times> string list" where
  "InitFeatureNames sim = feature_names (zip (m_producers sim) (m_ends sim)) (m_last sim) 0"

text \<open>Printing needs a short name per weight.\<close>

definition PrintLabeledWeightedScores :: "string list \<Rightarrow> rat list \<Rightarrow> rat list \<Rightarrow> (string option \<times> rat) list option" where
  "PrintLabeledWeightedScores shortNames scores weights =
     (if length shortNames \<noteq> length weights then None
      else Some (map (\<lambda>i. (if shortNames ! i \<noteq> (if i = 0 then '''' else shortNames ! (i - 1))
                            then Some (shortNames ! i) else None, weights ! i * scores ! i))
             [0..<length shortNames]))"

section \<open>Score vectors\<close>

type_synonym score_components = "rat list"

definition ZeroAll :: "score_components \<Rightarrow> score_components" where
  "ZeroAll m_scores = map (\<lambda>x. 0) m_scores"

definition PlusEquals :: "score_components \<Rightarrow> score_components \<Rightarrow> score_components option" where
  "PlusEquals m_scores rhs =
     (if \<not> length m_scores \<ge> length rhs then None
      else Some (fold (\<lambda>i xs. xs[i := xs ! i + rhs ! i]) [0..<length rhs] m_scores))"

definition MinusEquals :: "score_components \<Rightarrow> score_components \<Rightarrow> score_components option" where
  "MinusEquals m_scores rhs =
     (if \<not> length m_scores \<ge> length rhs then None
      else Some (fold (\<lambda>i xs. xs[i := xs ! i - rhs ! i]) [0..<length rhs] m_scores))"

text \<open>The scores of a producer have somewhere to go.\<close>

definition block_inside :: "score_index_manager \<Rightarrow> nat \<Rightarrow> nat \<Rightarrow> score_components \<Rightarrow> bool" where
  "block_inside sim sp n m_scores \<longleftrightarrow> sp < length (m_begins sim) \<and> GetBeginIndex sim sp + n \<le> length m_scores"

definition PlusEqualsProducer :: "score_index_manager \<Rightarrow> nat \<Rightarrow> rat list \<Rightarrow> score_components \<Rightarrow> score_components option" where
  "PlusEqualsProducer sim sp scores m_scores =
     (if length scores \<noteq> sp_components (m_producers sim ! sp) \<or> \<not> block_inside sim sp (length scores) m_scores then None
      else Some (fold (\<lambda>k xs. xs[GetBeginIndex sim sp + k := xs ! (GetBeginIndex sim sp + k) + scores ! k])
                   [0..<length scores] m_scores))"

definition PlusEqualsBlock :: "score_index_manager \<Rightarrow> nat \<Rightarrow> score_components \<Rightarrow> score_components \<Rightarrow> score_components option" where
  "PlusEqualsBlock sim sp scores m_scores =
     (if sp < length (m_begins sim) \<and> GetEndIndex sim sp \<le> length scores \<and> GetEndIndex sim sp \<le> length m_scores
      then Some (fold (\<lambda>i xs. xs[i := xs ! i + scores ! i]) [GetBeginIndex sim sp..<GetEndIndex sim sp] m_scores)
      else None)"

definition AssignProducer :: "score_index_manager \<Rightarrow> nat \<Rightarrow> rat list \<Rightarrow> score_components \<Rightarrow> score_components option" where
  "AssignProducer sim sp scores m_scores =
     (if length scores \<noteq> sp_components (m_producers sim ! sp) \<or> \<not> block_inside sim sp (length scores) m_scores then None
      else Some (fold (\<lambda>k xs. xs[GetBeginIndex sim sp + k := scores ! k]) [0..<length scores] m_scores))"

definition InnerProduct :: "score_components \<Rightarrow> rat list \<Rightarrow> rat" where
  "InnerProduct m_scores rhs = fold (\<lambda>i acc. acc + m_scores ! i * rhs ! i) [0..<length m_scores] 0"

definition GetScoresForProducer :: "score_index_manager \<Rightarrow> nat \<Rightarrow> score_components \<Rightarrow> rat list" where
  "GetScoresForProducer sim sp m_scores =
     map (\<lambda>i. m_scores ! i) [GetBeginIndex sim sp..<GetEndIndex sim sp]"

definition PartialInnerProduct :: "score_index_manager \<Rightarrow> nat \<Rightarrow> score_components \<Rightarrow> rat list \<Rightarrow> rat option" where
  "PartialInnerProduct sim sp m_scores rhs =
     (let lhs = GetScoresForProducer sim sp m_scores
      in if length lhs \<noteq> length rhs then None else Some (InnerProduct lhs rhs))"

definition GetScoreForProducer :: "score_index_manager \<Rightarrow> nat \<Rightarrow> score_components \<Rightarrow> rat option" where
  "GetScoreForProducer sim sp m_scores =
     (if GetEndIndex sim sp - GetBeginIndex sim sp \<noteq> 1 then None else Some (m_scores ! GetBeginIndex sim sp))"

section \<open>Blocks of producers\<close>

text \<open>The blocks follow each other without gaps from 0 to the total.\<close>

definition wf_sim :: "score_index_manager \<Rightarrow> bool" where
  "wf_sim sim \<longleftrightarrow>
     length (m_begins sim) = length (m_producers sim) \<and> length (m_ends sim) = length (m_producers sim) \<and>
     (\<forall>i < length (m_producers sim).
        m_begins sim ! i = (\<Sum>sp \<leftarrow> take i (m_producers sim). sp_components sp) \<and>
        m_ends sim ! i = m_begins sim ! i + sp_components (m_producers sim ! i) \<and>
        0 < sp_components (m_producers sim ! i)) \<and>
     m_last sim = (\<Sum>sp \<leftarrow> m_producers sim. sp_components sp)"

lemma wf_sim_Init: "wf_sim ScoreIndexManagerInit"
  by (simp add: wf_sim_def ScoreIndexManagerInit_def)

lemma wf_sim_Add: "wf_sim sim \<Longrightarrow> AddScoreProducer sp sim = Some sim' \<Longrightarrow> wf_sim sim'"
  by (auto simp: wf_sim_def AddScoreProducer_def nth_append less_Suc_eq split: if_splits)

definition managers :: "score_producer list \<Rightarrow> score_index_manager option" where
  "managers sps = fold (\<lambda>sp sim. case sim of None \<Rightarrow> None | Some sim \<Rightarrow> AddScoreProducer sp sim) sps
     (Some ScoreIndexManagerInit)"

lemma managers_wf:
  assumes "managers sps = Some sim"
  shows "wf_sim sim \<and> m_producers sim = sps"
  using assms
proof (induction sps arbitrary: sim rule: rev_induct)
  case Nil
  then show ?case using wf_sim_Init by (auto simp: managers_def ScoreIndexManagerInit_def)
next
  case (snoc sp sps)
  then obtain sim0 where sim0: "managers sps = Some sim0" "AddScoreProducer sp sim0 = Some sim"
    by (auto simp: managers_def split: option.splits)
  then have "wf_sim sim" using snoc.IH wf_sim_Add by blast
  moreover have "m_producers sim = sps @ [sp]"
    using sim0 snoc.IH by (auto simp: AddScoreProducer_def split: if_splits)
  ultimately show ?case by simp
qed

lemma block_of:
  assumes "wf_sim sim" "i < length (m_producers sim)"
  shows "GetEndIndex sim i = GetBeginIndex sim i + sp_components (m_producers sim ! i)"
    "GetEndIndex sim i \<le> m_last sim"
    "i < j \<Longrightarrow> j < length (m_producers sim) \<Longrightarrow> GetEndIndex sim i \<le> GetBeginIndex sim j"
proof -
  let ?s = "\<lambda>k. \<Sum>sp \<leftarrow> take k (m_producers sim). sp_components sp"
  have beg: "GetBeginIndex sim k = ?s k" if "k < length (m_producers sim)" for k
    using assms(1) that by (simp add: wf_sim_def GetBeginIndex_def)
  show e: "GetEndIndex sim i = GetBeginIndex sim i + sp_components (m_producers sim ! i)"
    using assms by (simp add: wf_sim_def GetEndIndex_def GetBeginIndex_def)
  then have suc: "GetEndIndex sim i = ?s (Suc i)"
    using beg [OF assms(2)] assms(2) by (simp add: take_Suc_conv_app_nth)
  have mono: "?s k \<le> ?s l" if "k \<le> l" for k l
  proof -
    have "take l (m_producers sim) = take k (m_producers sim) @ take (l - k) (drop k (m_producers sim))"
      using that by (metis le_add_diff_inverse take_add)
    then show ?thesis by simp
  qed
  show "GetEndIndex sim i \<le> m_last sim"
    using suc mono [of "Suc i" "length (m_producers sim)"] assms by (simp add: wf_sim_def)
  show "GetEndIndex sim i \<le> GetBeginIndex sim j" if "i < j" "j < length (m_producers sim)"
    using suc beg that mono [of "Suc i" j] by simp
qed

lemma fold_assign:
  "length (fold (\<lambda>k xs. xs[b + k := scores ! k]) [0..<n] xs) = length xs"
  "i < length xs \<Longrightarrow> fold (\<lambda>k xs. xs[b + k := scores ! k]) [0..<n] xs ! i =
     (if b \<le> i \<and> i < b + n then scores ! (i - b) else xs ! i)"
proof -
  have "length (fold (\<lambda>k xs. xs[b + k := scores ! k]) [0..<n] xs) = length xs \<and>
    (\<forall>i < length xs. fold (\<lambda>k xs. xs[b + k := scores ! k]) [0..<n] xs ! i =
       (if b \<le> i \<and> i < b + n then scores ! (i - b) else xs ! i))"
    by (induction n) (auto simp: nth_list_update less_Suc_eq)
  then show "length (fold (\<lambda>k xs. xs[b + k := scores ! k]) [0..<n] xs) = length xs"
    "i < length xs \<Longrightarrow> fold (\<lambda>k xs. xs[b + k := scores ! k]) [0..<n] xs ! i =
     (if b \<le> i \<and> i < b + n then scores ! (i - b) else xs ! i)" by blast+
qed

lemma fold_pointwise:
  fixes g :: "'a \<Rightarrow> 'b \<Rightarrow> 'a"
  shows "length (fold (\<lambda>i xs. xs[i := g (xs ! i) (rhs ! i)]) [0..<n] xs) = length xs \<and>
    (\<forall>i < length xs. fold (\<lambda>i xs. xs[i := g (xs ! i) (rhs ! i)]) [0..<n] xs ! i =
       (if i < n then g (xs ! i) (rhs ! i) else xs ! i))"
  by (induction n) (auto simp: nth_list_update less_Suc_eq)

lemma InnerProduct_sum: "InnerProduct xs w = (\<Sum>i < length xs. xs ! i * w ! i)"
proof -
  have "fold (\<lambda>i acc. acc + f i) [0..<n] a = a + (\<Sum>i < n. f i)" for f :: "nat \<Rightarrow> rat" and n a
    by (induction n) (simp_all add: ac_simps)
  then show ?thesis by (simp add: InnerProduct_def)
qed

text \<open>A producer with \<open>n\<close> scores and a block inside score vectors of length \<open>k\<close>, as every producer of a manager has.\<close>

definition has_block :: "score_index_manager \<Rightarrow> nat \<Rightarrow> nat \<Rightarrow> nat \<Rightarrow> bool" where
  "has_block sim sp n k \<longleftrightarrow> sp < length (m_begins sim) \<and> sp_components (m_producers sim ! sp) = n \<and>
     GetBeginIndex sim sp + n \<le> k"

lemma wf_has_block: "wf_sim sim \<Longrightarrow> sp < length (m_producers sim) \<Longrightarrow>
  has_block sim sp (sp_components (m_producers sim ! sp)) (m_last sim)"
  using block_of(1,2) [of sim sp] by (simp add: has_block_def) (simp add: wf_sim_def)

lemma PlusEqualsProducer_block:
  assumes "has_block sim sp (length scores) (length out)"
  shows "\<exists>out'. PlusEqualsProducer sim sp scores out = Some out' \<and> length out' = length out"
proof -
  have "length (fold (\<lambda>k xs. xs[f k := xs ! f k + scores ! k]) ks out) = length out"
    for f :: "nat \<Rightarrow> nat" and ks and out :: "rat list"
    by (induction ks arbitrary: out) simp_all
  then show ?thesis using assms by (simp add: PlusEqualsProducer_def has_block_def block_inside_def)
qed

lemma AssignProducer_block:
  assumes "has_block sim sp (length scores) (length out)"
  shows "\<exists>out'. AssignProducer sim sp scores out = Some out' \<and> length out' = length out"
  using assms fold_assign(1) by (simp add: AssignProducer_def has_block_def block_inside_def)

section \<open>Properties\<close>

text \<open>The blocks of the score vector are separate: the scores assigned for one producer are read back
  for it, and the scores of every other producer are unchanged.\<close>

theorem producer_scores_assigned:
  assumes "managers sps = Some sim" "i < length sps" "length xs = m_last sim"
    and "length scores = sp_components (sps ! i)"
  shows "\<exists>ys. AssignProducer sim i scores xs = Some ys \<and> length ys = length xs \<and>
    GetScoresForProducer sim i ys = scores \<and>
    (\<forall>j < length sps. j \<noteq> i \<longrightarrow> GetScoresForProducer sim j ys = GetScoresForProducer sim j xs)"
proof -
  have wf: "wf_sim sim" "m_producers sim = sps" using managers_wf [OF assms(1)] by simp_all
  note blk = block_of [OF wf(1)]
  let ?b = "GetBeginIndex sim i" and ?n = "length scores"
  let ?ys = "fold (\<lambda>k xs. xs[?b + k := scores ! k]) [0..<?n] xs"
  have asg: "AssignProducer sim i scores xs = Some ?ys"
    using assms(2-4) wf wf_has_block [OF wf(1), of i] by (simp add: AssignProducer_def has_block_def block_inside_def)
  have ei: "GetEndIndex sim i = ?b + ?n" using blk(1) assms(2,4) wf(2) by simp
  have "GetScoresForProducer sim i ?ys = scores"
  proof (rule nth_equalityI)
    show "length (GetScoresForProducer sim i ?ys) = length scores" by (simp add: GetScoresForProducer_def ei)
    fix k assume "k < length (GetScoresForProducer sim i ?ys)"
    then have "k < ?n" "?b + k < length xs"
      using ei blk(2) [of i] assms(2,3) wf(2) by (auto simp: GetScoresForProducer_def)
    then show "GetScoresForProducer sim i ?ys ! k = scores ! k"
      by (simp add: GetScoresForProducer_def ei fold_assign)
  qed
  moreover have "GetScoresForProducer sim j ?ys = GetScoresForProducer sim j xs" if "j < length sps" "j \<noteq> i" for j
  proof -
    have sep: "GetEndIndex sim j \<le> ?b \<or> GetEndIndex sim i \<le> GetBeginIndex sim j"
      using blk(3) [of i j] blk(3) [of j i] that assms(2) wf(2) by (cases "i < j") auto
    have "GetEndIndex sim j \<le> length xs" using blk(2) that(1) wf(2) assms(3) by simp
    then show ?thesis
      using sep ei by (auto simp: GetScoresForProducer_def fold_assign)
  qed
  ultimately show ?thesis using asg by (simp add: fold_assign)
qed

definition example_producer :: "nat \<Rightarrow> nat \<Rightarrow> score_producer" where
  "example_producer n inputs = \<lparr>sp_components = n, sp_input_scores = inputs,
     sp_description = (\<lambda>i. ''d''), sp_short_name = (\<lambda>i. ''tm'')\<rparr>"

definition example_manager :: score_index_manager where
  "example_manager = \<lparr>m_producers = [example_producer 1 0, example_producer 2 0], m_begins = [0, 1],
     m_ends = [1, 3], m_last = 3\<rparr>"

lemma example_manager: "managers [example_producer 1 0, example_producer 2 0] = Some example_manager"
  by (simp add: managers_def example_manager_def ScoreIndexManagerInit_def AddScoreProducer_def example_producer_def)

theorem producer_scores_assigned_witness:
  "\<exists>ys. AssignProducer example_manager 1 [5, 6] [1, 2, 3] = Some ys \<and> GetScoresForProducer example_manager 1 ys = [5, 6]"
  using producer_scores_assigned [OF example_manager, of 1 "[1, 2, 3]" "[5, 6]"]
  by (auto simp: example_manager_def example_producer_def)

text \<open>Adding score vectors adds weighted scores: the inner product with the weights is linear, so the
  model score of a hypothesis is that of its predecessor plus that of what was added.\<close>

theorem inner_product_additive:
  assumes "length ys \<le> length xs"
  shows "\<exists>zs. PlusEquals xs ys = Some zs \<and> length zs = length xs \<and>
    InnerProduct zs w = InnerProduct xs w + InnerProduct ys w"
proof -
  let ?zs = "fold (\<lambda>i xs. xs[i := xs ! i + ys ! i]) [0..<length ys] xs"
  note pw = fold_pointwise [of "(+)" ys "length ys" xs]
  have len: "length ?zs = length xs" using pw by simp
  have "InnerProduct ?zs w = (\<Sum>i < length xs. (xs ! i + (if i < length ys then ys ! i else 0)) * w ! i)"
    unfolding InnerProduct_sum len using pw by (intro sum.cong) auto
  also have "\<dots> = (\<Sum>i < length xs. xs ! i * w ! i) +
      (\<Sum>i < length xs. (if i < length ys then ys ! i else 0) * w ! i)"
    by (simp add: distrib_right sum.distrib)
  also have "(\<Sum>i < length xs. (if i < length ys then ys ! i else 0) * w ! i) = (\<Sum>i < length ys. ys ! i * w ! i)"
    using assms by (intro sum.mono_neutral_cong_right) auto
  finally show ?thesis using assms len by (simp add: PlusEquals_def InnerProduct_sum)
qed

theorem inner_product_additive_witness:
  "\<exists>zs. PlusEquals [1, 2] [3] = Some zs \<and> InnerProduct zs [10, 1] = InnerProduct [1, 2] [10, 1] + InnerProduct [3] [10, 1]"
  using inner_product_additive [of "[3]" "[1, 2]" "[10, 1]"] by auto

text \<open>A producer with input scores gets no short names for them, so printing labelled scores, which
  needs one short name per score, fails its assertion as soon as one such producer exists.\<close>

theorem input_scores_without_short_names:
  "\<exists>sim. managers [example_producer 3 1] = Some sim \<and> m_last sim = 3 \<and>
     length (fst (InitFeatureNames sim)) = 3 \<and> length (snd (InitFeatureNames sim)) = 2 \<and>
     PrintLabeledWeightedScores (snd (InitFeatureNames sim)) [a, b, c] [1, 1, 1] = None"
  by (simp add: managers_def ScoreIndexManagerInit_def AddScoreProducer_def example_producer_def
      InitFeatureNames_def input_names_def other_names_def other_short_names_def PrintLabeledWeightedScores_def Let_def)

end
