(* ===== verification/Hypotheses.thy ===== *)
theory Hypotheses
  imports Square_Matrix Phrase_Words Score_Components
begin

text \<open>
  Search states (\<open>Hypothesis.h\<close>, \<open>Hypothesis.cpp\<close>, \<open>TranslationOption.h\<close>).
  A hypothesis is the value behind the pointer: the back pointer and the arc list are the values
  they point to, which is what the search reads, since a hypothesis changes only while it is on
  its own stack and its extensions are made later. The feature functions of the model are a
  parameter: a record of evaluation functions. Total scores are finite or \<open>-infinity\<close>. A failed
  assertion is \<open>None\<close>.
\<close>

section \<open>Translation options and hypotheses\<close>

record trans_opt =
  to_range :: words_range
  to_targetPhrase :: phrase
  to_scoreBreakdown :: score_components
  to_futureScore :: score
  to_cachedScores :: "nat \<Rightarrow> rat list option"

definition to_GetSize :: "trans_opt \<Rightarrow> nat" where
  "to_GetSize t = sz_add (sz_sub (m_endPos (to_range t)) (m_startPos (to_range t))) 1"

definition IsDeletionOption :: "trans_opt \<Rightarrow> bool" where
  "IsDeletionOption t \<longleftrightarrow> length (to_targetPhrase t) = 0"

record 'st hypo_core =
  m_targetPhrase :: phrase
  m_sourceCompleted :: words_bitmap
  m_currSourceWordsRange :: words_range
  m_currTargetWordsRange :: words_range
  m_wordDeleted :: bool
  m_totalScore :: score
  m_futureScore :: score
  m_scoreBreakdown :: score_components
  m_ffStates :: "'st option list"
  m_winningHypo :: "nat option"
  m_transOpt :: "trans_opt option"
  m_id :: nat

datatype 'st hypothesis =
  Hypothesis (core: "'st hypo_core") (m_prevHypo: "'st hypothesis option") (m_arcList: "'st hypothesis list option")

definition update_core :: "('st hypo_core \<Rightarrow> 'st hypo_core) \<Rightarrow> 'st hypothesis \<Rightarrow> 'st hypothesis" where
  "update_core f h = Hypothesis (f (core h)) (m_prevHypo h) (m_arcList h)"

abbreviation total :: "'st hypothesis \<Rightarrow> score" where
  "total h \<equiv> m_totalScore (core h)"

abbreviation coverage :: "'st hypothesis \<Rightarrow> words_bitmap" where
  "coverage h \<equiv> m_sourceCompleted (core h)"

text \<open>
  The feature functions: the states of the empty hypothesis, the stateless ones, and the stateful
  ones, which see the hypothesis and the state of the previous one.
\<close>

record 'st features =
  empty_states :: "'st option list"
  stateless :: "(phrase \<Rightarrow> score_components \<Rightarrow> score_components option) list"
  stateful :: "('st hypothesis \<Rightarrow> 'st option \<Rightarrow> score_components \<Rightarrow>
    ('st option \<times> score_components) option) list"

definition HypothesisInit ::
    "'st features \<Rightarrow> nat \<Rightarrow> nat \<Rightarrow> bool list \<Rightarrow> phrase \<Rightarrow> nat \<Rightarrow> 'st hypothesis" where
  "HypothesisInit ff numScores sourceSize sourceCompleted emptyTarget hypoId =
     (let completed = BitmapInitVector sourceSize sourceCompleted;
          gap = GetFirstGapPos completed
      in Hypothesis
           \<lparr>m_targetPhrase = emptyTarget, m_sourceCompleted = completed,
            m_currSourceWordsRange = WordsRange (if gap > 0 then 0 else NOT_FOUND) (if gap > 0 then gap - 1 else NOT_FOUND),
            m_currTargetWordsRange = WordsRange 0 (sz_sub (length emptyTarget) 1),
            m_wordDeleted = False, m_totalScore = 0, m_futureScore = 0,
            m_scoreBreakdown = ZeroAll (replicate numScores 0), m_ffStates = empty_states ff,
            m_winningHypo = None, m_transOpt = None, m_id = hypoId\<rparr> None None)"

definition HypothesisNext :: "'st hypothesis \<Rightarrow> trans_opt \<Rightarrow> nat \<Rightarrow> 'st hypothesis option" where
  "HypothesisNext prevHypo transOpt hypoId =
     (let c = core prevHypo; r = to_range transOpt; prevEnd = m_endPos (m_currTargetWordsRange c)
      in if BitmapOverlap (m_sourceCompleted c) r then None
         else Some (Hypothesis
           \<lparr>m_targetPhrase = to_targetPhrase transOpt,
            m_sourceCompleted = SetValueRange (m_sourceCompleted c) (m_startPos r) (m_endPos r) True,
            m_currSourceWordsRange = r,
            m_currTargetWordsRange = WordsRange (sz_add prevEnd 1) (sz_add prevEnd (length (to_targetPhrase transOpt))),
            m_wordDeleted = IsDeletionOption transOpt, m_totalScore = 0, m_futureScore = 0,
            m_scoreBreakdown = m_scoreBreakdown c,
            m_ffStates = replicate (length (m_ffStates c)) None,
            m_winningHypo = None, m_transOpt = Some transOpt, m_id = hypoId\<rparr>
           (Some prevHypo) None))"

text \<open>Constraint decoding: the target phrase has to agree with the next words of the constraint.\<close>

definition matches_constraint :: "nat \<Rightarrow> phrase \<Rightarrow> 'st hypothesis \<Rightarrow> trans_opt \<Rightarrow> bool" where
  "matches_constraint maxNumFactors constrainingPhrase prevHypo transOpt =
     (let start = sz_add 1 (m_endPos (m_currTargetWordsRange (core prevHypo)));
          endpoint = sz_sub (sz_add start (length (to_targetPhrase transOpt))) 1
      in if endpoint < length constrainingPhrase
         then IsCompatible maxNumFactors (GetSubString constrainingPhrase (WordsRange start endpoint))
                (to_targetPhrase transOpt)
         else False)"

datatype 'a created = Failed | Null | Created 'a

definition Create ::
    "nat \<Rightarrow> phrase option \<Rightarrow> 'st hypothesis \<Rightarrow> trans_opt \<Rightarrow> nat \<Rightarrow> 'st hypothesis created" where
  "Create maxNumFactors constrainingPhrase prevHypo transOpt hypoId =
     (let createHypothesis = (case constrainingPhrase of None \<Rightarrow> True
            | Some c \<Rightarrow> matches_constraint maxNumFactors c prevHypo transOpt)
      in if createHypothesis
         then (case HypothesisNext prevHypo transOpt hypoId of None \<Rightarrow> Failed | Some h \<Rightarrow> Created h)
         else Null)"

section \<open>Recombination\<close>

definition AddArc :: "'st hypothesis \<Rightarrow> 'st hypothesis \<Rightarrow> 'st hypothesis" where
  "AddArc h loserHypo =
     (let arcs = (case m_arcList h of
            None \<Rightarrow> (case m_arcList loserHypo of Some l \<Rightarrow> l | None \<Rightarrow> [])
          | Some a \<Rightarrow> (case m_arcList loserHypo of Some l \<Rightarrow> a @ l | None \<Rightarrow> a));
          loser = Hypothesis (core loserHypo) (m_prevHypo loserHypo) None
      in Hypothesis (core h) (m_prevHypo h) (Some (arcs @ [loser])))"

text \<open>A null state compares by its pointer, below every other.\<close>

fun compare_states :: "('st \<Rightarrow> 'st \<Rightarrow> int) \<Rightarrow> ('st option \<times> 'st option) list \<Rightarrow> int" where
  "compare_states cmp [] = 0"
| "compare_states cmp ((s, t) # ss) =
     (let comp = (case (s, t) of
           (Some s, Some t) \<Rightarrow> cmp s t
         | (None, None) \<Rightarrow> 0
         | (None, Some _) \<Rightarrow> -1
         | (Some _, None) \<Rightarrow> 1)
      in if comp \<noteq> 0 then comp else compare_states cmp ss)"

definition RecombineCompare :: "('st \<Rightarrow> 'st \<Rightarrow> int) \<Rightarrow> 'st hypothesis \<Rightarrow> 'st hypothesis \<Rightarrow> int" where
  "RecombineCompare cmp h g =
     (let comp = BitmapCompare (coverage h) (coverage g)
      in if comp \<noteq> 0 then comp
         else compare_states cmp (zip (m_ffStates (core h)) (m_ffStates (core g))))"

text \<open>\<open>std::nth_element\<close> keeps the best arcs in front; the model sorts them.\<close>

definition by_total_score :: "'st hypothesis list \<Rightarrow> 'st hypothesis list" where
  "by_total_score hs = rev (sort_key (\<lambda>h. m_totalScore (core h)) (rev hs))"

definition HypoCleanupArcList :: "nat \<Rightarrow> bool \<Rightarrow> 'st hypothesis \<Rightarrow> 'st hypothesis" where
  "HypoCleanupArcList nBestSize distinctNBest h =
     (let win = m_id (core h);
          h = update_core (\<lambda>c. c\<lparr>m_winningHypo := Some win\<rparr>) h
      in case m_arcList h of
           None \<Rightarrow> h
         | Some arcs \<Rightarrow>
             let arcs = (if \<not> distinctNBest \<and> length arcs > nBestSize * 5
                         then take nBestSize (by_total_score arcs) else arcs)
             in Hypothesis (core h) (m_prevHypo h)
                  (Some (map (update_core (\<lambda>c. c\<lparr>m_winningHypo := Some win\<rparr>)) arcs)))"

section \<open>Scores\<close>

fun evaluate_stateful ::
    "('st hypothesis \<Rightarrow> 'st option \<Rightarrow> score_components \<Rightarrow> ('st option \<times> score_components) option) list \<Rightarrow> nat \<Rightarrow>
     'st hypothesis \<Rightarrow> 'st hypothesis option" where
  "evaluate_stateful [] i h = Some h"
| "evaluate_stateful (ff # ffs) i h =
     (let prev = (case m_prevHypo h of Some p \<Rightarrow> m_ffStates (core p) ! i | None \<Rightarrow> None)
      in case ff h prev (m_scoreBreakdown (core h)) of
           None \<Rightarrow> None
         | Some (st, breakdown) \<Rightarrow>
             evaluate_stateful ffs (i + 1)
               (update_core (\<lambda>c. c\<lparr>m_ffStates := (m_ffStates c)[i := st], m_scoreBreakdown := breakdown\<rparr>) h))"

fun evaluate_stateless ::
    "(phrase \<Rightarrow> score_components \<Rightarrow> score_components option) list \<Rightarrow> phrase \<Rightarrow> score_components \<Rightarrow>
     score_components option" where
  "evaluate_stateless [] tp breakdown = Some breakdown"
| "evaluate_stateless (sf # sfs) tp breakdown =
     (case sf tp breakdown of None \<Rightarrow> None | Some breakdown \<Rightarrow> evaluate_stateless sfs tp breakdown)"

definition CalcScore ::
    "'st features \<Rightarrow> rat list \<Rightarrow> score square_matrix \<Rightarrow> 'st hypothesis \<Rightarrow> 'st hypothesis option" where
  "CalcScore ff allWeights futureScore h =
     (case m_transOpt (core h) of
        None \<Rightarrow> None
      | Some topt \<Rightarrow>
          (case PlusEquals (m_scoreBreakdown (core h)) (to_scoreBreakdown topt) of
             None \<Rightarrow> None
           | Some breakdown \<Rightarrow>
               (case evaluate_stateless (stateless ff) (m_targetPhrase (core h)) breakdown of
                  None \<Rightarrow> None
                | Some breakdown \<Rightarrow>
                    (case evaluate_stateful (stateful ff) 0 (update_core (\<lambda>c. c\<lparr>m_scoreBreakdown := breakdown\<rparr>) h) of
                       None \<Rightarrow> None
                     | Some h \<Rightarrow>
                         let future = CalcFutureScore futureScore (coverage h)
                         in Some (update_core (\<lambda>c. c\<lparr>m_futureScore := future,
                              m_totalScore := Fin (InnerProduct (m_scoreBreakdown c) allWeights) + future\<rparr>) h)))))"

text \<open>Both functions of early discarding begin with \<open>assert(!"Need to add code ...")\<close>.\<close>

definition CalcExpectedScore :: "score square_matrix \<Rightarrow> 'st hypothesis \<Rightarrow> ('st hypothesis \<times> score) option" where
  "CalcExpectedScore futureScore h = None"

definition CalcRemainingScore :: "'st hypothesis \<Rightarrow> 'st hypothesis option" where
  "CalcRemainingScore h = None"

text \<open>\<open>GetScore\<close> subtracts the future score; from \<open>-infinity\<close> nothing finite is left.\<close>

definition HypoGetScore :: "'st hypothesis \<Rightarrow> score" where
  "HypoGetScore h = (case (total h, m_futureScore (core h)) of (Fin t, Fin f) \<Rightarrow> Fin (t - f) | _ \<Rightarrow> MinusInf)"

definition HypoGetSize :: "'st hypothesis \<Rightarrow> nat" where
  "HypoGetSize h = sz_add (m_endPos (m_currTargetWordsRange (core h))) 1"

text \<open>The output of a hypothesis, as \<open>ToStream\<close> writes it: its predecessors' phrases first.\<close>

primrec hypo_depth :: "'st hypothesis \<Rightarrow> nat" where
  "hypo_depth (Hypothesis c p a) = (case map_option hypo_depth p of None \<Rightarrow> 0 | Some n \<Rightarrow> Suc n)"

function derivation :: "'st hypothesis \<Rightarrow> 'st hypothesis list" where
  "derivation h = (case m_prevHypo h of None \<Rightarrow> [h] | Some p \<Rightarrow> derivation p @ [h])"
  by pat_completeness auto
termination
proof (relation "measure hypo_depth", goal_cases)
  case (2 h p)
  then show ?case by (cases h) simp
qed simp

declare derivation.simps [simp del]

definition target_words :: "'st hypothesis \<Rightarrow> phrase" where
  "target_words h = concat (map (\<lambda>g. m_targetPhrase (core g)) (derivation h))"

function HypoGetWord :: "nat \<Rightarrow> 'st hypothesis \<Rightarrow> word option" where
  "HypoGetWord pos h =
     (if pos < m_startPos (m_currTargetWordsRange (core h))
      then (case m_prevHypo h of None \<Rightarrow> None | Some p \<Rightarrow> HypoGetWord pos p)
      else Some (m_targetPhrase (core h) ! (pos - m_startPos (m_currTargetWordsRange (core h)))))"
  by pat_completeness auto
termination
proof (relation "measure (\<lambda>(pos, h). hypo_depth h)", goal_cases)
  case (2 pos h p)
  then show ?case by (cases h) simp
qed simp

declare HypoGetWord.simps [simp del]

section \<open>The recombination order\<close>

text \<open>
  The contract of the states (\<open>FFState::Compare\<close>): the states the \<open>i\<close>-th feature
  makes, those that \<open>st_ok i\<close> accepts, compare as a weak order. Hypotheses then compare so too.
\<close>

definition hypo_ok :: "(nat \<Rightarrow> 'st \<Rightarrow> bool) \<Rightarrow> nat \<Rightarrow> 'st hypothesis \<Rightarrow> bool" where
  "hypo_ok ok n h \<longleftrightarrow> wf_bitmap (coverage h) \<and> length (m_ffStates (core h)) = n \<and>
     (\<forall>i < n. \<forall>x. m_ffStates (core h) ! i = Some x \<longrightarrow> ok i x)"

definition null_first_cmp :: "('a \<Rightarrow> 'a \<Rightarrow> int) \<Rightarrow> 'a option \<Rightarrow> 'a option \<Rightarrow> int" where
  "null_first_cmp c x y =
     (case (x, y) of (Some a, Some b) \<Rightarrow> c a b | (None, None) \<Rightarrow> 0 | (None, Some _) \<Rightarrow> -1 | (Some _, None) \<Rightarrow> 1)"

lemma three_way_null_first:
  assumes "three_way ok c"
  shows "three_way (\<lambda>x. \<forall>a. x = Some a \<longrightarrow> ok a) (null_first_cmp c)"
proof
  fix x y z :: "'a option"
  assume v: "\<forall>a. x = Some a \<longrightarrow> ok a" "\<forall>a. y = Some a \<longrightarrow> ok a"
  show "sgn (null_first_cmp c y x) = - sgn (null_first_cmp c x y)"
    using v by (cases x; cases y) (auto simp: null_first_cmp_def intro: three_way.cmp_swap [OF assms])
  assume z: "\<forall>a. z = Some a \<longrightarrow> ok a"
    and le: "null_first_cmp c x y \<le> 0" "null_first_cmp c y z \<le> 0"
  show "null_first_cmp c x z \<le> 0"
    using v z le by (cases x; cases y; cases z) (auto simp: null_first_cmp_def intro: three_way.cmp_trans [OF assms])
qed

locale feature_states =
  fixes st_ok :: "nat \<Rightarrow> 'st \<Rightarrow> bool"
    and st_cmp :: "'st \<Rightarrow> 'st \<Rightarrow> int"
  assumes state_order: "three_way (st_ok i) st_cmp"
begin

fun state_list_cmp :: "nat \<Rightarrow> 'st option list \<Rightarrow> 'st option list \<Rightarrow> int" where
  "state_list_cmp 0 xs ys = 0"
| "state_list_cmp (Suc n) xs ys =
     lex_cmp (state_list_cmp n) (\<lambda>xs ys. null_first_cmp st_cmp (xs ! n) (ys ! n)) xs ys"

definition states_ok :: "nat \<Rightarrow> 'st option list \<Rightarrow> bool" where
  "states_ok n xs \<longleftrightarrow> length xs = n \<and> (\<forall>i < n. \<forall>x. xs ! i = Some x \<longrightarrow> st_ok i x)"

lemma three_way_state_list: "n \<le> k \<Longrightarrow> three_way (states_ok k) (state_list_cmp n)"
proof (induction n)
  case 0
  then show ?case using three_way_zero by (simp add: state_list_cmp.simps [abs_def])
next
  case (Suc n)
  have "three_way (states_ok k) (\<lambda>xs ys. null_first_cmp st_cmp (xs ! n) (ys ! n))"
    by (rule three_way_map [OF three_way_null_first [OF state_order [of n]]])
      (use Suc in \<open>simp add: states_ok_def\<close>)
  then have "three_way (states_ok k) (lex_cmp (state_list_cmp n) (\<lambda>xs ys. null_first_cmp st_cmp (xs ! n) (ys ! n)))"
    using Suc three_way_lex by simp
  moreover have "state_list_cmp (Suc n) =
      lex_cmp (state_list_cmp n) (\<lambda>xs ys. null_first_cmp st_cmp (xs ! n) (ys ! n))"
    by (intro ext) simp
  ultimately show ?case by simp
qed

lemma compare_states_append:
  "compare_states st_cmp (ps @ qs) =
     (if compare_states st_cmp ps \<noteq> 0 then compare_states st_cmp ps else compare_states st_cmp qs)"
  by (induction ps) (auto simp: Let_def)

lemma compare_states_list:
  "length xs = length ys \<Longrightarrow> n \<le> length xs \<Longrightarrow>
   compare_states st_cmp (zip (take n xs) (take n ys)) = state_list_cmp n xs ys"
proof (induction n)
  case 0
  then show ?case by simp
next
  case (Suc n)
  then have "zip (take (Suc n) xs) (take (Suc n) ys) = zip (take n xs) (take n ys) @ [(xs ! n, ys ! n)]"
    by (simp add: take_Suc_conv_app_nth)
  then show ?case using Suc
    by (auto simp: compare_states_append lex_cmp_def null_first_cmp_def Let_def split: option.splits)
qed

lemma three_way_hypo: "three_way (hypo_ok st_ok n) (RecombineCompare st_cmp)"
proof (rule three_way_sgn_cong)
  have b: "three_way (hypo_ok st_ok n) (\<lambda>h g. BitmapCompare (coverage h) (coverage g))"
    by (rule three_way_map [OF bitmap_order.three_way_axioms]) (simp add: hypo_ok_def)
  have "three_way (hypo_ok st_ok n) (\<lambda>h g. state_list_cmp n (m_ffStates (core h)) (m_ffStates (core g)))"
    by (rule three_way_map [OF three_way_state_list [of n n]]) (auto simp: hypo_ok_def states_ok_def)
  then show "three_way (hypo_ok st_ok n) (lex_cmp (\<lambda>h g. BitmapCompare (coverage h) (coverage g))
      (\<lambda>h g. state_list_cmp n (m_ffStates (core h)) (m_ffStates (core g))))"
    by (rule three_way_lex [OF b])
  fix h g :: "'st hypothesis" assume "hypo_ok st_ok n h" "hypo_ok st_ok n g"
  then have "length (m_ffStates (core h)) = length (m_ffStates (core g))" "n = length (m_ffStates (core h))"
    by (simp_all add: hypo_ok_def)
  from compare_states_list [OF this(1), of n]
  show "sgn (RecombineCompare st_cmp h g) =
      sgn (lex_cmp (\<lambda>h g. BitmapCompare (coverage h) (coverage g))
        (\<lambda>h g. state_list_cmp n (m_ffStates (core h)) (m_ffStates (core g))) h g)"
    using \<open>n = _\<close> \<open>length _ = length _\<close> by (simp add: RecombineCompare_def lex_cmp_def Let_def)
qed

end

end
