(* ===== verification/Feature_Functions.thy ===== *)
theory Feature_Functions
  imports Hypotheses Lexical_Reordering Word_Lattice
begin

text \<open>
  The feature functions of the search: the distortion cost and the word penalty
  (\<open>DummyScoreProducers.cpp\<close>) and the reordering model as a feature
  (\<open>LexicalReordering::Evaluate\<close>), with the states they keep. The states of these features
  satisfy the contract of \<open>FFState::Compare\<close> that recombination relies on.
\<close>

section \<open>States\<close>

datatype ff_state =
    DistortionState_traditional words_range int
  | ReorderingState lr_state

text \<open>The code casts the other state to its own class; casting it to a wrong one is undefined, here 0 (it does
  not happen: \<open>search_never_fails\<close> in \<open>Search_Complete\<close> says that the states are of the right class).\<close>

fun FFStateCompare :: "ff_state \<Rightarrow> ff_state \<Rightarrow> int" where
  "FFStateCompare (DistortionState_traditional r g) (DistortionState_traditional r' g') =
     (if m_endPos r < m_endPos r' then -1 else if m_endPos r > m_endPos r' then 1 else 0)"
| "FFStateCompare (ReorderingState s) (ReorderingState t) = state_cmp s t"
| "FFStateCompare _ _ = 0"

section \<open>Distortion\<close>

definition DistortionEmptyState :: "nat \<Rightarrow> ff_state" where
  "DistortionEmptyState frontSpanCoveredLength =
     (if frontSpanCoveredLength > 0
      then DistortionState_traditional (WordsRange 0 (frontSpanCoveredLength - 1)) (to_int32 (int NOT_FOUND))
      else DistortionState_traditional (WordsRange NOT_FOUND NOT_FOUND) (to_int32 (int NOT_FOUND)))"

text \<open>The constant \<open>USE_OLD\<close> selects the first branch; the distance is the input's.\<close>

definition CalculateDistortionScore :: "(words_range \<Rightarrow> words_range \<Rightarrow> int) \<Rightarrow> words_range \<Rightarrow> words_range \<Rightarrow> rat" where
  "CalculateDistortionScore distance prev cur = - of_int (distance prev cur)"

definition DistortionEvaluate ::
    "score_index_manager \<Rightarrow> nat \<Rightarrow> (words_range \<Rightarrow> words_range \<Rightarrow> int) \<Rightarrow> ff_state hypothesis \<Rightarrow> ff_state option \<Rightarrow>
     score_components \<Rightarrow> (ff_state option \<times> score_components) option" where
  "DistortionEvaluate sim sp distance hypo prev_state out =
     (case (prev_state, m_prevHypo hypo) of
        (Some (DistortionState_traditional r g), Some p) \<Rightarrow>
          map_option (\<lambda>out. (Some (DistortionState_traditional (m_currSourceWordsRange (core hypo))
                                    (to_int32 (int (GetFirstGapPos (coverage p))))), out))
            (PlusEqualsProducer sim sp
               [CalculateDistortionScore distance r (m_currSourceWordsRange (core hypo))] out)
      | _ \<Rightarrow> None)"

section \<open>Reordering model\<close>

definition LexicalReorderingEvaluate ::
    "score_index_manager \<Rightarrow> nat \<Rightarrow> lr_config \<Rightarrow> ff_state hypothesis \<Rightarrow> ff_state option \<Rightarrow>
     score_components \<Rightarrow> (ff_state option \<times> score_components) option" where
  "LexicalReorderingEvaluate sim sp cfg hypo prev_state out =
     (case (prev_state, m_transOpt (core hypo)) of
        (Some (ReorderingState prev), Some topt) \<Rightarrow>
          (case Evaluate cfg prev \<lparr>GetSourceWordsRange = to_range topt,
                  GetCachedScores = to_cachedScores topt sp\<rparr> of
             None \<Rightarrow> None
           | Some (next_state, score) \<Rightarrow>
               map_option (\<lambda>out. (Some (ReorderingState next_state), out)) (PlusEqualsProducer sim sp score out))
      | _ \<Rightarrow> None)"

definition LexicalReorderingEmptyState :: "lr_config \<Rightarrow> nat \<Rightarrow> ff_state" where
  "LexicalReorderingEmptyState cfg sourceSize = ReorderingState (CreateLexicalReorderingState cfg sourceSize)"

section \<open>Word penalty\<close>

definition WordPenaltyEvaluate :: "score_index_manager \<Rightarrow> nat \<Rightarrow> phrase \<Rightarrow> score_components \<Rightarrow> score_components option" where
  "WordPenaltyEvaluate sim sp tp out = PlusEqualsProducer sim sp [- of_nat (length tp)] out"

text \<open>
  A translation system with distortion as its first stateful feature and the given reordering models
  after it, each with its position among the score producers.
\<close>

definition decoder_features ::
    "score_index_manager \<Rightarrow> (words_range \<Rightarrow> words_range \<Rightarrow> int) \<Rightarrow> nat \<Rightarrow> nat \<Rightarrow> nat \<Rightarrow> nat \<Rightarrow>
     (nat \<times> lr_config) list \<Rightarrow> ff_state features" where
  "decoder_features sim distance frontSpan sourceSize distortion penalty models =
     \<lparr>empty_states = Some (DistortionEmptyState frontSpan) #
         map (\<lambda>(sp, cfg). Some (LexicalReorderingEmptyState cfg sourceSize)) models,
      stateless = [WordPenaltyEvaluate sim penalty],
      stateful = DistortionEvaluate sim distortion distance #
         map (\<lambda>(sp, cfg). LexicalReorderingEvaluate sim sp cfg) models\<rparr>"

section \<open>The order of the states\<close>

definition ff_ok :: "lr_state list \<Rightarrow> nat \<Rightarrow> ff_state \<Rightarrow> bool" where
  "ff_ok shapes i s \<longleftrightarrow>
     (case s of
        DistortionState_traditional r g \<Rightarrow> i = 0
      | ReorderingState t \<Rightarrow> 0 < i \<and> i \<le> length shapes \<and> same_shape (shapes ! (i - 1)) t)"

lemma three_way_distortion:
  "three_way (\<lambda>s. \<exists>r g. s = DistortionState_traditional r g) FFStateCompare"
  by unfold_locales (auto split: if_splits)

lemma three_way_reordering: "three_way (\<lambda>s. \<exists>t. s = ReorderingState t \<and> same_shape s0 t) FFStateCompare"
  by unfold_locales (auto intro: reordering_order.cmp_swap reordering_order.cmp_trans)

interpretation decoder_states: feature_states "ff_ok shapes" FFStateCompare for shapes
proof (rule feature_states.intro)
  fix i
  show "three_way (ff_ok shapes i) FFStateCompare"
  proof (cases "i = 0")
    case True
    then show ?thesis
      by (intro three_way_subset [OF three_way_distortion]) (auto simp: ff_ok_def split: ff_state.splits)
  next
    case False
    then show ?thesis
      by (intro three_way_subset [OF three_way_reordering [of "shapes ! (i - 1)"]])
        (auto simp: ff_ok_def split: ff_state.splits)
  qed
qed

end
