(* ===== verification/Hypothesis_Stack.thy ===== *)
theory Hypothesis_Stack
  imports Feature_Functions "HOL-Library.Multiset"
begin

text \<open>
  The stacks of the search (\<open>HypothesisStack.h\<close>, \<open>HypothesisStackNormal.h\<close>,
  \<open>HypothesisStackNormal.cpp\<close>). A stack is the set of its hypotheses ordered by
  \<open>RecombineCompare\<close>, the best and the worst score it accepts, and the worst score of each
  coverage. \<open>None\<close> is a failed assertion of \<open>GetID\<close>, the \<open>abort\<close> after a failed
  recombination, or a shift by a distance that C++ leaves undefined.
\<close>

section \<open>State and configuration\<close>

record stack_config =
  m_beamWidth :: rat
  m_maxHypoStackSize :: nat
  m_minHypoStackDiversity :: nat
  m_nBestIsEnabled :: bool
  disableDiscarding :: bool
  maxDistortion :: int
  nBestSize :: nat
  distinctNBest :: bool

record 'st stack =
  m_hypos :: "'st hypothesis list"
  m_bestScore :: score
  m_worstScore :: score
  m_diversityWorstScore :: "nat \<Rightarrow> score option"

definition HypothesisStackInit :: "'st stack" where
  "HypothesisStackInit = \<lparr>m_hypos = [], m_bestScore = MinusInf, m_worstScore = MinusInf,
     m_diversityWorstScore = (\<lambda>key. None)\<rparr>"

definition GetWorstScoreForBitmap :: "'st stack \<Rightarrow> nat \<Rightarrow> score" where
  "GetWorstScoreForBitmap st key = (case m_diversityWorstScore st key of None \<Rightarrow> MinusInf | Some s \<Rightarrow> s)"

definition SetWorstScoreForBitmap :: "nat \<Rightarrow> score \<Rightarrow> 'st stack \<Rightarrow> 'st stack" where
  "SetWorstScoreForBitmap key worst st = st\<lparr>m_diversityWorstScore := (m_diversityWorstScore st)(key \<mapsto> worst)\<rparr>"

definition Detach :: "('st \<Rightarrow> 'st \<Rightarrow> int) \<Rightarrow> 'st hypothesis \<Rightarrow> 'st stack \<Rightarrow> 'st stack" where
  "Detach cmp h st = st\<lparr>m_hypos := set_erase (RecombineCompare cmp) h (m_hypos st)\<rparr>"

definition GetSortedList :: "'st stack \<Rightarrow> 'st hypothesis list" where
  "GetSortedList st = by_total_score (m_hypos st)"

section \<open>Pruning\<close>

text \<open>
  Each loop over the sorted list returns the set, the worst scores it has set and the
  \<open>included\<close> flags.
\<close>

definition insert_hypo :: "('st \<Rightarrow> 'st \<Rightarrow> int) \<Rightarrow> 'st hypothesis \<Rightarrow> 'st stack \<Rightarrow> 'st stack" where
  "insert_hypo cmp hyp st = st\<lparr>m_hypos := set_insert (RecombineCompare cmp) hyp (m_hypos st)\<rparr>"

definition diverse_step :: "('st \<Rightarrow> 'st \<Rightarrow> int) \<Rightarrow> nat \<Rightarrow> nat \<Rightarrow> nat \<Rightarrow> 'st hypothesis \<Rightarrow> 'st stack \<Rightarrow> 'st stack" where
  "diverse_step cmp minDiv key seen hyp st =
     (if seen < minDiv
      then let st = insert_hypo cmp hyp st
           in if seen + 1 = minDiv then SetWorstScoreForBitmap key (total hyp) st else st
      else st)"

fun keep_diverse ::
    "('st \<Rightarrow> 'st \<Rightarrow> int) \<Rightarrow> nat \<Rightarrow> 'st hypothesis list \<Rightarrow> (nat \<Rightarrow> nat option) \<Rightarrow> 'st stack \<Rightarrow>
     ('st stack \<times> bool list) option" where
  "keep_diverse cmp minDiv [] diversityCount st = Some (st, [])"
| "keep_diverse cmp minDiv (hyp # hyps) diversityCount st =
     (case GetID (coverage hyp) of
        None \<Rightarrow> None
      | Some key \<Rightarrow>
          let seen = (case diversityCount key of None \<Rightarrow> 0 | Some n \<Rightarrow> n)
          in map_option (\<lambda>(st, included). (st, (seen < minDiv) # included))
               (keep_diverse cmp minDiv hyps (diversityCount(key \<mapsto> if seen < minDiv then seen + 1 else seen))
                 (diverse_step cmp minDiv key seen hyp st)))"

fun keep_best ::
    "('st \<Rightarrow> 'st \<Rightarrow> int) \<Rightarrow> nat \<Rightarrow> rat \<Rightarrow> ('st hypothesis \<times> bool) list \<Rightarrow> 'st stack \<Rightarrow> 'st stack" where
  "keep_best cmp newSize beamWidth [] st = st"
| "keep_best cmp newSize beamWidth ((hyp, included) # hyps) st =
     (if length (m_hypos st) < newSize \<and> total hyp > m_bestScore st + Fin beamWidth
      then keep_best cmp newSize beamWidth hyps
             (if included then st
              else let st = insert_hypo cmp hyp st
                   in if length (m_hypos st) = newSize then st\<lparr>m_worstScore := total hyp\<rparr> else st)
      else st)"

definition PruneToSize :: "('st \<Rightarrow> 'st \<Rightarrow> int) \<Rightarrow> stack_config \<Rightarrow> nat \<Rightarrow> 'st stack \<Rightarrow> 'st stack option" where
  "PruneToSize cmp cfg newSize st =
     (if length (m_hypos st) \<le> newSize then Some st
      else let hypos = GetSortedList st;
               st = st\<lparr>m_hypos := []\<rparr>
           in case (if m_minHypoStackDiversity cfg > 0
                    then keep_diverse cmp (m_minHypoStackDiversity cfg) hypos (\<lambda>key. None) st
                    else Some (st, map (\<lambda>h. False) hypos)) of
                None \<Rightarrow> None
              | Some (st, included) \<Rightarrow>
                  Some (if length (m_hypos st) < newSize
                        then keep_best cmp newSize (m_beamWidth cfg) (zip hypos included) st else st))"

section \<open>Adding a hypothesis\<close>

text \<open>
  Twice the stack size, and room for diversity. Shifting by a negative distance, which is the
  distortion limit of an unlimited search, is undefined.
\<close>

definition tolerated_size :: "stack_config \<Rightarrow> nat option" where
  "tolerated_size cfg =
     (let base = sz_sub (sz_add (m_maxHypoStackSize cfg) (m_maxHypoStackSize cfg)) 1
      in if m_minHypoStackDiversity cfg = 0 then Some base
         else if 0 \<le> maxDistortion cfg \<and> maxDistortion cfg < 64
         then Some (sz_add base ((m_minHypoStackDiversity cfg * 2 ^ nat (maxDistortion cfg)) mod size_bound))
         else None)"

definition note_scores :: "stack_config \<Rightarrow> 'st hypothesis \<Rightarrow> 'st stack \<Rightarrow> 'st stack" where
  "note_scores cfg hypo st =
     (if total hypo > m_bestScore st
      then let st = st\<lparr>m_bestScore := total hypo\<rparr>
           in if m_bestScore st + Fin (m_beamWidth cfg) > m_worstScore st
              then st\<lparr>m_worstScore := m_bestScore st + Fin (m_beamWidth cfg)\<rparr> else st
      else st)"

definition note_diversity :: "stack_config \<Rightarrow> 'st hypothesis \<Rightarrow> 'st stack \<Rightarrow> 'st stack option" where
  "note_diversity cfg hypo st =
     (if m_minHypoStackDiversity cfg = 1
      then (case GetID (coverage hypo) of
              None \<Rightarrow> None
            | Some key \<Rightarrow> Some (if total hypo > GetWorstScoreForBitmap st key
                               then SetWorstScoreForBitmap key (total hypo) st else st))
      else Some st)"

text \<open>The stack and whether the hypothesis was inserted.\<close>

definition AddHypo :: "('st \<Rightarrow> 'st \<Rightarrow> int) \<Rightarrow> stack_config \<Rightarrow> 'st hypothesis \<Rightarrow> 'st stack \<Rightarrow> ('st stack \<times> bool) option" where
  "AddHypo cmp cfg hypo st =
     (if set_find (RecombineCompare cmp) hypo (m_hypos st) \<noteq> None then Some (st, False)
      else let st = insert_hypo cmp hypo st
           in case note_diversity cfg hypo (note_scores cfg hypo st) of
                None \<Rightarrow> None
              | Some st \<Rightarrow>
                  (case tolerated_size cfg of
                     None \<Rightarrow> None
                   | Some toleratedSize \<Rightarrow>
                       if length (m_hypos st) > toleratedSize
                       then map_option (\<lambda>st. (st, True)) (PruneToSize cmp cfg (m_maxHypoStackSize cfg) st)
                       else Some (st, True)))"

text \<open>The test that throws a hypothesis away, with the assertion of \<open>GetID\<close>.\<close>

definition too_bad :: "stack_config \<Rightarrow> 'st hypothesis \<Rightarrow> 'st stack \<Rightarrow> bool option" where
  "too_bad cfg hypo st =
     (if disableDiscarding cfg \<or> \<not> total hypo < m_worstScore st then Some False
      else if m_minHypoStackDiversity cfg > 0
      then map_option (\<lambda>key. \<not> total hypo \<ge> GetWorstScoreForBitmap st key) (GetID (coverage hypo))
      else Some True)"

definition AddPrune :: "('st \<Rightarrow> 'st \<Rightarrow> int) \<Rightarrow> stack_config \<Rightarrow> 'st hypothesis \<Rightarrow> 'st stack \<Rightarrow> ('st stack \<times> bool) option" where
  "AddPrune cmp cfg hypo st =
     (case too_bad cfg hypo st of
        None \<Rightarrow> None
      | Some True \<Rightarrow> Some (st, False)
      | Some False \<Rightarrow>
          (case AddHypo cmp cfg hypo st of
             None \<Rightarrow> None
           | Some (st, True) \<Rightarrow> Some (st, True)
           | Some (st, False) \<Rightarrow>
               (case set_find (RecombineCompare cmp) hypo (m_hypos st) of
                  None \<Rightarrow> None
                | Some hypoExisting \<Rightarrow>
                    if total hypo > total hypoExisting
                    then (let hypo = (if m_nBestIsEnabled cfg then AddArc hypo hypoExisting else hypo)
                          in case AddHypo cmp cfg hypo (Detach cmp hypoExisting st) of
                               None \<Rightarrow> None
                             | Some (st, added) \<Rightarrow> if \<not> added then None else Some (st, False))
                    else Some (if m_nBestIsEnabled cfg
                               then st\<lparr>m_hypos := map (\<lambda>g. if RecombineCompare cmp hypo g = 0 then AddArc g hypo else g)
                                         (m_hypos st)\<rparr>
                               else st, False))))"

section \<open>Reading a stack\<close>

definition StackGetBestHypothesis :: "'st stack \<Rightarrow> 'st hypothesis option" where
  "StackGetBestHypothesis st =
     (case m_hypos st of
        [] \<Rightarrow> None
      | h # hs \<Rightarrow> Some (fold (\<lambda>hypo bestHypo. if total hypo > total bestHypo then hypo else bestHypo) hs h))"

definition StackCleanupArcList :: "stack_config \<Rightarrow> 'st stack \<Rightarrow> 'st stack" where
  "StackCleanupArcList cfg st =
     (if \<not> m_nBestIsEnabled cfg then st
      else st\<lparr>m_hypos := map (HypoCleanupArcList (nBestSize cfg) (distinctNBest cfg)) (m_hypos st)\<rparr>)"

fun AddAll :: "('st \<Rightarrow> 'st \<Rightarrow> int) \<Rightarrow> stack_config \<Rightarrow> 'st hypothesis list \<Rightarrow> 'st stack \<Rightarrow> 'st stack option" where
  "AddAll cmp cfg [] st = Some st"
| "AddAll cmp cfg (h # hs) st =
     (case AddPrune cmp cfg h st of None \<Rightarrow> None | Some (st, b) \<Rightarrow> AddAll cmp cfg hs st)"


section \<open>Invariants\<close>

definition scored :: "'st hypothesis \<Rightarrow> bool" where
  "scored h \<longleftrightarrow> total h \<noteq> MinusInf"

text \<open>The hypotheses of a stack are well formed, and no two of them could be recombined.\<close>

definition stack_ok :: "(nat \<Rightarrow> 'st \<Rightarrow> bool) \<Rightarrow> ('st \<Rightarrow> 'st \<Rightarrow> int) \<Rightarrow> nat \<Rightarrow> 'st stack \<Rightarrow> bool" where
  "stack_ok ok cmp n st \<longleftrightarrow> set_ok (RecombineCompare cmp) (m_hypos st) \<and> (\<forall>h \<in> set (m_hypos st). hypo_ok ok n h)"

text \<open>The best score is that of a hypothesis on the stack, and the threshold does not exceed it.\<close>

definition tracks_best :: "'st stack \<Rightarrow> bool" where
  "tracks_best st \<longleftrightarrow> m_worstScore st \<le> m_bestScore st \<and>
     (\<forall>h \<in> set (m_hypos st). scored h \<and> total h \<le> m_bestScore st) \<and>
     (if m_hypos st = [] then m_bestScore st = MinusInf else \<exists>h \<in> set (m_hypos st). total h = m_bestScore st)"

lemma mset_by_total_score [simp]: "mset (by_total_score hs) = mset hs"
  by (simp add: by_total_score_def)

lemma set_by_total_score [simp]: "set (by_total_score hs) = set hs"
  by (metis mset_by_total_score set_mset_mset)

lemma length_by_total_score [simp]: "length (by_total_score hs) = length hs"
  by (simp add: by_total_score_def)

lemma by_total_score_sorted: "sorted_wrt (\<lambda>h g. total h \<ge> total g) (by_total_score hs)"
proof -
  have "sorted (map total (sort_key total (rev hs)))" by simp
  then show ?thesis by (simp add: by_total_score_def sorted_wrt_rev sorted_wrt_map)
qed

lemma insert_hypo_simps [simp]:
  "m_bestScore (insert_hypo cmp h st) = m_bestScore st"
  "m_worstScore (insert_hypo cmp h st) = m_worstScore st"
  "m_diversityWorstScore (insert_hypo cmp h st) = m_diversityWorstScore st"
  "m_hypos (insert_hypo cmp h st) = set_insert (RecombineCompare cmp) h (m_hypos st)"
  by (simp_all add: insert_hypo_def)

lemma SetWorstScoreForBitmap_simps [simp]:
  "m_bestScore (SetWorstScoreForBitmap key s st) = m_bestScore st"
  "m_worstScore (SetWorstScoreForBitmap key s st) = m_worstScore st"
  "m_hypos (SetWorstScoreForBitmap key s st) = m_hypos st"
  by (simp_all add: SetWorstScoreForBitmap_def)

lemma keep_best_bounds:
  assumes "st' = keep_best cmp newSize beamWidth hyps st"
  shows "m_bestScore st' = m_bestScore st"
    and "m_diversityWorstScore st' = m_diversityWorstScore st"
    and "set (m_hypos st') \<subseteq> set (m_hypos st) \<union> fst ` set hyps"
    and "m_worstScore st' = m_worstScore st \<or> m_worstScore st' \<in> total ` fst ` set hyps"
proof -
  have "m_bestScore st' = m_bestScore st \<and> m_diversityWorstScore st' = m_diversityWorstScore st \<and>
      set (m_hypos st') \<subseteq> set (m_hypos st) \<union> fst ` set hyps \<and>
      (m_worstScore st' = m_worstScore st \<or> m_worstScore st' \<in> total ` fst ` set hyps)"
    using assms
  proof (induction cmp newSize beamWidth hyps st rule: keep_best.induct)
    case (1 cmp newSize beamWidth st)
    then show ?case by simp
  next
    case (2 cmp newSize beamWidth hyp included hyps st)
    then show ?case
      using three_way_set_insert_subset [of "RecombineCompare cmp" hyp "m_hypos st"]
      by (auto simp: Let_def split: if_splits)
  qed
  then show "m_bestScore st' = m_bestScore st" "m_diversityWorstScore st' = m_diversityWorstScore st"
    "set (m_hypos st') \<subseteq> set (m_hypos st) \<union> fst ` set hyps"
    "m_worstScore st' = m_worstScore st \<or> m_worstScore st' \<in> total ` fst ` set hyps" by simp_all
qed

lemma keep_diverse_ConsE:
  assumes "keep_diverse cmp minDiv (hyp # hyps) cnt st = Some (st', included)"
  obtains key c included' where "GetID (coverage hyp) = Some key"
    and "c = (case cnt key of None \<Rightarrow> 0 | Some n \<Rightarrow> n)"
    and "keep_diverse cmp minDiv hyps (cnt(key \<mapsto> if c < minDiv then c + 1 else c))
          (diverse_step cmp minDiv key c hyp st) = Some (st', included')"
    and "included = (c < minDiv) # included'"
proof (cases "GetID (coverage hyp)")
  case None
  with assms show thesis by simp
next
  case (Some key)
  with assms that show thesis by (auto simp: Let_def simp del: fun_upd_apply)
qed

lemma diverse_step_bounds:
  "m_bestScore (diverse_step cmp minDiv key c hyp st) = m_bestScore st"
  "m_worstScore (diverse_step cmp minDiv key c hyp st) = m_worstScore st"
  "m_hypos (diverse_step cmp minDiv key c hyp st) =
     (if c < minDiv then set_insert (RecombineCompare cmp) hyp (m_hypos st) else m_hypos st)"
  "set (m_hypos (diverse_step cmp minDiv key c hyp st)) \<subseteq> insert hyp (set (m_hypos st))"
  using three_way_set_insert_subset [of "RecombineCompare cmp" hyp "m_hypos st"]
  by (auto simp: diverse_step_def Let_def)

lemma keep_diverse_bounds:
  assumes "keep_diverse cmp minDiv hyps cnt st = Some (st', included)"
  shows "m_bestScore st' = m_bestScore st" "m_worstScore st' = m_worstScore st"
    and "set (m_hypos st') \<subseteq> set (m_hypos st) \<union> set hyps"
    and "length included = length hyps"
proof -
  have "m_bestScore st' = m_bestScore st \<and> m_worstScore st' = m_worstScore st \<and>
      set (m_hypos st') \<subseteq> set (m_hypos st) \<union> set hyps \<and> length included = length hyps"
    using assms
  proof (induction hyps arbitrary: cnt st included)
    case Nil
    then show ?case by simp
  next
    case (Cons hyp hyps)
    from keep_diverse_ConsE [OF Cons.prems] obtain key c included' where
      rest: "keep_diverse cmp minDiv hyps (cnt(key \<mapsto> if c < minDiv then c + 1 else c))
          (diverse_step cmp minDiv key c hyp st) = Some (st', included')"
      and inc: "included = (c < minDiv) # included'" by metis
    note diverse_step_bounds [of cmp minDiv key c hyp st]
    with Cons.IH [OF rest] inc show ?case by auto
  qed
  then show "m_bestScore st' = m_bestScore st" "m_worstScore st' = m_worstScore st"
    "set (m_hypos st') \<subseteq> set (m_hypos st) \<union> set hyps" "length included = length hyps" by simp_all
qed


section \<open>The stack as a set\<close>

text \<open>Hypotheses taken from one set never recombine with each other.\<close>

definition apart :: "('st \<Rightarrow> 'st \<Rightarrow> int) \<Rightarrow> 'st hypothesis set \<Rightarrow> bool" where
  "apart cmp H \<longleftrightarrow> (\<forall>a \<in> H. \<forall>b \<in> H. RecombineCompare cmp a b = 0 \<longrightarrow> a = b)"

context feature_states
begin

abbreviation ok_hypo :: "nat \<Rightarrow> 'st hypothesis \<Rightarrow> bool" where
  "ok_hypo n h \<equiv> hypo_ok st_ok n h"

lemma stack_apart: "stack_ok st_ok st_cmp n st \<Longrightarrow> apart st_cmp (set (m_hypos st))"
  using three_way.set_ok_unique [OF three_way_hypo] unfolding stack_ok_def apart_def by blast

lemma insert_apart:
  assumes "stack_ok st_ok st_cmp n st" "ok_hypo n h" "h \<notin> set (m_hypos st)"
    and "apart st_cmp (insert h (set (m_hypos st)))"
  shows "set (set_insert (RecombineCompare st_cmp) h (m_hypos st)) = insert h (set (m_hypos st))"
    and "length (set_insert (RecombineCompare st_cmp) h (m_hypos st)) = Suc (length (m_hypos st))"
proof -
  have "\<forall>g \<in> set (m_hypos st). RecombineCompare st_cmp h g \<noteq> 0"
    using assms(3,4) unfolding apart_def by blast
  then have "set_find (RecombineCompare st_cmp) h (m_hypos st) = None"
    using three_way.set_find_None [OF three_way_hypo] assms(1,2) unfolding stack_ok_def by blast
  then show "set (set_insert (RecombineCompare st_cmp) h (m_hypos st)) = insert h (set (m_hypos st))"
    "length (set_insert (RecombineCompare st_cmp) h (m_hypos st)) = Suc (length (m_hypos st))"
    using three_way.set_insert_set [OF three_way_hypo] by blast+
qed

lemma insert_ok:
  assumes "stack_ok st_ok st_cmp n st" "ok_hypo n h"
  shows "stack_ok st_ok st_cmp n (insert_hypo st_cmp h st)"
proof -
  have "set_ok (RecombineCompare st_cmp) (set_insert (RecombineCompare st_cmp) h (m_hypos st))"
    using three_way.set_insert_ok [OF three_way_hypo] assms unfolding stack_ok_def by blast
  then show ?thesis
    using assms three_way_set_insert_subset [of "RecombineCompare st_cmp" h "m_hypos st"]
    unfolding stack_ok_def by auto
qed

lemma keep_best_ok:
  "stack_ok st_ok st_cmp n st \<Longrightarrow> \<forall>h \<in> fst ` set hyps. ok_hypo n h \<Longrightarrow>
   stack_ok st_ok st_cmp n (keep_best st_cmp newSize beamWidth hyps st)"
proof (induction hyps arbitrary: st)
  case Nil
  then show ?case by simp
next
  case (Cons p hyps)
  obtain h included where p: "p = (h, included)" by force
  have worst: "stack_ok st_ok st_cmp n (s\<lparr>m_worstScore := x\<rparr>) = stack_ok st_ok st_cmp n s" for s x
    by (simp add: stack_ok_def)
  have "stack_ok st_ok st_cmp n (insert_hypo st_cmp h st)" using Cons.prems p insert_ok by simp
  with Cons p show ?case by (simp add: Let_def worst del: insert_hypo_simps)
qed

lemma keep_diverse_ok:
  "stack_ok st_ok st_cmp n st \<Longrightarrow> \<forall>h \<in> set hyps. ok_hypo n h \<Longrightarrow>
   keep_diverse st_cmp minDiv hyps cnt st = Some (st', included) \<Longrightarrow> stack_ok st_ok st_cmp n st'"
proof (induction hyps arbitrary: cnt st included)
  case Nil
  then show ?case by simp
next
  case (Cons h hyps)
  from keep_diverse_ConsE [OF Cons.prems(3)] obtain key c included' where
    rest: "keep_diverse st_cmp minDiv hyps (cnt(key \<mapsto> if c < minDiv then c + 1 else c))
        (diverse_step st_cmp minDiv key c h st) = Some (st', included')" by metis
  have "stack_ok st_ok st_cmp n (diverse_step st_cmp minDiv key c h st)"
    using Cons.prems(1,2) insert_ok [of n st h]
    by (simp add: stack_ok_def diverse_step_bounds(3))
  with Cons.IH [OF _ _ rest] Cons.prems(2) show ?case by simp
qed

lemma PruneToSize_ok:
  assumes "stack_ok st_ok st_cmp n st" "PruneToSize st_cmp cfg newSize st = Some st'"
  shows "stack_ok st_ok st_cmp n st' \<and> set (m_hypos st') \<subseteq> set (m_hypos st) \<and> m_bestScore st' = m_bestScore st"
proof (cases "length (m_hypos st) \<le> newSize")
  case True
  with assms show ?thesis by (simp add: PruneToSize_def)
next
  case False
  define st0 where "st0 = st\<lparr>m_hypos := []\<rparr>"
  let ?hs = "GetSortedList st"
  have hs: "\<forall>h \<in> set ?hs. ok_hypo n h" "set ?hs = set (m_hypos st)"
    using assms(1) by (simp_all add: stack_ok_def GetSortedList_def)
  have st0: "stack_ok st_ok st_cmp n st0" by (simp add: st0_def stack_ok_def set_ok_def)
  obtain st1 included where
    st1: "(if m_minHypoStackDiversity cfg > 0
           then keep_diverse st_cmp (m_minHypoStackDiversity cfg) ?hs (\<lambda>key. None) st0
           else Some (st0, map (\<lambda>h. False) ?hs)) = Some (st1, included)"
    and st': "st' = (if length (m_hypos st1) < newSize
        then keep_best st_cmp newSize (m_beamWidth cfg) (zip ?hs included) st1 else st1)"
    using assms(2) False by (auto simp: PruneToSize_def Let_def st0_def [symmetric] split: option.splits)
  have zip: "fst ` set (zip ?hs included) \<subseteq> set ?hs" by (auto dest: set_zip_leftD)
  have one: "stack_ok st_ok st_cmp n st1 \<and> set (m_hypos st1) \<subseteq> set ?hs \<and> m_bestScore st1 = m_bestScore st"
  proof (cases "m_minHypoStackDiversity cfg > 0")
    case True
    then have "keep_diverse st_cmp (m_minHypoStackDiversity cfg) ?hs (\<lambda>key. None) st0 = Some (st1, included)"
      using st1 by simp
    from keep_diverse_ok [OF st0 hs(1) this] keep_diverse_bounds [OF this]
    show ?thesis by (simp add: st0_def)
  next
    case False
    with st1 st0 show ?thesis by (auto simp: st0_def)
  qed
  let ?two = "keep_best st_cmp newSize (m_beamWidth cfg) (zip ?hs included) st1"
  have "stack_ok st_ok st_cmp n ?two"
    using keep_best_ok [of n st1 "zip ?hs included"] one zip hs(1) by blast
  moreover have "set (m_hypos ?two) \<subseteq> set ?hs" "m_bestScore ?two = m_bestScore st"
    using keep_best_bounds(1,3) [of ?two st_cmp newSize "m_beamWidth cfg" "zip ?hs included" st1] one zip by auto
  ultimately show ?thesis using one hs(2) unfolding st' by simp
qed

end


section \<open>The best hypothesis\<close>

lemma three_way_set_insert_mono: "set xs \<subseteq> set (set_insert cmp x xs)"
  by (induction xs) auto

lemma keep_best_mono: "set (m_hypos st) \<subseteq> set (m_hypos (keep_best cmp newSize beamWidth hyps st))"
proof (induction cmp newSize beamWidth hyps st rule: keep_best.induct)
  case (1 cmp newSize beamWidth st)
  then show ?case by simp
next
  case (2 cmp newSize beamWidth hyp included hyps st)
  then show ?case
    using three_way_set_insert_mono [of "m_hypos st" "RecombineCompare cmp" hyp]
    by (auto simp: Let_def split: if_splits; blast)
qed

lemma keep_diverse_mono:
  "keep_diverse cmp minDiv hyps cnt st = Some (st', included) \<Longrightarrow> set (m_hypos st) \<subseteq> set (m_hypos st')"
proof (induction hyps arbitrary: cnt st included)
  case Nil
  then show ?case by simp
next
  case (Cons h hyps)
  from keep_diverse_ConsE [OF Cons.prems] obtain key c included' where
    rest: "keep_diverse cmp minDiv hyps (cnt(key \<mapsto> if c < minDiv then c + 1 else c))
        (diverse_step cmp minDiv key c h st) = Some (st', included')" by metis
  have "set (m_hypos st) \<subseteq> set (m_hypos (diverse_step cmp minDiv key c h st))"
    using three_way_set_insert_mono [of "m_hypos st" "RecombineCompare cmp" h]
    by (simp add: diverse_step_bounds(3))
  with Cons.IH [OF rest] show ?case by blast
qed

lemma PruneToSize_head:
  assumes "PruneToSize cmp cfg newSize st = Some st'" "length (m_hypos st) > newSize" "newSize > 0"
    and "GetSortedList st = h # hs" "total h > m_bestScore st + Fin (m_beamWidth cfg)"
  shows "h \<in> set (m_hypos st')"
proof -
  define st0 where "st0 = st\<lparr>m_hypos := []\<rparr>"
  obtain st1 included where
    st1: "(if m_minHypoStackDiversity cfg > 0
           then keep_diverse cmp (m_minHypoStackDiversity cfg) (h # hs) (\<lambda>key. None) st0
           else Some (st0, map (\<lambda>h. False) (h # hs))) = Some (st1, included)"
    and st': "st' = (if length (m_hypos st1) < newSize
        then keep_best cmp newSize (m_beamWidth cfg) (zip (h # hs) included) st1 else st1)"
    using assms(1,2,4) by (auto simp: PruneToSize_def Let_def st0_def [symmetric] split: option.splits)
  show ?thesis
  proof (cases "m_minHypoStackDiversity cfg > 0")
    case True
    then have "keep_diverse cmp (m_minHypoStackDiversity cfg) (h # hs) (\<lambda>key. None) st0 = Some (st1, included)"
      using st1 by simp
    from keep_diverse_ConsE [OF this] obtain key included' where
      rest: "keep_diverse cmp (m_minHypoStackDiversity cfg) hs (Map.empty(key \<mapsto> if 0 < m_minHypoStackDiversity cfg then 0 + 1 else 0))
        (diverse_step cmp (m_minHypoStackDiversity cfg) key 0 h st0) = Some (st1, included')"
      by (metis option.simps(4))
    have "h \<in> set (m_hypos (diverse_step cmp (m_minHypoStackDiversity cfg) key 0 h st0))"
      using True by (simp add: diverse_step_bounds(3) st0_def)
    with keep_diverse_mono [OF rest] have "h \<in> set (m_hypos st1)" by blast
    then show ?thesis using st' keep_best_mono [of st1 cmp newSize] by auto
  next
    case False
    then have "st1 = st0" "zip (h # hs) included = (h, False) # zip hs (map (\<lambda>h. False) hs)"
      using st1 by auto
    then show ?thesis
      using st' assms(3,5) keep_best_mono [of "insert_hypo cmp h st0" cmp newSize]
        keep_best_mono [of "(insert_hypo cmp h st0)\<lparr>m_worstScore := total h\<rparr>" cmp newSize]
      by (auto simp: st0_def Let_def)
  qed
qed

lemma PruneToSize_worst:
  assumes "PruneToSize cmp cfg newSize st = Some st'"
  shows "m_worstScore st' = m_worstScore st \<or> m_worstScore st' \<in> total ` set (m_hypos st)"
proof (cases "length (m_hypos st) \<le> newSize")
  case True
  with assms show ?thesis by (simp add: PruneToSize_def)
next
  case False
  define st0 where "st0 = st\<lparr>m_hypos := []\<rparr>"
  let ?hs = "GetSortedList st"
  obtain st1 included where
    st1: "(if m_minHypoStackDiversity cfg > 0
           then keep_diverse cmp (m_minHypoStackDiversity cfg) ?hs (\<lambda>key. None) st0
           else Some (st0, map (\<lambda>h. False) ?hs)) = Some (st1, included)"
    and st': "st' = (if length (m_hypos st1) < newSize
        then keep_best cmp newSize (m_beamWidth cfg) (zip ?hs included) st1 else st1)"
    using assms False by (auto simp: PruneToSize_def Let_def st0_def [symmetric] split: option.splits)
  have "m_worstScore st1 = m_worstScore st"
    using st1 keep_diverse_bounds(2) [of cmp _ ?hs "\<lambda>key. None" st0 st1 included]
    by (auto simp: st0_def split: if_splits)
  moreover have "fst ` set (zip ?hs included) \<subseteq> set (m_hypos st)"
    by (auto simp: GetSortedList_def dest: set_zip_leftD)
  ultimately show ?thesis
    using keep_best_bounds(4) [of st' cmp newSize "m_beamWidth cfg" "zip ?hs included" st1] st'
    by (auto split: if_splits)
qed

lemma score_beam: "b < 0 \<Longrightarrow> s \<noteq> MinusInf \<Longrightarrow> s + Fin b < s"
  by (cases s) auto

lemma score_beam_le: "b < 0 \<Longrightarrow> s + Fin b \<le> s"
  by (cases s) auto

context feature_states
begin

lemma PruneToSize_best:
  assumes ok: "stack_ok st_ok st_cmp n st" and best: "tracks_best st"
    and cfg: "m_beamWidth cfg < 0" "newSize > 0" and prune: "PruneToSize st_cmp cfg newSize st = Some st'"
  shows "tracks_best st'"
proof (cases "length (m_hypos st) \<le> newSize")
  case True
  with assms show ?thesis by (simp add: PruneToSize_def)
next
  case False
  then have ne: "m_hypos st \<noteq> []" by auto
  then obtain h hs where sorted: "GetSortedList st = h # hs"
    unfolding GetSortedList_def by (metis length_0_conv length_by_total_score list.exhaust)
  have mem: "set (h # hs) = set (m_hypos st)"
    by (simp add: sorted [symmetric] GetSortedList_def)
  have top: "total h = m_bestScore st"
  proof -
    obtain g where "g \<in> set (m_hypos st)" "total g = m_bestScore st"
      using best ne unfolding tracks_best_def by auto
    moreover have "\<forall>g \<in> set (h # hs). total g \<le> total h"
      using by_total_score_sorted [of "m_hypos st"] sorted by (auto simp: GetSortedList_def)
    moreover have "total h \<le> m_bestScore st" using best mem unfolding tracks_best_def by auto
    ultimately show ?thesis using mem by (metis antisym)
  qed
  have fin: "m_bestScore st \<noteq> MinusInf"
    using best mem top unfolding tracks_best_def scored_def by (metis list.set_intros(1))
  have "h \<in> set (m_hypos st')"
    using PruneToSize_head [OF prune _ cfg(2) sorted] False top score_beam [OF cfg(1) fin] by simp
  moreover have sub: "set (m_hypos st') \<subseteq> set (m_hypos st)" "m_bestScore st' = m_bestScore st"
    using PruneToSize_ok [OF ok prune] by simp_all
  moreover have "m_worstScore st' \<le> m_bestScore st"
    using PruneToSize_worst [OF prune] best unfolding tracks_best_def by auto
  ultimately show ?thesis using best top unfolding tracks_best_def by auto
qed

end


text \<open>When the operations are defined: the bitmaps have a key, and the shift is one of C++.\<close>

definition identified :: "stack_config \<Rightarrow> 'st hypothesis \<Rightarrow> bool" where
  "identified cfg h \<longleftrightarrow> m_minHypoStackDiversity cfg = 0 \<or> GetID (coverage h) \<noteq> None"

definition stack_config_ok :: "stack_config \<Rightarrow> bool" where
  "stack_config_ok cfg \<longleftrightarrow> m_beamWidth cfg < 0 \<and> m_maxHypoStackSize cfg > 0 \<and>
     (m_minHypoStackDiversity cfg = 0 \<or> (0 \<le> maxDistortion cfg \<and> maxDistortion cfg < 64))"

lemma keep_diverse_defined:
  "\<forall>h \<in> set hyps. GetID (coverage h) \<noteq> None \<Longrightarrow> \<exists>st' included. keep_diverse cmp minDiv hyps cnt st = Some (st', included)"
proof (induction hyps arbitrary: cnt st)
  case Nil
  then show ?case by simp
next
  case (Cons h hyps)
  then obtain key where "GetID (coverage h) = Some key" by auto
  with Cons show ?case by (fastforce simp: Let_def simp del: fun_upd_apply)
qed

lemma PruneToSize_defined:
  assumes "\<forall>h \<in> set (m_hypos st). identified cfg h"
  shows "\<exists>st'. PruneToSize cmp cfg newSize st = Some st'"
proof -
  let ?st = "st\<lparr>m_hypos := []\<rparr>"
  have "\<exists>p. keep_diverse cmp (m_minHypoStackDiversity cfg) (GetSortedList st) (\<lambda>key. None) ?st = Some p"
    if "m_minHypoStackDiversity cfg > 0"
    using keep_diverse_defined [of "GetSortedList st"] assms that by (fastforce simp: identified_def GetSortedList_def)
  then show ?thesis by (auto simp: PruneToSize_def Let_def split: prod.splits)
qed

lemma AddArc_core [simp]: "core (AddArc h g) = core h"
  by (simp add: AddArc_def Let_def)

lemma hypo_ok_AddArc [simp]: "hypo_ok ok n (AddArc h g) = hypo_ok ok n h"
  by (simp add: hypo_ok_def)

lemma RecombineCompare_AddArc [simp]:
  "RecombineCompare cmp (AddArc h g) k = RecombineCompare cmp h k"
  "RecombineCompare cmp k (AddArc h g) = RecombineCompare cmp k h"
  by (simp_all add: RecombineCompare_def Let_def)

text \<open>A stack about to receive a hypothesis that is at least as good as the best one.\<close>

definition awaits :: "'st hypothesis \<Rightarrow> 'st stack \<Rightarrow> bool" where
  "awaits h st \<longleftrightarrow> m_worstScore st \<le> m_bestScore st \<and>
     (\<forall>g \<in> set (m_hypos st). scored g \<and> total g \<le> m_bestScore st) \<and>
     (m_bestScore st = MinusInf \<or> total h \<ge> m_bestScore st \<or> (\<exists>g \<in> set (m_hypos st). total g = m_bestScore st))"

lemma awaits_tracks: "tracks_best st \<Longrightarrow> awaits h st"
  by (auto simp: tracks_best_def awaits_def split: if_splits)

lemma note_scores_best:
  "m_bestScore (note_scores cfg h st) = max (m_bestScore st) (total h)"
  "m_hypos (note_scores cfg h st) = m_hypos st"
  "m_beamWidth cfg < 0 \<Longrightarrow> m_worstScore st \<le> m_bestScore st \<Longrightarrow>
   m_worstScore (note_scores cfg h st) \<le> m_bestScore (note_scores cfg h st)"
  using score_beam_le [of "m_beamWidth cfg" "total h"]
  by (auto simp: note_scores_def Let_def max_def)

lemma note_diversity_fields:
  assumes "note_diversity cfg h st = Some st'"
  shows "m_hypos st' = m_hypos st" "m_bestScore st' = m_bestScore st" "m_worstScore st' = m_worstScore st"
  using assms by (auto simp: note_diversity_def split: if_splits option.splits)

lemma note_diversity_defined: "identified cfg h \<Longrightarrow> \<exists>st'. note_diversity cfg h st = Some st'"
  by (auto simp: note_diversity_def identified_def)

lemma tolerated_size_defined: "stack_config_ok cfg \<Longrightarrow> \<exists>k. tolerated_size cfg = Some k"
  by (auto simp: tolerated_size_def stack_config_ok_def Let_def)

context feature_states
begin

text \<open>\<open>Add\<close> of a hypothesis that recombines with none.\<close>

lemma AddHypo_new:
  assumes ok: "stack_ok st_ok st_cmp n st" "ok_hypo n h" and h: "scored h" "awaits h st"
    and cfg: "stack_config_ok cfg" and ids: "\<forall>g \<in> insert h (set (m_hypos st)). identified cfg g"
    and new: "set_find (RecombineCompare st_cmp) h (m_hypos st) = None"
  shows "\<exists>st'. AddHypo st_cmp cfg h st = Some (st', True) \<and> stack_ok st_ok st_cmp n st' \<and> tracks_best st' \<and>
     m_bestScore st' = max (m_bestScore st) (total h) \<and> set (m_hypos st') \<subseteq> insert h (set (m_hypos st))"
proof -
  let ?ins = "insert_hypo st_cmp h st"
  obtain st1 where st1: "note_diversity cfg h (note_scores cfg h ?ins) = Some st1"
    using note_diversity_defined ids by blast
  note f1 = note_diversity_fields [OF st1]
  obtain k where k: "tolerated_size cfg = Some k" using tolerated_size_defined cfg by blast
  have set1: "set (m_hypos st1) = insert h (set (m_hypos st))"
    using f1 three_way.set_insert_set(1) [OF three_way_hypo new]
    by (simp add: note_scores_best(2))
  have ok1: "stack_ok st_ok st_cmp n st1"
    using insert_ok [OF ok] f1 by (simp add: stack_ok_def note_scores_best(2))
  have best1: "m_bestScore st1 = max (m_bestScore st) (total h)" using f1 by (simp add: note_scores_best(1))
  have worst: "m_worstScore st1 \<le> m_bestScore st1"
    using f1 note_scores_best(3) [of cfg ?ins h] cfg h(2) by (simp add: stack_config_ok_def awaits_def)
  have "\<exists>g \<in> set (m_hypos st1). total g = m_bestScore st1"
    using h(2) unfolding set1 best1 awaits_def by (auto simp: max_def)
  moreover have "\<forall>g \<in> set (m_hypos st1). scored g \<and> total g \<le> m_bestScore st1"
    using h unfolding set1 best1 awaits_def by (auto simp: le_max_iff_disj)
  ultimately have tb1: "tracks_best st1" using worst set1 by (auto simp: tracks_best_def)
  obtain st2 where st2: "PruneToSize st_cmp cfg (m_maxHypoStackSize cfg) st1 = Some st2"
    using PruneToSize_defined [of st1 cfg st_cmp "m_maxHypoStackSize cfg"] ids set1 by auto
  have "m_beamWidth cfg < 0" "m_maxHypoStackSize cfg > 0" using cfg by (simp_all add: stack_config_ok_def)
  note pruned = PruneToSize_best [OF ok1 tb1 this st2] PruneToSize_ok [OF ok1 st2]
  show ?thesis
    using new st1 k st2 ok1 tb1 best1 set1 pruned by (auto simp: AddHypo_def Let_def)
qed

end


text \<open>The hypotheses of a stack, without their arcs, come from those offered to it.\<close>

definition from_cores :: "'st hypothesis set \<Rightarrow> 'st stack \<Rightarrow> bool" where
  "from_cores H st \<longleftrightarrow> core ` set (m_hypos st) \<subseteq> core ` H"

lemma map_AddArc_order:
  "sorted_wrt (\<lambda>a b. RecombineCompare cmp a b < 0) xs \<Longrightarrow>
   sorted_wrt (\<lambda>a b. RecombineCompare cmp a b < 0) (map (\<lambda>g. if P g then AddArc g h else g) xs)"
  by (induction xs) auto

lemma identified_core: "core g = core h \<Longrightarrow> identified cfg g = identified cfg h"
  by (simp add: identified_def)

lemma too_bad_defined: "identified cfg h \<Longrightarrow> \<exists>b. too_bad cfg h st = Some b"
  by (auto simp: too_bad_def identified_def)

lemma too_bad_True: "too_bad cfg h st = Some True \<Longrightarrow> total h < m_worstScore st"
  by (auto simp: too_bad_def split: if_splits)

context feature_states
begin

lemma recombine_in_place:
  assumes ok: "stack_ok st_ok st_cmp n st" and best: "tracks_best st"
    and g: "g \<in> set (m_hypos st)" and le: "total h \<le> total g"
    and st': "st' = (if m_nBestIsEnabled cfg
        then st\<lparr>m_hypos := map (\<lambda>g. if RecombineCompare st_cmp h g = 0 then AddArc g h else g) (m_hypos st)\<rparr> else st)"
  shows "stack_ok st_ok st_cmp n st' \<and> tracks_best st' \<and>
     m_bestScore st' = max (m_bestScore st) (total h) \<and> core ` set (m_hypos st') = core ` set (m_hypos st)"
proof -
  let ?f = "\<lambda>g. if RecombineCompare st_cmp h g = 0 then AddArc g h else g"
  have core: "core (?f x) = core x" for x by simp
  have "core ` ?f ` X = core ` X" for X by (simp add: image_image core del: if_image_distrib)
  then have cores: "core ` set (m_hypos st') = core ` set (m_hypos st)" by (simp add: st')
  have max: "m_bestScore st' = max (m_bestScore st) (total h)"
    using best g le by (fastforce simp: st' tracks_best_def max_def)
  have "stack_ok st_ok st_cmp n st'"
    using ok map_AddArc_order [of st_cmp "m_hypos st" "\<lambda>g. RecombineCompare st_cmp h g = 0" h]
    by (auto simp: st' stack_ok_def set_ok_def)
  moreover have "tracks_best st'"
  proof -
    have tot: "total x \<in> total ` set (m_hypos st')" if "x \<in> set (m_hypos st)" for x
      using that cores by (metis imageI image_image)
    have prior: "\<exists>y \<in> set (m_hypos st). core x = core y" if "x \<in> set (m_hypos st')" for x
      using that cores by (metis imageE imageI)
    have "m_worstScore st' = m_worstScore st" "m_bestScore st' = m_bestScore st"
      "(m_hypos st' = []) = (m_hypos st = [])" by (simp_all add: st')
    then show ?thesis
      using best prior tot unfolding tracks_best_def scored_def by (auto split: if_splits) (metis, metis, force)
  qed
  ultimately show ?thesis using max cores by blast
qed

end


context feature_states
begin

text \<open>\<open>AddPrune\<close> is always defined, keeps the stack well formed and never loses the best score.\<close>

lemma AddPrune_step:
  assumes ok: "stack_ok st_ok st_cmp n st" "ok_hypo n h" and h: "scored h" and best: "tracks_best st"
    and cfg: "stack_config_ok cfg" and ids: "\<forall>g \<in> insert h (set (m_hypos st)). identified cfg g"
  shows "\<exists>st' b. AddPrune st_cmp cfg h st = Some (st', b) \<and> stack_ok st_ok st_cmp n st' \<and> tracks_best st' \<and>
     m_bestScore st' = max (m_bestScore st) (total h) \<and> from_cores (insert h (set (m_hypos st))) st'"
proof -
  obtain bad where bad: "too_bad cfg h st = Some bad" using too_bad_defined ids by blast
  consider "bad" | "\<not> bad" "set_find (RecombineCompare st_cmp) h (m_hypos st) = None"
    | g where "\<not> bad" "set_find (RecombineCompare st_cmp) h (m_hypos st) = Some g" by (cases bad) auto
  then show ?thesis
  proof cases
    case 1
    then have "total h < m_worstScore st" using bad too_bad_True by auto
    then have "max (m_bestScore st) (total h) = m_bestScore st"
      using best by (auto simp: tracks_best_def max_def)
    then show ?thesis using 1 bad ok best by (auto simp: AddPrune_def from_cores_def)
  next
    case 2
    from AddHypo_new [OF ok h awaits_tracks [OF best] cfg ids 2(2)] obtain st' where
      st': "AddHypo st_cmp cfg h st = Some (st', True)" "stack_ok st_ok st_cmp n st'" "tracks_best st'"
        "m_bestScore st' = max (m_bestScore st) (total h)" "set (m_hypos st') \<subseteq> insert h (set (m_hypos st))"
      by blast
    have "AddPrune st_cmp cfg h st = Some (st', True)"
      using st'(1) 2(1) bad by (simp add: AddPrune_def)
    moreover have "from_cores (insert h (set (m_hypos st))) st'"
      unfolding from_cores_def by (rule image_mono [OF st'(5)])
    ultimately show ?thesis using st' by blast
  next
    case (3 g)
    have g: "g \<in> set (m_hypos st)" "RecombineCompare st_cmp h g = 0"
      using three_way.set_find_Some [OF three_way_hypo] ok 3(2) unfolding stack_ok_def by blast+
    have add: "AddHypo st_cmp cfg h st = Some (st, False)" using 3(2) by (simp add: AddHypo_def)
    show ?thesis
    proof (cases "total h > total g")
      case False
      then show ?thesis
        using 3 bad add recombine_in_place [OF ok(1) best g(1) _ refl, of h cfg]
        by (auto simp: AddPrune_def from_cores_def)
    next
      case True
      let ?h = "if m_nBestIsEnabled cfg then AddArc h g else h" and ?st = "Detach st_cmp g st"
      have gok: "ok_hypo n g" using g(1) ok(1) by (simp add: stack_ok_def)
      have erased: "set (m_hypos ?st) = {k \<in> set (m_hypos st). RecombineCompare st_cmp g k \<noteq> 0}"
        and setok: "set_ok (RecombineCompare st_cmp) (m_hypos ?st)"
        using three_way.set_erase_props [OF three_way_hypo, of "m_hypos st" n g] ok(1) gok
        by (simp_all add: stack_ok_def Detach_def)
      have sub: "set (m_hypos ?st) \<subseteq> set (m_hypos st)" using erased by blast
      have ok': "stack_ok st_ok st_cmp n ?st" using setok sub ok(1) by (auto simp: stack_ok_def)
      have core_h: "core ?h = core h" by simp
      have h': "ok_hypo n ?h" "scored ?h" using ok(2) h by (simp_all add: scored_def)
      have same: "\<forall>k \<in> set (m_hypos st). RecombineCompare st_cmp g k = 0 \<longrightarrow> k = g"
        using stack_apart [OF ok(1)] g(1) unfolding apart_def by auto
      have aw: "awaits ?h ?st"
      proof -
        have "m_bestScore ?st = m_bestScore st" "m_worstScore ?st = m_worstScore st"
          by (simp_all add: Detach_def)
        moreover obtain k where "k \<in> set (m_hypos st)" "total k = m_bestScore st"
          using best g(1) unfolding tracks_best_def by (auto split: if_splits)
        moreover from this have "k \<in> set (m_hypos ?st) \<or> total h \<ge> m_bestScore st"
          using same erased True by auto
        ultimately show ?thesis using best sub core_h unfolding awaits_def tracks_best_def by auto
      qed
      have new: "set_find (RecombineCompare st_cmp) ?h (m_hypos ?st) = None"
      proof -
        have "RecombineCompare st_cmp h k \<noteq> 0" if "k \<in> set (m_hypos ?st)" for k
        proof
          assume "RecombineCompare st_cmp h k = 0"
          moreover have "RecombineCompare st_cmp g h = 0"
            using three_way.cmp_swap_eq [OF three_way_hypo ok(2) gok] g(2) by simp
          ultimately have "RecombineCompare st_cmp g k = 0"
            using three_way.cmp_eq_trans [OF three_way_hypo gok ok(2)] that sub ok(1) unfolding stack_ok_def by blast
          then show False using that erased by simp
        qed
        then have "\<forall>k \<in> set (m_hypos ?st). RecombineCompare st_cmp ?h k \<noteq> 0" by simp
        then show ?thesis
          using three_way.set_find_None [OF three_way_hypo] ok' h'(1) unfolding stack_ok_def by blast
      qed
      have ids': "\<forall>k \<in> insert ?h (set (m_hypos ?st)). identified cfg k"
        using ids sub identified_core [OF core_h, of cfg] by auto
      obtain st' where st': "AddHypo st_cmp cfg ?h ?st = Some (st', True)" "stack_ok st_ok st_cmp n st'"
        "tracks_best st'" "m_bestScore st' = max (m_bestScore ?st) (total ?h)"
        "set (m_hypos st') \<subseteq> insert ?h (set (m_hypos ?st))"
        using AddHypo_new [OF ok' h'(1,2) aw cfg ids' new] by blast
      have "from_cores (insert h (set (m_hypos st))) st'"
        using st'(5) sub core_h unfolding from_cores_def by fastforce
      moreover have "AddPrune st_cmp cfg h st = Some (st', False)"
        using 3 bad add True st'(1) by (auto simp: AddPrune_def Let_def)
      ultimately show ?thesis using st' core_h by (auto simp: Detach_def)
    qed
  qed
qed

lemma AddAll_steps:
  assumes "stack_ok st_ok st_cmp n st" "tracks_best st" "stack_config_ok cfg"
    and "\<forall>h \<in> set hs. ok_hypo n h \<and> scored h \<and> identified cfg h" "\<forall>g \<in> set (m_hypos st). identified cfg g"
  shows "\<exists>st'. AddAll st_cmp cfg hs st = Some st' \<and> stack_ok st_ok st_cmp n st' \<and> tracks_best st' \<and>
     (\<forall>h \<in> set hs. total h \<le> m_bestScore st') \<and> m_bestScore st \<le> m_bestScore st' \<and>
     from_cores (set hs \<union> set (m_hypos st)) st'"
  using assms
proof (induction hs arbitrary: st)
  case Nil
  then show ?case by (simp add: from_cores_def)
next
  case (Cons h hs)
  have pre: "ok_hypo n h" "scored h" "\<forall>g \<in> insert h (set (m_hypos st)). identified cfg g"
    using Cons.prems(4,5) by simp_all
  from AddPrune_step [OF Cons.prems(1) pre(1,2) Cons.prems(2,3) pre(3)] obtain st1 b where
    st1: "AddPrune st_cmp cfg h st = Some (st1, b)" "stack_ok st_ok st_cmp n st1" "tracks_best st1"
      "m_bestScore st1 = max (m_bestScore st) (total h)" "from_cores (insert h (set (m_hypos st))) st1"
    by (elim exE conjE)
  have ids: "identified cfg g" if "g \<in> set (m_hypos st1)" for g
  proof -
    have "core g \<in> core ` insert h (set (m_hypos st))"
      using st1(5) that unfolding from_cores_def by (rule subsetD [OF _ imageI])
    then obtain k where "core g = core k" "k \<in> insert h (set (m_hypos st))" by (rule imageE)
    then show ?thesis using identified_core pre(3) by metis
  qed
  have rest: "\<forall>h \<in> set hs. ok_hypo n h \<and> scored h \<and> identified cfg h" using Cons.prems(4) by simp
  have "\<forall>g \<in> set (m_hypos st1). identified cfg g" using ids by blast
  from Cons.IH [OF st1(2,3) Cons.prems(3) rest this] obtain st2 where
    st2: "AddAll st_cmp cfg hs st1 = Some st2" "stack_ok st_ok st_cmp n st2" "tracks_best st2"
      "\<forall>h \<in> set hs. total h \<le> m_bestScore st2" "m_bestScore st1 \<le> m_bestScore st2"
      "from_cores (set hs \<union> set (m_hypos st1)) st2" by (elim exE conjE)
  have "from_cores (set (h # hs) \<union> set (m_hypos st)) st2"
  proof -
    have "core ` set (m_hypos st1) \<subseteq> core ` (set (h # hs) \<union> set (m_hypos st))"
      using st1(5) unfolding from_cores_def by (rule subset_trans) auto
    then show ?thesis using st2(6) unfolding from_cores_def by (simp add: image_Un) blast
  qed
  moreover have "\<forall>k \<in> set (h # hs). total k \<le> m_bestScore st2"
    using st2(4,5) st1(4) by simp
  moreover have "m_bestScore st \<le> m_bestScore st2" using st2(5) st1(4) by simp
  ultimately show ?case using st1(1) st2(1,2,3) by auto
qed

end


section \<open>Reading the best hypothesis\<close>

lemma fold_best:
  "let b = fold (\<lambda>hypo bestHypo. if total hypo > total bestHypo then hypo else bestHypo) hs h
   in b \<in> insert h (set hs) \<and> (\<forall>g \<in> insert h (set hs). total g \<le> total b)"
proof (induction hs arbitrary: h)
  case Nil
  then show ?case by simp
next
  case (Cons g hs)
  show ?case using Cons [of "if total g > total h then g else h"] by (auto simp: Let_def split: if_splits)
qed

lemma StackGetBest_tracks:
  assumes "tracks_best st" "m_hypos st \<noteq> []"
  shows "\<exists>b. StackGetBestHypothesis st = Some b \<and> b \<in> set (m_hypos st) \<and> total b = m_bestScore st"
proof -
  obtain h hs where hs: "m_hypos st = h # hs" using assms(2) by (cases "m_hypos st") auto
  define b where "b = fold (\<lambda>hypo bestHypo. if total hypo > total bestHypo then hypo else bestHypo) hs h"
  have b: "b \<in> set (m_hypos st)" "\<forall>g \<in> set (m_hypos st). total g \<le> total b"
    using fold_best [of hs h] by (simp_all add: b_def hs Let_def)
  obtain g where "g \<in> set (m_hypos st)" "total g = m_bestScore st"
    using assms unfolding tracks_best_def by (metis (no_types, lifting))
  then have "total b = m_bestScore st"
    using b assms(1) unfolding tracks_best_def by (metis antisym)
  then show ?thesis using b(1) by (auto simp: StackGetBestHypothesis_def hs b_def)
qed

lemma stack_init:
  "stack_ok ok cmp n HypothesisStackInit" "tracks_best HypothesisStackInit" "m_hypos HypothesisStackInit = []"
  by (simp_all add: HypothesisStackInit_def stack_ok_def set_ok_def tracks_best_def)

text \<open>C10: Whatever hypotheses are added to an empty stack, in whatever order, and however they are
  discarded, recombined and pruned meanwhile, \<open>GetBestHypothesis\<close> returns one of them, with
  its arcs, that scores at least as high as all of them. The beam has to be below zero, as the logarithm of
  a threshold below one is, the stack size above zero, and the scores finite.
\<close>

theorem best_hypothesis_survives:
  assumes "feature_states ok cmp" and "stack_config_ok cfg" and "hs \<noteq> []"
    and "\<forall>h \<in> set hs. hypo_ok ok n h \<and> scored h \<and> identified cfg h"
  shows "\<exists>st b. AddAll cmp cfg hs HypothesisStackInit = Some st \<and> StackGetBestHypothesis st = Some b \<and>
     (\<forall>h \<in> set hs. total h \<le> total b) \<and> core b \<in> core ` set hs"
proof -
  have "\<forall>g \<in> set (m_hypos HypothesisStackInit). identified cfg g" by (simp add: stack_init(3))
  from feature_states.AddAll_steps [OF assms(1) stack_init(1,2) assms(2,4) this] obtain st where
    st: "AddAll cmp cfg hs HypothesisStackInit = Some st" "tracks_best st"
      "\<forall>h \<in> set hs. total h \<le> m_bestScore st" "from_cores (set hs \<union> set (m_hypos HypothesisStackInit)) st"
    by (elim exE conjE)
  have "m_hypos st \<noteq> []"
  proof
    assume "m_hypos st = []"
    then have "m_bestScore st = MinusInf" using st(2) by (simp add: tracks_best_def)
    moreover obtain h where "h \<in> set hs" using assms(3) by (cases hs) auto
    ultimately show False using st(3) assms(4) unfolding scored_def by (metis score_less_simps(2) le_less)
  qed
  from StackGetBest_tracks [OF st(2) this] obtain b where
    b: "StackGetBestHypothesis st = Some b" "b \<in> set (m_hypos st)" "total b = m_bestScore st" by blast
  have "core b \<in> core ` set hs"
    using st(4) b(2) unfolding from_cores_def by (auto simp: stack_init(3))
  then show ?thesis using st(1,3) b(1,3) by metis
qed

section \<open>Sizes\<close>

lemma set_insert_length: "length (set_insert cmp x xs) \<le> Suc (length xs)"
  by (induction xs) auto

lemma keep_best_length: "length (m_hypos (keep_best cmp newSize beamWidth hyps st)) \<le> max (length (m_hypos st)) newSize"
proof (induction cmp newSize beamWidth hyps st rule: keep_best.induct)
  case (1 cmp newSize beamWidth st)
  then show ?case by simp
next
  case (2 cmp newSize beamWidth hyp included hyps st)
  then show ?case
    using set_insert_length [of "RecombineCompare cmp" hyp "m_hypos st"]
    by (auto simp: Let_def max_def split: if_splits)
qed

lemma PruneToSize_length:
  assumes "PruneToSize cmp cfg newSize st = Some st'" "m_minHypoStackDiversity cfg = 0"
  shows "length (m_hypos st') \<le> newSize"
  using assms keep_best_length [of cmp newSize "m_beamWidth cfg" _ "st\<lparr>m_hypos := []\<rparr>"]
  by (auto simp: PruneToSize_def Let_def split: if_splits)


lemma set_erase_length: "length (set_erase cmp x xs) \<le> length xs"
  by (induction xs) auto

lemma note_fields_length:
  "note_diversity cfg h (note_scores cfg h st) = Some st' \<Longrightarrow> m_hypos st' = m_hypos st"
  using note_diversity_fields(1) note_scores_best(2) by metis

lemma AddHypo_length:
  assumes "AddHypo cmp cfg h st = Some (st', b)" "m_minHypoStackDiversity cfg = 0" "tolerated_size cfg = Some k"
    and "m_maxHypoStackSize cfg \<le> k" "length (m_hypos st) \<le> k"
  shows "length (m_hypos st') \<le> k"
proof (cases "set_find (RecombineCompare cmp) h (m_hypos st)")
  case (Some g)
  with assms show ?thesis by (simp add: AddHypo_def)
next
  case None
  then obtain st1 where st1: "note_diversity cfg h (note_scores cfg h (insert_hypo cmp h st)) = Some st1"
    and st': "(if length (m_hypos st1) > k then map_option (\<lambda>st. (st, True)) (PruneToSize cmp cfg (m_maxHypoStackSize cfg) st1)
      else Some (st1, True)) = Some (st', b)"
    using assms(1,3) by (auto simp: AddHypo_def Let_def split: option.splits)
  show ?thesis
    using st' PruneToSize_length [OF _ assms(2)] assms(4) by (fastforce split: if_splits)
qed

lemma AddPrune_length:
  assumes "AddPrune cmp cfg h st = Some (st', b)" "m_minHypoStackDiversity cfg = 0" "tolerated_size cfg = Some k"
    and "m_maxHypoStackSize cfg \<le> k" "length (m_hypos st) \<le> k"
  shows "length (m_hypos st') \<le> k"
proof -
  note bound = AddHypo_length [OF _ assms(2-4)]
  have det: "length (m_hypos (Detach cmp g st)) \<le> k" for g
    using set_erase_length [of "RecombineCompare cmp" g "m_hypos st"] assms(5) by (simp add: Detach_def)
  have same: "s = st" if "AddHypo cmp cfg g st = Some (s, False)" for g s
    using that by (auto simp: AddHypo_def Let_def split: if_splits option.splits)
  show ?thesis
    using assms(1,5) det
    by (auto simp: AddPrune_def Let_def split: option.splits bool.splits prod.splits if_splits
        dest!: same dest: bound)
qed

text \<open>Without diversity a stack never holds more than twice the stack size less one hypotheses, and
  after the pruning that precedes its expansion it holds at most the stack size.
\<close>

theorem stack_size_bounded:
  assumes "m_minHypoStackDiversity cfg = 0" and "0 < m_maxHypoStackSize cfg"
    and "2 * m_maxHypoStackSize cfg < size_bound"
    and "AddAll cmp cfg hs HypothesisStackInit = Some st"
    and "PruneToSize cmp cfg (m_maxHypoStackSize cfg) st = Some st'"
  shows "length (m_hypos st) \<le> 2 * m_maxHypoStackSize cfg - 1 \<and> length (m_hypos st') \<le> m_maxHypoStackSize cfg"
proof -
  let ?k = "2 * m_maxHypoStackSize cfg - 1"
  have k: "tolerated_size cfg = Some ?k"
    using assms(1,2,3) sz_sub_small [of 1 "2 * m_maxHypoStackSize cfg"]
    by (simp add: tolerated_size_def sz_simps mult_2)
  have le: "m_maxHypoStackSize cfg \<le> ?k" using assms(2) by simp
  have "length (m_hypos st) \<le> ?k"
    if "AddAll cmp cfg hs s = Some st" "length (m_hypos s) \<le> ?k" for s
    using that
  proof (induction hs arbitrary: s)
    case Nil
    then show ?case by simp
  next
    case (Cons h hs)
    then obtain s1 b where s1: "AddPrune cmp cfg h s = Some (s1, b)" "AddAll cmp cfg hs s1 = Some st"
      by (auto split: option.splits)
    from AddPrune_length [OF s1(1) assms(1) k le Cons.prems(2)] Cons.IH [OF s1(2)] show ?case by simp
  qed
  then show ?thesis
    using assms(4) PruneToSize_length [OF assms(5,1)] by (simp add: stack_init(3))
qed


section \<open>What pruning keeps\<close>

context feature_states
begin

lemma keep_best_exact:
  assumes "stack_ok st_ok st_cmp n st" "\<forall>h \<in> set hyps. ok_hypo n h" "distinct hyps"
    and "apart st_cmp (set hyps \<union> set (m_hypos st))" "set hyps \<inter> set (m_hypos st) = {}"
  shows "set (m_hypos (keep_best st_cmp newSize beamWidth (map (\<lambda>h. (h, False)) hyps) st)) = set (m_hypos st) \<union>
    set (takeWhile (\<lambda>h. total h > m_bestScore st + Fin beamWidth) (take (newSize - length (m_hypos st)) hyps))"
  using assms
proof (induction hyps arbitrary: st)
  case Nil
  then show ?case by simp
next
  case (Cons h hyps)
  define st1 where "st1 = (let st' = insert_hypo st_cmp h st
    in if length (m_hypos st') = newSize then st'\<lparr>m_worstScore := total h\<rparr> else st')"
  have f: "m_hypos st1 = set_insert (RecombineCompare st_cmp) h (m_hypos st)" "m_bestScore st1 = m_bestScore st"
    by (simp_all add: st1_def Let_def)
  have h: "ok_hypo n h" "h \<notin> set (m_hypos st)" using Cons.prems by auto
  have "apart st_cmp (insert h (set (m_hypos st)))" using Cons.prems(4) by (auto simp: apart_def)
  note ins = insert_apart [OF Cons.prems(1) h this]
  have ok1: "stack_ok st_ok st_cmp n st1"
    using insert_ok [OF Cons.prems(1) h(1)] f by (simp add: stack_ok_def)
  have "apart st_cmp (set hyps \<union> set (m_hypos st1))"
    using Cons.prems(4) f ins(1) by (auto simp: apart_def)
  moreover have "set hyps \<inter> set (m_hypos st1) = {}" using Cons.prems(3,5) f ins(1) by auto
  ultimately have IH: "set (m_hypos (keep_best st_cmp newSize beamWidth (map (\<lambda>h. (h, False)) hyps) st1)) =
      set (m_hypos st1) \<union> set (takeWhile (\<lambda>h. total h > m_bestScore st1 + Fin beamWidth)
        (take (newSize - length (m_hypos st1)) hyps))"
    using Cons.IH [OF ok1] Cons.prems(2,3) by simp
  have unf: "keep_best st_cmp newSize beamWidth (map (\<lambda>h. (h, False)) (h # hyps)) st =
      (if length (m_hypos st) < newSize \<and> total h > m_bestScore st + Fin beamWidth
       then keep_best st_cmp newSize beamWidth (map (\<lambda>h. (h, False)) hyps) st1 else st)"
    by (simp add: st1_def Let_def)
  show ?case
  proof (cases "length (m_hypos st) < newSize")
    case True
    then have "take (newSize - length (m_hypos st)) (h # hyps) = h # take (newSize - length (m_hypos st1)) hyps"
      using f ins(2) by (simp add: take_Cons' Suc_diff_Suc)
    then show ?thesis using unf IH f ins(1) True by auto
  qed (simp add: unf)
qed

lemma stack_distinct: "stack_ok st_ok st_cmp n st \<Longrightarrow> distinct (m_hypos st)"
proof -
  assume ok: "stack_ok st_ok st_cmp n st"
  have "sorted_wrt (\<lambda>a b. RecombineCompare st_cmp a b < 0) xs \<Longrightarrow> \<forall>x \<in> set xs. ok_hypo n x \<Longrightarrow> distinct xs" for xs
    using three_way.cmp_refl [OF three_way_hypo] by (induction xs) fastforce+
  then show ?thesis using ok unfolding stack_ok_def set_ok_def by blast
qed

end

text \<open>Pruning a stack without diversity keeps, of the hypotheses sorted by descending score, the first
  \<open>newSize\<close> and of these the ones before the first that falls out of the beam; no hypothesis
  it drops beats one it keeps.
\<close>

theorem prune_keeps_the_best:
  assumes "feature_states ok cmp" and "stack_ok ok cmp n st" and "m_minHypoStackDiversity cfg = 0"
    and "newSize < length (m_hypos st)" and "newSize > 0"
  shows "\<exists>st'. PruneToSize cmp cfg newSize st = Some st' \<and>
     set (m_hypos st') = set (takeWhile (\<lambda>h. total h > m_bestScore st + Fin (m_beamWidth cfg))
       (take newSize (GetSortedList st))) \<and>
     (\<forall>h \<in> set (m_hypos st'). \<forall>g \<in> set (m_hypos st) - set (m_hypos st'). total g \<le> total h)"
proof -
  let ?st = "st\<lparr>m_hypos := []\<rparr>" and ?hs = "GetSortedList st"
  define st' where "st' = keep_best cmp newSize (m_beamWidth cfg) (map (\<lambda>h. (h, False)) ?hs) ?st"
  let ?kept = "takeWhile (\<lambda>h. total h > m_bestScore st + Fin (m_beamWidth cfg)) (take newSize ?hs)"
  have mset: "mset ?hs = mset (m_hypos st)" by (simp add: GetSortedList_def)
  have set: "set ?hs = set (m_hypos st)" by (simp add: GetSortedList_def)
  have "distinct ?hs"
    using feature_states.stack_distinct [OF assms(1,2)] mset mset_eq_imp_distinct_iff by blast
  moreover have "stack_ok ok cmp n ?st" by (simp add: stack_ok_def set_ok_def)
  moreover have "\<forall>h \<in> set ?hs. hypo_ok ok n h" using assms(2) set by (simp add: stack_ok_def)
  moreover have "apart cmp (set ?hs)" using feature_states.stack_apart [OF assms(1,2)] set by simp
  ultimately have kept: "set (m_hypos st') = set ?kept"
    using feature_states.keep_best_exact [OF assms(1), of n ?st ?hs newSize "m_beamWidth cfg"]
    by (simp add: st'_def)
  have zip: "zip ?hs (map (\<lambda>h. False) ?hs) = map (\<lambda>h. (h, False)) ?hs" for hs
    by (simp add: zip_map2 zip_same_conv_map)
  have prune: "PruneToSize cmp cfg newSize st = Some st'"
    using assms(3,4,5) zip by (simp add: PruneToSize_def Let_def st'_def)
  obtain rest where rest: "?hs = ?kept @ rest"
    by (metis append_take_drop_id takeWhile_dropWhile_id append.assoc)
  have "sorted_wrt (\<lambda>h g. total h \<ge> total g) (?kept @ rest)"
    using by_total_score_sorted [of "m_hypos st"] rest by (simp add: GetSortedList_def)
  then have "\<forall>h \<in> set ?kept. \<forall>g \<in> set rest. total g \<le> total h" by (simp add: sorted_wrt_append)
  moreover have "set (m_hypos st) - set ?kept \<subseteq> set rest"
    using set rest by (metis Diff_subset_conv set_append subset_refl)
  ultimately show ?thesis using prune kept by (metis subsetD)
qed


section \<open>Recombined hypotheses\<close>

text \<open>Everything a hypothesis stands for: itself and the arcs that were recombined into it, each with the hypothesis it
  extends, which is what the extraction of n-best lists follows.\<close>

definition own_entry :: "'st hypothesis \<Rightarrow> 'st hypo_core \<times> 'st hypothesis option" where
  "own_entry h = (core h, m_prevHypo h)"

definition hypo_entries :: "'st hypothesis \<Rightarrow> ('st hypo_core \<times> 'st hypothesis option) multiset" where
  "hypo_entries h = add_mset (own_entry h) (mset (map own_entry (case m_arcList h of None \<Rightarrow> [] | Some arcs \<Rightarrow> arcs)))"

definition stack_entries :: "'st stack \<Rightarrow> ('st hypo_core \<times> 'st hypothesis option) multiset" where
  "stack_entries st = sum_mset (image_mset hypo_entries (mset (m_hypos st)))"

lemma hypo_entries_AddArc: "hypo_entries (AddArc h g) = hypo_entries h + hypo_entries g"
  by (simp add: hypo_entries_def own_entry_def AddArc_def Let_def split: option.splits)

lemma set_insert_mset:
  "set_find cmp x xs = None \<Longrightarrow> mset (set_insert cmp x xs) = add_mset x (mset xs)"
  by (induction xs) (auto split: if_splits)

lemma replace_one_mset:
  assumes "distinct xs" "g \<in> set xs" "\<forall>y \<in> set xs. P y \<longleftrightarrow> y = g"
  shows "mset (map (\<lambda>y. if P y then f y else y) xs) = add_mset (f g) (mset xs - {#g#})"
proof -
  obtain as bs where xs: "xs = as @ g # bs" using assms(2) by (meson split_list)
  then have "g \<notin> set as" "g \<notin> set bs" using assms(1) by auto
  then have "map (\<lambda>y. if P y then f y else y) as = as" "map (\<lambda>y. if P y then f y else y) bs = bs"
    using assms(3) xs by (auto intro!: map_idI)
  then show ?thesis using assms(2,3) xs by simp
qed

lemma AddHypo_small:
  assumes "AddHypo cmp cfg h st = Some (st', True)" "tolerated_size cfg = Some k" "length (m_hypos st) < k"
  shows "mset (m_hypos st') = add_mset h (mset (m_hypos st))"
proof -
  have none: "set_find (RecombineCompare cmp) h (m_hypos st) = None"
    using assms(1) by (auto simp: AddHypo_def split: if_splits)
  obtain st1 where st1: "note_diversity cfg h (note_scores cfg h (insert_hypo cmp h st)) = Some st1"
    and st': "(if length (m_hypos st1) > k then map_option (\<lambda>st. (st, True)) (PruneToSize cmp cfg (m_maxHypoStackSize cfg) st1)
      else Some (st1, True)) = Some (st', True)"
    using assms(1,2) none by (auto simp: AddHypo_def Let_def split: option.splits)
  have "m_hypos st1 = set_insert (RecombineCompare cmp) h (m_hypos st)"
    using note_fields_length [OF st1] by simp
  moreover from this have "length (m_hypos st1) \<le> k"
    using set_insert_length [of "RecombineCompare cmp" h "m_hypos st"] assms(3) by simp
  ultimately show ?thesis using st' set_insert_mset [OF none] by (auto split: if_splits)
qed

context feature_states
begin

lemma set_erase_mset:
  assumes "stack_ok st_ok st_cmp n st" "g \<in> set (m_hypos st)"
  shows "mset (m_hypos (Detach st_cmp g st)) = mset (m_hypos st) - {#g#}"
proof -
  have g: "ok_hypo n g" using assms by (simp add: stack_ok_def)
  let ?e = "set_erase (RecombineCompare st_cmp) g (m_hypos st)"
  have e: "set_ok (RecombineCompare st_cmp) ?e" "set ?e = {y \<in> set (m_hypos st). RecombineCompare st_cmp g y \<noteq> 0}"
    using three_way.set_erase_props [OF three_way_hypo _ _ g, of "m_hypos st"] assms(1) by (simp_all add: stack_ok_def)
  have ok: "stack_ok st_ok st_cmp n (Detach st_cmp g st)"
    using e assms(1) by (simp add: stack_ok_def Detach_def)
  have "set ?e = set (m_hypos st) - {g}"
    using e(2) stack_apart [OF assms(1)] assms(2) three_way.cmp_refl [OF three_way_hypo g]
    unfolding apart_def by auto
  moreover have "distinct ?e" using stack_distinct [OF ok] by (simp add: Detach_def)
  moreover have "distinct (m_hypos st)" by (rule stack_distinct [OF assms(1)])
  ultimately have "mset ?e = mset (remove1 g (m_hypos st))"
    by (metis set_eq_iff_mset_eq_distinct distinct_remove1 set_remove1_eq)
  then show ?thesis by (simp add: Detach_def)
qed

end


text \<open>C22: With n-best lists enabled and a stack below its tolerated size, \<open>AddPrune\<close> loses no derivation: counted with
  their arcs and with the hypothesis each of them extends, the hypotheses of the stack are afterwards exactly those
  before, and those of the new hypothesis unless it was discarded as too bad for the stack, whether it is new, replaces
  an equivalent one or is recombined into it; and a hypothesis that is not discarded is represented on the stack by an
  equivalent one that scores at least as high.
\<close>

theorem recombination_keeps_arcs:
  assumes fs: "feature_states ok cmp" and ok: "stack_ok ok cmp n st" "hypo_ok ok n h"
    and nbest: "m_nBestIsEnabled cfg" and k: "tolerated_size cfg = Some k" "length (m_hypos st) < k"
    and add: "AddPrune cmp cfg h st = Some (st', b)"
  shows "stack_entries st' = stack_entries st + (if too_bad cfg h st = Some True then {#} else hypo_entries h) \<and>
    (too_bad cfg h st \<noteq> Some True \<longrightarrow> (\<exists>g \<in> set (m_hypos st'). RecombineCompare cmp h g = 0 \<and> total h \<le> total g))"
proof (cases "too_bad cfg h st = Some True")
  case True
  then show ?thesis using add by (simp add: AddPrune_def)
next
  case False
  then have kept: "too_bad cfg h st = Some False" using add by (auto simp: AddPrune_def split: option.splits)
  let ?find = "set_find (RecombineCompare cmp) h (m_hypos st)"
  note order = feature_states.three_way_hypo [OF fs]
  note refl = three_way.cmp_refl [OF order ok(2)]
  have "stack_entries st' = stack_entries st + hypo_entries h \<and>
    (\<exists>g \<in> set (m_hypos st'). RecombineCompare cmp h g = 0 \<and> total h \<le> total g)"
  proof (cases ?find)
    case None
    from add kept None have "AddHypo cmp cfg h st = Some (st', True)"
      by (auto simp: AddPrune_def AddHypo_def Let_def split: option.splits prod.splits bool.splits if_splits)
    note new = AddHypo_small [OF this k]
    then have "h \<in> set (m_hypos st')" by (metis set_mset_mset union_single_eq_member)
    then show ?thesis using new refl by (auto simp: stack_entries_def)
  next
    case (Some g)
    have g: "g \<in> set (m_hypos st)" "RecombineCompare cmp h g = 0"
      using three_way.set_find_Some [OF order] ok Some unfolding stack_ok_def by blast+
    then obtain M where M: "mset (m_hypos st) = add_mset g M" by (metis in_multiset_in_set multi_member_split)
    have gok: "hypo_ok ok n g" using g(1) ok(1) by (simp add: stack_ok_def)
    have "AddHypo cmp cfg h st = Some (st, False)" using Some by (simp add: AddHypo_def)
    show ?thesis
    proof (cases "total h > total g")
      case True
      then have c: "AddHypo cmp cfg (AddArc h g) (Detach cmp g st) = Some (st', True)"
        using add kept Some \<open>AddHypo cmp cfg h st = _\<close> nbest
        by (auto simp: AddPrune_def Let_def split: option.splits if_splits)
      have "length (m_hypos (Detach cmp g st)) < k"
        using k(2) set_erase_length [of "RecombineCompare cmp" g "m_hypos st"] by (simp add: Detach_def)
      note new = AddHypo_small [OF c k(1) this]
      then have "AddArc h g \<in> set (m_hypos st')" by (metis set_mset_mset union_single_eq_member)
      then show ?thesis using new feature_states.set_erase_mset [OF fs ok(1) g(1)] M refl
        by (auto simp: stack_entries_def hypo_entries_AddArc intro!: bexI [of _ "AddArc h g"])
    next
      case False
      have only: "\<forall>y \<in> set (m_hypos st). RecombineCompare cmp h y = 0 \<longleftrightarrow> y = g"
      proof (intro ballI iffI)
        fix y assume y: "y \<in> set (m_hypos st)" "RecombineCompare cmp h y = 0"
        then have "RecombineCompare cmp g y = 0"
          using three_way.cmp_eq_trans [OF order gok ok(2)] three_way.cmp_swap_eq [OF order ok(2) gok] g(2) ok(1)
          unfolding stack_ok_def by blast
        then show "y = g" using feature_states.stack_apart [OF fs ok(1)] y(1) g(1) unfolding apart_def by metis
      qed (use g in simp)
      let ?f = "\<lambda>g. if RecombineCompare cmp h g = 0 then AddArc g h else g"
      have st': "st' = st\<lparr>m_hypos := map ?f (m_hypos st)\<rparr>"
        using add kept Some \<open>AddHypo cmp cfg h st = _\<close> nbest False by (simp add: AddPrune_def)
      have "?f g \<in> set (map ?f (m_hypos st))" unfolding set_map by (rule imageI [OF g(1)])
      then have "AddArc g h \<in> set (m_hypos st')" using g(2) by (simp add: st')
      moreover have "RecombineCompare cmp h (AddArc g h) = 0 \<and> total h \<le> total (AddArc g h)" using g(2) False by simp
      moreover have "stack_entries st' = stack_entries st + hypo_entries h"
        using replace_one_mset [OF feature_states.stack_distinct [OF fs ok(1)] g(1) only, of "\<lambda>g. AddArc g h"] M
        by (simp add: st' stack_entries_def hypo_entries_AddArc ac_simps)
      ultimately show ?thesis by blast
    qed
  qed
  then show ?thesis using False by simp
qed


section \<open>Instances\<close>

text \<open>Hypotheses of a sentence of two words, with a distortion state, and the default settings.\<close>

definition sample_hypo :: "bool list \<Rightarrow> rat \<Rightarrow> ff_state hypothesis" where
  "sample_hypo cov score = Hypothesis
     \<lparr>m_targetPhrase = [], m_sourceCompleted = BitmapInitVector 2 cov,
      m_currSourceWordsRange = WordsRange 0 0, m_currTargetWordsRange = WordsRange 0 0,
      m_wordDeleted = False, m_totalScore = Fin score, m_futureScore = Fin 0, m_scoreBreakdown = [],
      m_ffStates = [Some (DistortionState_traditional (WordsRange 0 0) 0)],
      m_winningHypo = None, m_transOpt = None, m_id = 0\<rparr> None None"

definition sample_config :: stack_config where
  "sample_config = \<lparr>m_beamWidth = -11, m_maxHypoStackSize = 1, m_minHypoStackDiversity = 0, m_nBestIsEnabled = True,
     disableDiscarding = True, maxDistortion = 6, nBestSize = 10, distinctNBest = False\<rparr>"

lemma sample_facts:
  "hypo_ok (ff_ok []) (Suc 0) (sample_hypo [True, False] s)" "scored (sample_hypo [True, False] s)"
  "identified sample_config (sample_hypo cov s)" "stack_config_ok sample_config"
  "total (sample_hypo cov s) = Fin s"
  by (simp_all add: sample_hypo_def hypo_ok_def ff_ok_def wf_bitmap_def BitmapInitVector_def scored_def
      identified_def sample_config_def stack_config_ok_def less_Suc_eq)

lemma sample_compare:
  "RecombineCompare FFStateCompare (sample_hypo [True, False] s) (sample_hypo [True, False] t) = 0"
  by (simp add: RecombineCompare_def sample_hypo_def BitmapCompare_def BitmapInitVector_def Let_def)

lemmas sample_order = decoder_states.feature_states_axioms [of "[]"]

lemma best_hypothesis_survives_witness:
  "\<exists>st b. AddAll FFStateCompare sample_config [sample_hypo [True, False] (-2), sample_hypo [True, False] (-1)]
       HypothesisStackInit = Some st \<and> StackGetBestHypothesis st = Some b \<and> Fin (-1) \<le> total b"
proof -
  have ne: "[sample_hypo [True, False] (-2), sample_hypo [True, False] (-1)] \<noteq> []" by simp
  have all: "\<forall>h \<in> set [sample_hypo [True, False] (-2), sample_hypo [True, False] (-1)].
      hypo_ok (ff_ok []) (Suc 0) h \<and> scored h \<and> identified sample_config h" by (simp add: sample_facts)
  from best_hypothesis_survives [OF sample_order sample_facts(4) ne all] obtain st b where
    "AddAll FFStateCompare sample_config [sample_hypo [True, False] (-2), sample_hypo [True, False] (-1)] HypothesisStackInit = Some st"
    "StackGetBestHypothesis st = Some b"
    "\<forall>h \<in> set [sample_hypo [True, False] (-2), sample_hypo [True, False] (-1)]. total h \<le> total b"
    by (elim exE conjE)
  then show ?thesis using sample_facts(5) by (metis list.set_intros)
qed

lemma stack_size_bounded_witness:
  "\<exists>st st'. AddAll FFStateCompare sample_config [sample_hypo [True, False] (-2)] HypothesisStackInit = Some st \<and>
     PruneToSize FFStateCompare sample_config 1 st = Some st' \<and> length (m_hypos st) \<le> 1 \<and> length (m_hypos st') \<le> 1"
proof -
  let ?hs = "[sample_hypo [True, False] (-2)]"
  have "\<forall>h \<in> set ?hs. hypo_ok (ff_ok []) (Suc 0) h \<and> scored h \<and> identified sample_config h"
    "\<forall>g \<in> set (m_hypos HypothesisStackInit). identified sample_config g"
    by (simp_all add: sample_facts stack_init(3))
  from feature_states.AddAll_steps [OF sample_order stack_init(1,2) sample_facts(4) this] obtain st
    where st: "AddAll FFStateCompare sample_config ?hs HypothesisStackInit = Some st" by (elim exE conjE)
  have "\<forall>h \<in> set (m_hypos st). identified sample_config h" by (simp add: identified_def sample_config_def)
  from PruneToSize_defined [OF this] obtain st' where st': "PruneToSize FFStateCompare sample_config 1 st = Some st'" by blast
  have c: "m_minHypoStackDiversity sample_config = 0" "0 < m_maxHypoStackSize sample_config"
    "2 * m_maxHypoStackSize sample_config < size_bound" "m_maxHypoStackSize sample_config = 1"
    by (simp_all add: sample_config_def size_bound_def)
  show ?thesis using stack_size_bounded [OF c(1-3) st] st st' c(4) by auto
qed

definition sample_stack :: "ff_state stack" where
  "sample_stack = HypothesisStackInit\<lparr>m_hypos := [sample_hypo [True, False] (-2)]\<rparr>"

lemma sample_stack_ok: "stack_ok (ff_ok []) FFStateCompare (Suc 0) sample_stack"
  by (simp add: sample_stack_def stack_ok_def set_ok_def sample_facts HypothesisStackInit_def)

lemma recombination_keeps_arcs_witness:
  "\<exists>st'. AddPrune FFStateCompare (sample_config\<lparr>m_maxHypoStackSize := 2\<rparr>) (sample_hypo [True, False] (-1)) sample_stack =
     Some (st', False) \<and> stack_entries st' = stack_entries sample_stack + hypo_entries (sample_hypo [True, False] (-1))"
proof -
  let ?cfg = "sample_config\<lparr>m_maxHypoStackSize := 2\<rparr>" and ?h = "sample_hypo [True, False] (-1)"
  have bad: "too_bad ?cfg ?h sample_stack = Some False" by (simp add: too_bad_def sample_config_def)
  have k: "tolerated_size ?cfg = Some 3" "length (m_hypos sample_stack) < 3"
    by (simp_all add: tolerated_size_def sample_config_def sz_add_def sz_sub_def size_bound_def sample_stack_def)
  have "AddPrune FFStateCompare ?cfg ?h sample_stack = Some (fst (the (AddPrune FFStateCompare ?cfg ?h sample_stack)), False)"
    using bad k by (simp add: AddPrune_def AddHypo_def sample_stack_def sample_compare sample_facts Detach_def Let_def
        HypothesisStackInit_def note_diversity_def note_scores_def sample_config_def)
  moreover have "m_nBestIsEnabled ?cfg" by (simp add: sample_config_def)
  ultimately show ?thesis
    using recombination_keeps_arcs [OF sample_order sample_stack_ok sample_facts(1) _ k] bad by fastforce
qed

lemma sample_compare_less:
  "RecombineCompare FFStateCompare (sample_hypo [False, True] s) (sample_hypo [True, False] t) < 0"
  by (simp add: RecombineCompare_def sample_hypo_def BitmapCompare_def BitmapInitVector_def Let_def upt_rec)

lemma prune_keeps_the_best_witness:
  "\<exists>st'. PruneToSize FFStateCompare sample_config 1
     (HypothesisStackInit\<lparr>m_hypos := [sample_hypo [False, True] (-2), sample_hypo [True, False] (-1)], m_bestScore := Fin (-1)\<rparr>) =
     Some st' \<and> set (m_hypos st') = {sample_hypo [True, False] (-1)}"
proof -
  let ?st = "HypothesisStackInit\<lparr>m_hypos := [sample_hypo [False, True] (-2), sample_hypo [True, False] (-1)], m_bestScore := Fin (-1)\<rparr>"
  have "hypo_ok (ff_ok []) (Suc 0) (sample_hypo [False, True] (-2))"
    by (simp add: sample_hypo_def hypo_ok_def ff_ok_def wf_bitmap_def BitmapInitVector_def less_Suc_eq)
  then have ok: "stack_ok (ff_ok []) FFStateCompare (Suc 0) ?st"
    by (simp add: stack_ok_def set_ok_def sample_facts sample_compare_less)
  have "GetSortedList ?st = [sample_hypo [True, False] (-1), sample_hypo [False, True] (-2)]"
    by (simp add: GetSortedList_def by_total_score_def sample_facts sort_key_simps)
  then show ?thesis
    using prune_keeps_the_best [OF sample_order ok, of sample_config 1] by (fastforce simp: sample_facts sample_config_def)
qed

end
