(* ===== verification/Search_Normal.thy ===== *)
theory Search_Normal
  imports Hypothesis_Stack Reordering_Constraint
begin

text \<open>
  The stack decoder (\<open>SearchNormal.cpp\<close>): the seed hypothesis, the spans a hypothesis may be
  expanded to, the expansion itself and the loop over the stacks. The translation options of a span
  are an argument, as are the feature functions and whether the time limit is reached before a
  stack. \<open>None\<close> is a failed assertion or an undefined operation of the code.
\<close>

section \<open>Environment and state\<close>

record 'st search_env =
  features :: "'st features"
  state_compare :: "'st \<Rightarrow> 'st \<Rightarrow> int"
  allWeights :: "rat list"
  stack_cfg :: stack_config
  sourceSize :: nat
  initialCoverage :: "bool list"
  initialTargetPhrase :: phrase
  isWordLattice :: bool
  distortionDistance :: "words_range \<Rightarrow> words_range \<Rightarrow> int"
  canIGetFromAToB :: "nat \<Rightarrow> nat \<Rightarrow> bool"
  reorderingConstraint :: reordering_constraint
  maxPhraseLength :: nat
  maxNumFactors :: nat
  constraintPhrase :: "phrase option"
  options :: "words_range \<Rightarrow> trans_opt list"
  futureScores :: "score square_matrix"
  useEarlyDiscarding :: bool
  earlyDiscardingThreshold :: rat
  out_of_time :: "nat \<Rightarrow> bool"

record 'st search =
  m_hypoStackColl :: "'st stack list"
  m_hypoId :: nat
  interrupted_flag :: bool
  actual_hypoStack :: "nat option"

definition SearchNormalInit :: "'st search_env \<Rightarrow> 'st search" where
  "SearchNormalInit env =
     \<lparr>m_hypoStackColl = replicate (sourceSize env + 1) HypothesisStackInit, m_hypoId = 0,
      interrupted_flag = False, actual_hypoStack = None\<rparr>"

section \<open>Expanding a hypothesis by one translation option\<close>

definition add_to_stack :: "'st search_env \<Rightarrow> 'st hypothesis \<Rightarrow> 'st search \<Rightarrow> 'st search option" where
  "add_to_stack env newHypo s =
     (let wordsTranslated = BitmapNumWordsCovered (coverage newHypo)
      in if \<not> wordsTranslated < length (m_hypoStackColl s) then None
         else map_option (\<lambda>(st, b). s\<lparr>m_hypoStackColl := (m_hypoStackColl s)[wordsTranslated := st]\<rparr>)
                (AddPrune (state_compare env) (stack_cfg env) newHypo (m_hypoStackColl s ! wordsTranslated)))"

text \<open>The score an expansion has to reach under early discarding.\<close>

definition allowed_score :: "'st search_env \<Rightarrow> 'st hypothesis \<Rightarrow> trans_opt \<Rightarrow> 'st search \<Rightarrow> score option" where
  "allowed_score env hypothesis transOpt s =
     (let wordsTranslated = BitmapNumWordsCovered (coverage hypothesis) + to_GetSize transOpt
      in if \<not> wordsTranslated < length (m_hypoStackColl s) then None
         else
           let st = m_hypoStackColl s ! wordsTranslated;
               allowedScore = m_worstScore st
           in map_option (\<lambda>sc. sc + Fin (earlyDiscardingThreshold env))
                (if m_minHypoStackDiversity (stack_cfg env) > 0
                 then map_option (\<lambda>key. min allowedScore (GetWorstScoreForBitmap st key))
                        (GetIDPlus (coverage hypothesis) (m_startPos (to_range transOpt)) (m_endPos (to_range transOpt)))
                 else Some allowedScore))"

definition ExpandHypothesis ::
    "'st search_env \<Rightarrow> 'st hypothesis \<Rightarrow> trans_opt \<Rightarrow> score \<Rightarrow> 'st search \<Rightarrow> 'st search option" where
  "ExpandHypothesis env hypothesis transOpt expectedScore s =
     (let new = Create (maxNumFactors env) (constraintPhrase env) hypothesis transOpt (m_hypoId s);
          s' = s\<lparr>m_hypoId := m_hypoId s + 1\<rparr>
      in if \<not> useEarlyDiscarding env
         then (case new of
                 Failed \<Rightarrow> None
               | Null \<Rightarrow> Some s
               | Created newHypo \<Rightarrow>
                   (case CalcScore (features env) (allWeights env) (futureScores env) newHypo of
                      None \<Rightarrow> None
                    | Some newHypo \<Rightarrow> add_to_stack env newHypo s'))
         else (case allowed_score env hypothesis transOpt s of
                 None \<Rightarrow> None
               | Some allowedScore \<Rightarrow>
                   if expectedScore + to_futureScore transOpt < allowedScore then Some s
                   else (case new of
                           Failed \<Rightarrow> None
                         | Null \<Rightarrow> Some s
                         | Created newHypo \<Rightarrow>
                             (case CalcExpectedScore (futureScores env) newHypo of
                                None \<Rightarrow> None
                              | Some (newHypo, expectedScore) \<Rightarrow>
                                  if expectedScore < allowedScore then Some s'
                                  else (case CalcRemainingScore newHypo of
                                          None \<Rightarrow> None
                                        | Some newHypo \<Rightarrow> add_to_stack env newHypo s')))))"

fun expand_options :: "'st search_env \<Rightarrow> 'st hypothesis \<Rightarrow> score \<Rightarrow> trans_opt list \<Rightarrow> 'st search \<Rightarrow> 'st search option" where
  "expand_options env hypothesis expectedScore [] s = Some s"
| "expand_options env hypothesis expectedScore (transOpt # ts) s =
     (case ExpandHypothesis env hypothesis transOpt expectedScore s of
        None \<Rightarrow> None
      | Some s \<Rightarrow> expand_options env hypothesis expectedScore ts s)"

definition ExpandAllHypotheses :: "'st search_env \<Rightarrow> 'st hypothesis \<Rightarrow> nat \<Rightarrow> nat \<Rightarrow> 'st search \<Rightarrow> 'st search option" where
  "ExpandAllHypotheses env hypothesis startPos endPos s =
     (let expectedScore = (if useEarlyDiscarding env
            then HypoGetScore hypothesis + CalcFutureScoreSpan (futureScores env) (coverage hypothesis) startPos endPos
            else 0)
      in expand_options env hypothesis expectedScore (options env (WordsRange startPos endPos)) s)"

section \<open>The spans a hypothesis is expanded to\<close>

definition max_size :: "'st search_env \<Rightarrow> nat \<Rightarrow> nat" where
  "max_size env startPos =
     (let maxSize = sourceSize env - startPos
      in if maxSize < maxPhraseLength env then maxSize else maxPhraseLength env)"

text \<open>Translation options, no overlap, and the reordering constraint.\<close>

definition basic_checks :: "'st search_env \<Rightarrow> words_bitmap \<Rightarrow> nat \<Rightarrow> nat \<Rightarrow> bool" where
  "basic_checks env b startPos endPos \<longleftrightarrow>
     options env (WordsRange startPos endPos) \<noteq> [] \<and> \<not> BitmapOverlap b (WordsRange startPos endPos) \<and>
     Check (maxDistortion (stack_cfg env)) (reorderingConstraint env) b startPos endPos"

definition start_allowed :: "'st search_env \<Rightarrow> 'st hypothesis \<Rightarrow> nat \<Rightarrow> bool" where
  "start_allowed env hypothesis startPos =
     (let b = coverage hypothesis; prevRange = m_currSourceWordsRange (core hypothesis);
          closestLeft = GetEdgeToTheLeftOf b startPos
      in if GetValue b startPos then False
         else if isWordLattice env \<and> closestLeft \<noteq> 0 \<and> closestLeft \<noteq> startPos \<and>
                 \<not> canIGetFromAToB env closestLeft startPos then False
         else if isWordLattice env \<and> m_startPos prevRange \<noteq> NOT_FOUND \<and> m_startPos prevRange > startPos \<and>
                 \<not> canIGetFromAToB env startPos (m_startPos prevRange) then False
         else \<not> distortionDistance env prevRange (WordsRange startPos startPos) > maxDistortion (stack_cfg env))"

definition end_allowed :: "'st search_env \<Rightarrow> 'st hypothesis \<Rightarrow> nat \<Rightarrow> nat \<Rightarrow> bool" where
  "end_allowed env hypothesis startPos endPos =
     (let b = coverage hypothesis; hypoFirstGapPos = GetFirstGapPos b;
          extRange = WordsRange startPos endPos; closestRight = GetEdgeToTheRightOf b endPos
      in if \<not> basic_checks env b startPos endPos \<or>
            (isWordLattice env \<and> \<not> IsCoveragePossible (canIGetFromAToB env) extRange) then False
         else if isWordLattice env \<and> closestRight \<noteq> endPos \<and> closestRight + 1 < sourceSize env \<and>
                 \<not> canIGetFromAToB env (endPos + 1) (closestRight + 1) then False
         else hypoFirstGapPos = startPos \<or>
              \<not> distortionDistance env extRange (WordsRange hypoFirstGapPos hypoFirstGapPos) > maxDistortion (stack_cfg env))"

text \<open>The pairs of loop indices at which \<open>ProcessOneHypothesis\<close> expands, in the order of the loops.\<close>

definition expansion_spans :: "'st search_env \<Rightarrow> 'st hypothesis \<Rightarrow> (nat \<times> nat) list" where
  "expansion_spans env hypothesis =
     (let b = coverage hypothesis; starts = [GetFirstGapPos b..<sourceSize env];
          ends = (\<lambda>startPos. map (Pair startPos) [startPos..<startPos + max_size env startPos])
      in if maxDistortion (stack_cfg env) < 0
         then filter (\<lambda>(startPos, endPos). basic_checks env b startPos endPos) (concat (map ends starts))
         else filter (\<lambda>(startPos, endPos). end_allowed env hypothesis startPos endPos)
                (concat (map ends (filter (start_allowed env hypothesis) starts))))"

fun expand_spans :: "'st search_env \<Rightarrow> 'st hypothesis \<Rightarrow> (nat \<times> nat) list \<Rightarrow> 'st search \<Rightarrow> 'st search option" where
  "expand_spans env hypothesis [] s = Some s"
| "expand_spans env hypothesis ((startPos, endPos) # spans) s =
     (case ExpandAllHypotheses env hypothesis startPos endPos s of
        None \<Rightarrow> None
      | Some s \<Rightarrow> expand_spans env hypothesis spans s)"

definition ProcessOneHypothesis :: "'st search_env \<Rightarrow> 'st hypothesis \<Rightarrow> 'st search \<Rightarrow> 'st search option" where
  "ProcessOneHypothesis env hypothesis s = expand_spans env hypothesis (expansion_spans env hypothesis) s"

section \<open>The loop over the stacks\<close>

text \<open>
  The set of a stack does not change while its hypotheses are expanded: an expansion covers more
  words than the hypothesis, so it goes to a later stack.
\<close>

fun process_hypotheses :: "'st search_env \<Rightarrow> 'st hypothesis list \<Rightarrow> 'st search \<Rightarrow> 'st search option" where
  "process_hypotheses env [] s = Some s"
| "process_hypotheses env (h # hs) s =
     (case ProcessOneHypothesis env h s of None \<Rightarrow> None | Some s \<Rightarrow> process_hypotheses env hs s)"

definition process_stack :: "'st search_env \<Rightarrow> nat \<Rightarrow> 'st search \<Rightarrow> 'st search option" where
  "process_stack env ind s =
     (case PruneToSize (state_compare env) (stack_cfg env) (m_maxHypoStackSize (stack_cfg env)) (m_hypoStackColl s ! ind) of
        None \<Rightarrow> None
      | Some st \<Rightarrow>
          let st = StackCleanupArcList (stack_cfg env) st
          in map_option (\<lambda>s. s\<lparr>actual_hypoStack := Some ind\<rparr>)
               (process_hypotheses env (m_hypos st) (s\<lparr>m_hypoStackColl := (m_hypoStackColl s)[ind := st]\<rparr>)))"

fun process_stacks :: "'st search_env \<Rightarrow> nat list \<Rightarrow> 'st search \<Rightarrow> 'st search option" where
  "process_stacks env [] s = Some s"
| "process_stacks env (ind # inds) s =
     (if out_of_time env ind then Some (s\<lparr>interrupted_flag := True\<rparr>)
      else (case process_stack env ind s of None \<Rightarrow> None | Some s \<Rightarrow> process_stacks env inds s))"

definition seed :: "'st search_env \<Rightarrow> 'st hypothesis" where
  "seed env = HypothesisInit (features env) (length (allWeights env)) (sourceSize env) (initialCoverage env)
     (initialTargetPhrase env) 0"

definition ProcessSentence :: "'st search_env \<Rightarrow> 'st search option" where
  "ProcessSentence env =
     (let s = SearchNormalInit env
      in case AddPrune (state_compare env) (stack_cfg env) (seed env) (m_hypoStackColl s ! 0) of
           None \<Rightarrow> None
         | Some (st, b) \<Rightarrow>
             process_stacks env [0..<sourceSize env + 1]
               (s\<lparr>m_hypoStackColl := (m_hypoStackColl s)[0 := st], m_hypoId := 1\<rparr>))"

text \<open>\<open>None\<close> is the read of a stack pointer that was never set.\<close>

definition SearchGetBestHypothesis :: "'st search \<Rightarrow> 'st hypothesis option option" where
  "SearchGetBestHypothesis s =
     (if \<not> interrupted_flag s then Some (StackGetBestHypothesis (m_hypoStackColl s ! (length (m_hypoStackColl s) - 1)))
      else map_option (\<lambda>ind. StackGetBestHypothesis (m_hypoStackColl s ! ind)) (actual_hypoStack s))"


section \<open>What stacks hold\<close>

text \<open>Two copies of a hypothesis, apart from the arcs and the winner recorded for n-best lists.\<close>

definition same_but_arcs :: "'st hypothesis \<Rightarrow> 'st hypothesis \<Rightarrow> bool" where
  "same_but_arcs h g \<longleftrightarrow> m_prevHypo h = m_prevHypo g \<and>
     (core h)\<lparr>m_winningHypo := None\<rparr> = (core g)\<lparr>m_winningHypo := None\<rparr>"

definition arc_closed :: "('st hypothesis \<Rightarrow> bool) \<Rightarrow> bool" where
  "arc_closed P \<longleftrightarrow> (\<forall>h g. P g \<and> same_but_arcs h g \<longrightarrow> P h)"

lemma arc_closedD: "arc_closed P \<Longrightarrow> P g \<Longrightarrow> same_but_arcs h g \<Longrightarrow> P h"
  unfolding arc_closed_def by blast

lemma same_but_arcs_AddArc: "same_but_arcs (AddArc h g) h"
  by (simp add: same_but_arcs_def AddArc_def Let_def)

lemma same_but_arcs_core:
  assumes "same_but_arcs h g"
  shows "coverage h = coverage g" "m_currSourceWordsRange (core h) = m_currSourceWordsRange (core g)"
    "m_currTargetWordsRange (core h) = m_currTargetWordsRange (core g)"
    "m_targetPhrase (core h) = m_targetPhrase (core g)" "m_prevHypo h = m_prevHypo g"
proof -
  have e: "(core h)\<lparr>m_winningHypo := None\<rparr> = (core g)\<lparr>m_winningHypo := None\<rparr>" "m_prevHypo h = m_prevHypo g"
    using assms by (simp_all add: same_but_arcs_def)
  show "m_prevHypo h = m_prevHypo g" by (rule e(2))
  show "coverage h = coverage g" using arg_cong [OF e(1), of m_sourceCompleted] by simp
  show "m_currSourceWordsRange (core h) = m_currSourceWordsRange (core g)"
    using arg_cong [OF e(1), of m_currSourceWordsRange] by simp
  show "m_currTargetWordsRange (core h) = m_currTargetWordsRange (core g)"
    using arg_cong [OF e(1), of m_currTargetWordsRange] by simp
  show "m_targetPhrase (core h) = m_targetPhrase (core g)" using arg_cong [OF e(1), of m_targetPhrase] by simp
qed

lemma PruneToSize_subset:
  assumes "PruneToSize cmp cfg newSize st = Some st'"
  shows "set (m_hypos st') \<subseteq> set (m_hypos st)"
proof (cases "length (m_hypos st) \<le> newSize")
  case True
  with assms show ?thesis by (simp add: PruneToSize_def)
next
  case False
  define st0 where "st0 = st\<lparr>m_hypos := []\<rparr>"
  let ?hs = "GetSortedList st"
  obtain st1 included where
    st1: "(if m_minHypoStackDiversity cfg > 0
           then keep_diverse cmp (m_minHypoStackDiversity cfg) ?hs (\<lambda>key. None) st0
           else Some (st0, map (\<lambda>h. False) ?hs)) = Some (st1, included)"
    and st': "st' = (if length (m_hypos st1) < newSize
        then keep_best cmp newSize (m_beamWidth cfg) (zip ?hs included) st1 else st1)"
    using assms False by (auto simp: PruneToSize_def Let_def st0_def [symmetric] split: option.splits)
  have hs: "set ?hs = set (m_hypos st)" by (simp add: GetSortedList_def)
  have one: "set (m_hypos st1) \<subseteq> set ?hs"
    using st1 keep_diverse_bounds(3) [of cmp _ ?hs "\<lambda>key. None" st0 st1 included]
    by (auto simp: st0_def split: if_splits)
  have "fst ` set (zip ?hs included) \<subseteq> set ?hs" by (auto dest: set_zip_leftD)
  with one have "set (m_hypos (keep_best cmp newSize (m_beamWidth cfg) (zip ?hs included) st1)) \<subseteq> set ?hs"
    using keep_best_bounds(3) [OF refl, of cmp newSize "m_beamWidth cfg" "zip ?hs included" st1] by blast
  with one show ?thesis unfolding st' hs by simp
qed

lemma AddHypo_subset:
  assumes "AddHypo cmp cfg h st = Some (st', b)"
  shows "set (m_hypos st') \<subseteq> insert h (set (m_hypos st))"
proof (cases "set_find (RecombineCompare cmp) h (m_hypos st)")
  case (Some g)
  with assms show ?thesis by (auto simp: AddHypo_def)
next
  case None
  then obtain st1 k where st1: "note_diversity cfg h (note_scores cfg h (insert_hypo cmp h st)) = Some st1"
    and st': "(if length (m_hypos st1) > k then map_option (\<lambda>st. (st, True)) (PruneToSize cmp cfg (m_maxHypoStackSize cfg) st1)
      else Some (st1, True)) = Some (st', b)"
    using assms by (auto simp: AddHypo_def Let_def split: option.splits)
  have "set (m_hypos st1) \<subseteq> insert h (set (m_hypos st))"
    using note_fields_length [OF st1] three_way_set_insert_subset [of "RecombineCompare cmp" h "m_hypos st"] by simp
  moreover have "set (m_hypos st') \<subseteq> set (m_hypos st1)"
    using st' by (auto split: if_splits dest: PruneToSize_subset [THEN subsetD])
  ultimately show ?thesis by blast
qed

lemma set_erase_subset: "set (set_erase cmp x xs) \<subseteq> set xs"
  by (induction xs) auto

lemma set_find_in: "set_find cmp x xs = Some y \<Longrightarrow> y \<in> set xs"
  by (induction xs) (auto split: if_splits)

lemma AddPrune_holds:
  assumes P: "arc_closed P" "P h" "\<forall>g \<in> set (m_hypos st). P g" and add: "AddPrune cmp cfg h st = Some (st', b)"
  shows "\<forall>g \<in> set (m_hypos st'). P g"
proof -
  have arc: "P (AddArc g k)" if "P g" for g k
    using arc_closedD [OF P(1) that same_but_arcs_AddArc] .
  have new: "\<forall>g \<in> set (m_hypos s'). P g" if "AddHypo cmp cfg k s = Some (s', c)" "P k" "\<forall>g \<in> set (m_hypos s). P g" for k s s' c
    using AddHypo_subset [OF that(1)] that(2,3) by blast
  have det: "\<forall>g \<in> set (m_hypos (Detach cmp x st)). P g" for x
    using set_erase_subset [of "RecombineCompare cmp" x "m_hypos st"] P(3) by (auto simp: Detach_def)
  have same: "s = st" if "AddHypo cmp cfg h st = Some (s, False)" for s
    using that by (auto simp: AddHypo_def Let_def split: if_splits option.splits)
  show ?thesis
  proof (cases "too_bad cfg h st")
    case (Some bad)
    show ?thesis
    proof (cases bad)
      case True
      then show ?thesis using add P(3) Some by (simp add: AddPrune_def)
    next
      case False
      then obtain s c where s: "AddHypo cmp cfg h st = Some (s, c)"
        using add Some by (auto simp: AddPrune_def split: option.splits)
      show ?thesis
      proof (cases c)
        case True
        then show ?thesis using add Some False s new [OF s P(2,3)] by (simp add: AddPrune_def)
      next
        case c: False
        then have "s = st" using s same by simp
        then obtain g where g: "set_find (RecombineCompare cmp) h (m_hypos st) = Some g"
          using add Some False s c by (auto simp: AddPrune_def split: option.splits)
        show ?thesis
        proof (cases "total h > total g")
          case True
          let ?h = "if m_nBestIsEnabled cfg then AddArc h g else h"
          obtain c' where "AddHypo cmp cfg ?h (Detach cmp g st) = Some (st', c')"
            using add Some False s c g \<open>s = st\<close> True
            by (auto simp: AddPrune_def Let_def split: option.splits if_splits)
          moreover have "P ?h" using arc P(2) by simp
          ultimately show ?thesis using new det by blast
        next
          case less: False
          then show ?thesis
            using add Some False s c g \<open>s = st\<close> arc P(3)
            by (auto simp: AddPrune_def split: if_splits)
        qed
      qed
    qed
  qed (use add in \<open>simp add: AddPrune_def\<close>)
qed

lemma StackCleanup_holds:
  assumes "arc_closed P" "\<forall>g \<in> set (m_hypos st). P g"
  shows "\<forall>g \<in> set (m_hypos (StackCleanupArcList cfg st)). P g"
proof -
  have "same_but_arcs (HypoCleanupArcList k d g) g" for k d and g
    by (simp add: same_but_arcs_def HypoCleanupArcList_def update_core_def Let_def split: option.splits)
  then have "P (HypoCleanupArcList k d g)" if "P g" for k d and g
    using arc_closedD [OF assms(1) that] by blast
  then show ?thesis using assms(2) by (simp add: StackCleanupArcList_def)
qed


section \<open>The hypotheses the search produces\<close>

text \<open>
  The hypotheses that arise from the seed by scored expansions at admitted spans with their
  translation options.
\<close>

inductive produced :: "'st search_env \<Rightarrow> 'st hypothesis \<Rightarrow> bool"
  for env :: "'st search_env" where
  seed: "produced env (seed env)"
| expand: "produced env p \<Longrightarrow> (startPos, endPos) \<in> set (expansion_spans env p) \<Longrightarrow>
    transOpt \<in> set (options env (WordsRange startPos endPos)) \<Longrightarrow>
    Create (maxNumFactors env) (constraintPhrase env) p transOpt i = Created h \<Longrightarrow>
    CalcScore (features env) (allWeights env) (futureScores env) h = Some h' \<Longrightarrow> produced env h'"
| arcs: "produced env g \<Longrightarrow> same_but_arcs h g \<Longrightarrow> produced env h"

lemma produced_arc_closed: "arc_closed (produced env)"
  unfolding arc_closed_def using produced.arcs by blast

definition search_inv :: "'st search_env \<Rightarrow> 'st search \<Rightarrow> bool" where
  "search_inv env s \<longleftrightarrow> length (m_hypoStackColl s) = sourceSize env + 1 \<and>
     (\<forall>i < length (m_hypoStackColl s). \<forall>h \<in> set (m_hypos (m_hypoStackColl s ! i)).
        produced env h \<and> BitmapNumWordsCovered (coverage h) = i)"

lemma search_inv_stack:
  assumes "search_inv env s" "i \<le> sourceSize env" "h \<in> set (m_hypos (m_hypoStackColl s ! i))"
  shows "produced env h \<and> BitmapNumWordsCovered (coverage h) = i"
proof -
  have "i < length (m_hypoStackColl s)" using assms(1,2) by (simp add: search_inv_def)
  then show ?thesis using assms(1,3) unfolding search_inv_def by blast
qed

lemma stack_pred_closed: "arc_closed (\<lambda>h. produced env h \<and> BitmapNumWordsCovered (coverage h) = i)"
  using produced_arc_closed same_but_arcs_core(1) unfolding arc_closed_def by metis

lemma search_inv_update:
  assumes "search_inv env s" "i < length (m_hypoStackColl s)"
    and "\<forall>g \<in> set (m_hypos st). produced env g \<and> BitmapNumWordsCovered (coverage g) = i"
  shows "search_inv env (s\<lparr>m_hypoStackColl := (m_hypoStackColl s)[i := st]\<rparr>)"
  using assms unfolding search_inv_def by (auto simp: nth_list_update split: if_splits)

lemma add_to_stack_inv:
  assumes "add_to_stack env h s = Some s'" "search_inv env s" "produced env h"
  shows "search_inv env s'"
proof -
  let ?i = "BitmapNumWordsCovered (coverage h)"
  obtain st b where i: "?i < length (m_hypoStackColl s)"
    and st: "AddPrune (state_compare env) (stack_cfg env) h (m_hypoStackColl s ! ?i) = Some (st, b)"
    and s': "s' = s\<lparr>m_hypoStackColl := (m_hypoStackColl s)[?i := st]\<rparr>"
    using assms(1) by (auto simp: add_to_stack_def Let_def split: if_splits)
  have "\<forall>g \<in> set (m_hypos st). produced env g \<and> BitmapNumWordsCovered (coverage g) = ?i"
    using AddPrune_holds [OF stack_pred_closed _ _ st] assms(2,3) i unfolding search_inv_def by blast
  then show ?thesis unfolding s' by (rule search_inv_update [OF assms(2) i])
qed

lemma search_inv_id [simp]: "search_inv env (s\<lparr>m_hypoId := k\<rparr>) = search_inv env s"
  by (simp add: search_inv_def)

lemma ExpandHypothesis_inv:
  assumes "ExpandHypothesis env p transOpt expected s = Some s'" "search_inv env s" "produced env p"
    and "(startPos, endPos) \<in> set (expansion_spans env p)" "transOpt \<in> set (options env (WordsRange startPos endPos))"
  shows "search_inv env s'"
proof (cases "useEarlyDiscarding env")
  case True
  then show ?thesis using assms(1,2)
    by (auto simp: ExpandHypothesis_def CalcExpectedScore_def Let_def split: if_splits option.splits created.splits)
next
  case False
  consider "s' = s" | h h' where
    "Create (maxNumFactors env) (constraintPhrase env) p transOpt (m_hypoId s) = Created h"
    "CalcScore (features env) (allWeights env) (futureScores env) h = Some h'"
    "add_to_stack env h' (s\<lparr>m_hypoId := m_hypoId s + 1\<rparr>) = Some s'"
    using assms(1) False by (auto simp: ExpandHypothesis_def Let_def split: option.splits created.splits)
  then show ?thesis
  proof cases
    case (2 h h')
    from produced.expand [OF assms(3,4,5) 2(1,2)] add_to_stack_inv [OF 2(3)] assms(2) show ?thesis by simp
  qed (use assms(2) in simp)
qed

lemma expand_options_inv:
  assumes "expand_options env p expected ts s = Some s'" "search_inv env s" "produced env p"
    and "(startPos, endPos) \<in> set (expansion_spans env p)" "set ts \<subseteq> set (options env (WordsRange startPos endPos))"
  shows "search_inv env s'"
  using assms
proof (induction ts arbitrary: s)
  case Nil
  then show ?case by simp
next
  case (Cons t ts)
  then obtain s1 where s1: "ExpandHypothesis env p t expected s = Some s1" "expand_options env p expected ts s1 = Some s'"
    by (auto split: option.splits)
  have "search_inv env s1" using ExpandHypothesis_inv [OF s1(1) Cons.prems(2,3,4)] Cons.prems(5) by simp
  from Cons.IH [OF s1(2) this Cons.prems(3,4)] Cons.prems(5) show ?case by simp
qed

lemma expand_spans_inv:
  assumes "expand_spans env p spans s = Some s'" "search_inv env s" "produced env p"
    and "set spans \<subseteq> set (expansion_spans env p)"
  shows "search_inv env s'"
  using assms
proof (induction spans arbitrary: s)
  case Nil
  then show ?case by simp
next
  case (Cons sp spans)
  obtain a b where sp: "sp = (a, b)" by force
  obtain s1 where s1: "ExpandAllHypotheses env p a b s = Some s1" "expand_spans env p spans s1 = Some s'"
    using Cons.prems(1) by (auto simp: sp split: option.splits)
  have "(a, b) \<in> set (expansion_spans env p)" using Cons.prems(4) by (simp add: sp)
  then have "search_inv env s1"
    using expand_options_inv [OF s1(1) [unfolded ExpandAllHypotheses_def Let_def] Cons.prems(2,3)] by blast
  from Cons.IH [OF s1(2) this Cons.prems(3)] Cons.prems(4) show ?case by simp
qed

lemma process_hypotheses_inv:
  assumes "process_hypotheses env hs s = Some s'" "search_inv env s" "\<forall>h \<in> set hs. produced env h"
  shows "search_inv env s'"
  using assms
proof (induction hs arbitrary: s)
  case Nil
  then show ?case by simp
next
  case (Cons h hs)
  then obtain s1 where s1: "ProcessOneHypothesis env h s = Some s1" "process_hypotheses env hs s1 = Some s'"
    by (auto split: option.splits)
  have "search_inv env s1"
    using expand_spans_inv [OF s1(1) [unfolded ProcessOneHypothesis_def] Cons.prems(2)] Cons.prems(3) by simp
  from Cons.IH [OF s1(2) this] Cons.prems(3) show ?case by simp
qed

lemma process_stack_inv:
  assumes "process_stack env ind s = Some s'" "search_inv env s" "ind < length (m_hypoStackColl s)"
  shows "search_inv env s' \<and> length (m_hypoStackColl s') = length (m_hypoStackColl s) \<and> actual_hypoStack s' = Some ind"
proof -
  obtain st0 where st0: "PruneToSize (state_compare env) (stack_cfg env) (m_maxHypoStackSize (stack_cfg env))
      (m_hypoStackColl s ! ind) = Some st0"
    using assms(1) by (auto simp: process_stack_def split: option.splits)
  define st where "st = StackCleanupArcList (stack_cfg env) st0"
  obtain s1 where s1: "process_hypotheses env (m_hypos st) (s\<lparr>m_hypoStackColl := (m_hypoStackColl s)[ind := st]\<rparr>) = Some s1"
    and s': "s' = s1\<lparr>actual_hypoStack := Some ind\<rparr>"
    using assms(1) st0 by (auto simp: process_stack_def Let_def st_def)
  have "\<forall>h \<in> set (m_hypos st0). produced env h \<and> BitmapNumWordsCovered (coverage h) = ind"
    using PruneToSize_subset [OF st0] assms(2,3) unfolding search_inv_def by blast
  then have st: "\<forall>h \<in> set (m_hypos st). produced env h \<and> BitmapNumWordsCovered (coverage h) = ind"
    unfolding st_def by (rule StackCleanup_holds [OF stack_pred_closed])
  have "search_inv env (s\<lparr>m_hypoStackColl := (m_hypoStackColl s)[ind := st]\<rparr>)"
    by (rule search_inv_update [OF assms(2,3) st])
  from process_hypotheses_inv [OF s1 this] st have "search_inv env s1" by blast
  then show ?thesis using assms(2) unfolding s' search_inv_def by simp
qed

lemma process_stacks_inv:
  assumes "process_stacks env inds s = Some s'" "search_inv env s" "\<forall>i \<in> set inds. i < sourceSize env + 1"
  shows "search_inv env s'"
  using assms
proof (induction inds arbitrary: s)
  case Nil
  then show ?case by simp
next
  case (Cons ind inds)
  show ?case
  proof (cases "out_of_time env ind")
    case True
    then show ?thesis using Cons.prems(1,2) by (auto simp: search_inv_def)
  next
    case False
    then obtain s1 where s1: "process_stack env ind s = Some s1" "process_stacks env inds s1 = Some s'"
      using Cons.prems(1) by (auto split: option.splits)
    have "ind < length (m_hypoStackColl s)" using Cons.prems(2,3) by (simp add: search_inv_def)
    with process_stack_inv [OF s1(1) Cons.prems(2)] have "search_inv env s1" by blast
    from Cons.IH [OF s1(2) this] Cons.prems(3) show ?thesis by simp
  qed
qed

text \<open>The search starts from nothing covered.\<close>

lemma start_inv:
  assumes st: "AddPrune (state_compare env) (stack_cfg env) (seed env) (m_hypoStackColl (SearchNormalInit env) ! 0) = Some (st, b)"
    and "BitmapNumWordsCovered (coverage (seed env)) = 0"
  shows "search_inv env ((SearchNormalInit env)
    \<lparr>m_hypoStackColl := (m_hypoStackColl (SearchNormalInit env))[0 := st], m_hypoId := 1\<rparr>)"
proof -
  let ?s = "SearchNormalInit env"
  have init: "m_hypos (m_hypoStackColl ?s ! i) = []" if "i < length (m_hypoStackColl ?s)" for i
    using that by (simp add: SearchNormalInit_def stack_init(3) del: replicate_Suc)
  have len: "length (m_hypoStackColl ?s) = sourceSize env + 1" by (simp add: SearchNormalInit_def)
  have "\<forall>g \<in> set (m_hypos st). produced env g \<and> BitmapNumWordsCovered (coverage g) = 0"
    by (rule AddPrune_holds [OF stack_pred_closed _ _ st]) (use assms(2) produced.seed init len in auto)
  then show ?thesis using init len by (auto simp: search_inv_def nth_list_update)
qed

lemma ProcessSentence_inv:
  assumes "ProcessSentence env = Some s" "BitmapNumWordsCovered (coverage (seed env)) = 0"
  shows "search_inv env s"
proof -
  let ?s = "SearchNormalInit env"
  obtain st b where st: "AddPrune (state_compare env) (stack_cfg env) (seed env) (m_hypoStackColl ?s ! 0) = Some (st, b)"
    and s: "process_stacks env [0..<sourceSize env + 1]
        (?s\<lparr>m_hypoStackColl := (m_hypoStackColl ?s)[0 := st], m_hypoId := 1\<rparr>) = Some s"
    using assms(1) by (auto simp: ProcessSentence_def Let_def split: option.splits)
  from process_stacks_inv [OF s start_inv [OF st assms(2)]] show ?thesis by simp
qed


section \<open>One expansion\<close>

lemma expansion_span_facts:
  assumes "(s, e) \<in> set (expansion_spans env p)"
  shows "s \<le> e" "e < sourceSize env" "basic_checks env (coverage p) s e"
proof -
  have *: "s \<le> e \<and> e < s + max_size env s \<and> s < sourceSize env \<and> basic_checks env (coverage p) s e"
  proof (cases "maxDistortion (stack_cfg env) < 0")
    case True
    then show ?thesis using assms by (auto simp: expansion_spans_def Let_def)
  next
    case False
    then show ?thesis using assms by (auto simp: expansion_spans_def end_allowed_def Let_def split: if_splits)
  qed
  then show "s \<le> e" "basic_checks env (coverage p) s e" by simp_all
  have "max_size env s \<le> sourceSize env - s" by (simp add: max_size_def Let_def)
  then show "e < sourceSize env" using * by linarith
qed

lemma expansion_span_distance:
  assumes "(s, e) \<in> set (expansion_spans env p)" "0 \<le> maxDistortion (stack_cfg env)"
  shows "distortionDistance env (m_currSourceWordsRange (core p)) (WordsRange s s) \<le> maxDistortion (stack_cfg env)"
    and "GetFirstGapPos (coverage p) = s \<or>
      distortionDistance env (WordsRange s e) (WordsRange (GetFirstGapPos (coverage p)) (GetFirstGapPos (coverage p))) \<le>
        maxDistortion (stack_cfg env)"
proof -
  have "start_allowed env p s" "end_allowed env p s e"
    using assms by (auto simp: expansion_spans_def Let_def)
  then show "distortionDistance env (m_currSourceWordsRange (core p)) (WordsRange s s) \<le> maxDistortion (stack_cfg env)"
    "GetFirstGapPos (coverage p) = s \<or>
      distortionDistance env (WordsRange s e) (WordsRange (GetFirstGapPos (coverage p)) (GetFirstGapPos (coverage p))) \<le>
        maxDistortion (stack_cfg env)"
    by (auto simp: start_allowed_def end_allowed_def Let_def split: if_splits)
qed

text \<open>Scoring changes the scores and the states only.\<close>

definition rescored :: "'st hypothesis \<Rightarrow> 'st hypothesis \<Rightarrow> bool" where
  "rescored h g \<longleftrightarrow> m_prevHypo h = m_prevHypo g \<and> coverage h = coverage g \<and>
     m_currSourceWordsRange (core h) = m_currSourceWordsRange (core g) \<and>
     m_currTargetWordsRange (core h) = m_currTargetWordsRange (core g) \<and>
     m_targetPhrase (core h) = m_targetPhrase (core g)"

lemma rescored_trans: "rescored h g \<Longrightarrow> rescored g k \<Longrightarrow> rescored h k"
  by (simp add: rescored_def)

lemma update_core_simps [simp]:
  "core (update_core f h) = f (core h)" "m_prevHypo (update_core f h) = m_prevHypo h"
  by (simp_all add: update_core_def)

lemma evaluate_stateful_rescored: "evaluate_stateful ffs i h = Some g \<Longrightarrow> rescored g h"
proof (induction ffs arbitrary: i h)
  case Nil
  then show ?case by (simp add: rescored_def)
next
  case (Cons ff ffs)
  define prev where "prev = (case m_prevHypo h of Some p \<Rightarrow> m_ffStates (core p) ! i | None \<Rightarrow> None)"
  obtain st breakdown where "ff h prev (m_scoreBreakdown (core h)) = Some (st, breakdown)"
    and "evaluate_stateful ffs (i + 1)
      (update_core (\<lambda>c. c\<lparr>m_ffStates := (m_ffStates c)[i := st], m_scoreBreakdown := breakdown\<rparr>) h) = Some g"
    using Cons.prems by (auto simp: Let_def prev_def split: option.splits)
  from Cons.IH [OF this(2)] show ?case by (simp add: rescored_def)
qed

lemma CalcScore_rescored:
  assumes "CalcScore ff w m h = Some h'"
  shows "rescored h' h"
  using assms
  by (auto simp: CalcScore_def Let_def rescored_def split: option.splits dest!: evaluate_stateful_rescored)

definition extends_by :: "'st hypothesis \<Rightarrow> 'st hypothesis \<Rightarrow> trans_opt \<Rightarrow> bool" where
  "extends_by p h t \<longleftrightarrow> m_prevHypo h = Some p \<and>
     coverage h = SetValueRange (coverage p) (m_startPos (to_range t)) (m_endPos (to_range t)) True \<and>
     m_currSourceWordsRange (core h) = to_range t \<and> m_targetPhrase (core h) = to_targetPhrase t \<and>
     m_currTargetWordsRange (core h) =
       WordsRange (sz_add (m_endPos (m_currTargetWordsRange (core p))) 1)
         (sz_add (m_endPos (m_currTargetWordsRange (core p))) (length (to_targetPhrase t)))"

lemma Create_extends:
  assumes "Create maxF constr p t i = Created h" "CalcScore ff w m h = Some h'"
  shows "extends_by p h' t"
proof -
  have "HypothesisNext p t i = Some h"
    using assms(1) by (auto simp: Create_def Let_def split: if_splits option.splits)
  then show ?thesis
    using CalcScore_rescored [OF assms(2)]
    by (auto simp: HypothesisNext_def Let_def extends_by_def rescored_def split: if_splits)
qed


section \<open>Derivations of the search\<close>

definition env_ok :: "'st search_env \<Rightarrow> bool" where
  "env_ok env \<longleftrightarrow> sourceSize env < 2 ^ 31 \<and> initialCoverage env = [] \<and>
     (\<forall>r. \<forall>t \<in> set (options env r). to_range t = r)"

text \<open>The source spans a hypothesis has translated, in the order of the translation.\<close>

definition source_spans :: "'st hypothesis \<Rightarrow> words_range list" where
  "source_spans h = map (\<lambda>g. m_currSourceWordsRange (core g)) (tl (derivation h))"

lemma derivation_root: "m_prevHypo h = None \<Longrightarrow> derivation h = [h]"
  by (subst derivation.simps) simp

lemma derivation_step: "m_prevHypo h = Some p \<Longrightarrow> derivation h = derivation p @ [h]"
  by (subst derivation.simps) simp

lemma derivation_ne [simp]: "derivation h \<noteq> []"
  by (cases "m_prevHypo h") (simp_all add: derivation_root derivation_step)

lemma source_spans_root: "m_prevHypo h = None \<Longrightarrow> source_spans h = []"
  by (simp add: source_spans_def derivation_root)

lemma source_spans_step:
  "m_prevHypo h = Some p \<Longrightarrow> source_spans h = source_spans p @ [m_currSourceWordsRange (core h)]"
  by (simp add: source_spans_def derivation_step)

lemma target_words_root: "m_prevHypo h = None \<Longrightarrow> target_words h = m_targetPhrase (core h)"
  by (simp add: target_words_def derivation_root)

lemma target_words_step: "m_prevHypo h = Some p \<Longrightarrow> target_words h = target_words p @ m_targetPhrase (core h)"
  by (simp add: target_words_def derivation_step)

lemma same_but_arcs_derivation:
  assumes "same_but_arcs h g"
  shows "source_spans h = source_spans g" "target_words h = target_words g"
  using same_but_arcs_core [OF assms]
  by (cases "m_prevHypo g"; simp add: source_spans_root source_spans_step target_words_root target_words_step)+

lemma seed_facts:
  "m_prevHypo (seed env) = None" "coverage (seed env) = BitmapInitVector (sourceSize env) (initialCoverage env)"
  "m_targetPhrase (core (seed env)) = initialTargetPhrase env"
  "m_currTargetWordsRange (core (seed env)) = WordsRange 0 (sz_sub (length (initialTargetPhrase env)) 1)"
  by (simp_all add: seed_def HypothesisInit_def Let_def)

lemma seed_coverage:
  assumes "env_ok env"
  shows "coverage (seed env) = BitmapInit (sourceSize env)"
  using assms
  by (intro bitmap_eqI) (auto simp: seed_facts env_ok_def covered_BitmapInitVector)

lemma expand_extend:
  assumes ok: "env_ok env" and size: "m_size (coverage p) = sourceSize env"
    and span: "(s, e) \<in> set (expansion_spans env p)" and t: "t \<in> set (options env (WordsRange s e))"
    and ext: "extends_by p h t"
  shows "Reordering_Constraint.extend (maxDistortion (stack_cfg env)) (reorderingConstraint env) (coverage p) (WordsRange s e) (coverage h)"
    and "m_currSourceWordsRange (core h) = WordsRange s e"
proof -
  note facts = expansion_span_facts [OF span]
  have r: "to_range t = WordsRange s e" using ok t by (simp add: env_ok_def)
  then show "m_currSourceWordsRange (core h) = WordsRange s e" using ext by (simp add: extends_by_def)
  show "Reordering_Constraint.extend (maxDistortion (stack_cfg env)) (reorderingConstraint env) (coverage p) (WordsRange s e) (coverage h)"
    using facts size ext r by (auto simp: extends_by_def basic_checks_def intro: Reordering_Constraint.extend.intros)
qed

lemma produced_coverage:
  assumes "produced env h" "env_ok env"
  shows "derivable (maxDistortion (stack_cfg env)) (reorderingConstraint env) (sourceSize env) (coverage h) \<and>
    covered (coverage h) = \<Union> (positions ` set (source_spans h)) \<and>
    sorted_wrt (\<lambda>r x. positions r \<inter> positions x = {}) (source_spans h)"
  using assms(1)
proof (induction rule: produced.induct)
  case seed
  have "covered (coverage (Search_Normal.seed env)) = {}"
    using assms(2) by (simp add: seed_coverage)
  then show ?case
    using seed_coverage [OF assms(2)] derivable.empty by (simp add: source_spans_root seed_facts(1))
next
  case (expand p s e t i h h')
  note ext = Create_extends [OF expand.hyps(4,5)]
  have wf: "wf_bitmap (coverage p) \<and> m_size (coverage p) = sourceSize env"
    using derivable_wf [of _ _ "sourceSize env" "coverage p"] expand.IH assms(2) unfolding env_ok_def by blast
  note step = expand_extend [OF assms(2) conjunct2 [OF wf] expand.hyps(2,3) ext]
  note props = extend_props [OF step(1) conjunct1 [OF wf]]
  have spans: "source_spans h' = source_spans p @ [WordsRange s e]"
    using source_spans_step [of h' p] ext step(2) by (simp add: extends_by_def)
  have pos: "positions (WordsRange s e) = {s..e}" by (simp add: positions_def)
  have "derivable (maxDistortion (stack_cfg env)) (reorderingConstraint env) (sourceSize env) (coverage h')"
    using derivable.step [OF _ step(1)] expand.IH by blast
  moreover have "covered (coverage h') = \<Union> (positions ` set (source_spans h'))"
    using props(7) expand.IH spans pos by auto
  moreover have "sorted_wrt (\<lambda>r x. positions r \<inter> positions x = {}) (source_spans h')"
    using props(3) expand.IH spans pos by (auto simp: sorted_wrt_append)
  ultimately show ?case by blast
next
  case (arcs g h)
  have "coverage h = coverage g" "source_spans h = source_spans g"
    using same_but_arcs_core(1) [OF arcs.hyps(2)] same_but_arcs_derivation(1) [OF arcs.hyps(2)] by simp_all
  with arcs.IH show ?case by simp
qed

lemma SearchGetBest_in:
  assumes "SearchGetBestHypothesis s = Some (Some h)" "\<not> interrupted_flag s" "search_inv env s"
  shows "produced env h \<and> BitmapNumWordsCovered (coverage h) = sourceSize env"
proof -
  let ?st = "m_hypoStackColl s ! (length (m_hypoStackColl s) - 1)"
  have len: "length (m_hypoStackColl s) - 1 = sourceSize env" using assms(3) by (simp add: search_inv_def)
  have best: "StackGetBestHypothesis ?st = Some h" using assms(1,2) by (simp add: SearchGetBestHypothesis_def)
  then obtain g gs where "m_hypos ?st = g # gs" "h \<in> insert g (set gs)"
    using fold_best by (auto simp: StackGetBestHypothesis_def Let_def split: list.splits)
  then have "h \<in> set (m_hypos ?st)" by simp
  then have "h \<in> set (m_hypos (m_hypoStackColl s ! sourceSize env))" unfolding len .
  from search_inv_stack [OF assms(3) le_refl this] show ?thesis .
qed

text \<open>C1: A translation translates every source word exactly once: when the search was not
  interrupted, the source spans of the best hypothesis are pairwise disjoint and together cover the sentence.
\<close>

theorem translation_covers_each_word_once:
  assumes "env_ok env" and "ProcessSentence env = Some s" and "\<not> interrupted_flag s"
    and "SearchGetBestHypothesis s = Some (Some h)"
  shows "sorted_wrt (\<lambda>r x. positions r \<inter> positions x = {}) (source_spans h) \<and>
    \<Union> (positions ` set (source_spans h)) = {..<sourceSize env}"
proof -
  have "BitmapNumWordsCovered (coverage (seed env)) = 0"
    using assms(1) by (simp add: seed_coverage NumWordsCovered_eq)
  note inv = ProcessSentence_inv [OF assms(2) this]
  note best = SearchGetBest_in [OF assms(4,3) inv]
  note cov = produced_coverage [OF conjunct1 [OF best] assms(1)]
  have "wf_bitmap (coverage h) \<and> m_size (coverage h) = sourceSize env"
    using derivable_wf [of _ _ "sourceSize env" "coverage h"] cov assms(1) unfolding env_ok_def by blast
  then have "IsComplete (coverage h)" using best by (simp add: IsComplete_def)
  then have "covered (coverage h) = {..<sourceSize env}"
    using \<open>wf_bitmap (coverage h) \<and> _\<close> by (simp add: IsComplete_iff)
  then show ?thesis using cov by simp
qed


section \<open>Reordering limits\<close>

lemma empty_start: "env_ok env \<Longrightarrow> BitmapNumWordsCovered (coverage (seed env)) = 0"
  by (simp add: seed_coverage NumWordsCovered_eq)

text \<open>The spans of the whole derivation, that of the seed first.\<close>

definition all_spans :: "'st hypothesis \<Rightarrow> words_range list" where
  "all_spans h = map (\<lambda>g. m_currSourceWordsRange (core g)) (derivation h)"

lemma all_spans_root: "m_prevHypo h = None \<Longrightarrow> all_spans h = [m_currSourceWordsRange (core h)]"
  by (simp add: all_spans_def derivation_root)

lemma all_spans_step: "m_prevHypo h = Some p \<Longrightarrow> all_spans h = all_spans p @ [m_currSourceWordsRange (core h)]"
  by (simp add: all_spans_def derivation_step)

lemma all_spans_last: "all_spans h \<noteq> [] \<and> last (all_spans h) = m_currSourceWordsRange (core h)"
  by (cases "m_prevHypo h") (simp_all add: all_spans_root all_spans_step)

lemma all_spans_arcs:
  assumes "same_but_arcs h g"
  shows "all_spans h = all_spans g"
  using same_but_arcs_core [OF assms] by (cases "m_prevHypo g") (simp_all add: all_spans_root all_spans_step)

definition jump_ok :: "'st search_env \<Rightarrow> words_range \<Rightarrow> words_range \<Rightarrow> bool" where
  "jump_ok env r x \<longleftrightarrow>
     distortionDistance env r (WordsRange (m_startPos x) (m_startPos x)) \<le> maxDistortion (stack_cfg env)"

lemma produced_jumps:
  assumes "produced env h" "env_ok env" "0 \<le> maxDistortion (stack_cfg env)"
  shows "successively (jump_ok env) (all_spans h)"
  using assms(1)
proof (induction rule: produced.induct)
  case seed
  then show ?case by (simp add: all_spans_root seed_facts(1))
next
  case (expand p s e t i h h')
  note ext = Create_extends [OF expand.hyps(4,5)]
  have "to_range t = WordsRange s e" using assms(2) expand.hyps(3) by (simp add: env_ok_def)
  then have "m_prevHypo h' = Some p" "m_currSourceWordsRange (core h') = WordsRange s e"
    using ext by (simp_all add: extends_by_def)
  moreover have "jump_ok env (m_currSourceWordsRange (core p)) (WordsRange s e)"
    using expansion_span_distance(1) [OF expand.hyps(2) assms(3)] by (simp add: jump_ok_def)
  ultimately show ?case
    using expand.IH all_spans_last [of p] by (simp add: all_spans_step successively_append_iff)
next
  case (arcs g h)
  then show ?case using all_spans_arcs by metis
qed

text \<open>C11: No hypothesis the search keeps jumps further than the distortion limit: in its derivation, the distance
  of the input from each span, the seed's included, to the first word of the next is at most the limit.
\<close>

theorem distortion_limit_respected:
  assumes "env_ok env" and "0 \<le> maxDistortion (stack_cfg env)" and "ProcessSentence env = Some s"
    and "i \<le> sourceSize env" and "h \<in> set (m_hypos (m_hypoStackColl s ! i))"
  shows "successively (\<lambda>r x. distortionDistance env r (WordsRange (m_startPos x) (m_startPos x)) \<le>
     maxDistortion (stack_cfg env)) (all_spans h)"
proof -
  have "search_inv env s" by (rule ProcessSentence_inv [OF assms(3) empty_start [OF assms(1)]])
  from search_inv_stack [OF this assms(4,5)] have "produced env h" ..
  from produced_jumps [OF this assms(1,2)] show ?thesis by (simp add: jump_ok_def [abs_def])
qed

text \<open>C18: Walls hold in the search: a hypothesis the search keeps covers a word behind a wall of the reordering
  constraint only when it covers every word up to the wall.
\<close>

theorem search_never_crosses_walls:
  assumes "env_ok env" and "m_active (reorderingConstraint env)" and "ProcessSentence env = Some s"
    and "i \<le> sourceSize env" and "h \<in> set (m_hypos (m_hypoStackColl s ! i))"
    and "GetWall (reorderingConstraint env) w" and "w < p" and "p \<in> covered (coverage h)"
  shows "{..w} \<subseteq> covered (coverage h)"
proof -
  have n: "sourceSize env < 2 ^ 31" using assms(1) by (simp add: env_ok_def)
  have "search_inv env s" by (rule ProcessSentence_inv [OF assms(3) empty_start [OF assms(1)]])
  from search_inv_stack [OF this assms(4,5)] have "produced env h" ..
  then have der: "derivable (maxDistortion (stack_cfg env)) (reorderingConstraint env) (sourceSize env) (coverage h)"
    using produced_coverage assms(1) by blast
  have "p < m_size (coverage h)" using assms(8) by (simp add: covered_def)
  then show ?thesis
    using derivable_wall_respected [OF der n assms(2)] assms(6,7,8) unfolding wall_respected_def
    by (meson less_trans)
qed


section \<open>The output\<close>

lemma produced_output:
  assumes "produced env h" "env_ok env"
  shows "\<exists>ts. list_all2 (\<lambda>r t. t \<in> set (options env r)) (source_spans h) ts \<and>
     target_words h = initialTargetPhrase env @ concat (map to_targetPhrase ts)"
  using assms(1)
proof (induction rule: produced.induct)
  case seed
  show ?case by (rule exI [of _ "[]"]) (simp add: source_spans_root target_words_root seed_facts)
next
  case (expand p s e t i h h')
  note ext = Create_extends [OF expand.hyps(4,5)]
  obtain ts where ts: "list_all2 (\<lambda>r t. t \<in> set (options env r)) (source_spans p) ts"
    "target_words p = initialTargetPhrase env @ concat (map to_targetPhrase ts)" using expand.IH by blast
  have r: "to_range t = WordsRange s e" using assms(2) expand.hyps(3) by (simp add: env_ok_def)
  have h: "m_prevHypo h' = Some p" "m_currSourceWordsRange (core h') = WordsRange s e"
    "m_targetPhrase (core h') = to_targetPhrase t" using ext r by (simp_all add: extends_by_def)
  have "list_all2 (\<lambda>r t. t \<in> set (options env r)) (source_spans h') (ts @ [t])"
    using ts(1) expand.hyps(3) h by (simp add: source_spans_step list_all2_appendI)
  moreover have "target_words h' = initialTargetPhrase env @ concat (map to_targetPhrase (ts @ [t]))"
    using ts(2) h by (simp add: target_words_step)
  ultimately show ?case by blast
next
  case (arcs g h)
  then show ?case using same_but_arcs_derivation by metis
qed

text \<open>C12: The output of a hypothesis the search keeps is the initial target phrase followed by the target
  phrases of translation options, one of each source span of its derivation in turn.
\<close>

theorem output_is_made_of_options:
  assumes "env_ok env" and "ProcessSentence env = Some s"
    and "i \<le> sourceSize env" and "h \<in> set (m_hypos (m_hypoStackColl s ! i))"
  shows "\<exists>ts. list_all2 (\<lambda>r t. t \<in> set (options env r)) (source_spans h) ts \<and>
     target_words h = initialTargetPhrase env @ concat (map to_targetPhrase ts)"
proof -
  have "search_inv env s" by (rule ProcessSentence_inv [OF assms(2) empty_start [OF assms(1)]])
  from search_inv_stack [OF this assms(3,4)] show ?thesis using produced_output assms(1) by blast
qed

text \<open>Words agree when they have no factor in conflict.\<close>

definition words_agree :: "nat \<Rightarrow> word \<Rightarrow> word \<Rightarrow> bool" where
  "words_agree maxF w v \<longleftrightarrow> (\<forall>f < maxF. WordGetFactor w f = None \<or> WordGetFactor v f = None \<or>
     WordGetFactor w f = WordGetFactor v f)"

lemma IsCompatible_iff: "IsCompatible maxF p q \<longleftrightarrow> list_all2 (words_agree maxF) p q"
  by (auto simp: IsCompatible_def list_all2_conv_all_nth words_agree_def PhraseGetFactor_def list_all_iff;
      metis atLeastLessThan_iff option.distinct(1) zero_le)

definition constraint_inv :: "nat \<Rightarrow> phrase \<Rightarrow> 'st hypothesis \<Rightarrow> bool" where
  "constraint_inv maxF c h \<longleftrightarrow>
     sz_add (m_endPos (m_currTargetWordsRange (core h))) 1 = length (target_words h) \<and>
     length (target_words h) \<le> length c \<and>
     list_all2 (words_agree maxF) (take (length (target_words h)) c) (target_words h)"

definition short_phrases :: "'st search_env \<Rightarrow> bool" where
  "short_phrases env \<longleftrightarrow> (\<forall>r. \<forall>t \<in> set (options env r). length (to_targetPhrase t) < 2 ^ 32)"

lemma constraint_step:
  assumes inv: "constraint_inv maxF c p" and m: "matches_constraint maxF c p t"
    and ext: "extends_by p h t" and small: "length c < 2 ^ 32" "length (to_targetPhrase t) < 2 ^ 32"
  shows "constraint_inv maxF c h"
proof -
  let ?L = "length (target_words p)" and ?k = "length (to_targetPhrase t)" and ?e = "m_endPos (m_currTargetWordsRange (core p))"
  have L: "sz_add ?e 1 = ?L" "?L \<le> length c" using inv by (simp_all add: constraint_inv_def)
  have sum: "?L + ?k < size_bound" using small L(2) by (simp add: size_bound_def)
  have start: "sz_add 1 ?e = ?L" using L(1) by (simp add: sz_add_def add.commute)
  have "sz_add ?L ?k = ?L + ?k" by (rule sz_add_small [OF sum])
  then have endpoint: "sz_sub (sz_add ?L ?k) 1 = (if ?L + ?k = 0 then NOT_FOUND else ?L + ?k - 1)"
    using sz_sub_1 [OF sum] by simp
  have big: "\<not> NOT_FOUND < length c" using small(1) by (simp add: NOT_FOUND_def size_bound_def)
  have le: "?L + ?k \<noteq> 0" "?L + ?k \<le> length c"
    and compat: "IsCompatible maxF (GetSubString c (WordsRange ?L (?L + ?k - 1))) (to_targetPhrase t)"
    using m big unfolding matches_constraint_def Let_def start endpoint by (auto split: if_splits)
  have sub: "GetSubString c (WordsRange ?L (?L + ?k - 1)) = take ?k (drop ?L c)"
    using le by (intro nth_equalityI) (auto simp: GetSubString_def)
  have tw: "target_words h = target_words p @ to_targetPhrase t"
    using ext target_words_step [of h p] by (simp add: extends_by_def)
  have "sz_add (sz_add ?e ?k) 1 = ?L + ?k"
  proof -
    have "sz_add (sz_add ?e ?k) 1 = (sz_add ?e 1 + ?k) mod size_bound"
      unfolding sz_add_def mod_add_left_eq by (simp add: ac_simps)
    then show ?thesis using L(1) sum by simp
  qed
  moreover have "take (?L + ?k) c = take ?L c @ take ?k (drop ?L c)" by (rule take_add)
  ultimately show ?thesis
    using ext inv le compat [unfolded sub IsCompatible_iff]
    by (simp add: constraint_inv_def extends_by_def tw list_all2_appendI)
qed

lemma produced_constraint:
  assumes "produced env h" and c: "constraintPhrase env = Some c" "length c < 2 ^ 32"
    and env: "initialTargetPhrase env = []" "short_phrases env"
  shows "constraint_inv (maxNumFactors env) c h"
  using assms(1)
proof (induction rule: produced.induct)
  case seed
  then show ?case using env(1)
    by (simp add: constraint_inv_def target_words_root seed_facts sz_simps size_bound_def sz_add_def sz_sub_def)
next
  case (expand p s e t i h h')
  have "matches_constraint (maxNumFactors env) c p t"
    using expand.hyps(4) c(1) by (auto simp: Create_def split: if_splits)
  moreover have "length (to_targetPhrase t) < 2 ^ 32"
    using env(2) expand.hyps(3) unfolding short_phrases_def by blast
  ultimately show ?case
    using constraint_step [OF expand.IH _ Create_extends [OF expand.hyps(4,5)] c(2)] by blast
next
  case (arcs g h)
  then show ?case
    using same_but_arcs_core(3) same_but_arcs_derivation(2) unfolding constraint_inv_def by metis
qed

text \<open>C15: Constraint decoding: when the output has to match a given phrase and starts empty, the output
  of every hypothesis the search keeps is no longer than the phrase and has no factor in conflict with
  the words of the phrase at the same positions.
\<close>

theorem constrained_output_matches:
  assumes "env_ok env" and "ProcessSentence env = Some s" and "constraintPhrase env = Some c"
    and "length c < 2 ^ 32" and "initialTargetPhrase env = []" and "short_phrases env"
    and "i \<le> sourceSize env" and "h \<in> set (m_hypos (m_hypoStackColl s ! i))"
  shows "length (target_words h) \<le> length c \<and>
     IsCompatible (maxNumFactors env) (take (length (target_words h)) c) (target_words h)"
proof -
  have "search_inv env s" by (rule ProcessSentence_inv [OF assms(2) empty_start [OF assms(1)]])
  from search_inv_stack [OF this assms(7,8)] produced_constraint [OF _ assms(3-6)]
  show ?thesis unfolding constraint_inv_def IsCompatible_iff by blast
qed


section \<open>An instance\<close>

text \<open>A sentence of two words with one translation option, a wall between the words and a required output.\<close>

definition sample_word :: word where
  "sample_word = EmptyWord False"

definition sample_option :: trans_opt where
  "sample_option = \<lparr>to_range = WordsRange 0 1, to_targetPhrase = [sample_word], to_scoreBreakdown = [-1],
     to_futureScore = Fin (-1), to_cachedScores = (\<lambda>sp. None)\<rparr>"

definition sample_env :: "ff_state search_env" where
  "sample_env = \<lparr>features = \<lparr>empty_states = [], stateless = [], stateful = []\<rparr>, state_compare = FFStateCompare,
     allWeights = [1], stack_cfg = sample_config, sourceSize = 2, initialCoverage = [], initialTargetPhrase = [],
     isWordLattice = False, distortionDistance = ComputeDistortionDistance, canIGetFromAToB = DefaultCanIGetFromAToB,
     reorderingConstraint = SetWall 0 True (InitializeWalls 2 ReorderingConstraintInit),
     maxPhraseLength = 20, maxNumFactors = 1, constraintPhrase = Some [sample_word],
     options = (\<lambda>r. if r = WordsRange 0 1 then [sample_option] else []),
     futureScores = SquareMatrixInit 2 (replicate 4 0), useEarlyDiscarding = False, earlyDiscardingThreshold = 0,
     out_of_time = (\<lambda>i. False)\<rparr>"

lemma sample_env_ok: "env_ok sample_env"
  by (simp add: env_ok_def sample_env_def sample_option_def)


lemma AddPrune_fresh:
  assumes "m_minHypoStackDiversity cfg = 0" "disableDiscarding cfg" "tolerated_size cfg = Some k" "0 < k"
  shows "AddPrune cmp cfg h HypothesisStackInit = Some (note_scores cfg h (HypothesisStackInit\<lparr>m_hypos := [h]\<rparr>), True)"
proof -
  have ins: "insert_hypo cmp h HypothesisStackInit = HypothesisStackInit\<lparr>m_hypos := [h]\<rparr>"
    by (simp add: insert_hypo_def HypothesisStackInit_def)
  have "m_hypos (note_scores cfg h (insert_hypo cmp h HypothesisStackInit)) = [h]"
    by (simp add: note_scores_best(2) ins)
  then have "AddHypo cmp cfg h HypothesisStackInit = Some (note_scores cfg h (insert_hypo cmp h HypothesisStackInit), True)"
    using assms by (simp add: AddHypo_def stack_init(3) note_diversity_def Let_def)
  then show ?thesis
    using assms(1,2) by (simp add: AddPrune_def too_bad_def ins)
qed

lemma sample_tolerated: "tolerated_size sample_config = Some 1"
  by (simp add: tolerated_size_def sample_config_def sz_add_def sz_sub_def size_bound_def)

lemma sample_fresh:
  "AddPrune cmp sample_config h HypothesisStackInit =
     Some (note_scores sample_config h (HypothesisStackInit\<lparr>m_hypos := [h]\<rparr>), True)"
  by (rule AddPrune_fresh [OF _ _ sample_tolerated]) (simp_all add: sample_config_def)

definition sample_seed :: "ff_state hypothesis" where "sample_seed = update_core (\<lambda>c. c\<lparr>m_winningHypo := Some 0\<rparr>) (seed sample_env)"

lemma sample_env_simps [simp]:
  "sourceSize sample_env = 2" "isWordLattice sample_env = False" "distortionDistance sample_env = ComputeDistortionDistance"
  "stack_cfg sample_env = sample_config" "maxPhraseLength sample_env = 20" "maxDistortion sample_config = 6"
  "options sample_env = (\<lambda>r. if r = WordsRange 0 1 then [sample_option] else [])"
  "reorderingConstraint sample_env = SetWall 0 True (InitializeWalls 2 ReorderingConstraintInit)"
  by (simp_all add: sample_env_def sample_config_def)

lemma sample_seed_facts: "coverage sample_seed = BitmapInit 2" "m_currSourceWordsRange (core sample_seed) = WordsRange NOT_FOUND NOT_FOUND"
proof -
  show "coverage sample_seed = BitmapInit 2" using seed_coverage [OF sample_env_ok] by (simp add: sample_seed_def)
  have "GetFirstGapPos (BitmapInitVector 2 []) = 0"
    by (simp add: GetFirstGapPos_def BitmapInitVector_def upt_rec or_not_found_def)
  then show "m_currSourceWordsRange (core sample_seed) = WordsRange NOT_FOUND NOT_FOUND"
    by (simp add: sample_seed_def seed_def HypothesisInit_def Let_def) (simp add: sample_env_def)
qed

lemma sample_bitmap: "GetFirstGapPos (BitmapInit 2) = 0" "\<not> GetValue (BitmapInit 2) 0" "\<not> GetValue (BitmapInit 2) (Suc 0)"
  "\<not> BitmapOverlap (BitmapInit 2) (WordsRange 0 (Suc 0))" "GetLastPos (BitmapInit 2) = NOT_FOUND"
  by (simp_all add: bitmap_defs)

lemma sample_distance: "ComputeDistortionDistance (WordsRange NOT_FOUND NOT_FOUND) (WordsRange i i) = int i" if "i < 2"
  using that by (simp add: ComputeDistortionDistance_def RangeNumWordsCovered_def to_int32_def)

lemma sample_starts: "start_allowed sample_env sample_seed 0" "start_allowed sample_env sample_seed (Suc 0)"
  using sample_distance [of 0] sample_distance [of 1] by (simp_all add: start_allowed_def sample_seed_facts sample_bitmap Let_def)

lemma sample_ends: "end_allowed sample_env sample_seed s e \<longleftrightarrow> s = 0 \<and> e = Suc 0"
  by (auto simp add: end_allowed_def sample_seed_facts sample_bitmap Let_def basic_checks_def Check_def SetWall_def)

lemma sample_max_size: "max_size sample_env 0 = 2" "max_size sample_env (Suc 0) = 1"
  by (simp_all add: max_size_def Let_def)

lemma sample_upt: "[0..<2] = [0, Suc 0]" "[Suc 0..<2] = [Suc 0]" by (simp_all add: upt_rec)

lemma sample_spans: "expansion_spans sample_env sample_seed = [(0, Suc 0)]"
  by (simp add: expansion_spans_def sample_seed_facts sample_bitmap sample_upt sample_starts Let_def sample_max_size sample_ends)

lemma sample_create: "Create 1 (Some [sample_word]) sample_seed sample_option i = Created (the (HypothesisNext sample_seed sample_option i))"
proof -
  have "m_currTargetWordsRange (core sample_seed) = WordsRange 0 NOT_FOUND"
    by (simp add: sample_seed_def seed_facts) (simp add: sample_env_def sz_simps size_bound_def NOT_FOUND_def)
  moreover have "IsCompatible 1 (GetSubString [sample_word] (WordsRange 0 0)) [sample_word]"
    by (simp add: IsCompatible_def GetSubString_def)
  ultimately have "matches_constraint 1 [sample_word] sample_seed sample_option"
    by (simp add: matches_constraint_def sample_option_def sz_add_def sz_sub_def NOT_FOUND_def size_bound_def Let_def)
  moreover have "to_range sample_option = WordsRange 0 (Suc 0)" by (simp add: sample_option_def)
  ultimately show ?thesis by (simp add: Create_def HypothesisNext_def sample_seed_facts sample_bitmap Let_def)
qed

lemma sample_score:
  "\<exists>h. CalcScore (features sample_env) [1] m (the (HypothesisNext sample_seed sample_option i)) = Some h \<and>
     coverage h = SetValueRange (BitmapInit 2) 0 (Suc 0) True \<and> extends_by sample_seed h sample_option"
proof -
  let ?n = "the (HypothesisNext sample_seed sample_option i)"
  have r: "to_range sample_option = WordsRange 0 (Suc 0)" "to_scoreBreakdown sample_option = [-1]"
    by (simp_all add: sample_option_def)
  have n: "m_scoreBreakdown (core ?n) = [0]" "m_transOpt (core ?n) = Some sample_option"
    by (simp_all add: HypothesisNext_def sample_seed_facts sample_bitmap Let_def r)
      (simp add: sample_seed_def seed_def HypothesisInit_def ZeroAll_def sample_env_def Let_def)
  obtain h where h: "CalcScore (features sample_env) [1] m ?n = Some h"
    using n by (simp add: CalcScore_def PlusEquals_def r sample_env_def Let_def)
  from Create_extends [OF sample_create this] have "extends_by sample_seed h sample_option" .
  with h show ?thesis by (simp add: extends_by_def sample_seed_facts r)
qed

lemma evaluate_stateful_arcs: "evaluate_stateful ffs i h = Some g \<Longrightarrow> m_arcList g = m_arcList h"
proof (induction ffs arbitrary: i h)
  case (Cons ff ffs)
  then show ?case by (fastforce simp: Let_def update_core_def split: option.splits)
qed simp

lemma CalcScore_arcs: "CalcScore ff w m h = Some g \<Longrightarrow> m_arcList g = m_arcList h"
  by (auto simp: CalcScore_def Let_def update_core_def split: option.splits dest!: evaluate_stateful_arcs)

lemma sample_covered: "BitmapNumWordsCovered (SetValueRange (BitmapInit 2) 0 (Suc 0) True) = Suc (Suc 0)"
  "GetFirstGapPos (SetValueRange (BitmapInit 2) 0 (Suc 0) True) = NOT_FOUND"
  by (simp_all add: bitmap_defs)

lemma process_one:
  assumes "m_hypoStackColl s ! ind = st" "length (m_hypos st) \<le> 1" 
  shows "process_stack sample_env ind s = map_option (\<lambda>s. s\<lparr>actual_hypoStack := Some ind\<rparr>)
    (process_hypotheses sample_env (m_hypos (StackCleanupArcList sample_config st))
      (s\<lparr>m_hypoStackColl := (m_hypoStackColl s)[ind := StackCleanupArcList sample_config st]\<rparr>))"
  using assms by (simp add: process_stack_def PruneToSize_def sample_config_def Let_def)

lemma note_scores_hypos [simp]: "m_hypos (note_scores cfg h st) = m_hypos st"
  by (rule note_scores_best(2))

lemma sample_run:
  "\<exists>s h. ProcessSentence sample_env = Some s \<and> \<not> interrupted_flag s \<and> SearchGetBestHypothesis s = Some (Some h) \<and>
     h \<in> set (m_hypos (m_hypoStackColl s ! 2)) \<and> extends_by sample_seed h sample_option \<and> coverage h = SetValueRange (BitmapInit 2) 0 (Suc 0) True"
proof -
  define st0 where "st0 = note_scores sample_config (seed sample_env) (HypothesisStackInit\<lparr>m_hypos := [seed sample_env]\<rparr>)"
  define cl where "cl = StackCleanupArcList sample_config st0"
  define E where "E = (HypothesisStackInit :: ff_state stack)"
  have E: "m_hypos E = []" by (simp add: E_def stack_init(3))
  have clh: "m_hypos cl = [sample_seed]"
  proof -
    have "m_arcList (seed sample_env) = None" "m_id (core (seed sample_env)) = 0"
      by (simp_all add: seed_def HypothesisInit_def Let_def)
    then show ?thesis
      by (simp add: cl_def st0_def StackCleanupArcList_def sample_config_def HypoCleanupArcList_def Let_def sample_seed_def
          update_core_def)
  qed
  obtain h where h: "CalcScore (features sample_env) [1] (futureScores sample_env) (the (HypothesisNext sample_seed sample_option 1)) = Some h"
     "coverage h = SetValueRange (BitmapInit 2) 0 (Suc 0) True" "extends_by sample_seed h sample_option"
    using sample_score [of _ 1] by blast
  define st2 where "st2 = note_scores sample_config h (HypothesisStackInit\<lparr>m_hypos := [h]\<rparr>)"
  define h2 where "h2 = update_core (\<lambda>c. c\<lparr>m_winningHypo := Some (m_id (core h))\<rparr>) h"
  have env: "maxNumFactors sample_env = 1" "constraintPhrase sample_env = Some [sample_word]" "allWeights sample_env = [1]"
    "\<not> useEarlyDiscarding sample_env" "\<And>i. \<not> out_of_time sample_env i"
    by (simp_all add: sample_env_def)
  let ?s0 = "\<lparr>m_hypoStackColl = [cl, E, E], m_hypoId = 1, interrupted_flag = False, actual_hypoStack = None\<rparr>"
  have add: "add_to_stack sample_env h (?s0\<lparr>m_hypoId := Suc (Suc 0)\<rparr>) = Some (?s0\<lparr>m_hypoId := Suc (Suc 0), m_hypoStackColl := [cl, E, st2]\<rparr>)"
    using h(2) sample_fresh [of "state_compare sample_env" h]
    by (simp add: add_to_stack_def sample_covered Let_def E_def st2_def)
  have p0: "process_hypotheses sample_env [sample_seed] ?s0 = Some (?s0\<lparr>m_hypoId := Suc (Suc 0), m_hypoStackColl := [cl, E, st2]\<rparr>)"
    using sample_create [of 1] h(1) add env
    by (simp add: ProcessOneHypothesis_def sample_spans ExpandAllHypotheses_def ExpandHypothesis_def Let_def)
  let ?s1 = "?s0\<lparr>m_hypoId := Suc (Suc 0), m_hypoStackColl := [cl, E, st2]\<rparr>"
  have spans2: "expansion_spans sample_env h2 = []"
    by (simp add: expansion_spans_def h2_def h(2) sample_covered Let_def NOT_FOUND_def size_bound_def)
  define cl2 where "cl2 = StackCleanupArcList sample_config st2"
  have cl2h: "m_hypos cl2 = [h2]"
  proof -
    have "m_arcList h = None" using CalcScore_arcs [OF h(1)] by (simp add: HypothesisNext_def sample_seed_facts sample_bitmap Let_def sample_option_def)
    then show ?thesis
      by (simp add: cl2_def st2_def StackCleanupArcList_def sample_config_def HypoCleanupArcList_def Let_def h2_def
          update_core_def)
  qed
  have E1: "StackCleanupArcList sample_config E = E" by (simp add: StackCleanupArcList_def E)
  let ?s2 = "\<lambda>i. ?s1\<lparr>actual_hypoStack := Some i\<rparr>"
  have q0: "process_stack sample_env 0 (?s0\<lparr>m_hypoStackColl := [st0, E, E]\<rparr>) = Some (?s2 0)"
    using p0 by (subst process_one [of _ _ st0]) (simp_all add: st0_def [symmetric] cl_def [symmetric] clh, simp add: st0_def)
  have q1: "process_stack sample_env (Suc 0) (?s2 0) = Some (?s2 (Suc 0))"
    by (subst process_one [of _ _ E]) (simp_all add: E E1)
  have q2: "process_stack sample_env (Suc (Suc 0)) (?s2 (Suc 0)) =
      Some ((?s2 (Suc (Suc 0)))\<lparr>m_hypoStackColl := [cl, E, cl2]\<rparr>)"
    by (subst process_one [of _ _ st2])
      (simp_all add: cl2_def [symmetric] cl2h ProcessOneHypothesis_def spans2, simp add: st2_def)
  have u3: "[0..<3] = [0, Suc 0, Suc (Suc 0)]" by (simp add: upt_rec)
  have init: "SearchNormalInit sample_env = ?s0\<lparr>m_hypoStackColl := [E, E, E], m_hypoId := 0\<rparr>"
    by (simp add: SearchNormalInit_def E_def numeral_3_eq_3)
  have "AddPrune (state_compare sample_env) sample_config (seed sample_env) E = Some (st0, True)"
    unfolding E_def st0_def by (rule sample_fresh)
  then have "ProcessSentence sample_env = Some ((?s2 (Suc (Suc 0)))\<lparr>m_hypoStackColl := [cl, E, cl2]\<rparr>)"
    using q0 q1 q2 env(5) by (simp add: ProcessSentence_def init u3 Let_def)
  moreover have "extends_by sample_seed h2 sample_option" "coverage h2 = SetValueRange (BitmapInit 2) 0 (Suc 0) True"
    using h by (simp_all add: h2_def extends_by_def)
  ultimately show ?thesis
    by (simp add: SearchGetBestHypothesis_def StackGetBestHypothesis_def cl2h numeral_2_eq_2)
qed

lemma sample_derivation:
  assumes "extends_by sample_seed h sample_option"
  shows "all_spans h = [WordsRange NOT_FOUND NOT_FOUND, WordsRange 0 1]" "source_spans h = [WordsRange 0 1]"
    "target_words h = [sample_word]"
proof -
  have root: "m_prevHypo sample_seed = None" "m_targetPhrase (core sample_seed) = []"
    by (simp_all add: sample_seed_def seed_facts) (simp add: sample_env_def)
  have h: "m_prevHypo h = Some sample_seed" "m_currSourceWordsRange (core h) = WordsRange 0 1"
    "m_targetPhrase (core h) = [sample_word]"
    using assms by (simp_all add: extends_by_def sample_option_def)
  show "all_spans h = [WordsRange NOT_FOUND NOT_FOUND, WordsRange 0 1]"
    by (simp add: all_spans_step [OF h(1)] all_spans_root [OF root(1)] h(2) sample_seed_facts)
  show "source_spans h = [WordsRange 0 1]" by (simp add: source_spans_step [OF h(1)] source_spans_root [OF root(1)] h(2))
  show "target_words h = [sample_word]" by (simp add: target_words_step [OF h(1)] target_words_root [OF root(1)] h(3) root(2))
qed

lemma translation_covers_each_word_once_witness:
  "\<exists>s h. ProcessSentence sample_env = Some s \<and> SearchGetBestHypothesis s = Some (Some h) \<and>
     \<Union> (positions ` set (source_spans h)) = {..<2}"
proof -
  obtain s h where run: "ProcessSentence sample_env = Some s" "\<not> interrupted_flag s" "SearchGetBestHypothesis s = Some (Some h)"
    using sample_run by blast
  from translation_covers_each_word_once [OF sample_env_ok this] run show ?thesis by auto
qed

lemma distortion_limit_respected_witness:
  "\<exists>s. ProcessSentence sample_env = Some s \<and>
     ComputeDistortionDistance (WordsRange NOT_FOUND NOT_FOUND) (WordsRange 0 0) \<le> 6"
proof -
  obtain s h where run: "ProcessSentence sample_env = Some s" "h \<in> set (m_hypos (m_hypoStackColl s ! 2))"
    "extends_by sample_seed h sample_option" using sample_run by blast
  from distortion_limit_respected [OF sample_env_ok _ run(1) _ run(2)] sample_derivation(1) [OF run(3)] run(1)
  show ?thesis by auto
qed

lemma search_never_crosses_walls_witness:
  "\<exists>s h. ProcessSentence sample_env = Some s \<and> h \<in> set (m_hypos (m_hypoStackColl s ! 2)) \<and> {..0} \<subseteq> covered (coverage h)"
proof -
  obtain s h where run: "ProcessSentence sample_env = Some s" "h \<in> set (m_hypos (m_hypoStackColl s ! 2))"
    "coverage h = SetValueRange (BitmapInit 2) 0 (Suc 0) True" using sample_run by blast
  have "m_active (reorderingConstraint sample_env)" "GetWall (reorderingConstraint sample_env) 0"
    by (simp_all add: SetWall_def InitializeWalls_def GetWall_def ReorderingConstraintInit_def)
  moreover have "1 \<in> covered (coverage h)" by (simp add: run(3) covered_SetValueRange)
  ultimately show ?thesis
    using search_never_crosses_walls [OF sample_env_ok _ run(1) _ run(2), of 0 1] run by auto
qed

lemma output_is_made_of_options_witness:
  "\<exists>s h ts. ProcessSentence sample_env = Some s \<and> h \<in> set (m_hypos (m_hypoStackColl s ! 2)) \<and>
     list_all2 (\<lambda>r t. t \<in> set (options sample_env r)) (source_spans h) ts"
proof -
  obtain s h where run: "ProcessSentence sample_env = Some s" "h \<in> set (m_hypos (m_hypoStackColl s ! 2))"
    using sample_run by blast
  from output_is_made_of_options [OF sample_env_ok run(1) _ run(2)] run show ?thesis by auto
qed

lemma constrained_output_matches_witness:
  "\<exists>s h. ProcessSentence sample_env = Some s \<and> h \<in> set (m_hypos (m_hypoStackColl s ! 2)) \<and>
     target_words h = [sample_word] \<and> IsCompatible 1 (take 1 [sample_word]) (target_words h)"
proof -
  obtain s h where run: "ProcessSentence sample_env = Some s" "h \<in> set (m_hypos (m_hypoStackColl s ! 2))"
    "extends_by sample_seed h sample_option" using sample_run by blast
  have env: "constraintPhrase sample_env = Some [sample_word]" "initialTargetPhrase sample_env = []" "short_phrases sample_env"
    "maxNumFactors sample_env = 1"
    by (simp_all add: short_phrases_def sample_option_def) (simp_all add: sample_env_def)
  from constrained_output_matches [OF sample_env_ok run(1) env(1) _ env(2,3) _ run(2)] run env(4)
    sample_derivation(3) [OF run(3)]
  show ?thesis by auto
qed


section \<open>Running out of time\<close>

lemma AddPrune_first:
  assumes "m_minHypoStackDiversity cfg = 0"
  shows "\<exists>st b. AddPrune cmp cfg h HypothesisStackInit = Some (st, b)"
proof -
  have bad: "too_bad cfg h HypothesisStackInit = Some False"
    by (simp add: too_bad_def HypothesisStackInit_def)
  obtain k where k: "tolerated_size cfg = Some k" using assms by (simp add: tolerated_size_def Let_def)
  have find: "set_find (RecombineCompare cmp) h (m_hypos HypothesisStackInit) = None" by (simp add: stack_init(3))
  let ?st = "note_scores cfg h (insert_hypo cmp h HypothesisStackInit)"
  obtain st' where "PruneToSize cmp cfg (m_maxHypoStackSize cfg) ?st = Some st'"
    using PruneToSize_defined [of ?st cfg] assms by (fastforce simp: identified_def)
  with assms k find have "AddHypo cmp cfg h HypothesisStackInit = Some (if length (m_hypos ?st) > k then st' else ?st, True)"
    by (simp add: AddHypo_def note_diversity_def Let_def)
  with bad have "AddPrune cmp cfg h HypothesisStackInit = Some (if length (m_hypos ?st) > k then st' else ?st, True)"
    by (simp add: AddPrune_def)
  then show ?thesis by blast
qed

text \<open>When the time limit is already reached before the first stack, the search stops at once without having set
  the stack pointer that \<open>GetBestHypothesis\<close> of an interrupted search reads.
\<close>

theorem timeout_before_first_stack:
  assumes "m_minHypoStackDiversity (stack_cfg env) = 0" and "out_of_time env 0"
  shows "\<exists>s. ProcessSentence env = Some s \<and> interrupted_flag s \<and> SearchGetBestHypothesis s = None"
proof -
  have "m_hypoStackColl (SearchNormalInit env) ! 0 = HypothesisStackInit" by (simp add: SearchNormalInit_def)
  then obtain st b where "AddPrune (state_compare env) (stack_cfg env) (seed env) (m_hypoStackColl (SearchNormalInit env) ! 0) = Some (st, b)"
    using AddPrune_first [OF assms(1)] by fastforce
  moreover have "[0..<sourceSize env + 1] = 0 # [1..<sourceSize env + 1]" using upt_conv_Cons [of 0] by simp
  ultimately show ?thesis
    using assms(2) by (simp add: ProcessSentence_def SearchGetBestHypothesis_def SearchNormalInit_def Let_def del: replicate_Suc)
qed

lemma timeout_before_first_stack_witness:
  "\<exists>s. ProcessSentence (sample_env\<lparr>out_of_time := (\<lambda>i. True)\<rparr>) = Some s \<and> SearchGetBestHypothesis s = None"
  using timeout_before_first_stack [of "sample_env\<lparr>out_of_time := (\<lambda>i. True)\<rparr>"]
  by (auto simp: sample_config_def)

end
