(* ===== verification/Search_Complete.thy ===== *)
theory Search_Complete
  imports Search_Normal
begin

text \<open>
  The search runs to its end: with feature functions that keep their contract no assertion of the
  code fails, and every sentence whose words can be translated one by one gets a translation. The
  contract is a locale; the features of the decoder (distortion, word penalty, reordering models)
  are its instance.
\<close>

section \<open>Steps that only touch cores\<close>

lemma SetCleanup_order:
  "set_ok (RecombineCompare cmp) xs \<Longrightarrow> set_ok (RecombineCompare cmp) (map (HypoCleanupArcList k d) xs)"
proof -
  have r: "RecombineCompare cmp (HypoCleanupArcList k d g) (HypoCleanupArcList k d h) = RecombineCompare cmp g h" for g h
    by (simp add: RecombineCompare_def HypoCleanupArcList_def Let_def split: option.splits)
  show "set_ok (RecombineCompare cmp) xs \<Longrightarrow> ?thesis"
    by (induction xs) (auto simp: set_ok_def r)
qed

lemma Cleanup_core:
  "total (HypoCleanupArcList k d g) = total g" "coverage (HypoCleanupArcList k d g) = coverage g"
  "m_ffStates (core (HypoCleanupArcList k d g)) = m_ffStates (core g)"
  "m_scoreBreakdown (core (HypoCleanupArcList k d g)) = m_scoreBreakdown (core g)"
  by (simp_all add: HypoCleanupArcList_def Let_def split: option.splits)

lemma StackCleanup_stack_ok: "stack_ok ok cmp n st \<Longrightarrow> stack_ok ok cmp n (StackCleanupArcList cfg st)"
  by (auto simp: stack_ok_def StackCleanupArcList_def SetCleanup_order hypo_ok_def Cleanup_core)

lemma StackCleanup_tracks: "tracks_best st \<Longrightarrow> tracks_best (StackCleanupArcList cfg st)"
  by (auto simp: tracks_best_def StackCleanupArcList_def scored_def Cleanup_core split: if_splits)

text \<open>Scores that are all finite give finite sums.\<close>

lemma score_plus_Fin: "x \<noteq> MinusInf \<Longrightarrow> y \<noteq> MinusInf \<Longrightarrow> x + y \<noteq> (MinusInf :: score)"
  by (cases x; cases y) simp_all

definition finite_costs :: "nat \<Rightarrow> score square_matrix \<Rightarrow> bool" where
  "finite_costs n m \<longleftrightarrow> (\<forall>j < n. \<forall>i \<le> j. GetScore m i j \<noteq> MinusInf)"

lemma finite_future_score:
  assumes "finite_costs (m_size b) m" "m_size b < size_bound"
  shows "CalcFutureScore m b \<noteq> MinusInf"
proof -
  let ?f = "future_step m (GetValue b)"
  have step: "snd (?f k p) \<noteq> MinusInf \<and> (fst (?f k p) = NOT_FOUND \<or> fst (?f k p) < Suc k)"
    if "k < m_size b" "snd p \<noteq> MinusInf" "fst p = NOT_FOUND \<or> fst p < k" for k p
  proof -
    obtain g sc where p: "p = (g, sc)" by force
    show ?thesis
    proof (cases "GetValue b k \<and> g \<noteq> NOT_FOUND")
      case True
      then have "g < k" using that p by auto
      then have "sz_sub k 1 = k - 1" "g \<le> k - 1" "k - 1 < m_size b"
        using that(1) assms(2) sz_sub_1 [of k] by simp_all
      then have "GetScore m g (sz_sub k 1) \<noteq> MinusInf" using assms(1) by (simp add: finite_costs_def)
      then show ?thesis using True that p by (simp add: future_step_def score_plus_Fin)
    next
      case False
      then show ?thesis using that p by (auto simp: future_step_def)
    qed
  qed
  have all: "snd (fold ?f [0..<k] (NOT_FOUND, 0)) \<noteq> MinusInf \<and>
      (fst (fold ?f [0..<k] (NOT_FOUND, 0)) = NOT_FOUND \<or> fst (fold ?f [0..<k] (NOT_FOUND, 0)) < k)"
    if "k \<le> m_size b" for k
    using that
  proof (induction k)
    case 0
    then show ?case by (simp add: zero_score_def)
  next
    case (Suc k)
    then show ?case using step [of k] by simp
  qed
  obtain g sc where r: "fold ?f [0..<m_size b] (NOT_FOUND, 0) = (g, sc)" by force
  have g: "sc \<noteq> MinusInf" "g = NOT_FOUND \<or> g < m_size b" using all [of "m_size b"] r by simp_all
  show ?thesis
  proof (cases "g = NOT_FOUND")
    case True
    then show ?thesis using r g by (simp add: CalcFutureScore_def)
  next
    case False
    then have "g \<le> m_size b - 1" "m_size b - 1 < m_size b" "sz_sub (m_size b) 1 = m_size b - 1"
      using g assms(2) sz_sub_1 [of "m_size b"] by auto
    then have "GetScore m g (sz_sub (m_size b) 1) \<noteq> MinusInf" using assms(1) by (simp add: finite_costs_def)
    then show ?thesis using False r g by (simp add: CalcFutureScore_def score_plus_Fin)
  qed
qed

section \<open>The contract of the features\<close>

text \<open>
  The states of every feature compare as a weak order, a stateful feature turns an accepted state of
  the previous hypothesis into an accepted one, no feature fails on the scores of an expansion with one of the
  options of the search, and none changes the length of the scores.
\<close>

locale decoding = feature_states st_ok "state_compare env"
  for st_ok :: "nat \<Rightarrow> 'st \<Rightarrow> bool" and env :: "'st search_env" +
  assumes env: "env_ok env" "stack_config_ok (stack_cfg env)" "m_minHypoStackDiversity (stack_cfg env) = 0"
      "\<not> useEarlyDiscarding env" "finite_costs (sourceSize env) (futureScores env)"
    and option_scores: "t \<in> set (options env r) \<Longrightarrow> length (to_scoreBreakdown t) = length (allWeights env)"
    and initial_states: "length (empty_states (features env)) = length (stateful (features env))"
      "i < length (stateful (features env)) \<Longrightarrow> \<exists>x. empty_states (features env) ! i = Some x \<and> st_ok i x"
    and stateless_step: "sf \<in> set (stateless (features env)) \<Longrightarrow> length b = length (allWeights env) \<Longrightarrow>
      \<exists>b'. sf tp b = Some b' \<and> length b' = length b"
    and stateful_step: "i < length (stateful (features env)) \<Longrightarrow> m_prevHypo h = Some p \<Longrightarrow>
      m_transOpt (core h) = Some t \<Longrightarrow> t \<in> set (options env r) \<Longrightarrow> st_ok i x \<Longrightarrow> length b = length (allWeights env) \<Longrightarrow>
      \<exists>y b'. (stateful (features env) ! i) h (Some x) b = Some (Some y, b') \<and> st_ok i y \<and> length b' = length b"
begin

definition nf :: nat where "nf = length (stateful (features env))"

definition good :: "'st hypothesis \<Rightarrow> bool" where
  "good h \<longleftrightarrow> ok_hypo nf h \<and> scored h \<and> m_size (coverage h) = sourceSize env \<and>
     length (m_scoreBreakdown (core h)) = length (allWeights env) \<and> (\<forall>i < nf. m_ffStates (core h) ! i \<noteq> None)"

lemma good_core: "core g = core h \<Longrightarrow> good g = good h"
  by (simp add: good_def hypo_ok_def scored_def)

lemma good_cleanup: "good (HypoCleanupArcList k d g) = good g"
  by (simp add: good_def hypo_ok_def scored_def Cleanup_core)

lemma good_ident: "identified (stack_cfg env) h"
  using env(3) by (simp add: identified_def)

lemma good_seed: "good (seed env)"
proof -
  have "sourceSize env < 2 ^ 31" using env(1) by (simp add: env_ok_def)
  moreover have "core (seed env) = (core (seed env))\<lparr>m_ffStates := empty_states (features env), m_totalScore := 0,
      m_scoreBreakdown := ZeroAll (replicate (length (allWeights env)) 0)\<rparr>"
    by (simp add: seed_def HypothesisInit_def Let_def)
  then have "m_ffStates (core (seed env)) = empty_states (features env)" "total (seed env) = 0"
    "m_scoreBreakdown (core (seed env)) = ZeroAll (replicate (length (allWeights env)) 0)"
    by (simp_all add: seed_def HypothesisInit_def Let_def)
  ultimately show ?thesis using initial_states
    by (fastforce simp: good_def hypo_ok_def scored_def seed_facts nf_def zero_score_def ZeroAll_def)
qed

end


section \<open>Scoring an expansion\<close>

lemma PlusEquals_length: "length ys \<le> length xs \<Longrightarrow> \<exists>zs. PlusEquals xs ys = Some zs \<and> length zs = length xs"
proof -
  have "length (fold (\<lambda>i xs. xs[i := xs ! i + ys ! i]) is xs) = length xs" for "is" and xs :: "rat list"
    by (induction "is" arbitrary: xs) simp_all
  then show "length ys \<le> length xs \<Longrightarrow> ?thesis" by (simp add: PlusEquals_def)
qed

context decoding
begin

definition fresh :: "nat \<Rightarrow> 'st hypothesis \<Rightarrow> bool" where
  "fresh i h \<longleftrightarrow> length (m_ffStates (core h)) = nf \<and> length (m_scoreBreakdown (core h)) = length (allWeights env) \<and>
     (\<forall>j < i. \<exists>x. m_ffStates (core h) ! j = Some x \<and> st_ok j x)"

lemma evaluate_defined:
  assumes "good p" "ffs = drop i (stateful (features env))" "i \<le> nf"
    and "m_prevHypo h = Some p" "m_transOpt (core h) = Some t" "fresh i h" and t: "t \<in> set (options env r)"
  shows "\<exists>g. evaluate_stateful ffs i h = Some g \<and> fresh nf g"
  using assms(2-6)
proof (induction ffs arbitrary: i h)
  case Nil
  then show ?case by (simp add: nf_def)
next
  case (Cons ff ffs)
  have i: "i < nf" using Cons.prems(1) by (cases "i < nf") (simp_all add: nf_def)
  have ff: "ff = stateful (features env) ! i" "ffs = drop (Suc i) (stateful (features env))"
    using trans [OF Cons.prems(1) Cons_nth_drop_Suc [symmetric]] i by (simp_all add: nf_def)
  obtain x where x: "m_ffStates (core p) ! i = Some x" "st_ok i x"
    using assms(1) i unfolding good_def hypo_ok_def by blast
  obtain y b' where y: "ff h (Some x) (m_scoreBreakdown (core h)) = Some (Some y, b')" "st_ok i y"
    "length b' = length (m_scoreBreakdown (core h))"
    using stateful_step [of i h p t r x "m_scoreBreakdown (core h)"] i Cons.prems x(2) t
    unfolding ff(1) nf_def fresh_def by blast
  let ?h = "update_core (\<lambda>c. c\<lparr>m_ffStates := (m_ffStates c)[i := Some y], m_scoreBreakdown := b'\<rparr>) h"
  have "fresh (Suc i) ?h"
    using Cons.prems(5) y(2,3) i by (auto simp: fresh_def nth_list_update less_Suc_eq)
  then obtain g where "evaluate_stateful ffs (Suc i) ?h = Some g" "fresh nf g"
    using Cons.IH [of "Suc i" ?h] ff(2) i Cons.prems(3,4) by auto
  then show ?case using y(1) x(1) Cons.prems(3) by (simp add: Let_def)
qed

lemma CalcScore_defined:
  assumes p: "good p" and h: "HypothesisNext p t i = Some h" and t: "t \<in> set (options env r)"
    and cov: "wf_bitmap (coverage h)" "m_size (coverage h) = sourceSize env"
  shows "\<exists>g. CalcScore (features env) (allWeights env) (futureScores env) h = Some g \<and> good g"
proof -
  have h': "m_prevHypo h = Some p" "m_transOpt (core h) = Some t"
    "m_scoreBreakdown (core h) = m_scoreBreakdown (core p)" "length (m_ffStates (core h)) = nf"
    using h p by (auto simp: HypothesisNext_def good_def hypo_ok_def Let_def split: if_splits)
  obtain b where b: "PlusEquals (m_scoreBreakdown (core h)) (to_scoreBreakdown t) = Some b" "length b = length (allWeights env)"
    using PlusEquals_length [of "to_scoreBreakdown t" "m_scoreBreakdown (core p)"] option_scores [OF t] p h'(3)
    by (auto simp: good_def)
  have "\<exists>b2. evaluate_stateless sfs tp b = Some b2 \<and> length b2 = length (allWeights env)"
    if "set sfs \<subseteq> set (stateless (features env))" "length b = length (allWeights env)" for sfs tp and b
    using that
  proof (induction sfs arbitrary: b)
    case (Cons sf sfs)
    then obtain b' where "sf tp b = Some b'" "length b' = length (allWeights env)"
      using stateless_step [of sf b tp] by auto
    then show ?case using Cons.IH [of b'] Cons.prems(1) by simp
  qed simp
  then obtain b2 where b2_def: "evaluate_stateless (stateless (features env)) (m_targetPhrase (core h)) b = Some b2"
    and b2: "length b2 = length (allWeights env)" using b(2) by blast
  let ?h = "update_core (\<lambda>c. c\<lparr>m_scoreBreakdown := b2\<rparr>) h"
  have "fresh 0 ?h" using h'(4) b2 by (simp add: fresh_def)
  then obtain g where g: "evaluate_stateful (stateful (features env)) 0 ?h = Some g" "fresh nf g"
    using evaluate_defined [OF p _ _ _ _ _ t, of "stateful (features env)" 0 ?h] h'(1,2) by auto
  have cov_g: "coverage g = coverage h" using evaluate_stateful_rescored [OF g(1)] by (simp add: rescored_def)
  let ?fut = "CalcFutureScore (futureScores env) (coverage g)"
  have fut: "?fut \<noteq> MinusInf"
    using finite_future_score [of "coverage g" "futureScores env"] env(5) cov by (simp add: cov_g wf_bitmap_def size_bound_def)
  then obtain q where q: "?fut = Fin q" by (cases ?fut) auto
  let ?g = "update_core (\<lambda>c. c\<lparr>m_futureScore := ?fut,
      m_totalScore := Fin (InnerProduct (m_scoreBreakdown c) (allWeights env)) + ?fut\<rparr>) g"
  have "CalcScore (features env) (allWeights env) (futureScores env) h = Some ?g"
    using h'(2) b(1) g(1) by (simp add: CalcScore_def b2_def Let_def)
  moreover have "good ?g"
    using g(2) cov cov_g q by (fastforce simp: good_def hypo_ok_def fresh_def scored_def)
  ultimately show ?thesis by blast
qed

end


section \<open>One step of the search\<close>

context decoding
begin

definition good_stack :: "'st stack \<Rightarrow> bool" where
  "good_stack st \<longleftrightarrow> stack_ok st_ok (state_compare env) nf st \<and> tracks_best st \<and> (\<forall>h \<in> set (m_hypos st). good h)"

definition good_search :: "'st search \<Rightarrow> bool" where
  "good_search s \<longleftrightarrow> length (m_hypoStackColl s) = sourceSize env + 1 \<and>
     (\<forall>i \<le> sourceSize env. good_stack (m_hypoStackColl s ! i))"

definition filled :: "'st search \<Rightarrow> nat set" where
  "filled s = {i. i \<le> sourceSize env \<and> m_hypos (m_hypoStackColl s ! i) \<noteq> []}"

definition grows :: "'st search \<Rightarrow> 'st search \<Rightarrow> bool" where
  "grows s s' \<longleftrightarrow> good_search s' \<and> filled s \<subseteq> filled s' \<and> interrupted_flag s' = interrupted_flag s \<and>
     actual_hypoStack s' = actual_hypoStack s"

lemma grows_trans: "grows s s' \<Longrightarrow> grows s' s'' \<Longrightarrow> grows s s''"
  by (auto simp: grows_def)

lemma grows_refl: "good_search s \<Longrightarrow> grows s s"
  by (simp add: grows_def)

lemma good_from_cores:
  assumes "from_cores H st" "\<forall>h \<in> H. good h"
  shows "\<forall>h \<in> set (m_hypos st). good h"
proof
  fix h assume "h \<in> set (m_hypos st)"
  then have "core h \<in> core ` H" using assms(1) unfolding from_cores_def by blast
  then obtain g where "core h = core g" "g \<in> H" by (rule imageE)
  then show "good h" using assms(2) good_core by blast
qed

lemma AddPrune_good:
  assumes "good_stack st" "good h"
  shows "\<exists>st' b. AddPrune (state_compare env) (stack_cfg env) h st = Some (st', b) \<and> good_stack st' \<and> m_hypos st' \<noteq> []"
proof -
  have "stack_ok st_ok (state_compare env) nf st" "ok_hypo nf h" "scored h" "tracks_best st"
    using assms by (simp_all add: good_stack_def good_def)
  from AddPrune_step [OF this env(2)] good_ident obtain st' b where
    st': "AddPrune (state_compare env) (stack_cfg env) h st = Some (st', b)"
      "stack_ok st_ok (state_compare env) nf st'" "tracks_best st'" "m_bestScore st' = max (m_bestScore st) (total h)"
      "from_cores (insert h (set (m_hypos st))) st'" by blast
  have "\<forall>g \<in> set (m_hypos st'). good g"
    by (rule good_from_cores [OF st'(5)]) (use assms in \<open>simp add: good_stack_def\<close>)
  moreover have "m_hypos st' \<noteq> []"
  proof
    assume "m_hypos st' = []"
    then have "max (m_bestScore st) (total h) = MinusInf" using st'(3,4) by (simp add: tracks_best_def)
    then have "total h = MinusInf" by (cases "total h"; cases "m_bestScore st") (auto simp: max_def split: if_splits)
    then show False using assms(2) by (simp add: good_def scored_def)
  qed
  ultimately show ?thesis using st' by (auto simp: good_stack_def)
qed

lemma words_bound: "good h \<Longrightarrow> BitmapNumWordsCovered (coverage h) \<le> sourceSize env"
  using card_mono [OF _ covered_subset, of "coverage h"] by (simp add: good_def NumWordsCovered_eq)

lemma add_to_stack_good:
  assumes "good_search s" "good h"
  shows "\<exists>s'. add_to_stack env h s = Some s' \<and> grows s s' \<and> BitmapNumWordsCovered (coverage h) \<in> filled s'"
proof -
  let ?i = "BitmapNumWordsCovered (coverage h)"
  have i: "?i \<le> sourceSize env" by (rule words_bound [OF assms(2)])
  then have len: "?i < length (m_hypoStackColl s)" using assms(1) by (simp add: good_search_def)
  obtain st b where st: "AddPrune (state_compare env) (stack_cfg env) h (m_hypoStackColl s ! ?i) = Some (st, b)"
    "good_stack st" "m_hypos st \<noteq> []"
    using AddPrune_good [of "m_hypoStackColl s ! ?i" h] assms i unfolding good_search_def by blast
  let ?s = "s\<lparr>m_hypoStackColl := (m_hypoStackColl s)[?i := st]\<rparr>"
  have "add_to_stack env h s = Some ?s" using len st(1) by (simp add: add_to_stack_def Let_def)
  moreover have "grows s ?s" "?i \<in> filled ?s"
    using assms(1) st(2,3) i len by (auto simp: grows_def good_search_def filled_def nth_list_update)
  ultimately show ?thesis by blast
qed

lemma expansion_coverage:
  assumes "good p" "(a, b) \<in> set (expansion_spans env p)" "t \<in> set (options env (WordsRange a b))"
  shows "\<exists>h. HypothesisNext p t i = Some h \<and> wf_bitmap (coverage h) \<and> m_size (coverage h) = sourceSize env \<and>
     BitmapNumWordsCovered (coverage h) = BitmapNumWordsCovered (coverage p) + (b - a + 1)"
proof -
  note facts = expansion_span_facts [OF assms(2)]
  have p: "wf_bitmap (coverage p)" "m_size (coverage p) = sourceSize env" using assms(1) by (simp_all add: good_def hypo_ok_def)
  have r: "to_range t = WordsRange a b" using env(1) assms(3) by (simp add: env_ok_def)
  have ov: "\<not> BitmapOverlap (coverage p) (WordsRange a b)" using facts(3) by (simp add: basic_checks_def)
  obtain h where h: "HypothesisNext p t i = Some h" "coverage h = SetValueRange (coverage p) a b True"
    using ov r by (simp add: HypothesisNext_def Let_def)
  have "Reordering_Constraint.extend (maxDistortion (stack_cfg env)) (reorderingConstraint env) (coverage p) (WordsRange a b) (coverage h)"
    unfolding h(2) by (rule Reordering_Constraint.extend.intros) (use facts ov p in \<open>simp_all add: basic_checks_def\<close>)
  note props = extend_props [OF this p(1)]
  have "card (covered (coverage h)) = card (covered (coverage p)) + (b - a + 1)"
    using props(3) card_Un_disjoint [of "covered (coverage p)" "{a..b}"] props(1) by (simp add: props(7) Int_commute Suc_diff_le)
  then show ?thesis using h props(5,6) p(2) by (simp add: NumWordsCovered_eq)
qed

lemma search_id_good [simp]: "good_search (s\<lparr>m_hypoId := k\<rparr>) = good_search s" "filled (s\<lparr>m_hypoId := k\<rparr>) = filled s"
  "grows (s\<lparr>m_hypoId := k\<rparr>) s' = grows s s'"
  by (simp_all add: good_search_def filled_def grows_def)

lemma ExpandHypothesis_good:
  assumes "good_search s" "good p" "(a, b) \<in> set (expansion_spans env p)" "t \<in> set (options env (WordsRange a b))"
  shows "\<exists>s'. ExpandHypothesis env p t expected s = Some s' \<and> grows s s' \<and>
     (constraintPhrase env = None \<longrightarrow> BitmapNumWordsCovered (coverage p) + (b - a + 1) \<in> filled s')"
proof -
  obtain h where h: "HypothesisNext p t (m_hypoId s) = Some h" "wf_bitmap (coverage h)" "m_size (coverage h) = sourceSize env"
    "BitmapNumWordsCovered (coverage h) = BitmapNumWordsCovered (coverage p) + (b - a + 1)"
    using expansion_coverage [OF assms(2-4)] by blast
  obtain g where g: "CalcScore (features env) (allWeights env) (futureScores env) h = Some g" "good g"
    using CalcScore_defined [OF assms(2) h(1) assms(4) h(2,3)] by blast
  have cov: "coverage g = coverage h" using CalcScore_rescored [OF g(1)] by (simp add: rescored_def)
  obtain s' where s': "add_to_stack env g (s\<lparr>m_hypoId := m_hypoId s + 1\<rparr>) = Some s'" "grows s s'"
    "BitmapNumWordsCovered (coverage p) + (b - a + 1) \<in> filled s'"
    using add_to_stack_good [of "s\<lparr>m_hypoId := m_hypoId s + 1\<rparr>" g] assms(1) g(2) cov h(4) by auto
  consider "Create (maxNumFactors env) (constraintPhrase env) p t (m_hypoId s) = Null" "constraintPhrase env \<noteq> None"
    | "Create (maxNumFactors env) (constraintPhrase env) p t (m_hypoId s) = Created h"
  proof (cases "constraintPhrase env")
    case (Some c)
    then show ?thesis using that h(1)
      by (cases "matches_constraint (maxNumFactors env) c p t") (simp_all add: Create_def)
  qed (use that h(1) in \<open>simp add: Create_def\<close>)
  then show ?thesis
    using env(4) g(1) s' grows_refl [OF assms(1)] by cases (auto simp: ExpandHypothesis_def Let_def)
qed

end


section \<open>The loops of the search\<close>

context decoding
begin

lemma expand_options_good:
  assumes "good p" "(a, b) \<in> set (expansion_spans env p)" "good_search s"
    and "set ts \<subseteq> set (options env (WordsRange a b))"
  shows "\<exists>s'. expand_options env p expected ts s = Some s' \<and> grows s s' \<and>
     (constraintPhrase env = None \<and> ts \<noteq> [] \<longrightarrow> BitmapNumWordsCovered (coverage p) + (b - a + 1) \<in> filled s')"
  using assms(3,4)
proof (induction ts arbitrary: s)
  case Nil
  then show ?case by (simp add: grows_refl)
next
  case (Cons t ts)
  obtain s1 where s1: "ExpandHypothesis env p t expected s = Some s1" "grows s s1"
    "constraintPhrase env = None \<longrightarrow> BitmapNumWordsCovered (coverage p) + (b - a + 1) \<in> filled s1"
    using ExpandHypothesis_good [OF Cons.prems(1) assms(1,2)] Cons.prems(2) by (meson list.set_intros(1) subsetD)
  have "good_search s1" using s1(2) by (simp add: grows_def)
  then obtain s2 where s2: "expand_options env p expected ts s1 = Some s2" "grows s1 s2"
    using Cons.IH [of s1] Cons.prems(2) by auto
  have "filled s1 \<subseteq> filled s2" using s2(2) by (simp add: grows_def)
  then show ?case using s1 s2 grows_trans [OF s1(2) s2(2)] by auto
qed

text \<open>An expansion that is possible fills the stack of its length.\<close>

definition expands_to :: "'st hypothesis \<Rightarrow> nat \<Rightarrow> bool" where
  "expands_to p i \<longleftrightarrow> constraintPhrase env = None \<and> (\<exists>a b. (a, b) \<in> set (expansion_spans env p) \<and>
     i = BitmapNumWordsCovered (coverage p) + (b - a + 1))"

lemma span_options: "(a, b) \<in> set (expansion_spans env p) \<Longrightarrow> options env (WordsRange a b) \<noteq> []"
  using expansion_span_facts(3) [of a b env p] by (simp add: basic_checks_def)

lemma expand_spans_good:
  assumes "good p" "good_search s" "set spans \<subseteq> set (expansion_spans env p)"
  shows "\<exists>s'. expand_spans env p spans s = Some s' \<and> grows s s' \<and>
     (constraintPhrase env = None \<longrightarrow>
       (\<forall>(a, b) \<in> set spans. BitmapNumWordsCovered (coverage p) + (b - a + 1) \<in> filled s'))"
  using assms(2,3)
proof (induction spans arbitrary: s)
  case Nil
  then show ?case by (simp add: grows_refl)
next
  case (Cons sp spans)
  obtain a b where sp: "sp = (a, b)" by force
  then have ab: "(a, b) \<in> set (expansion_spans env p)" using Cons.prems(2) by simp
  obtain s1 where s1: "ExpandAllHypotheses env p a b s = Some s1" "grows s s1"
    "constraintPhrase env = None \<longrightarrow> BitmapNumWordsCovered (coverage p) + (b - a + 1) \<in> filled s1"
    using expand_options_good [OF assms(1) ab Cons.prems(1) order_refl] span_options [OF ab]
    unfolding ExpandAllHypotheses_def Let_def by blast
  have "good_search s1" using s1(2) by (simp add: grows_def)
  then obtain s2 where s2: "expand_spans env p spans s1 = Some s2" "grows s1 s2"
    "constraintPhrase env = None \<longrightarrow>
       (\<forall>(a, b) \<in> set spans. BitmapNumWordsCovered (coverage p) + (b - a + 1) \<in> filled s2)"
    using Cons.IH [of s1] Cons.prems(2) by auto
  have "filled s1 \<subseteq> filled s2" using s2(2) by (simp add: grows_def)
  then show ?case using s1 s2 grows_trans [OF s1(2) s2(2)] by (auto simp: sp)
qed

lemma ProcessOneHypothesis_good:
  assumes "good p" "good_search s"
  shows "\<exists>s'. ProcessOneHypothesis env p s = Some s' \<and> grows s s' \<and> (\<forall>i. expands_to p i \<longrightarrow> i \<in> filled s')"
proof -
  obtain s' where s': "expand_spans env p (expansion_spans env p) s = Some s'" "grows s s'"
    "constraintPhrase env = None \<longrightarrow>
      (\<forall>(a, b) \<in> set (expansion_spans env p). BitmapNumWordsCovered (coverage p) + (b - a + 1) \<in> filled s')"
    using expand_spans_good [OF assms order_refl] by (elim exE conjE)
  have "\<forall>i. expands_to p i \<longrightarrow> i \<in> filled s'" using s'(3) unfolding expands_to_def by blast
  then show ?thesis using s'(1,2) by (auto simp: ProcessOneHypothesis_def)
qed

lemma process_hypotheses_good:
  assumes "good_search s" "\<forall>h \<in> set hs. good h"
  shows "\<exists>s'. process_hypotheses env hs s = Some s' \<and> grows s s' \<and>
     (\<forall>h \<in> set hs. \<forall>i. expands_to h i \<longrightarrow> i \<in> filled s')"
  using assms
proof (induction hs arbitrary: s)
  case Nil
  then show ?case by (simp add: grows_refl)
next
  case (Cons h hs)
  obtain s1 where s1: "ProcessOneHypothesis env h s = Some s1" "grows s s1" "\<forall>i. expands_to h i \<longrightarrow> i \<in> filled s1"
    using ProcessOneHypothesis_good [of h s] Cons.prems by auto
  have "good_search s1" using s1(2) by (simp add: grows_def)
  then obtain s2 where s2: "process_hypotheses env hs s1 = Some s2" "grows s1 s2"
    "\<forall>h \<in> set hs. \<forall>i. expands_to h i \<longrightarrow> i \<in> filled s2"
    using Cons.IH [of s1] Cons.prems(2) by auto
  have "filled s1 \<subseteq> filled s2" using s2(2) by (simp add: grows_def)
  then show ?case using s1 s2 grows_trans [OF s1(2) s2(2)] by auto
qed

lemma prepare_stack:
  assumes "good_stack st"
  shows "\<exists>st'. PruneToSize (state_compare env) (stack_cfg env) (m_maxHypoStackSize (stack_cfg env)) st = Some st' \<and>
     good_stack (StackCleanupArcList (stack_cfg env) st') \<and> set (m_hypos st') \<subseteq> set (m_hypos st) \<and>
     (m_hypos st \<noteq> [] \<longrightarrow> m_hypos (StackCleanupArcList (stack_cfg env) st') \<noteq> [])"
proof -
  let ?k = "m_maxHypoStackSize (stack_cfg env)"
  note st = assms [unfolded good_stack_def]
  obtain st' where prune: "PruneToSize (state_compare env) (stack_cfg env) ?k st = Some st'"
    using PruneToSize_defined [of st "stack_cfg env" "state_compare env" ?k] good_ident by blast
  note ok = PruneToSize_ok [OF conjunct1 [OF st] prune]
  have cfg: "m_beamWidth (stack_cfg env) < 0" "0 < ?k" using env(2) by (simp_all add: stack_config_ok_def)
  have tracks: "tracks_best st'" using PruneToSize_best [OF _ _ cfg prune] st by blast
  have "good h" if "h \<in> set (m_hypos (StackCleanupArcList (stack_cfg env) st'))" for h
    using that ok st by (auto simp: StackCleanupArcList_def good_cleanup split: if_splits)
  then have "good_stack (StackCleanupArcList (stack_cfg env) st')"
    using ok tracks by (simp add: good_stack_def StackCleanup_stack_ok StackCleanup_tracks)
  moreover have "m_hypos (StackCleanupArcList (stack_cfg env) st') \<noteq> []" if ne: "m_hypos st \<noteq> []"
  proof -
    obtain h where "h \<in> set (m_hypos st)" using ne by (cases "m_hypos st") auto
    then have "scored h" "total h \<le> m_bestScore st" using st by (simp_all add: tracks_best_def)
    then have "m_bestScore st \<noteq> MinusInf" by (cases "total h") (auto simp: scored_def)
    then have "m_hypos st' \<noteq> []" using tracks ok by (auto simp: tracks_best_def)
    then show ?thesis by (simp add: StackCleanupArcList_def)
  qed
  ultimately show ?thesis using prune ok by blast
qed

lemma process_stack_good:
  assumes "good_search s" "ind \<le> sourceSize env"
    and "arc_closed Q" "\<forall>h \<in> set (m_hypos (m_hypoStackColl s ! ind)). Q h"
  shows "\<exists>s'. process_stack env ind s = Some s' \<and> good_search s' \<and> filled s \<subseteq> filled s' \<and>
     interrupted_flag s' = interrupted_flag s \<and> actual_hypoStack s' = Some ind \<and>
     (ind \<in> filled s \<longrightarrow> (\<exists>h. Q h \<and> good h \<and> (\<forall>i. expands_to h i \<longrightarrow> i \<in> filled s')))"
proof -
  let ?old = "m_hypoStackColl s ! ind"
  have old: "good_stack ?old" using assms(1,2) by (simp add: good_search_def)
  obtain st where st: "PruneToSize (state_compare env) (stack_cfg env) (m_maxHypoStackSize (stack_cfg env)) ?old = Some st"
    "good_stack (StackCleanupArcList (stack_cfg env) st)" "set (m_hypos st) \<subseteq> set (m_hypos ?old)"
    "m_hypos ?old \<noteq> [] \<longrightarrow> m_hypos (StackCleanupArcList (stack_cfg env) st) \<noteq> []"
    using prepare_stack [OF old] by blast
  let ?st = "StackCleanupArcList (stack_cfg env) st"
  let ?s = "s\<lparr>m_hypoStackColl := (m_hypoStackColl s)[ind := ?st]\<rparr>"
  have Q: "\<forall>h \<in> set (m_hypos ?st). Q h" by (rule StackCleanup_holds [OF assms(3)]) (use st(3) assms(4) in blast)
  have gs: "good_search ?s" using assms(1,2) st(2) by (simp add: good_search_def nth_list_update)
  have fs: "filled s \<subseteq> filled ?s"
    using st(4) assms(1,2) by (auto simp: filled_def good_search_def nth_list_update)
  obtain s1 where s1: "process_hypotheses env (m_hypos ?st) ?s = Some s1" "grows ?s s1"
    "\<forall>h \<in> set (m_hypos ?st). \<forall>i. expands_to h i \<longrightarrow> i \<in> filled s1"
    using process_hypotheses_good [OF gs, of "m_hypos ?st"] st(2) unfolding good_stack_def by blast
  let ?s' = "s1\<lparr>actual_hypoStack := Some ind\<rparr>"
  have f1: "filled ?s' = filled s1" "good_search ?s' = good_search s1"
    by (simp_all add: filled_def good_search_def)
  have "process_stack env ind s = Some ?s'" using st(1) s1(1) by (simp add: process_stack_def Let_def)
  moreover have "good_search ?s'" "filled s \<subseteq> filled ?s'" "interrupted_flag ?s' = interrupted_flag s"
    using s1(2) fs unfolding f1 by (auto simp: grows_def)
  moreover have "\<exists>h. Q h \<and> good h \<and> (\<forall>i. expands_to h i \<longrightarrow> i \<in> filled ?s')" if "ind \<in> filled s"
  proof -
    have "m_hypos ?st \<noteq> []" using that st(4) by (simp add: filled_def)
    then obtain h where "h \<in> set (m_hypos ?st)" by (cases "m_hypos ?st") auto
    then show ?thesis using s1(3) Q st(2) unfolding f1 good_stack_def by blast
  qed
  ultimately show ?thesis by auto
qed

end

section \<open>The whole search\<close>

context decoding
begin

text \<open>\<open>actual_hypoStack\<close> is read only after an interruption, which leaves it unset only before the first stack.\<close>

lemma process_stacks_good:
  assumes "good_search s" "\<forall>i \<in> set inds. i \<le> sourceSize env"
  shows "\<exists>s'. process_stacks env inds s = Some s' \<and> good_search s' \<and>
     (interrupted_flag s' \<longrightarrow> interrupted_flag s \<or> (\<exists>i \<in> set inds. out_of_time env i)) \<and>
     (interrupted_flag s' \<longrightarrow> actual_hypoStack s' = None \<longrightarrow>
        interrupted_flag s \<or> (actual_hypoStack s = None \<and> out_of_time env (hd inds)))"
  using assms
proof (induction inds arbitrary: s)
  case Nil
  then show ?case by simp
next
  case (Cons ind inds)
  show ?case
  proof (cases "out_of_time env ind")
    case True
    then show ?thesis using Cons.prems(1) by (simp add: good_search_def)
  next
    case False
    obtain s1 where s1: "process_stack env ind s = Some s1" "good_search s1" "interrupted_flag s1 = interrupted_flag s"
      "actual_hypoStack s1 = Some ind"
      using process_stack_good [of s ind "\<lambda>h. True"] Cons.prems by (auto simp: arc_closed_def)
    obtain s2 where "process_stacks env inds s1 = Some s2" "good_search s2"
      "interrupted_flag s2 \<longrightarrow> interrupted_flag s1 \<or> (\<exists>i \<in> set inds. out_of_time env i)"
      "interrupted_flag s2 \<longrightarrow> actual_hypoStack s2 = None \<longrightarrow>
        interrupted_flag s1 \<or> (actual_hypoStack s1 = None \<and> out_of_time env (hd inds))"
      using Cons.IH [OF s1(2)] Cons.prems(2) by (elim meta_impE exE conjE) simp_all
    then show ?thesis using False s1 by auto
  qed
qed

lemma start_good:
  "\<exists>st b. AddPrune (state_compare env) (stack_cfg env) (seed env) (m_hypoStackColl (SearchNormalInit env) ! 0) = Some (st, b) \<and>
     good_search ((SearchNormalInit env)\<lparr>m_hypoStackColl := (m_hypoStackColl (SearchNormalInit env))[0 := st], m_hypoId := 1\<rparr>) \<and>
     m_hypos st \<noteq> []"
proof -
  have init: "good_stack HypothesisStackInit" by (simp add: good_stack_def stack_init)
  have nth: "m_hypoStackColl (SearchNormalInit env) ! i = HypothesisStackInit" if "i \<le> sourceSize env" for i
    using that by (simp add: SearchNormalInit_def del: replicate_Suc)
  obtain st b where st: "AddPrune (state_compare env) (stack_cfg env) (seed env) HypothesisStackInit = Some (st, b)"
    "good_stack st" "m_hypos st \<noteq> []"
    using AddPrune_good [OF init good_seed] by blast
  have "length (m_hypoStackColl (SearchNormalInit env)) = sourceSize env + 1" by (simp add: SearchNormalInit_def)
  then have "good_search ((SearchNormalInit env)\<lparr>m_hypoStackColl := (m_hypoStackColl (SearchNormalInit env))[0 := st], m_hypoId := 1\<rparr>)"
    using st(2) init nth by (simp add: good_search_def nth_list_update)
  then show ?thesis using st nth [of 0] by simp
qed

lemma ProcessSentence_good:
  "\<exists>s. ProcessSentence env = Some s \<and> good_search s \<and>
     (interrupted_flag s \<longrightarrow> (\<exists>i \<le> sourceSize env. out_of_time env i)) \<and>
     (SearchGetBestHypothesis s = None \<longrightarrow> out_of_time env 0)"
proof -
  let ?init = "SearchNormalInit env"
  obtain st b where st: "AddPrune (state_compare env) (stack_cfg env) (seed env) (m_hypoStackColl ?init ! 0) = Some (st, b)"
    "good_search (?init\<lparr>m_hypoStackColl := (m_hypoStackColl ?init)[0 := st], m_hypoId := 1\<rparr>)"
    using start_good by blast
  let ?s = "?init\<lparr>m_hypoStackColl := (m_hypoStackColl ?init)[0 := st], m_hypoId := 1\<rparr>"
  have idle: "\<not> interrupted_flag ?s" by (simp add: SearchNormalInit_def)
  have hd: "hd [0..<sourceSize env + 1] = 0" by (simp add: upt_conv_Cons del: upt_Suc)
  obtain s where s: "process_stacks env [0..<sourceSize env + 1] ?s = Some s" "good_search s"
    "interrupted_flag s \<longrightarrow> interrupted_flag ?s \<or> (\<exists>i \<in> set [0..<sourceSize env + 1]. out_of_time env i)"
    "interrupted_flag s \<longrightarrow> actual_hypoStack s = None \<longrightarrow>
      interrupted_flag ?s \<or> (actual_hypoStack ?s = None \<and> out_of_time env (hd [0..<sourceSize env + 1]))"
    using process_stacks_good [OF st(2), of "[0..<sourceSize env + 1]"] by (elim meta_impE exE conjE) (simp_all del: upt_Suc)
  have "ProcessSentence env = Some s" using st(1) s(1) by (simp add: ProcessSentence_def Let_def del: upt_Suc)
  moreover have "SearchGetBestHypothesis s = None \<longrightarrow> out_of_time env 0"
    using s(4) idle unfolding hd by (auto simp: SearchGetBestHypothesis_def)
  moreover have "interrupted_flag s \<longrightarrow> (\<exists>i \<le> sourceSize env. out_of_time env i)"
    using s(3) idle by (metis Suc_eq_plus1 atLeastLessThan_iff less_Suc_eq_le set_upt)
  ultimately show ?thesis using s(2) by (intro exI [of _ s] conjI)
qed

lemma good_search_states:
  assumes "good_search s" "st \<in> set (m_hypoStackColl s)" "h \<in> set (m_hypos st)" "i < length (stateful (features env))"
  shows "\<exists>x. m_ffStates (core h) ! i = Some x \<and> st_ok i x"
proof -
  obtain k where "k \<le> sourceSize env" "st = m_hypoStackColl s ! k"
    using assms(1,2) by (auto simp: good_search_def in_set_conv_nth less_Suc_eq_le)
  then have "good_stack st" using assms(1) by (simp add: good_search_def)
  then have "good h" using assms(3) by (simp add: good_stack_def)
  then have "ok_hypo nf h" "m_ffStates (core h) ! i \<noteq> None" using assms(4) by (simp_all add: good_def nf_def)
  then show ?thesis using assms(4) by (auto simp: hypo_ok_def nf_def)
qed

end

text \<open>A search whose hypotheses can always translate the word at their first gap.\<close>

locale gap_filling = decoding st_ok env
  for st_ok :: "nat \<Rightarrow> 'st \<Rightarrow> bool" and env :: "'st search_env" +
  assumes patient: "\<not> out_of_time env i"
    and gap_step: "produced env h \<Longrightarrow> good h \<Longrightarrow> BitmapNumWordsCovered (coverage h) < sourceSize env \<Longrightarrow>
      expands_to h (BitmapNumWordsCovered (coverage h) + 1)"
begin

lemma process_rest:
  assumes "good_search s" "search_inv env s" "ind \<in> filled s"
  shows "\<exists>s'. process_stacks env [ind..<sourceSize env + 1] s = Some s' \<and> good_search s' \<and> sourceSize env \<in> filled s' \<and>
     interrupted_flag s' = interrupted_flag s"
  using assms
proof (induction "sourceSize env - ind" arbitrary: ind s)
  case 0
  then have ind: "ind = sourceSize env" by (simp add: filled_def)
  obtain s1 where "process_stack env ind s = Some s1" "good_search s1" "filled s \<subseteq> filled s1"
    "interrupted_flag s1 = interrupted_flag s"
    using process_stack_good [of s ind "\<lambda>h. True"] 0 ind by (auto simp: arc_closed_def)
  then show ?case using 0 patient by (auto simp: ind)
next
  case (Suc d)
  then have ind: "ind < sourceSize env" by simp
  let ?Q = "\<lambda>h. produced env h \<and> BitmapNumWordsCovered (coverage h) = ind"
  have Q: "\<forall>h \<in> set (m_hypos (m_hypoStackColl s ! ind)). ?Q h"
    using search_inv_stack [OF Suc.prems(2) less_imp_le [OF ind]] by simp
  obtain s1 where s1: "process_stack env ind s = Some s1" "good_search s1" "interrupted_flag s1 = interrupted_flag s"
    "\<exists>h. ?Q h \<and> good h \<and> (\<forall>i. expands_to h i \<longrightarrow> i \<in> filled s1)"
    using process_stack_good [OF Suc.prems(1) less_imp_le [OF ind] stack_pred_closed Q] Suc.prems(3) by (elim exE conjE) simp
  then have "ind + 1 \<in> filled s1" using gap_step ind by blast
  moreover have "search_inv env s1"
    using process_stack_inv [OF s1(1) Suc.prems(2)] Suc.prems(1) ind by (simp add: good_search_def)
  ultimately obtain s2 where s2: "process_stacks env [ind + 1..<sourceSize env + 1] s1 = Some s2" "good_search s2"
    "sourceSize env \<in> filled s2" "interrupted_flag s2 = interrupted_flag s1"
    using Suc.hyps(1) [of "ind + 1" s1, OF _ s1(2)] Suc.hyps(2) by (elim meta_impE exE conjE) (simp_all del: upt_Suc)
  have "[ind..<sourceSize env + 1] = ind # [ind + 1..<sourceSize env + 1]" using ind by (simp add: upt_conv_Cons del: upt_Suc)
  then show ?case using s1 s2 patient by simp
qed

lemma finds_translation:
  "\<exists>s h. ProcessSentence env = Some s \<and> \<not> interrupted_flag s \<and> SearchGetBestHypothesis s = Some (Some h)"
proof -
  let ?init = "SearchNormalInit env"
  obtain st b where st: "AddPrune (state_compare env) (stack_cfg env) (seed env) (m_hypoStackColl ?init ! 0) = Some (st, b)"
    "good_search (?init\<lparr>m_hypoStackColl := (m_hypoStackColl ?init)[0 := st], m_hypoId := 1\<rparr>)" "m_hypos st \<noteq> []"
    using start_good by blast
  let ?s = "?init\<lparr>m_hypoStackColl := (m_hypoStackColl ?init)[0 := st], m_hypoId := 1\<rparr>"
  have "search_inv env ?s" by (rule start_inv [OF st(1) empty_start [OF env(1)]])
  moreover have "0 \<in> filled ?s" using st(3) by (simp add: filled_def SearchNormalInit_def)
  ultimately obtain s where s: "process_stacks env [0..<sourceSize env + 1] ?s = Some s" "good_search s"
    "sourceSize env \<in> filled s" "interrupted_flag s = interrupted_flag ?s"
    using process_rest [OF st(2)] by blast
  let ?last = "m_hypoStackColl s ! (length (m_hypoStackColl s) - 1)"
  have "tracks_best ?last \<and> m_hypos ?last \<noteq> []"
    using s(2,3) by (simp add: good_search_def good_stack_def filled_def)
  then obtain h where "StackGetBestHypothesis ?last = Some h" using StackGetBest_tracks by blast
  moreover have "\<not> interrupted_flag s" using s(4) by (simp add: SearchNormalInit_def)
  moreover have "ProcessSentence env = Some s" using st(1) s(1) by (simp add: ProcessSentence_def Let_def del: upt_Suc)
  ultimately show ?thesis by (simp add: SearchGetBestHypothesis_def)
qed

end


section \<open>The word at the first gap\<close>

text \<open>
  A plain sentence: the distances are those of \<open>InputType\<close>, no walls or zones are set, and every
  word has a translation of its own.
\<close>

definition plain_env :: "'st search_env \<Rightarrow> bool" where
  "plain_env env \<longleftrightarrow> distortionDistance env = ComputeDistortionDistance \<and> \<not> isWordLattice env \<and>
     \<not> m_active (reorderingConstraint env) \<and> 0 < maxPhraseLength env \<and> 0 < sourceSize env \<and>
     (\<forall>i < sourceSize env. options env (WordsRange i i) \<noteq> [])"

text \<open>
  The jump back: whatever is translated beyond the first gap ends within the distortion limit of it,
  and so does the last phrase.
\<close>

definition can_return :: "'st search_env \<Rightarrow> 'st hypothesis \<Rightarrow> bool" where
  "can_return env h \<longleftrightarrow>
     (\<forall>p \<in> covered (coverage h). first_gap (coverage h) \<le> p \<longrightarrow>
        int p + 1 - int (first_gap (coverage h)) \<le> maxDistortion (stack_cfg env)) \<and>
     (m_currSourceWordsRange (core h) = WordsRange NOT_FOUND NOT_FOUND \<and> first_gap (coverage h) = 0 \<or>
      (\<exists>s e. m_currSourceWordsRange (core h) = WordsRange s e \<and> s \<le> e \<and> e < sourceSize env \<and>
        \<bar>int e + 1 - int (first_gap (coverage h))\<bar> \<le> maxDistortion (stack_cfg env)))"

lemma distance_from_phrase:
  assumes "s \<le> e" "e < 2 ^ 31" "g < 2 ^ 31"
  shows "ComputeDistortionDistance (WordsRange s e) (WordsRange g x) = \<bar>int e + 1 - int g\<bar>"
proof -
  have "RangeNumWordsCovered (WordsRange s e) \<noteq> 0"
    using assms by (simp add: RangeNumWordsCovered_def NOT_FOUND_def sz_simps size_bound_def)
  then show ?thesis using assms by (simp add: ComputeDistortionDistance_def to_int32_small Let_def)
qed

lemma can_return_step:
  assumes limit: "0 \<le> d"
    and gap: "g \<notin> C" "{..<g} \<subseteq> C" and gap': "g' \<notin> C \<union> {s..e}" "{..<g'} \<subseteq> C \<union> {s..e}"
    and new: "s \<le> e" "{s..e} \<inter> C = {}"
    and home: "s = g \<or> \<bar>int e + 1 - int g\<bar> \<le> d"
    and IH: "\<forall>p \<in> C. g \<le> p \<longrightarrow> int p + 1 - int g \<le> d"
  shows "(\<forall>p \<in> C \<union> {s..e}. g' \<le> p \<longrightarrow> int p + 1 - int g' \<le> d) \<and> \<bar>int e + 1 - int g'\<bar> \<le> d"
proof -
  have sg: "g \<le> s"
  proof (rule ccontr)
    assume "\<not> g \<le> s"
    then have "s \<in> C" using gap(2) by auto
    then show False using new by auto
  qed
  show ?thesis
  proof (cases "s = g")
    case True
    have "{..e} \<subseteq> C \<union> {s..e}" using True gap(2) by (auto simp: subset_iff)
    then have ge: "e < g'" using gap'(1) by (meson atMost_iff not_le subsetD)
    have far: "int p + 1 - int g' \<le> d" if "p \<in> C \<union> {s..e}" "g' \<le> p" for p
    proof -
      have "p \<in> C" "g \<le> p" using that ge True new(1) by auto
      then have "int p + 1 - int g \<le> d" using IH by blast
      then show ?thesis using ge True new(1) by linarith
    qed
    moreover have "\<bar>int e + 1 - int g'\<bar> \<le> d"
    proof (cases "g' = e + 1")
      case False
      then have "e < g' - 1" "g' - 1 < g'" using ge by simp_all
      then have "g' - 1 \<in> C \<union> {s..e}" "e < g' - 1" using gap'(2) by blast+
      then have "g' - 1 \<in> C" "g \<le> g' - 1" using True new(1) by auto
      then have "int (g' - 1) + 1 - int g \<le> d" using IH by blast
      then show ?thesis using ge True new(1) by linarith
    qed (use limit in simp)
    ultimately show ?thesis by blast
  next
    case False
    then have "g \<notin> C \<union> {s..e}" "{..<g} \<subseteq> C \<union> {s..e}" using gap sg by auto
    then have "g' = g" using gap' by (meson UnCI lessThan_iff linorder_neqE_nat subsetD)
    then show ?thesis using False home IH new(1) sg by fastforce
  qed
qed


lemma produced_can_return:
  assumes "produced env h" "env_ok env" "plain_env env" "0 \<le> maxDistortion (stack_cfg env)"
  shows "can_return env h"
  using assms(1)
proof (induction rule: produced.induct)
  case seed
  have n: "sourceSize env < 2 ^ 31" "initialCoverage env = []" using assms(2) by (simp_all add: env_ok_def)
  have cov: "coverage (Search_Normal.seed env) = BitmapInit (sourceSize env)" by (rule seed_coverage [OF assms(2)])
  have "first_gap (coverage (Search_Normal.seed env)) = 0"
    unfolding cov by (rule first_gap_unique) (use n in simp_all)
  moreover have "m_currSourceWordsRange (core (Search_Normal.seed env)) = WordsRange NOT_FOUND NOT_FOUND"
  proof -
    have "GetFirstGapPos (coverage (Search_Normal.seed env)) = 0"
      using calculation cov assms(3) by (simp add: first_gap_def plain_env_def split: if_splits)
    then have "GetFirstGapPos (BitmapInitVector (sourceSize env) (initialCoverage env)) = 0" by (simp only: seed_facts)
    then show ?thesis by (simp add: seed_def HypothesisInit_def Let_def)
  qed
  ultimately show ?case using cov by (simp add: can_return_def)
next
  case (expand p s e t i h h')
  note ext = Create_extends [OF expand.hyps(4,5)]
  have n: "sourceSize env < 2 ^ 31" using assms(2) by (simp add: env_ok_def)
  have der: "derivable (maxDistortion (stack_cfg env)) (reorderingConstraint env) (sourceSize env) (coverage p)"
    using produced_coverage [OF expand.hyps(1) assms(2)] by blast
  have wf: "wf_bitmap (coverage p)" "m_size (coverage p) = sourceSize env" using derivable_wf [OF der n] by simp_all
  note step = expand_extend [OF assms(2) wf(2) expand.hyps(2,3) ext]
  note props = extend_props [OF step(1) wf(1)]
  let ?g = "first_gap (coverage p)" and ?g' = "first_gap (coverage h')"
  have "?g = GetFirstGapPos (coverage p)"
  proof (rule FirstGap_cases [OF wf(1)])
    assume "covered (coverage p) = {..<m_size (coverage p)}"
    then show ?thesis using props(1,2,3) by auto
  qed (use wf_size_less [OF wf(1)] in \<open>auto simp: first_gap_def\<close>)
  moreover have "?g \<le> sourceSize env" using first_gap_props(1) [OF wf(1)] wf(2) by simp
  ultimately have home: "s = ?g \<or> \<bar>int e + 1 - int ?g\<bar> \<le> maxDistortion (stack_cfg env)"
    using expansion_span_distance(2) [OF expand.hyps(2) assms(4)] distance_from_phrase [of s e ?g ?g] props(1,2) wf(2) n assms(3)
    by (auto simp: plain_env_def)
  note g = first_gap_props(2,3) [OF wf(1)]
  note g' = first_gap_props(2,3) [OF props(5)]
  have IH: "\<forall>q \<in> covered (coverage p). ?g \<le> q \<longrightarrow> int q + 1 - int ?g \<le> maxDistortion (stack_cfg env)"
    using expand.IH by (simp add: can_return_def)
  from can_return_step [OF assms(4) g g' [unfolded props(7)] props(1,3) home IH] step(2) props(1,2,7) wf(2)
  show ?case unfolding can_return_def by auto
next
  case (arcs g h)
  then show ?case using same_but_arcs_core(1,2) [OF arcs.hyps(2)] by (simp add: can_return_def)
qed


lemma first_gap_expansion:
  assumes "produced env h" "env_ok env" "plain_env env" "BitmapNumWordsCovered (coverage h) < sourceSize env"
  shows "(first_gap (coverage h), first_gap (coverage h)) \<in> set (expansion_spans env h)"
proof -
  let ?g = "first_gap (coverage h)"
  have n: "sourceSize env < 2 ^ 31" using assms(2) by (simp add: env_ok_def)
  have der: "derivable (maxDistortion (stack_cfg env)) (reorderingConstraint env) (sourceSize env) (coverage h)"
    using produced_coverage [OF assms(1,2)] by blast
  have wf: "wf_bitmap (coverage h)" "m_size (coverage h) = sourceSize env" using derivable_wf [OF der n] by simp_all
  note props = first_gap_props [OF wf(1)]
  have "?g \<noteq> sourceSize env"
  proof
    assume "?g = sourceSize env"
    then have "{..<sourceSize env} \<subseteq> covered (coverage h)" using props(3) by simp
    then have "card {..<sourceSize env} \<le> card (covered (coverage h))" by (intro card_mono) simp_all
    then show False using assms(4) by (simp add: NumWordsCovered_eq)
  qed
  then have less: "?g < sourceSize env" using props(1) wf(2) by simp
  then have gap: "GetFirstGapPos (coverage h) = ?g" using wf(2) by (auto simp: first_gap_def split: if_splits)
  have pos: "positions (WordsRange ?g ?g) = {?g}" by (auto simp: positions_def)
  have checks: "basic_checks env (coverage h) ?g ?g"
    using assms(3) less wf(2) props(2) BitmapOverlap_iff [of "WordsRange ?g ?g" "coverage h"]
    by (simp add: basic_checks_def plain_env_def Check_def pos)
  have size: "?g < ?g + max_size env ?g" using assms(3) less by (simp add: max_size_def plain_env_def Let_def)
  then have mem: "(?g, ?g) \<in> set (map (Pair ?g) [?g..<?g + max_size env ?g])" by auto
  show ?thesis
  proof (cases "maxDistortion (stack_cfg env) < 0")
    case True
    then show ?thesis using mem less gap checks by (auto simp: expansion_spans_def Let_def)
  next
    case False
    have "start_allowed env h ?g"
    proof -
      have "\<not> GetValue (coverage h) ?g" using GetValue_covered [of ?g "coverage h"] less wf(2) props(2) by simp
      moreover have "ComputeDistortionDistance (m_currSourceWordsRange (core h)) (WordsRange ?g ?g) \<le> maxDistortion (stack_cfg env)"
        using produced_can_return [OF assms(1-3)] False distance_from_phrase [of _ _ ?g ?g] less n
        by (fastforce simp: can_return_def ComputeDistortionDistance_def RangeNumWordsCovered_def to_int32_def)
      ultimately show ?thesis using assms(3) by (simp add: start_allowed_def plain_env_def Let_def)
    qed
    moreover have "end_allowed env h ?g ?g"
      using checks gap assms(3) by (simp add: end_allowed_def plain_env_def Let_def)
    ultimately show ?thesis using False mem less gap by (auto simp: expansion_spans_def Let_def)
  qed
qed


section \<open>The features of the decoder\<close>

definition decoder_env ::
    "score_index_manager \<Rightarrow> nat \<Rightarrow> nat \<Rightarrow> nat \<Rightarrow> (nat \<times> lr_config) list \<Rightarrow> ff_state search_env \<Rightarrow> bool" where
  "decoder_env sim front distortion penalty models env \<longleftrightarrow>
     features env = decoder_features sim (distortionDistance env) front (sourceSize env) distortion penalty models \<and>
     state_compare env = FFStateCompare \<and>
     has_block sim distortion 1 (length (allWeights env)) \<and> has_block sim penalty 1 (length (allWeights env)) \<and>
     (\<forall>(sp, cfg) \<in> set models. m_modelType cfg \<noteq> NoModel \<and>
        has_block sim sp (GetNumScoreComponents cfg) (length (allWeights env)))"

text \<open>The reordering scores an option was given are as many as a reordering table keeps for a phrase pair.\<close>

definition cached_scores_ok :: "(nat \<times> lr_config) list \<Rightarrow> ff_state search_env \<Rightarrow> bool" where
  "cached_scores_ok models env \<longleftrightarrow>
     (\<forall>r. \<forall>t \<in> set (options env r). \<forall>(sp, cfg) \<in> set models. cached_ok cfg (to_cachedScores t sp))"

text \<open>The settings: no diversity, no early discarding, a beam, finite estimates, and a score per feature.\<close>

definition search_settings_ok :: "'st search_env \<Rightarrow> bool" where
  "search_settings_ok env \<longleftrightarrow> env_ok env \<and> stack_config_ok (stack_cfg env) \<and> m_minHypoStackDiversity (stack_cfg env) = 0 \<and>
     \<not> useEarlyDiscarding env \<and> finite_costs (sourceSize env) (futureScores env) \<and>
     (\<forall>r. \<forall>t \<in> set (options env r). length (to_scoreBreakdown t) = length (allWeights env))"

definition decoder_state_ok :: "nat \<Rightarrow> (nat \<times> lr_config) list \<Rightarrow> nat \<Rightarrow> ff_state \<Rightarrow> bool" where
  "decoder_state_ok n models i s \<longleftrightarrow>
     (case s of
        DistortionState_traditional r g \<Rightarrow> i = 0
      | ReorderingState t \<Rightarrow> 0 < i \<and> i \<le> length models \<and> wf_state (snd (models ! (i - 1))) t \<and>
          same_shape (CreateLexicalReorderingState (snd (models ! (i - 1))) n) t)"

lemma decoder_state_order: "three_way (decoder_state_ok n models i) FFStateCompare"
proof -
  let ?shapes = "map (\<lambda>m. CreateLexicalReorderingState (snd m) n) models"
  have "ff_ok ?shapes i s" if "decoder_state_ok n models i s" for s
    using that by (auto simp: decoder_state_ok_def ff_ok_def split: ff_state.splits)
  then show ?thesis by (rule three_way_subset [OF decoder_states.state_order])
qed

lemma same_shape_refl [simp]: "same_shape s s"
  by (induction s) simp_all

lemma base_next_fields [simp]:
  "m_configuration (base_next st topt) = m_configuration st" "m_direction (base_next st topt) = m_direction st"
  "m_offset (base_next st topt) = m_offset st"
  by (simp_all add: base_next_def)

lemma Expand_shape: "Expand s topt xs = Some (s', ys) \<Longrightarrow> same_shape s0 s \<Longrightarrow> same_shape s0 s'"
proof (induction s arbitrary: s0 xs s' ys)
  case (PhraseBasedReorderingState st r f)
  then show ?case by (cases s0) (auto simp: Let_def split: if_splits)
next
  case (BidirectionalReorderingState st b f)
  from BidirectionalReorderingState.prems(1) obtain b' f' zs st' where e: "Expand b topt xs = Some (b', zs)"
    "Expand f topt zs = Some (f', ys)" "s' = BidirectionalReorderingState st' b' f'"
    by (auto split: option.splits)
  from BidirectionalReorderingState.prems(2) obtain st0 b0 f0 where s0: "s0 = BidirectionalReorderingState st0 b0 f0"
    "same_shape b0 b" "same_shape f0 f" by (cases s0) auto
  show ?case
    using BidirectionalReorderingState.IH(1) [OF e(1) s0(2)] BidirectionalReorderingState.IH(2) [OF e(2) s0(3)]
    by (simp add: e(3) s0(1))
next
  case (HierarchicalReorderingBackwardState st s)
  then show ?case by (cases s0) (auto split: prod.splits)
next
  case (HierarchicalReorderingForwardState st f r c)
  then show ?case by (cases s0) (auto simp: Let_def split: if_splits)
qed

lemma distortion_step:
  assumes "has_block sim distortion 1 (length b)" "m_prevHypo h = Some p" "decoder_state_ok n models 0 x"
  shows "\<exists>y b'. DistortionEvaluate sim distortion distance h (Some x) b = Some (Some y, b') \<and>
     decoder_state_ok n models 0 y \<and> length b' = length b"
proof -
  obtain r g where x: "x = DistortionState_traditional r g"
    using assms(3) by (auto simp: decoder_state_ok_def split: ff_state.splits)
  obtain b' where "PlusEqualsProducer sim distortion [CalculateDistortionScore distance r (m_currSourceWordsRange (core h))] b = Some b'"
    "length b' = length b"
    using PlusEqualsProducer_block [of sim distortion "[CalculateDistortionScore distance r (m_currSourceWordsRange (core h))]" b] assms(1)
    by auto
  then show ?thesis using assms(2) x by (simp add: DistortionEvaluate_def decoder_state_ok_def)
qed

lemma reordering_step:
  assumes "i < length models" "models ! i = (sp, cfg)" "m_modelType cfg \<noteq> NoModel"
    and "has_block sim sp (GetNumScoreComponents cfg) (length b)" "cached_ok cfg (to_cachedScores t sp)"
    and "m_transOpt (core h) = Some t" "decoder_state_ok n models (Suc i) x"
  shows "\<exists>y b'. LexicalReorderingEvaluate sim sp cfg h (Some x) b = Some (Some y, b') \<and>
     decoder_state_ok n models (Suc i) y \<and> length b' = length b"
proof -
  obtain s where x: "x = ReorderingState s" and s: "wf_state cfg s" "same_shape (CreateLexicalReorderingState cfg n) s"
    using assms(2,7) by (auto simp: decoder_state_ok_def split: ff_state.splits)
  let ?topt = "\<lparr>GetSourceWordsRange = to_range t, GetCachedScores = to_cachedScores t sp\<rparr>"
  obtain s' xs where s': "Evaluate cfg s ?topt = Some (s', xs)" "wf_state cfg s'" "length xs = GetNumScoreComponents cfg"
    using Evaluate_wf [OF s(1) assms(3), of ?topt] assms(5) by auto
  have "same_shape (CreateLexicalReorderingState cfg n) s'"
    using Expand_shape s'(1) s(2) unfolding Evaluate_def by blast
  moreover obtain b' where "PlusEqualsProducer sim sp xs b = Some b'" "length b' = length b"
    using PlusEqualsProducer_block [of sim sp xs b] assms(4) s'(3) by auto
  ultimately show ?thesis using x s' assms(1,2,6) by (simp add: LexicalReorderingEvaluate_def decoder_state_ok_def)
qed

lemma decoder_decoding:
  assumes "decoder_env sim front distortion penalty models env" "search_settings_ok env" "cached_scores_ok models env"
  shows "decoding (decoder_state_ok (sourceSize env) models) env"
proof -
  note d = assms(1) [unfolded decoder_env_def]
  have ff: "features env = decoder_features sim (distortionDistance env) front (sourceSize env) distortion penalty models"
    and cmp: "state_compare env = FFStateCompare" using d by blast+
  have len: "length (stateful (features env)) = Suc (length models)" by (simp add: ff decoder_features_def)
  show ?thesis
  proof (intro decoding.intro feature_states.intro decoding_axioms.intro)
    show "three_way (decoder_state_ok (sourceSize env) models i) (state_compare env)" for i
      unfolding cmp by (rule decoder_state_order)
    show "\<exists>b'. sf tp b = Some b' \<and> length b' = length b"
      if "sf \<in> set (stateless (features env))" "length b = length (allWeights env)" for sf tp b
    proof -
      have "sf = WordPenaltyEvaluate sim penalty" using that(1) by (simp add: ff decoder_features_def)
      moreover have "has_block sim penalty 1 (length b)" using d that(2) by simp
      ultimately show ?thesis using PlusEqualsProducer_block [of sim penalty "[- of_nat (length tp)]" b]
        by (simp add: WordPenaltyEvaluate_def)
    qed
    show "\<exists>x. empty_states (features env) ! i = Some x \<and> decoder_state_ok (sourceSize env) models i x"
      if "i < length (stateful (features env))" for i
      using that len
      by (cases i) (auto simp: ff decoder_features_def DistortionEmptyState_def LexicalReorderingEmptyState_def
          decoder_state_ok_def Create_wf split: prod.splits)
    show "\<exists>y b'. (stateful (features env) ! i) h (Some x) b = Some (Some y, b') \<and>
        decoder_state_ok (sourceSize env) models i y \<and> length b' = length b"
      if i: "i < length (stateful (features env))" and h: "m_prevHypo h = Some p" "m_transOpt (core h) = Some t"
        and t: "t \<in> set (options env r)" and x: "decoder_state_ok (sourceSize env) models i x"
        and b: "length b = length (allWeights env)" for i h p t r x b
    proof (cases i)
      case 0
      then show ?thesis using distortion_step [of sim distortion b h p] d h(1) x b by (simp add: ff decoder_features_def)
    next
      case (Suc j)
      obtain sp cfg where m: "models ! j = (sp, cfg)" by force
      have j: "j < length models" using i len Suc by simp
      then have "(sp, cfg) \<in> set models" using m nth_mem [of j models] by simp
      then have "m_modelType cfg \<noteq> NoModel" "has_block sim sp (GetNumScoreComponents cfg) (length b)"
          "cached_ok cfg (to_cachedScores t sp)"
        using d b t assms(3) unfolding cached_scores_ok_def by (fastforce split: prod.splits)+
      from reordering_step [OF j m this h(2)] x Suc j m show ?thesis by (simp add: ff decoder_features_def)
    qed
  qed (use assms(2) in \<open>simp_all add: search_settings_ok_def ff decoder_features_def\<close>)
qed


section \<open>Properties\<close>


lemma search_finds_complete:
  assumes "decoder_env sim front distortion penalty models env" and "search_settings_ok env"
    and "cached_scores_ok models env" and "plain_env env" and "constraintPhrase env = None" and "\<forall>i. \<not> out_of_time env i"
  shows "\<exists>s h. ProcessSentence env = Some s \<and> SearchGetBestHypothesis s = Some (Some h) \<and> IsComplete (coverage h)"
proof -
  note dec = decoder_decoding [OF assms(1-3)]
  have ok: "env_ok env" using assms(2) by (simp add: search_settings_ok_def)
  have "gap_filling (decoder_state_ok (sourceSize env) models) env"
  proof (intro gap_filling.intro gap_filling_axioms.intro dec)
    fix h assume "produced env h" "BitmapNumWordsCovered (coverage h) < sourceSize env"
    from first_gap_expansion [OF this(1) ok assms(4) this(2)]
    show "decoding.expands_to env h (BitmapNumWordsCovered (coverage h) + 1)"
      unfolding decoding.expands_to_def [OF dec] using assms(5) by fastforce
  qed (use assms(6) in blast)
  from gap_filling.finds_translation [OF this] obtain s h where
    s: "ProcessSentence env = Some s" "\<not> interrupted_flag s" "SearchGetBestHypothesis s = Some (Some h)" by blast
  have "search_inv env s" by (rule ProcessSentence_inv [OF s(1) empty_start [OF ok]])
  from SearchGetBest_in [OF s(3,2) this] have h: "produced env h" "BitmapNumWordsCovered (coverage h) = sourceSize env" by simp_all
  have "wf_bitmap (coverage h) \<and> m_size (coverage h) = sourceSize env"
    using derivable_wf [of _ _ "sourceSize env" "coverage h"] produced_coverage [OF h(1) ok] ok unfolding env_ok_def by blast
  then have "IsComplete (coverage h)" using h(2) by (simp add: IsComplete_def)
  then show ?thesis using s by blast
qed

text \<open>C3: The search finds a translation: when every word has a translation of its own, no wall or zone
  and no required output restricts the search and the time is not up, the search ends with a hypothesis that
  covers the whole sentence, whatever the distortion limit, the stack size and the beam are. The
  checks of the distance back to the first gap are what makes this so.
\<close>

theorem search_finds_translation:
  assumes "decoder_env sim front distortion penalty models env" and "search_settings_ok env"
    and "cached_scores_ok models env" and "plain_env env" and "constraintPhrase env = None" and "\<forall>i. \<not> out_of_time env i"
  shows "\<exists>s h. ProcessSentence env = Some s \<and> SearchGetBestHypothesis s = Some (Some h) \<and> IsComplete (coverage h)"
  using search_finds_complete [OF assms] .


section \<open>An instance\<close>

text \<open>A sentence of two words, each with one translation option, and a monotone reordering model.\<close>

definition plain_cfg :: lr_config where
  "plain_cfg = \<lparr>m_modelType = Monotonic, m_phraseBased = True, m_collapseScores = False, cfg_direction = Backward,
     m_condition = CondF\<rparr>"

definition plain_manager :: score_index_manager where
  "plain_manager = \<lparr>m_producers = [example_producer 1 0, example_producer 1 0, example_producer 2 0],
     m_begins = [0, 1, 2], m_ends = [1, 2, 4], m_last = 4\<rparr>"

definition word_option :: "nat \<Rightarrow> trans_opt" where
  "word_option i = \<lparr>to_range = WordsRange i i, to_targetPhrase = [sample_word], to_scoreBreakdown = [0, 0, 0, 0],
     to_futureScore = Fin (-1), to_cachedScores = (\<lambda>sp. Some [-1, -2])\<rparr>"

definition plain_sample :: "ff_state search_env" where
  "plain_sample = sample_env\<lparr>
     features := decoder_features plain_manager ComputeDistortionDistance 0 2 0 1 [(2, plain_cfg)],
     allWeights := [1, 1, 1, 1], reorderingConstraint := ReorderingConstraintInit, constraintPhrase := None,
     options := (\<lambda>r. if m_startPos r = m_endPos r then [word_option (m_startPos r)] else [])\<rparr>"

lemma plain_sample_decoder: "decoder_env plain_manager 0 0 1 [(2, plain_cfg)] plain_sample"
  by (simp add: decoder_env_def plain_sample_def plain_manager_def plain_cfg_def example_producer_def sample_env_def
      GetNumScoreComponents_def GetNumberOfTypes_def has_block_def GetBeginIndex_def numeral_2_eq_2)

lemma plain_sample_cached: "cached_scores_ok [(2, plain_cfg)] plain_sample"
  by (simp add: cached_scores_ok_def cached_ok_def table_scores_def plain_sample_def word_option_def plain_cfg_def
      GetNumberOfTypes_def)

lemma sample_costs: "finite_costs 2 (SquareMatrixInit 2 (replicate 4 0))"
proof -
  have "i * 2 + j < 4" if "j < 2" "i \<le> j" for i j :: nat using that by simp
  then show ?thesis
    by (simp add: finite_costs_def GetScore_def SquareMatrixInit_def zero_score_def)
qed

lemma plain_sample_settings: "search_settings_ok plain_sample"
proof -
  have "to_range (word_option (m_startPos r)) = r" if "m_startPos r = m_endPos r" for r
    using that by (cases r) (simp add: word_option_def)
  then show ?thesis
    using sample_costs
    by (auto simp: search_settings_ok_def plain_sample_def sample_env_def env_ok_def sample_config_def stack_config_ok_def
        word_option_def)
qed

lemma plain_sample_plain: "plain_env plain_sample"
  by (simp add: plain_env_def plain_sample_def sample_env_def ReorderingConstraintInit_def)

lemma plain_sample_free: "constraintPhrase plain_sample = None" "\<forall>i. \<not> out_of_time plain_sample i"
  by (simp_all add: plain_sample_def sample_env_def)

interpretation plain_decoding: decoding "decoder_state_ok (sourceSize plain_sample) [(2, plain_cfg)]" plain_sample
  by (rule decoder_decoding [OF plain_sample_decoder plain_sample_settings plain_sample_cached])

interpretation plain_filling: gap_filling "decoder_state_ok (sourceSize plain_sample) [(2, plain_cfg)]" plain_sample
proof
  show "\<not> out_of_time plain_sample i" for i using plain_sample_free(2) by blast
  have ok: "env_ok plain_sample" using plain_sample_settings by (simp add: search_settings_ok_def)
  fix h assume "produced plain_sample h" "BitmapNumWordsCovered (coverage h) < sourceSize plain_sample"
  from first_gap_expansion [OF this(1) ok plain_sample_plain this(2)]
  show "plain_decoding.expands_to h (BitmapNumWordsCovered (coverage h) + 1)"
    unfolding plain_decoding.expands_to_def using plain_sample_free(1) by fastforce
qed


lemma search_finds_translation_witness:
  "\<exists>s h. ProcessSentence plain_sample = Some s \<and> SearchGetBestHypothesis s = Some (Some h)"
  using search_finds_translation [OF plain_sample_decoder plain_sample_settings plain_sample_cached plain_sample_plain plain_sample_free] by blast


end
