(* ===== verification/Decode_Steps.thy ===== *)
theory Decode_Steps
  imports Hypotheses "HOL-Library.Multiset"
begin

text \<open>
  How translation options are made (\<open>TranslationOption.cpp\<close>, \<open>LMList.cpp\<close>,
  \<open>PartialTranslOptColl.cpp\<close>, \<open>DecodeStep.cpp\<close>, \<open>DecodeStepTranslation.cpp\<close>,
  \<open>DecodeStepGeneration.cpp\<close>): the scores of an option, the collection of partial options with its
  pruning, and the translation and generation steps that extend them. Phrase tables, generation
  tables and language models are arguments, as is \<open>std::nth_element\<close>, whose result the
  standard leaves open. \<open>None\<close> is a failed assertion.
\<close>

section \<open>Scores of a translation option\<close>

record language_model =
  lm_producer :: nat
  lm_weight :: rat
  lm_oovWeight :: rat
  lm_Useable :: "phrase \<Rightarrow> bool"
  lm_CalcScore :: "phrase \<Rightarrow> rat \<times> rat \<times> nat"

record translation_system =
  ts_scoreManager :: score_index_manager
  ts_allWeights :: "rat list"
  ts_lms :: "language_model list"
  ts_enableOOVFeature :: bool
  ts_weightWordPenalty :: rat

text \<open>The full score, the n-gram score and the score of unknown words, and the breakdown.\<close>

fun LMListCalcScore ::
    "translation_system \<Rightarrow> language_model list \<Rightarrow> phrase \<Rightarrow> rat \<times> rat \<times> rat \<Rightarrow> score_components \<Rightarrow>
     ((rat \<times> rat \<times> rat) \<times> score_components) option" where
  "LMListCalcScore ts [] phrase acc breakdown = Some (acc, breakdown)"
| "LMListCalcScore ts (lm # lms) phrase (full, ngram, oov) breakdown =
     (if \<not> lm_Useable lm phrase then LMListCalcScore ts lms phrase (full, ngram, oov) breakdown
      else let (fullScore, nGramScore, oovCount) = lm_CalcScore lm phrase
           in case AssignProducer (ts_scoreManager ts) (lm_producer lm)
                  (if ts_enableOOVFeature ts then [nGramScore, of_nat oovCount] else [nGramScore]) breakdown of
                None \<Rightarrow> None
              | Some breakdown \<Rightarrow>
                  LMListCalcScore ts lms phrase
                    (full + fullScore * lm_weight lm, ngram + nGramScore * lm_weight lm,
                     if ts_enableOOVFeature ts then oov + of_nat oovCount * lm_oovWeight lm else oov) breakdown)"

definition TOCalcScore :: "translation_system \<Rightarrow> trans_opt \<Rightarrow> trans_opt option" where
  "TOCalcScore ts topt =
     (case LMListCalcScore ts (ts_lms ts) (to_targetPhrase topt) (0, 0, 0) (to_scoreBreakdown topt) of
        None \<Rightarrow> None
      | Some ((full, ngram, oov), breakdown) \<Rightarrow>
          Some (topt\<lparr>to_scoreBreakdown := breakdown,
             to_futureScore := Fin (full - ngram + oov + InnerProduct breakdown (ts_allWeights ts)
               - of_nat (length (to_targetPhrase topt)) * ts_weightWordPenalty ts)\<rparr>))"

section \<open>Making and merging options\<close>

record target_phrase =
  tp_words :: phrase
  tp_scoreBreakdown :: score_components

text \<open>The constructor from a phrase table entry leaves \<open>m_futureScore\<close> open; \<open>CalcScore\<close> sets it.\<close>

definition TranslationOptionInit :: "nat \<Rightarrow> words_range \<Rightarrow> target_phrase \<Rightarrow> trans_opt option" where
  "TranslationOptionInit numScores wordsRange targetPhrase =
     map_option (\<lambda>breakdown. \<lparr>to_range = wordsRange, to_targetPhrase = tp_words targetPhrase,
         to_scoreBreakdown = breakdown, to_futureScore = 0, to_cachedScores = (\<lambda>sp. None)\<rparr>)
       (PlusEquals (replicate numScores 0) (tp_scoreBreakdown targetPhrase))"

definition MergeFactorsOne :: "nat \<Rightarrow> phrase \<Rightarrow> phrase \<Rightarrow> phrase option" where
  "MergeFactorsOne factorType p copy =
     (if length p \<noteq> length copy then None
      else Some (fold (\<lambda>pos p. PhraseSetFactor pos factorType (PhraseGetFactor copy pos factorType) p) [0..<length p] p))"

definition IsCompatibleOne :: "nat \<Rightarrow> phrase \<Rightarrow> phrase \<Rightarrow> bool" where
  "IsCompatibleOne factorType p inputPhrase =
     (if length inputPhrase \<noteq> length p then False
      else list_all (\<lambda>pos. PhraseGetFactor p pos factorType = PhraseGetFactor inputPhrase pos factorType) [0..<length p])"

definition MergeNewFeatures :: "phrase \<Rightarrow> score_components \<Rightarrow> nat list \<Rightarrow> trans_opt \<Rightarrow> trans_opt option" where
  "MergeNewFeatures phrase score featuresToAdd topt =
     (if length phrase \<noteq> length (to_targetPhrase topt) then None
      else case (case featuresToAdd of
                   [] \<Rightarrow> Some (to_targetPhrase topt)
                 | [f] \<Rightarrow> MergeFactorsOne f (to_targetPhrase topt) phrase
                 | fs \<Rightarrow> MergeFactorsVec fs (to_targetPhrase topt) phrase) of
             None \<Rightarrow> None
           | Some target \<Rightarrow>
               map_option (\<lambda>breakdown. topt\<lparr>to_targetPhrase := target, to_scoreBreakdown := breakdown\<rparr>)
                 (PlusEquals (to_scoreBreakdown topt) score))"

definition TOIsCompatible :: "phrase \<Rightarrow> nat list \<Rightarrow> trans_opt \<Rightarrow> bool" where
  "TOIsCompatible phrase featuresToCheck topt =
     (case featuresToCheck of
        [] \<Rightarrow> True
      | [f] \<Rightarrow> IsCompatibleOne f (to_targetPhrase topt) phrase
      | fs \<Rightarrow> IsCompatibleVec fs (to_targetPhrase topt) phrase)"

section \<open>Partial translation options\<close>

record partial_opts =
  pt_list :: "trans_opt list"
  pt_bestScore :: score
  pt_worstScore :: score
  pt_totalPruned :: nat

definition PartialTranslOptCollInit :: partial_opts where
  "PartialTranslOptCollInit = \<lparr>pt_list = [], pt_bestScore = MinusInf, pt_worstScore = MinusInf, pt_totalPruned = 0\<rparr>"

definition AddNoPrune :: "translation_system \<Rightarrow> trans_opt \<Rightarrow> partial_opts \<Rightarrow> partial_opts option" where
  "AddNoPrune ts topt c =
     (case TOCalcScore ts topt of
        None \<Rightarrow> None
      | Some topt \<Rightarrow>
          Some (if to_futureScore topt \<ge> pt_worstScore c
                then c\<lparr>pt_list := pt_list c @ [topt],
                       pt_bestScore := (if to_futureScore topt > pt_bestScore c then to_futureScore topt else pt_bestScore c)\<rparr>
                else c\<lparr>pt_totalPruned := pt_totalPruned c + 1\<rparr>))"

type_synonym nth_element = "nat \<Rightarrow> trans_opt list \<Rightarrow> trans_opt list"

definition PartialPrune :: "nth_element \<Rightarrow> nat \<Rightarrow> partial_opts \<Rightarrow> partial_opts" where
  "PartialPrune nth_elem maxSize c =
     (if length (pt_list c) \<le> maxSize then c
      else let l = nth_elem maxSize (pt_list c)
           in c\<lparr>pt_worstScore := to_futureScore (l ! sz_sub maxSize 1),
                pt_totalPruned := pt_totalPruned c + (length l - maxSize),
                pt_list := take maxSize l\<rparr>)"

definition PartialAdd :: "nth_element \<Rightarrow> nat \<Rightarrow> translation_system \<Rightarrow> trans_opt \<Rightarrow> partial_opts \<Rightarrow> partial_opts option" where
  "PartialAdd nth_elem maxSize ts topt c =
     map_option (\<lambda>c. if length (pt_list c) > 2 * maxSize then PartialPrune nth_elem maxSize c else c) (AddNoPrune ts topt c)"

section \<open>Decoding steps\<close>

record decode_step =
  m_outputFactors :: "nat \<Rightarrow> bool"
  m_conflictFactors :: "nat list"
  m_newOutputFactors :: "nat list"

text \<open>The factor masks: what the dictionary adds to the factors of the steps before.\<close>

definition DecodeStepInit :: "(nat \<Rightarrow> bool) \<Rightarrow> decode_step option \<Rightarrow> decode_step" where
  "DecodeStepInit outputFactorMask prev =
     (let prevOutputFactors = (case prev of None \<Rightarrow> (\<lambda>f. False) | Some p \<Rightarrow> m_outputFactors p);
          conflictMask = (\<lambda>f. prevOutputFactors f \<and> outputFactorMask f);
          outputFactors = (\<lambda>f. prevOutputFactors f \<or> outputFactorMask f);
          newOutputFactorMask = (\<lambda>f. outputFactors f \<noteq> prevOutputFactors f)
      in \<lparr>m_outputFactors = outputFactors, m_conflictFactors = filter conflictMask [0..<MAX_NUM_FACTORS],
          m_newOutputFactors = filter newOutputFactorMask [0..<MAX_NUM_FACTORS]\<rparr>)"

definition IsFilteringStep :: "decode_step \<Rightarrow> bool" where
  "IsFilteringStep ds \<longleftrightarrow> m_conflictFactors ds \<noteq> []"

definition MergeTranslation :: "decode_step \<Rightarrow> trans_opt \<Rightarrow> target_phrase \<Rightarrow> trans_opt created" where
  "MergeTranslation ds oldTO targetPhrase =
     (if IsFilteringStep ds \<and> \<not> TOIsCompatible (tp_words targetPhrase) (m_conflictFactors ds) oldTO then Null
      else case MergeNewFeatures (tp_words targetPhrase) (tp_scoreBreakdown targetPhrase) (m_newOutputFactors ds) oldTO of
             None \<Rightarrow> Failed | Some t \<Rightarrow> Created t)"

definition MergeGeneration :: "decode_step \<Rightarrow> trans_opt \<Rightarrow> phrase \<Rightarrow> score_components \<Rightarrow> trans_opt created" where
  "MergeGeneration ds oldTO mergePhrase generationScore =
     (if IsFilteringStep ds \<and> \<not> TOIsCompatible mergePhrase (m_conflictFactors ds) oldTO then Null
      else case MergeNewFeatures mergePhrase generationScore (m_newOutputFactors ds) oldTO of
             None \<Rightarrow> Failed | Some t \<Rightarrow> Created t)"

text \<open>Adding the options a loop has made, one after the other; a null option is skipped.\<close>

fun add_created ::
    "nth_element \<Rightarrow> nat \<Rightarrow> translation_system \<Rightarrow> trans_opt created list \<Rightarrow> partial_opts \<Rightarrow> partial_opts option" where
  "add_created nth_elem maxSize ts [] c = Some c"
| "add_created nth_elem maxSize ts (Failed # xs) c = None"
| "add_created nth_elem maxSize ts (Null # xs) c = add_created nth_elem maxSize ts xs c"
| "add_created nth_elem maxSize ts (Created t # xs) c =
     (case PartialAdd nth_elem maxSize ts t c of
        None \<Rightarrow> None
      | Some c \<Rightarrow> add_created nth_elem maxSize ts xs c)"

record phrase_dictionary =
  pd_tableLimit :: nat
  pd_GetTargetPhraseCollection :: "words_range \<Rightarrow> target_phrase list option"

definition limited :: "phrase_dictionary \<Rightarrow> bool \<Rightarrow> target_phrase list \<Rightarrow> target_phrase list" where
  "limited pd adhereTableLimit phraseColl =
     (if \<not> adhereTableLimit \<or> pd_tableLimit pd = 0 \<or> length phraseColl < pd_tableLimit pd then phraseColl
      else take (pd_tableLimit pd) phraseColl)"

definition ProcessInitialTranslation ::
    "nth_element \<Rightarrow> nat \<Rightarrow> translation_system \<Rightarrow> nat \<Rightarrow> phrase_dictionary \<Rightarrow> nat \<Rightarrow> nat \<Rightarrow> bool \<Rightarrow>
     partial_opts \<Rightarrow> partial_opts option" where
  "ProcessInitialTranslation nth_elem maxSize ts numScores pd startPos endPos adhereTableLimit c =
     (case pd_GetTargetPhraseCollection pd (WordsRange startPos endPos) of
        None \<Rightarrow> Some c
      | Some phraseColl \<Rightarrow>
          add_created nth_elem maxSize ts
            (map (\<lambda>tp. case TranslationOptionInit numScores (WordsRange startPos endPos) tp of
                         None \<Rightarrow> Failed | Some t \<Rightarrow> Created t)
              (limited pd adhereTableLimit phraseColl)) c)"

definition TranslationProcess ::
    "nth_element \<Rightarrow> nat \<Rightarrow> translation_system \<Rightarrow> phrase_dictionary \<Rightarrow> decode_step \<Rightarrow> trans_opt \<Rightarrow> bool \<Rightarrow>
     partial_opts \<Rightarrow> partial_opts option" where
  "TranslationProcess nth_elem maxSize ts pd ds inputOpt adhereTableLimit c =
     (if length (to_targetPhrase inputOpt) = 0 then PartialAdd nth_elem maxSize ts inputOpt c
      else case pd_GetTargetPhraseCollection pd (to_range inputOpt) of
             None \<Rightarrow> Some c
           | Some phraseColl \<Rightarrow>
               add_created nth_elem maxSize ts
                 (map (MergeTranslation ds inputOpt)
                   (filter (\<lambda>tp. length (tp_words tp) = length (to_targetPhrase inputOpt))
                     (limited pd adhereTableLimit phraseColl))) c)"

subsection \<open>Generation\<close>

text \<open>The position in the list of each word, least significant first.\<close>

fun IncrementIterators :: "nat list \<Rightarrow> nat list \<Rightarrow> nat list" where
  "IncrementIterators (n # ns) (i # is) = (if i + 1 \<noteq> n then (i + 1) # is else 0 # IncrementIterators ns is)"
| "IncrementIterators ns is = is"

fun iterator_states :: "nat \<Rightarrow> nat list \<Rightarrow> nat list \<Rightarrow> nat list list" where
  "iterator_states 0 ns is = []"
| "iterator_states (Suc numIteration) ns is = is # iterator_states numIteration ns (IncrementIterators ns is)"

definition num_iterations :: "nat list \<Rightarrow> nat" where
  "num_iterations ns = fold (\<lambda>n k. (k * n) mod size_bound) ns 1"

fun generation_score :: "score_components \<Rightarrow> score_components list \<Rightarrow> score_components option" where
  "generation_score acc [] = Some acc"
| "generation_score acc (s # ss) = (case PlusEquals acc s of None \<Rightarrow> None | Some acc \<Rightarrow> generation_score acc ss)"

definition generated_option ::
    "decode_step \<Rightarrow> nat \<Rightarrow> trans_opt \<Rightarrow> (word \<times> score_components) list list \<Rightarrow> nat list \<Rightarrow> trans_opt created" where
  "generated_option ds numScores inputOpt wordLists is =
     (let pairs = map2 (\<lambda>l i. l ! i) wordLists is
      in case generation_score (replicate numScores 0) (map snd pairs) of
           None \<Rightarrow> Failed
         | Some score \<Rightarrow> MergeGeneration ds inputOpt (map fst pairs) score)"

definition GenerationProcess ::
    "nth_element \<Rightarrow> nat \<Rightarrow> translation_system \<Rightarrow> nat \<Rightarrow> (word \<Rightarrow> (word \<times> score_components) list option) \<Rightarrow>
     decode_step \<Rightarrow> trans_opt \<Rightarrow> partial_opts \<Rightarrow> partial_opts option" where
  "GenerationProcess nth_elem maxSize ts numScores FindWord ds inputOpt c =
     (if length (to_targetPhrase inputOpt) = 0 then PartialAdd nth_elem maxSize ts inputOpt c
      else case those (map FindWord (to_targetPhrase inputOpt)) of
             None \<Rightarrow> Some c
           | Some wordLists \<Rightarrow>
               let sizes = map length wordLists
               in add_created nth_elem maxSize ts
                    (map (generated_option ds numScores inputOpt wordLists)
                      (iterator_states (num_iterations sizes) sizes (map (\<lambda>n. 0) sizes))) c)"

section \<open>Generation visits every combination\<close>

text \<open>A state of the iterators as a number in mixed radix, the least significant digit first.\<close>

fun radix_value :: "nat list \<Rightarrow> nat list \<Rightarrow> nat" where
  "radix_value (n # ns) (i # is) = i + n * radix_value ns is"
| "radix_value ns is = 0"

definition digits :: "nat list \<Rightarrow> nat list \<Rightarrow> bool" where
  "digits ns is \<longleftrightarrow> list_all2 (<) is ns"

lemma digits_simps [simp]:
  "digits [] is \<longleftrightarrow> is = []" "digits (n # ns) (i # is) \<longleftrightarrow> i < n \<and> digits ns is" "\<not> digits (n # ns) []"
  by (simp_all add: digits_def)

lemma digits_Cons: "digits (n # ns) is \<longleftrightarrow> (\<exists>i js. is = i # js \<and> i < n \<and> digits ns js)"
  by (cases "is") auto

lemma radix_less: "digits ns is \<Longrightarrow> radix_value ns is < prod_list ns"
proof (induction ns arbitrary: "is")
  case (Cons n ns)
  then obtain i js where d: "is = i # js" "i < n" "digits ns js" by (auto simp: digits_Cons)
  then have "radix_value ns js + 1 \<le> prod_list ns" using Cons.IH by fastforce
  then have "n * (radix_value ns js + 1) \<le> n * prod_list ns" by (rule mult_le_mono2)
  then show ?case using d by simp
qed simp

lemma radix_inj: "digits ns is \<Longrightarrow> digits ns js \<Longrightarrow> radix_value ns is = radix_value ns js \<Longrightarrow> is = js"
proof (induction ns arbitrary: "is" js)
  case (Cons n ns)
  then obtain i is' j js' where d: "is = i # is'" "i < n" "digits ns is'" "js = j # js'" "j < n" "digits ns js'"
    by (auto simp: digits_Cons)
  have eq: "i + n * radix_value ns is' = j + n * radix_value ns js'" using Cons.prems(3) d by simp
  have "(i + n * radix_value ns is') mod n = i" "(j + n * radix_value ns js') mod n = j" using d by simp_all
  then have "i = j" using eq by simp
  moreover from this have "radix_value ns is' = radix_value ns js'" using eq d(2) by simp
  ultimately show ?case using Cons.IH d by blast
qed simp

lemma Increment_step:
  "digits ns is \<Longrightarrow> digits ns (IncrementIterators ns is) \<and>
     radix_value ns (IncrementIterators ns is) = (radix_value ns is + 1) mod prod_list ns"
proof (induction ns arbitrary: "is")
  case (Cons n ns)
  then obtain i js where d: "is = i # js" "i < n" "digits ns js" by (auto simp: digits_Cons)
  show ?case
  proof (cases "i + 1 = n")
    case False
    have "radix_value (n # ns) ((i + 1) # js) < prod_list (n # ns)"
      by (rule radix_less) (use d False in simp)
    then show ?thesis using d False by simp
  next
    case True
    have IH: "digits ns (IncrementIterators ns js)"
      "radix_value ns (IncrementIterators ns js) = (radix_value ns js + 1) mod prod_list ns"
      using Cons.IH d(3) by simp_all
    have inc: "IncrementIterators (n # ns) is = 0 # IncrementIterators ns js" using d True by simp
    have "radix_value (n # ns) (0 # IncrementIterators ns js) = (n * (radix_value ns js + 1)) mod (n * prod_list ns)"
      by (simp add: IH(2) mult_mod_right)
    also have "n * (radix_value ns js + 1) = radix_value (n # ns) is + 1" using True d(1) by (simp only: radix_value.simps) simp
    finally show ?thesis using IH(1) d(2) unfolding inc by simp
  qed
qed simp

lemma iterator_states_values:
  "digits ns is \<Longrightarrow> (\<forall>js \<in> set (iterator_states k ns is). digits ns js) \<and>
     map (radix_value ns) (iterator_states k ns is) = map (\<lambda>j. (radix_value ns is + j) mod prod_list ns) [0..<k]"
proof (induction k arbitrary: "is")
  case (Suc k)
  note step = Increment_step [OF Suc.prems]
  have "map (\<lambda>j. (radix_value ns is + j) mod prod_list ns) [0..<Suc k] =
      radix_value ns is mod prod_list ns # map (\<lambda>j. (radix_value ns is + Suc j) mod prod_list ns) [0..<k]"
    by (simp only: upt_conv_Cons [OF zero_less_Suc] map_Suc_upt [symmetric]) simp
  then show ?case
    using Suc.IH [OF conjunct1 [OF step]] Suc.prems step radix_less [OF Suc.prems]
    by (simp add: mod_add_left_eq del: upt_Suc)
qed simp

lemma num_iterations_prod:
  assumes "prod_list ns < size_bound" "\<forall>n \<in> set ns. 0 < n"
  shows "num_iterations ns = prod_list ns"
proof -
  have "fold (\<lambda>n k. (k * n) mod size_bound) ns k = k * prod_list ns"
    if "k * prod_list ns < size_bound" "\<forall>n \<in> set ns. 0 < n" "0 < k" for k
    using that
  proof (induction ns arbitrary: k)
    case (Cons n ns)
    have "1 \<le> prod_list ns" using Cons.prems(2) by (induction ns) auto
    then have "k * n * 1 \<le> k * n * prod_list ns" by (rule mult_le_mono2)
    then have "k * n \<le> k * prod_list (n # ns)" by (simp add: mult.assoc)
    then have less: "k * n < size_bound" using Cons.prems(1) by (rule le_less_trans)
    then show ?case using Cons by (simp add: mult.assoc)
  qed simp
  from this [of 1] show ?thesis using assms by (simp add: num_iterations_def)
qed

text \<open>C31: The loop over the generation expansions visits every combination of one generated word per position
  exactly once, as long as their number fits into \<open>size_t\<close>.
\<close>

theorem generation_visits_every_combination:
  assumes "\<forall>n \<in> set sizes. 0 < n" and "prod_list sizes < size_bound"
  shows "distinct (iterator_states (num_iterations sizes) sizes (map (\<lambda>n. 0) sizes)) \<and>
    set (iterator_states (num_iterations sizes) sizes (map (\<lambda>n. 0) sizes)) = {is. list_all2 (<) is sizes}"
proof -
  let ?zero = "map (\<lambda>n. 0) sizes" and ?P = "prod_list sizes"
  let ?l = "iterator_states ?P sizes ?zero"
  have zero: "digits sizes ?zero" "radix_value sizes ?zero = 0"
    using assms(1) by (induction sizes) auto
  note vals = iterator_states_values [OF zero(1), of ?P]
  have "map (\<lambda>j. (0 + j) mod ?P) [0..<?P] = [0..<?P]" by (rule map_idI) simp
  then have map: "map (radix_value sizes) ?l = [0..<?P]" using vals zero(2) by simp
  then have "distinct ?l" using distinct_map [of "radix_value sizes" ?l] by simp
  moreover have "set ?l = {is. list_all2 (<) is sizes}"
  proof
    show "set ?l \<subseteq> {is. list_all2 (<) is sizes}" using vals by (auto simp: digits_def)
    show "{is. list_all2 (<) is sizes} \<subseteq> set ?l"
    proof
      fix "is" assume "is \<in> {is. list_all2 (<) is sizes}"
      then have d: "digits sizes is" by (simp add: digits_def)
      have "radix_value sizes is \<in> set (map (radix_value sizes) ?l)" unfolding map using radix_less [OF d] by simp
      then obtain js where "js \<in> set ?l" "radix_value sizes is = radix_value sizes js" by auto
      then show "is \<in> set ?l" using vals radix_inj [OF d] by blast
    qed
  qed
  ultimately show ?thesis using num_iterations_prod assms by simp
qed

lemma generation_visits_every_combination_witness:
  "distinct (iterator_states (num_iterations [2, 3]) [2, 3] [0, 0]) \<and>
    [1, 2] \<in> set (iterator_states (num_iterations [2, 3]) [2, 3] [0, 0])"
  using generation_visits_every_combination [of "[2, 3]"] by (simp add: size_bound_def)


section \<open>What a decoding step adds\<close>

definition copy_word :: "phrase \<Rightarrow> nat \<Rightarrow> nat list \<Rightarrow> phrase \<Rightarrow> phrase" where
  "copy_word copy pos fs p = fold (\<lambda>f p. PhraseSetFactor pos f (PhraseGetFactor copy pos f) p) fs p"

lemma copy_word_props:
  assumes "wf_phrase p" "pos < length p" "\<forall>f \<in> set fs. f < MAX_NUM_FACTORS"
  shows "wf_phrase (copy_word copy pos fs p) \<and> length (copy_word copy pos fs p) = length p \<and>
    (\<forall>pos' < length p. \<forall>f'. PhraseGetFactor (copy_word copy pos fs p) pos' f' =
       (if pos' = pos \<and> f' \<in> set fs then PhraseGetFactor copy pos f' else PhraseGetFactor p pos' f'))"
  using assms
proof (induction fs arbitrary: p)
  case Nil
  then show ?case by (simp add: copy_word_def)
next
  case (Cons f fs)
  let ?p = "PhraseSetFactor pos f (PhraseGetFactor copy pos f) p"
  have "copy_word copy pos (f # fs) p = copy_word copy pos fs ?p" by (simp add: copy_word_def)
  then show ?case using Cons.IH [of ?p] Cons.prems by (auto simp: PhraseGet_Set)
qed

lemma copy_phrase_props:
  assumes "wf_phrase p" "\<forall>f \<in> set fs. f < MAX_NUM_FACTORS" "k \<le> length p"
  shows "wf_phrase (fold (\<lambda>pos. copy_word copy pos fs) [0..<k] p) \<and>
    length (fold (\<lambda>pos. copy_word copy pos fs) [0..<k] p) = length p \<and>
    (\<forall>pos < length p. \<forall>f. PhraseGetFactor (fold (\<lambda>pos. copy_word copy pos fs) [0..<k] p) pos f =
       (if pos < k \<and> f \<in> set fs then PhraseGetFactor copy pos f else PhraseGetFactor p pos f))"
  using assms(3)
proof (induction k)
  case 0
  then show ?case using assms(1) by simp
next
  case (Suc k)
  let ?p = "fold (\<lambda>pos. copy_word copy pos fs) [0..<k] p"
  have "wf_phrase ?p" "k < length ?p" using Suc by auto
  note step = copy_word_props [OF this assms(2), of copy]
  then show ?case using Suc by (auto simp: less_Suc_eq)
qed

lemma merged_factors:
  assumes "wf_phrase (to_targetPhrase topt)" "\<forall>f \<in> set fs. f < MAX_NUM_FACTORS"
    and "MergeNewFeatures phrase score fs topt = Some t"
  shows "length (to_targetPhrase t) = length (to_targetPhrase topt) \<and> to_range t = to_range topt \<and>
    (\<forall>pos < length (to_targetPhrase topt). \<forall>f. PhraseGetFactor (to_targetPhrase t) pos f =
       (if f \<in> set fs then PhraseGetFactor phrase pos f else PhraseGetFactor (to_targetPhrase topt) pos f))"
proof -
  let ?p = "to_targetPhrase topt"
  let ?r = "fold (\<lambda>pos. copy_word phrase pos fs) [0..<length ?p] ?p"
  consider "fs = []" | f where "fs = [f]" | f g gs where "fs = f # g # gs" by (metis list.exhaust)
  then have "to_targetPhrase t = ?r \<and> to_range t = to_range topt"
  proof cases
    case 1
    have "fold (\<lambda>pos. copy_word phrase pos []) is ?p = ?p" for "is"
      by (induction "is") (simp_all add: copy_word_def)
    then show ?thesis using 1 assms(3) by (auto simp: MergeNewFeatures_def split: if_splits)
  next
    case 2
    then show ?thesis using assms(3)
      by (auto simp: MergeNewFeatures_def MergeFactorsOne_def copy_word_def [abs_def] split: if_splits)
  next
    case 3
    then show ?thesis using assms(3)
      by (auto simp: MergeNewFeatures_def MergeFactorsVec_def copy_word_def [abs_def] split: if_splits)
  qed
  then show ?thesis using copy_phrase_props [OF assms(1,2) order_refl, of phrase] by auto
qed

lemma compatible_factors:
  assumes "TOIsCompatible phrase fs topt" "f \<in> set fs" "pos < length (to_targetPhrase topt)"
  shows "PhraseGetFactor (to_targetPhrase topt) pos f = PhraseGetFactor phrase pos f"
proof -
  consider g where "fs = [g]" | g h gs where "fs = g # h # gs" using assms(2) by (cases fs rule: remdups_adj.cases) auto
  then show ?thesis
    using assms by cases (auto simp: TOIsCompatible_def IsCompatibleOne_def IsCompatibleVec_def list_all_iff split: if_splits)
qed

lemma step_factors:
  "set (m_newOutputFactors (DecodeStepInit fmask prev)) =
     {f. f < MAX_NUM_FACTORS \<and> fmask f \<and> \<not> (case prev of None \<Rightarrow> False | Some p \<Rightarrow> m_outputFactors p f)}"
  "set (m_conflictFactors (DecodeStepInit fmask prev)) =
     {f. f < MAX_NUM_FACTORS \<and> fmask f \<and> (case prev of None \<Rightarrow> False | Some p \<Rightarrow> m_outputFactors p f)}"
  by (auto simp: DecodeStepInit_def Let_def split: option.splits)

text \<open>A translation step combines its input with a phrase of the dictionary and loses nothing: every factor
  the dictionary produces is that of the dictionary's phrase, whether it is new or existed
  before, and every other factor is kept.
\<close>

theorem translation_step_factors:
  assumes "ds = DecodeStepInit fmask prev" and "wf_phrase (to_targetPhrase topt)"
    and "MergeTranslation ds topt tp = Created t"
    and "pos < length (to_targetPhrase topt)" and "f < MAX_NUM_FACTORS"
  shows "PhraseGetFactor (to_targetPhrase t) pos f =
    (if fmask f then PhraseGetFactor (tp_words tp) pos f else PhraseGetFactor (to_targetPhrase topt) pos f)"
proof -
  have merge: "MergeNewFeatures (tp_words tp) (tp_scoreBreakdown tp) (m_newOutputFactors ds) topt = Some t"
    and compat: "TOIsCompatible (tp_words tp) (m_conflictFactors ds) topt"
    using assms(3) by (auto simp: MergeTranslation_def IsFilteringStep_def TOIsCompatible_def split: if_splits option.splits)
  have "\<forall>f \<in> set (m_newOutputFactors ds). f < MAX_NUM_FACTORS" unfolding assms(1) step_factors by simp
  from merged_factors [OF assms(2) this merge]
  have new: "PhraseGetFactor (to_targetPhrase t) pos f =
      (if f \<in> set (m_newOutputFactors ds) then PhraseGetFactor (tp_words tp) pos f else PhraseGetFactor (to_targetPhrase topt) pos f)"
    using assms(4) by blast
  show ?thesis
  proof (cases "f \<in> set (m_conflictFactors ds)")
    case True
    then have "PhraseGetFactor (to_targetPhrase topt) pos f = PhraseGetFactor (tp_words tp) pos f"
      using compatible_factors [OF compat] assms(4) by blast
    then show ?thesis using new True unfolding assms(1) step_factors by auto
  next
    case False
    then show ?thesis using new assms(5) unfolding assms(1) step_factors by auto
  qed
qed

lemma translation_step_factors_witness:
  "\<exists>t. MergeTranslation (DecodeStepInit (\<lambda>f. f = 1) None)
       \<lparr>to_range = WordsRange 0 0, to_targetPhrase = [two_factor_word (Some 5) None], to_scoreBreakdown = [],
        to_futureScore = 0, to_cachedScores = (\<lambda>sp. None)\<rparr>
       \<lparr>tp_words = [two_factor_word None (Some 6)], tp_scoreBreakdown = []\<rparr> = Created t \<and>
     PhraseGetFactor (to_targetPhrase t) 0 1 = Some 6 \<and> PhraseGetFactor (to_targetPhrase t) 0 0 = Some 5"
proof -
  define ds where "ds = DecodeStepInit (\<lambda>f. f = 1) None"
  let ?o = "\<lparr>to_range = WordsRange 0 0, to_targetPhrase = [two_factor_word (Some 5) None], to_scoreBreakdown = [],
     to_futureScore = 0, to_cachedScores = (\<lambda>sp. None)\<rparr>"
  let ?tp = "\<lparr>tp_words = [two_factor_word None (Some 6)], tp_scoreBreakdown = []\<rparr>"
  have ds: "m_conflictFactors ds = []" "m_newOutputFactors ds = [Suc 0]"
    by (simp_all add: ds_def DecodeStepInit_def MAX_NUM_FACTORS_def upt_rec)
  obtain t where t: "MergeTranslation ds ?o ?tp = Created t"
    by (simp add: MergeTranslation_def IsFilteringStep_def ds MergeNewFeatures_def MergeFactorsOne_def PlusEquals_def)
  have w: "wf_phrase (to_targetPhrase ?o)" by (simp add: wf_phrase_def two_factor_word_def MAX_NUM_FACTORS_def)
  have "PhraseGetFactor (to_targetPhrase t) 0 1 = Some 6" "PhraseGetFactor (to_targetPhrase t) 0 0 = Some 5"
    using translation_step_factors [OF ds_def w t, of 0 1] translation_step_factors [OF ds_def w t, of 0 0]
    by (simp_all add: PhraseGetFactor_def WordGetFactor_def two_factor_word_def MAX_NUM_FACTORS_def)
  then show ?thesis using t unfolding ds_def by blast
qed

section \<open>Pruning of partial options\<close>

text \<open>
  What the standard promises of \<open>std::nth_element\<close> with the order by decreasing score: it
  permutes the list, and no element at or behind the position scores higher than one before it.
\<close>

definition nth_element_ok :: "nth_element \<Rightarrow> bool" where
  "nth_element_ok nth_elem \<longleftrightarrow> (\<forall>n ts. n < length ts \<longrightarrow> mset (nth_elem n ts) = mset ts \<and>
     (\<forall>i j. i < n \<and> n \<le> j \<and> j < length ts \<longrightarrow> to_futureScore (nth_elem n ts ! j) \<le> to_futureScore (nth_elem n ts ! i)))"

lemma nth_element_okD:
  assumes "nth_element_ok nth_elem" "n < length ts"
  shows "mset (nth_elem n ts) = mset ts" "length (nth_elem n ts) = length ts" "set (nth_elem n ts) = set ts"
    "i < n \<Longrightarrow> n \<le> j \<Longrightarrow> j < length ts \<Longrightarrow> to_futureScore (nth_elem n ts ! j) \<le> to_futureScore (nth_elem n ts ! i)"
proof -
  show m: "mset (nth_elem n ts) = mset ts" using assms unfolding nth_element_ok_def by blast
  show "length (nth_elem n ts) = length ts" "set (nth_elem n ts) = set ts"
    using mset_eq_length [OF m] mset_eq_setD [OF m] by simp_all
  show "i < n \<Longrightarrow> n \<le> j \<Longrightarrow> j < length ts \<Longrightarrow> to_futureScore (nth_elem n ts ! j) \<le> to_futureScore (nth_elem n ts ! i)"
    using assms unfolding nth_element_ok_def by blast
qed

definition nth_by_sort :: nth_element where
  "nth_by_sort n ts = rev (sort_key to_futureScore ts)"

lemma nth_by_sort_ok: "nth_element_ok nth_by_sort"
  unfolding nth_element_ok_def
proof (intro allI impI conjI)
  fix n i j :: nat and ts :: "trans_opt list"
  show "mset (nth_by_sort n ts) = mset ts" by (simp add: nth_by_sort_def)
  let ?s = "sort_key to_futureScore ts"
  assume "i < n \<and> n \<le> j \<and> j < length ts"
  then have ij: "length ts - Suc j \<le> length ts - Suc i" "length ts - Suc i < length ts" "i < length ts" "j < length ts" by auto
  have "sorted (map to_futureScore ?s)" by simp
  from sorted_nth_mono [OF this ij(1)] ij show "to_futureScore (nth_by_sort n ts ! j) \<le> to_futureScore (nth_by_sort n ts ! i)"
    by (simp add: nth_by_sort_def rev_nth)
qed

definition partial_inv :: "nat \<Rightarrow> partial_opts \<Rightarrow> bool" where
  "partial_inv maxSize c \<longleftrightarrow> length (pt_list c) \<le> 2 * maxSize \<and> pt_worstScore c \<le> pt_bestScore c \<and>
     (\<forall>t \<in> set (pt_list c). to_futureScore t \<le> pt_bestScore c) \<and>
     (if pt_list c = [] then pt_bestScore c = MinusInf else \<exists>t \<in> set (pt_list c). to_futureScore t = pt_bestScore c)"

lemma PartialPrune_inv:
  assumes "nth_element_ok nth_elem" "0 < maxSize" "pt_list c \<noteq> []"
    and best: "\<forall>t \<in> set (pt_list c). to_futureScore t \<le> pt_bestScore c" "\<exists>t \<in> set (pt_list c). to_futureScore t = pt_bestScore c"
    and "pt_worstScore c \<le> pt_bestScore c" "length (pt_list c) \<le> 2 * maxSize \<or> maxSize < length (pt_list c)"
  shows "partial_inv maxSize (PartialPrune nth_elem maxSize c) \<and>
     pt_bestScore (PartialPrune nth_elem maxSize c) = pt_bestScore c \<and> pt_list (PartialPrune nth_elem maxSize c) \<noteq> []"
proof (cases "length (pt_list c) \<le> maxSize")
  case True
  then show ?thesis using assms by (simp add: PartialPrune_def partial_inv_def)
next
  case False
  let ?l = "nth_elem maxSize (pt_list c)"
  have less: "maxSize < length (pt_list c)" using False by simp
  note l = nth_element_okD [OF assms(1) less]
  have kept: "set (take maxSize ?l) \<subseteq> set (pt_list c)" using l(3) set_take_subset by fastforce
  have len: "length (take maxSize ?l) = maxSize" using l(2) less by simp
  have "\<exists>t \<in> set (take maxSize ?l). to_futureScore t = pt_bestScore c"
  proof -
    obtain b where "b \<in> set ?l" "to_futureScore b = pt_bestScore c" using best(2) l(3) by blast
    then obtain k where k: "k < length (pt_list c)" "to_futureScore (?l ! k) = pt_bestScore c"
      by (auto simp: in_set_conv_nth l(2))
    have in_take: "?l ! i \<in> set (take maxSize ?l)" if "i < maxSize" for i
      using that less l(2) by (metis in_set_conv_nth len nth_take)
    show ?thesis
    proof (cases "k < maxSize")
      case True
      then show ?thesis using in_take k by blast
    next
      case False
      then have "pt_bestScore c \<le> to_futureScore (?l ! 0)" using l(4) [of 0 k] assms(2) k by simp
      moreover have "?l ! 0 \<in> set (pt_list c)" using in_take [of 0] kept assms(2) by blast
      ultimately have "to_futureScore (?l ! 0) = pt_bestScore c" using best(1) by (simp add: antisym)
      then show ?thesis using in_take assms(2) by blast
    qed
  qed
  moreover have "to_futureScore (?l ! sz_sub maxSize 1) \<le> pt_bestScore c"
  proof (cases "maxSize < size_bound")
    case True
    then have "sz_sub maxSize 1 < length ?l" using less l(2) assms(2) sz_sub_1 [of maxSize] by simp
    then show ?thesis using best(1) l(3) nth_mem by blast
  next
    case False
    then have "sz_sub maxSize 1 < length ?l" using less l(2) sz_sub_less [of maxSize 1] by linarith
    then show ?thesis using best(1) l(3) nth_mem by blast
  qed
  ultimately show ?thesis
    using False best(1) kept len assms(2) by (auto simp: PartialPrune_def partial_inv_def Let_def)
qed

lemma PartialAdd_inv:
  assumes "nth_element_ok nth_elem" "0 < maxSize" "partial_inv maxSize c" "PartialAdd nth_elem maxSize ts t c = Some c'"
  shows "partial_inv maxSize c' \<and> pt_bestScore c \<le> pt_bestScore c' \<and>
     pt_list c' \<noteq> [] \<and> (\<forall>u. TOCalcScore ts t = Some u \<longrightarrow> to_futureScore u \<le> pt_bestScore c')"
proof -
  obtain u where u: "TOCalcScore ts t = Some u" using assms(4) by (auto simp: PartialAdd_def AddNoPrune_def split: option.splits)
  have fin: "to_futureScore u \<noteq> MinusInf" using u by (auto simp: TOCalcScore_def split: option.splits)
  show ?thesis
  proof (cases "to_futureScore u \<ge> pt_worstScore c")
    case True
    let ?b = "if to_futureScore u > pt_bestScore c then to_futureScore u else pt_bestScore c"
    let ?c = "c\<lparr>pt_list := pt_list c @ [u], pt_bestScore := ?b\<rparr>"
    have add: "AddNoPrune ts t c = Some ?c" using u True by (simp add: AddNoPrune_def)
    have b: "\<forall>t \<in> set (pt_list ?c). to_futureScore t \<le> pt_bestScore ?c" "\<exists>t \<in> set (pt_list ?c). to_futureScore t = pt_bestScore ?c"
      "pt_worstScore ?c \<le> pt_bestScore ?c" "pt_bestScore c \<le> pt_bestScore ?c" "to_futureScore u \<le> pt_bestScore ?c"
      using assms(3) fin by (cases "to_futureScore u"; auto simp: partial_inv_def split: if_splits intro: order_trans)+
    show ?thesis
    proof (cases "length (pt_list ?c) > 2 * maxSize")
      case big: True
      then have "c' = PartialPrune nth_elem maxSize ?c" using assms(4) add by (simp add: PartialAdd_def)
      then show ?thesis using PartialPrune_inv [OF assms(1,2) _ b(1,2,3)] big b u by simp
    next
      case False
      then have "c' = ?c" using assms(4) add by (simp add: PartialAdd_def)
      then show ?thesis using False b u by (auto simp: partial_inv_def)
    qed
  next
    case False
    then have ne: "pt_list c \<noteq> []" using assms(3)
      by (cases "to_futureScore u"; cases "pt_worstScore c") (auto simp: partial_inv_def split: if_splits)
    have "c' = c\<lparr>pt_totalPruned := pt_totalPruned c + 1\<rparr>"
      using assms(3,4) u False by (auto simp: PartialAdd_def AddNoPrune_def partial_inv_def)
    moreover have "to_futureScore u \<le> pt_bestScore c" using False assms(3) by (auto simp: partial_inv_def)
    ultimately show ?thesis using assms(3) u ne by (simp add: partial_inv_def)
  qed
qed


lemma add_created_inv:
  assumes "nth_element_ok nth_elem" "0 < maxSize" "partial_inv maxSize c"
    and "add_created nth_elem maxSize ts xs c = Some c'"
  shows "partial_inv maxSize c' \<and> pt_bestScore c \<le> pt_bestScore c' \<and> (pt_list c \<noteq> [] \<longrightarrow> pt_list c' \<noteq> []) \<and>
     (\<forall>t u. Created t \<in> set xs \<and> TOCalcScore ts t = Some u \<longrightarrow> pt_list c' \<noteq> [] \<and> to_futureScore u \<le> pt_bestScore c')"
  using assms(3,4)
proof (induction xs arbitrary: c)
  case Nil
  then show ?case by simp
next
  case (Cons x xs)
  show ?case
  proof (cases x)
    case (Created t)
    then obtain c1 where c1: "PartialAdd nth_elem maxSize ts t c = Some c1" "add_created nth_elem maxSize ts xs c1 = Some c'"
      using Cons.prems(2) by (auto split: option.splits)
    note step = PartialAdd_inv [OF assms(1,2) Cons.prems(1) c1(1)]
    note IH = Cons.IH [OF conjunct1 [OF step] c1(2)]
    show ?thesis using step IH Created by (auto intro: order_trans)
  qed (use Cons in auto)
qed

lemma add_created_list:
  assumes "nth_element_ok nth_elem" "add_created nth_elem maxSize ts xs c = Some c'"
  shows "set (pt_list c') \<subseteq> set (pt_list c) \<union> {u. \<exists>t. Created t \<in> set xs \<and> TOCalcScore ts t = Some u}"
  using assms(2)
proof (induction xs arbitrary: c)
  case Nil
  then show ?case by simp
next
  case (Cons x xs)
  have prune: "set (pt_list (PartialPrune nth_elem maxSize d)) \<subseteq> set (pt_list d)" for d
    using nth_element_okD(3) [OF assms(1), of maxSize "pt_list d"] set_take_subset [of maxSize "nth_elem maxSize (pt_list d)"]
    by (auto simp: PartialPrune_def Let_def)
  show ?case
  proof (cases x)
    case (Created t)
    then obtain c1 where c1: "PartialAdd nth_elem maxSize ts t c = Some c1" "add_created nth_elem maxSize ts xs c1 = Some c'"
      using Cons.prems by (auto split: option.splits)
    obtain u d where d: "TOCalcScore ts t = Some u" "AddNoPrune ts t c = Some d"
      "c1 = (if length (pt_list d) > 2 * maxSize then PartialPrune nth_elem maxSize d else d)"
      using c1(1) by (auto simp: PartialAdd_def AddNoPrune_def split: option.splits)
    have "set (pt_list d) \<subseteq> insert u (set (pt_list c))" using d(1,2) by (auto simp: AddNoPrune_def split: if_splits)
    then have "set (pt_list c1) \<subseteq> insert u (set (pt_list c))" using prune [of d] d(3) by (auto split: if_splits)
    then show ?thesis using Cons.IH [OF c1(2)] Created d(1) by fastforce
  qed (use Cons in auto)
qed

lemma add_created_scored:
  "add_created nth_elem maxSize ts (map Created xs) d = Some d' \<Longrightarrow> \<forall>t \<in> set xs. TOCalcScore ts t \<noteq> None"
  by (induction xs arbitrary: d) (auto simp: PartialAdd_def AddNoPrune_def split: option.splits)

text \<open>What is kept and what is counted as pruned.\<close>

definition counted :: "nat \<Rightarrow> partial_opts \<Rightarrow> bool" where
  "counted maxSize c \<longleftrightarrow> (pt_worstScore c = MinusInf \<and> pt_totalPruned c = 0) \<or> maxSize \<le> length (pt_list c)"

lemma PartialPrune_counted:
  assumes "nth_element_ok nth_elem" "maxSize < length (pt_list c)" "c' = PartialPrune nth_elem maxSize c"
  shows "length (pt_list c') = maxSize \<and> mset (pt_list c') \<subseteq># mset (pt_list c) \<and>
    pt_totalPruned c' + length (pt_list c') = pt_totalPruned c + length (pt_list c)"
proof -
  note l = nth_element_okD [OF assms(1,2)]
  have "mset (take maxSize (nth_elem maxSize (pt_list c))) \<subseteq># mset (nth_elem maxSize (pt_list c))"
    by (metis append_take_drop_id mset_append mset_subset_eq_add_left)
  then show ?thesis using assms(2,3) l(1,2) by (simp add: PartialPrune_def Let_def)
qed

lemma PartialAdd_counted:
  assumes "nth_element_ok nth_elem" "counted maxSize c" "PartialAdd nth_elem maxSize ts t c = Some c'"
  shows "counted maxSize c' \<and> pt_totalPruned c' + length (pt_list c') = Suc (pt_totalPruned c + length (pt_list c)) \<and>
    mset (pt_list c') \<subseteq># mset (pt_list c) + {#the (TOCalcScore ts t)#}"
proof -
  obtain u d where d: "TOCalcScore ts t = Some u" "AddNoPrune ts t c = Some d"
      "c' = (if length (pt_list d) > 2 * maxSize then PartialPrune nth_elem maxSize d else d)"
    using assms(3) by (auto simp: PartialAdd_def AddNoPrune_def split: option.splits)
  have step: "counted maxSize d \<and> pt_totalPruned d + length (pt_list d) = Suc (pt_totalPruned c + length (pt_list c)) \<and>
      mset (pt_list d) \<subseteq># mset (pt_list c) + {#u#}"
    using d(1,2) assms(2) by (cases "to_futureScore u") (auto simp: AddNoPrune_def counted_def split: if_splits)
  show ?thesis
  proof (cases "length (pt_list d) > 2 * maxSize")
    case True
    then have big: "maxSize < length (pt_list d)" by simp
    have c': "c' = PartialPrune nth_elem maxSize d" using d(3) True by simp
    note p = PartialPrune_counted [OF assms(1) big c']
    then show ?thesis using step d(1) by (auto simp: counted_def intro: subset_mset.order_trans)
  next
    case False
    then show ?thesis using step d(1,3) by simp
  qed
qed

lemma add_created_counted:
  assumes "nth_element_ok nth_elem" "counted maxSize c" "add_created nth_elem maxSize ts (map Created offered) c = Some c'"
  shows "counted maxSize c' \<and> pt_totalPruned c' + length (pt_list c') = pt_totalPruned c + length (pt_list c) + length offered \<and>
    mset (pt_list c') \<subseteq># mset (pt_list c) + mset (map (\<lambda>t. the (TOCalcScore ts t)) offered)"
  using assms(2,3)
proof (induction offered arbitrary: c)
  case (Cons t offered)
  then obtain c1 where c1: "PartialAdd nth_elem maxSize ts t c = Some c1"
      "add_created nth_elem maxSize ts (map Created offered) c1 = Some c'"
    by (auto split: option.splits)
  note step = PartialAdd_counted [OF assms(1) Cons.prems(1) c1(1)]
  note IH = Cons.IH [OF conjunct1 [OF step] c1(2)]
  have "mset (pt_list c1) + mset (map (\<lambda>t. the (TOCalcScore ts t)) offered) \<subseteq>#
      mset (pt_list c) + {#the (TOCalcScore ts t)#} + mset (map (\<lambda>t. the (TOCalcScore ts t)) offered)"
    using step by (simp add: subset_mset.add_right_mono)
  then show ?case using step IH by (auto simp: ac_simps intro: subset_mset.order_trans)
qed simp

lemma add_created_all:
  assumes "add_created nth_elem maxSize ts (map Created offered) c = Some c'" "pt_worstScore c = MinusInf"
    and "length (pt_list c) + length offered \<le> 2 * maxSize"
  shows "pt_list c' = pt_list c @ map (\<lambda>t. the (TOCalcScore ts t)) offered"
  using assms
proof (induction offered arbitrary: c)
  case (Cons t offered)
  then obtain u where u: "TOCalcScore ts t = Some u" by (auto simp: PartialAdd_def AddNoPrune_def split: option.splits)
  let ?c = "c\<lparr>pt_list := pt_list c @ [u],
    pt_bestScore := (if to_futureScore u > pt_bestScore c then to_futureScore u else pt_bestScore c)\<rparr>"
  have "PartialAdd nth_elem maxSize ts t c = Some ?c"
    using u Cons.prems(2,3) by (cases "to_futureScore u") (simp_all add: PartialAdd_def AddNoPrune_def)
  then show ?case using Cons.IH [of ?c] Cons.prems u by simp
qed simp

text \<open>C29: What pruning keeps of the partial options of a span, whatever \<open>std::nth_element\<close> does within its contract: a
  collection that has been offered options keeps one of the best score offered; it holds options that were offered, with
  their scores and none of them more often than it was offered, at least as many as the limit (or as were offered) and at
  most twice as many, and all of them in their order if no more were offered; the others are counted as pruned. That the
  options kept are the best of those offered does not hold: \<open>m_worstScore\<close> need not be the worst score kept.
\<close>

theorem partial_pruning_keeps_best:
  assumes "nth_element_ok nth_elem" and "0 < maxSize"
    and "add_created nth_elem maxSize ts (map Created offered) PartialTranslOptCollInit = Some c" and "offered \<noteq> []"
  shows "length (pt_list c) \<le> 2 * maxSize \<and> min maxSize (length offered) \<le> length (pt_list c) \<and>
    pt_totalPruned c + length (pt_list c) = length offered \<and>
    mset (pt_list c) \<subseteq># mset (map (\<lambda>t. the (TOCalcScore ts t)) offered) \<and>
    (length offered \<le> 2 * maxSize \<longrightarrow> pt_list c = map (\<lambda>t. the (TOCalcScore ts t)) offered) \<and>
    (\<exists>best \<in> set (pt_list c). (\<exists>t \<in> set offered. TOCalcScore ts t = Some best) \<and>
       (\<forall>t \<in> set offered. \<forall>u. TOCalcScore ts t = Some u \<longrightarrow> to_futureScore u \<le> to_futureScore best))"
proof -
  have init: "partial_inv maxSize PartialTranslOptCollInit" by (simp add: partial_inv_def PartialTranslOptCollInit_def)
  have inv: "partial_inv maxSize c" "\<forall>t u. t \<in> set offered \<and> TOCalcScore ts t = Some u \<longrightarrow>
      pt_list c \<noteq> [] \<and> to_futureScore u \<le> pt_bestScore c"
    using add_created_inv [OF assms(1,2) init assms(3)] by auto
  have "\<forall>t \<in> set offered. TOCalcScore ts t \<noteq> None" by (rule add_created_scored [OF assms(3)])
  then have ne: "pt_list c \<noteq> []" using inv(2) assms(4) by (cases offered) auto
  then obtain best where best: "best \<in> set (pt_list c)" "to_futureScore best = pt_bestScore c"
    using inv(1) by (auto simp: partial_inv_def)
  have "\<exists>t \<in> set offered. TOCalcScore ts t = Some best"
    using add_created_list [OF assms(1,3)] best(1) by (auto simp: PartialTranslOptCollInit_def)
  then have top: "\<exists>best \<in> set (pt_list c). (\<exists>t \<in> set offered. TOCalcScore ts t = Some best) \<and>
       (\<forall>t \<in> set offered. \<forall>u. TOCalcScore ts t = Some u \<longrightarrow> to_futureScore u \<le> to_futureScore best)"
    using inv best by auto
  have "counted maxSize PartialTranslOptCollInit" by (simp add: counted_def PartialTranslOptCollInit_def)
  from add_created_counted [OF assms(1) this assms(3)] add_created_all [OF assms(3)] top inv(1) show ?thesis
    by (auto simp: partial_inv_def counted_def PartialTranslOptCollInit_def)
qed

lemma add_created_defined:
  "\<forall>t \<in> set offered. TOCalcScore ts t \<noteq> None \<Longrightarrow>
   \<exists>c'. add_created nth_elem maxSize ts (map Created offered) c = Some c'"
proof (induction offered arbitrary: c)
  case (Cons t offered)
  then obtain u where "TOCalcScore ts t = Some u" by auto
  then obtain d where "PartialAdd nth_elem maxSize ts t c = Some d" by (simp add: PartialAdd_def AddNoPrune_def)
  then show ?case using Cons.IH [of d] Cons.prems by simp
qed simp

definition plain_system :: translation_system where
  "plain_system = \<lparr>ts_scoreManager = ScoreIndexManagerInit, ts_allWeights = [1], ts_lms = [], ts_enableOOVFeature = False,
     ts_weightWordPenalty = 0\<rparr>"

definition scored_option :: "rat \<Rightarrow> trans_opt" where
  "scored_option s = \<lparr>to_range = WordsRange 0 0, to_targetPhrase = [], to_scoreBreakdown = [s],
     to_futureScore = Fin s, to_cachedScores = (\<lambda>sp. None)\<rparr>"

lemma scored_option_score: "TOCalcScore plain_system (scored_option s) = Some (scored_option s)"
  by (simp add: TOCalcScore_def plain_system_def scored_option_def InnerProduct_def)

lemma partial_pruning_keeps_best_witness:
  "\<exists>c. add_created nth_by_sort 1 plain_system (map Created [scored_option 1, scored_option 3, scored_option 2])
       PartialTranslOptCollInit = Some c \<and> scored_option 3 \<in> set (pt_list c) \<and> length (pt_list c) \<le> 2"
proof -
  let ?xs = "[scored_option 1, scored_option 3, scored_option 2]"
  have "\<forall>t \<in> set ?xs. TOCalcScore plain_system t \<noteq> None" by (simp add: scored_option_score)
  then obtain c where c: "add_created nth_by_sort 1 plain_system (map Created ?xs) PartialTranslOptCollInit = Some c"
    using add_created_defined by blast
  have score: "to_futureScore (scored_option s) = Fin s" for s by (simp add: scored_option_def)
  obtain best where best: "best \<in> set (pt_list c)" "length (pt_list c) \<le> 2"
    "\<exists>t \<in> set ?xs. TOCalcScore plain_system t = Some best"
    "\<forall>t \<in> set ?xs. \<forall>u. TOCalcScore plain_system t = Some u \<longrightarrow> to_futureScore u \<le> to_futureScore best"
    using partial_pruning_keeps_best [OF nth_by_sort_ok _ c] by auto
  from best(4) have "Fin 3 \<le> to_futureScore best" by (simp add: scored_option_score score)
  then have "best = scored_option 3" using best(3) by (auto simp: scored_option_score score)
  then show ?thesis using c best(1,2) by blast
qed

end
