(* ===== verification/Translation_Options.thy ===== *)
theory Translation_Options
  imports Decode_Steps
begin

text \<open>
  The translation options of a sentence (\<open>TranslationOptionCollection.cpp\<close>,
  \<open>TranslationOptionCollectionText.cpp\<close>, the XML options of \<open>Sentence.cpp\<close>, the cache of
  \<open>StaticData.cpp\<close>): creating them span by span with the decoding graphs, unknown words, pruning,
  sorting and the table of future scores. The tables and language models are arguments, as are the
  clock and \<open>std::nth_element\<close>. \<open>None\<close> is a failed assertion or a null pointer that is read.
\<close>

section \<open>Settings and state\<close>

datatype graph_step =
    TranslationStep phrase_dictionary decode_step
  | GenerationStep "word \<Rightarrow> (word \<times> score_components) list option" decode_step

record decode_graph =
  dg_position :: nat
  dg_initial :: phrase_dictionary
  dg_steps :: "graph_step list"
  dg_backoff :: nat

datatype xml_input_type = XmlPassThrough | XmlIgnore | XmlExclusive | XmlInclusive

record option_env =
  oe_source :: phrase
  oe_maxPhraseLength :: nat
  oe_maxNoTransOptPerCoverage :: nat
  oe_translationOptionThreshold :: score
  oe_maxNoPartTransOpt :: nat
  oe_nth_element :: nth_element
  oe_system :: translation_system
  oe_numScores :: nat
  oe_decodeGraphs :: "decode_graph list"
  oe_xmlInputType :: xml_input_type
  oe_xmlCoverageMap :: "bool list"
  oe_xmlOptionsList :: "trans_opt list"
  oe_dropUnknown :: bool
  oe_unknownPenalty :: "nat option"
  oe_alwaysCreateDirect :: bool
  oe_useTransOptCache :: bool
  oe_transOptCacheMaxSize :: nat
  oe_clock :: "nat \<Rightarrow> words_range \<Rightarrow> bool \<Rightarrow> nat"
  oe_reorderingModels :: "(nat \<times> (phrase \<Rightarrow> phrase \<Rightarrow> rat list)) list"

type_synonym option_cache = "((nat \<times> phrase) \<times> (trans_opt list \<times> nat)) list"

record option_state =
  os_collection :: "trans_opt list list list"
  os_futureScore :: "score square_matrix"
  os_cache :: option_cache
  os_factors :: factor_collection

definition source_size :: "option_env \<Rightarrow> nat" where
  "source_size oe = length (oe_source oe)"

text \<open>\<open>maxSize\<close>: how many spans start at a position.\<close>

definition span_count :: "option_env \<Rightarrow> nat \<Rightarrow> nat" where
  "span_count oe startPos = min (source_size oe - startPos) (oe_maxPhraseLength oe)"

definition TranslationOptionCollectionInit ::
    "option_env \<Rightarrow> score list \<Rightarrow> option_cache \<Rightarrow> factor_collection \<Rightarrow> option_state" where
  "TranslationOptionCollectionInit oe junk cache factors =
     \<lparr>os_collection = map (\<lambda>startPos. replicate (span_count oe startPos) []) [0..<source_size oe],
      os_futureScore = SquareMatrixInit (source_size oe) junk, os_cache = cache, os_factors = factors\<rparr>"

section \<open>The lists of the spans\<close>

definition list_index :: "option_env \<Rightarrow> nat \<Rightarrow> nat \<Rightarrow> nat" where
  "list_index oe startPos endPos = min (sz_sub endPos startPos) (oe_maxPhraseLength oe)"

definition GetTranslationOptionList :: "option_env \<Rightarrow> nat \<Rightarrow> nat \<Rightarrow> option_state \<Rightarrow> trans_opt list option" where
  "GetTranslationOptionList oe startPos endPos s =
     (let maxSize = list_index oe startPos endPos
      in if startPos < length (os_collection s) \<and> maxSize < length (os_collection s ! startPos)
         then Some (os_collection s ! startPos ! maxSize) else None)"

definition set_list :: "nat \<Rightarrow> nat \<Rightarrow> trans_opt list \<Rightarrow> option_state \<Rightarrow> option_state" where
  "set_list startPos i l s =
     s\<lparr>os_collection := (os_collection s)[startPos := (os_collection s ! startPos)[i := l]]\<rparr>"

definition AddOption :: "trans_opt \<Rightarrow> option_state \<Rightarrow> option_state option" where
  "AddOption topt s =
     (let startPos = m_startPos (to_range topt); i = sz_sub (m_endPos (to_range topt)) startPos
      in if startPos < length (os_collection s) \<and> i < length (os_collection s ! startPos)
         then Some (set_list startPos i (os_collection s ! startPos ! i @ [topt]) s) else None)"

fun AddOptions :: "trans_opt list \<Rightarrow> option_state \<Rightarrow> option_state option" where
  "AddOptions [] s = Some s"
| "AddOptions (t # ts) s = (case AddOption t s of None \<Rightarrow> None | Some s \<Rightarrow> AddOptions ts s)"

text \<open>Scoring and adding, as for the options of the last step and of XML markup.\<close>

fun AddScored :: "translation_system \<Rightarrow> trans_opt list \<Rightarrow> option_state \<Rightarrow> option_state option" where
  "AddScored ts [] s = Some s"
| "AddScored ts (t # tos) s =
     (case TOCalcScore ts t of
        None \<Rightarrow> None
      | Some t \<Rightarrow> (case AddOption t s of None \<Rightarrow> None | Some s \<Rightarrow> AddScored ts tos s))"

section \<open>The persistent cache\<close>

text \<open>Keys are pairs of a graph and a phrase, compared as \<open>std::map\<close> compares them.\<close>

definition key_eq :: "nat \<times> phrase \<Rightarrow> nat \<times> phrase \<Rightarrow> bool" where
  "key_eq k k' \<longleftrightarrow> fst k = fst k' \<and> PhraseCompare (snd k) (snd k') = 0"

definition FindTransOptListInCache ::
    "nat \<Rightarrow> nat \<Rightarrow> phrase \<Rightarrow> option_cache \<Rightarrow> (trans_opt list \<times> option_cache) option" where
  "FindTransOptListInCache now graph sourcePhrase cache =
     map_option (\<lambda>(k, l, t). (l, map (\<lambda>(k', l', t'). if key_eq k' (graph, sourcePhrase) then (k', l', now) else (k', l', t')) cache))
       (find (\<lambda>(k, l, t). key_eq k (graph, sourcePhrase)) cache)"

text \<open>
  The loop pops the largest times while \<open>i\<close> is below the shrinking size less half the limit; entries
  older than what is then on top are removed.
\<close>

function pop_count :: "nat \<Rightarrow> nat \<Rightarrow> nat \<Rightarrow> nat" where
  "pop_count half i n = (if i < n - half then pop_count half (i + 1) (n - 1) else i)"
  by pat_completeness auto
termination by (relation "measure (\<lambda>(half, i, n). n)") auto

declare pop_count.simps [simp del]

definition ReduceTransOptCache :: "nat \<Rightarrow> option_cache \<Rightarrow> option_cache" where
  "ReduceTransOptCache maxSize cache =
     (if length cache \<le> maxSize then cache
      else let times = rev (sort (map (\<lambda>(k, l, t). t) cache));
               cutoff = times ! pop_count (maxSize div 2) 0 (length times)
           in filter (\<lambda>(k, l, t). \<not> t < cutoff) cache)"

definition AddTransOptListToCache ::
    "nat \<Rightarrow> nat \<Rightarrow> nat \<Rightarrow> phrase \<Rightarrow> trans_opt list \<Rightarrow> option_cache \<Rightarrow> option_cache" where
  "AddTransOptListToCache maxSize now graph sourcePhrase l cache =
     (if maxSize = 0 then cache
      else ReduceTransOptCache maxSize
             ((case find (\<lambda>(k, l, t). key_eq k (graph, sourcePhrase)) cache of
                 None \<Rightarrow> cache @ [((graph, sourcePhrase), l, now)]
               | Some e \<Rightarrow> map (\<lambda>(k', l', t'). if key_eq k' (graph, sourcePhrase) then (k', l, now) else (k', l', t')) cache)))"

section \<open>Options of a span\<close>

definition XmlOverlap :: "option_env \<Rightarrow> nat \<Rightarrow> nat \<Rightarrow> bool" where
  "XmlOverlap oe startPos endPos =
     list_ex (\<lambda>pos. pos < length (oe_xmlCoverageMap oe) \<and> oe_xmlCoverageMap oe ! pos) [startPos..<endPos + 1]"

definition GetXmlTranslationOptions :: "option_env \<Rightarrow> nat \<Rightarrow> nat \<Rightarrow> trans_opt list" where
  "GetXmlTranslationOptions oe startPos endPos =
     filter (\<lambda>t. startPos = m_startPos (to_range t) \<and> endPos = m_endPos (to_range t)) (oe_xmlOptionsList oe)"

definition CreateXmlOptionsForRange :: "option_env \<Rightarrow> nat \<Rightarrow> nat \<Rightarrow> option_state \<Rightarrow> option_state option" where
  "CreateXmlOptionsForRange oe startPos endPos s =
     AddScored (oe_system oe) (GetXmlTranslationOptions oe startPos endPos) s"

definition step_process :: "option_env \<Rightarrow> bool \<Rightarrow> graph_step \<Rightarrow> trans_opt \<Rightarrow> partial_opts \<Rightarrow> partial_opts option" where
  "step_process oe adhere step inputOpt c =
     (case step of
        TranslationStep pd ds \<Rightarrow>
          TranslationProcess (oe_nth_element oe) (oe_maxNoPartTransOpt oe) (oe_system oe) pd ds inputOpt adhere c
      | GenerationStep FindWord ds \<Rightarrow>
          GenerationProcess (oe_nth_element oe) (oe_maxNoPartTransOpt oe) (oe_system oe) (oe_numScores oe) FindWord ds inputOpt c)"

fun process_inputs :: "option_env \<Rightarrow> bool \<Rightarrow> graph_step \<Rightarrow> trans_opt list \<Rightarrow> partial_opts \<Rightarrow> partial_opts option" where
  "process_inputs oe adhere step [] c = Some c"
| "process_inputs oe adhere step (t # ts) c =
     (case step_process oe adhere step t c of None \<Rightarrow> None | Some c \<Rightarrow> process_inputs oe adhere step ts c)"

fun process_steps :: "option_env \<Rightarrow> bool \<Rightarrow> graph_step list \<Rightarrow> partial_opts \<Rightarrow> partial_opts option" where
  "process_steps oe adhere [] oldPtoc = Some oldPtoc"
| "process_steps oe adhere (step # steps) oldPtoc =
     (case process_inputs oe adhere step (pt_list oldPtoc) PartialTranslOptCollInit of
        None \<Rightarrow> None
      | Some newPtoc \<Rightarrow> process_steps oe adhere steps newPtoc)"

text \<open>The options all decoding steps of a graph make for a span.\<close>

definition decoded_options :: "option_env \<Rightarrow> decode_graph \<Rightarrow> nat \<Rightarrow> nat \<Rightarrow> bool \<Rightarrow> trans_opt list option" where
  "decoded_options oe graph startPos endPos adhere =
     (case ProcessInitialTranslation (oe_nth_element oe) (oe_maxNoPartTransOpt oe) (oe_system oe) (oe_numScores oe)
             (dg_initial graph) startPos endPos adhere PartialTranslOptCollInit of
        None \<Rightarrow> None
      | Some ptoc \<Rightarrow> map_option pt_list (process_steps oe adhere (dg_steps graph) ptoc))"

definition create_decoded :: "option_env \<Rightarrow> decode_graph \<Rightarrow> nat \<Rightarrow> nat \<Rightarrow> bool \<Rightarrow> option_state \<Rightarrow> option_state option" where
  "create_decoded oe graph startPos endPos adhere s =
     (case decoded_options oe graph startPos endPos adhere of
        None \<Rightarrow> None
      | Some partTransOptList \<Rightarrow>
          (case AddScored (oe_system oe) partTransOptList s of
             None \<Rightarrow> None
           | Some s \<Rightarrow>
               if oe_useTransOptCache oe \<and> partTransOptList \<noteq> []
               then map_option (\<lambda>l. s\<lparr>os_cache := AddTransOptListToCache (oe_transOptCacheMaxSize oe)
                        (oe_clock oe (dg_position graph) (WordsRange startPos endPos) adhere) (dg_position graph)
                        (GetSubString (oe_source oe) (WordsRange startPos endPos)) l (os_cache s)\<rparr>)
                      (GetTranslationOptionList oe startPos endPos s)
               else Some s))"

definition CreateTranslationOptionsForRange ::
    "option_env \<Rightarrow> decode_graph \<Rightarrow> nat \<Rightarrow> nat \<Rightarrow> bool \<Rightarrow> option_state \<Rightarrow> option_state option" where
  "CreateTranslationOptionsForRange oe graph startPos endPos adhere s =
     (let wordsRange = WordsRange startPos endPos;
          s1 = (if oe_xmlInputType oe \<noteq> XmlExclusive \<or> \<not> XmlOverlap oe startPos endPos
                then (case (if oe_useTransOptCache oe
                            then FindTransOptListInCache (oe_clock oe (dg_position graph) wordsRange adhere) (dg_position graph)
                                   (GetSubString (oe_source oe) wordsRange) (os_cache s)
                            else None) of
                        Some (l, cache) \<Rightarrow> AddOptions (map (\<lambda>t. t\<lparr>to_range := wordsRange\<rparr>) l) (s\<lparr>os_cache := cache\<rparr>)
                      | None \<Rightarrow> create_decoded oe graph startPos endPos adhere s)
                else Some s)
      in case s1 of
           None \<Rightarrow> None
         | Some s \<Rightarrow>
             if oe_xmlInputType oe \<noteq> XmlPassThrough \<and> XmlOverlap oe startPos endPos
             then CreateXmlOptionsForRange oe startPos endPos s else Some s)"

section \<open>Unknown words\<close>

definition EPSILON :: string where
  "EPSILON = ''*EPS*''"

definition UNKNOWN_FACTOR :: string where
  "UNKNOWN_FACTOR = ''UNK''"

definition is_digit_char :: "char \<Rightarrow> bool" where
  "is_digit_char c \<longleftrightarrow> c \<in> set ''0123456789''"

text \<open>\<open>s.find_first_of("0123456789")\<close>, a position or \<open>npos\<close>, compared with 1.\<close>

definition digit_test :: "string \<Rightarrow> bool" where
  "digit_test s \<longleftrightarrow> (case find (\<lambda>i. is_digit_char (s ! i)) [0..<length s] of None \<Rightarrow> NOT_FOUND | Some i \<Rightarrow> i) = 1"

fun copy_factors :: "nat list \<Rightarrow> word \<Rightarrow> word \<times> factor_collection \<Rightarrow> word \<times> factor_collection" where
  "copy_factors [] sourceWord wc = wc"
| "copy_factors (f # fs) sourceWord (w, coll) =
     (let (factor, coll) = AddFactor (case WordGetFactor sourceWord f of None \<Rightarrow> UNKNOWN_FACTOR | Some x \<Rightarrow> coll ! x) coll
      in copy_factors fs sourceWord (WordSetFactor f (Some factor) w, coll))"

text \<open>For a sentence: a null surface factor is read.\<close>

definition ProcessOneUnknownWord :: "option_env \<Rightarrow> word \<Rightarrow> nat \<Rightarrow> nat \<Rightarrow> option_state \<Rightarrow> option_state option" where
  "ProcessOneUnknownWord oe sourceWord sourcePos len s =
     (case WordGetFactor sourceWord 0 of
        None \<Rightarrow> None
      | Some f \<Rightarrow>
          let str = os_factors s ! f;
              isEpsilon = (str = '''' \<or> str = EPSILON);
              isDigit = (oe_dropUnknown oe \<and> digit_test str);
              (target, factors) =
                (if \<not> (oe_dropUnknown oe \<or> isEpsilon) \<or> isDigit
                 then (let (w, coll) = copy_factors [0..<MAX_NUM_FACTORS] sourceWord (EmptyWord False, os_factors s)
                       in ([w], coll))
                 else ([], os_factors s));
              range = WordsRange sourcePos (sz_sub (sz_add sourcePos len) 1)
          in case (case oe_unknownPenalty oe of
                     None \<Rightarrow> Some (replicate (oe_numScores oe) 0)
                   | Some up \<Rightarrow> AssignProducer (ts_scoreManager (oe_system oe)) up [-100] (replicate (oe_numScores oe) 0)) of
               None \<Rightarrow> None
             | Some breakdown \<Rightarrow>
                 AddScored (oe_system oe)
                   [\<lparr>to_range = range, to_targetPhrase = target, to_scoreBreakdown = breakdown,
                     to_futureScore = 0, to_cachedScores = (\<lambda>sp. None)\<rparr>] (s\<lparr>os_factors := factors\<rparr>))"

fun graph_words :: "option_env \<Rightarrow> decode_graph \<Rightarrow> nat list \<Rightarrow> option_state \<Rightarrow> option_state option" where
  "graph_words oe graph [] s = Some s"
| "graph_words oe graph (pos # ps) s =
     (case GetTranslationOptionList oe pos pos s of
        None \<Rightarrow> None
      | Some fullList \<Rightarrow>
          (case (if length fullList = 0 then CreateTranslationOptionsForRange oe graph pos pos False s else Some s) of
             None \<Rightarrow> None
           | Some s \<Rightarrow> graph_words oe graph ps s))"

fun unlimited_graphs :: "option_env \<Rightarrow> decode_graph list \<Rightarrow> option_state \<Rightarrow> option_state option" where
  "unlimited_graphs oe [] s = Some s"
| "unlimited_graphs oe (graph # graphs) s =
     (case graph_words oe graph [0..<source_size oe] s of None \<Rightarrow> None | Some s \<Rightarrow> unlimited_graphs oe graphs s)"

fun unknown_words :: "option_env \<Rightarrow> nat list \<Rightarrow> option_state \<Rightarrow> option_state option" where
  "unknown_words oe [] s = Some s"
| "unknown_words oe (pos # ps) s =
     (case GetTranslationOptionList oe pos pos s of
        None \<Rightarrow> None
      | Some fullList \<Rightarrow>
          (case (if length fullList = 0 \<or> oe_alwaysCreateDirect oe
                 then ProcessOneUnknownWord oe (oe_source oe ! pos) pos 1 s else Some s) of
             None \<Rightarrow> None
           | Some s \<Rightarrow> unknown_words oe ps s))"

definition ProcessUnknownWord :: "option_env \<Rightarrow> option_state \<Rightarrow> option_state option" where
  "ProcessUnknownWord oe s =
     (case unlimited_graphs oe (oe_decodeGraphs oe) s of
        None \<Rightarrow> None
      | Some s \<Rightarrow> unknown_words oe [0..<source_size oe] s)"

section \<open>Pruning and sorting\<close>

definition best_option_score :: "trans_opt list \<Rightarrow> score" where
  "best_option_score l = fold (\<lambda>t best. if to_futureScore t > best then to_futureScore t else best) l MinusInf"

definition PruneList :: "option_env \<Rightarrow> trans_opt list \<Rightarrow> trans_opt list" where
  "PruneList oe fullList =
     (let fullList = (if oe_maxNoTransOptPerCoverage oe > 0 \<and> length fullList > oe_maxNoTransOptPerCoverage oe
            then take (oe_maxNoTransOptPerCoverage oe) (oe_nth_element oe (oe_maxNoTransOptPerCoverage oe) fullList)
            else fullList)
      in if length fullList > 1 \<and> oe_translationOptionThreshold oe \<noteq> MinusInf
         then let bestScore = best_option_score fullList
              in filter (\<lambda>t. \<not> to_futureScore t < bestScore + oe_translationOptionThreshold oe) fullList
         else fullList)"

text \<open>The loop over all spans; the position in the second index is the length of the span less one.\<close>

definition for_all_lists :: "option_env \<Rightarrow> (trans_opt list \<Rightarrow> trans_opt list) \<Rightarrow> option_state \<Rightarrow> option_state" where
  "for_all_lists oe f s =
     fold (\<lambda>startPos. fold (\<lambda>endPos s.
         let i = list_index oe startPos endPos in set_list startPos i (f (os_collection s ! startPos ! i)) s)
       [startPos..<startPos + span_count oe startPos]) [0..<source_size oe] s"

definition Prune :: "option_env \<Rightarrow> option_state \<Rightarrow> option_state" where
  "Prune oe s =
     (if oe_maxNoTransOptPerCoverage oe = 0 \<and> oe_translationOptionThreshold oe = MinusInf then s
      else for_all_lists oe (PruneList oe) s)"

text \<open>\<open>std::sort\<close> leaves the order of equal scores open; the model keeps it.\<close>

definition sort_options :: "trans_opt list \<Rightarrow> trans_opt list" where
  "sort_options l = rev (sort_key to_futureScore (rev l))"

definition SortOptions :: "option_env \<Rightarrow> option_state \<Rightarrow> option_state" where
  "SortOptions oe s = for_all_lists oe sort_options s"

section \<open>The table of future scores\<close>

definition init_future :: "nat \<Rightarrow> score square_matrix \<Rightarrow> score square_matrix" where
  "init_future n m =
     fold (\<lambda>row. fold (\<lambda>col m. SetScore m row col MinusInf) [row..<n]) [0..<n] m"

definition option_future :: "nat \<Rightarrow> nat \<Rightarrow> trans_opt list \<Rightarrow> score square_matrix \<Rightarrow> score square_matrix" where
  "option_future startPos endPos l m =
     fold (\<lambda>t m. if to_futureScore t > GetScore m startPos endPos then SetScore m startPos endPos (to_futureScore t) else m) l m"

definition join_future :: "nat \<Rightarrow> nat \<Rightarrow> nat \<Rightarrow> score square_matrix \<Rightarrow> score square_matrix" where
  "join_future startPos endPos joinAt m =
     (let joinedScore = GetScore m startPos joinAt + GetScore m (joinAt + 1) endPos
      in if joinedScore > GetScore m startPos endPos then SetScore m startPos endPos joinedScore else m)"

definition join_spans :: "nat \<Rightarrow> score square_matrix \<Rightarrow> score square_matrix" where
  "join_spans n m =
     fold (\<lambda>colstart. fold (\<lambda>diagshift. fold (join_future diagshift (colstart + diagshift)) [diagshift..<colstart + diagshift])
       [0..<n - colstart]) [1..<n] m"

definition CalcFutureScoreTable :: "option_env \<Rightarrow> option_state \<Rightarrow> option_state" where
  "CalcFutureScoreTable oe s =
     (let m = init_future (source_size oe) (os_futureScore s);
          m = fold (\<lambda>startPos. fold (\<lambda>endPos. option_future startPos endPos
                  (os_collection s ! startPos ! list_index oe startPos endPos))
                [startPos..<startPos + span_count oe startPos]) [0..<source_size oe] m
      in s\<lparr>os_futureScore := join_spans (source_size oe) m\<rparr>)"

section \<open>Cached reordering scores and the whole creation\<close>

definition CacheScores :: "nat \<Rightarrow> rat list \<Rightarrow> trans_opt \<Rightarrow> trans_opt" where
  "CacheScores producer score topt = topt\<lparr>to_cachedScores := (to_cachedScores topt)(producer := Some score)\<rparr>"

text \<open>The source phrase of an option of a sentence is the text of its span.\<close>

definition CacheLexReordering :: "option_env \<Rightarrow> option_state \<Rightarrow> option_state" where
  "CacheLexReordering oe s =
     fold (\<lambda>(producer, GetProb). for_all_lists oe (map (\<lambda>t.
         let score = GetProb (GetSubString (oe_source oe) (to_range t)) (to_targetPhrase t)
         in if score \<noteq> [] then CacheScores producer score t else t)))
       (oe_reorderingModels oe) s"

fun graph_spans :: "option_env \<Rightarrow> nat \<Rightarrow> decode_graph \<Rightarrow> (nat \<times> nat) list \<Rightarrow> option_state \<Rightarrow> option_state option" where
  "graph_spans oe k graph [] s = Some s"
| "graph_spans oe k graph ((startPos, endPos) # spans) s =
     (if k > 0 \<and> dg_backoff graph \<noteq> 0 \<and>
          (endPos - startPos + 1 \<ge> dg_backoff graph \<or> length (os_collection s ! startPos ! (endPos - startPos)) > 0)
      then graph_spans oe k graph spans s
      else case CreateTranslationOptionsForRange oe graph startPos endPos True s of
             None \<Rightarrow> None
           | Some s \<Rightarrow> graph_spans oe k graph spans s)"

definition all_spans_of :: "option_env \<Rightarrow> (nat \<times> nat) list" where
  "all_spans_of oe = concat (map (\<lambda>startPos. map (Pair startPos) [startPos..<startPos + span_count oe startPos])
     [0..<source_size oe])"

fun all_graphs :: "option_env \<Rightarrow> nat \<Rightarrow> decode_graph list \<Rightarrow> option_state \<Rightarrow> option_state option" where
  "all_graphs oe k [] s = Some s"
| "all_graphs oe k (graph # graphs) s =
     (case graph_spans oe k graph (all_spans_of oe) s of None \<Rightarrow> None | Some s \<Rightarrow> all_graphs oe (k + 1) graphs s)"

definition CreateTranslationOptions :: "option_env \<Rightarrow> option_state \<Rightarrow> option_state option" where
  "CreateTranslationOptions oe s =
     (case all_graphs oe 0 (oe_decodeGraphs oe) s of
        None \<Rightarrow> None
      | Some s \<Rightarrow>
          map_option (\<lambda>s. CacheLexReordering oe (CalcFutureScoreTable oe (SortOptions oe (Prune oe s))))
            (ProcessUnknownWord oe s))"


end
