(* ===== verification/Future_Costs.thy ===== *)
theory Future_Costs
  imports Translation_Options
begin

text \<open>
  What the table of future scores holds (\<open>TranslationOptionCollection::CalcFutureScore\<close>): for every
  span the best sum of option scores over all ways to cut the span into spans with options. The
  dynamic program fills the table by increasing span length.
\<close>

section \<open>Scores add up\<close>

instantiation score :: comm_monoid_add
begin

instance
proof (intro_classes, goal_cases)
  case (1 x y z)
  then show ?case by (cases x; cases y; cases z) simp_all
next
  case (2 x y)
  then show ?case by (cases x; cases y) simp_all
next
  case (3 x)
  then show ?case by (rule score_zero_plus(1))
qed

end

definition options_score :: "trans_opt list \<Rightarrow> score" where
  "options_score ts = sum_list (map to_futureScore ts)"

lemma options_score_simps [simp]:
  "options_score [] = 0" "options_score (t # ts) = to_futureScore t + options_score ts"
  "options_score (ts @ us) = options_score ts + options_score us"
  by (simp_all add: options_score_def)

section \<open>Segmentations\<close>

text \<open>Options that cover a span one after the other.\<close>

inductive segments :: "(nat \<Rightarrow> nat \<Rightarrow> trans_opt list) \<Rightarrow> nat \<Rightarrow> nat \<Rightarrow> trans_opt list \<Rightarrow> bool"
  for L :: "nat \<Rightarrow> nat \<Rightarrow> trans_opt list" where
  one: "i \<le> j \<Longrightarrow> t \<in> set (L i j) \<Longrightarrow> segments L i j [t]"
| join: "segments L i k ts \<Longrightarrow> segments L (k + 1) j us \<Longrightarrow> segments L i j (ts @ us)"

lemma segments_le: "segments L i j ts \<Longrightarrow> i \<le> j"
  by (induction rule: segments.induct) auto

inductive_cases segments_cases: "segments L i j ts"

definition best_segmentation :: "(nat \<Rightarrow> nat \<Rightarrow> trans_opt list) \<Rightarrow> nat \<Rightarrow> nat \<Rightarrow> score \<Rightarrow> bool" where
  "best_segmentation L i j v \<longleftrightarrow> (\<forall>ts. segments L i j ts \<longrightarrow> options_score ts \<le> v) \<and>
     (v = MinusInf \<or> (\<exists>ts. segments L i j ts \<and> options_score ts = v))"

section \<open>Tables as functions\<close>

definition mtable :: "nat \<Rightarrow> score square_matrix \<Rightarrow> (nat \<Rightarrow> nat \<Rightarrow> score) \<Rightarrow> bool" where
  "mtable n m f \<longleftrightarrow> wf_matrix m \<and> sm_size m = n \<and> (\<forall>i < n. \<forall>j < n. GetScore m i j = f i j)"

definition set_cell :: "nat \<Rightarrow> nat \<Rightarrow> score \<Rightarrow> (nat \<Rightarrow> nat \<Rightarrow> score) \<Rightarrow> nat \<Rightarrow> nat \<Rightarrow> score" where
  "set_cell i j v f = (\<lambda>i' j'. if i' = i \<and> j' = j then v else f i' j')"

lemma mtable_set: "mtable n m f \<Longrightarrow> i < n \<Longrightarrow> j < n \<Longrightarrow> mtable n (SetScore m i j v) (set_cell i j v f)"
  by (simp add: mtable_def set_cell_def GetScore_SetScore)

lemma mtable_get: "mtable n m f \<Longrightarrow> i < n \<Longrightarrow> j < n \<Longrightarrow> GetScore m i j = f i j"
  by (simp add: mtable_def)

lemma set_cell_same [simp]: "set_cell i j (f i j) f = f"
  by (auto simp: set_cell_def intro!: ext)

lemma set_cell_at [simp]: "set_cell i j v f i j = v"
  by (simp add: set_cell_def)

lemma set_cell_twice [simp]: "set_cell i j v (set_cell i j w f) = set_cell i j v f"
  by (auto simp: set_cell_def intro!: ext)

lemma nested_fold:
  "fold (\<lambda>a. fold (g a) (xs a)) as m = fold (\<lambda>(a, b). g a b) (concat (map (\<lambda>a. map (Pair a) (xs a)) as)) m"
proof (induction as arbitrary: m)
  case (Cons a as)
  have "fold (\<lambda>(a, b). g a b) (map (Pair a) ys) k = fold (g a) ys k" for ys k
    by (induction ys arbitrary: k) simp_all
  then show ?case using Cons by simp
qed simp

section \<open>The scores of the options\<close>

definition best_from :: "trans_opt list \<Rightarrow> score \<Rightarrow> score" where
  "best_from l v = fold (\<lambda>t v. if to_futureScore t > v then to_futureScore t else v) l v"

lemma best_from_simps [simp]:
  "best_from [] v = v" "best_from (t # l) v = best_from l (max v (to_futureScore t))"
proof -
  have "(if v < to_futureScore t then to_futureScore t else v) = max v (to_futureScore t)"
    by (simp add: max_def le_less)
  then show "best_from (t # l) v = best_from l (max v (to_futureScore t))" by (simp add: best_from_def)
qed (simp add: best_from_def)

lemma best_from_ge: "v \<le> best_from l v"
proof (induction l arbitrary: v)
  case (Cons u l)
  show ?case using Cons [of "max v (to_futureScore u)"] by simp
qed simp

lemma best_from_upper: "t \<in> set l \<Longrightarrow> to_futureScore t \<le> best_from l v"
proof (induction l arbitrary: v)
  case (Cons u l)
  have "to_futureScore u \<le> best_from l (max v (to_futureScore u))"
    using best_from_ge by (rule order_trans [rotated]) simp
  then show ?case using Cons by auto
qed simp

lemma best_from_attained: "best_from l v = v \<or> (\<exists>t \<in> set l. best_from l v = to_futureScore t)"
proof (induction l arbitrary: v)
  case (Cons u l)
  show ?case using Cons [of "max v (to_futureScore u)"] by (cases "v \<le> to_futureScore u") (auto simp: max_def)
qed simp

lemma option_future_table:
  assumes "mtable n m f" "s < n" "e < n"
  shows "mtable n (option_future s e l m) (set_cell s e (best_from l (f s e)) f)"
  using assms(1)
proof (induction l arbitrary: m f)
  case Nil
  then show ?case by (simp add: option_future_def)
next
  case (Cons t l)
  let ?m = "if to_futureScore t > GetScore m s e then SetScore m s e (to_futureScore t) else m"
  let ?v = "max (f s e) (to_futureScore t)"
  have "mtable n ?m (set_cell s e ?v f)"
    using Cons.prems mtable_set [OF Cons.prems assms(2,3)] mtable_get [OF Cons.prems assms(2,3)]
    by (auto simp: max_def)
  from Cons.IH [OF this] show ?case by (simp add: option_future_def)
qed

lemma option_spans_table:
  assumes "mtable n m f" "\<forall>(s, e) \<in> set spans. s < n \<and> e < n" "distinct spans"
  shows "mtable n (fold (\<lambda>(s, e). option_future s e (L s e)) spans m)
    (\<lambda>i j. if (i, j) \<in> set spans then best_from (L i j) (f i j) else f i j)"
  using assms
proof (induction spans arbitrary: m f)
  case Nil
  then show ?case by simp
next
  case (Cons sp spans)
  obtain s e where sp: "sp = (s, e)" by force
  let ?f = "set_cell s e (best_from (L s e) (f s e)) f"
  have "mtable n (option_future s e (L s e) m) ?f"
    using option_future_table [OF Cons.prems(1)] Cons.prems(2) sp by simp
  note IH = Cons.IH [OF this]
  have "(\<lambda>i j. if (i, j) \<in> set spans then best_from (L i j) (?f i j) else ?f i j) =
      (\<lambda>i j. if (i, j) \<in> set (sp # spans) then best_from (L i j) (f i j) else f i j)"
    using Cons.prems(3) by (auto simp: sp set_cell_def intro!: ext)
  then show ?case using IH Cons.prems(2,3) sp by simp
qed

section \<open>Joining spans\<close>

definition join_cell :: "(nat \<Rightarrow> nat \<Rightarrow> score) \<Rightarrow> nat \<Rightarrow> nat \<Rightarrow> nat list \<Rightarrow> score" where
  "join_cell f s e ks = fold (\<lambda>k v. max v (f s k + f (k + 1) e)) ks (f s e)"

lemma fold_max_ge: "v \<le> fold (\<lambda>k v. max v (h k)) ks (v :: score)"
proof (induction ks arbitrary: v)
  case (Cons k ks)
  show ?case using Cons [of "max v (h k)"] by simp
qed simp

lemma fold_max_upper: "k \<in> set ks \<Longrightarrow> (h k :: score) \<le> fold (\<lambda>k v. max v (h k)) ks v"
proof (induction ks arbitrary: v)
  case (Cons k' ks)
  have "h k' \<le> fold (\<lambda>k v. max v (h k)) ks (max v (h k'))"
    using fold_max_ge by (rule order_trans [rotated]) simp
  then show ?case using Cons by auto
qed simp

lemma fold_max_attained:
  "fold (\<lambda>k v. max v (h k)) ks v = (v :: score) \<or> (\<exists>k \<in> set ks. fold (\<lambda>k v. max v (h k)) ks v = h k)"
proof (induction ks arbitrary: v)
  case (Cons k ks)
  show ?case using Cons [of "max v (h k)"] by (cases "v \<le> h k") (auto simp: max_def)
qed simp

lemma join_future_table:
  assumes "mtable n m f" "s \<le> e" "e < n" "set ks \<subseteq> {s..<e}"
  shows "mtable n (fold (join_future s e) ks m) (set_cell s e (join_cell f s e ks) f)"
  using assms(1,4)
proof (induction ks arbitrary: m f)
  case Nil
  then show ?case by (simp add: join_cell_def)
next
  case (Cons k ks)
  let ?v = "max (f s e) (f s k + f (k + 1) e)"
  let ?f = "set_cell s e ?v f"
  have k: "s \<le> k" "k < e" using Cons.prems(2) by auto
  have s: "s < n" using assms by simp
  have eq: "join_future s e k m = (if f s k + f (k + 1) e > f s e then SetScore m s e (f s k + f (k + 1) e) else m)"
    using mtable_get [OF Cons.prems(1)] k assms(3) s by (simp add: join_future_def Let_def)
  have "mtable n (join_future s e k m) ?f"
    unfolding eq using mtable_set [OF Cons.prems(1) s assms(3)] Cons.prems(1) by (auto simp: max_def)
  note IH = Cons.IH [OF this]
  have same: "?f s i = f s i" "?f (i + 1) e = f (i + 1) e" if "i \<in> set ks" for i
    using that Cons.prems(2) by (auto simp: set_cell_def)
  have "join_cell ?f s e ks = fold (\<lambda>k v. max v (f s k + f (k + 1) e)) ks ?v"
    unfolding join_cell_def using same by (auto intro!: fold_cong)
  then show ?case using IH Cons.prems(2) by (simp add: join_cell_def)
qed

lemma join_diagonal_table:
  assumes "mtable n m f" "0 < c" "distinct ds" "\<forall>d \<in> set ds. d + c < n"
  shows "mtable n (fold (\<lambda>d. fold (join_future d (c + d)) [d..<c + d]) ds m)
    (\<lambda>i j. if i \<in> set ds \<and> j = c + i then join_cell f i j [i..<j] else f i j)"
  using assms(1,3,4)
proof (induction ds arbitrary: m f)
  case Nil
  then show ?case by simp
next
  case (Cons d ds)
  let ?f = "set_cell d (c + d) (join_cell f d (c + d) [d..<c + d]) f"
  have "mtable n (fold (join_future d (c + d)) [d..<c + d] m) ?f"
    by (rule join_future_table [OF Cons.prems(1)]) (use Cons.prems(3) in \<open>simp_all add: add.commute\<close>)
  note IH = Cons.IH [OF this]
  have jc: "join_cell ?f i (c + i) [i..<c + i] = join_cell f i (c + i) [i..<c + i]" if "i \<in> set ds" for i
    unfolding join_cell_def using that Cons.prems(2) assms(2)
    by (auto simp: set_cell_def intro!: fold_cong)
  have "(\<lambda>i j. if i \<in> set ds \<and> j = c + i then join_cell ?f i j [i..<j] else ?f i j) =
      (\<lambda>i j. if i \<in> set (d # ds) \<and> j = c + i then join_cell f i j [i..<j] else f i j)"
    using Cons.prems(2) by (auto simp: jc intro!: ext) (auto simp: set_cell_def)
  then show ?case using IH Cons.prems(2,3) by simp
qed

lemma join_cell_best:
  assumes "i < j" "f i j = best_from (L i j) MinusInf"
    "\<And>k. i \<le> k \<Longrightarrow> k < j \<Longrightarrow> best_segmentation L i k (f i k)"
    "\<And>k. i \<le> k \<Longrightarrow> k < j \<Longrightarrow> best_segmentation L (k + 1) j (f (k + 1) j)"
  shows "best_segmentation L i j (join_cell f i j [i..<j])"
proof -
  let ?h = "\<lambda>k. f i k + f (k + 1) j"
  let ?v = "join_cell f i j [i..<j]"
  have upper: "options_score ts \<le> ?v" if s: "segments L i j ts" for ts
  proof -
    from s consider (one) t where "ts = [t]" "i \<le> j" "t \<in> set (L i j)"
      | (join) k us vs where "ts = us @ vs" "segments L i k us" "segments L (k + 1) j vs"
      by (cases rule: segments.cases) auto
    then show ?thesis
    proof cases
    case one
    have "to_futureScore t \<le> f i j" unfolding assms(2) by (rule best_from_upper [OF one(3)])
    also have "f i j \<le> ?v" unfolding join_cell_def by (rule fold_max_ge)
    finally show ?thesis using one(1) by simp
  next
    case join
    have k: "i \<le> k" "k < j" using segments_le [OF join(2)] segments_le [OF join(3)] by simp_all
    have "options_score us \<le> f i k" "options_score vs \<le> f (k + 1) j"
      using assms(3,4) [OF k] join(2,3) unfolding best_segmentation_def by blast+
    then have "options_score ts \<le> ?h k" unfolding join(1) by (simp add: score_add_mono)
    also have "?h k \<le> ?v" unfolding join_cell_def by (rule fold_max_upper) (use k in simp)
    finally show ?thesis .
    qed
  qed
  have "?v = MinusInf \<or> (\<exists>ts. segments L i j ts \<and> options_score ts = ?v)"
  proof -
    from fold_max_attained [of ?h "[i..<j]" "f i j"]
    consider "?v = f i j" | k where "i \<le> k" "k < j" "?v = ?h k" unfolding join_cell_def by auto
    then show ?thesis
    proof cases
      case 1
      from best_from_attained [of "L i j" MinusInf] show ?thesis
      proof
        assume "\<exists>t \<in> set (L i j). best_from (L i j) MinusInf = to_futureScore t"
        then obtain t where "t \<in> set (L i j)" "?v = to_futureScore t" using 1 assms(2) by auto
        then have "segments L i j [t]" "options_score [t] = ?v"
          using segments.one assms(1) by (auto intro: less_imp_le)
        then show ?thesis by blast
      qed (use 1 assms(2) in simp)
    next
      case 2
      note b1 = assms(3) [OF 2(1,2)] and b2 = assms(4) [OF 2(1,2)]
      show ?thesis
      proof (cases "f i k = MinusInf \<or> f (k + 1) j = MinusInf")
        case True
        then show ?thesis using 2(3) by auto
      next
        case False
        then obtain us vs where "segments L i k us" "options_score us = f i k"
          "segments L (k + 1) j vs" "options_score vs = f (k + 1) j"
          using b1 b2 unfolding best_segmentation_def by blast
        then have "segments L i j (us @ vs)" "options_score (us @ vs) = ?v"
          using 2(3) by (auto intro: segments.join)
        then show ?thesis by blast
      qed
    qed
  qed
  with upper show ?thesis unfolding best_segmentation_def by blast
qed

lemma single_best: "best_segmentation L i i (best_from (L i i) MinusInf)"
proof -
  have one: "\<exists>t. ts = [t] \<and> t \<in> set (L i i)" if "segments L i i ts" for ts
    using that by (cases rule: segments_cases) (auto dest!: segments_le)
  have upper: "options_score ts \<le> best_from (L i i) MinusInf" if "segments L i i ts" for ts
    using one [OF that] best_from_upper [of _ "L i i"] by auto
  have "segments L i i [t] \<and> options_score [t] = to_futureScore t" if "t \<in> set (L i i)" for t
    using that by (auto intro: segments.one)
  then show ?thesis
    unfolding best_segmentation_def using upper best_from_attained [of "L i i" MinusInf] by metis
qed

text \<open>The table while the spans longer than \<open>c\<close> are still to be joined.\<close>

definition joined_upto :: "nat \<Rightarrow> (nat \<Rightarrow> nat \<Rightarrow> trans_opt list) \<Rightarrow> nat \<Rightarrow> (nat \<Rightarrow> nat \<Rightarrow> score) \<Rightarrow> bool" where
  "joined_upto n L c f \<longleftrightarrow> (\<forall>i j. i \<le> j \<and> j < n \<longrightarrow>
     (if j < i + c then best_segmentation L i j (f i j) else f i j = best_from (L i j) MinusInf))"

lemma joined_step:
  assumes "joined_upto n L c f" "0 < c"
  shows "joined_upto n L (c + 1)
    (\<lambda>i j. if i \<in> set [0..<n - c] \<and> j = c + i then join_cell f i j [i..<j] else f i j)"
  unfolding joined_upto_def
proof (intro allI impI, elim conjE)
  fix i j assume ij: "i \<le> j" "j < n"
  note all = assms(1) [unfolded joined_upto_def, rule_format]
  show "if j < i + (c + 1)
        then best_segmentation L i j (if i \<in> set [0..<n - c] \<and> j = c + i then join_cell f i j [i..<j] else f i j)
        else (if i \<in> set [0..<n - c] \<and> j = c + i then join_cell f i j [i..<j] else f i j) = best_from (L i j) MinusInf"
  proof (cases "j = c + i")
    case True
    have "best_segmentation L i j (join_cell f i j [i..<j])"
    proof (rule join_cell_best)
      show "i < j" using True assms(2) by simp
      show "f i j = best_from (L i j) MinusInf" using all [of i j] ij True by simp
      show "best_segmentation L i k (f i k)" if "i \<le> k" "k < j" for k
        using all [of i k] that ij True by simp
      show "best_segmentation L (k + 1) j (f (k + 1) j)" if "i \<le> k" "k < j" for k
        using all [of "k + 1" j] that ij True assms(2) by simp
    qed
    moreover have "i < n - c" using True ij by simp
    ultimately show ?thesis using True by simp
  next
    case False
    then show ?thesis using all [of i j] ij by (simp add: add.commute)
  qed
qed

lemma join_spans_best:
  assumes "mtable n m f" "joined_upto n L 1 f"
  shows "\<exists>g. mtable n (join_spans n m) g \<and> joined_upto n L (max n 1) g"
proof -
  have "\<exists>g. mtable n (fold (\<lambda>c. fold (\<lambda>d. fold (join_future d (c + d)) [d..<c + d]) [0..<n - c]) [1..<1 + k] m) g \<and>
      joined_upto n L (1 + k) g" for k
  proof (induction k)
    case 0
    then show ?case using assms by auto
  next
    case (Suc k)
    then obtain g where g: "mtable n (fold (\<lambda>c. fold (\<lambda>d. fold (join_future d (c + d)) [d..<c + d]) [0..<n - c]) [1..<1 + k] m) g"
      "joined_upto n L (1 + k) g" by blast
    have "\<forall>d \<in> set [0..<n - (1 + k)]. d + (1 + k) < n" by auto
    from join_diagonal_table [OF g(1) _ distinct_upt this] joined_step [OF g(2)]
    show ?case by auto
  qed
  from this [of "n - 1"] show ?thesis unfolding join_spans_def by (cases n) auto
qed


section \<open>The table of the code\<close>

lemma set_span_pairs: "(i, j) \<in> set (concat (map (\<lambda>a. map (Pair a) (h a)) xs)) \<longleftrightarrow> i \<in> set xs \<and> j \<in> set (h i)"
  by auto

lemma init_future_table:
  assumes "mtable n m f"
  shows "\<exists>g. mtable n (init_future n m) g \<and> (\<forall>i j. i \<le> j \<and> j < n \<longrightarrow> g i j = MinusInf)"
proof -
  have "\<exists>g. mtable n (fold (\<lambda>(i, j) m. SetScore m i j MinusInf) sp m) g \<and>
      (\<forall>i j. (i, j) \<in> set sp \<or> f i j = MinusInf \<longrightarrow> g i j = MinusInf)"
    if "mtable n m f" "\<forall>(i, j) \<in> set sp. i < n \<and> j < n" for sp m f
    using that
  proof (induction sp arbitrary: m f)
    case Nil
    then show ?case by auto
  next
    case (Cons p sp)
    obtain i j where p: "p = (i, j)" by force
    have "mtable n (SetScore m i j MinusInf) (set_cell i j MinusInf f)"
      using mtable_set [OF Cons.prems(1)] Cons.prems(2) p by simp
    from Cons.IH [OF this] Cons.prems(2) obtain g
      where "mtable n (fold (\<lambda>(i, j) m. SetScore m i j MinusInf) sp (SetScore m i j MinusInf)) g"
        "\<forall>a b. (a, b) \<in> set sp \<or> set_cell i j MinusInf f a b = MinusInf \<longrightarrow> g a b = MinusInf" by auto
    then show ?case unfolding p by (intro exI [of _ g]) (auto simp: set_cell_def)
  qed
  note all = this
  let ?sp = "concat (map (\<lambda>row. map (Pair row) [row..<n]) [0..<n])"
  have "\<forall>(i, j) \<in> set ?sp. i < n \<and> j < n" by auto
  from all [OF assms this] obtain g where g: "mtable n (fold (\<lambda>(i, j) m. SetScore m i j MinusInf) ?sp m) g"
    "\<And>i j. (i, j) \<in> set ?sp \<Longrightarrow> g i j = MinusInf" by blast
  have "g i j = MinusInf" if "i \<le> j" "j < n" for i j
    using g(2) [of i j] that unfolding set_span_pairs by simp
  then show ?thesis using g(1) unfolding init_future_def nested_fold by blast
qed

definition wf_collection :: "option_env \<Rightarrow> option_state \<Rightarrow> bool" where
  "wf_collection oe s \<longleftrightarrow> source_size oe < size_bound \<and> length (os_collection s) = source_size oe \<and>
     (\<forall>i < source_size oe. length (os_collection s ! i) = span_count oe i)"

definition options_of :: "option_env \<Rightarrow> option_state \<Rightarrow> nat \<Rightarrow> nat \<Rightarrow> trans_opt list" where
  "options_of oe s i j =
     (if i \<le> j \<and> i < source_size oe \<and> j < i + span_count oe i then os_collection s ! i ! (j - i) else [])"

lemma set_all_spans: "(i, j) \<in> set (all_spans_of oe) \<longleftrightarrow> i \<le> j \<and> i < source_size oe \<and> j < i + span_count oe i"
  unfolding all_spans_of_def set_span_pairs by auto

lemma distinct_all_spans: "distinct (all_spans_of oe)"
proof -
  have "distinct (concat (map (\<lambda>a. map (Pair a) (h a)) xs))" if "distinct xs" "\<forall>a. distinct (h a)"
    for h :: "nat \<Rightarrow> nat list" and xs
    using that by (induction xs) (auto simp: distinct_map inj_on_def)
  from this [of "[0..<source_size oe]"] show ?thesis unfolding all_spans_of_def by simp
qed

lemma span_bound: "i < source_size oe \<Longrightarrow> j < i + span_count oe i \<Longrightarrow> j < source_size oe"
  by (auto simp: span_count_def)

lemma list_index_span:
  "i \<le> j \<Longrightarrow> j < i + span_count oe i \<Longrightarrow> source_size oe < size_bound \<Longrightarrow> list_index oe i j = j - i"
  by (simp add: list_index_def span_count_def sz_sub_small)


lemma future_table:
  assumes "wf_collection oe s" "wf_matrix (os_futureScore s)" "sm_size (os_futureScore s) = source_size oe"
  shows "\<exists>g. mtable (source_size oe) (os_futureScore (CalcFutureScoreTable oe s)) g \<and>
    (\<forall>i j. i \<le> j \<and> j < source_size oe \<longrightarrow> best_segmentation (options_of oe s) i j (g i j))"
proof -
  let ?n = "source_size oe"
  let ?L = "\<lambda>i j. os_collection s ! i ! list_index oe i j"
  have "mtable ?n (os_futureScore s) (GetScore (os_futureScore s))" using assms by (simp add: mtable_def)
  from init_future_table [OF this] obtain g where g: "mtable ?n (init_future ?n (os_futureScore s)) g"
    "\<And>i j. i \<le> j \<Longrightarrow> j < ?n \<Longrightarrow> g i j = MinusInf" by blast
  have small: "?n < size_bound" using assms(1) by (simp add: wf_collection_def)
  let ?m = "fold (\<lambda>(s', e). option_future s' e (?L s' e)) (all_spans_of oe) (init_future ?n (os_futureScore s))"
  let ?f = "\<lambda>i j. if (i, j) \<in> set (all_spans_of oe) then best_from (?L i j) (g i j) else g i j"
  have "\<forall>(i, j) \<in> set (all_spans_of oe). i < ?n \<and> j < ?n" using span_bound set_all_spans by auto
  from option_spans_table [OF g(1) this distinct_all_spans, of ?L] have f: "mtable ?n ?m ?f" .
  have "?f i j = best_from (options_of oe s i j) MinusInf" if "i \<le> j" "j < ?n" for i j
    using that g(2) [of i j] list_index_span [OF that(1) _ small] by (auto simp: set_all_spans options_of_def)
  then have "joined_upto ?n (options_of oe s) 1 ?f"
    unfolding joined_upto_def using single_best [of "options_of oe s"] by (auto simp: le_less_Suc_eq)
  from join_spans_best [OF f this] obtain h where h: "mtable ?n (join_spans ?n ?m) h"
    "joined_upto ?n (options_of oe s) (max ?n 1) h" by blast
  have "os_futureScore (CalcFutureScoreTable oe s) = join_spans ?n ?m"
    unfolding CalcFutureScoreTable_def Let_def all_spans_of_def nested_fold by simp
  moreover have "best_segmentation (options_of oe s) i j (h i j)" if "i \<le> j" "j < ?n" for i j
    using h(2) [unfolded joined_upto_def, rule_format, of i j] that by simp
  ultimately show ?thesis using h(1) by auto
qed

lemma future_score_exact:
  assumes "wf_collection oe s" "wf_matrix (os_futureScore s)" "sm_size (os_futureScore s) = source_size oe"
    and "i \<le> j" "j < source_size oe"
  shows "best_segmentation (options_of oe s) i j (GetScore (os_futureScore (CalcFutureScoreTable oe s)) i j)"
proof -
  from future_table [OF assms(1-3)] obtain g where
    "mtable (source_size oe) (os_futureScore (CalcFutureScoreTable oe s)) g"
    "best_segmentation (options_of oe s) i j (g i j)" using assms(4,5) by blast
  then show ?thesis using mtable_get [of _ _ g i j] assms(4,5) by simp
qed

text \<open>C6: The table of future scores is exact: for every span of the sentence the cell holds the best sum of
  option scores over all ways to cut the span into pieces that have options, and minus infinity only
  when there is no such way or all are worth nothing.
\<close>

theorem future_score_is_best_segmentation:
  assumes "wf_collection oe s" "wf_matrix (os_futureScore s)" "sm_size (os_futureScore s) = source_size oe"
    and "i \<le> j" "j < source_size oe"
  shows "best_segmentation (options_of oe s) i j (GetScore (os_futureScore (CalcFutureScoreTable oe s)) i j)"
  using future_score_exact [OF assms] .

end
