(* ===== verification/Option_Creation.thy ===== *)
theory Option_Creation
  imports Future_Costs Search_Complete
begin

text \<open>
  \<open>TranslationOptionCollection::CreateTranslationOptions\<close> as a whole: it runs without failing an
  assertion, every option stands in the list of its span with a score for each feature, every word of
  the sentence ends up with an option of its own, and the future scores of all spans are finite. This is
  what the search of \<open>Search_Normal\<close> asks of its options.
\<close>

section \<open>Tables and models that keep their promises\<close>

definition system_ok :: "nat \<Rightarrow> translation_system \<Rightarrow> bool" where
  "system_ok numScores ts \<longleftrightarrow> (\<forall>lm \<in> set (ts_lms ts).
     has_block (ts_scoreManager ts) (lm_producer lm) (if ts_enableOOVFeature ts then 2 else 1) numScores)"

text \<open>The cached reordering scores of an option are at least as many for a producer as the features \<open>need\<close>.\<close>

definition cached_fit :: "(nat \<Rightarrow> nat) \<Rightarrow> trans_opt \<Rightarrow> bool" where
  "cached_fit need t \<longleftrightarrow> (\<forall>sp cs. to_cachedScores t sp = Some cs \<longrightarrow> need sp \<le> length cs)"

definition dictionary_ok :: "nat \<Rightarrow> phrase_dictionary \<Rightarrow> bool" where
  "dictionary_ok numScores pd \<longleftrightarrow> (\<forall>r l. pd_GetTargetPhraseCollection pd r = Some l \<longrightarrow>
     (\<forall>tp \<in> set l. length (tp_scoreBreakdown tp) \<le> numScores))"

definition step_ok :: "nat \<Rightarrow> graph_step \<Rightarrow> bool" where
  "step_ok numScores step \<longleftrightarrow>
     (case step of
        TranslationStep pd ds \<Rightarrow> dictionary_ok numScores pd
      | GenerationStep FindWord ds \<Rightarrow>
          (\<forall>w l. FindWord w = Some l \<longrightarrow> (\<forall>(v, score) \<in> set l. length score \<le> numScores)))"

definition graph_ok :: "nat \<Rightarrow> decode_graph \<Rightarrow> bool" where
  "graph_ok numScores g \<longleftrightarrow> dictionary_ok numScores (dg_initial g) \<and> (\<forall>step \<in> set (dg_steps g). step_ok numScores step)"

definition tables_ok :: "(nat \<Rightarrow> nat) \<Rightarrow> option_env \<Rightarrow> bool" where
  "tables_ok need oe \<longleftrightarrow> system_ok (oe_numScores oe) (oe_system oe) \<and> nth_element_ok (oe_nth_element oe) \<and>
     (\<forall>g \<in> set (oe_decodeGraphs oe). graph_ok (oe_numScores oe) g) \<and>
     (\<forall>t \<in> set (oe_xmlOptionsList oe). length (to_scoreBreakdown t) = oe_numScores oe \<and> cached_fit need t) \<and>
     (\<forall>up. oe_unknownPenalty oe = Some up \<longrightarrow> has_block (ts_scoreManager (oe_system oe)) up 1 (oe_numScores oe)) \<and>
     (\<forall>(producer, GetProb) \<in> set (oe_reorderingModels oe). \<forall>f e. GetProb f e \<noteq> [] \<longrightarrow> need producer \<le> length (GetProb f e)) \<and>
     (\<forall>w \<in> set (oe_source oe). WordGetFactor w 0 \<noteq> None) \<and>
     source_size oe < size_bound \<and> 0 < oe_maxPhraseLength oe \<and> oe_translationOptionThreshold oe \<le> 0"

lemma tables_graphs: "tables_ok need oe \<Longrightarrow> \<forall>g \<in> set (oe_decodeGraphs oe). graph_ok (oe_numScores oe) g"
  by (simp add: tables_ok_def)

lemma tables_xml: "tables_ok need oe \<Longrightarrow> t \<in> set (oe_xmlOptionsList oe) \<Longrightarrow>
    length (to_scoreBreakdown t) = oe_numScores oe \<and> cached_fit need t"
  by (simp add: tables_ok_def)

definition opt_shape :: "nat \<Rightarrow> (nat \<Rightarrow> nat) \<Rightarrow> words_range \<Rightarrow> trans_opt \<Rightarrow> bool" where
  "opt_shape numScores need r t \<longleftrightarrow> to_range t = r \<and> length (to_scoreBreakdown t) = numScores \<and> cached_fit need t"

definition opt_ok :: "nat \<Rightarrow> (nat \<Rightarrow> nat) \<Rightarrow> words_range \<Rightarrow> trans_opt \<Rightarrow> bool" where
  "opt_ok numScores need r t \<longleftrightarrow> opt_shape numScores need r t \<and> to_futureScore t \<noteq> MinusInf"

section \<open>Scoring and partial options\<close>

lemma LMListCalcScore_ok:
  "\<forall>lm \<in> set lms. has_block (ts_scoreManager ts) (lm_producer lm) (if ts_enableOOVFeature ts then 2 else 1) (length b) \<Longrightarrow>
   \<exists>acc' b'. LMListCalcScore ts lms p acc b = Some (acc', b') \<and> length b' = length b"
proof (induction lms arbitrary: acc b)
  case Nil
  then show ?case by (cases acc) simp
next
  case (Cons lm lms)
  obtain f n u where acc: "acc = (f, n, u)" by (metis surj_pair)
  obtain fs ns oov where lm: "lm_CalcScore lm p = (fs, ns, oov)" using prod_cases3 by blast
  have "has_block (ts_scoreManager ts) (lm_producer lm) (length (if ts_enableOOVFeature ts then [ns, of_nat oov] else [ns]))
      (length b)" using Cons.prems by (simp add: numeral_2_eq_2 split: if_splits)
  from AssignProducer_block [OF this] obtain b1 where
    b1: "AssignProducer (ts_scoreManager ts) (lm_producer lm) (if ts_enableOOVFeature ts then [ns, of_nat oov] else [ns]) b = Some b1"
      "length b1 = length b" by blast
  show ?case using Cons.IH [of b] Cons.IH [of b1] Cons.prems b1 by (simp add: acc lm)
qed

lemma TOCalcScore_ok:
  assumes "system_ok k ts" "opt_shape k need r t"
  shows "\<exists>u. TOCalcScore ts t = Some u \<and> opt_ok k need r u \<and> to_targetPhrase u = to_targetPhrase t"
proof -
  obtain full ngram oov b where "LMListCalcScore ts (ts_lms ts) (to_targetPhrase t) (0, 0, 0) (to_scoreBreakdown t) =
      Some ((full, ngram, oov), b)" "length b = length (to_scoreBreakdown t)"
    using LMListCalcScore_ok [of "ts_lms ts" ts "to_scoreBreakdown t" "to_targetPhrase t" "(0, 0, 0)"] assms
    unfolding system_ok_def opt_shape_def by (metis prod_cases3)
  then show ?thesis using assms(2) by (simp add: TOCalcScore_def opt_ok_def opt_shape_def cached_fit_def)
qed

text \<open>What a loop over created options hands on: no failure, and options of the span.\<close>

definition created_ok :: "nat \<Rightarrow> (nat \<Rightarrow> nat) \<Rightarrow> words_range \<Rightarrow> trans_opt created \<Rightarrow> bool" where
  "created_ok k need r x \<longleftrightarrow> (case x of Failed \<Rightarrow> False | Null \<Rightarrow> True | Created t \<Rightarrow> opt_shape k need r t)"

lemma PartialPrune_subset:
  "nth_element_ok nth_elem \<Longrightarrow> set (pt_list (PartialPrune nth_elem maxSize d)) \<subseteq> set (pt_list d)"
  using nth_element_okD(3) [of nth_elem maxSize "pt_list d"] set_take_subset [of maxSize "nth_elem maxSize (pt_list d)"]
  by (auto simp: PartialPrune_def Let_def)

lemma PartialAdd_ok:
  assumes "nth_element_ok nth_elem" "system_ok k ts" "opt_shape k need r t" "\<forall>u \<in> set (pt_list c). opt_shape k need r u"
  shows "\<exists>c'. PartialAdd nth_elem maxSize ts t c = Some c' \<and> (\<forall>u \<in> set (pt_list c'). opt_shape k need r u)"
proof -
  obtain u where u: "TOCalcScore ts t = Some u" "opt_shape k need r u"
    using TOCalcScore_ok [OF assms(2,3)] by (auto simp: opt_ok_def)
  then obtain d where d: "AddNoPrune ts t c = Some d" "\<forall>v \<in> set (pt_list d). opt_shape k need r v"
    using assms(4) by (auto simp: AddNoPrune_def)
  then show ?thesis using PartialPrune_subset [OF assms(1), of maxSize d] by (auto simp: PartialAdd_def)
qed

lemma add_created_ok:
  assumes "nth_element_ok nth_elem" "system_ok k ts" "\<forall>x \<in> set xs. created_ok k need r x" "\<forall>u \<in> set (pt_list c). opt_shape k need r u"
  shows "\<exists>c'. add_created nth_elem maxSize ts xs c = Some c' \<and> (\<forall>u \<in> set (pt_list c'). opt_shape k need r u)"
  using assms(3,4)
proof (induction xs arbitrary: c)
  case (Cons x xs)
  show ?case
  proof (cases x)
    case (Created t)
    then obtain d where "PartialAdd nth_elem maxSize ts t c = Some d" "\<forall>u \<in> set (pt_list d). opt_shape k need r u"
      using PartialAdd_ok [OF assms(1,2)] Cons.prems by (force simp: created_ok_def)
    then show ?thesis using Cons.IH [of d] Cons.prems(1) Created by simp
  qed (use Cons in \<open>simp_all add: created_ok_def\<close>)
qed simp

section \<open>Decoding steps never fail\<close>

lemma limited_subset: "set (limited pd adhere l) \<subseteq> set l"
  using set_take_subset [of "pd_tableLimit pd" l] by (auto simp: limited_def)

lemma TranslationOptionInit_ok:
  "length (tp_scoreBreakdown tp) \<le> k \<Longrightarrow>
   created_ok k need r (case TranslationOptionInit k r tp of None \<Rightarrow> Failed | Some t \<Rightarrow> Created t)"
  using PlusEquals_length [of "tp_scoreBreakdown tp" "replicate k 0"]
  by (auto simp: TranslationOptionInit_def created_ok_def opt_shape_def cached_fit_def)

lemma MergeNewFeatures_ok:
  assumes "length p = length (to_targetPhrase t)" "length score \<le> k" "opt_shape k need r t"
  shows "\<exists>u. MergeNewFeatures p score fs t = Some u \<and> opt_shape k need r u"
proof -
  have "\<exists>target. (case fs of [] \<Rightarrow> Some (to_targetPhrase t) | [f] \<Rightarrow> MergeFactorsOne f (to_targetPhrase t) p
      | fs \<Rightarrow> MergeFactorsVec fs (to_targetPhrase t) p) = Some target"
    using assms(1) by (auto simp: MergeFactorsOne_def MergeFactorsVec_def split: list.splits)
  moreover obtain b where "PlusEquals (to_scoreBreakdown t) score = Some b" "length b = length (to_scoreBreakdown t)"
    using PlusEquals_length assms(2,3) unfolding opt_shape_def by metis
  ultimately show ?thesis using assms(1,3) by (auto simp: MergeNewFeatures_def opt_shape_def cached_fit_def)
qed

lemma MergeTranslation_ok:
  assumes "length (tp_words tp) = length (to_targetPhrase t)" "length (tp_scoreBreakdown tp) \<le> k" "opt_shape k need r t"
  shows "created_ok k need r (MergeTranslation ds t tp)"
  using MergeNewFeatures_ok [OF assms, of "m_newOutputFactors ds"] by (auto simp: MergeTranslation_def created_ok_def)

lemma MergeGeneration_ok:
  assumes "length p = length (to_targetPhrase t)" "length score \<le> k" "opt_shape k need r t"
  shows "created_ok k need r (MergeGeneration ds t p score)"
  using MergeNewFeatures_ok [OF assms, of "m_newOutputFactors ds"] by (auto simp: MergeGeneration_def created_ok_def)

lemma generation_score_ok:
  "\<forall>s \<in> set ss. length s \<le> length acc \<Longrightarrow> \<exists>acc'. generation_score acc ss = Some acc' \<and> length acc' = length acc"
proof (induction ss arbitrary: acc)
  case (Cons s ss)
  then obtain b where "PlusEquals acc s = Some b" "length b = length acc" using PlusEquals_length by force
  then show ?case using Cons.IH [of b] Cons.prems by simp
qed simp

lemma iterator_states_digits:
  "digits ns is \<Longrightarrow> js \<in> set (iterator_states k ns is) \<Longrightarrow> digits ns js"
proof (induction k arbitrary: "is")
  case (Suc k)
  then show ?case using Increment_step [OF Suc.prems(1)] by auto
qed simp

lemma iterator_start:
  assumes "js \<in> set (iterator_states (num_iterations ns) ns (map (\<lambda>n. 0) ns))"
  shows "digits ns js"
proof (cases "0 \<in> set ns")
  case True
  have zero: "fold (\<lambda>n k. (k * n) mod size_bound) ms 0 = 0" for ms by (induction ms) auto
  have "0 \<in> set ms \<Longrightarrow> fold (\<lambda>n k. (k * n) mod size_bound) ms k = 0" for ms k
    by (induction ms arbitrary: k) (auto simp: zero)
  then have "num_iterations ns = 0" using True by (simp add: num_iterations_def)
  then show ?thesis using assms by simp
next
  case False
  then have "digits ns (map (\<lambda>n. 0) ns)" by (induction ns) auto
  then show ?thesis using iterator_states_digits assms by blast
qed


lemma ProcessInitialTranslation_ok:
  assumes "nth_element_ok nth_elem" "system_ok k ts" "dictionary_ok k pd" "\<forall>u \<in> set (pt_list c). opt_shape k need (WordsRange i j) u"
  shows "\<exists>c'. ProcessInitialTranslation nth_elem maxSize ts k pd i j adhere c = Some c' \<and>
    (\<forall>u \<in> set (pt_list c'). opt_shape k need (WordsRange i j) u)"
proof (cases "pd_GetTargetPhraseCollection pd (WordsRange i j)")
  case (Some l)
  have "\<forall>tp \<in> set (limited pd adhere l). length (tp_scoreBreakdown tp) \<le> k"
    using assms(3) Some limited_subset unfolding dictionary_ok_def by blast
  then have "\<forall>x \<in> set (map (\<lambda>tp. case TranslationOptionInit k (WordsRange i j) tp of None \<Rightarrow> Failed | Some t \<Rightarrow> Created t)
      (limited pd adhere l)). created_ok k need (WordsRange i j) x"
    using TranslationOptionInit_ok by simp
  from add_created_ok [OF assms(1,2) this assms(4)] show ?thesis using Some by (simp add: ProcessInitialTranslation_def)
qed (use assms(4) in \<open>simp add: ProcessInitialTranslation_def\<close>)

lemma TranslationProcess_ok:
  assumes "nth_element_ok nth_elem" "system_ok k ts" "dictionary_ok k pd" "opt_shape k need r t" "\<forall>u \<in> set (pt_list c). opt_shape k need r u"
  shows "\<exists>c'. TranslationProcess nth_elem maxSize ts pd ds t adhere c = Some c' \<and> (\<forall>u \<in> set (pt_list c'). opt_shape k need r u)"
proof (cases "length (to_targetPhrase t) = 0")
  case True
  then show ?thesis using PartialAdd_ok [OF assms(1,2,4,5)] by (simp add: TranslationProcess_def)
next
  case False
  show ?thesis
  proof (cases "pd_GetTargetPhraseCollection pd (to_range t)")
    case (Some l)
    let ?l = "filter (\<lambda>tp. length (tp_words tp) = length (to_targetPhrase t)) (limited pd adhere l)"
    have "\<forall>tp \<in> set ?l. length (tp_scoreBreakdown tp) \<le> k \<and> length (tp_words tp) = length (to_targetPhrase t)"
      using assms(3) Some limited_subset unfolding dictionary_ok_def by fastforce
    then have "\<forall>x \<in> set (map (MergeTranslation ds t) ?l). created_ok k need r x"
      using MergeTranslation_ok assms(4) by simp
    from add_created_ok [OF assms(1,2) this assms(5)] show ?thesis using False Some by (simp add: TranslationProcess_def)
  qed (use False assms(5) in \<open>simp add: TranslationProcess_def\<close>)
qed

lemma generated_option_ok:
  assumes "length wordLists = length (to_targetPhrase t)" "opt_shape k need r t" "digits (map length wordLists) is"
    and "\<forall>l \<in> set wordLists. \<forall>(v, score) \<in> set l. length score \<le> k"
  shows "created_ok k need r (generated_option ds k t wordLists is)"
proof -
  let ?pairs = "map2 (\<lambda>l i. l ! i) wordLists is"
  have len: "length is = length wordLists" using assms(3) by (auto simp: digits_def list_all2_iff)
  have nth: "is ! p < length (wordLists ! p)" if "p < length is" for p
    using assms(3) that len by (simp add: digits_def list_all2_conv_all_nth)
  have "\<forall>s \<in> set (map snd ?pairs). length s \<le> k"
  proof
    fix s assume "s \<in> set (map snd ?pairs)"
    then obtain p where p: "p < length is" "s = snd (wordLists ! p ! (is ! p))"
      using len by (auto simp: in_set_conv_nth)
    then have "wordLists ! p ! (is ! p) \<in> set (wordLists ! p)" "wordLists ! p \<in> set wordLists" using nth len by simp_all
    then show "length s \<le> k" using assms(4) p(2) by (metis (no_types, lifting) case_prod_unfold)
  qed
  then obtain score where "generation_score (replicate k 0) (map snd ?pairs) = Some score" "length score = k"
    using generation_score_ok [of "map snd ?pairs" "replicate k 0"] by auto
  moreover have "length (map fst ?pairs) = length (to_targetPhrase t)" using assms(1) len by simp
  ultimately show ?thesis
    using MergeGeneration_ok [of "map fst ?pairs" t score k need r] assms(2) by (simp add: generated_option_def Let_def)
qed

lemma GenerationProcess_ok:
  assumes "nth_element_ok nth_elem" "system_ok k ts" "step_ok k (GenerationStep FindWord ds)"
    and "opt_shape k need r t" "\<forall>u \<in> set (pt_list c). opt_shape k need r u"
  shows "\<exists>c'. GenerationProcess nth_elem maxSize ts k FindWord ds t c = Some c' \<and> (\<forall>u \<in> set (pt_list c'). opt_shape k need r u)"
proof (cases "length (to_targetPhrase t) = 0")
  case True
  then show ?thesis using PartialAdd_ok [OF assms(1,2,4,5)] by (simp add: GenerationProcess_def)
next
  case False
  show ?thesis
  proof (cases "those (map FindWord (to_targetPhrase t))")
    case (Some ls)
    then have ls: "map FindWord (to_targetPhrase t) = map Some ls" by (simp add: those_Some_iff)
    then have len: "length ls = length (to_targetPhrase t)" by (metis length_map)
    have "\<exists>w. FindWord w = Some l" if l: "l \<in> set ls" for l
    proof -
      have "Some l \<in> set (map FindWord (to_targetPhrase t))" using l ls by simp
      then show ?thesis by auto
    qed
    then have scores: "\<forall>l \<in> set ls. \<forall>(v, score) \<in> set l. length score \<le> k"
      using assms(3) unfolding step_ok_def by fastforce
    have "\<forall>x \<in> set (map (generated_option ds k t ls)
        (iterator_states (num_iterations (map length ls)) (map length ls) (map (\<lambda>n. 0) (map length ls)))). created_ok k need r x"
      using generated_option_ok [OF len assms(4) _ scores] iterator_start by auto
    from add_created_ok [OF assms(1,2) this assms(5)] show ?thesis
      using False Some by (simp add: GenerationProcess_def Let_def)
  qed (use False assms(5) in \<open>simp add: GenerationProcess_def\<close>)
qed

lemma step_process_ok:
  assumes "tables_ok need oe" "step_ok (oe_numScores oe) step" "opt_shape (oe_numScores oe) need r t"
    and "\<forall>u \<in> set (pt_list c). opt_shape (oe_numScores oe) need r u"
  shows "\<exists>c'. step_process oe adhere step t c = Some c' \<and> (\<forall>u \<in> set (pt_list c'). opt_shape (oe_numScores oe) need r u)"
proof -
  have ok: "nth_element_ok (oe_nth_element oe)" "system_ok (oe_numScores oe) (oe_system oe)" using assms(1) by (simp_all add: tables_ok_def)
  show ?thesis
  proof (cases step)
    case (TranslationStep pd ds)
    then show ?thesis using TranslationProcess_ok [OF ok _ assms(3,4)] assms(2) by (simp add: step_process_def step_ok_def)
  next
    case (GenerationStep FindWord ds)
    then show ?thesis using GenerationProcess_ok [OF ok _ assms(3,4)] assms(2) by (simp add: step_process_def)
  qed
qed

lemma process_inputs_ok:
  assumes "tables_ok need oe" "step_ok (oe_numScores oe) step" "\<forall>t \<in> set ts. opt_shape (oe_numScores oe) need r t"
    and "\<forall>u \<in> set (pt_list c). opt_shape (oe_numScores oe) need r u"
  shows "\<exists>c'. process_inputs oe adhere step ts c = Some c' \<and> (\<forall>u \<in> set (pt_list c'). opt_shape (oe_numScores oe) need r u)"
  using assms(3,4)
proof (induction ts arbitrary: c)
  case (Cons t ts)
  then obtain d where d: "step_process oe adhere step t c = Some d" "\<forall>u \<in> set (pt_list d). opt_shape (oe_numScores oe) need r u"
    using step_process_ok [OF assms(1,2), of r t c adhere] by auto
  then show ?case using Cons.IH [of d] Cons.prems by simp
qed simp

lemma process_steps_ok:
  assumes "tables_ok need oe" "\<forall>step \<in> set steps. step_ok (oe_numScores oe) step" "\<forall>u \<in> set (pt_list c). opt_shape (oe_numScores oe) need r u"
  shows "\<exists>c'. process_steps oe adhere steps c = Some c' \<and> (\<forall>u \<in> set (pt_list c'). opt_shape (oe_numScores oe) need r u)"
  using assms(2,3)
proof (induction steps arbitrary: c)
  case (Cons step steps)
  then obtain d where d: "process_inputs oe adhere step (pt_list c) PartialTranslOptCollInit = Some d"
    "\<forall>u \<in> set (pt_list d). opt_shape (oe_numScores oe) need r u"
    using process_inputs_ok [OF assms(1), of step "pt_list c" r PartialTranslOptCollInit adhere]
    by (auto simp: PartialTranslOptCollInit_def)
  then show ?case using Cons.IH [of d] Cons.prems by simp
qed simp

lemma decoded_options_ok:
  assumes "tables_ok need oe" "graph_ok (oe_numScores oe) graph"
  shows "\<exists>l. decoded_options oe graph i j adhere = Some l \<and> (\<forall>t \<in> set l. opt_shape (oe_numScores oe) need (WordsRange i j) t)"
proof -
  have ok: "nth_element_ok (oe_nth_element oe)" "system_ok (oe_numScores oe) (oe_system oe)" using assms(1) by (simp_all add: tables_ok_def)
  have g: "dictionary_ok (oe_numScores oe) (dg_initial graph)" "\<forall>step \<in> set (dg_steps graph). step_ok (oe_numScores oe) step"
    using assms(2) by (simp_all add: graph_ok_def)
  obtain c where c: "ProcessInitialTranslation (oe_nth_element oe) (oe_maxNoPartTransOpt oe) (oe_system oe) (oe_numScores oe)
      (dg_initial graph) i j adhere PartialTranslOptCollInit = Some c"
    "\<forall>u \<in> set (pt_list c). opt_shape (oe_numScores oe) need (WordsRange i j) u"
    using ProcessInitialTranslation_ok [OF ok g(1), of PartialTranslOptCollInit need i j "oe_maxNoPartTransOpt oe" adhere]
    by (auto simp: PartialTranslOptCollInit_def)
  then show ?thesis using process_steps_ok [OF assms(1) g(2) c(2), of adhere] by (auto simp: decoded_options_def)
qed


section \<open>The collection while options are added\<close>

definition cache_ok :: "nat \<Rightarrow> (nat \<Rightarrow> nat) \<Rightarrow> option_cache \<Rightarrow> bool" where
  "cache_ok k need cache \<longleftrightarrow> (\<forall>(key, l, t) \<in> set cache. \<forall>topt \<in> set l. length (to_scoreBreakdown topt) = k \<and> to_futureScore topt \<noteq> MinusInf \<and> cached_fit need topt)"

definition os_ok :: "(nat \<Rightarrow> nat) \<Rightarrow> option_env \<Rightarrow> option_state \<Rightarrow> bool" where
  "os_ok need oe s \<longleftrightarrow> wf_collection oe s \<and> cache_ok (oe_numScores oe) need (os_cache s) \<and>
     (\<forall>i j. \<forall>t \<in> set (options_of oe s i j). opt_ok (oe_numScores oe) need (WordsRange i j) t)"

definition span_in :: "option_env \<Rightarrow> nat \<Rightarrow> nat \<Rightarrow> bool" where
  "span_in oe i j \<longleftrightarrow> i \<le> j \<and> i < source_size oe \<and> j < i + span_count oe i"

text \<open>An operation that only adds options.\<close>

definition grown :: "(nat \<Rightarrow> nat) \<Rightarrow> option_env \<Rightarrow> option_state \<Rightarrow> option_state \<Rightarrow> bool" where
  "grown need oe s s' \<longleftrightarrow> os_ok need oe s' \<and> os_futureScore s' = os_futureScore s \<and>
     (\<forall>i j. set (options_of oe s i j) \<subseteq> set (options_of oe s' i j))"

lemma grown_refl: "os_ok need oe s \<Longrightarrow> grown need oe s s"
  by (simp add: grown_def)

lemma grown_trans [trans]: "grown need oe s s' \<Longrightarrow> grown need oe s' s'' \<Longrightarrow> grown need oe s s''"
  unfolding grown_def by (metis subset_trans)

lemma grown_nonempty: "grown need oe s s' \<Longrightarrow> options_of oe s i j \<noteq> [] \<Longrightarrow> options_of oe s' i j \<noteq> []"
  unfolding grown_def by (metis set_empty subset_empty)

lemma grown_ok: "grown need oe s s' \<Longrightarrow> os_ok need oe s'"
  by (simp add: grown_def)

lemma span_of_word: "tables_ok need oe \<Longrightarrow> p < source_size oe \<Longrightarrow> span_in oe p p"
  by (auto simp: span_in_def span_count_def tables_ok_def)

lemma span_in_end: "span_in oe i j \<Longrightarrow> j < source_size oe"
  by (auto simp: span_in_def span_count_def)

lemma Get_options_of:
  assumes "wf_collection oe s" "span_in oe i j"
  shows "GetTranslationOptionList oe i j s = Some (options_of oe s i j)"
proof -
  have "list_index oe i j = j - i"
    using list_index_span [of i j oe] assms by (simp add: span_in_def wf_collection_def)
  then show ?thesis using assms by (auto simp: GetTranslationOptionList_def span_in_def wf_collection_def options_of_def Let_def)
qed

lemma options_of_set_list:
  assumes "wf_collection oe s" "span_in oe i j"
  shows "wf_collection oe (set_list i (j - i) l s) \<and>
    options_of oe (set_list i (j - i) l s) a b = (if a = i \<and> b = j then l else options_of oe s a b)"
  using assms by (auto simp: set_list_def wf_collection_def options_of_def span_in_def nth_list_update)

lemma AddOption_eq:
  assumes "wf_collection oe s" "span_in oe i j" "to_range t = WordsRange i j"
  shows "AddOption t s = Some (set_list i (j - i) (options_of oe s i j @ [t]) s)"
proof -
  have "j < size_bound" using span_in_end [OF assms(2)] assms(1) by (simp add: wf_collection_def)
  then have "sz_sub j i = j - i" using assms(2) by (simp add: span_in_def sz_sub_small)
  then show ?thesis using assms by (auto simp: AddOption_def Let_def wf_collection_def span_in_def options_of_def)
qed

lemma set_list_simps [simp]:
  "os_futureScore (set_list i k l s) = os_futureScore s" "os_cache (set_list i k l s) = os_cache s"
  "os_factors (set_list i k l s) = os_factors s"
  by (simp_all add: set_list_def)

lemma AddOption_ok:
  assumes "os_ok need oe s" "span_in oe i j" "opt_ok (oe_numScores oe) need (WordsRange i j) t"
  shows "\<exists>s'. AddOption t s = Some s' \<and> grown need oe s s' \<and> t \<in> set (options_of oe s' i j)"
proof -
  have wf: "wf_collection oe s" using assms(1) by (simp add: os_ok_def)
  have "to_range t = WordsRange i j" using assms(3) by (simp add: opt_ok_def opt_shape_def)
  note add = AddOption_eq [OF wf assms(2) this]
  show ?thesis unfolding add
    using options_of_set_list [OF wf assms(2), of "options_of oe s i j @ [t]"] assms(1,3)
    by (auto simp: grown_def os_ok_def)
qed

lemma AddOptions_ok:
  assumes "os_ok need oe s" "span_in oe i j" "\<forall>t \<in> set ts. opt_ok (oe_numScores oe) need (WordsRange i j) t"
  shows "\<exists>s'. AddOptions ts s = Some s' \<and> grown need oe s s'"
  using assms(1,3)
proof (induction ts arbitrary: s)
  case Nil
  then show ?case by (simp add: grown_refl)
next
  case (Cons t ts)
  then obtain s1 where s1: "AddOption t s = Some s1" "grown need oe s s1"
    using AddOption_ok [OF Cons.prems(1) assms(2)] by fastforce
  from Cons.IH [OF grown_ok [OF s1(2)]] Cons.prems(2) obtain s2 where "AddOptions ts s1 = Some s2" "grown need oe s1 s2" by auto
  then show ?case using s1 grown_trans by auto
qed

lemma AddScored_ok:
  assumes "system_ok (oe_numScores oe) ts" "os_ok need oe s" "span_in oe i j" "\<forall>t \<in> set xs. opt_shape (oe_numScores oe) need (WordsRange i j) t"
  shows "\<exists>s'. AddScored ts xs s = Some s' \<and> grown need oe s s' \<and> (xs \<noteq> [] \<longrightarrow> options_of oe s' i j \<noteq> [])"
  using assms(2,4)
proof (induction xs arbitrary: s)
  case Nil
  then show ?case by (simp add: grown_refl)
next
  case (Cons t xs)
  obtain u where u: "TOCalcScore ts t = Some u" "opt_ok (oe_numScores oe) need (WordsRange i j) u"
    using TOCalcScore_ok [OF assms(1)] Cons.prems(2) by fastforce
  obtain s1 where s1: "AddOption u s = Some s1" "grown need oe s s1" "u \<in> set (options_of oe s1 i j)"
    using AddOption_ok [OF Cons.prems(1) assms(3) u(2)] by auto
  from Cons.IH [OF grown_ok [OF s1(2)]] Cons.prems(2) obtain s2 where s2: "AddScored ts xs s1 = Some s2" "grown need oe s1 s2" by auto
  have "u \<in> set (options_of oe s2 i j)" using s1(3) s2(2) by (auto simp: grown_def)
  then have "options_of oe s2 i j \<noteq> []" by auto
  then show ?case using u s1(1) s2(1) grown_trans [OF s1(2) s2(2)] by simp
qed


section \<open>Creating the options of a span\<close>

lemma cache_okD: "cache_ok k need cache \<Longrightarrow> (key, l, t) \<in> set cache \<Longrightarrow> topt \<in> set l \<Longrightarrow>
    length (to_scoreBreakdown topt) = k \<and> to_futureScore topt \<noteq> MinusInf \<and> cached_fit need topt"
  unfolding cache_ok_def by fastforce

lemma Find_ok:
  assumes "cache_ok k need cache" "FindTransOptListInCache now g p cache = Some (l, cache')"
  shows "cache_ok k need cache' \<and> (\<forall>t \<in> set l. length (to_scoreBreakdown t) = k \<and> to_futureScore t \<noteq> MinusInf \<and> cached_fit need t)"
proof -
  obtain key t0 where f: "find (\<lambda>(k, l, t). key_eq k (g, p)) cache = Some (key, l, t0)"
    and c': "cache' = map (\<lambda>(k', l', t'). if key_eq k' (g, p) then (k', l', now) else (k', l', t')) cache"
    using assms(2) unfolding FindTransOptListInCache_def by auto
  have "(key, l, t0) \<in> set cache" using f by (metis find_Some_iff nth_mem)
  moreover have "cache_ok k need cache'" using assms(1) unfolding c' cache_ok_def by (fastforce split: if_splits)
  ultimately show ?thesis using cache_okD [OF assms(1)] by blast
qed

lemma Reduce_ok: "cache_ok k need cache \<Longrightarrow> cache_ok k need (ReduceTransOptCache m cache)"
  by (auto simp: cache_ok_def ReduceTransOptCache_def Let_def)

lemma AddToCache_ok:
  assumes "cache_ok k need cache" "\<forall>t \<in> set l. length (to_scoreBreakdown t) = k \<and> to_futureScore t \<noteq> MinusInf \<and> cached_fit need t"
  shows "cache_ok k need (AddTransOptListToCache m now g p l cache)"
proof -
  have "cache_ok k need (map (\<lambda>(k', l', t'). if key_eq k' (g, p) then (k', l, now) else (k', l', t')) cache)"
    using assms unfolding cache_ok_def by (fastforce split: if_splits)
  moreover have "cache_ok k need (cache @ [((g, p), l, now)])" using assms by (auto simp: cache_ok_def)
  ultimately show ?thesis using assms(1) Reduce_ok by (auto simp: AddTransOptListToCache_def split: option.splits)
qed

lemma os_ok_cache:
  "os_ok need oe s \<Longrightarrow> cache_ok (oe_numScores oe) need cache \<Longrightarrow> grown need oe s (s\<lparr>os_cache := cache\<rparr>)"
  by (simp add: grown_def os_ok_def wf_collection_def options_of_def)

lemma os_ok_factors: "os_ok need oe s \<Longrightarrow> grown need oe s (s\<lparr>os_factors := f\<rparr>)"
  by (simp add: grown_def os_ok_def wf_collection_def options_of_def)

lemma CreateXmlOptionsForRange_ok:
  assumes "tables_ok need oe" "os_ok need oe s" "span_in oe i j"
  shows "\<exists>s'. CreateXmlOptionsForRange oe i j s = Some s' \<and> grown need oe s s'"
proof -
  have "\<forall>t \<in> set (GetXmlTranslationOptions oe i j). opt_shape (oe_numScores oe) need (WordsRange i j) t"
    using assms(1) by (auto simp: GetXmlTranslationOptions_def tables_ok_def opt_shape_def words_range.expand)
  then show ?thesis
    using AddScored_ok [OF _ assms(2,3), of "oe_system oe" "GetXmlTranslationOptions oe i j"] assms(1)
    unfolding CreateXmlOptionsForRange_def tables_ok_def by blast
qed

lemma create_decoded_ok:
  assumes "tables_ok need oe" "graph_ok (oe_numScores oe) graph" "os_ok need oe s" "span_in oe i j"
  shows "\<exists>s'. create_decoded oe graph i j adhere s = Some s' \<and> grown need oe s s'"
proof -
  obtain l where l: "decoded_options oe graph i j adhere = Some l" "\<forall>t \<in> set l. opt_shape (oe_numScores oe) need (WordsRange i j) t"
    using decoded_options_ok [OF assms(1,2)] by blast
  have sys: "system_ok (oe_numScores oe) (oe_system oe)" using assms(1) by (simp add: tables_ok_def)
  obtain s1 where s1: "AddScored (oe_system oe) l s = Some s1" "grown need oe s s1"
    using AddScored_ok [OF sys assms(3,4) l(2)] by blast
  have ok: "os_ok need oe s1" "wf_collection oe s1" using grown_ok [OF s1(2)] by (simp_all add: os_ok_def)
  note get = Get_options_of [OF ok(2) assms(4)]
  have "\<forall>t \<in> set (options_of oe s1 i j). length (to_scoreBreakdown t) = oe_numScores oe \<and> to_futureScore t \<noteq> MinusInf \<and> cached_fit need t"
    using ok(1) by (auto simp: os_ok_def opt_ok_def opt_shape_def)
  then have "cache_ok (oe_numScores oe) need (AddTransOptListToCache m now g p (options_of oe s1 i j) (os_cache s1))" for m now g p
    using AddToCache_ok ok(1) by (simp add: os_ok_def)
  note os_ok_cache [OF ok(1) this]
  then show ?thesis using l(1) s1 get by (auto simp: create_decoded_def intro: grown_trans)
qed

lemma CreateForRange_ok:
  assumes "tables_ok need oe" "graph_ok (oe_numScores oe) graph" "os_ok need oe s" "span_in oe i j"
  shows "\<exists>s'. CreateTranslationOptionsForRange oe graph i j adhere s = Some s' \<and> grown need oe s s'"
proof -
  let ?r = "WordsRange i j"
  let ?found = "if oe_useTransOptCache oe then FindTransOptListInCache (oe_clock oe (dg_position graph) ?r adhere)
      (dg_position graph) (GetSubString (oe_source oe) ?r) (os_cache s) else None"
  let ?created = "case ?found of
      Some (l, cache) \<Rightarrow> AddOptions (map (\<lambda>t. t\<lparr>to_range := ?r\<rparr>) l) (s\<lparr>os_cache := cache\<rparr>)
    | None \<Rightarrow> create_decoded oe graph i j adhere s"
  let ?first = "if oe_xmlInputType oe \<noteq> XmlExclusive \<or> \<not> XmlOverlap oe i j then ?created else Some s"
  have created: "\<exists>s'. ?created = Some s' \<and> grown need oe s s'"
  proof (cases ?found)
    case None
    then show ?thesis using create_decoded_ok [OF assms] by simp
  next
    case (Some lc)
    obtain l cache where lc: "lc = (l, cache)" by force
    have "cache_ok (oe_numScores oe) need (os_cache s)" using assms(3) by (simp add: os_ok_def)
    from Find_ok [OF this] Some lc have found: "cache_ok (oe_numScores oe) need cache"
      "\<forall>t \<in> set l. length (to_scoreBreakdown t) = oe_numScores oe \<and> to_futureScore t \<noteq> MinusInf \<and> cached_fit need t" by (metis option.distinct(1))+
    let ?s = "s\<lparr>os_cache := cache\<rparr>"
    have g: "grown need oe s ?s" by (rule os_ok_cache [OF assms(3) found(1)])
    have "\<forall>t \<in> set (map (\<lambda>t. t\<lparr>to_range := ?r\<rparr>) l). opt_ok (oe_numScores oe) need ?r t"
      using found(2) by (simp add: opt_ok_def opt_shape_def cached_fit_def)
    from AddOptions_ok [OF grown_ok [OF g] assms(4) this] show ?thesis using Some lc grown_trans [OF g] by auto
  qed
  then obtain s1 where s1: "?first = Some s1" "grown need oe s s1"
    using grown_refl [OF assms(3)] by (cases "oe_xmlInputType oe \<noteq> XmlExclusive \<or> \<not> XmlOverlap oe i j") auto
  from CreateXmlOptionsForRange_ok [OF assms(1) grown_ok [OF s1(2)] assms(4)] obtain s2 where
    s2: "CreateXmlOptionsForRange oe i j s1 = Some s2" "grown need oe s1 s2" by blast
  have "CreateTranslationOptionsForRange oe graph i j adhere s =
      (case ?first of None \<Rightarrow> None | Some s \<Rightarrow>
         if oe_xmlInputType oe \<noteq> XmlPassThrough \<and> XmlOverlap oe i j then CreateXmlOptionsForRange oe i j s else Some s)"
    unfolding CreateTranslationOptionsForRange_def Let_def by (rule refl)
  then show ?thesis unfolding s1(1) using s1(2) s2 grown_trans [OF s1(2) s2(2)] by simp
qed


section \<open>All spans, all words\<close>

lemma all_spans_ok: "(i, j) \<in> set (all_spans_of oe) \<longleftrightarrow> span_in oe i j"
  by (simp add: set_all_spans span_in_def)

lemma graph_spans_ok:
  assumes "tables_ok need oe" "graph_ok (oe_numScores oe) graph" "os_ok need oe s" "\<forall>(i, j) \<in> set spans. span_in oe i j"
  shows "\<exists>s'. graph_spans oe k graph spans s = Some s' \<and> grown need oe s s'"
  using assms(3,4)
proof (induction spans arbitrary: s)
  case Nil
  then show ?case by (simp add: grown_refl)
next
  case (Cons sp spans)
  obtain i j where sp: "sp = (i, j)" by force
  obtain s1 where s1: "CreateTranslationOptionsForRange oe graph i j True s = Some s1" "grown need oe s s1"
    using CreateForRange_ok [OF assms(1,2) Cons.prems(1), of i j True] Cons.prems(2) sp by auto
  obtain s2 where s2: "graph_spans oe k graph spans s1 = Some s2" "grown need oe s1 s2"
    using Cons.IH [OF grown_ok [OF s1(2)]] Cons.prems(2) by auto
  show ?case using Cons.IH [OF Cons.prems(1)] Cons.prems(2) s1 s2 grown_trans [OF s1(2) s2(2)] by (auto simp: sp)
qed

lemma all_graphs_ok:
  assumes "tables_ok need oe" "\<forall>g \<in> set graphs. graph_ok (oe_numScores oe) g" "os_ok need oe s"
  shows "\<exists>s'. all_graphs oe k graphs s = Some s' \<and> grown need oe s s'"
  using assms(2,3)
proof (induction graphs arbitrary: s k)
  case Nil
  then show ?case by (simp add: grown_refl)
next
  case (Cons g graphs)
  have "\<forall>(i, j) \<in> set (all_spans_of oe). span_in oe i j" using all_spans_ok by auto
  then obtain s1 where s1: "graph_spans oe k g (all_spans_of oe) s = Some s1" "grown need oe s s1"
    using graph_spans_ok [OF assms(1) _ Cons.prems(2), of g "all_spans_of oe" k] Cons.prems(1) by auto
  obtain s2 where s2: "all_graphs oe (k + 1) graphs s1 = Some s2" "grown need oe s1 s2"
    using Cons.IH [OF _ grown_ok [OF s1(2)]] Cons.prems(1) by auto
  show ?case using s1 s2 grown_trans [OF s1(2) s2(2)] by simp
qed

lemma graph_words_ok:
  assumes "tables_ok need oe" "graph_ok (oe_numScores oe) g" "os_ok need oe s" "\<forall>p \<in> set ps. p < source_size oe"
  shows "\<exists>s'. graph_words oe g ps s = Some s' \<and> grown need oe s s'"
  using assms(3,4)
proof (induction ps arbitrary: s)
  case Nil
  then show ?case by (simp add: grown_refl)
next
  case (Cons p ps)
  have sp: "span_in oe p p" using span_of_word [OF assms(1)] Cons.prems(2) by simp
  have get: "GetTranslationOptionList oe p p s = Some (options_of oe s p p)"
    using Get_options_of [OF _ sp] Cons.prems(1) by (simp add: os_ok_def)
  obtain s1 where s1: "(if length (options_of oe s p p) = 0 then CreateTranslationOptionsForRange oe g p p False s else Some s) = Some s1"
    "grown need oe s s1" using CreateForRange_ok [OF assms(1,2) Cons.prems(1) sp, of False] grown_refl [OF Cons.prems(1)]
    by (cases "options_of oe s p p = []") auto
  obtain s2 where s2: "graph_words oe g ps s1 = Some s2" "grown need oe s1 s2"
    using Cons.IH [OF grown_ok [OF s1(2)]] Cons.prems(2) by auto
  have "graph_words oe g (p # ps) s = graph_words oe g ps s1"
    unfolding graph_words.simps get option.case s1(1) by (rule refl)
  then show ?case using s2 grown_trans [OF s1(2)] by auto
qed

lemma unlimited_graphs_ok:
  assumes "tables_ok need oe" "\<forall>g \<in> set graphs. graph_ok (oe_numScores oe) g" "os_ok need oe s"
  shows "\<exists>s'. unlimited_graphs oe graphs s = Some s' \<and> grown need oe s s'"
  using assms(2,3)
proof (induction graphs arbitrary: s)
  case Nil
  then show ?case by (simp add: grown_refl)
next
  case (Cons g graphs)
  obtain s1 where s1: "graph_words oe g [0..<source_size oe] s = Some s1" "grown need oe s s1"
    using graph_words_ok [OF assms(1) _ Cons.prems(2), of g "[0..<source_size oe]"] Cons.prems(1) by auto
  obtain s2 where s2: "unlimited_graphs oe graphs s1 = Some s2" "grown need oe s1 s2"
    using Cons.IH [OF _ grown_ok [OF s1(2)]] Cons.prems(1) by auto
  show ?case using s1 s2 grown_trans [OF s1(2) s2(2)] by simp
qed

lemma ProcessOneUnknownWord_ok:
  assumes "tables_ok need oe" "os_ok need oe s" "p < source_size oe"
  shows "\<exists>s'. ProcessOneUnknownWord oe (oe_source oe ! p) p 1 s = Some s' \<and> grown need oe s s' \<and> options_of oe s' p p \<noteq> []"
proof -
  have small: "source_size oe < size_bound" using assms(1) by (simp add: tables_ok_def)
  have "oe_source oe ! p \<in> set (oe_source oe)" using assms(3) by (simp add: source_size_def)
  then obtain f where f: "WordGetFactor (oe_source oe ! p) 0 = Some f" using assms(1) by (fastforce simp: tables_ok_def)
  have "sz_sub (sz_add p 1) 1 = p" using assms(3) small by (simp add: sz_add_small sz_sub_small)
  then have range: "WordsRange p (sz_sub (sz_add p 1) 1) = WordsRange p p" by simp
  have "\<exists>b. (case oe_unknownPenalty oe of None \<Rightarrow> Some (replicate (oe_numScores oe) 0)
      | Some up \<Rightarrow> AssignProducer (ts_scoreManager (oe_system oe)) up [-100] (replicate (oe_numScores oe) 0)) = Some b \<and>
      length b = oe_numScores oe"
    using AssignProducer_block [of "ts_scoreManager (oe_system oe)" _ "[-100]" "replicate (oe_numScores oe) 0"] assms(1)
    by (auto simp: tables_ok_def split: option.splits)
  then obtain b where b: "(case oe_unknownPenalty oe of None \<Rightarrow> Some (replicate (oe_numScores oe) 0)
      | Some up \<Rightarrow> AssignProducer (ts_scoreManager (oe_system oe)) up [-100] (replicate (oe_numScores oe) 0)) = Some b"
      "length b = oe_numScores oe" by blast
  have sys: "system_ok (oe_numScores oe) (oe_system oe)" using assms(1) by (simp add: tables_ok_def)
  have add: "\<exists>s'. AddScored (oe_system oe) [\<lparr>to_range = WordsRange p p, to_targetPhrase = target, to_scoreBreakdown = b,
      to_futureScore = 0, to_cachedScores = (\<lambda>sp. None)\<rparr>] (s\<lparr>os_factors := fs\<rparr>) = Some s' \<and>
      grown need oe s s' \<and> options_of oe s' p p \<noteq> []" for target fs
  proof -
    let ?t = "\<lparr>to_range = WordsRange p p, to_targetPhrase = target, to_scoreBreakdown = b,
      to_futureScore = 0, to_cachedScores = (\<lambda>sp. None)\<rparr>"
    have g: "grown need oe s (s\<lparr>os_factors := fs\<rparr>)" by (rule os_ok_factors [OF assms(2)])
    have "\<forall>t \<in> set [?t]. opt_shape (oe_numScores oe) need (WordsRange p p) t" using b(2) by (simp add: opt_shape_def cached_fit_def)
    from AddScored_ok [OF sys grown_ok [OF g] span_of_word [OF assms(1,3)] this] show ?thesis
      using grown_trans [OF g] by (metis list.distinct(1))
  qed
  show ?thesis
    unfolding ProcessOneUnknownWord_def f option.case Let_def b(1) range
    using add by (auto split: prod.splits)
qed

lemma unknown_words_ok:
  assumes "tables_ok need oe" "os_ok need oe s" "\<forall>p \<in> set ps. p < source_size oe"
  shows "\<exists>s'. unknown_words oe ps s = Some s' \<and> grown need oe s s' \<and> (\<forall>p \<in> set ps. options_of oe s' p p \<noteq> [])"
  using assms(2,3)
proof (induction ps arbitrary: s)
  case Nil
  then show ?case by (simp add: grown_refl)
next
  case (Cons p ps)
  have sp: "span_in oe p p" using span_of_word [OF assms(1)] Cons.prems(2) by simp
  have get: "GetTranslationOptionList oe p p s = Some (options_of oe s p p)"
    using Get_options_of [OF _ sp] Cons.prems(1) by (simp add: os_ok_def)
  obtain s1 where s1: "(if length (options_of oe s p p) = 0 \<or> oe_alwaysCreateDirect oe
      then ProcessOneUnknownWord oe (oe_source oe ! p) p 1 s else Some s) = Some s1" "grown need oe s s1" "options_of oe s1 p p \<noteq> []"
    using ProcessOneUnknownWord_ok [OF assms(1) Cons.prems(1), of p] grown_refl [OF Cons.prems(1)] Cons.prems(2)
    by (cases "options_of oe s p p = [] \<or> oe_alwaysCreateDirect oe") auto
  obtain s2 where s2: "unknown_words oe ps s1 = Some s2" "grown need oe s1 s2" "\<forall>p \<in> set ps. options_of oe s2 p p \<noteq> []"
    using Cons.IH [OF grown_ok [OF s1(2)]] Cons.prems(2) by auto
  have "options_of oe s2 p p \<noteq> []" using grown_nonempty [OF s2(2) s1(3)] .
  moreover have "unknown_words oe (p # ps) s = unknown_words oe ps s1"
    unfolding unknown_words.simps get option.case s1(1) by (rule refl)
  ultimately show ?case using s2 grown_trans [OF s1(2)] by auto
qed

lemma ProcessUnknownWord_ok:
  assumes "tables_ok need oe" "os_ok need oe s"
  shows "\<exists>s'. ProcessUnknownWord oe s = Some s' \<and> grown need oe s s' \<and> (\<forall>p < source_size oe. options_of oe s' p p \<noteq> [])"
proof -
  obtain s1 where s1: "unlimited_graphs oe (oe_decodeGraphs oe) s = Some s1" "grown need oe s s1"
    using unlimited_graphs_ok [OF assms(1) tables_graphs [OF assms(1)] assms(2)] by blast
  have "\<forall>p \<in> set [0..<source_size oe]. p < source_size oe" by simp
  from unknown_words_ok [OF assms(1) grown_ok [OF s1(2)] this] show ?thesis
    using s1 grown_trans [OF s1(2)] by (force simp: ProcessUnknownWord_def)
qed


section \<open>Pruning, sorting and cached scores\<close>

lemma for_all_lists_spans:
  "for_all_lists oe f s = fold (\<lambda>(i, j) s. set_list i (list_index oe i j) (f (os_collection s ! i ! list_index oe i j)) s)
     (all_spans_of oe) s"
  unfolding for_all_lists_def all_spans_of_def nested_fold Let_def by (rule refl)

lemma for_all_lists_options:
  assumes "wf_collection oe s"
  shows "wf_collection oe (for_all_lists oe f s) \<and> os_futureScore (for_all_lists oe f s) = os_futureScore s \<and>
    os_cache (for_all_lists oe f s) = os_cache s \<and>
    options_of oe (for_all_lists oe f s) i j = (if span_in oe i j then f (options_of oe s i j) else [])"
proof -
  let ?step = "\<lambda>(i, j) s. set_list i (list_index oe i j) (f (os_collection s ! i ! list_index oe i j)) s"
  have "wf_collection oe (fold ?step sp s) \<and> os_futureScore (fold ?step sp s) = os_futureScore s \<and>
      os_cache (fold ?step sp s) = os_cache s \<and>
      options_of oe (fold ?step sp s) i j = (if (i, j) \<in> set sp then f (options_of oe s i j) else options_of oe s i j)"
    if "wf_collection oe s" "\<forall>(i, j) \<in> set sp. span_in oe i j" "distinct sp" for sp s
    using that
  proof (induction sp arbitrary: s)
    case (Cons p sp)
    obtain a b where p: "p = (a, b)" by force
    have sp: "span_in oe a b" using Cons.prems(2) p by simp
    have "list_index oe a b = b - a"
      using list_index_span [of a b oe] sp Cons.prems(1) by (simp add: span_in_def wf_collection_def)
    moreover have "os_collection s ! a ! (b - a) = options_of oe s a b" using sp by (simp add: options_of_def span_in_def)
    ultimately have "?step p s = set_list a (b - a) (f (options_of oe s a b)) s" by (simp add: p)
    then have fold: "fold ?step (p # sp) s = fold ?step sp (set_list a (b - a) (f (options_of oe s a b)) s)" by simp
    note set = options_of_set_list [OF Cons.prems(1) sp, of "f (options_of oe s a b)"]
    have "wf_collection oe (set_list a (b - a) (f (options_of oe s a b)) s)" using set by blast
    from Cons.IH [OF this] Cons.prems(2,3) show ?case
      unfolding fold using set [of i j] p by auto
  qed simp
  from this [OF assms, of "all_spans_of oe"] have
    "wf_collection oe (for_all_lists oe f s) \<and> os_futureScore (for_all_lists oe f s) = os_futureScore s \<and>
     os_cache (for_all_lists oe f s) = os_cache s \<and>
     options_of oe (for_all_lists oe f s) i j = (if span_in oe i j then f (options_of oe s i j) else options_of oe s i j)"
    unfolding for_all_lists_spans all_spans_ok using distinct_all_spans [of oe] all_spans_ok by blast
  moreover have "\<not> span_in oe i j \<Longrightarrow> options_of oe s i j = []" by (auto simp: options_of_def span_in_def)
  ultimately show ?thesis by auto
qed

text \<open>A step that goes through all lists and keeps every option well formed and no list empty.\<close>

definition list_step_ok :: "nat \<Rightarrow> (nat \<Rightarrow> nat) \<Rightarrow> (trans_opt list \<Rightarrow> trans_opt list) \<Rightarrow> bool" where
  "list_step_ok k need f \<longleftrightarrow> (\<forall>l. (\<forall>t \<in> set l. to_futureScore t \<noteq> MinusInf) \<longrightarrow> (l \<noteq> [] \<longrightarrow> f l \<noteq> []) \<and>
     (\<forall>r. (\<forall>t \<in> set l. opt_ok k need r t) \<longrightarrow> (\<forall>t \<in> set (f l). opt_ok k need r t)))"

lemma list_step:
  assumes "list_step_ok (oe_numScores oe) need f" "os_ok need oe s"
  shows "os_ok need oe (for_all_lists oe f s) \<and> os_futureScore (for_all_lists oe f s) = os_futureScore s \<and>
    (\<forall>i j. options_of oe s i j \<noteq> [] \<longrightarrow> options_of oe (for_all_lists oe f s) i j \<noteq> [])"
proof -
  have wf: "wf_collection oe s" using assms(2) by (simp add: os_ok_def)
  note fa = for_all_lists_options [OF wf, of f]
  have fin: "\<forall>t \<in> set (options_of oe s i j). to_futureScore t \<noteq> MinusInf" for i j
    using assms(2) by (auto simp: os_ok_def opt_ok_def)
  have st: "options_of oe s i j \<noteq> [] \<longrightarrow> f (options_of oe s i j) \<noteq> []"
    "(\<forall>t \<in> set (options_of oe s i j). opt_ok (oe_numScores oe) need (WordsRange i j) t) \<longrightarrow>
       (\<forall>t \<in> set (f (options_of oe s i j)). opt_ok (oe_numScores oe) need (WordsRange i j) t)" for i j
    using assms(1) fin [of i j] unfolding list_step_ok_def by blast+
  have "opt_ok (oe_numScores oe) need (WordsRange i j) t" if "t \<in> set (options_of oe (for_all_lists oe f s) i j)" for i j t
    using that fa [of i j] st assms(2) by (auto simp: os_ok_def split: if_splits)
  moreover have "options_of oe (for_all_lists oe f s) i j \<noteq> []" if "options_of oe s i j \<noteq> []" for i j
  proof -
    have "span_in oe i j" using that by (auto simp: options_of_def span_in_def split: if_splits)
    then show ?thesis using fa [of i j] st(1) that by simp
  qed
  ultimately show ?thesis using fa assms(2) by (auto simp: os_ok_def)
qed

lemma best_option_score_eq: "best_option_score l = best_from l MinusInf"
  by (simp add: best_option_score_def best_from_def)

lemma PruneList_ok:
  assumes "tables_ok need oe"
  shows "list_step_ok (oe_numScores oe) need (PruneList oe)"
proof -
  have nth: "nth_element_ok (oe_nth_element oe)" and thr: "oe_translationOptionThreshold oe \<le> 0"
    using assms by (simp_all add: tables_ok_def)
  have "set (PruneList oe l) \<subseteq> set l \<and> (l \<noteq> [] \<longrightarrow> PruneList oe l \<noteq> [])"
    if fin: "\<forall>t \<in> set l. to_futureScore t \<noteq> MinusInf" for l
  proof -
    let ?m = "oe_maxNoTransOptPerCoverage oe"
    define k where "k = (if ?m > 0 \<and> length l > ?m then take ?m (oe_nth_element oe ?m l) else l)"
    have sub: "set k \<subseteq> set l"
      using nth_element_okD(3) [OF nth, of ?m l] set_take_subset [of ?m "oe_nth_element oe ?m l"] by (auto simp: k_def)
    have ne: "l \<noteq> [] \<Longrightarrow> k \<noteq> []" using nth_element_okD(2) [OF nth, of ?m l] by (auto simp: k_def)
    have "\<exists>t \<in> set k. to_futureScore t = best_from k MinusInf" if kne: "k \<noteq> []"
    proof -
      obtain u where "u \<in> set k" using hd_in_set [OF kne] by blast
      moreover from this have "to_futureScore u \<noteq> MinusInf" using sub fin by blast
      moreover have "to_futureScore u \<le> best_from k MinusInf" by (rule best_from_upper [OF calculation(1)])
      ultimately have "best_from k MinusInf \<noteq> MinusInf"
        by (cases "to_futureScore u"; cases "best_from k MinusInf") simp_all
      then show ?thesis using best_from_attained [of k MinusInf] by metis
    qed
    moreover have "best_from k MinusInf + oe_translationOptionThreshold oe \<le> best_from k MinusInf"
      using score_add_mono [OF order_refl thr, of "best_from k MinusInf"] by simp
    ultimately have "filter (\<lambda>t. \<not> to_futureScore t < best_from k MinusInf + oe_translationOptionThreshold oe) k \<noteq> []"
      if "k \<noteq> []" using that unfolding filter_empty_conv by (metis leD)
    then show ?thesis using sub ne unfolding PruneList_def Let_def best_option_score_eq k_def [symmetric] by auto
  qed
  then show ?thesis unfolding list_step_ok_def by blast
qed

lemma sort_options_ok: "list_step_ok k need sort_options"
proof -
  have "set (sort_options l) = set l" for l by (simp add: sort_options_def)
  then show ?thesis unfolding list_step_ok_def by (metis set_empty)
qed

lemma CacheScores_ok:
  "opt_ok k need r t \<Longrightarrow> need producer \<le> length score \<Longrightarrow> opt_ok k need r (CacheScores producer score t)"
  by (simp add: opt_ok_def opt_shape_def cached_fit_def CacheScores_def)

lemma cache_scores_ok:
  "\<forall>f e. GetProb f e \<noteq> [] \<longrightarrow> need producer \<le> length (GetProb f e) \<Longrightarrow>
   list_step_ok k need (map (\<lambda>t. let score = GetProb (g t) (to_targetPhrase t) in if score \<noteq> [] then CacheScores producer score t else t))"
  by (auto simp: list_step_ok_def Let_def intro: CacheScores_ok)


section \<open>The whole creation\<close>

lemma segments_same_scores:
  assumes "segments L i j ts" "\<And>i j. to_futureScore ` set (L i j) \<subseteq> to_futureScore ` set (L' i j)"
  shows "\<exists>us. segments L' i j us \<and> options_score us = options_score ts"
  using assms(1)
proof (induction rule: segments.induct)
  case (one i j t)
  then obtain u where "u \<in> set (L' i j)" "to_futureScore u = to_futureScore t" using assms(2) [of i j] by (auto simp: image_iff)
  then show ?case using segments.one [OF one(1)] by fastforce
next
  case (join i k ts j us)
  then obtain ts' us' where "segments L' i k ts'" "options_score ts' = options_score ts"
    "segments L' (k + 1) j us'" "options_score us' = options_score us" by blast
  then show ?case using segments.join [of L' i k ts' j us'] by (intro exI [of _ "ts' @ us'"]) simp
qed

lemma best_segmentation_cong:
  assumes "\<And>i j. to_futureScore ` set (L i j) = to_futureScore ` set (L' i j)"
  shows "best_segmentation L i j v \<longleftrightarrow> best_segmentation L' i j v"
proof -
  have "\<exists>us. segments L' i j us \<and> options_score us = options_score ts" if "segments L i j ts" for ts
    by (rule segments_same_scores [OF that]) (use assms in simp)
  moreover have "\<exists>us. segments L i j us \<and> options_score us = options_score ts" if "segments L' i j ts" for ts
    by (rule segments_same_scores [OF that]) (use assms in simp)
  ultimately show ?thesis unfolding best_segmentation_def by metis
qed

lemma word_segments:
  assumes "\<And>i. i \<le> n \<Longrightarrow> L i i \<noteq> []" "\<And>i j t. t \<in> set (L i j) \<Longrightarrow> to_futureScore t \<noteq> MinusInf" "i \<le> j" "j \<le> n"
  shows "\<exists>ts. segments L i j ts \<and> options_score ts \<noteq> MinusInf"
  using assms(3,4)
proof (induction j rule: dec_induct)
  case base
  then obtain t where "t \<in> set (L i i)" using assms(1) [of i] by (cases "L i i") auto
  then show ?case using assms(2) by (intro exI [of _ "[t]"]) (auto intro: segments.one)
next
  case (step m)
  then obtain ts where ts: "segments L i m ts" "options_score ts \<noteq> MinusInf" by auto
  obtain t where t: "t \<in> set (L (Suc m) (Suc m))" using assms(1) [of "Suc m"] step.prems by (cases "L (Suc m) (Suc m)") auto
  then have "segments L i (Suc m) (ts @ [t])" using segments.join [OF ts(1)] segments.one [of "Suc m" "Suc m" t L] by simp
  moreover have "options_score (ts @ [t]) \<noteq> MinusInf"
    using ts(2) assms(2) [OF t] by (cases "options_score ts"; cases "to_futureScore t") auto
  ultimately show ?case by blast
qed

lemma CacheLexReordering_ok:
  assumes "tables_ok need oe" "os_ok need oe s"
  shows "os_ok need oe (CacheLexReordering oe s) \<and> os_futureScore (CacheLexReordering oe s) = os_futureScore s \<and>
    (\<forall>i j. map to_futureScore (options_of oe (CacheLexReordering oe s) i j) = map to_futureScore (options_of oe s i j))"
proof -
  let ?f = "\<lambda>(producer, GetProb). map (\<lambda>t. let score = GetProb (GetSubString (oe_source oe) (to_range t)) (to_targetPhrase t)
         in if score \<noteq> [] then CacheScores producer score t else t)"
  have "os_ok need oe (fold (\<lambda>m. for_all_lists oe (?f m)) ms s) \<and>
      os_futureScore (fold (\<lambda>m. for_all_lists oe (?f m)) ms s) = os_futureScore s \<and>
      (\<forall>i j. map to_futureScore (options_of oe (fold (\<lambda>m. for_all_lists oe (?f m)) ms s) i j) = map to_futureScore (options_of oe s i j))"
    if "set ms \<subseteq> set (oe_reorderingModels oe)" "os_ok need oe s" for ms s
    using that
  proof (induction ms arbitrary: s)
    case (Cons m ms)
    have "\<forall>f e. snd m f e \<noteq> [] \<longrightarrow> need (fst m) \<le> length (snd m f e)"
      using Cons.prems(1) assms(1) by (fastforce simp: tables_ok_def)
    then have ok: "list_step_ok (oe_numScores oe) need (?f m)"
      unfolding case_prod_beta by (rule cache_scores_ok)
    note st = list_step [OF ok Cons.prems(2)]
    have wf: "wf_collection oe s" using Cons.prems(2) by (simp add: os_ok_def)
    have keep: "map to_futureScore (?f m l) = map to_futureScore l" for l
      by (cases m) (auto simp: Let_def CacheScores_def)
    have "map to_futureScore (options_of oe (for_all_lists oe (?f m) s) i j) = map to_futureScore (options_of oe s i j)" for i j
    proof (cases "span_in oe i j")
      case True
      then show ?thesis using for_all_lists_options [OF wf, of "?f m" i j] keep by presburger
    next
      case False
      then have "options_of oe s i j = []" by (auto simp: options_of_def span_in_def)
      then show ?thesis using for_all_lists_options [OF wf, of "?f m" i j] False by simp
    qed
    then show ?case using Cons.IH [of "for_all_lists oe (?f m) s"] Cons.prems(1) st by simp
  qed simp
  from this [OF subset_refl assms(2)] show ?thesis
    unfolding CacheLexReordering_def case_prod_beta by simp
qed


lemma Prune_ok:
  assumes "tables_ok need oe" "os_ok need oe s"
  shows "os_ok need oe (Prune oe s) \<and> os_futureScore (Prune oe s) = os_futureScore s \<and>
    (\<forall>i j. options_of oe s i j \<noteq> [] \<longrightarrow> options_of oe (Prune oe s) i j \<noteq> [])"
  using list_step [OF PruneList_ok [OF assms(1)] assms(2)] assms(2) by (simp add: Prune_def)

lemma Sort_ok:
  assumes "os_ok need oe s"
  shows "os_ok need oe (SortOptions oe s) \<and> os_futureScore (SortOptions oe s) = os_futureScore s \<and>
    (\<forall>i j. options_of oe s i j \<noteq> [] \<longrightarrow> options_of oe (SortOptions oe s) i j \<noteq> [])"
  using list_step [OF sort_options_ok assms] by (simp add: SortOptions_def)

text \<open>What the search reads: options in the right lists, one for every word, and exact future scores.\<close>

definition options_ready :: "(nat \<Rightarrow> nat) \<Rightarrow> option_env \<Rightarrow> option_state \<Rightarrow> bool" where
  "options_ready need oe s \<longleftrightarrow> os_ok need oe s \<and> (\<forall>i < source_size oe. options_of oe s i i \<noteq> []) \<and>
     (\<forall>i j. i \<le> j \<and> j < source_size oe \<longrightarrow>
        best_segmentation (options_of oe s) i j (GetScore (os_futureScore s) i j))"

lemma created_ready:
  assumes "tables_ok need oe" "os_ok need oe s0" "wf_matrix (os_futureScore s0)" "sm_size (os_futureScore s0) = source_size oe"
  shows "\<exists>s. CreateTranslationOptions oe s0 = Some s \<and> options_ready need oe s"
proof -
  have "\<forall>g \<in> set (oe_decodeGraphs oe). graph_ok (oe_numScores oe) g" using assms(1) by (simp add: tables_ok_def)
  from all_graphs_ok [OF assms(1) this assms(2)] obtain s1 where
    s1: "all_graphs oe 0 (oe_decodeGraphs oe) s0 = Some s1" "grown need oe s0 s1" by blast
  obtain s2 where s2: "ProcessUnknownWord oe s1 = Some s2" "grown need oe s1 s2" "\<forall>p < source_size oe. options_of oe s2 p p \<noteq> []"
    using ProcessUnknownWord_ok [OF assms(1) grown_ok [OF s1(2)]] by blast
  note p = Prune_ok [OF assms(1) grown_ok [OF s2(2)]]
  define s4 where "s4 = SortOptions oe (Prune oe s2)"
  have s4: "os_ok need oe s4" "os_futureScore s4 = os_futureScore s0" "\<forall>p < source_size oe. options_of oe s4 p p \<noteq> []"
    using Sort_ok [OF conjunct1 [OF p]] p s1(2) s2(2,3) unfolding s4_def grown_def by simp_all
  define s5 where "s5 = CalcFutureScoreTable oe s4"
  have same: "options_of oe s5 = options_of oe s4"
    by (intro ext) (simp add: s5_def CalcFutureScoreTable_def Let_def options_of_def)
  have "wf_collection oe s5 = wf_collection oe s4" "os_cache s5 = os_cache s4"
    by (simp_all add: s5_def CalcFutureScoreTable_def Let_def wf_collection_def)
  then have s5: "os_ok need oe s5" using s4(1) same by (simp add: os_ok_def)
  have wf4: "wf_collection oe s4" using s4(1) by (simp add: os_ok_def)
  have best: "best_segmentation (options_of oe s5) i j (GetScore (os_futureScore s5) i j)" if "i \<le> j" "j < source_size oe" for i j
    using future_score_exact [OF wf4 _ _ that] s4(2) assms(3,4) same by (simp add: s5_def)
  note c = CacheLexReordering_ok [OF assms(1) s5]
  have len: "options_of oe (CacheLexReordering oe s5) i j = [] \<longleftrightarrow> options_of oe s5 i j = []" for i j
    using c by (metis map_is_Nil_conv)
  have "to_futureScore ` set (options_of oe (CacheLexReordering oe s5) i j) = to_futureScore ` set (options_of oe s5 i j)" for i j
    using c by (metis set_map)
  note cong = best_segmentation_cong [OF this]
  have "options_ready need oe (CacheLexReordering oe s5)"
    unfolding options_ready_def cong using c best len same s4(3) by simp
  moreover have "CreateTranslationOptions oe s0 = Some (CacheLexReordering oe s5)"
    using s1(1) s2(1) by (simp add: CreateTranslationOptions_def s5_def s4_def)
  ultimately show ?thesis by blast
qed

lemma ready_finite:
  assumes "options_ready need oe s"
  shows "finite_costs (source_size oe) (os_futureScore s)"
  unfolding finite_costs_def
proof (intro allI impI)
  fix i j assume ij: "j < source_size oe" "i \<le> j"
  have "to_futureScore t \<noteq> MinusInf" if "t \<in> set (options_of oe s a b)" for a b t
    using assms that by (auto simp: options_ready_def os_ok_def opt_ok_def)
  moreover have "options_of oe s k k \<noteq> []" if "k \<le> source_size oe - 1" for k
    using assms that ij by (simp add: options_ready_def)
  ultimately obtain ts where ts: "segments (options_of oe s) i j ts" "options_score ts \<noteq> MinusInf"
    using word_segments [of "source_size oe - 1" "options_of oe s" i j] ij by fastforce
  have "options_score ts \<le> GetScore (os_futureScore s) i j"
    using assms ij ts(1) unfolding options_ready_def best_segmentation_def by blast
  then show "GetScore (os_futureScore s) i j \<noteq> MinusInf" using ts(2) by (cases "options_score ts") auto
qed

lemma fresh_ok:
  assumes "source_size oe < size_bound" "cache_ok (oe_numScores oe) need cache"
  shows "os_ok need oe (TranslationOptionCollectionInit oe junk cache factors)"
proof -
  let ?s = "TranslationOptionCollectionInit oe junk cache factors"
  have "options_of oe ?s i j = []" for i j
    by (auto simp: options_of_def TranslationOptionCollectionInit_def)
  then show ?thesis using assms by (simp add: os_ok_def wf_collection_def TranslationOptionCollectionInit_def)
qed


text \<open>C5: A new collection is filled without a failed assertion. Every option lies in the list of its span and
  has a score for each feature, every word of the sentence has an option of its own even after pruning,
  and each cell of the future score table is the best sum over the ways to cut its span.
\<close>

theorem options_for_every_word:
  assumes "tables_ok need oe" "cache_ok (oe_numScores oe) need cache" "source_size oe * source_size oe \<le> length junk"
  shows "\<exists>s. CreateTranslationOptions oe (TranslationOptionCollectionInit oe junk cache factors) = Some s \<and> options_ready need oe s"
proof -
  let ?s = "TranslationOptionCollectionInit oe junk cache factors"
  have "wf_matrix (os_futureScore ?s)" "sm_size (os_futureScore ?s) = source_size oe"
    using wf_SquareMatrixInit [OF assms(3)]
    by (simp_all add: TranslationOptionCollectionInit_def SquareMatrixInit_def)
  moreover have "os_ok need oe ?s" using fresh_ok assms(1,2) by (simp add: tables_ok_def)
  ultimately show ?thesis using created_ready [OF assms(1)] by blast
qed

section \<open>From tables to a translation\<close>

text \<open>
  The search on the options of a collection, as \<open>Manager::ProcessSentence\<close> sets it up; it asks for the
  options of spans of the sentence only.
\<close>

definition with_options :: "option_env \<Rightarrow> option_state \<Rightarrow> 'st search_env \<Rightarrow> 'st search_env" where
  "with_options oe s env = env\<lparr>
     options := (\<lambda>r. if m_startPos r \<le> m_endPos r \<and> m_endPos r < source_size oe
                     then (case GetTranslationOptionList oe (m_startPos r) (m_endPos r) s of Some l \<Rightarrow> l | None \<Rightarrow> [])
                     else []),
     futureScores := os_futureScore s\<rparr>"

lemma with_options_options:
  assumes "wf_collection oe s"
  shows "options (with_options oe s env) (WordsRange i j) = options_of oe s i j"
proof (cases "span_in oe i j")
  case True
  then show ?thesis using Get_options_of [OF assms True] span_in_end [OF True] by (simp add: with_options_def span_in_def)
next
  case False
  then have none: "options_of oe s i j = []" by (auto simp: options_of_def span_in_def)
  have "GetTranslationOptionList oe i j s = None" if "i \<le> j" "j < source_size oe"
  proof -
    have "j < size_bound" using that(2) assms by (simp add: wf_collection_def)
    then have "span_count oe i \<le> list_index oe i j"
      using that False by (auto simp: list_index_def sz_sub_small span_in_def span_count_def)
    then show ?thesis using that assms by (simp add: GetTranslationOptionList_def wf_collection_def Let_def)
  qed
  then show ?thesis using none by (auto simp: with_options_def)
qed

definition sentence_settings :: "option_env \<Rightarrow> 'st search_env \<Rightarrow> bool" where
  "sentence_settings oe env \<longleftrightarrow> sourceSize env = source_size oe \<and> 0 < source_size oe \<and> source_size oe < 2 ^ 31 \<and>
     maxPhraseLength env = oe_maxPhraseLength oe \<and> length (allWeights env) = oe_numScores oe \<and>
     initialCoverage env = [] \<and> stack_config_ok (stack_cfg env) \<and> m_minHypoStackDiversity (stack_cfg env) = 0 \<and>
     \<not> useEarlyDiscarding env \<and> distortionDistance env = ComputeDistortionDistance \<and> \<not> isWordLattice env \<and>
     \<not> m_active (reorderingConstraint env) \<and> constraintPhrase env = None \<and> (\<forall>i. \<not> out_of_time env i)"

lemma with_options_settings:
  assumes "options_ready need oe s" "sentence_settings oe env" "0 < oe_maxPhraseLength oe"
  shows "search_settings_ok (with_options oe s env)" "plain_env (with_options oe s env)"
proof -
  have wf: "wf_collection oe s" using assms(1) by (simp add: options_ready_def os_ok_def)
  note opts = with_options_options [OF wf, of env]
  have o: "opt_ok (oe_numScores oe) need r t" if "t \<in> set (options (with_options oe s env) r)" for r t
    using that assms(1) opts by (cases r) (auto simp: options_ready_def os_ok_def)
  have keep: "sourceSize (with_options oe s env) = source_size oe" "allWeights (with_options oe s env) = allWeights env"
    "futureScores (with_options oe s env) = os_futureScore s" "stack_cfg (with_options oe s env) = stack_cfg env"
    "useEarlyDiscarding (with_options oe s env) = useEarlyDiscarding env"
    "distortionDistance (with_options oe s env) = distortionDistance env" "isWordLattice (with_options oe s env) = isWordLattice env"
    "reorderingConstraint (with_options oe s env) = reorderingConstraint env"
    "maxPhraseLength (with_options oe s env) = maxPhraseLength env"
    using assms(2) by (simp_all add: with_options_def sentence_settings_def)
  have "env_ok (with_options oe s env)"
  proof -
    have "to_range t = r" if "t \<in> set (options (with_options oe s env) r)" for r t
      using o [OF that] by (simp add: opt_ok_def opt_shape_def)
    moreover have "initialCoverage (with_options oe s env) = []" "source_size oe < 2 ^ 31"
      using assms(2) by (simp_all add: sentence_settings_def with_options_def)
    ultimately show ?thesis unfolding env_ok_def keep by blast
  qed
  moreover have "\<forall>r. \<forall>t \<in> set (options (with_options oe s env) r). length (to_scoreBreakdown t) = length (allWeights env)"
    using o assms(2) by (simp add: sentence_settings_def opt_ok_def opt_shape_def)
  ultimately show "search_settings_ok (with_options oe s env)"
    unfolding search_settings_ok_def keep using assms(2) ready_finite [OF assms(1)]
    unfolding sentence_settings_def by blast
  have "\<forall>i < source_size oe. options (with_options oe s env) (WordsRange i i) \<noteq> []"
    using opts assms(1) by (simp add: options_ready_def)
  then show "plain_env (with_options oe s env)"
    unfolding plain_env_def keep using assms(2,3) unfolding sentence_settings_def by simp
qed

lemma with_options_cached:
  assumes "options_ready need oe s" "\<forall>(sp, cfg) \<in> set models. table_scores cfg \<le> need sp"
  shows "cached_scores_ok models (with_options oe s env)"
proof -
  have wf: "wf_collection oe s" using assms(1) by (simp add: options_ready_def os_ok_def)
  have fit: "cached_fit need t" if "t \<in> set (options (with_options oe s env) r)" for r t
    using that assms(1) with_options_options [OF wf, of env]
    by (cases r) (auto simp: options_ready_def os_ok_def opt_ok_def opt_shape_def)
  have "cached_ok cfg (to_cachedScores t sp)" if "t \<in> set (options (with_options oe s env) r)" "(sp, cfg) \<in> set models" for r t sp cfg
    using fit [OF that(1)] assms(2) that(2) by (fastforce simp: cached_fit_def cached_ok_def)
  then show ?thesis by (auto simp: cached_scores_ok_def)
qed

text \<open>C2: From the tables to a translation: for a plain sentence the decoder creates its options and then
  searches with them, no assertion fails, and the result covers every word of the sentence. Words that
  no table knows, pruning of the options, several decoding graphs, XML options and a filled cache are
  all allowed for.
\<close>

theorem sentence_is_translated:
  assumes "tables_ok need oe" "cache_ok (oe_numScores oe) need cache" "source_size oe * source_size oe \<le> length junk"
    and "sentence_settings oe env" "decoder_env sim front distortion penalty models env"
    and "\<forall>(sp, cfg) \<in> set models. table_scores cfg \<le> need sp"
  shows "\<exists>s q h. CreateTranslationOptions oe (TranslationOptionCollectionInit oe junk cache factors) = Some s \<and>
    ProcessSentence (with_options oe s env) = Some q \<and> SearchGetBestHypothesis q = Some (Some h) \<and> IsComplete (coverage h)"
proof -
  have "source_size oe < size_bound" "0 < oe_maxPhraseLength oe" using assms(1) by (simp_all add: tables_ok_def)
  let ?s0 = "TranslationOptionCollectionInit oe junk cache factors"
  have "wf_matrix (os_futureScore ?s0)" "sm_size (os_futureScore ?s0) = source_size oe"
    using wf_SquareMatrixInit [OF assms(3)] by (simp_all add: TranslationOptionCollectionInit_def SquareMatrixInit_def)
  from created_ready [OF assms(1) fresh_ok [OF \<open>source_size oe < size_bound\<close> assms(2)] this]
  obtain s where s: "CreateTranslationOptions oe ?s0 = Some s" "options_ready need oe s" by blast
  note set = with_options_settings [OF s(2) assms(4) \<open>0 < oe_maxPhraseLength oe\<close>]
  have dec: "decoder_env sim front distortion penalty models (with_options oe s env)"
    using assms(5) by (simp add: decoder_env_def with_options_def)
  have free: "constraintPhrase (with_options oe s env) = None" "\<forall>i. \<not> out_of_time (with_options oe s env) i"
    using assms(4) by (simp_all add: sentence_settings_def with_options_def)
  have "cached_scores_ok models (with_options oe s env)"
    using with_options_cached [OF s(2) assms(6)] .
  from search_finds_complete [OF dec set(1) this set(2) free] s(1) show ?thesis by blast
qed


section \<open>An instance\<close>

text \<open>A sentence of two words that no table knows, with the settings of the search's own instance.\<close>

definition unknown_source_word :: word where
  "unknown_source_word = WordSetFactor 0 (Some 0) (EmptyWord False)"

definition unknown_env :: option_env where
  "unknown_env = \<lparr>oe_source = [unknown_source_word, unknown_source_word], oe_maxPhraseLength = 20,
     oe_maxNoTransOptPerCoverage = 50, oe_translationOptionThreshold = Fin (-4), oe_maxNoPartTransOpt = 10000,
     oe_nth_element = nth_by_sort, oe_system = plain_system\<lparr>ts_allWeights := [1, 1, 1, 1]\<rparr>, oe_numScores = 4,
     oe_decodeGraphs = [\<lparr>dg_position = 0, dg_initial = \<lparr>pd_tableLimit = 20, pd_GetTargetPhraseCollection = (\<lambda>r. None)\<rparr>,
       dg_steps = [], dg_backoff = 0\<rparr>],
     oe_xmlInputType = XmlPassThrough, oe_xmlCoverageMap = [], oe_xmlOptionsList = [], oe_dropUnknown = False,
     oe_unknownPenalty = None, oe_alwaysCreateDirect = False, oe_useTransOptCache = True, oe_transOptCacheMaxSize = 100,
     oe_clock = (\<lambda>g r b. 0), oe_reorderingModels = [(2, \<lambda>f e. [-1, -2])]\<rparr>"

definition word_need :: "nat \<Rightarrow> nat" where
  "word_need sp = (if sp = 2 then 2 else 0)"

lemma unknown_env_ok: "tables_ok word_need unknown_env"
  by (simp add: tables_ok_def unknown_env_def system_ok_def plain_system_def nth_by_sort_ok graph_ok_def dictionary_ok_def
      source_size_def size_bound_def unknown_source_word_def WordSetFactor_def WordGetFactor_def EmptyWord_def
      MAX_NUM_FACTORS_def zero_score_def word_need_def)

lemma unknown_settings: "sentence_settings unknown_env plain_sample"
  using plain_sample_settings plain_sample_plain plain_sample_free
  by (auto simp: sentence_settings_def search_settings_ok_def plain_env_def env_ok_def unknown_env_def source_size_def
      plain_sample_def sample_env_def)

lemma options_for_every_word_witness:
  "\<exists>s. CreateTranslationOptions unknown_env (TranslationOptionCollectionInit unknown_env (replicate 4 0) [] [''x'']) = Some s \<and>
     options_ready word_need unknown_env s"
  using options_for_every_word [OF unknown_env_ok, of "[]" "replicate 4 0" "[''x'']"]
  by (simp add: cache_ok_def unknown_env_def source_size_def)

lemma sentence_is_translated_witness:
  "\<exists>s q h. CreateTranslationOptions unknown_env (TranslationOptionCollectionInit unknown_env (replicate 4 0) [] [''x'']) = Some s \<and>
     ProcessSentence (with_options unknown_env s plain_sample) = Some q \<and> SearchGetBestHypothesis q = Some (Some h)"
proof -
  have "cache_ok (oe_numScores unknown_env) word_need []" "source_size unknown_env * source_size unknown_env \<le> length (replicate 4 (0 :: score))"
    by (simp_all add: cache_ok_def unknown_env_def source_size_def)
  from sentence_is_translated [OF unknown_env_ok this unknown_settings plain_sample_decoder, of "[''x'']"] show ?thesis
    by (auto simp: word_need_def table_scores_def plain_cfg_def GetNumberOfTypes_def)
qed

lemma future_score_is_best_segmentation_witness:
  "best_segmentation (options_of unknown_env (TranslationOptionCollectionInit unknown_env (replicate 4 0) [] [])) 0 1
     (GetScore (os_futureScore (CalcFutureScoreTable unknown_env
        (TranslationOptionCollectionInit unknown_env (replicate 4 0) [] []))) 0 1)"
proof -
  let ?s = "TranslationOptionCollectionInit unknown_env (replicate 4 0) [] []"
  have two: "source_size unknown_env = 2" by (simp add: unknown_env_def source_size_def)
  have "wf_matrix (os_futureScore ?s)" "sm_size (os_futureScore ?s) = source_size unknown_env"
    by (simp_all add: two TranslationOptionCollectionInit_def SquareMatrixInit_def wf_matrix_def)
  moreover have "wf_collection unknown_env ?s"
    using fresh_ok [of unknown_env word_need "[]"] two by (simp add: os_ok_def cache_ok_def size_bound_def)
  ultimately show ?thesis using future_score_is_best_segmentation [of unknown_env ?s 0 1] two by simp
qed


end
