(* ===== verification/N_Best.thy ===== *)
theory N_Best
  imports Search_Normal "HOL-Library.Multiset"
begin

text \<open>
  The n-best list (\<open>Manager::CalcNBest\<close>, \<open>TrellisPath.cpp\<close>, \<open>TrellisPathCollection\<close>): the hypotheses
  of the last stack, their back pointers and the arcs of recombined hypotheses span a lattice; its paths are
  listed best first by changing one edge at a time. A node of a path is a hypothesis or an arc together
  with the hypothesis its winning pointer refers to, as \<open>CleanupArcList\<close> has set it; \<open>hypo != winningHypo\<close>
  compares the ids. \<open>None\<close> is a failed assertion.
\<close>

section \<open>Paths\<close>

type_synonym 'st edge = "'st hypothesis \<times> 'st hypothesis"

record 'st trellis_path =
  m_path :: "'st edge list"
  m_prevEdgeChanged :: nat
  path_breakdown :: score_components
  path_total :: score

function pure_path :: "'st hypothesis \<Rightarrow> 'st edge list" where
  "pure_path h = (h, h) # (case m_prevHypo h of None \<Rightarrow> [] | Some p \<Rightarrow> pure_path p)"
  by pat_completeness auto
termination
proof (relation "measure hypo_depth", goal_cases)
  case (2 h p)
  then show ?case by (cases h) simp
qed simp

declare pure_path.simps [simp del]

definition TrellisPathInit :: "'st hypothesis \<Rightarrow> 'st trellis_path" where
  "TrellisPathInit hypo =
     \<lparr>m_path = pure_path hypo, m_prevEdgeChanged = NOT_FOUND, path_breakdown = m_scoreBreakdown (core hypo),
      path_total = total hypo\<rparr>"

text \<open>Nothing finite is left when an infinite score is subtracted.\<close>

fun score_minus :: "score \<Rightarrow> score \<Rightarrow> score" where
  "score_minus (Fin a) (Fin b) = Fin (a - b)"
| "score_minus _ _ = MinusInf"

fun add_edges :: "'st edge list \<Rightarrow> score \<times> score_components \<Rightarrow> (score \<times> score_components) option" where
  "add_edges [] acc = Some acc"
| "add_edges ((hypo, winningHypo) # es) (t, breakdown) =
     (if m_id (core hypo) \<noteq> m_id (core winningHypo)
      then (case MinusEquals breakdown (m_scoreBreakdown (core winningHypo)) of
              None \<Rightarrow> None
            | Some b \<Rightarrow>
                (case PlusEquals b (m_scoreBreakdown (core hypo)) of
                   None \<Rightarrow> None
                 | Some b \<Rightarrow> add_edges es (score_minus t (total winningHypo) + total hypo, b)))
      else add_edges es (t, breakdown))"

definition InitScore :: "'st edge list \<Rightarrow> (score \<times> score_components) option" where
  "InitScore path =
     (case path of
        [] \<Rightarrow> None
      | (hypo, winningHypo) # es \<Rightarrow> add_edges path (total winningHypo, m_scoreBreakdown (core winningHypo)))"

definition deviant_edges :: "'st edge list \<Rightarrow> nat \<Rightarrow> 'st hypothesis \<Rightarrow> 'st edge list" where
  "deviant_edges path edgeIndex arc =
     take edgeIndex path @ (arc, fst (path ! edgeIndex)) #
       (case m_prevHypo arc of None \<Rightarrow> [] | Some p \<Rightarrow> pure_path p)"

definition TrellisPathDeviate :: "'st trellis_path \<Rightarrow> nat \<Rightarrow> 'st hypothesis \<Rightarrow> 'st trellis_path option" where
  "TrellisPathDeviate copy edgeIndex arc =
     (let path = deviant_edges (m_path copy) edgeIndex arc
      in map_option (\<lambda>(t, b). \<lparr>m_path = path, m_prevEdgeChanged = edgeIndex, path_breakdown = b, path_total = t\<rparr>)
           (InitScore path))"

definition first_edge :: "'st trellis_path \<Rightarrow> nat" where
  "first_edge p = (if m_prevEdgeChanged p = NOT_FOUND then 0 else m_prevEdgeChanged p + 1)"

definition CreateDeviantPaths :: "'st trellis_path \<Rightarrow> 'st trellis_path list option" where
  "CreateDeviantPaths p =
     those (concat (map (\<lambda>currEdge. case m_arcList (fst (m_path p ! currEdge)) of
                                      None \<Rightarrow> []
                                    | Some arcList \<Rightarrow> map (TrellisPathDeviate p currEdge) arcList)
       [first_edge p..<length (m_path p)]))"

text \<open>The empty hypothesis at the end of the path is left out.\<close>

definition TrellisGetTargetPhrase :: "'st trellis_path \<Rightarrow> phrase" where
  "TrellisGetTargetPhrase p = concat (map (\<lambda>(hypo, w). m_targetPhrase (core hypo)) (rev (butlast (m_path p))))"

fun surface_word :: "nat list \<Rightarrow> word \<Rightarrow> word \<Rightarrow> word option" where
  "surface_word [] w newWord = Some newWord"
| "surface_word (factorType # fs) w newWord =
     (case WordGetFactor w factorType of
        None \<Rightarrow> None
      | Some factor \<Rightarrow> surface_word fs w (WordSetFactor factorType (Some factor) newWord))"

definition GetSurfacePhrase :: "nat list \<Rightarrow> 'st trellis_path \<Rightarrow> phrase option" where
  "GetSurfacePhrase outputFactor p =
     those (map (\<lambda>w. surface_word outputFactor w (EmptyWord False)) (TrellisGetTargetPhrase p))"

fun target_range_from :: "'st edge list \<Rightarrow> nat \<Rightarrow> 'st hypothesis \<Rightarrow> words_range option" where
  "target_range_from [] startPos hypo = None"
| "target_range_from ((currHypo, w) # es) startPos hypo =
     (let endPos = sz_sub (sz_add startPos (length (m_targetPhrase (core currHypo)))) 1
      in if m_id (core currHypo) = m_id (core hypo) then Some (WordsRange startPos endPos)
         else target_range_from es (sz_add endPos 1) hypo)"

definition TrellisGetTargetWordsRange :: "'st trellis_path \<Rightarrow> 'st hypothesis \<Rightarrow> words_range option" where
  "TrellisGetTargetWordsRange p hypo = target_range_from (rev (m_path p)) 0 hypo"

section \<open>The contenders\<close>

text \<open>A multiset ordered by score, best first; equal scores keep the order of insertion.\<close>

definition queue_add :: "('p \<Rightarrow> score) \<Rightarrow> 'p \<Rightarrow> 'p list \<Rightarrow> 'p list" where
  "queue_add val p qs = takeWhile (\<lambda>q. val p \<le> val q) qs @ p # dropWhile (\<lambda>q. val p \<le> val q) qs"

definition TrellisAdd :: "'st trellis_path \<Rightarrow> 'st trellis_path list \<Rightarrow> 'st trellis_path list" where
  "TrellisAdd = queue_add path_total"

definition TrellisPrune :: "nat \<Rightarrow> 'p list \<Rightarrow> 'p list" where
  "TrellisPrune newSize qs = (if length qs \<le> newSize then qs else take newSize qs)"

section \<open>The n-best list\<close>

text \<open>One round of the main loop per unit of the bound on the iterations.\<close>

fun nbest_loop ::
    "nat \<Rightarrow> nat \<Rightarrow> nat \<Rightarrow> bool \<Rightarrow> nat list \<Rightarrow> 'st trellis_path list \<Rightarrow> 'st trellis_path list \<Rightarrow> phrase list \<Rightarrow>
     'st trellis_path list option" where
  "nbest_loop 0 n nBestFactor onlyDistinct outputFactor contenders ret seen = Some ret"
| "nbest_loop (Suc k) n nBestFactor onlyDistinct outputFactor contenders ret seen =
     (if (if onlyDistinct then length seen else length ret) < n \<and> contenders \<noteq> []
      then let path = hd contenders
           in case CreateDeviantPaths path of
                None \<Rightarrow> None
              | Some deviants \<Rightarrow>
                  let contenders = fold TrellisAdd deviants (tl contenders)
                  in if onlyDistinct
                     then case GetSurfacePhrase outputFactor path of
                            None \<Rightarrow> None
                          | Some tgtPhrase \<Rightarrow>
                              let new = \<not> list_ex (\<lambda>q. PhraseCompare q tgtPhrase = 0) seen
                              in nbest_loop k n nBestFactor onlyDistinct outputFactor
                                   (if nBestFactor > 0 then TrellisPrune ((n * nBestFactor) mod size_bound) contenders else contenders)
                                   (if new then ret @ [path] else ret) (if new then tgtPhrase # seen else seen)
                     else nbest_loop k n nBestFactor onlyDistinct outputFactor (TrellisPrune n contenders) (ret @ [path]) seen
      else Some ret)"

definition CalcNBest ::
    "nat \<Rightarrow> nat \<Rightarrow> bool \<Rightarrow> nat list \<Rightarrow> 'st stack list \<Rightarrow> 'st trellis_path list option" where
  "CalcNBest n nBestFactor onlyDistinct outputFactor hypoStackColl =
     (if n = 0 then Some []
      else let sortedPureHypo = GetSortedList (List.last hypoStackColl);
               contenders = fold TrellisAdd (map TrellisPathInit sortedPureHypo) []
           in nbest_loop ((n * (if nBestFactor < 1 then 1000 else nBestFactor)) mod size_bound) n nBestFactor onlyDistinct
                outputFactor contenders [] [])"

section \<open>Best first enumeration\<close>

definition best_first :: "('p \<Rightarrow> score) \<Rightarrow> 'p list \<Rightarrow> bool" where
  "best_first val qs \<longleftrightarrow> sorted_wrt (\<lambda>p q. val q \<le> val p) qs"

lemma set_queue_add [simp]: "set (queue_add val p qs) = insert p (set qs)"
proof -
  have "set (takeWhile P qs) \<union> set (dropWhile P qs) = set qs" for P
    by (metis set_append takeWhile_dropWhile_id)
  then show ?thesis by (auto simp: queue_add_def)
qed

lemma mset_queue_add: "mset (queue_add val p qs) = add_mset p (mset qs)"
proof -
  have "mset (takeWhile P qs) + mset (dropWhile P qs) = mset qs" for P
    by (metis mset_append takeWhile_dropWhile_id)
  then show ?thesis by (simp add: queue_add_def)
qed

lemma distinct_queue_add: "distinct qs \<Longrightarrow> p \<notin> set qs \<Longrightarrow> distinct (queue_add val p qs)"
  using mset_queue_add [of val p qs] by (metis distinct.simps(2) mset.simps(2) mset_eq_imp_distinct_iff)

lemma best_first_queue_add:
  assumes "best_first val qs"
  shows "best_first val (queue_add val p qs)"
proof -
  let ?P = "\<lambda>q. val p \<le> val q"
  have split: "best_first val (takeWhile ?P qs @ dropWhile ?P qs)" using assms by simp
  have "val q \<le> val p" if q: "q \<in> set (dropWhile ?P qs)" for q
  proof (cases "dropWhile ?P qs")
    case (Cons d ds)
    then have "\<not> val p \<le> val d" using hd_dropWhile [of ?P qs] by simp
    moreover have "val q \<le> val d"
      using q Cons split unfolding best_first_def sorted_wrt_append by auto
    ultimately show ?thesis by simp
  next
    case Nil
    then show ?thesis using q by (metis empty_iff empty_set)
  qed
  then show ?thesis
    using split unfolding best_first_def queue_add_def sorted_wrt_append
    by (auto dest: set_takeWhileD)
qed

lemma queue_adds:
  assumes "best_first val qs"
  shows "best_first val (fold (queue_add val) ps qs) \<and> set (fold (queue_add val) ps qs) = set ps \<union> set qs \<and>
    (distinct (ps @ qs) \<longrightarrow> distinct (fold (queue_add val) ps qs))"
  using assms
proof (induction ps arbitrary: qs)
  case (Cons p ps)
  from Cons.IH [OF best_first_queue_add [OF Cons.prems, of p]] show ?case
    using distinct_queue_add [of qs p val] by auto
qed simp

lemma length_queue_add [simp]: "length (queue_add val p qs) = Suc (length qs)"
proof -
  have "length (takeWhile P qs) + length (dropWhile P qs) = length qs" for P
    by (metis length_append takeWhile_dropWhile_id)
  then show ?thesis by (simp add: queue_add_def)
qed

text \<open>How many contenders are at least as good as a bound.\<close>

definition at_least :: "('p \<Rightarrow> score) \<Rightarrow> score \<Rightarrow> 'p list \<Rightarrow> nat" where
  "at_least val v qs = length (filter (\<lambda>q. v \<le> val q) qs)"

lemma at_least_queue_add: "at_least val v (queue_add val p qs) = at_least val v qs + (if v \<le> val p then 1 else 0)"
proof -
  have "length (filter P (takeWhile Q qs)) + length (filter P (dropWhile Q qs)) = length (filter P qs)" for P Q
    by (metis filter_append length_append takeWhile_dropWhile_id)
  then show ?thesis by (simp add: at_least_def queue_add_def)
qed

lemma at_least_queue_adds: "at_least val v qs \<le> at_least val v (fold (queue_add val) ps qs)"
proof (induction ps arbitrary: qs)
  case (Cons p ps)
  have "at_least val v qs \<le> at_least val v (queue_add val p qs)" by (simp add: at_least_queue_add)
  then show ?case using Cons [of "queue_add val p qs"] by simp
qed simp

lemma at_least_antimono: "v \<le> w \<Longrightarrow> at_least val w qs \<le> at_least val v qs"
proof (induction qs)
  case (Cons q qs)
  have "w \<le> val q \<Longrightarrow> v \<le> val q" using Cons.prems by (rule order_trans)
  then show ?case using Cons by (auto simp: at_least_def)
qed (simp add: at_least_def)

lemma TrellisPrune_take: "TrellisPrune n qs = take n qs"
  by (simp add: TrellisPrune_def)

lemma at_least_take:
  assumes "best_first val qs"
  shows "at_least val v (take n qs) = min n (at_least val v qs)"
  using assms
proof (induction qs arbitrary: n)
  case Nil
  then show ?case by (simp add: at_least_def)
next
  case (Cons q qs)
  have sorted: "best_first val qs" and less: "\<forall>r \<in> set qs. val r \<le> val q"
    using Cons.prems by (simp_all add: best_first_def)
  show ?case
  proof (cases "v \<le> val q")
    case True
    then show ?thesis using Cons.IH [OF sorted, of "n - 1"] by (cases n) (simp_all add: at_least_def)
  next
    case False
    then have "\<forall>r \<in> set (q # qs). \<not> v \<le> val r" using less by auto
    then have "filter (\<lambda>r. v \<le> val r) (q # qs) = []" "filter (\<lambda>r. v \<le> val r) (take n (q # qs)) = []"
      using set_take_subset [of n "q # qs"] by (auto simp: filter_empty_conv)
    then show ?thesis by (simp add: at_least_def)
  qed
qed

lemma dropped_at_least:
  assumes "best_first val qs" "q \<in> set qs" "q \<notin> set (take n qs)"
  shows "n \<le> at_least val (val q) (take n qs)"
proof -
  have "q \<in> set (drop n qs)" using assms(2,3) by (metis append_take_drop_id Un_iff set_append)
  moreover from this have "n < length qs" by (cases "n < length qs") simp_all
  moreover have "best_first val (take n qs @ drop n qs)" using assms(1) by simp
  ultimately have "\<forall>r \<in> set (take n qs). val q \<le> val r"
    unfolding best_first_def sorted_wrt_append by blast
  then have "filter (\<lambda>r. val q \<le> val r) (take n qs) = take n qs" by (simp add: filter_id_conv)
  then show ?thesis using \<open>n < length qs\<close> by (simp add: at_least_def)
qed


text \<open>
  What the enumeration relies on: the deviants of a path are no better than it, every deviant has one
  parent, and the roots have none.
\<close>

locale deviations =
  fixes kids :: "'p \<Rightarrow> 'p list" and val :: "'p \<Rightarrow> score" and good :: "'p \<Rightarrow> bool" and roots :: "'p set"
  assumes kids_good: "good p \<Longrightarrow> q \<in> set (kids p) \<Longrightarrow> good q \<and> val q \<le> val p \<and> q \<notin> roots"
    and kids_distinct: "good p \<Longrightarrow> distinct (kids p)"
    and one_parent: "good p \<Longrightarrow> good p' \<Longrightarrow> q \<in> set (kids p) \<Longrightarrow> q \<in> set (kids p') \<Longrightarrow> p = p'"
    and roots_good: "p \<in> roots \<Longrightarrow> good p"
begin

inductive derived :: "'p \<Rightarrow> 'p \<Rightarrow> bool" where
  self: "derived p p"
| kid: "derived p q \<Longrightarrow> r \<in> set (kids q) \<Longrightarrow> derived p r"

lemma derived_good: "derived p q \<Longrightarrow> good p \<Longrightarrow> good q \<and> val q \<le> val p"
  by (induction rule: derived.induct) (use kids_good in \<open>auto intro: order_trans\<close>)

lemma derived_trans: "derived q r \<Longrightarrow> derived p q \<Longrightarrow> derived p r"
  by (induction rule: derived.induct) (auto intro: derived.intros)

lemma derived_first: "derived p q \<Longrightarrow> q = p \<or> (\<exists>k \<in> set (kids p). derived k q)"
proof (induction rule: derived.induct)
  case (kid p q r)
  then show ?case using derived.self derived.kid by blast
qed simp

definition reached :: "'p \<Rightarrow> bool" where
  "reached q \<longleftrightarrow> (\<exists>p \<in> roots. derived p q)"

lemma reached_good: "reached q \<Longrightarrow> good q"
  using derived_good roots_good by (auto simp: reached_def)

lemma reached_kid: "reached q \<Longrightarrow> r \<in> set (kids q) \<Longrightarrow> reached r"
  using derived.kid by (auto simp: reached_def)

text \<open>Contenders and results while the list is filled up to \<open>n\<close>.\<close>

definition list_inv :: "nat \<Rightarrow> 'p list \<Rightarrow> 'p list \<Rightarrow> bool" where
  "list_inv n C R \<longleftrightarrow> best_first val C \<and> best_first val R \<and> (\<forall>c \<in> set C. \<forall>r \<in> set R. val c \<le> val r) \<and>
     distinct (R @ C) \<and> (\<forall>q \<in> set (R @ C). reached q \<and> (q \<in> roots \<or> (\<exists>p \<in> set R. q \<in> set (kids p)))) \<and>
     (\<forall>q. reached q \<longrightarrow> q \<in> set R \<or> (\<exists>c \<in> set C. derived c q) \<or>
        (\<forall>r \<in> set R. val q \<le> val r) \<and> n \<le> length R + at_least val (val q) C)"

lemma list_inv_start:
  assumes "set xs = roots" "distinct xs"
  shows "list_inv n (fold (queue_add val) xs []) []"
proof -
  have "best_first val []" by (simp add: best_first_def)
  from queue_adds [OF this, of xs] assms show ?thesis
    unfolding list_inv_def reached_def by (auto simp: best_first_def intro: derived.self)
qed

lemma list_inv_step:
  assumes "list_inv n (c # C) R" "length R < n"
  shows "list_inv n (take n (fold (queue_add val) (kids c) C)) (R @ [c])"
proof -
  note inv = assms(1) [unfolded list_inv_def]
  let ?C = "fold (queue_add val) (kids c) C"
  have c: "reached c" "good c" using inv reached_good by auto
  have sortC: "best_first val C" and le_c: "\<forall>d \<in> set C. val d \<le> val c" using inv by (auto simp: best_first_def)
  have fresh: "distinct (kids c @ C)"
  proof -
    have "k \<notin> set (R @ c # C)" if k: "k \<in> set (kids c)" for k
    proof
      assume "k \<in> set (R @ c # C)"
      then have "\<exists>p \<in> set R. k \<in> set (kids p)" using inv kids_good [OF c(2) k] by blast
      then obtain p where p: "p \<in> set R" "k \<in> set (kids p)" by blast
      then have "p = c" using one_parent [OF _ c(2)] k inv reached_good by auto
      then show False using p(1) inv by auto
    qed
    then show ?thesis using kids_distinct [OF c(2)] inv by auto
  qed
  have not_R: "\<forall>k \<in> set (kids c). k \<notin> set (R @ [c])"
  proof
    fix k assume k: "k \<in> set (kids c)"
    show "k \<notin> set (R @ [c])"
    proof
      assume "k \<in> set (R @ [c])"
      then have "\<exists>p \<in> set R. k \<in> set (kids p)" using inv kids_good [OF c(2) k] by auto
      then obtain p where p: "p \<in> set R" "k \<in> set (kids p)" by blast
      then have "p = c" using one_parent [OF _ c(2)] k inv reached_good by auto
      then show False using p(1) inv by auto
    qed
  qed
  note add = queue_adds [OF sortC, of "kids c"]
  have setC: "set ?C = set (kids c) \<union> set C" and sort: "best_first val ?C" and dist: "distinct ?C" using add fresh by auto
  have sub: "set (take n ?C) \<subseteq> set (kids c) \<union> set C" using setC set_take_subset by fastforce
  have "best_first val (take n ?C)" using sort by (simp add: best_first_def sorted_wrt_take)
  moreover have "best_first val (R @ [c])" using inv by (auto simp: best_first_def sorted_wrt_append)
  moreover have le: "\<forall>d \<in> set ?C. \<forall>r \<in> set (R @ [c]). val d \<le> val r"
    using inv le_c kids_good [OF c(2)] unfolding setC by (auto intro: order_trans)
  moreover have "distinct ((R @ [c]) @ take n ?C)" using inv dist sub not_R by auto
  moreover have "\<forall>q \<in> set ((R @ [c]) @ take n ?C). reached q \<and> (q \<in> roots \<or> (\<exists>p \<in> set (R @ [c]). q \<in> set (kids p)))"
  proof
    fix q assume "q \<in> set ((R @ [c]) @ take n ?C)"
    then consider "q \<in> set (R @ c # C)" | "q \<in> set (kids c)" using sub by auto
    then show "reached q \<and> (q \<in> roots \<or> (\<exists>p \<in> set (R @ [c]). q \<in> set (kids p)))"
    proof cases
      case 1
      then have "reached q \<and> (q \<in> roots \<or> (\<exists>p \<in> set R. q \<in> set (kids p)))" using inv by blast
      then show ?thesis by auto
    next
      case 2
      then show ?thesis using reached_kid [OF c(1)] by simp
    qed
  qed
  moreover have "q \<in> set (R @ [c]) \<or> (\<exists>d \<in> set (take n ?C). derived d q) \<or>
      (\<forall>r \<in> set (R @ [c]). val q \<le> val r) \<and> n \<le> length (R @ [c]) + at_least val (val q) (take n ?C)" if q: "reached q" for q
  proof -
    have kept: ?thesis if d: "d \<in> set ?C" "derived d q" for d
    proof (cases "d \<in> set (take n ?C)")
      case False
      have "good d" using setC d(1) kids_good [OF c(2)] inv reached_good by auto
      then have "val q \<le> val d" using derived_good d(2) by blast
      moreover have "n \<le> at_least val (val d) (take n ?C)" by (rule dropped_at_least [OF sort d(1) False])
      moreover have "at_least val (val d) (take n ?C) \<le> at_least val (val q) (take n ?C)"
        by (rule at_least_antimono [OF calculation(1)])
      moreover have "\<forall>r \<in> set (R @ [c]). val q \<le> val r" using le d(1) calculation(1) by (auto intro: order_trans)
      ultimately show ?thesis by simp
    qed (use d in blast)
    consider "q \<in> set R" | d where "d \<in> set (c # C)" "derived d q"
      | "\<forall>r \<in> set R. val q \<le> val r" "n \<le> length R + at_least val (val q) (c # C)" using inv q by blast
    then show ?thesis
    proof cases
      case (2 d)
      show ?thesis
      proof (cases "d = c")
        case True
        then show ?thesis using derived_first [OF 2(2)] kept setC by auto
      next
        case False
        then show ?thesis using 2 kept setC by auto
      qed
    next
      case 3
      have "0 < at_least val (val q) (c # C)" using 3(2) assms(2) by simp
      then obtain d where "d \<in> set (c # C)" "val q \<le> val d" unfolding at_least_def length_greater_0_conv filter_empty_conv by blast
      then have "val q \<le> val c" using le_c by (auto intro: order_trans)
      moreover have "at_least val (val q) (c # C) \<le> Suc (at_least val (val q) C)" by (simp add: at_least_def)
      moreover have "at_least val (val q) C \<le> at_least val (val q) ?C" by (rule at_least_queue_adds)
      ultimately show ?thesis using 3 at_least_take [OF sort, of "val q" n] by auto
    qed simp
  qed
  ultimately show ?thesis using setC sub unfolding list_inv_def by blast
qed

lemma list_inv_result:
  assumes "list_inv n C R" "n \<le> length R \<or> C = []"
  shows "best_first val R \<and> distinct R \<and> (\<forall>q \<in> set R. reached q) \<and>
    (\<forall>q. reached q \<longrightarrow> q \<in> set R \<or> n \<le> length R \<and> (\<forall>r \<in> set R. val q \<le> val r))"
proof -
  note inv = assms(1) [unfolded list_inv_def]
  have "q \<in> set R \<or> n \<le> length R \<and> (\<forall>r \<in> set R. val q \<le> val r)" if q: "reached q" for q
  proof -
    consider "q \<in> set R" | d where "d \<in> set C" "derived d q"
      | "\<forall>r \<in> set R. val q \<le> val r" "n \<le> length R + at_least val (val q) C" using inv q by blast
    then show ?thesis
    proof cases
      case (2 d)
      then have "val q \<le> val d" using derived_good inv reached_good by auto
      then show ?thesis using 2(1) assms(2) inv by (cases C) (auto intro: order_trans)
    next
      case 3
      then show ?thesis using assms(2) by (auto simp: at_least_def)
    qed simp
  qed
  then show ?thesis using inv by auto
qed

end


section \<open>The lattice\<close>

definition lattice_edge :: "'st hypothesis \<Rightarrow> 'st hypothesis \<Rightarrow> bool" where
  "lattice_edge h w \<longleftrightarrow> h = w \<or> (\<exists>arcs. m_arcList w = Some arcs \<and> h \<in> set arcs)"

text \<open>A path: at each hypothesis either itself or one of its arcs, then on to the predecessor.\<close>

inductive lattice_path :: "'st hypothesis \<Rightarrow> 'st edge list \<Rightarrow> bool" where
  final_edge: "lattice_edge h w \<Longrightarrow> m_prevHypo h = None \<Longrightarrow> lattice_path w [(h, w)]"
| next_edge: "lattice_edge h w \<Longrightarrow> m_prevHypo h = Some p \<Longrightarrow> lattice_path p es \<Longrightarrow> lattice_path w ((h, w) # es)"

inductive_cases lattice_path_Nil: "lattice_path w []"
inductive_cases lattice_path_Cons: "lattice_path w (e # es)"

text \<open>
  What recombination leaves behind: arcs that score no better than the hypothesis that won, other
  ids than its, and one score for each feature.
\<close>

definition arc_fits :: "nat \<Rightarrow> 'st hypothesis \<Rightarrow> 'st hypothesis \<Rightarrow> bool" where
  "arc_fits k h a \<longleftrightarrow> total a \<le> total h \<and> total a \<noteq> MinusInf \<and> m_id (core a) \<noteq> m_id (core h) \<and>
     length (m_scoreBreakdown (core a)) = k"

inductive lattice_ok :: "nat \<Rightarrow> 'st hypothesis \<Rightarrow> bool" for k where
  "total h \<noteq> MinusInf \<Longrightarrow> length (m_scoreBreakdown (core h)) = k \<Longrightarrow>
   (\<And>p. m_prevHypo h = Some p \<Longrightarrow> lattice_ok k p) \<Longrightarrow>
   (\<And>arcs. m_arcList h = Some arcs \<Longrightarrow> distinct arcs) \<Longrightarrow>
   (\<And>arcs a. m_arcList h = Some arcs \<Longrightarrow> a \<in> set arcs \<Longrightarrow> arc_fits k h a) \<Longrightarrow>
   (\<And>arcs a p. m_arcList h = Some arcs \<Longrightarrow> a \<in> set arcs \<Longrightarrow> m_prevHypo a = Some p \<Longrightarrow> lattice_ok k p) \<Longrightarrow>
   lattice_ok k h"

inductive_cases lattice_okE: "lattice_ok k h"

lemma lattice_okD:
  assumes "lattice_ok k h"
  shows "total h \<noteq> MinusInf" "length (m_scoreBreakdown (core h)) = k"
    "m_prevHypo h = Some p \<Longrightarrow> lattice_ok k p"
    "m_arcList h = Some arcs \<Longrightarrow> distinct arcs"
    "m_arcList h = Some arcs \<Longrightarrow> a \<in> set arcs \<Longrightarrow> arc_fits k h a"
    "m_arcList h = Some arcs \<Longrightarrow> a \<in> set arcs \<Longrightarrow> m_prevHypo a = Some p \<Longrightarrow> lattice_ok k p"
  using assms by (auto elim: lattice_okE)

lemma lattice_edge_prev: "lattice_ok k w \<Longrightarrow> lattice_edge h w \<Longrightarrow> m_prevHypo h = Some p \<Longrightarrow> lattice_ok k p"
  unfolding lattice_edge_def using lattice_okD(3,6) by blast

lemma lattice_path_edges:
  "lattice_path w es \<Longrightarrow> lattice_ok k w \<Longrightarrow> (h, w') \<in> set es \<Longrightarrow> lattice_ok k w' \<and> lattice_edge h w'"
  by (induction rule: lattice_path.induct) (auto dest: lattice_edge_prev)

lemma lattice_path_hd: "lattice_path w es \<Longrightarrow> es \<noteq> [] \<and> snd (hd es) = w"
  by (induction rule: lattice_path.induct) auto

lemma pure_path_lattice: "lattice_path h (pure_path h)"
proof (induction h rule: pure_path.induct)
  case (1 h)
  show ?case
    by (subst pure_path.simps, cases "m_prevHypo h")
      (use 1 in \<open>auto simp: lattice_edge_def intro: lattice_path.intros\<close>)
qed

lemma pure_path_pure: "(x, y) \<in> set (pure_path h) \<Longrightarrow> x = y"
proof (induction h rule: pure_path.induct)
  case (1 h)
  have eq: "pure_path h = (h, h) # (case m_prevHypo h of None \<Rightarrow> [] | Some p \<Rightarrow> pure_path p)" by (rule pure_path.simps)
  show ?case using 1 unfolding eq by (cases "m_prevHypo h") auto
qed

lemma lattice_path_pure:
  "lattice_path w es \<Longrightarrow> \<forall>(x, y) \<in> set es. x = y \<Longrightarrow> es = pure_path w"
proof (induction rule: lattice_path.induct)
  case (final_edge h w)
  then show ?case by (subst pure_path.simps) simp
next
  case (next_edge h w p es)
  then show ?case by (subst pure_path.simps) simp
qed

text \<open>Replacing an edge gives a path again; behind it the path is a new one.\<close>

lemma lattice_path_replace:
  assumes "lattice_path w es" "i < length es" "lattice_edge a (snd (es ! i))"
  shows "lattice_path w (take i es @ (a, snd (es ! i)) # (case m_prevHypo a of None \<Rightarrow> [] | Some p \<Rightarrow> pure_path p))"
  using assms
proof (induction arbitrary: i rule: lattice_path.induct)
  case (final_edge h w)
  then show ?case
    by (cases "m_prevHypo a") (auto intro: lattice_path.intros pure_path_lattice)
next
  case (next_edge h w p es)
  show ?case
  proof (cases i)
    case 0
    then show ?thesis using next_edge.prems
      by (cases "m_prevHypo a") (auto intro: lattice_path.intros pure_path_lattice)
  next
    case (Suc j)
    then show ?thesis using next_edge.IH [of j] next_edge.hyps next_edge.prems by (auto intro: lattice_path.intros)
  qed
qed

lemma lattice_path_drop:
  "lattice_path w es \<Longrightarrow> i < length es \<Longrightarrow> lattice_path (snd (es ! i)) (drop i es)"
proof (induction arbitrary: i rule: lattice_path.induct)
  case (final_edge h w)
  then show ?case by (auto intro: lattice_path.intros)
next
  case (next_edge h w p es)
  then show ?case by (cases i) (auto intro: lattice_path.intros)
qed

lemma lattice_path_tail:
  assumes "lattice_path w ((h, w') # es)"
  shows "es = [] \<and> m_prevHypo h = None \<or> (\<exists>p. m_prevHypo h = Some p \<and> lattice_path p es)"
  using assms by (auto elim: lattice_path_Cons)


section \<open>Scores of paths\<close>

primrec fin :: "score \<Rightarrow> rat" where
  "fin MinusInf = 0"
| "fin (Fin x) = x"

lemma Fin_fin: "v \<noteq> MinusInf \<Longrightarrow> Fin (fin v) = v"
  by (cases v) simp_all

definition gain :: "'st edge \<Rightarrow> rat" where
  "gain e = fin (total (fst e)) - fin (total (snd e))"

definition edge_fits :: "nat \<Rightarrow> 'st edge \<Rightarrow> bool" where
  "edge_fits k e \<longleftrightarrow> total (fst e) \<noteq> MinusInf \<and> total (snd e) \<noteq> MinusInf \<and>
     length (m_scoreBreakdown (core (fst e))) = k \<and> length (m_scoreBreakdown (core (snd e))) = k \<and>
     (m_id (core (fst e)) = m_id (core (snd e)) \<longleftrightarrow> fst e = snd e) \<and> total (fst e) \<le> total (snd e)"

lemma lattice_edge_fits: "lattice_ok k w \<Longrightarrow> lattice_edge h w \<Longrightarrow> edge_fits k (h, w)"
  unfolding lattice_edge_def edge_fits_def using lattice_okD(1,2,5) unfolding arc_fits_def by fastforce

lemma MinusEquals_length: "length ys \<le> length xs \<Longrightarrow> \<exists>zs. MinusEquals xs ys = Some zs \<and> length zs = length xs"
proof -
  have "length (fold (\<lambda>i xs. xs[i := xs ! i - ys ! i]) is xs) = length xs" for "is" and xs :: "rat list"
    by (induction "is" arbitrary: xs) simp_all
  then show "length ys \<le> length xs \<Longrightarrow> ?thesis" by (simp add: MinusEquals_def)
qed

lemma add_edges_total:
  assumes "\<forall>e \<in> set es. edge_fits k e" "length b = k"
  shows "\<exists>b'. add_edges es (Fin t, b) = Some (Fin (t + sum_list (map gain es)), b') \<and> length b' = k"
  using assms
proof (induction es arbitrary: t b)
  case (Cons e es)
  obtain h w where e: "e = (h, w)" by force
  have fits: "edge_fits k (h, w)" using Cons.prems(1) e by simp
  show ?case
  proof (cases "h = w")
    case True
    then show ?thesis using Cons.IH [of b t] Cons.prems by (simp add: e gain_def)
  next
    case False
    obtain b1 where b1: "MinusEquals b (m_scoreBreakdown (core w)) = Some b1" "length b1 = k"
      using MinusEquals_length [of "m_scoreBreakdown (core w)" b] fits Cons.prems(2) by (auto simp: edge_fits_def)
    obtain b2 where b2: "PlusEquals b1 (m_scoreBreakdown (core h)) = Some b2" "length b2 = k"
      using inner_product_additive [of "m_scoreBreakdown (core h)" b1] fits b1(2) by (auto simp: edge_fits_def)
    have "score_minus (Fin t) (total w) + total h = Fin (t + gain (h, w))"
      using fits by (cases "total w"; cases "total h") (simp_all add: edge_fits_def gain_def)
    moreover have "m_id (core h) \<noteq> m_id (core w)" using fits False by (simp add: edge_fits_def)
    ultimately show ?thesis
      using Cons.IH [of b2 "t + gain (h, w)"] Cons.prems(1) b1(1) b2 by (simp add: e add.assoc)
  qed
qed simp

text \<open>The score of a path in the code's terms: that of the hypothesis it starts at, and what each arc changes.\<close>

definition deviation_total :: "'st edge list \<Rightarrow> rat" where
  "deviation_total es = fin (total (snd (hd es))) + sum_list (map gain es)"

text \<open>The score of a path: what each hypothesis adds to the one before it.\<close>

fun path_score :: "'st edge list \<Rightarrow> rat" where
  "path_score [] = 0"
| "path_score ((h, w) # es) =
     (case m_prevHypo h of None \<Rightarrow> fin (total h) | Some p \<Rightarrow> fin (total h) - fin (total p) + path_score es)"

lemma lattice_path_fits: "lattice_path w es \<Longrightarrow> lattice_ok k w \<Longrightarrow> \<forall>e \<in> set es. edge_fits k e"
  using lattice_path_edges lattice_edge_fits by (metis surj_pair)

lemma InitScore_total:
  assumes "lattice_path w es" "lattice_ok k w"
  shows "\<exists>b. InitScore es = Some (Fin (deviation_total es), b)"
proof -
  obtain h es' where es: "es = (h, w) # es'"
    using lattice_path_hd [OF assms(1)] by (cases es) (auto simp: prod_eq_iff)
  have "edge_fits k (h, w)" using lattice_path_fits [OF assms] es by simp
  then have "total w = Fin (fin (total w))" "length (m_scoreBreakdown (core w)) = k"
    using Fin_fin by (auto simp: edge_fits_def)
  with add_edges_total [OF lattice_path_fits [OF assms], of "m_scoreBreakdown (core w)" "fin (total w)"]
  show ?thesis by (auto simp: InitScore_def es deviation_total_def)
qed

lemma deviation_total_path_score:
  assumes "lattice_path w es"
  shows "deviation_total es = path_score es"
  using assms
proof (induction rule: lattice_path.induct)
  case (next_edge h w p es)
  have "snd (hd es) = p" using lattice_path_hd [OF next_edge.hyps(3)] by simp
  then show ?case using next_edge.IH next_edge.hyps(2) by (simp add: deviation_total_def gain_def)
qed (simp add: deviation_total_def gain_def)

lemma gain_pure [simp]: "sum_list (map gain (pure_path h)) = 0"
proof -
  have "sum_list (map gain es) = 0" if "\<forall>(x, y) \<in> set es. x = y" for es :: "'st edge list"
    using that by (induction es) (auto simp: gain_def)
  then show ?thesis using pure_path_pure by blast
qed


section \<open>Deviant paths\<close>

definition pure_behind :: "nat \<Rightarrow> 'st edge list \<Rightarrow> bool" where
  "pure_behind k es \<longleftrightarrow> (\<forall>i. k \<le> i \<and> i < length es \<longrightarrow> fst (es ! i) = snd (es ! i))"

definition changed_ok :: "'st trellis_path \<Rightarrow> bool" where
  "changed_ok p \<longleftrightarrow> m_prevEdgeChanged p = NOT_FOUND \<and> pure_behind 0 (m_path p) \<or>
     m_prevEdgeChanged p < length (m_path p) \<and>
     fst (m_path p ! m_prevEdgeChanged p) \<noteq> snd (m_path p ! m_prevEdgeChanged p) \<and>
     pure_behind (m_prevEdgeChanged p + 1) (m_path p)"

text \<open>A final hypothesis of the lattice; its paths are short enough for \<open>size_t\<close>.\<close>

definition final_ok :: "nat \<Rightarrow> 'st hypothesis \<Rightarrow> bool" where
  "final_ok k w \<longleftrightarrow> lattice_ok k w \<and> (\<forall>es. lattice_path w es \<longrightarrow> length es \<le> NOT_FOUND)"

definition good_path :: "nat \<Rightarrow> 'st hypothesis set \<Rightarrow> 'st trellis_path \<Rightarrow> bool" where
  "good_path k W p \<longleftrightarrow> (\<exists>w \<in> W. lattice_path w (m_path p) \<and> final_ok k w) \<and>
     InitScore (m_path p) = Some (path_total p, path_breakdown p) \<and> changed_ok p"

lemma good_pathE:
  assumes "good_path k W p"
  obtains w where "w \<in> W" "lattice_path w (m_path p)" "lattice_ok k w" "length (m_path p) \<le> NOT_FOUND"
    "path_total p = Fin (deviation_total (m_path p))" "pure_behind (first_edge p) (m_path p)"
proof -
  obtain w where w: "w \<in> W" "lattice_path w (m_path p)" "final_ok k w" using assms by (auto simp: good_path_def)
  then have ok: "lattice_ok k w" "length (m_path p) \<le> NOT_FOUND" by (simp_all add: final_ok_def)
  from InitScore_total [OF w(2) ok(1)] assms have "path_total p = Fin (deviation_total (m_path p))"
    by (auto simp: good_path_def)
  moreover have "pure_behind (first_edge p) (m_path p)"
    using assms ok(2) by (auto simp: good_path_def changed_ok_def first_edge_def)
  ultimately show ?thesis using that w ok by blast
qed

lemma TrellisPathInit_good:
  assumes "final_ok k h" "h \<in> W"
  shows "good_path k W (TrellisPathInit h)"
proof -
  have "add_edges (pure_path h) (t, b) = Some (t, b)" for t b
  proof -
    have "add_edges es (t, b) = Some (t, b)" if "\<forall>(x, y) \<in> set es. x = y" for es :: "'a edge list"
      using that by (induction es) auto
    then show ?thesis using pure_path_pure by blast
  qed
  moreover obtain es where "pure_path h = (h, h) # es" using pure_path.simps [of h] by blast
  ultimately have "InitScore (pure_path h) = Some (total h, m_scoreBreakdown (core h))"
    by (simp add: InitScore_def)
  moreover have "pure_behind 0 (pure_path h)"
    unfolding pure_behind_def using pure_path_pure nth_mem by (metis prod.collapse)
  ultimately show ?thesis
    using assms pure_path_lattice [of h] by (auto simp: good_path_def changed_ok_def TrellisPathInit_def)
qed

lemma sum_gain_pure: "pure_behind 0 es \<Longrightarrow> sum_list (map gain es) = 0"
proof (induction es)
  case (Cons e es)
  have "fst e = snd e" using Cons.prems by (auto simp: pure_behind_def)
  moreover have "pure_behind 0 es" using Cons.prems unfolding pure_behind_def by auto
  ultimately show ?case using Cons.IH by (simp add: gain_def)
qed simp

lemma pure_behind_drop: "pure_behind k es \<Longrightarrow> k \<le> i \<Longrightarrow> pure_behind 0 (drop i es)"
  by (simp add: pure_behind_def)

definition arc_tail :: "'st hypothesis \<Rightarrow> 'st edge list" where
  "arc_tail a = (case m_prevHypo a of None \<Rightarrow> [] | Some p \<Rightarrow> pure_path p)"

lemma arc_tail_pure: "pure_behind 0 (arc_tail a)" "sum_list (map gain (arc_tail a)) = 0"
proof -
  have "pure_behind 0 (pure_path p)" for p :: "'a hypothesis"
    unfolding pure_behind_def using pure_path_pure nth_mem by (metis prod.collapse)
  then show "pure_behind 0 (arc_tail a)" by (auto simp: arc_tail_def pure_behind_def split: option.splits)
  then show "sum_list (map gain (arc_tail a)) = 0" by (rule sum_gain_pure)
qed

lemma deviant:
  assumes "good_path k W p" "first_edge p \<le> i" "i < length (m_path p)"
    and "m_arcList (fst (m_path p ! i)) = Some arcs" "a \<in> set arcs"
  shows "\<exists>q. TrellisPathDeviate p i a = Some q \<and> good_path k W q \<and> path_total q \<le> path_total p \<and>
    m_prevEdgeChanged q = i \<and> m_path q = take i (m_path p) @ (a, snd (m_path p ! i)) # arc_tail a \<and>
    fst (m_path p ! i) = snd (m_path p ! i)"
proof -
  obtain w where w: "w \<in> W" "lattice_path w (m_path p)" "lattice_ok k w" "length (m_path p) \<le> NOT_FOUND"
    "path_total p = Fin (deviation_total (m_path p))" "pure_behind (first_edge p) (m_path p)"
    by (rule good_pathE [OF assms(1)])
  let ?es = "m_path p" and ?x = "snd (m_path p ! i)"
  have same: "fst (?es ! i) = ?x" using w(6) assms(2,3) by (simp add: pure_behind_def)
  define es' where "es' = take i ?es @ (a, ?x) # arc_tail a"
  have dev: "deviant_edges ?es i a = es'" by (simp add: deviant_edges_def es'_def arc_tail_def same)
  have edge: "lattice_edge a ?x" using assms(4,5) same by (auto simp: lattice_edge_def)
  have path: "lattice_path w es'"
    using lattice_path_replace [OF w(2) assms(3) edge] by (simp add: es'_def arc_tail_def)
  have x: "lattice_ok k ?x"
    using lattice_path_edges [OF w(2,3), of "fst (?es ! i)" ?x] nth_mem [OF assms(3)] by simp
  have fits: "arc_fits k ?x a" using lattice_okD(5) [OF x] assms(4,5) same by simp
  have final: "final_ok k w" using assms(1) lattice_path_hd w(2) unfolding good_path_def by metis
  obtain b where b: "InitScore es' = Some (Fin (deviation_total es'), b)" using InitScore_total [OF path w(3)] by blast
  have len: "i < length es'" using assms(3) by (simp add: es'_def)
  have nth: "es' ! i = (a, ?x)" using assms(3) by (simp add: es'_def nth_append)
  have "pure_behind (i + 1) es'"
    unfolding pure_behind_def
  proof (intro allI impI, elim conjE)
    fix j assume j: "i + 1 \<le> j" "j < length es'"
    then have "es' ! j = arc_tail a ! (j - i - 1)" "j - i - 1 < length (arc_tail a)"
      using assms(3) by (simp_all add: es'_def nth_append nth_Cons')
    then show "fst (es' ! j) = snd (es' ! j)" using arc_tail_pure(1) [of a] by (simp add: pure_behind_def)
  qed
  moreover have "a \<noteq> ?x" using fits by (auto simp: arc_fits_def)
  ultimately have changed: "changed_ok \<lparr>m_path = es', m_prevEdgeChanged = i, path_breakdown = b, path_total = Fin (deviation_total es')\<rparr>"
    using len nth by (simp add: changed_ok_def)
  have "deviation_total es' = deviation_total ?es + gain (a, ?x)"
  proof -
    have "sum_list (map gain ?es) = sum_list (map gain (take i ?es)) + sum_list (map gain (drop i ?es))"
      by (metis append_take_drop_id map_append sum_list_append)
    moreover have "sum_list (map gain (drop i ?es)) = 0" using sum_gain_pure pure_behind_drop w(6) assms(2) by blast
    moreover have "snd (hd es') = snd (hd ?es)" using lattice_path_hd [OF path] lattice_path_hd [OF w(2)] by simp
    ultimately show ?thesis by (simp add: deviation_total_def es'_def arc_tail_pure)
  qed
  moreover have "gain (a, ?x) \<le> 0"
    using fits lattice_okD(1) [OF x] by (cases "total a"; cases "total ?x") (auto simp: gain_def arc_fits_def)
  ultimately have "Fin (deviation_total es') \<le> path_total p" using w(5) by simp
  then show ?thesis
    using b changed final path w(1) same
    by (auto simp: TrellisPathDeviate_def dev Let_def good_path_def es'_def)
qed


definition changes :: "'st trellis_path \<Rightarrow> (nat \<times> 'st hypothesis) list" where
  "changes p = concat (map (\<lambda>e. case m_arcList (fst (m_path p ! e)) of None \<Rightarrow> [] | Some arcs \<Rightarrow> map (Pair e) arcs)
     [first_edge p..<length (m_path p)])"

lemma changes_iff: "(e, a) \<in> set (changes p) \<longleftrightarrow> first_edge p \<le> e \<and> e < length (m_path p) \<and>
    (\<exists>arcs. m_arcList (fst (m_path p ! e)) = Some arcs \<and> a \<in> set arcs)"
  by (auto simp: changes_def split: option.splits) force+

lemma distinct_changes:
  assumes "good_path k W p"
  shows "distinct (changes p)"
proof -
  obtain w where w: "lattice_path w (m_path p)" "lattice_ok k w" "pure_behind (first_edge p) (m_path p)"
    by (rule good_pathE [OF assms])
  have d: "distinct arcs" if "first_edge p \<le> e" "e < length (m_path p)" "m_arcList (fst (m_path p ! e)) = Some arcs" for e arcs
  proof -
    have "fst (m_path p ! e) = snd (m_path p ! e)" using w(3) that by (simp add: pure_behind_def)
    moreover have "lattice_ok k (snd (m_path p ! e))"
      using lattice_path_edges [OF w(1,2)] nth_mem [OF that(2)] by (metis prod.collapse)
    ultimately show ?thesis using lattice_okD(4) that(3) by metis
  qed
  have pairs: "distinct (concat (map h es))"
    if "distinct es" "\<forall>e \<in> set es. distinct (h e) \<and> (\<forall>x \<in> set (h e). fst x = e)" for h :: "nat \<Rightarrow> (nat \<times> 'a hypothesis) list" and es
    using that by (induction es) fastforce+
  show ?thesis unfolding changes_def
  proof (rule pairs)
    show "\<forall>e \<in> set [first_edge p..<length (m_path p)].
        distinct (case m_arcList (fst (m_path p ! e)) of None \<Rightarrow> [] | Some arcs \<Rightarrow> map (Pair e) arcs) \<and>
        (\<forall>x \<in> set (case m_arcList (fst (m_path p ! e)) of None \<Rightarrow> [] | Some arcs \<Rightarrow> map (Pair e) arcs). fst x = e)"
    proof
      fix e assume e: "e \<in> set [first_edge p..<length (m_path p)]"
      show "distinct (case m_arcList (fst (m_path p ! e)) of None \<Rightarrow> [] | Some arcs \<Rightarrow> map (Pair e) arcs) \<and>
          (\<forall>x \<in> set (case m_arcList (fst (m_path p ! e)) of None \<Rightarrow> [] | Some arcs \<Rightarrow> map (Pair e) arcs). fst x = e)"
      proof (cases "m_arcList (fst (m_path p ! e))")
        case (Some arcs)
        then have "distinct arcs" using d [of e arcs] e by simp
        then show ?thesis using Some by (auto simp: distinct_map inj_on_def)
      qed simp
    qed
  qed simp
qed

lemma CreateDeviantPaths_changes:
  "CreateDeviantPaths p = those (map (\<lambda>(e, a). TrellisPathDeviate p e a) (changes p))"
proof -
  have "map (\<lambda>(e, a). TrellisPathDeviate p e a) (changes p) =
      concat (map (\<lambda>e. case m_arcList (fst (m_path p ! e)) of None \<Rightarrow> [] | Some arcs \<Rightarrow> map (TrellisPathDeviate p e) arcs)
        [first_edge p..<length (m_path p)])"
    unfolding changes_def map_concat by (rule arg_cong [of _ _ concat]) (auto split: option.splits)
  then show ?thesis by (simp add: CreateDeviantPaths_def)
qed

definition deviants_of :: "'st trellis_path \<Rightarrow> 'st trellis_path list" where
  "deviants_of p = (case CreateDeviantPaths p of None \<Rightarrow> [] | Some l \<Rightarrow> l)"

lemma deviants_of_eq:
  assumes "good_path k W p"
  shows "CreateDeviantPaths p = Some (deviants_of p)"
    "deviants_of p = map (\<lambda>(e, a). the (TrellisPathDeviate p e a)) (changes p)"
proof -
  have ok: "TrellisPathDeviate p e a \<noteq> None" if "(e, a) \<in> set (changes p)" for e a
    using deviant [OF assms] that unfolding changes_iff by fastforce
  have "map (\<lambda>(e, a). TrellisPathDeviate p e a) (changes p) = map Some (map (\<lambda>(e, a). the (TrellisPathDeviate p e a)) (changes p))"
    using ok by auto
  then have "CreateDeviantPaths p = Some (map (\<lambda>(e, a). the (TrellisPathDeviate p e a)) (changes p))"
    unfolding CreateDeviantPaths_changes those_Some_iff .
  then show "CreateDeviantPaths p = Some (deviants_of p)"
    "deviants_of p = map (\<lambda>(e, a). the (TrellisPathDeviate p e a)) (changes p)" by (simp_all add: deviants_of_def)
qed

lemma deviants_of_iff:
  assumes "good_path k W p"
  shows "q \<in> set (deviants_of p) \<longleftrightarrow> (\<exists>e a. (e, a) \<in> set (changes p) \<and> TrellisPathDeviate p e a = Some q)"
proof -
  have "TrellisPathDeviate p e a \<noteq> None" if "(e, a) \<in> set (changes p)" for e a
    using deviant [OF assms] that unfolding changes_iff by fastforce
  then show ?thesis unfolding deviants_of_eq(2) [OF assms] by force
qed

lemma deviantE:
  assumes "good_path k W p" "q \<in> set (deviants_of p)"
  obtains e a where "first_edge p \<le> e" "e < length (m_path p)" "good_path k W q" "path_total q \<le> path_total p"
    "m_prevEdgeChanged q = e" "m_path q = take e (m_path p) @ (a, snd (m_path p ! e)) # arc_tail a"
    "drop e (m_path p) = pure_path (snd (m_path p ! e))"
proof -
  obtain e a where ea: "(e, a) \<in> set (changes p)" "TrellisPathDeviate p e a = Some q"
    using assms deviants_of_iff by blast
  then obtain arcs where arcs: "first_edge p \<le> e" "e < length (m_path p)" "m_arcList (fst (m_path p ! e)) = Some arcs" "a \<in> set arcs"
    unfolding changes_iff by blast
  obtain w where w: "lattice_path w (m_path p)" "pure_behind (first_edge p) (m_path p)" by (rule good_pathE [OF assms(1)])
  have pure: "pure_behind 0 (drop e (m_path p))" using pure_behind_drop w(2) arcs(1) by blast
  have "\<forall>(x, y) \<in> set (drop e (m_path p)). x = y"
  proof clarify
    fix x y assume "(x, y) \<in> set (drop e (m_path p))"
    then obtain j where "j < length (drop e (m_path p))" "drop e (m_path p) ! j = (x, y)" by (metis in_set_conv_nth)
    then show "x = y" using pure unfolding pure_behind_def by fastforce
  qed
  then have "drop e (m_path p) = pure_path (snd (m_path p ! e))"
    by (rule lattice_path_pure [OF lattice_path_drop [OF w(1) arcs(2)]])
  then show ?thesis using that deviant [OF assms(1) arcs] ea(2) arcs by auto
qed

interpretation nbest: deviations deviants_of path_total "good_path k W" "TrellisPathInit ` {w \<in> W. final_ok k w}" for k W
proof
  fix p q assume p: "good_path k W p" and q: "q \<in> set (deviants_of p)"
  show "good_path k W q \<and> path_total q \<le> path_total p \<and> q \<notin> TrellisPathInit ` {w \<in> W. final_ok k w}"
  proof -
    obtain e where e: "e < length (m_path p)" "good_path k W q" "path_total q \<le> path_total p" "m_prevEdgeChanged q = e"
      by (rule deviantE [OF p q])
    have "length (m_path p) \<le> NOT_FOUND" by (rule good_pathE [OF p])
    then show ?thesis using e by (auto simp: TrellisPathInit_def)
  qed
next
  fix p assume p: "good_path k W p"
  have "inj_on (\<lambda>(e, a). the (TrellisPathDeviate p e a)) (set (changes p))"
  proof (rule inj_onI, clarify)
    fix e a e' a' assume in1: "(e, a) \<in> set (changes p)" and in2: "(e', a') \<in> set (changes p)"
      and eq: "the (TrellisPathDeviate p e a) = the (TrellisPathDeviate p e' a')"
    from deviant [OF p] in1 obtain q where q: "TrellisPathDeviate p e a = Some q" "m_prevEdgeChanged q = e"
      "m_path q = take e (m_path p) @ (a, snd (m_path p ! e)) # arc_tail a" unfolding changes_iff by metis
    from deviant [OF p] in2 obtain q' where q': "TrellisPathDeviate p e' a' = Some q'" "m_prevEdgeChanged q' = e'"
      "m_path q' = take e' (m_path p) @ (a', snd (m_path p ! e')) # arc_tail a'" unfolding changes_iff by metis
    have same: "q = q'" using eq q(1) q'(1) by simp
    then have "e = e'" using q(2) q'(2) by simp
    moreover have "a = a'" using q(3) q'(3) same \<open>e = e'\<close> by simp
    ultimately show "e = e' \<and> a = a'" by blast
  qed
  then show "distinct (deviants_of p)"
    unfolding deviants_of_eq(2) [OF p] distinct_map using distinct_changes [OF p] by blast
next
  fix p p' q assume p: "good_path k W p" "good_path k W p'" and q: "q \<in> set (deviants_of p)" "q \<in> set (deviants_of p')"
  obtain e a where e: "first_edge p \<le> e" "e < length (m_path p)" "m_prevEdgeChanged q = e"
    "m_path q = take e (m_path p) @ (a, snd (m_path p ! e)) # arc_tail a" "drop e (m_path p) = pure_path (snd (m_path p ! e))"
    by (rule deviantE [OF p(1) q(1)])
  obtain e' a' where e': "first_edge p' \<le> e'" "e' < length (m_path p')" "m_prevEdgeChanged q = e'"
    "m_path q = take e' (m_path p') @ (a', snd (m_path p' ! e')) # arc_tail a'" "drop e' (m_path p') = pure_path (snd (m_path p' ! e'))"
    by (rule deviantE [OF p(2) q(2)])
  have "e = e'" using e(3) e'(3) by simp
  have "take e (m_path p) = take e (m_path p')" "snd (m_path p ! e) = snd (m_path p' ! e)"
    using e(2,4) e'(2,4) unfolding \<open>e = e'\<close> by simp_all
  then have path: "m_path p = m_path p'" using e(5) e'(5) unfolding \<open>e = e'\<close> by (metis append_take_drop_id)
  have "m_prevEdgeChanged p = m_prevEdgeChanged p'"
    using p path unfolding good_path_def changed_ok_def pure_behind_def by (metis Suc_eq_plus1 less_eq_Suc_le less_linear zero_le)
  then show "p = p'" using p path by (simp add: good_path_def)
next
  fix p assume "p \<in> TrellisPathInit ` {w \<in> W. final_ok k w}"
  then show "good_path k W p" using TrellisPathInit_good by blast
qed


section \<open>The list is complete\<close>

lemma good_path_inj:
  assumes "good_path k W p" "good_path k W p'" "m_path p = m_path p'"
  shows "p = p'"
proof -
  have "m_prevEdgeChanged p = m_prevEdgeChanged p'"
    using assms unfolding good_path_def changed_ok_def pure_behind_def by (metis Suc_eq_plus1 less_eq_Suc_le less_linear zero_le)
  then show ?thesis using assms by (simp add: good_path_def)
qed

lemma pure_behind_path:
  assumes "lattice_path w es" "pure_behind 0 es"
  shows "es = pure_path w"
proof (rule lattice_path_pure [OF assms(1)], clarify)
  fix x y assume "(x, y) \<in> set es"
  then show "x = y" using assms(2) unfolding pure_behind_def by (metis fst_conv in_set_conv_nth snd_conv zero_le)
qed

lemma self_edge_path: "(x, x) # arc_tail x = pure_path x"
  by (subst pure_path.simps) (simp add: arc_tail_def)

lemma first_change:
  assumes "lattice_path w es" "m < length es" "pure_behind (Suc m) es"
  shows "es = take m es @ (fst (es ! m), snd (es ! m)) # arc_tail (fst (es ! m))"
proof -
  have drop: "drop m es = (fst (es ! m), snd (es ! m)) # drop (Suc m) es" using Cons_nth_drop_Suc [OF assms(2)] by simp
  have "lattice_path (snd (es ! m)) ((fst (es ! m), snd (es ! m)) # drop (Suc m) es)"
    using lattice_path_drop [OF assms(1,2)] drop by simp
  note tail = lattice_path_tail [OF this]
  have "pure_behind 0 (drop (Suc m) es)" using assms(3) pure_behind_drop by blast
  then have "drop (Suc m) es = arc_tail (fst (es ! m))" using tail pure_behind_path by (auto simp: arc_tail_def)
  then show ?thesis using drop by (metis append_take_drop_id)
qed

lemma all_paths_reached:
  assumes "w \<in> W" "final_ok k w" "lattice_path w es" "pure_behind m es"
  shows "\<exists>p. nbest.reached W k p \<and> m_path p = es"
  using assms(3,4)
proof (induction m arbitrary: es)
  case 0
  then have "m_path (TrellisPathInit w) = es" using pure_behind_path [OF 0] by (simp add: TrellisPathInit_def)
  then show ?case using assms(1,2) nbest.derived.self unfolding nbest.reached_def by blast
next
  case (Suc m)
  show ?case
  proof (cases "m < length es \<and> fst (es ! m) \<noteq> snd (es ! m)")
    case False
    then have "pure_behind m es" using Suc.prems(2) unfolding pure_behind_def by (metis le_eq_less_or_eq less_eq_Suc_le)
    then show ?thesis using Suc by blast
  next
    case True
    let ?a = "fst (es ! m)" and ?x = "snd (es ! m)"
    define es' where "es' = take m es @ (?x, ?x) # arc_tail ?x"
    have "lattice_path w es'"
      using lattice_path_replace [OF Suc.prems(1), of m ?x] True by (simp add: es'_def arc_tail_def lattice_edge_def)
    moreover have "pure_behind m es'"
      unfolding pure_behind_def
    proof (intro allI impI, elim conjE)
      fix j assume "m \<le> j" "j < length es'"
      then have "es' ! j = pure_path ?x ! (j - m)" "j - m < length (pure_path ?x)"
        using True unfolding es'_def self_edge_path by (simp_all add: nth_append)
      then show "fst (es' ! j) = snd (es' ! j)" using pure_path_pure nth_mem by (metis prod.collapse)
    qed
    ultimately obtain p where p: "nbest.reached W k p" "m_path p = es'" using Suc.IH by blast
    have good: "good_path k W p" by (rule nbest.reached_good [OF p(1)])
    have len: "m < length es'" "es' ! m = (?x, ?x)" using True by (simp_all add: es'_def nth_append)
    have first: "first_edge p \<le> m"
    proof (cases "m_prevEdgeChanged p = NOT_FOUND")
      case False
      then have "m_prevEdgeChanged p < length es'" "fst (es' ! m_prevEdgeChanged p) \<noteq> snd (es' ! m_prevEdgeChanged p)"
        using good p(2) by (auto simp: good_path_def changed_ok_def)
      then have "m_prevEdgeChanged p < m" using \<open>pure_behind m es'\<close> unfolding pure_behind_def by (metis not_le)
      then show ?thesis using False by (simp add: first_edge_def)
    qed (simp add: first_edge_def)
    have ok: "lattice_ok k w" using assms(2) by (simp add: final_ok_def)
    have "lattice_edge ?a ?x"
      using lattice_path_edges [OF Suc.prems(1) ok, of ?a ?x] True by simp
    then obtain arcs where arcs: "m_arcList ?x = Some arcs" "?a \<in> set arcs" using True by (auto simp: lattice_edge_def)
    have at: "m_arcList (fst (m_path p ! m)) = Some arcs" "m < length (m_path p)" using p(2) len arcs(1) by simp_all
    from deviant [OF good first at(2,1) arcs(2)] obtain q where
      q: "TrellisPathDeviate p m ?a = Some q" "m_path q = take m es' @ (?a, ?x) # arc_tail ?a" using p(2) len by auto
    have "(m, ?a) \<in> set (changes p)" using first at arcs(2) by (auto simp: changes_iff)
    then have "q \<in> set (deviants_of p)" using q(1) deviants_of_iff [OF good] by blast
    then have "nbest.reached W k q" by (rule nbest.reached_kid [OF p(1)])
    moreover have "take m es' = take m es" using True by (simp add: es'_def)
    moreover from this have "m_path q = es" using q(2) first_change [OF Suc.prems(1) _ Suc.prems(2)] True by simp
    ultimately show ?thesis by blast
  qed
qed

lemma nbest_loop_result:
  assumes "nbest.list_inv W k n C R" "n \<le> length R + rounds" "length R \<le> n"
  shows "\<exists>ret. nbest_loop rounds n f False fs C R seen = Some ret \<and> length ret \<le> n \<and>
    best_first path_total ret \<and> distinct ret \<and> (\<forall>q \<in> set ret. nbest.reached W k q) \<and>
    (\<forall>q. nbest.reached W k q \<longrightarrow> q \<in> set ret \<or> n \<le> length ret \<and> (\<forall>r \<in> set ret. path_total q \<le> path_total r))"
  using assms
proof (induction rounds arbitrary: C R)
  case 0
  then show ?case using nbest.list_inv_result [OF 0(1)] by simp
next
  case (Suc rounds)
  show ?case
  proof (cases "length R < n \<and> C \<noteq> []")
    case False
    then show ?thesis using nbest.list_inv_result [OF Suc.prems(1)] Suc.prems(3) by auto
  next
    case True
    then obtain c C' where C: "C = c # C'" by (cases C) auto
    have "nbest.reached W k c" using Suc.prems(1) unfolding nbest.list_inv_def C by simp
    then have "CreateDeviantPaths c = Some (deviants_of c)" using deviants_of_eq(1) nbest.reached_good by blast
    then have "nbest_loop (Suc rounds) n f False fs C R seen =
        nbest_loop rounds n f False fs (take n (fold (queue_add path_total) (deviants_of c) C')) (R @ [c]) seen"
      using True by (simp add: C TrellisAdd_def TrellisPrune_take Let_def)
    moreover have "nbest.list_inv W k n (take n (fold (queue_add path_total) (deviants_of c) C')) (R @ [c])"
      by (rule nbest.list_inv_step) (use Suc.prems(1) True C in simp_all)
    from Suc.IH [OF this] Suc.prems(2) True have
      "\<exists>ret. nbest_loop rounds n f False fs (take n (fold (queue_add path_total) (deviants_of c) C')) (R @ [c]) seen = Some ret \<and>
        length ret \<le> n \<and> best_first path_total ret \<and> distinct ret \<and> (\<forall>q \<in> set ret. nbest.reached W k q) \<and>
        (\<forall>q. nbest.reached W k q \<longrightarrow> q \<in> set ret \<or> n \<le> length ret \<and> (\<forall>r \<in> set ret. path_total q \<le> path_total r))" by simp
    ultimately show ?thesis by simp
  qed
qed


lemma fold_TrellisAdd: "fold TrellisAdd = fold (queue_add path_total)"
  by (simp add: TrellisAdd_def)

lemma InitScore_path_score:
  assumes "good_path k W p"
  shows "path_total p = Fin (path_score (m_path p))"
proof -
  obtain w where w: "lattice_path w (m_path p)" "path_total p = Fin (deviation_total (m_path p))"
    by (rule good_pathE [OF assms])
  then show ?thesis using deviation_total_path_score [OF w(1)] by simp
qed

text \<open>C7: The n-best list holds the best paths of the lattice: it is sorted, has no path twice, each path is one
  through the hypotheses and arcs and scores what its edges add up to, and a path that is not listed is no
  better than any listed one, the list being full. Changing one edge at a time and pruning the contenders
  to the size of the list loses nothing.
\<close>

theorem nbest_list_is_best:
  assumes "\<forall>h \<in> set (m_hypos (List.last stacks)). final_ok k h" "distinct (m_hypos (List.last stacks))"
    and "n * (if factor < 1 then 1000 else factor) < size_bound"
  shows "\<exists>ret. CalcNBest n factor False fs stacks = Some ret \<and> length ret \<le> n \<and>
    sorted_wrt (\<lambda>p q. path_total q \<le> path_total p) ret \<and> distinct (map m_path ret) \<and>
    (\<forall>p \<in> set ret. path_total p = Fin (path_score (m_path p)) \<and>
       (\<exists>h \<in> set (m_hypos (List.last stacks)). lattice_path h (m_path p))) \<and>
    (\<forall>h \<in> set (m_hypos (List.last stacks)). \<forall>es. lattice_path h es \<longrightarrow>
       es \<in> m_path ` set ret \<or> length ret = n \<and> (\<forall>p \<in> set ret. Fin (path_score es) \<le> path_total p))"
proof (cases "n = 0")
  case True
  then show ?thesis by (simp add: CalcNBest_def)
next
  case False
  let ?hs = "GetSortedList (List.last stacks)"
  define W where "W = set (m_hypos (List.last stacks))"
  have hs: "set ?hs = W" "distinct ?hs"
    using assms(2) by (simp_all add: W_def GetSortedList_def by_total_score_def)
  have roots: "TrellisPathInit ` {w \<in> W. final_ok k w} = TrellisPathInit ` W" using assms(1) by (auto simp: W_def)
  have inj: "inj_on TrellisPathInit W"
  proof (rule inj_onI)
    fix x y assume "TrellisPathInit x = (TrellisPathInit y :: 'a trellis_path)"
    then have "hd (pure_path x) = hd (pure_path y)" by (simp add: TrellisPathInit_def)
    then show "x = y" by (metis lattice_path_hd pure_path_lattice)
  qed
  let ?C = "fold (queue_add path_total) (map TrellisPathInit ?hs) []"
  have "nbest.list_inv W k n ?C []"
    by (rule nbest.list_inv_start) (use hs roots inj in \<open>simp_all add: distinct_map\<close>)
  moreover have "n \<le> length [] + (n * (if factor < 1 then 1000 else factor)) mod size_bound"
    using assms(3) by (simp add: mod_less)
  ultimately have "\<exists>ret. nbest_loop ((n * (if factor < 1 then 1000 else factor)) mod size_bound) n factor False fs ?C [] [] = Some ret \<and>
      length ret \<le> n \<and> best_first path_total ret \<and> distinct ret \<and> (\<forall>q \<in> set ret. nbest.reached W k q) \<and>
      (\<forall>q. nbest.reached W k q \<longrightarrow> q \<in> set ret \<or> n \<le> length ret \<and> (\<forall>r \<in> set ret. path_total q \<le> path_total r))"
    by (rule nbest_loop_result) simp
  then obtain ret where
    ret: "nbest_loop ((n * (if factor < 1 then 1000 else factor)) mod size_bound) n factor False fs ?C [] [] = Some ret"
    "length ret \<le> n" "best_first path_total ret" "distinct ret" and reach: "\<forall>q \<in> set ret. nbest.reached W k q"
    and all: "\<And>q. nbest.reached W k q \<Longrightarrow> q \<in> set ret \<or> n \<le> length ret \<and> (\<forall>r \<in> set ret. path_total q \<le> path_total r)"
    by blast
  have good: "good_path k W q" if "q \<in> set ret" for q using reach nbest.reached_good that by blast
  have "CalcNBest n factor False fs stacks = Some ret"
    unfolding CalcNBest_def Let_def fold_TrellisAdd using False ret(1) by simp
  moreover have "distinct (map m_path ret)"
    unfolding distinct_map
  proof (intro conjI inj_onI)
    fix p q assume "p \<in> set ret" "q \<in> set ret" "m_path p = m_path q"
    then show "p = q" using good_path_inj [OF good good] by blast
  qed (rule ret(4))
  moreover have "path_total p = Fin (path_score (m_path p)) \<and> (\<exists>h \<in> W. lattice_path h (m_path p))" if "p \<in> set ret" for p
    using good [OF that] InitScore_path_score by (auto simp: good_path_def)
  moreover have "es \<in> m_path ` set ret \<or> length ret = n \<and> (\<forall>p \<in> set ret. Fin (path_score es) \<le> path_total p)"
    if h: "h \<in> W" "lattice_path h es" for h es
  proof -
    have "final_ok k h" using assms(1) h(1) by (simp add: W_def)
    moreover have "pure_behind (length es) es" unfolding pure_behind_def by (meson leD)
    ultimately obtain p where p: "nbest.reached W k p" "m_path p = es" using all_paths_reached h by blast
    have "path_total p = Fin (path_score es)" using InitScore_path_score nbest.reached_good p by blast
    then show ?thesis using all [OF p(1)] p(2) ret(2) by auto
  qed
  ultimately show ?thesis using ret(2,3) unfolding best_first_def W_def by (intro exI [of _ ret]) blast
qed


definition surfaces_differ :: "nat list \<Rightarrow> 'st trellis_path \<Rightarrow> 'st trellis_path \<Rightarrow> bool" where
  "surfaces_differ fs p q \<longleftrightarrow>
     (\<exists>a b. GetSurfacePhrase fs p = Some a \<and> GetSurfacePhrase fs q = Some b \<and> PhraseCompare a b \<noteq> 0)"

lemma distinct_loop:
  assumes "nbest_loop rounds n f True fs C R seen = Some ret" "sorted_wrt (surfaces_differ fs) R"
    and "\<forall>p \<in> set R. \<exists>a \<in> set seen. GetSurfacePhrase fs p = Some a" "length R = length seen" "length R \<le> n"
  shows "sorted_wrt (surfaces_differ fs) ret \<and> length ret \<le> n"
  using assms
proof (induction rounds arbitrary: C R seen)
  case (Suc rounds)
  show ?case
  proof (cases "length seen < n \<and> C \<noteq> []")
    case False
    have "ret = R" using Suc.prems(1) by (simp only: nbest_loop.simps if_True if_not_P [OF False] option.inject)
    then show ?thesis using Suc.prems by simp
  next
    case True
    then obtain ds a where step: "CreateDeviantPaths (hd C) = Some ds" "GetSurfacePhrase fs (hd C) = Some a"
      using Suc.prems(1) by (auto simp: Let_def split: option.splits)
    define new where "new = (\<not> list_ex (\<lambda>q. PhraseCompare q a = 0) seen)"
    obtain D where loop: "nbest_loop rounds n f True fs D (if new then R @ [hd C] else R) (if new then a # seen else seen) = Some ret"
      using Suc.prems(1) True step by (simp add: Let_def new_def)
    have "sorted_wrt (surfaces_differ fs) (if new then R @ [hd C] else R)"
    proof (cases new)
      case True
      have "surfaces_differ fs p (hd C)" if p: "p \<in> set R" for p
      proof -
        obtain b where b: "b \<in> set seen" "GetSurfacePhrase fs p = Some b" using Suc.prems(3) p by blast
        then have "PhraseCompare b a \<noteq> 0" using True by (auto simp: new_def list_ex_iff)
        then show ?thesis using b(2) step(2) by (simp add: surfaces_differ_def)
      qed
      then show ?thesis using True Suc.prems(2) by (simp add: sorted_wrt_append)
    qed (use Suc.prems(2) in simp)
    then show ?thesis
      using Suc.IH [OF loop] Suc.prems(3,4,5) True step(2) by (auto split: if_splits)
  qed
qed simp

text \<open>With distinct translations asked for no two listed paths have surface phrases that compare as equal.\<close>

theorem distinct_nbest_differs:
  assumes "CalcNBest n factor True fs stacks = Some ret"
  shows "sorted_wrt (surfaces_differ fs) ret \<and> length ret \<le> n"
proof (cases "n = 0")
  case False
  then show ?thesis using assms distinct_loop [of _ n factor fs _ "[]" "[]" ret] by (simp add: CalcNBest_def Let_def)
qed (use assms in \<open>simp add: CalcNBest_def\<close>)

section \<open>An instance\<close>

text \<open>A seed, a hypothesis over it and an arc that lost to it.\<close>

definition sample_node :: "nat \<Rightarrow> rat \<Rightarrow> nat hypothesis option \<Rightarrow> nat hypothesis list option \<Rightarrow> nat hypothesis" where
  "sample_node i t prev arcs = Hypothesis
     \<lparr>m_targetPhrase = [], m_sourceCompleted = BitmapInit 1, m_currSourceWordsRange = WordsRange 0 0,
      m_currTargetWordsRange = WordsRange 0 0, m_wordDeleted = False, m_totalScore = Fin t, m_futureScore = 0,
      m_scoreBreakdown = [t], m_ffStates = [], m_winningHypo = Some i, m_transOpt = None, m_id = i\<rparr> prev arcs"

definition seed_node :: "nat hypothesis" where
  "seed_node = sample_node 0 0 None None"

definition arc_node :: "nat hypothesis" where
  "arc_node = sample_node 2 (-3) (Some seed_node) None"

definition final_node :: "nat hypothesis" where
  "final_node = sample_node 1 (-1) (Some seed_node) (Some [arc_node])"

lemma sample_node_simps [simp]:
  "m_prevHypo (sample_node i t prev arcs) = prev" "m_arcList (sample_node i t prev arcs) = arcs"
  "total (sample_node i t prev arcs) = Fin t" "m_id (core (sample_node i t prev arcs)) = i"
  "m_scoreBreakdown (core (sample_node i t prev arcs)) = [t]"
  by (simp_all add: sample_node_def)

lemma final_node_ok: "final_ok 1 final_node"
proof -
  have seed: "lattice_ok 1 seed_node" unfolding seed_node_def by (rule lattice_ok.intros) simp_all
  have "lattice_ok 1 final_node"
    unfolding final_node_def by (rule lattice_ok.intros) (use seed in \<open>auto simp: arc_fits_def arc_node_def\<close>)
  moreover have "length es \<le> NOT_FOUND" if "lattice_path final_node es" for es
  proof -
    have one: "length es = 1" if "lattice_path seed_node es" for es
      using that by (cases rule: lattice_path.cases) (auto simp: seed_node_def lattice_edge_def)
    have "length es = 2"
      using that
    proof (cases rule: lattice_path.cases)
      case (next_edge h p es')
      then have "p = seed_node" by (auto simp: lattice_edge_def final_node_def arc_node_def)
      then show ?thesis using one [of es'] next_edge by simp
    qed (auto simp: lattice_edge_def final_node_def arc_node_def)
    then show ?thesis by (simp add: NOT_FOUND_def size_bound_def)
  qed
  ultimately show ?thesis by (simp add: final_ok_def)
qed

lemma nbest_list_is_best_witness:
  "\<exists>ret. CalcNBest 2 20 False [0] [HypothesisStackInit\<lparr>m_hypos := [final_node]\<rparr>] = Some ret \<and>
     length ret = 2"
proof -
  let ?st = "[HypothesisStackInit\<lparr>m_hypos := [final_node]\<rparr>]"
  have "\<forall>h \<in> set (m_hypos (List.last ?st)). final_ok 1 h" "distinct (m_hypos (List.last ?st))"
    "2 * (if 20 < (1 :: nat) then 1000 else 20) < size_bound"
    using final_node_ok by (simp_all add: size_bound_def)
  from nbest_list_is_best [OF this, of "[0]"] obtain ret where
    ret: "CalcNBest 2 20 False [0] ?st = Some ret" "length ret \<le> 2"
      "sorted_wrt (\<lambda>p q. path_total q \<le> path_total p) ret" "distinct (map m_path ret)" and
    all: "\<And>es. lattice_path final_node es \<Longrightarrow> es \<in> m_path ` set ret \<or> length ret = 2 \<and>
      (\<forall>p \<in> set ret. Fin (path_score es) \<le> path_total p)" by auto
  let ?best = "[(final_node, final_node), (seed_node, seed_node)]"
  let ?other = "[(arc_node, final_node), (seed_node, seed_node)]"
  have "lattice_path seed_node [(seed_node, seed_node)]"
    by (rule lattice_path.final_edge) (simp_all add: lattice_edge_def seed_node_def)
  then have paths: "lattice_path final_node ?best" "lattice_path final_node ?other"
    by (auto intro!: lattice_path.next_edge simp: lattice_edge_def final_node_def arc_node_def)
  have "?best \<noteq> ?other" by (simp add: final_node_def arc_node_def sample_node_def)
  have two: "length ret = 2"
  proof (rule ccontr)
    assume "length ret \<noteq> 2"
    then have "?best \<in> set (map m_path ret)" "?other \<in> set (map m_path ret)" using all paths by auto
    then have "card {?best, ?other} \<le> card (set (map m_path ret))" by (intro card_mono) auto
    also have "\<dots> \<le> length ret" by (metis card_length length_map)
    finally show False using \<open>?best \<noteq> ?other\<close> ret(2) \<open>length ret \<noteq> 2\<close> by simp
  qed
  then show ?thesis using ret(1) by blast
qed

lemma distinct_nbest_differs_witness:
  "\<exists>ret. CalcNBest 1 20 True [0] [HypothesisStackInit\<lparr>m_hypos := [final_node]\<rparr>] = Some ret \<and>
     ret \<noteq> [] \<and> sorted_wrt (surfaces_differ [0]) ret"
proof -
  let ?p = "TrellisPathInit final_node"
  have "good_path 1 {final_node} ?p" by (rule TrellisPathInit_good [OF final_node_ok]) simp
  from deviants_of_eq(1) [OF this] have dev: "CreateDeviantPaths ?p = Some (deviants_of ?p)" .
  have "pure_path final_node = [(final_node, final_node), (seed_node, seed_node)]"
  proof -
    have "m_prevHypo final_node = Some seed_node" "m_prevHypo seed_node = None"
      by (simp_all add: final_node_def seed_node_def)
    then show ?thesis by (simp add: pure_path.simps [of final_node] pure_path.simps [of seed_node])
  qed
  then have surface: "GetSurfacePhrase [0] ?p = Some []"
    by (simp add: GetSurfacePhrase_def TrellisGetTargetPhrase_def TrellisPathInit_def final_node_def sample_node_def)
  have "nbest_loop (Suc (Suc j)) 1 20 True [0] [?p] [] [] = Some [?p]" for j
    using dev surface by (simp add: Let_def)
  moreover have "Suc (Suc 18) = (20 :: nat)" by simp
  ultimately have "nbest_loop 20 1 20 True [0] [?p] [] [] = Some [?p]" by metis
  moreover have "GetSortedList (List.last [HypothesisStackInit\<lparr>m_hypos := [final_node]\<rparr>]) = [final_node]"
    by (simp add: GetSortedList_def by_total_score_def)
  ultimately have c: "CalcNBest 1 20 True [0] [HypothesisStackInit\<lparr>m_hypos := [final_node]\<rparr>] = Some [?p]"
    by (simp add: CalcNBest_def TrellisAdd_def queue_add_def size_bound_def)
  then show ?thesis using distinct_nbest_differs [OF c] by blast
qed

end
