(* ===== verification/Phrase_Extraction.thy ===== *)
theory Phrase_Extraction
  imports Util_Strings
begin

text \<open>
  Phrase extraction (\<open>phrase-extract/extract.cpp\<close>, \<open>SentenceAlignment.cpp\<close>, \<open>tables-core.cpp\<close>): reading
  a word-aligned sentence pair, listing the phrase pairs consistent with the alignment, their
  orientation in the word, phrase and hierarchical reordering models, and the lines written for them.
  Positions are the \<open>int\<close>s of the code. \<open>None\<close> is undefined behaviour: an \<open>int\<close> that \<open>sscanf\<close> has not
  set, or the end iterator of one map compared with another's and then read.
\<close>

section \<open>Tokens and vocabularies\<close>

text \<open>The word read so far and the words before it.\<close>

fun table_tokens :: "string \<Rightarrow> string \<Rightarrow> bool \<Rightarrow> string list" where
  "table_tokens [] word betweenWords = (if betweenWords then [] else [word])"
| "table_tokens (c # cs) word betweenWords =
     (let isSpace = (c = CHR '' '' \<or> c = CHR 0x09)
      in if \<not> isSpace \<and> betweenWords then table_tokens cs [c] False
         else if isSpace \<and> \<not> betweenWords then word # table_tokens cs [] True
         else if betweenWords then table_tokens cs word True
         else table_tokens cs (word @ [c]) False)"

definition table_tokenize :: "string \<Rightarrow> string list" where
  "table_tokenize input = table_tokens input [] True"

definition isNonTerminal :: "string \<Rightarrow> bool" where
  "isNonTerminal symbol \<longleftrightarrow> symbol \<noteq> [] \<and> hd symbol = CHR ''['' \<and> List.last symbol = CHR '']''"

text \<open>\<open>Vocabulary\<close> and \<open>PhraseTable\<close>, whose entries are words and phrases.\<close>

record 'w vocabulary =
  vocab :: "'w list"
  lookup :: "'w \<Rightarrow> nat option"

definition VocabularyInit :: "'w vocabulary" where
  "VocabularyInit = \<lparr>vocab = [], lookup = (\<lambda>w. None)\<rparr>"

definition storeIfNew :: "'w \<Rightarrow> 'w vocabulary \<Rightarrow> nat \<times> 'w vocabulary" where
  "storeIfNew word v =
     (case lookup v word of
        Some i \<Rightarrow> (i, v)
      | None \<Rightarrow> (length (vocab v), v\<lparr>vocab := vocab v @ [word], lookup := (lookup v)(word := Some (length (vocab v)))\<rparr>))"

definition getWordID :: "'w \<Rightarrow> 'w vocabulary \<Rightarrow> nat" where
  "getWordID word v = (case lookup v word of None \<Rightarrow> 0 | Some i \<Rightarrow> i)"

section \<open>Reading an aligned sentence pair\<close>

record sentence_alignment =
  sa_target :: "string list"
  sa_source :: "string list"
  alignedCountS :: "int list"
  alignedToT :: "int list list"
  sentenceID :: int

text \<open>
  A decimal number as \<open>%d\<close> reads it, and what is left. White space before it is skipped; numbers
  outside \<open>int\<close> are undefined in C and are left to their value here.
\<close>

definition is_space :: "char \<Rightarrow> bool" where
  "is_space c \<longleftrightarrow> c = CHR '' '' \<or> 9 \<le> (of_char c :: nat) \<and> (of_char c :: nat) \<le> 13"

definition is_digit :: "char \<Rightarrow> bool" where
  "is_digit c \<longleftrightarrow> 48 \<le> (of_char c :: nat) \<and> (of_char c :: nat) \<le> 57"

definition digits_value :: "string \<Rightarrow> int" where
  "digits_value ds = foldl (\<lambda>v c. 10 * v + (of_char c - 48)) 0 ds"

definition scan_int :: "string \<Rightarrow> (int \<times> string) option" where
  "scan_int s =
     (let (neg, s) = (case dropWhile is_space s of c # cs \<Rightarrow> if c = CHR ''-'' then (True, cs) else if c = CHR ''+'' then (False, cs) else (False, c # cs)
                              | [] \<Rightarrow> (False, []));
          ds = takeWhile is_digit s
      in if ds = [] then None
         else Some (if neg then - digits_value ds else digits_value ds, dropWhile is_digit s))"

text \<open>
  \<open>sscanf(token, "%d-%d", &s, &t)\<close>: how many numbers it sets; at the end of the input it returns \<open>EOF\<close>,
  which the test takes for success too.
\<close>

datatype scanned = NoMatch | OnlyFirst int | Both int int | AtEof

definition scan_point :: "string \<Rightarrow> scanned" where
  "scan_point w =
     (if dropWhile is_space w = [] then AtEof
      else case scan_int w of
             None \<Rightarrow> NoMatch
           | Some (s, rest) \<Rightarrow>
               (case rest of
                  c # cs \<Rightarrow> (if c = CHR ''-'' then (case scan_int cs of None \<Rightarrow> OnlyFirst s | Some (t, r) \<Rightarrow> Both s t)
                             else OnlyFirst s)
                | [] \<Rightarrow> OnlyFirst s))"

text \<open>An \<open>int\<close> compared with a size: a negative one is larger than every size.\<close>

definition out_of_size :: "int \<Rightarrow> nat \<Rightarrow> bool" where
  "out_of_size i n \<longleftrightarrow> i < 0 \<or> i \<ge> int n"

fun read_points :: "string list \<Rightarrow> sentence_alignment \<Rightarrow> (bool \<times> sentence_alignment) option" where
  "read_points [] sa = Some (True, sa)"
| "read_points (w # ws) sa =
     (case scan_point w of
        NoMatch \<Rightarrow> Some (False, sa)
      | Both s t \<Rightarrow>
          (if out_of_size t (length (sa_target sa)) \<or> out_of_size s (length (sa_source sa)) then Some (False, sa)
           else read_points ws (sa\<lparr>alignedToT := (alignedToT sa)[nat t := alignedToT sa ! nat t @ [s]],
                  alignedCountS := (alignedCountS sa)[nat s := alignedCountS sa ! nat s + 1]\<rparr>))
      | _ \<Rightarrow> None)"

definition SentenceAlignmentCreate ::
    "string \<Rightarrow> string \<Rightarrow> string \<Rightarrow> int \<Rightarrow> (bool \<times> sentence_alignment) option" where
  "SentenceAlignmentCreate targetString sourceString alignmentString sid =
     (let target = table_tokenize targetString; source = table_tokenize sourceString;
          sa = \<lparr>sa_target = target, sa_source = source, alignedCountS = [], alignedToT = [], sentenceID = sid\<rparr>
      in if length target = 0 \<or> length source = 0 then Some (False, sa)
         else read_points (table_tokenize alignmentString)
                (sa\<lparr>alignedCountS := replicate (length source) 0, alignedToT := replicate (length target) []\<rparr>))"

section \<open>Phrase pairs\<close>

text \<open>
  The source words a stretch of target words is aligned to: the smallest and the largest, and how
  many links of each source word lead elsewhere.
\<close>

definition link_step :: "int \<Rightarrow> int \<times> int \<times> int list \<Rightarrow> int \<times> int \<times> int list" where
  "link_step fi acc =
     (case acc of (minF, maxF, usedF) \<Rightarrow>
        (if fi < minF then fi else minF, if fi > maxF then fi else maxF, usedF[nat fi := usedF ! nat fi - 1]))"

definition covered_source :: "sentence_alignment \<Rightarrow> int \<Rightarrow> int \<Rightarrow> int \<times> int \<times> int list" where
  "covered_source sa startE endE =
     fold (\<lambda>ei. fold link_step (alignedToT sa ! nat ei)) [startE..endE] (9999, -1, alignedCountS sa)"

definition out_of_bounds :: "int list \<Rightarrow> int \<Rightarrow> int \<Rightarrow> bool" where
  "out_of_bounds usedF minF maxF = list_ex (\<lambda>fi. usedF ! nat fi > 0) [minF..maxF]"

definition start_positions :: "sentence_alignment \<Rightarrow> bool \<Rightarrow> int \<Rightarrow> int \<Rightarrow> int \<Rightarrow> int list" where
  "start_positions sa relaxLimit maxPhraseLength minF maxF =
     takeWhile (\<lambda>startF. (relaxLimit \<or> startF > maxF - maxPhraseLength) \<and>
         (startF = minF \<or> alignedCountS sa ! nat startF = 0)) (rev [0..minF])"

definition end_positions :: "sentence_alignment \<Rightarrow> bool \<Rightarrow> int \<Rightarrow> int \<Rightarrow> int \<Rightarrow> int list" where
  "end_positions sa relaxLimit maxPhraseLength startF maxF =
     takeWhile (\<lambda>endF. (relaxLimit \<or> endF < startF + maxPhraseLength) \<and>
         (endF = maxF \<or> alignedCountS sa ! nat endF = 0)) [maxF..int (length (sa_source sa)) - 1]"

text \<open>The source spans extracted for a target span.\<close>

definition source_spans_of :: "sentence_alignment \<Rightarrow> bool \<Rightarrow> int \<Rightarrow> int \<Rightarrow> int \<Rightarrow> (int \<times> int) list" where
  "source_spans_of sa relaxLimit maxPhraseLength startE endE =
     (case covered_source sa startE endE of (minF, maxF, usedF) \<Rightarrow>
        if maxF \<ge> 0 \<and> (relaxLimit \<or> maxF - minF < maxPhraseLength) \<and> \<not> out_of_bounds usedF minF maxF
        then concat (map (\<lambda>startF. map (Pair startF) (end_positions sa relaxLimit maxPhraseLength startF maxF))
               (start_positions sa relaxLimit maxPhraseLength minF maxF))
        else [])"

definition target_ends :: "sentence_alignment \<Rightarrow> bool \<Rightarrow> int \<Rightarrow> int \<Rightarrow> int list" where
  "target_ends sa relaxLimit maxPhraseLength startE =
     takeWhile (\<lambda>endE. relaxLimit \<or> endE < startE + maxPhraseLength) [startE..int (length (sa_target sa)) - 1]"

text \<open>All phrase pairs, in the order the loops reach them.\<close>

type_synonym phrase_pair = "(int \<times> int) \<times> (int \<times> int)"

definition extracted_pairs :: "sentence_alignment \<Rightarrow> bool \<Rightarrow> int \<Rightarrow> phrase_pair list" where
  "extracted_pairs sa relaxLimit maxPhraseLength =
     concat (map (\<lambda>startE. concat (map (\<lambda>endE.
         map (\<lambda>(startF, endF). ((startF, startE), (endF, endE))) (source_spans_of sa relaxLimit maxPhraseLength startE endE))
       (target_ends sa relaxLimit maxPhraseLength startE))) [0..int (length (sa_target sa)) - 1])"

section \<open>Orientation\<close>

datatype reo_model_type = REO_MSD | REO_MSLR | REO_MONO

datatype reo_pos = LEFT | RIGHT | DLEFT | DRIGHT | UNKNOWN

definition isAligned :: "sentence_alignment \<Rightarrow> int \<Rightarrow> int \<Rightarrow> bool" where
  "isAligned sa fi ei =
     (if ei = -1 \<and> fi = -1 then True
      else if ei \<le> -1 \<or> fi \<le> -1 then False
      else if ei = int (length (sa_target sa)) \<and> fi = int (length (sa_source sa)) then True
      else if ei \<ge> int (length (sa_target sa)) \<or> fi \<ge> int (length (sa_source sa)) then False
      else list_ex (\<lambda>f. f = fi) (alignedToT sa ! nat ei))"

text \<open>
  The indices of a loop \<open>for (i = start; cmp(i, bound); i += step)\<close> over source positions; a sentence has
  no more than \<open>n\<close> of them.
\<close>

definition walk :: "nat \<Rightarrow> (int \<Rightarrow> int \<Rightarrow> bool) \<Rightarrow> int \<Rightarrow> int \<Rightarrow> int \<Rightarrow> int list" where
  "walk n cmp bound start step = takeWhile (\<lambda>i. cmp i bound) (map (\<lambda>k. start + int k * step) [0..<n])"

definition getOrientWordModel ::
    "sentence_alignment \<Rightarrow> reo_model_type \<Rightarrow> bool \<Rightarrow> bool \<Rightarrow> int \<Rightarrow> int \<Rightarrow> int \<Rightarrow> int \<Rightarrow> int \<Rightarrow> int \<Rightarrow> int \<Rightarrow>
     (int \<Rightarrow> int \<Rightarrow> bool) \<Rightarrow> (int \<Rightarrow> int \<Rightarrow> bool) \<Rightarrow> reo_pos" where
  "getOrientWordModel sa modelType connectedLeftTop connectedRightTop startF endF startE endE countF zero unit ge lt =
     (if connectedLeftTop \<and> \<not> connectedRightTop then LEFT
      else if modelType = REO_MONO then UNKNOWN
      else if \<not> connectedLeftTop \<and> connectedRightTop then RIGHT
      else if modelType = REO_MSD then UNKNOWN
      else let n = length (sa_source sa) + 2;
               connectedLeftTop = (connectedLeftTop \<or>
                 list_ex (\<lambda>indexF. isAligned sa indexF (startE - unit)) (walk n ge zero (startF - 2 * unit) (- unit)));
               connectedRightTop = (connectedRightTop \<or>
                 list_ex (\<lambda>indexF. isAligned sa indexF (startE - unit)) (walk n lt countF (endF + 2 * unit) unit))
           in if connectedLeftTop \<and> \<not> connectedRightTop then DRIGHT
              else if \<not> connectedLeftTop \<and> connectedRightTop then DLEFT
              else UNKNOWN)"

text \<open>The corners of phrase pairs: the source positions by target position.\<close>

type_synonym vertices = "int \<Rightarrow> int set option"

definition insertVertex :: "int \<Rightarrow> int \<Rightarrow> vertices \<Rightarrow> vertices" where
  "insertVertex x y corners =
     corners(y := (case corners y of None \<Rightarrow> Some {x} | Some s \<Rightarrow> Some (insert x s)))"

record corner_sets =
  topLeft :: vertices
  topRight :: vertices
  bottomLeft :: vertices
  bottomRight :: vertices

definition no_corners :: corner_sets where
  "no_corners = \<lparr>topLeft = (\<lambda>y. None), topRight = (\<lambda>y. None), bottomLeft = (\<lambda>y. None), bottomRight = (\<lambda>y. None)\<rparr>"

definition insertPhraseVertices :: "int \<Rightarrow> int \<Rightarrow> int \<Rightarrow> int \<Rightarrow> corner_sets \<Rightarrow> corner_sets" where
  "insertPhraseVertices startF startE endF endE c =
     c\<lparr>topLeft := insertVertex startF startE (topLeft c), topRight := insertVertex endF startE (topRight c),
       bottomLeft := insertVertex startF endE (bottomLeft c), bottomRight := insertVertex endF endE (bottomRight c)\<rparr>"

definition has_vertex :: "vertices \<Rightarrow> int \<Rightarrow> int \<Rightarrow> bool" where
  "has_vertex corners x y = (case corners y of None \<Rightarrow> False | Some s \<Rightarrow> x \<in> s)"

text \<open>
  The last loop compares the iterator into the left corners with the end of the right ones: without a
  key, what it then reads is no element.
\<close>

fun left_search :: "vertices list \<Rightarrow> int \<Rightarrow> int list \<Rightarrow> reo_pos option" where
  "left_search corners y [] = Some UNKNOWN"
| "left_search corners y (indexF # is) =
     (if list_ex (\<lambda>c. c y = None) (takeWhile (\<lambda>c. \<not> has_vertex c indexF y) corners) then None
      else if list_ex (\<lambda>c. has_vertex c indexF y) corners then Some DLEFT
      else left_search corners y is)"

definition getOrientPhraseModel ::
    "sentence_alignment \<Rightarrow> reo_model_type \<Rightarrow> bool \<Rightarrow> bool \<Rightarrow> int \<Rightarrow> int \<Rightarrow> int \<Rightarrow> int \<Rightarrow> int \<Rightarrow> int \<Rightarrow> int \<Rightarrow>
     (int \<Rightarrow> int \<Rightarrow> bool) \<Rightarrow> (int \<Rightarrow> int \<Rightarrow> bool) \<Rightarrow> vertices \<Rightarrow> vertices \<Rightarrow> reo_pos option" where
  "getOrientPhraseModel sa modelType connectedLeftTop connectedRightTop startF endF startE endE countF zero unit ge lt
       inBottomRight inBottomLeft =
     (let n = length (sa_source sa) + 2
      in if (connectedLeftTop \<and> \<not> connectedRightTop) \<or> has_vertex inBottomRight (startF - unit) (startE - unit) then Some LEFT
         else if modelType = REO_MONO then Some UNKNOWN
         else if (\<not> connectedLeftTop \<and> connectedRightTop) \<or> has_vertex inBottomLeft (endF + unit) (startE - unit) then Some RIGHT
         else if modelType = REO_MSD then Some UNKNOWN
         else if list_ex (\<lambda>indexF. has_vertex inBottomRight indexF (startE - unit)) (walk n ge zero (startF - 2 * unit) (- unit))
              then Some DRIGHT
         else left_search [inBottomLeft] (startE - unit) (walk n lt countF (endF + 2 * unit) unit))"

definition getOrientHierModel ::
    "sentence_alignment \<Rightarrow> reo_model_type \<Rightarrow> bool \<Rightarrow> bool \<Rightarrow> int \<Rightarrow> int \<Rightarrow> int \<Rightarrow> int \<Rightarrow> int \<Rightarrow> int \<Rightarrow> int \<Rightarrow>
     (int \<Rightarrow> int \<Rightarrow> bool) \<Rightarrow> (int \<Rightarrow> int \<Rightarrow> bool) \<Rightarrow> vertices \<Rightarrow> vertices \<Rightarrow> vertices \<Rightarrow> vertices \<Rightarrow> reo_pos \<Rightarrow> reo_pos option" where
  "getOrientHierModel sa modelType connectedLeftTop connectedRightTop startF endF startE endE countF zero unit ge lt
       inBottomRight inBottomLeft outBottomRight outBottomLeft phraseOrient =
     (let n = length (sa_source sa) + 2
      in if phraseOrient = LEFT \<or> (connectedLeftTop \<and> \<not> connectedRightTop) \<or>
            has_vertex inBottomRight (startF - unit) (startE - unit) \<or> has_vertex outBottomRight (startF - unit) (startE - unit)
         then Some LEFT
         else if modelType = REO_MONO then Some UNKNOWN
         else if phraseOrient = RIGHT \<or> (\<not> connectedLeftTop \<and> connectedRightTop) \<or>
            has_vertex inBottomLeft (endF + unit) (startE - unit) \<or> has_vertex outBottomLeft (endF + unit) (startE - unit)
         then Some RIGHT
         else if modelType = REO_MSD then Some UNKNOWN
         else if phraseOrient \<noteq> UNKNOWN then Some phraseOrient
         else if list_ex (\<lambda>indexF. has_vertex inBottomRight indexF (startE - unit) \<or> has_vertex outBottomRight indexF (startE - unit))
                (walk n ge zero (startF - 2 * unit) (- unit))
         then Some DRIGHT
         else left_search [inBottomLeft, outBottomLeft] (startE - unit) (walk n lt countF (endF + 2 * unit) unit))"

definition getOrientString :: "reo_pos \<Rightarrow> reo_model_type \<Rightarrow> string" where
  "getOrientString orient modelType =
     (case orient of
        LEFT \<Rightarrow> ''mono''
      | RIGHT \<Rightarrow> ''swap''
      | DRIGHT \<Rightarrow> ''dright''
      | DLEFT \<Rightarrow> ''dleft''
      | UNKNOWN \<Rightarrow> (case modelType of REO_MONO \<Rightarrow> ''nomono'' | REO_MSD \<Rightarrow> ''other'' | REO_MSLR \<Rightarrow> ''dright''))"


section \<open>Output\<close>

record extract_settings =
  maxPhraseLength :: int
  orientationFlag :: bool
  translationFlag :: bool
  sentenceIdFlag :: bool
  onlyOutputSpanInfo :: bool
  allModelsOutputFlag :: bool
  wordModel :: bool
  wordType :: reo_model_type
  phraseModel :: bool
  phraseType :: reo_model_type
  hierModel :: bool
  hierType :: reo_model_type

text \<open>The files and the standard output.\<close>

record extract_files =
  extractFile :: string
  extractFileInv :: string
  extractFileOrientation :: string
  extractFileSentenceId :: string
  stdout_text :: string

definition show_int :: "int \<Rightarrow> string" where
  "show_int i = (if i < 0 then ''-'' @ show_nat (nat (- i)) else show_nat (nat i))"

definition write_words :: "string list \<Rightarrow> int \<Rightarrow> int \<Rightarrow> string" where
  "write_words ws first final = concat (map (\<lambda>i. ws ! nat i @ '' '') [first..final])"

definition write_points :: "(int \<Rightarrow> int \<Rightarrow> int \<times> int) \<Rightarrow> sentence_alignment \<Rightarrow> int \<Rightarrow> int \<Rightarrow> string" where
  "write_points pt sa startE endE =
     concat (map (\<lambda>ei. concat (map (\<lambda>fi. case pt fi ei of (x, y) \<Rightarrow> '' '' @ show_int x @ ''-'' @ show_int y)
       (alignedToT sa ! nat ei))) [startE..endE])"

definition addPhrase ::
    "extract_settings \<Rightarrow> sentence_alignment \<Rightarrow> int \<Rightarrow> int \<Rightarrow> int \<Rightarrow> int \<Rightarrow> string \<Rightarrow> extract_files \<Rightarrow> extract_files" where
  "addPhrase es sa startE endE startF endF orientationInfo out =
     (if onlyOutputSpanInfo es
      then out\<lparr>stdout_text := stdout_text out @ show_int startF @ '' '' @ show_int endF @ '' '' @ show_int startE @ '' '' @
             show_int endE @ ''\<newline>''\<rparr>
      else let src = write_words (sa_source sa) startF endF; tgt = write_words (sa_target sa) startE endE
           in out\<lparr>
             extractFile := extractFile out @ (if translationFlag es
               then src @ ''||| '' @ tgt @ ''|||'' @ write_points (\<lambda>fi ei. (fi - startF, ei - startE)) sa startE endE @ ''\<newline>'' else []),
             extractFileInv := extractFileInv out @ (if translationFlag es
               then tgt @ ''||| '' @ src @ ''|||'' @ write_points (\<lambda>fi ei. (ei - startE, fi - startF)) sa startE endE @ ''\<newline>'' else []),
             extractFileOrientation := extractFileOrientation out @ (if orientationFlag es
               then src @ ''||| '' @ tgt @ ''||| '' @ orientationInfo @ ''\<newline>'' else []),
             extractFileSentenceId := extractFileSentenceId out @ (if sentenceIdFlag es
               then src @ ''||| '' @ tgt @ ''||| '' @ show_int (sentenceID sa) @ ''\<newline>'' else [])\<rparr>)"

section \<open>A whole sentence\<close>

definition word_orientations :: "extract_settings \<Rightarrow> sentence_alignment \<Rightarrow> phrase_pair \<Rightarrow> reo_pos \<times> reo_pos" where
  "word_orientations es sa pair =
     (case pair of ((startF, startE), (endF, endE)) \<Rightarrow>
        let countF = int (length (sa_source sa))
        in (getOrientWordModel sa (wordType es) (isAligned sa (startF - 1) (startE - 1)) (isAligned sa (endF + 1) (startE - 1))
              startF endF startE endE countF 0 1 (\<ge>) (<),
            getOrientWordModel sa (wordType es) (isAligned sa (endF + 1) (endE + 1)) (isAligned sa (startF - 1) (endE + 1))
              endF startF endE startE 0 countF (-1) (<) (\<ge>)))"

definition within_limit :: "extract_settings \<Rightarrow> phrase_pair \<Rightarrow> bool" where
  "within_limit es pair =
     (case pair of ((startF, startE), (endF, endE)) \<Rightarrow> endE - startE < maxPhraseLength es \<and> endF - startF < maxPhraseLength es)"

definition insert_pair :: "phrase_pair \<Rightarrow> corner_sets \<Rightarrow> corner_sets" where
  "insert_pair pair c = (case pair of ((startF, startE), (endF, endE)) \<Rightarrow> insertPhraseVertices startF startE endF endE c)"

text \<open>The orientation of a pair in all models; a model that is off leaves its part empty.\<close>

definition orientation_info ::
    "extract_settings \<Rightarrow> sentence_alignment \<Rightarrow> corner_sets \<Rightarrow> corner_sets \<Rightarrow> phrase_pair \<Rightarrow> string option" where
  "orientation_info es sa inb out pair =
     (case pair of ((startF, startE), (endF, endE)) \<Rightarrow>
        let countF = int (length (sa_source sa));
            leftTopP = isAligned sa (startF - 1) (startE - 1); rightTopP = isAligned sa (endF + 1) (startE - 1);
            leftTopN = isAligned sa (endF + 1) (endE + 1); rightTopN = isAligned sa (startF - 1) (endE + 1);
            word = (if wordModel es
                    then (case word_orientations es sa pair of (p, n) \<Rightarrow>
                            getOrientString p (wordType es) @ '' '' @ getOrientString n (wordType es))
                    else []);
            phraseP = (if phraseModel es
                       then getOrientPhraseModel sa (phraseType es) leftTopP rightTopP startF endF startE endE (countF - 1) 0 1 (\<ge>) (<)
                              (bottomRight inb) (bottomLeft inb)
                       else Some UNKNOWN);
            phraseN = (if phraseModel es
                       then getOrientPhraseModel sa (phraseType es) leftTopN rightTopN endF startF endE startE 0 (countF - 1) (-1) (<) (\<ge>)
                              (bottomLeft inb) (bottomRight inb)
                       else Some UNKNOWN)
        in case (phraseP, phraseN) of
             (Some pp, Some pn) \<Rightarrow>
               (let hierP = (if hierModel es
                       then getOrientHierModel sa (hierType es) leftTopP rightTopP startF endF startE endE (countF - 1) 0 1 (\<ge>) (<)
                              (bottomRight inb) (bottomLeft inb) (bottomRight out) (bottomLeft out) pp
                       else Some UNKNOWN);
                    hierN = (if hierModel es
                       then getOrientHierModel sa (hierType es) leftTopN rightTopN endF startF endE startE 0 (countF - 1) (-1) (<) (\<ge>)
                              (bottomLeft inb) (bottomRight inb) (bottomLeft out) (bottomRight out) pn
                       else Some UNKNOWN)
                in case (hierP, hierN) of
                     (Some hp, Some hn) \<Rightarrow>
                       Some (word @ '' | '' @
                         (if phraseModel es then getOrientString pp (phraseType es) @ '' '' @ getOrientString pn (phraseType es) else []) @ '' | '' @
                         (if hierModel es then getOrientString hp (hierType es) @ '' '' @ getOrientString hn (hierType es) else []))
                   | _ \<Rightarrow> None)
           | _ \<Rightarrow> None)"

fun add_pairs ::
    "extract_settings \<Rightarrow> sentence_alignment \<Rightarrow> (phrase_pair \<Rightarrow> string option) \<Rightarrow> phrase_pair list \<Rightarrow> extract_files \<Rightarrow> extract_files option" where
  "add_pairs es sa info [] out = Some out"
| "add_pairs es sa info (pair # pairs) out =
     (case info pair of
        None \<Rightarrow> None
      | Some orientationInfo \<Rightarrow>
          (case pair of ((startF, startE), (endF, endE)) \<Rightarrow>
             add_pairs es sa info pairs (addPhrase es sa startE endE startF endF orientationInfo out)))"

text \<open>
  \<open>extract\<close>: the phrase and hierarchical models first collect the corners of all pairs. The separator
  that the word model alone would append is an expression without effect in the code.
\<close>

definition extract_sentence :: "extract_settings \<Rightarrow> sentence_alignment \<Rightarrow> extract_files \<Rightarrow> extract_files option" where
  "extract_sentence es sa out =
     (let pairs = extracted_pairs sa (hierModel es) (maxPhraseLength es)
      in if phraseModel es \<or> hierModel es
         then let inbound = filter (within_limit es) pairs;
                  inb = fold insert_pair inbound no_corners;
                  outb = fold insert_pair (filter (\<lambda>p. \<not> within_limit es p) pairs) no_corners
              in add_pairs es sa (orientation_info es sa inb outb) inbound out
         else add_pairs es sa (\<lambda>pair. Some (if wordModel es
                then (case word_orientations es sa pair of (p, n) \<Rightarrow>
                        getOrientString p (wordType es) @ '' '' @ getOrientString n (wordType es))
                else [])) pairs out)"

definition base_words :: "string list \<Rightarrow> int \<Rightarrow> string" where
  "base_words ws maxLen =
     concat (map (\<lambda>start. concat (map (\<lambda>final. write_words ws start final @ ''|||\<newline>'')
       (takeWhile (\<lambda>final. final < start + maxLen) [start..int (length ws) - 1]))) [0..int (length ws) - 1])"

definition extractBase :: "extract_settings \<Rightarrow> sentence_alignment \<Rightarrow> extract_files \<Rightarrow> extract_files" where
  "extractBase es sa out =
     out\<lparr>extractFile := extractFile out @ base_words (sa_source sa) (maxPhraseLength es),
         extractFileInv := extractFileInv out @ base_words (sa_target sa) (maxPhraseLength es)\<rparr>"


section \<open>Consistent phrase pairs\<close>

text \<open>The links of the reader: inside the sentences, and counted for each source word.\<close>

definition link_count :: "int list list \<Rightarrow> int \<Rightarrow> nat" where
  "link_count links s = sum_list (map (\<lambda>l. count_list l s) links)"

definition wf_alignment :: "sentence_alignment \<Rightarrow> bool" where
  "wf_alignment sa \<longleftrightarrow> length (alignedToT sa) = length (sa_target sa) \<and> length (alignedCountS sa) = length (sa_source sa) \<and>
     (\<forall>l \<in> set (alignedToT sa). \<forall>s \<in> set l. 0 \<le> s \<and> s < int (length (sa_source sa))) \<and>
     (\<forall>s < length (sa_source sa). alignedCountS sa ! s = int (link_count (alignedToT sa) (int s)))"

definition linked :: "sentence_alignment \<Rightarrow> int \<Rightarrow> int \<Rightarrow> bool" where
  "linked sa f e \<longleftrightarrow> 0 \<le> e \<and> e < int (length (sa_target sa)) \<and> f \<in> set (alignedToT sa ! nat e)"

text \<open>
  A phrase pair is consistent with the alignment if it has a link, and no link leads from inside it
  to outside.
\<close>

definition consistent :: "sentence_alignment \<Rightarrow> phrase_pair \<Rightarrow> bool" where
  "consistent sa pair \<longleftrightarrow>
     (case pair of ((startF, startE), (endF, endE)) \<Rightarrow>
        0 \<le> startF \<and> startF \<le> endF \<and> endF < int (length (sa_source sa)) \<and>
        0 \<le> startE \<and> startE \<le> endE \<and> endE < int (length (sa_target sa)) \<and>
        (\<exists>f e. linked sa f e \<and> startF \<le> f \<and> f \<le> endF \<and> startE \<le> e \<and> e \<le> endE) \<and>
        (\<forall>f e. linked sa f e \<longrightarrow> (startF \<le> f \<and> f \<le> endF \<longleftrightarrow> startE \<le> e \<and> e \<le> endE)))"

lemma count_list_update:
  "i < length xss \<Longrightarrow> link_count (xss[i := xss ! i @ [s]]) x = link_count xss x + (if x = s then 1 else 0)"
proof (induction xss arbitrary: i)
  case (Cons xs xss)
  then show ?case by (cases i) (auto simp: link_count_def)
qed simp

lemma read_points_wf:
  "read_points ws sa = Some (True, sa') \<Longrightarrow> wf_alignment sa \<Longrightarrow> wf_alignment sa'"
proof (induction ws arbitrary: sa)
  case (Cons w ws)
  then obtain s t where st: "scan_point w = Both s t" "\<not> out_of_size t (length (sa_target sa))" "\<not> out_of_size s (length (sa_source sa))"
    "read_points ws (sa\<lparr>alignedToT := (alignedToT sa)[nat t := alignedToT sa ! nat t @ [s]],
        alignedCountS := (alignedCountS sa)[nat s := alignedCountS sa ! nat s + 1]\<rparr>) = Some (True, sa')"
    by (auto split: scanned.splits if_splits)
  let ?sa = "sa\<lparr>alignedToT := (alignedToT sa)[nat t := alignedToT sa ! nat t @ [s]],
      alignedCountS := (alignedCountS sa)[nat s := alignedCountS sa ! nat s + 1]\<rparr>"
  have b: "nat t < length (alignedToT sa)" "nat s < length (alignedCountS sa)" "0 \<le> s" "s < int (length (sa_source sa))"
    using st(2,3) Cons.prems(2) by (auto simp: out_of_size_def wf_alignment_def)
  have "wf_alignment ?sa"
    unfolding wf_alignment_def
  proof (intro conjI ballI allI impI)
    fix l x assume "l \<in> set (alignedToT ?sa)" "x \<in> set l"
    then have "l \<in> insert (alignedToT sa ! nat t @ [s]) (set (alignedToT sa))" "x \<in> set l"
      using set_update_subset_insert [of "alignedToT sa" "nat t" "alignedToT sa ! nat t @ [s]"] by auto
    moreover have "alignedToT sa ! nat t \<in> set (alignedToT sa)" using b(1) by simp
    ultimately have "x = s \<or> (\<exists>l \<in> set (alignedToT sa). x \<in> set l)" by auto
    then show "0 \<le> x" "x < int (length (sa_source ?sa))"
      using Cons.prems(2) b(3,4) unfolding wf_alignment_def by auto
  next
    fix x assume x: "x < length (sa_source ?sa)"
    have "int x = s \<longleftrightarrow> x = nat s" using b(3) by auto
    then show "alignedCountS ?sa ! x = int (link_count (alignedToT ?sa) (int x))"
      using Cons.prems(2) x b count_list_update [OF b(1), of s "int x"]
      by (auto simp: wf_alignment_def nth_list_update)
  qed (use Cons.prems(2) in \<open>simp_all add: wf_alignment_def\<close>)
  then show ?case using Cons.IH st(4) by blast
qed simp

lemma create_wf:
  assumes "SentenceAlignmentCreate t s a sid = Some (True, sa)"
  shows "wf_alignment sa"
proof -
  let ?target = "table_tokenize t" and ?source = "table_tokenize s"
  let ?sa = "\<lparr>sa_target = ?target, sa_source = ?source, alignedCountS = replicate (length ?source) 0,
      alignedToT = replicate (length ?target) [], sentenceID = sid\<rparr>"
  have "link_count (replicate n []) x = 0" for n x by (induction n) (simp_all add: link_count_def)
  then have "wf_alignment ?sa" by (auto simp: wf_alignment_def)
  moreover have "read_points (table_tokenize a) ?sa = Some (True, sa)"
    using assms by (auto simp: SentenceAlignmentCreate_def Let_def split: if_splits)
  ultimately show ?thesis using read_points_wf by blast
qed

section \<open>The loops find them all\<close>

lemma takeWhile_upto: "x \<in> set (takeWhile P [a..b]) \<longleftrightarrow> a \<le> x \<and> x \<le> b \<and> (\<forall>y. a \<le> y \<and> y \<le> x \<longrightarrow> P y)"
proof (induction "nat (b - a + 1)" arbitrary: a)
  case 0
  then show ?case by simp
next
  case (Suc n)
  then have less: "a \<le> b" by simp
  have up: "[a..b] = a # [a + 1..b]" using less by (simp add: upto_rec1)
  show ?case
  proof (cases "P a")
    case True
    have "n = nat (b - (a + 1) + 1)" using Suc.hyps(2) by simp
    note IH = Suc.hyps(1) [OF this]
    have all: "(\<forall>y. a \<le> y \<and> y \<le> x \<longrightarrow> P y) \<longleftrightarrow> (\<forall>y. a + 1 \<le> y \<and> y \<le> x \<longrightarrow> P y)"
    proof (intro iffI allI impI)
      fix y assume "\<forall>y. a + 1 \<le> y \<and> y \<le> x \<longrightarrow> P y" "a \<le> y \<and> y \<le> x"
      then show "P y" using True by (cases "y = a") auto
    qed auto
    show ?thesis
    proof (cases "x = a")
      case True
      then show ?thesis unfolding up using \<open>P a\<close> less by auto
    next
      case False
      then show ?thesis unfolding up all using True IH by auto
    qed
  next
    case False
    then show ?thesis unfolding up by auto
  qed
qed

lemma takeWhile_downto: "x \<in> set (takeWhile P (rev [a..b])) \<longleftrightarrow> a \<le> x \<and> x \<le> b \<and> (\<forall>y. x \<le> y \<and> y \<le> b \<longrightarrow> P y)"
proof (induction "nat (b - a + 1)" arbitrary: b)
  case 0
  then show ?case by simp
next
  case (Suc n)
  then have less: "a \<le> b" by simp
  have up: "rev [a..b] = b # rev [a..b - 1]" using less by (simp add: upto_rec2)
  show ?case
  proof (cases "P b")
    case True
    have "n = nat (b - 1 - a + 1)" using Suc.hyps(2) by simp
    note IH = Suc.hyps(1) [OF this]
    have all: "(\<forall>y. x \<le> y \<and> y \<le> b \<longrightarrow> P y) \<longleftrightarrow> (\<forall>y. x \<le> y \<and> y \<le> b - 1 \<longrightarrow> P y)"
    proof (intro iffI allI impI)
      fix y assume "\<forall>y. x \<le> y \<and> y \<le> b - 1 \<longrightarrow> P y" "x \<le> y \<and> y \<le> b"
      then show "P y" using True by (cases "y = b") auto
    qed auto
    show ?thesis
    proof (cases "x = b")
      case True
      then show ?thesis unfolding up using \<open>P b\<close> less by auto
    next
      case False
      then show ?thesis unfolding up all using True IH by auto
    qed
  next
    case False
    then show ?thesis unfolding up by auto
  qed
qed


lemma nested_concat: "fold (\<lambda>a. fold g (xs a)) as m = fold g (concat (map xs as)) m"
  by (induction as arbitrary: m) simp_all

text \<open>The links of a stretch of target words, one after the other.\<close>

definition links_of :: "sentence_alignment \<Rightarrow> int \<Rightarrow> int \<Rightarrow> int list" where
  "links_of sa startE endE = concat (map (\<lambda>ei. alignedToT sa ! nat ei) [startE..endE])"

lemma set_links_of:
  assumes "0 \<le> startE" "endE < int (length (sa_target sa))"
  shows "f \<in> set (links_of sa startE endE) \<longleftrightarrow> (\<exists>e. linked sa f e \<and> startE \<le> e \<and> e \<le> endE)"
proof
  assume "f \<in> set (links_of sa startE endE)"
  then obtain e where "startE \<le> e" "e \<le> endE" "f \<in> set (alignedToT sa ! nat e)" by (auto simp: links_of_def)
  then show "\<exists>e. linked sa f e \<and> startE \<le> e \<and> e \<le> endE" using assms by (auto simp: linked_def intro!: exI [of _ e])
next
  assume "\<exists>e. linked sa f e \<and> startE \<le> e \<and> e \<le> endE"
  then obtain e where "e \<in> {startE..endE}" "f \<in> set (alignedToT sa ! nat e)" by (auto simp: linked_def)
  then show "f \<in> set (links_of sa startE endE)" by (auto simp: links_of_def)
qed

lemma link_fold:
  assumes "\<forall>f \<in> set fs. 0 \<le> f \<and> f < int (length used)"
  shows "\<exists>lo hi u. fold link_step fs (minF, maxF, used) = (lo, hi, u) \<and> length u = length used \<and>
    lo \<le> minF \<and> maxF \<le> hi \<and> (\<forall>f \<in> set fs. lo \<le> f \<and> f \<le> hi) \<and>
    (lo = minF \<or> lo \<in> set fs) \<and> (hi = maxF \<or> hi \<in> set fs) \<and>
    (\<forall>i < length used. u ! i = used ! i - int (count_list fs (int i)))"
  using assms
proof (induction fs arbitrary: minF maxF used)
  case (Cons f fs)
  let ?lo = "if f < minF then f else minF" and ?hi = "if f > maxF then f else maxF"
  let ?u = "used[nat f := used ! nat f - 1]"
  have "\<forall>f \<in> set fs. 0 \<le> f \<and> f < int (length ?u)" using Cons.prems by simp
  from Cons.IH [OF this, of ?lo ?hi] obtain lo hi u where
    r: "fold link_step fs (?lo, ?hi, ?u) = (lo, hi, u)" "length u = length used" "lo \<le> ?lo" "?hi \<le> hi"
      "\<forall>f \<in> set fs. lo \<le> f \<and> f \<le> hi" "lo = ?lo \<or> lo \<in> set fs" "hi = ?hi \<or> hi \<in> set fs"
      "\<forall>i < length used. u ! i = ?u ! i - int (count_list fs (int i))" by auto
  have "fold link_step (f # fs) (minF, maxF, used) = (lo, hi, u)" using r(1) by (simp add: link_step_def)
  moreover have "u ! i = used ! i - int (count_list (f # fs) (int i))" if i: "i < length used" for i
  proof -
    have "int i = f \<longleftrightarrow> i = nat f" using Cons.prems by auto
    then show ?thesis using r(8) i by (auto simp: nth_list_update)
  qed
  moreover have "lo \<le> minF" "maxF \<le> hi" "lo \<le> f" "f \<le> hi" using r(3,4) by (auto split: if_splits)
  moreover have "lo = minF \<or> lo \<in> set (f # fs)" "hi = maxF \<or> hi \<in> set (f # fs)" using r(6,7) by (auto split: if_splits)
  ultimately show ?case using r(2,5) by auto
qed simp

lemma link_count_split:
  assumes "0 \<le> startE" "startE \<le> endE" "endE < int (length links)"
  shows "count_list (concat (map (\<lambda>ei. links ! nat ei) [startE..endE])) f \<le> link_count links f \<and>
    (count_list (concat (map (\<lambda>ei. links ! nat ei) [startE..endE])) f < link_count links f \<longleftrightarrow>
      (\<exists>e. 0 \<le> e \<and> e < int (length links) \<and> \<not> (startE \<le> e \<and> e \<le> endE) \<and> f \<in> set (links ! nat e)))"
proof -
  let ?c = "\<lambda>e. count_list (links ! nat e) f"
  have cc: "count_list (concat (map (\<lambda>ei. links ! nat ei) es)) f = sum_list (map ?c es)" for es
    by (induction es) (simp_all add: count_list_append)
  have inside: "count_list (concat (map (\<lambda>ei. links ! nat ei) [startE..endE])) f = (\<Sum>e \<in> {startE..endE}. ?c e)"
    unfolding cc by (simp add: sum_list_distinct_conv_sum_set)
  have "link_count links f = sum_list (map (\<lambda>i. count_list (links ! i) f) [0..<length links])"
  proof -
    have "map (\<lambda>l. count_list l f) (map ((!) links) [0..<length links]) = map (\<lambda>l. count_list l f) links" by (simp only: map_nth)
    then show ?thesis unfolding link_count_def by (simp add: comp_def)
  qed
  also have "\<dots> = (\<Sum>i \<in> {0..<length links}. count_list (links ! i) f)" by (simp add: sum_list_distinct_conv_sum_set)
  also have "\<dots> = (\<Sum>e \<in> {0..<int (length links)}. ?c e)"
    by (rule sum.reindex_bij_witness [of _ nat int]) auto
  finally have total: "link_count links f = (\<Sum>e \<in> {0..<int (length links)}. ?c e)" .
  have sub: "{startE..endE} \<subseteq> {0..<int (length links)}" using assms by auto
  have split: "link_count links f = (\<Sum>e \<in> {startE..endE}. ?c e) + (\<Sum>e \<in> {0..<int (length links)} - {startE..endE}. ?c e)"
    unfolding total using sum.subset_diff [OF sub, of ?c] by simp
  define rest where "rest = (\<Sum>e \<in> {0..<int (length links)} - {startE..endE}. ?c e)"
  have "rest = 0 \<longleftrightarrow> (\<forall>e \<in> {0..<int (length links)} - {startE..endE}. f \<notin> set (links ! nat e))"
    unfolding rest_def by (simp add: sum_eq_0_iff count_list_0_iff)
  moreover have "(\<forall>e \<in> {0..<int (length links)} - {startE..endE}. f \<notin> set (links ! nat e)) \<longleftrightarrow>
      \<not> (\<exists>e. 0 \<le> e \<and> e < int (length links) \<and> \<not> (startE \<le> e \<and> e \<le> endE) \<and> f \<in> set (links ! nat e))"
    unfolding Ball_def by (simp only: Diff_iff atLeastLessThan_iff atLeastAtMost_iff) blast
  ultimately have "0 < rest \<longleftrightarrow>
      (\<exists>e. 0 \<le> e \<and> e < int (length links) \<and> \<not> (startE \<le> e \<and> e \<le> endE) \<and> f \<in> set (links ! nat e))"
    by (simp only: neq0_conv [symmetric]) blast
  then show ?thesis unfolding inside split rest_def [symmetric] by simp
qed


lemma covered_source_correct:
  assumes wf: "wf_alignment sa" and b: "0 \<le> startE" "startE \<le> endE" "endE < int (length (sa_target sa))"
    and short: "length (sa_source sa) \<le> 9999"
  obtains minF maxF usedF where "covered_source sa startE endE = (minF, maxF, usedF)"
    and "maxF \<ge> 0 \<longleftrightarrow> links_of sa startE endE \<noteq> []"
    and "links_of sa startE endE \<noteq> [] \<Longrightarrow> minF \<in> set (links_of sa startE endE) \<and> maxF \<in> set (links_of sa startE endE)"
    and "\<forall>f \<in> set (links_of sa startE endE). minF \<le> f \<and> f \<le> maxF"
    and "\<forall>f. 0 \<le> f \<and> f < int (length (sa_source sa)) \<longrightarrow>
      (usedF ! nat f > 0 \<longleftrightarrow> (\<exists>e. linked sa f e \<and> \<not> (startE \<le> e \<and> e \<le> endE)))"
proof -
  let ?L = "links_of sa startE endE"
  have len: "length (alignedToT sa) = length (sa_target sa)" "length (alignedCountS sa) = length (sa_source sa)"
    using wf by (simp_all add: wf_alignment_def)
  have inL: "\<forall>f \<in> set ?L. 0 \<le> f \<and> f < int (length (sa_source sa))"
  proof
    fix f assume "f \<in> set ?L"
    then obtain e where "linked sa f e" using set_links_of [OF b(1,3)] by auto
    then have "alignedToT sa ! nat e \<in> set (alignedToT sa)" "f \<in> set (alignedToT sa ! nat e)" using len by (auto simp: linked_def)
    then show "0 \<le> f \<and> f < int (length (sa_source sa))" using wf by (auto simp: wf_alignment_def)
  qed
  then have inL': "\<forall>f \<in> set ?L. 0 \<le> f \<and> f < int (length (alignedCountS sa))" using len by simp
  obtain lo hi u where r: "fold link_step ?L (9999, -1, alignedCountS sa) = (lo, hi, u)"
      "lo \<le> 9999" "-1 \<le> hi" "\<forall>f \<in> set ?L. lo \<le> f \<and> f \<le> hi"
      "lo = 9999 \<or> lo \<in> set ?L" "hi = -1 \<or> hi \<in> set ?L"
      "\<forall>i < length (alignedCountS sa). u ! i = alignedCountS sa ! i - int (count_list ?L (int i))"
    using link_fold [OF inL', of 9999 "-1"] by auto
  have cov: "covered_source sa startE endE = (lo, hi, u)"
    unfolding covered_source_def nested_concat using r(1) by (simp add: links_of_def)
  have ne: "hi \<ge> 0 \<longleftrightarrow> ?L \<noteq> []"
  proof
    assume "hi \<ge> 0"
    then show "?L \<noteq> []" using r(6) by auto
  next
    assume "?L \<noteq> []"
    then obtain f where "f \<in> set ?L" by (cases ?L) auto
    then show "hi \<ge> 0" using r(4) inL by force
  qed
  have mem: "lo \<in> set ?L \<and> hi \<in> set ?L" if n: "?L \<noteq> []"
  proof -
    from n obtain f where f: "f \<in> set ?L" by (cases ?L) auto
    then have "lo \<le> f" "f < 9999" "0 \<le> f" "f \<le> hi" using r(4) inL short by force+
    then show ?thesis using r(5,6) by auto
  qed
  have used: "u ! nat f > 0 \<longleftrightarrow> (\<exists>e. linked sa f e \<and> \<not> (startE \<le> e \<and> e \<le> endE))"
    if f: "0 \<le> f" "f < int (length (sa_source sa))" for f
  proof -
    have nf: "nat f < length (sa_source sa)" "int (nat f) = f" using f by auto
    then have "alignedCountS sa ! nat f = int (link_count (alignedToT sa) f)" using wf by (auto simp: wf_alignment_def)
    then have "u ! nat f = int (link_count (alignedToT sa) f) - int (count_list ?L f)" using r(7) len nf by auto
    then have "u ! nat f > 0 \<longleftrightarrow> count_list ?L f < link_count (alignedToT sa) f" by linarith
    then show ?thesis
      using link_count_split [OF b(1,2), of "alignedToT sa" f] b(3) len unfolding links_of_def linked_def by auto
  qed
  show thesis using that [OF cov ne mem r(4)] used by blast
qed


lemma unaligned_iff:
  assumes "wf_alignment sa" "0 \<le> f" "f < int (length (sa_source sa))"
  shows "alignedCountS sa ! nat f = 0 \<longleftrightarrow> (\<forall>e. \<not> linked sa f e)"
proof -
  have "nat f < length (sa_source sa)" "int (nat f) = f" using assms by auto
  then have "alignedCountS sa ! nat f = int (link_count (alignedToT sa) f)" using assms(1) by (auto simp: wf_alignment_def)
  then have "alignedCountS sa ! nat f = 0 \<longleftrightarrow> (\<forall>l \<in> set (alignedToT sa). f \<notin> set l)"
    by (simp add: link_count_def count_list_0_iff)
  also have "\<dots> \<longleftrightarrow> (\<forall>i < length (alignedToT sa). f \<notin> set (alignedToT sa ! i))" by (simp add: all_set_conv_all_nth)
  also have "\<dots> \<longleftrightarrow> (\<forall>e. \<not> linked sa f e)"
  proof
    assume a: "\<forall>i < length (alignedToT sa). f \<notin> set (alignedToT sa ! i)"
    show "\<forall>e. \<not> linked sa f e" using a assms(1) by (auto simp: linked_def wf_alignment_def)
  next
    assume a: "\<forall>e. \<not> linked sa f e"
    show "\<forall>i < length (alignedToT sa). f \<notin> set (alignedToT sa ! i)"
    proof (intro allI impI)
      fix i assume "i < length (alignedToT sa)"
      then show "f \<notin> set (alignedToT sa ! i)" using a [rule_format, of "int i"] assms(1) by (auto simp: linked_def wf_alignment_def)
    qed
  qed
  finally show ?thesis .
qed

text \<open>The conditions of the two loops: the limit only bites at their last position.\<close>

lemma advance_iff:
  fixes a :: int
  shows "(\<forall>y. a \<le> y \<and> y \<le> x \<longrightarrow> (R \<or> y < c) \<and> (y = a \<or> Q y)) \<longleftrightarrow>
    (a \<le> x \<longrightarrow> R \<or> x < c) \<and> (\<forall>y. a < y \<and> y \<le> x \<longrightarrow> Q y)" (is "?l \<longleftrightarrow> ?r")
proof
  assume l: ?l
  have "Q y" if "a < y" "y \<le> x" for y using l [rule_format, of y] that by simp
  moreover have "R \<or> x < c" if "a \<le> x" using l [rule_format, of x] that by simp
  ultimately show ?r by blast
next
  assume r: ?r
  show ?l
  proof (intro allI impI)
    fix y assume y: "a \<le> y \<and> y \<le> x"
    then have "R \<or> x < c" using r by auto
    then have "R \<or> y < c" using y by auto
    moreover have "y = a \<or> Q y" using conjunct2 [OF r, rule_format, of y] y by (cases "y = a") simp_all
    ultimately show "(R \<or> y < c) \<and> (y = a \<or> Q y)" by blast
  qed
qed

lemma retreat_iff:
  fixes a :: int
  shows "(\<forall>y. x \<le> y \<and> y \<le> a \<longrightarrow> (R \<or> c < y) \<and> (y = a \<or> Q y)) \<longleftrightarrow>
    (x \<le> a \<longrightarrow> R \<or> c < x) \<and> (\<forall>y. x \<le> y \<and> y < a \<longrightarrow> Q y)" (is "?l \<longleftrightarrow> ?r")
proof
  assume l: ?l
  have "Q y" if "x \<le> y" "y < a" for y using l [rule_format, of y] that by simp
  moreover have "R \<or> c < x" if "x \<le> a" using l [rule_format, of x] that by simp
  ultimately show ?r by blast
next
  assume r: ?r
  show ?l
  proof (intro allI impI)
    fix y assume y: "x \<le> y \<and> y \<le> a"
    then have "R \<or> c < x" using r by auto
    then have "R \<or> c < y" using y by auto
    moreover have "y = a \<or> Q y" using conjunct2 [OF r, rule_format, of y] y by (cases "y = a") simp_all
    ultimately show "(R \<or> c < y) \<and> (y = a \<or> Q y)" by blast
  qed
qed

lemma source_spans_iff:
  assumes wf: "wf_alignment sa" and b: "0 \<le> startE" "startE \<le> endE" "endE < int (length (sa_target sa))"
    and short: "length (sa_source sa) \<le> 9999"
  shows "(startF, endF) \<in> set (source_spans_of sa relaxLimit mpl startE endE) \<longleftrightarrow>
    consistent sa ((startF, startE), (endF, endE)) \<and> (relaxLimit \<or> endF - startF < mpl)"
    (is "?in \<longleftrightarrow> ?con")
proof -
  let ?L = "links_of sa startE endE" and ?n = "int (length (sa_source sa))"
  obtain minF maxF usedF where c: "covered_source sa startE endE = (minF, maxF, usedF)"
    and ne: "maxF \<ge> 0 \<longleftrightarrow> ?L \<noteq> []"
    and mem: "?L \<noteq> [] \<Longrightarrow> minF \<in> set ?L \<and> maxF \<in> set ?L"
    and lim: "\<forall>f \<in> set ?L. minF \<le> f \<and> f \<le> maxF"
    and used: "\<forall>f. 0 \<le> f \<and> f < ?n \<longrightarrow> (usedF ! nat f > 0 \<longleftrightarrow> (\<exists>e. linked sa f e \<and> \<not> (startE \<le> e \<and> e \<le> endE)))"
    using covered_source_correct [OF wf b short] by metis
  have inL: "0 \<le> f \<and> f < ?n" if l: "linked sa f e" for f e
  proof -
    have "alignedToT sa ! nat e \<in> set (alignedToT sa)" using l wf by (auto simp: linked_def wf_alignment_def)
    then show ?thesis using l wf by (auto simp: linked_def wf_alignment_def)
  qed
  note sl = set_links_of [OF b(1,3)]
  have start: "startF \<in> set (start_positions sa relaxLimit mpl minF maxF) \<longleftrightarrow>
      0 \<le> startF \<and> startF \<le> minF \<and> (relaxLimit \<or> startF > maxF - mpl) \<and>
      (\<forall>f. startF \<le> f \<and> f < minF \<longrightarrow> alignedCountS sa ! nat f = 0)"
    unfolding start_positions_def takeWhile_downto retreat_iff by auto
  have final: "endF \<in> set (end_positions sa relaxLimit mpl startF maxF) \<longleftrightarrow>
      maxF \<le> endF \<and> endF < ?n \<and> (relaxLimit \<or> endF < startF + mpl) \<and>
      (\<forall>f. maxF < f \<and> f \<le> endF \<longrightarrow> alignedCountS sa ! nat f = 0)"
    unfolding end_positions_def takeWhile_upto advance_iff by auto
  have oob: "\<not> out_of_bounds usedF minF maxF \<longleftrightarrow> (\<forall>f. minF \<le> f \<and> f \<le> maxF \<longrightarrow> \<not> usedF ! nat f > 0)"
    by (auto simp: out_of_bounds_def list_ex_iff)
  have unfolded: "?in \<longleftrightarrow> maxF \<ge> 0 \<and> (relaxLimit \<or> maxF - minF < mpl) \<and> \<not> out_of_bounds usedF minF maxF \<and>
      startF \<in> set (start_positions sa relaxLimit mpl minF maxF) \<and>
      endF \<in> set (end_positions sa relaxLimit mpl startF maxF)"
    by (auto simp: source_spans_of_def c)
  show ?thesis
  proof
    assume ?in
    note i = this [unfolded unfolded start final oob]
    have L: "?L \<noteq> []" using i ne by simp
    have mm: "minF \<in> set ?L" "maxF \<in> set ?L" using mem [OF L] by auto
    then have order: "minF \<le> maxF" using lim by auto
    have bounds: "0 \<le> minF" "maxF < ?n" using mm sl inL by blast+
    obtain e where e: "linked sa minF e" "startE \<le> e" "e \<le> endE" using mm(1) sl by auto
    have outside: "e' \<ge> startE \<and> e' \<le> endE" if l: "linked sa f e'" "startF \<le> f" "f \<le> endF" for f e'
    proof (rule ccontr)
      assume n: "\<not> (e' \<ge> startE \<and> e' \<le> endE)"
      have "0 \<le> f" "f < ?n" using inL [OF l(1)] by auto
      moreover from this have "alignedCountS sa ! nat f \<noteq> 0" using unaligned_iff [OF wf] l(1) by blast
      moreover from this have "minF \<le> f" "f \<le> maxF" using i l(2,3) not_le by blast+
      ultimately show False using i used l(1) n by blast
    qed
    have inside: "startF \<le> f \<and> f \<le> endF" if l: "linked sa f e'" "startE \<le> e'" "e' \<le> endE" for f e'
    proof -
      have "f \<in> set ?L" using sl l by blast
      then have "minF \<le> f" "f \<le> maxF" using lim by auto
      then show ?thesis using i by linarith
    qed
    have iff: "\<forall>f e'. linked sa f e' \<longrightarrow> (startF \<le> f \<and> f \<le> endF \<longleftrightarrow> startE \<le> e' \<and> e' \<le> endE)"
      using outside inside by blast
    have ex: "\<exists>f e'. linked sa f e' \<and> startF \<le> f \<and> f \<le> endF \<and> startE \<le> e' \<and> e' \<le> endE"
      using e inside by blast
    have "0 \<le> startF \<and> startF \<le> endF \<and> endF < ?n" using i order by linarith
    moreover have "relaxLimit \<or> endF - startF < mpl" using i by auto
    ultimately show ?con using b iff ex unfolding consistent_def by simp
  next
    assume con: ?con
    have k: "0 \<le> startF" "startF \<le> endF" "endF < ?n"
      and ex: "\<exists>f e. linked sa f e \<and> startF \<le> f \<and> f \<le> endF \<and> startE \<le> e \<and> e \<le> endE"
      and iff: "linked sa f e \<longrightarrow> (startF \<le> f \<and> f \<le> endF \<longleftrightarrow> startE \<le> e \<and> e \<le> endE)" for f e
      using con unfolding consistent_def by simp_all
    have L: "?L \<noteq> []" using ex sl by fastforce
    have mm: "minF \<in> set ?L" "maxF \<in> set ?L" using mem [OF L] by auto
    have sp: "startF \<le> minF" "maxF \<le> endF" using mm sl iff by blast+
    have un: "alignedCountS sa ! nat f = 0" if f: "startF \<le> f" "f \<le> endF" "f < minF \<or> maxF < f" for f
    proof -
      have "\<not> linked sa f e" for e
      proof
        assume l: "linked sa f e"
        then have "f \<in> set ?L" using iff f sl by blast
        then show False using lim f(3) by fastforce
      qed
      moreover have "0 \<le> f" "f < ?n" using f k by auto
      ultimately show ?thesis using unaligned_iff [OF wf] by blast
    qed
    have "\<not> usedF ! nat f > 0" if f: "minF \<le> f" "f \<le> maxF" for f
    proof -
      have "startF \<le> f" "f \<le> endF" "0 \<le> f" "f < ?n" using f sp k by auto
      then show ?thesis using used iff by blast
    qed
    then have "\<not> out_of_bounds usedF minF maxF" unfolding oob by blast
    moreover have "maxF \<ge> 0" using ne L by simp
    moreover have "minF \<le> maxF" using lim mm by auto
    ultimately show ?in unfolding unfolded start final using con k sp un by auto
  qed
qed

lemma extracted_pairs_iff:
  assumes wf: "wf_alignment sa" and short: "length (sa_source sa) \<le> 9999"
  shows "((startF, startE), (endF, endE)) \<in> set (extracted_pairs sa relaxLimit mpl) \<longleftrightarrow>
    consistent sa ((startF, startE), (endF, endE)) \<and>
    (relaxLimit \<or> endF - startF < mpl \<and> endE - startE < mpl)"
proof -
  have "((startF, startE), (endF, endE)) \<in> set (extracted_pairs sa relaxLimit mpl) \<longleftrightarrow>
      0 \<le> startE \<and> startE < int (length (sa_target sa)) \<and> endE \<in> set (target_ends sa relaxLimit mpl startE) \<and>
      (startF, endF) \<in> set (source_spans_of sa relaxLimit mpl startE endE)"
    by (force simp: extracted_pairs_def)
  also have "endE \<in> set (target_ends sa relaxLimit mpl startE) \<longleftrightarrow>
      startE \<le> endE \<and> endE < int (length (sa_target sa)) \<and> (relaxLimit \<or> endE < startE + mpl)"
    unfolding target_ends_def takeWhile_upto by force
  also have "0 \<le> startE \<and> startE < int (length (sa_target sa)) \<and>
      (startE \<le> endE \<and> endE < int (length (sa_target sa)) \<and> (relaxLimit \<or> endE < startE + mpl)) \<and>
      (startF, endF) \<in> set (source_spans_of sa relaxLimit mpl startE endE) \<longleftrightarrow>
    consistent sa ((startF, startE), (endF, endE)) \<and>
    (relaxLimit \<or> endF - startF < mpl \<and> endE - startE < mpl)" (is "?l \<longleftrightarrow> ?r")
  proof (cases "0 \<le> startE \<and> startE \<le> endE \<and> endE < int (length (sa_target sa))")
    case True
    then show ?thesis using source_spans_iff [OF wf _ _ _ short, of startE endE startF endF relaxLimit mpl] by auto
  next
    case False
    then show ?thesis by (auto simp: consistent_def)
  qed
  finally show ?thesis .
qed


lemma distinct_concat_map:
  "distinct xs \<Longrightarrow> (\<forall>x \<in> set xs. distinct (f x)) \<Longrightarrow> (\<forall>x y z. z \<in> set (f x) \<longrightarrow> z \<in> set (f y) \<longrightarrow> x = y) \<Longrightarrow>
   distinct (concat (map f xs))"
  by (induction xs) auto

lemma distinct_spans: "distinct (source_spans_of sa relaxLimit mpl startE endE)"
proof -
  have "distinct (map (Pair startF) (end_positions sa relaxLimit mpl startF maxF))" for startF maxF
    by (simp add: distinct_map inj_on_def end_positions_def distinct_takeWhile)
  then have "distinct (concat (map (\<lambda>startF. map (Pair startF) (end_positions sa relaxLimit mpl startF maxF))
      (start_positions sa relaxLimit mpl minF maxF)))" for minF maxF
    by (intro distinct_concat_map) (auto simp: start_positions_def distinct_takeWhile)
  then show ?thesis by (auto simp: source_spans_of_def split: prod.splits)
qed

lemma distinct_pairs: "distinct (extracted_pairs sa relaxLimit mpl)"
proof -
  have "distinct (map (\<lambda>(startF, endF). ((startF, startE), (endF, endE))) (source_spans_of sa relaxLimit mpl startE endE))"
    for startE endE using distinct_spans by (auto simp: distinct_map inj_on_def)
  then have "distinct (concat (map (\<lambda>endE. map (\<lambda>(startF, endF). ((startF, startE), (endF, endE)))
      (source_spans_of sa relaxLimit mpl startE endE)) (target_ends sa relaxLimit mpl startE)))" for startE
    by (intro distinct_concat_map) (auto simp: target_ends_def distinct_takeWhile)
  then show ?thesis unfolding extracted_pairs_def by (intro distinct_concat_map) auto
qed

text \<open>The pairs written for a sentence, whichever models are on.\<close>

definition written_pairs :: "extract_settings \<Rightarrow> sentence_alignment \<Rightarrow> phrase_pair list" where
  "written_pairs es sa =
     (if phraseModel es \<or> hierModel es
      then filter (within_limit es) (extracted_pairs sa (hierModel es) (maxPhraseLength es))
      else extracted_pairs sa (hierModel es) (maxPhraseLength es))"

lemma written_pairs_exact:
  assumes wf: "wf_alignment sa" and short: "length (sa_source sa) \<le> 9999"
  shows "distinct (written_pairs es sa) \<and> set (written_pairs es sa) = {p. consistent sa p \<and> within_limit es p}"
proof
  show "distinct (written_pairs es sa)" using distinct_pairs by (simp add: written_pairs_def)
  have "p \<in> set (written_pairs es sa) \<longleftrightarrow> consistent sa p \<and> within_limit es p" for p
  proof -
    obtain startF startE endF endE where p: "p = ((startF, startE), (endF, endE))" by (metis prod.collapse)
    show ?thesis unfolding p written_pairs_def using extracted_pairs_iff [OF wf short, of startF startE endF endE]
      by (auto simp: within_limit_def)
  qed
  then show "set (written_pairs es sa) = {p. consistent sa p \<and> within_limit es p}" by blast
qed

definition translation_line :: "sentence_alignment \<Rightarrow> phrase_pair \<Rightarrow> string" where
  "translation_line sa pair =
     (case pair of ((startF, startE), (endF, endE)) \<Rightarrow>
        write_words (sa_source sa) startF endF @ ''||| '' @ write_words (sa_target sa) startE endE @ ''|||'' @
        write_points (\<lambda>fi ei. (fi - startF, ei - startE)) sa startE endE @ ''\<newline>'')"

lemma add_pairs_files:
  "add_pairs es sa info ps out = Some out' \<Longrightarrow> translationFlag es \<Longrightarrow> \<not> onlyOutputSpanInfo es \<Longrightarrow>
   extractFile out' = extractFile out @ concat (map (translation_line sa) ps) \<and> (\<forall>p \<in> set ps. info p \<noteq> None)"
proof (induction ps arbitrary: out)
  case (Cons p ps)
  obtain startF startE endF endE where p: "p = ((startF, startE), (endF, endE))" by (metis prod.collapse)
  from Cons.prems(1) obtain oi where "info p = Some oi"
      "add_pairs es sa info ps (addPhrase es sa startE endE startF endF oi out) = Some out'"
    unfolding p by (auto split: option.splits)
  then show ?case using Cons.IH [of "addPhrase es sa startE endE startF endF oi out"] Cons.prems(2,3)
    by (auto simp: p addPhrase_def translation_line_def Let_def)
qed simp

lemma add_pairs_defined: "\<forall>p \<in> set ps. info p \<noteq> None \<Longrightarrow> add_pairs es sa info ps out \<noteq> None"
  by (induction ps arbitrary: out) (auto split: option.splits prod.splits)

lemma extract_sentence_writes:
  assumes "extract_sentence es sa out = Some out'" "translationFlag es" "\<not> onlyOutputSpanInfo es"
  shows "extractFile out' = extractFile out @ concat (map (translation_line sa) (written_pairs es sa))"
proof (cases "phraseModel es \<or> hierModel es")
  case True
  then show ?thesis using assms(1) add_pairs_files [OF _ assms(2,3)] by (simp add: extract_sentence_def written_pairs_def Let_def)
next
  case False
  then show ?thesis using assms(1) add_pairs_files [OF _ assms(2,3)] by (simp add: extract_sentence_def written_pairs_def Let_def)
qed

text \<open>The \<open>mslr\<close> models apart, the orientation is always defined.\<close>

lemma phrase_orientation_defined:
  "modelType \<noteq> REO_MSLR \<Longrightarrow> getOrientPhraseModel sa modelType lt rt startF endF startE endE countF zero unit ge before br bl \<noteq> None"
  by (cases modelType) (simp_all add: getOrientPhraseModel_def Let_def)

lemma hier_orientation_defined:
  "modelType \<noteq> REO_MSLR \<Longrightarrow>
   getOrientHierModel sa modelType lt rt startF endF startE endE countF zero unit ge before br bl obr obl po \<noteq> None"
  by (cases modelType) (simp_all add: getOrientHierModel_def Let_def)

lemma both_defined:
  "a \<noteq> None \<Longrightarrow> b \<noteq> None \<Longrightarrow> (\<And>x y. g x y \<noteq> None) \<Longrightarrow>
   (case a of None \<Rightarrow> None | Some x \<Rightarrow> (case b of None \<Rightarrow> None | Some y \<Rightarrow> g x y)) \<noteq> None"
  by (cases a; cases b) simp_all

lemma orientation_info_defined:
  assumes "phraseModel es \<longrightarrow> phraseType es \<noteq> REO_MSLR" "hierModel es \<longrightarrow> hierType es \<noteq> REO_MSLR"
  shows "orientation_info es sa inb outb pair \<noteq> None"
proof -
  obtain startF startE endF endE where p: "pair = ((startF, startE), (endF, endE))" by (metis prod.collapse)
  have f: "(if phraseModel es then getOrientPhraseModel sa (phraseType es) lt rt a b c d e z u ge before br bl else Some UNKNOWN) \<noteq> None"
    for lt rt a b c d e z u ge before br bl using assms(1) phrase_orientation_defined by simp
  have h: "(if hierModel es then getOrientHierModel sa (hierType es) lt rt a b c d e z u ge before br bl obr obl po else Some UNKNOWN) \<noteq> None"
    for lt rt a b c d e z u ge before br bl obr obl po using assms(2) hier_orientation_defined by simp
  show ?thesis unfolding orientation_info_def p Let_def split_conv
    by (rule both_defined [OF f f], rule both_defined [OF h h], simp)
qed

lemma extract_sentence_defined:
  assumes "phraseModel es \<longrightarrow> phraseType es \<noteq> REO_MSLR" "hierModel es \<longrightarrow> hierType es \<noteq> REO_MSLR"
  shows "extract_sentence es sa out \<noteq> None"
  using orientation_info_defined [OF assms] add_pairs_defined by (simp add: extract_sentence_def Let_def)

lemma inserted_corners:
  "has_vertex (bottomRight (fold insert_pair ps c)) x y \<longleftrightarrow>
     has_vertex (bottomRight c) x y \<or> (\<exists>startF startE. ((startF, startE), (x, y)) \<in> set ps)"
  "has_vertex (bottomLeft (fold insert_pair ps c)) x y \<longleftrightarrow>
     has_vertex (bottomLeft c) x y \<or> (\<exists>startE endF. ((x, startE), (endF, y)) \<in> set ps)"
proof (induction ps arbitrary: c)
  case (Cons p ps)
  obtain startF startE endF endE where p: "p = ((startF, startE), (endF, endE))" by (metis prod.collapse)
  have v: "has_vertex (insertVertex a b m) x y \<longleftrightarrow> has_vertex m x y \<or> (x = a \<and> y = b)" for a b m
    by (auto simp: has_vertex_def insertVertex_def split: option.splits)
  {
    case 1
    then show ?case using Cons by (auto simp: p insert_pair_def insertPhraseVertices_def v)
  next
    case 2
    then show ?case using Cons by (auto simp: p insert_pair_def insertPhraseVertices_def v)
  }
qed simp_all


lemma add_pairs_undefined: "p \<in> set ps \<Longrightarrow> info p = None \<Longrightarrow> add_pairs es sa info ps out = None"
  by (induction ps arbitrary: out) (auto split: option.splits prod.splits)

lemma no_corner_row:
  "(\<forall>p \<in> set ps. snd (snd p) \<noteq> y) \<Longrightarrow> bottomLeft c y = None \<Longrightarrow> bottomLeft (fold insert_pair ps c) y = None"
  by (induction ps arbitrary: c) (auto simp: insert_pair_def insertPhraseVertices_def insertVertex_def)

section \<open>Properties\<close>

text \<open>C8: for every aligned sentence pair the reader accepts, with at most 9999 source words, and with
  orientation models other than \<open>mslr\<close>, extraction succeeds and writes to the phrase table exactly the
  phrase pairs that are consistent with the alignment and within the length limit, each once.
\<close>

theorem extraction_is_exact:
  assumes "SentenceAlignmentCreate targetString sourceString alignmentString sid = Some (True, sa)"
    and "length (sa_source sa) \<le> 9999"
    and "phraseModel es \<longrightarrow> phraseType es \<noteq> REO_MSLR" "hierModel es \<longrightarrow> hierType es \<noteq> REO_MSLR"
    and "translationFlag es" "\<not> onlyOutputSpanInfo es"
  shows "\<exists>out' pairs. extract_sentence es sa out = Some out' \<and>
    extractFile out' = extractFile out @ concat (map (translation_line sa) pairs) \<and>
    distinct pairs \<and> set pairs = {p. consistent sa p \<and> within_limit es p}"
proof -
  obtain out' where "extract_sentence es sa out = Some out'" using extract_sentence_defined [OF assms(3,4)] by fastforce
  then show ?thesis
    using extract_sentence_writes [OF _ assms(5,6)] written_pairs_exact [OF create_wf [OF assms(1)] assms(2)] by blast
qed

text \<open>the corners the phrase model looks at are those of the phrase pairs within the limit: the previous
  orientation is monotone exactly when the alignment says so or a phrase pair ends just before this one,
  and the next orientation, which reads bottom corners, is monotone exactly when the alignment says so
  or a phrase pair starts at the next source word and \<^emph>\<open>ends\<close> with the next target word.
\<close>

theorem phrase_orientation_mono:
  assumes "wf_alignment sa" "length (sa_source sa) \<le> 9999"
    and "inb = fold insert_pair (filter (within_limit es) (extracted_pairs sa (hierModel es) (maxPhraseLength es))) no_corners"
    and "phraseModel es"
  shows "(getOrientPhraseModel sa modelType lt rt startF endF startE endE (int (length (sa_source sa)) - 1) 0 1 (\<ge>) (<)
           (bottomRight inb) (bottomLeft inb) = Some LEFT \<longleftrightarrow>
         (lt \<and> \<not> rt) \<or> (\<exists>f e. consistent sa ((f, e), (startF - 1, startE - 1)) \<and> within_limit es ((f, e), (startF - 1, startE - 1)))) \<and>
         (getOrientPhraseModel sa modelType lt rt endF startF endE startE 0 (int (length (sa_source sa)) - 1) (-1) (<) (\<ge>)
           (bottomLeft inb) (bottomRight inb) = Some LEFT \<longleftrightarrow>
         (lt \<and> \<not> rt) \<or> (\<exists>e f. consistent sa ((endF + 1, e), (f, endE + 1)) \<and> within_limit es ((endF + 1, e), (f, endE + 1))))"
proof
  have ls: "left_search cs y is \<noteq> Some LEFT" for cs y "is" by (induction "is") auto
  have in_set: "p \<in> set (filter (within_limit es) (extracted_pairs sa (hierModel es) (maxPhraseLength es))) \<longleftrightarrow>
      consistent sa p \<and> within_limit es p" for p
    using written_pairs_exact [OF assms(1,2), of es] assms(4) unfolding written_pairs_def by auto
  have no_vertex: "\<not> has_vertex (bottomRight no_corners) x y" "\<not> has_vertex (bottomLeft no_corners) x y" for x y
    by (simp_all add: has_vertex_def no_corners_def)
  have br: "has_vertex (bottomRight inb) x y \<longleftrightarrow> (\<exists>f e. consistent sa ((f, e), (x, y)) \<and> within_limit es ((f, e), (x, y)))" for x y
    using no_vertex(1) [of x y] unfolding assms(3) inserted_corners in_set by simp
  have bl: "has_vertex (bottomLeft inb) x y \<longleftrightarrow> (\<exists>e f. consistent sa ((x, e), (f, y)) \<and> within_limit es ((x, e), (f, y)))" for x y
    using no_vertex(2) [of x y] unfolding assms(3) inserted_corners in_set by simp
  show "getOrientPhraseModel sa modelType lt rt startF endF startE endE (int (length (sa_source sa)) - 1) 0 1 (\<ge>) (<)
           (bottomRight inb) (bottomLeft inb) = Some LEFT \<longleftrightarrow>
         (lt \<and> \<not> rt) \<or> (\<exists>f e. consistent sa ((f, e), (startF - 1, startE - 1)) \<and> within_limit es ((f, e), (startF - 1, startE - 1)))"
    unfolding getOrientPhraseModel_def Let_def br [of "startF - 1" "startE - 1"] by (simp add: ls del: left_search.simps)
  show "getOrientPhraseModel sa modelType lt rt endF startF endE startE 0 (int (length (sa_source sa)) - 1) (-1) (<) (\<ge>)
           (bottomLeft inb) (bottomRight inb) = Some LEFT \<longleftrightarrow>
         (lt \<and> \<not> rt) \<or> (\<exists>e f. consistent sa ((endF + 1, e), (f, endE + 1)) \<and> within_limit es ((endF + 1, e), (f, endE + 1)))"
    using bl [of "endF + 1" "endE + 1"] unfolding getOrientPhraseModel_def Let_def by (simp add: ls del: left_search.simps)
qed

text \<open>with the \<open>mslr\<close> phrase model, a phrase pair that starts the target sentence but not the source
  sentence, with three or more source words after it, makes the code read the end iterator of the
  left corners: what is extracted from the sentence is undefined.
\<close>

theorem mslr_phrase_model_undefined:
  assumes "wf_alignment sa" "length (sa_source sa) \<le> 9999"
    and "phraseModel es" "phraseType es = REO_MSLR"
    and "consistent sa ((startF, 0), (endF, endE))" "within_limit es ((startF, 0), (endF, endE))"
    and "0 < startF" "endF + 3 < int (length (sa_source sa))"
  shows "extract_sentence es sa out = None"
proof -
  let ?ps = "filter (within_limit es) (extracted_pairs sa (hierModel es) (maxPhraseLength es))"
  let ?inb = "fold insert_pair ?ps no_corners" and ?countF = "int (length (sa_source sa)) - 1"
  have ps: "set ?ps = {p. consistent sa p \<and> within_limit es p}"
    using written_pairs_exact [OF assms(1,2), of es] assms(3) unfolding written_pairs_def by auto
  have below: "\<forall>p \<in> set ?ps. snd (snd p) \<noteq> -1" unfolding ps by (auto simp: consistent_def)
  have bl: "bottomLeft ?inb (-1) = None" using no_corner_row [OF below] by (simp add: no_corners_def)
  have nv: "\<not> has_vertex (bottomRight ?inb) x (-1)" "\<not> has_vertex (bottomLeft ?inb) x (-1)" for x
    unfolding inserted_corners using below by (force simp: has_vertex_def no_corners_def)+
  have e: "0 \<le> endF" using assms(5,7) by (auto simp: consistent_def)
  have "walk (length (sa_source sa) + 2) (<) ?countF (endF + 2 * 1) 1 = (endF + 2) #
      takeWhile (\<lambda>i. i < ?countF) (map (\<lambda>k. endF + 2 + int k * 1) (map Suc [0..<length (sa_source sa) + 1]))"
    using assms(8) by (simp add: walk_def upt_conv_Cons map_Suc_upt del: upt_Suc)
  then have "left_search [bottomLeft ?inb] (-1) (walk (length (sa_source sa) + 2) (<) ?countF (endF + 2 * 1) 1) = None"
    using bl nv(2) by simp
  then have "getOrientPhraseModel sa REO_MSLR False False startF endF 0 endE ?countF 0 1 (\<ge>) (<) (bottomRight ?inb) (bottomLeft ?inb) = None"
    using nv by (simp add: getOrientPhraseModel_def Let_def list_ex_iff)
  moreover have "\<not> isAligned sa (startF - 1) (0 - 1)" "\<not> isAligned sa (endF + 1) (0 - 1)"
    using assms(7) e by (auto simp: isAligned_def)
  ultimately have "orientation_info es sa ?inb outb ((startF, 0), (endF, endE)) = None" for outb
    using assms(3,4) by (simp add: orientation_info_def Let_def)
  moreover have "((startF, 0), (endF, endE)) \<in> set ?ps" unfolding ps using assms(5,6) by blast
  ultimately have "add_pairs es sa (orientation_info es sa ?inb outb) ?ps out = None" for outb
    using add_pairs_undefined by blast
  then show ?thesis unfolding extract_sentence_def Let_def using assms(3) by simp
qed


definition sample_alignment :: sentence_alignment where
  "sample_alignment = \<lparr>sa_target = [''x'', ''y''], sa_source = [''a'', ''b'', ''c'', ''d'', ''e''],
     alignedCountS = [1, 1, 0, 0, 0], alignedToT = [[1], [0]], sentenceID = 7\<rparr>"

definition sample_extract :: "reo_model_type \<Rightarrow> extract_settings" where
  "sample_extract t = \<lparr>maxPhraseLength = 7, orientationFlag = True, translationFlag = True, sentenceIdFlag = False,
     onlyOutputSpanInfo = False, allModelsOutputFlag = False, wordModel = False, wordType = t, phraseModel = True,
     phraseType = t, hierModel = False, hierType = t\<rparr>"

lemma sample_read:
  "SentenceAlignmentCreate ''x y'' ''a b c d e'' ''0-1 1-0'' 7 = Some (True, sample_alignment)"
  by code_simp

lemma sample_wf: "wf_alignment sample_alignment" by (rule create_wf [OF sample_read])

lemma sample_consistent: "consistent sample_alignment ((1, 0), (1, 0)) \<and> within_limit (sample_extract t) ((1, 0), (1, 0))"
proof -
  have l: "linked sample_alignment f e \<longleftrightarrow> (f = 1 \<and> e = 0) \<or> (f = 0 \<and> e = 1)" for f e
  proof -
    have "0 \<le> e \<and> e < 2 \<longleftrightarrow> e = 0 \<or> e = 1" by auto
    then show ?thesis by (auto simp: linked_def sample_alignment_def)
  qed
  show ?thesis unfolding consistent_def within_limit_def l by (auto simp: sample_alignment_def sample_extract_def)
qed

lemma extraction_is_exact_witness:
  "\<exists>out' pairs. extract_sentence (sample_extract REO_MSD) sample_alignment \<lparr>extractFile = [], extractFileInv = [],
      extractFileOrientation = [], extractFileSentenceId = [], stdout_text = []\<rparr> = Some out' \<and>
    extractFile out' = concat (map (translation_line sample_alignment) pairs) \<and>
    distinct pairs \<and> set pairs = {p. consistent sample_alignment p \<and> within_limit (sample_extract REO_MSD) p}"
  using extraction_is_exact [OF sample_read, of "sample_extract REO_MSD" "\<lparr>extractFile = [], extractFileInv = [],
      extractFileOrientation = [], extractFileSentenceId = [], stdout_text = []\<rparr>"]
  by (simp add: sample_alignment_def sample_extract_def)

lemma phrase_orientation_mono_witness:
  "getOrientPhraseModel sample_alignment REO_MSD False False 2 2 1 1 4 0 1 (\<ge>) (<)
     (bottomRight (fold insert_pair (filter (within_limit (sample_extract REO_MSD)) (extracted_pairs sample_alignment False 7)) no_corners))
     (bottomLeft (fold insert_pair (filter (within_limit (sample_extract REO_MSD)) (extracted_pairs sample_alignment False 7)) no_corners))
   = Some LEFT"
proof -
  have "\<exists>f e. consistent sample_alignment ((f, e), (2 - 1, 1 - 1)) \<and> within_limit (sample_extract REO_MSD) ((f, e), (2 - 1, 1 - 1))"
    using sample_consistent by (intro exI [of _ 1] exI [of _ 0]) simp
  then show ?thesis
    using phrase_orientation_mono [OF sample_wf _ refl, of "sample_extract REO_MSD" REO_MSD False False 2 2 1 1]
    by (simp add: sample_alignment_def sample_extract_def)
qed

lemma mslr_phrase_model_undefined_witness:
  "extract_sentence (sample_extract REO_MSLR) sample_alignment \<lparr>extractFile = [], extractFileInv = [],
      extractFileOrientation = [], extractFileSentenceId = [], stdout_text = []\<rparr> = None"
  using mslr_phrase_model_undefined [OF sample_wf, of "sample_extract REO_MSLR" 1 1 0] sample_consistent
  by (simp add: sample_alignment_def sample_extract_def)


text \<open>A vocabulary's entries are distinct and its index finds exactly them; every word stored is found again.\<close>

definition wf_vocabulary :: "'w vocabulary \<Rightarrow> bool" where
  "wf_vocabulary v \<longleftrightarrow> distinct (vocab v) \<and> (\<forall>w i. lookup v w = Some i \<longleftrightarrow> i < length (vocab v) \<and> vocab v ! i = w)"

lemma storeIfNew_wf:
  assumes "wf_vocabulary v" "storeIfNew w v = (i, v')"
  shows "wf_vocabulary v' \<and> i < length (vocab v') \<and> vocab v' ! i = w \<and> getWordID w v' = i \<and>
    set (vocab v') = insert w (set (vocab v)) \<and> length (vocab v) \<le> length (vocab v') \<and> (\<forall>j < length (vocab v). vocab v' ! j = vocab v ! j)"
proof (cases "lookup v w")
  case (Some k)
  then have "v' = v" "i = k" using assms(2) by (auto simp: storeIfNew_def)
  moreover have "k < length (vocab v)" "vocab v ! k = w" using assms(1) Some by (auto simp: wf_vocabulary_def)
  ultimately show ?thesis using assms(1) Some by (auto simp: getWordID_def)
next
  case None
  have new: "w \<notin> set (vocab v)"
  proof
    assume "w \<in> set (vocab v)"
    then obtain k where "k < length (vocab v)" "vocab v ! k = w" by (auto simp: in_set_conv_nth)
    then have "lookup v w = Some k" using assms(1) by (simp add: wf_vocabulary_def)
    then show False using None by simp
  qed
  have v': "v' = v\<lparr>vocab := vocab v @ [w], lookup := (lookup v)(w := Some (length (vocab v)))\<rparr>" "i = length (vocab v)"
    using assms(2) None by (auto simp: storeIfNew_def)
  have "lookup v' u = Some j \<longleftrightarrow> j < length (vocab v') \<and> vocab v' ! j = u" for u j
    using assms(1) new None unfolding v' wf_vocabulary_def by (cases "u = w") (auto simp: nth_append less_Suc_eq in_set_conv_nth)
  then show ?thesis using assms(1) new unfolding v' wf_vocabulary_def by (auto simp: getWordID_def nth_append)
qed

text \<open>storing a word in a vocabulary without duplicates keeps it so, and the identifier returned leads back to the word
  and is the one found later; earlier identifiers keep their words.
\<close>

theorem vocabulary_round_trip:
  assumes "wf_vocabulary v" "storeIfNew w v = (i, v')" "storeIfNew u v' = (j, v'')"
  shows "wf_vocabulary v'' \<and> getWordID w v'' = i \<and> vocab v'' ! i = w \<and> (i = j \<longleftrightarrow> w = u)"
proof -
  note s1 = storeIfNew_wf [OF assms(1,2)]
  note s2 = storeIfNew_wf [OF conjunct1 [OF s1] assms(3)]
  have w: "i < length (vocab v'')" "vocab v'' ! i = w" using s1 s2 by auto
  then have "lookup v'' w = Some i" using s2 unfolding wf_vocabulary_def by blast
  then have "getWordID w v'' = i" by (simp add: getWordID_def)
  moreover have "i = j \<longleftrightarrow> w = u"
    using w s2 nth_eq_iff_index_eq [of "vocab v''" i j] unfolding wf_vocabulary_def by metis
  ultimately show ?thesis using w s2 by blast
qed

lemma vocabulary_round_trip_witness:
  "getWordID ''a'' (snd (storeIfNew ''b'' (snd (storeIfNew ''a'' VocabularyInit)))) = 0"
proof -
  have "wf_vocabulary (VocabularyInit :: string vocabulary)" by (simp add: wf_vocabulary_def VocabularyInit_def)
  from vocabulary_round_trip [OF this, of "''a''" 0 "snd (storeIfNew ''a'' VocabularyInit)" "''b''" 1
      "snd (storeIfNew ''b'' (snd (storeIfNew ''a'' VocabularyInit)))"]
  show ?thesis by (simp add: storeIfNew_def VocabularyInit_def)
qed


end
