(* ===== verification/Symal.thy ===== *)
theory Symal
  imports Phrase_Extraction
begin

text \<open>
  Symmetrisation of word alignments (\<open>symal/symal.cpp\<close>): reading a sentence pair aligned in both
  directions, and the union, intersection, directed and grow alignments. The arrays \<open>a\<close> and \<open>b\<close> are lists
  whose entry 0 is not used; \<open>fa\<close>, \<open>ea\<close> and \<open>A\<close> are functions of the index. A \<open>set\<close> of points is walked in
  lexicographic order of the matrix, which is the order of its iterator: a point inserted during the
  walk is met if it lies ahead.
\<close>

section \<open>Reading\<close>

text \<open>The end of the input, a failed assertion, a read beyond what the stream or a buffer holds, or a value.\<close>

datatype 'a reading = EndOfInput | AssertionFails | UndefinedRead | Got 'a string

definition and_then :: "'a reading \<Rightarrow> ('a \<Rightarrow> string \<Rightarrow> 'b reading) \<Rightarrow> 'b reading" where
  "and_then r f =
     (case r of EndOfInput \<Rightarrow> EndOfInput | AssertionFails \<Rightarrow> AssertionFails | UndefinedRead \<Rightarrow> UndefinedRead | Got x s \<Rightarrow> f x s)"

definition read_number :: "string \<Rightarrow> int reading" where
  "read_number s = (case scan_int s of None \<Rightarrow> UndefinedRead | Some (i, r) \<Rightarrow> Got i r)"

text \<open>A word into a buffer of \<open>MAX_WORD\<close> characters, one of them for the final zero.\<close>

definition MAX_WORD :: nat where
  "MAX_WORD = 10000"

definition skip_word :: "string \<Rightarrow> unit reading" where
  "skip_word s =
     (let s = dropWhile is_space s; w = take (MAX_WORD - 1) (takeWhile (\<lambda>c. \<not> is_space c) s)
      in if w = [] then UndefinedRead
         else if length w \<ge> MAX_WORD - 1 then AssertionFails
         else Got () (drop (length w) s))"

fun skip_words :: "nat \<Rightarrow> string \<Rightarrow> unit reading" where
  "skip_words 0 s = Got () s"
| "skip_words (Suc k) s = and_then (skip_word s) (\<lambda>_ s. skip_words k s)"

text \<open>The separator goes into a buffer of ten characters, whatever its length.\<close>

definition skip_separator :: "string \<Rightarrow> unit reading" where
  "skip_separator s =
     (let s = dropWhile is_space s; w = takeWhile (\<lambda>c. \<not> is_space c) s
      in if w = [] \<or> length w \<ge> 10 then UndefinedRead else Got () (drop (length w) s))"

fun read_numbers :: "nat \<Rightarrow> (int \<Rightarrow> bool) \<Rightarrow> string \<Rightarrow> int list reading" where
  "read_numbers 0 ok s = Got [] s"
| "read_numbers (Suc k) ok s =
     and_then (read_number s) (\<lambda>i s. if \<not> ok i then AssertionFails
       else and_then (read_numbers k ok s) (\<lambda>is s. Got (i # is) s))"

definition MAX_M :: int where
  "MAX_M = 200"

definition MAX_N :: int where
  "MAX_N = 200"

text \<open>\<open>m\<close>, \<open>a\<close>, \<open>n\<close> and \<open>b\<close>.\<close>

type_synonym als = "int \<times> int list \<times> int \<times> int list"

definition getals :: "string \<Rightarrow> als reading" where
  "getals inp =
     (case scan_int inp of
        None \<Rightarrow> EndOfInput
      | Some (freq, s) \<Rightarrow>
          and_then (read_number s) (\<lambda>n s. if \<not> n < MAX_N then AssertionFails else
          and_then (skip_words (nat n) s) (\<lambda>_ s.
          and_then (skip_separator s) (\<lambda>_ s.
          and_then (read_numbers (nat n) (\<lambda>i. True) s) (\<lambda>b s.
          and_then (read_number s) (\<lambda>m s. if \<not> m < MAX_M then AssertionFails else
          and_then (skip_words (nat m) s) (\<lambda>_ s.
          and_then (skip_separator s) (\<lambda>_ s.
          and_then (read_numbers (nat m) (\<lambda>i. 0 \<le> i \<and> i \<le> n) s) (\<lambda>a s.
            if list_all (\<lambda>i. 0 \<le> i \<and> i \<le> m) b then Got (m, 0 # a, n, 0 # b) s else AssertionFails)))))))))"

section \<open>Union, intersection and the two directions\<close>

definition entry :: "int list \<Rightarrow> int \<Rightarrow> int" where
  "entry a j = a ! nat j"

definition write_point :: "int \<Rightarrow> int \<Rightarrow> string" where
  "write_point j i = show_int (j - 1) @ ''-'' @ show_int (i - 1) @ '' ''"

definition fix_last_blank :: "string \<Rightarrow> string" where
  "fix_last_blank str = (if length str = 0 then ''\<newline>'' else butlast str @ ''\<newline>'')"

definition prunionalignment :: "int \<Rightarrow> int list \<Rightarrow> int \<Rightarrow> int list \<Rightarrow> string" where
  "prunionalignment m a n b = fix_last_blank
     (concat (map (\<lambda>j. if entry a j \<noteq> 0 then write_point j (entry a j) else []) [1..m]) @
      concat (map (\<lambda>i. if entry b i \<noteq> 0 \<and> entry a (entry b i) \<noteq> i then write_point (entry b i) i else []) [1..n]))"

definition printersect :: "int \<Rightarrow> int list \<Rightarrow> int \<Rightarrow> int list \<Rightarrow> string" where
  "printersect m a n b = fix_last_blank
     (concat (map (\<lambda>j. if entry a j \<noteq> 0 \<and> entry b (entry a j) = j then write_point j (entry a j) else []) [1..m]))"

definition printtgttosrc :: "int \<Rightarrow> int list \<Rightarrow> int \<Rightarrow> int list \<Rightarrow> string" where
  "printtgttosrc m a n b = fix_last_blank
     (concat (map (\<lambda>i. if entry b i \<noteq> 0 then write_point (entry b i) i else []) [1..n]))"

definition printsrctotgt :: "int \<Rightarrow> int list \<Rightarrow> int \<Rightarrow> int list \<Rightarrow> string" where
  "printsrctotgt m a n b = fix_last_blank
     (concat (map (\<lambda>j. if entry a j \<noteq> 0 then write_point j (entry a j) else []) [1..m]))"

section \<open>The grow alignment\<close>

record grow_state =
  fa :: "int \<Rightarrow> bool"
  ea :: "int \<Rightarrow> bool"
  A :: "int \<Rightarrow> int \<Rightarrow> int"
  currentpoints :: "(int \<times> int) set"
  unionalignment :: "(int \<times> int) set"

definition grow_init :: grow_state where
  "grow_init = \<lparr>fa = (\<lambda>j. False), ea = (\<lambda>i. False), A = (\<lambda>i j. 0), currentpoints = {}, unionalignment = {}\<rparr>"

text \<open>The points of the matrix in the order of the sets.\<close>

definition matrix_points :: "int \<Rightarrow> int \<Rightarrow> (int \<times> int) list" where
  "matrix_points n m = concat (map (\<lambda>i. map (Pair i) [1..m]) [1..n])"

definition neighbors :: "bool \<Rightarrow> (int \<times> int) list" where
  "neighbors diagonal =
     [(-1, 0), (0, -1), (1, 0), (0, 1)] @ (if diagonal then [(-1, -1), (-1, 1), (1, -1), (1, 1)] else [])"

definition fill_direct :: "int list \<Rightarrow> int list \<Rightarrow> int \<Rightarrow> grow_state \<Rightarrow> grow_state" where
  "fill_direct a b j st =
     (if entry a j \<noteq> 0 then
        let i = entry a j; st = st\<lparr>unionalignment := insert (i, j) (unionalignment st)\<rparr>
        in if entry b i = j
           then st\<lparr>fa := (fa st)(j := True), ea := (ea st)(i := True), A := (A st)(i := (A st i)(j := 2)),
                   currentpoints := insert (i, j) (currentpoints st)\<rparr>
           else st\<lparr>A := (A st)(i := (A st i)(j := -1))\<rparr>
      else st)"

definition fill_inverse :: "int list \<Rightarrow> int list \<Rightarrow> int \<Rightarrow> grow_state \<Rightarrow> grow_state" where
  "fill_inverse a b i st =
     (let j = entry b i
      in if j \<noteq> 0 \<and> entry a j \<noteq> i
         then st\<lparr>unionalignment := insert (i, j) (unionalignment st), A := (A st)(i := (A st i)(j := 1))\<rparr>
         else st)"

definition add_point :: "int \<times> int \<Rightarrow> grow_state \<Rightarrow> grow_state" where
  "add_point point st =
     (case point of (i, j) \<Rightarrow>
        st\<lparr>currentpoints := insert (i, j) (currentpoints st), A := (A st)(i := (A st i)(j := 2)),
           ea := (ea st)(i := True), fa := (fa st)(j := True)\<rparr>)"

definition may_add :: "int \<Rightarrow> int list \<Rightarrow> int \<Rightarrow> int list \<Rightarrow> int \<times> int \<Rightarrow> grow_state \<Rightarrow> bool" where
  "may_add m a n b point st =
     (case point of (i, j) \<Rightarrow>
        i > 0 \<and> i \<le> n \<and> j > 0 \<and> j \<le> m \<and> (entry b i = j \<or> entry a j = i) \<and> \<not> (ea st i \<and> fa st j))"

definition grow_neighbor ::
    "int \<Rightarrow> int list \<Rightarrow> int \<Rightarrow> int list \<Rightarrow> int \<times> int \<Rightarrow> int \<times> int \<Rightarrow> bool \<times> grow_state \<Rightarrow> bool \<times> grow_state" where
  "grow_neighbor m a n b k offset acc =
     (case acc of (added, st) \<Rightarrow>
        let point = (fst k + fst offset, snd k + snd offset)
        in if may_add m a n b point st then (True, add_point point st) else (added, st))"

definition grow_from ::
    "bool \<Rightarrow> int \<Rightarrow> int list \<Rightarrow> int \<Rightarrow> int list \<Rightarrow> int \<times> int \<Rightarrow> bool \<times> grow_state \<Rightarrow> bool \<times> grow_state" where
  "grow_from diagonal m a n b k acc =
     (if k \<in> currentpoints (snd acc) then fold (grow_neighbor m a n b k) (neighbors diagonal) acc else acc)"

definition grow_pass ::
    "bool \<Rightarrow> int \<Rightarrow> int list \<Rightarrow> int \<Rightarrow> int list \<Rightarrow> grow_state \<Rightarrow> bool \<times> grow_state" where
  "grow_pass diagonal m a n b st = fold (grow_from diagonal m a n b) (matrix_points n m) (False, st)"

text \<open>The words without a point: each pass that adds one leaves fewer of them.\<close>

definition uncovered :: "int \<Rightarrow> int \<Rightarrow> grow_state \<Rightarrow> nat" where
  "uncovered m n st = card {j \<in> {1..m}. \<not> fa st j} + card {i \<in> {1..n}. \<not> ea st i}"

lemma uncovered_add_point:
  assumes "may_add m a n b p st"
  shows "uncovered m n (add_point p st) < uncovered m n st"
proof -
  obtain i j where p: "p = (i, j)" by force
  have b: "i \<in> {1..n}" "j \<in> {1..m}" "\<not> fa st j \<or> \<not> ea st i" using assms by (auto simp: may_add_def p)
  let ?f = "{j \<in> {1..m}. \<not> fa st j}" and ?e = "{i \<in> {1..n}. \<not> ea st i}"
  have s: "{k \<in> {1..m}. \<not> fa (add_point p st) k} = ?f - {j}" "{k \<in> {1..n}. \<not> ea (add_point p st) k} = ?e - {i}"
    by (auto simp: add_point_def p)
  have fin: "finite ?f" "finite ?e"
    by (intro finite_Collect_conjI disjI1; simp)+
  then have le: "card (?f - {j}) \<le> card ?f" "card (?e - {i}) \<le> card ?e" by (simp_all add: card_mono)
  from b(3) have "card (?f - {j}) < card ?f \<or> card (?e - {i}) < card ?e"
  proof
    assume "\<not> fa st j"
    then have "card (?f - {j}) < card ?f" using b(2) fin(1) by (intro psubset_card_mono) auto
    then show ?thesis ..
  next
    assume "\<not> ea st i"
    then have "card (?e - {i}) < card ?e" using b(1) fin(2) by (intro psubset_card_mono) auto
    then show ?thesis ..
  qed
  then show ?thesis unfolding uncovered_def s using le by linarith
qed

definition shrinks :: "int \<Rightarrow> int \<Rightarrow> nat \<Rightarrow> bool \<times> grow_state \<Rightarrow> bool" where
  "shrinks m n u acc \<longleftrightarrow> (if fst acc then uncovered m n (snd acc) < u else uncovered m n (snd acc) \<le> u)"

lemma shrinks_neighbor: "shrinks m n u acc \<Longrightarrow> shrinks m n u (grow_neighbor m a n b k offset acc)"
proof -
  assume u: "shrinks m n u acc"
  obtain added st where acc: "acc = (added, st)" by force
  let ?p = "(fst k + fst offset, snd k + snd offset)"
  show ?thesis
  proof (cases "may_add m a n b ?p st")
    case True
    then show ?thesis using u uncovered_add_point [OF True]
      by (simp add: acc shrinks_def grow_neighbor_def split: if_splits)
  next
    case False
    then show ?thesis using u by (simp add: acc grow_neighbor_def)
  qed
qed

lemma shrinks_pass:
  assumes r: "grow_pass diagonal m a n b st = (True, st')"
  shows "uncovered m n st' < uncovered m n st"
proof -
  have keep: "shrinks m n u (fold (grow_neighbor m a n b k) os acc)" if "shrinks m n u acc" for u k os acc
    using that by (induction os arbitrary: acc) (simp_all add: shrinks_neighbor)
  then have "shrinks m n u (grow_from diagonal m a n b k acc)" if "shrinks m n u acc" for u k acc
    using that by (simp add: grow_from_def)
  then have "shrinks m n (uncovered m n st) (grow_pass diagonal m a n b st)"
    unfolding grow_pass_def
    by (intro fold_invariant [where Q = "\<lambda>_. True" and P = "shrinks m n (uncovered m n st)"]) (auto simp: shrinks_def)
  then show ?thesis by (simp add: r shrinks_def)
qed

function grow_loop :: "bool \<Rightarrow> int \<Rightarrow> int list \<Rightarrow> int \<Rightarrow> int list \<Rightarrow> grow_state \<Rightarrow> grow_state" where
  "grow_loop diagonal m a n b st =
     (case grow_pass diagonal m a n b st of (added, st') \<Rightarrow> if added then grow_loop diagonal m a n b st' else st')"
  by pat_completeness auto
termination
  by (relation "measure (\<lambda>(diagonal, m, a, n, b, st). uncovered m n st)") (auto dest: shrinks_pass [OF sym])

declare grow_loop.simps [simp del]

definition final_point :: "bool \<Rightarrow> int \<Rightarrow> int \<times> int \<Rightarrow> grow_state \<Rightarrow> grow_state" where
  "final_point bothuncovered v k st =
     (case k of (i, j) \<Rightarrow>
        if k \<in> unionalignment st \<and> A st i j = v \<and>
           ((bothuncovered \<and> \<not> ea st i \<and> \<not> fa st j) \<or> (\<not> bothuncovered \<and> \<not> (ea st i \<and> fa st j)))
        then add_point k st else st)"

definition final_pass :: "bool \<Rightarrow> int \<Rightarrow> int \<Rightarrow> int \<Rightarrow> grow_state \<Rightarrow> grow_state" where
  "final_pass bothuncovered m n v st = fold (final_point bothuncovered v) (matrix_points n m) st"

definition grow_start :: "int \<Rightarrow> int list \<Rightarrow> int \<Rightarrow> int list \<Rightarrow> grow_state" where
  "grow_start m a n b = fold (fill_inverse a b) [1..n] (fold (fill_direct a b) [1..m] grow_init)"

definition grow_alignment :: "bool \<Rightarrow> bool \<Rightarrow> bool \<Rightarrow> int \<Rightarrow> int list \<Rightarrow> int \<Rightarrow> int list \<Rightarrow> grow_state" where
  "grow_alignment diagonal final bothuncovered m a n b =
     (let st = grow_loop diagonal m a n b (grow_start m a n b)
      in if final then final_pass bothuncovered m n (-1) (final_pass bothuncovered m n 1 st) else st)"

text \<open>\<open>None\<close>: \<open>memset\<close> with a negative count.\<close>

definition printgrow :: "int \<Rightarrow> int list \<Rightarrow> int \<Rightarrow> int list \<Rightarrow> bool \<Rightarrow> bool \<Rightarrow> bool \<Rightarrow> string option" where
  "printgrow m a n b diagonal final bothuncovered =
     (if m < -1 \<or> n < -1 then None
      else Some (fix_last_blank (concat (map (\<lambda>(i, j). write_point j i)
        (filter (\<lambda>k. k \<in> currentpoints (grow_alignment diagonal final bothuncovered m a n b)) (matrix_points n m))))))"

section \<open>The points of the two alignments\<close>

definition wf_als :: "int \<Rightarrow> int list \<Rightarrow> int \<Rightarrow> int list \<Rightarrow> bool" where
  "wf_als m a n b \<longleftrightarrow> (\<forall>j \<in> {1..m}. 0 \<le> entry a j \<and> entry a j \<le> n) \<and> (\<forall>i \<in> {1..n}. 0 \<le> entry b i \<and> entry b i \<le> m)"

definition union_points :: "int \<Rightarrow> int list \<Rightarrow> int \<Rightarrow> int list \<Rightarrow> (int \<times> int) set" where
  "union_points m a n b = {(i, j). i \<in> {1..n} \<and> j \<in> {1..m} \<and> (entry b i = j \<or> entry a j = i)}"

definition intersection_points :: "int \<Rightarrow> int list \<Rightarrow> int \<Rightarrow> int list \<Rightarrow> (int \<times> int) set" where
  "intersection_points m a n b = {(i, j). i \<in> {1..n} \<and> j \<in> {1..m} \<and> entry b i = j \<and> entry a j = i}"

definition adjacent :: "bool \<Rightarrow> int \<times> int \<Rightarrow> int \<times> int \<Rightarrow> bool" where
  "adjacent diagonal p q \<longleftrightarrow> p \<noteq> q \<and> \<bar>fst q - fst p\<bar> \<le> 1 \<and> \<bar>snd q - snd p\<bar> \<le> 1 \<and>
     (diagonal \<or> fst q = fst p \<or> snd q = snd p)"

lemma adjacent_neighbors:
  "adjacent diagonal p q \<longleftrightarrow> (\<exists>offset \<in> set (neighbors diagonal). q = (fst p + fst offset, snd p + snd offset))"
proof
  assume adj: "adjacent diagonal p q"
  have "fst q - fst p \<in> {-1, 0, 1}" "snd q - snd p \<in> {-1, 0, 1}" using adj by (auto simp: adjacent_def)
  then have "(fst q - fst p, snd q - snd p) \<in> set (neighbors diagonal)"
    using adj by (cases p; cases q) (auto simp: adjacent_def neighbors_def)
  then show "\<exists>offset \<in> set (neighbors diagonal). q = (fst p + fst offset, snd p + snd offset)" by (auto intro!: bexI)
qed (cases p; cases q; auto simp: adjacent_def neighbors_def split: if_splits)

text \<open>A word of the target or the source is covered when it has a point; with \<open>bothuncovered\<close> one covered word of a
  link is enough.\<close>

definition settled :: "bool \<Rightarrow> (int \<times> int) set \<Rightarrow> int \<times> int \<Rightarrow> bool" where
  "settled bothuncovered points k \<longleftrightarrow>
     (let target = (\<exists>j. (fst k, j) \<in> points); source = (\<exists>i. (i, snd k) \<in> points)
      in if bothuncovered then target \<or> source else target \<and> source)"

lemma settled_mono: "settled bothuncovered points k \<Longrightarrow> points \<subseteq> points' \<Longrightarrow> settled bothuncovered points' k"
  by (auto simp: settled_def Let_def split: if_splits)

text \<open>The rule of the grow heuristic, without an order of the points: a link of the union next to a point is added when
  one of its words is not covered yet.\<close>

inductive grow_rule :: "bool \<Rightarrow> (int \<times> int) set \<Rightarrow> (int \<times> int) set \<Rightarrow> (int \<times> int) set \<Rightarrow> bool"
  for diagonal :: bool and links :: "(int \<times> int) set" where
  grow_add: "p \<in> points \<Longrightarrow> adjacent diagonal p q \<Longrightarrow> q \<in> links \<Longrightarrow> \<not> settled False points q \<Longrightarrow>
    grow_rule diagonal links points (insert q points)"

inductive_cases grow_ruleE: "grow_rule diagonal links points points'"

text \<open>What every step of the grow alignment keeps.\<close>

definition grow_ok :: "int \<Rightarrow> int list \<Rightarrow> int \<Rightarrow> int list \<Rightarrow> grow_state \<Rightarrow> bool" where
  "grow_ok m a n b st \<longleftrightarrow>
     intersection_points m a n b \<subseteq> currentpoints st \<and> currentpoints st \<subseteq> union_points m a n b \<and>
     unionalignment st = union_points m a n b \<and>
     (\<forall>j. fa st j \<longleftrightarrow> (\<exists>i. (i, j) \<in> currentpoints st)) \<and> (\<forall>i. ea st i \<longleftrightarrow> (\<exists>j. (i, j) \<in> currentpoints st)) \<and>
     (\<forall>i j. (i, j) \<in> union_points m a n b - currentpoints st \<longrightarrow> A st i j = (if entry a j = i then -1 else 1))"

lemma fold_fill_direct:
  "fold (fill_direct a b) js grow_init =
     \<lparr>fa = (\<lambda>j. j \<in> set js \<and> entry a j \<noteq> 0 \<and> entry b (entry a j) = j),
      ea = (\<lambda>i. i \<noteq> 0 \<and> entry b i \<in> set js \<and> entry a (entry b i) = i),
      A = (\<lambda>i j. if j \<in> set js \<and> entry a j = i \<and> i \<noteq> 0 then if entry b i = j then 2 else -1 else 0),
      currentpoints = {(i, j). j \<in> set js \<and> entry a j = i \<and> i \<noteq> 0 \<and> entry b i = j},
      unionalignment = {(i, j). j \<in> set js \<and> entry a j = i \<and> i \<noteq> 0}\<rparr>"
proof (induction js rule: rev_induct)
  case Nil
  then show ?case by (simp add: grow_init_def fun_eq_iff)
next
  case (snoc j js)
  show ?case unfolding fold_append fold_simps comp_def id_def snoc.IH
    by (cases "entry a j = 0"; cases "entry b (entry a j) = j") (auto simp: fill_direct_def Let_def fun_eq_iff)
qed

lemma fold_fill_inverse:
  "fold (fill_inverse a b) is st =
     st\<lparr>A := (\<lambda>i j. if i \<in> set is \<and> entry b i = j \<and> j \<noteq> 0 \<and> entry a j \<noteq> i then 1 else A st i j),
        unionalignment := unionalignment st \<union> {(i, j). i \<in> set is \<and> entry b i = j \<and> j \<noteq> 0 \<and> entry a j \<noteq> i}\<rparr>"
proof (induction "is" rule: rev_induct)
  case (snoc i "is")
  show ?case unfolding fold_append fold_simps comp_def id_def snoc.IH
    by (rule grow_state.equality) (auto simp: fill_inverse_def Let_def fun_eq_iff)
qed simp

lemma grow_start_ok:
  assumes "wf_als m a n b"
  shows "grow_ok m a n b (grow_start m a n b) \<and> currentpoints (grow_start m a n b) = intersection_points m a n b"
proof -
  have ra: "entry a j = i \<and> i \<noteq> 0 \<longleftrightarrow> i \<in> {1..n} \<and> entry a j = i" if "j \<in> {1..m}" for i j
  proof -
    have "0 \<le> entry a j \<and> entry a j \<le> n" using assms that unfolding wf_als_def by blast
    then show ?thesis by auto
  qed
  have rb: "entry b i = j \<and> j \<noteq> 0 \<longleftrightarrow> j \<in> {1..m} \<and> entry b i = j" if "i \<in> {1..n}" for i j
  proof -
    have "0 \<le> entry b i \<and> entry b i \<le> m" using assms that unfolding wf_als_def by blast
    then show ?thesis by auto
  qed
  note start = grow_start_def fold_fill_inverse fold_fill_direct
  have mem: "(i, j) \<in> currentpoints (grow_start m a n b) \<longleftrightarrow> (i, j) \<in> intersection_points m a n b" for i j
    unfolding start intersection_points_def using ra [of j i] by (cases "j \<in> {1..m}") auto
  then have cur: "currentpoints (grow_start m a n b) = intersection_points m a n b" by auto
  have "(i, j) \<in> unionalignment (grow_start m a n b) \<longleftrightarrow> (i, j) \<in> union_points m a n b" for i j
    unfolding start union_points_def using ra [of j i] rb [of i j]
    by (cases "j \<in> {1..m}"; cases "i \<in> {1..n}"; simp) metis+
  then have uni: "unionalignment (grow_start m a n b) = union_points m a n b" by auto
  have f: "fa (grow_start m a n b) j \<longleftrightarrow> (\<exists>i. (i, j) \<in> currentpoints (grow_start m a n b))" for j
    unfolding start using ra [of j "entry a j"] by auto
  have e: "ea (grow_start m a n b) i \<longleftrightarrow> (\<exists>j. (i, j) \<in> currentpoints (grow_start m a n b))" for i
    unfolding start by auto
  have A: "A (grow_start m a n b) i j = (if entry a j = i then -1 else 1)"
    if "(i, j) \<in> union_points m a n b - intersection_points m a n b" for i j
    using that by (auto simp: start union_points_def intersection_points_def)
  have "intersection_points m a n b \<subseteq> union_points m a n b" by (auto simp: union_points_def intersection_points_def)
  then show ?thesis unfolding grow_ok_def uni using f e A unfolding cur by blast
qed


section \<open>Growing\<close>

lemma matrix_points_set: "set (matrix_points n m) = {1..n} \<times> {1..m}"
  by (auto simp: matrix_points_def)

lemma may_add_union: "may_add m a n b p st \<Longrightarrow> p \<in> union_points m a n b"
  by (auto simp: may_add_def union_points_def)

lemma add_point_ok: "grow_ok m a n b st \<Longrightarrow> p \<in> union_points m a n b \<Longrightarrow> grow_ok m a n b (add_point p st)"
  by (cases p) (auto simp: grow_ok_def add_point_def)

lemma may_add_iff:
  assumes "grow_ok m a n b st"
  shows "may_add m a n b q st \<longleftrightarrow> q \<in> union_points m a n b \<and> \<not> settled False (currentpoints st) q"
  using assms by (auto simp: may_add_def union_points_def grow_ok_def settled_def)

lemma add_point_current [simp]: "currentpoints (add_point p st) = insert p (currentpoints st)"
  by (cases p) (simp add: add_point_def)

text \<open>A property of the state that adding an allowed point next to a current one keeps, is kept by a pass.\<close>

lemma grow_pass_keeps:
  assumes step: "\<And>st k q. P st \<Longrightarrow> k \<in> currentpoints st \<Longrightarrow> adjacent diagonal k q \<Longrightarrow> may_add m a n b q st \<Longrightarrow> P (add_point q st)"
    and "P st"
  shows "P (snd (grow_pass diagonal m a n b st))"
proof -
  have inner: "P (snd (fold (grow_neighbor m a n b k) os acc)) \<and> k \<in> currentpoints (snd (fold (grow_neighbor m a n b k) os acc))"
    if "set os \<subseteq> set (neighbors diagonal)" "P (snd acc)" "k \<in> currentpoints (snd acc)" for os k acc
    using that
  proof (induction os arbitrary: acc)
    case (Cons offset os)
    obtain added st where acc: "acc = (added, st)" by force
    let ?q = "(fst k + fst offset, snd k + snd offset)"
    have "adjacent diagonal k ?q" using Cons.prems(1) by (auto simp: adjacent_neighbors)
    then have "P (snd (grow_neighbor m a n b k offset acc)) \<and> k \<in> currentpoints (snd (grow_neighbor m a n b k offset acc))"
      using step [of st k ?q] Cons.prems(2,3) by (simp add: acc grow_neighbor_def Let_def)
    then show ?case using Cons.IH Cons.prems(1) by simp
  qed simp
  have "P (snd (fold (grow_from diagonal m a n b) ks acc))" if "P (snd acc)" for ks acc
    using that by (induction ks arbitrary: acc) (simp_all add: grow_from_def inner)
  then show ?thesis unfolding grow_pass_def using assms(2) by simp
qed

lemma grow_neighbor_pair:
  "grow_neighbor m a n b k offset (added, st) =
     (if may_add m a n b (fst k + fst offset, snd k + snd offset) st
      then (True, add_point (fst k + fst offset, snd k + snd offset) st) else (added, st))"
  by (simp add: grow_neighbor_def)

text \<open>A pass that adds nothing has found nothing to add.\<close>

lemma neighbors_unchanged:
  "fold (grow_neighbor m a n b k) os (added, st) = (False, st') \<Longrightarrow>
   \<not> added \<and> st' = st \<and> (\<forall>offset \<in> set os. \<not> may_add m a n b (fst k + fst offset, snd k + snd offset) st)"
proof (induction os arbitrary: added st)
  case (Cons offset os)
  let ?q = "(fst k + fst offset, snd k + snd offset)"
  show ?case
  proof (cases "may_add m a n b ?q st")
    case True
    then have "fold (grow_neighbor m a n b k) os (True, add_point ?q st) = (False, st')"
      using Cons.prems by (simp add: grow_neighbor_pair)
    then show ?thesis using Cons.IH by blast
  next
    case False
    then have "fold (grow_neighbor m a n b k) os (added, st) = (False, st')"
      using Cons.prems by (simp add: grow_neighbor_pair)
    then show ?thesis using Cons.IH False by auto
  qed
qed simp

lemma pass_unchanged:
  "fold (grow_from diagonal m a n b) ks (added, st) = (False, st') \<Longrightarrow>
   \<not> added \<and> st' = st \<and> (\<forall>k \<in> set ks \<inter> currentpoints st. \<forall>q. adjacent diagonal k q \<longrightarrow> \<not> may_add m a n b q st)"
proof (induction ks arbitrary: added st)
  case (Cons k ks)
  obtain added' st1 where r: "grow_from diagonal m a n b k (added, st) = (added', st1)" by force
  then have rest: "\<not> added'" "st' = st1"
      "\<forall>k \<in> set ks \<inter> currentpoints st1. \<forall>q. adjacent diagonal k q \<longrightarrow> \<not> may_add m a n b q st1"
    using Cons.IH [of added' st1] Cons.prems by simp_all
  have "\<not> added \<and> st1 = st \<and> (k \<in> currentpoints st \<longrightarrow> (\<forall>q. adjacent diagonal k q \<longrightarrow> \<not> may_add m a n b q st))"
    using r rest(1) neighbors_unchanged [of m a n b k "neighbors diagonal" added st st1]
    by (auto simp: grow_from_def adjacent_neighbors split: if_splits)
  then show ?case using rest by auto
qed simp

lemma grow_loop_keeps:
  assumes step: "\<And>st k q. P st \<Longrightarrow> k \<in> currentpoints st \<Longrightarrow> adjacent diagonal k q \<Longrightarrow> may_add m a n b q st \<Longrightarrow> P (add_point q st)"
    and "P st"
  shows "P (grow_loop diagonal m a n b st)"
  using assms(2)
proof (induction "uncovered m n st" arbitrary: st rule: less_induct)
  case less
  obtain added st' where p: "grow_pass diagonal m a n b st = (added, st')" by force
  have P: "P st'" using grow_pass_keeps [of P diagonal m a n b st, OF step less.prems] p by simp
  show ?case
  proof (cases added)
    case True
    then show ?thesis using less.hyps [OF shrinks_pass P] p by (simp add: grow_loop.simps [of _ _ _ _ _ st])
  qed (use p P in \<open>simp add: grow_loop.simps [of _ _ _ _ _ st]\<close>)
qed

lemma grow_loop_stops:
  "k \<in> {1..n} \<times> {1..m} \<Longrightarrow> k \<in> currentpoints (grow_loop diagonal m a n b st) \<Longrightarrow> adjacent diagonal k q \<Longrightarrow>
   \<not> may_add m a n b q (grow_loop diagonal m a n b st)"
proof (induction "uncovered m n st" arbitrary: st rule: less_induct)
  case less
  obtain added st' where p: "grow_pass diagonal m a n b st = (added, st')" by force
  show ?case
  proof (cases added)
    case True
    then show ?thesis using less.hyps [OF shrinks_pass [of diagonal m a n b st st']] less.prems p
      by (simp add: grow_loop.simps [of _ _ _ _ _ st])
  next
    case False
    then have "fold (grow_from diagonal m a n b) (matrix_points n m) (False, st) = (False, st')"
      using p by (simp add: grow_pass_def)
    note u = pass_unchanged [OF this]
    have "grow_loop diagonal m a n b st = st" using p u False by (simp add: grow_loop.simps [of _ _ _ _ _ st])
    then show ?thesis using u less.prems unfolding matrix_points_set by (simp only:) blast
  qed
qed


definition link_class :: "int list \<Rightarrow> int \<times> int \<Rightarrow> int" where
  "link_class a k = (if entry a (snd k) = fst k then -1 else 1)"

lemma final_point_keeps:
  assumes "grow_ok m a n b st"
  shows "grow_ok m a n b (final_point both v k st) \<and> currentpoints st \<subseteq> currentpoints (final_point both v k st) \<and>
    (k \<in> union_points m a n b \<and> link_class a k = v \<longrightarrow> settled both (currentpoints (final_point both v k st)) k)"
proof -
  obtain i j where k: "k = (i, j)" by force
  show ?thesis
  proof (cases "k \<in> unionalignment st \<and> A st i j = v \<and> ((both \<and> \<not> ea st i \<and> \<not> fa st j) \<or> (\<not> both \<and> \<not> (ea st i \<and> fa st j)))")
    case True
    then have "final_point both v k st = add_point k st" by (simp add: final_point_def k)
    moreover have "k \<in> union_points m a n b" using True assms by (simp add: grow_ok_def)
    ultimately show ?thesis using add_point_ok [OF assms] by (auto simp: settled_def Let_def k)
  next
    case False
    then have same: "final_point both v k st = st" by (auto simp: final_point_def k)
    have "settled both (currentpoints st) k" if u: "k \<in> union_points m a n b" "link_class a k = v"
    proof (cases "k \<in> currentpoints st")
      case True
      then show ?thesis by (auto simp: settled_def Let_def k)
    next
      case n: False
      then have "A st i j = v" using assms u by (auto simp: grow_ok_def link_class_def k)
      then have "if both then ea st i \<or> fa st j else ea st i \<and> fa st j" using False u(1) assms by (auto simp: grow_ok_def)
      then show ?thesis using assms by (auto simp: grow_ok_def settled_def Let_def k split: if_splits)
    qed
    then show ?thesis using same assms by simp
  qed
qed

lemma final_pass_keeps:
  assumes "grow_ok m a n b st"
  shows "grow_ok m a n b (final_pass both m n v st) \<and> currentpoints st \<subseteq> currentpoints (final_pass both m n v st) \<and>
    (\<forall>k \<in> union_points m a n b. link_class a k = v \<longrightarrow> settled both (currentpoints (final_pass both m n v st)) k)"
proof -
  have "grow_ok m a n b (fold (final_point both v) ks st) \<and> currentpoints st \<subseteq> currentpoints (fold (final_point both v) ks st) \<and>
    (\<forall>k \<in> union_points m a n b \<inter> set ks. link_class a k = v \<longrightarrow> settled both (currentpoints (fold (final_point both v) ks st)) k)"
    for ks
  proof (induction ks rule: rev_induct)
    case (snoc k ks)
    let ?st = "fold (final_point both v) ks st"
    note kp = final_point_keeps [OF conjunct1 [OF snoc.IH], of both v k]
    have f: "fold (final_point both v) (ks @ [k]) st = final_point both v k ?st" by simp
    have "settled both (currentpoints (final_point both v k ?st)) k'"
      if "k' \<in> union_points m a n b \<inter> set (ks @ [k])" "link_class a k' = v" for k'
    proof (cases "k' = k")
      case True
      then show ?thesis using kp that by blast
    next
      case False
      then have "settled both (currentpoints ?st) k'" using snoc.IH that by auto
      then show ?thesis using settled_mono kp by blast
    qed
    then show ?case unfolding f using kp snoc.IH by blast
  qed (use assms in simp)
  moreover have "union_points m a n b \<subseteq> set (matrix_points n m)" by (auto simp: union_points_def matrix_points_set)
  ultimately show ?thesis unfolding final_pass_def by blast
qed

lemma grow_loop_ok:
  assumes "wf_als m a n b"
  shows "grow_ok m a n b (grow_loop diagonal m a n b (grow_start m a n b))"
  by (rule grow_loop_keeps [of "grow_ok m a n b"])
    (use grow_start_ok [OF assms] in \<open>auto intro: add_point_ok may_add_union\<close>)

lemma grow_alignment_ok:
  assumes "wf_als m a n b"
  shows "grow_ok m a n b (grow_alignment diagonal final both m a n b) \<and>
    (final \<longrightarrow> (\<forall>k \<in> union_points m a n b. settled both (currentpoints (grow_alignment diagonal final both m a n b)) k))"
proof (cases final)
  case True
  let ?st = "grow_loop diagonal m a n b (grow_start m a n b)"
  let ?st1 = "final_pass both m n 1 ?st"
  note one = final_pass_keeps [OF grow_loop_ok [OF assms], of both 1 diagonal]
  note two = final_pass_keeps [OF conjunct1 [OF one], of both "-1"]
  have r: "grow_alignment diagonal final both m a n b = final_pass both m n (-1) ?st1"
    using True by (simp add: grow_alignment_def Let_def)
  have "settled both (currentpoints (final_pass both m n (-1) ?st1)) k" if "k \<in> union_points m a n b" for k
  proof (cases "link_class a k = 1")
    case True
    then show ?thesis using one two that settled_mono by blast
  next
    case False
    then have "link_class a k = -1" by (simp add: link_class_def split: if_splits)
    then show ?thesis using two that by blast
  qed
  then show ?thesis unfolding r using two by blast
qed (use grow_loop_ok [OF assms] in \<open>simp add: grow_alignment_def\<close>)


text \<open>Every point the loop adds is added by the rule.\<close>

lemma grow_loop_rule:
  assumes wf: "wf_als m a n b"
  shows "(grow_rule diagonal (union_points m a n b))\<^sup>*\<^sup>* (intersection_points m a n b)
    (currentpoints (grow_loop diagonal m a n b (grow_start m a n b)))"
proof -
  let ?R = "grow_rule diagonal (union_points m a n b)" and ?I = "intersection_points m a n b"
  have "grow_ok m a n b (grow_loop diagonal m a n b (grow_start m a n b)) \<and>
      ?R\<^sup>*\<^sup>* ?I (currentpoints (grow_loop diagonal m a n b (grow_start m a n b)))"
  proof (rule grow_loop_keeps [of "\<lambda>st. grow_ok m a n b st \<and> ?R\<^sup>*\<^sup>* ?I (currentpoints st)"])
    show "grow_ok m a n b (grow_start m a n b) \<and> ?R\<^sup>*\<^sup>* ?I (currentpoints (grow_start m a n b))"
      using grow_start_ok [OF wf] by auto
  next
    fix st :: grow_state and k q
    assume st: "grow_ok m a n b st \<and> ?R\<^sup>*\<^sup>* ?I (currentpoints st)" "k \<in> currentpoints st" "adjacent diagonal k q"
      "may_add m a n b q st"
    have q: "q \<in> union_points m a n b" "\<not> settled False (currentpoints st) q"
      using may_add_iff [of m a n b st q] st(1,4) by simp_all
    then have "?R (currentpoints st) (insert q (currentpoints st))" by (rule grow_add [OF st(2,3)])
    then show "grow_ok m a n b (add_point q st) \<and> ?R\<^sup>*\<^sup>* ?I (currentpoints (add_point q st))"
      using st(1) q(1) by (auto intro: add_point_ok rtranclp.rtrancl_into_rtrancl)
  qed
  then show ?thesis ..
qed

section \<open>What the reader of the alignment sees\<close>

lemma digit_char_value: "d < 10 \<Longrightarrow> is_digit (digit_char d) \<and> of_char (digit_char d) = (48 + d :: nat)"
  by (simp add: digit_char_def is_digit_def)

lemma show_nat_digits: "show_nat n \<noteq> [] \<and> list_all is_digit (show_nat n) \<and> digits_value (show_nat n) = int n"
proof (induction n rule: show_nat.induct)
  case (1 n)
  have v: "of_char (digit_char d) - 48 = int d" if "d < 10" for d
  proof -
    have "(of_char (digit_char d) :: int) = int (of_char (digit_char d) :: nat)" by (rule of_nat_of_char [symmetric])
    then show ?thesis using digit_char_value [OF that] by simp
  qed
  show ?case
  proof (cases "n < 10")
    case True
    then show ?thesis using digit_char_value [OF True] v [OF True]
      by (simp add: show_nat.simps [of n] digits_value_def)
  next
    case False
    have "10 * (n div 10) + n mod 10 = n" by simp
    then have "10 * int (n div 10) + int (n mod 10) = int n" by linarith
    moreover have "n mod 10 < 10" by simp
    ultimately show ?thesis using 1 [OF False] False digit_char_value [of "n mod 10"] v [of "n mod 10"]
      by (simp add: show_nat.simps [of n] digits_value_def)
  qed
qed


lemma digit_facts: "is_digit c \<Longrightarrow> \<not> is_space c \<and> c \<noteq> CHR ''-'' \<and> c \<noteq> CHR ''+'' \<and> c \<noteq> CHR '' '' \<and> c \<noteq> CHR 0x09"
  by (auto simp: is_digit_def is_space_def)

lemma takeWhile_digits: "list_all is_digit ds \<Longrightarrow> \<not> is_digit c \<Longrightarrow> takeWhile is_digit (ds @ c # r) = ds \<and> dropWhile is_digit (ds @ c # r) = c # r"
  by (induction ds) auto

lemma scan_int_digits:
  assumes "ds \<noteq> []" "list_all is_digit ds" "r = [] \<or> \<not> is_digit (hd r)"
  shows "scan_int (ds @ r) = Some (digits_value ds, r)"
proof -
  obtain d ds' where ds: "ds = d # ds'" using assms(1) by (cases ds) auto
  have d: "is_digit d" using assms(2) ds by simp
  have "takeWhile is_digit (ds @ r) = ds \<and> dropWhile is_digit (ds @ r) = r"
  proof (cases r)
    case Nil
    then show ?thesis using assms(2) by (simp add: list_all_iff takeWhile_eq_all_conv dropWhile_eq_Nil_conv)
  next
    case (Cons c cs)
    then show ?thesis using takeWhile_digits [OF assms(2)] assms(3) by simp
  qed
  then show ?thesis using digit_facts [OF d] by (simp add: ds scan_int_def Let_def)
qed

definition point_token :: "int \<times> int \<Rightarrow> string" where
  "point_token p = show_int (fst p) @ ''-'' @ show_int (snd p)"

lemma show_int_nonneg: "0 \<le> x \<Longrightarrow> show_int x \<noteq> [] \<and> list_all is_digit (show_int x) \<and> digits_value (show_int x) = x"
  using show_nat_digits [of "nat x"] by (simp add: show_int_def)

lemma scan_point_token:
  assumes "0 \<le> x" "0 \<le> y"
  shows "scan_point (point_token (x, y)) = Both x y"
proof -
  note dx = show_int_nonneg [OF assms(1)] and dy = show_int_nonneg [OF assms(2)]
  have "\<not> is_digit (CHR ''-'')" by (simp add: is_digit_def)
  then have one: "scan_int (show_int x @ ''-'' @ show_int y) = Some (x, ''-'' @ show_int y)"
    using scan_int_digits [of "show_int x" "''-'' @ show_int y"] dx by simp
  have two: "scan_int (show_int y) = Some (y, [])" using scan_int_digits [of "show_int y" "[]"] dy by simp
  obtain d ds where "show_int x = d # ds" "is_digit d" using dx by (cases "show_int x") auto
  then have "dropWhile is_space (show_int x @ ''-'' @ show_int y) \<noteq> []" using digit_facts by simp
  then show ?thesis unfolding scan_point_def point_token_def fst_conv snd_conv by (simp add: one [simplified] two)
qed

definition no_blank :: "string \<Rightarrow> bool" where
  "no_blank w \<longleftrightarrow> w \<noteq> [] \<and> list_all (\<lambda>c. c \<noteq> CHR '' '' \<and> c \<noteq> CHR 0x09) w"

lemma no_blank_token: "0 \<le> x \<Longrightarrow> 0 \<le> y \<Longrightarrow> no_blank (point_token (x, y))"
  using show_int_nonneg [of x] show_int_nonneg [of y] digit_facts
  by (auto simp: no_blank_def point_token_def list_all_iff)

lemma table_tokens_word:
  "list_all (\<lambda>c. c \<noteq> CHR '' '' \<and> c \<noteq> CHR 0x09) w \<Longrightarrow> table_tokens (w @ r) v False = table_tokens r (v @ w) False"
  by (induction w arbitrary: v) (auto simp: Let_def)

lemma table_tokens_start:
  assumes "no_blank w"
  shows "table_tokens (w @ r) [] True = table_tokens r w False"
proof -
  obtain c cs where w: "w = c # cs" "list_all (\<lambda>c. c \<noteq> CHR '' '' \<and> c \<noteq> CHR 0x09) (c # cs)"
    using assms by (cases w) (auto simp: no_blank_def)
  then show ?thesis using table_tokens_word [of cs r "[c]"] by (simp add: Let_def)
qed

lemma table_tokens_blank: "table_tokens s w True = table_tokens s [] True"
  by (induction s arbitrary: w) (simp_all add: Let_def)

lemma tokenize_words: "list_all no_blank ws \<Longrightarrow> table_tokenize (butlast (concat (map (\<lambda>w. w @ '' '') ws))) = ws"
proof (induction ws)
  case (Cons w ws)
  show ?case
  proof (cases ws)
    case Nil
    then show ?thesis using table_tokens_start [of w "[]"] Cons.prems by (simp add: table_tokenize_def butlast_append)
  next
    case (Cons v vs)
    have ne: "concat (map (\<lambda>w. w @ '' '') ws) \<noteq> []" using Cons by simp
    have "table_tokenize (butlast (concat (map (\<lambda>w. w @ '' '') (w # ws)))) =
        table_tokens (w @ '' '' @ butlast (concat (map (\<lambda>w. w @ '' '') ws))) [] True"
      using ne by (simp add: table_tokenize_def butlast_append)
    also have "\<dots> = w # table_tokens (butlast (concat (map (\<lambda>w. w @ '' '') ws))) [] True"
      using table_tokens_start [of w "'' '' @ butlast (concat (map (\<lambda>w. w @ '' '') ws))"] Cons.prems by (simp add: Let_def)
    finally show ?thesis using Cons.IH Cons.prems by (simp add: table_tokenize_def)
  qed
qed (simp add: table_tokenize_def)


lemma read_points_links:
  assumes "\<forall>(s, t) \<in> set ps. 0 \<le> s \<and> s < int (length (sa_source sa)) \<and> 0 \<le> t \<and> t < int (length (sa_target sa))"
    and "length (alignedToT sa) = length (sa_target sa)"
  shows "\<exists>sa'. read_points (map point_token ps) sa = Some (True, sa') \<and>
    sa_source sa' = sa_source sa \<and> sa_target sa' = sa_target sa \<and>
    (\<forall>f e. linked sa' f e \<longleftrightarrow> linked sa f e \<or> (f, e) \<in> set ps)"
  using assms
proof (induction ps arbitrary: sa)
  case (Cons p ps)
  obtain s t where p: "p = (s, t)" by force
  have b: "0 \<le> s" "s < int (length (sa_source sa))" "0 \<le> t" "t < int (length (sa_target sa))" using Cons.prems(1) p by auto
  let ?sa = "sa\<lparr>alignedToT := (alignedToT sa)[nat t := alignedToT sa ! nat t @ [s]],
      alignedCountS := (alignedCountS sa)[nat s := alignedCountS sa ! nat s + 1]\<rparr>"
  have "read_points (map point_token (p # ps)) sa = read_points (map point_token ps) ?sa"
    using scan_point_token [OF b(1,3)] b by (simp add: p out_of_size_def)
  moreover have "linked ?sa f e \<longleftrightarrow> linked sa f e \<or> (f, e) = (s, t)" for f e
    using b Cons.prems(2) by (auto simp: linked_def nth_list_update nat_eq_iff)
  moreover have "\<exists>sa'. read_points (map point_token ps) ?sa = Some (True, sa') \<and>
    sa_source sa' = sa_source ?sa \<and> sa_target sa' = sa_target ?sa \<and>
    (\<forall>f e. linked sa' f e \<longleftrightarrow> linked ?sa f e \<or> (f, e) \<in> set ps)"
    by (rule Cons.IH) (use Cons.prems in auto)
  ultimately show ?case unfolding p by auto
qed simp

lemma written_line_is_read:
  assumes "set ks \<subseteq> {1..n} \<times> {1..m}" "int (length (table_tokenize targetString)) = n" "int (length (table_tokenize sourceString)) = m"
    and "1 \<le> n" "1 \<le> m"
  shows "\<exists>sa. SentenceAlignmentCreate targetString sourceString
      (butlast (fix_last_blank (concat (map (\<lambda>(i, j). write_point j i) ks)))) sid = Some (True, sa) \<and>
    sa_source sa = table_tokenize sourceString \<and> sa_target sa = table_tokenize targetString \<and>
    (\<forall>f e. linked sa f e \<longleftrightarrow> (e + 1, f + 1) \<in> set ks)"
proof -
  let ?ps = "map (\<lambda>(i, j). (j - 1, i - 1)) ks" and ?t = "table_tokenize targetString" and ?s = "table_tokenize sourceString"
  let ?sa = "\<lparr>sa_target = ?t, sa_source = ?s, alignedCountS = replicate (length ?s) 0,
      alignedToT = replicate (length ?t) [], sentenceID = sid\<rparr>"
  have line: "concat (map (\<lambda>(i, j). write_point j i) ks) = concat (map (\<lambda>w. w @ '' '') (map point_token ?ps))"
    by (induction ks) (auto simp: write_point_def point_token_def)
  have "list_all no_blank (map point_token ?ps)" using assms(1) no_blank_token by (force simp: list_all_iff)
  then have tok: "table_tokenize (butlast (concat (map (\<lambda>w. w @ '' '') (map point_token ?ps)))) = map point_token ?ps"
    by (rule tokenize_words)
  have "butlast (fix_last_blank str) = butlast str" for str by (simp add: fix_last_blank_def)
  then have toks: "table_tokenize (butlast (fix_last_blank (concat (map (\<lambda>(i, j). write_point j i) ks)))) = map point_token ?ps"
    unfolding line tok by (simp only: tok)
  have range: "\<forall>(s, t) \<in> set ?ps. 0 \<le> s \<and> s < int (length (sa_source ?sa)) \<and> 0 \<le> t \<and> t < int (length (sa_target ?sa))"
    using assms(1-3) by auto
  have "\<not> linked ?sa f e" for f e by (auto simp: linked_def)
  then obtain sa where sa: "read_points (map point_token ?ps) ?sa = Some (True, sa)" "sa_source sa = ?s" "sa_target sa = ?t"
      "\<forall>f e. linked sa f e \<longleftrightarrow> (f, e) \<in> set ?ps"
    using read_points_links [OF range] by auto
  have "(f, e) \<in> set ?ps \<longleftrightarrow> (e + 1, f + 1) \<in> set ks" for f e by force
  moreover have "SentenceAlignmentCreate targetString sourceString
      (butlast (fix_last_blank (concat (map (\<lambda>(i, j). write_point j i) ks)))) sid = Some (True, sa)"
    using sa(1) assms(2-5) unfolding SentenceAlignmentCreate_def toks Let_def by auto
  ultimately show ?thesis using sa by auto
qed


lemma read_numbers_got: "read_numbers k ok s = Got is r \<Longrightarrow> length is = k \<and> list_all ok is"
  by (induction k arbitrary: s "is" r) (auto simp: and_then_def split: reading.splits if_splits)

lemma and_then_Got: "and_then r f = Got y t \<longleftrightarrow> (\<exists>x s. r = Got x s \<and> f x s = Got y t)"
  by (cases r) (simp_all add: and_then_def)

lemma getals_wf:
  assumes "getals inp = Got (m, a, n, b) rest"
  shows "wf_als m a n b \<and> length a = nat m + 1 \<and> length b = nat n + 1 \<and> m < MAX_M \<and> n < MAX_N"
proof -
  obtain a' b' s1 s2 s3 s4 where r: "read_numbers (nat n) (\<lambda>i. True) s1 = Got b' s2" "n < MAX_N" "m < MAX_M"
      "read_numbers (nat m) (\<lambda>i. 0 \<le> i \<and> i \<le> n) s3 = Got a' s4" "list_all (\<lambda>i. 0 \<le> i \<and> i \<le> m) b'"
      "a = 0 # a'" "b = 0 # b'"
    using assms unfolding getals_def by (auto simp: and_then_Got split: option.splits if_splits)
  note ra = read_numbers_got [OF r(4)] and rb = read_numbers_got [OF r(1)]
  have "entry a j = a' ! nat (j - 1) \<and> nat (j - 1) < length a'" if "j \<in> {1..m}" for j
  proof -
    have "nat j = Suc (nat (j - 1))" using that by auto
    then show ?thesis using that ra r(6) by (auto simp: entry_def)
  qed
  moreover have "entry b i = b' ! nat (i - 1) \<and> nat (i - 1) < length b'" if "i \<in> {1..n}" for i
  proof -
    have "nat i = Suc (nat (i - 1))" using that by auto
    then show ?thesis using that rb r(7) by (auto simp: entry_def)
  qed
  ultimately have "wf_als m a n b" using ra r(5) unfolding wf_als_def list_all_length by metis
  then show ?thesis using ra rb r by simp
qed

section \<open>Properties\<close>

text \<open>for every aligned pair the reader accepts, the grow alignment contains the intersection and lies in the union
  of the two directions; with the last step, both words of every link of the union have a link, or at least
  one of them with \<open>bothuncovered\<close>.
\<close>

theorem grow_between_intersection_and_union:
  assumes "getals inp = Got (m, a, n, b) rest"
  shows "intersection_points m a n b \<subseteq> currentpoints (grow_alignment diagonal final bothuncovered m a n b) \<and>
    currentpoints (grow_alignment diagonal final bothuncovered m a n b) \<subseteq> union_points m a n b \<and>
    (final \<longrightarrow> (\<forall>k \<in> union_points m a n b.
       settled bothuncovered (currentpoints (grow_alignment diagonal final bothuncovered m a n b)) k))"
  using grow_alignment_ok [OF conjunct1 [OF getals_wf [OF assms]], of diagonal final bothuncovered]
  unfolding grow_ok_def by blast

text \<open>C37: the loop of the grow alignment ends with a normal form of the rule of the heuristic: its points are reached
  from the intersection by adding, one at a time, a link of the union that is next to a point and has a word not covered
  at that moment, and no further link may be added. The rule knows neither the marks the loop keeps of the covered words
  nor its order of the points and the neighbours.
\<close>

theorem grow_closed:
  assumes "getals inp = Got (m, a, n, b) rest"
    and "points = currentpoints (grow_alignment diagonal False bothuncovered m a n b)"
  shows "(grow_rule diagonal (union_points m a n b))\<^sup>*\<^sup>* (intersection_points m a n b) points \<and>
    (\<nexists>points'. grow_rule diagonal (union_points m a n b) points points')"
proof
  let ?st = "grow_loop diagonal m a n b (grow_start m a n b)"
  have wf: "wf_als m a n b" using getals_wf [OF assms(1)] by simp
  have ok: "grow_ok m a n b ?st" by (rule grow_loop_ok [OF wf])
  have pts: "points = currentpoints ?st" using assms(2) by (simp add: grow_alignment_def)
  show "(grow_rule diagonal (union_points m a n b))\<^sup>*\<^sup>* (intersection_points m a n b) points"
    unfolding pts by (rule grow_loop_rule [OF wf])
  show "\<nexists>points'. grow_rule diagonal (union_points m a n b) points points'"
  proof
    assume "\<exists>points'. grow_rule diagonal (union_points m a n b) points points'"
    then obtain p q where p: "p \<in> points" "adjacent diagonal p q"
        and q: "q \<in> union_points m a n b" "\<not> settled False points q"
      by (blast elim: grow_ruleE)
    have "p \<in> union_points m a n b" using p(1) ok unfolding pts grow_ok_def by (elim conjE) (erule subsetD)
    then have "p \<in> {1..n} \<times> {1..m}" by (auto simp: union_points_def)
    then have "\<not> may_add m a n b q ?st" using grow_loop_stops [OF _ _ p(2)] p(1) unfolding pts by simp
    then show False using may_add_iff [OF ok] q unfolding pts by simp
  qed
qed

text \<open>C32: the line written for the grow alignment is a line phrase extraction accepts for the two sentences, and the
  links it reads from it are the points of the alignment.
\<close>

theorem symal_line_is_read_by_extract:
  assumes "getals inp = Got (m, a, n, b) rest" "1 \<le> m" "1 \<le> n"
    and "int (length (table_tokenize targetString)) = n" "int (length (table_tokenize sourceString)) = m"
  shows "\<exists>line sa. printgrow m a n b diagonal final bothuncovered = Some (line @ ''\<newline>'') \<and>
    SentenceAlignmentCreate targetString sourceString line sid = Some (True, sa) \<and>
    (\<forall>f e. linked sa f e \<longleftrightarrow> (e + 1, f + 1) \<in> currentpoints (grow_alignment diagonal final bothuncovered m a n b))"
proof -
  let ?pts = "currentpoints (grow_alignment diagonal final bothuncovered m a n b)"
  let ?ks = "filter (\<lambda>k. k \<in> ?pts) (matrix_points n m)"
  let ?str = "concat (map (\<lambda>(i, j). write_point j i) ?ks)"
  have "?pts \<subseteq> union_points m a n b"
    using grow_alignment_ok [OF conjunct1 [OF getals_wf [OF assms(1)]], of diagonal final bothuncovered] unfolding grow_ok_def by blast
  also have "\<dots> \<subseteq> set (matrix_points n m)" by (auto simp: union_points_def matrix_points_set)
  finally have ks: "set ?ks = ?pts" by auto
  have range: "set ?ks \<subseteq> {1..n} \<times> {1..m}" by (auto simp: matrix_points_set)
  obtain sa where sa: "SentenceAlignmentCreate targetString sourceString (butlast (fix_last_blank ?str)) sid = Some (True, sa)"
      "\<forall>f e. linked sa f e \<longleftrightarrow> (e + 1, f + 1) \<in> set ?ks"
    using written_line_is_read [OF range assms(4,5,3,2)] by metis
  have "printgrow m a n b diagonal final bothuncovered = Some (butlast (fix_last_blank ?str) @ ''\<newline>'')"
    using assms(2,3) by (simp add: printgrow_def fix_last_blank_def)
  then show ?thesis using sa unfolding ks by blast
qed

definition sample_giza :: string where
  "sample_giza = ''1 3 x y z  # 1 3 3 3 a b c  # 1 2 0''"

lemma words_numeral: "skip_words (numeral k) s = and_then (skip_word s) (\<lambda>_ s. skip_words (pred_numeral k) s)"
  by (simp add: numeral_eq_Suc)

lemma numbers_numeral:
  "read_numbers (numeral k) ok s = and_then (read_number s) (\<lambda>i s. if \<not> ok i then AssertionFails
     else and_then (read_numbers (pred_numeral k) ok s) (\<lambda>is s. Got (i # is) s))"
  by (simp add: numeral_eq_Suc)

lemma sample_getals: "getals sample_giza = Got (3, [0, 1, 2, 0], 3, [0, 1, 3, 3]) []"
  by (simp add: sample_giza_def getals_def and_then_def scan_int_def read_number_def words_numeral numbers_numeral
      skip_word_def skip_separator_def is_space_def is_digit_def digits_value_def Let_def MAX_M_def MAX_N_def MAX_WORD_def)

theorem grow_between_intersection_and_union_witness:
  "(1, 1) \<in> currentpoints (grow_alignment True True False 3 [0, 1, 2, 0] 3 [0, 1, 3, 3])"
  using grow_between_intersection_and_union [OF sample_getals, of True True False]
  by (auto simp: intersection_points_def entry_def)

theorem grow_closed_witness:
  "\<exists>i. (i, 2) \<in> currentpoints (grow_alignment True False False 3 [0, 1, 2, 0] 3 [0, 1, 3, 3])"
proof -
  let ?p = "currentpoints (grow_alignment True False False 3 [0, 1, 2, 0] 3 [0, 1, 3, 3])"
  let ?R = "grow_rule True (union_points 3 [0, 1, 2, 0] 3 [0, 1, 3, 3])"
  have c: "?R\<^sup>*\<^sup>* (intersection_points 3 [0, 1, 2, 0] 3 [0, 1, 3, 3]) ?p" "\<nexists>points'. ?R ?p points'"
    using grow_closed [OF sample_getals refl, of True False] by simp_all
  have "s \<subseteq> t" if "?R\<^sup>*\<^sup>* s t" for s t using that by (induction rule: rtranclp.induct) (auto elim: grow_ruleE)
  then have "intersection_points 3 [0, 1, 2, 0] 3 [0, 1, 3, 3] \<subseteq> ?p" using c(1) .
  moreover have "(1, 1) \<in> intersection_points 3 [0, 1, 2, 0] 3 [0, 1, 3, 3]" by (simp add: intersection_points_def entry_def)
  ultimately have "(1, 1) \<in> ?p" by (rule subsetD)
  moreover have "adjacent True (1, 1) (2, 2)" "(2, 2) \<in> union_points 3 [0, 1, 2, 0] 3 [0, 1, 3, 3]"
    by (simp_all add: adjacent_def union_points_def entry_def)
  ultimately have "settled False ?p (2, 2)" using c(2) grow_add [of "(1, 1)" ?p True "(2, 2)"] by blast
  then show ?thesis by (simp add: settled_def)
qed

theorem symal_line_is_read_by_extract_witness:
  "\<exists>line sa. printgrow 3 [0, 1, 2, 0] 3 [0, 1, 3, 3] True True False = Some (line @ ''\<newline>'') \<and>
    SentenceAlignmentCreate ''x y z'' ''a b c'' line 1 = Some (True, sa)"
proof -
  have "int (length (table_tokenize ''x y z'')) = 3" "int (length (table_tokenize ''a b c'')) = 3" by code_simp+
  then show ?thesis using symal_line_is_read_by_extract [OF sample_getals, of "''x y z''" "''a b c''" True True False 1] by auto
qed


end
