(* ===== verification/Language_Model.thy ===== *)
theory Language_Model
  imports Search_Normal
begin

text \<open>
  The scores of n-gram language models (\<open>LM/Implementation.cpp\<close>): a phrase on its own, and a hypothesis,
  for which only the n-grams that overlap its start are scored and the end of the sentence when it is
  complete. The model itself, a state from the n-gram queried last and a score for it, is behind virtual
  functions and is a parameter. \<open>None\<close> is a failed assertion or a word beyond the first hypothesis.
\<close>

section \<open>Models\<close>

text \<open>
  \<open>GetValueGivenState\<close> and \<open>GetValueForgotState\<close> return the score, whether the last word is unknown, and
  the new state; only the first reads a state. The order is at least 1.
\<close>

record 's lm_impl =
  nGramOrder :: nat
  sentenceStart :: word
  sentenceEnd :: word
  GetValueGivenState :: "word list \<Rightarrow> 's \<Rightarrow> (rat \<times> bool) \<times> 's"
  GetValueForgotState :: "word list \<Rightarrow> (rat \<times> bool) \<times> 's"
  LMGetState :: "word list \<Rightarrow> 's"
  GetNullContextState :: 's
  GetBeginSentenceState :: 's

text \<open>The functions of the base class, which a model that keeps nothing but its state does not override.\<close>

definition default_impl :: "nat \<Rightarrow> word \<Rightarrow> word \<Rightarrow> (word list \<Rightarrow> (rat \<times> bool) \<times> 's) \<Rightarrow> 's \<Rightarrow> 's \<Rightarrow> 's lm_impl" where
  "default_impl order sos eos forgot nullState beginState =
     \<lparr>nGramOrder = order, sentenceStart = sos, sentenceEnd = eos, GetValueGivenState = (\<lambda>ctxt s. forgot ctxt),
      GetValueForgotState = forgot, LMGetState = (\<lambda>ctxt. snd (forgot ctxt)),
      GetNullContextState = nullState, GetBeginSentenceState = beginState\<rparr>"

section \<open>The score of a phrase\<close>

definition shift_in :: "nat \<Rightarrow> word list \<Rightarrow> word \<Rightarrow> word list" where
  "shift_in n ctxt word = (fold (\<lambda>i c. c[i := c ! (i + 1)]) [0..<n - 1] ctxt)[n - 1 := word]"

definition ShiftOrPush :: "nat \<Rightarrow> word list \<Rightarrow> word \<Rightarrow> word list" where
  "ShiftOrPush n ctxt word = (if length ctxt < n then ctxt @ [word] else shift_in n ctxt word)"

fun calc_words ::
    "'s lm_impl \<Rightarrow> nat \<Rightarrow> word list \<Rightarrow> word list \<Rightarrow> 's \<Rightarrow> rat \<times> rat \<times> nat \<Rightarrow> (rat \<times> rat \<times> nat) option" where
  "calc_words lm currPos [] ctxt st acc = Some acc"
| "calc_words lm currPos (word # ws) ctxt st (fullScore, ngramScore, oovCount) =
     (if m_isNonTerminal word
      then (if ctxt \<noteq> [] then calc_words lm (currPos + 1) ws [] (GetNullContextState lm) (fullScore, ngramScore, oovCount)
            else calc_words lm (currPos + 1) ws ctxt st (fullScore, ngramScore, oovCount))
      else let ctxt = ShiftOrPush (nGramOrder lm) ctxt word
           in if \<not> length ctxt \<le> nGramOrder lm then None
              else if WordCompare word (sentenceStart lm) = 0
              then (if currPos = 0 then calc_words lm (currPos + 1) ws ctxt st (fullScore, ngramScore, oovCount) else None)
              else case GetValueGivenState lm ctxt st of ((s, unknown), st) \<Rightarrow>
                calc_words lm (currPos + 1) ws ctxt st
                  (fullScore + s, if length ctxt = nGramOrder lm then ngramScore + s else ngramScore,
                   if unknown then oovCount + 1 else oovCount))"

definition LMCalcScore :: "'s lm_impl \<Rightarrow> phrase \<Rightarrow> (rat \<times> rat \<times> nat) option" where
  "LMCalcScore lm phrase =
     (if length phrase = 0 then Some (0, 0, 0)
      else calc_words lm 0 phrase []
        (if WordCompare (phrase ! 0) (sentenceStart lm) = 0 then GetBeginSentenceState lm else GetNullContextState lm) (0, 0, 0))"

section \<open>The score of a hypothesis\<close>

text \<open>The words at positions of the output; positions before the sentence hold the start symbol.\<close>

definition words_at :: "'s lm_impl \<Rightarrow> 'st hypothesis \<Rightarrow> int \<Rightarrow> int \<Rightarrow> word list option" where
  "words_at lm hypo first final =
     those (map (\<lambda>pos. if pos \<ge> 0 then HypoGetWord (nat pos) hypo else Some (sentenceStart lm)) [first..final])"

fun shift_words :: "'s lm_impl \<Rightarrow> 'st hypothesis \<Rightarrow> nat list \<Rightarrow> word list \<Rightarrow> word list option" where
  "shift_words lm hypo [] ctxt = Some ctxt"
| "shift_words lm hypo (pos # ps) ctxt =
     (case HypoGetWord pos hypo of
        None \<Rightarrow> None
      | Some w \<Rightarrow> shift_words lm hypo ps (shift_in (nGramOrder lm) ctxt w))"

fun score_words :: "'s lm_impl \<Rightarrow> 'st hypothesis \<Rightarrow> nat list \<Rightarrow> word list \<Rightarrow> 's \<Rightarrow> rat \<Rightarrow> (word list \<times> 's \<times> rat) option" where
  "score_words lm hypo [] ctxt res lmScore = Some (ctxt, res, lmScore)"
| "score_words lm hypo (pos # ps) ctxt res lmScore =
     (case HypoGetWord pos hypo of
        None \<Rightarrow> None
      | Some w \<Rightarrow>
          let ctxt = shift_in (nGramOrder lm) ctxt w
          in case GetValueGivenState lm ctxt res of ((s, unknown), res) \<Rightarrow>
               score_words lm hypo ps ctxt res (lmScore + s))"

text \<open>The state and the score; a unigram model returns no state and scores nothing here.\<close>

definition overlap_score :: "'s lm_impl \<Rightarrow> 'st hypothesis \<Rightarrow> 's option \<Rightarrow> ('s option \<times> rat) option" where
  "overlap_score lm hypo ps =
     (if nGramOrder lm \<le> 1 then Some (None, 0)
      else if RangeNumWordsCovered (m_currTargetWordsRange (core hypo)) = 0 then Some (ps, 0)
      else
        let n = nGramOrder lm;
            currEndPos = m_endPos (m_currTargetWordsRange (core hypo));
            startPos = m_startPos (m_currTargetWordsRange (core hypo));
            endPos = min (startPos + n - 2) currEndPos
        in case words_at lm hypo (int startPos - int n + 1) (int startPos) of
             None \<Rightarrow> None
           | Some ctxt \<Rightarrow>
               (case (case ps of Some s \<Rightarrow> GetValueGivenState lm ctxt s | None \<Rightarrow> GetValueForgotState lm ctxt) of
                  ((lmScore, unknown), res) \<Rightarrow>
                    (case score_words lm hypo [startPos + 1..<endPos + 1] ctxt res lmScore of
                       None \<Rightarrow> None
                     | Some (ctxt, res, lmScore) \<Rightarrow>
                         if IsComplete (coverage hypo)
                         then (case words_at lm hypo (int (HypoGetSize hypo) - int n + 1) (int (HypoGetSize hypo) - 1) of
                                 None \<Rightarrow> None
                               | Some ctxt \<Rightarrow>
                                   (case GetValueForgotState lm (ctxt @ [sentenceEnd lm]) of
                                      ((s, unknown), res) \<Rightarrow> Some (Some res, lmScore + s)))
                         else if endPos < currEndPos
                         then (case shift_words lm hypo [endPos + 1..<currEndPos + 1] ctxt of
                                 None \<Rightarrow> None
                               | Some ctxt \<Rightarrow> Some (Some (LMGetState lm ctxt), lmScore))
                         else Some (Some res, lmScore))))"

text \<open>As a stateful feature function of the search; without a state nothing is added to the scores.\<close>

definition LMEvaluate ::
    "'s lm_impl \<Rightarrow> score_index_manager \<Rightarrow> nat \<Rightarrow> bool \<Rightarrow> 'st hypothesis \<Rightarrow> 's option \<Rightarrow> score_components \<Rightarrow>
     ('s option \<times> score_components) option" where
  "LMEvaluate lm sim producer oovEnabled hypo ps out =
     (case overlap_score lm hypo ps of
        None \<Rightarrow> None
      | Some (res, lmScore) \<Rightarrow>
          if nGramOrder lm \<le> 1 \<or> RangeNumWordsCovered (m_currTargetWordsRange (core hypo)) = 0 then Some (res, out)
          else (case PlusEqualsProducer sim producer (if oovEnabled then [lmScore, 0] else [lmScore]) out of
                  None \<Rightarrow> None
                | Some out \<Rightarrow> Some (res, out)))"

section \<open>Contexts\<close>

definition lastn :: "nat \<Rightarrow> 'a list \<Rightarrow> 'a list" where
  "lastn n xs = drop (length xs - n) xs"

lemma lastn_length [simp]: "length (lastn n xs) = min n (length xs)"
  by (simp add: lastn_def)

lemma lastn_snoc: "n \<ge> 1 \<Longrightarrow> lastn n (xs @ [x]) = (if length xs < n then xs @ [x] else tl (lastn n xs) @ [x])"
  by (auto simp: lastn_def drop_Suc [symmetric] Suc_diff_le tl_drop drop_tl)

lemma lastn_short: "length xs \<le> n \<Longrightarrow> lastn n xs = xs"
  by (simp add: lastn_def)

lemma lastn_append: "n \<le> length ys \<Longrightarrow> lastn n (xs @ ys) = lastn n ys"
  by (simp add: lastn_def)

lemma shift_fold:
  "k < length c \<Longrightarrow> fold (\<lambda>i c. c[i := c ! (i + 1)]) [0..<k] c = map (\<lambda>i. if i < k then c ! (i + 1) else c ! i) [0..<length c]"
proof (induction k)
  case 0
  then show ?case by (simp add: map_nth)
next
  case (Suc k)
  then show ?case by (auto intro!: nth_equalityI simp: nth_list_update)
qed

lemma shift_in_full: "n \<ge> 1 \<Longrightarrow> length c = n \<Longrightarrow> shift_in n c w = tl c @ [w]"
  unfolding shift_in_def by (subst shift_fold) (auto intro!: nth_equalityI simp: nth_append nth_tl nth_list_update)

lemma ShiftOrPush_lastn: "n \<ge> 1 \<Longrightarrow> ShiftOrPush n (lastn n xs) w = lastn n (xs @ [w])"
  by (simp add: ShiftOrPush_def lastn_snoc shift_in_full lastn_short)

text \<open>The n-gram that ends at position \<open>k\<close> of a sentence, padded with start symbols.\<close>

definition ngram_at :: "'s lm_impl \<Rightarrow> phrase \<Rightarrow> nat \<Rightarrow> word list" where
  "ngram_at lm ws k = lastn (nGramOrder lm) (replicate (nGramOrder lm) (sentenceStart lm) @ take (k + 1) ws)"

definition final_ngram :: "'s lm_impl \<Rightarrow> phrase \<Rightarrow> word list" where
  "final_ngram lm ws =
     lastn (nGramOrder lm) (replicate (nGramOrder lm) (sentenceStart lm) @ ws @ [sentenceEnd lm])"

definition ngram_score :: "'s lm_impl \<Rightarrow> word list \<Rightarrow> rat" where
  "ngram_score lm ctxt = fst (fst (GetValueForgotState lm ctxt))"

lemma ngram_at_length [simp]: "length (ngram_at lm ws k) = nGramOrder lm"
  by (simp add: ngram_at_def)

lemma ngram_at_Suc:
  "nGramOrder lm \<ge> 1 \<Longrightarrow> Suc k < length ws \<Longrightarrow> ngram_at lm ws (Suc k) = tl (ngram_at lm ws k) @ [ws ! Suc k]"
proof -
  assume n: "nGramOrder lm \<ge> 1" and k: "Suc k < length ws"
  have "take (Suc (Suc k)) ws = take (Suc k) ws @ [ws ! Suc k]" using k by (rule take_Suc_conv_app_nth)
  then have "ngram_at lm ws (Suc k) =
      lastn (nGramOrder lm) ((replicate (nGramOrder lm) (sentenceStart lm) @ take (Suc k) ws) @ [ws ! Suc k])"
    by (simp add: ngram_at_def)
  then show ?thesis unfolding lastn_snoc [OF n] by (simp add: ngram_at_def)
qed

lemma ngram_at_nth:
  assumes "k < length ws" "i < nGramOrder lm"
  shows "ngram_at lm ws k ! i = (if k + 1 + i < nGramOrder lm then sentenceStart lm else ws ! (k + 1 + i - nGramOrder lm))"
proof -
  have "ngram_at lm ws k = drop (k + 1) (replicate (nGramOrder lm) (sentenceStart lm) @ take (k + 1) ws)"
  proof -
    have "length (replicate (nGramOrder lm) (sentenceStart lm) @ take (k + 1) ws) - nGramOrder lm = k + 1" using assms(1) by simp
    then show ?thesis unfolding ngram_at_def lastn_def by (simp only:)
  qed
  then have "ngram_at lm ws k ! i = (replicate (nGramOrder lm) (sentenceStart lm) @ take (k + 1) ws) ! (k + 1 + i)"
    using assms by (simp only: nth_drop length_append length_replicate length_take)
  then show ?thesis using assms by (auto simp: nth_append)
qed

section \<open>What a model promises\<close>

text \<open>
  The state after an n-gram stands for it: a query with the state of the words before the last one gives
  what a query without a state gives.
\<close>

locale ngram_model =
  fixes lm :: "'s lm_impl"
  assumes order_pos: "1 \<le> nGramOrder lm"
    and get_state: "LMGetState lm c = snd (GetValueForgotState lm c)"
    and given_full: "length c = nGramOrder lm \<Longrightarrow>
      GetValueGivenState lm (tl c @ [w]) (snd (GetValueForgotState lm c)) = GetValueForgotState lm (tl c @ [w])"
    and given_begin: "GetValueGivenState lm (tl (replicate (nGramOrder lm) (sentenceStart lm)) @ [w]) (GetBeginSentenceState lm) =
      GetValueForgotState lm (tl (replicate (nGramOrder lm) (sentenceStart lm)) @ [w])"
    and given_short: "c \<noteq> [] \<Longrightarrow> length c < nGramOrder lm \<Longrightarrow>
      GetValueGivenState lm (c @ [w]) (snd (GetValueForgotState lm c)) = GetValueForgotState lm (c @ [w])"
    and given_null: "GetValueGivenState lm [w] (GetNullContextState lm) = GetValueForgotState lm [w]"
begin

abbreviation n :: nat where
  "n \<equiv> nGramOrder lm"

lemma calc_words_plain:
  assumes "\<forall>w \<in> set ws. \<not> m_isNonTerminal w \<and> WordCompare w (sentenceStart lm) \<noteq> 0"
    and "st = (if ds = [] then GetNullContextState lm else snd (GetValueForgotState lm (lastn n ds)))"
  shows "\<exists>full oov'. calc_words lm pos ws (lastn n ds) st (full0, ng, oov) =
    Some (full, ng + (\<Sum>k \<in> {length ds..<length ds + length ws} \<inter> {k. n \<le> k + 1}. ngram_score lm (lastn n (take (k + 1) (ds @ ws)))), oov')"
  using assms
proof (induction ws arbitrary: pos ds st full0 ng oov)
  case (Cons w ws)
  let ?c = "lastn n (ds @ [w])"
  have "GetValueGivenState lm ?c st = GetValueForgotState lm ?c"
  proof (cases "ds = []")
    case True
    then show ?thesis using Cons.prems(2) given_null order_pos by (simp add: lastn_short)
  next
    case ne: False
    show ?thesis
    proof (cases "length ds < n")
      case True
      then show ?thesis using Cons.prems(2) ne given_short [of ds w] order_pos by (simp add: lastn_snoc lastn_short)
    next
      case False
      then show ?thesis using Cons.prems(2) ne given_full [of "lastn n ds" w] order_pos by (simp add: lastn_snoc)
    qed
  qed
  moreover obtain s u st' where v: "GetValueForgotState lm ?c = ((s, u), st')" by (metis prod.collapse)
  ultimately have step: "calc_words lm pos (w # ws) (lastn n ds) st (full0, ng, oov) =
      calc_words lm (pos + 1) ws ?c st' (full0 + s, if length ?c = n then ng + s else ng, if u then oov + 1 else oov)"
    using Cons.prems(1) by (simp add: ShiftOrPush_lastn [OF order_pos])
  let ?f = "\<lambda>k. ngram_score lm (lastn n (take (k + 1) (ds @ w # ws)))"
  let ?ng = "if length ?c = n then ng + s else ng"
  have "\<exists>full oov'. calc_words lm (pos + 1) ws ?c st' (full0 + s, ?ng, if u then oov + 1 else oov) =
    Some (full, ?ng + (\<Sum>k \<in> {length (ds @ [w])..<length (ds @ [w]) + length ws} \<inter> {k. n \<le> k + 1}.
      ngram_score lm (lastn n (take (k + 1) ((ds @ [w]) @ ws)))), oov')"
    by (rule Cons.IH) (use Cons.prems(1) v in auto)
  moreover have "?ng + (\<Sum>k \<in> {Suc (length ds)..<Suc (length ds) + length ws} \<inter> {k. n \<le> k + 1}. ?f k) =
      ng + (\<Sum>k \<in> {length ds..<length ds + Suc (length ws)} \<inter> {k. n \<le> k + 1}. ?f k)"
  proof -
    have "?f (length ds) = s" using v by (simp add: ngram_score_def)
    moreover have "{length ds..<length ds + Suc (length ws)} \<inter> {k. n \<le> k + 1} =
        (if n \<le> length ds + 1 then {length ds} else {}) \<union> {Suc (length ds)..<Suc (length ds) + length ws} \<inter> {k. n \<le> k + 1}"
      by auto
    ultimately show ?thesis by (auto simp: min_def)
  qed
  ultimately show ?case unfolding step by simp
qed simp

end


section \<open>Positions of the output\<close>

text \<open>The target range of a hypothesis is where its phrase stands in the words so far.\<close>

definition placed_here :: "'st hypothesis \<Rightarrow> bool" where
  "placed_here h \<longleftrightarrow>
     m_startPos (m_currTargetWordsRange (core h)) + length (m_targetPhrase (core h)) = length (target_words h) \<and>
     sz_add (m_endPos (m_currTargetWordsRange (core h))) 1 = length (target_words h) \<and>
     m_endPos (m_currTargetWordsRange (core h)) < size_bound \<and> length (target_words h) < NOT_FOUND"

definition placed :: "'st hypothesis \<Rightarrow> bool" where
  "placed h \<longleftrightarrow> (\<forall>g \<in> set (derivation h). placed_here g)"

lemma placed_step: "m_prevHypo h = Some p \<Longrightarrow> placed h \<longleftrightarrow> placed p \<and> placed_here h"
  by (auto simp: placed_def derivation_step)

lemma placed_root: "m_prevHypo h = None \<Longrightarrow> placed h \<longleftrightarrow> placed_here h"
  by (simp add: placed_def derivation_root)

lemma placed_word:
  "placed h \<Longrightarrow> pos < length (target_words h) \<Longrightarrow> HypoGetWord pos h = Some (target_words h ! pos)"
proof (induction pos h rule: HypoGetWord.induct)
  case (1 pos h)
  let ?s = "m_startPos (m_currTargetWordsRange (core h))"
  show ?case
  proof (cases "m_prevHypo h")
    case None
    then have "placed_here h" "target_words h = m_targetPhrase (core h)"
      using "1.prems" by (simp_all add: placed_root target_words_root)
    then have "?s = 0" by (simp add: placed_here_def)
    then show ?thesis using None by (simp add: HypoGetWord.simps [of pos h] target_words_root)
  next
    case (Some p)
    then have t: "target_words h = target_words p @ m_targetPhrase (core h)" "placed p" "placed_here h"
      using "1.prems" by (simp_all add: target_words_step placed_step)
    then have s: "?s = length (target_words p)" by (simp add: placed_here_def)
    show ?thesis
    proof (cases "pos < ?s")
      case True
      then have "HypoGetWord pos p = Some (target_words p ! pos)" using "1.IH" [OF True Some t(2)] s by simp
      then show ?thesis using True Some s by (simp add: HypoGetWord.simps [of pos h] t(1) nth_append)
    next
      case False
      then show ?thesis using s by (simp add: HypoGetWord.simps [of pos h] t(1) nth_append)
    qed
  qed
qed

text \<open>Every hypothesis the search creates is placed.\<close>

lemma placed_next:
  assumes "HypothesisNext p t hid = Some h" "placed p" "length (target_words p) + length (to_targetPhrase t) < NOT_FOUND"
  shows "placed h"
proof -
  have prev: "m_prevHypo h = Some p" "m_targetPhrase (core h) = to_targetPhrase t"
    and r: "m_currTargetWordsRange (core h) = WordsRange (sz_add (m_endPos (m_currTargetWordsRange (core p))) 1)
      (sz_add (m_endPos (m_currTargetWordsRange (core p))) (length (to_targetPhrase t)))"
    using assms(1) by (auto simp: HypothesisNext_def Let_def split: if_splits)
  let ?e = "m_endPos (m_currTargetWordsRange (core p))" and ?k = "length (to_targetPhrase t)"
  have p: "placed_here p" using assms(2) by (cases "m_prevHypo p") (simp_all add: placed_root placed_step)
  then have e: "sz_add ?e 1 = length (target_words p)" "?e < size_bound" by (simp_all add: placed_here_def)
  have "sz_add (sz_add ?e ?k) 1 = sz_add (sz_add ?e 1) ?k" by (simp add: sz_add_def mod_simps ac_simps)
  also have "\<dots> = length (target_words p) + ?k" unfolding e(1) using assms(3)
    by (simp add: sz_add_small less_trans [OF _ NOT_FOUND_less])
  finally have "placed_here h"
    using e assms(3) by (simp add: placed_here_def r prev target_words_step)
  then show ?thesis using assms(2) by (simp add: placed_step [OF prev(1)])
qed


lemma placed_range:
  assumes "placed_here h"
  shows "RangeNumWordsCovered (m_currTargetWordsRange (core h)) = length (m_targetPhrase (core h))"
    and "m_targetPhrase (core h) \<noteq> [] \<Longrightarrow> m_endPos (m_currTargetWordsRange (core h)) + 1 = length (target_words h)"
proof -
  let ?s = "m_startPos (m_currTargetWordsRange (core h))" and ?e = "m_endPos (m_currTargetWordsRange (core h))"
  note p = assms [unfolded placed_here_def]
  have small: "length (target_words h) < NOT_FOUND" "?e < size_bound" using p by simp_all
  have nf: "NOT_FOUND + 1 = size_bound" by (metis Suc_NOT_FOUND Suc_eq_plus1)
  have e: "if ?e = NOT_FOUND then length (target_words h) = 0 else ?e + 1 = length (target_words h)"
  proof (cases "?e = NOT_FOUND")
    case True
    then show ?thesis using p nf by (simp add: sz_add_def)
  next
    case False
    then have "?e + 1 < size_bound" using small nf by linarith
    then show ?thesis using p False by (simp add: sz_add_small)
  qed
  then show "m_targetPhrase (core h) \<noteq> [] \<Longrightarrow> ?e + 1 = length (target_words h)" using p by (auto split: if_splits)
  have s: "?s \<noteq> NOT_FOUND" using p by linarith
  show "RangeNumWordsCovered (m_currTargetWordsRange (core h)) = length (m_targetPhrase (core h))"
  proof (cases "m_targetPhrase (core h) = []")
    case True
    then have "sz_add (sz_sub ?e ?s) 1 = 0"
    proof (cases "?e = NOT_FOUND")
      case True
      then show ?thesis using e p nf by (simp add: sz_add_def sz_sub_def)
    next
      case False
      then have "?s = ?e + 1" using e p True by simp
      moreover have "?e + 1 < size_bound" using small False nf by linarith
      ultimately have "sz_sub ?e ?s = size_bound + ?e - (?e + 1)" using sz_sub_wrap [of ?e "?e + 1"] by simp
      then have "sz_sub ?e ?s = NOT_FOUND" using nf by linarith
      then show ?thesis using nf by (simp add: sz_add_def)
    qed
    then show ?thesis using True s by (simp add: RangeNumWordsCovered_def)
  next
    case False
    then have "length (m_targetPhrase (core h)) \<ge> 1" by (cases "m_targetPhrase (core h)") simp_all
    then have "?e + 1 = length (target_words h)" "?s \<le> ?e" using e p by (auto split: if_splits)
    moreover from this have "sz_sub ?e ?s = ?e - ?s" using small by (simp add: sz_sub_small)
    moreover have "sz_add (?e - ?s) 1 = ?e - ?s + 1" using calculation small nf by (intro sz_add_small) linarith
    ultimately have "RangeNumWordsCovered (m_currTargetWordsRange (core h)) = ?e - ?s + 1"
      using s by (simp add: RangeNumWordsCovered_def)
    moreover have "?e - ?s + 1 = length (m_targetPhrase (core h))"
      using p \<open>?e + 1 = length (target_words h)\<close> \<open>?s \<le> ?e\<close> by linarith
    ultimately show ?thesis by simp
  qed
qed

context ngram_model
begin

text \<open>The state that goes with the words so far.\<close>

definition lm_state :: "phrase \<Rightarrow> 's" where
  "lm_state ws = (if ws = [] then GetBeginSentenceState lm
     else snd (GetValueForgotState lm (ngram_at lm ws (length ws - 1))))"

lemma ngram_at_append: "k < length vs \<Longrightarrow> ngram_at lm (vs @ us) k = ngram_at lm vs k"
  by (simp add: ngram_at_def)

lemma given_state:
  "length vs < length ws \<Longrightarrow> take (length vs) ws = vs \<Longrightarrow>
   GetValueGivenState lm (ngram_at lm ws (length vs)) (lm_state vs) = GetValueForgotState lm (ngram_at lm ws (length vs))"
proof (cases vs rule: rev_cases)
  case Nil
  assume "length vs < length ws" "take (length vs) ws = vs"
  then have "take 1 ws = [ws ! 0]" using Nil by (cases ws) auto
  then have "ngram_at lm ws 0 = tl (replicate n (sentenceStart lm)) @ [ws ! 0]"
    using order_pos lastn_snoc [OF order_pos, of "replicate n (sentenceStart lm)" "ws ! 0"]
    by (simp add: ngram_at_def lastn_short)
  then show ?thesis using given_begin by (simp add: lm_state_def Nil)
next
  case (snoc us u)
  assume l: "length vs < length ws" and t: "take (length vs) ws = vs"
  have "ngram_at lm ws (length us) = ngram_at lm vs (length us)"
    using t snoc by (metis add.commute append_take_drop_id length_append_singleton lessI ngram_at_append)
  then have "ngram_at lm ws (length vs) = tl (ngram_at lm vs (length us)) @ [ws ! length vs]"
    using ngram_at_Suc [OF order_pos, of "length us" ws] l snoc by simp
  then show ?thesis using given_full snoc by (simp add: lm_state_def)
qed

lemma score_words_sum:
  assumes "placed h" "p \<le> e" "e < length (target_words h)"
  shows "score_words lm h [p + 1..<e + 1] (ngram_at lm (target_words h) p)
      (snd (GetValueForgotState lm (ngram_at lm (target_words h) p))) s =
    Some (ngram_at lm (target_words h) e, snd (GetValueForgotState lm (ngram_at lm (target_words h) e)),
      s + (\<Sum>k \<in> {p + 1..<e + 1}. ngram_score lm (ngram_at lm (target_words h) k)))"
  using assms(2,3)
proof (induction "e - p" arbitrary: p s)
  case (Suc d)
  let ?ws = "target_words h"
  let ?c = "ngram_at lm ?ws (p + 1)"
  have l: "[p + 1..<e + 1] = (p + 1) # [p + 1 + 1..<e + 1]"
    using upt_conv_Cons [of "p + 1" "e + 1"] Suc.hyps(2) by (simp only: Suc_eq_plus1)
  have w: "HypoGetWord (p + 1) h = Some (?ws ! (p + 1))" using placed_word [OF assms(1)] Suc by simp
  have c: "shift_in n (ngram_at lm ?ws p) (?ws ! (p + 1)) = ?c"
    using ngram_at_Suc [OF order_pos, of p ?ws] Suc by (simp add: shift_in_full [OF order_pos])
  have "GetValueGivenState lm ?c (snd (GetValueForgotState lm (ngram_at lm ?ws p))) = GetValueForgotState lm ?c"
    using given_full [of "ngram_at lm ?ws p"] ngram_at_Suc [OF order_pos, of p ?ws] Suc by simp
  moreover obtain sc u st where v: "GetValueForgotState lm ?c = ((sc, u), st)" by (metis prod.collapse)
  ultimately have "score_words lm h [p + 1..<e + 1] (ngram_at lm ?ws p) (snd (GetValueForgotState lm (ngram_at lm ?ws p))) s =
      score_words lm h [p + 1 + 1..<e + 1] ?c (snd (GetValueForgotState lm ?c)) (s + sc)"
    unfolding l using w c by simp
  also have "\<dots> = Some (ngram_at lm ?ws e, snd (GetValueForgotState lm (ngram_at lm ?ws e)),
      s + sc + (\<Sum>k \<in> {p + 1 + 1..<e + 1}. ngram_score lm (ngram_at lm ?ws k)))"
    by (rule Suc.hyps) (use Suc in auto)
  also have "sc = ngram_score lm ?c" using v by (simp add: ngram_score_def)
  also have "s + ngram_score lm ?c + (\<Sum>k \<in> {p + 1 + 1..<e + 1}. ngram_score lm (ngram_at lm ?ws k)) =
      s + (\<Sum>k \<in> {p + 1..<e + 1}. ngram_score lm (ngram_at lm ?ws k))"
    using Suc by (subst sum.atLeast_Suc_lessThan [of "p + 1"]) auto
  finally show ?case .
qed simp

lemma shift_words_end:
  assumes "placed h" "p \<le> e" "e < length (target_words h)"
  shows "shift_words lm h [p + 1..<e + 1] (ngram_at lm (target_words h) p) = Some (ngram_at lm (target_words h) e)"
  using assms(2,3)
proof (induction "e - p" arbitrary: p)
  case (Suc d)
  have l: "[p + 1..<e + 1] = (p + 1) # [p + 1 + 1..<e + 1]"
    using upt_conv_Cons [of "p + 1" "e + 1"] Suc.hyps(2) by (simp only: Suc_eq_plus1)
  have w: "HypoGetWord (p + 1) h = Some (target_words h ! (p + 1))" using placed_word [OF assms(1)] Suc by simp
  have c: "shift_in n (ngram_at lm (target_words h) p) (target_words h ! (p + 1)) = ngram_at lm (target_words h) (p + 1)"
    using ngram_at_Suc [OF order_pos, of p "target_words h"] Suc by (simp add: shift_in_full [OF order_pos])
  have "shift_words lm h [p + 1 + 1..<e + 1] (ngram_at lm (target_words h) (p + 1)) = Some (ngram_at lm (target_words h) e)"
    by (rule Suc.hyps) (use Suc in auto)
  then show ?case unfolding l using w c by simp
qed simp

end


context ngram_model
begin

lemma words_at_ngram:
  assumes "placed h" "k < length (target_words h)"
  shows "words_at lm h (int k - int n + 1) (int k) = Some (ngram_at lm (target_words h) k)"
proof -
  let ?f = "\<lambda>pos. if pos \<ge> 0 then HypoGetWord (nat pos) h else Some (sentenceStart lm)"
  have "map ?f [int k - int n + 1..int k] = map Some (ngram_at lm (target_words h) k)"
  proof (rule nth_equalityI)
    fix i assume "i < length (map ?f [int k - int n + 1..int k])"
    then have i: "i < n" by simp
    have "[int k - int n + 1..int k] ! i = int k - int n + 1 + int i" using i by (intro nth_upto) linarith
    then have "map ?f [int k - int n + 1..int k] ! i = ?f (int k - int n + 1 + int i)" using i by (subst nth_map) simp_all
    also have "\<dots> = Some (ngram_at lm (target_words h) k ! i)"
    proof (cases "k + 1 + i < n")
      case True
      then show ?thesis using ngram_at_nth [OF assms(2) i] by simp
    next
      case False
      then have "nat (int k - int n + 1 + int i) = k + 1 + i - n" "int k - int n + 1 + int i \<ge> 0" by linarith+
      moreover have "k + 1 + i - n < length (target_words h)" using assms(2) i by linarith
      ultimately show ?thesis using ngram_at_nth [OF assms(2) i] placed_word [OF assms(1)] False by simp
    qed
    finally show "map ?f [int k - int n + 1..int k] ! i = map Some (ngram_at lm (target_words h) k) ! i" using i by simp
  qed simp
  then show ?thesis by (simp add: words_at_def those_Some_iff)
qed

lemma words_at_final:
  assumes "placed h" "target_words h \<noteq> []"
  shows "words_at lm h (int (length (target_words h)) - int n + 1) (int (length (target_words h)) - 1) =
      Some (tl (ngram_at lm (target_words h) (length (target_words h) - 1)))"
    and "final_ngram lm (target_words h) = tl (ngram_at lm (target_words h) (length (target_words h) - 1)) @ [sentenceEnd lm]"
proof -
  let ?k = "length (target_words h) - 1"
  have k: "?k < length (target_words h)" "int ?k = int (length (target_words h)) - 1" using assms(2) by (cases "target_words h"; simp)+
  have "those (x # xs) = Some ys \<Longrightarrow> those xs = Some (tl ys)" for x :: "word option" and xs ys
    by (cases x) auto
  moreover have "[int ?k - int n + 1..int ?k] = (int ?k - int n + 1) # [int ?k - int n + 1 + 1..int ?k]"
    using order_pos by (intro upto_rec1) linarith
  ultimately show "words_at lm h (int (length (target_words h)) - int n + 1) (int (length (target_words h)) - 1) =
      Some (tl (ngram_at lm (target_words h) ?k))"
    using words_at_ngram [OF assms(1) k(1)] unfolding words_at_def k(2) by (simp add: algebra_simps)
  have "replicate n (sentenceStart lm) @ target_words h @ [sentenceEnd lm] =
      (replicate n (sentenceStart lm) @ take (?k + 1) (target_words h)) @ [sentenceEnd lm]" using k by simp
  then show "final_ngram lm (target_words h) = tl (ngram_at lm (target_words h) ?k) @ [sentenceEnd lm]"
    unfolding final_ngram_def ngram_at_def by (simp only: lastn_snoc [OF order_pos]) simp
qed

text \<open>The n-grams that begin before the phrase, from its first word on.\<close>

lemma overlap_score_exact:
  assumes "n \<ge> 2" "placed h" "m_prevHypo h = Some p" "m_targetPhrase (core h) \<noteq> []"
  shows "\<exists>st. overlap_score lm h (Some (lm_state (target_words p))) =
    Some (Some st,
      (\<Sum>k \<in> {length (target_words p)..<length (target_words h)} \<inter> {k. k < length (target_words p) + n - 1}.
         ngram_score lm (ngram_at lm (target_words h) k)) +
      (if IsComplete (coverage h) then ngram_score lm (final_ngram lm (target_words h)) else 0)) \<and>
    (\<not> IsComplete (coverage h) \<longrightarrow> st = lm_state (target_words h))"
proof -
  let ?ws = "target_words h" and ?L = "length (target_words p)"
  let ?r = "m_currTargetWordsRange (core h)"
  have ws: "?ws = target_words p @ m_targetPhrase (core h)" by (rule target_words_step [OF assms(3)])
  have ph: "placed_here h" using assms(2,3) by (simp add: placed_step)
  have e1: "m_endPos ?r + 1 = length ?ws" by (rule placed_range(2) [OF ph assms(4)])
  have s: "m_startPos ?r = ?L" using ph ws by (simp add: placed_here_def)
  have L: "?L < length ?ws" using assms(4) ws by simp
  have size: "HypoGetSize h = length ?ws" using ph by (simp add: HypoGetSize_def placed_here_def)
  define E where "E = length ?ws - 1"
  define e where "e = min (?L + n - 2) E"
  have E: "m_endPos ?r = E" "length ?ws = E + 1" using e1 by (simp_all add: E_def)
  have le: "?L \<le> e" "e < length ?ws" using L assms(1) unfolding e_def E(2) by auto
  obtain s0 u0 st0 where v: "GetValueForgotState lm (ngram_at lm ?ws ?L) = ((s0, u0), st0)" by (metis prod.collapse)
  have given: "GetValueGivenState lm (ngram_at lm ?ws ?L) (lm_state (target_words p)) = ((s0, u0), st0)"
    using given_state [OF L] ws v by simp
  let ?sum = "s0 + (\<Sum>k \<in> {?L + 1..<e + 1}. ngram_score lm (ngram_at lm ?ws k))"
  have loop: "score_words lm h [?L + 1..<e + 1] (ngram_at lm ?ws ?L) st0 s0 =
      Some (ngram_at lm ?ws e, snd (GetValueForgotState lm (ngram_at lm ?ws e)), ?sum)"
    using score_words_sum [OF assms(2) le] v by simp
  have ivl: "{?L..<length ?ws} \<inter> {k. k < ?L + n - 1} = {?L..<e + 1}" using L assms(1) unfolding e_def E(2) by auto
  have "?L < e + 1" using le(1) by linarith
  from sum.atLeast_Suc_lessThan [OF this, of "\<lambda>k. ngram_score lm (ngram_at lm ?ws k)"]
  have sum: "(\<Sum>k \<in> {?L..<length ?ws} \<inter> {k. k < ?L + n - 1}. ngram_score lm (ngram_at lm ?ws k)) = ?sum"
    unfolding ivl Suc_eq_plus1 by (simp only: ngram_score_def v fst_conv)
  have ne: "?ws \<noteq> []" using L by auto
  have cov: "RangeNumWordsCovered ?r \<noteq> 0" using placed_range(1) [OF ph] assms(4) by simp
  note head = overlap_score_def E(1) s size Let_def e_def [symmetric]
  show ?thesis
  proof (cases "IsComplete (coverage h)")
    case True
    obtain sf uf stf where f: "GetValueForgotState lm (final_ngram lm ?ws) = ((sf, uf), stf)" by (metis prod.collapse)
    have "overlap_score lm h (Some (lm_state (target_words p))) = Some (Some stf, ?sum + sf)"
      using assms(1) cov True given loop words_at_ngram [OF assms(2) L] words_at_final [OF assms(2) ne] f by (simp add: head del: upt_Suc sum.op_ivl_Suc)
    then show ?thesis using True f unfolding sum by (simp add: ngram_score_def)
  next
    case nc: False
    have final: "lm_state ?ws = snd (GetValueForgotState lm (ngram_at lm ?ws E))" using ne by (simp add: lm_state_def E_def)
    show ?thesis
    proof (cases "e < E")
      case True
      have "shift_words lm h [e + 1..<E + 1] (ngram_at lm ?ws e) = Some (ngram_at lm ?ws E)"
        by (rule shift_words_end [OF assms(2)]) (use True E(2) in auto)
      then have "overlap_score lm h (Some (lm_state (target_words p))) = Some (Some (lm_state ?ws), ?sum)"
        using assms(1) cov nc given loop words_at_ngram [OF assms(2) L] True final get_state by (simp add: head del: upt_Suc sum.op_ivl_Suc)
      then show ?thesis using nc unfolding sum by simp
    next
      case False
      then have "e = E" by (simp add: e_def)
      then have "overlap_score lm h (Some (lm_state (target_words p))) = Some (Some (lm_state ?ws), ?sum)"
        using assms(1) cov nc given loop words_at_ngram [OF assms(2) L] final by (simp add: head del: upt_Suc sum.op_ivl_Suc)
      then show ?thesis using nc unfolding sum by simp
    qed
  qed
qed

end


section \<open>Whole sentences\<close>

text \<open>
  What the decoder adds up for a sequence of hypotheses: the n-gram score of the phrase, which its
  translation option brings, and the overlap score, each with the state the last one returned.
\<close>

fun lm_run :: "'s lm_impl \<Rightarrow> 'st hypothesis list \<Rightarrow> 's option \<Rightarrow> rat \<Rightarrow> ('s option \<times> rat) option" where
  "lm_run lm [] st acc = Some (st, acc)"
| "lm_run lm (g # gs) st acc =
     (case (LMCalcScore lm (m_targetPhrase (core g)), overlap_score lm g st) of
        (Some (full, ngram, oov), Some (st, overlap)) \<Rightarrow> lm_run lm gs st (acc + ngram + overlap)
      | _ \<Rightarrow> None)"

lemma lm_run_append:
  "lm_run lm (gs @ [g]) st acc = (case lm_run lm gs st acc of None \<Rightarrow> None | Some (st, acc) \<Rightarrow> lm_run lm [g] st acc)"
  by (induction gs arbitrary: st acc) (auto split: option.split prod.split)

text \<open>A word that can stand inside a sentence.\<close>

definition plain_word :: "'s lm_impl \<Rightarrow> word \<Rightarrow> bool" where
  "plain_word lm w \<longleftrightarrow> \<not> m_isNonTerminal w \<and> WordCompare w (sentenceStart lm) \<noteq> 0"

definition sentence_score :: "'s lm_impl \<Rightarrow> phrase \<Rightarrow> rat" where
  "sentence_score lm ws = (\<Sum>k < length ws. ngram_score lm (ngram_at lm ws k))"

context ngram_model
begin

lemma phrase_score:
  assumes "\<forall>w \<in> set ph. plain_word lm w"
  shows "\<exists>full oov. LMCalcScore lm ph = Some (full,
    \<Sum>k \<in> {length vs..<length vs + length ph} \<inter> {k. \<not> k < length vs + n - 1}. ngram_score lm (ngram_at lm (vs @ ph) k), oov)"
proof (cases "ph = []")
  case False
  have w0: "WordCompare (ph ! 0) (sentenceStart lm) \<noteq> 0" using assms False by (cases ph) (auto simp: plain_word_def)
  have "\<exists>full oov. calc_words lm 0 ph (lastn n []) (GetNullContextState lm) (0, 0, 0) =
    Some (full, 0 + (\<Sum>k \<in> {length []..<length [] + length ph} \<inter> {k. n \<le> k + 1}.
      ngram_score lm (lastn n (take (k + 1) ([] @ ph)))), oov)"
    using calc_words_plain [where ws = ph and st = "GetNullContextState lm" and ds = "[]" and pos = 0 and ng = 0]
      assms by (simp add: plain_word_def del: One_nat_def)
  then obtain full oov where c: "LMCalcScore lm ph = Some (full,
      \<Sum>k \<in> {0..<length ph} \<inter> {k. n \<le> k + 1}. ngram_score lm (lastn n (take (k + 1) ph)), oov)"
    using False w0 by (auto simp: LMCalcScore_def lastn_short)
  have same: "ngram_at lm (vs @ ph) (k + length vs) = lastn n (take (k + 1) ph)"
    if "k \<in> {0..<length ph} \<inter> {k. n \<le> k + 1}" for k
  proof -
    have "n \<le> length (take (k + 1) ph)" using that by auto
    then show ?thesis unfolding ngram_at_def
      using lastn_append [of n "take (k + 1) ph" "replicate n (sentenceStart lm) @ vs"] by simp
  qed
  have "(\<Sum>k \<in> {length vs..<length vs + length ph} \<inter> {k. \<not> k < length vs + n - 1}. ngram_score lm (ngram_at lm (vs @ ph) k)) =
      (\<Sum>k \<in> {0..<length ph} \<inter> {k. n \<le> k + 1}. ngram_score lm (lastn n (take (k + 1) ph)))"
  proof (rule sum.reindex_bij_witness [of _ "\<lambda>k. k + length vs" "\<lambda>k. k - length vs"])
    fix k assume "k \<in> {0..<length ph} \<inter> {k. n \<le> k + 1}"
    then show "k + length vs \<in> {length vs..<length vs + length ph} \<inter> {k. \<not> k < length vs + n - 1}" by auto
  next
    fix k assume k: "k \<in> {length vs..<length vs + length ph} \<inter> {k. \<not> k < length vs + n - 1}"
    then show m: "k - length vs \<in> {0..<length ph} \<inter> {k. n \<le> k + 1}" by auto
    have "k - length vs + length vs = k" using k by simp
    then show "ngram_score lm (lastn n (take (k - length vs + 1) ph)) = ngram_score lm (ngram_at lm (vs @ ph) k)"
      using same [OF m] by simp
  qed auto
  then show ?thesis using c by simp
qed (simp add: LMCalcScore_def)

lemma lm_run_exact:
  assumes "n \<ge> 2" "placed h" "m_targetPhrase (core (hd (derivation h))) = []"
    and "\<forall>g \<in> set (butlast (derivation h)). \<not> IsComplete (coverage g)"
    and "\<forall>w \<in> set (target_words h). plain_word lm w"
  shows "\<exists>st. lm_run lm (tl (derivation h)) (Some (lm_state [])) 0 = Some (Some st, sentence_score lm (target_words h) +
      (if IsComplete (coverage h) \<and> m_targetPhrase (core h) \<noteq> [] then ngram_score lm (final_ngram lm (target_words h)) else 0)) \<and>
    (\<not> IsComplete (coverage h) \<longrightarrow> st = lm_state (target_words h))"
  using assms(2-)
proof (induction h rule: derivation.induct)
  case (1 h)
  show ?case
  proof (cases "m_prevHypo h")
    case None
    then show ?thesis using "1.prems" by (simp add: derivation_root target_words_root sentence_score_def)
  next
    case (Some p)
    have d: "derivation h = derivation p @ [h]" by (rule derivation_step [OF Some])
    have ws: "target_words h = target_words p @ m_targetPhrase (core h)" by (rule target_words_step [OF Some])
    have nc: "\<not> IsComplete (coverage p)"
    proof -
      have "p = List.last (derivation p)" by (cases "m_prevHypo p") (simp_all add: derivation_root derivation_step)
      then show ?thesis using "1.prems"(3) unfolding d butlast_snoc by (metis last_in_set derivation_ne)
    qed
    have IH: "lm_run lm (tl (derivation p)) (Some (lm_state [])) 0 = Some (Some (lm_state (target_words p)), sentence_score lm (target_words p))"
    proof -
      have "placed p" using "1.prems"(1) placed_step [OF Some] by simp
      moreover have "m_targetPhrase (core (hd (derivation p))) = []" using "1.prems"(2) unfolding d by simp
      moreover have "\<forall>g \<in> set (butlast (derivation p)). \<not> IsComplete (coverage g)"
        using "1.prems"(3) unfolding d butlast_snoc by (blast dest: in_set_butlastD)
      moreover have "\<forall>w \<in> set (target_words p). plain_word lm w" using "1.prems"(4) ws by auto
      ultimately show ?thesis using "1.IH" [OF Some] nc by auto
    qed
    have run: "lm_run lm (tl (derivation h)) (Some (lm_state [])) 0 =
        lm_run lm [h] (Some (lm_state (target_words p))) (sentence_score lm (target_words p))"
      unfolding d using IH lm_run_append [of lm "tl (derivation p)" h "Some (lm_state [])" 0] by simp
    let ?f = "\<lambda>k. ngram_score lm (ngram_at lm (target_words h) k)" and ?L = "length (target_words p)"
    obtain full oov where ph: "LMCalcScore lm (m_targetPhrase (core h)) = Some (full,
        \<Sum>k \<in> {?L..<length (target_words h)} \<inter> {k. \<not> k < ?L + n - 1}. ?f k, oov)"
      using phrase_score [of "m_targetPhrase (core h)" "target_words p"] "1.prems"(4) unfolding ws by auto
    have "sum ?f {..<?L} = sentence_score lm (target_words p)"
      unfolding sentence_score_def ws by (rule sum.cong) (simp_all add: ngram_at_append)
    moreover have "sum ?f {..<length (target_words h)} = sum ?f {..<?L} + sum ?f {?L..<length (target_words h)}"
    proof -
      have "{..<length (target_words h)} = {..<?L} \<union> {?L..<length (target_words h)}" using ws by auto
      then show ?thesis by (simp add: sum.union_disjoint ivl_disj_int)
    qed
    moreover have "sum ?f {?L..<length (target_words h)} =
        sum ?f ({?L..<length (target_words h)} \<inter> {k. \<not> k < ?L + n - 1}) +
        sum ?f ({?L..<length (target_words h)} \<inter> {k. k < ?L + n - 1})"
      by (subst sum.union_disjoint [symmetric]) (auto intro: sum.cong)
    ultimately have all: "sentence_score lm (target_words h) = sentence_score lm (target_words p) +
        sum ?f ({?L..<length (target_words h)} \<inter> {k. \<not> k < ?L + n - 1}) +
        sum ?f ({?L..<length (target_words h)} \<inter> {k. k < ?L + n - 1})"
      by (simp add: sentence_score_def)
    show ?thesis
    proof (cases "m_targetPhrase (core h) = []")
      case True
      have "placed_here h" using "1.prems"(1) placed_step [OF Some] by simp
      then have "overlap_score lm h (Some (lm_state (target_words p))) = Some (Some (lm_state (target_words p)), 0)"
        using placed_range(1) [of h] True assms(1) by (simp add: overlap_score_def)
      then show ?thesis using run ws True by (simp add: LMCalcScore_def)
    next
      case False
      from overlap_score_exact [OF assms(1) "1.prems"(1) Some False] obtain st where
        "overlap_score lm h (Some (lm_state (target_words p))) = Some (Some st,
          sum ?f ({?L..<length (target_words h)} \<inter> {k. k < ?L + n - 1}) +
          (if IsComplete (coverage h) then ngram_score lm (final_ngram lm (target_words h)) else 0))"
        "\<not> IsComplete (coverage h) \<longrightarrow> st = lm_state (target_words h)" by auto
      then show ?thesis using run ph False unfolding all by (simp add: algebra_simps)
    qed
  qed
qed

end


section \<open>Hypotheses made by the search\<close>

fun apply_options :: "'st hypothesis \<Rightarrow> trans_opt list \<Rightarrow> 'st hypothesis option" where
  "apply_options h [] = Some h"
| "apply_options h (t # ts) = (case HypothesisNext h t 0 of None \<Rightarrow> None | Some g \<Rightarrow> apply_options g ts)"

lemma placed_init: "placed (HypothesisInit ff numScores sz vec [] hid)"
  by (simp add: placed_def derivation_root HypothesisInit_def Let_def placed_here_def target_words_root sz_add_def sz_sub_def
      size_bound_def NOT_FOUND_def)

lemma apply_options_facts:
  assumes "apply_options h ts = Some g" "placed h" "length (target_words h) + length (concat (map to_targetPhrase ts)) < NOT_FOUND"
  shows "placed g \<and> target_words g = target_words h @ concat (map to_targetPhrase ts) \<and> hd (derivation g) = hd (derivation h) \<and>
    m_targetPhrase (core g) = (if ts = [] then m_targetPhrase (core h) else to_targetPhrase (List.last ts))"
  using assms
proof (induction ts arbitrary: h)
  case (Cons t ts)
  then obtain k where k: "HypothesisNext h t 0 = Some k" "apply_options k ts = Some g" by (auto split: option.splits)
  have "placed k" using placed_next [OF k(1)] Cons.prems(2,3) by simp
  moreover have prev: "m_prevHypo k = Some h" "m_targetPhrase (core k) = to_targetPhrase t"
    using k(1) by (auto simp: HypothesisNext_def Let_def split: if_splits)
  moreover have "target_words k = target_words h @ to_targetPhrase t" using target_words_step [OF prev(1)] prev(2) by simp
  moreover have "hd (derivation k) = hd (derivation h)" using derivation_step [OF prev(1)] by simp
  ultimately show ?case using Cons.IH [OF k(2)] Cons.prems(3) by simp
qed simp

text \<open>The functions of the base class keep the contract, whatever the model.\<close>

interpretation base_lm: ngram_model "default_impl (Suc order) sos eos forgot nullState beginState"
  for order :: nat and sos eos :: word and forgot :: "word list \<Rightarrow> (rat \<times> bool) \<times> 's" and nullState beginState :: 's
  by unfold_locales (simp_all add: default_impl_def)

section \<open>Properties\<close>

text \<open>C9: for a model of order at least two that keeps its contract, the n-gram scores of the phrases and the scores of the
  overlaps add up, along any sequence of translation options, to the scores of all n-grams of the output with start
  symbols before it, and for a complete translation the end of the sentence; the end is left out
  when the last option has no words.
\<close>

theorem lm_scores_whole_sentence:
  assumes "ngram_model lm" "2 \<le> nGramOrder lm"
    and "apply_options (HypothesisInit ff numScores sz vec [] hid) ts = Some h"
    and "length (concat (map to_targetPhrase ts)) < NOT_FOUND"
    and "\<forall>g \<in> set (butlast (derivation h)). \<not> IsComplete (coverage g)"
    and "\<forall>w \<in> set (concat (map to_targetPhrase ts)). plain_word lm w"
  shows "\<exists>st. lm_run lm (tl (derivation h)) (Some (GetBeginSentenceState lm)) 0 =
    Some (st, sentence_score lm (concat (map to_targetPhrase ts)) +
      (if IsComplete (coverage h) \<and> ts \<noteq> [] \<and> to_targetPhrase (List.last ts) \<noteq> []
       then ngram_score lm (final_ngram lm (concat (map to_targetPhrase ts))) else 0))"
proof -
  let ?root = "HypothesisInit ff numScores sz vec [] hid"
  have root: "m_prevHypo ?root = None" "m_targetPhrase (core ?root) = []" by (simp_all add: HypothesisInit_def Let_def)
  then have words: "target_words ?root = []" "hd (derivation ?root) = ?root" by (simp_all add: target_words_root derivation_root)
  have f: "placed h" "target_words h = concat (map to_targetPhrase ts)" "hd (derivation h) = ?root"
      "m_targetPhrase (core h) = (if ts = [] then [] else to_targetPhrase (List.last ts))"
    using apply_options_facts [OF assms(3) placed_init] assms(4) words root(2) by simp_all
  have run: "\<exists>st. lm_run lm (tl (derivation h)) (Some (ngram_model.lm_state lm [])) 0 = Some (Some st, sentence_score lm (target_words h) +
      (if IsComplete (coverage h) \<and> m_targetPhrase (core h) \<noteq> [] then ngram_score lm (final_ngram lm (target_words h)) else 0)) \<and>
    (\<not> IsComplete (coverage h) \<longrightarrow> st = ngram_model.lm_state lm (target_words h))"
    by (rule ngram_model.lm_run_exact [OF assms(1,2) f(1)]) (use f(3) root(2) assms(5,6) f(2) in auto)
  have "ngram_model.lm_state lm [] = GetBeginSentenceState lm" by (simp add: ngram_model.lm_state_def [OF assms(1)])
  then show ?thesis using run f(2,4) by auto
qed

definition factored_word :: "factor \<Rightarrow> word" where
  "factored_word f = \<lparr>m_factorArray = replicate MAX_NUM_FACTORS (Some f), m_isNonTerminal = False\<rparr>"

definition sample_bigrams :: "unit lm_impl" where
  "sample_bigrams = default_impl 2 (factored_word 0) (factored_word 1) (\<lambda>c. ((if c = [factored_word 0, factored_word 5] then -1 else -2, False), ())) () ()"

definition sample_step :: trans_opt where
  "sample_step = \<lparr>to_range = WordsRange 0 0, to_targetPhrase = [factored_word 5], to_scoreBreakdown = [],
     to_futureScore = 0, to_cachedScores = (\<lambda>i. None)\<rparr>"

definition no_features :: "unit features" where
  "no_features = \<lparr>empty_states = [], stateless = [], stateful = []\<rparr>"

theorem lm_scores_whole_sentence_witness:
  "\<exists>h st. apply_options (HypothesisInit no_features 0 1 [] [] 0) [sample_step] = Some h \<and>
     lm_run sample_bigrams (tl (derivation h)) (Some ()) 0 = Some (st, -3)"
proof -
  let ?root = "HypothesisInit no_features 0 1 [] [] 0"
  have root: "coverage ?root = BitmapInitVector 1 []" by (simp add: HypothesisInit_def Let_def)
  have free: "\<not> BitmapOverlap (coverage ?root) (to_range sample_step)" and nc: "\<not> IsComplete (coverage ?root)"
    unfolding root by (simp_all add: BitmapOverlap_def BitmapInitVector_def sample_step_def IsComplete_def BitmapNumWordsCovered_def)
  then obtain h where h: "apply_options ?root [sample_step] = Some h" "HypothesisNext ?root sample_step 0 = Some h"
    by (simp add: HypothesisNext_def Let_def)
  have "ngram_model sample_bigrams" unfolding sample_bigrams_def
    using base_lm.ngram_model_axioms [of "1"] by (simp add: numeral_2_eq_2)
  note t = lm_scores_whole_sentence [OF this _ h(1)]
  have prev: "m_prevHypo h = Some ?root" "coverage h = SetValueRange (coverage ?root) 0 0 True"
    using h(2) free by (auto simp: HypothesisNext_def Let_def sample_step_def)
  have "derivation h = [?root, h]"
    using derivation_step [OF prev(1)] by (simp add: derivation_root HypothesisInit_def Let_def)
  moreover have "IsComplete (coverage h)" unfolding prev(2) root
    by (simp add: IsComplete_def BitmapNumWordsCovered_def SetValueRange_def SetValue_def BitmapInitVector_def)
  moreover have "sentence_score sample_bigrams [factored_word 5] = -1" "ngram_score sample_bigrams (final_ngram sample_bigrams [factored_word 5]) = -2"
    "plain_word sample_bigrams (factored_word 5)" by code_simp+
  moreover have "nGramOrder sample_bigrams = 2" "GetBeginSentenceState sample_bigrams = ()" by (simp_all add: sample_bigrams_def default_impl_def)
  ultimately show ?thesis using t h(1) nc by (simp add: sample_step_def NOT_FOUND_def)
qed

end
