(* ===== verification/Lossy_Counter.thy ===== *)
theory Lossy_Counter
  imports Prelude "HOL-Library.Word" "HOL-Library.List_Lexorder" "HOL-Library.Product_Lexorder"
begin

text \<open>
  Approximate counting of phrase pairs (\<open>eppex/LossyCounter.h\<close>, \<open>eppex/IndexedPhrasesPair.h\<close>): the counter
  that forgets rare items at the end of each bucket, the iterators over what passes the threshold, and
  the phrase pairs it counts, stored in arrays whose lengths are single bytes. The error and the
  support are rational numbers; \<open>None\<close> is a write beyond an array.
\<close>

section \<open>The counter\<close>

record 'a lossy_counter =
  lc_error :: rat
  lc_support :: rat
  bucketWidth :: nat
  bucketId :: nat
  lc_count :: nat
  lc_storage :: "('a \<times> nat \<times> nat) list"

definition LossyCounterInit :: "rat \<Rightarrow> rat \<Rightarrow> 'a lossy_counter" where
  "LossyCounterInit err supp =
     \<lparr>lc_error = err, lc_support = supp, bucketWidth = (if err > 0 then nat \<lceil>1 / err\<rceil> else 0), bucketId = 1,
      lc_count = 0, lc_storage = []\<rparr>"

definition lc_threshold :: "bool \<Rightarrow> 'a lossy_counter \<Rightarrow> rat" where
  "lc_threshold positive lc =
     (if positive then lc_support lc * of_nat (lc_count lc) else (lc_support lc - lc_error lc) * of_nat (lc_count lc))"

definition maxError :: "'a lossy_counter \<Rightarrow> rat" where
  "maxError lc = lc_error lc * of_nat (lc_count lc)"

definition aboutToPrune :: "'a lossy_counter \<Rightarrow> bool" where
  "aboutToPrune lc \<longleftrightarrow> bucketWidth lc \<noteq> 0 \<and> lc_count lc mod bucketWidth lc = 0"

text \<open>The map, in the order of its keys: a new item, or one more of an item.\<close>

fun count_item :: "'a::linorder \<Rightarrow> nat \<Rightarrow> ('a \<times> nat \<times> nat) list \<Rightarrow> ('a \<times> nat \<times> nat) list" where
  "count_item item \<Delta> [] = [(item, 1, \<Delta>)]"
| "count_item item \<Delta> ((k, f, d) # rest) =
     (if item < k then (item, 1, \<Delta>) # (k, f, d) # rest
      else if k < item then (k, f, d) # count_item item \<Delta> rest
      else (k, f + 1, d) # rest)"

definition lc_prune :: "'a lossy_counter \<Rightarrow> 'a lossy_counter" where
  "lc_prune lc = lc\<lparr>lc_storage := filter (\<lambda>(k, f, d). \<not> f + d \<le> bucketId lc) (lc_storage lc)\<rparr>"

definition lc_add :: "'a::linorder \<Rightarrow> 'a lossy_counter \<Rightarrow> 'a lossy_counter" where
  "lc_add item lc =
     (let lc = lc\<lparr>lc_storage := count_item item (bucketId lc - 1) (lc_storage lc), lc_count := lc_count lc + 1\<rparr>
      in if aboutToPrune lc then let lc = lc_prune lc in lc\<lparr>bucketId := bucketId lc + 1\<rparr> else lc)"

section \<open>Iterators\<close>

text \<open>An iterator is what it has ahead, the current item first.\<close>

definition frequency_of :: "'a \<times> nat \<times> nat \<Rightarrow> rat" where
  "frequency_of x = of_nat (fst (snd x))"

fun lc_forward :: "rat \<Rightarrow> bool \<Rightarrow> ('a \<times> nat \<times> nat) list \<Rightarrow> ('a \<times> nat \<times> nat) list" where
  "lc_forward thr init [] = []"
| "lc_forward thr init (x # xs) =
     (if init \<and> frequency_of x \<ge> thr then x # xs else dropWhile (\<lambda>y. frequency_of y < thr) xs)"

definition lc_begin :: "'a lossy_counter \<Rightarrow> ('a \<times> nat \<times> nat) list" where
  "lc_begin lc = lc_forward (lc_threshold False lc) True (lc_storage lc)"

text \<open>The loop \<open>for (it = begin; it != end; ++it)\<close>: the items it meets.\<close>

lemma forward_length: "length (lc_forward thr False (x # xs)) \<le> length xs"
  using length_dropWhile_le [of "\<lambda>y. frequency_of y < thr" xs] by simp

function visited :: "rat \<Rightarrow> ('a \<times> nat \<times> nat) list \<Rightarrow> ('a \<times> nat \<times> nat) list" where
  "visited thr [] = []"
| "visited thr (x # xs) = x # visited thr (lc_forward thr False (x # xs))"
  by pat_completeness auto
termination
  by (relation "measure (\<lambda>(thr, xs). length xs)") (use forward_length in \<open>auto simp: less_Suc_eq_le\<close>)

definition lc_items :: "'a lossy_counter \<Rightarrow> ('a \<times> nat \<times> nat) list" where
  "lc_items lc = visited (lc_threshold False lc) (lc_begin lc)"

text \<open>
  The erasing iterator's own \<open>forward\<close> (what is ahead of it, and what it leaves of the storage behind and
  ahead). No operator calls it: \<open>operator++\<close> and the constructor are those of the base class, whose
  \<open>forward\<close> is not virtual.
\<close>

fun erasing_forward ::
    "rat \<Rightarrow> bool \<Rightarrow> ('a \<times> nat \<times> nat) list \<Rightarrow> ('a \<times> nat \<times> nat) list \<Rightarrow> ('a \<times> nat \<times> nat) list \<times> ('a \<times> nat \<times> nat) list" where
  "erasing_forward thr init behind [] = ([], behind)"
| "erasing_forward thr init behind (x # xs) =
     (if init \<and> frequency_of x \<ge> thr then (x # xs, behind @ x # xs)
      else let rest = dropWhile (\<lambda>y. frequency_of y < thr) xs in (rest, behind @ rest))"

section \<open>Phrase pairs\<close>

text \<open>Tokens are 32-bit indices; alignment points and the three lengths are bytes.\<close>

type_synonym token_index = "32 word"

type_synonym alignment_point = "8 word"

datatype indexed_pair = IndexedPair
  (pair_data: "token_index list") (pair_alignment: "alignment_point list") (orientationIndex: "8 word")
  (srcPhraseLength: "8 word") (tgtPhraseLength: "8 word") (alignmentLength: "8 word")

text \<open>
  The constructor: a source or target phrase longer than its byte says, or more alignment points, are
  written beyond the arrays, which have the lengths of the bytes.
\<close>

definition IndexedPhrasesPairInit ::
    "token_index list \<Rightarrow> token_index list \<Rightarrow> 8 word \<Rightarrow> (alignment_point \<times> alignment_point) list \<Rightarrow> indexed_pair option" where
  "IndexedPhrasesPairInit src tgt orient al =
     (let slen = of_nat (length src) :: 8 word; tlen = of_nat (length tgt) :: 8 word; alen = of_nat (length al) :: 8 word
      in if length al > unat alen \<or> length src > unat slen + unat tlen \<or> unat slen + length tgt > unat slen + unat tlen then None
         else Some (IndexedPair (src @ tgt) (concat (map (\<lambda>(s, t). [s, t]) al)) orient slen tlen alen))"

definition srcPhrase :: "indexed_pair \<Rightarrow> token_index list" where
  "srcPhrase p = take (unat (srcPhraseLength p)) (pair_data p)"

definition tgtPhrase :: "indexed_pair \<Rightarrow> token_index list" where
  "tgtPhrase p = take (unat (tgtPhraseLength p)) (drop (unat (srcPhraseLength p)) (pair_data p))"

definition pairAlignment :: "indexed_pair \<Rightarrow> (alignment_point \<times> alignment_point) list" where
  "pairAlignment p = map (\<lambda>i. (pair_alignment p ! (2 * i), pair_alignment p ! (2 * i + 1))) [0..<unat (alignmentLength p)]"

text \<open>\<open>memcmp\<close> compares bytes: those of a token lie in the order of a little-endian machine.\<close>

definition token_bytes :: "token_index \<Rightarrow> nat list" where
  "token_bytes t = map (\<lambda>i. unat t div 256 ^ i mod 256) [0..<4]"

definition data_bytes :: "indexed_pair \<Rightarrow> nat list" where
  "data_bytes p = concat (map token_bytes (take (unat (srcPhraseLength p) + unat (tgtPhraseLength p)) (pair_data p)))"

definition alignment_bytes :: "indexed_pair \<Rightarrow> nat list" where
  "alignment_bytes p = map unat (take (2 * unat (alignmentLength p)) (pair_alignment p))"

definition pair_less :: "indexed_pair \<Rightarrow> indexed_pair \<Rightarrow> bool" where
  "pair_less lhs rhs =
     (if alignmentLength lhs \<noteq> alignmentLength rhs then alignmentLength lhs < alignmentLength rhs
      else if alignment_bytes lhs \<noteq> alignment_bytes rhs then alignment_bytes lhs < alignment_bytes rhs
      else if srcPhraseLength lhs \<noteq> srcPhraseLength rhs then srcPhraseLength lhs < srcPhraseLength rhs
      else if tgtPhraseLength lhs \<noteq> tgtPhraseLength rhs then tgtPhraseLength lhs < tgtPhraseLength rhs
      else if data_bytes lhs \<noteq> data_bytes rhs then data_bytes lhs < data_bytes rhs
      else orientationIndex lhs < orientationIndex rhs)"

section \<open>Counting\<close>

text \<open>What is known of an item: nothing, or its frequency and the most that may have been missed.\<close>

definition known :: "'a \<Rightarrow> ('a \<times> nat \<times> nat) list \<Rightarrow> (nat \<times> nat) option" where
  "known x st = map_of st x"

definition sorted_keys :: "('a::linorder \<times> 'b) list \<Rightarrow> bool" where
  "sorted_keys st \<longleftrightarrow> sorted_wrt (<) (map fst st)"

lemma sorted_keys_Cons [simp]: "sorted_keys ((k, v) # st) \<longleftrightarrow> (\<forall>y \<in> set st. k < fst y) \<and> sorted_keys st"
  by (auto simp: sorted_keys_def)

lemma sorted_keys_Nil [simp]: "sorted_keys []"
  by (simp add: sorted_keys_def)

lemma sorted_keys_filter: "sorted_keys st \<Longrightarrow> sorted_keys (filter P st)"
  by (induction st) auto

lemma sorted_keys_lower: "sorted_keys st \<Longrightarrow> (\<forall>y \<in> set st. k < fst y) \<Longrightarrow> map_of st k = None"
  by (induction st) auto

lemma count_item_keys: "fst ` set (count_item x \<Delta> st) = insert x (fst ` set st)"
  by (induction x \<Delta> st rule: count_item.induct) auto

lemma count_item_sorted: "sorted_keys st \<Longrightarrow> sorted_keys (count_item x \<Delta> st)"
proof (induction x \<Delta> st rule: count_item.induct)
  case (2 x \<Delta> k f d rest)
  then show ?case using count_item_keys [of x \<Delta> rest] by fastforce
qed simp

lemma count_item_known:
  "sorted_keys st \<Longrightarrow>
   known y (count_item x \<Delta> st) =
     (if y = x then (case known x st of None \<Rightarrow> Some (1, \<Delta>) | Some (f, d) \<Rightarrow> Some (f + 1, d)) else known y st)"
proof (induction x \<Delta> st rule: count_item.induct)
  case (2 x \<Delta> k f d rest)
  show ?case
  proof (cases "x < k")
    case True
    then have "\<forall>y \<in> set rest. x < fst y" using "2.prems" by force
    then have "map_of rest x = None" using "2.prems" sorted_keys_lower by auto
    then show ?thesis using True by (auto simp: known_def)
  next
    case False
    then show ?thesis using 2 by (auto simp: known_def)
  qed
qed (simp add: known_def)

lemma known_filter:
  "sorted_keys st \<Longrightarrow> known x (filter (\<lambda>(k, f, d). Q f d) st) =
     (case known x st of None \<Rightarrow> None | Some (f, d) \<Rightarrow> if Q f d then Some (f, d) else None)"
proof (induction st)
  case (Cons y st)
  obtain k f d where y: "y = (k, f, d)" by (cases y) auto
  then have "known k st = None" using Cons.prems sorted_keys_lower by (auto simp: known_def)
  then show ?case using Cons y by (auto simp: known_def split: option.splits)
qed (simp add: known_def)

definition bucket_of :: "'a lossy_counter \<Rightarrow> nat" where
  "bucket_of lc = (if bucketWidth lc = 0 then 1 else lc_count lc div bucketWidth lc + 1)"

text \<open>
  After a sequence of items: an item's frequency is at most what was counted of it, and at most \<open>\<Delta>\<close> less;
  a forgotten one occurred no more than once a bucket.
\<close>

definition lossy_ok :: "'a::linorder list \<Rightarrow> 'a lossy_counter \<Rightarrow> bool" where
  "lossy_ok xs lc \<longleftrightarrow> lc_count lc = length xs \<and> bucketId lc = bucket_of lc \<and> sorted_keys (lc_storage lc) \<and>
     (\<forall>x. case known x (lc_storage lc) of
        None \<Rightarrow> count_list xs x \<le> bucketId lc - 1
      | Some (f, d) \<Rightarrow> f \<le> count_list xs x \<and> count_list xs x \<le> f + d \<and> d \<le> bucketId lc - 1)"

lemma lossy_ok_init: "lossy_ok [] (LossyCounterInit err supp)"
  by (simp add: lossy_ok_def LossyCounterInit_def bucket_of_def known_def)

lemma lossy_ok_add:
  assumes "lossy_ok xs lc"
  shows "lossy_ok (xs @ [x]) (lc_add x lc)"
proof -
  define lc1 where "lc1 = lc\<lparr>lc_storage := count_item x (bucketId lc - 1) (lc_storage lc), lc_count := lc_count lc + 1\<rparr>"
  note ok = assms [unfolded lossy_ok_def]
  have sorted: "sorted_keys (lc_storage lc1)" using ok by (auto simp: lc1_def intro: count_item_sorted)
  have b: "bucketId lc \<ge> 1" using ok by (simp add: bucket_of_def)
  have known: "case known y (lc_storage lc1) of
        None \<Rightarrow> count_list (xs @ [x]) y \<le> bucketId lc - 1
      | Some (f, d) \<Rightarrow> f \<le> count_list (xs @ [x]) y \<and> count_list (xs @ [x]) y \<le> f + d \<and> d \<le> bucketId lc - 1" for y
  proof -
    have "case known y (lc_storage lc) of
        None \<Rightarrow> count_list xs y \<le> bucketId lc - 1
      | Some (f, d) \<Rightarrow> f \<le> count_list xs y \<and> count_list xs y \<le> f + d \<and> d \<le> bucketId lc - 1" using ok by blast
    then show ?thesis using ok
      by (cases "known y (lc_storage lc)"; cases "y = x") (auto simp: lc1_def count_item_known)
  qed
  show ?thesis
  proof (cases "aboutToPrune lc1")
    case False
    then have "lc_add x lc = lc1" by (simp add: lc_add_def lc1_def Let_def)
    moreover have "bucket_of lc1 = bucket_of lc"
      using False by (auto simp: bucket_of_def lc1_def aboutToPrune_def div_Suc)
    moreover have f: "bucketId lc1 = bucketId lc" "lc_count lc1 = length (xs @ [x])" using ok by (simp_all add: lc1_def)
    ultimately have "lc_count lc1 = length (xs @ [x]) \<and> bucketId lc1 = bucket_of lc1" "lc_add x lc = lc1" using ok by simp_all
    then show ?thesis using sorted known unfolding lossy_ok_def f(1) by (simp only: f(1)) blast
  next
    case True
    define lc2 where "lc2 = (lc_prune lc1)\<lparr>bucketId := bucketId lc + 1\<rparr>"
    have eq: "lc_add x lc = lc2" using True by (simp add: lc_add_def lc1_def lc2_def lc_prune_def Let_def)
    have "bucket_of lc2 = bucket_of lc + 1"
      using True by (auto simp: bucket_of_def lc2_def lc1_def lc_prune_def aboutToPrune_def div_Suc)
    moreover have "case known y (lc_storage lc2) of
        None \<Rightarrow> count_list (xs @ [x]) y \<le> bucketId lc2 - 1
      | Some (f, d) \<Rightarrow> f \<le> count_list (xs @ [x]) y \<and> count_list (xs @ [x]) y \<le> f + d \<and> d \<le> bucketId lc2 - 1" for y
    proof -
      have "known y (lc_storage lc2) = (case known y (lc_storage lc1) of None \<Rightarrow> None
          | Some (f, d) \<Rightarrow> if \<not> f + d \<le> bucketId lc then Some (f, d) else None)"
        using known_filter [OF sorted] by (simp add: lc2_def lc_prune_def lc1_def)
      then show ?thesis using known [of y] b by (auto simp: lc2_def split: option.splits if_splits)
    qed
    moreover have "sorted_keys (lc_storage lc2)" using sorted by (simp add: lc2_def lc_prune_def lc1_def sorted_keys_filter)
    moreover have "lc_count lc2 = length (xs @ [x])" "bucketId lc2 = bucketId lc + 1" "bucketId lc = bucket_of lc"
      using ok by (simp_all add: lc2_def lc1_def lc_prune_def)
    ultimately have "lc_count lc2 = length (xs @ [x])" "bucketId lc2 = bucket_of lc2" "sorted_keys (lc_storage lc2)"
      "\<forall>y. case known y (lc_storage lc2) of
        None \<Rightarrow> count_list (xs @ [x]) y \<le> bucketId lc2 - 1
      | Some (f, d) \<Rightarrow> f \<le> count_list (xs @ [x]) y \<and> count_list (xs @ [x]) y \<le> f + d \<and> d \<le> bucketId lc2 - 1" by simp_all
    then show ?thesis unfolding eq lossy_ok_def by blast
  qed
qed

lemma lossy_ok_all: "lossy_ok xs (fold lc_add xs (LossyCounterInit err supp))"
  by (induction xs rule: rev_induct) (simp_all add: lossy_ok_init lossy_ok_add)

lemma lc_fields: "lc_error (fold lc_add xs lc) = lc_error lc \<and> lc_support (fold lc_add xs lc) = lc_support lc \<and>
    bucketWidth (fold lc_add xs lc) = bucketWidth lc"
  by (induction xs arbitrary: lc) (simp_all add: lc_add_def lc_prune_def Let_def)

lemma visited_filter: "visited thr (lc_forward thr True st) = filter (\<lambda>x. frequency_of x \<ge> thr) st"
proof -
  have walk: "visited thr (dropWhile (\<lambda>y. frequency_of y < thr) st) = filter (\<lambda>x. frequency_of x \<ge> thr) st" for st :: "('a \<times> nat \<times> nat) list"
    by (induction st) (auto simp: not_less)
  show ?thesis by (cases st) (use walk in \<open>auto simp: not_less not_le\<close>)
qed


section \<open>The order of phrase pairs\<close>

definition wf_pair :: "indexed_pair \<Rightarrow> bool" where
  "wf_pair p \<longleftrightarrow> length (pair_data p) = unat (srcPhraseLength p) + unat (tgtPhraseLength p) \<and>
     length (pair_alignment p) = 2 * unat (alignmentLength p)"

definition pair_key :: "indexed_pair \<Rightarrow> 8 word \<times> nat list \<times> 8 word \<times> 8 word \<times> nat list \<times> 8 word" where
  "pair_key p = (alignmentLength p, alignment_bytes p, srcPhraseLength p, tgtPhraseLength p, data_bytes p, orientationIndex p)"

lemma pair_less_key: "pair_less p q \<longleftrightarrow> pair_key p < pair_key q"
  by (auto simp: pair_less_def pair_key_def less_prod_def')

lemma token_bytes_inj: "token_bytes t = token_bytes u \<Longrightarrow> t = u"
proof -
  assume e: "token_bytes t = token_bytes u"
  have digits: "n = n mod 256 + 256 * (n div 256 mod 256) + 256 ^ 2 * (n div 256 ^ 2 mod 256) + 256 ^ 3 * (n div 256 ^ 3 mod 256)"
    if "n < 2 ^ 32" for n :: nat
  proof -
    define q1 q2 q3 where q: "q1 = n div 256" "q2 = q1 div 256" "q3 = q2 div 256"
    have pow: "n div 256 ^ 2 = q2" "n div 256 ^ 3 = q3" unfolding q by (simp_all flip: div_mult2_eq)
    have "q3 < 256" using that unfolding pow [symmetric] by (intro less_mult_imp_div_less) simp
    then have "q3 mod 256 = q3" by simp
    moreover have "n = 256 * q1 + n mod 256" "q1 = 256 * q2 + q1 mod 256" "q2 = 256 * q3 + q2 mod 256"
      unfolding q by simp_all
    ultimately show ?thesis unfolding pow q(1) [symmetric] by (simp add: power2_eq_square power3_eq_cube)
  qed
  have "unat t < 2 ^ 32" "unat u < 2 ^ 32" using unsigned_less [of t, where 'a = nat] unsigned_less [of u, where 'a = nat] by simp_all
  have bytes: "token_bytes v = [unat v mod 256, unat v div 256 mod 256, unat v div 256 ^ 2 mod 256, unat v div 256 ^ 3 mod 256]" for v
  proof -
    have "[0..<4] = [0, 1, 2, 3 :: nat]" by (simp add: upt_rec)
    then show ?thesis by (simp add: token_bytes_def)
  qed
  have "unat t mod 256 = unat u mod 256" "unat t div 256 mod 256 = unat u div 256 mod 256"
      "unat t div 256 ^ 2 mod 256 = unat u div 256 ^ 2 mod 256" "unat t div 256 ^ 3 mod 256 = unat u div 256 ^ 3 mod 256"
    using e unfolding bytes by simp_all
  then have "unat t mod 256 + 256 * (unat t div 256 mod 256) + 256 ^ 2 * (unat t div 256 ^ 2 mod 256) + 256 ^ 3 * (unat t div 256 ^ 3 mod 256) =
      unat u mod 256 + 256 * (unat u div 256 mod 256) + 256 ^ 2 * (unat u div 256 ^ 2 mod 256) + 256 ^ 3 * (unat u div 256 ^ 3 mod 256)"
    by (simp only:)
  then have "unat t = unat u"
    using digits [OF \<open>unat t < 2 ^ 32\<close>, symmetric] digits [OF \<open>unat u < 2 ^ 32\<close>, symmetric] by (simp only:)
  then show "t = u" by (rule unsigned_word_eqI)
qed


lemma token_bytes_length [simp]: "length (token_bytes t) = 4"
  by (simp add: token_bytes_def)

lemma concat_bytes_inj:
  "length ts = length us \<Longrightarrow> concat (map token_bytes ts) = concat (map token_bytes us) \<Longrightarrow> ts = us"
  by (induction ts us rule: list_induct2) (auto dest: token_bytes_inj)

lemma pair_key_inj:
  assumes "wf_pair p" "wf_pair q" "pair_key p = pair_key q"
  shows "p = q"
proof -
  have f: "alignmentLength p = alignmentLength q" "srcPhraseLength p = srcPhraseLength q" "tgtPhraseLength p = tgtPhraseLength q"
      "orientationIndex p = orientationIndex q" "alignment_bytes p = alignment_bytes q" "data_bytes p = data_bytes q"
    using assms(3) by (simp_all add: pair_key_def)
  have "pair_data p = pair_data q"
    by (rule concat_bytes_inj) (use assms(1,2) f in \<open>simp_all add: wf_pair_def data_bytes_def\<close>)
  moreover have "pair_alignment p = pair_alignment q"
  proof -
    have "map unat (pair_alignment p) = map unat (pair_alignment q)" using assms(1,2) f by (simp add: wf_pair_def alignment_bytes_def)
    then show ?thesis by (rule map_injective) (auto intro: injI unsigned_word_eqI)
  qed
  ultimately show ?thesis using f by (cases p; cases q) simp
qed

text \<open>The pairs the constructor makes, with the order of the map.\<close>

typedef stored_pair = "{p. wf_pair p}"
proof
  show "IndexedPair [] [] 0 0 0 0 \<in> {p. wf_pair p}" by (simp add: wf_pair_def)
qed

instantiation stored_pair :: linorder
begin

definition less_stored_pair :: "stored_pair \<Rightarrow> stored_pair \<Rightarrow> bool" where
  "less_stored_pair p q \<longleftrightarrow> pair_less (Rep_stored_pair p) (Rep_stored_pair q)"

definition less_eq_stored_pair :: "stored_pair \<Rightarrow> stored_pair \<Rightarrow> bool" where
  "less_eq_stored_pair p q \<longleftrightarrow> p = q \<or> pair_less (Rep_stored_pair p) (Rep_stored_pair q)"

instance
proof
  fix p q r :: stored_pair
  let ?k = "\<lambda>p. pair_key (Rep_stored_pair p)"
  have inj: "?k p = ?k q \<Longrightarrow> p = q" for p q
    using pair_key_inj [of "Rep_stored_pair p" "Rep_stored_pair q"] Rep_stored_pair [of p] Rep_stored_pair [of q]
    by (simp add: Rep_stored_pair_inject)
  have le: "p \<le> q \<longleftrightarrow> ?k p \<le> ?k q" for p q
    unfolding less_eq_stored_pair_def pair_less_key using inj by (auto simp: order.order_iff_strict)
  have lt: "p < q \<longleftrightarrow> ?k p < ?k q" for p q by (simp add: less_stored_pair_def pair_less_key)
  show "p < q \<longleftrightarrow> p \<le> q \<and> \<not> q \<le> p" unfolding le lt by (rule less_le_not_le)
  show "p \<le> p" unfolding le by simp
  show "p \<le> q \<Longrightarrow> q \<le> r \<Longrightarrow> p \<le> r" unfolding le by (rule order_trans)
  show "p \<le> q \<Longrightarrow> q \<le> p \<Longrightarrow> p = q" unfolding le using inj by (meson antisym)
  show "p \<le> q \<or> q \<le> p" unfolding le by (rule linear)
qed

end

lemma pair_init_fields:
  assumes "length src < 256" "length tgt < 256" "length al < 256"
  shows "IndexedPhrasesPairInit src tgt orient al =
    Some (IndexedPair (src @ tgt) (concat (map (\<lambda>(s, t). [s, t]) al)) orient (of_nat (length src)) (of_nat (length tgt)) (of_nat (length al)))"
  using assms by (simp add: IndexedPhrasesPairInit_def Let_def unat_of_nat take_bit_eq_mod)

lemma alignment_pairs: "i < length al \<Longrightarrow> concat (map (\<lambda>(s, t). [s, t]) al) ! (2 * i) = fst (al ! i) \<and>
    concat (map (\<lambda>(s, t). [s, t]) al) ! (2 * i + 1) = snd (al ! i)"
proof (induction al arbitrary: i)
  case (Cons a al)
  obtain s t where "a = (s, t)" by force
  then show ?case using Cons by (cases i) auto
qed simp


section \<open>What the iterators list\<close>

lemma lc_items_filter: "lc_items lc = filter (\<lambda>x. frequency_of x \<ge> lc_threshold False lc) (lc_storage lc)"
  by (simp add: lc_items_def lc_begin_def visited_filter)

lemma sorted_keys_distinct: "sorted_keys st \<Longrightarrow> distinct (map fst st)"
  unfolding sorted_keys_def by (simp add: strict_sorted_iff)

lemma lossy_known_iff: "lossy_ok xs lc \<Longrightarrow> (x, f, d) \<in> set (lc_storage lc) \<longleftrightarrow> known x (lc_storage lc) = Some (f, d)"
  by (simp add: lossy_ok_def known_def sorted_keys_distinct)

lemma bucket_error:
  fixes err :: rat
  assumes "0 < err" and "bucketWidth lc = nat \<lceil>1 / err\<rceil>"
  shows "of_nat (bucket_of lc - 1) \<le> err * of_nat (lc_count lc)"
proof -
  define w where "w = bucketWidth lc"
  have pos: "0 < \<lceil>1 / err\<rceil>" using assms(1) by simp
  then have w: "0 < w" "1 / err \<le> of_nat w" using assms(2) by (simp_all add: w_def le_of_int_ceiling)
  then have ew: "1 \<le> err * of_nat w" using assms(1) by (simp add: field_simps)
  have "(of_nat (lc_count lc div w) :: rat) \<le> of_nat (lc_count lc div w) * (err * of_nat w)"
    using mult_left_mono [OF ew, of "of_nat (lc_count lc div w)"] by simp
  also have "\<dots> = err * of_nat (lc_count lc div w * w)" by simp
  also have "\<dots> \<le> err * of_nat (lc_count lc)"
    using assms(1) by (intro mult_left_mono) (simp_all only: of_nat_le_iff div_times_less_eq_dividend less_imp_le)
  finally show ?thesis using w(1) by (simp add: bucket_of_def w_def [symmetric])
qed

lemma lossy_bounds:
  assumes "0 < err" and "lc = fold lc_add xs (LossyCounterInit err supp)"
  shows "case known x (lc_storage lc) of
      None \<Rightarrow> of_nat (count_list xs x) \<le> err * of_nat (length xs)
    | Some (f, d) \<Rightarrow> f \<le> count_list xs x \<and> (of_nat (count_list xs x) :: rat) \<le> of_nat f + err * of_nat (length xs)"
proof -
  have ok: "lossy_ok xs lc" unfolding assms(2) by (rule lossy_ok_all)
  have "bucketWidth lc = nat \<lceil>1 / err\<rceil>" using assms(1) unfolding assms(2) by (simp add: lc_fields LossyCounterInit_def)
  then have "of_nat (bucketId lc - 1) \<le> err * of_nat (length xs)"
    using bucket_error [OF assms(1), of lc] ok by (simp add: lossy_ok_def)
  then have below: "of_nat n \<le> err * of_nat (length xs)" if "n \<le> bucketId lc - 1" for n
    using that by (meson of_nat_mono order_trans)
  show ?thesis
  proof (cases "known x (lc_storage lc)")
    case None
    have "count_list xs x \<le> bucketId lc - 1"
      using ok [unfolded lossy_ok_def, THEN conjunct2, THEN conjunct2, THEN conjunct2, THEN spec [of _ x]] None by simp
    then have "of_nat (count_list xs x) \<le> err * of_nat (length xs)" by (rule below)
    then show ?thesis using None by simp
  next
    case (Some v)
    obtain f d where "v = (f, d)" by force
    then have "known x (lc_storage lc) = Some (f, d)" using Some by simp
    then have b: "f \<le> count_list xs x" "count_list xs x \<le> f + d" "d \<le> bucketId lc - 1"
      using ok unfolding lossy_ok_def by (auto split: option.splits)
    have "(of_nat (count_list xs x) :: rat) \<le> of_nat (f + d)" using b(2) by (rule of_nat_mono)
    then show ?thesis using b(1) below [OF b(3)] \<open>known x _ = Some (f, d)\<close> by simp
  qed
qed

lemma lossy_threshold: "lc_threshold False (fold lc_add xs (LossyCounterInit err supp)) = (supp - err) * of_nat (length xs)"
  using lossy_ok_all [of xs err supp] by (simp add: lc_threshold_def lc_fields LossyCounterInit_def lossy_ok_def)

text \<open>C26: Lossy counting keeps its promise: an item that makes up the share \<open>supp\<close> of the stream is listed; one
  whose share is below \<open>supp - err\<close> is not; and the frequency given with a listed one is at most its number
  of occurrences and at most \<open>err * N\<close> below it.
\<close>

theorem lossy_counting_guarantee:
  assumes "0 < err" and "err < supp"
  shows "let lc = fold lc_add xs (LossyCounterInit err supp); N = of_nat (length xs) in
    (\<forall>x. supp * N \<le> of_nat (count_list xs x) \<and> x \<in> set xs \<longrightarrow> x \<in> fst ` set (lc_items lc)) \<and>
    (\<forall>(x, f, d) \<in> set (lc_items lc). (supp - err) * N \<le> of_nat (count_list xs x) \<and>
        f \<le> count_list xs x \<and> of_nat (count_list xs x) \<le> of_nat f + err * N)"
proof -
  define lc where "lc = fold lc_add xs (LossyCounterInit err supp)"
  define N :: rat where "N = of_nat (length xs)"
  have ok: "lossy_ok xs lc" unfolding lc_def by (rule lossy_ok_all)
  note bounds = lossy_bounds [OF assms(1) lc_def, folded N_def]
  have items: "(x, f, d) \<in> set (lc_items lc) \<longleftrightarrow> known x (lc_storage lc) = Some (f, d) \<and> (supp - err) * N \<le> of_nat f" for x f d
    using lossy_known_iff [OF ok] lossy_threshold [of xs err supp]
    by (auto simp: lc_items_filter lc_def [symmetric] N_def frequency_of_def)
  have "x \<in> fst ` set (lc_items lc)" if big: "supp * N \<le> of_nat (count_list xs x)" and mem: "x \<in> set xs" for x
  proof -
    have "0 < N" using mem by (auto simp: N_def)
    then have "err * N < supp * N" using assms by simp
    then obtain f d where k: "known x (lc_storage lc) = Some (f, d)"
      using bounds [of x] big by (cases "known x (lc_storage lc)") auto
    then have "(supp - err) * N \<le> of_nat f" using bounds [of x] big by (simp add: algebra_simps)
    then show ?thesis using items [of x f d] k by force
  qed
  moreover have "(supp - err) * N \<le> of_nat (count_list xs x) \<and> f \<le> count_list xs x \<and> of_nat (count_list xs x) \<le> of_nat f + err * N"
    if "(x, f, d) \<in> set (lc_items lc)" for x f d
  proof -
    have "known x (lc_storage lc) = Some (f, d)" "(supp - err) * N \<le> of_nat f" using that items by simp_all
    moreover from this have "f \<le> count_list xs x" using bounds [of x] by simp
    moreover from this have "(of_nat f :: rat) \<le> of_nat (count_list xs x)" by (rule of_nat_mono)
    ultimately show ?thesis using bounds [of x] by simp
  qed
  ultimately show ?thesis by (auto simp: Let_def lc_def N_def)
qed

lemma lossy_counting_guarantee_witness:
  "fst ` set (lc_items (fold lc_add [7, 3, 7, 7, 4, 7 :: nat] (LossyCounterInit (1 / 3) (1 / 2)))) = {7} \<and>
   7 \<in> fst ` set (lc_items (fold lc_add [7, 3, 7, 7, 4, 7 :: nat] (LossyCounterInit (1 / 3) (1 / 2))))"
proof
  show "fst ` set (lc_items (fold lc_add [7, 3, 7, 7, 4, 7 :: nat] (LossyCounterInit (1 / 3) (1 / 2)))) = {7}"
    by code_simp
  show "7 \<in> fst ` set (lc_items (fold lc_add [7, 3, 7, 7, 4, 7 :: nat] (LossyCounterInit (1 / 3) (1 / 2))))"
    using lossy_counting_guarantee [of "1 / 3" "1 / 2" "[7, 3, 7, 7, 4, 7 :: nat]"] by (auto simp: Let_def)
qed

text \<open>C27: What the constructor of a phrase pair stores is what its accessors return, when the phrases and the
  alignment have fewer than 256 elements; longer ones are written beyond the arrays.
\<close>

theorem phrase_pair_roundtrip:
  "IndexedPhrasesPairInit src tgt orient al =
     (if length src < 256 \<and> length tgt < 256 \<and> length al < 256
      then Some (IndexedPair (src @ tgt) (concat (map (\<lambda>(s, t). [s, t]) al)) orient
             (of_nat (length src)) (of_nat (length tgt)) (of_nat (length al)))
      else None) \<and>
   (\<forall>p. IndexedPhrasesPairInit src tgt orient al = Some p \<longrightarrow>
      srcPhrase p = src \<and> tgtPhrase p = tgt \<and> pairAlignment p = al \<and> orientationIndex p = orient \<and> wf_pair p)"
proof (cases "length src < 256 \<and> length tgt < 256 \<and> length al < 256")
  case True
  have [simp]: "length (concat (map (\<lambda>(s, t). [s, t]) al)) = 2 * length al" by (induction al) auto
  show ?thesis using True pair_init_fields [of src tgt al orient]
    by (auto simp: srcPhrase_def tgtPhrase_def pairAlignment_def wf_pair_def unat_of_nat take_bit_eq_mod
        alignment_pairs [simplified] intro!: nth_equalityI)
next
  case False
  have wrap: "\<not> n \<le> n mod 256" if "\<not> n < 256" for n :: nat using that mod_less_divisor [of 256 n] by linarith
  have "IndexedPhrasesPairInit src tgt orient al = None"
  proof (cases "length al < 256 \<and> length tgt < 256")
    case True
    then have "\<not> length src < 256" using False by simp
    moreover have "length src mod 256 + 256 \<le> length src" using \<open>\<not> length src < 256\<close>
      by (metis add.commute le_add_diff_inverse mod_less_eq_dividend mod_add_self1 nat_add_left_cancel_le not_less)
    ultimately show ?thesis using True by (simp add: IndexedPhrasesPairInit_def Let_def unat_of_nat take_bit_eq_mod)
  next
    case False
    then show ?thesis using wrap [of "length al"] wrap [of "length tgt"]
      by (auto simp: IndexedPhrasesPairInit_def Let_def unat_of_nat take_bit_eq_mod)
  qed
  then show ?thesis using False by simp
qed

lemma phrase_pair_roundtrip_witness:
  "IndexedPhrasesPairInit [1, 2] [3] 0 [(0, 0), (1, 0)] \<noteq> None \<and>
   IndexedPhrasesPairInit (replicate 256 1) [3] 0 [] = None \<and>
   map_option srcPhrase (IndexedPhrasesPairInit [1, 2] [3] 0 [(0, 0), (1, 0)]) = Some [1, 2]"
  using phrase_pair_roundtrip [of "[1, 2]" "[3]" 0 "[(0, 0), (1, 0)]"] phrase_pair_roundtrip [of "replicate 256 1" "[3]" 0 "[]"]
  by simp



end
