(* ===== verification/Cube_Pruning.thy ===== *)
theory Cube_Pruning
  imports Search_Normal Word_Lattice
begin

text \<open>
  Cube pruning (\<open>BitmapContainer.cpp\<close>, \<open>HypothesisStackCubePruning.cpp\<close>, \<open>SearchCubePruning.cpp\<close>). A stack
  keeps its hypotheses and a container for each coverage; a container has an edge for each pair of an
  earlier container and a span, and an edge is a grid, the hypotheses of the earlier container by the
  translation options of the span, of which cells are made into hypotheses from the corner on, the best of
  the container's queue first. What the order of pointers decides is an argument: which of the best
  elements a priority queue gives, the order of a set of edges, the order of equal scores after \<open>std::sort\<close>.
  \<open>None\<close> is a failed assertion, an element read from an empty container, or a null pointer followed.
\<close>

section \<open>State\<close>

record 'st backwards_edge =
  m_initialized :: bool
  m_hypotheses :: "'st hypothesis list"
  m_translations :: "trans_opt list"
  m_seenPosition :: "int set"

record 'st queue_item =
  m_hypothesis_pos :: nat
  m_translation_pos :: nat
  m_hypothesis :: "'st hypothesis"
  m_edge :: nat

record 'st bitmap_container =
  bc_bitmap :: words_bitmap
  bc_hypotheses :: "'st hypothesis list"
  m_edges :: "'st backwards_edge list"
  m_queue :: "'st queue_item list"
  m_numStackInsertions :: nat

record 'st cube_stack =
  cs_hypos :: "'st hypothesis list"
  cs_bestScore :: score
  cs_worstScore :: score
  m_bitmapAccessor :: "'st bitmap_container list"

record 'st cube_search =
  cube_stacks :: "'st cube_stack list"
  cube_hypoId :: nat

text \<open>The settings, and the choices the code leaves to addresses and to the library.\<close>

record 'st cube_config =
  popLimit :: nat
  diversity :: nat
  weightDistortion :: rat
  pick_item :: "'st queue_item list \<Rightarrow> nat"
  pick_container :: "nat \<Rightarrow> (nat \<times> score option) list \<Rightarrow> nat"
  edge_order :: "'st backwards_edge list \<Rightarrow> nat list"
  sort_hypos :: "('st hypothesis \<Rightarrow> score) \<Rightarrow> 'st hypothesis list \<Rightarrow> 'st hypothesis list"

definition BitmapContainerInit :: "words_bitmap \<Rightarrow> 'st bitmap_container" where
  "BitmapContainerInit b = \<lparr>bc_bitmap = b, bc_hypotheses = [], m_edges = [], m_queue = [], m_numStackInsertions = 0\<rparr>"

definition CubeStackInit :: "'st cube_stack" where
  "CubeStackInit = \<lparr>cs_hypos = [], cs_bestScore = MinusInf, cs_worstScore = MinusInf, m_bitmapAccessor = []\<rparr>"

definition SearchCubePruningInit :: "'st search_env \<Rightarrow> 'st cube_search" where
  "SearchCubePruningInit env = \<lparr>cube_stacks = replicate (sourceSize env + 1) CubeStackInit, cube_hypoId = 0\<rparr>"

section \<open>The stack\<close>

definition CubePruneToSize :: "stack_config \<Rightarrow> nat \<Rightarrow> 'st cube_stack \<Rightarrow> 'st cube_stack option" where
  "CubePruneToSize cfg newSize st =
     (if length (cs_hypos st) > newSize
      then let bestScores = rev (sort (filter (\<lambda>score. score > cs_bestScore st + Fin (m_beamWidth cfg)) (map total (cs_hypos st))));
               minNewSizeHeapSize = (if newSize > length bestScores then length bestScores else newSize)
           in if bestScores = [] then None
              else let scoreThreshold = bestScores ! (minNewSizeHeapSize - 1)
                   in Some (st\<lparr>cs_hypos := filter (\<lambda>hypo. \<not> total hypo < scoreThreshold) (cs_hypos st),
                         cs_worstScore := scoreThreshold\<rparr>)
      else Some st)"

definition cube_note_scores :: "stack_config \<Rightarrow> 'st hypothesis \<Rightarrow> 'st cube_stack \<Rightarrow> 'st cube_stack" where
  "cube_note_scores cfg hypo st =
     (if total hypo > cs_bestScore st
      then let st = st\<lparr>cs_bestScore := total hypo\<rparr>
           in if cs_bestScore st + Fin (m_beamWidth cfg) > cs_worstScore st
              then st\<lparr>cs_worstScore := cs_bestScore st + Fin (m_beamWidth cfg)\<rparr> else st
      else st)"

definition CubeAdd :: "('st \<Rightarrow> 'st \<Rightarrow> int) \<Rightarrow> stack_config \<Rightarrow> 'st hypothesis \<Rightarrow> 'st cube_stack \<Rightarrow> ('st cube_stack \<times> bool) option" where
  "CubeAdd cmp cfg hypo st =
     (if set_find (RecombineCompare cmp) hypo (cs_hypos st) \<noteq> None then Some (st, False)
      else let st = cube_note_scores cfg hypo (st\<lparr>cs_hypos := set_insert (RecombineCompare cmp) hypo (cs_hypos st)\<rparr>)
           in if length (cs_hypos st) > sz_sub (sz_add (m_maxHypoStackSize cfg) (m_maxHypoStackSize cfg)) 1
              then map_option (\<lambda>st. (st, True)) (CubePruneToSize cfg (m_maxHypoStackSize cfg) st)
              else Some (st, True))"

definition CubeDetach :: "('st \<Rightarrow> 'st \<Rightarrow> int) \<Rightarrow> 'st hypothesis \<Rightarrow> 'st cube_stack \<Rightarrow> 'st cube_stack" where
  "CubeDetach cmp h st = st\<lparr>cs_hypos := set_erase (RecombineCompare cmp) h (cs_hypos st)\<rparr>"

definition CubeAddPrune :: "('st \<Rightarrow> 'st \<Rightarrow> int) \<Rightarrow> stack_config \<Rightarrow> 'st hypothesis \<Rightarrow> 'st cube_stack \<Rightarrow> ('st cube_stack \<times> bool) option" where
  "CubeAddPrune cmp cfg hypo st =
     (if total hypo < cs_worstScore st then Some (st, False)
      else case CubeAdd cmp cfg hypo st of
             None \<Rightarrow> None
           | Some (st, True) \<Rightarrow> Some (st, True)
           | Some (st, False) \<Rightarrow>
               (case set_find (RecombineCompare cmp) hypo (cs_hypos st) of
                  None \<Rightarrow> None
                | Some hypoExisting \<Rightarrow>
                    if total hypo > total hypoExisting
                    then (let hypo = (if m_nBestIsEnabled cfg then AddArc hypo hypoExisting else hypo)
                          in case CubeAdd cmp cfg hypo (CubeDetach cmp hypoExisting st) of
                               None \<Rightarrow> None
                             | Some (st, added) \<Rightarrow> if \<not> added then None else Some (st, False))
                    else Some (if m_nBestIsEnabled cfg
                               then st\<lparr>cs_hypos := map (\<lambda>g. if RecombineCompare cmp hypo g = 0 then AddArc g hypo else g)
                                         (cs_hypos st)\<rparr>
                               else st, False)))"

definition AddInitial :: "('st \<Rightarrow> 'st \<Rightarrow> int) \<Rightarrow> stack_config \<Rightarrow> 'st hypothesis \<Rightarrow> 'st cube_stack \<Rightarrow> 'st cube_stack option" where
  "AddInitial cmp cfg hypo st =
     (case CubeAdd cmp cfg hypo st of
        None \<Rightarrow> None
      | Some (st, added) \<Rightarrow>
          if \<not> added then None else Some (st\<lparr>m_bitmapAccessor := [BitmapContainerInit (coverage hypo)]\<rparr>))"

definition CubeGetBestHypothesis :: "'st cube_stack \<Rightarrow> 'st hypothesis option" where
  "CubeGetBestHypothesis st =
     (case cs_hypos st of
        [] \<Rightarrow> None
      | h # hs \<Rightarrow> Some (fold (\<lambda>hypo bestHypo. if total hypo > total bestHypo then hypo else bestHypo) hs h))"

definition CubeCleanupArcList :: "stack_config \<Rightarrow> 'st cube_stack \<Rightarrow> 'st cube_stack" where
  "CubeCleanupArcList cfg st =
     (if \<not> m_nBestIsEnabled cfg then st
      else st\<lparr>cs_hypos := map (HypoCleanupArcList (nBestSize cfg) (distinctNBest cfg)) (cs_hypos st)\<rparr>)"

section \<open>Edges\<close>

text \<open>The constructor: hypotheses too far away are left out, the others sorted by what they score with the jump.\<close>

definition edge_reaches :: "'st search_env \<Rightarrow> words_range \<Rightarrow> 'st hypothesis \<Rightarrow> bool" where
  "edge_reaches env transOptRange hypo =
     (if BitmapNumWordsCovered (coverage hypo) = 0
      then to_int32 (int (m_startPos transOptRange)) \<le> maxDistortion (stack_cfg env)
      else distortionDistance env (m_currSourceWordsRange (core hypo)) transOptRange \<le> maxDistortion (stack_cfg env))"

definition score_with_distortion :: "'st search_env \<Rightarrow> 'st cube_config \<Rightarrow> words_range \<Rightarrow> 'st hypothesis \<Rightarrow> score" where
  "score_with_distortion env cc transOptRange hypo =
     HypoGetScore hypo +
       Fin (- of_int (distortionDistance env (m_currSourceWordsRange (core hypo)) transOptRange) * weightDistortion cc)"

definition BackwardsEdgeInit ::
    "'st search_env \<Rightarrow> 'st cube_config \<Rightarrow> 'st hypothesis list \<Rightarrow> trans_opt list \<Rightarrow> 'st backwards_edge option" where
  "BackwardsEdgeInit env cc prevHypotheses translations =
     (let edge = (\<lambda>hyps. \<lparr>m_initialized = False, m_hypotheses = hyps, m_translations = translations, m_seenPosition = {}\<rparr>)
      in if prevHypotheses = [] \<or> translations = [] then Some (edge [])
         else if maxDistortion (stack_cfg env) = -1 then Some (edge prevHypotheses)
         else let transOptRange = to_range (translations ! 0);
                  hyps = filter (edge_reaches env transOptRange) prevHypotheses
              in if length translations > 1 \<and> \<not> to_futureScore (translations ! 0) \<ge> to_futureScore (translations ! 1) then None
                 else if length hyps > 1 \<and> \<not> total (hyps ! 0) \<ge> total (hyps ! 1) then None
                 else Some (edge (sort_hypos cc (score_with_distortion env cc transOptRange) hyps)))"

text \<open>The key of a cell is a \<open>size_t\<close> cut to an \<open>int\<close>.\<close>

definition seen_key :: "nat \<Rightarrow> nat \<Rightarrow> int" where
  "seen_key x y = to_int32 (int (sz_add (x * 2 ^ 16 mod size_bound) y))"

definition SeenPosition :: "nat \<Rightarrow> nat \<Rightarrow> 'st backwards_edge \<Rightarrow> bool" where
  "SeenPosition x y edge \<longleftrightarrow> seen_key x y \<in> m_seenPosition edge"

definition SetSeenPosition :: "nat \<Rightarrow> nat \<Rightarrow> 'st backwards_edge \<Rightarrow> 'st backwards_edge option" where
  "SetSeenPosition x y edge =
     (if x < 2 ^ 17 \<and> y < 2 ^ 17 then Some (edge\<lparr>m_seenPosition := insert (seen_key x y) (m_seenPosition edge)\<rparr>) else None)"

text \<open>A new hypothesis is made without a constraint (a null pointer).\<close>

definition CreateHypothesis :: "'st search_env \<Rightarrow> 'st hypothesis \<Rightarrow> trans_opt \<Rightarrow> nat \<Rightarrow> 'st hypothesis option" where
  "CreateHypothesis env hypothesis transOpt hypoId =
     (case Create (maxNumFactors env) None hypothesis transOpt hypoId of
        Created newHypo \<Rightarrow> CalcScore (features env) (allWeights env) (futureScores env) newHypo
      | _ \<Rightarrow> None)"

section \<open>Containers\<close>

definition Enqueue :: "nat \<Rightarrow> nat \<Rightarrow> 'st hypothesis \<Rightarrow> nat \<Rightarrow> 'st bitmap_container \<Rightarrow> 'st bitmap_container" where
  "Enqueue x y hypothesis e bc =
     bc\<lparr>m_queue := m_queue bc @ [\<lparr>m_hypothesis_pos = x, m_translation_pos = y, m_hypothesis = hypothesis, m_edge = e\<rparr>]\<rparr>"

definition Top :: "'st cube_config \<Rightarrow> 'st bitmap_container \<Rightarrow> 'st queue_item" where
  "Top cc bc = m_queue bc ! pick_item cc (m_queue bc)"

definition remove_nth :: "nat \<Rightarrow> 'a list \<Rightarrow> 'a list" where
  "remove_nth i xs = take i xs @ drop (i + 1) xs"

definition Dequeue :: "'st cube_config \<Rightarrow> 'st bitmap_container \<Rightarrow> ('st queue_item \<times> 'st bitmap_container) option" where
  "Dequeue cc bc =
     (if m_queue bc = [] then None
      else Some (Top cc bc, bc\<lparr>m_queue := remove_nth (pick_item cc (m_queue bc)) (m_queue bc)\<rparr>))"

definition push_cell :: "'st search_env \<Rightarrow> nat \<Rightarrow> nat \<Rightarrow> nat \<Rightarrow> 'st bitmap_container \<times> nat \<Rightarrow> ('st bitmap_container \<times> nat) option" where
  "push_cell env e x y s =
     (let (bc, hypoId) = s; edge = m_edges bc ! e
      in case SetSeenPosition x y edge of
           None \<Rightarrow> None
         | Some edge' \<Rightarrow>
             (case CreateHypothesis env (m_hypotheses edge ! x) (m_translations edge ! y) hypoId of
                None \<Rightarrow> None
              | Some newHypo \<Rightarrow> Some (Enqueue x y newHypo e (bc\<lparr>m_edges := (m_edges bc)[e := edge']\<rparr>), hypoId + 1)))"

definition mark_initialized :: "nat \<Rightarrow> 'st bitmap_container \<Rightarrow> 'st bitmap_container" where
  "mark_initialized e bc = bc\<lparr>m_edges := (m_edges bc)[e := (m_edges bc ! e)\<lparr>m_initialized := True\<rparr>]\<rparr>"

definition EdgeInitialize :: "'st search_env \<Rightarrow> nat \<Rightarrow> 'st bitmap_container \<times> nat \<Rightarrow> ('st bitmap_container \<times> nat) option" where
  "EdgeInitialize env e s =
     (let edge = m_edges (fst s) ! e
      in map_option (\<lambda>(bc, hypoId). (mark_initialized e bc, hypoId))
           (if m_hypotheses edge = [] \<or> m_translations edge = [] then Some s else push_cell env e 0 0 s))"

definition push_successor ::
    "'st search_env \<Rightarrow> nat \<Rightarrow> nat \<Rightarrow> nat \<Rightarrow> 'st bitmap_container \<times> nat \<Rightarrow> ('st bitmap_container \<times> nat) option" where
  "push_successor env e x y s =
     (let edge = m_edges (fst s) ! e
      in if x < length (m_hypotheses edge) \<and> y < length (m_translations edge) \<and> \<not> SeenPosition x y edge
         then push_cell env e x y s else Some s)"

definition PushSuccessors ::
    "'st search_env \<Rightarrow> nat \<Rightarrow> nat \<Rightarrow> nat \<Rightarrow> 'st bitmap_container \<times> nat \<Rightarrow> ('st bitmap_container \<times> nat) option" where
  "PushSuccessors env e x y s = Option.bind (push_successor env e x (y + 1) s) (push_successor env e (x + 1) y)"

fun InitializeEdges ::
    "'st search_env \<Rightarrow> nat list \<Rightarrow> 'st bitmap_container \<times> nat \<Rightarrow> ('st bitmap_container \<times> nat) option" where
  "InitializeEdges env [] s = Some s"
| "InitializeEdges env (e # es) s = Option.bind (EdgeInitialize env e s) (InitializeEdges env es)"

text \<open>One hypothesis from the queue to the stack; the state is the stack, the container and the next identifier.\<close>

definition ProcessBestHypothesis ::
    "'st search_env \<Rightarrow> 'st cube_config \<Rightarrow> 'st cube_stack \<times> 'st bitmap_container \<times> nat \<Rightarrow>
     ('st cube_stack \<times> 'st bitmap_container \<times> nat) option" where
  "ProcessBestHypothesis env cc s =
     (let (st, bc, hypoId) = s
      in case Dequeue cc bc of
           None \<Rightarrow> Some s
         | Some (item, bc) \<Rightarrow>
             if m_queue bc \<noteq> [] \<and> \<not> total (m_hypothesis item) \<ge> total (m_hypothesis (Top cc bc)) then None
             else (case CubeAddPrune (state_compare env) (stack_cfg env) (m_hypothesis item) st of
                     None \<Rightarrow> None
                   | Some (st, newstackentry) \<Rightarrow>
                       let bc = (if newstackentry then bc\<lparr>m_numStackInsertions := m_numStackInsertions bc + 1\<rparr> else bc)
                       in map_option (Pair st)
                            (PushSuccessors env (m_edge item) (m_hypothesis_pos item) (m_translation_pos item) (bc, hypoId))))"

partial_function (option) EnsureMinStackHyps ::
    "'st search_env \<Rightarrow> 'st cube_config \<Rightarrow> nat \<Rightarrow> 'st cube_stack \<times> 'st bitmap_container \<times> nat \<Rightarrow>
     ('st cube_stack \<times> 'st bitmap_container \<times> nat) option" where
  "EnsureMinStackHyps env cc minNumHyps s =
     (if m_queue (fst (snd s)) \<noteq> [] \<and> m_numStackInsertions (fst (snd s)) < minNumHyps
      then Option.bind (ProcessBestHypothesis env cc s) (EnsureMinStackHyps env cc minNumHyps)
      else Some s)"

definition AddHypothesis :: "'st hypothesis \<Rightarrow> 'st bitmap_container \<Rightarrow> 'st bitmap_container" where
  "AddHypothesis h bc = bc\<lparr>bc_hypotheses := bc_hypotheses bc @ [h]\<rparr>"

definition AddBackwardsEdge :: "'st backwards_edge \<Rightarrow> 'st bitmap_container \<Rightarrow> 'st bitmap_container" where
  "AddBackwardsEdge edge bc = bc\<lparr>m_edges := m_edges bc @ [edge]\<rparr>"

definition SortHypotheses :: "'st cube_config \<Rightarrow> 'st bitmap_container \<Rightarrow> 'st bitmap_container" where
  "SortHypotheses cc bc = bc\<lparr>bc_hypotheses := sort_hypos cc total (bc_hypotheses bc)\<rparr>"

section \<open>Containers of a stack\<close>

definition container_compare :: "'st bitmap_container \<Rightarrow> 'st bitmap_container \<Rightarrow> int" where
  "container_compare a b = BitmapCompare (bc_bitmap a) (bc_bitmap b)"

definition with_bitmap :: "words_bitmap \<Rightarrow> ('st bitmap_container \<Rightarrow> 'st bitmap_container) \<Rightarrow> 'st cube_stack \<Rightarrow> 'st cube_stack" where
  "with_bitmap b f st =
     st\<lparr>m_bitmapAccessor := map (\<lambda>bc. if BitmapCompare b (bc_bitmap bc) = 0 then f bc else bc) (m_bitmapAccessor st)\<rparr>"

definition SetBitmapAccessor :: "words_bitmap \<Rightarrow> 'st backwards_edge \<Rightarrow> 'st cube_stack \<Rightarrow> 'st cube_stack" where
  "SetBitmapAccessor newBitmap edge st =
     with_bitmap newBitmap (AddBackwardsEdge edge)
       (st\<lparr>m_bitmapAccessor := set_insert container_compare (BitmapContainerInit newBitmap) (m_bitmapAccessor st)\<rparr>)"

text \<open>A bitmap without a container would be given a null pointer.\<close>

fun AddHypothesesToBitmapContainers :: "'st hypothesis list \<Rightarrow> 'st cube_stack \<Rightarrow> 'st cube_stack option" where
  "AddHypothesesToBitmapContainers [] st = Some st"
| "AddHypothesesToBitmapContainers (h # hs) st =
     (if set_find container_compare (BitmapContainerInit (coverage h)) (m_bitmapAccessor st) = None then None
      else AddHypothesesToBitmapContainers hs (with_bitmap (coverage h) (AddHypothesis h) st))"

section \<open>The search\<close>

definition CheckDistortion :: "'st search_env \<Rightarrow> words_bitmap \<Rightarrow> nat \<Rightarrow> nat \<Rightarrow> bool" where
  "CheckDistortion env b startPos endPos =
     (let hypoFirstGapPos = GetFirstGapPos b
      in if \<not> Check (maxDistortion (stack_cfg env)) (reorderingConstraint env) b startPos endPos then False
         else if maxDistortion (stack_cfg env) < 0 then True
         else if hypoFirstGapPos = startPos then True
         else \<not> distortionDistance env (WordsRange startPos endPos) (WordsRange hypoFirstGapPos hypoFirstGapPos) >
              maxDistortion (stack_cfg env))"

definition todo_spans :: "'st search_env \<Rightarrow> words_bitmap \<Rightarrow> (nat \<times> nat) list" where
  "todo_spans env b =
     concat (map (\<lambda>startPos.
        let maxSize = min (sourceSize env - startPos) (maxPhraseLength env);
            ends = startPos # takeWhile (\<lambda>endPos. \<not> GetValue b endPos) [startPos + 1..<startPos + maxSize]
        in filter (\<lambda>(startPos, endPos). CheckDistortion env b startPos endPos) (map (Pair startPos) ends))
       (filter (\<lambda>startPos. \<not> GetValue b startPos) [0..<sourceSize env]))"

definition forward_todo ::
    "'st search_env \<Rightarrow> 'st cube_config \<Rightarrow> 'st bitmap_container \<Rightarrow> nat \<times> nat \<Rightarrow> 'st cube_search \<Rightarrow> 'st cube_search option" where
  "forward_todo env cc bitmapContainer sp s =
     (let (startPos, endPos) = sp;
          newBitmap = SetValueRange (bc_bitmap bitmapContainer) startPos endPos True;
          numCovered = BitmapNumWordsCovered newBitmap;
          transOptList = options env (WordsRange startPos endPos)
      in if transOptList = [] then Some s
         else if \<not> numCovered < length (cube_stacks s) then None
         else map_option (\<lambda>edge. s\<lparr>cube_stacks := (cube_stacks s)[numCovered :=
                  SetBitmapAccessor newBitmap edge (cube_stacks s ! numCovered)]\<rparr>)
                (BackwardsEdgeInit env cc (bc_hypotheses bitmapContainer) transOptList))"

fun forward_todos ::
    "'st search_env \<Rightarrow> 'st cube_config \<Rightarrow> 'st bitmap_container \<Rightarrow> (nat \<times> nat) list \<Rightarrow> 'st cube_search \<Rightarrow> 'st cube_search option" where
  "forward_todos env cc bc [] s = Some s"
| "forward_todos env cc bc (sp # sps) s = Option.bind (forward_todo env cc bc sp s) (forward_todos env cc bc sps)"

fun container_todos ::
    "'st search_env \<Rightarrow> 'st cube_config \<Rightarrow> 'st bitmap_container list \<Rightarrow> 'st cube_search \<Rightarrow> 'st cube_search option" where
  "container_todos env cc [] s = Some s"
| "container_todos env cc (bc # bcs) s =
     Option.bind (if bc_hypotheses bc = [] then Some s else forward_todos env cc bc (todo_spans env (bc_bitmap bc)) s)
       (container_todos env cc bcs)"

text \<open>The containers of the stack are sorted one by one, before their own spans; new edges go to later stacks.\<close>

definition CreateForwardTodos :: "'st search_env \<Rightarrow> 'st cube_config \<Rightarrow> nat \<Rightarrow> 'st cube_search \<Rightarrow> 'st cube_search option" where
  "CreateForwardTodos env cc ind s =
     (case AddHypothesesToBitmapContainers (cs_hypos (cube_stacks s ! ind)) (cube_stacks s ! ind) of
        None \<Rightarrow> None
      | Some st \<Rightarrow>
          let bcs = map (\<lambda>bc. if bc_hypotheses bc = [] then bc else SortHypotheses cc bc) (m_bitmapAccessor st)
          in container_todos env cc bcs (s\<lparr>cube_stacks := (cube_stacks s)[ind := st\<lparr>m_bitmapAccessor := bcs\<rparr>]\<rparr>))"

text \<open>The work on one stack: the stack with its containers, and the next identifier.\<close>

fun initialize_containers ::
    "'st search_env \<Rightarrow> 'st cube_config \<Rightarrow> nat list \<Rightarrow> 'st cube_stack \<times> nat \<Rightarrow> ('st cube_stack \<times> nat) option" where
  "initialize_containers env cc [] s = Some s"
| "initialize_containers env cc (c # cs) s =
     (let (st, hypoId) = s; bc = m_bitmapAccessor st ! c
      in case InitializeEdges env (edge_order cc (m_edges bc)) (bc, hypoId) of
           None \<Rightarrow> None
         | Some (bc, hypoId) \<Rightarrow>
             initialize_containers env cc cs (st\<lparr>m_bitmapAccessor := (m_bitmapAccessor st)[c := bc]\<rparr>, hypoId))"

definition on_container ::
    "('st cube_stack \<times> 'st bitmap_container \<times> nat \<Rightarrow> ('st cube_stack \<times> 'st bitmap_container \<times> nat) option) \<Rightarrow>
     nat \<Rightarrow> 'st cube_stack \<times> nat \<Rightarrow> ('st cube_stack \<times> nat) option" where
  "on_container f c s =
     map_option (\<lambda>(st, bc, hypoId). (st\<lparr>m_bitmapAccessor := (m_bitmapAccessor st)[c := bc]\<rparr>, hypoId))
       (f (fst s, m_bitmapAccessor (fst s) ! c, snd s))"

text \<open>The key of a container in the queue of containers: nothing when it is empty, below every score.\<close>

definition container_key :: "'st cube_config \<Rightarrow> 'st bitmap_container \<Rightarrow> score option" where
  "container_key cc bc = (if m_queue bc = [] then None else Some (total (m_hypothesis (Top cc bc))))"

fun pop_loop ::
    "'st search_env \<Rightarrow> 'st cube_config \<Rightarrow> nat \<Rightarrow> nat \<Rightarrow> nat list \<Rightarrow> 'st cube_stack \<times> nat \<Rightarrow> ('st cube_stack \<times> nat) option" where
  "pop_loop env cc ind 0 bcQueue s = Some s"
| "pop_loop env cc ind (Suc pops) bcQueue s =
     (if bcQueue = [] then Some s
      else let i = pick_container cc ind (map (\<lambda>c. (c, container_key cc (m_bitmapAccessor (fst s) ! c))) bcQueue);
               c = bcQueue ! i
           in case on_container (ProcessBestHypothesis env cc) c s of
                None \<Rightarrow> None
              | Some s \<Rightarrow>
                  pop_loop env cc ind pops
                    (remove_nth i bcQueue @ (if m_queue (m_bitmapAccessor (fst s) ! c) = [] then [] else [c])) s)"

fun ensure_diversity ::
    "'st search_env \<Rightarrow> 'st cube_config \<Rightarrow> nat list \<Rightarrow> 'st cube_stack \<times> nat \<Rightarrow> ('st cube_stack \<times> nat) option" where
  "ensure_diversity env cc [] s = Some s"
| "ensure_diversity env cc (c # cs) s =
     Option.bind (on_container (EnsureMinStackHyps env cc (diversity cc)) c s) (ensure_diversity env cc cs)"

definition fill_stack :: "'st search_env \<Rightarrow> 'st cube_config \<Rightarrow> nat \<Rightarrow> 'st cube_stack \<times> nat \<Rightarrow> ('st cube_stack \<times> nat) option" where
  "fill_stack env cc ind s =
     (let containers = [0..<length (m_bitmapAccessor (fst s))]
      in Option.bind (initialize_containers env cc containers s)
           (\<lambda>s. Option.bind (pop_loop env cc ind (popLimit cc) containers s)
             (\<lambda>s. if diversity cc > 0 then ensure_diversity env cc containers s else Some s)))"

definition cube_process_stack :: "'st search_env \<Rightarrow> 'st cube_config \<Rightarrow> nat \<Rightarrow> 'st cube_search \<Rightarrow> 'st cube_search option" where
  "cube_process_stack env cc ind s =
     (case fill_stack env cc ind (cube_stacks s ! ind, cube_hypoId s) of
        None \<Rightarrow> None
      | Some (st, hypoId) \<Rightarrow>
          (case CubePruneToSize (stack_cfg env) (m_maxHypoStackSize (stack_cfg env)) st of
             None \<Rightarrow> None
           | Some st \<Rightarrow>
               CreateForwardTodos env cc ind
                 (s\<lparr>cube_stacks := (cube_stacks s)[ind := CubeCleanupArcList (stack_cfg env) st], cube_hypoId := hypoId\<rparr>)))"

fun cube_process_stacks :: "'st search_env \<Rightarrow> 'st cube_config \<Rightarrow> nat list \<Rightarrow> 'st cube_search \<Rightarrow> 'st cube_search option" where
  "cube_process_stacks env cc [] s = Some s"
| "cube_process_stacks env cc (ind # inds) s =
     (if out_of_time env ind then Some s
      else Option.bind (cube_process_stack env cc ind s) (cube_process_stacks env cc inds))"

definition CubeProcessSentence :: "'st search_env \<Rightarrow> 'st cube_config \<Rightarrow> 'st cube_search option" where
  "CubeProcessSentence env cc =
     (let s = SearchCubePruningInit env
      in case AddInitial (state_compare env) (stack_cfg env) (seed env) (cube_stacks s ! 0) of
           None \<Rightarrow> None
         | Some st \<Rightarrow>
             Option.bind
               (CreateForwardTodos env cc 0
                 (s\<lparr>cube_stacks := (cube_stacks s)[0 := CubeCleanupArcList (stack_cfg env) st], cube_hypoId := 1\<rparr>))
               (cube_process_stacks env cc [1..<sourceSize env + 1]))"

definition SearchCubeGetBestHypothesis :: "'st cube_search \<Rightarrow> 'st hypothesis option" where
  "SearchCubeGetBestHypothesis s = CubeGetBestHypothesis (cube_stacks s ! (length (cube_stacks s) - 1))"



section \<open>The stack keeps what it is given\<close>

lemma CubePruneToSize_subset:
  assumes "CubePruneToSize cfg n st = Some st'"
  shows "set (cs_hypos st') \<subseteq> set (cs_hypos st) \<and> m_bitmapAccessor st' = m_bitmapAccessor st"
  using assms by (auto simp: CubePruneToSize_def Let_def split: if_splits)

lemma cube_note_simps [simp]:
  "cs_hypos (cube_note_scores cfg h st) = cs_hypos st"
  "m_bitmapAccessor (cube_note_scores cfg h st) = m_bitmapAccessor st"
  by (simp_all add: cube_note_scores_def Let_def)

lemma CubeAdd_subset:
  assumes "CubeAdd cmp cfg h st = Some (st', b)"
  shows "set (cs_hypos st') \<subseteq> insert h (set (cs_hypos st)) \<and> m_bitmapAccessor st' = m_bitmapAccessor st"
proof (cases "set_find (RecombineCompare cmp) h (cs_hypos st)")
  case (Some g)
  with assms show ?thesis by (auto simp: CubeAdd_def)
next
  case None
  define st1 where "st1 = cube_note_scores cfg h (st\<lparr>cs_hypos := set_insert (RecombineCompare cmp) h (cs_hypos st)\<rparr>)"
  have "set (cs_hypos st1) \<subseteq> insert h (set (cs_hypos st))" "m_bitmapAccessor st1 = m_bitmapAccessor st"
    using three_way_set_insert_subset [of "RecombineCompare cmp" h "cs_hypos st"] by (simp_all add: st1_def)
  then show ?thesis
    using assms None CubePruneToSize_subset [of cfg "m_maxHypoStackSize cfg" st1 st']
    by (auto simp: CubeAdd_def Let_def st1_def [symmetric] split: if_splits)
qed

lemma CubeAdd_False: "CubeAdd cmp cfg h st = Some (st', False) \<Longrightarrow> st' = st"
  by (auto simp: CubeAdd_def Let_def split: if_splits)

lemma CubeAddPrune_holds:
  assumes P: "arc_closed P" "P h" "\<forall>g \<in> set (cs_hypos st). P g" and add: "CubeAddPrune cmp cfg h st = Some (st', b)"
  shows "(\<forall>g \<in> set (cs_hypos st'). P g) \<and> m_bitmapAccessor st' = m_bitmapAccessor st"
proof (cases "total h < cs_worstScore st")
  case True
  then show ?thesis using P add by (auto simp: CubeAddPrune_def)
next
  case False
  have arc: "P (AddArc g k)" if "P g" for g k using arc_closedD [OF P(1) that same_but_arcs_AddArc] .
  obtain s c where s: "CubeAdd cmp cfg h st = Some (s, c)"
    using add False by (auto simp: CubeAddPrune_def split: option.splits)
  show ?thesis
  proof (cases c)
    case True
    then show ?thesis using add False s P CubeAdd_subset [OF s] by (auto simp: CubeAddPrune_def)
  next
    case c: False
    then have "s = st" using CubeAdd_False [of cmp cfg h st s] s by simp
    then obtain g where g: "set_find (RecombineCompare cmp) h (cs_hypos st) = Some g"
      using add False s c by (auto simp: CubeAddPrune_def split: option.splits)
    show ?thesis
    proof (cases "total h > total g")
      case True
      let ?h = "if m_nBestIsEnabled cfg then AddArc h g else h"
      obtain c' where "CubeAdd cmp cfg ?h (CubeDetach cmp g st) = Some (st', c')"
        using add False s c g \<open>s = st\<close> True
        by (auto simp: CubeAddPrune_def Let_def split: option.splits if_splits)
      moreover have "P ?h" using arc P(2) by simp
      moreover have "set (cs_hypos (CubeDetach cmp g st)) \<subseteq> set (cs_hypos st)"
        using set_erase_subset [of "RecombineCompare cmp" g "cs_hypos st"] by (simp add: CubeDetach_def)
      moreover have "m_bitmapAccessor (CubeDetach cmp g st) = m_bitmapAccessor st" by (simp add: CubeDetach_def)
      ultimately show ?thesis using P(3) CubeAdd_subset by fastforce
    next
      case less: False
      then show ?thesis
        using add False s c g \<open>s = st\<close> arc P(3)
        by (auto simp: CubeAddPrune_def split: if_splits)
    qed
  qed
qed

lemma CubeCleanup_holds:
  assumes "arc_closed P" "\<forall>g \<in> set (cs_hypos st). P g"
  shows "(\<forall>g \<in> set (cs_hypos (CubeCleanupArcList cfg st)). P g) \<and>
    m_bitmapAccessor (CubeCleanupArcList cfg st) = m_bitmapAccessor st"
proof -
  have "same_but_arcs (HypoCleanupArcList k d g) g" for k d and g
    by (simp add: same_but_arcs_def HypoCleanupArcList_def update_core_def Let_def split: option.splits)
  then have "P (HypoCleanupArcList k d g)" if "P g" for k d and g
    using arc_closedD [OF assms(1) that] by blast
  then show ?thesis using assms(2) by (simp add: CubeCleanupArcList_def)
qed

section \<open>Invariants\<close>

text \<open>The choices: the best element of a queue, a permutation, a sorted permutation.\<close>

definition key_le :: "score option \<Rightarrow> score option \<Rightarrow> bool" where
  "key_le a b \<longleftrightarrow> (case a of None \<Rightarrow> True | Some x \<Rightarrow> (case b of None \<Rightarrow> False | Some y \<Rightarrow> x \<le> y))"

definition choices_ok :: "'st cube_config \<Rightarrow> bool" where
  "choices_ok cc \<longleftrightarrow>
     (\<forall>q. q \<noteq> [] \<longrightarrow> pick_item cc q < length q \<and>
        (\<forall>item \<in> set q. total (m_hypothesis item) \<le> total (m_hypothesis (q ! pick_item cc q)))) \<and>
     (\<forall>k q. q \<noteq> [] \<longrightarrow> pick_container cc k q < length q \<and>
        (\<forall>key \<in> set q. key_le (snd key) (snd (q ! pick_container cc k q)))) \<and>
     (\<forall>es. mset (edge_order cc es) = mset [0..<length es]) \<and>
     (\<forall>f hs. mset (sort_hypos cc f hs) = mset hs \<and> sorted_wrt (\<lambda>g h. f g \<ge> f h) (sort_hypos cc f hs))"

lemma choicesD:
  assumes "choices_ok cc"
  shows "q \<noteq> [] \<Longrightarrow> pick_item cc q < length q"
    and "item \<in> set q \<Longrightarrow> total (m_hypothesis item) \<le> total (m_hypothesis (q ! pick_item cc q))"
    and "keys \<noteq> [] \<Longrightarrow> pick_container cc k keys < length keys"
    and "set (edge_order cc es) = {..<length es}"
    and "set (sort_hypos cc f hs) = set hs"
    and "sorted_wrt (\<lambda>g h. f g \<ge> f h) (sort_hypos cc f hs)"
proof -
  show "q \<noteq> [] \<Longrightarrow> pick_item cc q < length q" using assms by (simp add: choices_ok_def)
  show "item \<in> set q \<Longrightarrow> total (m_hypothesis item) \<le> total (m_hypothesis (q ! pick_item cc q))"
    using assms by (cases q) (auto simp: choices_ok_def)
  show "keys \<noteq> [] \<Longrightarrow> pick_container cc k keys < length keys" using assms by (simp add: choices_ok_def)
  have "mset (edge_order cc es) = mset [0..<length es]" using assms by (simp add: choices_ok_def)
  then show "set (edge_order cc es) = {..<length es}" by (metis mset_eq_setD set_upt atLeast0LessThan)
  have "mset (sort_hypos cc f hs) = mset hs" using assms by (simp add: choices_ok_def)
  then show "set (sort_hypos cc f hs) = set hs" by (rule mset_eq_setD)
  show "sorted_wrt (\<lambda>g h. f g \<ge> f h) (sort_hypos cc f hs)" using assms by (simp add: choices_ok_def)
qed

text \<open>The inputs cube pruning is made for: no lattice, no constraint, at most a distortion limit.\<close>

definition cube_env_ok :: "'st search_env \<Rightarrow> bool" where
  "cube_env_ok env \<longleftrightarrow> env_ok env \<and> \<not> isWordLattice env \<and> constraintPhrase env = None \<and> 0 < maxPhraseLength env \<and>
     -1 \<le> maxDistortion (stack_cfg env) \<and> distortionDistance env = ComputeDistortionDistance"

definition edge_inv :: "'st search_env \<Rightarrow> words_bitmap \<Rightarrow> 'st backwards_edge \<Rightarrow> bool" where
  "edge_inv env b edge \<longleftrightarrow> (\<forall>h \<in> set (m_hypotheses edge). produced env h \<and>
     (\<forall>t \<in> set (m_translations edge). \<exists>s e. (s, e) \<in> set (expansion_spans env h) \<and>
        t \<in> set (options env (WordsRange s e)) \<and> SetValueRange (coverage h) s e True = b))"

definition item_inv :: "'st search_env \<Rightarrow> words_bitmap \<Rightarrow> 'st backwards_edge list \<Rightarrow> 'st queue_item \<Rightarrow> bool" where
  "item_inv env b edges item \<longleftrightarrow> produced env (m_hypothesis item) \<and> coverage (m_hypothesis item) = b \<and>
     m_edge item < length edges \<and> m_hypothesis_pos item < length (m_hypotheses (edges ! m_edge item)) \<and>
     m_translation_pos item < length (m_translations (edges ! m_edge item))"

definition container_inv :: "'st search_env \<Rightarrow> 'st bitmap_container \<Rightarrow> bool" where
  "container_inv env bc \<longleftrightarrow> wf_bitmap (bc_bitmap bc) \<and> m_size (bc_bitmap bc) = sourceSize env \<and>
     (\<forall>edge \<in> set (m_edges bc). edge_inv env (bc_bitmap bc) edge) \<and>
     (\<forall>item \<in> set (m_queue bc). item_inv env (bc_bitmap bc) (m_edges bc) item) \<and>
     (\<forall>h \<in> set (bc_hypotheses bc). produced env h \<and> coverage h = bc_bitmap bc)"

definition hypos_inv :: "'st search_env \<Rightarrow> nat \<Rightarrow> words_bitmap set \<Rightarrow> 'st hypothesis list \<Rightarrow> bool" where
  "hypos_inv env k bs hs \<longleftrightarrow> (\<forall>h \<in> set hs. produced env h \<and> BitmapNumWordsCovered (coverage h) = k \<and> coverage h \<in> bs)"

definition cube_stack_inv :: "'st search_env \<Rightarrow> nat \<Rightarrow> 'st cube_stack \<Rightarrow> bool" where
  "cube_stack_inv env k st \<longleftrightarrow> hypos_inv env k (bc_bitmap ` set (m_bitmapAccessor st)) (cs_hypos st) \<and>
     set_ok container_compare (m_bitmapAccessor st) \<and>
     (\<forall>bc \<in> set (m_bitmapAccessor st). container_inv env bc \<and> BitmapNumWordsCovered (bc_bitmap bc) = k)"

definition cube_inv :: "'st search_env \<Rightarrow> 'st cube_search \<Rightarrow> bool" where
  "cube_inv env s \<longleftrightarrow> length (cube_stacks s) = sourceSize env + 1 \<and>
     (\<forall>k < length (cube_stacks s). cube_stack_inv env k (cube_stacks s ! k))"

lemma hypo_pred_closed: "arc_closed (\<lambda>h. produced env h \<and> BitmapNumWordsCovered (coverage h) = k \<and> coverage h \<in> bs)"
  using produced_arc_closed same_but_arcs_core(1) unfolding arc_closed_def by metis

definition wf_container :: "'st bitmap_container \<Rightarrow> bool" where
  "wf_container bc \<longleftrightarrow> wf_bitmap (bc_bitmap bc)"

interpretation container_order: three_way wf_container container_compare
  unfolding container_compare_def by (rule three_way_map [OF bitmap_order.three_way_axioms]) (simp add: wf_container_def)


section \<open>Spans and edges\<close>

lemma cube_envD:
  assumes "cube_env_ok env"
  shows "env_ok env" "sourceSize env < 2 ^ 31" "\<not> isWordLattice env" "constraintPhrase env = None" "0 < maxPhraseLength env"
    "-1 \<le> maxDistortion (stack_cfg env)" "distortionDistance env = ComputeDistortionDistance"
  using assms by (simp_all add: cube_env_ok_def env_ok_def)

lemma produced_wf:
  assumes "produced env h" "env_ok env"
  shows "wf_bitmap (coverage h)" "m_size (coverage h) = sourceSize env"
  using derivable_wf [of _ _ "sourceSize env" "coverage h"] produced_coverage [OF assms] assms(2) unfolding env_ok_def by blast+

lemma produced_uncovered_range:
  assumes "produced env h" "env_ok env" "0 < sourceSize env"
  shows "covered (coverage h) = {} \<Longrightarrow> m_currSourceWordsRange (core h) = WordsRange NOT_FOUND NOT_FOUND"
  using assms(1)
proof (induction rule: produced.induct)
  case seed
  have wf: "wf_bitmap (BitmapInit (sourceSize env))" using assms(2) by (simp add: env_ok_def)
  have "GetFirstGapPos (BitmapInitVector (sourceSize env) (initialCoverage env)) = 0"
    by (rule FirstGap_cases [OF wf])
      (use seed_coverage [OF assms(2)] assms(3) in \<open>auto simp: seed_facts(2)\<close>)
  then show ?case by (simp add: Search_Normal.seed_def HypothesisInit_def Let_def)
next
  case (expand p s e t i h h')
  note ext = Create_extends [OF expand.hyps(4,5)]
  have wf: "wf_bitmap (coverage p)" "m_size (coverage p) = sourceSize env" using produced_wf [OF expand.hyps(1) assms(2)] .
  note step = expand_extend [OF assms(2) wf(2) expand.hyps(2,3) ext]
  have "s \<in> covered (coverage h')" using extend_props [OF step(1) wf(1)] by auto
  then show ?case using expand.prems by blast
next
  case (arcs g h)
  then show ?case using same_but_arcs_core by metis
qed

lemma todo_span_facts:
  assumes "(s, e) \<in> set (todo_spans env b)" "wf_bitmap b" "m_size b = sourceSize env" "0 < maxPhraseLength env"
  shows "s \<le> e" "e < s + max_size env s" "s < sourceSize env" "{s..e} \<inter> covered b = {}" "CheckDistortion env b s e"
proof -
  define maxSize where "maxSize = min (sourceSize env - s) (maxPhraseLength env)"
  have s: "s < sourceSize env" "\<not> GetValue b s" and chk: "CheckDistortion env b s e"
    and e: "e = s \<or> e \<in> set (takeWhile (\<lambda>endPos. \<not> GetValue b endPos) [s + 1..<s + maxSize])"
    using assms(1) by (auto simp: todo_spans_def Let_def maxSize_def)
  have pos: "0 < maxSize" "maxSize = max_size env s" using s assms(4) by (auto simp: maxSize_def max_size_def Let_def)
  have inrange: "s \<le> e \<and> e < s + maxSize" using e set_takeWhileD pos(1) by fastforce
  have free: "\<not> GetValue b i" if "i \<in> {s..e}" for i
  proof (cases "i = s")
    case False
    then have e2: "e \<in> set (takeWhile (\<lambda>endPos. \<not> GetValue b endPos) [s + 1..<s + maxSize])" using e that by auto
    let ?xs = "[s + 1..<s + maxSize]"
    let ?tw = "takeWhile (\<lambda>endPos. \<not> GetValue b endPos) ?xs"
    obtain j where j: "j < length ?tw" "?tw ! j = e" using e2 unfolding in_set_conv_nth by blast
    then have "e = s + 1 + j" using length_takeWhile_le [of "\<lambda>endPos. \<not> GetValue b endPos" ?xs] by (auto simp: takeWhile_nth)
    then have "i - (s + 1) < length ?tw" using that False j(1) by auto
    then have "i - (s + 1) < length ?xs" "?tw ! (i - (s + 1)) \<in> set ?tw"
      using length_takeWhile_le [of "\<lambda>endPos. \<not> GetValue b endPos" ?xs] by (auto simp: nth_mem)
    moreover from this have "?tw ! (i - (s + 1)) = i"
      using that False takeWhile_nth [OF \<open>i - (s + 1) < length ?tw\<close>] by auto
    ultimately have "i \<in> set ?tw" by simp
    then show ?thesis using set_takeWhileD by metis
  qed (use s in simp)
  show "s \<le> e" "e < s + max_size env s" "s < sourceSize env" "CheckDistortion env b s e" using inrange pos s chk by simp_all
  show "{s..e} \<inter> covered b = {}" 
  proof (intro equalityI subsetI)
    fix x assume "x \<in> {s..e} \<inter> covered b"
    then show "x \<in> {}" using free [of x] GetValue_covered [of x b] covered_less [of x b] by auto
  qed simp
qed



lemma start_distance:
  "ComputeDistortionDistance r (WordsRange s e) = ComputeDistortionDistance r (WordsRange s s)"
  by (simp add: ComputeDistortionDistance_def)

lemma seed_distance:
  "s < 2 ^ 31 \<Longrightarrow> ComputeDistortionDistance (WordsRange NOT_FOUND NOT_FOUND) (WordsRange s e) = to_int32 (int s)"
  by (simp add: ComputeDistortionDistance_def RangeNumWordsCovered_def to_int32_small)

text \<open>
  A span queued for a container is one its hypotheses are expanded to by the stack decoder, when the edge
  lets the hypothesis through.
\<close>

lemma todo_span_expansion:
  assumes env: "cube_env_ok env" and h: "produced env h" "coverage h = b"
    and span: "(s, e) \<in> set (todo_spans env b)" and opts: "options env (WordsRange s e) \<noteq> []"
    and reach: "maxDistortion (stack_cfg env) \<noteq> -1 \<Longrightarrow> edge_reaches env (WordsRange s e) h"
  shows "(s, e) \<in> set (expansion_spans env h)"
proof -
  note env' = cube_envD [OF env]
  have wf: "wf_bitmap b" "m_size b = sourceSize env" using produced_wf [OF h(1) env'(1)] h(2) by simp_all
  note facts = todo_span_facts [OF span wf env'(5)]
  have gap: "GetFirstGapPos b \<le> s"
  proof (rule ccontr)
    assume "\<not> ?thesis"
    moreover have "s \<notin> covered b" using facts(1,4) by auto
    ultimately show False using facts(3) wf
      by (cases rule: FirstGap_cases [OF wf(1)]) (auto simp: not_le dest: subsetD [of _ _ s])
  qed
  have e: "e < sourceSize env" using facts(1-3) by (auto simp: max_size_def Let_def split: if_splits)
  have basic: "basic_checks env b s e"
    using opts facts(4,5) BitmapOverlap_iff [of "WordsRange s e" b] e wf(2)
    by (auto simp: basic_checks_def positions_def CheckDistortion_def Let_def split: if_splits)
  show ?thesis
  proof (cases "maxDistortion (stack_cfg env) < 0")
    case True
    then show ?thesis using facts(1-3) gap basic h(2)
      by (auto simp: expansion_spans_def Let_def intro!: bexI [of _ s])
  next
    case False
    have "distortionDistance env (m_currSourceWordsRange (core h)) (WordsRange s s) \<le> maxDistortion (stack_cfg env)"
    proof (cases "BitmapNumWordsCovered (coverage h) = 0")
      case True
      have "m_currSourceWordsRange (core h) = WordsRange NOT_FOUND NOT_FOUND"
        by (rule produced_uncovered_range [OF h(1) env'(1)]) (use True facts(3) in \<open>auto simp: NumWordsCovered_eq\<close>)
      then show ?thesis using reach False True facts(3) env'(2) by (simp add: edge_reaches_def env'(7) seed_distance)
    next
      case n: False
      then show ?thesis using reach False by (simp add: edge_reaches_def env'(7) start_distance [of _ s e])
    qed
    then have "start_allowed env h s"
      using facts(1,3,4) GetValue_covered [of s b] wf(2) env'(3) h(2) by (auto simp: start_allowed_def Let_def)
    moreover have "end_allowed env h s e"
      using basic env'(3) h(2) facts(5) False by (auto simp: end_allowed_def CheckDistortion_def Let_def split: if_splits)
    ultimately show ?thesis using facts(1-3) gap h(2) False
      by (auto simp: expansion_spans_def Let_def intro!: bexI [of _ s])
  qed
qed

lemma BackwardsEdgeInit_inv:
  assumes env: "cube_env_ok env" and cc: "choices_ok cc"
    and edge: "BackwardsEdgeInit env cc hyps (options env (WordsRange s e)) = Some edge"
    and hyps: "\<forall>h \<in> set hyps. produced env h \<and> coverage h = b" and span: "(s, e) \<in> set (todo_spans env b)"
  shows "edge_inv env (SetValueRange b s e True) edge"
proof (cases "hyps = [] \<or> options env (WordsRange s e) = []")
  case True
  then show ?thesis using edge by (auto simp: BackwardsEdgeInit_def edge_inv_def)
next
  case False
  let ?ts = "options env (WordsRange s e)"
  have "to_range (?ts ! 0) = WordsRange s e"
    using False cube_envD(1) [OF env] nth_mem [of 0 ?ts] unfolding env_ok_def by simp
  then have "m_translations edge = ?ts"
    and "\<forall>h \<in> set (m_hypotheses edge). h \<in> set hyps \<and>
      (maxDistortion (stack_cfg env) \<noteq> -1 \<longrightarrow> edge_reaches env (WordsRange s e) h)"
    using edge False choicesD(5) [OF cc] by (auto simp: BackwardsEdgeInit_def Let_def split: if_splits)
  then show ?thesis using hyps todo_span_expansion [OF env _ _ span] False
    unfolding edge_inv_def by metis
qed



section \<open>Containers keep their invariant\<close>

text \<open>The grids of a container: what its edges span; only the marks on their cells change.\<close>

definition grids :: "'st bitmap_container \<Rightarrow> ('st hypothesis list \<times> trans_opt list) list" where
  "grids bc = map (\<lambda>edge. (m_hypotheses edge, m_translations edge)) (m_edges bc)"

definition same_frame :: "'st bitmap_container \<Rightarrow> 'st bitmap_container \<Rightarrow> bool" where
  "same_frame bc bc' \<longleftrightarrow> bc_bitmap bc' = bc_bitmap bc \<and> bc_hypotheses bc' = bc_hypotheses bc \<and> grids bc' = grids bc"

lemma same_frame_refl [simp]: "same_frame bc bc"
  by (simp add: same_frame_def)

lemma same_frame_trans: "same_frame a b \<Longrightarrow> same_frame b c \<Longrightarrow> same_frame a c"
  by (simp add: same_frame_def)

lemma grids_nth:
  assumes "grids bc' = grids bc"
  shows "length (m_edges bc') = length (m_edges bc)"
    and "e < length (m_edges bc) \<Longrightarrow> m_hypotheses (m_edges bc' ! e) = m_hypotheses (m_edges bc ! e) \<and>
      m_translations (m_edges bc' ! e) = m_translations (m_edges bc ! e)"
proof -
  show len: "length (m_edges bc') = length (m_edges bc)" using arg_cong [OF assms, of length] by (simp add: grids_def)
  assume "e < length (m_edges bc)"
  then show "m_hypotheses (m_edges bc' ! e) = m_hypotheses (m_edges bc ! e) \<and>
      m_translations (m_edges bc' ! e) = m_translations (m_edges bc ! e)"
    using arg_cong [OF assms, of "\<lambda>xs. xs ! e"] len by (simp add: grids_def)
qed

lemma same_frame_item: "same_frame bc bc' \<Longrightarrow> item_inv env b (m_edges bc') item = item_inv env b (m_edges bc) item"
  using grids_nth [of bc' bc] unfolding same_frame_def item_inv_def by metis

lemma same_frame_inv:
  assumes "same_frame bc bc'" "container_inv env bc" "\<forall>item \<in> set (m_queue bc'). item_inv env (bc_bitmap bc) (m_edges bc) item"
  shows "container_inv env bc'"
proof -
  have "edge_inv env (bc_bitmap bc) edge" if mem: "edge \<in> set (m_edges bc')" for edge
  proof -
    obtain e where e: "e < length (m_edges bc')" "edge = m_edges bc' ! e" using mem by (auto simp: in_set_conv_nth)
    have g: "grids bc' = grids bc" using assms(1) by (simp add: same_frame_def)
    have "edge_inv env (bc_bitmap bc) (m_edges bc ! e)" using assms(2) e(1) grids_nth(1) [OF g] by (simp add: container_inv_def)
    then show ?thesis using grids_nth [OF g] e by (simp add: edge_inv_def)
  qed
  then show ?thesis using assms same_frame_item [OF assms(1)] by (auto simp: container_inv_def same_frame_def)
qed

lemma edge_update_frame:
  assumes "m_hypotheses edge = m_hypotheses (m_edges bc ! e)" "m_translations edge = m_translations (m_edges bc ! e)"
  shows "same_frame bc (bc\<lparr>m_edges := (m_edges bc)[e := edge], m_queue := q\<rparr>)"
proof -
  have "map (\<lambda>edge. (m_hypotheses edge, m_translations edge)) ((m_edges bc)[e := edge]) =
      map (\<lambda>edge. (m_hypotheses edge, m_translations edge)) (m_edges bc)"
    using assms by (cases "e < length (m_edges bc)") (auto intro!: nth_equalityI simp: nth_list_update)
  then show ?thesis by (simp add: same_frame_def grids_def)
qed

lemma SetSeenPosition_frame:
  "SetSeenPosition x y edge = Some edge' \<Longrightarrow>
   edge' = edge\<lparr>m_seenPosition := insert (seen_key x y) (m_seenPosition edge)\<rparr> \<and> x < 2 ^ 17 \<and> y < 2 ^ 17"
  by (simp add: SetSeenPosition_def split: if_splits)

lemma push_cell_cases:
  assumes "push_cell env e x y (bc, hypoId) = Some (bc', hypoId')"
  obtains h where "CreateHypothesis env (m_hypotheses (m_edges bc ! e) ! x) (m_translations (m_edges bc ! e) ! y) hypoId = Some h"
    and "m_queue bc' = m_queue bc @ [\<lparr>m_hypothesis_pos = x, m_translation_pos = y, m_hypothesis = h, m_edge = e\<rparr>]"
    and "m_edges bc' = (m_edges bc)[e := (m_edges bc ! e)\<lparr>m_seenPosition := insert (seen_key x y) (m_seenPosition (m_edges bc ! e))\<rparr>]"
    and "same_frame bc bc'" and "hypoId' = hypoId + 1" and "m_numStackInsertions bc' = m_numStackInsertions bc"
    and "x < 2 ^ 17" "y < 2 ^ 17"
proof -
  obtain edge' h where e': "SetSeenPosition x y (m_edges bc ! e) = Some edge'"
    and h: "CreateHypothesis env (m_hypotheses (m_edges bc ! e) ! x) (m_translations (m_edges bc ! e) ! y) hypoId = Some h"
    and bc': "bc' = Enqueue x y h e (bc\<lparr>m_edges := (m_edges bc)[e := edge']\<rparr>)" "hypoId' = hypoId + 1"
    using assms by (auto simp: push_cell_def Let_def split: option.splits)
  note edge' = SetSeenPosition_frame [OF e']
  have "same_frame bc (bc\<lparr>m_edges := (m_edges bc)[e := edge'], m_queue := m_queue bc'\<rparr>)"
    by (rule edge_update_frame) (use edge' in simp_all)
  moreover have "bc' = bc\<lparr>m_edges := (m_edges bc)[e := edge'], m_queue := m_queue bc'\<rparr>" by (simp add: bc' Enqueue_def)
  ultimately have "same_frame bc bc'" by simp
  then show thesis using that [OF h] edge' by (simp add: bc' Enqueue_def)
qed

lemma CreateHypothesis_produced:
  assumes env: "cube_env_ok env" and edge: "edge_inv env b edge"
    and cell: "x < length (m_hypotheses edge)" "y < length (m_translations edge)"
    and h: "CreateHypothesis env (m_hypotheses edge ! x) (m_translations edge ! y) hypoId = Some h"
  shows "produced env h \<and> coverage h = b"
proof -
  let ?p = "m_hypotheses edge ! x" and ?t = "m_translations edge ! y"
  have "?p \<in> set (m_hypotheses edge)" "?t \<in> set (m_translations edge)" using cell by simp_all
  then obtain s e where p: "produced env ?p" and span: "(s, e) \<in> set (expansion_spans env ?p)"
      "?t \<in> set (options env (WordsRange s e))" "SetValueRange (coverage ?p) s e True = b"
    using edge unfolding edge_inv_def by metis
  obtain g where g: "Create (maxNumFactors env) None ?p ?t hypoId = Created g"
      "CalcScore (features env) (allWeights env) (futureScores env) g = Some h"
    using h by (auto simp: CreateHypothesis_def split: created.splits)
  have "to_range ?t = WordsRange s e" using cube_envD(1) [OF env] span(2) by (simp add: env_ok_def)
  then have "coverage h = b" using Create_extends [OF g] span(3) by (simp add: extends_by_def)
  moreover have "produced env h"
    using produced.expand [OF p span(1,2) _ g(2)] g(1) cube_envD(4) [OF env] by simp
  ultimately show ?thesis by simp
qed

lemma push_cell_inv:
  assumes env: "cube_env_ok env" and inv: "container_inv env bc" and e: "e < length (m_edges bc)"
    and cell: "x < length (m_hypotheses (m_edges bc ! e))" "y < length (m_translations (m_edges bc ! e))"
    and push: "push_cell env e x y (bc, hypoId) = Some (bc', hypoId')"
  shows "container_inv env bc' \<and> same_frame bc bc'"
proof -
  obtain h where h: "CreateHypothesis env (m_hypotheses (m_edges bc ! e) ! x) (m_translations (m_edges bc ! e) ! y) hypoId = Some h"
    and q: "m_queue bc' = m_queue bc @ [\<lparr>m_hypothesis_pos = x, m_translation_pos = y, m_hypothesis = h, m_edge = e\<rparr>]"
    and frame: "same_frame bc bc'" by (rule push_cell_cases [OF push]) blast
  have "edge_inv env (bc_bitmap bc) (m_edges bc ! e)" using inv e by (simp add: container_inv_def)
  from CreateHypothesis_produced [OF env this cell h]
  have "item_inv env (bc_bitmap bc) (m_edges bc) \<lparr>m_hypothesis_pos = x, m_translation_pos = y, m_hypothesis = h, m_edge = e\<rparr>"
    using e cell by (simp add: item_inv_def)
  then show ?thesis using same_frame_inv [OF frame inv] inv q frame by (auto simp: container_inv_def)
qed

lemma push_successor_inv:
  assumes "cube_env_ok env" "container_inv env bc" "e < length (m_edges bc)"
    and "push_successor env e x y (bc, hypoId) = Some (bc', hypoId')"
  shows "container_inv env bc' \<and> same_frame bc bc'"
  using assms push_cell_inv [OF assms(1-3)] by (auto simp: push_successor_def Let_def split: if_splits)

lemma PushSuccessors_inv:
  assumes "cube_env_ok env" "container_inv env bc" "e < length (m_edges bc)"
    and "PushSuccessors env e x y (bc, hypoId) = Some (bc', hypoId')"
  shows "container_inv env bc' \<and> same_frame bc bc'"
proof -
  obtain b1 i1 where 1: "push_successor env e x (y + 1) (bc, hypoId) = Some (b1, i1)"
      "push_successor env e (x + 1) y (b1, i1) = Some (bc', hypoId')"
    using assms(4) by (auto simp: PushSuccessors_def split: Option.bind_splits)
  note first = push_successor_inv [OF assms(1-3) 1(1)]
  then have "e < length (m_edges b1)" using assms(3) grids_nth(1) [of b1 bc] by (simp add: same_frame_def)
  from push_successor_inv [OF assms(1) conjunct1 [OF first] this 1(2)] first same_frame_trans show ?thesis by blast
qed

lemma InitializeEdges_inv:
  assumes "cube_env_ok env" "container_inv env bc" "set es \<subseteq> {..<length (m_edges bc)}"
    and "InitializeEdges env es (bc, hypoId) = Some (bc', hypoId')"
  shows "container_inv env bc' \<and> same_frame bc bc'"
  using assms(2-4)
proof (induction es arbitrary: bc hypoId)
  case Nil
  then show ?case by simp
next
  case (Cons e es)
  obtain b1 i1 where 1: "EdgeInitialize env e (bc, hypoId) = Some (b1, i1)" "InitializeEdges env es (b1, i1) = Some (bc', hypoId')"
    using Cons.prems(3) by (auto split: Option.bind_splits)
  then obtain b0 where b1: "b1 = mark_initialized e b0"
    and 0: "(if m_hypotheses (m_edges bc ! e) = [] \<or> m_translations (m_edges bc ! e) = [] then Some (bc, hypoId)
      else push_cell env e 0 0 (bc, hypoId)) = Some (b0, i1)"
    by (auto simp: EdgeInitialize_def Let_def split: option.splits)
  have e: "e < length (m_edges bc)" using Cons.prems(2) by simp
  have b0: "container_inv env b0 \<and> same_frame bc b0"
    using 0 Cons.prems(1) push_cell_inv [OF assms(1) Cons.prems(1) e, of 0 0 hypoId b0 i1]
    by (auto split: if_splits)
  have "same_frame b0 (b0\<lparr>m_edges := (m_edges b0)[e := (m_edges b0 ! e)\<lparr>m_initialized := True\<rparr>], m_queue := m_queue b0\<rparr>)"
    by (rule edge_update_frame) simp_all
  then have mark: "same_frame b0 b1" by (simp add: b1 mark_initialized_def)
  have "container_inv env b1"
    by (rule same_frame_inv [OF mark conjunct1 [OF b0]]) (use b0 in \<open>simp add: b1 mark_initialized_def container_inv_def\<close>)
  moreover have "same_frame bc b1" using b0 mark same_frame_trans by blast
  moreover have "set es \<subseteq> {..<length (m_edges b1)}"
    using Cons.prems(2) grids_nth(1) [of b1 bc] \<open>same_frame bc b1\<close> by (auto simp: same_frame_def)
  ultimately show ?case using Cons.IH [OF _ _ 1(2)] same_frame_trans by blast
qed

lemma remove_nth_subset: "set (remove_nth i xs) \<subseteq> set xs"
  by (auto simp: remove_nth_def dest: in_set_takeD in_set_dropD)

lemma ProcessBestHypothesis_cases:
  assumes "ProcessBestHypothesis env cc (st, bc, hypoId) = Some (st', bc', hypoId')" "m_queue bc \<noteq> []"
  obtains newstackentry bc1 where
    "CubeAddPrune (state_compare env) (stack_cfg env) (m_hypothesis (Top cc bc)) st = Some (st', newstackentry)"
    and "bc1 = bc\<lparr>m_queue := remove_nth (pick_item cc (m_queue bc)) (m_queue bc),
          m_numStackInsertions := m_numStackInsertions bc + of_bool newstackentry\<rparr>"
    and "PushSuccessors env (m_edge (Top cc bc)) (m_hypothesis_pos (Top cc bc)) (m_translation_pos (Top cc bc)) (bc1, hypoId) =
          Some (bc', hypoId')"
proof -
  let ?q = "remove_nth (pick_item cc (m_queue bc)) (m_queue bc)"
  have deq: "Dequeue cc bc = Some (Top cc bc, bc\<lparr>m_queue := ?q\<rparr>)" using assms(2) by (simp add: Dequeue_def)
  let ?add = "CubeAddPrune (state_compare env) (stack_cfg env) (m_hypothesis (Top cc bc)) st"
  have "?add \<noteq> None" using assms(1) unfolding ProcessBestHypothesis_def Let_def prod.case deq option.case
    by (cases ?add) (simp_all split: if_split_asm)
  then obtain st1 new where add1: "?add = Some (st1, new)" by auto
  have run: "map_option (Pair st1) (PushSuccessors env (m_edge (Top cc bc)) (m_hypothesis_pos (Top cc bc)) (m_translation_pos (Top cc bc))
        (if new then bc\<lparr>m_queue := ?q, m_numStackInsertions := m_numStackInsertions bc + 1\<rparr> else bc\<lparr>m_queue := ?q\<rparr>, hypoId)) =
      Some (st', bc', hypoId')"
    using assms(1) unfolding ProcessBestHypothesis_def Let_def prod.case deq option.case add1
    by (simp split: if_split_asm)
  then have add: "?add = Some (st', new)"
    and push: "PushSuccessors env (m_edge (Top cc bc)) (m_hypothesis_pos (Top cc bc)) (m_translation_pos (Top cc bc))
        (if new then bc\<lparr>m_queue := ?q, m_numStackInsertions := m_numStackInsertions bc + 1\<rparr> else bc\<lparr>m_queue := ?q\<rparr>, hypoId) =
          Some (bc', hypoId')"
    using add1 by auto
  show thesis
    by (rule that [OF add refl]) (use push in \<open>cases new; simp\<close>)
qed

lemma Top_in:
  assumes "choices_ok cc" "m_queue bc \<noteq> []"
  shows "Top cc bc \<in> set (m_queue bc)"
  using choicesD(1) [OF assms] by (simp add: Top_def)

lemma ProcessBestHypothesis_inv:
  assumes env: "cube_env_ok env" "choices_ok cc" and inv: "container_inv env bc"
    and hypos: "hypos_inv env (BitmapNumWordsCovered (bc_bitmap bc)) bs (cs_hypos st)" "bc_bitmap bc \<in> bs"
    and run: "ProcessBestHypothesis env cc (st, bc, hypoId) = Some (st', bc', hypoId')"
  shows "container_inv env bc' \<and> same_frame bc bc' \<and>
    hypos_inv env (BitmapNumWordsCovered (bc_bitmap bc)) bs (cs_hypos st') \<and> m_bitmapAccessor st' = m_bitmapAccessor st"
proof (cases "m_queue bc = []")
  case True
  then show ?thesis using run inv hypos by (auto simp: ProcessBestHypothesis_def Dequeue_def)
next
  case False
  obtain new bc1 where add: "CubeAddPrune (state_compare env) (stack_cfg env) (m_hypothesis (Top cc bc)) st = Some (st', new)"
    and bc1: "bc1 = bc\<lparr>m_queue := remove_nth (pick_item cc (m_queue bc)) (m_queue bc),
          m_numStackInsertions := m_numStackInsertions bc + of_bool new\<rparr>"
    and push: "PushSuccessors env (m_edge (Top cc bc)) (m_hypothesis_pos (Top cc bc)) (m_translation_pos (Top cc bc)) (bc1, hypoId) =
          Some (bc', hypoId')"
    by (rule ProcessBestHypothesis_cases [OF run False])
  have top: "item_inv env (bc_bitmap bc) (m_edges bc) (Top cc bc)"
    using inv Top_in [OF env(2) False] by (simp add: container_inv_def)
  have frame: "same_frame bc bc1" by (simp add: bc1 same_frame_def grids_def)
  have inv1: "container_inv env bc1"
    by (rule same_frame_inv [OF frame inv]) (use inv remove_nth_subset in \<open>fastforce simp: bc1 container_inv_def\<close>)
  have "m_edge (Top cc bc) < length (m_edges bc1)" using top by (simp add: item_inv_def bc1)
  from PushSuccessors_inv [OF env(1) inv1 this push]
  have "container_inv env bc' \<and> same_frame bc bc'" using frame same_frame_trans by blast
  moreover have "hypos_inv env (BitmapNumWordsCovered (bc_bitmap bc)) bs (cs_hypos st') \<and> m_bitmapAccessor st' = m_bitmapAccessor st"
    using CubeAddPrune_holds [OF hypo_pred_closed _ _ add] hypos top unfolding hypos_inv_def item_inv_def by metis
  ultimately show ?thesis by blast
qed



section \<open>Stacks keep their invariant\<close>

lemma set_ok_bitmaps: "set_ok container_compare bcs = set_ok BitmapCompare (map bc_bitmap bcs)"
  by (simp add: set_ok_def sorted_wrt_map container_compare_def)

definition work_inv :: "'st search_env \<Rightarrow> 'st cube_stack \<Rightarrow> 'st bitmap_container \<Rightarrow> 'st cube_stack \<times> 'st bitmap_container \<times> nat \<Rightarrow> bool" where
  "work_inv env st0 bc0 s \<longleftrightarrow> container_inv env (fst (snd s)) \<and> same_frame bc0 (fst (snd s)) \<and>
     hypos_inv env (BitmapNumWordsCovered (bc_bitmap bc0)) (bc_bitmap ` set (m_bitmapAccessor st0)) (cs_hypos (fst s)) \<and>
     m_bitmapAccessor (fst s) = m_bitmapAccessor st0"

lemma ProcessBest_work:
  assumes "cube_env_ok env" "choices_ok cc" "bc_bitmap bc0 \<in> bc_bitmap ` set (m_bitmapAccessor st0)"
    and "work_inv env st0 bc0 s" "ProcessBestHypothesis env cc s = Some s'"
  shows "work_inv env st0 bc0 s'"
proof -
  obtain st bc i where s1: "s = (st, bc, i)" by (cases s) auto
  obtain st' bc' i' where s2: "s' = (st', bc', i')" by (cases s') auto
  note s = s1 s2
  have b: "bc_bitmap bc = bc_bitmap bc0" using assms(4) by (simp add: work_inv_def s same_frame_def)
  have "container_inv env bc' \<and> same_frame bc bc' \<and>
    hypos_inv env (BitmapNumWordsCovered (bc_bitmap bc)) (bc_bitmap ` set (m_bitmapAccessor st0)) (cs_hypos st') \<and>
    m_bitmapAccessor st' = m_bitmapAccessor st"
    by (rule ProcessBestHypothesis_inv [OF assms(1,2) _ _ _ assms(5) [unfolded s]])
      (use assms(3,4) b in \<open>simp_all add: work_inv_def s\<close>)
  then show ?thesis using assms(4) b same_frame_trans unfolding work_inv_def s by auto
qed

lemma EnsureMinStackHyps_keeps:
  assumes run: "EnsureMinStackHyps env cc m s = Some s'"
    and step: "\<And>s s'. P s \<Longrightarrow> ProcessBestHypothesis env cc s = Some s' \<Longrightarrow> P s'" and start: "P s"
  shows "P s'"
proof -
  define Q where "Q env cc s s' \<longleftrightarrow> (\<forall>s s'. P s \<longrightarrow> ProcessBestHypothesis env cc s = Some s' \<longrightarrow> P s') \<longrightarrow> P s \<longrightarrow> P s'"
    for env :: "'a search_env" and cc s s'
  have "Q env cc s s'"
  proof (rule EnsureMinStackHyps.raw_induct [OF _ run])
    fix f env cc m s s'
    assume IH: "\<And>env cc m s s'. f env cc m s = Some s' \<Longrightarrow> Q env cc s s'"
      and body: "(if m_queue (fst (snd s)) \<noteq> [] \<and> m_numStackInsertions (fst (snd s)) < m
        then Option.bind (ProcessBestHypothesis env cc s) (f env cc m) else Some s) = Some s'"
    show "Q env cc s s'"
    proof (cases "m_queue (fst (snd s)) \<noteq> [] \<and> m_numStackInsertions (fst (snd s)) < m")
      case True
      then obtain s1 where s1: "ProcessBestHypothesis env cc s = Some s1" "f env cc m s1 = Some s'"
        using body by (cases "ProcessBestHypothesis env cc s") auto
      have "Q env cc s1 s'" by (rule IH [OF s1(2)])
      then show ?thesis using s1(1) unfolding Q_def by blast
    next
      case False
      then have "s' = s" using body unfolding if_not_P [OF False] by simp
      then show ?thesis unfolding Q_def by simp
    qed
  qed
  then show ?thesis using step start unfolding Q_def by blast
qed

lemma on_container_inv:
  assumes inv: "cube_stack_inv env k (fst s)" and c: "c < length (m_bitmapAccessor (fst s))"
    and run: "on_container f c s = Some s'"
    and keeps: "\<And>s' bc0. bc0 = m_bitmapAccessor (fst s) ! c \<Longrightarrow> bc_bitmap bc0 \<in> bc_bitmap ` set (m_bitmapAccessor (fst s)) \<Longrightarrow>
      work_inv env (fst s) bc0 (fst s, bc0, snd s) \<Longrightarrow> f (fst s, bc0, snd s) = Some s' \<Longrightarrow> work_inv env (fst s) bc0 s'"
  shows "cube_stack_inv env k (fst s') \<and> map bc_bitmap (m_bitmapAccessor (fst s')) = map bc_bitmap (m_bitmapAccessor (fst s)) \<and>
    map bc_hypotheses (m_bitmapAccessor (fst s')) = map bc_hypotheses (m_bitmapAccessor (fst s))"
proof -
  let ?acc = "m_bitmapAccessor (fst s)"
  obtain st bc i where f: "f (fst s, ?acc ! c, snd s) = Some (st, bc, i)"
    and s': "s' = (st\<lparr>m_bitmapAccessor := (m_bitmapAccessor st)[c := bc]\<rparr>, i)"
    using run by (auto simp: on_container_def)
  have c_in: "?acc ! c \<in> set ?acc" using c by simp
  then have k: "BitmapNumWordsCovered (bc_bitmap (?acc ! c)) = k" "container_inv env (?acc ! c)"
    using inv by (simp_all add: cube_stack_inv_def)
  have "work_inv env (fst s) (?acc ! c) (st, bc, i)"
    by (rule keeps [OF refl _ _ f]) (use inv k c_in in \<open>auto simp: work_inv_def cube_stack_inv_def\<close>)
  then have w: "container_inv env bc" "same_frame (?acc ! c) bc" "hypos_inv env k (bc_bitmap ` set ?acc) (cs_hypos st)"
      "m_bitmapAccessor st = ?acc"
    using k by (simp_all add: work_inv_def)
  have maps: "map bc_bitmap (?acc[c := bc]) = map bc_bitmap ?acc" "map bc_hypotheses (?acc[c := bc]) = map bc_hypotheses ?acc"
    using w(2) c by (simp_all add: same_frame_def map_update list_update_same_conv)
  have "bc_bitmap ` set (?acc[c := bc]) = bc_bitmap ` set ?acc" using maps(1) by (metis list.set_map)
  moreover have "container_inv env x \<and> BitmapNumWordsCovered (bc_bitmap x) = k" if "x \<in> set (?acc[c := bc])" for x
    using set_update_subset_insert [of ?acc c bc] that w(1,2) k(1) inv by (auto simp: cube_stack_inv_def same_frame_def)
  ultimately show ?thesis
    using w inv maps by (simp add: s' cube_stack_inv_def set_ok_bitmaps)
qed

lemma pop_loop_inv:
  assumes env: "cube_env_ok env" "choices_ok cc"
    and "pop_loop env cc ind n q s = Some s'" "cube_stack_inv env k (fst s)" "set q \<subseteq> {..<length (m_bitmapAccessor (fst s))}"
  shows "cube_stack_inv env k (fst s') \<and> map bc_hypotheses (m_bitmapAccessor (fst s')) = map bc_hypotheses (m_bitmapAccessor (fst s))"
  using assms(3-5)
proof (induction n arbitrary: q s)
  case 0
  then show ?case by simp
next
  case (Suc n)
  show ?case
  proof (cases "q = []")
    case True
    then show ?thesis using Suc.prems by simp
  next
    case False
    define keys where "keys = map (\<lambda>c. (c, container_key cc (m_bitmapAccessor (fst s) ! c))) q"
    define i where "i = pick_container cc ind keys"
    have i: "i < length q" using choicesD(3) [OF env(2), of keys ind] False by (simp add: i_def keys_def)
    obtain s1 where s1: "on_container (ProcessBestHypothesis env cc) (q ! i) s = Some s1"
      and rest: "pop_loop env cc ind n
        (remove_nth i q @ (if m_queue (m_bitmapAccessor (fst s1) ! (q ! i)) = [] then [] else [q ! i])) s1 = Some s'"
      using Suc.prems(1) False unfolding pop_loop.simps Let_def keys_def [symmetric] i_def [symmetric]
      by (auto split: option.splits)
    have "q ! i \<in> set q" using i by simp
    then have c: "q ! i < length (m_bitmapAccessor (fst s))" using Suc.prems(3) by auto
    have one: "cube_stack_inv env k (fst s1) \<and> map bc_bitmap (m_bitmapAccessor (fst s1)) = map bc_bitmap (m_bitmapAccessor (fst s)) \<and>
        map bc_hypotheses (m_bitmapAccessor (fst s1)) = map bc_hypotheses (m_bitmapAccessor (fst s))"
      by (rule on_container_inv [OF Suc.prems(2) c s1]) (use ProcessBest_work [OF env] in blast)
    then have "length (m_bitmapAccessor (fst s1)) = length (m_bitmapAccessor (fst s))" by (metis length_map)
    moreover have "set (remove_nth i q @ (if m_queue (m_bitmapAccessor (fst s1) ! (q ! i)) = [] then [] else [q ! i])) \<subseteq> set q"
      using remove_nth_subset [of i q] \<open>q ! i \<in> set q\<close> by auto
    then have "set (remove_nth i q @ (if m_queue (m_bitmapAccessor (fst s1) ! (q ! i)) = [] then [] else [q ! i])) \<subseteq>
        {..<length (m_bitmapAccessor (fst s))}" using Suc.prems(3) by (rule subset_trans)
    ultimately show ?thesis using Suc.IH [OF rest] one by simp
  qed
qed

lemma ensure_diversity_inv:
  assumes env: "cube_env_ok env" "choices_ok cc"
    and "ensure_diversity env cc cs s = Some s'" "cube_stack_inv env k (fst s)" "set cs \<subseteq> {..<length (m_bitmapAccessor (fst s))}"
  shows "cube_stack_inv env k (fst s') \<and> map bc_hypotheses (m_bitmapAccessor (fst s')) = map bc_hypotheses (m_bitmapAccessor (fst s))"
  using assms(3-5)
proof (induction cs arbitrary: s)
  case Nil
  then show ?case by simp
next
  case (Cons c cs)
  obtain s1 where s1: "on_container (EnsureMinStackHyps env cc (diversity cc)) c s = Some s1"
    and rest: "ensure_diversity env cc cs s1 = Some s'"
    using Cons.prems(1) by (auto split: Option.bind_splits)
  have c: "c < length (m_bitmapAccessor (fst s))" using Cons.prems(3) by simp
  have one: "cube_stack_inv env k (fst s1) \<and> map bc_bitmap (m_bitmapAccessor (fst s1)) = map bc_bitmap (m_bitmapAccessor (fst s)) \<and>
      map bc_hypotheses (m_bitmapAccessor (fst s1)) = map bc_hypotheses (m_bitmapAccessor (fst s))"
  proof (rule on_container_inv [OF Cons.prems(2) c s1])
    fix s2 bc0
    assume b: "bc_bitmap bc0 \<in> bc_bitmap ` set (m_bitmapAccessor (fst s))"
      and w: "work_inv env (fst s) bc0 (fst s, bc0, snd s)"
      and run: "EnsureMinStackHyps env cc (diversity cc) (fst s, bc0, snd s) = Some s2"
    show "work_inv env (fst s) bc0 s2"
      by (rule EnsureMinStackHyps_keeps [where P = "work_inv env (fst s) bc0", OF run _ w]) (rule ProcessBest_work [OF env b])
  qed
  then have "length (m_bitmapAccessor (fst s1)) = length (m_bitmapAccessor (fst s))" by (metis length_map)
  then show ?case using Cons.IH [OF rest] one Cons.prems(3) by simp
qed

lemma initialize_containers_inv:
  assumes env: "cube_env_ok env" "choices_ok cc"
    and "initialize_containers env cc cs s = Some s'" "cube_stack_inv env k (fst s)" "set cs \<subseteq> {..<length (m_bitmapAccessor (fst s))}"
  shows "cube_stack_inv env k (fst s') \<and> map bc_hypotheses (m_bitmapAccessor (fst s')) = map bc_hypotheses (m_bitmapAccessor (fst s)) \<and>
    length (m_bitmapAccessor (fst s')) = length (m_bitmapAccessor (fst s))"
  using assms(3-5)
proof (induction cs arbitrary: s)
  case Nil
  then show ?case by simp
next
  case (Cons c cs)
  obtain st i where s: "s = (st, i)" by force
  define f where "f = (\<lambda>(st :: 'a cube_stack, bc, i). map_option (\<lambda>(bc, i). (st, bc, i)) (InitializeEdges env (edge_order cc (m_edges bc)) (bc, i)))"
  obtain bc i1 where b: "InitializeEdges env (edge_order cc (m_edges (m_bitmapAccessor st ! c))) (m_bitmapAccessor st ! c, i) = Some (bc, i1)"
    and rest: "initialize_containers env cc cs (st\<lparr>m_bitmapAccessor := (m_bitmapAccessor st)[c := bc]\<rparr>, i1) = Some s'"
    using Cons.prems(1) by (auto simp: s Let_def split: option.splits)
  have run: "on_container f c s = Some (st\<lparr>m_bitmapAccessor := (m_bitmapAccessor st)[c := bc]\<rparr>, i1)"
    using b by (simp add: on_container_def f_def s)
  have c: "c < length (m_bitmapAccessor (fst s))" using Cons.prems(3) by simp
  have one: "cube_stack_inv env k (st\<lparr>m_bitmapAccessor := (m_bitmapAccessor st)[c := bc]\<rparr>) \<and>
      map bc_hypotheses ((m_bitmapAccessor st)[c := bc]) = map bc_hypotheses (m_bitmapAccessor st)"
  proof -
    have "work_inv env (fst s) bc0 s2"
      if w: "work_inv env (fst s) bc0 (fst s, bc0, snd s)" and f: "f (fst s, bc0, snd s) = Some s2" for s2 bc0
    proof -
      obtain b2 i2 where 2: "InitializeEdges env (edge_order cc (m_edges bc0)) (bc0, snd s) = Some (b2, i2)" "s2 = (fst s, b2, i2)"
        using f by (auto simp: f_def)
      have "container_inv env b2 \<and> same_frame bc0 b2"
        by (rule InitializeEdges_inv [OF env(1) _ _ 2(1)]) (use w choicesD(4) [OF env(2)] in \<open>auto simp: work_inv_def\<close>)
      then show ?thesis using w by (simp add: work_inv_def 2)
    qed
    from on_container_inv [OF Cons.prems(2) c run this] show ?thesis by (simp add: s)
  qed
  then show ?case using Cons.IH [OF rest] Cons.prems(3) by (simp add: s)
qed

lemma fill_stack_inv:
  assumes env: "cube_env_ok env" "choices_ok cc" and run: "fill_stack env cc ind s = Some s'" and inv: "cube_stack_inv env k (fst s)"
  shows "cube_stack_inv env k (fst s') \<and> map bc_hypotheses (m_bitmapAccessor (fst s')) = map bc_hypotheses (m_bitmapAccessor (fst s))"
proof -
  let ?cs = "[0..<length (m_bitmapAccessor (fst s))]"
  obtain s1 s2 where s1: "initialize_containers env cc ?cs s = Some s1" and s2: "pop_loop env cc ind (popLimit cc) ?cs s1 = Some s2"
    and s': "(if diversity cc > 0 then ensure_diversity env cc ?cs s2 else Some s2) = Some s'"
    using run by (auto simp: fill_stack_def Let_def split: Option.bind_splits)
  have 1: "cube_stack_inv env k (fst s1) \<and> map bc_hypotheses (m_bitmapAccessor (fst s1)) = map bc_hypotheses (m_bitmapAccessor (fst s)) \<and>
    length (m_bitmapAccessor (fst s1)) = length (m_bitmapAccessor (fst s))"
    by (rule initialize_containers_inv [OF env s1 inv]) auto
  then have 2: "cube_stack_inv env k (fst s2) \<and> map bc_hypotheses (m_bitmapAccessor (fst s2)) = map bc_hypotheses (m_bitmapAccessor (fst s1))"
    by (intro pop_loop_inv [OF env s2]) auto
  then have "length (m_bitmapAccessor (fst s2)) = length (m_bitmapAccessor (fst s1))" by (metis length_map)
  moreover have "set ?cs \<subseteq> {..<length (m_bitmapAccessor (fst s))}" by auto
  ultimately show ?thesis using s' 1 2 ensure_diversity_inv [OF env, of ?cs s2 s' k] by (auto split: if_splits)
qed



section \<open>From one stack to the next\<close>

lemma containers_inv:
  assumes inv: "cube_stack_inv env k st" and maps: "map bc_bitmap acc = map bc_bitmap (m_bitmapAccessor st)"
    and ok: "\<forall>bc \<in> set acc. container_inv env bc"
  shows "cube_stack_inv env k (st\<lparr>m_bitmapAccessor := acc\<rparr>)"
proof -
  have img: "bc_bitmap ` set acc = bc_bitmap ` set (m_bitmapAccessor st)" using maps by (metis list.set_map)
  have "BitmapNumWordsCovered (bc_bitmap bc) = k" if mem: "bc \<in> set acc" for bc
  proof -
    have "bc_bitmap bc \<in> bc_bitmap ` set (m_bitmapAccessor st)" using mem img by blast
    then show ?thesis using inv by (auto simp: cube_stack_inv_def)
  qed
  then show ?thesis using inv ok by (simp add: cube_stack_inv_def set_ok_bitmaps maps img)
qed

lemma with_bitmap_inv:
  assumes inv: "cube_stack_inv env k st" and b: "wf_bitmap b"
    and f: "\<And>bc. container_inv env bc \<Longrightarrow> bc_bitmap bc = b \<Longrightarrow> container_inv env (f bc) \<and> bc_bitmap (f bc) = b"
  shows "cube_stack_inv env k (with_bitmap b f st) \<and>
    map bc_bitmap (m_bitmapAccessor (with_bitmap b f st)) = map bc_bitmap (m_bitmapAccessor st) \<and>
    cs_hypos (with_bitmap b f st) = cs_hypos st"
proof -
  define g where "g bc = (if BitmapCompare b (bc_bitmap bc) = 0 then f bc else bc)" for bc
  have g: "container_inv env (g bc) \<and> bc_bitmap (g bc) = bc_bitmap bc" if "bc \<in> set (m_bitmapAccessor st)" for bc
  proof -
    have bc: "container_inv env bc" using inv that by (simp add: cube_stack_inv_def)
    then have "wf_bitmap (bc_bitmap bc)" by (simp add: container_inv_def)
    then show ?thesis using f [OF bc] bc BitmapCompare_0 [OF b, of "bc_bitmap bc"] by (simp add: g_def)
  qed
  have eq: "with_bitmap b f st = st\<lparr>m_bitmapAccessor := map g (m_bitmapAccessor st)\<rparr>" by (simp add: with_bitmap_def g_def)
  have maps: "map bc_bitmap (map g (m_bitmapAccessor st)) = map bc_bitmap (m_bitmapAccessor st)" using g by simp
  show ?thesis unfolding eq using containers_inv [OF inv maps] g maps by simp
qed

text \<open>Every hypothesis of a stack finds the container of its coverage.\<close>

lemma AddHypotheses_inv:
  assumes "cube_stack_inv env k st" "set hs \<subseteq> set (cs_hypos st)"
  shows "\<exists>st'. AddHypothesesToBitmapContainers hs st = Some st' \<and> cube_stack_inv env k st'"
  using assms
proof (induction hs arbitrary: st)
  case Nil
  then show ?case by simp
next
  case (Cons h hs)
  have h: "produced env h" "coverage h \<in> bc_bitmap ` set (m_bitmapAccessor st)"
    using Cons.prems by (auto simp: cube_stack_inv_def hypos_inv_def)
  then obtain bc where bc: "bc \<in> set (m_bitmapAccessor st)" "coverage h = bc_bitmap bc" by auto
  have wf: "wf_bitmap (coverage h)" using Cons.prems(1) bc by (simp add: cube_stack_inv_def container_inv_def)
  have "set_find container_compare (BitmapContainerInit (coverage h)) (m_bitmapAccessor st) \<noteq> None"
  proof
    assume "set_find container_compare (BitmapContainerInit (coverage h)) (m_bitmapAccessor st) = None"
    then have "container_compare (BitmapContainerInit (coverage h)) bc \<noteq> 0"
      using container_order.set_find_None [of "m_bitmapAccessor st" "BitmapContainerInit (coverage h)"] Cons.prems(1) bc(1) wf
      by (simp add: cube_stack_inv_def wf_container_def container_inv_def BitmapContainerInit_def)
    then show False using BitmapCompare_0 [OF wf wf] bc(2) by (simp add: container_compare_def BitmapContainerInit_def)
  qed
  moreover have one: "cube_stack_inv env k (with_bitmap (coverage h) (AddHypothesis h) st) \<and>
      cs_hypos (with_bitmap (coverage h) (AddHypothesis h) st) = cs_hypos st"
    using with_bitmap_inv [OF Cons.prems(1) wf, of "AddHypothesis h"] h(1)
    by (simp add: AddHypothesis_def container_inv_def)
  ultimately show ?case using Cons.IH [OF conjunct1 [OF one]] Cons.prems(2) by simp
qed

lemma SetBitmapAccessor_inv:
  assumes inv: "cube_stack_inv env k st" and b: "wf_bitmap b" "m_size b = sourceSize env" "BitmapNumWordsCovered b = k"
    and edge: "edge_inv env b edge"
  shows "cube_stack_inv env k (SetBitmapAccessor b edge st)"
proof -
  let ?new = "BitmapContainerInit b :: 'a bitmap_container"
  define acc where "acc = set_insert container_compare ?new (m_bitmapAccessor st)"
  have sub: "set acc \<subseteq> insert ?new (set (m_bitmapAccessor st))" unfolding acc_def by (rule three_way_set_insert_subset)
  have wf: "\<forall>bc \<in> set (m_bitmapAccessor st). wf_container bc"
    using inv by (simp add: cube_stack_inv_def container_inv_def wf_container_def)
  have new: "container_inv env ?new" using b by (simp add: container_inv_def BitmapContainerInit_def)
  have ok: "set_ok container_compare acc"
    unfolding acc_def by (rule container_order.set_insert_ok)
      (use inv wf b in \<open>simp_all add: cube_stack_inv_def wf_container_def BitmapContainerInit_def\<close>)
  have "set (m_bitmapAccessor st) \<subseteq> set acc"
  proof (cases "set_find container_compare ?new (m_bitmapAccessor st)")
    case None
    then show ?thesis using container_order.set_insert_set(1) [OF None] by (auto simp: acc_def)
  next
    case (Some y)
    then show ?thesis using container_order.set_insert_found [OF _ wf _ Some] inv b
      by (simp add: acc_def cube_stack_inv_def wf_container_def BitmapContainerInit_def)
  qed
  then have img: "bc_bitmap ` set (m_bitmapAccessor st) \<subseteq> bc_bitmap ` set acc" by (rule image_mono)
  have "hypos_inv env k (bc_bitmap ` set (m_bitmapAccessor st)) (cs_hypos st)" using inv by (simp add: cube_stack_inv_def)
  then have "hypos_inv env k (bc_bitmap ` set acc) (cs_hypos st)" using img unfolding hypos_inv_def by blast
  then have "cube_stack_inv env k (st\<lparr>m_bitmapAccessor := acc\<rparr>)"
    using inv sub new ok b(3) by (auto simp: cube_stack_inv_def BitmapContainerInit_def)
  moreover have "container_inv env (AddBackwardsEdge edge bc) \<and> bc_bitmap (AddBackwardsEdge edge bc) = b"
    if "container_inv env bc" "bc_bitmap bc = b" for bc
    using that edge by (auto simp: container_inv_def AddBackwardsEdge_def item_inv_def nth_append)
  ultimately show ?thesis using with_bitmap_inv [OF _ b(1), of env k _ "AddBackwardsEdge edge"]
    by (simp add: SetBitmapAccessor_def acc_def)
qed

lemma cube_inv_update:
  assumes "cube_inv env s" "k < length (cube_stacks s)" "cube_stack_inv env k st"
  shows "cube_inv env (s\<lparr>cube_stacks := (cube_stacks s)[k := st]\<rparr>)"
  using assms by (simp add: cube_inv_def nth_list_update)

lemma cube_inv_id [simp]: "cube_inv env (s\<lparr>cube_hypoId := i\<rparr>) = cube_inv env s"
  by (simp add: cube_inv_def)

lemma forward_todo_inv:
  assumes env: "cube_env_ok env" "choices_ok cc" and bc: "container_inv env bc" and inv: "cube_inv env s"
    and span: "sp \<in> set (todo_spans env (bc_bitmap bc))" and run: "forward_todo env cc bc sp s = Some s'"
  shows "cube_inv env s'"
proof -
  obtain a e where sp: "sp = (a, e)" by force
  let ?b = "SetValueRange (bc_bitmap bc) a e True"
  have b: "wf_bitmap (bc_bitmap bc)" "m_size (bc_bitmap bc) = sourceSize env" using bc by (simp_all add: container_inv_def)
  note facts = todo_span_facts [OF span [unfolded sp] b cube_envD(5) [OF env(1)]]
  have e: "e < m_size (bc_bitmap bc)" using facts(1-3) b(2) by (auto simp: max_size_def Let_def split: if_splits)
  show ?thesis
  proof (cases "options env (WordsRange a e) = []")
    case True
    then show ?thesis using run inv by (simp add: forward_todo_def sp Let_def)
  next
    case False
    then obtain edge where n: "BitmapNumWordsCovered ?b < length (cube_stacks s)"
      and edge: "BackwardsEdgeInit env cc (bc_hypotheses bc) (options env (WordsRange a e)) = Some edge"
      and s': "s' = s\<lparr>cube_stacks := (cube_stacks s)[BitmapNumWordsCovered ?b :=
          SetBitmapAccessor ?b edge (cube_stacks s ! BitmapNumWordsCovered ?b)]\<rparr>"
      using run by (auto simp: forward_todo_def sp Let_def split: if_splits)
    have "edge_inv env ?b edge"
      by (rule BackwardsEdgeInit_inv [OF env edge _ span [unfolded sp]]) (use bc in \<open>simp add: container_inv_def\<close>)
    then have "cube_stack_inv env (BitmapNumWordsCovered ?b) (SetBitmapAccessor ?b edge (cube_stacks s ! BitmapNumWordsCovered ?b))"
      using wf_SetValueRange [OF b(1) e] size_SetValueRange [OF b(1) e] b(2) inv n
      by (intro SetBitmapAccessor_inv) (simp_all add: cube_inv_def)
    then show ?thesis unfolding s' by (rule cube_inv_update [OF inv n])
  qed
qed

lemma forward_todos_inv:
  assumes "cube_env_ok env" "choices_ok cc" "container_inv env bc"
    and "cube_inv env s" "set sps \<subseteq> set (todo_spans env (bc_bitmap bc))" "forward_todos env cc bc sps s = Some s'"
  shows "cube_inv env s'"
  using assms(4-6)
proof (induction sps arbitrary: s)
  case (Cons sp sps)
  then obtain s1 where s1: "forward_todo env cc bc sp s = Some s1" "forward_todos env cc bc sps s1 = Some s'"
    by (auto split: Option.bind_splits)
  have "cube_inv env s1" by (rule forward_todo_inv [OF assms(1-3) Cons.prems(1) _ s1(1)]) (use Cons.prems(2) in simp)
  then show ?case using Cons.IH [OF _ _ s1(2)] Cons.prems(2) by simp
qed simp

lemma container_todos_inv:
  assumes "cube_env_ok env" "choices_ok cc" "\<forall>bc \<in> set bcs. container_inv env bc"
    and "cube_inv env s" "container_todos env cc bcs s = Some s'"
  shows "cube_inv env s'"
  using assms(3-5)
proof (induction bcs arbitrary: s)
  case (Cons bc bcs)
  then obtain s1 where s1: "(if bc_hypotheses bc = [] then Some s else forward_todos env cc bc (todo_spans env (bc_bitmap bc)) s) = Some s1"
      "container_todos env cc bcs s1 = Some s'"
    by (auto split: Option.bind_splits)
  have "cube_inv env s1"
    using s1(1) Cons.prems(1,2) forward_todos_inv [OF assms(1,2) _ _ subset_refl, of bc s s1] by (auto split: if_splits)
  then show ?case using Cons.IH [OF _ _ s1(2)] Cons.prems(1) by simp
qed simp

lemma CreateForwardTodos_inv:
  assumes env: "cube_env_ok env" "choices_ok cc" and inv: "cube_inv env s" and ind: "ind < length (cube_stacks s)"
    and run: "CreateForwardTodos env cc ind s = Some s'"
  shows "cube_inv env s'"
proof -
  have st: "cube_stack_inv env ind (cube_stacks s ! ind)" using inv ind by (simp add: cube_inv_def)
  obtain st where st': "AddHypothesesToBitmapContainers (cs_hypos (cube_stacks s ! ind)) (cube_stacks s ! ind) = Some st"
      "cube_stack_inv env ind st" using AddHypotheses_inv [OF st subset_refl] by blast
  define f where "f = (\<lambda>bc. if bc_hypotheses bc = [] then bc else SortHypotheses cc bc)"
  define bcs where "bcs = map f (m_bitmapAccessor st)"
  have run': "container_todos env cc bcs (s\<lparr>cube_stacks := (cube_stacks s)[ind := st\<lparr>m_bitmapAccessor := bcs\<rparr>]\<rparr>) = Some s'"
    using run by (simp add: CreateForwardTodos_def st'(1) bcs_def f_def Let_def)
  have f: "container_inv env (f bc) \<and> bc_bitmap (f bc) = bc_bitmap bc" if "container_inv env bc" for bc
    using that choicesD(5) [OF env(2)] by (simp add: f_def SortHypotheses_def container_inv_def)
  have all: "\<forall>bc \<in> set (m_bitmapAccessor st). container_inv env (f bc) \<and> bc_bitmap (f bc) = bc_bitmap bc"
    using f st'(2) by (simp add: cube_stack_inv_def)
  then have maps: "map bc_bitmap bcs = map bc_bitmap (m_bitmapAccessor st)" by (simp add: bcs_def)
  have "cube_stack_inv env ind (st\<lparr>m_bitmapAccessor := bcs\<rparr>)"
    by (rule containers_inv [OF st'(2) maps]) (use all in \<open>simp add: bcs_def\<close>)
  then have "cube_inv env (s\<lparr>cube_stacks := (cube_stacks s)[ind := st\<lparr>m_bitmapAccessor := bcs\<rparr>]\<rparr>)"
    by (rule cube_inv_update [OF inv ind])
  from container_todos_inv [OF env _ this run'] show ?thesis using all by (simp add: bcs_def)
qed

lemma cube_process_stack_inv:
  assumes env: "cube_env_ok env" "choices_ok cc" and inv: "cube_inv env s" and ind: "ind < length (cube_stacks s)"
    and run: "cube_process_stack env cc ind s = Some s'"
  shows "cube_inv env s'"
proof -
  obtain st i st1 where fill: "fill_stack env cc ind (cube_stacks s ! ind, cube_hypoId s) = Some (st, i)"
    and prune: "CubePruneToSize (stack_cfg env) (m_maxHypoStackSize (stack_cfg env)) st = Some st1"
    and fwd: "CreateForwardTodos env cc ind
       (s\<lparr>cube_stacks := (cube_stacks s)[ind := CubeCleanupArcList (stack_cfg env) st1], cube_hypoId := i\<rparr>) = Some s'"
    using run by (auto simp: cube_process_stack_def split: option.splits)
  have "cube_stack_inv env ind st"
    using fill_stack_inv [OF env fill, of ind] inv ind by (simp add: cube_inv_def)
  then have 1: "cube_stack_inv env ind st1"
    using CubePruneToSize_subset [OF prune] by (auto simp: cube_stack_inv_def hypos_inv_def)
  then have "hypos_inv env ind (bc_bitmap ` set (m_bitmapAccessor st1)) (cs_hypos (CubeCleanupArcList (stack_cfg env) st1)) \<and>
      m_bitmapAccessor (CubeCleanupArcList (stack_cfg env) st1) = m_bitmapAccessor st1"
    using 1 CubeCleanup_holds [OF hypo_pred_closed, of st1 env ind "bc_bitmap ` set (m_bitmapAccessor st1)" "stack_cfg env"]
    unfolding cube_stack_inv_def hypos_inv_def by blast
  then have "cube_stack_inv env ind (CubeCleanupArcList (stack_cfg env) st1)" using 1 by (simp add: cube_stack_inv_def)
  from CreateForwardTodos_inv [OF env _ _ fwd] cube_inv_update [OF inv ind this] ind show ?thesis
    by (simp add: cube_inv_def)
qed

lemma cube_process_stacks_inv:
  assumes env: "cube_env_ok env" "choices_ok cc" and "cube_inv env s" "\<forall>i \<in> set inds. i \<le> sourceSize env"
    and "cube_process_stacks env cc inds s = Some s'"
  shows "cube_inv env s'"
  using assms(3-5)
proof (induction inds arbitrary: s)
  case (Cons ind inds)
  show ?case
  proof (cases "out_of_time env ind")
    case True
    then show ?thesis using Cons.prems by simp
  next
    case False
    then obtain s1 where s1: "cube_process_stack env cc ind s = Some s1" "cube_process_stacks env cc inds s1 = Some s'"
      using Cons.prems(3) by (auto split: Option.bind_splits)
    have "ind < length (cube_stacks s)" using Cons.prems(1,2) by (simp add: cube_inv_def)
    from cube_process_stack_inv [OF env Cons.prems(1) this s1(1)] show ?thesis
      using Cons.IH [OF _ _ s1(2)] Cons.prems(2) by simp
  qed
qed simp



lemma cube_start_inv:
  assumes env: "cube_env_ok env" and st: "AddInitial (state_compare env) (stack_cfg env) (seed env) CubeStackInit = Some st"
  shows "cube_inv env ((SearchCubePruningInit env)
    \<lparr>cube_stacks := (cube_stacks (SearchCubePruningInit env))[0 := CubeCleanupArcList (stack_cfg env) st], cube_hypoId := 1\<rparr>)"
proof -
  note env' = cube_envD [OF env]
  obtain st0 where st0: "CubeAdd (state_compare env) (stack_cfg env) (seed env) CubeStackInit = Some (st0, True)"
    and st': "st = st0\<lparr>m_bitmapAccessor := [BitmapContainerInit (coverage (seed env))]\<rparr>"
    using st by (auto simp: AddInitial_def split: option.splits if_splits)
  have hypos: "set (cs_hypos st) \<subseteq> {seed env}"
    using CubeAdd_subset [OF st0] by (simp add: st' CubeStackInit_def)
  have wf: "wf_bitmap (coverage (seed env))" "m_size (coverage (seed env)) = sourceSize env"
    using produced_wf [OF produced.seed env'(1)] by simp_all
  have bc: "m_bitmapAccessor st = [BitmapContainerInit (coverage (seed env))]" by (simp add: st')
  have "hypos_inv env 0 {coverage (seed env)} (cs_hypos st)"
    using hypos produced.seed empty_start [OF env'(1)] by (auto simp: hypos_inv_def)
  then have h: "hypos_inv env 0 {coverage (seed env)} (cs_hypos (CubeCleanupArcList (stack_cfg env) st)) \<and>
      m_bitmapAccessor (CubeCleanupArcList (stack_cfg env) st) = m_bitmapAccessor st"
    using CubeCleanup_holds [OF hypo_pred_closed, of st env 0 "{coverage (seed env)}" "stack_cfg env"]
    unfolding hypos_inv_def by blast
  have "cube_stack_inv env 0 (CubeCleanupArcList (stack_cfg env) st)"
    using h wf empty_start [OF env'(1)]
    by (simp add: cube_stack_inv_def bc BitmapContainerInit_def container_inv_def set_ok_def)
  moreover have "cube_stack_inv env k CubeStackInit" for k
    by (simp add: cube_stack_inv_def CubeStackInit_def hypos_inv_def set_ok_def)
  ultimately show ?thesis
    by (auto simp: cube_inv_def SearchCubePruningInit_def nth_list_update nth_append simp del: replicate_Suc)
qed

lemma CubeProcessSentence_inv:
  assumes env: "cube_env_ok env" "choices_ok cc" and run: "CubeProcessSentence env cc = Some s"
  shows "cube_inv env s"
proof -
  have init: "cube_stacks (SearchCubePruningInit env) ! 0 = CubeStackInit"
    by (simp add: SearchCubePruningInit_def)
  obtain st s1 where st: "AddInitial (state_compare env) (stack_cfg env) (seed env) CubeStackInit = Some st"
    and s1: "CreateForwardTodos env cc 0 ((SearchCubePruningInit env)
        \<lparr>cube_stacks := (cube_stacks (SearchCubePruningInit env))[0 := CubeCleanupArcList (stack_cfg env) st], cube_hypoId := 1\<rparr>) = Some s1"
    and s: "cube_process_stacks env cc [1..<sourceSize env + 1] s1 = Some s"
    using run unfolding CubeProcessSentence_def Let_def init by (auto split: option.splits Option.bind_splits)
  have "cube_inv env s1"
    by (rule CreateForwardTodos_inv [OF env cube_start_inv [OF env(1) st] _ s1]) (simp add: SearchCubePruningInit_def)
  then show ?thesis by (rule cube_process_stacks_inv [OF env _ _ s]) auto
qed

text \<open>C16: Cube pruning searches within the search space of the stack decoder: a hypothesis on one of its stacks
  arises from the seed by expansions the stack decoder makes, and is on the stack of the number of words it covers.
\<close>

theorem cube_pruning_within_search_space:
  assumes "cube_env_ok env" and "choices_ok cc" and "CubeProcessSentence env cc = Some s"
    and "k \<le> sourceSize env" and "h \<in> set (cs_hypos (cube_stacks s ! k))"
  shows "produced env h \<and> BitmapNumWordsCovered (coverage h) = k"
proof -
  have inv: "cube_inv env s" by (rule CubeProcessSentence_inv [OF assms(1-3)])
  then have "k < length (cube_stacks s)" using assms(4) by (simp add: cube_inv_def)
  then have "cube_stack_inv env k (cube_stacks s ! k)" using inv by (simp add: cube_inv_def)
  then show ?thesis using assms(5) by (simp add: cube_stack_inv_def hypos_inv_def)
qed

section \<open>A sample run\<close>

fun best_by :: "('a \<Rightarrow> 'a \<Rightarrow> bool) \<Rightarrow> 'a list \<Rightarrow> nat" where
  "best_by le [] = 0"
| "best_by le (x # xs) = (if xs = [] then 0 else if le x (xs ! best_by le xs) then Suc (best_by le xs) else 0)"

lemma best_by_best:
  assumes "\<And>x y z. le x y \<Longrightarrow> le y z \<Longrightarrow> le x z" "\<And>x y. le x y \<or> le y x" "xs \<noteq> []"
  shows "best_by le xs < length xs \<and> (\<forall>x \<in> set xs. le x (xs ! best_by le xs))"
  using assms(3)
proof (induction xs)
  case (Cons x xs)
  have refl: "le x x" using assms(2) by blast
  show ?case
  proof (cases "xs = []")
    case False
    with Cons have IH: "best_by le xs < length xs" "\<forall>y \<in> set xs. le y (xs ! best_by le xs)" by simp_all
    show ?thesis
    proof (cases "le x (xs ! best_by le xs)")
      case f: False
      then have "le (xs ! best_by le xs) x" using assms(2) by blast
      then have "\<forall>y \<in> set xs. le y x" using IH(2) assms(1) by blast
      then show ?thesis using f False refl by simp
    qed (use IH False in simp)
  qed (use refl in simp)
qed simp

definition sample_choices :: "'st cube_config" where
  "sample_choices = \<lparr>popLimit = 2, diversity = 0, weightDistortion = 1,
     pick_item = best_by (\<lambda>a b. total (m_hypothesis a) \<le> total (m_hypothesis b)),
     pick_container = (\<lambda>k. best_by (\<lambda>a b. key_le (snd a) (snd b))),
     edge_order = (\<lambda>es. [0..<length es]), sort_hypos = (\<lambda>f hs. rev (sort_key f (rev hs)))\<rparr>"

lemma sample_choices_ok: "choices_ok (sample_choices :: 'st cube_config)"
proof -
  have sort: "mset (rev (sort_key f (rev hs))) = mset hs \<and> sorted_wrt (\<lambda>g h. f g \<ge> f h) (rev (sort_key f (rev hs)))"
    for f :: "'st hypothesis \<Rightarrow> score" and hs
  proof -
    have "sorted (map f (sort_key f (rev hs)))" by simp
    then show ?thesis by (simp add: sorted_wrt_rev sorted_wrt_map)
  qed
  have key: "key_le a b \<Longrightarrow> key_le b c \<Longrightarrow> key_le a c" "key_le a b \<or> key_le b a" for a b c
    by (cases a; cases b; cases c; auto simp: key_le_def)+
  have item: "best_by (\<lambda>a b. total (m_hypothesis a) \<le> total (m_hypothesis b)) q < length q \<and>
      (\<forall>x \<in> set q. total (m_hypothesis x) \<le> total (m_hypothesis (q ! best_by (\<lambda>a b. total (m_hypothesis a) \<le> total (m_hypothesis b)) q)))"
    if "q \<noteq> []" for q :: "'st queue_item list"
    by (rule best_by_best [OF _ _ that]) auto
  have container: "best_by (\<lambda>a b. key_le (snd a) (snd b)) q < length q \<and>
      (\<forall>x \<in> set q. key_le (snd x) (snd (q ! best_by (\<lambda>a b. key_le (snd a) (snd b)) q)))"
    if "q \<noteq> []" for q :: "(nat \<times> score option) list"
    by (rule best_by_best [OF _ _ that]) (use key in blast)+
  show ?thesis
    unfolding choices_ok_def sample_choices_def cube_config.simps using sort item container by simp
qed

definition cube_option :: trans_opt where
  "cube_option = \<lparr>to_range = WordsRange 0 0, to_targetPhrase = [sample_word], to_scoreBreakdown = [-1],
     to_futureScore = Fin (-1), to_cachedScores = (\<lambda>sp. None)\<rparr>"

definition cube_sample :: "ff_state search_env" where
  "cube_sample = sample_env\<lparr>stack_cfg := sample_config\<lparr>maxDistortion := -1, m_nBestIsEnabled := False\<rparr>, sourceSize := 1, constraintPhrase := None,
     reorderingConstraint := InitializeWalls 1 ReorderingConstraintInit,
     options := (\<lambda>r. if r = WordsRange 0 0 then [cube_option] else []), futureScores := SquareMatrixInit 1 [0]\<rparr>"

lemma cube_sample_ok: "cube_env_ok cube_sample"
  by (simp add: cube_env_ok_def env_ok_def cube_sample_def sample_env_def cube_option_def)

lemma cube_sample_simps [simp]:
  "features cube_sample = \<lparr>empty_states = [], stateless = [], stateful = []\<rparr>"
  "stack_cfg cube_sample = sample_config\<lparr>maxDistortion := -1, m_nBestIsEnabled := False\<rparr>"
  "sourceSize cube_sample = 1" "constraintPhrase cube_sample = None" "initialCoverage cube_sample = []"
  "allWeights cube_sample = [1]" "initialTargetPhrase cube_sample = []"
  "reorderingConstraint cube_sample = InitializeWalls 1 ReorderingConstraintInit"
  "options cube_sample = (\<lambda>r. if r = WordsRange 0 0 then [cube_option] else [])"
  "maxPhraseLength cube_sample = 20" "maxNumFactors cube_sample = 1" "out_of_time cube_sample i = False"
  "futureScores cube_sample = SquareMatrixInit 1 [0]"
  by (simp_all add: cube_sample_def sample_env_def)

definition cube_b0 :: words_bitmap where "cube_b0 = BitmapInit 1"

definition cube_b1 :: words_bitmap where "cube_b1 = SetValueRange cube_b0 0 0 True"

lemma cube_sample_bits: "GetFirstGapPos cube_b0 = 0" "GetValue cube_b0 0 = False" "BitmapNumWordsCovered cube_b0 = 0" "BitmapNumWordsCovered cube_b1 = 1"
   "GetValue cube_b1 0 = True" "GetFirstGapPos cube_b1 = NOT_FOUND" "BitmapOverlap cube_b0 (WordsRange 0 0) = False" "BitmapCompare cube_b1 cube_b1 = 0"
    "BitmapCompare cube_b0 cube_b0 = 0"
  by (simp_all add: cube_b0_def cube_b1_def bitmap_defs)

lemma cube_sample_spans: "todo_spans cube_sample cube_b0 = [(0,0)]" "todo_spans cube_sample cube_b1 = []"
  by (simp_all add: todo_spans_def cube_sample_bits CheckDistortion_def Check_def Let_def InitializeWalls_def ReorderingConstraintInit_def)

definition cube_seed :: "ff_state hypothesis" where "cube_seed = seed cube_sample"

lemma cube_seed_facts: "coverage cube_seed = cube_b0" "total cube_seed = 0" "m_scoreBreakdown (core cube_seed) = [0]" "m_ffStates (core cube_seed) = []"
proof -
  show "coverage cube_seed = cube_b0" using seed_coverage [of cube_sample] cube_sample_ok by (simp add: cube_seed_def cube_env_ok_def cube_b0_def)
  show "total cube_seed = 0" "m_scoreBreakdown (core cube_seed) = [0]" "m_ffStates (core cube_seed) = []"
    by (simp_all add: cube_seed_def seed_def HypothesisInit_def ZeroAll_def Let_def)
qed

definition cube_h :: "ff_state hypothesis" where "cube_h = the (CreateHypothesis cube_sample cube_seed cube_option 1)"

lemma cube_h_facts: "CreateHypothesis cube_sample cube_seed cube_option 1 = Some cube_h \<and> coverage cube_h = cube_b1"
proof -
  have r: "to_range cube_option = WordsRange 0 0" "to_scoreBreakdown cube_option = [-1]"
    by (simp_all add: cube_option_def)
  have "\<exists>h. CreateHypothesis cube_sample cube_seed cube_option 1 = Some h \<and> coverage h = cube_b1"
    by (simp add: CreateHypothesis_def Create_def HypothesisNext_def cube_seed_facts cube_sample_bits r Let_def CalcScore_def PlusEquals_def
      cube_b1_def update_core_def)
  then show ?thesis by (auto simp: cube_h_def)
qed

lemma container_compare_fields [simp]: "container_compare \<lparr>bc_bitmap = b, bc_hypotheses = h, m_edges = e, m_queue = q, m_numStackInsertions = n\<rparr>
  \<lparr>bc_bitmap = b', bc_hypotheses = h', m_edges = e', m_queue = q', m_numStackInsertions = n'\<rparr> = BitmapCompare b b'"
  by (simp add: container_compare_def)

lemma cube_score_bits: "MinusInf < (0 :: score)" "\<not> total cube_h < MinusInf" "total cube_h > MinusInf \<Longrightarrow> total cube_h + Fin (-11) > MinusInf"
  by (cases "total cube_h"; simp add: zero_score_def)+

lemma cube_sample_run: "\<exists>s. CubeProcessSentence cube_sample sample_choices = Some s \<and> cs_hypos (cube_stacks s ! 1) = [cube_h]"
  by (simp add: CubeProcessSentence_def SearchCubePruningInit_def AddInitial_def CubeAdd_def CubeStackInit_def Let_def cube_seed_def [symmetric]
   cube_seed_facts cube_note_scores_def sz_simps size_bound_def CubeCleanupArcList_def sz_add_def sz_sub_def CreateForwardTodos_def BitmapContainerInit_def
   cube_sample_bits with_bitmap_def AddHypothesis_def sample_config_def SortHypotheses_def sample_choices_def cube_sample_spans forward_todo_def cube_b1_def [symmetric]
   BackwardsEdgeInit_def SetBitmapAccessor_def AddBackwardsEdge_def cube_score_bits,
      simp add: cube_process_stack_def fill_stack_def EdgeInitialize_def push_cell_def SetSeenPosition_def Let_def cube_h_facts [unfolded One_nat_def]
    Enqueue_def mark_initialized_def on_container_def ProcessBestHypothesis_def Dequeue_def Top_def remove_nth_def CubeAddPrune_def
    CubeAdd_def container_key_def sz_add_def sz_sub_def size_bound_def PushSuccessors_def push_successor_def CubePruneToSize_def CubeCleanupArcList_def
    CreateForwardTodos_def BitmapContainerInit_def cube_sample_bits with_bitmap_def AddHypothesis_def SortHypotheses_def cube_sample_spans numeral_2_eq_2 cube_score_bits sample_config_def cube_note_scores_def)

lemma cube_pruning_within_search_space_witness:
  "\<exists>s. CubeProcessSentence cube_sample sample_choices = Some s \<and> cs_hypos (cube_stacks s ! 1) = [cube_h] \<and>
     produced cube_sample cube_h \<and> BitmapNumWordsCovered (coverage cube_h) = 1"
proof -
  obtain s where s: "CubeProcessSentence cube_sample sample_choices = Some s" "cs_hypos (cube_stacks s ! 1) = [cube_h]"
    using cube_sample_run by blast
  have "produced cube_sample cube_h \<and> BitmapNumWordsCovered (coverage cube_h) = 1"
    by (rule cube_pruning_within_search_space [OF cube_sample_ok sample_choices_ok s(1)]) (simp_all add: s(2) [unfolded One_nat_def])
  then show ?thesis using s by blast
qed


end
