(* ===== verification/Cube_Grid.thy ===== *)
theory Cube_Grid
  imports Cube_Pruning
begin

text \<open>
  What a container of cube pruning enumerates (\<open>BackwardsEdge\<close> and \<open>BitmapContainer\<close> in
  \<open>BitmapContainer.cpp\<close>): from the corner of each grid on, every cell once, and the best first when the
  scores fall along the rows and columns.
\<close>

section \<open>Cells\<close>

type_synonym cell = "nat \<times> nat \<times> nat"

definition item_cell :: "'st queue_item \<Rightarrow> cell" where
  "item_cell item = (m_edge item, m_hypothesis_pos item, m_translation_pos item)"

definition cells :: "'st bitmap_container \<Rightarrow> cell set" where
  "cells bc = (SIGMA e:{..<length (m_edges bc)}.
     {..<length (m_hypotheses (m_edges bc ! e))} \<times> {..<length (m_translations (m_edges bc ! e))})"

lemma cells_iff:
  "(e, x, y) \<in> cells bc \<longleftrightarrow> e < length (m_edges bc) \<and> x < length (m_hypotheses (m_edges bc ! e)) \<and>
     y < length (m_translations (m_edges bc ! e))"
  by (auto simp: cells_def)

lemma finite_cells [simp]: "finite (cells bc)"
  by (simp add: cells_def)

lemma same_frame_cells: "same_frame bc bc' \<Longrightarrow> cells bc' = cells bc"
  using grids_nth [of bc' bc] by (auto simp: cells_iff same_frame_def)

text \<open>The keys of the cells of a grid are distinct up to 2^16 rows and columns.\<close>

lemma seen_key_small:
  assumes "x < 2 ^ 16" "y < 2 ^ 16"
  shows "seen_key x y = to_int32 (int (x * 2 ^ 16 + y))"
  using assms by (simp add: seen_key_def sz_add_def size_bound_def)

lemma to_int32_inj: "a < 2 ^ 32 \<Longrightarrow> b < 2 ^ 32 \<Longrightarrow> to_int32 (int a) = to_int32 (int b) \<Longrightarrow> a = b"
proof -
  have cut: "to_int32 (int n) = (if n < 2 ^ 31 then int n else int n - 2 ^ 32)" if "n < 2 ^ 32" for n
  proof (cases "n < 2 ^ 31")
    case False
    then have "(int n + 2 ^ 31) mod 2 ^ 32 = (int n - 2 ^ 31) mod 2 ^ 32"
      using mod_add_self2 [of "int n - 2 ^ 31" "2 ^ 32"] by (simp add: add.commute)
    also have "\<dots> = int n - 2 ^ 31" using that False by (intro mod_pos_pos_trivial) simp_all
    finally show ?thesis using False by (simp add: to_int32_def)
  qed (simp add: to_int32_small)
  assume "a < 2 ^ 32" "b < 2 ^ 32" "to_int32 (int a) = to_int32 (int b)"
  then show "a = b" using cut [of a] cut [of b] by (auto split: if_splits)
qed

lemma seen_key_inj:
  assumes "x < 2 ^ 16" "y < 2 ^ 16" "x' < 2 ^ 16" "y' < 2 ^ 16" "seen_key x y = seen_key x' y'"
  shows "x = x' \<and> y = y'"
proof -
  have "x * 2 ^ 16 + y = x' * 2 ^ 16 + y'"
    by (rule to_int32_inj) (use assms in \<open>simp_all add: seen_key_small\<close>)
  moreover from this have "x = x'" using assms(2,4)
    by (metis add.commute div_mult_self1_is_m div_less div_mult_self3 add_0 power_not_zero zero_neq_numeral mult.commute)
  ultimately show ?thesis by simp
qed

definition small_grids :: "'st bitmap_container \<Rightarrow> bool" where
  "small_grids bc \<longleftrightarrow> (\<forall>edge \<in> set (m_edges bc). length (m_hypotheses edge) \<le> 2 ^ 16 \<and> length (m_translations edge) \<le> 2 ^ 16)"

lemma small_gridsD: "small_grids bc \<Longrightarrow> (e, x, y) \<in> cells bc \<Longrightarrow> x < 2 ^ 16 \<and> y < 2 ^ 16"
  unfolding small_grids_def cells_iff by (meson less_le_trans nth_mem)

lemma same_frame_small: "same_frame bc bc' \<Longrightarrow> small_grids bc \<Longrightarrow> small_grids bc'"
  using grids_nth [of bc' bc] unfolding small_grids_def same_frame_def all_set_conv_all_nth by auto

text \<open>What is known of the score of a cell, whatever the identifier of the hypothesis made of it.\<close>

definition cell_scores :: "'st search_env \<Rightarrow> (cell \<Rightarrow> score \<Rightarrow> bool) \<Rightarrow> 'st bitmap_container \<Rightarrow> bool" where
  "cell_scores env score bc \<longleftrightarrow> (\<forall>e x y i h. (e, x, y) \<in> cells bc \<longrightarrow>
     CreateHypothesis env (m_hypotheses (m_edges bc ! e) ! x) (m_translations (m_edges bc ! e) ! y) i = Some h \<longrightarrow>
     score (e, x, y) (total h))"

lemma same_frame_scores:
  assumes "same_frame bc bc'" "cell_scores env score bc"
  shows "cell_scores env score bc'"
  using assms(2) same_frame_cells [OF assms(1)] grids_nth [of bc' bc] assms(1)
  unfolding cell_scores_def same_frame_def cells_iff by metis

section \<open>The invariant\<close>

definition enqueued :: "cell set \<Rightarrow> 'st bitmap_container \<Rightarrow> cell set" where
  "enqueued P bc = P \<union> item_cell ` set (m_queue bc)"

definition grid_inv :: "(cell \<Rightarrow> score \<Rightarrow> bool) \<Rightarrow> cell set \<Rightarrow> 'st bitmap_container \<Rightarrow> bool" where
  "grid_inv score P bc \<longleftrightarrow> enqueued P bc \<subseteq> cells bc \<and> distinct (map item_cell (m_queue bc)) \<and>
     P \<inter> item_cell ` set (m_queue bc) = {} \<and> (\<forall>item \<in> set (m_queue bc). score (item_cell item) (total (m_hypothesis item))) \<and>
     (\<forall>e < length (m_edges bc). m_seenPosition (m_edges bc ! e) = (\<lambda>(x, y). seen_key x y) ` {p. (e, p) \<in> enqueued P bc})"

lemma seen_iff:
  assumes "grid_inv score P bc" "small_grids bc" "(e, x, y) \<in> cells bc"
  shows "SeenPosition x y (m_edges bc ! e) \<longleftrightarrow> (e, x, y) \<in> enqueued P bc"
proof -
  have e: "e < length (m_edges bc)" using assms(3) by (simp add: cells_iff)
  have "seen_key x y \<in> (\<lambda>(x, y). seen_key x y) ` {p. (e, p) \<in> enqueued P bc} \<longleftrightarrow> (e, x, y) \<in> enqueued P bc"
  proof
    assume "seen_key x y \<in> (\<lambda>(x, y). seen_key x y) ` {p. (e, p) \<in> enqueued P bc}"
    then obtain x' y' where k: "seen_key x y = seen_key x' y'" "(e, x', y') \<in> enqueued P bc" by auto
    then have "(e, x', y') \<in> cells bc" using assms(1) by (auto simp: grid_inv_def)
    then show "(e, x, y) \<in> enqueued P bc"
      using seen_key_inj [OF _ _ _ _ k(1)] small_gridsD [OF assms(2)] assms(3) k(2) by blast
  next
    assume "(e, x, y) \<in> enqueued P bc"
    then show "seen_key x y \<in> (\<lambda>(x, y). seen_key x y) ` {p. (e, p) \<in> enqueued P bc}" by force
  qed
  then show ?thesis using assms(1) e by (simp add: grid_inv_def SeenPosition_def)
qed

lemma push_cell_grid:
  assumes inv: "grid_inv score P bc" and scores: "cell_scores env score bc"
    and cell: "(e, x, y) \<in> cells bc" "(e, x, y) \<notin> enqueued P bc" and push: "push_cell env e x y (bc, i) = Some (bc', i')"
  shows "grid_inv score P bc' \<and> enqueued P bc' = insert (e, x, y) (enqueued P bc) \<and> same_frame bc bc'"
proof -
  obtain h where h: "CreateHypothesis env (m_hypotheses (m_edges bc ! e) ! x) (m_translations (m_edges bc ! e) ! y) i = Some h"
    and q: "m_queue bc' = m_queue bc @ [\<lparr>m_hypothesis_pos = x, m_translation_pos = y, m_hypothesis = h, m_edge = e\<rparr>]"
    and edges: "m_edges bc' = (m_edges bc)[e := (m_edges bc ! e)\<lparr>m_seenPosition := insert (seen_key x y) (m_seenPosition (m_edges bc ! e))\<rparr>]"
    and frame: "same_frame bc bc'" by (rule push_cell_cases [OF push]) blast
  have enq: "enqueued P bc' = insert (e, x, y) (enqueued P bc)" by (simp add: enqueued_def q item_cell_def)
  have e: "e < length (m_edges bc)" using cell(1) by (simp add: cells_iff)
  have seen: "m_seenPosition (m_edges bc' ! d) = (\<lambda>(x, y). seen_key x y) ` {p. (d, p) \<in> enqueued P bc'}"
    if "d < length (m_edges bc')" for d
  proof (cases "d = e")
    case True
    then have "{p. (d, p) \<in> enqueued P bc'} = insert (x, y) {p. (e, p) \<in> enqueued P bc}" using enq by auto
    then show ?thesis using True e edges inv by (simp add: grid_inv_def)
  next
    case False
    then have "{p. (d, p) \<in> enqueued P bc'} = {p. (d, p) \<in> enqueued P bc}" using enq by auto
    then show ?thesis using False that edges inv by (simp add: grid_inv_def)
  qed
  have "score (e, x, y) (total h)" using scores cell(1) h unfolding cell_scores_def by blast
  then have "grid_inv score P bc'"
    using inv cell seen enq same_frame_cells [OF frame]
    by (auto simp: grid_inv_def q item_cell_def enqueued_def)
  then show ?thesis using enq frame by simp
qed

lemma push_successor_grid:
  assumes inv: "grid_inv score P bc" "small_grids bc" and scores: "cell_scores env score bc"
    and e: "e < length (m_edges bc)" and push: "push_successor env e x y (bc, i) = Some (bc', i')"
  shows "grid_inv score P bc' \<and> enqueued P bc' = enqueued P bc \<union> {(e, x, y)} \<inter> cells bc \<and> same_frame bc bc'"
proof (cases "(e, x, y) \<in> cells bc \<and> \<not> SeenPosition x y (m_edges bc ! e)")
  case True
  then have "push_cell env e x y (bc, i) = Some (bc', i')" using push by (simp add: push_successor_def cells_iff Let_def)
  from push_cell_grid [OF inv(1) scores _ _ this] show ?thesis using True seen_iff [OF inv] by auto
next
  case False
  then have "bc' = bc" using push e by (auto simp: push_successor_def cells_iff Let_def split: if_splits)
  moreover have "{(e, x, y)} \<inter> cells bc \<subseteq> enqueued P bc" using False seen_iff [OF inv] by auto
  ultimately show ?thesis using inv by auto
qed

lemma PushSuccessors_grid:
  assumes inv: "grid_inv score P bc" "small_grids bc" and scores: "cell_scores env score bc"
    and e: "e < length (m_edges bc)" and push: "PushSuccessors env e x y (bc, i) = Some (bc', i')"
  shows "grid_inv score P bc' \<and> enqueued P bc' = enqueued P bc \<union> {(e, x, y + 1), (e, x + 1, y)} \<inter> cells bc \<and> same_frame bc bc'"
proof -
  obtain b1 i1 where 1: "push_successor env e x (y + 1) (bc, i) = Some (b1, i1)"
      "push_successor env (e) (x + 1) y (b1, i1) = Some (bc', i')"
    using push by (auto simp: PushSuccessors_def split: Option.bind_splits)
  note a = push_successor_grid [OF inv scores e 1(1)]
  then have f: "same_frame bc b1" by simp
  have "e < length (m_edges b1)" using e grids_nth(1) [of b1 bc] f by (simp add: same_frame_def)
  from push_successor_grid [OF conjunct1 [OF a] same_frame_small [OF f inv(2)] same_frame_scores [OF f scores] this 1(2)]
  show ?thesis using a same_frame_cells [OF f] same_frame_trans [OF f] by auto
qed

section \<open>Popping and starting\<close>

lemma remove_nth_distinct:
  assumes "i < length xs" "distinct (map f xs)"
  shows "distinct (map f (remove_nth i xs))" "f ` set (remove_nth i xs) = f ` set xs - {f (xs ! i)}"
    "length (remove_nth i xs) = length xs - 1"
proof -
  have xs: "xs = take i xs @ xs ! i # drop (Suc i) xs" using assms(1) by (rule id_take_nth_drop)
  have d: "distinct (map f (take i xs) @ f (xs ! i) # map f (drop (Suc i) xs))"
    using assms(2) xs by (metis list.simps(9) map_append)
  then show "distinct (map f (remove_nth i xs))" by (auto simp: remove_nth_def)
  have "f ` set xs = f ` set (take i xs) \<union> {f (xs ! i)} \<union> f ` set (drop (Suc i) xs)"
    using arg_cong [OF xs, of "\<lambda>ys. f ` set ys"] by auto
  then show "f ` set (remove_nth i xs) = f ` set xs - {f (xs ! i)}" using d by (auto simp: remove_nth_def)
  show "length (remove_nth i xs) = length xs - 1" using assms(1) by (simp add: remove_nth_def)
qed

lemma ProcessBest_grid:
  assumes cc: "choices_ok cc" and inv: "grid_inv score P bc" "small_grids bc" and scores: "cell_scores env score bc"
    and ne: "m_queue bc \<noteq> []" and run: "ProcessBestHypothesis env cc (st, bc, i) = Some (st', bc', i')"
    and top: "item_cell (Top cc bc) = (e, x, y)"
  shows "grid_inv score (insert (e, x, y) P) bc' \<and> same_frame bc bc' \<and>
    enqueued (insert (e, x, y) P) bc' = enqueued P bc \<union> {(e, x, y + 1), (e, x + 1, y)} \<inter> cells bc"
proof -
  obtain new bc1 where bc1: "bc1 = bc\<lparr>m_queue := remove_nth (pick_item cc (m_queue bc)) (m_queue bc),
          m_numStackInsertions := m_numStackInsertions bc + of_bool new\<rparr>"
    and push: "PushSuccessors env (m_edge (Top cc bc)) (m_hypothesis_pos (Top cc bc)) (m_translation_pos (Top cc bc)) (bc1, i) =
          Some (bc', i')"
    by (rule ProcessBestHypothesis_cases [OF run ne]) blast
  have pos: "m_edge (Top cc bc) = e" "m_hypothesis_pos (Top cc bc) = x" "m_translation_pos (Top cc bc) = y"
    using top by (simp_all add: item_cell_def)
  have i: "pick_item cc (m_queue bc) < length (m_queue bc)" by (rule choicesD(1) [OF cc ne])
  have "distinct (map item_cell (m_queue bc))" using inv(1) by (simp add: grid_inv_def)
  note rem = remove_nth_distinct [OF i this, folded Top_def, unfolded top]
  have mem: "(e, x, y) \<in> item_cell ` set (m_queue bc)" using Top_in [OF cc ne] top by (metis imageI)
  have frame: "same_frame bc bc1" by (simp add: bc1 same_frame_def grids_def)
  have enq: "enqueued (insert (e, x, y) P) bc1 = enqueued P bc"
    using rem(2) mem by (auto simp: enqueued_def bc1)
  have cell: "(e, x, y) \<in> cells bc" using mem inv(1) by (auto simp: grid_inv_def enqueued_def)
  have inv1: "grid_inv score (insert (e, x, y) P) bc1"
    unfolding grid_inv_def enq same_frame_cells [OF frame]
  proof (intro conjI)
    show "insert (e, x, y) P \<inter> item_cell ` set (m_queue bc1) = {}" using inv(1) rem(2) by (auto simp: bc1 grid_inv_def)
    show "\<forall>item \<in> set (m_queue bc1). score (item_cell item) (total (m_hypothesis item))"
      using inv(1) remove_nth_subset [of "pick_item cc (m_queue bc)" "m_queue bc"] by (auto simp: bc1 grid_inv_def)
  qed (use inv(1) rem(1) in \<open>simp_all add: bc1 grid_inv_def\<close>)
  have e: "e < length (m_edges bc1)" using cell by (simp add: cells_iff bc1)
  from PushSuccessors_grid [OF inv1 same_frame_small [OF frame inv(2)] same_frame_scores [OF frame scores] e push [unfolded pos]]
  show ?thesis using enq same_frame_cells [OF frame] same_frame_trans [OF frame] by simp
qed

lemma InitializeEdges_grid:
  assumes "grid_inv score P bc" "small_grids bc" "cell_scores env score bc" "set es \<subseteq> {..<length (m_edges bc)}" "distinct es"
    and "\<forall>e \<in> set es. (e, 0, 0) \<notin> enqueued P bc" "InitializeEdges env es (bc, i) = Some (bc', i')"
  shows "grid_inv score P bc' \<and> same_frame bc bc' \<and> enqueued P bc' = enqueued P bc \<union> {(e, 0, 0) | e. e \<in> set es} \<inter> cells bc"
  using assms
proof (induction es arbitrary: bc i)
  case Nil
  then show ?case by simp
next
  case (Cons e es)
  obtain b1 i1 where 1: "EdgeInitialize env e (bc, i) = Some (b1, i1)" "InitializeEdges env es (b1, i1) = Some (bc', i')"
    using Cons.prems(7) by (auto split: Option.bind_splits)
  then obtain b0 where b1: "b1 = mark_initialized e b0"
    and 0: "(if m_hypotheses (m_edges bc ! e) = [] \<or> m_translations (m_edges bc ! e) = [] then Some (bc, i)
      else push_cell env e 0 0 (bc, i)) = Some (b0, i1)"
    by (auto simp: EdgeInitialize_def Let_def split: option.splits)
  have e: "e < length (m_edges bc)" using Cons.prems(4) by simp
  have corner: "(e, 0, 0) \<in> cells bc \<longleftrightarrow> \<not> (m_hypotheses (m_edges bc ! e) = [] \<or> m_translations (m_edges bc ! e) = [])"
    using e by (auto simp: cells_iff)
  have b0: "grid_inv score P b0 \<and> enqueued P b0 = enqueued P bc \<union> {(e, 0, 0)} \<inter> cells bc \<and> same_frame bc b0"
  proof (cases "(e, 0, 0) \<in> cells bc")
    case True
    then have "push_cell env e 0 0 (bc, i) = Some (b0, i1)" using 0 corner by simp
    from push_cell_grid [OF Cons.prems(1,3) True _ this] show ?thesis using True Cons.prems(6) by simp
  next
    case False
    then show ?thesis using 0 corner Cons.prems(1) by simp
  qed
  have "same_frame b0 (b0\<lparr>m_edges := (m_edges b0)[e := (m_edges b0 ! e)\<lparr>m_initialized := True\<rparr>], m_queue := m_queue b0\<rparr>)"
    by (rule edge_update_frame) simp_all
  then have mark: "same_frame b0 b1" by (simp add: b1 mark_initialized_def)
  have q: "m_queue b1 = m_queue b0" by (simp add: b1 mark_initialized_def)
  then have enq1: "enqueued P b1 = enqueued P b0" by (simp add: enqueued_def)
  have seen: "m_seenPosition (m_edges b1 ! d) = m_seenPosition (m_edges b0 ! d)" if "d < length (m_edges b0)" for d
    using that by (cases "d = e") (simp_all add: b1 mark_initialized_def)
  have len: "length (m_edges b1) = length (m_edges b0)" by (simp add: b1 mark_initialized_def)
  have inv1: "grid_inv score P b1"
    using conjunct1 [OF b0] seen unfolding grid_inv_def enq1 q same_frame_cells [OF mark] len by simp
  have f: "same_frame bc b1" using b0 mark same_frame_trans by blast
  have "set es \<subseteq> {..<length (m_edges b1)}" using Cons.prems(4) grids_nth(1) [of b1 bc] f by (auto simp: same_frame_def)
  moreover have "\<forall>d \<in> set es. (d, 0, 0) \<notin> enqueued P b1" using Cons.prems(5,6) enq1 b0 by auto
  ultimately have "grid_inv score P bc' \<and> same_frame b1 bc' \<and> enqueued P bc' = enqueued P b1 \<union> {(e, 0, 0) | e. e \<in> set es} \<inter> cells b1"
    using Cons.IH [OF inv1 same_frame_small [OF f Cons.prems(2)] same_frame_scores [OF f Cons.prems(3)] _ _ _ 1(2)] Cons.prems(5) by simp
  then show ?case using f same_frame_trans [OF f] enq1 b0 same_frame_cells [OF f] by auto
qed

section \<open>What a run of pops yields\<close>

text \<open>The items a number of pops takes from the queue, the first first.\<close>

fun pop_items ::
    "'st search_env \<Rightarrow> 'st cube_config \<Rightarrow> nat \<Rightarrow> 'st cube_stack \<times> 'st bitmap_container \<times> nat \<Rightarrow>
     ('st queue_item list \<times> 'st cube_stack \<times> 'st bitmap_container \<times> nat) option" where
  "pop_items env cc 0 s = Some ([], s)"
| "pop_items env cc (Suc n) s =
     (if m_queue (fst (snd s)) = [] then Some ([], s)
      else case ProcessBestHypothesis env cc s of
             None \<Rightarrow> None
           | Some s' \<Rightarrow> map_option (\<lambda>(items, r). (Top cc (fst (snd s)) # items, r)) (pop_items env cc n s'))"

text \<open>Corners are enqueued, and so are the neighbours of what was popped.\<close>

definition frontier :: "cell set \<Rightarrow> 'st bitmap_container \<Rightarrow> bool" where
  "frontier P bc \<longleftrightarrow> (\<forall>e. (e, 0, 0) \<in> cells bc \<longrightarrow> (e, 0, 0) \<in> enqueued P bc) \<and>
     (\<forall>e x y. (e, x, y) \<in> P \<longrightarrow> {(e, x, y + 1), (e, x + 1, y)} \<inter> cells bc \<subseteq> enqueued P bc)"

lemma frontier_dominates:
  assumes "frontier P bc" "(e, x, y) \<in> cells bc" "(e, x, y) \<notin> P"
  shows "\<exists>x' y'. x' \<le> x \<and> y' \<le> y \<and> (e, x', y') \<in> item_cell ` set (m_queue bc)"
  using assms(2,3)
proof (induction "x + y" arbitrary: x y rule: less_induct)
  case less
  show ?case
  proof (cases "(e, x, y) \<in> enqueued P bc")
    case True
    then show ?thesis using less.prems by (auto simp: enqueued_def)
  next
    case False
    then have "\<not> (x = 0 \<and> y = 0)" using assms(1) less.prems unfolding frontier_def by blast
    then consider x' where "x = Suc x'" | y' where "y = Suc y'" by (cases x; cases y) auto
    then show ?thesis
    proof cases
      case (1 x')
      have "(e, x', y) \<in> cells bc" using less.prems(1) 1 by (simp add: cells_iff)
      moreover have "(e, x', y) \<notin> P" using assms(1) False less.prems(1) unfolding frontier_def 1 by fastforce
      ultimately obtain a b where "a \<le> x'" "b \<le> y" "(e, a, b) \<in> item_cell ` set (m_queue bc)"
        using less.hyps [of x' y] 1 by auto
      then show ?thesis using 1 le_SucI by blast
    next
      case (2 y')
      have "(e, x, y') \<in> cells bc" using less.prems(1) 2 by (simp add: cells_iff)
      moreover have "(e, x, y') \<notin> P" using assms(1) False less.prems(1) unfolding frontier_def 2 by fastforce
      ultimately obtain a b where "a \<le> x" "b \<le> y'" "(e, a, b) \<in> item_cell ` set (m_queue bc)"
        using less.hyps [of x y'] 2 by auto
      then show ?thesis using 2 le_SucI by blast
    qed
  qed
qed

lemma pop_items_grid:
  assumes "choices_ok cc" "pop_items env cc n (st, bc, i) = Some (items, st', bc', i')"
    and "grid_inv score P bc" "small_grids bc" "cell_scores env score bc" "frontier P bc"
  shows "grid_inv score (P \<union> item_cell ` set items) bc' \<and> same_frame bc bc' \<and> frontier (P \<union> item_cell ` set items) bc' \<and>
    distinct (map item_cell items) \<and> P \<inter> item_cell ` set items = {} \<and>
    (length items = n \<or> (length items \<le> n \<and> m_queue bc' = []))"
  using assms(2-6)
proof (induction n arbitrary: st bc i items P)
  case 0
  then show ?case by simp
next
  case (Suc n)
  show ?case
  proof (cases "m_queue bc = []")
    case True
    then show ?thesis using Suc.prems by simp
  next
    case False
    then obtain s1 where run: "ProcessBestHypothesis env cc (st, bc, i) = Some s1"
      using Suc.prems(1) by (auto split: option.splits)
    obtain st1 b1 i1 where s1: "s1 = (st1, b1, i1)" by (cases s1) auto
    obtain rest where rest: "pop_items env cc n (st1, b1, i1) = Some (rest, st', bc', i')" "items = Top cc bc # rest"
      using Suc.prems(1) False run by (auto simp: s1)
    obtain e x y where top: "item_cell (Top cc bc) = (e, x, y)" by (metis prod_cases3)
    note one = ProcessBest_grid [OF assms(1) Suc.prems(2,3,4) False run [unfolded s1] top]
    then have f: "same_frame bc b1" by simp
    let ?P = "insert (e, x, y) P"
    have new: "(e, x, y) \<notin> P" "(e, x, y) \<in> enqueued P bc"
      using Top_in [OF assms(1) False] top Suc.prems(2) by (auto simp: grid_inv_def enqueued_def) (metis disjoint_iff imageI)+
    have enq: "enqueued ?P b1 = enqueued P bc \<union> {(e, x, y + 1), (e, x + 1, y)} \<inter> cells bc" using one by blast
    have "frontier ?P b1"
      using Suc.prems(5) unfolding frontier_def enq same_frame_cells [OF f] by blast
    from Suc.IH [OF rest(1) conjunct1 [OF one] same_frame_small [OF f Suc.prems(3)] same_frame_scores [OF f Suc.prems(4)] this]
    show ?thesis using same_frame_trans [OF f] new top by (simp add: rest(2))
  qed
qed



definition fresh_grids :: "'st bitmap_container \<Rightarrow> bool" where
  "fresh_grids bc \<longleftrightarrow> m_queue bc = [] \<and> (\<forall>edge \<in> set (m_edges bc). m_seenPosition edge = {})"

lemma initialized_grid:
  assumes cc: "choices_ok cc" and fresh: "fresh_grids bc" "small_grids bc" and scores: "cell_scores env score bc"
    and run: "InitializeEdges env (edge_order cc (m_edges bc)) (bc, i) = Some (bc1, i1)"
  shows "grid_inv score {} bc1 \<and> same_frame bc bc1 \<and> frontier {} bc1"
proof -
  have "mset (edge_order cc (m_edges bc)) = mset [0..<length (m_edges bc)]" using cc by (simp add: choices_ok_def)
  then have dist: "distinct (edge_order cc (m_edges bc))" by (metis distinct_upt mset_eq_imp_distinct_iff)
  have inv: "grid_inv score {} bc" using fresh(1) by (simp add: grid_inv_def fresh_grids_def enqueued_def)
  have none: "enqueued {} bc = {}" using fresh(1) by (simp add: fresh_grids_def enqueued_def)
  have "grid_inv score {} bc1 \<and> same_frame bc bc1 \<and>
      enqueued {} bc1 = enqueued {} bc \<union> {(e, 0, 0) | e. e \<in> set (edge_order cc (m_edges bc))} \<inter> cells bc"
    by (rule InitializeEdges_grid [OF inv fresh(2) scores _ dist _ run]) (simp_all add: choicesD(4) [OF cc] none)
  moreover from this have "cells bc1 = cells bc" by (simp add: same_frame_cells)
  ultimately show ?thesis by (auto simp: frontier_def choicesD(4) [OF cc] cells_iff)
qed

lemma exhausted_grid:
  assumes "grid_inv score P bc" "frontier P bc" "m_queue bc = []"
  shows "P = cells bc"
proof
  show "P \<subseteq> cells bc" using assms(1) by (auto simp: grid_inv_def enqueued_def)
  show "cells bc \<subseteq> P"
  proof
    fix c assume "c \<in> cells bc"
    then show "c \<in> P" using frontier_dominates [OF assms(2)] assms(3) by (cases c) force
  qed
qed

text \<open>C34: A container makes each cell of its grids into a hypothesis at most once, and all of them if it is given
  the pops: a run of \<open>n\<close> pops takes the items of \<open>n\<close> different cells from the queue, or those of every cell when
  there are fewer, for grids of at most 2^16 rows and columns.
\<close>

theorem cube_enumerates_each_cell_once:
  assumes "choices_ok cc" and "fresh_grids bc" and "small_grids bc"
    and "InitializeEdges env (edge_order cc (m_edges bc)) (bc, i) = Some (bc1, i1)"
    and "pop_items env cc n (st, bc1, i1) = Some (items, r)"
  shows "distinct (map item_cell items) \<and> item_cell ` set items \<subseteq> cells bc \<and> length items = min n (card (cells bc))"
proof -
  obtain st' bc' i' where r: "r = (st', bc', i')" by (cases r) auto
  have any: "cell_scores env (\<lambda>c s. True) bc" by (simp add: cell_scores_def)
  note init = initialized_grid [OF assms(1-3) any assms(4)]
  then have f: "same_frame bc bc1" by simp
  note pops = pop_items_grid [OF assms(1) assms(5) [unfolded r] conjunct1 [OF init] same_frame_small [OF f assms(3)]
      same_frame_scores [OF f any]]
  have g: "grid_inv (\<lambda>c s. True) (item_cell ` set items) bc'" "same_frame bc bc'" "frontier (item_cell ` set items) bc'"
      "distinct (map item_cell items)" "length items = n \<or> (length items \<le> n \<and> m_queue bc' = [])"
    using pops init same_frame_trans [OF f] by simp_all
  have sub: "item_cell ` set items \<subseteq> cells bc"
    using g(1) same_frame_cells [OF g(2)] by (auto simp: grid_inv_def enqueued_def)
  have card: "card (item_cell ` set items) = length items" using g(4) by (metis distinct_card length_map list.set_map)
  then have le: "length items \<le> card (cells bc)" using card_mono [OF finite_cells sub] by simp
  show ?thesis
  proof (cases "length items = n")
    case True
    then show ?thesis using g(4) sub le by simp
  next
    case False
    then have "item_cell ` set items = cells bc"
      using exhausted_grid [OF g(1,3)] g(5) same_frame_cells [OF g(2)] by simp
    then show ?thesis using g(4,5) card by auto
  qed
qed

lemma pop_items_best:
  assumes cc: "choices_ok cc" and "pop_items env cc n (st, bc, i) = Some (items, st', bc', i')"
    and "grid_inv (\<lambda>c s. s = score c) P bc" "small_grids bc" "cell_scores env (\<lambda>c s. s = score c) bc" "frontier P bc"
    and mono: "\<And>e x y x' y'. (e, x, y) \<in> cells bc \<Longrightarrow> x' \<le> x \<Longrightarrow> y' \<le> y \<Longrightarrow> score (e, x, y) \<le> score (e, x', y')"
  shows "sorted_wrt (\<lambda>a b. score (item_cell a) \<ge> score (item_cell b)) items \<and>
    (\<forall>item \<in> set items. item_cell item \<in> cells bc - P \<and> total (m_hypothesis item) = score (item_cell item)) \<and>
    (\<forall>c \<in> cells bc - P - item_cell ` set items. \<forall>item \<in> set items. score c \<le> score (item_cell item))"
  using assms(2-7)
proof (induction n arbitrary: st bc i items P)
  case 0
  then show ?case by simp
next
  case (Suc n)
  show ?case
  proof (cases "m_queue bc = []")
    case True
    then show ?thesis using Suc.prems by simp
  next
    case False
    then obtain s1 where run: "ProcessBestHypothesis env cc (st, bc, i) = Some s1"
      using Suc.prems(1) by (auto split: option.splits)
    obtain st1 b1 i1 where s1: "s1 = (st1, b1, i1)" by (cases s1) auto
    obtain rest where rest: "pop_items env cc n (st1, b1, i1) = Some (rest, st', bc', i')" "items = Top cc bc # rest"
      using Suc.prems(1) False run by (auto simp: s1)
    obtain e x y where top: "item_cell (Top cc bc) = (e, x, y)" by (metis prod_cases3)
    let ?t = "score (e, x, y)"
    note one = ProcessBest_grid [OF cc Suc.prems(2,3,4) False run [unfolded s1] top]
    then have f: "same_frame bc b1" by simp
    have mem: "Top cc bc \<in> set (m_queue bc)" by (rule Top_in [OF cc False])
    have tot: "total (m_hypothesis (Top cc bc)) = ?t" using mem Suc.prems(2) top by (auto simp: grid_inv_def)
    have best: "score c \<le> ?t" if c: "c \<in> cells bc - P" for c
    proof -
      obtain d u v where duv: "c = (d, u, v)" by (metis prod_cases3)
      then obtain u' v' where dom: "u' \<le> u" "v' \<le> v" "(d, u', v') \<in> item_cell ` set (m_queue bc)"
        using frontier_dominates [OF Suc.prems(5), of d u v] c by auto
      then obtain item where item: "item \<in> set (m_queue bc)" "item_cell item = (d, u', v')" by auto
      have "score c \<le> score (item_cell item)" unfolding item(2) duv using Suc.prems(6) c dom(1,2) duv by blast
      also have "\<dots> = total (m_hypothesis item)" using Suc.prems(2) item(1) by (simp add: grid_inv_def)
      also have "\<dots> \<le> ?t" using choicesD(2) [OF cc item(1)] tot by (simp add: Top_def)
      finally show ?thesis .
    qed
    let ?P = "insert (e, x, y) P"
    have new: "(e, x, y) \<in> cells bc - P"
    proof -
      have "(e, x, y) \<in> item_cell ` set (m_queue bc)" using mem top by (metis imageI)
      then show ?thesis using Suc.prems(2) by (auto simp: grid_inv_def enqueued_def)
    qed
    have enq: "enqueued ?P b1 = enqueued P bc \<union> {(e, x, y + 1), (e, x + 1, y)} \<inter> cells bc" using one by blast
    have front: "frontier ?P b1"
      using Suc.prems(5) new unfolding frontier_def enq same_frame_cells [OF f] by blast
    have IH: "sorted_wrt (\<lambda>a b. score (item_cell a) \<ge> score (item_cell b)) rest \<and>
      (\<forall>item \<in> set rest. item_cell item \<in> cells b1 - ?P \<and> total (m_hypothesis item) = score (item_cell item)) \<and>
      (\<forall>c \<in> cells b1 - ?P - item_cell ` set rest. \<forall>item \<in> set rest. score c \<le> score (item_cell item))"
      by (rule Suc.IH [OF rest(1) conjunct1 [OF one] same_frame_small [OF f Suc.prems(3)] same_frame_scores [OF f Suc.prems(4)] front])
        (use Suc.prems(6) same_frame_cells [OF f] in blast)
    show ?thesis
      unfolding rest(2) using IH best new tot top by (auto simp: same_frame_cells [OF f])
  qed
qed

text \<open>C17: Cube pruning is exact on a monotone grid: when the score of a cell does not depend on the identifier of
  its hypothesis and never rises along a row or a column, the items come out of the queue best first, and
  no cell left behind is better than one taken.
\<close>

theorem cube_pops_the_best_cells:
  assumes "choices_ok cc" and "fresh_grids bc" and "small_grids bc"
    and "InitializeEdges env (edge_order cc (m_edges bc)) (bc, i) = Some (bc1, i1)"
    and "pop_items env cc n (st, bc1, i1) = Some (items, r)"
    and "\<And>e x y i h. (e, x, y) \<in> cells bc \<Longrightarrow>
      CreateHypothesis env (m_hypotheses (m_edges bc ! e) ! x) (m_translations (m_edges bc ! e) ! y) i = Some h \<Longrightarrow>
      total h = score (e, x, y)"
    and "\<And>e x y x' y'. (e, x, y) \<in> cells bc \<Longrightarrow> x' \<le> x \<Longrightarrow> y' \<le> y \<Longrightarrow> score (e, x, y) \<le> score (e, x', y')"
  shows "sorted_wrt (\<lambda>a b. total (m_hypothesis a) \<ge> total (m_hypothesis b)) items \<and>
    (\<forall>c \<in> cells bc - item_cell ` set items. \<forall>item \<in> set items. score c \<le> total (m_hypothesis item))"
proof -
  obtain st' bc' i' where r: "r = (st', bc', i')" by (cases r) auto
  have scores: "cell_scores env (\<lambda>c s. s = score c) bc" using assms(6) unfolding cell_scores_def by blast
  note init = initialized_grid [OF assms(1-3) scores assms(4)]
  then have f: "same_frame bc bc1" by simp
  have "sorted_wrt (\<lambda>a b. score (item_cell a) \<ge> score (item_cell b)) items \<and>
    (\<forall>item \<in> set items. item_cell item \<in> cells bc1 - {} \<and> total (m_hypothesis item) = score (item_cell item)) \<and>
    (\<forall>c \<in> cells bc1 - {} - item_cell ` set items. \<forall>item \<in> set items. score c \<le> score (item_cell item))"
    by (rule pop_items_best [OF assms(1) assms(5) [unfolded r] _ same_frame_small [OF f assms(3)] same_frame_scores [OF f scores]])
      (use init assms(7) same_frame_cells [OF f] in \<open>blast+\<close>)
  then have g: "sorted_wrt (\<lambda>a b. score (item_cell a) \<ge> score (item_cell b)) items"
      "\<And>item. item \<in> set items \<Longrightarrow> total (m_hypothesis item) = score (item_cell item)"
      "\<forall>c \<in> cells bc - item_cell ` set items. \<forall>item \<in> set items. score c \<le> score (item_cell item)"
    using same_frame_cells [OF f] by auto
  have "sorted_wrt (\<lambda>a b. total (m_hypothesis a) \<ge> total (m_hypothesis b)) items"
    by (rule sorted_wrt_mono_rel [OF _ g(1)]) (simp add: g(2))
  then show ?thesis using g(2,3) by simp
qed



section \<open>Termination and keys\<close>

lemma EnsureMin_pops:
  assumes cc: "choices_ok cc" and "grid_inv score P bc" "small_grids bc" "cell_scores env score bc"
  shows "\<exists>n \<le> card (cells bc - P). EnsureMinStackHyps env cc m (st, bc, i) = map_option snd (pop_items env cc n (st, bc, i))"
  using assms(2-4)
proof (induction "card (cells bc - P)" arbitrary: P st bc i rule: less_induct)
  case less
  show ?case
  proof (cases "m_queue bc \<noteq> [] \<and> m_numStackInsertions bc < m")
    case False
    then have "EnsureMinStackHyps env cc m (st, bc, i) = Some (st, bc, i)" by (subst EnsureMinStackHyps.simps) auto
    then show ?thesis by (intro exI [of _ 0]) simp
  next
    case True
    then have loop: "EnsureMinStackHyps env cc m (st, bc, i) =
        Option.bind (ProcessBestHypothesis env cc (st, bc, i)) (EnsureMinStackHyps env cc m)"
      by (subst EnsureMinStackHyps.simps) simp
    obtain e x y where top: "item_cell (Top cc bc) = (e, x, y)" by (metis prod_cases3)
    have "(e, x, y) \<in> item_cell ` set (m_queue bc)" using Top_in [OF cc, of bc] True top by (metis imageI)
    then have new: "(e, x, y) \<in> cells bc - P" using less.prems(1) by (auto simp: grid_inv_def enqueued_def)
    then have pos: "0 < card (cells bc - P)" by (metis card_gt_0_iff empty_iff finite_Diff finite_cells)
    show ?thesis
    proof (cases "ProcessBestHypothesis env cc (st, bc, i)")
      case None
      then show ?thesis using loop True pos by (intro exI [of _ "Suc 0"]) simp
    next
      case (Some s1)
      obtain st1 b1 i1 where s1: "s1 = (st1, b1, i1)" by (cases s1) auto
      have one: "grid_inv score (insert (e, x, y) P) b1 \<and> same_frame bc b1"
        using ProcessBest_grid [OF cc less.prems _ Some [unfolded s1] top] True by blast
      then have f: "same_frame bc b1" by simp
      have "cells b1 - insert (e, x, y) P = cells bc - P - {(e, x, y)}" using same_frame_cells [OF f] by auto
      then have card: "card (cells b1 - insert (e, x, y) P) = card (cells bc - P) - 1" using new by simp
      obtain n where n: "n \<le> card (cells b1 - insert (e, x, y) P)"
          "EnsureMinStackHyps env cc m (st1, b1, i1) = map_option snd (pop_items env cc n (st1, b1, i1))"
        using less.hyps [OF _ conjunct1 [OF one] same_frame_small [OF f less.prems(2)] same_frame_scores [OF f less.prems(3)]]
          card pos by fastforce
      have "EnsureMinStackHyps env cc m (st, bc, i) = map_option snd (pop_items env cc (Suc n) (st, bc, i))"
        using loop True Some n(2) by (simp add: s1 option.map_comp o_def case_prod_beta)
      then show ?thesis using n(1) card pos by (intro exI [of _ "Suc n"]) simp
    qed
  qed
qed

text \<open>The loop that ensures diversity ends: after any number of pops it is itself a number of pops, no more than
  there are cells left in the grids of the container.
\<close>

theorem ensure_min_terminates:
  assumes "choices_ok cc" and "fresh_grids bc" and "small_grids bc"
    and "InitializeEdges env (edge_order cc (m_edges bc)) (bc, i) = Some (bc1, i1)"
    and "pop_items env cc k (st, bc1, i1) = Some (items, s)"
  shows "\<exists>n \<le> card (cells bc) - length items. EnsureMinStackHyps env cc m s = map_option snd (pop_items env cc n s)"
proof -
  obtain st' bc' i' where s: "s = (st', bc', i')" by (cases s) auto
  have any: "cell_scores env (\<lambda>c s. True) bc" by (simp add: cell_scores_def)
  note init = initialized_grid [OF assms(1-3) any assms(4)]
  then have f: "same_frame bc bc1" by simp
  have pops: "grid_inv (\<lambda>c s. True) (item_cell ` set items) bc' \<and> same_frame bc1 bc' \<and> distinct (map item_cell items)"
    using pop_items_grid [OF assms(1) assms(5) [unfolded s] conjunct1 [OF init] same_frame_small [OF f assms(3)]
      same_frame_scores [OF f any]] init by simp
  then have f': "same_frame bc bc'" using same_frame_trans [OF f] by blast
  have "item_cell ` set items \<subseteq> cells bc" using pops same_frame_cells [OF f'] by (auto simp: grid_inv_def enqueued_def)
  moreover have "card (item_cell ` set items) = length items" using pops by (metis distinct_card length_map list.set_map)
  ultimately have "card (cells bc' - item_cell ` set items) = card (cells bc) - length items"
    using same_frame_cells [OF f'] by (simp add: card_Diff_subset)
  then show ?thesis
    using EnsureMin_pops [OF assms(1) conjunct1 [OF pops] same_frame_small [OF f' assms(3)] same_frame_scores [OF f' any], of m st' i']
    by (simp add: s)
qed

lemma seen_key_eq: "seen_key x y = to_int32 (int (x * 2 ^ 16 + y))"
proof -
  have cut: "to_int32 (i mod 2 ^ 64) = to_int32 i" for i
  proof -
    have "(i mod 2 ^ 64 + 2 ^ 31) mod 2 ^ 32 = (i mod 2 ^ 64 mod 2 ^ 32 + 2 ^ 31) mod 2 ^ 32" by (rule mod_add_left_eq [symmetric])
    also have "i mod 2 ^ 64 mod 2 ^ 32 = i mod 2 ^ 32" by (rule mod_mod_cancel) simp
    finally show ?thesis by (simp add: to_int32_def mod_add_left_eq)
  qed
  have "seen_key x y = to_int32 (int (x * 2 ^ 16 + y) mod 2 ^ 64)"
    by (simp add: seen_key_def sz_add_def size_bound_def mod_add_left_eq zmod_int mod_add_eq)
  then show ?thesis using cut by simp
qed

text \<open>The marks on the cells of a grid tell cells apart only below 2^16 rows and columns, although positions
  up to 2^17 are accepted: the cell after the last such column of a row has the mark of the next row's first
  cell, and rows 2^16 apart have the same marks.
\<close>

theorem seen_keys_collide:
  "inj_on (\<lambda>(x, y). seen_key x y) ({..<2 ^ 16} \<times> {..<2 ^ 16}) \<and>
   seen_key x (2 ^ 16) = seen_key (x + 1) 0 \<and> seen_key (x + 2 ^ 16) y = seen_key x y"
proof (intro conjI)
  show "inj_on (\<lambda>(x, y). seen_key x y) ({..<2 ^ 16} \<times> {..<2 ^ 16})"
    by (rule inj_onI) (use seen_key_inj in auto)
  show "seen_key x (2 ^ 16) = seen_key (x + 1) 0" by (simp add: seen_key_eq algebra_simps)
  have "int ((x + 2 ^ 16) * 2 ^ 16 + y) + 2 ^ 31 = int (x * 2 ^ 16 + y) + 2 ^ 31 + 2 ^ 32" by (simp add: algebra_simps)
  then show "seen_key (x + 2 ^ 16) y = seen_key x y" unfolding seen_key_eq to_int32_def by (metis mod_add_self2)
qed


section \<open>A sample grid\<close>

definition grid_option :: "rat \<Rightarrow> trans_opt" where
  "grid_option r = cube_option\<lparr>to_scoreBreakdown := [r]\<rparr>"

definition grid_hypo :: "rat \<Rightarrow> nat \<Rightarrow> ff_state hypothesis" where
  "grid_hypo r i = the (CreateHypothesis cube_sample cube_seed (grid_option r) i)"

lemma grid_hypo_facts:
  "CreateHypothesis cube_sample cube_seed (grid_option r) i = Some (grid_hypo r i)" (is ?a)
  "coverage (grid_hypo r i) = cube_b1" (is ?b) "m_ffStates (core (grid_hypo r i)) = []" (is ?c) "total (grid_hypo r i) = Fin r" (is ?d)
proof -
  have r: "to_range (grid_option r) = WordsRange 0 0" "to_scoreBreakdown (grid_option r) = [r]"
    by (simp_all add: cube_option_def grid_option_def)
  have f: "CalcFutureScore (SquareMatrixInit (Suc 0) [0]) cube_b1 = 0"
    by (simp add: CalcFutureScore_def cube_b1_def cube_b0_def bitmap_defs Let_def NOT_FOUND_def size_bound_def)
      (simp add: future_step_def GetValue_def NOT_FOUND_def size_bound_def)
  have "\<exists>h. CreateHypothesis cube_sample cube_seed (grid_option r) i = Some h \<and> coverage h = cube_b1 \<and> m_ffStates (core h) = [] \<and> total h = Fin r"
    by (simp add: CreateHypothesis_def Create_def HypothesisNext_def cube_seed_facts cube_sample_bits r Let_def CalcScore_def PlusEquals_def
      cube_b1_def [symmetric] update_core_def f InnerProduct_def)
  then show ?a ?b ?c ?d by (auto simp: grid_hypo_def)
qed

definition grid_container :: "ff_state bitmap_container" where
  "grid_container = (BitmapContainerInit cube_b1)\<lparr>m_edges := [\<lparr>m_initialized = False, m_hypotheses = [cube_seed],
     m_translations = [grid_option (-1), grid_option (-2)], m_seenPosition = {}\<rparr>]\<rparr>"

lemma grid_container_ok: "fresh_grids grid_container" "small_grids grid_container"
  by (simp_all add: fresh_grids_def small_grids_def grid_container_def BitmapContainerInit_def)

lemma grid_container_cells: "cells grid_container = {(0, 0, 0), (0, 0, 1)}"
  by (auto simp: cells_def grid_container_def BitmapContainerInit_def)

lemma grid_same: "RecombineCompare FFStateCompare (grid_hypo r i) (grid_hypo q j) = 0"
  by (simp add: RecombineCompare_def grid_hypo_facts cube_sample_bits)

lemma grid_run:
  "\<exists>bc1 i1 items s. InitializeEdges cube_sample (edge_order sample_choices (m_edges grid_container)) (grid_container, 1) = Some (bc1, i1) \<and>
     pop_items cube_sample sample_choices 1 (CubeStackInit, bc1, i1) = Some (items, s) \<and> map item_cell items = [(0, 0, 0)] \<and>
     map (total \<circ> m_hypothesis) items = [Fin (-1)]"
  by (simp add: grid_container_def BitmapContainerInit_def sample_choices_def EdgeInitialize_def push_cell_def SetSeenPosition_def
    grid_hypo_facts [unfolded One_nat_def] Enqueue_def mark_initialized_def ProcessBestHypothesis_def Dequeue_def Top_def remove_nth_def CubeAddPrune_def
    CubeAdd_def CubeStackInit_def sz_add_def sz_sub_def size_bound_def sample_config_def cube_note_scores_def PushSuccessors_def push_successor_def
    SeenPosition_def seen_key_eq to_int32_def CubePruneToSize_def item_cell_def Let_def)



lemma cube_enumerates_each_cell_once_witness:
  "\<exists>bc1 i1 items s. InitializeEdges cube_sample (edge_order sample_choices (m_edges grid_container)) (grid_container, 1) = Some (bc1, i1) \<and>
     pop_items cube_sample sample_choices 1 (CubeStackInit, bc1, i1) = Some (items, s) \<and> length items = min 1 (card (cells grid_container))"
  using grid_run cube_enumerates_each_cell_once [OF sample_choices_ok grid_container_ok] by metis

lemma ensure_min_terminates_witness:
  "\<exists>bc1 i1 items s n. InitializeEdges cube_sample (edge_order sample_choices (m_edges grid_container)) (grid_container, 1) = Some (bc1, i1) \<and>
     pop_items cube_sample sample_choices 1 (CubeStackInit, bc1, i1) = Some (items, s) \<and>
     n \<le> card (cells grid_container) - length items \<and>
     EnsureMinStackHyps cube_sample sample_choices 2 s = map_option snd (pop_items cube_sample sample_choices n s)"
  using grid_run ensure_min_terminates [OF sample_choices_ok grid_container_ok] by metis

lemma grid_cell_score:
  assumes "(e, x, y) \<in> cells grid_container"
    and "CreateHypothesis cube_sample (m_hypotheses (m_edges grid_container ! e) ! x) (m_translations (m_edges grid_container ! e) ! y) i = Some h"
  shows "total h = Fin (- 1 - of_nat y)"
  using assms grid_hypo_facts
  by (auto simp: grid_container_cells) (auto simp: grid_container_def BitmapContainerInit_def)

lemma cube_pops_the_best_cells_witness:
  "\<exists>bc1 i1 items s. InitializeEdges cube_sample (edge_order sample_choices (m_edges grid_container)) (grid_container, 1) = Some (bc1, i1) \<and>
     pop_items cube_sample sample_choices 1 (CubeStackInit, bc1, i1) = Some (items, s) \<and>
     map (total \<circ> m_hypothesis) items = [Fin (-1)] \<and> (\<forall>c \<in> cells grid_container - item_cell ` set items. Fin (- 1 - of_nat (snd (snd c))) \<le> Fin (-1))"
proof -
  obtain bc1 i1 items s where run: "InitializeEdges cube_sample (edge_order sample_choices (m_edges grid_container)) (grid_container, 1) = Some (bc1, i1)"
      "pop_items cube_sample sample_choices 1 (CubeStackInit, bc1, i1) = Some (items, s)" "map (total \<circ> m_hypothesis) items = [Fin (-1)]"
    using grid_run by metis
  have "sorted_wrt (\<lambda>a b. total (m_hypothesis a) \<ge> total (m_hypothesis b)) items \<and>
    (\<forall>c \<in> cells grid_container - item_cell ` set items. \<forall>item \<in> set items. Fin (- 1 - of_nat (snd (snd c))) \<le> total (m_hypothesis item))"
    by (rule cube_pops_the_best_cells [where score = "\<lambda>c. Fin (- 1 - of_nat (snd (snd c)))", OF sample_choices_ok grid_container_ok run(1,2)])
      (use grid_cell_score in auto)
  moreover obtain item where "items = [item]" "total (m_hypothesis item) = Fin (-1)" using run(3) by (cases items) auto
  ultimately have "\<forall>c \<in> cells grid_container - item_cell ` set items. Fin (- 1 - of_nat (snd (snd c))) \<le> Fin (-1)" by simp
  then show ?thesis using run by metis
qed

end
