(* ===== verification/Mert_Scorers.thy ===== *)
theory Mert_Scorers
  imports Util_Strings "HOL-Library.AList" "HOL-Library.Multiset"
begin

text \<open>
  The scorers of the minimum error rate training (\<open>mert/Scorer.cpp\<close>,
  \<open>BleuScorer.cpp\<close>, \<open>PerScorer.cpp\<close>, \<open>CderScorer.cpp\<close>): the
  coding of tokens, the sufficient statistics of a candidate against its references, the score
  of a sum of statistics, and the incremental scoring of a sequence of changes of candidates.

  A file is its list of lines, \<open>None\<close> when it cannot be opened. Every
  \<open>throw\<close> is an \<open>Inl\<close> of \<open>mert_error\<close>. Statistics are written as text
  and read back by \<open>atoi\<close> (\<open>ScoreStats::set\<close>); the lengths and counts of a
  sentence are far below the million from which the text would be in exponential notation.
\<close>

section \<open>Errors\<close>

datatype mert_error =
    Unable_to_open string
  | Too_many_sentences string
  | Sentence_not_found nat
  | Single_reference_only
  | Score_data_not_loaded
  | Score_data_empty
  | No_candidates
  | Wrong_number_of_fields nat nat
  | Stat_vector_not_two
  | Out_of_range nat

fun bindE :: "mert_error + 'a \<Rightarrow> ('a \<Rightarrow> mert_error + 'b) \<Rightarrow> mert_error + 'b" where
  "bindE (Inl e) f = Inl e"
| "bindE (Inr x) f = f x"

fun foldE :: "('a \<Rightarrow> 's \<Rightarrow> mert_error + 's) \<Rightarrow> 'a list \<Rightarrow> 's \<Rightarrow> mert_error + 's" where
  "foldE f [] s = Inr s"
| "foldE f (x # xs) s = bindE (f x s) (foldE f xs)"

lemma bindE_Inr: "bindE m f = Inr y \<longleftrightarrow> (\<exists>x. m = Inr x \<and> f x = Inr y)"
  by (cases m) auto

lemma foldE_append: "foldE f (xs @ ys) s = bindE (foldE f xs s) (foldE f ys)"
proof (induction xs arbitrary: s)
  case Nil
  then show ?case by simp
next
  case (Cons x xs)
  then show ?case by (cases "f x s") auto
qed

text \<open>A property of the state that every step keeps, indexed by the part already processed.\<close>

lemma foldE_invariant:
  assumes "foldE f xs s = Inr s'" and "P [] s"
    and "\<And>ys y zs t t'. xs = ys @ y # zs \<Longrightarrow> P ys t \<Longrightarrow> f y t = Inr t' \<Longrightarrow> P (ys @ [y]) t'"
  shows "P xs s'"
proof -
  have "foldE f zs t = Inr s' \<Longrightarrow> P ys t \<Longrightarrow> xs = ys @ zs \<Longrightarrow> P xs s'" for ys zs t
  proof (induction zs arbitrary: ys t)
    case Nil
    then show ?case by simp
  next
    case (Cons y zs)
    then obtain t' where t': "f y t = Inr t'" "foldE f zs t' = Inr s'" by (auto simp: bindE_Inr)
    show ?case using Cons.IH [OF t'(2), of "ys @ [y]"] assms(3) [OF Cons.prems(3,2) t'(1)]
      Cons.prems(3) by simp
  qed
  from this [of xs s "[]"] show ?thesis using assms(1,2) by simp
qed

section \<open>The coding of tokens\<close>

type_synonym encodings = "(string \<times> int) list"

definition whitespace :: string where
  "whitespace = [CHR 0x20, CHR 0x09, CHR 0x0A, CHR 0x0B, CHR 0x0C, CHR 0x0D]"

text \<open>What \<open>in >> token\<close> reads from a line: the maximal runs of non-blanks.\<close>

definition read_tokens :: "string \<Rightarrow> string list" where
  "read_tokens line = runs whitespace line"

definition encode_token :: "bool \<Rightarrow> string \<Rightarrow> encodings \<times> int list \<Rightarrow> encodings \<times> int list" where
  "encode_token preserveCase token s =
     (let (encodings, encoded) = s;
          token = (if \<not> preserveCase then ToLower token else token)
      in case map_of encodings token of
           None \<Rightarrow> let encoded_token = int (length encodings)
                   in (AList.update token encoded_token encodings, encoded @ [encoded_token])
         | Some encoded_token \<Rightarrow> (encodings, encoded @ [encoded_token]))"

definition encode :: "bool \<Rightarrow> string \<Rightarrow> encodings \<Rightarrow> encodings \<times> int list" where
  "encode preserveCase line encodings =
     fold (encode_token preserveCase) (read_tokens line) (encodings, [])"

text \<open>The tokens a line stands for.\<close>

definition tokens_of :: "bool \<Rightarrow> string \<Rightarrow> string list" where
  "tokens_of preserveCase line =
     map (\<lambda>token. if preserveCase then token else ToLower token) (read_tokens line)"

definition good_encodings :: "encodings \<Rightarrow> bool" where
  "good_encodings e \<longleftrightarrow> distinct (map fst e) \<and> map snd e = map int [0..<length e]"

abbreviation code_of :: "encodings \<Rightarrow> string \<Rightarrow> int" where
  "code_of e t \<equiv> the (map_of e t)"

lemma good_encodings_Nil [simp]: "good_encodings []"
  by (simp add: good_encodings_def)

lemma good_encodings_code:
  assumes "good_encodings e" "k < length e"
  shows "map_of e (fst (e ! k)) = Some (int k)"
proof -
  have "map snd e ! k = map int [0..<length e] ! k" using assms(1) by (simp add: good_encodings_def)
  then have "snd (e ! k) = int k" using assms(2) by simp
  then have "(fst (e ! k), int k) \<in> set e" using assms(2) nth_mem [of k e] by (metis prod.collapse)
  then show ?thesis using assms(1) by (simp add: good_encodings_def)
qed

lemma good_encodings_inj:
  assumes "good_encodings e"
  shows "inj_on (code_of e) (set (map fst e))"
proof (rule inj_onI)
  fix a b assume ab: "a \<in> set (map fst e)" "b \<in> set (map fst e)" "code_of e a = code_of e b"
  obtain i where i: "i < length e" "fst (e ! i) = a" using ab(1) by (auto simp: in_set_conv_nth)
  obtain j where j: "j < length e" "fst (e ! j) = b" using ab(2) by (auto simp: in_set_conv_nth)
  from good_encodings_code [OF assms i(1)] good_encodings_code [OF assms j(1)]
  show "a = b" using i j ab(3) by simp
qed

lemma update_new: "k \<notin> fst ` set e \<Longrightarrow> AList.update k v e = e @ [(k, v)]"
  by (induction e) auto

lemma encode_token_extends:
  assumes "good_encodings e" "encode_token pc tok (e, cs) = (e', cs')"
  defines "t \<equiv> if pc then tok else ToLower tok"
  shows "good_encodings e'" "\<exists>x. e' = e @ x" "t \<in> set (map fst e')" "cs' = cs @ [code_of e' t]"
proof -
  have "good_encodings e' \<and> (\<exists>x. e' = e @ x) \<and> t \<in> set (map fst e') \<and> cs' = cs @ [code_of e' t]"
  proof (cases "map_of e t")
    case None
    then have new: "t \<notin> fst ` set e" by (simp add: map_of_eq_None_iff)
    then have u: "e' = e @ [(t, int (length e))]" "cs' = cs @ [int (length e)]"
      using assms(2) None by (auto simp: encode_token_def t_def Let_def update_new split: if_splits)
    have "good_encodings e'" using assms(1) new unfolding u good_encodings_def by simp
    then show ?thesis using u None new by (simp add: map_add_def)
  next
    case (Some a)
    then have "e' = e" "cs' = cs @ [a]"
      using assms(2) by (auto simp: encode_token_def t_def Let_def split: if_splits)
    moreover have "t \<in> fst ` set e" using Some by (metis map_of_SomeD fst_conv image_eqI)
    ultimately show ?thesis using assms(1) Some by simp
  qed
  then show "good_encodings e'" "\<exists>x. e' = e @ x" "t \<in> set (map fst e')" "cs' = cs @ [code_of e' t]"
    by auto
qed

lemma code_of_append [simp]: "t \<in> set (map fst e) \<Longrightarrow> code_of (e @ x) t = code_of e t"
  by (auto simp: map_add_def map_of_eq_None_iff split: option.splits)

lemma encode_tokens_spec:
  assumes "good_encodings e" "fold (encode_token pc) toks (e, cs) = (e', cs')"
  defines "ts \<equiv> map (\<lambda>token. if pc then token else ToLower token) toks"
  shows "good_encodings e' \<and> (\<exists>x. e' = e @ x) \<and> set ts \<subseteq> set (map fst e') \<and>
    cs' = cs @ map (code_of e') ts"
  using assms(1,2) unfolding ts_def
proof (induction toks arbitrary: e cs)
  case Nil
  then show ?case by simp
next
  case (Cons tok toks)
  obtain e1 c1 where e1: "encode_token pc tok (e, cs) = (e1, c1)" by (cases "encode_token pc tok (e, cs)")
  note ext = encode_token_extends [OF Cons.prems(1) e1]
  have "fold (encode_token pc) toks (e1, c1) = (e', cs')" using Cons.prems(2) e1 by simp
  note IH = Cons.IH [OF ext(1) this]
  obtain x where x: "e1 = e @ x" using ext(2) by blast
  obtain y where y: "e' = e1 @ y" using IH by blast
  have "code_of e' (if pc then tok else ToLower tok) = code_of e1 (if pc then tok else ToLower tok)"
    using ext(3) unfolding y by (rule code_of_append)
  moreover have "(if pc then tok else ToLower tok) \<in> set (map fst e')"
    using ext(3) unfolding y by auto
  ultimately show ?case using IH ext(4) x y by auto
qed

lemma encode_spec:
  assumes "good_encodings e" "encode pc line e = (e', cs)"
  shows "good_encodings e'" "\<exists>x. e' = e @ x" "set (tokens_of pc line) \<subseteq> set (map fst e')"
    "cs = map (code_of e') (tokens_of pc line)"
  using encode_tokens_spec [of e pc "read_tokens line" "[]" e' cs] assms
  by (auto simp: encode_def tokens_of_def)

section \<open>Counts of n-grams\<close>

type_synonym counts = "(int list \<times> int) list"

text \<open>The comparison of the map, which is the lexicographic order.\<close>

fun CompareNgrams :: "int list \<Rightarrow> int list \<Rightarrow> bool" where
  "CompareNgrams (x # a) (y # b) = (if x < y then True else if x > y then False else CompareNgrams a b)"
| "CompareNgrams a b = (length a < length b)"

lemma CompareNgrams_lexord: "CompareNgrams a b \<longleftrightarrow> a < b"
proof (induction a arbitrary: b)
  case Nil
  show ?case by (cases b) simp_all
next
  case (Cons x a)
  show ?case by (cases b) (auto simp: Cons.IH)
qed

definition count_ngram :: "int list \<Rightarrow> counts \<Rightarrow> counts" where
  "count_ngram ngram counts =
     AList.update ngram (case map_of counts ngram of Some oldcount \<Rightarrow> oldcount + 1 | None \<Rightarrow> 1) counts"

definition ngram_at :: "int list \<Rightarrow> nat \<Rightarrow> nat \<Rightarrow> int list" where
  "ngram_at encoded_tokens k i = map ((!) encoded_tokens) [i..<min (i + k) (length encoded_tokens)]"

definition count_order :: "int list \<Rightarrow> nat \<Rightarrow> counts \<Rightarrow> counts" where
  "count_order encoded_tokens k counts =
     (if k > length encoded_tokens then counts
      else fold (\<lambda>i. count_ngram (ngram_at encoded_tokens k i)) [0..<length encoded_tokens - k + 1] counts)"

definition countNgrams ::
    "bool \<Rightarrow> string \<Rightarrow> counts \<Rightarrow> nat \<Rightarrow> encodings \<Rightarrow> nat \<times> counts \<times> encodings" where
  "countNgrams preserveCase line counts n encodings =
     (let (encodings, encoded_tokens) = encode preserveCase line encodings
      in (length encoded_tokens, fold (count_order encoded_tokens) [1..<n + 1] counts, encodings))"

text \<open>The n-grams of a sequence, and how often one occurs in it.\<close>

definition ngrams :: "nat \<Rightarrow> 'a list \<Rightarrow> 'a list list" where
  "ngrams k toks = map (\<lambda>i. take k (drop i toks)) [0..<Suc (length toks) - k]"

definition occurrences :: "'a list \<Rightarrow> 'a list \<Rightarrow> nat" where
  "occurrences g toks = count_list (ngrams (length g) toks) g"

definition all_ngrams :: "nat \<Rightarrow> 'a list \<Rightarrow> 'a list list" where
  "all_ngrams n toks = concat (map (\<lambda>k. ngrams k toks) [1..<n + 1])"

lemma length_in_ngrams: "g \<in> set (ngrams k toks) \<Longrightarrow> length g = k"
  by (auto simp: ngrams_def)

lemma length_ngrams: "length (ngrams k toks) = Suc (length toks) - k"
  by (simp add: ngrams_def)

lemma ngrams_map: "ngrams k (map f toks) = map (map f) (ngrams k toks)"
  by (simp add: ngrams_def take_map drop_map)

lemma ngrams_subset: "g \<in> set (ngrams k toks) \<Longrightarrow> set g \<subseteq> set toks"
  by (auto simp: ngrams_def dest!: in_set_takeD in_set_dropD)

lemma ngram_at_take: "i + k \<le> length toks \<Longrightarrow> ngram_at toks k i = take k (drop i toks)"
  by (rule nth_equalityI) (auto simp: ngram_at_def)

lemma count_order_ngrams: "count_order toks k counts = fold count_ngram (ngrams k toks) counts"
proof (cases "k > length toks")
  case True
  then show ?thesis by (simp add: count_order_def ngrams_def)
next
  case False
  then have "ngrams k toks = map (ngram_at toks k) [0..<length toks - k + 1]"
    by (simp add: ngrams_def ngram_at_take Suc_diff_le)
  then show ?thesis using False by (simp add: count_order_def fold_map comp_def)
qed

lemma fold_count_order: "fold (count_order toks) ks counts = fold count_ngram (concat (map (\<lambda>k. ngrams k toks) ks)) counts"
  by (induction ks arbitrary: counts) (simp_all add: count_order_ngrams)

lemma count_ngram_distinct: "distinct (map fst counts) \<Longrightarrow> distinct (map fst (count_ngram g counts))"
  by (simp add: count_ngram_def distinct_update)

lemma fold_count_ngram_distinct:
  "distinct (map fst counts) \<Longrightarrow> distinct (map fst (fold count_ngram gs counts))"
  by (induction gs arbitrary: counts) (simp_all add: count_ngram_distinct)

lemma fold_count_ngram:
  "map_of (fold count_ngram gs counts) g =
     (if g \<in> set gs then Some (int (count_list gs g) + (case map_of counts g of Some c \<Rightarrow> c | None \<Rightarrow> 0))
      else map_of counts g)"
proof (induction gs arbitrary: counts)
  case Nil
  then show ?case by simp
next
  case (Cons h gs)
  have h: "map_of (count_ngram h counts) = (map_of counts)(h \<mapsto> 1 + (case map_of counts h of Some c \<Rightarrow> c | None \<Rightarrow> 0))"
    by (simp add: count_ngram_def update_conv' add.commute split: option.splits)
  show ?case by (simp add: Cons.IH h count_notin)
qed

lemma count_list_all_ngrams:
  assumes "1 \<le> length g" "length g \<le> n"
  shows "count_list (all_ngrams n toks) g = occurrences g toks"
proof -
  have "count_list (concat (map (\<lambda>k. ngrams k toks) ks)) g = (if length g \<in> set ks then occurrences g toks else 0)"
    if "distinct ks" for ks using that
  proof (induction ks)
    case Nil
    then show ?case by simp
  next
    case (Cons k ks)
    have "k \<noteq> length g \<Longrightarrow> g \<notin> set (ngrams k toks)" using length_in_ngrams by blast
    then show ?case using Cons by (cases "k = length g") (simp_all add: occurrences_def count_notin)
  qed
  from this [of "[1..<n + 1]"] show ?thesis using assms by (simp add: all_ngrams_def)
qed



lemma countNgrams_spec:
  assumes "good_encodings e" "countNgrams pc line [] n e = (len, counts, e')"
  defines "codes \<equiv> map (code_of e') (tokens_of pc line)"
  shows "good_encodings e'" "\<exists>x. e' = e @ x" "set (tokens_of pc line) \<subseteq> set (map fst e')"
    "len = length (tokens_of pc line)" "counts = fold count_ngram (all_ngrams n codes) []"
proof -
  obtain e1 c where e1: "encode pc line e = (e1, c)" by (cases "encode pc line e")
  then have eqs: "e1 = e'" "len = length c" "counts = fold (count_order c) [1..<n + 1] []"
    using assms(2) by (simp_all add: countNgrams_def)
  note sp = encode_spec [OF assms(1) e1, unfolded eqs(1)]
  show "good_encodings e'" "\<exists>x. e' = e @ x" "set (tokens_of pc line) \<subseteq> set (map fst e')" by (fact sp)+
  show "len = length (tokens_of pc line)" using eqs(2) sp(4) by simp
  show "counts = fold count_ngram (all_ngrams n codes) []"
    using eqs(3) sp(4) by (simp only: fold_count_order all_ngrams_def codes_def)
qed

definition count_value :: "counts \<Rightarrow> int list \<Rightarrow> int" where
  "count_value c g = (case map_of c g of Some v \<Rightarrow> v | None \<Rightarrow> 0)"

lemma count_value_counted:
  assumes "1 \<le> length g" "length g \<le> n"
  shows "count_value (fold count_ngram (all_ngrams n codes) []) g = int (occurrences g codes)"
  by (simp add: count_value_def fold_count_ngram count_list_all_ngrams [OF assms, symmetric] count_notin)

section \<open>The references of BLEU\<close>

datatype BleuReferenceLengthStrategy = BLEU_AVERAGE | BLEU_SHORTEST | BLEU_CLOSEST

record bleu_scorer =
  preserveCase :: bool
  encodings :: encodings
  refLengthStrategy :: BleuReferenceLengthStrategy
  refcounts :: "counts list"
  reflengths :: "nat list list"

type_synonym text_file = "string \<times> string list option"

definition BLEU_LENGTH :: nat where
  "BLEU_LENGTH = 4"

definition merge_count :: "int list \<times> int \<Rightarrow> counts \<Rightarrow> counts" where
  "merge_count ci refs =
     (let oldcount = (case map_of refs (fst ci) of Some c \<Rightarrow> c | None \<Rightarrow> 0); newcount = snd ci
      in if newcount > oldcount then AList.update (fst ci) newcount refs else refs)"

definition bleu_reference_line ::
    "string \<Rightarrow> nat \<Rightarrow> string \<Rightarrow> nat \<times> bleu_scorer \<Rightarrow> mert_error + (nat \<times> bleu_scorer)" where
  "bleu_reference_line name i line st =
     (let (sid, s) = st;
          s = (if i = 0 then s\<lparr>refcounts := refcounts s @ [[]], reflengths := reflengths s @ [[]]\<rparr> else s)
      in if length (refcounts s) \<le> sid then Inl (Too_many_sentences name)
         else let (len, counts, e) = countNgrams (preserveCase s) line [] BLEU_LENGTH (encodings s);
                  merged = fold merge_count counts (refcounts s ! sid)
              in Inr (sid + 1,
                   s\<lparr>encodings := e, refcounts := (refcounts s)[sid := merged],
                     reflengths := (reflengths s)[sid := reflengths s ! sid @ [len]]\<rparr>))"

definition bleu_reference_file :: "nat \<times> text_file \<Rightarrow> bleu_scorer \<Rightarrow> mert_error + bleu_scorer" where
  "bleu_reference_file file s =
     (let (i, name, content) = file
      in case content of
           None \<Rightarrow> Inl (Unable_to_open name)
         | Some lines \<Rightarrow> bindE (foldE (bleu_reference_line name i) lines (0, s)) (\<lambda>(_, s). Inr s))"

definition BleuSetReferenceFiles :: "text_file list \<Rightarrow> bleu_scorer \<Rightarrow> mert_error + bleu_scorer" where
  "BleuSetReferenceFiles referenceFiles s =
     foldE bleu_reference_file (enumerate 0 referenceFiles)
       (s\<lparr>refcounts := [], reflengths := [], encodings := []\<rparr>)"

text \<open>The token sequences the files give for a sentence.\<close>

definition references :: "bool \<Rightarrow> string list list \<Rightarrow> nat \<Rightarrow> string list list" where
  "references pc files sid = map (\<lambda>lines. tokens_of pc (lines ! sid)) (filter (\<lambda>lines. sid < length lines) files)"

definition all_references :: "bool \<Rightarrow> string list list \<Rightarrow> string list list list" where
  "all_references pc files =
     (case files of [] \<Rightarrow> [] | first # _ \<Rightarrow> map (references pc files) [0..<length first])"

definition best_count :: "'a list \<Rightarrow> 'a list list \<Rightarrow> nat" where
  "best_count g rs = foldr max (map (occurrences g) rs) 0"

definition bleu_refs :: "bleu_scorer \<Rightarrow> string list list list \<Rightarrow> bool" where
  "bleu_refs s refs \<longleftrightarrow>
     good_encodings (encodings s) \<and> length (refcounts s) = length refs \<and>
     reflengths s = map (map length) refs \<and>
     (\<forall>sid<length refs. \<forall>r\<in>set (refs ! sid). set r \<subseteq> set (map fst (encodings s))) \<and>
     (\<forall>sid<length refs. \<forall>g. 1 \<le> length g \<longrightarrow> length g \<le> BLEU_LENGTH \<longrightarrow>
        count_value (refcounts s ! sid) g =
          int (best_count g (map (map (code_of (encodings s))) (refs ! sid))))"

lemma best_count_snoc: "best_count g (rs @ [r]) = max (best_count g rs) (occurrences g r)"
proof -
  have "foldr max xs y = max (foldr max xs 0) y" for xs and y :: nat
    by (induction xs) (simp_all add: max.assoc)
  from this [of "map (occurrences g) rs" "occurrences g r"] show ?thesis by (simp add: best_count_def)
qed

lemma fold_merge_count:
  assumes "distinct (map fst counts)"
  shows "count_value (fold merge_count counts refs) g =
    (if g \<in> fst ` set counts then max (count_value refs g) (count_value counts g) else count_value refs g)"
  using assms
proof (induction counts arbitrary: refs)
  case Nil
  then show ?case by simp
next
  case (Cons ci counts)
  have step: "count_value (merge_count ci refs) g =
      (if g = fst ci then max (count_value refs g) (snd ci) else count_value refs g)"
    by (simp add: merge_count_def count_value_def update_conv' Let_def split: option.splits)
  have val: "count_value (ci # counts) g = (if g = fst ci then snd ci else count_value counts g)"
    by (cases ci) (auto simp: count_value_def)
  have d: "distinct (map fst counts)" "fst ci \<notin> fst ` set counts" using Cons.prems by auto
  show ?case
  proof (cases "g = fst ci")
    case True
    then show ?thesis using Cons.IH [OF d(1), of "merge_count ci refs"] step val d(2) by simp
  next
    case False
    then show ?thesis using Cons.IH [OF d(1), of "merge_count ci refs"] step val by simp
  qed
qed

lemma merge_counted:
  assumes "1 \<le> length g" "length g \<le> n" "count_value refs g = int m"
  shows "count_value (fold merge_count (fold count_ngram (all_ngrams n codes) []) refs) g =
    int (max m (occurrences g codes))"
proof -
  let ?c = "fold count_ngram (all_ngrams n codes) []"
  have "g \<notin> fst ` set ?c \<Longrightarrow> count_value ?c g = 0"
    by (simp add: count_value_def map_of_eq_None_iff [symmetric])
  then show ?thesis
    using fold_merge_count [of ?c refs g] fold_count_ngram_distinct [of "[]" "all_ngrams n codes"]
      count_value_counted [OF assms(1,2), of codes] assms(3) by auto
qed



lemma best_count_Nil [simp]: "best_count g [] = 0"
  by (simp add: best_count_def)

lemma bleu_refs_new:
  assumes "bleu_refs s refs"
  shows "bleu_refs (s\<lparr>refcounts := refcounts s @ [[]], reflengths := reflengths s @ [[]]\<rparr>) (refs @ [[]])"
proof -
  have "count_value ((refcounts s @ [[]]) ! sid) g =
      int (best_count g (map (map (code_of (encodings s))) ((refs @ [[]]) ! sid)))"
    if "sid < Suc (length refs)" "1 \<le> length g" "length g \<le> BLEU_LENGTH" for sid g
    using that assms by (cases "sid = length refs") (auto simp: bleu_refs_def nth_append count_value_def)
  then show ?thesis using assms by (auto simp: bleu_refs_def nth_append less_Suc_eq)
qed

lemma bleu_refs_encodings:
  assumes "bleu_refs s refs" "good_encodings (encodings s @ x)"
  shows "bleu_refs (s\<lparr>encodings := encodings s @ x\<rparr>) refs"
proof -
  have "map (map (code_of (encodings s @ x))) (refs ! sid) = map (map (code_of (encodings s))) (refs ! sid)"
    if "sid < length refs" for sid
  proof (intro map_cong refl)
    fix r t assume "r \<in> set (refs ! sid)" "t \<in> set r"
    then have "t \<in> set (map fst (encodings s))" using assms(1) that unfolding bleu_refs_def by blast
    then show "code_of (encodings s @ x) t = code_of (encodings s) t" by (rule code_of_append)
  qed
  moreover have "set r \<subseteq> set (map fst (encodings s @ x))" if "sid < length refs" "r \<in> set (refs ! sid)" for sid r
    using assms(1) that unfolding bleu_refs_def by fastforce
  ultimately show ?thesis using assms unfolding bleu_refs_def by (simp del: map_eq_conv)
qed

lemma bleu_refs_add:
  assumes "bleu_refs s refs" "sid < length refs" "set r \<subseteq> set (map fst (encodings s))"
    and "counts = fold count_ngram (all_ngrams BLEU_LENGTH (map (code_of (encodings s)) r)) []"
  shows "bleu_refs (s\<lparr>refcounts := (refcounts s)[sid := fold merge_count counts (refcounts s ! sid)],
      reflengths := (reflengths s)[sid := reflengths s ! sid @ [length r]]\<rparr>)
    (refs[sid := refs ! sid @ [r]])" (is "bleu_refs ?s ?refs")
proof -
  have c: "count_value (refcounts ?s ! k) g = int (best_count g (map (map (code_of (encodings s))) (?refs ! k)))"
    if "k < length refs" "1 \<le> length g" "length g \<le> BLEU_LENGTH" for k g
  proof -
    have old: "count_value (refcounts s ! k) g = int (best_count g (map (map (code_of (encodings s))) (refs ! k)))"
      using assms(1) that unfolding bleu_refs_def by blast
    show ?thesis
    proof (cases "k = sid")
      case True
      then show ?thesis
        using merge_counted [OF that(2,3) old] assms(1,2,4) by (simp add: bleu_refs_def best_count_snoc)
    next
      case False
      then show ?thesis using old by simp
    qed
  qed
  have l: "reflengths ?s = map (map length) ?refs"
    using assms(1,2) by (simp add: bleu_refs_def map_update)
  have m: "set r' \<subseteq> set (map fst (encodings s))" if "k < length refs" "r' \<in> set (?refs ! k)" for k r'
  proof (cases "k = sid")
    case True
    then have "r' \<in> set (refs ! sid) \<or> r' = r" using that assms(2) by auto
    then show ?thesis using assms(1,2,3) unfolding bleu_refs_def by blast
  next
    case False
    then have "r' \<in> set (refs ! k)" using that by simp
    then show ?thesis using assms(1) that(1) unfolding bleu_refs_def by blast
  qed
  show ?thesis
    unfolding bleu_refs_def using assms(1) l c m by (simp add: bleu_refs_def)
qed

lemma bleu_line_step:
  assumes "bleu_refs s refs" "bleu_reference_line name i line (sid, s) = Inr (sid', s')"
  defines "refs' \<equiv> if i = 0 then refs @ [[]] else refs"
  shows "sid' = sid + 1" "sid < length refs'" "preserveCase s' = preserveCase s"
    "refLengthStrategy s' = refLengthStrategy s"
    "bleu_refs s' (refs'[sid := refs' ! sid @ [tokens_of (preserveCase s) line]])"
proof -
  define s1 where "s1 = (if i = 0 then s\<lparr>refcounts := refcounts s @ [[]], reflengths := reflengths s @ [[]]\<rparr> else s)"
  have r1: "bleu_refs s1 refs'" "preserveCase s1 = preserveCase s" "refLengthStrategy s1 = refLengthStrategy s"
    using bleu_refs_new [OF assms(1)] assms(1) by (simp_all add: s1_def refs'_def)
  obtain len counts e where c: "countNgrams (preserveCase s1) line [] BLEU_LENGTH (encodings s1) = (len, counts, e)"
    by (cases "countNgrams (preserveCase s1) line [] BLEU_LENGTH (encodings s1)")
  have good: "good_encodings (encodings s1)" "length (refcounts s1) = length refs'"
    using r1 by (simp_all add: bleu_refs_def)
  have res: "sid < length (refcounts s1)" "sid' = sid + 1"
    "s' = s1\<lparr>encodings := e, refcounts := (refcounts s1)[sid := fold merge_count counts (refcounts s1 ! sid)],
       reflengths := (reflengths s1)[sid := reflengths s1 ! sid @ [len]]\<rparr>"
    using assms(2) c unfolding bleu_reference_line_def by (auto simp: Let_def simp flip: s1_def split: if_splits)
  note sp = countNgrams_spec [OF good(1) c]
  obtain x where x: "e = encodings s1 @ x" using sp(2) by blast
  have "bleu_refs (s1\<lparr>encodings := e\<rparr>) refs'" using bleu_refs_encodings [OF r1(1)] sp(1) x by simp
  from bleu_refs_add [OF this, of sid "tokens_of (preserveCase s1) line"] sp(3-5) res(1) good(2)
  show "bleu_refs s' (refs'[sid := refs' ! sid @ [tokens_of (preserveCase s) line]])"
    by (simp add: res(3) r1(2))
  show "sid' = sid + 1" "sid < length refs'" "preserveCase s' = preserveCase s"
    "refLengthStrategy s' = refLengthStrategy s"
    using res good(2) r1 by simp_all
qed

lemma all_references_first:
  "all_references pc [ls @ [l]] = all_references pc [ls] @ [[tokens_of pc l]]"
  by (auto simp: all_references_def references_def nth_append)

lemma all_references_later:
  assumes "fs \<noteq> []" "length ls < length (hd fs)"
  shows "all_references pc (fs @ [ls @ [l]]) =
    (all_references pc (fs @ [ls]))[length ls := all_references pc (fs @ [ls]) ! length ls @ [tokens_of pc l]]"
proof -
  obtain f fs' where f: "fs = f # fs'" using assms(1) by (cases fs) auto
  show ?thesis unfolding f
    by (rule nth_equalityI)
      (use assms(2) f in \<open>auto simp: all_references_def references_def nth_list_update nth_append\<close>)
qed

lemma all_references_start: "all_references pc (fs @ [[]]) = all_references pc fs"
  by (cases fs) (simp_all add: all_references_def references_def)

lemma bleu_lines_loaded:
  assumes "foldE (bleu_reference_line name (length fs)) lines (0, s) = Inr (sid', s')"
    and "bleu_refs s (all_references pc fs)" "preserveCase s = pc"
  shows "bleu_refs s' (all_references pc (fs @ [lines])) \<and> preserveCase s' = pc \<and>
    refLengthStrategy s' = refLengthStrategy s \<and> (fs \<noteq> [] \<longrightarrow> length lines \<le> length (hd fs))"
proof -
  let ?P = "\<lambda>ls (sid, t). sid = length ls \<and> bleu_refs t (all_references pc (fs @ [ls])) \<and>
    preserveCase t = pc \<and> refLengthStrategy t = refLengthStrategy s \<and> (fs \<noteq> [] \<longrightarrow> length ls \<le> length (hd fs))"
  have "?P lines (sid', s')"
  proof (rule foldE_invariant [OF assms(1), where P = ?P])
    show "?P [] (0, s)" using assms(2,3) by (simp add: all_references_start)
  next
    fix ls l zs t t'
    assume P: "?P ls t" and step: "bleu_reference_line name (length fs) l t = Inr t'"
    obtain sid u where t: "t = (sid, u)" by (cases t)
    obtain sid' u' where t': "t' = (sid', u')" by (cases t')
    note st = bleu_line_step [OF _ step [unfolded t t'], of "all_references pc (fs @ [ls])"]
    have u: "bleu_refs u (all_references pc (fs @ [ls]))" "sid = length ls" "preserveCase u = pc"
      using P t by auto
    show "?P (ls @ [l]) t'"
    proof (cases "fs = []")
      case True
      have "length (all_references pc [ls]) = length ls" by (simp add: all_references_def)
      then have "(all_references pc [ls] @ [[]])[length ls := (all_references pc [ls] @ [[]]) ! length ls @ [tokens_of pc l]]
          = all_references pc [ls @ [l]]"
        by (simp add: all_references_first nth_append list_update_append)
      then show ?thesis using st [OF u(1)] True u P t t' by simp
    next
      case False
      then have "length (all_references pc (fs @ [ls])) = length (hd fs)"
        by (cases fs) (simp_all add: all_references_def)
      then show ?thesis using st [OF u(1)] False u P t t'
          all_references_later [OF False, of ls pc l] by simp
    qed
  qed
  then show ?thesis by simp
qed



abbreviation file_lines :: "text_file \<Rightarrow> string list" where
  "file_lines f \<equiv> the (snd f)"

lemma bleu_refs_initial:
  "bleu_refs (s\<lparr>refcounts := [], reflengths := [], encodings := []\<rparr>) (all_references pc [])"
  by (simp add: bleu_refs_def all_references_def)

text \<open>
  After loading, the scorer holds for every sentence of the first file the lengths of its
  references and the largest count of each n-gram in any of them; no file is missing and none
  is longer than the first.
\<close>

lemma bleu_setReferenceFiles:
  assumes "BleuSetReferenceFiles files s = Inr s'"
  shows "bleu_refs s' (all_references (preserveCase s) (map file_lines files)) \<and>
    preserveCase s' = preserveCase s \<and> refLengthStrategy s' = refLengthStrategy s \<and>
    (\<forall>f\<in>set files. snd f \<noteq> None \<and> length (file_lines f) \<le> length (file_lines (hd files)))"
proof -
  let ?P = "\<lambda>(fs :: (nat \<times> text_file) list) t.
    bleu_refs t (all_references (preserveCase s) (map (file_lines \<circ> snd) fs)) \<and> preserveCase t = preserveCase s \<and>
    refLengthStrategy t = refLengthStrategy s \<and>
    (\<forall>f\<in>set fs. snd (snd f) \<noteq> None \<and> length (file_lines (snd f)) \<le> length (file_lines (snd (hd fs))))"
  have "?P (enumerate 0 files) s'"
  proof (rule foldE_invariant [OF assms [unfolded BleuSetReferenceFiles_def], where P = ?P])
    show "?P [] (s\<lparr>refcounts := [], reflengths := [], encodings := []\<rparr>)" by (simp add: bleu_refs_initial)
  next
    fix fs f gs t t'
    assume en: "enumerate 0 files = fs @ f # gs" and P: "?P fs t" and step: "bleu_reference_file f t = Inr t'"
    obtain i name content where f: "f = (i, name, content)" by (cases f)
    obtain lines where c: "content = Some lines" using step f by (auto simp: bleu_reference_file_def split: option.splits)
    have "(enumerate 0 files) ! length fs = f" "length fs < length files"
      using en by (simp_all, metis length_append length_enumerate length_Cons less_add_same_cancel1 zero_less_Suc)
    then have i: "i = length fs" using f by (auto simp: nth_enumerate_eq)
    obtain sid where l: "foldE (bleu_reference_line name i) lines (0, t) = Inr (sid, t')"
      using step unfolding f c bleu_reference_file_def by (auto simp: bindE_Inr)
    have "length fs = length (map (file_lines \<circ> snd) fs)" by simp
    from bleu_lines_loaded [OF l [unfolded i this], of "preserveCase s"] P
    show "?P (fs @ [f]) t'" using f c by (cases fs) auto
  qed
  moreover have "set (enumerate 0 files) = set (zip [0..<length files] files)" by (simp add: enumerate_eq_zip)
  moreover have "map (file_lines \<circ> snd) (enumerate 0 files) = map file_lines files"
    by (simp flip: map_map)
  moreover have "snd (hd (enumerate 0 files)) = hd files" if "files \<noteq> []" using that by (cases files) simp_all
  moreover have "\<exists>i. (i, f) \<in> set (enumerate 0 files)" if "f \<in> set files" for f
    using that by (metis in_set_impl_in_set_zip2 enumerate_eq_zip length_upt minus_nat.diff_0 add_0)
  ultimately show ?thesis by fastforce
qed



section \<open>The statistics of BLEU\<close>

text \<open>
  \<open>INT_MAX\<close> is the initial distance of the search for the closest reference; the state
  is \<open>(min_diff, min_idx)\<close>.
\<close>

definition INT_MAX :: int where
  "INT_MAX = 2 ^ 31 - 1"

definition closer_reference :: "nat list \<Rightarrow> nat \<Rightarrow> nat \<Rightarrow> int \<times> nat \<Rightarrow> int \<times> nat" where
  "closer_reference lengths len i st =
     (let (min_diff, min_idx) = st; reflength = int (lengths ! i)
      in if \<bar>reflength - int len\<bar> < \<bar>min_diff\<bar> then (reflength - int len, i)
         else if \<bar>reflength - int len\<bar> = \<bar>min_diff\<bar>
         then (if reflength < int (lengths ! min_idx) then (min_diff, i) else (min_diff, min_idx))
         else (min_diff, min_idx))"

definition closest_reference :: "nat list \<Rightarrow> nat \<Rightarrow> nat" where
  "closest_reference lengths len =
     lengths ! snd (fold (closer_reference lengths len) [0..<length lengths] (INT_MAX, 0))"

definition reference_length :: "BleuReferenceLengthStrategy \<Rightarrow> nat list \<Rightarrow> nat \<Rightarrow> rat" where
  "reference_length strategy lengths len =
     (case strategy of
        BLEU_SHORTEST \<Rightarrow> of_nat (Min (set lengths))
      | BLEU_AVERAGE \<Rightarrow> of_nat (fold (\<lambda>i total. total + lengths ! i) [0..<length lengths] 0) / of_nat (length lengths)
      | BLEU_CLOSEST \<Rightarrow> of_nat (closest_reference lengths len))"

definition add_ngram_stats :: "counts \<Rightarrow> int list \<times> int \<Rightarrow> rat list \<Rightarrow> rat list" where
  "add_ngram_stats refs entry stats =
     (let (ngram, guess) = entry;
          correct = (case map_of refs ngram of Some r \<Rightarrow> min r guess | None \<Rightarrow> 0);
          len = length ngram;
          stats = stats[len * 2 - 2 := stats ! (len * 2 - 2) + of_int correct]
      in stats[len * 2 - 1 := stats ! (len * 2 - 1) + of_int guess])"

text \<open>
  \<open>atoi\<close> of the text of a statistic, which cuts the fraction off, and the vector a
  candidate gets.
\<close>

definition stat_of_text :: "rat \<Rightarrow> int" where
  "stat_of_text x = \<lfloor>x\<rfloor>"

definition BleuPrepareStats :: "nat \<Rightarrow> string \<Rightarrow> bleu_scorer \<Rightarrow> mert_error + (int list \<times> bleu_scorer)" where
  "BleuPrepareStats sid txt s =
     (if sid \<ge> length (refcounts s) then Inl (Sentence_not_found sid)
      else let (len, testcounts, e) = countNgrams (preserveCase s) txt [] BLEU_LENGTH (encodings s);
               stats = replicate (BLEU_LENGTH * 2) 0 @
                 [reference_length (refLengthStrategy s) (reflengths s ! sid) len];
               stats = fold (add_ngram_stats (refcounts s ! sid)) testcounts stats
           in Inr (map stat_of_text stats, s\<lparr>encodings := e\<rparr>))"

definition closest_among :: "nat list \<Rightarrow> nat \<Rightarrow> nat \<Rightarrow> int \<times> nat \<Rightarrow> bool" where
  "closest_among lengths len n st \<longleftrightarrow> snd st < n \<and> \<bar>fst st\<bar> = \<bar>int (lengths ! snd st) - int len\<bar> \<and>
     (\<forall>i<n. \<bar>fst st\<bar> < \<bar>int (lengths ! i) - int len\<bar> \<or>
        \<bar>fst st\<bar> = \<bar>int (lengths ! i) - int len\<bar> \<and> lengths ! snd st \<le> lengths ! i)"

lemma closer_reference_step:
  assumes "closest_among lengths len n (md, mi)"
  shows "closest_among lengths len (Suc n) (closer_reference lengths len n (md, mi))"
proof -
  let ?d = "\<bar>int (lengths ! n) - int len\<bar>"
  consider "?d < \<bar>md\<bar>" | "?d = \<bar>md\<bar>" "lengths ! n < lengths ! mi" | "?d = \<bar>md\<bar>" "lengths ! mi \<le> lengths ! n"
    | "\<bar>md\<bar> < ?d" by linarith
  then show ?thesis
  proof cases
    case 1
    then have c: "closer_reference lengths len n (md, mi) = (int (lengths ! n) - int len, n)"
      by (simp add: closer_reference_def)
    show ?thesis using assms 1 unfolding c closest_among_def by (fastforce simp: less_Suc_eq)
  next
    case 2
    then have c: "closer_reference lengths len n (md, mi) = (md, n)" by (simp add: closer_reference_def)
    show ?thesis using assms 2 unfolding c closest_among_def by (fastforce simp: less_Suc_eq)
  next
    case 3
    then have c: "closer_reference lengths len n (md, mi) = (md, mi)" by (simp add: closer_reference_def)
    show ?thesis using assms 3 unfolding c closest_among_def by (auto simp: less_Suc_eq)
  next
    case 4
    then have c: "closer_reference lengths len n (md, mi) = (md, mi)" by (simp add: closer_reference_def)
    show ?thesis using assms 4 unfolding c closest_among_def by (auto simp: less_Suc_eq)
  qed
qed

lemma closest_reference_is_closest:
  assumes "lengths \<noteq> []" "\<forall>r\<in>set lengths. \<bar>int r - int len\<bar> < INT_MAX"
  shows "closest_reference lengths len \<in> set lengths \<and>
    (\<forall>r\<in>set lengths. \<bar>int (closest_reference lengths len) - int len\<bar> < \<bar>int r - int len\<bar> \<or>
      \<bar>int (closest_reference lengths len) - int len\<bar> = \<bar>int r - int len\<bar> \<and> closest_reference lengths len \<le> r)"
proof -
  let ?st = "\<lambda>n. fold (closer_reference lengths len) [0..<n] (INT_MAX, 0)"
  have inv: "closest_among lengths len (Suc n) (?st (Suc n))" if "n < length lengths" for n
    using that
  proof (induction n)
    case 0
    have "\<bar>int (lengths ! 0) - int len\<bar> < INT_MAX" using assms(2) 0 by simp
    then show ?case by (simp add: closer_reference_def closest_among_def INT_MAX_def)
  next
    case (Suc n)
    then have "closest_among lengths len (Suc n) (?st (Suc n))" by simp
    moreover have "?st (Suc (Suc n)) = closer_reference lengths len (Suc n) (?st (Suc n))" by simp
    ultimately show ?case using closer_reference_step by (metis surj_pair)
  qed
  obtain n where n: "length lengths = Suc n" using assms(1) by (cases lengths) auto
  have c: "closest_among lengths len (length lengths) (?st (length lengths))" using inv [of n] n by simp
  have e: "closest_reference lengths len = lengths ! snd (?st (length lengths))" by (simp only: closest_reference_def)
  show ?thesis
  proof
    show "closest_reference lengths len \<in> set lengths"
      using c unfolding e closest_among_def by simp
    show "\<forall>r\<in>set lengths. \<bar>int (closest_reference lengths len) - int len\<bar> < \<bar>int r - int len\<bar> \<or>
      \<bar>int (closest_reference lengths len) - int len\<bar> = \<bar>int r - int len\<bar> \<and> closest_reference lengths len \<le> r"
      using c unfolding e closest_among_def all_set_conv_all_nth by auto
  qed
qed

definition matched :: "counts \<Rightarrow> int list \<times> int \<Rightarrow> int" where
  "matched refs entry = (case map_of refs (fst entry) of Some r \<Rightarrow> min r (snd entry) | None \<Rightarrow> 0)"

lemma add_ngram_stats_nth:
  assumes "1 \<le> length (fst e)" "length (fst e) \<le> BLEU_LENGTH" "length stats = 2 * BLEU_LENGTH + 1"
  shows "length (add_ngram_stats refs e stats) = length stats"
    "1 \<le> k \<Longrightarrow> add_ngram_stats refs e stats ! (2 * k - 2) =
      stats ! (2 * k - 2) + (if length (fst e) = k then of_int (matched refs e) else 0)"
    "1 \<le> k \<Longrightarrow> add_ngram_stats refs e stats ! (2 * k - 1) =
      stats ! (2 * k - 1) + (if length (fst e) = k then of_int (snd e) else 0)"
    "add_ngram_stats refs e stats ! (2 * BLEU_LENGTH) = stats ! (2 * BLEU_LENGTH)"
proof -
  obtain g c where e: "e = (g, c)" by (cases e)
  define a b where "a = length g * 2 - 2" and "b = length g * 2 - 1"
  have def: "add_ngram_stats refs e stats =
      (stats[a := stats ! a + of_int (matched refs e)])[b := stats ! b + of_int c]"
    using assms(1) e by (auto simp: add_ngram_stats_def matched_def Let_def a_def b_def split: option.splits)
  have ab: "a < length stats" "b < length stats" "a < 2 * BLEU_LENGTH" "b < 2 * BLEU_LENGTH"
    using assms e by (auto simp: a_def b_def)
  show "length (add_ngram_stats refs e stats) = length stats" by (simp add: def)
  show "add_ngram_stats refs e stats ! (2 * BLEU_LENGTH) = stats ! (2 * BLEU_LENGTH)"
    using ab by (simp add: def nth_list_update)
  assume k: "1 \<le> k"
  have "2 * k - 2 \<noteq> b" "2 * k - 1 \<noteq> a" "2 * k - 2 = a \<longleftrightarrow> length g = k" "2 * k - 1 = b \<longleftrightarrow> length g = k"
    using k assms(1) e unfolding a_def b_def by (presburger | simp, presburger)+
  then show "add_ngram_stats refs e stats ! (2 * k - 2) =
      stats ! (2 * k - 2) + (if length (fst e) = k then of_int (matched refs e) else 0)"
    "add_ngram_stats refs e stats ! (2 * k - 1) =
      stats ! (2 * k - 1) + (if length (fst e) = k then of_int (snd e) else 0)"
    using ab e unfolding def by (auto simp: nth_list_update)
qed

lemma fold_add_ngram_stats:
  assumes "\<forall>e\<in>set entries. 1 \<le> length (fst e) \<and> length (fst e) \<le> BLEU_LENGTH" "length stats = 2 * BLEU_LENGTH + 1"
    and "1 \<le> k"
  shows "length (fold (add_ngram_stats refs) entries stats) = length stats \<and>
    fold (add_ngram_stats refs) entries stats ! (2 * k - 2) =
      stats ! (2 * k - 2) + of_int (\<Sum>e\<leftarrow>filter (\<lambda>e. length (fst e) = k) entries. matched refs e) \<and>
    fold (add_ngram_stats refs) entries stats ! (2 * k - 1) =
      stats ! (2 * k - 1) + of_int (\<Sum>e\<leftarrow>filter (\<lambda>e. length (fst e) = k) entries. snd e) \<and>
    fold (add_ngram_stats refs) entries stats ! (2 * BLEU_LENGTH) = stats ! (2 * BLEU_LENGTH)"
  using assms(1,2)
proof (induction entries arbitrary: stats)
  case Nil
  then show ?case by simp
next
  case (Cons e entries)
  have e: "1 \<le> length (fst e)" "length (fst e) \<le> BLEU_LENGTH" using Cons.prems by simp_all
  note st = add_ngram_stats_nth [OF e Cons.prems(2), where refs = refs]
  have "length (add_ngram_stats refs e stats) = 2 * BLEU_LENGTH + 1" using st(1) Cons.prems(2) by simp
  from Cons.IH [OF _ this] Cons.prems(1) st(1) st(2-3) [OF assms(3)] st(4)
  show ?case by simp
qed

lemma counted_sum:
  fixes codes :: "int list" and h :: "int list \<times> int \<Rightarrow> int"
  assumes "1 \<le> k" "k \<le> n"
  defines "T \<equiv> fold count_ngram (all_ngrams n codes) []"
  shows "(\<Sum>e\<leftarrow>filter (\<lambda>e. length (fst e) = k) T. h e) =
    (\<Sum>g\<in>set (ngrams k codes). h (g, int (occurrences g codes)))"
proof -
  have d: "distinct (map fst T)" unfolding T_def by (rule fold_count_ngram_distinct) simp
  have m: "map_of T g = (if g \<in> set (all_ngrams n codes) then Some (int (count_list (all_ngrams n codes) g)) else None)" for g
    by (simp add: T_def fold_count_ngram)
  let ?F = "filter (\<lambda>e. length (fst e) = k) T"
  have keys: "fst ` set ?F = set (ngrams k codes)"
  proof -
    have "fst ` set T = set (all_ngrams n codes)" using m by (auto simp: dom_map_of_conv_image_fst [symmetric] dom_def split: if_splits)
    then have "fst ` set ?F = {g \<in> set (all_ngrams n codes). length g = k}" by force
    also have "\<dots> = set (ngrams k codes)"
      using assms(1,2) length_in_ngrams by (fastforce simp: all_ngrams_def)
    finally show ?thesis .
  qed
  have val: "snd e = int (occurrences (fst e) codes)" if "e \<in> set ?F" for e
  proof -
    have "map_of T (fst e) = Some (snd e)" using that d by (simp add: map_of_eq_Some_iff)
    then show ?thesis using m that assms(1,2) count_list_all_ngrams [of "fst e" n codes] by (auto split: if_splits)
  qed
  have dF: "distinct ?F" "inj_on fst (set ?F)"
    using d by (auto simp: distinct_map intro: inj_on_subset)
  have "(\<Sum>e\<leftarrow>?F. h e) = sum h (set ?F)" using dF(1) by (simp add: sum_list_distinct_conv_sum_set)
  also have "\<dots> = (\<Sum>e\<in>set ?F. h (fst e, int (occurrences (fst e) codes)))"
    by (rule sum.cong) (use val in \<open>auto simp: prod_eq_iff\<close>)
  also have "\<dots> = (\<Sum>g\<in>fst ` set ?F. h (g, int (occurrences g codes)))"
    by (simp only: sum.reindex [OF dF(2)] comp_def)
  finally show ?thesis by (simp only: keys)
qed



section \<open>From codes to tokens\<close>

lemma count_list_map_inj:
  "(\<And>y. y \<in> set xs \<Longrightarrow> f y = f x \<Longrightarrow> y = x) \<Longrightarrow> count_list (map f xs) (f x) = count_list xs x"
  by (induction xs) auto

lemma occurrences_map:
  assumes "inj_on c K" "set g \<subseteq> K" "set r \<subseteq> K"
  shows "occurrences (map c g) (map c r) = occurrences g r"
proof -
  have "y = g" if "y \<in> set (ngrams (length g) r)" "map c y = map c g" for y
    using that ngrams_subset [OF that(1)] assms by (metis inj_on_map_eq_map inj_on_subset sup_least order_trans)
  then show ?thesis
    unfolding occurrences_def length_map ngrams_map by (rule count_list_map_inj)
qed

lemma best_count_map:
  assumes "inj_on c K" "set g \<subseteq> K" "\<forall>r\<in>set rs. set r \<subseteq> K"
  shows "best_count (map c g) (map (map c) rs) = best_count g rs"
proof -
  have "map (occurrences (map c g)) (map (map c) rs) = map (occurrences g) rs"
    using occurrences_map [OF assms(1,2)] assms(3) by simp
  then show ?thesis by (simp only: best_count_def)
qed

lemma sum_ngrams_map:
  assumes "inj_on c K" "set toks \<subseteq> K"
  shows "(\<Sum>g\<in>set (ngrams k (map c toks)). h g) = (\<Sum>g\<in>set (ngrams k toks). h (map c g))"
proof -
  have "inj_on (map c) (set (ngrams k toks))"
  proof (rule inj_onI)
    fix x y assume "x \<in> set (ngrams k toks)" "y \<in> set (ngrams k toks)" "map c x = map c y"
    then show "x = y" using ngrams_subset assms
      by (metis inj_on_map_eq_map inj_on_subset sup_least order_trans)
  qed
  then show ?thesis by (simp add: ngrams_map sum.reindex)
qed

lemma sum_count_list: "(\<Sum>x\<in>set xs. count_list xs x) = length xs"
  by (rule sum_count_set) auto

lemma sum_occurrences: "(\<Sum>g\<in>set (ngrams k toks). occurrences g toks) = Suc (length toks) - k"
proof -
  have "(\<Sum>g\<in>set (ngrams k toks). occurrences g toks) = (\<Sum>g\<in>set (ngrams k toks). count_list (ngrams k toks) g)"
    by (rule sum.cong) (auto simp: occurrences_def dest: length_in_ngrams)
  then show ?thesis by (simp add: sum_count_list length_ngrams)
qed

lemma BleuPrepareStats_keeps:
  assumes "bleu_refs s refs" "BleuPrepareStats sid txt s = Inr (stats, s')"
  shows "bleu_refs s' refs" "preserveCase s' = preserveCase s" "refLengthStrategy s' = refLengthStrategy s"
proof -
  obtain len counts e where c: "countNgrams (preserveCase s) txt [] BLEU_LENGTH (encodings s) = (len, counts, e)"
    by (cases "countNgrams (preserveCase s) txt [] BLEU_LENGTH (encodings s)")
  then have s': "s' = s\<lparr>encodings := e\<rparr>" using assms(2) by (auto simp: BleuPrepareStats_def Let_def split: if_splits)
  have "good_encodings (encodings s)" using assms(1) by (simp add: bleu_refs_def)
  note sp = countNgrams_spec [OF this c]
  show "bleu_refs s' refs" using bleu_refs_encodings [OF assms(1)] sp(1,2) s' by auto
  show "preserveCase s' = preserveCase s" "refLengthStrategy s' = refLengthStrategy s" using s' by simp_all
qed

lemma BleuPrepareStats_clipped:
  assumes "bleu_refs s refs" "BleuPrepareStats sid txt s = Inr (stats, s')" "1 \<le> k" "k \<le> BLEU_LENGTH"
  defines "toks \<equiv> tokens_of (preserveCase s) txt"
  shows "sid < length refs" "length stats = 2 * BLEU_LENGTH + 1"
    "stats ! (2 * k - 2) = int (\<Sum>g\<in>set (ngrams k toks). min (best_count g (refs ! sid)) (occurrences g toks))"
    "stats ! (2 * k - 1) = int (Suc (length toks) - k)"
    "stats ! (2 * BLEU_LENGTH) =
      \<lfloor>reference_length (refLengthStrategy s) (map length (refs ! sid)) (length toks)\<rfloor>"
proof -
  obtain len counts e where c: "countNgrams (preserveCase s) txt [] BLEU_LENGTH (encodings s) = (len, counts, e)"
    by (cases "countNgrams (preserveCase s) txt [] BLEU_LENGTH (encodings s)")
  define R where "R = refcounts s ! sid"
  define init where "init = replicate (BLEU_LENGTH * 2) (0 :: rat) @
    [reference_length (refLengthStrategy s) (reflengths s ! sid) len]"
  have init: "length init = 2 * BLEU_LENGTH + 1" "init ! (2 * k - 2) = 0" "init ! (2 * k - 1) = 0"
  proof -
    have "2 * k - 2 < BLEU_LENGTH * 2" "2 * k - 1 < BLEU_LENGTH * 2" using assms(3,4) by arith+
    then show "length init = 2 * BLEU_LENGTH + 1" "init ! (2 * k - 2) = 0" "init ! (2 * k - 1) = 0"
      by (simp_all add: init_def nth_append)
  qed
  have sid: "sid < length refs" and stats: "stats = map stat_of_text (fold (add_ngram_stats R) counts init)"
    using assms(1,2) c by (auto simp: BleuPrepareStats_def bleu_refs_def Let_def R_def init_def split: if_splits)
  show "sid < length refs" by (fact sid)
  have good: "good_encodings (encodings s)" using assms(1) by (simp add: bleu_refs_def)
  note sp = countNgrams_spec [OF good c, folded toks_def]
  define codes where "codes = map (code_of e) toks"
  have T: "counts = fold count_ngram (all_ngrams BLEU_LENGTH codes) []" using sp(5) by (simp add: codes_def)
  have "fst ` set counts \<subseteq> set (all_ngrams BLEU_LENGTH codes)"
    using fold_count_ngram [of "all_ngrams BLEU_LENGTH codes" "[]"]
    by (auto simp: T dom_map_of_conv_image_fst [symmetric] dom_def split: if_splits)
  then have lens: "\<forall>x\<in>set counts. 1 \<le> length (fst x) \<and> length (fst x) \<le> BLEU_LENGTH"
    by (auto simp: all_ngrams_def dest!: length_in_ngrams)
  note F = fold_add_ngram_stats [OF lens init(1) assms(3), of R]
  show "length stats = 2 * BLEU_LENGTH + 1" using F init(1) by (simp add: stats)
  obtain x where x: "e = encodings s @ x" using sp(2) by blast
  define K where "K = set (map fst e)"
  have inj: "inj_on (code_of e) K" unfolding K_def by (rule good_encodings_inj [OF sp(1)])
  have e_refs: "bleu_refs (s\<lparr>encodings := e\<rparr>) refs" using bleu_refs_encodings [OF assms(1)] sp(1) x by simp
  have toksK: "set toks \<subseteq> K" and refsK: "\<forall>r\<in>set (refs ! sid). set r \<subseteq> K"
    using sp(3) e_refs sid by (auto simp: K_def bleu_refs_def)
  have m: "matched R (map (code_of e) g, int (occurrences (map (code_of e) g) codes)) =
      int (min (best_count g (refs ! sid)) (occurrences g toks))" if g: "g \<in> set (ngrams k toks)" for g
  proof -
    have gK: "set g \<subseteq> K" "length g = k" using ngrams_subset [OF g] toksK length_in_ngrams [OF g] by auto
    have "count_value R (map (code_of e) g) =
        int (best_count (map (code_of e) g) (map (map (code_of e)) (refs ! sid)))"
      using e_refs sid gK(2) assms(3,4) by (simp add: bleu_refs_def R_def)
    also have "\<dots> = int (best_count g (refs ! sid))" by (simp only: best_count_map [OF inj gK(1) refsK])
    finally have "count_value R (map (code_of e) g) = int (best_count g (refs ! sid))" .
    then show ?thesis
      using occurrences_map [OF inj gK(1) toksK]
      by (auto simp: matched_def count_value_def codes_def split: option.splits)
  qed
  have "(\<Sum>x\<leftarrow>filter (\<lambda>x. length (fst x) = k) counts. matched R x) =
      (\<Sum>g\<in>set (ngrams k toks). matched R (map (code_of e) g, int (occurrences (map (code_of e) g) codes)))"
    unfolding T counted_sum [OF assms(3,4)] codes_def by (rule sum_ngrams_map [OF inj toksK])
  also have "\<dots> = int (\<Sum>g\<in>set (ngrams k toks). min (best_count g (refs ! sid)) (occurrences g toks))"
    using m by (simp add: of_nat_sum)
  finally show "stats ! (2 * k - 2) = int (\<Sum>g\<in>set (ngrams k toks). min (best_count g (refs ! sid)) (occurrences g toks))"
    using F init assms(3,4) by (simp add: stats stat_of_text_def del: of_nat_sum)
  have "(\<Sum>x\<leftarrow>filter (\<lambda>x. length (fst x) = k) counts. snd x) = (\<Sum>g\<in>set (ngrams k codes). int (occurrences g codes))"
    unfolding T counted_sum [OF assms(3,4)] by simp
  also have "\<dots> = int (Suc (length toks) - k)"
    unfolding of_nat_sum [symmetric] sum_occurrences by (simp add: codes_def)
  finally show "stats ! (2 * k - 1) = int (Suc (length toks) - k)"
    using F init assms(3,4) by (simp add: stats stat_of_text_def)
  have "reflengths s ! sid = map length (refs ! sid)" using assms(1) sid by (simp add: bleu_refs_def)
  then show "stats ! (2 * BLEU_LENGTH) =
      \<lfloor>reference_length (refLengthStrategy s) (map length (refs ! sid)) (length toks)\<rfloor>"
    using F init(1) sp(4) by (simp add: stats stat_of_text_def) (simp add: init_def nth_append)
qed



text \<open>The scorer between two candidates: the statistics are stored, the codes of new words stay.\<close>

definition bleu_prepare_each :: "(nat \<times> string) list \<Rightarrow> bleu_scorer \<Rightarrow> mert_error + bleu_scorer" where
  "bleu_prepare_each candidates s =
     foldE (\<lambda>(sid, txt) s. bindE (BleuPrepareStats sid txt s) (\<lambda>(_, s). Inr s)) candidates s"

lemma bleu_prepare_each_keeps:
  assumes "bleu_refs s refs" "bleu_prepare_each candidates s = Inr s'"
  shows "bleu_refs s' refs \<and> preserveCase s' = preserveCase s \<and> refLengthStrategy s' = refLengthStrategy s"
proof (rule foldE_invariant [OF assms(2) [unfolded bleu_prepare_each_def],
    where P = "\<lambda>_ t. bleu_refs t refs \<and> preserveCase t = preserveCase s \<and> refLengthStrategy t = refLengthStrategy s"])
  show "bleu_refs s refs \<and> preserveCase s = preserveCase s \<and> refLengthStrategy s = refLengthStrategy s"
    using assms(1) by simp
next
  fix y :: "nat \<times> string" and t t'
  assume t: "bleu_refs t refs \<and> preserveCase t = preserveCase s \<and> refLengthStrategy t = refLengthStrategy s"
    and "(case y of (sid, txt) \<Rightarrow> \<lambda>s. bindE (BleuPrepareStats sid txt s) (\<lambda>(_, s). Inr s)) t = Inr t'"
  then obtain sid line stats where "BleuPrepareStats sid line t = Inr (stats, t')"
    by (cases y) (auto simp: bindE_Inr)
  from BleuPrepareStats_keeps [of t refs, OF _ this] t
  show "bleu_refs t' refs \<and> preserveCase t' = preserveCase s \<and> refLengthStrategy t' = refLengthStrategy s"
    by simp
qed

text \<open>C19: Whatever was scored before, the statistics of a candidate are its clipped n-gram matches: an
  n-gram of the candidate counts as often as it occurs there, but at most as often as in the
  reference that has it most, and the number of guesses is the number of its n-grams.
\<close>

theorem bleu_statistics_are_clipped_matches:
  assumes "BleuSetReferenceFiles files s0 = Inr s1" "bleu_prepare_each earlier s1 = Inr s"
    and "BleuPrepareStats sid txt s = Inr (stats, s')" "1 \<le> k" "k \<le> BLEU_LENGTH"
  shows "stats ! (2 * k - 2) =
      int (\<Sum>g\<in>set (ngrams k (tokens_of (preserveCase s0) txt)).
        min (best_count g (references (preserveCase s0) (map file_lines files) sid))
          (occurrences g (tokens_of (preserveCase s0) txt))) \<and>
    stats ! (2 * k - 1) = int (Suc (length (tokens_of (preserveCase s0) txt)) - k) \<and>
    0 \<le> stats ! (2 * k - 2) \<and> stats ! (2 * k - 2) \<le> stats ! (2 * k - 1)"
proof -
  let ?toks = "tokens_of (preserveCase s0) txt"
  let ?refs = "all_references (preserveCase s0) (map file_lines files)"
  let ?rs = "references (preserveCase s0) (map file_lines files) sid"
  have s1: "bleu_refs s1 ?refs" "preserveCase s1 = preserveCase s0"
    using bleu_setReferenceFiles [OF assms(1)] by simp_all
  have s: "bleu_refs s ?refs" "preserveCase s = preserveCase s0"
    using bleu_prepare_each_keeps [OF s1(1) assms(2)] s1(2) by simp_all
  note st = BleuPrepareStats_clipped [OF s(1) assms(3-5), unfolded s(2)]
  have "?refs ! sid = ?rs" using st(1) by (auto simp: all_references_def split: list.splits)
  then have sum: "stats ! (2 * k - 2) = int (\<Sum>g\<in>set (ngrams k ?toks). min (best_count g ?rs) (occurrences g ?toks))"
    using st(3) by simp
  have "(\<Sum>g\<in>set (ngrams k ?toks). min (best_count g ?rs) (occurrences g ?toks)) \<le>
      (\<Sum>g\<in>set (ngrams k ?toks). occurrences g ?toks)"
    by (rule sum_mono) simp
  then show ?thesis using sum st(4) by (simp add: sum_occurrences del: of_nat_sum)
qed

definition example_references :: "text_file list" where
  "example_references = [(''r1'', Some [''a b a c'', ''d'']), (''r2'', Some [''a a a''])]"

definition example_bleu :: bleu_scorer where
  "example_bleu = \<lparr>preserveCase = True, encodings = [], refLengthStrategy = BLEU_CLOSEST,
     refcounts = [], reflengths = []\<rparr>"



lemma example_references_loaded:
  "BleuSetReferenceFiles example_references example_bleu =
     Inr (projr (BleuSetReferenceFiles example_references example_bleu))"
  by code_simp

lemma example_prepared:
  "BleuPrepareStats 0 ''a a a a b'' (projr (BleuSetReferenceFiles example_references example_bleu)) =
     Inr ([4, 5, 3, 4, 1, 3, 0, 2, 4],
       snd (projr (BleuPrepareStats 0 ''a a a a b'' (projr (BleuSetReferenceFiles example_references example_bleu)))))"
  by code_simp

theorem bleu_statistics_are_clipped_matches_witness:
  "[4, 5, 3, 4, 1, 3, 0, 2, 4 :: int] ! 2 =
    int (\<Sum>g\<in>set (ngrams 2 (tokens_of True ''a a a a b'')).
      min (best_count g (references True (map file_lines example_references) 0))
        (occurrences g (tokens_of True ''a a a a b'')))"
proof -
  have "bleu_prepare_each [] s = Inr s" for s by (simp add: bleu_prepare_each_def)
  from bleu_statistics_are_clipped_matches [OF example_references_loaded this example_prepared, of 2]
  show ?thesis by (simp add: example_bleu_def BLEU_LENGTH_def del: of_nat_sum)
qed

lemma bleu_reference_line_succeeds:
  assumes "if i = 0 then sid = length (refcounts s) else sid < length (refcounts s)"
  shows "\<exists>s'. bleu_reference_line name i line (sid, s) = Inr (sid + 1, s') \<and>
    length (refcounts s') = (if i = 0 then Suc (length (refcounts s)) else length (refcounts s))"
proof -
  obtain len counts e where "countNgrams (preserveCase s) line [] BLEU_LENGTH (encodings s) = (len, counts, e)"
    by (cases "countNgrams (preserveCase s) line [] BLEU_LENGTH (encodings s)")
  then show ?thesis using assms by (cases "i = 0") (auto simp: bleu_reference_line_def Let_def)
qed

lemma bleu_lines_succeed:
  assumes "if i = 0 then sid = length (refcounts s) else sid + length lines \<le> length (refcounts s)"
  shows "\<exists>s'. foldE (bleu_reference_line name i) lines (sid, s) = Inr (sid + length lines, s') \<and>
    length (refcounts s') = (if i = 0 then length (refcounts s) + length lines else length (refcounts s))"
  using assms
proof (induction lines arbitrary: sid s)
  case Nil
  then show ?case by simp
next
  case (Cons line lines)
  then obtain s1 where s1: "bleu_reference_line name i line (sid, s) = Inr (sid + 1, s1)"
    "length (refcounts s1) = (if i = 0 then Suc (length (refcounts s)) else length (refcounts s))"
    using bleu_reference_line_succeeds [of i sid s name line] by (auto split: if_splits)
  obtain s' where "foldE (bleu_reference_line name i) lines (sid + 1, s1) = Inr (sid + 1 + length lines, s')"
    "length (refcounts s') = (if i = 0 then length (refcounts s1) + length lines else length (refcounts s1))"
    using Cons.IH [of "sid + 1" s1] Cons.prems s1(2) by (auto split: if_splits)
  then show ?case using s1 by auto
qed

lemma bleu_files_succeed:
  assumes "\<forall>f\<in>set files. snd f \<noteq> None \<and> length (file_lines f) \<le> length (refcounts s)" "0 < i"
  shows "\<exists>s'. foldE bleu_reference_file (enumerate i files) s = Inr s'"
  using assms
proof (induction files arbitrary: i s)
  case Nil
  then show ?case by simp
next
  case (Cons f files)
  obtain name lines where f: "f = (name, Some lines)" using Cons.prems(1) by (cases f) auto
  obtain s1 where s1: "foldE (bleu_reference_line name i) lines (0, s) = Inr (length lines, s1)"
    "length (refcounts s1) = length (refcounts s)"
    using bleu_lines_succeed [of i 0 s lines name] Cons.prems f by auto
  then show ?case using Cons.IH [of s1 "Suc i"] Cons.prems f by (simp add: bleu_reference_file_def)
qed

text \<open>C40: Loading succeeds exactly when every file can be opened and none has more sentences than the
  first; a file with fewer sentences is not noticed.
\<close>

theorem bleu_references_load_iff:
  "(\<exists>s'. BleuSetReferenceFiles files s = Inr s') =
     list_all (\<lambda>f. snd f \<noteq> None \<and> length (file_lines f) \<le> length (file_lines (hd files))) files"
proof
  assume "\<exists>s'. BleuSetReferenceFiles files s = Inr s'"
  then show "list_all (\<lambda>f. snd f \<noteq> None \<and> length (file_lines f) \<le> length (file_lines (hd files))) files"
    using bleu_setReferenceFiles unfolding list_all_iff by blast
next
  assume ok: "list_all (\<lambda>f. snd f \<noteq> None \<and> length (file_lines f) \<le> length (file_lines (hd files))) files"
  show "\<exists>s'. BleuSetReferenceFiles files s = Inr s'"
  proof (cases files)
    case Nil
    then show ?thesis by (simp add: BleuSetReferenceFiles_def)
  next
    case (Cons f fs)
    obtain name lines where f: "f = (name, Some lines)" using ok Cons by (cases f) auto
    let ?s = "s\<lparr>refcounts := [], reflengths := [], encodings := []\<rparr>"
    obtain s1 where s1: "foldE (bleu_reference_line name 0) lines (0, ?s) = Inr (length lines, s1)"
      "length (refcounts s1) = length lines"
      using bleu_lines_succeed [of 0 0 ?s lines name] by auto
    obtain s' where "foldE bleu_reference_file (enumerate (Suc 0) fs) s1 = Inr s'"
      using bleu_files_succeed [of fs s1 "Suc 0"] ok Cons f s1(2) by (auto simp: list_all_iff)
    then show ?thesis using Cons f s1 by (simp add: BleuSetReferenceFiles_def bleu_reference_file_def)
  qed
qed

section \<open>The score of the statistics\<close>

text \<open>The logarithms are those of the real numbers; rounding is not modelled.\<close>

fun bleu_log :: "int list \<Rightarrow> nat list \<Rightarrow> real \<Rightarrow> real option" where
  "bleu_log comps [] logbleu = Some logbleu"
| "bleu_log comps (i # is) logbleu =
     (if comps ! (2 * i) = 0 then None
      else bleu_log comps is
             (logbleu + (ln (real_of_int (comps ! (2 * i))) - ln (real_of_int (comps ! (2 * i + 1))))))"

definition BleuCalculateScore :: "int list \<Rightarrow> real" where
  "BleuCalculateScore comps =
     (case bleu_log comps [0..<BLEU_LENGTH] 0 of
        None \<Rightarrow> 0
      | Some logbleu \<Rightarrow>
          let logbleu = logbleu / BLEU_LENGTH;
              brevity = 1 - real_of_int (comps ! (BLEU_LENGTH * 2)) / real_of_int (comps ! 1);
              logbleu = (if brevity < 0 then logbleu + brevity else logbleu)
          in exp logbleu)"

lemma bleu_log_None: "bleu_log comps is x = None \<longleftrightarrow> (\<exists>i\<in>set is. comps ! (2 * i) = 0)"
  by (induction "is" arbitrary: x) auto

lemma bleu_log_Some:
  "bleu_log comps is x = Some y \<Longrightarrow>
    y = x + (\<Sum>i\<leftarrow>is. ln (real_of_int (comps ! (2 * i))) - ln (real_of_int (comps ! (2 * i + 1))))"
proof (induction "is" arbitrary: x)
  case Nil
  then show ?case by simp
next
  case (Cons i "is")
  then have "bleu_log comps is (x + (ln (real_of_int (comps ! (2 * i))) - ln (real_of_int (comps ! (2 * i + 1))))) = Some y"
    by (simp split: if_splits)
  from Cons.IH [OF this] show ?case by simp
qed

lemma sum_list_nonpos_eq_0:
  fixes f :: "nat \<Rightarrow> real"
  assumes "\<forall>i\<in>set is. f i \<le> 0"
  shows "sum_list (map f is) \<le> 0 \<and> (sum_list (map f is) = 0 \<longleftrightarrow> (\<forall>i\<in>set is. f i = 0))"
  using assms by (induction "is") force+

text \<open>C39: The score of clipped matches is between 0 and 1, and 1 exactly when every n-gram guess is a
  match, there is a match of every order, and the candidates are not shorter than the references.
\<close>

theorem bleu_score_bounds:
  assumes "\<forall>i<BLEU_LENGTH. 0 \<le> comps ! (2 * i) \<and> comps ! (2 * i) \<le> comps ! (2 * i + 1)"
  shows "0 \<le> BleuCalculateScore comps \<and> BleuCalculateScore comps \<le> 1 \<and>
    (BleuCalculateScore comps = 1 \<longleftrightarrow>
      (\<forall>i<BLEU_LENGTH. comps ! (2 * i) = comps ! (2 * i + 1) \<and> comps ! (2 * i) \<noteq> 0) \<and>
      comps ! (2 * BLEU_LENGTH) \<le> comps ! 1)"
proof (cases "bleu_log comps [0..<BLEU_LENGTH] 0")
  case None
  then have "BleuCalculateScore comps = 0" by (simp add: BleuCalculateScore_def)
  moreover have "\<exists>i<BLEU_LENGTH. comps ! (2 * i) = 0"
    using None bleu_log_None [of comps "[0..<BLEU_LENGTH]" 0] by auto
  ultimately show ?thesis by auto
next
  case (Some y)
  let ?f = "\<lambda>i. ln (real_of_int (comps ! (2 * i))) - ln (real_of_int (comps ! (2 * i + 1)))"
  have nz: "comps ! (2 * i) \<noteq> 0" if "i < BLEU_LENGTH" for i
    using Some bleu_log_None [of comps "[0..<BLEU_LENGTH]" 0] that by auto
  have pos: "0 < comps ! (2 * i)" "comps ! (2 * i) \<le> comps ! (2 * i + 1)" if "i < BLEU_LENGTH" for i
    using nz [OF that] assms that by (auto simp: order.order_iff_strict)
  have f: "?f i \<le> 0" "?f i = 0 \<longleftrightarrow> comps ! (2 * i) = comps ! (2 * i + 1)" if "i < BLEU_LENGTH" for i
    using pos [OF that] by simp_all
  have y: "y \<le> 0" "y = 0 \<longleftrightarrow> (\<forall>i<BLEU_LENGTH. comps ! (2 * i) = comps ! (2 * i + 1))"
    using bleu_log_Some [OF Some] sum_list_nonpos_eq_0 [of "[0..<BLEU_LENGTH]" ?f] f by auto
  have guess: "0 < comps ! 1" using pos [of 0] by (simp add: BLEU_LENGTH_def)
  define brevity where "brevity = 1 - real_of_int (comps ! (BLEU_LENGTH * 2)) / real_of_int (comps ! 1)"
  have b: "brevity < 0 \<longleftrightarrow> comps ! 1 < comps ! (2 * BLEU_LENGTH)"
    using guess by (simp add: brevity_def mult.commute)
  define l where "l = y / BLEU_LENGTH + (if brevity < 0 then brevity else 0)"
  have score: "BleuCalculateScore comps = exp l"
    using Some by (simp add: BleuCalculateScore_def Let_def l_def brevity_def)
  have l0: "y / BLEU_LENGTH \<le> 0" "y / BLEU_LENGTH = 0 \<longleftrightarrow> y = 0" using y(1) by (simp_all add: BLEU_LENGTH_def)
  then have "l \<le> 0" "l = 0 \<longleftrightarrow> y = 0 \<and> \<not> brevity < 0" by (auto simp: l_def)
  then show ?thesis using score y(2) b nz by auto
qed

theorem bleu_score_bounds_witness:
  "BleuCalculateScore [4, 4, 3, 3, 2, 2, 1, 1, 4] = 1"
  using bleu_score_bounds [of "[4, 4, 3, 3, 2, 2, 1, 1, 4]"]
  by (simp add: BLEU_LENGTH_def less_Suc_eq numeral_eq_Suc)



section \<open>Position-independent error rate\<close>

record per_scorer =
  per_preserveCase :: bool
  per_encodings :: encodings
  per_reftokens :: "int multiset list"
  per_reflengths :: "nat list"

definition per_reference_line :: "string \<Rightarrow> per_scorer \<Rightarrow> per_scorer" where
  "per_reference_line line s =
     (let (e, tokens) = encode (per_preserveCase s) line (per_encodings s)
      in s\<lparr>per_encodings := e,
           per_reftokens := per_reftokens s @ [fold (\<lambda>i. add_mset (tokens ! i)) [0..<length tokens] {#}],
           per_reflengths := per_reflengths s @ [length tokens]\<rparr>)"

definition PerSetReferenceFiles :: "text_file list \<Rightarrow> per_scorer \<Rightarrow> mert_error + per_scorer" where
  "PerSetReferenceFiles referenceFiles s =
     (if length referenceFiles \<noteq> 1 then Inl Single_reference_only
      else let s = s\<lparr>per_reftokens := [], per_reflengths := []\<rparr>
           in case snd (referenceFiles ! 0) of
                None \<Rightarrow> Inl (Unable_to_open (fst (referenceFiles ! 0)))
              | Some lines \<Rightarrow> Inr (fold per_reference_line lines s))"

definition PerPrepareStats :: "nat \<Rightarrow> string \<Rightarrow> per_scorer \<Rightarrow> mert_error + (int list \<times> per_scorer)" where
  "PerPrepareStats sid txt s =
     (if sid \<ge> length (per_reflengths s) then Inl (Sentence_not_found sid)
      else let (e, testtokens) = encode (per_preserveCase s) txt (per_encodings s);
               testtokens_all = mset testtokens;
               correct = fold (\<lambda>token correct. correct +
                   min (count (per_reftokens s ! sid) token) (count testtokens_all token))
                 (sorted_list_of_set (set testtokens)) 0
           in Inr ([int correct, int (length testtokens), int (per_reflengths s ! sid)],
                s\<lparr>per_encodings := e\<rparr>))"

definition PerCalculateScore :: "int list \<Rightarrow> rat" where
  "PerCalculateScore comps =
     (let denom = comps ! 2; num = comps ! 0 - max 0 (comps ! 1 - comps ! 2)
      in if denom = 0 then 0 else of_int num / of_int denom)"

definition per_refs :: "per_scorer \<Rightarrow> string list list \<Rightarrow> bool" where
  "per_refs s refs \<longleftrightarrow>
     good_encodings (per_encodings s) \<and> per_reflengths s = map length refs \<and>
     (\<forall>r\<in>set refs. set r \<subseteq> set (map fst (per_encodings s))) \<and>
     per_reftokens s = map (\<lambda>r. mset (map (code_of (per_encodings s)) r)) refs"

lemma fold_add_mset_nth: "fold (\<lambda>i. add_mset (xs ! i)) [0..<length xs] {#} = mset xs"
proof -
  have "fold (\<lambda>i. add_mset (xs ! i)) [0..<n] {#} = mset (take n xs)" if "n \<le> length xs" for n
    using that by (induction n) (simp_all add: take_Suc_conv_app_nth)
  from this [of "length xs"] show ?thesis by simp
qed

lemma per_refs_encodings:
  assumes "per_refs s refs" "good_encodings (per_encodings s @ x)"
  shows "per_refs (s\<lparr>per_encodings := per_encodings s @ x\<rparr>) refs"
proof -
  have K: "\<forall>r\<in>set refs. set r \<subseteq> set (map fst (per_encodings s))" using assms(1) by (simp add: per_refs_def)
  have "map (code_of (per_encodings s @ x)) r = map (code_of (per_encodings s)) r" if "r \<in> set refs" for r
  proof (rule map_cong [OF refl])
    fix t assume "t \<in> set r"
    then have "t \<in> set (map fst (per_encodings s))" using K that by blast
    then show "code_of (per_encodings s @ x) t = code_of (per_encodings s) t" by (rule code_of_append)
  qed
  then have "map (\<lambda>r. mset (map (code_of (per_encodings s @ x)) r)) refs =
      map (\<lambda>r. mset (map (code_of (per_encodings s)) r)) refs"
    by (intro map_cong [OF refl]) (simp only:)
  then show ?thesis using assms K unfolding per_refs_def by auto
qed

lemma per_reference_line_step:
  assumes "per_refs s refs"
  shows "per_refs (per_reference_line line s) (refs @ [tokens_of (per_preserveCase s) line])"
    "per_preserveCase (per_reference_line line s) = per_preserveCase s"
proof -
  obtain e tokens where e: "encode (per_preserveCase s) line (per_encodings s) = (e, tokens)"
    by (cases "encode (per_preserveCase s) line (per_encodings s)")
  have good: "good_encodings (per_encodings s)" using assms by (simp add: per_refs_def)
  note sp = encode_spec [OF good e]
  have "per_refs (s\<lparr>per_encodings := e\<rparr>) refs" using per_refs_encodings [OF assms] sp(1,2) by auto
  then show "per_refs (per_reference_line line s) (refs @ [tokens_of (per_preserveCase s) line])"
    using sp(1,3,4) by (simp add: per_refs_def per_reference_line_def e fold_add_mset_nth)
  show "per_preserveCase (per_reference_line line s) = per_preserveCase s"
    by (simp add: per_reference_line_def e)
qed

lemma per_lines_loaded:
  "per_refs s refs \<Longrightarrow>
    per_refs (fold per_reference_line lines s) (refs @ map (tokens_of (per_preserveCase s)) lines) \<and>
    per_preserveCase (fold per_reference_line lines s) = per_preserveCase s"
proof (induction lines arbitrary: s refs)
  case Nil
  then show ?case by simp
next
  case (Cons line lines)
  from Cons.IH [OF per_reference_line_step(1) [OF Cons.prems]]
  show ?case by (simp add: per_reference_line_step(2) [OF Cons.prems])
qed

lemma size_inter_sum:
  fixes A B :: "'a multiset"
  shows "size (A \<inter># B) = (\<Sum>x\<in>set_mset B. min (count A x) (count B x))"
proof -
  have "size (A \<inter># B) = (\<Sum>x\<in>set_mset (A \<inter># B). count (A \<inter># B) x)" by (simp add: size_multiset_overloaded_eq)
  also have "\<dots> = (\<Sum>x\<in>set_mset B. count (A \<inter># B) x)"
    by (rule sum.mono_neutral_left) (auto simp: not_in_iff)
  finally show ?thesis by simp
qed

lemma count_mset_map_inj:
  "(\<And>y. y \<in> set xs \<Longrightarrow> f y = f x \<Longrightarrow> y = x) \<Longrightarrow> count (mset (map f xs)) (f x) = count (mset xs) x"
  by (induction xs) auto

lemma fold_plus_sum: "fold (\<lambda>x acc. acc + f x) xs (a :: nat) = a + sum_list (map f xs)"
  by (induction xs arbitrary: a) simp_all

lemma PerPrepareStats_bag:
  assumes "per_refs s refs" "PerPrepareStats sid txt s = Inr (stats, s')"
  defines "toks \<equiv> tokens_of (per_preserveCase s) txt"
  shows "sid < length refs" "per_refs s' refs" "per_preserveCase s' = per_preserveCase s"
    "stats = [int (size (mset (refs ! sid) \<inter># mset toks)), int (length toks), int (length (refs ! sid))]"
proof -
  obtain e codes where e: "encode (per_preserveCase s) txt (per_encodings s) = (e, codes)"
    by (cases "encode (per_preserveCase s) txt (per_encodings s)")
  define correct where "correct = fold (\<lambda>token correct. correct +
      min (count (per_reftokens s ! sid) token) (count (mset codes) token)) (sorted_list_of_set (set codes)) 0"
  have good: "good_encodings (per_encodings s)" and lens: "per_reflengths s = map length refs"
    using assms(1) by (simp_all add: per_refs_def)
  have sid: "sid < length refs" and st: "stats = [int correct, int (length codes), int (per_reflengths s ! sid)]"
    and s': "s' = s\<lparr>per_encodings := e\<rparr>"
    using assms(2) e lens by (auto simp: PerPrepareStats_def Let_def correct_def split: if_splits)
  show "sid < length refs" by (fact sid)
  note sp = encode_spec [OF good e, folded toks_def]
  have r': "per_refs (s\<lparr>per_encodings := e\<rparr>) refs" using per_refs_encodings [OF assms(1)] sp(1,2) by auto
  then show "per_refs s' refs" "per_preserveCase s' = per_preserveCase s" by (simp_all add: s')
  define K where "K = set (map fst e)"
  have inj: "inj_on (code_of e) K" unfolding K_def by (rule good_encodings_inj [OF sp(1)])
  have ref: "per_reftokens s ! sid = mset (map (code_of e) (refs ! sid))" "set (refs ! sid) \<subseteq> K"
    using r' sid by (auto simp: per_refs_def K_def)
  have tk: "set toks \<subseteq> K" using sp(3) by (simp add: K_def)
  have cnt: "count (mset (map (code_of e) xs)) (code_of e t) = count (mset xs) t"
    if "set xs \<subseteq> K" "t \<in> set toks" for xs t
    by (rule count_mset_map_inj) (use inj that tk in \<open>meson inj_onD subsetD\<close>)
  have "correct = (\<Sum>c\<in>set codes. min (count (per_reftokens s ! sid) c) (count (mset codes) c))"
    unfolding correct_def fold_plus_sum
    using sum_list_distinct_conv_sum_set [of "sorted_list_of_set (set codes)"
        "\<lambda>c. min (count (per_reftokens s ! sid) c) (count (mset codes) c)"] by simp
  also have "\<dots> = (\<Sum>t\<in>set toks. min (count (mset (refs ! sid)) t) (count (mset toks) t))"
    unfolding sp(4) ref(1) set_map
    by (subst sum.reindex [OF inj_on_subset [OF inj tk]]) (simp only: comp_def cnt [OF ref(2)] cnt [OF tk] cong: sum.cong)
  also have "\<dots> = size (mset (refs ! sid) \<inter># mset toks)" by (simp add: size_inter_sum)
  finally show "stats = [int (size (mset (refs ! sid) \<inter># mset toks)), int (length toks), int (length (refs ! sid))]"
    using st sp(4) lens sid by simp
qed

lemma PerSetReferenceFiles_loads:
  assumes "PerSetReferenceFiles files s = Inr s'" "good_encodings (per_encodings s)"
  shows "\<exists>name lines. files = [(name, Some lines)] \<and>
    per_refs s' (map (tokens_of (per_preserveCase s)) lines) \<and> per_preserveCase s' = per_preserveCase s"
proof -
  obtain name content where f: "files = [(name, content)]"
    using assms(1) by (cases files) (auto simp: PerSetReferenceFiles_def split: if_splits)
  then obtain lines where l: "content = Some lines"
    "s' = fold per_reference_line lines (s\<lparr>per_reftokens := [], per_reflengths := []\<rparr>)"
    using assms(1) by (auto simp: PerSetReferenceFiles_def split: option.splits)
  have "per_refs (s\<lparr>per_reftokens := [], per_reflengths := []\<rparr>) []" using assms(2) by (simp add: per_refs_def)
  from per_lines_loaded [OF this, of lines] show ?thesis using f l by simp
qed

lemma submultiset_size_eq: "A \<subseteq># B \<Longrightarrow> size B \<le> size A \<Longrightarrow> A = B"
  using mset_subset_size [of A B] by (auto simp: subset_mset.le_less)

lemma per_perfect:
  fixes ref toks :: "'a list"
  assumes "ref \<noteq> []"
  defines "score \<equiv> PerCalculateScore [int (size (mset ref \<inter># mset toks)), int (length toks), int (length ref)]"
  shows "score \<le> 1 \<and> (score = 1 \<longleftrightarrow> mset toks = mset ref)"
proof -
  let ?c = "size (mset ref \<inter># mset toks)"
  have c: "?c \<le> length ref" using size_mset_mono [of "mset ref \<inter># mset toks" "mset ref"] by simp
  define n where "n = int ?c - max 0 (int (length toks) - int (length ref))"
  have score: "score = of_int n / of_nat (length ref)"
    using assms(1) by (simp add: score_def PerCalculateScore_def n_def Let_def)
  define m where "m = int (length ref)"
  have score: "score = of_int n / of_int m" using score by (simp add: m_def)
  have n: "n \<le> int (length ref)" using c by (simp add: n_def)
  have "0 < (of_int m :: rat)" using assms(1) by (simp add: m_def)
  then have "score \<le> 1 \<longleftrightarrow> n \<le> m" "score = 1 \<longleftrightarrow> n = m"
    unfolding score by (auto simp: pos_divide_le_eq)
  then have "score \<le> 1 \<longleftrightarrow> n \<le> int (length ref)" "score = 1 \<longleftrightarrow> n = int (length ref)"
    by (simp_all only: m_def)
  moreover have "n = int (length ref) \<longleftrightarrow> mset toks = mset ref"
  proof
    assume "n = int (length ref)"
    then have "?c = length ref" "length toks \<le> length ref" using c by (auto simp: n_def max_def split: if_splits)
    then have "mset ref \<inter># mset toks = mset ref" by (intro submultiset_size_eq) simp_all
    then have "mset ref \<subseteq># mset toks" using subset_mset.inf_le2 [of "mset ref" "mset toks"] by simp
    from submultiset_size_eq [OF this] show "mset toks = mset ref" using \<open>length toks \<le> length ref\<close> by simp
  next
    assume "mset toks = mset ref"
    moreover from this have "length toks = length ref" by (rule mset_eq_length)
    ultimately show "n = int (length ref)" by (simp add: n_def)
  qed
  ultimately show ?thesis using n by simp
qed

text \<open>The score of one candidate against its reference does not depend on the order of the words,
  and is 1 exactly when the candidate is a permutation of the reference.
\<close>

theorem per_score_is_one_iff_permutation:
  assumes "PerSetReferenceFiles [(name, Some lines)] s0 = Inr s" "good_encodings (per_encodings s0)"
    and "PerPrepareStats sid txt s = Inr (stats, s')"
    and "tokens_of (per_preserveCase s0) (lines ! sid) \<noteq> []"
  shows "PerCalculateScore stats \<le> 1 \<and>
    (PerCalculateScore stats = 1 \<longleftrightarrow>
      mset (tokens_of (per_preserveCase s0) txt) = mset (tokens_of (per_preserveCase s0) (lines ! sid)))"
proof -
  have s: "per_refs s (map (tokens_of (per_preserveCase s0)) lines)" "per_preserveCase s = per_preserveCase s0"
    using PerSetReferenceFiles_loads [OF assms(1,2)] by auto
  note st = PerPrepareStats_bag [OF s(1) assms(3), unfolded s(2)]
  then have "map (tokens_of (per_preserveCase s0)) lines ! sid = tokens_of (per_preserveCase s0) (lines ! sid)" by simp
  then show ?thesis using st(4) per_perfect [OF assms(4), of "tokens_of (per_preserveCase s0) txt"] by simp
qed

definition example_per :: per_scorer where
  "example_per = \<lparr>per_preserveCase = True, per_encodings = [], per_reftokens = [], per_reflengths = []\<rparr>"

theorem per_score_is_one_iff_permutation_witness:
  "PerCalculateScore [3, 3, 3] = 1"
proof -
  have a: "PerSetReferenceFiles [(''r'', Some [''a b a''])] example_per =
      Inr \<lparr>per_preserveCase = True, per_encodings = [(''a'', 0), (''b'', 1)], per_reftokens = [mset [0, 1, 0]],
        per_reflengths = [3]\<rparr>" (is "_ = Inr ?s") by code_simp
  have b: "PerPrepareStats 0 ''b a a'' ?s = Inr ([3, 3, 3], ?s)" by code_simp
  have g: "good_encodings (per_encodings example_per)" by (simp add: example_per_def)
  have t: "tokens_of (per_preserveCase example_per) ([''a b a''] ! 0) \<noteq> []" by code_simp
  have "mset (tokens_of (per_preserveCase example_per) ''b a a'') =
      mset (tokens_of (per_preserveCase example_per) ([''a b a''] ! 0))"
    by code_simp
  with per_score_is_one_iff_permutation [OF a g b t] show ?thesis by blast
qed



section \<open>Scoring by statistics\<close>

text \<open>
  \<open>StatisticsBasedScorer::score\<close>: the statistics of the chosen candidates are added up and
  scored; then each diff changes some candidates, the totals are updated by the differences, and
  the new totals are scored. \<open>calculateScore\<close> is the pure virtual function of the class. The
  totals are unbounded integers, and the access to \<open>last_candidates\<close> is checked.
\<close>

type_synonym score_data = "int list list list"
type_synonym candidates = "nat list"
type_synonym diff_seq = "(nat \<times> nat) list list"

datatype ScorerRegularisationStrategy = REG_NONE | REG_AVERAGE | REG_MINIMUM

definition score_get :: "score_data \<Rightarrow> nat \<Rightarrow> nat \<Rightarrow> mert_error + int list" where
  "score_get dat i j =
     (if i \<ge> length dat then Inl (Out_of_range i)
      else if j \<ge> length (dat ! i) then Inl (Out_of_range j)
      else Inr (dat ! i ! j))"

definition add_candidate :: "score_data \<Rightarrow> candidates \<Rightarrow> nat \<Rightarrow> int list \<Rightarrow> mert_error + int list" where
  "add_candidate dat candidates i totals =
     bindE (score_get dat i (candidates ! i)) (\<lambda>stats.
       if length stats \<noteq> length totals then Inl (Wrong_number_of_fields (length stats) (length totals))
       else Inr (map (\<lambda>k. totals ! k + stats ! k) [0..<length totals]))"

definition apply_change ::
    "score_data \<Rightarrow> nat \<times> nat \<Rightarrow> int list \<times> candidates \<Rightarrow> mert_error + (int list \<times> candidates)" where
  "apply_change dat change st =
     (let (sid, nid) = change; (totals, last_candidates) = st
      in if sid \<ge> length last_candidates then Inl (Out_of_range sid)
         else let last_nid = last_candidates ! sid
              in if totals = [] then Inr (totals, last_candidates[sid := nid])
                 else bindE (score_get dat sid nid) (\<lambda>new. bindE (score_get dat sid last_nid) (\<lambda>old.
                   Inr (map (\<lambda>k. totals ! k + (new ! k - old ! k)) [0..<length totals],
                        last_candidates[sid := nid]))))"

definition score_diff ::
    "(int list \<Rightarrow> mert_error + real) \<Rightarrow> score_data \<Rightarrow> (nat \<times> nat) list \<Rightarrow>
      (int list \<times> candidates) \<times> real list \<Rightarrow> mert_error + ((int list \<times> candidates) \<times> real list)" where
  "score_diff calculateScore dat changes st =
     bindE (foldE (apply_change dat) changes (fst st)) (\<lambda>totals.
       bindE (calculateScore (fst totals)) (\<lambda>s. Inr (totals, snd st @ [s])))"

definition FLT_MAX :: real where
  "FLT_MAX = (2 - 1 / 2 ^ 23) * 2 ^ 127"

definition score_min :: "real list \<Rightarrow> nat \<Rightarrow> nat \<Rightarrow> real" where
  "score_min scores start end = fold (\<lambda>i min. if scores ! i < min then scores ! i else min) [start..<end] FLT_MAX"

definition score_average :: "real list \<Rightarrow> nat \<Rightarrow> nat \<Rightarrow> real" where
  "score_average scores start end =
     (if end - start < 1 then 0
      else fold (\<lambda>j total. total + scores ! j) [start..<end] 0 / real (end - start))"

definition regularise :: "ScorerRegularisationStrategy \<Rightarrow> nat \<Rightarrow> real list \<Rightarrow> real list" where
  "regularise strategy window scores =
     (if strategy = REG_NONE \<or> window \<le> 0 then scores
      else map (\<lambda>i. let start = (if i \<ge> window then i - window else 0);
                        end = min (length scores) (i + window + 1)
                    in if strategy = REG_AVERAGE then score_average scores start end
                       else score_min scores start end)
             [0..<length scores])"

definition StatisticsScore ::
    "(int list \<Rightarrow> mert_error + real) \<Rightarrow> ScorerRegularisationStrategy \<Rightarrow> nat \<Rightarrow> score_data option \<Rightarrow>
      candidates \<Rightarrow> diff_seq \<Rightarrow> mert_error + real list" where
  "StatisticsScore calculateScore strategy window scoreData candidates diff_seq =
     (case scoreData of
        None \<Rightarrow> Inl Score_data_not_loaded
      | Some dat \<Rightarrow>
          if length dat = 0 then Inl Score_data_empty
          else if length candidates = 0 then Inl No_candidates
          else bindE (score_get dat 0 (candidates ! 0)) (\<lambda>first.
               bindE (foldE (add_candidate dat candidates) [0..<length candidates] (replicate (length first) 0)) (\<lambda>totals.
               bindE (calculateScore totals) (\<lambda>s.
               bindE (foldE (score_diff calculateScore dat) diff_seq ((totals, candidates), [s])) (\<lambda>st.
               Inr (regularise strategy window (snd st)))))))"

text \<open>The specification: the totals of a vector of candidates, and the vectors the diff_seq lead through.\<close>

definition totals_of :: "score_data \<Rightarrow> nat \<Rightarrow> candidates \<Rightarrow> int list" where
  "totals_of dat n v = map (\<lambda>k. \<Sum>i<length v. dat ! i ! (v ! i) ! k) [0..<n]"

definition change_candidates :: "candidates \<Rightarrow> (nat \<times> nat) list \<Rightarrow> candidates" where
  "change_candidates v changes = fold (\<lambda>(sid, nid) v. v[sid := nid]) changes v"

fun candidate_vectors :: "candidates \<Rightarrow> diff_seq \<Rightarrow> candidates list" where
  "candidate_vectors v [] = [v]"
| "candidate_vectors v (d # ds) = v # candidate_vectors (change_candidates v d) ds"

definition data_ok :: "nat \<Rightarrow> score_data \<Rightarrow> bool" where
  "data_ok n dat \<longleftrightarrow> (\<forall>stats\<in>set dat. \<forall>s\<in>set stats. length s = n)"

definition candidates_ok :: "score_data \<Rightarrow> candidates \<Rightarrow> bool" where
  "candidates_ok dat v \<longleftrightarrow> length v \<le> length dat \<and> (\<forall>i<length v. v ! i < length (dat ! i))"

definition change_ok :: "score_data \<Rightarrow> nat \<Rightarrow> nat \<times> nat \<Rightarrow> bool" where
  "change_ok dat m change \<longleftrightarrow> fst change < m \<and> snd change < length (dat ! fst change)"

lemma data_ok_length: "data_ok n dat \<Longrightarrow> i < length dat \<Longrightarrow> j < length (dat ! i) \<Longrightarrow> length (dat ! i ! j) = n"
  unfolding data_ok_def by (meson nth_mem)

lemma length_totals_of [simp]: "length (totals_of dat n v) = n"
  by (simp add: totals_of_def)

lemma add_candidates:
  assumes "data_ok n dat" "candidates_ok dat v" "m \<le> length v"
  shows "foldE (add_candidate dat v) [0..<m] (replicate n 0) =
    Inr (map (\<lambda>k. \<Sum>i<m. dat ! i ! (v ! i) ! k) [0..<n])"
  using assms(3)
proof (induction m)
  case 0
  then show ?case by (simp add: map_replicate_const)
next
  case (Suc m)
  then have m: "m < length dat" "v ! m < length (dat ! m)" using assms(2) by (auto simp: candidates_ok_def)
  show ?case using Suc m data_ok_length [OF assms(1) m]
    by (simp add: foldE_append add_candidate_def score_get_def)
qed

lemma apply_change_totals:
  assumes "data_ok n dat" "candidates_ok dat v" "change_ok dat (length v) (sid, nid)"
  shows "apply_change dat (sid, nid) (totals_of dat n v, v) = Inr (totals_of dat n (v[sid := nid]), v[sid := nid])"
    "candidates_ok dat (v[sid := nid])"
proof -
  have sid: "sid < length v" "nid < length (dat ! sid)" "v ! sid < length (dat ! sid)" "sid < length dat"
    using assms(2,3) by (auto simp: candidates_ok_def change_ok_def)
  have sum: "(\<Sum>i<length v. f i (v[sid := nid] ! i)) = (\<Sum>i<length v. f i (v ! i)) + (f sid nid - f sid (v ! sid))"
    for f :: "nat \<Rightarrow> nat \<Rightarrow> int"
  proof -
    have rest: "(\<Sum>i\<in>{..<length v} - {sid}. f i (v[sid := nid] ! i)) = (\<Sum>i\<in>{..<length v} - {sid}. f i (v ! i))"
      by (rule sum.cong) auto
    show ?thesis using sid(1) rest
      by (simp add: sum.remove [of "{..<length v}" sid])
  qed
  show "apply_change dat (sid, nid) (totals_of dat n v, v) = Inr (totals_of dat n (v[sid := nid]), v[sid := nid])"
    using sid by (cases "n = 0")
      (simp_all add: apply_change_def score_get_def totals_of_def sum [of "\<lambda>i j. dat ! i ! j ! _"])
  show "candidates_ok dat (v[sid := nid])" using assms(2) sid by (auto simp: candidates_ok_def nth_list_update)
qed

lemma apply_changes_totals:
  assumes "data_ok n dat" "candidates_ok dat v" "\<forall>c\<in>set changes. change_ok dat (length v) c"
  shows "foldE (apply_change dat) changes (totals_of dat n v, v) =
      Inr (totals_of dat n (change_candidates v changes), change_candidates v changes) \<and>
    candidates_ok dat (change_candidates v changes) \<and> length (change_candidates v changes) = length v"
  using assms(2,3)
proof (induction changes arbitrary: v)
  case Nil
  then show ?case by (simp add: change_candidates_def)
next
  case (Cons c changes)
  obtain sid nid where c: "c = (sid, nid)" by (cases c)
  have ok: "change_ok dat (length v) (sid, nid)" using Cons.prems(2) c by simp
  note st = apply_change_totals [OF assms(1) Cons.prems(1) ok]
  from Cons.IH [OF st(2)] Cons.prems(2) st(1) show ?case by (simp add: c change_candidates_def)
qed

lemma score_diffs_totals:
  assumes "data_ok n dat" "candidates_ok dat v" "\<forall>d\<in>set diff_seq. \<forall>c\<in>set d. change_ok dat (length v) c"
    and "\<And>t. calc t = Inr (f t)"
  shows "\<exists>st. foldE (score_diff calc dat) diff_seq ((totals_of dat n v, v), ss @ [f (totals_of dat n v)]) = Inr st \<and>
    snd st = ss @ map (\<lambda>v. f (totals_of dat n v)) (candidate_vectors v diff_seq)"
  using assms(2,3)
proof (induction diff_seq arbitrary: v ss)
  case Nil
  then show ?case by simp
next
  case (Cons d diff_seq)
  let ?v = "change_candidates v d"
  have a: "foldE (apply_change dat) d (totals_of dat n v, v) = Inr (totals_of dat n ?v, ?v)"
    "candidates_ok dat ?v" "length ?v = length v"
    using apply_changes_totals [OF assms(1) Cons.prems(1), of d] Cons.prems(2) by simp_all
  show ?case
    using Cons.IH [OF a(2), of "ss @ [f (totals_of dat n v)]"] Cons.prems(2) a
    by (simp add: score_diff_def assms(4))
qed



lemma StatisticsScore_unregularised:
  assumes "data_ok n dat" "candidates_ok dat v" "v \<noteq> []"
    and "\<forall>d\<in>set diff_seq. \<forall>c\<in>set d. change_ok dat (length v) c" "\<And>t. calc t = Inr (f t)"
  shows "StatisticsScore calc strategy window (Some dat) v diff_seq =
    Inr (regularise strategy window (map (\<lambda>v. f (totals_of dat n v)) (candidate_vectors v diff_seq)))"
proof -
  have 0: "0 < length dat" "v ! 0 < length (dat ! 0)" using assms(2,3) by (cases v; force simp: candidates_ok_def)+
  then have first: "length (dat ! 0 ! (v ! 0)) = n" by (rule data_ok_length [OF assms(1)])
  have tot: "foldE (add_candidate dat v) [0..<length v] (replicate n 0) = Inr (totals_of dat n v)"
    using add_candidates [OF assms(1,2) order_refl] by (simp only: totals_of_def)
  obtain st where "foldE (score_diff calc dat) diff_seq ((totals_of dat n v, v), [f (totals_of dat n v)]) = Inr st"
    "snd st = map (\<lambda>v. f (totals_of dat n v)) (candidate_vectors v diff_seq)"
    using score_diffs_totals [where calc = calc and f = f and ss = "[]", OF assms(1,2,4,5)] by auto
  then show ?thesis
    using 0 first tot assms(3,5) by (simp add: StatisticsScore_def score_get_def)
qed

lemma length_candidate_vectors [simp]: "length (candidate_vectors v diff_seq) = Suc (length diff_seq)"
  by (induction v diff_seq rule: candidate_vectors.induct) simp_all

lemma candidate_vectors_ok:
  assumes "data_ok n dat" "candidates_ok dat v" "\<forall>d\<in>set diff_seq. \<forall>c\<in>set d. change_ok dat (length v) c"
    and "w \<in> set (candidate_vectors v diff_seq)"
  shows "candidates_ok dat w \<and> length w = length v"
  using assms(2-4)
proof (induction v diff_seq rule: candidate_vectors.induct)
  case (1 v)
  then show ?case by simp
next
  case (2 v d ds)
  have "candidates_ok dat (change_candidates v d)" "length (change_candidates v d) = length v"
    using apply_changes_totals [OF assms(1) "2.prems"(1), of d] "2.prems"(2) by simp_all
  with 2 show ?case by auto
qed

text \<open>C20: The scores of a sequence of changes, computed from the differences of the statistics, are the
  scores the successive vectors of candidates get when each is scored from scratch.
\<close>

theorem incremental_scores_equal_scores_from_scratch:
  assumes "data_ok n dat" "candidates_ok dat v" "v \<noteq> []"
    and "\<forall>d\<in>set diff_seq. \<forall>c\<in>set d. change_ok dat (length v) c" "\<And>t. calc t = Inr (f t)"
  shows "\<exists>scores. StatisticsScore calc REG_NONE window (Some dat) v diff_seq = Inr scores \<and>
    length scores = Suc (length diff_seq) \<and>
    (\<forall>i<length scores. StatisticsScore calc REG_NONE window (Some dat) (candidate_vectors v diff_seq ! i) [] =
      Inr [scores ! i])"
proof -
  let ?V = "candidate_vectors v diff_seq"
  let ?scores = "map (\<lambda>v. f (totals_of dat n v)) ?V"
  have "StatisticsScore calc REG_NONE window (Some dat) (?V ! i) [] = Inr [?scores ! i]" if "i < length ?scores" for i
  proof -
    have "?V ! i \<in> set ?V" using that by simp
    from candidate_vectors_ok [OF assms(1,2,4) this] assms(3)
    have "candidates_ok dat (?V ! i)" "?V ! i \<noteq> []" by auto
    from StatisticsScore_unregularised [OF assms(1) this, of "[]" calc f] assms(5) that
    show ?thesis by (simp add: regularise_def)
  qed
  moreover have "StatisticsScore calc REG_NONE window (Some dat) v diff_seq = Inr ?scores"
    using StatisticsScore_unregularised [where calc = calc and f = f, OF assms] by (simp add: regularise_def)
  ultimately show ?thesis by (intro exI [of _ ?scores]) simp
qed

theorem incremental_scores_equal_scores_from_scratch_witness:
  "\<exists>scores. StatisticsScore (\<lambda>t. Inr (real_of_int (t ! 0))) REG_NONE 0
      (Some [[[1, 2], [3, 4]], [[5, 6], [0, 1]]]) [0, 0] [[(0, 1)], [(1, 1)]] = Inr scores \<and>
    length scores = 3"
  using incremental_scores_equal_scores_from_scratch [of 2 "[[[1, 2], [3, 4]], [[5, 6], [0, 1]]]" "[0, 0]"
      "[[(0, 1)], [(1, 1)]]" "\<lambda>t. Inr (real_of_int (t ! 0))" "\<lambda>t. real_of_int (t ! 0)" 0]
  by (auto simp: data_ok_def candidates_ok_def change_ok_def less_Suc_eq)

text \<open>With the minimum strategy a score becomes the least raw score within the window.\<close>

lemma score_min_Min:
  assumes "start < end" "\<forall>i<length scores. scores ! i \<le> FLT_MAX" "end \<le> length scores"
  shows "score_min scores start end = Min ((!) scores ` {start..<end})"
proof -
  have "fold (\<lambda>i m. if scores ! i < m then scores ! i else m) [start..<e] FLT_MAX =
      (if start < e then Min ((!) scores ` {start..<e}) else FLT_MAX)" if "e \<le> length scores" for e
    using that
  proof (induction e)
    case 0
    then show ?case by simp
  next
    case (Suc e)
    have top: "scores ! e \<le> FLT_MAX" using assms(2) Suc.prems by simp
    show ?case
    proof (cases "start < e")
      case True
      then have "{start..<Suc e} = insert e {start..<e}" by auto
      then have "Min ((!) scores ` {start..<Suc e}) = min (scores ! e) (Min ((!) scores ` {start..<e}))"
        using True by (simp del: Min_less_iff Min_le_iff)
      then show ?thesis using Suc True by (simp add: min_def del: Min_less_iff Min_le_iff Min_gr_iff Min_ge_iff)
    next
      case False
      then show ?thesis using top by (cases "start = e") auto
    qed
  qed
  from this [OF assms(3)] show ?thesis using assms(1) by (simp add: score_min_def)
qed

theorem regularised_minimum:
  assumes "REG_MINIMUM = strategy" "0 < window" "i < length scores" "\<forall>i<length scores. scores ! i \<le> FLT_MAX"
  shows "regularise strategy window scores ! i =
    Min ((!) scores ` {j. j < length scores \<and> i \<le> j + window \<and> j \<le> i + window})"
proof -
  have "{j. j < length scores \<and> i \<le> j + window \<and> j \<le> i + window} =
      {(if i \<ge> window then i - window else 0)..<min (length scores) (i + window + 1)}" by auto
  then show ?thesis using assms
    by (auto simp: regularise_def Let_def intro!: score_min_Min)
qed

theorem regularised_minimum_witness:
  "regularise REG_MINIMUM 1 [3, 1, 2] ! 2 =
    Min ((!) [3, 1, 2] ` {j. j < length [3, 1, 2 :: real] \<and> 2 \<le> j + 1 \<and> j \<le> 2 + 1})"
proof -
  have "\<forall>i<length [3, 1, 2 :: real]. [3, 1, 2] ! i \<le> FLT_MAX"
    by (simp add: FLT_MAX_def less_Suc_eq numeral_eq_Suc)
  from regularised_minimum [OF refl _ _ this, of 1 2] show ?thesis by (simp del: One_nat_def)
qed



end
