(* ===== verification/Mert_Cder.thy ===== *)
theory Mert_Cder
  imports Mert_Scorers
begin

text \<open>
  The CDER scorer (\<open>mert/CderScorer.cpp\<close>): the cost of the cheapest path through the
  alignment grid of a candidate and a reference, where a long jump to any position of the
  candidate costs one, computed row by row, and the choice among the references.
\<close>

section \<open>The rows of the grid\<close>

definition word_distance :: "int \<Rightarrow> int \<Rightarrow> int" where
  "word_distance word1 word2 = (if word1 = word2 then 0 else 1)"

definition possible_costs :: "int list \<Rightarrow> int \<Rightarrow> int list \<Rightarrow> int list \<Rightarrow> nat \<Rightarrow> int list" where
  "possible_costs cand w row nextRow i =
     (if i > 0 then [nextRow ! (i - 1) + 1, row ! (i - 1) + word_distance w (cand ! (i - 1))] else []) @
     [row ! i + 1]"

definition fill_row :: "int list \<Rightarrow> int \<Rightarrow> int list \<Rightarrow> nat \<Rightarrow> int list" where
  "fill_row cand w row n =
     fold (\<lambda>i nextRow. nextRow[i := Min (set (possible_costs cand w row nextRow i))]) [0..<n]
       (replicate (length cand + 1) 0)"

definition cder_next_row :: "int list \<Rightarrow> int \<Rightarrow> int list \<Rightarrow> int list" where
  "cder_next_row cand w row =
     (let nextRow = fill_row cand w row (length cand + 1);
          LJ = 1 + Min (set nextRow)
      in map (\<lambda>c. min c LJ) nextRow)"

definition cder_rows :: "int list \<Rightarrow> int list \<Rightarrow> nat \<Rightarrow> int list" where
  "cder_rows cand ref n =
     fold (\<lambda>l. cder_next_row cand (ref ! (l - 1))) [1..<n + 1] (0 # replicate (length cand) 1)"

definition computeCD :: "int list \<Rightarrow> int list \<Rightarrow> int list" where
  "computeCD cand ref = [last (cder_rows cand ref (length ref)), int (length ref)]"

section \<open>Paths through the grid\<close>

text \<open>
  A path ends at \<open>(i, l)\<close>, after \<open>i\<close> words of the candidate and \<open>l\<close> of the
  reference.
\<close>

inductive cder_path :: "int list \<Rightarrow> int list \<Rightarrow> nat \<Rightarrow> nat \<Rightarrow> int \<Rightarrow> bool" for cand ref where
  start: "cder_path cand ref 0 0 0"
| deletion: "cder_path cand ref i l c \<Longrightarrow> i < length cand \<Longrightarrow> cder_path cand ref (Suc i) l (c + 1)"
| substitution: "cder_path cand ref i l c \<Longrightarrow> i < length cand \<Longrightarrow> l < length ref \<Longrightarrow>
    cder_path cand ref (Suc i) (Suc l) (c + word_distance (ref ! l) (cand ! i))"
| insertion: "cder_path cand ref i l c \<Longrightarrow> l < length ref \<Longrightarrow> cder_path cand ref i (Suc l) (c + 1)"
| long_jump: "cder_path cand ref i l c \<Longrightarrow> j \<le> length cand \<Longrightarrow> cder_path cand ref j l (c + 1)"

inductive_cases cder_path_end: "cder_path cand ref i l c"

lemma cder_path_range: "cder_path cand ref i l c \<Longrightarrow> i \<le> length cand \<and> l \<le> length ref"
  by (induction rule: cder_path.induct) auto

lemma length_fill_row: "length (fill_row cand w row n) = length cand + 1"
  unfolding fill_row_def by (rule fold_invariant [where P = "\<lambda>xs. length xs = length cand + 1" and Q = "\<lambda>_. True"]) auto

lemma fill_row_Suc:
  "fill_row cand w row (Suc n) = (fill_row cand w row n)[n := Min (set (possible_costs cand w row (fill_row cand w row n) n))]"
  by (simp add: fill_row_def)

lemma fill_row_stable: "i < n \<Longrightarrow> n \<le> length cand + 1 \<Longrightarrow> fill_row cand w row n ! i = fill_row cand w row (Suc i) ! i"
proof (induction n)
  case 0
  then show ?case by simp
next
  case (Suc n)
  show ?case
  proof (cases "i = n")
    case False
    then have "fill_row cand w row (Suc n) ! i = fill_row cand w row n ! i" by (simp add: fill_row_Suc)
    then show ?thesis using Suc False by simp
  qed simp
qed

text \<open>The equation of the complete row before the long jumps.\<close>

definition raw_row :: "int list \<Rightarrow> int \<Rightarrow> int list \<Rightarrow> int list" where
  "raw_row cand w row = fill_row cand w row (length cand + 1)"

lemma raw_row_nth:
  assumes "i \<le> length cand"
  shows "raw_row cand w row ! i = Min (set (possible_costs cand w row (raw_row cand w row) i))"
proof -
  have "raw_row cand w row ! i = fill_row cand w row (Suc i) ! i"
    using fill_row_stable [of i "length cand + 1"] assms by (simp add: raw_row_def)
  also have "\<dots> = Min (set (possible_costs cand w row (fill_row cand w row i) i))"
    using assms by (simp add: fill_row_Suc length_fill_row)
  also have "possible_costs cand w row (fill_row cand w row i) i = possible_costs cand w row (raw_row cand w row) i"
  proof (cases i)
    case 0
    then show ?thesis by (simp add: possible_costs_def)
  next
    case (Suc j)
    have "fill_row cand w row i ! j = raw_row cand w row ! j"
      using fill_row_stable [of j i] fill_row_stable [of j "length cand + 1"] assms Suc by (simp add: raw_row_def)
    then show ?thesis using Suc by (simp add: possible_costs_def)
  qed
  finally show ?thesis .
qed

lemma length_raw_row [simp]: "length (raw_row cand w row) = length cand + 1"
  by (simp add: raw_row_def length_fill_row)

lemma raw_row_cases:
  assumes "i \<le> length cand"
  shows "raw_row cand w row ! i \<le> row ! i + 1"
    "0 < i \<Longrightarrow> raw_row cand w row ! i \<le> raw_row cand w row ! (i - 1) + 1"
    "0 < i \<Longrightarrow> raw_row cand w row ! i \<le> row ! (i - 1) + word_distance w (cand ! (i - 1))"
    "raw_row cand w row ! i \<in> set (possible_costs cand w row (raw_row cand w row) i)"
proof -
  let ?S = "set (possible_costs cand w row (raw_row cand w row) i)"
  have S: "finite ?S" "?S \<noteq> {}" by (simp_all add: possible_costs_def)
  note eq = raw_row_nth [OF assms, of w row]
  show "raw_row cand w row ! i \<in> ?S" using Min_in [OF S] eq by simp
  have le: "x \<in> ?S \<Longrightarrow> raw_row cand w row ! i \<le> x" for x using Min_le [OF S(1)] eq by simp
  show "raw_row cand w row ! i \<le> row ! i + 1" by (rule le) (simp add: possible_costs_def)
  show "raw_row cand w row ! i \<le> raw_row cand w row ! (i - 1) + 1" if "0 < i"
    by (rule le) (use that in \<open>simp add: possible_costs_def\<close>)
  show "raw_row cand w row ! i \<le> row ! (i - 1) + word_distance w (cand ! (i - 1))" if "0 < i"
    by (rule le) (use that in \<open>simp add: possible_costs_def\<close>)
qed

lemma cder_next_row_nth:
  assumes "i \<le> length cand"
  shows "cder_next_row cand w row ! i = min (raw_row cand w row ! i) (1 + Min (set (raw_row cand w row)))"
  using assms by (simp add: cder_next_row_def raw_row_def Let_def length_fill_row)

lemma length_cder_next_row [simp]: "length (cder_next_row cand w row) = length cand + 1"
  by (simp add: cder_next_row_def Let_def length_fill_row)

lemma cder_rows_Suc: "cder_rows cand ref (Suc n) = cder_next_row cand (ref ! n) (cder_rows cand ref n)"
  by (simp add: cder_rows_def)

lemma length_cder_rows [simp]: "length (cder_rows cand ref n) = length cand + 1"
  by (cases n) (simp_all add: cder_rows_Suc, simp add: cder_rows_def)

lemma next_row_bounds:
  fixes cand row :: "int list" and w :: int
  assumes "i \<le> length cand"
  defines "r \<equiv> cder_next_row cand w row"
  shows "r ! i \<le> row ! i + 1" "0 < i \<Longrightarrow> r ! i \<le> r ! (i - 1) + 1"
    "0 < i \<Longrightarrow> r ! i \<le> row ! (i - 1) + word_distance w (cand ! (i - 1))"
    "j \<le> length cand \<Longrightarrow> r ! i \<le> r ! j + 1"
proof -
  let ?raw = "raw_row cand w row"
  note c = raw_row_cases [OF assms(1), of w row]
  have n: "r ! k = min (?raw ! k) (1 + Min (set ?raw))" if "k \<le> length cand" for k
    using cder_next_row_nth [OF that] by (simp add: r_def)
  have m: "Min (set ?raw) \<le> ?raw ! k" if "k \<le> length cand" for k using that by (intro Min_le) simp_all
  show "r ! i \<le> row ! i + 1" using n [OF assms(1)] c(1) by simp
  show "r ! i \<le> row ! (i - 1) + word_distance w (cand ! (i - 1))" if "0 < i"
    using n [OF assms(1)] c(3) [OF that] by simp
  show jump: "r ! i \<le> r ! j + 1" if "j \<le> length cand" for j
  proof -
    have "r ! i \<le> 1 + Min (set ?raw)" using n [OF assms(1)] by simp
    moreover have "Min (set ?raw) \<le> r ! j" using n [OF that] m [OF that] by simp
    ultimately show ?thesis by linarith
  qed
  then show "r ! i \<le> r ! (i - 1) + 1" if "0 < i" using assms(1) by simp
qed

lemma cder_rows_0: "i \<le> length cand \<Longrightarrow> cder_rows cand ref 0 ! i = (if i = 0 then 0 else 1)"
  by (cases i) (simp_all add: cder_rows_def)

lemma cder_rows_bounds:
  assumes "i \<le> length cand" "j \<le> length cand"
  shows "cder_rows cand ref l ! i \<le> cder_rows cand ref l ! j + 1"
    "0 < i \<Longrightarrow> cder_rows cand ref l ! i \<le> cder_rows cand ref l ! (i - 1) + 1"
proof -
  have *: "cder_rows cand ref l ! i \<le> cder_rows cand ref l ! j + 1" if "j \<le> length cand" for j
  proof (cases l)
    case 0
    then show ?thesis using assms(1) that by (simp add: cder_rows_0)
  next
    case (Suc k)
    then show ?thesis using next_row_bounds(4) [OF assms(1) that] by (simp add: cder_rows_Suc)
  qed
  show "cder_rows cand ref l ! i \<le> cder_rows cand ref l ! j + 1" using assms(2) by (rule * )
  show "cder_rows cand ref l ! i \<le> cder_rows cand ref l ! (i - 1) + 1" if "0 < i" using * [of "i - 1"] assms(1) by simp
qed

lemma cder_rows_lower: "cder_path cand ref i l c \<Longrightarrow> cder_rows cand ref l ! i \<le> c"
proof (induction rule: cder_path.induct)
  case start
  then show ?case by (simp add: cder_rows_0)
next
  case (deletion i l c)
  then show ?case using cder_rows_bounds(2) [of "Suc i" cand 0 ref l] by simp
next
  case (substitution i l c)
  then show ?case using next_row_bounds(3) [of "Suc i" cand "ref ! l" "cder_rows cand ref l"]
    by (simp add: cder_rows_Suc)
next
  case (insertion i l c)
  have "i \<le> length cand" using cder_path_range [OF insertion(1)] by simp
  then show ?case using insertion next_row_bounds(1) [of i cand "ref ! l" "cder_rows cand ref l"]
    by (simp add: cder_rows_Suc)
next
  case (long_jump i l c j)
  have "i \<le> length cand" using cder_path_range [OF long_jump(1)] by simp
  then show ?case using cder_rows_bounds(1) [OF long_jump(2), of i ref l] long_jump by simp
qed

lemma raw_row_path:
  assumes "\<And>i. i \<le> length cand \<Longrightarrow> cder_path cand ref i l (row ! i)" "l < length ref" "i \<le> length cand"
  shows "cder_path cand ref i (Suc l) (raw_row cand (ref ! l) row ! i)"
  using assms(3)
proof (induction i)
  case 0
  have "raw_row cand (ref ! l) row ! 0 = row ! 0 + 1"
    using raw_row_cases(4) [of 0 cand "ref ! l" row] by (simp add: possible_costs_def)
  then show ?case using insertion [OF assms(1) assms(2)] by simp
next
  case (Suc i)
  have "raw_row cand (ref ! l) row ! Suc i \<in>
      {raw_row cand (ref ! l) row ! i + 1, row ! i + word_distance (ref ! l) (cand ! i), row ! Suc i + 1}"
    using raw_row_cases(4) [OF Suc.prems, of "ref ! l" row] by (simp add: possible_costs_def)
  then show ?case
    using deletion [OF Suc.IH] substitution [OF assms(1), of i] insertion [OF assms(1) [OF Suc.prems] assms(2)]
      Suc.prems assms(2) by auto
qed

lemma cder_rows_path:
  "l \<le> length ref \<Longrightarrow> i \<le> length cand \<Longrightarrow> cder_path cand ref i l (cder_rows cand ref l ! i)"
proof (induction l arbitrary: i)
  case 0
  show ?case
  proof (cases i)
    case 0
    then show ?thesis by (simp add: cder_rows_0 start)
  next
    case (Suc k)
    then show ?thesis using long_jump [OF start, of i cand ref] 0 by (simp add: cder_rows_0)
  qed
next
  case (Suc l)
  let ?raw = "raw_row cand (ref ! l) (cder_rows cand ref l)"
  have raw: "cder_path cand ref k (Suc l) (?raw ! k)" if "k \<le> length cand" for k
    by (rule raw_row_path) (use Suc that in auto)
  have "Min (set ?raw) \<in> set ?raw" by (intro Min_in) (simp_all flip: length_greater_0_conv)
  then obtain j where j: "j \<le> length cand" "Min (set ?raw) = ?raw ! j" by (auto simp: in_set_conv_nth less_Suc_eq_le)
  show ?case
    using raw [OF Suc.prems(2)] long_jump [OF raw [OF j(1)] Suc.prems(2)] j(2)
    by (simp add: cder_rows_Suc cder_next_row_nth [OF Suc.prems(2)] min_def add.commute)
qed

lemma computeCD_0: "computeCD cand ref ! 0 = cder_rows cand ref (length ref) ! length cand"
proof -
  have "cder_rows cand ref (length ref) \<noteq> []" by (simp flip: length_greater_0_conv)
  then show ?thesis by (simp add: computeCD_def last_conv_nth)
qed

text \<open>C24: The distance the rows compute is the cost of the cheapest path from the start of both sentences
  to their ends.
\<close>

theorem cder_distance_is_cheapest_path:
  "cder_path cand ref (length cand) (length ref) (computeCD cand ref ! 0) \<and>
    (\<forall>c. cder_path cand ref (length cand) (length ref) c \<longrightarrow> computeCD cand ref ! 0 \<le> c)"
  using cder_rows_path [of "length ref" ref "length cand" cand] cder_rows_lower [of cand ref "length cand" "length ref"]
  by (auto simp: computeCD_0)

theorem cder_distance_is_cheapest_path_witness:
  "cder_path [1, 2, 3, 4] [3, 4, 1, 2] 4 4 3 \<and> \<not> cder_path [1, 2, 3, 4] [3, 4, 1, 2] 4 4 2"
proof -
  have "computeCD [1, 2, 3, 4] [3, 4, 1, 2] ! 0 = 3" by code_simp
  then show ?thesis using cder_distance_is_cheapest_path [of "[1, 2, 3, 4]" "[3, 4, 1, 2]"] by (auto simp: eval_nat_numeral)
qed

section \<open>The choice among the references\<close>

record cder_scorer =
  cder_preserveCase :: bool
  cder_encodings :: encodings
  ref_sentences :: "int list list list"

definition cder_reference_line :: "string \<Rightarrow> cder_scorer \<times> int list list \<Rightarrow> cder_scorer \<times> int list list" where
  "cder_reference_line line st =
     (let (s, sentences) = st;
          (e, encoded) = encode (cder_preserveCase s) line (cder_encodings s)
      in (s\<lparr>cder_encodings := e\<rparr>, sentences @ [encoded]))"

definition cder_reference_file :: "text_file \<Rightarrow> cder_scorer \<Rightarrow> mert_error + cder_scorer" where
  "cder_reference_file file s =
     (case snd file of
        None \<Rightarrow> Inl (Unable_to_open (fst file))
      | Some lines \<Rightarrow>
          let (s, sentences) = fold cder_reference_line lines (s, [])
          in Inr (s\<lparr>ref_sentences := ref_sentences s @ [sentences]\<rparr>))"

definition CderSetReferenceFiles :: "text_file list \<Rightarrow> cder_scorer \<Rightarrow> mert_error + cder_scorer" where
  "CderSetReferenceFiles referenceFiles s = foldE cder_reference_file referenceFiles (s\<lparr>ref_sentences := []\<rparr>)"

text \<open>The score, \<open>None\<close> for the non-finite quotient of an empty reference.\<close>

definition CderCalculateScore :: "int list \<Rightarrow> mert_error + rat option" where
  "CderCalculateScore comps =
     (if length comps \<noteq> 2 then Inl Stat_vector_not_two
      else Inr (if comps ! 1 = 0 then None else Some (1 - of_int (comps ! 0) / of_int (comps ! 1))))"

text \<open>
  One turn of the loop over the references; \<open>max\<close> is \<open>-2\<close> throughout, since the
  code never assigns it, and a comparison with a non-finite value is false. The access to the
  sentence is checked here.
\<close>

definition cder_try_reference ::
    "int list \<Rightarrow> nat \<Rightarrow> int list list \<Rightarrow> int list \<Rightarrow> mert_error + int list" where
  "cder_try_reference cand sid sentences stats =
     (if sid \<ge> length sentences then Inl (Out_of_range sid)
      else let tmp = computeCD cand (sentences ! sid); max = -2
           in bindE (CderCalculateScore tmp) (\<lambda>score.
                Inr (case score of Some x \<Rightarrow> if x > max then tmp else stats | None \<Rightarrow> stats)))"

definition CderPrepareStatsVector :: "nat \<Rightarrow> string \<Rightarrow> cder_scorer \<Rightarrow> mert_error + (int list \<times> cder_scorer)" where
  "CderPrepareStatsVector sid txt s =
     (let (e, cand) = encode (cder_preserveCase s) txt (cder_encodings s)
      in bindE (foldE (cder_try_reference cand sid) (ref_sentences s) []) (\<lambda>stats.
           Inr (stats, s\<lparr>cder_encodings := e\<rparr>)))"

lemma cder_distance_bounds:
  "0 \<le> computeCD cand ref ! 0 \<and> computeCD cand ref ! 0 \<le> int (length ref) + 1"
proof -
  have "0 \<le> c" if "cder_path cand ref i l c" for i l c
    using that by (induction rule: cder_path.induct) (auto simp: word_distance_def)
  then have "0 \<le> computeCD cand ref ! 0" using cder_rows_path [of "length ref" ref "length cand" cand] by (simp add: computeCD_0)
  moreover have "cder_path cand ref 0 l (int l)" if "l \<le> length ref" for l
    using that
  proof (induction l)
    case 0
    then show ?case using start by simp
  next
    case (Suc l)
    then show ?case using insertion [of cand ref 0 l "int l"] by (simp add: add.commute)
  qed
  from long_jump [OF this [OF order_refl] order_refl]
  have "computeCD cand ref ! 0 \<le> int (length ref) + 1" unfolding computeCD_0 by (rule cder_rows_lower)
  ultimately show ?thesis by simp
qed

lemma cder_try_reference_takes:
  assumes "sid < length sentences" "sentences ! sid \<noteq> []"
  shows "cder_try_reference cand sid sentences stats = Inr (computeCD cand (sentences ! sid))"
proof -
  let ?r = "sentences ! sid" and ?c = "computeCD cand (sentences ! sid) ! 0"
  have r: "0 < int (length ?r)" using assms(2) by simp
  have "?c < 3 * int (length ?r)" using cder_distance_bounds [of cand ?r] r by linarith
  then have "(of_int ?c :: rat) < of_int (3 * int (length ?r))" by (simp only: of_int_less_iff)
  then have "(of_int ?c :: rat) < 3 * of_int (int (length ?r))" by simp
  moreover have "0 < (of_int (int (length ?r)) :: rat)" using r by (simp only: of_int_0_less_iff)
  ultimately have "(of_int ?c :: rat) / of_int (int (length ?r)) < 3" by (simp only: pos_divide_less_eq)
  moreover have "computeCD cand ?r ! 1 = int (length ?r)" "length (computeCD cand ?r) = 2" by (simp_all add: computeCD_def)
  ultimately show ?thesis using assms r by (simp add: cder_try_reference_def CderCalculateScore_def)
qed

text \<open>Whatever the candidate, its statistics are those against the reference of the last file, even
  when another reference is closer: the running maximum of the loop is never updated.
\<close>

theorem cder_uses_only_the_last_reference:
  assumes "ref_sentences s = others @ [sentences]" "\<forall>r\<in>set (ref_sentences s). sid < length r"
    and "sentences ! sid \<noteq> []"
  shows "\<exists>s'. CderPrepareStatsVector sid txt s =
    Inr (computeCD (snd (encode (cder_preserveCase s) txt (cder_encodings s))) (sentences ! sid), s')"
proof -
  obtain e cand where e: "encode (cder_preserveCase s) txt (cder_encodings s) = (e, cand)"
    by (cases "encode (cder_preserveCase s) txt (cder_encodings s)")
  have "\<exists>stats'. foldE (cder_try_reference cand sid) rs stats = Inr stats'" if "\<forall>r\<in>set rs. sid < length r" for rs stats
    using that
  proof (induction rs arbitrary: stats)
    case Nil
    then show ?case by simp
  next
    case (Cons r rs)
    have "\<exists>t. cder_try_reference cand sid r stats = Inr t"
      using Cons.prems by (simp add: cder_try_reference_def CderCalculateScore_def computeCD_def Let_def)
    then show ?case using Cons by auto
  qed
  then obtain stats where "foldE (cder_try_reference cand sid) others [] = Inr stats" using assms(1,2) by fastforce
  then have "foldE (cder_try_reference cand sid) (ref_sentences s) [] = Inr (computeCD cand (sentences ! sid))"
    using assms by (simp add: foldE_append cder_try_reference_takes)
  then show ?thesis using e by (simp add: CderPrepareStatsVector_def)
qed

definition example_cder :: cder_scorer where
  "example_cder = \<lparr>cder_preserveCase = True, cder_encodings = [(''a'', 0), (''b'', 1), (''c'', 2)],
     ref_sentences = [[[0, 1]], [[2, 2, 2]]]\<rparr>"

theorem cder_uses_only_the_last_reference_witness:
  "\<exists>s'. CderPrepareStatsVector 0 ''a b'' example_cder = Inr ([3, 3], s')"
proof -
  have c: "computeCD (snd (encode (cder_preserveCase example_cder) ''a b'' (cder_encodings example_cder)))
      ([[2, 2, 2]] ! 0) = [3, 3]" by code_simp
  have "ref_sentences example_cder = [[[0, 1]]] @ [[[2, 2, 2]]]" "\<forall>r\<in>set (ref_sentences example_cder). 0 < length r"
    by (simp_all add: example_cder_def)
  from cder_uses_only_the_last_reference [OF this, of "''a b''"] show ?thesis unfolding c by simp
qed

end
