(* ===== verification/Mert_Optimizer.thy ===== *)
theory Mert_Optimizer
  imports Mert_Scorers
begin

text \<open>
  The line search of the minimum error rate training (\<open>mert/Optimizer.cpp\<close>,
  \<open>Point.cpp\<close>): the score of every candidate is a linear function of the position on a
  line of weights, so the best candidate of a sentence changes at the corners of an upper
  envelope; the corners of all sentences cut the line into intervals of constant translations,
  whose error scores are computed incrementally, and the best interval gives the new weights.

  Weights and feature values are rational numbers; a float overflow of an intersection is kept,
  rounding is not modelled.
\<close>

section \<open>Points\<close>

record point_space =
  optindices :: "nat list"
  fixedweights :: "(nat \<times> rat) list"

record point =
  weights :: "rat list"
  point_score :: real

definition OptimizeAll :: "point_space \<Rightarrow> bool" where
  "OptimizeAll sp \<longleftrightarrow> fixedweights sp = []"

text \<open>The value of the feature function of a candidate.\<close>

definition feature_value :: "point_space \<Rightarrow> rat list \<Rightarrow> rat list \<Rightarrow> rat" where
  "feature_value sp p F =
     (if OptimizeAll sp then (\<Sum>i\<leftarrow>[0..<length p]. p ! i * F ! i)
      else (\<Sum>i\<leftarrow>[0..<length p]. p ! i * F ! (optindices sp ! i)) + (\<Sum>(k, w)\<leftarrow>fixedweights sp. w * F ! k))"

definition point_plus :: "point \<Rightarrow> point \<Rightarrow> point" where
  "point_plus p1 p2 = p1\<lparr>weights := map (\<lambda>i. weights p1 ! i + weights p2 ! i) [0..<length (weights p1)],
     point_score := FLT_MAX\<rparr>"

definition point_scale :: "point \<Rightarrow> rat \<Rightarrow> point" where
  "point_scale p l = p\<lparr>weights := map (\<lambda>w. w * l) (weights p), point_score := FLT_MAX\<rparr>"

section \<open>The upper envelope of a sentence\<close>

definition MAX_FLOAT :: rat where
  "MAX_FLOAT = (2 - 1 / 2 ^ 23) * 2 ^ 127"

definition MIN_FLOAT :: rat where
  "MIN_FLOAT = - MAX_FLOAT"

definition min_int :: rat where
  "min_int = 1 / 10000"

definition intersect :: "rat \<Rightarrow> rat \<Rightarrow> rat \<Rightarrow> rat \<Rightarrow> rat" where
  "intersect m1 b1 m2 b2 =
     (let isect = (b2 - b1) / (m1 - m2)
      in if m1 = m2 \<or> \<bar>isect\<bar> > MAX_FLOAT then MAX_FLOAT else isect)"

text \<open>
  The candidates sorted by their gradient (a multimap keeps the order of insertion of equal
  keys), and the positions in that order.
\<close>

type_synonym gradients = "(rat \<times> nat) list"

definition gradients_of :: "point_space \<Rightarrow> rat list \<Rightarrow> rat list list \<Rightarrow> gradients" where
  "gradients_of sp direction feats =
     sort_key fst (map (\<lambda>j. (feature_value sp direction (feats ! j), j)) [0..<length feats])"

definition slope :: "gradients \<Rightarrow> nat \<Rightarrow> rat" where
  "slope g p = fst (g ! p)"

definition level :: "rat list \<Rightarrow> gradients \<Rightarrow> nat \<Rightarrow> rat" where
  "level f0 g p = f0 ! snd (g ! p)"

definition highest_start :: "rat list \<Rightarrow> gradients \<Rightarrow> nat" where
  "highest_start f0 g =
     fold (\<lambda>q highest. if level f0 g q > level f0 g highest then q else highest)
       [1..<1 + length (takeWhile (\<lambda>e. fst e = slope g 0) (tl g))] 0"

definition leftmost_step :: "rat list \<Rightarrow> gradients \<Rightarrow> nat \<Rightarrow> nat \<Rightarrow> rat \<times> nat \<Rightarrow> rat \<times> nat" where
  "leftmost_step f0 g p q st =
     (let (leftmostx, leftmost) = st
      in if slope g p \<noteq> slope g q
         then let curintersect = intersect (slope g p) (level f0 g p) (slope g q) (level f0 g q)
              in if curintersect \<le> leftmostx then (curintersect, q) else (leftmostx, leftmost)
         else (leftmostx, leftmost))"

definition leftmost_intersection :: "rat list \<Rightarrow> gradients \<Rightarrow> nat \<Rightarrow> rat \<times> nat" where
  "leftmost_intersection f0 g p = fold (leftmost_step f0 g p) [p + 1..<length g] (MAX_FLOAT, p)"

lemma intersect_le_MAX: "intersect m1 b1 m2 b2 \<le> MAX_FLOAT"
  by (auto simp: intersect_def Let_def not_less abs_le_iff simp del: abs_divide)

text \<open>The state after the positions up to \<open>n\<close>: the last of the leftmost intersections.\<close>

definition crossing :: "rat list \<Rightarrow> gradients \<Rightarrow> nat \<Rightarrow> nat \<Rightarrow> rat" where
  "crossing f0 g p q = intersect (slope g p) (level f0 g p) (slope g q) (level f0 g q)"

definition leftmost_upto :: "rat list \<Rightarrow> gradients \<Rightarrow> nat \<Rightarrow> nat \<Rightarrow> rat \<times> nat \<Rightarrow> bool" where
  "leftmost_upto f0 g p n st \<longleftrightarrow>
     (if snd st = p then fst st = MAX_FLOAT \<and> (\<forall>r\<in>{p<..<n}. slope g r = slope g p)
      else snd st \<in> {p<..<n} \<and> slope g (snd st) \<noteq> slope g p \<and> fst st = crossing f0 g p (snd st) \<and>
        (\<forall>r\<in>{p<..<n}. slope g r \<noteq> slope g p \<longrightarrow> fst st \<le> crossing f0 g p r) \<and>
        (\<forall>r\<in>{p<..<n}. slope g r \<noteq> slope g p \<longrightarrow> snd st < r \<longrightarrow> fst st < crossing f0 g p r))"

lemma leftmost_step_cases:
  "leftmost_step f0 g p n (x, q) =
     (if slope g p \<noteq> slope g n \<and> crossing f0 g p n \<le> x then (crossing f0 g p n, n) else (x, q))"
  by (simp add: leftmost_step_def crossing_def Let_def)

lemma greaterThanLessThan_Suc: "p < n \<Longrightarrow> {p<..<Suc n} = insert n {p<..<n}"
  by auto

lemma leftmost_step_upto:
  assumes "leftmost_upto f0 g p n st" "p < n"
  shows "leftmost_upto f0 g p (Suc n) (leftmost_step f0 g p n st)"
proof -
  obtain x q where st: "st = (x, q)" by (cases st)
  consider (new) "slope g p \<noteq> slope g n" "crossing f0 g p n \<le> x"
    | (same) "slope g p = slope g n"
    | (right) "slope g p \<noteq> slope g n" "x < crossing f0 g p n" by linarith
  then show ?thesis
  proof cases
    case new
    have "crossing f0 g p n \<le> crossing f0 g p r" if "r \<in> {p<..<n}" "slope g r \<noteq> slope g p" for r
    proof (cases "q = p")
      case True
      then show ?thesis using assms(1) that by (simp add: leftmost_upto_def st)
    next
      case False
      then have "\<forall>r\<in>{p<..<n}. slope g r \<noteq> slope g p \<longrightarrow> x \<le> crossing f0 g p r"
        using assms(1) False unfolding leftmost_upto_def st by auto
      then have "x \<le> crossing f0 g p r" using that by blast
      then show ?thesis using new(2) by simp
    qed
    then show ?thesis using new assms(2)
      by (simp add: st leftmost_step_cases leftmost_upto_def greaterThanLessThan_Suc)
  next
    case same
    have s: "leftmost_step f0 g p n st = (x, q)" using same by (simp add: st leftmost_step_cases)
    show ?thesis
    proof (cases "q = p")
      case True
      then show ?thesis using assms(1) [unfolded st] assms(2) same [symmetric]
        unfolding s leftmost_upto_def greaterThanLessThan_Suc [OF assms(2)]
        by simp
    next
      case False
      then show ?thesis using assms(1) [unfolded st] assms(2) same [symmetric]
        unfolding s leftmost_upto_def greaterThanLessThan_Suc [OF assms(2)]
        by auto
    qed
  next
    case right
    have "q \<noteq> p" using right(2) intersect_le_MAX assms(1)
      by (auto simp: st leftmost_upto_def crossing_def not_less [symmetric])
    moreover have s: "leftmost_step f0 g p n st = (x, q)" using right by (simp add: st leftmost_step_cases)
    ultimately show ?thesis
      using right(2) assms(1) [unfolded st] assms(2) unfolding s leftmost_upto_def greaterThanLessThan_Suc [OF assms(2)] by auto
  qed
qed

lemma leftmost_intersection_upto:
  assumes "p < length g"
  shows "leftmost_upto f0 g p (length g) (leftmost_intersection f0 g p)"
proof -
  have "leftmost_upto f0 g p n (fold (leftmost_step f0 g p) [p + 1..<n] (MAX_FLOAT, p))"
    if "p < n" for n
    using that
  proof (induction n)
    case 0
    then show ?case by simp
  next
    case (Suc n)
    show ?case
    proof (cases "p = n")
      case True
      then show ?thesis by (simp add: leftmost_upto_def)
    next
      case False
      then show ?thesis using Suc leftmost_step_upto [of f0 g p n] by simp
    qed
  qed
  from this [OF assms] show ?thesis by (simp only: leftmost_intersection_def)
qed

lemma leftmost_intersection_moves:
  assumes "p < length g" "leftmost_intersection f0 g p = (x, q)" "q \<noteq> p"
  shows "p < q" "q < length g"
  using leftmost_intersection_upto [OF assms(1), of f0] assms(2,3) by (simp_all add: leftmost_upto_def)

function breakpoints :: "rat list \<Rightarrow> gradients \<Rightarrow> nat \<Rightarrow> (rat \<times> nat) list" where
  "breakpoints f0 g p =
     (if p < length g
      then let (leftmostx, leftmost) = leftmost_intersection f0 g p
           in if leftmost = p then [] else (leftmostx, leftmost) # breakpoints f0 g leftmost
      else [])"
  by pat_completeness auto
termination
  by (relation "measure (\<lambda>(f0, g, p). length g - p)")
    (auto dest: leftmost_intersection_moves [OF _ sym] intro!: diff_less_mono2)

declare breakpoints.simps [simp del]

section \<open>The envelope is the best candidate\<close>

definition line_value :: "rat list \<Rightarrow> gradients \<Rightarrow> nat \<Rightarrow> rat \<Rightarrow> rat" where
  "line_value f0 g p x = level f0 g p + slope g p * x"

definition intersections_in_range :: "rat list \<Rightarrow> gradients \<Rightarrow> bool" where
  "intersections_in_range f0 g \<longleftrightarrow>
     (\<forall>p<length g. \<forall>q<length g. slope g p \<noteq> slope g q \<longrightarrow>
        MIN_FLOAT + 1000 \<le> (level f0 g q - level f0 g p) / (slope g p - slope g q) \<and>
        (level f0 g q - level f0 g p) / (slope g p - slope g q) < MAX_FLOAT)"

fun envelope_at :: "nat \<Rightarrow> (rat \<times> nat) list \<Rightarrow> rat \<Rightarrow> nat" where
  "envelope_at p [] x = p"
| "envelope_at p ((b, q) # bs) x = (if x < b then p else envelope_at q bs x)"

text \<open>
  The line \<open>p\<close> is on the envelope from \<open>x0\<close> on: no flatter line is above it at
  \<open>x0\<close>, and every steeper one is below it there.
\<close>

definition on_envelope :: "rat list \<Rightarrow> gradients \<Rightarrow> rat \<Rightarrow> nat \<Rightarrow> bool" where
  "on_envelope f0 g x0 p \<longleftrightarrow> p < length g \<and>
     (\<forall>q<length g. if slope g q \<le> slope g p then line_value f0 g q x0 \<le> line_value f0 g p x0
        else line_value f0 g q x0 < line_value f0 g p x0)"

lemma intersect_value:
  assumes "intersections_in_range f0 g" "p < length g" "q < length g" "slope g p < slope g q"
  defines "x \<equiv> crossing f0 g p q"
  shows "line_value f0 g q y \<le> line_value f0 g p y \<longleftrightarrow> y \<le> x"
    "line_value f0 g q y < line_value f0 g p y \<longleftrightarrow> y < x"
    "MIN_FLOAT + 1000 \<le> x" "x < MAX_FLOAT"
proof -
  let ?x = "(level f0 g q - level f0 g p) / (slope g p - slope g q)"
  have r: "MIN_FLOAT + 1000 \<le> ?x" "?x < MAX_FLOAT"
    using assms(1-4) by (auto simp: intersections_in_range_def)
  then have x: "x = ?x" using assms(4) by (auto simp: x_def crossing_def intersect_def Let_def MIN_FLOAT_def abs_if)
  have e: "level f0 g q - level f0 g p = x * (slope g p - slope g q)" using assms(4) by (simp add: x)
  have "line_value f0 g q y - line_value f0 g p y = (y - x) * (slope g q - slope g p)"
    using e by (simp add: line_value_def algebra_simps)
  then have d: "line_value f0 g q y = line_value f0 g p y + (y - x) * (slope g q - slope g p)" by simp
  show "line_value f0 g q y \<le> line_value f0 g p y \<longleftrightarrow> y \<le> x"
    using assms(4) unfolding d by (simp add: mult_le_0_iff)
  show "line_value f0 g q y < line_value f0 g p y \<longleftrightarrow> y < x"
    using assms(4) unfolding d by (simp add: mult_less_0_iff)
  show "MIN_FLOAT + 1000 \<le> x" "x < MAX_FLOAT" using r x by simp_all
qed

definition sorted_gradients :: "gradients \<Rightarrow> bool" where
  "sorted_gradients g \<longleftrightarrow> (\<forall>p q. p \<le> q \<longrightarrow> q < length g \<longrightarrow> slope g p \<le> slope g q)"

lemma sorted_gradientsD: "sorted_gradients g \<Longrightarrow> q < length g \<Longrightarrow> slope g p < slope g q \<Longrightarrow> p < length g \<Longrightarrow> p < q"
  unfolding sorted_gradients_def by (meson leI not_less)

lemma flatter_stays_below:
  assumes "slope g q \<le> slope g p" "line_value f0 g q x0 \<le> line_value f0 g p x0" "x0 \<le> x"
  shows "line_value f0 g q x \<le> line_value f0 g p x"
proof -
  have "slope g q * (x - x0) \<le> slope g p * (x - x0)" using assms(1,3) by (simp add: mult_right_mono)
  then show ?thesis using assms(2) by (simp add: line_value_def algebra_simps)
qed

text \<open>
  Up to the leftmost crossing the current line is the highest; there the chosen line takes over,
  being the last of those that cross at this point.
\<close>

lemma leftmost_intersection_envelope:
  assumes "sorted_gradients g" "intersections_in_range f0 g" "on_envelope f0 g x0 p"
    and "leftmost_intersection f0 g p = (b, q)"
  shows "q = p \<Longrightarrow> x0 \<le> x \<Longrightarrow> r < length g \<Longrightarrow> line_value f0 g r x \<le> line_value f0 g p x"
    "q \<noteq> p \<Longrightarrow> x0 < b" "q \<noteq> p \<Longrightarrow> on_envelope f0 g b q" "q \<noteq> p \<Longrightarrow> b < MAX_FLOAT"
    "q \<noteq> p \<Longrightarrow> MIN_FLOAT + 1000 \<le> b"
    "q \<noteq> p \<Longrightarrow> x0 \<le> x \<Longrightarrow> x \<le> b \<Longrightarrow> r < length g \<Longrightarrow> line_value f0 g r x \<le> line_value f0 g p x"
proof -
  have p: "p < length g" using assms(3) by (simp add: on_envelope_def)
  note up = leftmost_intersection_upto [OF p, of f0, unfolded assms(4)]
  have flat: "line_value f0 g r x \<le> line_value f0 g p x" if "r < length g" "slope g r \<le> slope g p" "x0 \<le> x" for r x
    using assms(3) that flatter_stays_below [of g r p f0 x0 x] by (auto simp: on_envelope_def)
  have steep: "p < r" if "r < length g" "slope g p < slope g r" for r
    using sorted_gradientsD [OF assms(1) that] p by simp
  note cross = intersect_value [OF assms(2) p, folded crossing_def]
  show "line_value f0 g r x \<le> line_value f0 g p x" if "q = p" "x0 \<le> x" "r < length g"
  proof -
    have "slope g r \<le> slope g p"
      using up that(1,3) steep [OF that(3)] by (force simp: leftmost_upto_def)
    then show ?thesis using flat that by simp
  qed
  assume qp: "q \<noteq> p"
  have q: "p < q" "q < length g" "slope g q \<noteq> slope g p" "b = crossing f0 g p q"
    and least: "\<And>r. p < r \<Longrightarrow> r < length g \<Longrightarrow> slope g r \<noteq> slope g p \<Longrightarrow> b \<le> crossing f0 g p r"
    and strict: "\<And>r. q < r \<Longrightarrow> r < length g \<Longrightarrow> slope g r \<noteq> slope g p \<Longrightarrow> b < crossing f0 g p r"
    using up qp by (auto simp: leftmost_upto_def)
  have sq: "slope g p < slope g q"
    using assms(1) q(1-3) unfolding sorted_gradients_def by (metis less_imp_le order.not_eq_order_implies_strict)
  note cq = cross [OF q(2) sq]
  show "x0 < b"
    using assms(3) q(2,4) sq cq(2) [of x0] by (auto simp: on_envelope_def not_le)
  then have x0b: "x0 \<le> b" by simp
  show "b < MAX_FLOAT" "MIN_FLOAT + 1000 \<le> b" using cq(3,4) q(4) by simp_all
  have below: "line_value f0 g r x \<le> line_value f0 g p x" if "x0 \<le> x" "x \<le> b" "r < length g" for r x
  proof (cases "slope g r \<le> slope g p")
    case False
    then have sr: "slope g p < slope g r" by simp
    have "x \<le> crossing f0 g p r" using least [OF steep [OF that(3) sr] that(3)] sr that(2) by simp
    then show ?thesis using cross(1) [OF that(3) sr] by simp
  qed (use flat that in simp)
  show "x0 \<le> x \<Longrightarrow> x \<le> b \<Longrightarrow> r < length g \<Longrightarrow> line_value f0 g r x \<le> line_value f0 g p x" by (rule below)
  have eq: "line_value f0 g q b = line_value f0 g p b"
    using cq(1) [of b] cq(2) [of b] q(4) by auto
  show "on_envelope f0 g b q"
    unfolding on_envelope_def
  proof (intro conjI allI impI)
    show "q < length g" by (fact q)
    fix r assume r: "r < length g"
    show "if slope g r \<le> slope g q then line_value f0 g r b \<le> line_value f0 g q b
      else line_value f0 g r b < line_value f0 g q b"
    proof (cases "slope g r \<le> slope g q")
      case True
      then show ?thesis using below [OF x0b order_refl r] eq by simp
    next
      case False
      then have sr: "slope g q < slope g r" "slope g p < slope g r" using sq by simp_all
      have "q < r" using sorted_gradientsD [OF assms(1) r sr(1) q(2)] .
      then have "b < crossing f0 g p r" using strict r sr(2) by simp
      then show ?thesis using cross(2) [OF r sr(2), of b] eq False by simp
    qed
  qed
qed

lemma breakpoints_unfold:
  "p < length g \<Longrightarrow> leftmost_intersection f0 g p = (b, q) \<Longrightarrow>
    breakpoints f0 g p = (if q = p then [] else (b, q) # breakpoints f0 g q)"
  by (subst breakpoints.simps) simp

lemma envelope_is_best:
  assumes "sorted_gradients g" "intersections_in_range f0 g" "on_envelope f0 g x0 p" "x0 \<le> x" "r < length g"
  shows "line_value f0 g r x \<le> line_value f0 g (envelope_at p (breakpoints f0 g p) x) x"
  using assms
proof (induction f0 g p arbitrary: x0 rule: breakpoints.induct)
  case (1 f0 g p)
  have p: "p < length g" using "1.prems"(3) by (simp add: on_envelope_def)
  obtain b q where bq: "leftmost_intersection f0 g p = (b, q)" by (cases "leftmost_intersection f0 g p")
  note env = leftmost_intersection_envelope [OF "1.prems"(1-3) bq]
  show ?case
  proof (cases "q = p")
    case True
    then show ?thesis using env(1) [OF True "1.prems"(4,5)] breakpoints_unfold [OF p bq] by simp
  next
    case False
    have "b \<le> x \<Longrightarrow> line_value f0 g r x \<le> line_value f0 g (envelope_at q (breakpoints f0 g q) x) x"
      using "1.IH" [OF p bq [symmetric] refl False "1.prems"(1,2) env(3) [OF False] _ "1.prems"(5)] by simp
    then show ?thesis
      using env(6) [OF False "1.prems"(4) _ "1.prems"(5)] False breakpoints_unfold [OF p bq] by auto
  qed
qed

lemma breakpoints_increase:
  assumes "sorted_gradients g" "intersections_in_range f0 g" "on_envelope f0 g x0 p"
  shows "sorted_wrt (<) (x0 # map fst (breakpoints f0 g p)) \<and>
    (\<forall>e\<in>set (breakpoints f0 g p). snd e < length g \<and> MIN_FLOAT + 1000 \<le> fst e \<and> fst e < MAX_FLOAT)"
  using assms
proof (induction f0 g p arbitrary: x0 rule: breakpoints.induct)
  case (1 f0 g p)
  have p: "p < length g" using "1.prems"(3) by (simp add: on_envelope_def)
  obtain b q where bq: "leftmost_intersection f0 g p = (b, q)" by (cases "leftmost_intersection f0 g p")
  note env = leftmost_intersection_envelope [OF "1.prems" bq]
  show ?case
  proof (cases "q = p")
    case True
    then show ?thesis using breakpoints_unfold [OF p bq] by simp
  next
    case False
    note IH = "1.IH" [OF p bq [symmetric] refl False "1.prems"(1,2) env(3) [OF False]]
    have "q < length g" using env(3) [OF False] by (simp add: on_envelope_def)
    then show ?thesis
      using IH env(2,4,5) [OF False] False breakpoints_unfold [OF p bq] by (auto intro: less_trans)
  qed
qed



lemma length_gradients_of [simp]: "length (gradients_of sp direction feats) = length feats"
  by (simp add: gradients_of_def)

lemma sorted_gradients_of: "sorted_gradients (gradients_of sp direction feats)"
proof -
  have "sorted (map fst (gradients_of sp direction feats))" unfolding gradients_of_def by (rule sorted_sort_key)
  then show ?thesis by (auto simp: sorted_gradients_def slope_def sorted_iff_nth_mono)
qed

lemma gradients_of_nth:
  assumes "p < length feats"
  shows "snd (gradients_of sp direction feats ! p) < length feats"
    "slope (gradients_of sp direction feats) p =
      feature_value sp direction (feats ! snd (gradients_of sp direction feats ! p))"
proof -
  have "gradients_of sp direction feats ! p \<in> set (gradients_of sp direction feats)" using assms by (intro nth_mem) simp
  also have "\<dots> = set (map (\<lambda>j. (feature_value sp direction (feats ! j), j)) [0..<length feats])"
    by (simp only: gradients_of_def set_sort)
  finally show "snd (gradients_of sp direction feats ! p) < length feats"
    "slope (gradients_of sp direction feats) p =
      feature_value sp direction (feats ! snd (gradients_of sp direction feats ! p))"
    by (auto simp: slope_def)
qed

lemma gradients_of_onto:
  assumes "j < length feats"
  shows "\<exists>p<length feats. snd (gradients_of sp direction feats ! p) = j"
proof -
  have "(feature_value sp direction (feats ! j), j) \<in> set (gradients_of sp direction feats)"
    using assms by (auto simp: gradients_of_def)
  then obtain p where "p < length feats" "gradients_of sp direction feats ! p = (feature_value sp direction (feats ! j), j)"
    by (auto simp: in_set_conv_nth)
  then show ?thesis by (intro exI [of _ p]) simp
qed

lemma highest_start_props:
  assumes "g \<noteq> []"
  shows "highest_start f0 g < length g" "slope g (highest_start f0 g) = slope g 0"
    "q < length g \<Longrightarrow> sorted_gradients g \<Longrightarrow> slope g q = slope g 0 \<Longrightarrow>
      level f0 g q \<le> level f0 g (highest_start f0 g)"
proof -
  let ?w = "takeWhile (\<lambda>e. fst e = slope g 0) (tl g)"
  let ?n = "1 + length ?w"
  have n: "?n \<le> length g" using length_takeWhile_le [of "\<lambda>e. fst e = slope g 0" "tl g"] assms by (cases g) auto
  have eq: "slope g i = slope g 0" if "i < ?n" for i
  proof (cases i)
    case (Suc k)
    then have k: "k < length ?w" using that by simp
    then have "fst (?w ! k) = slope g 0" using nth_mem [OF k] set_takeWhileD by fastforce
    then show ?thesis using k Suc assms by (cases g) (simp_all add: slope_def takeWhile_nth)
  qed simp
  define pick where "pick q h = (if level f0 g q > level f0 g h then q else h)" for q h
  have inv: "fold pick [1..<m] 0 < m \<and> (\<forall>i<m. level f0 g i \<le> level f0 g (fold pick [1..<m] 0))" if "1 \<le> m" for m
    using that
  proof (induction m)
    case 0
    then show ?case by simp
  next
    case (Suc m)
    show ?case
    proof (cases "m = 0")
      case True
      then show ?thesis by simp
    next
      case False
      define h where "h = fold pick [1..<m] 0"
      have IH: "h < m" "\<forall>i<m. level f0 g i \<le> level f0 g h" using Suc False by (simp_all add: h_def)
      have fs: "fold pick [1..<Suc m] 0 = pick m h" using False by (simp add: h_def)
      have "pick m h < Suc m" using IH(1) by (simp add: pick_def)
      moreover have "level f0 g i \<le> level f0 g (pick m h)" if "i < Suc m" for i
      proof (cases "i = m")
        case False
        then have "level f0 g i \<le> level f0 g h" using IH(2) that by simp
        then show ?thesis by (simp add: pick_def)
      qed (simp add: pick_def)
      ultimately show ?thesis unfolding fs by blast
    qed
  qed
  from inv [of ?n] have h: "highest_start f0 g < ?n" "\<forall>i<?n. level f0 g i \<le> level f0 g (highest_start f0 g)"
    by (simp_all add: highest_start_def pick_def [abs_def])
  show "highest_start f0 g < length g" using h(1) n by simp
  show "slope g (highest_start f0 g) = slope g 0" by (rule eq [OF h(1)])
  assume q: "q < length g" "sorted_gradients g" "slope g q = slope g 0"
  have "q < ?n"
  proof (rule ccontr)
    assume "\<not> q < ?n"
    then have lt: "length ?w < length (tl g)" "?n \<le> q" using q(1) by auto
    then have "fst (tl g ! length ?w) \<noteq> slope g 0" by (meson nth_length_takeWhile)
    then have ne: "slope g ?n \<noteq> slope g 0" using assms by (cases g) (simp_all add: slope_def)
    have "slope g ?n \<le> slope g q" using q(1,2) lt(2) unfolding sorted_gradients_def by blast
    moreover have "slope g 0 \<le> slope g ?n"
      using q(1,2) lt(2) unfolding sorted_gradients_def by (meson le0 le_less_trans)
    ultimately show False using ne q(3) by simp
  qed
  then show "level f0 g q \<le> level f0 g (highest_start f0 g)" using h(2) by blast
qed

lemma highest_start_on_envelope:
  assumes "g \<noteq> []" "sorted_gradients g" "intersections_in_range f0 g"
  shows "on_envelope f0 g MIN_FLOAT (highest_start f0 g)"
proof -
  let ?p = "highest_start f0 g"
  note h = highest_start_props(1,2) [OF assms(1), of f0]
  have "if slope g q \<le> slope g ?p then line_value f0 g q MIN_FLOAT \<le> line_value f0 g ?p MIN_FLOAT
      else line_value f0 g q MIN_FLOAT < line_value f0 g ?p MIN_FLOAT" if q: "q < length g" for q
  proof (cases "slope g q \<le> slope g ?p")
    case True
    have "slope g 0 \<le> slope g q" using assms(2) q by (simp add: sorted_gradients_def)
    then have "slope g q = slope g 0" using True h(2) by simp
    then show ?thesis using h(2) highest_start_props(3) [OF assms(1) q assms(2), of f0] by (simp add: line_value_def)
  next
    case False
    then have "slope g ?p < slope g q" by simp
    from intersect_value(2,3) [OF assms(3) h(1) q this] False show ?thesis by (simp add: not_le)
  qed
  then show ?thesis using h(1) by (simp add: on_envelope_def)
qed



section \<open>The thresholds of all sentences\<close>

type_synonym diff = "(nat \<times> nat) list"
type_synonym thresholds = "(rat \<times> diff) list"

text \<open>The map in the order of its keys; an iterator is the key it points to.\<close>

definition update_entry :: "rat \<Rightarrow> (diff \<Rightarrow> diff) \<Rightarrow> thresholds \<Rightarrow> thresholds" where
  "update_entry k f tm = map (\<lambda>(x, d). if x = k then (x, f d) else (x, d)) tm"

definition set_back :: "diff \<Rightarrow> nat \<times> nat \<Rightarrow> diff" where
  "set_back d nd = butlast d @ [nd]"

definition AddThreshold :: "thresholds \<Rightarrow> rat \<Rightarrow> nat \<times> nat \<Rightarrow> thresholds" where
  "AddThreshold tm newt newdiff =
     (case map_of tm newt of
        Some d \<Rightarrow>
          if fst (last d) = fst newdiff
          then update_entry newt (\<lambda>d. set_back d (fst (last d), snd newdiff)) tm
          else update_entry newt (\<lambda>d. d @ [newdiff]) tm
      | None \<Rightarrow> insort_key fst (newt, [newdiff]) tm)"

definition place_threshold :: "thresholds \<Rightarrow> rat \<Rightarrow> rat \<Rightarrow> nat \<times> nat \<Rightarrow> thresholds \<times> rat" where
  "place_threshold tm previnserted leftmostx newd =
     (if leftmostx - previnserted < min_int
      then let prevdiff = the (map_of tm previnserted)
           in case map_of tm leftmostx of
                None \<Rightarrow>
                  (update_entry leftmostx (\<lambda>d. set_back d newd)
                     (filter (\<lambda>e. fst e \<noteq> previnserted) (insort_key fst (leftmostx, prevdiff) tm)), leftmostx)
              | Some d \<Rightarrow>
                  if leftmostx = previnserted
                  then (update_entry previnserted (\<lambda>d. set_back d newd) tm, previnserted)
                  else (filter (\<lambda>e. fst e \<noteq> previnserted)
                          (update_entry leftmostx (\<lambda>d. set_back (d @ prevdiff) newd) tm), leftmostx)
      else (AddThreshold tm leftmostx newd, leftmostx))"

function envelope_walk :: "nat \<Rightarrow> rat list \<Rightarrow> gradients \<Rightarrow> nat \<Rightarrow> thresholds \<times> rat \<Rightarrow> thresholds" where
  "envelope_walk S f0 g p st =
     (if p < length g
      then let (leftmostx, leftmost) = leftmost_intersection f0 g p
           in if leftmost = p then fst st
              else envelope_walk S f0 g leftmost
                     (place_threshold (fst st) (snd st) leftmostx (S, snd (g ! leftmost)))
      else fst st)"
  by pat_completeness auto
termination
  by (relation "measure (\<lambda>(S, f0, g, p, st). length g - p)")
    (auto dest: leftmost_intersection_moves [OF _ sym] intro!: diff_less_mono2)

declare envelope_walk.simps [simp del]

definition line_sentence ::
    "point_space \<Rightarrow> rat list \<Rightarrow> rat list \<Rightarrow> rat list list \<Rightarrow> nat \<Rightarrow> thresholds \<times> candidates \<Rightarrow> thresholds \<times> candidates" where
  "line_sentence sp origin direction feats S st =
     (let (tm, first1best) = st;
          gradient = gradients_of sp direction feats;
          f0 = map (feature_value sp origin) feats;
          highest_f0 = highest_start f0 gradient
      in (envelope_walk S f0 gradient highest_f0 (tm, fst (hd tm)), first1best @ [snd (gradient ! highest_f0)]))"

definition line_thresholds ::
    "point_space \<Rightarrow> rat list list list \<Rightarrow> rat list \<Rightarrow> rat list \<Rightarrow> thresholds \<times> candidates" where
  "line_thresholds sp fdata origin direction =
     fold (\<lambda>S. line_sentence sp origin direction (fdata ! S) S) [0..<length fdata] ([(MIN_FLOAT, [])], [])"

section \<open>The best interval\<close>

definition interval_point :: "thresholds \<Rightarrow> nat \<Rightarrow> rat" where
  "interval_point tm sc =
     (let leftx = (if sc = 0 then MIN_FLOAT else fst (tm ! sc));
          rightx = (if sc + 1 < length tm then fst (tm ! (sc + 1)) else MAX_FLOAT)
      in if leftx = MIN_FLOAT then rightx - 1000
         else if rightx = MAX_FLOAT then leftx + 1 / 10
         else 1 / 2 * (rightx + leftx))"

definition best_interval :: "thresholds \<Rightarrow> real list \<Rightarrow> real \<times> rat" where
  "best_interval tm scores =
     fold (\<lambda>sc (bestscore, bestx).
         if scores ! sc > bestscore then (scores ! sc, interval_point tm sc) else (bestscore, bestx))
       [0..<length scores] (- FLT_MAX, MIN_FLOAT)"

text \<open>\<open>GetIncStatScore\<close> is the scorer.\<close>

definition LineOptimize ::
    "(candidates \<Rightarrow> diff_seq \<Rightarrow> real list) \<Rightarrow> point_space \<Rightarrow> rat list list list \<Rightarrow> point \<Rightarrow> point \<Rightarrow> real \<times> point" where
  "LineOptimize GetIncStatScore sp fdata origin direction =
     (let (thresholdmap, first1best) = line_thresholds sp fdata (weights origin) (weights direction);
          scores = GetIncStatScore first1best (map snd (tl thresholdmap));
          (bestscore, bestx) = best_interval thresholdmap scores;
          bestx = (if \<bar>bestx\<bar> < 15 / 100000 then 0 else bestx)
      in (bestscore, (point_plus (point_scale direction bestx) origin)\<lparr>point_score := bestscore\<rparr>))"

definition Get1bests :: "point_space \<Rightarrow> rat list list list \<Rightarrow> rat list \<Rightarrow> candidates" where
  "Get1bests sp fdata p =
     map (\<lambda>i. snd (fold (\<lambda>j (bestfs, idx).
           let curfs = feature_value sp p (fdata ! i ! j) in if curfs > bestfs then (curfs, j) else (bestfs, idx))
         [0..<length (fdata ! i)] (MIN_FLOAT, 0))) [0..<length fdata]"



section \<open>What the threshold map holds\<close>

text \<open>The first entry, and the diffs \<open>D x\<close> at the points of a finite set.\<close>

definition threshold_map :: "rat set \<Rightarrow> (rat \<Rightarrow> diff) \<Rightarrow> thresholds" where
  "threshold_map K D = (MIN_FLOAT, []) # map (\<lambda>x. (x, D x)) (sorted_list_of_set K)"

lemma map_of_threshold_map:
  "finite K \<Longrightarrow> MIN_FLOAT < x \<Longrightarrow> map_of (threshold_map K D) x = (if x \<in> K then Some (D x) else None)"
  by (auto simp: threshold_map_def map_of_map_restrict restrict_map_def)

lemma insort_key_map: "insort_key fst (x, d) (map (\<lambda>x. (x, D x)) xs) =
    (let ys = takeWhile (\<lambda>y. \<not> x \<le> y) xs; zs = dropWhile (\<lambda>y. \<not> x \<le> y) xs
     in map (\<lambda>x. (x, D x)) ys @ (x, d) # map (\<lambda>x. (x, D x)) zs)"
  by (induction xs) (auto simp: Let_def)

lemma insort_takeWhile: "insort x xs = takeWhile (\<lambda>y. \<not> x \<le> y) xs @ x # dropWhile (\<lambda>y. \<not> x \<le> y) xs"
  by (induction xs) auto

lemma AddThreshold_map:
  assumes "finite K" "MIN_FLOAT < x" "x \<notin> K \<Longrightarrow> D x = []" "x \<in> K \<Longrightarrow> fst (last (D x)) \<noteq> fst nd"
  shows "AddThreshold (threshold_map K D) x nd = threshold_map (insert x K) (D(x := D x @ [nd]))"
proof (cases "x \<in> K")
  case True
  have "update_entry x (\<lambda>d. d @ [nd]) (threshold_map K D) = threshold_map K (D(x := D x @ [nd]))"
    using assms(2) by (auto simp: update_entry_def threshold_map_def)
  then show ?thesis
    using True assms by (simp add: AddThreshold_def map_of_threshold_map insert_absorb)
next
  case False
  let ?xs = "sorted_list_of_set K"
  have "map (\<lambda>y. (y, (D(x := [nd])) y)) (insort x ?xs) =
      insort_key fst (x, [nd]) (map (\<lambda>y. (y, D y)) ?xs)"
  proof -
    have "y \<noteq> x" if "y \<in> set (takeWhile (\<lambda>y. \<not> x \<le> y) ?xs) \<union> set (dropWhile (\<lambda>y. \<not> x \<le> y) ?xs)" for y
      using that False assms(1) set_takeWhileD set_dropWhileD by (metis Un_iff set_sorted_list_of_set)
    then show ?thesis by (simp add: insort_takeWhile insort_key_map Let_def)
  qed
  moreover have "AddThreshold (threshold_map K D) x nd = insort_key fst (x, [nd]) (threshold_map K D)"
    using False assms(1,2) by (simp add: AddThreshold_def map_of_threshold_map)
  moreover have "insort_key fst (x, [nd]) (threshold_map K D) =
      (MIN_FLOAT, []) # insort_key fst (x, [nd]) (map (\<lambda>y. (y, D y)) ?xs)"
    using assms(2) by (simp add: threshold_map_def)
  ultimately show ?thesis
    using False assms(1,3) by (simp add: threshold_map_def sorted_list_of_set_insert_remove)
qed

text \<open>The corners a sentence adds, if consecutive ones are at least \<open>min_int\<close> apart.\<close>

fun spaced :: "rat \<Rightarrow> (rat \<times> nat) list \<Rightarrow> bool" where
  "spaced prev [] = True"
| "spaced prev ((b, q) # bs) \<longleftrightarrow> min_int \<le> b - prev \<and> spaced b bs"

definition corner_diffs :: "nat \<Rightarrow> gradients \<Rightarrow> (rat \<times> nat) list \<Rightarrow> rat \<Rightarrow> diff" where
  "corner_diffs S g bs x = (case map_of bs x of Some q \<Rightarrow> [(S, snd (g ! q))] | None \<Rightarrow> [])"

lemma envelope_walk_map:
  assumes "finite K" "p < length g" "MIN_FLOAT \<le> prev" "spaced prev (breakpoints f0 g p)"
    and "sorted_wrt (<) (prev # map fst (breakpoints f0 g p))"
    and "\<And>x. prev < x \<Longrightarrow> x \<notin> K \<Longrightarrow> D x = []" "\<And>x. prev < x \<Longrightarrow> x \<in> K \<Longrightarrow> fst (last (D x)) \<noteq> S"
  shows "envelope_walk S f0 g p (threshold_map K D, prev) =
    threshold_map (K \<union> fst ` set (breakpoints f0 g p)) (\<lambda>x. D x @ corner_diffs S g (breakpoints f0 g p) x)"
  using assms
proof (induction f0 g p arbitrary: K D prev rule: breakpoints.induct)
  case (1 f0 g p)
  obtain b q where bq: "leftmost_intersection f0 g p = (b, q)" by (cases "leftmost_intersection f0 g p")
  note un = breakpoints_unfold [OF "1.prems"(2) bq]
  show ?case
  proof (cases "q = p")
    case True
    then have "envelope_walk S f0 g p (threshold_map K D, prev) = threshold_map K D"
      using "1.prems"(2) bq by (subst envelope_walk.simps) simp
    then show ?thesis using un True by (simp add: corner_diffs_def)
  next
    case False
    let ?nd = "(S, snd (g ! q))" and ?D = "D(b := D b @ [(S, snd (g ! q))])"
    have u: "breakpoints f0 g p = (b, q) # breakpoints f0 g q" using un False by simp
    have b: "prev < b" "MIN_FLOAT < b" "\<not> b - prev < min_int" "spaced b (breakpoints f0 g q)"
      "sorted_wrt (<) (b # map fst (breakpoints f0 g q))"
      using "1.prems"(3-5) unfolding u by auto
    have add: "AddThreshold (threshold_map K D) b ?nd = threshold_map (insert b K) ?D"
      using AddThreshold_map [OF "1.prems"(1) b(2), of D ?nd] "1.prems"(6,7) [OF b(1)] by simp
    have q: "q < length g" using leftmost_intersection_moves [OF "1.prems"(2) bq False] by simp
    have "envelope_walk S f0 g p (threshold_map K D, prev) = envelope_walk S f0 g q (threshold_map (insert b K) ?D, b)"
      using "1.prems"(2) bq False b(3) add by (subst envelope_walk.simps) (simp add: place_threshold_def)
    also have "\<dots> = threshold_map (insert b K \<union> fst ` set (breakpoints f0 g q))
        (\<lambda>x. ?D x @ corner_diffs S g (breakpoints f0 g q) x)"
    proof (rule "1.IH" [OF "1.prems"(2) bq [symmetric] refl False _ q _ b(4,5)])
      show "finite (insert b K)" using "1.prems"(1) by simp
      show "MIN_FLOAT \<le> b" using b(2) by simp
      show "?D x = []" if "b < x" "x \<notin> insert b K" for x using that "1.prems"(6) [of x] b(1) by simp
      show "fst (last (?D x)) \<noteq> S" if "b < x" "x \<in> insert b K" for x using that "1.prems"(7) [of x] b(1) by simp
    qed
    also have "(\<lambda>x. ?D x @ corner_diffs S g (breakpoints f0 g q) x) =
        (\<lambda>x. D x @ corner_diffs S g (breakpoints f0 g p) x)"
    proof
      fix x
      have "b \<notin> fst ` set (breakpoints f0 g q)" using b(5) by auto
      then have "map_of (breakpoints f0 g q) b = None" by (simp add: map_of_eq_None_iff)
      then show "?D x @ corner_diffs S g (breakpoints f0 g q) x = D x @ corner_diffs S g (breakpoints f0 g p) x"
        by (auto simp: corner_diffs_def u)
    qed
    finally show ?thesis by (simp add: u)
  qed
qed



text \<open>The lines and corners of a sentence, and the condition under which no corners are merged.\<close>

definition sentence_levels :: "point_space \<Rightarrow> rat list \<Rightarrow> rat list list \<Rightarrow> rat list" where
  "sentence_levels sp origin feats = map (feature_value sp origin) feats"

definition sentence_start :: "point_space \<Rightarrow> rat list \<Rightarrow> rat list \<Rightarrow> rat list list \<Rightarrow> nat" where
  "sentence_start sp origin direction feats =
     highest_start (sentence_levels sp origin feats) (gradients_of sp direction feats)"

definition corners :: "point_space \<Rightarrow> rat list \<Rightarrow> rat list \<Rightarrow> rat list list \<Rightarrow> (rat \<times> nat) list" where
  "corners sp origin direction feats =
     breakpoints (sentence_levels sp origin feats) (gradients_of sp direction feats) (sentence_start sp origin direction feats)"

definition line_ok :: "point_space \<Rightarrow> rat list list list \<Rightarrow> rat list \<Rightarrow> rat list \<Rightarrow> bool" where
  "line_ok sp fdata origin direction \<longleftrightarrow> (\<forall>feats\<in>set fdata. feats \<noteq> [] \<and>
     intersections_in_range (sentence_levels sp origin feats) (gradients_of sp direction feats) \<and>
     spaced MIN_FLOAT (corners sp origin direction feats))"

definition all_corners :: "point_space \<Rightarrow> rat list \<Rightarrow> rat list \<Rightarrow> rat list list list \<Rightarrow> rat set" where
  "all_corners sp origin direction fdata = (\<Union>feats\<in>set fdata. fst ` set (corners sp origin direction feats))"

definition diffs_at :: "point_space \<Rightarrow> rat list \<Rightarrow> rat list \<Rightarrow> rat list list list \<Rightarrow> rat \<Rightarrow> diff" where
  "diffs_at sp origin direction fdata x =
     concat (map (\<lambda>S. corner_diffs S (gradients_of sp direction (fdata ! S)) (corners sp origin direction (fdata ! S)) x)
       [0..<length fdata])"

definition first_bests :: "point_space \<Rightarrow> rat list \<Rightarrow> rat list \<Rightarrow> rat list list list \<Rightarrow> candidates" where
  "first_bests sp origin direction fdata =
     map (\<lambda>feats. snd (gradients_of sp direction feats ! sentence_start sp origin direction feats)) fdata"

lemma sentence_facts:
  assumes "line_ok sp fdata origin direction" "feats \<in> set fdata"
  defines "g \<equiv> gradients_of sp direction feats" and "f0 \<equiv> sentence_levels sp origin feats"
    and "p \<equiv> sentence_start sp origin direction feats"
  shows "on_envelope f0 g MIN_FLOAT p" "intersections_in_range f0 g" "sorted_gradients g" "p < length g"
    "sorted_wrt (<) (MIN_FLOAT # map fst (corners sp origin direction feats))"
    "\<forall>e\<in>set (corners sp origin direction feats). snd e < length g \<and> MIN_FLOAT + 1000 \<le> fst e \<and> fst e < MAX_FLOAT"
    "spaced MIN_FLOAT (corners sp origin direction feats)"
proof -
  have g: "g \<noteq> []" using assms(1,2) length_gradients_of [of sp direction feats]
    unfolding line_ok_def g_def by (metis length_0_conv)
  show r: "intersections_in_range f0 g" "spaced MIN_FLOAT (corners sp origin direction feats)"
    using assms(1,2) by (simp_all add: line_ok_def g_def f0_def)
  show s: "sorted_gradients g" unfolding g_def by (rule sorted_gradients_of)
  show e: "on_envelope f0 g MIN_FLOAT p"
    using highest_start_on_envelope [OF g s r(1)] by (simp add: p_def sentence_start_def g_def f0_def)
  then show "p < length g" by (simp add: on_envelope_def)
  show "sorted_wrt (<) (MIN_FLOAT # map fst (corners sp origin direction feats))"
    "\<forall>e\<in>set (corners sp origin direction feats). snd e < length g \<and> MIN_FLOAT + 1000 \<le> fst e \<and> fst e < MAX_FLOAT"
    using breakpoints_increase [OF s r(1) e] unfolding corners_def g_def f0_def p_def by blast+
qed

lemma diffs_at_fst: "c \<in> set (diffs_at sp origin direction fdata x) \<Longrightarrow> fst c < length fdata"
  by (auto simp: diffs_at_def corner_diffs_def split: option.splits)

lemma diffs_at_Nil: "x \<notin> all_corners sp origin direction fdata \<Longrightarrow> diffs_at sp origin direction fdata x = []"
  by (auto simp: diffs_at_def all_corners_def corner_diffs_def map_of_eq_None_iff split: option.splits dest!: map_of_SomeD)

lemma diffs_at_not_Nil:
  assumes "x \<in> all_corners sp origin direction fdata"
  shows "diffs_at sp origin direction fdata x \<noteq> []"
proof -
  obtain feats where "feats \<in> set fdata" "x \<in> fst ` set (corners sp origin direction feats)"
    using assms unfolding all_corners_def by blast
  then obtain S where S: "S < length fdata" "x \<in> fst ` set (corners sp origin direction (fdata ! S))"
    by (metis in_set_conv_nth)
  then obtain q where "map_of (corners sp origin direction (fdata ! S)) x = Some q"
    by (metis map_of_eq_None_iff not_None_eq)
  then have "corner_diffs S (gradients_of sp direction (fdata ! S)) (corners sp origin direction (fdata ! S)) x \<noteq> []"
    by (simp add: corner_diffs_def)
  then show ?thesis using S(1) by (auto simp: diffs_at_def)
qed

lemma finite_all_corners [simp]: "finite (all_corners sp origin direction fdata)"
  by (simp add: all_corners_def)

lemma diffs_at_snoc: "diffs_at sp origin direction (fdata @ [feats]) x = diffs_at sp origin direction fdata x @
    corner_diffs (length fdata) (gradients_of sp direction feats) (corners sp origin direction feats) x"
proof -
  have eq: "map (\<lambda>S. corner_diffs S (gradients_of sp direction ((fdata @ [feats]) ! S)) (corners sp origin direction ((fdata @ [feats]) ! S)) x)
      [0..<length fdata] =
    map (\<lambda>S. corner_diffs S (gradients_of sp direction (fdata ! S)) (corners sp origin direction (fdata ! S)) x)
      [0..<length fdata]"
    by (rule map_cong) (auto simp: nth_append)
  show ?thesis unfolding diffs_at_def by (simp add: eq del: map_eq_conv)
qed

lemma line_thresholds_snoc:
  "line_thresholds sp (fdata @ [feats]) origin direction =
    line_sentence sp origin direction feats (length fdata) (line_thresholds sp fdata origin direction)"
proof -
  have "fold (\<lambda>S. line_sentence sp origin direction ((fdata @ [feats]) ! S) S) [0..<length fdata] st =
      fold (\<lambda>S. line_sentence sp origin direction (fdata ! S) S) [0..<length fdata] st" for st
    by (rule fold_cong) (auto simp: nth_append)
  then show ?thesis by (simp add: line_thresholds_def)
qed

lemma line_thresholds_are_corners:
  "line_ok sp fdata origin direction \<Longrightarrow> line_thresholds sp fdata origin direction =
    (threshold_map (all_corners sp origin direction fdata) (diffs_at sp origin direction fdata),
     first_bests sp origin direction fdata)"
proof (induction fdata rule: rev_induct)
  case Nil
  show ?case by (simp add: line_thresholds_def threshold_map_def all_corners_def first_bests_def)
next
  case (snoc feats fdata)
  let ?g = "gradients_of sp direction feats" and ?f0 = "sentence_levels sp origin feats"
    and ?p = "sentence_start sp origin direction feats"
    and ?K = "all_corners sp origin direction fdata" and ?D = "diffs_at sp origin direction fdata"
  have "line_ok sp fdata origin direction" using snoc.prems by (simp add: line_ok_def)
  note IH = snoc.IH [OF this]
  have "feats \<in> set (fdata @ [feats])" by simp
  note f = sentence_facts [OF snoc.prems this]
  have walk: "envelope_walk (length fdata) ?f0 ?g ?p (threshold_map ?K ?D, MIN_FLOAT) =
    threshold_map (?K \<union> fst ` set (breakpoints ?f0 ?g ?p))
      (\<lambda>x. ?D x @ corner_diffs (length fdata) ?g (breakpoints ?f0 ?g ?p) x)"
  proof (rule envelope_walk_map)
    show "?D x = []" if "x \<notin> ?K" for x using that by (rule diffs_at_Nil)
    show "fst (last (?D x)) \<noteq> length fdata" if "x \<in> ?K" for x
      using diffs_at_fst [OF last_in_set [OF diffs_at_not_Nil [OF that]]] by simp
  qed (use f(4,5,7) in \<open>simp_all add: corners_def\<close>)
  have hd: "fst (hd (threshold_map ?K ?D)) = MIN_FLOAT" by (simp add: threshold_map_def)
  have K: "?K \<union> fst ` set (breakpoints ?f0 ?g ?p) = all_corners sp origin direction (fdata @ [feats])"
    by (auto simp: all_corners_def corners_def)
  have D: "(\<lambda>x. ?D x @ corner_diffs (length fdata) ?g (breakpoints ?f0 ?g ?p) x) = diffs_at sp origin direction (fdata @ [feats])"
    by (rule ext) (simp add: diffs_at_snoc corners_def)
  have p: "highest_start (map (feature_value sp origin) feats) ?g = ?p"
    by (simp add: sentence_start_def sentence_levels_def)
  show ?case
    using walk hd K D p
    by (simp add: line_thresholds_snoc IH line_sentence_def Let_def sentence_levels_def first_bests_def)
qed



section \<open>The vectors of the intervals\<close>

lemma candidate_vectors_nth:
  "k \<le> length ds \<Longrightarrow> candidate_vectors v ds ! k = fold (\<lambda>d v. change_candidates v d) (take k ds) v"
proof (induction v ds arbitrary: k rule: candidate_vectors.induct)
  case (1 v)
  then show ?case by simp
next
  case (2 v d ds)
  then show ?case by (cases k) simp_all
qed

lemma length_change_candidates [simp]: "length (change_candidates v d) = length v"
  unfolding change_candidates_def by (induction d arbitrary: v) auto

lemma change_candidates_append: "change_candidates v (d @ d') = change_candidates (change_candidates v d) d'"
  by (simp add: change_candidates_def)

lemma change_candidates_corners:
  assumes "S < length v"
  shows "change_candidates v (concat (map (\<lambda>S. corner_diffs S (g S) (bs S) x) [0..<n])) ! S =
    (if S < n then case map_of (bs S) x of Some q \<Rightarrow> snd (g S ! q) | None \<Rightarrow> v ! S else v ! S)"
proof (induction n)
  case 0
  show ?case by (simp add: change_candidates_def)
next
  case (Suc n)
  have "change_candidates w (corner_diffs n (g n) (bs n) x) ! S =
      (if S = n then case map_of (bs n) x of Some q \<Rightarrow> snd (g n ! q) | None \<Rightarrow> w ! S else w ! S)"
    if "length w = length v" for w :: candidates
    using assms that by (auto simp: corner_diffs_def change_candidates_def split: option.splits)
  then show ?case using Suc by (auto simp: change_candidates_append less_Suc_eq split: option.splits)
qed

definition corner_choice :: "(nat \<Rightarrow> 'a) \<Rightarrow> (rat \<times> nat) list \<Rightarrow> rat \<Rightarrow> 'a \<Rightarrow> 'a" where
  "corner_choice f bs x c = (case map_of bs x of Some q \<Rightarrow> f q | None \<Rightarrow> c)"

lemma fold_corner_choice_None:
  "\<forall>y\<in>set ys. map_of bs y = None \<Longrightarrow> fold (corner_choice f bs) ys c = c"
  by (induction ys arbitrary: c) (simp_all add: corner_choice_def)

lemma fold_corner_choice:
  assumes "sorted_wrt (<) ks" "fst ` set bs \<subseteq> set ks" "sorted_wrt (<) (map fst bs)"
  shows "fold (corner_choice f bs) (filter (\<lambda>y. y \<le> x) ks) (f p) = f (envelope_at p bs x)"
  using assms
proof (induction bs arbitrary: ks p)
  case Nil
  then show ?case by (simp add: fold_corner_choice_None)
next
  case (Cons e bs)
  obtain b q where e: "e = (b, q)" by (cases e)
  have "b \<in> set ks" using Cons.prems(2) e by simp
  then obtain ks1 ks2 where ks: "ks = ks1 @ b # ks2" by (meson split_list)
  have lt1: "\<forall>y\<in>set ks1. y < b" and gt2: "\<forall>y\<in>set ks2. b < y" and s2: "sorted_wrt (<) ks2"
    using Cons.prems(1) by (auto simp: ks sorted_wrt_append)
  have gtb: "\<forall>y\<in>fst ` set bs. b < y" using Cons.prems(3) e by auto
  have none: "map_of (e # bs) y = None" if "y \<in> set ks1" for y
    using lt1 gtb that e by (fastforce simp: map_of_eq_None_iff)
  show ?case
  proof (cases "x < b")
    case True
    then have "filter (\<lambda>y. y \<le> x) ks = filter (\<lambda>y. y \<le> x) ks1"
      using gt2 by (auto simp: ks intro!: filter_False)
    moreover have "fold (corner_choice f (e # bs)) (filter (\<lambda>y. y \<le> x) ks1) (f p) = f p"
      by (rule fold_corner_choice_None) (use none in auto)
    ultimately show ?thesis using True e by simp
  next
    case False
    then have "filter (\<lambda>y. y \<le> x) ks = ks1 @ b # filter (\<lambda>y. y \<le> x) ks2"
      using lt1 by (auto simp: ks intro!: filter_True)
    then have "fold (corner_choice f (e # bs)) (filter (\<lambda>y. y \<le> x) ks) (f p) =
        fold (corner_choice f (e # bs)) (filter (\<lambda>y. y \<le> x) ks2) (f q)"
      using none fold_corner_choice_None [of ks1 "e # bs" f "f p"] by (simp add: corner_choice_def e)
    also have "\<dots> = fold (corner_choice f bs) (filter (\<lambda>y. y \<le> x) ks2) (f q)"
      by (rule fold_cong) (use gt2 in \<open>auto simp: corner_choice_def e fun_eq_iff\<close>)
    also have "\<dots> = f (envelope_at q bs x)"
    proof (rule Cons.IH [OF s2])
      show "fst ` set bs \<subseteq> set ks2" using Cons.prems(2) gtb lt1 by (fastforce simp: ks)
      show "sorted_wrt (<) (map fst bs)" using Cons.prems(3) by simp
    qed
    finally show ?thesis using False e by simp
  qed
qed

definition best_candidate :: "point_space \<Rightarrow> rat list \<Rightarrow> rat list \<Rightarrow> rat list list \<Rightarrow> rat \<Rightarrow> nat" where
  "best_candidate sp origin direction feats x =
     snd (gradients_of sp direction feats !
       envelope_at (sentence_start sp origin direction feats) (corners sp origin direction feats) x)"

lemma take_filter_sorted:
  assumes "sorted_wrt (<) (ks :: rat list)"
  shows "take (length (filter (\<lambda>y. y \<le> x) ks)) ks = filter (\<lambda>y. y \<le> x) ks"
  using assms
proof (induction ks)
  case Nil
  then show ?case by simp
next
  case (Cons a ks)
  show ?case
  proof (cases "a \<le> x")
    case True
    then show ?thesis using Cons by simp
  next
    case False
    then have "filter (\<lambda>y. y \<le> x) (a # ks) = []" using Cons.prems by (auto simp: filter_empty_conv)
    then show ?thesis by simp
  qed
qed

lemma interval_vector:
  assumes "line_ok sp fdata origin direction"
  defines "ks \<equiv> sorted_list_of_set (all_corners sp origin direction fdata)"
  shows "candidate_vectors (first_bests sp origin direction fdata) (map (diffs_at sp origin direction fdata) ks) !
      length (filter (\<lambda>y. y \<le> x) ks) = map (\<lambda>feats. best_candidate sp origin direction feats x) fdata"
    (is "candidate_vectors ?v ?ds ! ?k = ?best")
proof -
  have srt: "sorted_wrt (<) ks" by (simp add: ks_def)
  have "?k \<le> length ?ds" by simp
  then have vec: "candidate_vectors ?v ?ds ! ?k =
      fold (\<lambda>x v. change_candidates v (diffs_at sp origin direction fdata x)) (filter (\<lambda>y. y \<le> x) ks) ?v"
    by (simp add: candidate_vectors_nth take_map take_filter_sorted [OF srt] fold_map comp_def)
  have len: "length (fold (\<lambda>x v. change_candidates v (diffs_at sp origin direction fdata x)) ys v) = length v" for ys v
    by (induction ys arbitrary: v) simp_all
  have step: "fold (\<lambda>x v. change_candidates v (diffs_at sp origin direction fdata x)) ys v ! S =
      fold (corner_choice (\<lambda>q. snd (gradients_of sp direction (fdata ! S) ! q)) (corners sp origin direction (fdata ! S))) ys (v ! S)"
    if "S < length fdata" "length v = length fdata" for ys v S
    using that(2)
  proof (induction ys arbitrary: v)
    case Nil
    then show ?case by simp
  next
    case (Cons y ys)
    then show ?case
      using that(1) change_candidates_corners [of S v "\<lambda>S. gradients_of sp direction (fdata ! S)"
          "\<lambda>S. corners sp origin direction (fdata ! S)" y "length fdata"]
      by (simp add: diffs_at_def corner_choice_def)
  qed
  show ?thesis
  proof (rule nth_equalityI)
    show "length (candidate_vectors ?v ?ds ! ?k) = length ?best" unfolding vec len by (simp add: first_bests_def)
    fix S assume "S < length (candidate_vectors ?v ?ds ! ?k)"
    then have S: "S < length fdata" unfolding vec len by (simp add: first_bests_def)
    then have mem: "fdata ! S \<in> set fdata" by simp
    note f = sentence_facts [OF assms(1) mem]
    have sub: "fst ` set (corners sp origin direction (fdata ! S)) \<subseteq> set ks"
      using mem by (auto simp: ks_def all_corners_def)
    have "sorted_wrt (<) (map fst (corners sp origin direction (fdata ! S)))" using f(5) by simp
    note choice = fold_corner_choice [OF srt sub this, of "\<lambda>q. snd (gradients_of sp direction (fdata ! S) ! q)" x
        "sentence_start sp origin direction (fdata ! S)"]
    show "candidate_vectors ?v ?ds ! ?k ! S = ?best ! S"
      using step [OF S, of ?v "filter (\<lambda>y. y \<le> x) ks"] choice S unfolding vec
      by (simp add: first_bests_def best_candidate_def)
  qed
qed



section \<open>The best point of the line\<close>

definition value_on_line :: "point_space \<Rightarrow> rat list \<Rightarrow> rat list \<Rightarrow> rat list \<Rightarrow> rat \<Rightarrow> rat" where
  "value_on_line sp origin direction F x = feature_value sp origin F + x * feature_value sp direction F"

text \<open>A vector of candidates that are the best (or the only best) of their sentences at a position.\<close>

definition one_best :: "point_space \<Rightarrow> rat list \<Rightarrow> rat list \<Rightarrow> rat list list list \<Rightarrow> rat \<Rightarrow> candidates \<Rightarrow> bool" where
  "one_best sp origin direction fdata x v \<longleftrightarrow> length v = length fdata \<and>
     (\<forall>S<length fdata. v ! S < length (fdata ! S) \<and> (\<forall>j<length (fdata ! S).
        value_on_line sp origin direction (fdata ! S ! j) x \<le> value_on_line sp origin direction (fdata ! S ! (v ! S)) x))"

definition only_best :: "point_space \<Rightarrow> rat list \<Rightarrow> rat list \<Rightarrow> rat list list list \<Rightarrow> rat \<Rightarrow> candidates \<Rightarrow> bool" where
  "only_best sp origin direction fdata x v \<longleftrightarrow> length v = length fdata \<and>
     (\<forall>S<length fdata. v ! S < length (fdata ! S) \<and> (\<forall>j<length (fdata ! S). j \<noteq> v ! S \<longrightarrow>
        value_on_line sp origin direction (fdata ! S ! j) x < value_on_line sp origin direction (fdata ! S ! (v ! S)) x))"

lemma line_value_on_line:
  assumes "p < length feats"
  shows "line_value (sentence_levels sp origin feats) (gradients_of sp direction feats) p x =
    value_on_line sp origin direction (feats ! snd (gradients_of sp direction feats ! p)) x"
  using gradients_of_nth [OF assms, of sp direction]
  by (simp add: line_value_def level_def sentence_levels_def value_on_line_def mult.commute)

lemma envelope_at_range: "p < n \<Longrightarrow> \<forall>e\<in>set bs. snd e < n \<Longrightarrow> envelope_at p bs x < n"
  by (induction p bs x rule: envelope_at.induct) auto

lemma best_candidate_is_best:
  assumes "line_ok sp fdata origin direction" "feats \<in> set fdata" "MIN_FLOAT \<le> x"
  shows "best_candidate sp origin direction feats x < length feats"
    "j < length feats \<Longrightarrow> value_on_line sp origin direction (feats ! j) x \<le>
      value_on_line sp origin direction (feats ! best_candidate sp origin direction feats x) x"
proof -
  note f = sentence_facts [OF assms(1,2)]
  let ?e = "envelope_at (sentence_start sp origin direction feats) (corners sp origin direction feats) x"
  have e: "?e < length feats" using envelope_at_range f(4,6) by fastforce
  then show "best_candidate sp origin direction feats x < length feats"
    unfolding best_candidate_def by (rule gradients_of_nth(1))
  assume "j < length feats"
  then obtain p where p: "p < length feats" "snd (gradients_of sp direction feats ! p) = j"
    using gradients_of_onto by blast
  have "p < length (gradients_of sp direction feats)" using p(1) by simp
  from envelope_is_best [OF f(3,2,1) assms(3) this]
  show "value_on_line sp origin direction (feats ! j) x \<le>
      value_on_line sp origin direction (feats ! best_candidate sp origin direction feats x) x"
    by (simp add: corners_def [symmetric] line_value_on_line [OF p(1)] line_value_on_line [OF e] p(2) best_candidate_def)
qed

lemma one_best_vector:
  assumes "line_ok sp fdata origin direction" "MIN_FLOAT \<le> x"
  shows "one_best sp origin direction fdata x (map (\<lambda>feats. best_candidate sp origin direction feats x) fdata)"
  using best_candidate_is_best [OF assms(1) _ assms(2)] by (simp add: one_best_def)

lemma only_best_vector:
  assumes "line_ok sp fdata origin direction" "MIN_FLOAT \<le> x" "only_best sp origin direction fdata x v"
  shows "v = map (\<lambda>feats. best_candidate sp origin direction feats x) fdata"
proof (rule nth_equalityI)
  show "length v = length (map (\<lambda>feats. best_candidate sp origin direction feats x) fdata)"
    using assms(3) by (simp add: only_best_def)
  fix S assume "S < length v"
  then have S: "S < length fdata" using assms(3) by (simp add: only_best_def)
  have v: "v ! S < length (fdata ! S)" "\<And>j. j < length (fdata ! S) \<Longrightarrow> j \<noteq> v ! S \<Longrightarrow>
      value_on_line sp origin direction (fdata ! S ! j) x < value_on_line sp origin direction (fdata ! S ! (v ! S)) x"
    using assms(3) S by (auto simp: only_best_def)
  note b = best_candidate_is_best [OF assms(1) nth_mem [OF S] assms(2)]
  have "v ! S = best_candidate sp origin direction (fdata ! S) x"
    using v(2) [OF b(1)] b(2) [OF v(1)] by (metis not_less)
  then show "v ! S = map (\<lambda>feats. best_candidate sp origin direction feats x) fdata ! S" using S by simp
qed

lemma best_interval_best:
  assumes "scores \<noteq> []" "\<forall>s\<in>set scores. - FLT_MAX < s"
  shows "\<exists>k<length scores. best_interval tm scores = (scores ! k, interval_point tm k) \<and>
    (\<forall>s\<in>set scores. s \<le> scores ! k)"
proof -
  define pick where "pick = (\<lambda>sc (bestscore, bestx).
      if scores ! sc > bestscore then (scores ! sc, interval_point tm sc) else (bestscore, bestx))"
  have "\<exists>k<n. fold pick [0..<n] (- FLT_MAX, MIN_FLOAT) = (scores ! k, interval_point tm k) \<and> (\<forall>i<n. scores ! i \<le> scores ! k)"
    if "0 < n" "n \<le> length scores" for n
    using that
  proof (induction n)
    case 0
    then show ?case by simp
  next
    case (Suc n)
    have top: "- FLT_MAX < scores ! n" using assms(2) Suc.prems by simp
    show ?case
    proof (cases "n = 0")
      case True
      then show ?thesis using top by (simp add: pick_def)
    next
      case False
      then obtain k where k: "k < n" "fold pick [0..<n] (- FLT_MAX, MIN_FLOAT) = (scores ! k, interval_point tm k)"
        "\<forall>i<n. scores ! i \<le> scores ! k" using Suc by auto
      show ?thesis
      proof (cases "scores ! n > scores ! k")
        case True
        then show ?thesis using k by (intro exI [of _ n]) (auto simp: pick_def less_Suc_eq intro: order_trans less_imp_le)
      next
        case False
        then show ?thesis using k by (intro exI [of _ k]) (auto simp: pick_def less_Suc_eq)
      qed
    qed
  qed
  from this [of "length scores"] assms(1) show ?thesis
    by (simp add: best_interval_def pick_def all_set_conv_all_nth)
qed

lemma filter_le_take:
  assumes "\<forall>i<k. ks ! i \<le> (x :: rat)" "\<forall>i<length ks. k \<le> i \<longrightarrow> x < ks ! i" "k \<le> length ks"
  shows "length (filter (\<lambda>y. y \<le> x) ks) = k"
proof -
  have "filter (\<lambda>y. y \<le> x) (take k ks) = take k ks"
    using assms(1,3) by (auto simp: filter_id_conv in_set_conv_nth)
  moreover have "filter (\<lambda>y. y \<le> x) (drop k ks) = []"
  proof -
    have "x < y" if "y \<in> set (drop k ks)" for y
      using that assms(2) by (auto simp: in_set_conv_nth)
    then show ?thesis by (auto simp: filter_empty_conv not_le)
  qed
  moreover have "filter (\<lambda>y. y \<le> x) ks = filter (\<lambda>y. y \<le> x) (take k ks) @ filter (\<lambda>y. y \<le> x) (drop k ks)"
    by (simp flip: filter_append)
  ultimately show ?thesis using assms(3) by simp
qed

lemma interval_point_inside:
  assumes "finite K" "\<forall>x\<in>K. MIN_FLOAT + 1000 \<le> x \<and> x < MAX_FLOAT" "k \<le> card K"
  defines "ks \<equiv> sorted_list_of_set K"
  shows "length (filter (\<lambda>y. y \<le> interval_point (threshold_map K D) k) ks) = k"
    "MIN_FLOAT \<le> interval_point (threshold_map K D) k"
proof -
  let ?x = "interval_point (threshold_map K D) k"
  have len: "length ks = card K" "sorted_wrt (<) ks" "set ks = K" using assms(1) by (simp_all add: ks_def)
  have lt: "ks ! i < ks ! j" if "i < j" "j < length ks" for i j using len(2) that by (simp add: sorted_wrt_iff_nth_less)
  have rng: "MIN_FLOAT + 1000 \<le> ks ! i" "ks ! i < MAX_FLOAT" if "i < length ks" for i
    using assms(2) len(3) nth_mem [OF that] by auto
  have tm: "length (threshold_map K D) = length ks + 1" "fst (threshold_map K D ! Suc i) = ks ! i" if "i < length ks" for i
    using that by (simp_all add: threshold_map_def ks_def)
  have lentm: "length (threshold_map K D) = length ks + 1" by (simp add: threshold_map_def ks_def)
  have wide: "MIN_FLOAT + 3000 < MAX_FLOAT" by (simp add: MIN_FLOAT_def MAX_FLOAT_def)
  have "(\<forall>i<k. ks ! i \<le> ?x) \<and> (\<forall>i<length ks. k \<le> i \<longrightarrow> ?x < ks ! i) \<and> MIN_FLOAT \<le> ?x"
  proof (cases k)
    case 0
    show ?thesis
    proof (cases "ks = []")
      case True
      then show ?thesis using wide 0 lentm by (simp add: interval_point_def)
    next
      case False
      then have x: "?x = ks ! 0 - 1000" using 0 tm [of 0] by (simp add: interval_point_def)
      have "ks ! 0 \<le> ks ! i" if "i < length ks" for i using lt [of 0 i] that by (cases "i = 0") auto
      then show ?thesis using x rng [of 0] False 0 by fastforce
    qed
  next
    case (Suc m)
    then have m: "m < length ks" using assms(3) len(1) by simp
    have left: "fst (threshold_map K D ! k) = ks ! m" "ks ! m \<noteq> MIN_FLOAT" using tm(2) [OF m] Suc rng(1) [OF m] by auto
    have before: "ks ! i \<le> ks ! m" if "i < k" for i using lt [of i m] that Suc m by (cases "i = m") auto
    show ?thesis
    proof (cases "k < length ks")
      case True
      have right: "fst (threshold_map K D ! Suc k) = ks ! k" "ks ! k \<noteq> MAX_FLOAT" using tm(2) [OF True] rng(2) [OF True] by auto
      then have x: "?x = 1 / 2 * (ks ! k + ks ! m)" using left True Suc lentm by (simp add: interval_point_def)
      have mk: "ks ! m < ks ! k" using lt [of m k] Suc True by simp
      have after: "ks ! k \<le> ks ! i" if "k \<le> i" "i < length ks" for i using lt [of k i] that by (cases "i = k") auto
      have "ks ! m < ?x" "?x < ks ! k" using x mk by simp_all
      then show ?thesis using before after rng(1) [OF m] by fastforce
    next
      case False
      then have x: "?x = ks ! m + 1 / 10" using left Suc lentm by (simp add: interval_point_def)
      then show ?thesis using before False rng(1) [OF m] by fastforce
    qed
  qed
  then show "length (filter (\<lambda>y. y \<le> ?x) ks) = k" "MIN_FLOAT \<le> ?x"
    using filter_le_take [of k ks ?x] assms(3) len(1) by simp_all
qed



section \<open>The scorer behind the line search\<close>

text \<open>
  What the optimizer relies on: for valid candidates and changes, the incremental scores are the
  scores of the successive vectors.
\<close>

locale incremental_scorer =
  fixes valid :: "'d \<Rightarrow> bool"
    and sizes :: "'d \<Rightarrow> nat list"
    and score_of :: "'d \<Rightarrow> candidates \<Rightarrow> real"
    and inc_score :: "'d \<Rightarrow> candidates \<Rightarrow> diff_seq \<Rightarrow> real list"
  assumes inc_score: "valid dat \<Longrightarrow> v \<noteq> [] \<Longrightarrow> length v = length (sizes dat) \<Longrightarrow>
      \<forall>i<length v. v ! i < sizes dat ! i \<Longrightarrow>
      \<forall>d\<in>set ds. \<forall>c\<in>set d. fst c < length v \<and> snd c < sizes dat ! fst c \<Longrightarrow>
      inc_score dat v ds = map (score_of dat) (candidate_vectors v ds)"
begin

lemma line_search_scores:
  assumes "valid dat" "fdata \<noteq> []" "map length fdata = sizes dat" "line_ok sp fdata origin direction"
  defines "ks \<equiv> sorted_list_of_set (all_corners sp origin direction fdata)"
  shows "inc_score dat (first_bests sp origin direction fdata) (map (diffs_at sp origin direction fdata) ks) =
    map (score_of dat) (candidate_vectors (first_bests sp origin direction fdata) (map (diffs_at sp origin direction fdata) ks))"
proof (rule inc_score [OF assms(1)])
  have sz: "sizes dat ! S = length (fdata ! S)" "length (sizes dat) = length fdata" if "S < length fdata" for S
    using that by (simp_all flip: assms(3))
  have n: "length (first_bests sp origin direction fdata) = length fdata" by (simp add: first_bests_def)
  show "first_bests sp origin direction fdata \<noteq> []" using assms(2) by (simp add: first_bests_def)
  show "length (first_bests sp origin direction fdata) = length (sizes dat)" unfolding n assms(3) [symmetric] by simp
  have g: "snd (gradients_of sp direction (fdata ! S) ! p) < sizes dat ! S"
    if "S < length fdata" "p < length (gradients_of sp direction (fdata ! S))" for S p
    using gradients_of_nth(1) [of p "fdata ! S" sp direction] that sz [OF that(1)] by simp
  show "\<forall>i<length (first_bests sp origin direction fdata). first_bests sp origin direction fdata ! i < sizes dat ! i"
    using g sentence_facts(4) [OF assms(4) nth_mem] by (simp add: first_bests_def)
  show "\<forall>d\<in>set (map (diffs_at sp origin direction fdata) ks). \<forall>c\<in>set d.
      fst c < length (first_bests sp origin direction fdata) \<and> snd c < sizes dat ! fst c"
  proof (intro ballI)
    fix d c assume "d \<in> set (map (diffs_at sp origin direction fdata) ks)" "c \<in> set d"
    then obtain x S where S: "S < length fdata"
      "c \<in> set (corner_diffs S (gradients_of sp direction (fdata ! S)) (corners sp origin direction (fdata ! S)) x)"
      by (auto simp: diffs_at_def)
    obtain q where c: "S < length fdata" "map_of (corners sp origin direction (fdata ! S)) x = Some q"
      "c = (S, snd (gradients_of sp direction (fdata ! S) ! q))"
      using S by (cases "map_of (corners sp origin direction (fdata ! S)) x") (auto simp: corner_diffs_def)
    have "q < length (gradients_of sp direction (fdata ! S))"
      using sentence_facts(6) [OF assms(4) nth_mem [OF c(1)]] map_of_SomeD [OF c(2)] by fastforce
    then show "fst c < length (first_bests sp origin direction fdata) \<and> snd c < sizes dat ! fst c"
      using g [OF c(1)] c n by simp
  qed
qed

lemma line_search:
  assumes "valid dat" "fdata \<noteq> []" "map length fdata = sizes dat"
    and "line_ok sp fdata (weights origin) (weights direction)" "\<forall>v. - FLT_MAX < score_of dat v"
    and "LineOptimize (inc_score dat) sp fdata origin direction = (bestscore, P)"
  shows "MIN_FLOAT \<le> x \<Longrightarrow> only_best sp (weights origin) (weights direction) fdata x v \<Longrightarrow> score_of dat v \<le> bestscore"
    "\<exists>x v. MIN_FLOAT \<le> x \<and> one_best sp (weights origin) (weights direction) fdata x v \<and> score_of dat v = bestscore \<and>
      weights P = weights (point_plus (point_scale direction (if \<bar>x\<bar> < 15 / 100000 then 0 else x)) origin)"
    "\<forall>c \<in> all_corners sp (weights origin) (weights direction) fdata. 15 / 100000 \<le> \<bar>c\<bar> \<Longrightarrow>
     \<exists>x v. one_best sp (weights origin) (weights direction) fdata x v \<and> score_of dat v = bestscore \<and>
      weights P = weights (point_plus (point_scale direction x) origin)"
proof -
  let ?o = "weights origin" and ?d = "weights direction"
  define K D first ks where "K = all_corners sp ?o ?d fdata" and "D = diffs_at sp ?o ?d fdata"
    and "first = first_bests sp ?o ?d fdata" and "ks = sorted_list_of_set K"
  let ?V = "candidate_vectors first (map D ks)"
  have th: "line_thresholds sp fdata ?o ?d = (threshold_map K D, first)"
    using line_thresholds_are_corners [OF assms(4)] by (simp add: K_def D_def first_def)
  have diffs: "map snd (tl (threshold_map K D)) = map D ks" by (simp add: threshold_map_def ks_def comp_def)
  have scores: "inc_score dat first (map D ks) = map (score_of dat) ?V"
    using line_search_scores [OF assms(1-4)] by (simp add: K_def D_def first_def ks_def)
  have "map (score_of dat) ?V \<noteq> []" by (simp flip: length_greater_0_conv)
  then obtain k where k: "k < length ?V" "best_interval (threshold_map K D) (map (score_of dat) ?V) =
      (score_of dat (?V ! k), interval_point (threshold_map K D) k)"
    "\<forall>s\<in>set (map (score_of dat) ?V). s \<le> score_of dat (?V ! k)"
    using best_interval_best [of "map (score_of dat) ?V" "threshold_map K D"] assms(5) by auto
  let ?x = "interval_point (threshold_map K D) k"
  have res: "bestscore = score_of dat (?V ! k)"
    "weights P = weights (point_plus (point_scale direction (if \<bar>?x\<bar> < 15 / 100000 then 0 else ?x)) origin)"
    using assms(6) k(2) by (auto simp: LineOptimize_def th diffs scores Let_def)
  have vec: "?V ! length (filter (\<lambda>y. y \<le> x) ks) = map (\<lambda>feats. best_candidate sp ?o ?d feats x) fdata" for x
    using interval_vector [OF assms(4), of x] by (simp add: K_def D_def first_def ks_def)
  have fin: "finite K" by (simp add: K_def)
  have rng: "\<forall>x\<in>K. MIN_FLOAT + 1000 \<le> x \<and> x < MAX_FLOAT"
    using sentence_facts(6) [OF assms(4)] by (fastforce simp: K_def all_corners_def)
  have "k \<le> card K" using k(1) fin by (simp add: ks_def)
  note inside = interval_point_inside [OF fin rng this, of D, folded ks_def]
  show "\<exists>x v. MIN_FLOAT \<le> x \<and> one_best sp ?o ?d fdata x v \<and> score_of dat v = bestscore \<and>
      weights P = weights (point_plus (point_scale direction (if \<bar>x\<bar> < 15 / 100000 then 0 else x)) origin)"
    using one_best_vector [OF assms(4) inside(2)] vec [of ?x] inside res by (intro exI [of _ ?x]) auto
  show "\<exists>x v. one_best sp ?o ?d fdata x v \<and> score_of dat v = bestscore \<and>
      weights P = weights (point_plus (point_scale direction x) origin)" if far: "\<forall>c \<in> all_corners sp ?o ?d fdata. 15 / 100000 \<le> \<bar>c\<bar>"
  proof -
    let ?y = "if \<bar>?x\<bar> < 15 / 100000 then 0 else ?x"
    have same: "(c \<le> ?y) = (c \<le> ?x)" if "c \<in> set ks" for c
    proof -
      have "15 / 100000 \<le> \<bar>c\<bar>" using that far fin by (simp add: ks_def K_def)
      then show ?thesis by (auto simp: abs_if split: if_splits)
    qed
    have "filter (\<lambda>c. c \<le> ?y) ks = filter (\<lambda>c. c \<le> ?x) ks" by (rule filter_cong [OF refl same])
    then have "?V ! k = map (\<lambda>feats. best_candidate sp ?o ?d feats ?y) fdata" using vec [of ?y] inside(1) by simp
    moreover have "MIN_FLOAT \<le> ?y" using inside(2) by (auto simp: MIN_FLOAT_def MAX_FLOAT_def)
    ultimately show ?thesis using one_best_vector [OF assms(4), of ?y] res by (intro exI [of _ ?y] exI [of _ "?V ! k"]) simp
  qed
  show "score_of dat v \<le> bestscore" if "MIN_FLOAT \<le> x" "only_best sp ?o ?d fdata x v"
  proof -
    have "v = ?V ! length (filter (\<lambda>y. y \<le> x) ks)" using only_best_vector [OF assms(4) that] vec by simp
    moreover have "length (filter (\<lambda>y. y \<le> x) ks) < length ?V" by (simp add: le_imp_less_Suc)
    ultimately show ?thesis using k(3) res(1) by auto
  qed
qed

end

interpretation statistics: incremental_scorer "data_ok n" "map length" "\<lambda>dat v. f (totals_of dat n v)"
  "\<lambda>dat v ds. projr (StatisticsScore (\<lambda>t. Inr (f t)) REG_NONE window (Some dat) v ds)" for n f window
proof
  fix dat v and ds :: diff_seq
  assume dat: "data_ok n dat" and v: "v \<noteq> []" "length v = length (map length dat)" "\<forall>i<length v. v ! i < map length dat ! i"
    and ds: "\<forall>d\<in>set ds. \<forall>c\<in>set d. fst c < length v \<and> snd c < map length dat ! fst c"
  have "candidates_ok dat v" using v(2,3) by (simp add: candidates_ok_def)
  moreover have "change_ok dat (length v) c" if "d \<in> set ds" "c \<in> set d" for d c
  proof -
    have "fst c < length v \<and> snd c < map length dat ! fst c" using ds that by blast
    then show ?thesis using v(2) by (auto simp: change_ok_def)
  qed
  ultimately show "projr (StatisticsScore (\<lambda>t. Inr (f t)) REG_NONE window (Some dat) v ds) =
      map (\<lambda>v. f (totals_of dat n v)) (candidate_vectors v ds)"
    using StatisticsScore_unregularised [OF dat _ v(1), of ds "\<lambda>t. Inr (f t)" f REG_NONE window]
    by (simp add: regularise_def)
qed



section \<open>The line search finds the best weights\<close>

definition point_on_line :: "point \<Rightarrow> point \<Rightarrow> rat \<Rightarrow> rat list" where
  "point_on_line origin direction x = weights (point_plus (point_scale direction x) origin)"

text \<open>Every sentence has a candidate that beats the others at these weights.\<close>

definition clear_best :: "point_space \<Rightarrow> rat list list list \<Rightarrow> rat list \<Rightarrow> bool" where
  "clear_best sp fdata p \<longleftrightarrow> (\<forall>feats\<in>set fdata. \<exists>j<length feats. MIN_FLOAT < feature_value sp p (feats ! j) \<and>
     (\<forall>i<length feats. i \<noteq> j \<longrightarrow> feature_value sp p (feats ! i) < feature_value sp p (feats ! j)))"

definition best_at :: "point_space \<Rightarrow> rat list list list \<Rightarrow> rat list \<Rightarrow> candidates \<Rightarrow> bool" where
  "best_at sp fdata p v \<longleftrightarrow> length v = length fdata \<and>
     (\<forall>S<length fdata. v ! S < length (fdata ! S) \<and>
        (\<forall>j<length (fdata ! S). feature_value sp p (fdata ! S ! j) \<le> feature_value sp p (fdata ! S ! (v ! S))))"

lemma sum_list_upt: "(\<Sum>i\<leftarrow>[0..<n]. h i) = (\<Sum>i<n. h i)" for h :: "nat \<Rightarrow> rat"
  by (simp add: interv_sum_list_conv_sum_set_nat atLeast0LessThan)

lemma feature_value_on_line:
  assumes "OptimizeAll sp" "length (weights direction) = length (weights origin)"
  shows "feature_value sp (point_on_line origin direction x) F = value_on_line sp (weights origin) (weights direction) F x"
  using assms
  by (simp add: feature_value_def point_on_line_def point_plus_def point_scale_def value_on_line_def
      sum_list_upt algebra_simps sum.distrib sum_distrib_left)

lemma Get1bests_clear:
  assumes "clear_best sp fdata p" "S < length fdata"
  shows "Get1bests sp fdata p ! S < length (fdata ! S)"
    "\<forall>j<length (fdata ! S). j \<noteq> Get1bests sp fdata p ! S \<longrightarrow>
      feature_value sp p (fdata ! S ! j) < feature_value sp p (fdata ! S ! (Get1bests sp fdata p ! S))"
proof -
  let ?v = "\<lambda>j. feature_value sp p (fdata ! S ! j)"
  define step where "step = (\<lambda>j (bestfs, idx). let curfs = ?v j in if curfs > bestfs then (curfs, j) else (bestfs, idx))"
  obtain j where j: "j < length (fdata ! S)" "MIN_FLOAT < ?v j"
    "\<forall>i<length (fdata ! S). i \<noteq> j \<longrightarrow> ?v i < ?v j"
    using assms unfolding clear_best_def by (meson nth_mem)
  have "if j < n then fold step [0..<n] (MIN_FLOAT, 0) = (?v j, j) else fst (fold step [0..<n] (MIN_FLOAT, 0)) < ?v j"
    if "n \<le> length (fdata ! S)" for n
    using that
  proof (induction n)
    case 0
    then show ?case using j(2) by simp
  next
    case (Suc n)
    obtain b i where st: "fold step [0..<n] (MIN_FLOAT, 0) = (b, i)" by (cases "fold step [0..<n] (MIN_FLOAT, 0)")
    consider "j < n" | "j = n" | "n < j" by linarith
    then show ?case
    proof cases
      case 1
      then have "?v n < ?v j" using j(3) Suc.prems by simp
      then show ?thesis using Suc 1 st by (simp add: step_def Let_def)
    next
      case 2
      then show ?thesis using Suc st by (simp add: step_def Let_def)
    next
      case 3
      then have "?v n < ?v j" using j(3) Suc.prems by simp
      then show ?thesis using Suc 3 st by (simp add: step_def Let_def)
    qed
  qed
  from this [of "length (fdata ! S)"] j(1)
  have "Get1bests sp fdata p ! S = j" using assms(2) by (simp add: Get1bests_def step_def)
  then show "Get1bests sp fdata p ! S < length (fdata ! S)"
    "\<forall>j<length (fdata ! S). j \<noteq> Get1bests sp fdata p ! S \<longrightarrow>
      feature_value sp p (fdata ! S ! j) < feature_value sp p (fdata ! S ! (Get1bests sp fdata p ! S))"
    using j by simp_all
qed

text \<open>C13: When all weights are optimised and no corners are closer than \<open>min_int\<close>, no point of the line
  with a clear choice of translations scores better than the line search says, and the score it
  reports is that of best translations at a point \<open>x\<close> of the line, whose weights it returns, unless
  \<open>x\<close> is nearer than \<open>0.00015\<close> to the origin, which is returned then. When no translation changes nearer than
  that to the origin, the score it reports is always that of best translations at the weights it returns.
\<close>

theorem line_search_finds_best_weights:
  assumes "OptimizeAll sp" "length (weights direction) = length (weights origin)"
    and "data_ok n dat" "fdata \<noteq> []" "map length fdata = map length dat"
    and "line_ok sp fdata (weights origin) (weights direction)" "\<forall>t. - FLT_MAX < f t"
    and "LineOptimize (\<lambda>v ds. projr (StatisticsScore (\<lambda>t. Inr (f t)) REG_NONE window (Some dat) v ds))
      sp fdata origin direction = (bestscore, P)"
  shows "(\<forall>x\<ge>MIN_FLOAT. clear_best sp fdata (point_on_line origin direction x) \<longrightarrow>
      f (totals_of dat n (Get1bests sp fdata (point_on_line origin direction x))) \<le> bestscore) \<and>
    (\<exists>x v. best_at sp fdata (point_on_line origin direction x) v \<and> f (totals_of dat n v) = bestscore \<and>
      weights P = point_on_line origin direction (if \<bar>x\<bar> < 15 / 100000 then 0 else x)) \<and>
    ((\<forall>c \<in> all_corners sp (weights origin) (weights direction) fdata. 15 / 100000 \<le> \<bar>c\<bar>) \<longrightarrow>
      (\<exists>v. best_at sp fdata (weights P) v \<and> f (totals_of dat n v) = bestscore))"
proof (intro conjI allI impI)
  note line = statistics.line_search [OF assms(3-6) _ assms(8)]
  have above: "\<forall>v. - FLT_MAX < f (totals_of dat n v)" using assms(7) by blast
  note on_line = feature_value_on_line [OF assms(1,2)]
  show "f (totals_of dat n (Get1bests sp fdata (point_on_line origin direction x))) \<le> bestscore"
    if x: "MIN_FLOAT \<le> x" and clear: "clear_best sp fdata (point_on_line origin direction x)" for x
  proof (rule line(1) [OF above x])
    show "only_best sp (weights origin) (weights direction) fdata x (Get1bests sp fdata (point_on_line origin direction x))"
      using Get1bests_clear [OF clear] by (simp add: only_best_def on_line) (simp add: Get1bests_def)
  qed
  have at: "best_at sp fdata (point_on_line origin direction x) v = one_best sp (weights origin) (weights direction) fdata x v"
    for x v by (simp only: best_at_def one_best_def on_line)
  show "\<exists>x v. best_at sp fdata (point_on_line origin direction x) v \<and> f (totals_of dat n v) = bestscore \<and>
      weights P = point_on_line origin direction (if \<bar>x\<bar> < 15 / 100000 then 0 else x)"
    using line(2) [OF above] at unfolding point_on_line_def by blast
  show "\<exists>v. best_at sp fdata (weights P) v \<and> f (totals_of dat n v) = bestscore"
    if "\<forall>c \<in> all_corners sp (weights origin) (weights direction) fdata. 15 / 100000 \<le> \<bar>c\<bar>"
    using line(3) [OF above that] at unfolding point_on_line_def by force
qed



definition sample_space :: point_space where
  "sample_space = \<lparr>optindices = [0], fixedweights = []\<rparr>"

definition sample_origin :: point where
  "sample_origin = \<lparr>weights = [1], point_score = 0\<rparr>"

definition sample_fdata :: "rat list list list" where
  "sample_fdata = [[[0], [1]]]"

definition sample_stats :: score_data where
  "sample_stats = [[[0], [5]]]"

lemma sample_line_ok: "line_ok sample_space sample_fdata (weights sample_origin) (weights sample_origin)"
  by code_simp

lemma sample_clear:
  "clear_best sample_space sample_fdata (point_on_line sample_origin sample_origin 1)"
  "Get1bests sample_space sample_fdata (point_on_line sample_origin sample_origin 1) = [1]"
  "totals_of sample_stats 1 [1] = [5]" "MIN_FLOAT \<le> 1"
  by code_simp+

lemma sample_corners:
  "\<forall>c \<in> all_corners sample_space (weights sample_origin) (weights sample_origin) sample_fdata. 15 / 100000 \<le> \<bar>c\<bar>"
  by code_simp

theorem line_search_finds_best_weights_witness:
  "\<exists>bestscore P v. LineOptimize
      (\<lambda>v ds. projr (StatisticsScore (\<lambda>t. Inr (real (nat (t ! 0)))) REG_NONE 0 (Some sample_stats) v ds))
      sample_space sample_fdata sample_origin sample_origin = (bestscore, P) \<and> 5 \<le> bestscore \<and>
    best_at sample_space sample_fdata (weights P) v \<and> real (nat (totals_of sample_stats 1 v ! 0)) = bestscore"
proof -
  have "OptimizeAll sample_space" "length (weights sample_origin) = length (weights sample_origin)"
    "data_ok 1 sample_stats" "sample_fdata \<noteq> []" "map length sample_fdata = map length sample_stats"
    by (simp_all add: sample_space_def OptimizeAll_def data_ok_def sample_stats_def sample_fdata_def)
  moreover have "\<forall>t. - FLT_MAX < real (nat (t ! 0))"
  proof
    fix t :: "int list"
    have "- FLT_MAX < 0" by (simp add: FLT_MAX_def)
    then show "- FLT_MAX < real (nat (t ! 0))" by (rule less_le_trans) simp
  qed
  moreover obtain bestscore P where r: "LineOptimize
      (\<lambda>v ds. projr (StatisticsScore (\<lambda>t. Inr (real (nat (t ! 0)))) REG_NONE 0 (Some sample_stats) v ds))
      sample_space sample_fdata sample_origin sample_origin = (bestscore, P)"
    by force
  ultimately have "(\<forall>x\<ge>MIN_FLOAT. clear_best sample_space sample_fdata (point_on_line sample_origin sample_origin x) \<longrightarrow>
      real (nat (totals_of sample_stats 1 (Get1bests sample_space sample_fdata (point_on_line sample_origin sample_origin x)) ! 0)) \<le>
      bestscore) \<and>
      (\<exists>v. best_at sample_space sample_fdata (weights P) v \<and> real (nat (totals_of sample_stats 1 v ! 0)) = bestscore)"
    using line_search_finds_best_weights [OF _ _ _ _ _ sample_line_ok, of 1 sample_stats "\<lambda>t. real (nat (t ! 0))" 0]
      sample_corners by blast
  then show ?thesis using sample_clear r by force
qed

section \<open>A line without corners\<close>

text \<open>If no sentence changes its best translation along the line, all points have the same score, and
  the search moves the weights to the end of the float range.
\<close>

theorem line_without_corners_runs_away:
  assumes "line_ok sp fdata (weights origin) (weights direction)"
    and "all_corners sp (weights origin) (weights direction) fdata = {}"
    and "inc (first_bests sp (weights origin) (weights direction) fdata) [] = [s]" "- FLT_MAX < s"
  shows "LineOptimize inc sp fdata origin direction =
    (s, (point_plus (point_scale direction (MAX_FLOAT - 1000)) origin)\<lparr>point_score := s\<rparr>)"
proof -
  have th: "line_thresholds sp fdata (weights origin) (weights direction) =
      ([(MIN_FLOAT, [])], first_bests sp (weights origin) (weights direction) fdata)"
    using line_thresholds_are_corners [OF assms(1)] by (simp add: assms(2) threshold_map_def)
  have "\<not> \<bar>MAX_FLOAT - 1000\<bar> < 15 / 100000" by (simp add: MAX_FLOAT_def)
  then show ?thesis
    using assms(3,4) by (simp add: LineOptimize_def th best_interval_def interval_point_def Let_def)
qed

definition flat_fdata :: "rat list list list" where
  "flat_fdata = [[[2]]]"

theorem line_without_corners_runs_away_witness:
  "weights (snd (LineOptimize (\<lambda>v ds. [7]) sample_space flat_fdata sample_origin sample_origin)) = [MAX_FLOAT - 999]"
proof -
  have a: "line_ok sample_space flat_fdata (weights sample_origin) (weights sample_origin)" by code_simp
  have b: "all_corners sample_space (weights sample_origin) (weights sample_origin) flat_fdata = {}" by code_simp
  have c: "- FLT_MAX < (7 :: real)" by (simp add: FLT_MAX_def)
  from line_without_corners_runs_away [OF a b _ c, of "\<lambda>v ds. [7]"]
  show ?thesis by (simp add: point_plus_def point_scale_def sample_origin_def)
qed

section \<open>Fixed weights\<close>

text \<open>
  When some weights are fixed, their share is part of the gradient although it does not grow along
  the line. Here the second candidate is the best one from \<open>x = 1\<close> on, but the search sees two
  parallel lines, reports the score of the first, and returns weights at which the second is chosen.
\<close>

definition fixed_space :: point_space where
  "fixed_space = \<lparr>optindices = [0], fixedweights = [(1, 1)]\<rparr>"

definition fixed_origin :: point where
  "fixed_origin = \<lparr>weights = [0], point_score = 0\<rparr>"

definition fixed_fdata :: "rat list list list" where
  "fixed_fdata = [[[0, 0], [1, - 1]]]"

theorem fixed_weights_spoil_the_line_search:
  "fst (LineOptimize (\<lambda>v ds. map (\<lambda>v. real (v ! 0)) (candidate_vectors v ds))
      fixed_space fixed_fdata fixed_origin sample_origin) = 0 \<and>
    Get1bests fixed_space fixed_fdata
      (weights (snd (LineOptimize (\<lambda>v ds. map (\<lambda>v. real (v ! 0)) (candidate_vectors v ds))
        fixed_space fixed_fdata fixed_origin sample_origin))) = [1]"
proof -
  have a: "line_ok fixed_space fixed_fdata (weights fixed_origin) (weights sample_origin)" by code_simp
  have b: "all_corners fixed_space (weights fixed_origin) (weights sample_origin) fixed_fdata = {}" by code_simp
  have f: "first_bests fixed_space (weights fixed_origin) (weights sample_origin) fixed_fdata = [0]" by code_simp
  have th: "line_thresholds fixed_space fixed_fdata (weights fixed_origin) (weights sample_origin) = ([(MIN_FLOAT, [])], [0])"
    using line_thresholds_are_corners [OF a] by (simp add: b f threshold_map_def)
  have m: "- FLT_MAX < 0" by (simp add: FLT_MAX_def)
  have x: "\<not> \<bar>MAX_FLOAT - 1000\<bar> < 15 / 100000" by (simp add: MAX_FLOAT_def)
  have opt: "LineOptimize (\<lambda>v ds. map (\<lambda>v. real (v ! 0)) (candidate_vectors v ds))
      fixed_space fixed_fdata fixed_origin sample_origin =
      (0, (point_plus (point_scale sample_origin (MAX_FLOAT - 1000)) fixed_origin)\<lparr>point_score := 0\<rparr>)"
    using m x by (simp add: LineOptimize_def th best_interval_def interval_point_def Let_def)
  have "Get1bests fixed_space fixed_fdata (weights (point_plus (point_scale sample_origin (MAX_FLOAT - 1000)) fixed_origin)) = [1]"
    by (simp add: Get1bests_def fixed_fdata_def feature_value_def fixed_space_def OptimizeAll_def
        point_plus_def point_scale_def sample_origin_def fixed_origin_def MAX_FLOAT_def MIN_FLOAT_def Let_def)
  then show ?thesis by (simp add: opt)
qed



section \<open>Powell's method\<close>

text \<open>
  \<open>SimpleOptimizer::TrueRun\<close>: in every run the best point on the lines through the current
  point becomes the new current point, until a run gains no more than \<open>eps\<close>. The directions of
  a run are the axes and some random ones, which are given by \<open>dirs\<close>.
\<close>

definition powell_eps :: real where
  "powell_eps = 1 / 10000"

definition axis :: "nat \<Rightarrow> nat \<Rightarrow> point" where
  "axis pdims d = \<lparr>weights = map (\<lambda>i. if i = d then 1 else 0) [0..<pdims], point_score = 0\<rparr>"

definition powell_directions :: "nat \<Rightarrow> point list \<Rightarrow> point list" where
  "powell_directions pdims random = map (axis pdims) [0..<pdims] @ random"

definition powell_direction ::
    "(point \<Rightarrow> point \<Rightarrow> real \<times> point) \<Rightarrow> point \<Rightarrow> point \<Rightarrow> real \<times> point \<Rightarrow> real \<times> point" where
  "powell_direction line P direction st =
     (let (bestscore, best) = st; (curscore, linebest) = line P direction
      in if curscore > bestscore then (curscore, linebest) else (bestscore, best))"

partial_function (option) powell_loop ::
    "(point \<Rightarrow> point \<Rightarrow> real \<times> point) \<Rightarrow> (nat \<Rightarrow> point list) \<Rightarrow> nat \<Rightarrow> nat \<Rightarrow> point \<Rightarrow> real \<times> point \<Rightarrow> (real \<times> point) option" where
  "powell_loop line random pdims nrun P st =
     (let prevscore = fst st;
          st = fold (powell_direction line P) (powell_directions pdims (random nrun)) st
      in if fst st - prevscore > powell_eps then powell_loop line random pdims (nrun + 1) (snd st) st
         else Some st)"

definition SimpleTrueRun ::
    "(point \<Rightarrow> point \<Rightarrow> real \<times> point) \<Rightarrow> (nat \<Rightarrow> point list) \<Rightarrow> nat \<Rightarrow> point \<Rightarrow> point \<Rightarrow> (real \<times> point) option" where
  "SimpleTrueRun line random pdims unset P =
     (let st = (if point_score P > - FLT_MAX then (point_score P, P) else (- FLT_MAX, unset))
      in powell_loop line random pdims 0 P st)"

lemma powell_run_bounds:
  assumes "\<And>P d. fst (line P d) \<le> B" "fst st \<le> B"
  shows "fst st \<le> fst (fold (powell_direction line P) ds st) \<and> fst (fold (powell_direction line P) ds st) \<le> B"
  using assms(2)
proof (induction ds arbitrary: st)
  case Nil
  then show ?case by simp
next
  case (Cons d ds)
  have "fst st \<le> fst (powell_direction line P d st)" "fst (powell_direction line P d st) \<le> B"
    using assms(1) [of P d] Cons.prems by (auto simp: powell_direction_def split: prod.splits)
  with Cons.IH [of "powell_direction line P d st"] show ?case by simp
qed

lemma powell_loop_ends:
  assumes "\<And>P d. fst (line P d) \<le> B" "fst st \<le> B"
  shows "\<exists>r. powell_loop line random pdims nrun P st = Some r \<and> fst st \<le> fst r \<and> fst r \<le> B"
  using assms(2)
proof (induction "nat \<lceil>(B - fst st) / powell_eps\<rceil>" arbitrary: nrun P st rule: less_induct)
  case less
  let ?st = "fold (powell_direction line P) (powell_directions pdims (random nrun)) st"
  note b = powell_run_bounds [where line = line and P = P and ds = "powell_directions pdims (random nrun)", OF assms(1) less.prems]
  show ?case
  proof (cases "fst ?st - fst st > powell_eps")
    case True
    have e: "0 < powell_eps" by (simp add: powell_eps_def)
    have "(B - fst ?st) / powell_eps + 1 \<le> (B - fst st) / powell_eps"
    proof -
      have "(B - fst ?st + powell_eps) / powell_eps \<le> (B - fst st) / powell_eps"
        using True e by (intro divide_right_mono) simp_all
      then show ?thesis using e by (simp add: add_divide_distrib)
    qed
    moreover have "0 \<le> (B - fst ?st) / powell_eps" using b e by simp
    ultimately have "nat \<lceil>(B - fst ?st) / powell_eps\<rceil> < nat \<lceil>(B - fst st) / powell_eps\<rceil>" by linarith
    from less.hyps [OF this, of "nrun + 1" "snd ?st"] b True show ?thesis
      by (subst powell_loop.simps) (auto simp: Let_def)
  next
    case False
    then show ?thesis using b by (subst powell_loop.simps) (simp add: Let_def)
  qed
qed

text \<open>C35: If the scores on all lines are bounded, the method ends, and its score is not below that of the
  starting point.
\<close>

theorem powell_ends_not_worse:
  assumes "\<And>P d. fst (line P d) \<le> B" "- FLT_MAX < point_score P"
  shows "\<exists>r. SimpleTrueRun line random pdims unset P = Some r \<and> point_score P \<le> fst r"
proof -
  have bound: "fst (line Q d) \<le> max B (point_score P)" for Q d using assms(1) [of Q d] by simp
  have "fst (point_score P, P) \<le> max B (point_score P)" by simp
  from powell_loop_ends [where line = line, OF bound this]
  obtain r where "powell_loop line random pdims 0 P (point_score P, P) = Some r" "point_score P \<le> fst r"
    by fastforce
  then show ?thesis using assms(2) by (simp add: SimpleTrueRun_def)
qed

theorem powell_ends_not_worse_witness:
  "\<exists>r. SimpleTrueRun (\<lambda>P d. (1, d)) (\<lambda>_. []) 2 sample_origin sample_origin = Some r \<and> 0 \<le> fst r"
proof -
  have "fst ((\<lambda>P d. (1, d)) P d) \<le> (1 :: real)" for P d :: point by simp
  moreover have "- FLT_MAX < point_score sample_origin" by (simp add: sample_origin_def FLT_MAX_def)
  ultimately show ?thesis
    using powell_ends_not_worse [of "\<lambda>P d. (1, d)" 1 sample_origin "\<lambda>_. []" 2 sample_origin]
    by (simp add: sample_origin_def)
qed



end
