(* ===== verification/Spec2Isabelle.thy ===== *)
theory Spec2Isabelle
  imports Square_Matrix Word_Lattice Reordering_Constraint Lexical_Reordering Output_Collector Thread_Pool
    Phrase_Words Score_Components Hypothesis_Stack Search_Normal Search_Complete Decode_Steps Translation_Options Future_Costs Option_Creation N_Best Phrase_Extraction Symal Language_Model
    Lossy_Counter Cube_Pruning Cube_Grid Mert_Scorers Mert_Cder Mert_Optimizer
begin

text \<open>
  \<^bold>\<open>Moses: the phrase-based decoder and its training tools\<close>

  The decoder translates a sentence by collecting translation options for its spans, estimating the cost
  of what is not translated yet, and extending partial translations (hypotheses) stack by stack, by the
  number of source words covered; equivalent hypotheses are recombined, bad ones pruned, and the n best
  paths are read off the remaining lattice. The training tools turn word-aligned text into phrase tables.
  All paths below are under \<open>src/\<close>; the decoder is in \<open>moses/src\<close>.

  \<^bold>\<open>Theories, bottom up\<close>

  \<^item> \<open>Prelude\<close>: \<open>size_t\<close> arithmetic (\<open>sz_add\<close>, \<open>sz_sub\<close>, \<open>NOT_FOUND\<close>), scores (rational or \<open>-infinity\<close>), decimal
    output, loops over intervals. \<open>Std_Set\<close>: \<open>std::set\<close> over a three-way comparison; the locale \<open>three_way\<close> is
    what a comparison owes it, and is interpreted for bitmaps, words, hypotheses and feature states.
  \<^item> \<open>Words_Range\<close>, \<open>Words_Bitmap\<close>, \<open>Square_Matrix\<close> (\<open>WordsRange\<close>, \<open>WordsBitmap\<close>, \<open>SquareMatrix\<close>): spans, coverage,
    the triangular table of future scores and its sum over gaps.
  \<^item> \<open>All_Pairs\<close>, \<open>Word_Lattice\<close> (\<open>FloydWarshall\<close>, \<open>WordLattice\<close>, \<open>InputType\<close>): distances in the input and what
    can follow what.
  \<^item> \<open>Reordering_Constraint\<close>, \<open>Reordering_Stack\<close>, \<open>Lexical_Reordering\<close>: walls and zones, the shift-reduce
    stack, the lexical reordering states and their scores, which are shown to be the table scores of the orientations along
    any derivation. A score written outside of its vector or read outside of the cached scores is \<open>None\<close>.
  \<^item> \<open>Phrase_Words\<close>, \<open>Score_Components\<close>, \<open>Hypotheses\<close>, \<open>Feature_Functions\<close>: words with factors, the score vector
    of the feature functions, hypotheses with their recombination order, the feature functions that are
    not language models. The locale \<open>feature_states\<close> is the contract of the states.
  \<^item> \<open>Language_Model\<close> (\<open>LM/Implementation\<close>): n-gram scores of phrases and of hypotheses; the locale
    \<open>ngram_model\<close> is the contract of the library behind it, interpreted on the functions of the base class.
  \<^item> \<open>Hypothesis_Stack\<close>, \<open>Search_Normal\<close>, \<open>Search_Complete\<close> (\<open>HypothesisStackNormal\<close>, \<open>SearchNormal\<close>): the stacks
    and the search. Reachable hypotheses are an inductive relation, the abstract specification of the
    search; every hypothesis of a stack is reachable. With distortion, word penalty and reordering models as features
    no step fails, and when every word has an option of its own a complete hypothesis is found, whatever is pruned.
    The locale \<open>decoding\<close> is what this asks of the features, \<open>gap_filling\<close> what it asks of the options.
  \<^item> \<open>Cube_Pruning\<close>, \<open>Cube_Grid\<close> (\<open>BitmapContainer\<close>, \<open>HypothesisStackCubePruning\<close>, \<open>SearchCubePruning\<close>): the other
    search. Its stacks hold hypotheses of the abstract specification of the stack decoder only; a container
    makes hypotheses of the cells of its grids, each once, and the best first when the grids are monotone.
  \<^item> \<open>Decode_Steps\<close>, \<open>Translation_Options\<close>, \<open>Future_Costs\<close>, \<open>Option_Creation\<close> (\<open>DecodeStep*\<close>,
    \<open>TranslationOption*\<close>): how options are made, pruned, cached, and their future costs; the composition
    with the search, from tables to a translation, is in \<open>Option_Creation\<close>.
  \<^item> \<open>N_Best\<close> (\<open>TrellisPath*\<close>, \<open>Manager::CalcNBest\<close>): paths, their deviations, and the n best of them; the
    locale \<open>deviations\<close> is the enumeration it relies on, interpreted on the paths.
  \<^item> \<open>Util_Strings\<close>, \<open>Output_Collector\<close>, \<open>Thread_Pool\<close>: string helpers, ordered output, and the worker
    threads as a step relation over their critical sections.
  \<^item> \<open>Symal\<close>, \<open>Phrase_Extraction\<close> (\<open>scripts/training\<close>): symmetrisation of word alignments (the grown points are
    what the inductive \<open>grow_rule\<close> reaches from the intersection) and the phrase
    pairs extracted from them. \<open>Lossy_Counter\<close> (\<open>scripts/training/eppex\<close>): the approximate counter of phrase
    pairs, for any linearly ordered items, and the stored phrase pairs, an instance of \<open>linorder\<close>.
  \<^item> \<open>Mert_Scorers\<close>, \<open>Mert_Cder\<close> (\<open>mert\<close>): the BLEU, PER and CDER scorers of the error rate training. BLEU
    statistics are shown to be clipped n-gram matches of the token sequences, whatever the codes of the tokens;
    incremental scores are the scores from scratch; the CDER rows compute the cheapest path through a grid,
    an inductive relation. Here errors are the left summand of \<open>mert_error + 'a\<close>, combined by \<open>bindE\<close>.
  \<^item> \<open>Mert_Optimizer\<close> (\<open>mert/Optimizer.cpp\<close>, \<open>Point.cpp\<close>): the line search over upper envelopes and the method
    of Powell. The locale \<open>incremental_scorer\<close> is what the search relies on, interpreted on the scorer above;
    the search is shown to find the best weights of a line when no weights are fixed.

  \<^bold>\<open>How the code is modelled\<close>

  Classes are records, enumerations datatypes, pointers to hypotheses the values they point to. A
  failed assertion, an exception or undefined behaviour is \<open>None\<close> (a definition says which). \<open>size_t\<close> wraps
  at 2^64 where the code relies on it. \<open>float\<close> scores are rational numbers, so rounding is not modelled.
  Virtual functions, tables on disk and standard-library choices that the standard leaves open
  (\<open>std::nth_element\<close>, equal keys of a heap, the order of pointers) are arguments of the definitions, with their contract as a named
  hypothesis. Loops are folds or structural recursion; loops that could run on have a measure
  (uncovered words in \<open>Symal\<close>, the remaining input in \<open>Util_Strings\<close>) or are bounded by the length of the
  sentence, as \<open>walk\<close> in \<open>Phrase_Extraction\<close>, whose bound of two positions more than the sentence is never reached
  before the loop's own condition fails. The loops of \<open>EnsureMinStackHyps\<close> and of Powell's method are partial
  functions, shown to end.

  \<^bold>\<open>Not modelled\<close>

  Configuration (\<open>StaticData\<close>, \<open>Parameter\<close>), input and output formats, logging, memory management and
  statistics; the loaders and binary formats of phrase, generation and reordering tables; the chart
  decoder; the vendored libraries \<open>kenlm\<close>, \<open>lmserver\<close>, \<open>synlm\<close> and \<open>DynSAInclude\<close>; the remaining
  training programs, which are loops over files.
\<close>

end
